(* ===== verification/Prelude.thy ===== *)
theory Prelude
  imports Main "HOL-Library.Word" "HOL-Library.Multiset"
begin

text \<open>
  Shared vocabulary of the development: the machine types of a 64-bit build of the
  runtime system, linked lists threaded through a store, and generic lemmas on lists,
  options and powers of two that the component theories use.

  Conventions. A C pointer is a \<^typ>\<open>nat\<close> address and the null pointer is \<open>0\<close>.
  A loop that follows pointers is a \<^theory_text>\<open>partial_function (option)\<close>: \<open>None\<close>
  is a loop that never ends or a read of storage that was never written, and every
  component proves that its loops return on well-formed states.
\<close>

unbundle bit_operations_syntax

type_synonym StgWord = "64 word"
type_synonym StgWord32 = "32 word"
type_synonym StgWord8 = "8 word"
type_synonym addr = nat

abbreviation NULL :: addr where "NULL \<equiv> 0"

named_theorems lseg_simps "unfolding rules for linked lists in a store"
named_theorems rep_intros "introduction rules for representation predicates"

section \<open>Linked lists in a store\<close>

text \<open>
  \<open>lseg nxt p xs q\<close>: following the field \<open>nxt\<close> from \<open>p\<close> visits exactly the nodes
  \<open>xs\<close>, none of them null, and ends at \<open>q\<close>.  \<open>lst nxt p xs\<close> is a null-terminated list.
\<close>

primrec lseg :: "(addr \<Rightarrow> addr) \<Rightarrow> addr \<Rightarrow> addr list \<Rightarrow> addr \<Rightarrow> bool" where
  "lseg nxt p [] q = (p = q)"
| "lseg nxt p (x # xs) q = (p = x \<and> x \<noteq> NULL \<and> lseg nxt (nxt x) xs q)"

definition lst :: "(addr \<Rightarrow> addr) \<Rightarrow> addr \<Rightarrow> addr list \<Rightarrow> bool" where
  "lst nxt p xs = lseg nxt p xs NULL"

lemma lseg_append [lseg_simps]:
  "lseg nxt p (xs @ ys) q = (\<exists>r. lseg nxt p xs r \<and> lseg nxt r ys q)"
  by (induction xs arbitrary: p) auto

lemma lseg_cong:
  "(\<And>x. x \<in> set xs \<Longrightarrow> nxt x = nxt' x) \<Longrightarrow> lseg nxt p xs q = lseg nxt' p xs q"
  by (induction xs arbitrary: p) auto

lemma lseg_upd_other [simp]: "a \<notin> set xs \<Longrightarrow> lseg (nxt(a := v)) p xs q = lseg nxt p xs q"
  by (rule lseg_cong) auto

lemma lseg_not_null: "lseg nxt p xs q \<Longrightarrow> NULL \<notin> set xs"
  by (induction xs arbitrary: p) auto

lemma lst_Nil [simp]: "lst nxt p [] = (p = NULL)"
  by (simp add: lst_def)

lemma lst_Cons [simp]:
  "lst nxt p (x # xs) = (p = x \<and> x \<noteq> NULL \<and> lst nxt (nxt x) xs)"
  by (simp add: lst_def)

lemma lst_NULL [simp]: "lst nxt NULL xs = (xs = [])"
  by (cases xs) auto

lemma lst_nonnull: "p \<noteq> NULL \<Longrightarrow> lst nxt p xs \<Longrightarrow> \<exists>ys. xs = p # ys \<and> lst nxt (nxt p) ys"
  by (cases xs) auto

lemma lst_cong:
  "(\<And>x. x \<in> set xs \<Longrightarrow> nxt x = nxt' x) \<Longrightarrow> lst nxt p xs = lst nxt' p xs"
  unfolding lst_def by (rule lseg_cong)

lemma lst_upd_other [simp]: "a \<notin> set xs \<Longrightarrow> lst (nxt(a := v)) p xs = lst nxt p xs"
  by (rule lst_cong) auto

lemma lst_not_null: "lst nxt p xs \<Longrightarrow> NULL \<notin> set xs"
  unfolding lst_def by (rule lseg_not_null)

lemma lst_unique: "lst nxt p xs \<Longrightarrow> lst nxt p ys \<Longrightarrow> xs = ys"
proof (induction xs arbitrary: p ys)
  case Nil
  then show ?case by simp
next
  case (Cons x xs)
  then show ?case by (cases ys) auto
qed

lemma lst_append:
  "lst nxt p (xs @ ys) = (\<exists>r. lseg nxt p xs r \<and> lst nxt r ys)"
  by (simp add: lst_def lseg_simps)

lemma lst_suffix: "lst nxt p (xs @ x # ys) \<Longrightarrow> lst nxt x (x # ys)"
  by (auto simp: lst_append)

text \<open>A node reached twice would give two different tails, so the nodes are distinct.\<close>

lemma lst_distinct: "lst nxt p xs \<Longrightarrow> distinct xs"
proof (induction xs arbitrary: p)
  case Nil
  then show ?case by simp
next
  case (Cons x xs)
  have "x \<notin> set xs"
  proof
    assume "x \<in> set xs"
    then obtain ys zs where xs: "xs = ys @ x # zs"
      by (meson split_list)
    from Cons.prems have "lst nxt x (x # xs)" by auto
    moreover from Cons.prems xs have "lst nxt x (x # zs)"
      by (auto dest: lst_suffix)
    ultimately have "x # xs = x # zs" by (rule lst_unique)
    then show False using xs by simp
  qed
  with Cons show ?case by auto
qed

text \<open>Unlinking the node after a prefix, and putting a node in front.\<close>

lemma lseg_snoc_upd:
  "lseg nxt p (xs @ [a]) q \<Longrightarrow> distinct (xs @ [a]) \<Longrightarrow> lseg (nxt(a := r)) p (xs @ [a]) r"
  by (auto simp: lseg_simps)

lemma lst_unlink:
  assumes "lst nxt p (xs @ a # x # ys)"
  shows "lst (nxt(a := nxt x)) p (xs @ a # ys)"
proof -
  from assms have d: "distinct (xs @ a # x # ys)" by (rule lst_distinct)
  from assms obtain r where "lseg nxt p xs r" "r = a" "a \<noteq> NULL" "nxt a = x" "x \<noteq> NULL"
    "lst nxt (nxt x) ys"
    by (auto simp: lst_append)
  then show ?thesis using d by (auto simp: lst_append)
qed

lemma lst_push:
  assumes "lst nxt p xs" "a \<noteq> NULL" "a \<notin> set xs"
  shows "lst (nxt(a := p)) a (a # xs)"
  using assms by simp

section \<open>Generic lemmas\<close>

lemma bind_Some_iff: "Option.bind x f = Some y \<longleftrightarrow> (\<exists>a. x = Some a \<and> f a = Some y)"
  by (cases x) auto

lemma and_mask_int: "(x :: int) AND (2 ^ n - 1) = x mod 2 ^ n"
  by (simp add: mask_eq_exp_minus_1 [symmetric] take_bit_eq_mask [symmetric] take_bit_eq_mod)

lemma mod_double_int:
  fixes h m :: int
  assumes "0 < m"
  shows "h mod (2 * m) = h mod m \<or> h mod (2 * m) = h mod m + m"
proof -
  let ?r = "h mod (2 * m)"
  have r: "?r mod m = h mod m"
    by (simp add: mod_mod_cancel)
  have b: "0 \<le> ?r" "?r < 2 * m"
    using assms by auto
  show ?thesis
  proof (cases "?r < m")
    case True
    with b r show ?thesis by simp
  next
    case False
    then have "(?r - m) mod m = ?r - m" using b by (intro mod_pos_pos_trivial) auto
    moreover have "(?r - m) mod m = ?r mod m" by simp
    ultimately show ?thesis using r by linarith
  qed
qed

lemma div_below_multiple:
  fixes b n m :: int
  assumes "n mod m = 0" "0 < m" "b < n"
  shows "b div m \<noteq> n div m"
proof
  assume eq: "b div m = n div m"
  have "n = m * (n div m)" using assms(1) by (metis add_0_right mult_div_mod_eq)
  moreover have "m * (b div m) \<le> b" using assms(2) by (simp add: mult.commute div_mult2_eq minus_mod_eq_mult_div [symmetric])
  ultimately show False using eq assms(3) by simp
qed

lemma pred_div_same:
  fixes n m :: int
  assumes "n mod m \<noteq> 0" "0 < m"
  shows "(n - 1) div m = n div m"
proof (rule int_div_pos_eq)
  show "n - 1 = m * (n div m) + (n mod m - 1)" by simp
  have "0 \<le> n mod m" using assms(2) by simp
  then show "0 \<le> n mod m - 1" using assms(1) by linarith
  have "n mod m < m" using assms(2) by simp
  then show "n mod m - 1 < m" by linarith
qed

end
