(* ===== verification/HashTable.thy ===== *)
theory HashTable
  imports Prelude "HOL-Library.Signed_Division" "HOL-Library.Monad_Syntax"
begin

text \<open>
  The dynamically expanding linear hash tables of \<open>rts/Hash.c\<close>: cells are linked through a
  store, the directory is an array of segments, and the table grows by one bucket at a
  time.  A table owns the cells it gets from \<open>malloc\<close>, so the store of cells and the next
  address \<open>malloc\<close> hands out are fields of the table.  A result \<open>None\<close> is a read of a
  directory entry that was never written, or a chain that never ends.  The counts \<open>kcount\<close> and
  \<open>bcount\<close> are unbounded integers and \<open>int\<close> in the code.
\<close>

section \<open>The code\<close>

definition HSEGSIZE :: int where "HSEGSIZE = 1024"
definition HDIRSIZE :: int where "HDIRSIZE = 1024"
definition HLOAD :: int where "HLOAD = 5"

text \<open>\<open>1024 * sizeof(W_) / sizeof(HashList)\<close>, with 8-byte words and 24-byte cells.\<close>

definition HCHUNK :: nat where "HCHUNK = 341"

record HashList =
  hl_key :: StgWord
  hl_data :: StgWord
  hl_next :: addr

text \<open>The part of a table a hash function may look at.\<close>

record HashGeom =
  ht_split :: int
  ht_max :: int
  ht_mask1 :: int
  ht_mask2 :: int

type_synonym HashFunction = "HashGeom \<Rightarrow> StgWord \<Rightarrow> int"
type_synonym CompareFunction = "StgWord \<Rightarrow> StgWord \<Rightarrow> bool"

record HashTable = HashGeom +
  ht_kcount :: int
  ht_bcount :: int
  ht_dir :: "int \<rightharpoonup> (int \<rightharpoonup> addr)"
  ht_freeList :: addr
  ht_chunks :: "addr list"
  ht_hash :: HashFunction
  ht_compare :: CompareFunction
  ht_cells :: "addr \<Rightarrow> HashList"
  ht_brk :: addr

abbreviation hash_of :: "HashTable \<Rightarrow> StgWord \<Rightarrow> int" where
  "hash_of t \<equiv> ht_hash t (HashGeom.truncate t)"

abbreviation nxt :: "HashTable \<Rightarrow> addr \<Rightarrow> addr" where
  "nxt t \<equiv> \<lambda>p. hl_next (ht_cells t p)"

definition hashWord :: "HashGeom \<Rightarrow> StgWord \<Rightarrow> int" where
  "hashWord table key0 =
     (let key = key0 div 8;
          bucket = uint key AND ht_mask1 table
      in if bucket < ht_split table then uint key AND ht_mask2 table else bucket)"

text \<open>
  A C string is given by \<open>str\<close>: the (signed) bytes from an address up to the terminator.
\<close>

fun hashStr_loop :: "int \<Rightarrow> int list \<Rightarrow> int" where
  "hashStr_loop h [] = h"
| "hashStr_loop h (c # s) = hashStr_loop ((h * 128 + c) smod 1048583) s"

definition hashStr :: "(StgWord \<Rightarrow> int list) \<Rightarrow> HashGeom \<Rightarrow> StgWord \<Rightarrow> int" where
  "hashStr str table key =
     (let h = hashStr_loop 0 (str key);
          bucket = h AND ht_mask1 table
      in if bucket < ht_split table then h AND ht_mask2 table else bucket)"

definition compareWord :: CompareFunction where
  "compareWord key1 key2 = (key1 = key2)"

definition compareStr :: "(StgWord \<Rightarrow> int list) \<Rightarrow> CompareFunction" where
  "compareStr str key1 key2 = (str key1 = str key2)"

definition allocSegment :: "HashTable \<Rightarrow> int \<Rightarrow> HashTable" where
  "allocSegment table segment = table\<lparr>ht_dir := (ht_dir table)(segment \<mapsto> Map.empty)\<rparr>"

definition read_dir :: "HashTable \<Rightarrow> int \<Rightarrow> int \<Rightarrow> addr option" where
  "read_dir table segment index = Option.bind (ht_dir table segment) (\<lambda>seg. seg index)"

definition write_dir :: "HashTable \<Rightarrow> int \<Rightarrow> int \<Rightarrow> addr \<Rightarrow> HashTable option" where
  "write_dir table segment index p =
     (case ht_dir table segment of
        None \<Rightarrow> None
      | Some seg \<Rightarrow> Some (table\<lparr>ht_dir := (ht_dir table)(segment \<mapsto> seg(index \<mapsto> p))\<rparr>))"

definition set_next :: "HashTable \<Rightarrow> addr \<Rightarrow> addr \<Rightarrow> HashTable" where
  "set_next table p q =
     table\<lparr>ht_cells := (ht_cells table)(p := (ht_cells table p)\<lparr>hl_next := q\<rparr>)\<rparr>"

partial_function (option) expand_loop ::
  "HashTable \<Rightarrow> int \<Rightarrow> addr \<Rightarrow> addr \<Rightarrow> addr \<Rightarrow> (HashTable \<times> addr \<times> addr) option" where
  "expand_loop table newbucket hl old new =
     (if hl = NULL then Some (table, old, new)
      else let next = hl_next (ht_cells table hl)
        in if hash_of table (hl_key (ht_cells table hl)) = newbucket
           then expand_loop (set_next table hl new) newbucket next old hl
           else expand_loop (set_next table hl old) newbucket next hl new)"

definition expand :: "HashTable \<Rightarrow> HashTable option" where
  "expand table =
     (if ht_split table + ht_max table \<ge> HDIRSIZE * HSEGSIZE then Some table
      else let
          oldsegment = ht_split table div HSEGSIZE;
          oldindex = ht_split table mod HSEGSIZE;
          newbucket = ht_max table + ht_split table;
          newsegment = newbucket div HSEGSIZE;
          newindex = newbucket mod HSEGSIZE;
          t1 = (if newindex = 0 then allocSegment table newsegment else table);
          t2 = t1\<lparr>ht_split := ht_split t1 + 1\<rparr>;
          t3 = (if ht_split t2 = ht_max t2
                then t2\<lparr>ht_split := 0, ht_max := ht_max t2 * 2, ht_mask1 := ht_mask2 t2,
                        ht_mask2 := push_bit 1 (ht_mask2 t2) OR 1\<rparr>
                else t2);
          t4 = t3\<lparr>ht_bcount := ht_bcount t3 + 1\<rparr>
        in do {
          hl \<leftarrow> read_dir t4 oldsegment oldindex;
          (t5, old, new) \<leftarrow> expand_loop t4 newbucket hl NULL NULL;
          t6 \<leftarrow> write_dir t5 oldsegment oldindex old;
          write_dir t6 newsegment newindex new
        })"

partial_function (option) lookup_loop :: "HashTable \<Rightarrow> StgWord \<Rightarrow> addr \<Rightarrow> StgWord option" where
  "lookup_loop table key hl =
     (if hl = NULL then Some 0
      else if ht_compare table (hl_key (ht_cells table hl)) key
      then Some (hl_data (ht_cells table hl))
      else lookup_loop table key (hl_next (ht_cells table hl)))"

definition lookupHashTable :: "HashTable \<Rightarrow> StgWord \<Rightarrow> StgWord option" where
  "lookupHashTable table key =
     (let bucket = hash_of table key;
          segment = bucket div HSEGSIZE;
          index = bucket mod HSEGSIZE
      in do { hl \<leftarrow> read_dir table segment index; lookup_loop table key hl })"

text \<open>
  \<open>link_chunk p n\<close> runs \<open>for (; p < end; p++) p->next = p + 1\<close> for the \<open>n\<close> cells before
  \<open>end\<close>, then clears the link of the last cell.
\<close>

fun link_chunk :: "HashTable \<Rightarrow> addr \<Rightarrow> nat \<Rightarrow> HashTable" where
  "link_chunk table p 0 = set_next table p NULL"
| "link_chunk table p (Suc n) = link_chunk (set_next table p (p + 1)) (p + 1) n"

definition allocHashList :: "HashTable \<Rightarrow> addr \<times> HashTable" where
  "allocHashList table =
     (if ht_freeList table \<noteq> NULL
      then (let hl = ht_freeList table
            in (hl, table\<lparr>ht_freeList := hl_next (ht_cells table hl)\<rparr>))
      else (let hl = ht_brk table;
                t1 = table\<lparr>ht_brk := ht_brk table + HCHUNK\<rparr>;
                t2 = t1\<lparr>ht_chunks := hl # ht_chunks t1\<rparr>;
                t3 = t2\<lparr>ht_freeList := hl + 1\<rparr>
            in (hl, link_chunk t3 (hl + 1) (HCHUNK - 2))))"

definition freeHashList :: "HashTable \<Rightarrow> addr \<Rightarrow> HashTable" where
  "freeHashList table hl = (set_next table hl (ht_freeList table))\<lparr>ht_freeList := hl\<rparr>"

definition insertHashTable :: "HashTable \<Rightarrow> StgWord \<Rightarrow> StgWord \<Rightarrow> HashTable option" where
  "insertHashTable table key data = do {
     let t0 = table\<lparr>ht_kcount := ht_kcount table + 1\<rparr>;
     t1 \<leftarrow> (if ht_kcount t0 \<ge> HLOAD * ht_bcount t0 then expand t0 else Some t0);
     let bucket = hash_of t1 key;
     let segment = bucket div HSEGSIZE;
     let index = bucket mod HSEGSIZE;
     let (hl, t2) = allocHashList t1;
     head \<leftarrow> read_dir t2 segment index;
     let t3 = t2\<lparr>ht_cells := (ht_cells t2)
                 (hl := \<lparr>hl_key = key, hl_data = data, hl_next = head\<rparr>)\<rparr>;
     write_dir t3 segment index hl
   }"

text \<open>
  The removal loop carries \<open>prev\<close>.  It answers the updated table and the data removed;
  a null answer with a non-null \<open>data\<close> argument fails the assertion after the loop.
\<close>

partial_function (option) remove_loop ::
  "HashTable \<Rightarrow> StgWord \<Rightarrow> StgWord \<Rightarrow> int \<Rightarrow> int \<Rightarrow> addr \<Rightarrow> addr
     \<Rightarrow> (HashTable \<times> StgWord) option" where
  "remove_loop table key data segment index hl prev =
     (if hl = NULL then (if data = 0 then Some (table, 0) else None)
      else if ht_compare table (hl_key (ht_cells table hl)) key
              \<and> (data = 0 \<or> hl_data (ht_cells table hl) = data)
      then do {
        t1 \<leftarrow> (if prev = NULL
               then write_dir table segment index (hl_next (ht_cells table hl))
               else Some (set_next table prev (hl_next (ht_cells table hl))));
        let t2 = freeHashList t1 hl;
        let t3 = t2\<lparr>ht_kcount := ht_kcount t2 - 1\<rparr>;
        Some (t3, hl_data (ht_cells t3 hl))
      }
      else remove_loop table key data segment index (hl_next (ht_cells table hl)) hl)"

definition removeHashTable ::
  "HashTable \<Rightarrow> StgWord \<Rightarrow> StgWord \<Rightarrow> (HashTable \<times> StgWord) option" where
  "removeHashTable table key data =
     (let bucket = hash_of table key;
          segment = bucket div HSEGSIZE;
          index = bucket mod HSEGSIZE
      in do { hl \<leftarrow> read_dir table segment index;
              remove_loop table key data segment index hl NULL })"

text \<open>
  \<open>freeHashTable\<close> walks the buckets from the last one down and hands each datum to the
  caller's function: the model answers the data in the order they are freed, and the
  chunks released.
\<close>

partial_function (option) free_chain :: "HashTable \<Rightarrow> addr \<Rightarrow> StgWord list option" where
  "free_chain table hl =
     (if hl = NULL then Some []
      else do { ds \<leftarrow> free_chain table (hl_next (ht_cells table hl));
                Some (hl_data (ht_cells table hl) # ds) })"

fun free_index :: "HashTable \<Rightarrow> int \<Rightarrow> nat \<Rightarrow> StgWord list option" where
  "free_index table segment 0 = Some []"
| "free_index table segment (Suc i) = do {
     hl \<leftarrow> read_dir table segment (int i);
     ds \<leftarrow> free_chain table hl;
     es \<leftarrow> free_index table segment i;
     Some (ds @ es) }"

fun free_segments :: "HashTable \<Rightarrow> nat \<Rightarrow> nat \<Rightarrow> StgWord list option" where
  "free_segments table 0 n = free_index table 0 n"
| "free_segments table (Suc s) n = do {
     ds \<leftarrow> free_index table (int (Suc s)) n;
     es \<leftarrow> free_segments table s (nat HSEGSIZE);
     Some (ds @ es) }"

definition freeHashTable :: "HashTable \<Rightarrow> (StgWord list \<times> addr list) option" where
  "freeHashTable table =
     (let segment = (ht_max table + ht_split table - 1) div HSEGSIZE;
          index = (ht_max table + ht_split table - 1) mod HSEGSIZE
      in do { ds \<leftarrow> free_segments table (nat segment) (nat index + 1);
              Some (ds, ht_chunks table) })"

definition allocHashTable_with :: "HashFunction \<Rightarrow> CompareFunction \<Rightarrow> HashTable" where
  "allocHashTable_with hash compare =
     \<lparr>ht_split = 0, ht_max = HSEGSIZE, ht_mask1 = HSEGSIZE - 1, ht_mask2 = 2 * HSEGSIZE - 1,
      ht_kcount = 0, ht_bcount = HSEGSIZE,
      ht_dir = [0 \<mapsto> (\<lambda>i. if 0 \<le> i \<and> i < HSEGSIZE then Some NULL else None)],
      ht_freeList = NULL, ht_chunks = [], ht_hash = hash, ht_compare = compare,
      ht_cells = (\<lambda>_. \<lparr>hl_key = 0, hl_data = 0, hl_next = NULL\<rparr>), ht_brk = 1\<rparr>"

definition allocHashTable :: HashTable where
  "allocHashTable = allocHashTable_with hashWord compareWord"

definition allocStrHashTable :: "(StgWord \<Rightarrow> int list) \<Rightarrow> HashTable" where
  "allocStrHashTable str = allocHashTable_with (hashStr str) (compareStr str)"

section \<open>The contract of a hash function\<close>

text \<open>
  What the table relies on: the bucket is computed from a hash code by masking, twice when
  the small mask falls below the split point, and keys that compare equal have equal codes.
\<close>

definition bucket_of :: "HashGeom \<Rightarrow> int \<Rightarrow> int" where
  "bucket_of g c =
     (if c AND ht_mask1 g < ht_split g then c AND ht_mask2 g else c AND ht_mask1 g)"

definition geom_ok :: "HashGeom \<Rightarrow> nat \<Rightarrow> bool" where
  "geom_ok g k \<longleftrightarrow> 10 \<le> k \<and> ht_max g = 2 ^ k \<and> ht_mask1 g = 2 ^ k - 1
     \<and> ht_mask2 g = 2 ^ Suc k - 1 \<and> 0 \<le> ht_split g \<and> ht_split g < ht_max g
     \<and> ht_max g + ht_split g \<le> HDIRSIZE * HSEGSIZE"

definition grow_geom :: "HashGeom \<Rightarrow> HashGeom" where
  "grow_geom g =
     (let g1 = g\<lparr>ht_split := ht_split g + 1\<rparr>
      in if ht_split g1 = ht_max g1
         then g1\<lparr>ht_split := 0, ht_max := ht_max g1 * 2, ht_mask1 := ht_mask2 g1,
                  ht_mask2 := push_bit 1 (ht_mask2 g1) OR 1\<rparr>
         else g1)"

definition buckets :: "HashGeom \<Rightarrow> int" where
  "buckets g = ht_max g + ht_split g"

lemma bucket_of_mod:
  assumes "geom_ok g k"
  shows "bucket_of g c = (if c mod 2 ^ k < ht_split g then c mod 2 ^ Suc k else c mod 2 ^ k)"
  using assms unfolding bucket_of_def geom_ok_def by (simp only: and_mask_int)

lemma bucket_of_range:
  assumes "geom_ok g k"
  shows "0 \<le> bucket_of g c" "bucket_of g c < buckets g"
proof -
  have r: "0 \<le> c mod 2 ^ k" "c mod 2 ^ k < 2 ^ k" by auto
  have "c mod 2 ^ Suc k = c mod 2 ^ k \<or> c mod 2 ^ Suc k = c mod 2 ^ k + 2 ^ k"
    using mod_double_int [of "2 ^ k" c] by simp
  moreover have "ht_max g = 2 ^ k" "0 \<le> ht_split g"
    using assms by (auto simp: geom_ok_def)
  ultimately have "0 \<le> bucket_of g c \<and> bucket_of g c < buckets g"
    using r bucket_of_mod [OF assms, of c] unfolding buckets_def
    by (cases "c mod 2 ^ k < ht_split g") (simp_all only: if_True if_False, (intro conjI TrueI; linarith)+)
  then show "0 \<le> bucket_of g c" "bucket_of g c < buckets g" by auto
qed

lemma push_mask: "push_bit 1 (2 ^ n - 1 :: int) OR 1 = 2 ^ Suc n - 1"
proof -
  have "push_bit 1 (mask n :: int) OR 1 = mask (Suc n)"
    by (simp add: mask_Suc_double or.commute push_bit_eq_mult mult.commute)
  then show ?thesis by (simp add: mask_eq_exp_minus_1)
qed

lemma grow_geom_ok:
  assumes ok: "geom_ok g k" and small: "buckets g < HDIRSIZE * HSEGSIZE"
  shows "\<exists>k'. geom_ok (grow_geom g) k'" "buckets (grow_geom g) = buckets g + 1"
proof -
  show "\<exists>k'. geom_ok (grow_geom g) k'"
  proof (cases "ht_split g + 1 = ht_max g")
    case True
    then have "geom_ok (grow_geom g) (Suc k)"
      using assms push_mask [of "Suc k"] by (auto simp: geom_ok_def grow_geom_def buckets_def Let_def)
    then show ?thesis ..
  next
    case False
    then have "geom_ok (grow_geom g) k"
      using assms by (auto simp: geom_ok_def grow_geom_def buckets_def Let_def)
    then show ?thesis ..
  qed
  show "buckets (grow_geom g) = buckets g + 1"
    by (simp add: grow_geom_def buckets_def Let_def)
qed

text \<open>Only the bucket at the split point is affected, and it splits in two.\<close>

lemma bucket_of_grow:
  assumes ok: "geom_ok g k" and small: "buckets g < HDIRSIZE * HSEGSIZE"
  shows "bucket_of g c \<noteq> ht_split g \<Longrightarrow> bucket_of (grow_geom g) c = bucket_of g c"
    and "bucket_of g c = ht_split g \<Longrightarrow>
         bucket_of (grow_geom g) c = ht_split g \<or> bucket_of (grow_geom g) c = buckets g"
proof -
  have m: "c mod 2 ^ Suc k = c mod 2 ^ k \<or> c mod 2 ^ Suc k = c mod 2 ^ k + 2 ^ k"
    using mod_double_int [of "2 ^ k" c] by simp
  have r: "0 \<le> c mod 2 ^ k" "c mod 2 ^ k < 2 ^ k" by auto
  have old: "bucket_of g c = (if c mod 2 ^ k < ht_split g then c mod 2 ^ Suc k else c mod 2 ^ k)"
    by (rule bucket_of_mod [OF ok])
  have new: "bucket_of (grow_geom g) c =
      (if c mod 2 ^ k < ht_split g + 1 then c mod 2 ^ Suc k else c mod 2 ^ k)"
  proof (cases "ht_split g + 1 = ht_max g")
    case True
    then have ok': "geom_ok (grow_geom g) (Suc k)"
      using assms push_mask [of "Suc k"] by (auto simp: geom_ok_def grow_geom_def buckets_def Let_def)
    have "0 \<le> c mod 2 ^ Suc k" "ht_split (grow_geom g) = 0" "ht_split g + 1 = 2 ^ k"
      using True ok by (simp_all add: grow_geom_def geom_ok_def Let_def del: power_Suc)
    with r show ?thesis by (simp only: bucket_of_mod [OF ok'] not_less [symmetric] if_False) simp
  next
    case False
    then have "geom_ok (grow_geom g) k"
      using assms by (auto simp: geom_ok_def grow_geom_def buckets_def Let_def)
    then show ?thesis using False by (simp add: bucket_of_mod) (simp add: grow_geom_def Let_def)
  qed
  show "bucket_of g c \<noteq> ht_split g \<Longrightarrow> bucket_of (grow_geom g) c = bucket_of g c"
    using old new m by (auto split: if_splits)
  show "bucket_of g c = ht_split g \<Longrightarrow>
      bucket_of (grow_geom g) c = ht_split g \<or> bucket_of (grow_geom g) c = buckets g"
    using old new m r ok by (auto simp: geom_ok_def buckets_def split: if_splits)
qed

locale hash_contract =
  fixes hash :: HashFunction and compare :: CompareFunction and code :: "StgWord \<Rightarrow> int"
  assumes hash_bucket: "hash g k = bucket_of g (code k)"
    and compare_refl: "compare k k"
    and compare_sym: "compare k k' \<Longrightarrow> compare k' k"
    and compare_trans: "compare k k' \<Longrightarrow> compare k' k'' \<Longrightarrow> compare k k''"
    and compare_code: "compare k k' \<Longrightarrow> code k = code k'"
begin

lemma hash_compare: "compare k k' \<Longrightarrow> hash g k = hash g k'"
  using compare_code by (simp add: hash_bucket)

lemma hash_range:
  "geom_ok g n \<Longrightarrow> 0 \<le> hash g k" "geom_ok g n \<Longrightarrow> hash g k < buckets g"
  by (simp_all add: hash_bucket bucket_of_range)

lemma hash_grow:
  assumes "geom_ok g n" "buckets g < HDIRSIZE * HSEGSIZE"
  shows "hash g k \<noteq> ht_split g \<Longrightarrow> hash (grow_geom g) k = hash g k"
    and "hash g k = ht_split g \<Longrightarrow>
         hash (grow_geom g) k = ht_split g \<or> hash (grow_geom g) k = buckets g"
  using bucket_of_grow [OF assms, of "code k"] by (simp_all add: hash_bucket)

end

interpretation word_hash: hash_contract hashWord compareWord "\<lambda>k. uint (k div 8)"
  by unfold_locales (auto simp: hashWord_def bucket_of_def compareWord_def Let_def)

interpretation str_hash: hash_contract "hashStr str" "compareStr str" "\<lambda>k. hashStr_loop 0 (str k)"
  for str
  by unfold_locales (auto simp: hashStr_def bucket_of_def compareStr_def Let_def)

section \<open>Representation\<close>

text \<open>
  \<open>ht_rep t bs fl\<close>: bucket \<open>b\<close> of the table is the chain of cells \<open>bs b\<close>, the free list is
  \<open>fl\<close>, no cell is on two lists, and every cell is in the bucket its key hashes to.
\<close>

abbreviation geom :: "HashTable \<Rightarrow> HashGeom" where
  "geom t \<equiv> HashGeom.truncate t"

abbreviation cell_key :: "HashTable \<Rightarrow> addr \<Rightarrow> StgWord" where
  "cell_key t x \<equiv> hl_key (ht_cells t x)"

abbreviation cell_data :: "HashTable \<Rightarrow> addr \<Rightarrow> StgWord" where
  "cell_data t x \<equiv> hl_data (ht_cells t x)"

definition cells_of :: "(int \<Rightarrow> addr list) \<Rightarrow> addr set" where
  "cells_of bs = (\<Union>b. set (bs b))"

definition separate :: "(int \<Rightarrow> addr list) \<Rightarrow> bool" where
  "separate bs \<longleftrightarrow> (\<forall>b b'. b \<noteq> b' \<longrightarrow> set (bs b) \<inter> set (bs b') = {})"

definition chains_ok :: "HashTable \<Rightarrow> (int \<Rightarrow> addr list) \<Rightarrow> bool" where
  "chains_ok t bs \<longleftrightarrow> (\<forall>b. 0 \<le> b \<and> b < buckets (geom t) \<longrightarrow>
     (\<exists>p. read_dir t (b div HSEGSIZE) (b mod HSEGSIZE) = Some p \<and> lst (nxt t) p (bs b)))"

definition ht_rep :: "HashTable \<Rightarrow> (int \<Rightarrow> addr list) \<Rightarrow> addr list \<Rightarrow> bool" where
  "ht_rep t bs fl \<longleftrightarrow>
     (\<exists>k. geom_ok (geom t) k) \<and> ht_bcount t = buckets (geom t)
     \<and> chains_ok t bs
     \<and> (\<forall>b. b < 0 \<or> buckets (geom t) \<le> b \<longrightarrow> bs b = [])
     \<and> lst (nxt t) (ht_freeList t) fl
     \<and> separate bs \<and> cells_of bs \<inter> set fl = {}
     \<and> (\<forall>x \<in> cells_of bs \<union> set fl. x < ht_brk t) \<and> 0 < ht_brk t
     \<and> (\<forall>b. \<forall>x \<in> set (bs b). hash_of t (cell_key t x) = b)"

text \<open>The pairs a table holds, as a multiset.\<close>

definition bucket_bag :: "HashTable \<Rightarrow> addr list \<Rightarrow> (StgWord \<times> StgWord) multiset" where
  "bucket_bag t xs = mset (map (\<lambda>x. (cell_key t x, cell_data t x)) xs)"

definition bag :: "HashTable \<Rightarrow> (int \<Rightarrow> addr list) \<Rightarrow> (StgWord \<times> StgWord) multiset" where
  "bag t bs = (\<Sum>b\<in>{0..<buckets (geom t)}. bucket_bag t (bs b))"

text \<open>A table of the right kind that represents the multiset \<open>M\<close>, with the right count.\<close>

definition ht_holds ::
  "HashFunction \<Rightarrow> CompareFunction \<Rightarrow> HashTable \<Rightarrow> (StgWord \<times> StgWord) multiset \<Rightarrow> bool" where
  "ht_holds hash compare t M \<longleftrightarrow> ht_hash t = hash \<and> ht_compare t = compare
     \<and> (\<exists>bs fl. ht_rep t bs fl \<and> M = bag t bs) \<and> ht_kcount t = int (size M)"

lemma geom_sel [simp]:
  "ht_split (geom t) = ht_split t" "ht_max (geom t) = ht_max t"
  "ht_mask1 (geom t) = ht_mask1 t" "ht_mask2 (geom t) = ht_mask2 t"
  by (simp_all add: HashGeom.truncate_def)

lemma geom_upd [simp]:
  "geom (ht_kcount_update f1 t) = geom t" "geom (ht_bcount_update f1 t) = geom t"
  "geom (ht_dir_update f2 t) = geom t" "geom (ht_freeList_update f3 t) = geom t"
  "geom (ht_chunks_update f4 t) = geom t" "geom (ht_cells_update f5 t) = geom t"
  "geom (ht_brk_update f3 t) = geom t"
  "geom (ht_hash_update f6 t) = geom t" "geom (ht_compare_update f7 t) = geom t"
  by (simp_all add: HashGeom.truncate_def)

lemma read_dir_upd [simp]:
  "read_dir (ht_kcount_update f1 t) s i = read_dir t s i"
  "read_dir (ht_bcount_update f1 t) s i = read_dir t s i"
  "read_dir (ht_freeList_update f3 t) s i = read_dir t s i"
  "read_dir (ht_chunks_update f4 t) s i = read_dir t s i"
  "read_dir (ht_cells_update f5 t) s i = read_dir t s i"
  "read_dir (ht_brk_update f3 t) s i = read_dir t s i"
  "read_dir (ht_split_update f1 t) s i = read_dir t s i"
  "read_dir (ht_max_update f1 t) s i = read_dir t s i"
  "read_dir (ht_mask1_update f1 t) s i = read_dir t s i"
  "read_dir (ht_mask2_update f1 t) s i = read_dir t s i"
  "read_dir (ht_hash_update f6 t) s i = read_dir t s i"
  "read_dir (ht_compare_update f7 t) s i = read_dir t s i"
  by (simp_all add: read_dir_def)

text \<open>Distinct buckets have distinct directory positions.\<close>

lemma dir_pos_inj:
  "b \<noteq> b' \<Longrightarrow> \<not> (b div HSEGSIZE = b' div HSEGSIZE \<and> b mod HSEGSIZE = b' mod HSEGSIZE)"
  by (metis div_mult_mod_eq)

lemma write_dir_ok:
  assumes "ht_dir t s \<noteq> None"
  shows "\<exists>d. write_dir t s i p = Some (t\<lparr>ht_dir := d\<rparr>)
     \<and> (\<forall>s' i'. read_dir (t\<lparr>ht_dir := d\<rparr>) s' i' =
          (if s' = s \<and> i' = i then Some p else read_dir t s' i'))
     \<and> (\<forall>s'. d s' = None \<longleftrightarrow> ht_dir t s' = None)"
proof -
  from assms obtain seg where seg: "ht_dir t s = Some seg" by auto
  show ?thesis
    by (rule exI [of _ "(ht_dir t)(s \<mapsto> seg(i \<mapsto> p))"])
      (auto simp: seg write_dir_def read_dir_def)
qed

lemma read_dir_alloc: "read_dir t s i = Some p \<Longrightarrow> ht_dir t s \<noteq> None"
  by (auto simp: read_dir_def bind_eq_Some_conv)

lemma rep_bucket:
  assumes rep: "ht_rep t bs fl"
  shows "distinct (bs b)" "x \<in> set (bs b) \<Longrightarrow> 0 \<le> b \<and> b < buckets (geom t)"
    "x \<in> set (bs b) \<Longrightarrow> x \<noteq> NULL"
proof -
  have out: "bs b = []" if "\<not> (0 \<le> b \<and> b < buckets (geom t))"
    using rep that unfolding ht_rep_def by (meson not_le)
  have l: "\<exists>p. lst (nxt t) p (bs b)" if "0 \<le> b \<and> b < buckets (geom t)"
    using rep that by (auto simp: ht_rep_def chains_ok_def)
  show "distinct (bs b)" using out l lst_distinct by (metis distinct.simps(1))
  show "x \<in> set (bs b) \<Longrightarrow> 0 \<le> b \<and> b < buckets (geom t)" using out by fastforce
  show "x \<in> set (bs b) \<Longrightarrow> x \<noteq> NULL" using out l lst_not_null by (metis empty_iff list.set(1))
qed

section \<open>Lookup\<close>

fun find_cell :: "HashTable \<Rightarrow> StgWord \<Rightarrow> addr list \<Rightarrow> addr option" where
  "find_cell t k [] = None"
| "find_cell t k (x # xs) = (if ht_compare t (cell_key t x) k then Some x else find_cell t k xs)"

lemma lookup_loop_list:
  "lst (nxt t) p xs \<Longrightarrow>
   lookup_loop t k p = Some (case find_cell t k xs of None \<Rightarrow> 0 | Some x \<Rightarrow> cell_data t x)"
proof (induction xs arbitrary: p)
  case Nil
  then show ?case by (simp add: lookup_loop.simps)
next
  case (Cons x xs)
  then show ?case by (auto simp: lookup_loop.simps [of t k x])
qed

lemma find_cell_Some:
  "find_cell t k xs = Some x \<Longrightarrow> x \<in> set xs \<and> ht_compare t (cell_key t x) k"
  by (induction xs) (auto split: if_splits)

lemma find_cell_None:
  "find_cell t k xs = None \<longleftrightarrow> (\<forall>x \<in> set xs. \<not> ht_compare t (cell_key t x) k)"
  by (induction xs) auto

lemma bag_mem:
  "(k, d) \<in># bag t bs \<longleftrightarrow>
     (\<exists>b x. 0 \<le> b \<and> b < buckets (geom t) \<and> x \<in> set (bs b) \<and> k = cell_key t x \<and> d = cell_data t x)"
  by (auto simp: bag_def bucket_bag_def set_mset_sum)

context hash_contract
begin

lemma rep_hash_range:
  assumes "ht_rep t bs fl" "ht_hash t = hash"
  shows "0 \<le> hash_of t k" "hash_of t k < buckets (geom t)"
  using assms hash_range by (auto simp: ht_rep_def)

lemma rep_chain:
  assumes "ht_rep t bs fl" "ht_hash t = hash"
  shows "\<exists>p. read_dir t (hash_of t k div HSEGSIZE) (hash_of t k mod HSEGSIZE) = Some p
     \<and> lst (nxt t) p (bs (hash_of t k))"
  using assms rep_hash_range [OF assms, of k] by (auto simp: ht_rep_def chains_ok_def)

lemma lookup_cell:
  assumes "ht_rep t bs fl" "ht_hash t = hash"
  shows "lookupHashTable t k = Some (case find_cell t k (bs (hash_of t k)) of
           None \<Rightarrow> 0 | Some x \<Rightarrow> cell_data t x)"
  using rep_chain [OF assms, of k] by (auto simp: lookupHashTable_def lookup_loop_list)

text \<open>A cell whose key compares equal to \<open>k\<close> is in the bucket of \<open>k\<close>.\<close>

lemma matching_cell_bucket:
  assumes rep: "ht_rep t bs fl" and t: "ht_hash t = hash" "ht_compare t = compare"
    and x: "x \<in> set (bs b)" "compare (cell_key t x) k"
  shows "b = hash_of t k"
proof -
  from rep x(1) have "hash_of t (cell_key t x) = b" by (simp add: ht_rep_def)
  with hash_compare [OF x(2), of "geom t"] t show ?thesis by simp
qed

theorem lookup_bag:
  assumes holds: "ht_holds hash compare t M"
  shows "\<exists>d. lookupHashTable t k = Some d
     \<and> ((\<exists>k'. compare k' k \<and> (k', d) \<in># M) \<or> (d = 0 \<and> (\<forall>k' d'. (k', d') \<in># M \<longrightarrow> \<not> compare k' k)))"
proof -
  from holds obtain bs fl where t: "ht_hash t = hash" "ht_compare t = compare"
    and rep: "ht_rep t bs fl" and M: "M = bag t bs"
    by (auto simp: ht_holds_def)
  note look = lookup_cell [OF rep t(1), of k]
  note r = rep_hash_range [OF rep t(1), of k]
  show ?thesis
  proof (cases "find_cell t k (bs (hash_of t k))")
    case None
    have "\<not> compare k' k" if "(k', d') \<in># M" for k' d'
    proof
      assume c: "compare k' k"
      from that obtain b x where "x \<in> set (bs b)" "k' = cell_key t x"
        by (auto simp: M bag_mem)
      with c matching_cell_bucket [OF rep t, of x b k] None t show False
        by (auto simp: find_cell_None)
    qed
    with look None show ?thesis by auto
  next
    case (Some x)
    then have "x \<in> set (bs (hash_of t k))" "compare (cell_key t x) k"
      using t by (auto dest: find_cell_Some)
    then have "(cell_key t x, cell_data t x) \<in># M" "compare (cell_key t x) k"
      using r by (auto simp: M bag_mem)
    with look Some show ?thesis by auto
  qed
qed

end

section \<open>Expansion\<close>

lemma set_next_sel [simp]:
  "ht_hash (set_next t p q) = ht_hash t" "ht_compare (set_next t p q) = ht_compare t"
  "geom (set_next t p q) = geom t" "ht_bcount (set_next t p q) = ht_bcount t"
  "ht_kcount (set_next t p q) = ht_kcount t" "ht_dir (set_next t p q) = ht_dir t"
  "ht_freeList (set_next t p q) = ht_freeList t" "ht_brk (set_next t p q) = ht_brk t"
  "cell_key (set_next t p q) x = cell_key t x" "cell_data (set_next t p q) x = cell_data t x"
  "nxt (set_next t p q) = (nxt t)(p := q)" "read_dir (set_next t p q) = read_dir t"
  by (auto simp: set_next_def fun_eq_iff)

text \<open>
  \<open>relinked A t t'\<close>: the tables differ only in the link fields of the cells in \<open>A\<close>.
\<close>

definition relinked :: "addr set \<Rightarrow> HashTable \<Rightarrow> HashTable \<Rightarrow> bool" where
  "relinked A t t' \<longleftrightarrow> (\<exists>c. t' = t\<lparr>ht_cells := c\<rparr>
     \<and> (\<forall>x. hl_key (c x) = cell_key t x \<and> hl_data (c x) = cell_data t x)
     \<and> (\<forall>x. x \<notin> A \<longrightarrow> c x = ht_cells t x))"

lemma relinked_refl: "relinked A t t"
  unfolding relinked_def by (rule exI [of _ "ht_cells t"]) simp

lemma relinked_set_next: "relinked A (set_next t x q) t' \<Longrightarrow> relinked (insert x A) t t'"
  unfolding relinked_def set_next_def by (auto split: if_splits)

lemma relinked_sel:
  assumes "relinked A t t'"
  shows "ht_hash t' = ht_hash t" "ht_compare t' = ht_compare t" "geom t' = geom t"
    "ht_bcount t' = ht_bcount t" "ht_kcount t' = ht_kcount t" "ht_freeList t' = ht_freeList t"
    "ht_brk t' = ht_brk t" "ht_dir t' = ht_dir t" "read_dir t' = read_dir t"
    "cell_key t' x = cell_key t x" "cell_data t' x = cell_data t x"
  using assms by (auto simp: relinked_def fun_eq_iff)

lemma relinked_lst:
  "relinked A t t' \<Longrightarrow> set xs \<inter> A = {} \<Longrightarrow> lst (nxt t') p xs = lst (nxt t) p xs"
  by (rule lst_cong) (auto simp: relinked_def)

abbreviation goes_to :: "HashTable \<Rightarrow> int \<Rightarrow> addr \<Rightarrow> bool" where
  "goes_to t nb \<equiv> \<lambda>x. hash_of t (cell_key t x) = nb"

lemma expand_loop_list:
  assumes "lst (nxt t) p xs" "lst (nxt t) old os" "lst (nxt t) new ns"
    and "set xs \<inter> set os = {}" "set xs \<inter> set ns = {}" "set os \<inter> set ns = {}"
  shows "\<exists>t' old' new'. expand_loop t nb p old new = Some (t', old', new')
     \<and> relinked (set xs) t t'
     \<and> lst (nxt t') old' (rev (filter (\<lambda>x. \<not> goes_to t nb x) xs) @ os)
     \<and> lst (nxt t') new' (rev (filter (goes_to t nb) xs) @ ns)"
  using assms
proof (induction xs arbitrary: t p old new os ns)
  case Nil
  then show ?case by (auto simp: expand_loop.simps relinked_refl)
next
  case (Cons x xs)
  then have p: "p = x" "x \<noteq> NULL" and tl: "lst (nxt t) (nxt t x) xs" and x: "x \<notin> set xs"
    using lst_distinct [OF Cons.prems(1)] by auto
  show ?case
  proof (cases "goes_to t nb x")
    case True
    have "\<exists>t' old' new'. expand_loop (set_next t x new) nb (nxt t x) old x = Some (t', old', new')
       \<and> relinked (set xs) (set_next t x new) t'
       \<and> lst (nxt t') old' (rev (filter (\<lambda>y. \<not> goes_to (set_next t x new) nb y) xs) @ os)
       \<and> lst (nxt t') new' (rev (filter (goes_to (set_next t x new) nb) xs) @ x # ns)"
      by (rule Cons.IH) (use Cons.prems p tl x in auto)
    then show ?thesis
      using True p by (auto simp: expand_loop.simps [of t nb x] dest: relinked_set_next)
  next
    case False
    have "\<exists>t' old' new'. expand_loop (set_next t x old) nb (nxt t x) x new = Some (t', old', new')
       \<and> relinked (set xs) (set_next t x old) t'
       \<and> lst (nxt t') old' (rev (filter (\<lambda>y. \<not> goes_to (set_next t x old) nb y) xs) @ x # os)
       \<and> lst (nxt t') new' (rev (filter (goes_to (set_next t x old) nb) xs) @ ns)"
      by (rule Cons.IH) (use Cons.prems p tl x in auto)
    then show ?thesis
      using False p by (auto simp: expand_loop.simps [of t nb x] dest: relinked_set_next)
  qed
qed

text \<open>The table just before the bucket is split: one more bucket, the directory ready.\<close>

definition grown :: "HashTable \<Rightarrow> HashTable" where
  "grown table =
     (let t1 = (if buckets (geom table) mod HSEGSIZE = 0
                then allocSegment table (buckets (geom table) div HSEGSIZE) else table);
          t2 = t1\<lparr>ht_split := ht_split t1 + 1\<rparr>;
          t3 = (if ht_split t2 = ht_max t2
                then t2\<lparr>ht_split := 0, ht_max := ht_max t2 * 2, ht_mask1 := ht_mask2 t2,
                        ht_mask2 := push_bit 1 (ht_mask2 t2) OR 1\<rparr>
                else t2)
      in t3\<lparr>ht_bcount := ht_bcount t3 + 1\<rparr>)"

lemma grown_sel:
  "geom (grown t) = grow_geom (geom t)" "ht_bcount (grown t) = ht_bcount t + 1"
  "ht_kcount (grown t) = ht_kcount t" "ht_hash (grown t) = ht_hash t"
  "ht_compare (grown t) = ht_compare t" "ht_cells (grown t) = ht_cells t"
  "ht_freeList (grown t) = ht_freeList t" "ht_brk (grown t) = ht_brk t"
  by (simp_all add: grown_def grow_geom_def allocSegment_def Let_def HashGeom.truncate_def)

lemma expand_grown:
  assumes "buckets (geom t) < HDIRSIZE * HSEGSIZE"
  shows "expand t = do {
     hl \<leftarrow> read_dir (grown t) (ht_split t div HSEGSIZE) (ht_split t mod HSEGSIZE);
     (t5, old, new) \<leftarrow> expand_loop (grown t) (buckets (geom t)) hl NULL NULL;
     t6 \<leftarrow> write_dir t5 (ht_split t div HSEGSIZE) (ht_split t mod HSEGSIZE) old;
     write_dir t6 (buckets (geom t) div HSEGSIZE) (buckets (geom t) mod HSEGSIZE) new }"
  using assms unfolding expand_def grown_def by (simp add: buckets_def Let_def add.commute)

lemma grown_dir:
  assumes rep: "ht_rep t bs fl"
  shows "0 \<le> b \<Longrightarrow> b < buckets (geom t) \<Longrightarrow>
      read_dir (grown t) (b div HSEGSIZE) (b mod HSEGSIZE) = read_dir t (b div HSEGSIZE) (b mod HSEGSIZE)"
    and "ht_dir (grown t) (buckets (geom t) div HSEGSIZE) \<noteq> None"
proof -
  let ?n = "buckets (geom t)"
  have dir: "ht_dir (grown t) = (if ?n mod HSEGSIZE = 0
      then (ht_dir t)(?n div HSEGSIZE \<mapsto> Map.empty) else ht_dir t)"
    by (simp add: grown_def allocSegment_def Let_def)
  show "read_dir (grown t) (b div HSEGSIZE) (b mod HSEGSIZE) = read_dir t (b div HSEGSIZE) (b mod HSEGSIZE)"
    if "0 \<le> b" "b < ?n"
  proof (cases "?n mod HSEGSIZE = 0")
    case True
    then have "b div HSEGSIZE \<noteq> ?n div HSEGSIZE"
      using that by (intro div_below_multiple) (auto simp: HSEGSIZE_def)
    then show ?thesis using dir by (simp add: read_dir_def)
  next
    case False
    then show ?thesis using dir by (simp add: read_dir_def)
  qed
  show "ht_dir (grown t) (?n div HSEGSIZE) \<noteq> None"
  proof (cases "?n mod HSEGSIZE = 0")
    case True
    then show ?thesis using dir by simp
  next
    case False
    obtain k where "geom_ok (geom t) k" using rep by (auto simp: ht_rep_def)
    then have "0 < ?n" by (auto simp: geom_ok_def buckets_def)
    then have "0 \<le> ?n - 1" "?n - 1 < ?n" "(?n - 1) div HSEGSIZE = ?n div HSEGSIZE"
      using False by (auto intro: pred_div_same simp: HSEGSIZE_def)
    then have "ht_dir t (?n div HSEGSIZE) \<noteq> None"
      using rep by (metis chains_ok_def ht_rep_def read_dir_alloc)
    then show ?thesis using False dir by simp
  qed
qed

text \<open>The chains after an expansion: the split bucket is dealt out, in reverse order.\<close>

definition dealt :: "HashTable \<Rightarrow> (int \<Rightarrow> addr list) \<Rightarrow> int \<Rightarrow> addr list" where
  "dealt t bs = bs
     (ht_split t := rev (filter (\<lambda>x. \<not> goes_to (grown t) (buckets (geom t)) x) (bs (ht_split t))),
      buckets (geom t) := rev (filter (goes_to (grown t) (buckets (geom t))) (bs (ht_split t))))"

lemma dealt_cells:
  assumes "ht_rep t bs fl"
  shows "cells_of (dealt t bs) = cells_of bs" "separate (dealt t bs)"
proof -
  have empty: "bs (buckets (geom t)) = []" and sep: "separate bs"
    using assms by (auto simp: ht_rep_def)
  let ?old = "{x \<in> set (bs (ht_split t)). \<not> goes_to (grown t) (buckets (geom t)) x}"
  let ?new = "{x \<in> set (bs (ht_split t)). goes_to (grown t) (buckets (geom t)) x}"
  obtain k where "geom_ok (geom t) k" using assms by (auto simp: ht_rep_def)
  then have ne: "ht_split t \<noteq> buckets (geom t)" by (auto simp: geom_ok_def buckets_def)
  have set_dealt: "set (dealt t bs b) =
      (if b = buckets (geom t) then ?new else if b = ht_split t then ?old else set (bs b))" for b
    using ne by (auto simp: dealt_def)
  have "x \<in> cells_of (dealt t bs) \<longleftrightarrow> x \<in> cells_of bs" for x
  proof
    assume "x \<in> cells_of (dealt t bs)"
    then show "x \<in> cells_of bs"
      by (auto simp: cells_of_def set_dealt split: if_splits)
  next
    assume "x \<in> cells_of bs"
    then obtain b where b: "x \<in> set (bs b)" by (auto simp: cells_of_def)
    with empty have nb: "b \<noteq> buckets (geom t)" by auto
    have "\<exists>b'. x \<in> set (dealt t bs b')"
    proof (cases "b = ht_split t")
      case True
      then have "x \<in> set (dealt t bs (buckets (geom t))) \<or> x \<in> set (dealt t bs b)"
        using b ne unfolding set_dealt by auto
      then show ?thesis by blast
    next
      case False
      then have "x \<in> set (dealt t bs b)" using b nb unfolding set_dealt by auto
      then show ?thesis by blast
    qed
    then show "x \<in> cells_of (dealt t bs)" by (auto simp: cells_of_def)
  qed
  then show "cells_of (dealt t bs) = cells_of bs" by blast
  show "separate (dealt t bs)"
    using sep empty ne unfolding separate_def set_dealt by (auto split: if_splits)
qed

text \<open>What the code of \<open>expand\<close> produces: the relinked cells and the new directory entries.\<close>

lemma expand_split:
  assumes rep: "ht_rep t bs fl" and small: "buckets (geom t) < HDIRSIZE * HSEGSIZE"
  shows "\<exists>t5 old new d. expand t = Some (t5\<lparr>ht_dir := d\<rparr>)
     \<and> relinked (set (bs (ht_split t))) (grown t) t5
     \<and> lst (nxt t5) old (dealt t bs (ht_split t)) \<and> lst (nxt t5) new (dealt t bs (buckets (geom t)))
     \<and> (\<forall>b. 0 \<le> b \<and> b \<le> buckets (geom t) \<longrightarrow>
          read_dir (t5\<lparr>ht_dir := d\<rparr>) (b div HSEGSIZE) (b mod HSEGSIZE) =
          (if b = buckets (geom t) then Some new else if b = ht_split t then Some old
           else read_dir t (b div HSEGSIZE) (b mod HSEGSIZE)))"
proof -
  let ?n = "buckets (geom t)" and ?s = "ht_split t" and ?g = "grown t"
  obtain k where ok: "geom_ok (geom t) k" using rep by (auto simp: ht_rep_def)
  have s: "0 \<le> ?s" "?s < ?n" using ok by (auto simp: geom_ok_def buckets_def)
  from rep s obtain p where rd: "read_dir t (?s div HSEGSIZE) (?s mod HSEGSIZE) = Some p"
    and ch: "lst (nxt ?g) p (bs ?s)"
    by (auto simp: ht_rep_def chains_ok_def grown_sel)
  note dir = grown_dir [OF rep]
  have rd': "read_dir ?g (?s div HSEGSIZE) (?s mod HSEGSIZE) = Some p"
    using dir(1) [OF s] rd by simp
  from ch obtain t5 old new where loop: "expand_loop ?g ?n p NULL NULL = Some (t5, old, new)"
    and rl: "relinked (set (bs ?s)) ?g t5"
    and lo: "lst (nxt t5) old (dealt t bs ?s)" and ln: "lst (nxt t5) new (dealt t bs ?n)"
    using expand_loop_list [of ?g p "bs ?s" NULL "[]" NULL "[]" ?n] s by (auto simp: dealt_def)
  note sel = relinked_sel [OF rl]
  have "ht_dir t5 (?s div HSEGSIZE) \<noteq> None" using rd' sel read_dir_alloc by metis
  from write_dir_ok [OF this, of "?s mod HSEGSIZE" old] obtain d6
    where w6: "write_dir t5 (?s div HSEGSIZE) (?s mod HSEGSIZE) old = Some (t5\<lparr>ht_dir := d6\<rparr>)"
      and r6: "\<And>s' i'. read_dir (t5\<lparr>ht_dir := d6\<rparr>) s' i' =
        (if s' = ?s div HSEGSIZE \<and> i' = ?s mod HSEGSIZE then Some old else read_dir t5 s' i')"
      and n6: "\<And>s'. d6 s' = None \<longleftrightarrow> ht_dir t5 s' = None"
    by blast
  have "ht_dir (t5\<lparr>ht_dir := d6\<rparr>) (?n div HSEGSIZE) \<noteq> None" using n6 dir(2) sel by simp
  from write_dir_ok [OF this, of "?n mod HSEGSIZE" new] obtain d7
    where w7: "write_dir (t5\<lparr>ht_dir := d6\<rparr>) (?n div HSEGSIZE) (?n mod HSEGSIZE) new
        = Some (t5\<lparr>ht_dir := d7\<rparr>)"
      and r7: "\<And>s' i'. read_dir (t5\<lparr>ht_dir := d7\<rparr>) s' i' =
        (if s' = ?n div HSEGSIZE \<and> i' = ?n mod HSEGSIZE then Some new
         else read_dir (t5\<lparr>ht_dir := d6\<rparr>) s' i')"
    by auto
  have "read_dir (t5\<lparr>ht_dir := d7\<rparr>) (b div HSEGSIZE) (b mod HSEGSIZE) =
      (if b = ?n then Some new else if b = ?s then Some old
       else read_dir t (b div HSEGSIZE) (b mod HSEGSIZE))" if "0 \<le> b \<and> b \<le> ?n" for b
    using that dir(1) [of b] dir_pos_inj [of b ?n] dir_pos_inj [of b ?s] sel by (auto simp: r7 r6)
  moreover have "expand t = Some (t5\<lparr>ht_dir := d7\<rparr>)"
    using rd' loop w6 w7 by (simp add: expand_grown [OF small])
  ultimately show ?thesis using rl lo ln by blast
qed

context hash_contract
begin

lemma dealt_hash:
  assumes rep: "ht_rep t bs fl" and t: "ht_hash t = hash"
    and small: "buckets (geom t) < HDIRSIZE * HSEGSIZE" and x: "x \<in> set (dealt t bs b)"
  shows "hash (grow_geom (geom t)) (cell_key t x) = b"
proof -
  let ?g = "geom t" and ?k = "cell_key t x"
  obtain k where ok: "geom_ok ?g k" using rep by (auto simp: ht_rep_def)
  have old: "x \<in> set (bs b') \<Longrightarrow> hash ?g ?k = b'" for b'
    using rep t by (auto simp: ht_rep_def)
  have empty: "bs (buckets ?g) = []" using rep by (simp add: ht_rep_def)
  consider "b = buckets ?g" "hash (grow_geom ?g) ?k = b"
    | "b = ht_split t" "x \<in> set (bs b)" "hash (grow_geom ?g) ?k \<noteq> buckets ?g"
    | "b \<noteq> ht_split t" "x \<in> set (bs b)"
    using x t by (auto simp: dealt_def grown_sel split: if_splits)
  then show ?thesis
  proof cases
    case 1
    then show ?thesis by simp
  next
    case 2
    with hash_grow(2) [OF ok small, of ?k] old show ?thesis by auto
  next
    case 3
    with hash_grow(1) [OF ok small, of ?k] old [of b] show ?thesis by auto
  qed
qed

lemma expand_rep:
  assumes rep: "ht_rep t bs fl" and t: "ht_hash t = hash"
    and small: "buckets (geom t) < HDIRSIZE * HSEGSIZE"
  shows "\<exists>t'. expand t = Some t' \<and> ht_rep t' (dealt t bs) fl
     \<and> geom t' = grow_geom (geom t) \<and> ht_kcount t' = ht_kcount t
     \<and> ht_hash t' = ht_hash t \<and> ht_compare t' = ht_compare t
     \<and> (\<forall>x. cell_key t' x = cell_key t x \<and> cell_data t' x = cell_data t x)"
proof -
  let ?n = "buckets (geom t)" and ?s = "ht_split t"
  obtain k where ok: "geom_ok (geom t) k" using rep by (auto simp: ht_rep_def)
  from expand_split [OF rep small] obtain t5 old new d where ex: "expand t = Some (t5\<lparr>ht_dir := d\<rparr>)"
    and rl: "relinked (set (bs ?s)) (grown t) t5"
    and lo: "lst (nxt t5) old (dealt t bs ?s)" and ln: "lst (nxt t5) new (dealt t bs ?n)"
    and rd: "\<And>b. 0 \<le> b \<Longrightarrow> b \<le> ?n \<Longrightarrow>
      read_dir (t5\<lparr>ht_dir := d\<rparr>) (b div HSEGSIZE) (b mod HSEGSIZE) =
      (if b = ?n then Some new else if b = ?s then Some old
       else read_dir t (b div HSEGSIZE) (b mod HSEGSIZE))"
    by blast
  let ?t' = "t5\<lparr>ht_dir := d\<rparr>"
  note sel = relinked_sel [OF rl]
  have other: "lst (nxt t5) q ys = lst (nxt t) q ys" if "set ys \<inter> set (bs ?s) = {}" for q ys
    using relinked_lst [OF rl that] by (simp add: grown_sel)
  have ne: "?s \<noteq> ?n" using ok by (auto simp: geom_ok_def buckets_def)
  have "chains_ok ?t' (dealt t bs)"
    unfolding chains_ok_def
  proof (intro allI impI)
    fix b assume "0 \<le> b \<and> b < buckets (geom ?t')"
    then have b: "0 \<le> b" "b \<le> ?n"
      using sel grow_geom_ok(2) [OF ok small] by (auto simp: grown_sel)
    show "\<exists>p. read_dir ?t' (b div HSEGSIZE) (b mod HSEGSIZE) = Some p
        \<and> lst (nxt ?t') p (dealt t bs b)"
    proof (cases "b = ?n \<or> b = ?s")
      case True
      then show ?thesis using rd [OF b] lo ln ne by auto
    next
      case False
      then have "set (bs b) \<inter> set (bs ?s) = {}" "dealt t bs b = bs b"
        using rep by (auto simp: ht_rep_def separate_def dealt_def)
      then show ?thesis
        using False b rd [OF b] rep other by (auto simp: ht_rep_def chains_ok_def)
    qed
  qed
  moreover have "lst (nxt ?t') (ht_freeList ?t') fl"
  proof -
    have "set fl \<inter> set (bs ?s) = {}" using rep by (auto simp: ht_rep_def cells_of_def)
    then show ?thesis using rep other [of fl] sel by (simp add: ht_rep_def grown_sel)
  qed
  moreover have "\<forall>b. \<forall>x \<in> set (dealt t bs b). hash_of ?t' (cell_key ?t' x) = b"
    using dealt_hash [OF rep t small] t sel by (simp add: grown_sel)
  moreover have "dealt t bs b = []" if "b < 0 \<or> ?n + 1 \<le> b" for b
    using that rep ok by (auto simp: dealt_def ht_rep_def geom_ok_def)
  ultimately show ?thesis
    using ex rep sel dealt_cells [OF rep] grow_geom_ok [OF ok small]
    by (intro exI [of _ ?t']) (auto simp: ht_rep_def grown_sel)
qed

end

section \<open>Insertion\<close>

text \<open>Linking up a fresh chunk relinks only its cells, and leaves them as one list.\<close>

lemma link_chunk_list:
  assumes "0 < p"
  shows "relinked {p..p + n} t (link_chunk t p n) \<and> lst (nxt (link_chunk t p n)) p [p..<Suc (p + n)]"
  using assms
proof (induction n arbitrary: t p)
  case 0
  have "relinked (insert p {}) t (set_next t p NULL)"
    by (rule relinked_set_next, rule relinked_refl)
  with 0 show ?case by simp
next
  case (Suc n)
  let ?t = "set_next t p (p + 1)"
  from Suc.IH [of "p + 1" ?t]
  have rl: "relinked {p + 1..p + 1 + n} ?t (link_chunk ?t (p + 1) n)"
    and l: "lst (nxt (link_chunk ?t (p + 1) n)) (p + 1) [p + 1..<Suc (p + 1 + n)]"
    by auto
  have set: "insert p {p + 1..p + 1 + n} = {p..p + Suc n}" by auto
  have "nxt (link_chunk ?t (p + 1) n) p = p + 1"
    using rl by (auto simp: relinked_def set_next_def)
  then have "lst (nxt (link_chunk t p (Suc n))) p (p # [p + 1..<Suc (p + 1 + n)])"
    using l Suc.prems by (simp del: upt_Suc)
  moreover have "p # [p + 1..<Suc (p + 1 + n)] = [p..<Suc (p + Suc n)]"
    by (simp add: upt_conv_Cons)
  ultimately have "lst (nxt (link_chunk t p (Suc n))) p [p..<Suc (p + Suc n)]" by metis
  moreover have "relinked {p..p + Suc n} t (link_chunk t p (Suc n))"
    using relinked_set_next [OF rl] set by simp
  ultimately show ?case by blast
qed

text \<open>
  An allocated cell is on no list afterwards, and nothing else changes but the free list.
\<close>

lemma alloc_rep:
  assumes rep: "ht_rep t bs fl" and al: "allocHashList t = (hl, t')"
  shows "\<exists>fl'. ht_rep t' bs fl' \<and> hl \<noteq> NULL \<and> hl < ht_brk t' \<and> hl \<notin> cells_of bs \<and> hl \<notin> set fl'
     \<and> geom t' = geom t \<and> ht_kcount t' = ht_kcount t \<and> ht_hash t' = ht_hash t
     \<and> ht_compare t' = ht_compare t \<and> read_dir t' = read_dir t \<and> ht_dir t' = ht_dir t
     \<and> (\<forall>x. cell_key t' x = cell_key t x \<and> cell_data t' x = cell_data t x)"
proof (cases "ht_freeList t = NULL")
  case False
  then have hl: "hl = ht_freeList t" and t': "t' = t\<lparr>ht_freeList := nxt t hl\<rparr>"
    using al by (auto simp: allocHashList_def Let_def)
  from rep False obtain fl' where fl: "fl = hl # fl'" "lst (nxt t) (nxt t hl) fl'"
    unfolding ht_rep_def hl using lst_nonnull by blast
  have "lst (nxt t) (ht_freeList t) fl" using rep by (simp add: ht_rep_def)
  then have "hl \<notin> set fl'" using fl lst_distinct by fastforce
  then show ?thesis
    using rep fl False hl by (intro exI [of _ fl']) (auto simp: t' ht_rep_def chains_ok_def fun_eq_iff)
next
  case True
  let ?hl = "ht_brk t"
  let ?t3 = "t\<lparr>ht_brk := ht_brk t + HCHUNK, ht_chunks := ?hl # ht_chunks t, ht_freeList := ?hl + 1\<rparr>"
  have hl: "hl = ?hl" and t': "t' = link_chunk ?t3 (?hl + 1) (HCHUNK - 2)"
    using al True by (auto simp: allocHashList_def Let_def)
  let ?fl = "[?hl + 1..<Suc (?hl + 1 + (HCHUNK - 2))]"
  from link_chunk_list [of "?hl + 1" "HCHUNK - 2" ?t3]
  have rl: "relinked {?hl + 1..?hl + 1 + (HCHUNK - 2)} ?t3 t'" and l: "lst (nxt t') (?hl + 1) ?fl"
    unfolding t' by auto
  note sel = relinked_sel [OF rl]
  have other: "lst (nxt t') p xs = lst (nxt t) p xs" if "\<forall>x \<in> set xs. x < ?hl" for p xs
    using that by (subst relinked_lst [OF rl]) auto
  have below: "\<forall>x \<in> set (bs b). x < ?hl" for b
    using rep unfolding ht_rep_def cells_of_def by blast
  have "chains_ok t' bs"
    using rep sel other [OF below] by (simp add: ht_rep_def chains_ok_def)
  moreover have "cells_of bs \<inter> set ?fl = {}"
    using below by (fastforce simp: cells_of_def)
  moreover have "\<forall>x \<in> cells_of bs \<union> set ?fl. x < ht_brk t'"
    using below sel by (fastforce simp: cells_of_def HCHUNK_def)
  moreover have "hl \<notin> cells_of bs" using below hl by (fastforce simp: cells_of_def)
  ultimately show ?thesis
    using rep sel l hl
    by (intro exI [of _ ?fl]) (auto simp: ht_rep_def fun_eq_iff HCHUNK_def)
qed

text \<open>The multiset of a table when one bucket changes.\<close>

lemma bucket_bag_cong:
  "(\<And>x. x \<in> set xs \<Longrightarrow> cell_key t' x = cell_key t x \<and> cell_data t' x = cell_data t x) \<Longrightarrow>
   bucket_bag t' xs = bucket_bag t xs"
  unfolding bucket_bag_def by (intro arg_cong [where f = mset] map_cong) auto

lemma bucket_bag_simps [simp]:
  "bucket_bag t [] = {#}"
  "bucket_bag t (x # xs) = add_mset (cell_key t x, cell_data t x) (bucket_bag t xs)"
  "bucket_bag t (xs @ ys) = bucket_bag t xs + bucket_bag t ys"
  by (simp_all add: bucket_bag_def)

lemma bag_one_bucket:
  assumes "0 \<le> b" "b < buckets (geom t)" "buckets (geom t') = buckets (geom t)"
    and "\<And>b'. b' \<noteq> b \<Longrightarrow> bucket_bag t' (bs' b') = bucket_bag t (bs b')"
  shows "bag t' bs' + bucket_bag t (bs b) = bag t bs + bucket_bag t' (bs' b)"
proof -
  have "(\<Sum>x\<in>{0..<buckets (geom t)} - {b}. bucket_bag t' (bs' x)) =
      (\<Sum>x\<in>{0..<buckets (geom t)} - {b}. bucket_bag t (bs x))"
    by (rule sum.cong) (auto intro: assms(4))
  then show ?thesis
    using assms(1-3) unfolding bag_def
    by (simp add: sum.remove [of "{0..<buckets (geom t)}" b])
qed

lemma bag_dealt:
  assumes rep: "ht_rep t bs fl" and small: "buckets (geom t) < HDIRSIZE * HSEGSIZE"
    and geom: "geom t' = grow_geom (geom t)"
    and same: "\<And>x. cell_key t' x = cell_key t x \<and> cell_data t' x = cell_data t x"
  shows "bag t' (dealt t bs) = bag t bs"
proof -
  let ?n = "buckets (geom t)" and ?s = "ht_split t" and ?f = "\<lambda>x. (cell_key t x, cell_data t x)"
  obtain k where ok: "geom_ok (geom t) k" using rep by (auto simp: ht_rep_def)
  have s: "0 \<le> ?s" "?s < ?n" using ok by (auto simp: geom_ok_def buckets_def)
  have n': "{0..<buckets (geom t')} = insert ?n {0..<?n}"
    using geom grow_geom_ok(2) [OF ok small] s by auto
  have bb: "bucket_bag t' xs = bucket_bag t xs" for xs
    using same by (intro bucket_bag_cong) auto
  have "bucket_bag t (dealt t bs ?n) + bucket_bag t (dealt t bs ?s) = bucket_bag t (bs ?s)"
    using s by (simp add: dealt_def bucket_bag_def rev_map [symmetric])
      (metis image_mset_union multiset_partition union_commute)
  moreover have "(\<Sum>b\<in>{0..<?n} - {?s}. bucket_bag t (dealt t bs b)) =
      (\<Sum>b\<in>{0..<?n} - {?s}. bucket_bag t (bs b))"
    by (rule sum.cong) (auto simp: dealt_def)
  ultimately show ?thesis
    using s unfolding bag_def n' bb
    by (simp add: sum.remove [of "{0..<?n}" ?s] add.assoc [symmetric])
qed

lemma insert_expand_eq:
  "insertHashTable table key data =
     Option.bind (if HLOAD * ht_bcount table \<le> ht_kcount table + 1
       then expand (table\<lparr>ht_kcount := ht_kcount table + 1\<rparr>)
       else Some (table\<lparr>ht_kcount := ht_kcount table + 1\<rparr>))
     (\<lambda>t1. case allocHashList t1 of (hl, t2) \<Rightarrow>
        Option.bind (read_dir t2 (hash_of t1 key div HSEGSIZE) (hash_of t1 key mod HSEGSIZE))
          (\<lambda>head. write_dir (t2\<lparr>ht_cells := (ht_cells t2)
              (hl := \<lparr>hl_key = key, hl_data = data, hl_next = head\<rparr>)\<rparr>)
            (hash_of t1 key div HSEGSIZE) (hash_of t1 key mod HSEGSIZE) hl))"
  by (simp add: insertHashTable_def Let_def)

context hash_contract
begin

text \<open>Writing a fresh cell at the head of the bucket of its key.\<close>

lemma store_rep:
  assumes rep: "ht_rep t bs fl" and t: "ht_hash t = hash"
    and hl: "hl \<noteq> NULL" "hl < ht_brk t" "hl \<notin> cells_of bs" "hl \<notin> set fl"
    and b: "b = hash_of t key" and rd: "read_dir t (b div HSEGSIZE) (b mod HSEGSIZE) = Some head"
  shows "\<exists>t'. write_dir (t\<lparr>ht_cells := (ht_cells t)
              (hl := \<lparr>hl_key = key, hl_data = data, hl_next = head\<rparr>)\<rparr>)
            (b div HSEGSIZE) (b mod HSEGSIZE) hl = Some t'
     \<and> ht_rep t' (bs(b := hl # bs b)) fl \<and> bag t' (bs(b := hl # bs b)) = add_mset (key, data) (bag t bs)
     \<and> ht_kcount t' = ht_kcount t \<and> ht_hash t' = ht_hash t \<and> ht_compare t' = ht_compare t"
proof -
  let ?c = "\<lparr>hl_key = key, hl_data = data, hl_next = head\<rparr>"
  let ?t = "t\<lparr>ht_cells := (ht_cells t)(hl := ?c)\<rparr>" and ?bs = "bs(b := hl # bs b)"
  have r: "0 \<le> b" "b < buckets (geom t)" using rep_hash_range [OF rep t] b by auto
  from rep r rd have ch: "lst (nxt t) head (bs b)" by (auto simp: ht_rep_def chains_ok_def)
  have "ht_dir ?t (b div HSEGSIZE) \<noteq> None" using rd by (simp add: read_dir_alloc)
  from write_dir_ok [OF this, of "b mod HSEGSIZE" hl] obtain d
    where w: "write_dir ?t (b div HSEGSIZE) (b mod HSEGSIZE) hl = Some (?t\<lparr>ht_dir := d\<rparr>)"
      and rd': "\<And>s' i'. read_dir (?t\<lparr>ht_dir := d\<rparr>) s' i' =
        (if s' = b div HSEGSIZE \<and> i' = b mod HSEGSIZE then Some hl else read_dir t s' i')"
    by auto
  let ?t' = "?t\<lparr>ht_dir := d\<rparr>"
  have nx: "nxt ?t' = (nxt t)(hl := head)" by auto
  have notin: "hl \<notin> set (bs b')" for b' using hl(3) by (auto simp: cells_of_def)
  have "chains_ok ?t' ?bs"
    unfolding chains_ok_def
  proof (intro allI impI)
    fix b' assume b': "0 \<le> b' \<and> b' < buckets (geom ?t')"
    show "\<exists>p. read_dir ?t' (b' div HSEGSIZE) (b' mod HSEGSIZE) = Some p \<and> lst (nxt ?t') p (?bs b')"
    proof (cases "b' = b")
      case True
      then show ?thesis using ch hl notin unfolding nx by (simp add: rd')
    next
      case False
      then show ?thesis
        using b' rep dir_pos_inj [OF False] notin unfolding nx
        by (auto simp: rd' ht_rep_def chains_ok_def)
    qed
  qed
  moreover have "separate ?bs"
    using rep notin by (auto simp: ht_rep_def separate_def)
  moreover have "cells_of ?bs = insert hl (cells_of bs)"
    by (auto simp: cells_of_def split: if_splits)
  moreover have "\<forall>b'. \<forall>x \<in> set (?bs b'). hash_of ?t' (cell_key ?t' x) = b'"
    using rep b notin by (auto simp: ht_rep_def)
  moreover have "lst (nxt ?t') (ht_freeList ?t') fl"
    using rep hl unfolding nx by (simp add: ht_rep_def)
  ultimately have "ht_rep ?t' ?bs fl"
    using rep hl r by (auto simp: ht_rep_def)
  moreover have "bag ?t' ?bs + bucket_bag t (bs b) = bag t bs + bucket_bag ?t' (?bs b)"
    by (rule bag_one_bucket) (use r notin in \<open>auto intro!: bucket_bag_cong\<close>)
  moreover have "bucket_bag ?t' (?bs b) = add_mset (key, data) (bucket_bag t (bs b))"
  proof -
    have "bucket_bag ?t' (bs b) = bucket_bag t (bs b)"
      by (rule bucket_bag_cong) (use notin in auto)
    then show ?thesis by simp
  qed
  ultimately show ?thesis using w by (intro exI [of _ ?t']) auto
qed

theorem insert_bag:
  assumes holds: "ht_holds hash compare t M"
  shows "\<exists>t'. insertHashTable t key data = Some t' \<and> ht_holds hash compare t' (add_mset (key, data) M)"
proof -
  from holds obtain bs fl where t: "ht_hash t = hash" "ht_compare t = compare"
    and rep: "ht_rep t bs fl" and M: "M = bag t bs" and n: "ht_kcount t = int (size M)"
    by (auto simp: ht_holds_def)
  let ?t0 = "t\<lparr>ht_kcount := ht_kcount t + 1\<rparr>"
  have rep0: "ht_rep ?t0 bs fl" and bag0: "bag ?t0 bs = M"
    using rep by (auto simp: M ht_rep_def chains_ok_def bag_def bucket_bag_def)
  have "\<exists>t1 bs1. (if HLOAD * ht_bcount t \<le> ht_kcount t + 1 then expand ?t0 else Some ?t0) = Some t1
     \<and> ht_rep t1 bs1 fl \<and> bag t1 bs1 = M \<and> ht_kcount t1 = ht_kcount t + 1
     \<and> ht_hash t1 = hash \<and> ht_compare t1 = compare"
  proof (cases "buckets (geom ?t0) < HDIRSIZE * HSEGSIZE")
    case True
    from expand_rep [OF rep0 _ True] t obtain t1 where "expand ?t0 = Some t1"
      "ht_rep t1 (dealt ?t0 bs) fl" "geom t1 = grow_geom (geom ?t0)" "ht_kcount t1 = ht_kcount t + 1"
      "ht_hash t1 = hash" "ht_compare t1 = compare"
      "\<And>x. cell_key t1 x = cell_key ?t0 x \<and> cell_data t1 x = cell_data ?t0 x"
      by auto
    moreover from this bag_dealt [OF rep0 True, of t1] bag0 have "bag t1 (dealt ?t0 bs) = M" by simp
    ultimately show ?thesis using rep0 bag0 t by auto
  next
    case False
    then have "expand ?t0 = Some ?t0" by (simp add: expand_def buckets_def add.commute)
    then show ?thesis using rep0 bag0 t by auto
  qed
  then obtain t1 bs1 where e: "(if HLOAD * ht_bcount t \<le> ht_kcount t + 1 then expand ?t0 else Some ?t0) = Some t1"
    and rep1: "ht_rep t1 bs1 fl" and bag1: "bag t1 bs1 = M" and n1: "ht_kcount t1 = ht_kcount t + 1"
    and t1: "ht_hash t1 = hash" "ht_compare t1 = compare"
    by blast
  obtain hl t2 where al: "allocHashList t1 = (hl, t2)" by fastforce
  from alloc_rep [OF rep1 al] obtain fl2 where rep2: "ht_rep t2 bs1 fl2"
    and hl: "hl \<noteq> NULL" "hl < ht_brk t2" "hl \<notin> cells_of bs1" "hl \<notin> set fl2"
    and s2: "geom t2 = geom t1" "ht_kcount t2 = ht_kcount t1" "ht_hash t2 = ht_hash t1"
      "ht_compare t2 = ht_compare t1" "\<And>x. cell_key t2 x = cell_key t1 x \<and> cell_data t2 x = cell_data t1 x"
    by blast
  have bag2: "bag t2 bs1 = M"
    using bag1 s2 by (simp add: bag_def bucket_bag_def)
  let ?b = "hash_of t1 key"
  have b: "?b = hash_of t2 key" using s2 by simp
  from rep_chain [OF rep2, of key] t1 s2 b obtain head where
    rd: "read_dir t2 (?b div HSEGSIZE) (?b mod HSEGSIZE) = Some head" by auto
  from store_rep [OF rep2 _ hl b rd, of data] t1 s2 bag2 obtain t' where
    "write_dir (t2\<lparr>ht_cells := (ht_cells t2)(hl := \<lparr>hl_key = key, hl_data = data, hl_next = head\<rparr>)\<rparr>)
       (?b div HSEGSIZE) (?b mod HSEGSIZE) hl = Some t'"
    "ht_rep t' (bs1(?b := hl # bs1 ?b)) fl2" "bag t' (bs1(?b := hl # bs1 ?b)) = add_mset (key, data) M"
    "ht_kcount t' = ht_kcount t2" "ht_hash t' = hash" "ht_compare t' = compare"
    by auto
  then show ?thesis
    using e al rd n n1 s2 by (intro exI [of _ t']) (auto simp: insert_expand_eq ht_holds_def)
qed

end

section \<open>Removal\<close>

definition removable :: "HashTable \<Rightarrow> StgWord \<Rightarrow> StgWord \<Rightarrow> addr \<Rightarrow> bool" where
  "removable t k d x \<longleftrightarrow> ht_compare t (cell_key t x) k \<and> (d = 0 \<or> cell_data t x = d)"

text \<open>The loop passes over the cells that do not match, remembering the last one.\<close>

lemma remove_loop_skip:
  assumes "lseg (nxt t) hl us r" "\<forall>u \<in> set us. \<not> removable t k d u"
  shows "remove_loop t k d s i hl prev = remove_loop t k d s i r (if us = [] then prev else last us)"
  using assms
proof (induction us arbitrary: hl prev)
  case Nil
  then show ?case by simp
next
  case (Cons u us)
  from Cons.prems have u: "hl = u" "u \<noteq> NULL" "\<not> removable t k d u" by auto
  then have "remove_loop t k d s i hl prev = remove_loop t k d s i (nxt t u) u"
    using remove_loop.simps [of t k d s i u prev] by (auto simp: removable_def)
  also have "\<dots> = remove_loop t k d s i r (if us = [] then u else last us)"
    by (rule Cons.IH) (use Cons.prems in auto)
  finally show ?case by auto
qed

lemma freeHashList_sel [simp]:
  "ht_hash (freeHashList t x) = ht_hash t" "ht_compare (freeHashList t x) = ht_compare t"
  "geom (freeHashList t x) = geom t" "ht_bcount (freeHashList t x) = ht_bcount t"
  "ht_kcount (freeHashList t x) = ht_kcount t" "ht_dir (freeHashList t x) = ht_dir t"
  "ht_freeList (freeHashList t x) = x" "ht_brk (freeHashList t x) = ht_brk t"
  "cell_key (freeHashList t x) y = cell_key t y" "cell_data (freeHashList t x) y = cell_data t y"
  "read_dir (freeHashList t x) = read_dir t" "nxt (freeHashList t x) = (nxt t)(x := ht_freeList t)"
  by (auto simp: freeHashList_def fun_eq_iff set_next_def)

text \<open>
  A table \<open>t1\<close> in which the cell \<open>x\<close> has been unlinked from its chain, before it is freed.
\<close>

definition unlinked :: "HashTable \<Rightarrow> HashTable \<Rightarrow> (int \<Rightarrow> addr list) \<Rightarrow> bool" where
  "unlinked t t1 bs \<longleftrightarrow> chains_ok t1 bs \<and> geom t1 = geom t \<and> ht_bcount t1 = ht_bcount t
     \<and> ht_kcount t1 = ht_kcount t \<and> ht_hash t1 = ht_hash t \<and> ht_compare t1 = ht_compare t
     \<and> ht_freeList t1 = ht_freeList t \<and> ht_brk t1 = ht_brk t
     \<and> (\<forall>y. cell_key t1 y = cell_key t y \<and> cell_data t1 y = cell_data t y)"

lemma unlink_head:
  assumes rep: "ht_rep t bs fl" and b: "0 \<le> b" "b < buckets (geom t)" and bs: "bs b = x # vs"
  shows "\<exists>t1. write_dir t (b div HSEGSIZE) (b mod HSEGSIZE) (nxt t x) = Some t1
     \<and> unlinked t t1 (bs(b := vs)) \<and> nxt t1 = nxt t"
proof -
  from rep b obtain p where rd: "read_dir t (b div HSEGSIZE) (b mod HSEGSIZE) = Some p"
    and l: "lst (nxt t) p (bs b)"
    by (auto simp: ht_rep_def chains_ok_def)
  from write_dir_ok [OF read_dir_alloc [OF rd], of "b mod HSEGSIZE" "nxt t x"] obtain d
    where w: "write_dir t (b div HSEGSIZE) (b mod HSEGSIZE) (nxt t x) = Some (t\<lparr>ht_dir := d\<rparr>)"
      and r: "\<And>s' i'. read_dir (t\<lparr>ht_dir := d\<rparr>) s' i' =
        (if s' = b div HSEGSIZE \<and> i' = b mod HSEGSIZE then Some (nxt t x) else read_dir t s' i')"
    by auto
  have "chains_ok (t\<lparr>ht_dir := d\<rparr>) (bs(b := vs))"
    unfolding chains_ok_def
  proof (intro allI impI)
    fix b' assume b': "0 \<le> b' \<and> b' < buckets (geom (t\<lparr>ht_dir := d\<rparr>))"
    show "\<exists>p. read_dir (t\<lparr>ht_dir := d\<rparr>) (b' div HSEGSIZE) (b' mod HSEGSIZE) = Some p
       \<and> lst (nxt (t\<lparr>ht_dir := d\<rparr>)) p ((bs(b := vs)) b')"
    proof (cases "b' = b")
      case True
      then show ?thesis using l bs by (simp add: r)
    next
      case False
      then show ?thesis
        using b' rep dir_pos_inj [OF False] by (auto simp: r ht_rep_def chains_ok_def)
    qed
  qed
  then show ?thesis using w by (auto simp: unlinked_def)
qed

lemma unlink_inner:
  assumes rep: "ht_rep t bs fl" and b: "0 \<le> b" "b < buckets (geom t)"
    and bs: "bs b = us @ a # x # vs"
  shows "unlinked t (set_next t a (nxt t x)) (bs(b := us @ a # vs))"
proof -
  let ?t1 = "set_next t a (nxt t x)"
  have other: "a \<notin> set (bs b')" if "b' \<noteq> b" for b'
    using rep that bs by (fastforce simp: ht_rep_def separate_def)
  have "chains_ok ?t1 (bs(b := us @ a # vs))"
    unfolding chains_ok_def
  proof (intro allI impI)
    fix b' assume b': "0 \<le> b' \<and> b' < buckets (geom ?t1)"
    then obtain p where p: "read_dir t (b' div HSEGSIZE) (b' mod HSEGSIZE) = Some p"
      "lst (nxt t) p (bs b')"
      using rep by (auto simp: ht_rep_def chains_ok_def)
    then have "lst (nxt ?t1) p ((bs(b := us @ a # vs)) b')"
      using other [of b'] lst_unlink [of "nxt t" p us a x vs] bs by (cases "b' = b") auto
    with p show "\<exists>p. read_dir ?t1 (b' div HSEGSIZE) (b' mod HSEGSIZE) = Some p
        \<and> lst (nxt ?t1) p ((bs(b := us @ a # vs)) b')"
      by auto
  qed
  then show ?thesis by (simp add: unlinked_def)
qed

text \<open>Once unlinked, the cell goes to the free list and the table is well formed again.\<close>

lemma free_unlinked:
  assumes rep: "ht_rep t bs fl" and bs: "bs b = us @ x # vs"
    and ul: "unlinked t t1 (bs(b := us @ vs))" and fl: "lst (nxt t1) (ht_freeList t1) fl"
  defines "bs' \<equiv> bs(b := us @ vs)"
  shows "ht_rep ((freeHashList t1 x)\<lparr>ht_kcount := n\<rparr>) bs' (x # fl)"
proof -
  let ?t = "(freeHashList t1 x)\<lparr>ht_kcount := n\<rparr>"
  have sep: "separate bs" and xb: "x \<in> set (bs b)" using rep bs by (auto simp: ht_rep_def)
  have d: "distinct (bs b)" by (rule rep_bucket(1) [OF rep])
  have notin: "x \<notin> set (bs' b')" for b'
  proof (cases "b' = b")
    case True
    with d show ?thesis by (simp add: bs bs'_def)
  next
    case False
    with sep have "set (bs b) \<inter> set (bs b') = {}" by (simp add: separate_def)
    with False xb show ?thesis by (auto simp: bs'_def)
  qed
  have xfl: "x \<notin> set fl" and x0: "x \<noteq> NULL" and sub: "cells_of bs' \<subseteq> cells_of bs"
  proof -
    show "x \<notin> set fl" using rep xb by (auto simp: ht_rep_def cells_of_def)
    show "x \<noteq> NULL" using rep_bucket(3) [OF rep xb] .
    show "cells_of bs' \<subseteq> cells_of bs" using bs by (auto simp: cells_of_def bs'_def split: if_splits)
  qed
  have "chains_ok ?t bs'"
    using ul notin unfolding unlinked_def bs'_def [symmetric] by (simp add: chains_ok_def)
  moreover have "separate bs'" using sep bs by (fastforce simp: separate_def bs'_def)
  moreover have "cells_of bs' \<inter> set (x # fl) = {}"
  proof -
    have "cells_of bs \<inter> set fl = {}" using rep by (simp add: ht_rep_def)
    moreover have "x \<notin> cells_of bs'" using notin by (simp add: cells_of_def)
    ultimately show ?thesis using sub by auto
  qed
  moreover have "x \<in> cells_of bs" using xb by (auto simp: cells_of_def)
  moreover have "goes_to t b' y" if "y \<in> set (bs' b')" for b' y
  proof -
    have "y \<in> set (bs b')" using that bs by (auto simp: bs'_def split: if_splits)
    then show ?thesis using rep by (simp add: ht_rep_def)
  qed
  moreover have "bs' b' = []" if "b' < 0 \<or> buckets (geom t) \<le> b'" for b'
    using that rep bs by (auto simp: ht_rep_def bs'_def)
  ultimately show ?thesis
    using rep ul fl xfl x0 sub unfolding ht_rep_def unlinked_def by auto
qed

text \<open>The pairs a call of \<open>removeHashTable\<close> may remove.\<close>

definition matches ::
  "CompareFunction \<Rightarrow> (StgWord \<times> StgWord) multiset \<Rightarrow> StgWord \<Rightarrow> StgWord \<Rightarrow> (StgWord \<times> StgWord) set" where
  "matches compare M k d = {(k', d'). (k', d') \<in># M \<and> compare k' k \<and> (d = 0 \<or> d' = d)}"

lemma chain_has_removable:
  assumes "\<exists>x \<in> set xs. removable t k d x"
  shows "\<exists>us x vs. xs = us @ x # vs \<and> removable t k d x \<and> (\<forall>u \<in> set us. \<not> removable t k d u)"
  using split_list_first_prop [OF assms] by blast

context hash_contract
begin

lemma remove_cell:
  assumes rep: "ht_rep t bs fl" and t: "ht_hash t = hash" and b: "b = hash_of t k"
    and bs: "bs b = us @ x # vs" and x: "removable t k d x"
    and us: "\<forall>u \<in> set us. \<not> removable t k d u"
  shows "\<exists>t' fl'. removeHashTable t k d = Some (t', cell_data t x) \<and> ht_rep t' (bs(b := us @ vs)) fl'
     \<and> ht_kcount t' = ht_kcount t - 1 \<and> ht_hash t' = ht_hash t \<and> ht_compare t' = ht_compare t
     \<and> geom t' = geom t \<and> (\<forall>y. cell_key t' y = cell_key t y \<and> cell_data t' y = cell_data t y)"
proof -
  let ?s = "b div HSEGSIZE" and ?i = "b mod HSEGSIZE"
  have r: "0 \<le> b" "b < buckets (geom t)" using rep_hash_range [OF rep t] b by auto
  from rep_chain [OF rep t, of k] b obtain p where
    rd: "read_dir t ?s ?i = Some p" and l: "lst (nxt t) p (us @ x # vs)" using bs by auto
  then have seg: "lseg (nxt t) p us x" and x0: "x \<noteq> NULL" by (auto simp: lst_append)
  have fl: "lst (nxt t) (ht_freeList t) fl" using rep by (simp add: ht_rep_def)
  let ?prev = "if us = [] then NULL else last us"
  have prev0: "?prev = NULL \<longleftrightarrow> us = []" using lseg_not_null [OF seg] by (metis last_in_set)
  have "\<exists>t1. (if ?prev = NULL then write_dir t ?s ?i (nxt t x) else Some (set_next t ?prev (nxt t x))) = Some t1
     \<and> unlinked t t1 (bs(b := us @ vs)) \<and> lst (nxt t1) (ht_freeList t1) fl"
  proof (cases "us = []")
    case True
    with unlink_head [OF rep r] bs obtain t1 where "write_dir t ?s ?i (nxt t x) = Some t1"
      "unlinked t t1 (bs(b := vs))" "nxt t1 = nxt t" by auto
    then show ?thesis using True fl by (auto simp: unlinked_def)
  next
    case False
    then obtain ws a where ws: "us = ws @ [a]" by (meson rev_exhaust)
    have "a \<in> cells_of bs" using bs ws by (auto simp: cells_of_def intro: exI [of _ b])
    then have "a \<notin> set fl" using rep unfolding ht_rep_def by blast
    moreover have "unlinked t (set_next t a (nxt t x)) (bs(b := ws @ a # vs))"
      by (rule unlink_inner [OF rep r]) (simp add: bs ws)
    moreover have "?prev = a" "a \<noteq> NULL" using ws prev0 False by auto
    ultimately show ?thesis
      using fl ws by (intro exI [of _ "set_next t a (nxt t x)"]) simp
  qed
  then obtain t1 where t1: "(if ?prev = NULL then write_dir t ?s ?i (nxt t x)
      else Some (set_next t ?prev (nxt t x))) = Some t1"
    and ul: "unlinked t t1 (bs(b := us @ vs))" and fl1: "lst (nxt t1) (ht_freeList t1) fl"
    by blast
  let ?t' = "(freeHashList t1 x)\<lparr>ht_kcount := ht_kcount t1 - 1\<rparr>"
  have "removeHashTable t k d = remove_loop t k d ?s ?i x ?prev"
    using rd remove_loop_skip [OF seg us] b by (simp add: removeHashTable_def Let_def)
  also have "\<dots> = Some (?t', cell_data t x)"
    using t1 x x0 ul unfolding remove_loop.simps [of t k d ?s ?i x ?prev]
    by (auto simp: removable_def unlinked_def)
  finally have "removeHashTable t k d = Some (?t', cell_data t x)" .
  then show ?thesis
    using free_unlinked [OF rep bs ul fl1, of "ht_kcount t1 - 1"] ul
    by (intro exI [of _ ?t']) (auto simp: unlinked_def)
qed

theorem remove_bag:
  assumes holds: "ht_holds hash compare t M"
  shows "matches compare M k d \<noteq> {} \<Longrightarrow> \<exists>t' k' d'. removeHashTable t k d = Some (t', d') \<and> (k', d') \<in> matches compare M k d
      \<and> ht_holds hash compare t' (M - {#(k', d')#})"
    and "matches compare M k d = {} \<Longrightarrow> removeHashTable t k d = (if d = 0 then Some (t, 0) else None)"
proof -
  from holds obtain bs fl where t: "ht_hash t = hash" "ht_compare t = compare"
    and rep: "ht_rep t bs fl" and M: "M = bag t bs" and n: "ht_kcount t = int (size M)"
    by (auto simp: ht_holds_def)
  define b where "b = hash_of t k"
  let ?cand = "matches compare M k d"
  have r: "0 \<le> b" "b < buckets (geom t)" using rep_hash_range [OF rep t(1)] by (auto simp: b_def)
  have cand: "?cand = {(cell_key t x, cell_data t x) |x. x \<in> set (bs b) \<and> removable t k d x}"
  proof -
    have "(k', d') \<in> ?cand \<longleftrightarrow> (\<exists>x. x \<in> set (bs b) \<and> removable t k d x \<and> k' = cell_key t x \<and> d' = cell_data t x)" for k' d'
      using matching_cell_bucket [OF rep t] r t
      by (auto simp: matches_def M bag_mem removable_def b_def)
    then show ?thesis by auto
  qed
  show "\<exists>t' k' d'. removeHashTable t k d = Some (t', d') \<and> (k', d') \<in> ?cand
      \<and> ht_holds hash compare t' (M - {#(k', d')#})" if "?cand \<noteq> {}"
  proof -
    from that cand have "\<exists>x \<in> set (bs b). removable t k d x" by auto
    from chain_has_removable [OF this] obtain us x vs where
      bs: "bs b = us @ x # vs" and x: "removable t k d x" and us: "\<forall>u \<in> set us. \<not> removable t k d u"
      by blast
    from remove_cell [OF rep t(1) b_def bs x us] obtain t' fl' where
      rm: "removeHashTable t k d = Some (t', cell_data t x)" and rep': "ht_rep t' (bs(b := us @ vs)) fl'"
      and s: "ht_kcount t' = ht_kcount t - 1" "ht_hash t' = ht_hash t" "ht_compare t' = ht_compare t"
        "geom t' = geom t" "\<And>y. cell_key t' y = cell_key t y \<and> cell_data t' y = cell_data t y"
      by blast
    have same: "bucket_bag t' xs = bucket_bag t xs" for xs
      using s by (intro bucket_bag_cong) auto
    have "bag t' (bs(b := us @ vs)) + bucket_bag t (bs b) = bag t bs + bucket_bag t' ((bs(b := us @ vs)) b)"
      by (rule bag_one_bucket) (use r s same in auto)
    then have bag': "M = add_mset (cell_key t x, cell_data t x) (bag t' (bs(b := us @ vs)))"
      by (simp add: same bs M)
    have "ht_holds hash compare t' (M - {#(cell_key t x, cell_data t x)#})"
      unfolding ht_holds_def using s t n rep' bag' by auto
    moreover have "(cell_key t x, cell_data t x) \<in> ?cand"
      unfolding cand using bs x by auto
    ultimately show ?thesis using rm by blast
  qed
  show "removeHashTable t k d = (if d = 0 then Some (t, 0) else None)" if "?cand = {}"
  proof -
    from rep_chain [OF rep t(1), of k] b_def obtain p where
      rd: "read_dir t (b div HSEGSIZE) (b mod HSEGSIZE) = Some p" and l: "lst (nxt t) p (bs b)" by auto
    have "\<forall>u \<in> set (bs b). \<not> removable t k d u" using that cand by auto
    with l show ?thesis
      using rd remove_loop_skip [of t p "bs b" NULL k d "b div HSEGSIZE" "b mod HSEGSIZE" NULL]
      by (simp add: removeHashTable_def b_def lst_def Let_def) (simp add: remove_loop.simps)
  qed
qed

end

section \<open>Creation and destruction\<close>

context hash_contract
begin

lemma alloc_holds: "ht_holds hash compare (allocHashTable_with hash compare) {#}"
proof -
  let ?t = "allocHashTable_with hash compare"
  have g: "geom_ok (geom ?t) 10" and n: "buckets (geom ?t) = 1024"
    by (simp_all add: allocHashTable_with_def geom_ok_def HSEGSIZE_def HDIRSIZE_def buckets_def
        HashGeom.truncate_def)
  have "chains_ok ?t (\<lambda>_. [])"
    unfolding chains_ok_def n
    by (auto simp: allocHashTable_with_def read_dir_def HSEGSIZE_def zdiv_eq_0_iff)
  then have "ht_rep ?t (\<lambda>_. []) []"
    using g n unfolding ht_rep_def
    by (auto simp: cells_of_def separate_def allocHashTable_with_def HSEGSIZE_def buckets_def
        HashGeom.truncate_def)
  moreover have "bag ?t (\<lambda>_. []) = {#}" by (simp add: bag_def bucket_bag_def)
  ultimately show ?thesis
    unfolding ht_holds_def by (force simp: allocHashTable_with_def)
qed

end

lemma free_chain_list:
  "lst (nxt t) p xs \<Longrightarrow> free_chain t p = Some (map (cell_data t) xs)"
proof (induction xs arbitrary: p)
  case Nil
  then show ?case by (simp add: free_chain.simps)
next
  case (Cons x xs)
  then show ?case by (auto simp: free_chain.simps [of t x])
qed

text \<open>The buckets \<open>b, b - 1, \<dots>\<close> in the order \<open>freeHashTable\<close> visits them.\<close>

fun drained :: "HashTable \<Rightarrow> (int \<Rightarrow> addr list) \<Rightarrow> int \<Rightarrow> nat \<Rightarrow> StgWord list" where
  "drained t bs lo 0 = []"
| "drained t bs lo (Suc n) = map (cell_data t) (bs (lo + int n)) @ drained t bs lo n"

lemma drained_split: "drained t bs lo (m + n) = drained t bs (lo + int m) n @ drained t bs lo m"
  by (induction n) (auto simp: algebra_simps)

lemma free_index_list:
  assumes "chains_ok t bs" "int n \<le> HSEGSIZE" "0 \<le> s" "s * HSEGSIZE + int n \<le> buckets (geom t)"
  shows "free_index t s n = Some (drained t bs (s * HSEGSIZE) n)"
  using assms
proof (induction n)
  case 0
  show ?case by simp
next
  case (Suc n)
  let ?b = "s * HSEGSIZE + int n"
  have pos: "?b div HSEGSIZE = s" "?b mod HSEGSIZE = int n"
    using Suc.prems by (auto simp: HSEGSIZE_def)
  have "0 \<le> ?b" "?b < buckets (geom t)" using Suc.prems by (auto simp: HSEGSIZE_def)
  with Suc.prems(1) obtain p where "read_dir t s (int n) = Some p" "lst (nxt t) p (bs ?b)"
    unfolding chains_ok_def by (metis pos)
  with Suc show ?case by (simp add: free_chain_list)
qed

lemma free_segments_list:
  assumes "chains_ok t bs" "int n \<le> HSEGSIZE" "int s * HSEGSIZE + int n \<le> buckets (geom t)"
  shows "free_segments t s n = Some (drained t bs 0 (s * nat HSEGSIZE + n))"
  using assms
proof (induction s arbitrary: n)
  case 0
  then show ?case using free_index_list [of t bs n 0] by simp
next
  case (Suc s)
  have "free_segments t s (nat HSEGSIZE) = Some (drained t bs 0 (s * nat HSEGSIZE + nat HSEGSIZE))"
    by (rule Suc.IH) (use Suc.prems in \<open>auto simp: HSEGSIZE_def algebra_simps\<close>)
  moreover have "free_index t (int (Suc s)) n = Some (drained t bs (int (Suc s) * HSEGSIZE) n)"
    by (rule free_index_list) (use Suc.prems in auto)
  moreover have "int (Suc s * nat HSEGSIZE) = int (Suc s) * HSEGSIZE" by (simp add: HSEGSIZE_def)
  ultimately show ?case
    using drained_split [of t bs 0 "Suc s * nat HSEGSIZE" n] by (simp add: algebra_simps)
qed

lemma drained_bag: "mset (drained t bs 0 n) = image_mset snd (\<Sum>b\<in>{0..<int n}. bucket_bag t (bs b))"
proof (induction n)
  case 0
  show ?case by simp
next
  case (Suc n)
  have "{0..<int (Suc n)} = insert (int n) {0..<int n}" by auto
  with Suc show ?case by (simp add: bucket_bag_def image_mset.compositionality comp_def)
qed

context hash_contract
begin

theorem free_bag:
  assumes "ht_holds hash compare t M"
  shows "\<exists>ds. freeHashTable t = Some (ds, ht_chunks t) \<and> mset ds = image_mset snd M"
proof -
  from assms obtain bs fl where rep: "ht_rep t bs fl" and M: "M = bag t bs"
    by (auto simp: ht_holds_def)
  let ?n = "buckets (geom t)"
  obtain k where "geom_ok (geom t) k" using rep by (auto simp: ht_rep_def)
  then have n: "0 < ?n" by (auto simp: geom_ok_def buckets_def)
  have cut: "int (nat ((?n - 1) div HSEGSIZE)) * HSEGSIZE + int (nat ((?n - 1) mod HSEGSIZE) + 1) = ?n"
    using n by (simp add: HSEGSIZE_def pos_imp_zdiv_nonneg_iff)
  have "free_segments t (nat ((?n - 1) div HSEGSIZE)) (nat ((?n - 1) mod HSEGSIZE) + 1) =
      Some (drained t bs 0 (nat ((?n - 1) div HSEGSIZE) * nat HSEGSIZE + (nat ((?n - 1) mod HSEGSIZE) + 1)))"
    by (rule free_segments_list)
      (use rep cut in \<open>auto simp: ht_rep_def HSEGSIZE_def nat_less_iff add1_zle_eq\<close>)
  moreover have "nat ((?n - 1) div HSEGSIZE) * nat HSEGSIZE + (nat ((?n - 1) mod HSEGSIZE) + 1) = nat ?n"
    using cut n by (simp add: HSEGSIZE_def nat_eq_iff2)
  ultimately have "free_segments t (nat ((?n - 1) div HSEGSIZE)) (nat ((?n - 1) mod HSEGSIZE) + 1) =
      Some (drained t bs 0 (nat ?n))"
    by (simp only:)
  moreover have "ht_max t + ht_split t = ?n" by (simp add: buckets_def)
  ultimately have "freeHashTable t = Some (drained t bs 0 (nat ?n), ht_chunks t)"
    by (simp only: freeHashTable_def Let_def) simp
  moreover have "mset (drained t bs 0 (nat ?n)) = image_mset snd M"
    using n by (simp add: drained_bag M bag_def)
  ultimately show ?thesis by blast
qed

end

text \<open>
  A table whose hash function reads memory keeps representing the same pairs as long as the
  keys in it hash as before.
\<close>

lemma ht_holds_rehash:
  assumes "ht_holds hash compare t M" "\<And>g k d. (k, d) \<in># M \<Longrightarrow> hash' g k = hash g k"
  shows "ht_holds hash' compare' (t\<lparr>ht_hash := hash', ht_compare := compare'\<rparr>) M"
proof -
  from assms(1) obtain bs fl where t: "ht_hash t = hash" and rep: "ht_rep t bs fl"
    and M: "M = bag t bs" and n: "ht_kcount t = int (size M)"
    by (auto simp: ht_holds_def)
  let ?t = "t\<lparr>ht_hash := hash', ht_compare := compare'\<rparr>"
  have g: "geom ?t = geom t" by simp
  have mem: "(cell_key t x, cell_data t x) \<in># M" if "x \<in> set (bs b)" for x b
    using that rep_bucket(2) [OF rep that] by (auto simp: M bag_mem)
  have "hash_of ?t (cell_key ?t x) = hash_of t (cell_key t x)" if "x \<in> set (bs b)" for x b
    using assms(2) [OF mem [OF that], of "geom t"] t by simp
  then have "ht_rep ?t bs fl"
    using rep by (simp add: ht_rep_def chains_ok_def)
  moreover have "bag ?t bs = M" by (simp add: M bag_def bucket_bag_def)
  ultimately show ?thesis using n by (auto simp: ht_holds_def)
qed

section \<open>The interface clients use\<close>

text \<open>
  A client that never inserts a key twice sees a finite map from keys (up to the table's
  comparison) to non-null data.
\<close>

definition unique_keys :: "CompareFunction \<Rightarrow> (StgWord \<times> StgWord) multiset \<Rightarrow> bool" where
  "unique_keys compare M \<longleftrightarrow> (\<forall>k. size (filter_mset (\<lambda>(k', d). compare k' k) M) \<le> 1)"

definition ht_dict ::
  "HashFunction \<Rightarrow> CompareFunction \<Rightarrow> HashTable \<Rightarrow> (StgWord \<rightharpoonup> StgWord) \<Rightarrow> bool" where
  "ht_dict hash compare t m \<longleftrightarrow> (\<exists>M. ht_holds hash compare t M \<and> unique_keys compare M
     \<and> (\<forall>k' d. (k', d) \<in># M \<longrightarrow> d \<noteq> 0)
     \<and> (\<forall>k d. m k = Some d \<longleftrightarrow> (\<exists>k'. compare k' k \<and> (k', d) \<in># M)))"

locale dictionary =
  fixes dict :: "'t \<Rightarrow> (StgWord \<rightharpoonup> StgWord) \<Rightarrow> bool" and eqk :: "StgWord \<Rightarrow> StgWord \<Rightarrow> bool"
    and lookup :: "'t \<Rightarrow> StgWord \<Rightarrow> StgWord option"
    and insert :: "'t \<Rightarrow> StgWord \<Rightarrow> StgWord \<Rightarrow> 't option"
    and remove :: "'t \<Rightarrow> StgWord \<Rightarrow> StgWord \<Rightarrow> ('t \<times> StgWord) option"
  assumes dict_cong: "dict t m \<Longrightarrow> eqk k k' \<Longrightarrow> m k = m k'"
    and dict_nonnull: "dict t m \<Longrightarrow> m k \<noteq> Some 0"
    and dict_lookup: "dict t m \<Longrightarrow> lookup t k = Some (case m k of None \<Rightarrow> 0 | Some d \<Rightarrow> d)"
    and dict_insert: "dict t m \<Longrightarrow> m k = None \<Longrightarrow> d \<noteq> 0 \<Longrightarrow>
      \<exists>t'. insert t k d = Some t' \<and> dict t' (\<lambda>k'. if eqk k k' then Some d else m k')"
    and dict_remove: "dict t m \<Longrightarrow>
      \<exists>t'. remove t k 0 = Some (t', case m k of None \<Rightarrow> 0 | Some d \<Rightarrow> d)
        \<and> dict t' (\<lambda>k'. if eqk k k' then None else m k')"
begin

text \<open>A lookup that answers null is an absent key, and the other way round.\<close>

lemma lookup_null_iff: "dict t m \<Longrightarrow> lookup t k = Some 0 \<longleftrightarrow> m k = None"
  using dict_nonnull [of t m k] by (auto simp: dict_lookup split: option.splits)

lemma insert_then_lookup:
  "dict t m \<Longrightarrow> m k = None \<Longrightarrow> d \<noteq> 0 \<Longrightarrow> eqk k k' \<Longrightarrow> insert t k d = Some t' \<Longrightarrow> lookup t' k' = Some d"
  using dict_insert [of t m k d] dict_lookup by fastforce

end

lemma unique_keys_add:
  assumes "unique_keys compare M" "\<forall>k' d'. (k', d') \<in># M \<longrightarrow> \<not> compare k' k"
    and "\<And>a b c. compare a b \<Longrightarrow> compare b c \<Longrightarrow> compare a c" "\<And>a b. compare a b \<Longrightarrow> compare b a"
  shows "unique_keys compare (add_mset (k, d) M)"
proof -
  have "filter_mset (\<lambda>(k', d). compare k' k'') M = {#}" if "compare k k''" for k''
  proof -
    have "\<not> compare k' k''" if "(k', d') \<in># M" for k' d'
      using assms(2) that \<open>compare k k''\<close> assms(3) [of k' k'' k] assms(4) [of k k''] by blast
    then show ?thesis by auto
  qed
  then show ?thesis using assms(1) by (auto simp: unique_keys_def)
qed

lemma unique_keys_member:
  assumes "unique_keys compare M" "(k1, d1) \<in># M" "(k2, d2) \<in># M - {#(k1, d1)#}"
    "compare k1 k" "compare k2 k"
  shows False
proof -
  have sub: "{#(k1, d1), (k2, d2)#} \<subseteq># M"
    using assms(2,3) by (simp add: insert_subset_eq_iff)
  then have "filter_mset (\<lambda>(k', d). compare k' k) {#(k1, d1), (k2, d2)#}
      \<subseteq># filter_mset (\<lambda>(k', d). compare k' k) M"
    by (rule multiset_filter_mono)
  then have "size (filter_mset (\<lambda>(k', d). compare k' k) {#(k1, d1), (k2, d2)#})
      \<le> size (filter_mset (\<lambda>(k', d). compare k' k) M)"
    by (rule size_mset_mono)
  moreover have "size (filter_mset (\<lambda>(k', d). compare k' k) M) \<le> 1"
    using assms(1) by (simp add: unique_keys_def)
  ultimately show False using assms(4,5) by simp
qed

lemma unique_keys_diff: "unique_keys compare M \<Longrightarrow> unique_keys compare (M - N)"
  unfolding unique_keys_def
  by (meson diff_subset_eq_self le_trans multiset_filter_mono size_mset_mono)

context hash_contract
begin

lemma dict_empty: "ht_dict hash compare (allocHashTable_with hash compare) Map.empty"
  using alloc_holds by (auto simp: ht_dict_def unique_keys_def)

lemma dict_value:
  assumes M: "unique_keys compare M" "\<forall>k d. m k = Some d \<longleftrightarrow> (\<exists>k'. compare k' k \<and> (k', d) \<in># M)"
  shows "(\<exists>k'. compare k' k \<and> (k', d) \<in># M) \<or> (d = 0 \<and> (\<forall>k' d'. (k', d') \<in># M \<longrightarrow> \<not> compare k' k))
     \<Longrightarrow> d = (case m k of None \<Rightarrow> 0 | Some d \<Rightarrow> d)"
  using M(2) by (metis (no_types, lifting) not_None_eq option.simps(4,5))

lemma remove_dict_map:
  assumes M: "unique_keys compare M" "\<forall>k d. m k = Some d \<longleftrightarrow> (\<exists>k'. compare k' k \<and> (k', d) \<in># M)"
    and k0: "(k0, d0) \<in># M" "compare k0 k"
  shows "\<forall>k1 d. (if compare k k1 then None else m k1) = Some d \<longleftrightarrow>
           (\<exists>k'. compare k' k1 \<and> (k', d) \<in># M - {#(k0, d0)#})"
proof (intro allI)
  fix k1 d
  show "(if compare k k1 then None else m k1) = Some d \<longleftrightarrow>
      (\<exists>k'. compare k' k1 \<and> (k', d) \<in># M - {#(k0, d0)#})"
  proof (cases "compare k k1")
    case True
    then have "compare k0 k1" using k0 compare_trans by blast
    then show ?thesis using True unique_keys_member [OF M(1) k0(1)] by auto
  next
    case False
    then have "\<not> compare k0 k1" using k0 compare_trans compare_sym by blast
    then show ?thesis
      using False M(2) by (auto simp: in_diff_count dest: in_diffD)
  qed
qed

end

sublocale hash_contract \<subseteq> table: dictionary "ht_dict hash compare" compare
  lookupHashTable insertHashTable removeHashTable
proof
  show "m k = m k'" if "ht_dict hash compare t m" "compare k k'" for t m k k'
  proof -
    from that obtain M where "\<forall>k d. m k = Some d \<longleftrightarrow> (\<exists>k'. compare k' k \<and> (k', d) \<in># M)"
      by (auto simp: ht_dict_def)
    moreover have "compare k1 k \<longleftrightarrow> compare k1 k'" for k1
      using that(2) compare_trans compare_sym by blast
    ultimately have "m k = Some d \<longleftrightarrow> m k' = Some d" for d by simp
    then show ?thesis by (metis not_None_eq)
  qed
  show "m k \<noteq> Some 0" if "ht_dict hash compare t m" for t m k
    using that unfolding ht_dict_def by metis
  show "lookupHashTable t k = Some (case m k of None \<Rightarrow> 0 | Some d \<Rightarrow> d)"
    if "ht_dict hash compare t m" for t m k
  proof -
    from that obtain M where h: "ht_holds hash compare t M" and M: "unique_keys compare M"
      "\<forall>k d. m k = Some d \<longleftrightarrow> (\<exists>k'. compare k' k \<and> (k', d) \<in># M)"
      by (auto simp: ht_dict_def)
    from lookup_bag [OF h, of k] obtain d where d: "lookupHashTable t k = Some d"
      "(\<exists>k'. compare k' k \<and> (k', d) \<in># M) \<or> (d = 0 \<and> (\<forall>k' d'. (k', d') \<in># M \<longrightarrow> \<not> compare k' k))"
      by blast
    from dict_value [OF M d(2)] d(1) show ?thesis by simp
  qed
  show "\<exists>t'. insertHashTable t k d = Some t'
      \<and> ht_dict hash compare t' (\<lambda>k'. if compare k k' then Some d else m k')"
    if "ht_dict hash compare t m" "m k = None" "d \<noteq> 0" for t m k d
  proof -
    from that(1) obtain M where h: "ht_holds hash compare t M" and M: "unique_keys compare M"
      "\<forall>k' d. (k', d) \<in># M \<longrightarrow> d \<noteq> 0"
      and m: "\<forall>k d. m k = Some d \<longleftrightarrow> (\<exists>k'. compare k' k \<and> (k', d) \<in># M)"
      by (auto simp: ht_dict_def)
    have fresh: "\<forall>k' d'. (k', d') \<in># M \<longrightarrow> \<not> compare k' k" using m that(2) by (metis option.distinct(1))
    from insert_bag [OF h] obtain t' where t': "insertHashTable t k d = Some t'"
      "ht_holds hash compare t' (add_mset (k, d) M)" by blast
    have "unique_keys compare (add_mset (k, d) M)"
      by (rule unique_keys_add [OF M(1) fresh]) (use compare_trans compare_sym in blast)+
    moreover have "(if compare k k1 then Some d else m k1) = Some d1 \<longleftrightarrow>
        (\<exists>k'. compare k' k1 \<and> (k', d1) \<in># add_mset (k, d) M)" for k1 d1
    proof (cases "compare k k1")
      case True
      then have "\<not> compare k' k1" if "(k', d') \<in># M" for k' d'
        using fresh that compare_trans compare_sym by blast
      with True show ?thesis by auto
    next
      case False
      with m show ?thesis by auto
    qed
    ultimately show ?thesis
      unfolding ht_dict_def using t' M(2) that(3)
      by (intro exI [of _ t'] conjI exI [of _ "add_mset (k, d) M"] allI) auto
  qed
  show "\<exists>t'. removeHashTable t k 0 = Some (t', case m k of None \<Rightarrow> 0 | Some d \<Rightarrow> d)
      \<and> ht_dict hash compare t' (\<lambda>k'. if compare k k' then None else m k')"
    if "ht_dict hash compare t m" for t m k
  proof -
    from that obtain M where h: "ht_holds hash compare t M" and M: "unique_keys compare M"
      "\<forall>k' d. (k', d) \<in># M \<longrightarrow> d \<noteq> 0"
      and m: "\<forall>k d. m k = Some d \<longleftrightarrow> (\<exists>k'. compare k' k \<and> (k', d) \<in># M)"
      by (auto simp: ht_dict_def)
    show ?thesis
    proof (cases "matches compare M k 0 = {}")
      case True
      have gone: "m k' = None" if "compare k k'" for k'
      proof -
        have "\<not> (compare k1 k' \<and> (k1, d) \<in># M)" for k1 d
        proof
          assume a: "compare k1 k' \<and> (k1, d) \<in># M"
          with that have "compare k1 k" using compare_trans compare_sym by blast
          with a True show False by (auto simp: matches_def)
        qed
        then show ?thesis using m by (meson not_None_eq)
      qed
      then have none: "m k = None" using compare_refl by blast
      from gone have "(\<lambda>k'. if compare k k' then None else m k') = m" by auto
      with that have "ht_dict hash compare t (\<lambda>k'. if compare k k' then None else m k')"
        by (simp only:)
      moreover have "removeHashTable t k 0 = Some (t, 0)" using remove_bag(2) [OF h True] by simp
      ultimately show ?thesis using none by (intro exI [of _ t]) simp
    next
      case False
      from remove_bag(1) [OF h False] obtain t' k0 d0 where
        rm: "removeHashTable t k 0 = Some (t', d0)" and k0: "(k0, d0) \<in># M" "compare k0 k"
        and h': "ht_holds hash compare t' (M - {#(k0, d0)#})"
        by (auto simp: matches_def)
      have "m k = Some d0" using m k0 by blast
      moreover have "\<forall>k' d. (k', d) \<in># M - {#(k0, d0)#} \<longrightarrow> d \<noteq> 0" using M(2) by (blast dest: in_diffD)
      then have "ht_dict hash compare t' (\<lambda>k'. if compare k k' then None else m k')"
        unfolding ht_dict_def
        using h' unique_keys_diff [OF M(1)] remove_dict_map [OF M(1) m k0] by blast
      ultimately show ?thesis using rm by simp
    qed
  qed
qed

text \<open>For word tables the map is updated at the one key.\<close>

lemma word_dict_insert:
  assumes "ht_dict hashWord compareWord t m" "m k = None" "d \<noteq> 0"
  shows "\<exists>t'. insertHashTable t k d = Some t' \<and> ht_dict hashWord compareWord t' (m(k \<mapsto> d))"
  using word_hash.table.dict_insert [OF assms]
  by (simp add: compareWord_def fun_upd_def eq_commute cong: if_cong)

lemma word_dict_remove:
  assumes "ht_dict hashWord compareWord t m"
  shows "\<exists>t'. removeHashTable t k 0 = Some (t', case m k of None \<Rightarrow> 0 | Some d \<Rightarrow> d)
     \<and> ht_dict hashWord compareWord t' (m(k := None))"
  using word_hash.table.dict_remove [OF assms, of k]
  by (simp add: compareWord_def fun_upd_def eq_commute cong: if_cong)

lemma word_dict_empty: "ht_dict hashWord compareWord allocHashTable Map.empty"
  unfolding allocHashTable_def by (rule word_hash.dict_empty)

section \<open>Properties\<close>

text \<open>A client that inserts a list of pairs one after the other.\<close>

fun insert_all :: "HashTable \<Rightarrow> (StgWord \<times> StgWord) list \<Rightarrow> HashTable option" where
  "insert_all t [] = Some t"
| "insert_all t ((k, d) # kds) = do { t' \<leftarrow> insertHashTable t k d; insert_all t' kds }"

lemma insert_all_dict:
  assumes "ht_dict hashWord compareWord t m" "distinct (map fst kds)"
    "\<forall>(k, d) \<in> set kds. m k = None \<and> d \<noteq> 0"
  shows "\<exists>t'. insert_all t kds = Some t' \<and> ht_dict hashWord compareWord t' (m ++ map_of kds)"
  using assms
proof (induction kds arbitrary: t m)
  case Nil
  then show ?case by simp
next
  case (Cons kd kds)
  obtain k d where kd: "kd = (k, d)" by fastforce
  from Cons.prems kd have "m k = None" "d \<noteq> 0" by auto
  from word_dict_insert [OF Cons.prems(1) this] obtain t1 where
    t1: "insertHashTable t k d = Some t1" and d1: "ht_dict hashWord compareWord t1 (m(k \<mapsto> d))"
    by blast
  have "\<exists>t'. insert_all t1 kds = Some t' \<and> ht_dict hashWord compareWord t' (m(k \<mapsto> d) ++ map_of kds)"
    by (rule Cons.IH [OF d1]) (use Cons.prems kd in \<open>auto simp: rev_image_eqI split: if_splits\<close>)
  moreover have "m(k \<mapsto> d) ++ map_of kds = m ++ map_of ((k, d) # kds)"
    using Cons.prems kd by (simp add: map_add_upd_left dom_map_of_conv_image_fst)
  ultimately show ?case using t1 kd by (simp only: insert_all.simps bind.bind_lunit)
qed

text \<open>
  Claim C1.  Inserting any number of pairs with distinct keys and non-null data into a
  fresh table succeeds, however often the table is expanded on the way, and a lookup then
  answers the datum of the key, or null for a key that was not inserted.
\<close>

theorem hash_table_is_a_map:
  assumes "distinct (map fst kds)" "\<forall>(k, d) \<in> set kds. d \<noteq> 0"
  shows "\<exists>t. insert_all allocHashTable kds = Some t
     \<and> (\<forall>k. lookupHashTable t k = Some (case map_of kds k of None \<Rightarrow> 0 | Some d \<Rightarrow> d))"
proof -
  have "\<exists>t. insert_all allocHashTable kds = Some t
      \<and> ht_dict hashWord compareWord t (Map.empty ++ map_of kds)"
    by (rule insert_all_dict) (use assms word_dict_empty in auto)
  then show ?thesis using word_hash.table.dict_lookup by (auto simp: map_add_def)
qed

theorem hash_table_is_a_map_witness:
  "\<exists>t. insert_all allocHashTable [(8, 1), (8200, 2)] = Some t
     \<and> lookupHashTable t 8 = Some 1 \<and> lookupHashTable t 8200 = Some 2 \<and> lookupHashTable t 16 = Some 0"
proof -
  have d: "distinct (map fst [(8, 1), (8200, 2) :: StgWord \<times> StgWord])"
    and n: "\<forall>(k, d) \<in> set [(8, 1), (8200, 2) :: StgWord \<times> StgWord]. d \<noteq> 0" by auto
  from hash_table_is_a_map [OF d n] show ?thesis by fastforce
qed

text \<open>
  On every well-formed string table an insertion returns and adds exactly the
  given pair to the multiset of pairs the table holds, whether or not the table expands.
\<close>

theorem hash_insert_adds:
  assumes "ht_holds (hashStr str) (compareStr str) t M"
  shows "\<exists>t'. insertHashTable t key data = Some t'
     \<and> ht_holds (hashStr str) (compareStr str) t' (add_mset (key, data) M)"
  using assms by (rule str_hash.insert_bag)

theorem hash_insert_adds_witness:
  "\<exists>t'. insertHashTable (allocStrHashTable (\<lambda>_. [104, 105])) 16 3 = Some t'
     \<and> ht_holds (hashStr (\<lambda>_. [104, 105])) (compareStr (\<lambda>_. [104, 105])) t' {#(16, 3)#}"
  unfolding allocStrHashTable_def by (rule hash_insert_adds [OF str_hash.alloc_holds])

text \<open>
  Removal on a well-formed word table: when a pair with the key (and the datum,
  if one is given) is there, one such pair is removed and its datum returned; when there is
  none, the table is unchanged and the answer is null, unless a datum was given, in which
  case the assertion after the loop fails.
\<close>

theorem hash_remove_one:
  assumes "ht_holds hashWord compareWord t M"
  shows "if matches compareWord M k d = {}
     then removeHashTable t k d = (if d = 0 then Some (t, 0) else None)
     else \<exists>t' k' d'. removeHashTable t k d = Some (t', d') \<and> (k', d') \<in> matches compareWord M k d
            \<and> ht_holds hashWord compareWord t' (M - {#(k', d')#})"
  using word_hash.remove_bag [OF assms, of k d] by auto

theorem hash_remove_one_witness:
  "removeHashTable allocHashTable 8 0 = Some (allocHashTable, 0) \<and> removeHashTable allocHashTable 8 1 = None"
proof -
  have "ht_holds hashWord compareWord allocHashTable {#}"
    unfolding allocHashTable_def by (rule word_hash.alloc_holds)
  from hash_remove_one [OF this, of 8 0] hash_remove_one [OF this, of 8 1] show ?thesis
    by (simp add: matches_def)
qed

text \<open>
  Freeing a table visits every bucket once: the data handed to the caller's
  function are, as a multiset, exactly the data the table holds.
\<close>

theorem hash_free_every_datum:
  assumes "ht_holds hashWord compareWord t M"
  shows "\<exists>ds. freeHashTable t = Some (ds, ht_chunks t) \<and> mset ds = image_mset snd M"
  using assms by (rule word_hash.free_bag)

theorem hash_free_every_datum_witness: "freeHashTable allocHashTable = Some ([], [])"
proof -
  have "ht_holds hashWord compareWord allocHashTable {#}"
    unfolding allocHashTable_def by (rule word_hash.alloc_holds)
  from hash_free_every_datum [OF this] show ?thesis
    by (auto simp: allocHashTable_def allocHashTable_with_def)
qed

text \<open>
  An expansion reverses the chain it splits, so it does not preserve which of two
  entries with the same key a lookup finds: the newer entry answers before the expansion
  and the older one after it.
\<close>

theorem expand_uncovers_older_entry:
  assumes rep: "ht_rep t bs fl" and t: "ht_hash t = hashWord" "ht_compare t = compareWord"
    and small: "buckets (geom t) < HDIRSIZE * HSEGSIZE"
    and bucket: "bs (ht_split t) = [x, y]" and keys: "cell_key t x = k" "cell_key t y = k"
  shows "\<exists>t'. expand t = Some t' \<and> lookupHashTable t k = Some (cell_data t x)
     \<and> lookupHashTable t' k = Some (cell_data t y)"
proof -
  from word_hash.expand_rep [OF rep t(1) small] obtain t' where ex: "expand t = Some t'"
    and rep': "ht_rep t' (dealt t bs) fl" and g: "geom t' = grow_geom (geom t)"
    and s: "ht_hash t' = hashWord" "ht_compare t' = compareWord"
      "\<And>x. cell_key t' x = cell_key t x \<and> cell_data t' x = cell_data t x"
    using t by auto
  have b: "hash_of t k = ht_split t"
    using rep bucket keys by (auto simp: ht_rep_def)
  obtain n where ok: "geom_ok (geom t) n" using rep by (auto simp: ht_rep_def)
  have ne: "ht_split t \<noteq> buckets (geom t)" using ok by (auto simp: geom_ok_def buckets_def)
  have "hash_of t' k = ht_split t \<or> hash_of t' k = buckets (geom t)"
    using word_hash.hash_grow(2) [OF ok small, of k] b t s g by simp
  then have "dealt t bs (hash_of t' k) = [y, x]"
    using ne bucket keys t s g by (auto simp: dealt_def grown_sel)
  moreover have "find_cell t k [x, y] = Some x" "find_cell t' k [y, x] = Some y"
    using keys t s by (simp_all add: compareWord_def)
  ultimately show ?thesis
    using ex word_hash.lookup_cell [OF rep t(1), of k] word_hash.lookup_cell [OF rep' s(1), of k]
      b bucket s by simp
qed

text \<open>A table in which key 0 was bound to 1 and then to 2, both in the bucket to split.\<close>

definition twice_bound :: HashTable where
  "twice_bound = allocHashTable\<lparr>ht_kcount := 2, ht_brk := 3,
     ht_dir := [0 \<mapsto> (\<lambda>i. if i = 0 then Some 2 else if 0 \<le> i \<and> i < HSEGSIZE then Some NULL else None)],
     ht_cells := (\<lambda>p. if p = 2 then \<lparr>hl_key = 0, hl_data = 2, hl_next = 1\<rparr>
                      else \<lparr>hl_key = 0, hl_data = 1, hl_next = NULL\<rparr>)\<rparr>"

lemma twice_bound_rep: "ht_rep twice_bound (\<lambda>b. if b = 0 then [2, 1] else []) []"
proof -
  have g: "geom twice_bound = \<lparr>ht_split = 0, ht_max = 1024, ht_mask1 = 1023, ht_mask2 = 2047\<rparr>"
    by (simp add: twice_bound_def allocHashTable_def allocHashTable_with_def HSEGSIZE_def
        HashGeom.truncate_def)
  have "geom_ok (geom twice_bound) 10"
    by (simp add: g geom_ok_def HSEGSIZE_def HDIRSIZE_def)
  moreover have "chains_ok twice_bound (\<lambda>b. if b = 0 then [2, 1] else [])"
    unfolding chains_ok_def g buckets_def
    by (auto simp: twice_bound_def read_dir_def HSEGSIZE_def zdiv_eq_0_iff)
  moreover have "hash_of twice_bound 0 = 0"
    unfolding g by (simp add: twice_bound_def allocHashTable_def allocHashTable_with_def hashWord_def)
  moreover have "ht_bcount twice_bound = 1024" "ht_brk twice_bound = 3" "ht_freeList twice_bound = NULL"
    "\<And>x. cell_key twice_bound x = 0"
    by (simp_all add: twice_bound_def allocHashTable_def allocHashTable_with_def HSEGSIZE_def)
  ultimately show ?thesis
    unfolding ht_rep_def by (auto simp: g buckets_def separate_def cells_of_def split: if_splits)
qed

theorem expand_uncovers_older_entry_witness:
  "\<exists>t'. expand twice_bound = Some t' \<and> lookupHashTable twice_bound 0 = Some 2
     \<and> lookupHashTable t' 0 = Some 1"
proof -
  have "ht_hash twice_bound = hashWord" "ht_compare twice_bound = compareWord"
    "buckets (geom twice_bound) < HDIRSIZE * HSEGSIZE" "ht_split twice_bound = 0"
    "cell_key twice_bound 1 = 0" "cell_key twice_bound 2 = 0"
    "cell_data twice_bound 1 = 1" "cell_data twice_bound 2 = 2"
    by (simp_all add: twice_bound_def allocHashTable_def allocHashTable_with_def HSEGSIZE_def
        HDIRSIZE_def buckets_def)
  with expand_uncovers_older_entry [OF twice_bound_rep, of 2 1 0] show ?thesis by simp
qed

end
