(* ===== verification/FileLock.thy ===== *)
theory FileLock
  imports HashTable
begin

text \<open>
  Single-writer/multiple-reader locking of files, \<open>rts/posix/FileLock.c\<close>: a client of the
  hash tables.  One table maps device/inode pairs (through pointers to \<open>Lock\<close> objects) to
  locks, the other maps file descriptors to locks.  The calls run under \<open>file_lock_mutex\<close>,
  so each is one step.  Memory holding \<open>Lock\<close> objects is a function from addresses; the
  address of the local \<open>key\<close> and the one \<open>malloc\<close> returns are arguments of \<open>lockFile\<close>.
\<close>

section \<open>The code\<close>

record Lock =
  device :: StgWord
  inode :: StgWord
  readers :: int

type_synonym lock_mem = "StgWord \<Rightarrow> Lock"

record FileLocks =
  obj_hash :: HashTable
  fd_hash :: HashTable
  lock_mem :: lock_mem

definition cmpLocks :: "lock_mem \<Rightarrow> StgWord \<Rightarrow> StgWord \<Rightarrow> bool" where
  "cmpLocks mem w1 w2 = (device (mem w1) = device (mem w2) \<and> inode (mem w1) = inode (mem w2))"

definition hashLock :: "lock_mem \<Rightarrow> HashGeom \<Rightarrow> StgWord \<Rightarrow> int" where
  "hashLock mem table w = hashWord table (inode (mem w) XOR device (mem w))"

text \<open>The function pointers stored in \<open>obj_hash\<close> read the memory as it is at each call.\<close>

definition obj_view :: "lock_mem \<Rightarrow> HashTable \<Rightarrow> HashTable" where
  "obj_view mem t = t\<lparr>ht_hash := hashLock mem, ht_compare := cmpLocks mem\<rparr>"

definition initFileLocking :: "lock_mem \<Rightarrow> FileLocks" where
  "initFileLocking mem =
     \<lparr>obj_hash = allocHashTable_with (hashLock mem) (cmpLocks mem), fd_hash = allocHashTable,
      lock_mem = mem\<rparr>"

definition lockFile ::
  "FileLocks \<Rightarrow> StgWord \<Rightarrow> StgWord \<Rightarrow> StgWord \<Rightarrow> StgWord \<Rightarrow> StgWord \<Rightarrow> bool \<Rightarrow> (FileLocks \<times> int) option" where
  "lockFile s key_addr fresh fd dev ino for_writing = do {
     let mem0 = (lock_mem s)(key_addr := (lock_mem s key_addr)\<lparr>device := dev, inode := ino\<rparr>);
     lock \<leftarrow> lookupHashTable (obj_view mem0 (obj_hash s)) key_addr;
     if lock = 0 then do {
       let mem1 = mem0(fresh := \<lparr>device = dev, inode = ino, readers = (if for_writing then -1 else 1)\<rparr>);
       obj \<leftarrow> insertHashTable (obj_view mem1 (obj_hash s)) fresh fresh;
       fds \<leftarrow> insertHashTable (fd_hash s) fd fresh;
       Some (\<lparr>obj_hash = obj, fd_hash = fds, lock_mem = mem1\<rparr>, 0)
     }
     else if for_writing \<or> readers (mem0 lock) < 0
     then Some (s\<lparr>obj_hash := obj_view mem0 (obj_hash s), lock_mem := mem0\<rparr>, -1)
     else do {
       fds \<leftarrow> insertHashTable (fd_hash s) fd lock;
       let mem1 = mem0(lock := (mem0 lock)\<lparr>readers := readers (mem0 lock) + 1\<rparr>);
       Some (\<lparr>obj_hash = obj_view mem1 (obj_hash s), fd_hash = fds, lock_mem = mem1\<rparr>, 0)
     }
   }"

definition unlockFile :: "FileLocks \<Rightarrow> StgWord \<Rightarrow> (FileLocks \<times> int) option" where
  "unlockFile s fd = do {
     lock \<leftarrow> lookupHashTable (fd_hash s) fd;
     if lock = 0 then Some (s, 1)
     else do {
       let l = lock_mem s lock;
       let r = (if readers l < 0 then readers l + 1 else readers l - 1);
       let mem1 = (lock_mem s)(lock := l\<lparr>readers := r\<rparr>);
       obj \<leftarrow> (if r = 0
               then do { (obj, d) \<leftarrow> removeHashTable (obj_view mem1 (obj_hash s)) lock 0; Some obj }
               else Some (obj_view mem1 (obj_hash s)));
       (fds, d) \<leftarrow> removeHashTable (fd_hash s) fd 0;
       Some (\<lparr>obj_hash = obj, fd_hash = fds, lock_mem = mem1\<rparr>, 0)
     }
   }"

definition freeFileLocking :: "FileLocks \<Rightarrow> StgWord list option" where
  "freeFileLocking s = do {
     (locks, chunks) \<leftarrow> freeHashTable (obj_hash s);
     (ignored, chunks') \<leftarrow> freeHashTable (fd_hash s);
     Some locks
   }"

section \<open>The specification\<close>

text \<open>
  What the component promises: each locked object has a positive number of readers or one
  writer, and every locked descriptor belongs to one object.
\<close>

datatype file_obj = File (file_dev: StgWord) (file_ino: StgWord)

record lock_table =
  modes :: "file_obj \<rightharpoonup> int"
  holds :: "StgWord \<rightharpoonup> file_obj"

definition spec_lock :: "lock_table \<Rightarrow> StgWord \<Rightarrow> file_obj \<Rightarrow> bool \<Rightarrow> lock_table \<times> int" where
  "spec_lock a fd ob for_writing =
     (case modes a ob of
        None \<Rightarrow> (\<lparr>modes = (modes a)(ob \<mapsto> if for_writing then -1 else 1), holds = (holds a)(fd \<mapsto> ob)\<rparr>, 0)
      | Some n \<Rightarrow> (if for_writing \<or> n < 0 then (a, -1)
                  else (\<lparr>modes = (modes a)(ob \<mapsto> n + 1), holds = (holds a)(fd \<mapsto> ob)\<rparr>, 0)))"

definition spec_unlock :: "lock_table \<Rightarrow> StgWord \<Rightarrow> lock_table \<times> int" where
  "spec_unlock a fd =
     (case holds a fd of
        None \<Rightarrow> (a, 1)
      | Some ob \<Rightarrow> (let n = the (modes a ob); r = (if n < 0 then n + 1 else n - 1)
                   in (\<lparr>modes = (modes a)(ob := if r = 0 then None else Some r),
                        holds = (holds a)(fd := None)\<rparr>, 0)))"

definition holders :: "(StgWord \<rightharpoonup> file_obj) \<Rightarrow> file_obj \<Rightarrow> StgWord set" where
  "holders h ob = {fd. h fd = Some ob}"

definition mode_ok :: "int option \<Rightarrow> nat \<Rightarrow> bool" where
  "mode_ok m c = (case m of None \<Rightarrow> c = 0 | Some n \<Rightarrow> (n = -1 \<and> c = 1) \<or> (0 < n \<and> int c = n))"

definition spec_inv :: "lock_table \<Rightarrow> bool" where
  "spec_inv a \<longleftrightarrow> (\<forall>ob. mode_ok (modes a ob) (card (holders (holds a) ob)))"

lemma card_holders_add:
  assumes fd: "h fd = None"
  shows "card (holders (h(fd \<mapsto> ob)) ob') = card (holders h ob') + (if ob' = ob then 1 else 0)"
proof -
  have "holders (h(fd \<mapsto> ob)) ob' = (if ob' = ob then insert fd (holders h ob') else holders h ob')"
    using fd by (auto simp: holders_def)
  moreover have "fd \<notin> holders h ob'" using fd by (simp add: holders_def)
  ultimately show ?thesis by (cases "ob' = ob") auto
qed

lemma card_holders_del:
  assumes fd: "h fd = Some ob"
  shows "card (holders h ob') = card (holders (h(fd := None)) ob') + (if ob' = ob then 1 else 0)"
  using card_holders_add [of "h(fd := None)" fd ob ob'] fd by (simp add: fun_upd_idem)

lemma spec_lock_inv:
  assumes inv: "spec_inv a" and fd: "holds a fd = None"
  shows "spec_inv (fst (spec_lock a fd ob w))"
proof -
  have ok: "mode_ok (modes a ob') (card (holders (holds a) ob'))" for ob'
    using inv by (simp add: spec_inv_def)
  note add = card_holders_add [of "holds a" fd, OF fd]
  have "mode_ok (modes (fst (spec_lock a fd ob w)) ob') (card (holders (holds (fst (spec_lock a fd ob w))) ob'))" for ob'
    using ok [of ob'] ok [of ob]
    by (cases "modes a ob'"; cases "modes a ob"; cases "ob' = ob")
      (auto simp: spec_lock_def add mode_ok_def simp del: card_eq_0_iff)
  then show ?thesis by (simp add: spec_inv_def)
qed

lemma spec_unlock_inv:
  assumes inv: "spec_inv a"
  shows "spec_inv (fst (spec_unlock a fd))"
proof (cases "holds a fd")
  case None
  then show ?thesis using inv by (simp add: spec_unlock_def)
next
  case (Some ob)
  have ok: "mode_ok (modes a ob') (card (holders ((holds a)(fd := None)) ob') + (if ob' = ob then 1 else 0))" for ob'
    using inv by (simp add: spec_inv_def card_holders_del [of "holds a" fd, OF Some, symmetric])
  obtain n where n: "modes a ob = Some n" using ok [of ob] by (auto simp: mode_ok_def split: option.splits)
  have "mode_ok (((modes a)(ob := (let r = (if n < 0 then n + 1 else n - 1) in if r = 0 then None else Some r))) ob')
      (card (holders ((holds a)(fd := None)) ob'))" for ob'
    using ok [of ob'] n by (cases "ob' = ob") (auto simp: mode_ok_def Let_def split: if_splits option.splits)
  then show ?thesis
    using Some n by (simp add: spec_inv_def spec_unlock_def Let_def)
qed

section \<open>Refinement\<close>

interpretation lock_hash: hash_contract "hashLock mem" "cmpLocks mem"
  "\<lambda>w. uint ((inode (mem w) XOR device (mem w)) div 8)" for mem
  by unfold_locales
    (auto simp: hashLock_def cmpLocks_def word_hash.hash_bucket)

definition obj_of :: "lock_mem \<Rightarrow> StgWord \<Rightarrow> file_obj" where
  "obj_of mem x = File (device (mem x)) (inode (mem x))"

definition lock_pairs :: "(file_obj \<rightharpoonup> StgWord) \<Rightarrow> (StgWord \<times> StgWord) multiset" where
  "lock_pairs L = image_mset (\<lambda>x. (x, x)) (mset_set (ran L))"

text \<open>
  \<open>fl_rep s L a\<close>: the lock of object \<open>ob\<close> is at address \<open>L ob\<close>, and the two tables and the
  lock objects represent the lock table \<open>a\<close>.
\<close>

definition fl_rep :: "FileLocks \<Rightarrow> (file_obj \<rightharpoonup> StgWord) \<Rightarrow> lock_table \<Rightarrow> bool" where
  "fl_rep s L a \<longleftrightarrow>
     ht_holds (hashLock (lock_mem s)) (cmpLocks (lock_mem s)) (obj_hash s) (lock_pairs L)
     \<and> (\<forall>ob x. L ob = Some x \<longrightarrow> x \<noteq> 0 \<and> obj_of (lock_mem s) x = ob)
     \<and> modes a = (\<lambda>ob. map_option (\<lambda>x. readers (lock_mem s x)) (L ob))
     \<and> (\<exists>fm. ht_dict hashWord compareWord (fd_hash s) fm
          \<and> (\<forall>fd x. fm fd = Some x \<longrightarrow> x \<in> ran L)
          \<and> holds a = (\<lambda>fd. map_option (obj_of (lock_mem s)) (fm fd)))"

lemma cmpLocks_obj: "cmpLocks mem x y \<longleftrightarrow> obj_of mem x = obj_of mem y"
  by (simp add: cmpLocks_def obj_of_def)

lemma hashLock_obj: "obj_of mem' x = obj_of mem x \<Longrightarrow> hashLock mem' g x = hashLock mem g x"
  by (simp add: hashLock_def obj_of_def)

lemma lock_pairs_mem [simp]: "(k, d) \<in># lock_pairs L \<longleftrightarrow> k = d \<and> d \<in> ran L"
  by (auto simp: lock_pairs_def)

lemma lock_pairs_add:
  assumes "x \<notin> ran L" "L ob = None"
  shows "lock_pairs (L(ob \<mapsto> x)) = add_mset (x, x) (lock_pairs L)"
  using assms by (simp add: lock_pairs_def)

lemma lock_pairs_del:
  assumes "L ob = Some x" "\<And>ob'. L ob' = Some x \<Longrightarrow> ob' = ob"
  shows "lock_pairs (L(ob := None)) = lock_pairs L - {#(x, x)#}"
proof -
  have "x \<notin> ran (L(ob := None))"
  proof
    assume "x \<in> ran (L(ob := None))"
    then obtain ob' where "ob' \<noteq> ob" "L ob' = Some x" by (auto simp: ran_def split: if_splits)
    with assms(2) show False by blast
  qed
  moreover have "ran L = insert x (ran (L(ob := None)))"
    using assms(1) ran_map_upd [of "L(ob := None)" ob x] by (simp add: fun_upd_idem)
  ultimately show ?thesis by (simp add: lock_pairs_def)
qed

text \<open>The table keeps its contents when the memory changes outside the live locks' identity.\<close>

lemma obj_view_holds:
  assumes "fl_rep s L a" "\<And>x. x \<in> ran L \<Longrightarrow> obj_of mem x = obj_of (lock_mem s) x"
  shows "ht_holds (hashLock mem) (cmpLocks mem) (obj_view mem (obj_hash s)) (lock_pairs L)"
  unfolding obj_view_def
proof (rule ht_holds_rehash)
  show "ht_holds (hashLock (lock_mem s)) (cmpLocks (lock_mem s)) (obj_hash s) (lock_pairs L)"
    using assms(1) by (simp add: fl_rep_def)
  show "hashLock mem g k = hashLock (lock_mem s) g k" if "(k, d) \<in># lock_pairs L" for g k d
    using that assms(2) [of k] by (intro hashLock_obj) simp
qed

lemma obj_lookup:
  assumes rep: "fl_rep s L a" and mem: "\<And>x. x \<in> ran L \<Longrightarrow> obj_of mem x = obj_of (lock_mem s) x"
  shows "lookupHashTable (obj_view mem (obj_hash s)) k =
     Some (case L (obj_of mem k) of None \<Rightarrow> 0 | Some x \<Rightarrow> x)"
proof -
  have L: "L ob = Some x \<Longrightarrow> x \<noteq> 0 \<and> obj_of mem x = ob" for ob x
    using rep mem [OF ranI] unfolding fl_rep_def by metis
  from lock_hash.lookup_bag [OF obj_view_holds [OF rep mem], of k] obtain d where
    d: "lookupHashTable (obj_view mem (obj_hash s)) k = Some d"
    and cases: "(\<exists>k'. cmpLocks mem k' k \<and> (k', d) \<in># lock_pairs L)
      \<or> (d = 0 \<and> (\<forall>k' d'. (k', d') \<in># lock_pairs L \<longrightarrow> \<not> cmpLocks mem k' k))"
    by blast
  from cases have "d = (case L (obj_of mem k) of None \<Rightarrow> 0 | Some x \<Rightarrow> x)"
    using L by (auto simp: cmpLocks_obj ran_def split: option.splits)
  with d show ?thesis by simp
qed

lemma obj_of_upd:
  "x \<noteq> y \<Longrightarrow> obj_of (mem(y := l)) x = obj_of mem x"
  "obj_of (mem(y := l)) y = File (device l) (inode l)"
  by (simp_all add: obj_of_def)

lemma fl_repE:
  assumes "fl_rep s L a"
  obtains fm where "ht_dict hashWord compareWord (fd_hash s) fm" "\<And>fd x. fm fd = Some x \<Longrightarrow> x \<in> ran L"
    "holds a = (\<lambda>fd. map_option (obj_of (lock_mem s)) (fm fd))"
    "modes a = (\<lambda>ob. map_option (\<lambda>x. readers (lock_mem s x)) (L ob))"
    "\<And>ob x. L ob = Some x \<Longrightarrow> x \<noteq> 0 \<and> obj_of (lock_mem s) x = ob"
  using assms unfolding fl_rep_def by metis

lemma fl_repI:
  assumes "ht_holds (hashLock mem) (cmpLocks mem) t (lock_pairs L)"
    and "\<And>ob x. L ob = Some x \<Longrightarrow> x \<noteq> 0 \<and> obj_of mem x = ob"
    and "ht_dict hashWord compareWord f fm" "\<And>fd x. fm fd = Some x \<Longrightarrow> x \<in> ran L"
    and "\<And>ob. ms ob = map_option (\<lambda>x. readers (mem x)) (L ob)"
    and "\<And>fd. hs fd = map_option (obj_of mem) (fm fd)"
  shows "fl_rep \<lparr>obj_hash = t, fd_hash = f, lock_mem = mem\<rparr> L \<lparr>modes = ms, holds = hs\<rparr>"
  using assms unfolding fl_rep_def fun_eq_iff by auto

text \<open>A lock that is not there yet is created; one that is there gains a reader or refuses.\<close>

lemma lockFile_new:
  assumes rep: "fl_rep s L a" and key: "key_addr \<notin> ran L" and fresh: "fresh \<notin> ran L" "fresh \<noteq> 0"
    and fd: "holds a fd = None" and none: "L (File dev ino) = None"
  shows "\<exists>s'. lockFile s key_addr fresh fd dev ino w = Some (s', 0)
     \<and> fl_rep s' (L(File dev ino \<mapsto> fresh))
         \<lparr>modes = (modes a)(File dev ino \<mapsto> if w then -1 else 1), holds = (holds a)(fd \<mapsto> File dev ino)\<rparr>"
proof -
  let ?ob = "File dev ino"
  from rep obtain fm where fm: "ht_dict hashWord compareWord (fd_hash s) fm"
    "\<And>fd x. fm fd = Some x \<Longrightarrow> x \<in> ran L"
    and a: "holds a = (\<lambda>fd. map_option (obj_of (lock_mem s)) (fm fd))"
      "modes a = (\<lambda>ob. map_option (\<lambda>x. readers (lock_mem s x)) (L ob))"
    and L: "\<And>ob x. L ob = Some x \<Longrightarrow> x \<noteq> 0 \<and> obj_of (lock_mem s) x = ob"
    by (rule fl_repE) blast
  let ?mem0 = "(lock_mem s)(key_addr := (lock_mem s key_addr)\<lparr>device := dev, inode := ino\<rparr>)"
  define mem1 where "mem1 = ?mem0(fresh := \<lparr>device = dev, inode = ino, readers = (if w then -1 else 1)\<rparr>)"
  have keep: "?mem0 x = lock_mem s x" "mem1 x = lock_mem s x" if "x \<in> ran L" for x
    using that key fresh by (auto simp: mem1_def)
  have obs: "obj_of ?mem0 x = obj_of (lock_mem s) x" "obj_of mem1 x = obj_of (lock_mem s) x"
    if "x \<in> ran L" for x using keep [OF that] by (simp_all add: obj_of_def)
  have new: "obj_of mem1 fresh = ?ob" "readers (mem1 fresh) = (if w then -1 else 1)"
    by (simp_all add: mem1_def obj_of_def)
  have "lookupHashTable (obj_view ?mem0 (obj_hash s)) key_addr = Some 0"
    using obj_lookup [OF rep obs(1), of key_addr] none by (simp add: obj_of_upd)
  moreover from lock_hash.insert_bag [OF obj_view_holds [OF rep obs(2)], of fresh fresh] obtain t where
    "insertHashTable (obj_view mem1 (obj_hash s)) fresh fresh = Some t"
    and t: "ht_holds (hashLock mem1) (cmpLocks mem1) t (lock_pairs (L(?ob \<mapsto> fresh)))"
    using lock_pairs_add [of fresh L ?ob] fresh none by auto
  moreover from word_dict_insert [OF fm(1), of fd fresh] fd a(1) fresh obtain f where
    "insertHashTable (fd_hash s) fd fresh = Some f"
    and f: "ht_dict hashWord compareWord f (fm(fd \<mapsto> fresh))" by auto
  ultimately have "lockFile s key_addr fresh fd dev ino w =
      Some (\<lparr>obj_hash = t, fd_hash = f, lock_mem = mem1\<rparr>, 0)"
    by (simp add: lockFile_def Let_def mem1_def)
  moreover have "fl_rep \<lparr>obj_hash = t, fd_hash = f, lock_mem = mem1\<rparr> (L(?ob \<mapsto> fresh))
      \<lparr>modes = (modes a)(?ob \<mapsto> if w then -1 else 1), holds = (holds a)(fd \<mapsto> ?ob)\<rparr>"
  proof (rule fl_repI [OF t _ f])
    show "x \<noteq> 0 \<and> obj_of mem1 x = ob" if "(L(?ob \<mapsto> fresh)) ob = Some x" for ob x
      using that L [of ob x] obs(2) [of x] new fresh by (auto simp: ranI split: if_splits)
    show "x \<in> ran (L(?ob \<mapsto> fresh))" if "(fm(fd \<mapsto> fresh)) fd' = Some x" for fd' x
      using that fm(2) [of fd' x] none by (auto split: if_splits)
    show "((modes a)(?ob \<mapsto> if w then -1 else 1)) ob =
        map_option (\<lambda>x. readers (mem1 x)) ((L(?ob \<mapsto> fresh)) ob)" for ob
      using new keep(2) a(2) by (cases "L ob") (auto simp: ranI)
    show "((holds a)(fd \<mapsto> ?ob)) fd' = map_option (obj_of mem1) ((fm(fd \<mapsto> fresh)) fd')" for fd'
      using new obs(2) fm(2) a(1) by (cases "fm fd'") auto
  qed
  ultimately show ?thesis by blast
qed

lemma lockFile_shared:
  assumes rep: "fl_rep s L a" and key: "key_addr \<notin> ran L"
    and fd: "holds a fd = None" and some: "L (File dev ino) = Some l"
  shows "\<exists>s'. lockFile s key_addr fresh fd dev ino w =
       Some (s', snd (spec_lock a fd (File dev ino) w)) \<and> fl_rep s' L (fst (spec_lock a fd (File dev ino) w))"
proof -
  let ?ob = "File dev ino"
  from rep obtain fm where fm: "ht_dict hashWord compareWord (fd_hash s) fm"
    "\<And>fd x. fm fd = Some x \<Longrightarrow> x \<in> ran L"
    and a: "holds a = (\<lambda>fd. map_option (obj_of (lock_mem s)) (fm fd))"
      "modes a = (\<lambda>ob. map_option (\<lambda>x. readers (lock_mem s x)) (L ob))"
    and L: "\<And>ob x. L ob = Some x \<Longrightarrow> x \<noteq> 0 \<and> obj_of (lock_mem s) x = ob"
    by (rule fl_repE) blast
  define mem0 where "mem0 = (lock_mem s)(key_addr := (lock_mem s key_addr)\<lparr>device := dev, inode := ino\<rparr>)"
  have l: "l \<in> ran L" "l \<noteq> 0" using some L by (auto simp: ranI)
  have keep: "mem0 x = lock_mem s x" if "x \<in> ran L" for x
    using that key by (auto simp: mem0_def)
  then have obs: "obj_of mem0 x = obj_of (lock_mem s) x" if "x \<in> ran L" for x
    using that by (simp add: obj_of_def)
  have look: "lookupHashTable (obj_view mem0 (obj_hash s)) key_addr = Some l"
    using obj_lookup [OF rep obs, of key_addr] some by (simp add: mem0_def obj_of_upd)
  show ?thesis
  proof (cases "w \<or> readers (mem0 l) < 0")
    case True
    let ?s = "\<lparr>obj_hash = obj_view mem0 (obj_hash s), fd_hash = fd_hash s, lock_mem = mem0\<rparr>"
    have "lockFile s key_addr fresh fd dev ino w = Some (?s, -1)"
      using look True l by (simp add: lockFile_def Let_def mem0_def [symmetric])
    moreover have "spec_lock a fd ?ob w = (a, -1)"
      using some True keep [OF l(1)] a(2) by (simp add: spec_lock_def)
    moreover have "fl_rep ?s L \<lparr>modes = modes a, holds = holds a\<rparr>"
    proof (rule fl_repI [OF obj_view_holds [OF rep obs] _ fm])
      show "x \<noteq> 0 \<and> obj_of mem0 x = ob" if "L ob = Some x" for ob x
        using L [OF that] obs [of x] that by (auto simp: ranI)
      show "modes a ob = map_option (\<lambda>x. readers (mem0 x)) (L ob)" for ob
        using keep a(2) by (cases "L ob") (auto simp: ranI)
      show "holds a fd' = map_option (obj_of mem0) (fm fd')" for fd'
        using obs fm(2) a(1) by (cases "fm fd'") auto
    qed
    then have "fl_rep ?s L a" by (cases a) simp
    ultimately show ?thesis by auto
  next
    case False
    define mem1 where "mem1 = mem0(l := (mem0 l)\<lparr>readers := readers (mem0 l) + 1\<rparr>)"
    have obs1: "obj_of mem1 x = obj_of (lock_mem s) x" if "x \<in> ran L" for x
      using obs [OF that] by (auto simp: mem1_def obj_of_def)
    from word_dict_insert [OF fm(1), of fd l] fd a(1) l obtain f where
      ins: "insertHashTable (fd_hash s) fd l = Some f" and f: "ht_dict hashWord compareWord f (fm(fd \<mapsto> l))" by auto
    let ?s = "\<lparr>obj_hash = obj_view mem1 (obj_hash s), fd_hash = f, lock_mem = mem1\<rparr>"
    have n: "readers (lock_mem s l) = readers (mem0 l)" using keep [OF l(1)] by simp
    have "lockFile s key_addr fresh fd dev ino w = Some (?s, 0)"
      using look False l ins by (simp add: lockFile_def Let_def mem0_def [symmetric] mem1_def)
    moreover have "spec_lock a fd ?ob w =
        (\<lparr>modes = (modes a)(?ob \<mapsto> readers (mem0 l) + 1), holds = (holds a)(fd \<mapsto> ?ob)\<rparr>, 0)"
      using some False n a(2) by (simp add: spec_lock_def)
    moreover have "fl_rep ?s L \<lparr>modes = (modes a)(?ob \<mapsto> readers (mem0 l) + 1), holds = (holds a)(fd \<mapsto> ?ob)\<rparr>"
    proof (rule fl_repI [OF obj_view_holds [OF rep obs1] _ f])
      show "x \<noteq> 0 \<and> obj_of mem1 x = ob" if "L ob = Some x" for ob x
        using L [OF that] obs1 [of x] that by (auto simp: ranI)
      show "x \<in> ran L" if "(fm(fd \<mapsto> l)) fd' = Some x" for fd' x
        using that fm(2) [of fd' x] l by (auto split: if_splits)
      show "((modes a)(?ob \<mapsto> readers (mem0 l) + 1)) ob = map_option (\<lambda>x. readers (mem1 x)) (L ob)" for ob
      proof (cases "ob = ?ob")
        case True
        then show ?thesis using some by (simp add: mem1_def)
      next
        case False
        then have "L ob \<noteq> Some l" using L [of ob l] L [OF some] by auto
        then show ?thesis
          using False keep a(2) by (cases "L ob") (auto simp: ranI mem1_def)
      qed
      show "((holds a)(fd \<mapsto> ?ob)) fd' = map_option (obj_of mem1) ((fm(fd \<mapsto> l)) fd')" for fd'
        using obs1 fm(2) a(1) l L [OF some] by (cases "fm fd'") auto
    qed
    ultimately show ?thesis by auto
  qed
qed

lemma lockFile_refine:
  assumes rep: "fl_rep s L a" and key: "key_addr \<notin> ran L" and fresh: "fresh \<notin> ran L" "fresh \<noteq> 0"
    and fd: "holds a fd = None"
  shows "\<exists>s'. lockFile s key_addr fresh fd dev ino w = Some (s', snd (spec_lock a fd (File dev ino) w))
     \<and> fl_rep s' (if L (File dev ino) = None then L(File dev ino \<mapsto> fresh) else L)
          (fst (spec_lock a fd (File dev ino) w))"
proof (cases "L (File dev ino)")
  case None
  then have "modes a (File dev ino) = None" using rep by (simp add: fl_rep_def)
  with lockFile_new [OF rep key fresh fd None, of w] None show ?thesis by (simp add: spec_lock_def)
next
  case (Some l)
  with lockFile_shared [OF rep key fd Some] show ?thesis by simp
qed

text \<open>
  Releasing: the last holder removes the lock object, which no other descriptor refers to
  by the invariant of the specification.
\<close>

lemma sole_holder:
  assumes inv: "spec_inv a" and fd: "holds a fd = Some ob" "holds a fd' = Some ob"
    and last: "modes a ob = Some n" "n = 1 \<or> n = -1"
  shows "fd' = fd"
proof (rule ccontr)
  assume "fd' \<noteq> fd"
  then have "2 = card {fd, fd'}" by simp
  also have "\<dots> \<le> card (holders (holds a) ob)" using fd by (intro card_mono) (auto simp: holders_def)
  finally have "2 \<le> card (holders (holds a) ob)" .
  moreover have "mode_ok (modes a ob) (card (holders (holds a) ob))" using inv by (simp add: spec_inv_def)
  ultimately show False using last by (auto simp: mode_ok_def)
qed

lemma obj_remove:
  assumes rep: "fl_rep s L a" and mem: "\<And>x. x \<in> ran L \<Longrightarrow> obj_of mem x = obj_of (lock_mem s) x"
    and l: "L ob = Some l"
  shows "\<exists>t. removeHashTable (obj_view mem (obj_hash s)) l 0 = Some (t, l)
     \<and> ht_holds (hashLock mem) (cmpLocks mem) t (lock_pairs (L(ob := None)))"
proof -
  have L: "obj_of mem x = ob'" if "L ob' = Some x" for ob' x
    using rep mem [OF ranI [of L ob' x]] that unfolding fl_rep_def by metis
  have "(k', d') \<in> matches (cmpLocks mem) (lock_pairs L) l 0 \<longleftrightarrow> k' = l \<and> d' = l" for k' d'
    using l L [OF l] L by (auto simp: matches_def cmpLocks_obj ran_def)
  moreover have "lock_pairs (L(ob := None)) = lock_pairs L - {#(l, l)#}"
    using lock_pairs_del [of L ob l] l L by metis
  ultimately show ?thesis
    using lock_hash.remove_bag(1) [OF obj_view_holds [OF rep mem], of l 0] by fastforce
qed

lemma unlockFile_refine:
  assumes rep: "fl_rep s L a" and inv: "spec_inv a"
  shows "\<exists>s'. unlockFile s fd = Some (s', snd (spec_unlock a fd))
     \<and> fl_rep s' (case holds a fd of None \<Rightarrow> L
          | Some ob \<Rightarrow> if modes (fst (spec_unlock a fd)) ob = None then L(ob := None) else L)
          (fst (spec_unlock a fd))"
proof -
  from rep obtain fm where fm: "ht_dict hashWord compareWord (fd_hash s) fm"
    "\<And>fd x. fm fd = Some x \<Longrightarrow> x \<in> ran L"
    and a: "holds a = (\<lambda>fd. map_option (obj_of (lock_mem s)) (fm fd))"
      "modes a = (\<lambda>ob. map_option (\<lambda>x. readers (lock_mem s x)) (L ob))"
    and L: "\<And>ob x. L ob = Some x \<Longrightarrow> x \<noteq> 0 \<and> obj_of (lock_mem s) x = ob"
    by (rule fl_repE) blast
  note look = word_hash.table.dict_lookup [OF fm(1), of fd]
  show ?thesis
  proof (cases "fm fd")
    case None
    then show ?thesis using rep look a(1) by (simp add: unlockFile_def spec_unlock_def)
  next
    case (Some l)
    define ob where "ob = obj_of (lock_mem s) l"
    have l: "L ob = Some l" "l \<noteq> 0" using fm(2) [OF Some] L by (auto simp: ob_def ran_def)
    have uniq: "ob' = ob" if "L ob' = Some l" for ob' using L [OF that] by (simp add: ob_def)
    define n where "n = readers (lock_mem s l)"
    define r where "r = (if n < 0 then n + 1 else n - 1)"
    define mem1 where "mem1 = (lock_mem s)(l := (lock_mem s l)\<lparr>readers := r\<rparr>)"
    have hold: "holds a fd = Some ob" "modes a ob = Some n"
      using Some l a by (auto simp: ob_def n_def)
    have spec: "spec_unlock a fd = (\<lparr>modes = (modes a)(ob := if r = 0 then None else Some r),
        holds = (holds a)(fd := None)\<rparr>, 0)"
      using hold by (simp add: spec_unlock_def Let_def r_def)
    have obs: "obj_of mem1 x = obj_of (lock_mem s) x" for x by (simp add: mem1_def obj_of_def)
    define L' where "L' = (if r = 0 then L(ob := None) else L)"
    have "\<exists>t. (if r = 0 then do { (obj, d) \<leftarrow> removeHashTable (obj_view mem1 (obj_hash s)) l 0; Some obj }
          else Some (obj_view mem1 (obj_hash s))) = Some t
        \<and> ht_holds (hashLock mem1) (cmpLocks mem1) t (lock_pairs L')"
      using obj_remove [OF rep obs l(1)] obj_view_holds [OF rep obs] by (auto simp: L'_def)
    then obtain t where t: "(if r = 0 then do { (obj, d) \<leftarrow> removeHashTable (obj_view mem1 (obj_hash s)) l 0; Some obj }
          else Some (obj_view mem1 (obj_hash s))) = Some t"
      and th: "ht_holds (hashLock mem1) (cmpLocks mem1) t (lock_pairs L')" by blast
    from word_dict_remove [OF fm(1), of fd] obtain f d where
      rm: "removeHashTable (fd_hash s) fd 0 = Some (f, d)"
      and f: "ht_dict hashWord compareWord f (fm(fd := None))" by blast
    let ?s = "\<lparr>obj_hash = t, fd_hash = f, lock_mem = mem1\<rparr>"
    have "unlockFile s fd = Some (?s, 0)"
      unfolding unlockFile_def look Some option.case bind.bind_lunit Let_def n_def [symmetric] r_def [symmetric]
        mem1_def [symmetric] t rm prod.case
      using l by simp
    moreover have "fl_rep ?s L' \<lparr>modes = (modes a)(ob := if r = 0 then None else Some r), holds = (holds a)(fd := None)\<rparr>"
    proof (rule fl_repI [OF th _ f])
      show "x \<noteq> 0 \<and> obj_of mem1 x = ob'" if "L' ob' = Some x" for ob' x
        using that L [of ob' x] by (auto simp: obs L'_def split: if_splits)
      show "x \<in> ran L'" if u: "(fm(fd := None)) fd' = Some x" for fd' x
      proof -
        have ne: "fd' \<noteq> fd" and x: "fm fd' = Some x" using u by (auto split: if_splits)
        from fm(2) [OF x] obtain ob' where ob': "L ob' = Some x" by (auto simp: ran_def)
        have "ob' \<noteq> ob" if "r = 0"
        proof
          assume "ob' = ob"
          then have "holds a fd' = Some ob" using x a(1) ob' l by (simp add: ob_def)
          moreover have "n = 1 \<or> n = -1" using that by (auto simp: r_def split: if_splits)
          ultimately show False using sole_holder [OF inv hold(1) _ hold(2)] ne by blast
        qed
        then show ?thesis using ob' by (auto simp: L'_def ran_def)
      qed
      show "((modes a)(ob := if r = 0 then None else Some r)) ob' = map_option (\<lambda>x. readers (mem1 x)) (L' ob')" for ob'
      proof (cases "ob' = ob")
        case True
        then show ?thesis using l by (simp add: L'_def mem1_def)
      next
        case False
        then have "L ob' \<noteq> Some l" using uniq by blast
        then show ?thesis using False a(2) by (cases "L ob'") (auto simp: L'_def mem1_def)
      qed
      show "((holds a)(fd := None)) fd' = map_option (obj_of mem1) ((fm(fd := None)) fd')" for fd'
        using a(1) obs by (cases "fm fd'") auto
    qed
    moreover have "(case holds a fd of None \<Rightarrow> L
          | Some ob \<Rightarrow> if modes (fst (spec_unlock a fd)) ob = None then L(ob := None) else L) = L'"
      using hold by (simp add: spec L'_def)
    ultimately show ?thesis by (simp add: spec)
  qed
qed

lemma init_refine: "fl_rep (initFileLocking mem) Map.empty \<lparr>modes = Map.empty, holds = Map.empty\<rparr>"
  unfolding initFileLocking_def
  by (rule fl_repI [OF _ _ word_dict_empty])
    (auto simp: lock_pairs_def lock_hash.alloc_holds)

section \<open>Reachable states\<close>

text \<open>
  A run of the component: \<open>A\<close> is the set of lock objects that were allocated and not freed.
  The key on the stack and the object \<open>malloc\<close> returns are not among them, and a descriptor
  is not locked again before it is unlocked.
\<close>

inductive fl_reach :: "FileLocks \<Rightarrow> StgWord set \<Rightarrow> bool" where
  fl_init: "fl_reach (initFileLocking mem) {}"
| fl_lock: "fl_reach s A \<Longrightarrow> key_addr \<notin> A \<Longrightarrow> fresh \<notin> A \<Longrightarrow> fresh \<noteq> 0 \<Longrightarrow>
    lookupHashTable (fd_hash s) fd = Some 0 \<Longrightarrow>
    lockFile s key_addr fresh fd dev ino w = Some (s', r) \<Longrightarrow>
    lookupHashTable (fd_hash s') fd = Some l \<Longrightarrow>
    fl_reach s' (if l = fresh then insert fresh A else A)"
| fl_unlock: "fl_reach s A \<Longrightarrow> lookupHashTable (fd_hash s) fd = Some l \<Longrightarrow>
    unlockFile s fd = Some (s', r) \<Longrightarrow>
    fl_reach s' (if l \<noteq> 0 \<and> readers (lock_mem s' l) = 0 then A - {l} else A)"

definition fl_inv :: "FileLocks \<Rightarrow> StgWord set \<Rightarrow> bool" where
  "fl_inv s A \<longleftrightarrow> (\<exists>L a. fl_rep s L a \<and> ran L = A \<and> spec_inv a)"

lemma fd_lookup:
  assumes rep: "fl_rep s L a" and l: "lookupHashTable (fd_hash s) fd = Some l"
  shows "holds a fd = (if l = 0 then None else Some (obj_of (lock_mem s) l))"
    and "l \<noteq> 0 \<Longrightarrow> L (obj_of (lock_mem s) l) = Some l"
proof -
  from rep obtain fm where fm: "ht_dict hashWord compareWord (fd_hash s) fm"
    "\<And>fd x. fm fd = Some x \<Longrightarrow> x \<in> ran L"
    and a: "holds a = (\<lambda>fd. map_option (obj_of (lock_mem s)) (fm fd))"
    and L: "\<And>ob x. L ob = Some x \<Longrightarrow> x \<noteq> 0 \<and> obj_of (lock_mem s) x = ob"
    by (rule fl_repE) blast
  have lk: "l = (case fm fd of None \<Rightarrow> 0 | Some d \<Rightarrow> d)"
    using word_hash.table.dict_lookup [OF fm(1), of fd] l by simp
  have nz: "x \<noteq> 0 \<and> L (obj_of (lock_mem s) x) = Some x" if "fm fd = Some x" for x
    using fm(2) [OF that] L by (auto simp: ran_def)
  show "holds a fd = (if l = 0 then None else Some (obj_of (lock_mem s) l))"
    using lk nz a by (cases "fm fd") auto
  show "l \<noteq> 0 \<Longrightarrow> L (obj_of (lock_mem s) l) = Some l"
    using lk nz by (cases "fm fd") auto
qed

lemma ran_del_unique:
  assumes "m k = Some v" "\<And>k'. m k' = Some v \<Longrightarrow> k' = k"
  shows "ran (m(k := None)) = ran m - {v}"
proof (rule set_eqI)
  fix x
  have "x \<in> ran (m(k := None)) \<longleftrightarrow> (\<exists>k'. k' \<noteq> k \<and> m k' = Some x)" by (auto simp: ran_def)
  also have "\<dots> \<longleftrightarrow> (\<exists>k'. m k' = Some x) \<and> x \<noteq> v" using assms by (metis option.inject)
  finally show "x \<in> ran (m(k := None)) \<longleftrightarrow> x \<in> ran m - {v}" by (auto simp: ran_def)
qed

lemma fl_reach_inv: "fl_reach s A \<Longrightarrow> fl_inv s A"
proof (induction rule: fl_reach.induct)
  case (fl_init mem)
  have "spec_inv \<lparr>modes = Map.empty, holds = Map.empty\<rparr>"
    by (simp add: spec_inv_def mode_ok_def holders_def)
  then show ?case using init_refine [of mem] unfolding fl_inv_def by (metis ran_empty)
next
  case (fl_lock s A key_addr fresh fd dev ino w s' r l)
  let ?ob = "File dev ino"
  from fl_lock.IH obtain L a where rep: "fl_rep s L a" and A: "ran L = A" and inv: "spec_inv a"
    unfolding fl_inv_def by blast
  have fd: "holds a fd = None" using fd_lookup(1) [OF rep fl_lock.hyps(5)] by simp
  define L' where "L' = (if L ?ob = None then L(?ob \<mapsto> fresh) else L)"
  have rep': "fl_rep s' L' (fst (spec_lock a fd ?ob w))"
    using lockFile_refine [OF rep _ _ fl_lock.hyps(4) fd, of key_addr dev ino w] fl_lock.hyps A
    by (auto simp: L'_def)
  have l: "holds (fst (spec_lock a fd ?ob w)) fd = (if l = 0 then None else Some (obj_of (lock_mem s') l))"
    "l \<noteq> 0 \<Longrightarrow> L' (obj_of (lock_mem s') l) = Some l"
    using fd_lookup [OF rep' fl_lock.hyps(7)] by blast+
  have m: "modes a ?ob = None \<longleftrightarrow> L ?ob = None" using rep by (simp add: fl_rep_def)
  have "ran L' = (if l = fresh then insert fresh A else A)"
  proof (cases "L ?ob")
    case None
    then have "obj_of (lock_mem s') l = ?ob \<and> l \<noteq> 0"
      using l(1) m by (auto simp: spec_lock_def split: if_splits)
    then have "l = fresh" using l(2) None by (simp add: L'_def)
    then show ?thesis using None A by (simp add: L'_def)
  next
    case (Some x)
    then have "l = 0 \<or> l \<in> ran L" using l(2) ranI [of L _ l] by (cases "l = 0") (simp_all add: L'_def)
    then have "l \<noteq> fresh" using fl_lock.hyps A by auto
    then show ?thesis using Some A by (simp add: L'_def)
  qed
  then show ?case using rep' spec_lock_inv [OF inv, of fd, OF fd] unfolding fl_inv_def by blast
next
  case (fl_unlock s A fd l s' r)
  from fl_unlock.IH obtain L a where rep: "fl_rep s L a" and A: "ran L = A" and inv: "spec_inv a"
    unfolding fl_inv_def by blast
  let ?a' = "fst (spec_unlock a fd)"
  define L' where "L' = (case holds a fd of None \<Rightarrow> L
          | Some ob \<Rightarrow> if modes ?a' ob = None then L(ob := None) else L)"
  have rep': "fl_rep s' L' ?a'"
    using unlockFile_refine [OF rep inv, of fd] fl_unlock.hyps(3) by (auto simp: L'_def)
  note l = fd_lookup [OF rep fl_unlock.hyps(2)]
  have "ran L' = (if l \<noteq> 0 \<and> readers (lock_mem s' l) = 0 then A - {l} else A)"
  proof (cases "l = 0")
    case True
    then show ?thesis using l(1) A by (simp add: L'_def)
  next
    case False
    define ob where "ob = obj_of (lock_mem s) l"
    have ob: "holds a fd = Some ob" "L ob = Some l" using l False by (auto simp: ob_def)
    have upd: "readers (lock_mem s' l) = (let n = readers (lock_mem s l) in if n < 0 then n + 1 else n - 1)"
      using fl_unlock.hyps(2,3) False by (auto simp: unlockFile_def Let_def bind_Some_iff split: if_splits)
    have n: "modes a ob = Some (readers (lock_mem s l))" using rep ob by (simp add: fl_rep_def)
    have gone: "modes ?a' ob = None \<longleftrightarrow> readers (lock_mem s' l) = 0"
      using ob n upd by (simp add: spec_unlock_def Let_def)
    have "ran (L(ob := None)) = ran L - {l}"
    proof -
      have "ob' = ob" if "L ob' = Some l" for ob' using rep that ob(2) unfolding fl_rep_def by metis
      then show ?thesis using ran_del_unique [of L ob l] ob(2) by blast
    qed
    then show ?thesis using gone ob False A by (simp add: L'_def)
  qed
  then show ?case using rep' spec_unlock_inv [OF inv] unfolding fl_inv_def by blast
qed

section \<open>Properties\<close>

text \<open>
  Claim C24.  Taking a lock refines the specification: on a state that represents a lock
  table, \<open>lockFile\<close> returns the specified answer (0, or -1 when the file is held by a writer,
  or is held at all and a writer asks) and leaves a state that represents the specified table.
\<close>

theorem lockFile_refines_spec:
  assumes "fl_rep s L a" "key_addr \<notin> ran L" "fresh \<notin> ran L" "fresh \<noteq> 0" "holds a fd = None"
  shows "\<exists>s' L'. lockFile s key_addr fresh fd dev ino w = Some (s', snd (spec_lock a fd (File dev ino) w))
     \<and> fl_rep s' L' (fst (spec_lock a fd (File dev ino) w))"
  using lockFile_refine [OF assms, of dev ino w] by blast

theorem lockFile_refines_spec_witness:
  "\<exists>s'. lockFile (initFileLocking (\<lambda>_. \<lparr>device = 0, inode = 0, readers = 0\<rparr>)) 100 200 3 1 7 True = Some (s', 0)"
proof -
  have "\<exists>s' L'. lockFile (initFileLocking (\<lambda>_. \<lparr>device = 0, inode = 0, readers = 0\<rparr>)) 100 200 3 1 7 True =
      Some (s', snd (spec_lock \<lparr>modes = Map.empty, holds = Map.empty\<rparr> 3 (File 1 7) True))
    \<and> fl_rep s' L' (fst (spec_lock \<lparr>modes = Map.empty, holds = Map.empty\<rparr> 3 (File 1 7) True))"
    by (rule lockFile_refines_spec [OF init_refine]) auto
  then show ?thesis by (auto simp: spec_lock_def)
qed

text \<open>
  Claim C25.  Releasing a lock refines the specification: \<open>unlockFile\<close> answers 1 for a
  descriptor that holds no lock and changes nothing; otherwise it answers 0, the descriptor
  is forgotten and the lock loses a holder, the object disappearing with its last one.
\<close>

theorem unlockFile_refines_spec:
  assumes "fl_rep s L a" "spec_inv a"
  shows "\<exists>s' L'. unlockFile s fd = Some (s', snd (spec_unlock a fd)) \<and> fl_rep s' L' (fst (spec_unlock a fd))
     \<and> spec_inv (fst (spec_unlock a fd))"
  using unlockFile_refine [OF assms, of fd] spec_unlock_inv [OF assms(2), of fd] by blast

theorem unlockFile_refines_spec_witness:
  "\<exists>s'. unlockFile (initFileLocking (\<lambda>_. \<lparr>device = 0, inode = 0, readers = 0\<rparr>)) 3 = Some (s', 1)"
proof -
  have "spec_inv \<lparr>modes = Map.empty, holds = Map.empty\<rparr>"
    by (simp add: spec_inv_def mode_ok_def holders_def)
  from unlockFile_refines_spec [OF init_refine this, of _ 3] show ?thesis by (auto simp: spec_unlock_def)
qed

text \<open>
  Claim C2.  Single writer, multiple readers: in every reachable state, when two descriptors
  hold locks on the same device and inode they share one lock object, it counts readers, and
  its count is exactly the number of descriptors that hold it.
\<close>

theorem file_lock_exclusion:
  assumes "fl_reach s A" "lookupHashTable (fd_hash s) fd1 = Some l1" "lookupHashTable (fd_hash s) fd2 = Some l2"
    "fd1 \<noteq> fd2" "l1 \<noteq> 0" "l2 \<noteq> 0" "cmpLocks (lock_mem s) l1 l2"
  shows "l1 = l2 \<and> 2 \<le> readers (lock_mem s l1)
     \<and> readers (lock_mem s l1) = int (card {fd. lookupHashTable (fd_hash s) fd = Some l1})"
proof -
  from fl_reach_inv [OF assms(1)] obtain L a where rep: "fl_rep s L a" and inv: "spec_inv a"
    unfolding fl_inv_def by blast
  note f = fd_lookup [OF rep]
  define ob where "ob = obj_of (lock_mem s) l1"
  have same: "obj_of (lock_mem s) l2 = ob" using assms(7) by (simp add: ob_def cmpLocks_obj)
  have ob: "holds a fd1 = Some ob" "holds a fd2 = Some ob" "L ob = Some l1" "L ob = Some l2"
    using f(1) [OF assms(2)] f(2) [OF assms(2,5)] f(1) [OF assms(3)] f(2) [OF assms(3,6)] assms(5,6)
    by (simp_all add: same ob_def [symmetric])
  have m: "modes a ob = Some (readers (lock_mem s l1))" using rep ob(3) by (simp add: fl_rep_def)
  have "{fd. lookupHashTable (fd_hash s) fd = Some l1} = holders (holds a) ob"
  proof -
    from rep obtain fm where fm: "ht_dict hashWord compareWord (fd_hash s) fm"
      by (rule fl_repE) blast
    have "lookupHashTable (fd_hash s) fd = Some l1 \<longleftrightarrow> holds a fd = Some ob" for fd
    proof -
      obtain x where x: "lookupHashTable (fd_hash s) fd = Some x"
        using word_hash.table.dict_lookup [OF fm, of fd] by blast
      show ?thesis
      proof (cases "x = 0")
        case True
        then show ?thesis using f(1) [OF x] x assms(5) by simp
      next
        case False
        have "obj_of (lock_mem s) x = ob \<longleftrightarrow> x = l1"
          using f(2) [OF x False] ob(3) ob_def by (metis option.inject)
        then show ?thesis using f(1) [OF x] x False by simp
      qed
    qed
    then show ?thesis by (simp add: holders_def)
  qed
  moreover have "mode_ok (modes a ob) (card (holders (holds a) ob))" using inv by (simp add: spec_inv_def)
  moreover have "readers (lock_mem s l1) \<noteq> -1"
    using sole_holder [OF inv ob(1,2) m] assms(4) by auto
  moreover have "readers (lock_mem s l1) \<noteq> 1"
    using sole_holder [OF inv ob(1,2) m] assms(4) by auto
  ultimately show ?thesis using m ob(3,4) by (auto simp: mode_ok_def)
qed

lemma fd_lookup_held:
  assumes rep: "fl_rep s L a"
  shows "\<exists>l. lookupHashTable (fd_hash s) fd = Some l \<and> (l = 0 \<longleftrightarrow> holds a fd = None)"
proof -
  from rep obtain fm where fm: "ht_dict hashWord compareWord (fd_hash s) fm" by (rule fl_repE) blast
  obtain l where l: "lookupHashTable (fd_hash s) fd = Some l"
    using word_hash.table.dict_lookup [OF fm, of fd] by blast
  with fd_lookup(1) [OF rep l] show ?thesis by auto
qed

text \<open>Two readers of one file, the smallest shared state.\<close>

lemma two_readers:
  "\<exists>s A l1 l2. fl_reach s A \<and> lookupHashTable (fd_hash s) 3 = Some l1 \<and> lookupHashTable (fd_hash s) 4 = Some l2
     \<and> l1 \<noteq> 0 \<and> l2 \<noteq> 0 \<and> cmpLocks (lock_mem s) l1 l2"
proof -
  define s0 where "s0 = initFileLocking (\<lambda>_. \<lparr>device = 0, inode = 0, readers = 0\<rparr>)"
  let ?a0 = "\<lparr>modes = Map.empty, holds = Map.empty\<rparr> :: lock_table"
  let ?ob = "File 1 7"
  let ?a1 = "\<lparr>modes = [?ob \<mapsto> 1], holds = [3 \<mapsto> ?ob]\<rparr> :: lock_table"
  let ?a2 = "\<lparr>modes = [?ob \<mapsto> 2], holds = [3 \<mapsto> ?ob, 4 \<mapsto> ?ob]\<rparr> :: lock_table"
  have r0: "fl_rep s0 Map.empty ?a0" unfolding s0_def by (rule init_refine)
  from lockFile_refine [OF r0, of 100 200 3 1 7 False] obtain s1 where
    s1: "lockFile s0 100 200 3 1 7 False = Some (s1, 0)" and r1: "fl_rep s1 [?ob \<mapsto> 200] ?a1"
    by (auto simp: spec_lock_def)
  from lockFile_refine [OF r1, of 100 300 4 1 7 False] obtain s2 where
    s2: "lockFile s1 100 300 4 1 7 False = Some (s2, 0)" and r2: "fl_rep s2 [?ob \<mapsto> 200] ?a2"
    by (auto simp: spec_lock_def)
  have f0: "fl_reach s0 {}" unfolding s0_def by (rule fl_init)
  from fd_lookup_held [OF r0, of 3] have e0: "lookupHashTable (fd_hash s0) 3 = Some 0" by auto
  from fd_lookup_held [OF r1, of 3] obtain l1 where l1: "lookupHashTable (fd_hash s1) 3 = Some l1" "l1 \<noteq> 0" by auto
  have f1: "fl_reach s1 {200}"
  proof -
    have "l1 = 200" using fd_lookup [OF r1 l1(1)] l1(2) by auto
    then show ?thesis using fl_lock [OF f0 _ _ _ e0 s1 l1(1)] by simp
  qed
  from fd_lookup_held [OF r1, of 4] have e1: "lookupHashTable (fd_hash s1) 4 = Some 0" by auto
  from fd_lookup_held [OF r2, of 3] obtain k1 where k1: "lookupHashTable (fd_hash s2) 3 = Some k1" "k1 \<noteq> 0" by auto
  from fd_lookup_held [OF r2, of 4] obtain k2 where k2: "lookupHashTable (fd_hash s2) 4 = Some k2" "k2 \<noteq> 0" by auto
  have f2: "\<exists>A. fl_reach s2 A" using fl_lock [OF f1 _ _ _ e1 s2 k2(1)] by auto
  have "cmpLocks (lock_mem s2) k1 k2"
    using fd_lookup(1) [OF r2 k1(1)] fd_lookup(1) [OF r2 k2(1)] k1(2) k2(2) by (simp add: cmpLocks_obj)
  then show ?thesis using f2 k1 k2 by blast
qed

theorem file_lock_exclusion_witness:
  "\<exists>s A l. fl_reach s A \<and> lookupHashTable (fd_hash s) 3 = Some l \<and> lookupHashTable (fd_hash s) 4 = Some l
     \<and> 2 \<le> readers (lock_mem s l)"
proof -
  from two_readers obtain s A l1 l2 where h: "fl_reach s A" "lookupHashTable (fd_hash s) 3 = Some l1"
    "lookupHashTable (fd_hash s) 4 = Some l2" "l1 \<noteq> 0" "l2 \<noteq> 0" "cmpLocks (lock_mem s) l1 l2" by blast
  have "(3 :: StgWord) \<noteq> 4" by simp
  from file_lock_exclusion [OF h(1-3) this h(4-6)] h show ?thesis by auto
qed

end
