(* ===== verification/MD5.thy ===== *)
theory MD5
  imports Prelude
begin

text \<open>
  The MD5 digests of \<open>compiler/utils/md5.c\<close>, which fingerprint interface files.  The context is
  kept as the code keeps it: four hash words, a 64-bit byte count in two words, and 64 bytes
  of buffer that are read as words in the byte order \<open>be\<close> of the host (true for big-endian).
  The theory shows that any sequence of updates computes the digest of RFC 1321, on hosts of
  both byte orders.
\<close>

section \<open>The code\<close>

record MD5Context =
  md_buf :: "StgWord32 list"
  md_bytes0 :: StgWord32
  md_bytes1 :: StgWord32
  md_in :: "StgWord8 list"

text \<open>How the host lays out a 32-bit word in memory.\<close>

definition store_word :: "bool \<Rightarrow> StgWord32 \<Rightarrow> StgWord8 list" where
  "store_word be w =
     (let le = [ucast w, ucast (drop_bit 8 w), ucast (drop_bit 16 w), ucast (drop_bit 24 w)]
      in if be then rev le else le)"

definition load_word :: "bool \<Rightarrow> StgWord8 list \<Rightarrow> StgWord32" where
  "load_word be bs =
     (let p = (if be then rev bs else bs)
      in ucast (p ! 0) OR push_bit 8 (ucast (p ! 1)) OR push_bit 16 (ucast (p ! 2)) OR push_bit 24 (ucast (p ! 3)))"

fun load_words :: "bool \<Rightarrow> StgWord8 list \<Rightarrow> StgWord32 list" where
  "load_words be (a # b # c # d # bs) = load_word be [a, b, c, d] # load_words be bs"
| "load_words be _ = []"

fun byteSwap :: "bool \<Rightarrow> StgWord8 list \<Rightarrow> nat \<Rightarrow> StgWord8 list" where
  "byteSwap be (p0 # p1 # p2 # p3 # ps) (Suc words) =
     store_word be (push_bit 16 (push_bit 8 (ucast p3) OR ucast p2) OR (push_bit 8 (ucast p1) OR ucast p0))
     @ byteSwap be ps words"
| "byteSwap be mem words = mem"

definition MD5Init :: "MD5Context \<Rightarrow> MD5Context" where
  "MD5Init ctx = ctx\<lparr>md_buf := [0x67452301, 0xefcdab89, 0x98badcfe, 0x10325476],
     md_bytes0 := 0, md_bytes1 := 0\<rparr>"

definition F1 :: "StgWord32 \<Rightarrow> StgWord32 \<Rightarrow> StgWord32 \<Rightarrow> StgWord32" where
  "F1 x y z = z XOR (x AND (y XOR z))"

definition F2 :: "StgWord32 \<Rightarrow> StgWord32 \<Rightarrow> StgWord32 \<Rightarrow> StgWord32" where
  "F2 x y z = F1 z x y"

definition F3 :: "StgWord32 \<Rightarrow> StgWord32 \<Rightarrow> StgWord32 \<Rightarrow> StgWord32" where
  "F3 x y z = x XOR y XOR z"

definition F4 :: "StgWord32 \<Rightarrow> StgWord32 \<Rightarrow> StgWord32 \<Rightarrow> StgWord32" where
  "F4 x y z = y XOR (x OR NOT z)"

definition MD5STEP ::
  "(StgWord32 \<Rightarrow> StgWord32 \<Rightarrow> StgWord32 \<Rightarrow> StgWord32) \<Rightarrow> StgWord32 \<Rightarrow> StgWord32 \<Rightarrow> StgWord32 \<Rightarrow> StgWord32
     \<Rightarrow> StgWord32 \<Rightarrow> nat \<Rightarrow> StgWord32" where
  "MD5STEP f w x y z inp s =
     (let w1 = w + (f x y z + inp) in (push_bit s w1 OR drop_bit (32 - s) w1) + x)"

definition MD5Transform :: "StgWord32 list \<Rightarrow> StgWord32 list \<Rightarrow> StgWord32 list" where
  "MD5Transform buf ins =
     (let a = buf ! 0; b = buf ! 1; c = buf ! 2; d = buf ! 3;
      a = MD5STEP F1 a b c d (ins ! 0 + 0xd76aa478) 7;
      d = MD5STEP F1 d a b c (ins ! 1 + 0xe8c7b756) 12;
      c = MD5STEP F1 c d a b (ins ! 2 + 0x242070db) 17;
      b = MD5STEP F1 b c d a (ins ! 3 + 0xc1bdceee) 22;
      a = MD5STEP F1 a b c d (ins ! 4 + 0xf57c0faf) 7;
      d = MD5STEP F1 d a b c (ins ! 5 + 0x4787c62a) 12;
      c = MD5STEP F1 c d a b (ins ! 6 + 0xa8304613) 17;
      b = MD5STEP F1 b c d a (ins ! 7 + 0xfd469501) 22;
      a = MD5STEP F1 a b c d (ins ! 8 + 0x698098d8) 7;
      d = MD5STEP F1 d a b c (ins ! 9 + 0x8b44f7af) 12;
      c = MD5STEP F1 c d a b (ins ! 10 + 0xffff5bb1) 17;
      b = MD5STEP F1 b c d a (ins ! 11 + 0x895cd7be) 22;
      a = MD5STEP F1 a b c d (ins ! 12 + 0x6b901122) 7;
      d = MD5STEP F1 d a b c (ins ! 13 + 0xfd987193) 12;
      c = MD5STEP F1 c d a b (ins ! 14 + 0xa679438e) 17;
      b = MD5STEP F1 b c d a (ins ! 15 + 0x49b40821) 22;
      a = MD5STEP F2 a b c d (ins ! 1 + 0xf61e2562) 5;
      d = MD5STEP F2 d a b c (ins ! 6 + 0xc040b340) 9;
      c = MD5STEP F2 c d a b (ins ! 11 + 0x265e5a51) 14;
      b = MD5STEP F2 b c d a (ins ! 0 + 0xe9b6c7aa) 20;
      a = MD5STEP F2 a b c d (ins ! 5 + 0xd62f105d) 5;
      d = MD5STEP F2 d a b c (ins ! 10 + 0x02441453) 9;
      c = MD5STEP F2 c d a b (ins ! 15 + 0xd8a1e681) 14;
      b = MD5STEP F2 b c d a (ins ! 4 + 0xe7d3fbc8) 20;
      a = MD5STEP F2 a b c d (ins ! 9 + 0x21e1cde6) 5;
      d = MD5STEP F2 d a b c (ins ! 14 + 0xc33707d6) 9;
      c = MD5STEP F2 c d a b (ins ! 3 + 0xf4d50d87) 14;
      b = MD5STEP F2 b c d a (ins ! 8 + 0x455a14ed) 20;
      a = MD5STEP F2 a b c d (ins ! 13 + 0xa9e3e905) 5;
      d = MD5STEP F2 d a b c (ins ! 2 + 0xfcefa3f8) 9;
      c = MD5STEP F2 c d a b (ins ! 7 + 0x676f02d9) 14;
      b = MD5STEP F2 b c d a (ins ! 12 + 0x8d2a4c8a) 20;
      a = MD5STEP F3 a b c d (ins ! 5 + 0xfffa3942) 4;
      d = MD5STEP F3 d a b c (ins ! 8 + 0x8771f681) 11;
      c = MD5STEP F3 c d a b (ins ! 11 + 0x6d9d6122) 16;
      b = MD5STEP F3 b c d a (ins ! 14 + 0xfde5380c) 23;
      a = MD5STEP F3 a b c d (ins ! 1 + 0xa4beea44) 4;
      d = MD5STEP F3 d a b c (ins ! 4 + 0x4bdecfa9) 11;
      c = MD5STEP F3 c d a b (ins ! 7 + 0xf6bb4b60) 16;
      b = MD5STEP F3 b c d a (ins ! 10 + 0xbebfbc70) 23;
      a = MD5STEP F3 a b c d (ins ! 13 + 0x289b7ec6) 4;
      d = MD5STEP F3 d a b c (ins ! 0 + 0xeaa127fa) 11;
      c = MD5STEP F3 c d a b (ins ! 3 + 0xd4ef3085) 16;
      b = MD5STEP F3 b c d a (ins ! 6 + 0x04881d05) 23;
      a = MD5STEP F3 a b c d (ins ! 9 + 0xd9d4d039) 4;
      d = MD5STEP F3 d a b c (ins ! 12 + 0xe6db99e5) 11;
      c = MD5STEP F3 c d a b (ins ! 15 + 0x1fa27cf8) 16;
      b = MD5STEP F3 b c d a (ins ! 2 + 0xc4ac5665) 23;
      a = MD5STEP F4 a b c d (ins ! 0 + 0xf4292244) 6;
      d = MD5STEP F4 d a b c (ins ! 7 + 0x432aff97) 10;
      c = MD5STEP F4 c d a b (ins ! 14 + 0xab9423a7) 15;
      b = MD5STEP F4 b c d a (ins ! 5 + 0xfc93a039) 21;
      a = MD5STEP F4 a b c d (ins ! 12 + 0x655b59c3) 6;
      d = MD5STEP F4 d a b c (ins ! 3 + 0x8f0ccc92) 10;
      c = MD5STEP F4 c d a b (ins ! 10 + 0xffeff47d) 15;
      b = MD5STEP F4 b c d a (ins ! 1 + 0x85845dd1) 21;
      a = MD5STEP F4 a b c d (ins ! 8 + 0x6fa87e4f) 6;
      d = MD5STEP F4 d a b c (ins ! 15 + 0xfe2ce6e0) 10;
      c = MD5STEP F4 c d a b (ins ! 6 + 0xa3014314) 15;
      b = MD5STEP F4 b c d a (ins ! 13 + 0x4e0811a1) 21;
      a = MD5STEP F4 a b c d (ins ! 4 + 0xf7537e82) 6;
      d = MD5STEP F4 d a b c (ins ! 11 + 0xbd3af235) 10;
      c = MD5STEP F4 c d a b (ins ! 2 + 0x2ad7d2bb) 15;
      b = MD5STEP F4 b c d a (ins ! 9 + 0xeb86d391) 21
      in [buf ! 0 + a, buf ! 1 + b, buf ! 2 + c, buf ! 3 + d])"

text \<open>\<open>memcpy\<close> into the buffer at an offset.\<close>

definition md_memcpy :: "StgWord8 list \<Rightarrow> nat \<Rightarrow> StgWord8 list \<Rightarrow> StgWord8 list" where
  "md_memcpy mem off bs = take off mem @ bs @ drop (off + length bs) mem"

definition transform_in :: "bool \<Rightarrow> MD5Context \<Rightarrow> MD5Context" where
  "transform_in be ctx =
     (let mem = byteSwap be (md_in ctx) 16
      in ctx\<lparr>md_in := mem, md_buf := MD5Transform (md_buf ctx) (load_words be mem)\<rparr>)"

function update_loop :: "bool \<Rightarrow> MD5Context \<Rightarrow> StgWord8 list \<Rightarrow> MD5Context \<times> StgWord8 list" where
  "update_loop be ctx buf =
     (if 64 \<le> length buf
      then update_loop be (transform_in be (ctx\<lparr>md_in := md_memcpy (md_in ctx) 0 (take 64 buf)\<rparr>)) (drop 64 buf)
      else (ctx, buf))"
  by auto

termination
  by (relation "measure (\<lambda>(be, ctx, buf). length buf)") auto

text \<open>The buffer is given as the list of its \<open>len\<close> bytes.\<close>

definition MD5Update :: "bool \<Rightarrow> MD5Context \<Rightarrow> StgWord8 list \<Rightarrow> MD5Context" where
  "MD5Update be ctx buf =
     (let len = length buf;
          t = md_bytes0 ctx;
          ctx1 = ctx\<lparr>md_bytes0 := t + of_nat len\<rparr>;
          ctx2 = (if md_bytes0 ctx1 < t then ctx1\<lparr>md_bytes1 := md_bytes1 ctx1 + 1\<rparr> else ctx1);
          t2 = unat (64 - (t AND 0x3f))
      in if t2 > len
         then ctx2\<lparr>md_in := md_memcpy (md_in ctx2) (64 - t2) buf\<rparr>
         else let
           ctx3 = transform_in be (ctx2\<lparr>md_in := md_memcpy (md_in ctx2) (64 - t2) (take t2 buf)\<rparr>);
           (ctx4, rest) = update_loop be ctx3 (drop t2 buf)
         in ctx4\<lparr>md_in := md_memcpy (md_in ctx4) 0 rest\<rparr>)"

text \<open>
  The answer is the digest and the context left behind: the final \<open>memset\<close> clears \<open>sizeof(ctx)\<close>
  bytes, the size of a pointer, which are the first two hash words.
\<close>

definition MD5Final :: "bool \<Rightarrow> MD5Context \<Rightarrow> StgWord8 list \<times> MD5Context" where
  "MD5Final be ctx =
     (let count = unat (md_bytes0 ctx AND 0x3f);
          mem1 = md_memcpy (md_in ctx) count [0x80];
          p = count + 1;
          pad = 55 - int count;
          (ctx2, p2, pad2) =
            (if pad < 0
             then (transform_in be (ctx\<lparr>md_in := md_memcpy mem1 p (replicate (nat (pad + 8)) 0)\<rparr>), 0, 56)
             else (ctx\<lparr>md_in := mem1\<rparr>, p, pad));
          mem2 = byteSwap be (md_memcpy (md_in ctx2) p2 (replicate (nat (pad2 + 8)) 0)) 14;
          mem3 = md_memcpy mem2 56 (store_word be (push_bit 3 (md_bytes0 ctx)));
          mem4 = md_memcpy mem3 60 (store_word be (push_bit 3 (md_bytes1 ctx) OR drop_bit 29 (md_bytes0 ctx)));
          buf = MD5Transform (md_buf ctx2) (load_words be mem4);
          digest = byteSwap be (concat (map (store_word be) buf)) 4
      in (digest, ctx2\<lparr>md_in := mem4, md_buf := [0, 0] @ drop 2 (load_words be digest)\<rparr>))"

section \<open>The specification\<close>

text \<open>RFC 1321: the round functions, the order of the words, the shifts and the constants.\<close>

definition rfc_fun :: "nat \<Rightarrow> StgWord32 \<Rightarrow> StgWord32 \<Rightarrow> StgWord32 \<Rightarrow> StgWord32" where
  "rfc_fun i x y z =
     (if i < 16 then (x AND y) OR (NOT x AND z)
      else if i < 32 then (x AND z) OR (y AND NOT z)
      else if i < 48 then x XOR y XOR z
      else y XOR (x OR NOT z))"

definition rfc_word :: "nat \<Rightarrow> nat" where
  "rfc_word i = (if i < 16 then i else if i < 32 then (5 * i + 1) mod 16
     else if i < 48 then (3 * i + 5) mod 16 else (7 * i) mod 16)"

definition rfc_shift :: "nat \<Rightarrow> nat" where
  "rfc_shift i = ([7, 12, 17, 22, 5, 9, 14, 20, 4, 11, 16, 23, 6, 10, 15, 21] :: nat list) ! (4 * (i div 16) + i mod 4)"

definition rfc_T :: "StgWord32 list" where
  "rfc_T = [
    0xd76aa478, 0xe8c7b756, 0x242070db, 0xc1bdceee, 0xf57c0faf, 0x4787c62a, 0xa8304613, 0xfd469501,
    0x698098d8, 0x8b44f7af, 0xffff5bb1, 0x895cd7be, 0x6b901122, 0xfd987193, 0xa679438e, 0x49b40821,
    0xf61e2562, 0xc040b340, 0x265e5a51, 0xe9b6c7aa, 0xd62f105d, 0x02441453, 0xd8a1e681, 0xe7d3fbc8,
    0x21e1cde6, 0xc33707d6, 0xf4d50d87, 0x455a14ed, 0xa9e3e905, 0xfcefa3f8, 0x676f02d9, 0x8d2a4c8a,
    0xfffa3942, 0x8771f681, 0x6d9d6122, 0xfde5380c, 0xa4beea44, 0x4bdecfa9, 0xf6bb4b60, 0xbebfbc70,
    0x289b7ec6, 0xeaa127fa, 0xd4ef3085, 0x04881d05, 0xd9d4d039, 0xe6db99e5, 0x1fa27cf8, 0xc4ac5665,
    0xf4292244, 0x432aff97, 0xab9423a7, 0xfc93a039, 0x655b59c3, 0x8f0ccc92, 0xffeff47d, 0x85845dd1,
    0x6fa87e4f, 0xfe2ce6e0, 0xa3014314, 0x4e0811a1, 0xf7537e82, 0xbd3af235, 0x2ad7d2bb, 0xeb86d391]"

fun rfc_steps :: "StgWord32 list \<Rightarrow> nat list \<Rightarrow> StgWord32 \<Rightarrow> StgWord32 \<Rightarrow> StgWord32 \<Rightarrow> StgWord32 \<Rightarrow> StgWord32 list" where
  "rfc_steps X [] a b c d = [a, b, c, d]"
| "rfc_steps X (i # is) a b c d =
     rfc_steps X is d (b + word_rotl (rfc_shift i) (a + rfc_fun i b c d + X ! rfc_word i + rfc_T ! i)) b c"

definition rfc_compress :: "StgWord32 list \<Rightarrow> StgWord32 list \<Rightarrow> StgWord32 list" where
  "rfc_compress buf X = map2 (+) buf (rfc_steps X [0..<64] (buf ! 0) (buf ! 1) (buf ! 2) (buf ! 3))"

fun rfc_blocks :: "StgWord32 list \<Rightarrow> StgWord8 list list \<Rightarrow> StgWord32 list" where
  "rfc_blocks h [] = h"
| "rfc_blocks h (b # bs) = rfc_blocks (rfc_compress h (load_words False b)) bs"

fun blocks_of :: "nat \<Rightarrow> StgWord8 list \<Rightarrow> StgWord8 list list" where
  "blocks_of 0 m = []"
| "blocks_of (Suc n) m = take 64 m # blocks_of n (drop 64 m)"

definition rfc_init :: "StgWord32 list" where
  "rfc_init = [0x67452301, 0xefcdab89, 0x98badcfe, 0x10325476]"

definition le64 :: "64 word \<Rightarrow> StgWord8 list" where
  "le64 w = store_word False (ucast w) @ store_word False (ucast (drop_bit 32 w))"

definition rfc_pad :: "StgWord8 list \<Rightarrow> StgWord8 list" where
  "rfc_pad m = m @ 0x80 # replicate (if length m mod 64 < 56 then 55 - length m mod 64 else 119 - length m mod 64) 0
     @ le64 (8 * of_nat (length m))"

definition rfc_md5 :: "StgWord8 list \<Rightarrow> StgWord8 list" where
  "rfc_md5 m = (let p = rfc_pad m
     in concat (map (store_word False) (rfc_blocks rfc_init (blocks_of (length p div 64) p))))"

section \<open>The compression function\<close>

lemma rotate_eq:
  assumes "0 < s" "s < 32"
  shows "push_bit s w OR drop_bit (32 - s) w = word_rotl s (w :: StgWord32)"
proof (rule bit_word_eqI)
  fix n assume n: "n < LENGTH(32)"
  have l: "bit (push_bit s w OR drop_bit (32 - s) w) n \<longleftrightarrow> (s \<le> n \<and> bit w (n - s)) \<or> bit w (32 - s + n)"
    using n by (auto simp: bit_simps)
  have r: "bit (word_rotl s w) n \<longleftrightarrow> bit w ((n + (32 - s)) mod 32)"
    using n assms by (simp add: bit_word_rotl_iff)
  show "bit (push_bit s w OR drop_bit (32 - s) w) n = bit (word_rotl s w) n"
  proof (cases "s \<le> n")
    case True
    have "n + (32 - s) = (n - s) + 32" using True assms by simp
    then have "(n + (32 - s)) mod 32 = (n - s) mod 32" by (simp only: mod_add_self2)
    also have "\<dots> = n - s" using n by simp
    finally have m: "(n + (32 - s)) mod 32 = n - s" .
    have "\<not> bit w (32 - s + n)" using True assms bit_imp_le_length [of w "32 - s + n"] by auto
    then show ?thesis unfolding l r m using True by simp
  next
    case False
    then have m: "(n + (32 - s)) mod 32 = 32 - s + n" using assms by simp
    show ?thesis unfolding l r m using False by simp
  qed
qed

lemma F1_rfc: "F1 x y z = (x AND y) OR (NOT x AND z)"
  by (rule bit_word_eqI) (auto simp: F1_def bit_simps)

lemma F2_rfc: "F2 x y z = (x AND z) OR (y AND NOT z)"
  by (rule bit_word_eqI) (auto simp: F2_def F1_def bit_simps)

lemma step_rfc:
  assumes "0 < s" "s < 32" "\<And>x y z. f x y z = rfc_fun i x y z"
  shows "MD5STEP f w x y z (k + t) s = x + word_rotl s (w + rfc_fun i x y z + k + t)"
  using assms by (simp add: MD5STEP_def Let_def rotate_eq ac_simps)

text \<open>
  The steps of the code in the order of the specification, each given by its round, the
  index of its word, its constant and its shift.
\<close>

definition round_fun :: "nat \<Rightarrow> StgWord32 \<Rightarrow> StgWord32 \<Rightarrow> StgWord32 \<Rightarrow> StgWord32" where
  "round_fun n = (if n = 0 then F1 else if n = 1 then F2 else if n = 2 then F3 else F4)"

lemma round_fun_simps:
  "round_fun 0 = F1" "round_fun 1 = F2" "round_fun 2 = F3" "round_fun 3 = F4"
  by (simp_all add: round_fun_def)

fun code_steps :: "StgWord32 list \<Rightarrow> (nat \<times> nat \<times> StgWord32 \<times> nat) list \<Rightarrow> StgWord32 \<Rightarrow> StgWord32 \<Rightarrow> StgWord32 \<Rightarrow> StgWord32
    \<Rightarrow> (StgWord32 \<Rightarrow> StgWord32 \<Rightarrow> StgWord32 \<Rightarrow> StgWord32 \<Rightarrow> 'a) \<Rightarrow> 'a" where
  "code_steps X [] a b c d k = k a b c d"
| "code_steps X ((n, j, t, s) # es) a b c d k =
     (let w = MD5STEP (round_fun n) a b c d (X ! j + t) s in code_steps X es d w b c k)"

definition rfc_entry :: "nat \<Rightarrow> nat \<times> nat \<times> StgWord32 \<times> nat" where
  "rfc_entry i = (i div 16, rfc_word i, rfc_T ! i, rfc_shift i)"

lemma rfc_entries:
  "map rfc_entry [0..<64] =
    [(0, 0, 0xd76aa478, 7), (0, 1, 0xe8c7b756, 12), (0, 2, 0x242070db, 17), (0, 3, 0xc1bdceee, 22),
     (0, 4, 0xf57c0faf, 7), (0, 5, 0x4787c62a, 12), (0, 6, 0xa8304613, 17), (0, 7, 0xfd469501, 22),
     (0, 8, 0x698098d8, 7), (0, 9, 0x8b44f7af, 12), (0, 10, 0xffff5bb1, 17), (0, 11, 0x895cd7be, 22),
     (0, 12, 0x6b901122, 7), (0, 13, 0xfd987193, 12), (0, 14, 0xa679438e, 17), (0, 15, 0x49b40821, 22),
     (1, 1, 0xf61e2562, 5), (1, 6, 0xc040b340, 9), (1, 11, 0x265e5a51, 14), (1, 0, 0xe9b6c7aa, 20),
     (1, 5, 0xd62f105d, 5), (1, 10, 0x02441453, 9), (1, 15, 0xd8a1e681, 14), (1, 4, 0xe7d3fbc8, 20),
     (1, 9, 0x21e1cde6, 5), (1, 14, 0xc33707d6, 9), (1, 3, 0xf4d50d87, 14), (1, 8, 0x455a14ed, 20),
     (1, 13, 0xa9e3e905, 5), (1, 2, 0xfcefa3f8, 9), (1, 7, 0x676f02d9, 14), (1, 12, 0x8d2a4c8a, 20),
     (2, 5, 0xfffa3942, 4), (2, 8, 0x8771f681, 11), (2, 11, 0x6d9d6122, 16), (2, 14, 0xfde5380c, 23),
     (2, 1, 0xa4beea44, 4), (2, 4, 0x4bdecfa9, 11), (2, 7, 0xf6bb4b60, 16), (2, 10, 0xbebfbc70, 23),
     (2, 13, 0x289b7ec6, 4), (2, 0, 0xeaa127fa, 11), (2, 3, 0xd4ef3085, 16), (2, 6, 0x04881d05, 23),
     (2, 9, 0xd9d4d039, 4), (2, 12, 0xe6db99e5, 11), (2, 15, 0x1fa27cf8, 16), (2, 2, 0xc4ac5665, 23),
     (3, 0, 0xf4292244, 6), (3, 7, 0x432aff97, 10), (3, 14, 0xab9423a7, 15), (3, 5, 0xfc93a039, 21),
     (3, 12, 0x655b59c3, 6), (3, 3, 0x8f0ccc92, 10), (3, 10, 0xffeff47d, 15), (3, 1, 0x85845dd1, 21),
     (3, 8, 0x6fa87e4f, 6), (3, 15, 0xfe2ce6e0, 10), (3, 6, 0xa3014314, 15), (3, 13, 0x4e0811a1, 21),
     (3, 4, 0xf7537e82, 6), (3, 11, 0xbd3af235, 10), (3, 2, 0x2ad7d2bb, 15), (3, 9, 0xeb86d391, 21)]"
  by code_simp

lemma transform_steps:
  "MD5Transform buf X = code_steps X (map rfc_entry [0..<64]) (buf ! 0) (buf ! 1) (buf ! 2) (buf ! 3)
     (\<lambda>a b c d. [buf ! 0 + a, buf ! 1 + b, buf ! 2 + c, buf ! 3 + d])"
  unfolding rfc_entries MD5Transform_def
  by (simp only: code_steps.simps round_fun_simps Let_def [of "buf ! 0"] Let_def [of "buf ! 1"]
      Let_def [of "buf ! 2"] Let_def [of "buf ! 3"])

lemma rfc_shift_range:
  assumes "i < 64"
  shows "0 < rfc_shift i \<and> rfc_shift i < 32"
proof -
  have "\<forall>i \<in> set [0..<64]. 0 < rfc_shift i \<and> rfc_shift i < 32" by code_simp
  then show ?thesis using assms by auto
qed

lemma code_steps_rfc:
  assumes "\<forall>i \<in> set is. i < 64"
  shows "code_steps X (map rfc_entry is) a b c d k = (let r = rfc_steps X is a b c d in k (r ! 0) (r ! 1) (r ! 2) (r ! 3))"
  using assms
proof (induction "is" arbitrary: a b c d)
  case Nil
  then show ?case by (simp add: numeral_2_eq_2 numeral_3_eq_3)
next
  case (Cons i "is")
  have s: "0 < rfc_shift i" "rfc_shift i < 32" using rfc_shift_range [of i] Cons.prems by auto
  have "i div 16 = 0 \<longleftrightarrow> i < 16" "i div 16 = 1 \<longleftrightarrow> 16 \<le> i \<and> i < 32" "i div 16 = 2 \<longleftrightarrow> 32 \<le> i \<and> i < 48"
    by auto
  then have f: "round_fun (i div 16) x y z = rfc_fun i x y z" for x y z
    by (auto simp: round_fun_def rfc_fun_def F1_rfc F2_rfc F3_def F4_def)
  have IH: "code_steps X (map rfc_entry is) a b c d k =
      (let r = rfc_steps X is a b c d in k (r ! 0) (r ! 1) (r ! 2) (r ! 3))" for a b c d
    using Cons by simp
  show ?case
    by (simp only: list.map rfc_entry_def code_steps.simps rfc_steps.simps step_rfc [OF s f] Let_def IH [unfolded rfc_entry_def Let_def])
qed

lemma rfc_steps_length: "length (rfc_steps X is a b c d) = 4"
  by (induction "is" arbitrary: a b c d) auto

lemma list4:
  assumes "length xs = 4"
  obtains a b c d where "xs = [a, b, c, d]"
  using assms by (auto simp: length_Suc_conv numeral_eq_Suc)

lemma transform_rfc:
  assumes "length buf = 4"
  shows "MD5Transform buf X = rfc_compress buf X"
proof -
  define r where "r = rfc_steps X [0..<64] (buf ! 0) (buf ! 1) (buf ! 2) (buf ! 3)"
  have "length r = 4" by (simp add: r_def rfc_steps_length)
  then obtain r0 r1 r2 r3 where r: "r = [r0, r1, r2, r3]" by (rule list4)
  from assms obtain b0 b1 b2 b3 where b: "buf = [b0, b1, b2, b3]" by (rule list4)
  have "MD5Transform buf X = [buf ! 0 + r ! 0, buf ! 1 + r ! 1, buf ! 2 + r ! 2, buf ! 3 + r ! 3]"
    unfolding transform_steps r_def by (subst code_steps_rfc) (auto simp: Let_def simp del: rfc_steps.simps)
  then show ?thesis
    unfolding rfc_compress_def r_def [symmetric] by (simp add: r b)
qed

lemma transform_length: "length (MD5Transform buf X) = 4"
  unfolding transform_steps by (subst code_steps_rfc) (auto simp: Let_def simp del: rfc_steps.simps)

section \<open>Bytes and words\<close>

lemma load_store [simp]: "load_word be (store_word be w) = w"
proof (rule bit_word_eqI)
  fix n assume n: "n < LENGTH(32)"
  have l: "load_word be (store_word be w) =
      ucast (ucast w :: StgWord8) OR push_bit 8 (ucast (ucast (drop_bit 8 w) :: StgWord8))
      OR push_bit 16 (ucast (ucast (drop_bit 16 w) :: StgWord8)) OR push_bit 24 (ucast (ucast (drop_bit 24 w) :: StgWord8))"
    by (cases be) (simp_all add: load_word_def store_word_def Let_def)
  have "bit (load_word be (store_word be w)) n \<longleftrightarrow>
      (n < 8 \<and> bit w n) \<or> (8 \<le> n \<and> n < 16 \<and> bit w n) \<or> (16 \<le> n \<and> n < 24 \<and> bit w n) \<or> (24 \<le> n \<and> n < 32 \<and> bit w n)"
    unfolding l using n by (auto simp: bit_simps)
  then show "bit (load_word be (store_word be w)) n = bit w n" using n by auto
qed

lemma store_length [simp]: "length (store_word be w) = 4"
  by (simp add: store_word_def Let_def)

lemma load_words_cons:
  assumes "length xs = 4"
  shows "load_words be (xs @ ys) = load_word be xs # load_words be ys"
  using assms by (rule list4) simp

lemma load_words_store [simp]: "load_words be (concat (map (store_word be) ws)) = ws"
  by (induction ws) (simp_all add: load_words_cons)

lemma split4:
  assumes "length xs = 4 + 4 * n"
  obtains a b c d zs where "xs = a # b # c # d # zs" "length zs = 4 * n"
proof -
  have "length (take 4 xs) = 4" using assms by simp
  then obtain a b c d where t: "take 4 xs = [a, b, c, d]" by (rule list4)
  have "xs = take 4 xs @ drop 4 xs" by simp
  then have "xs = a # b # c # d # drop 4 xs" unfolding t by simp
  moreover have "length (drop 4 xs) = 4 * n" using assms by simp
  ultimately show ?thesis by (rule that)
qed

lemma load_words_append:
  "length xs = 4 * n \<Longrightarrow> load_words be (xs @ ys) = load_words be xs @ load_words be ys"
  by (induction n arbitrary: xs) (auto elim!: split4)

lemma load_words_length: "length xs = 4 * n \<Longrightarrow> length (load_words be xs) = n"
  by (induction n arbitrary: xs) (auto elim!: split4)

text \<open>Swapping rewrites the first words of the memory in the byte order of the host.\<close>

lemma swap_word:
  "push_bit 16 (push_bit 8 (ucast p3) OR ucast p2) OR (push_bit 8 (ucast p1) OR ucast p0)
     = load_word False [p0, p1, p2, p3 :: StgWord8]"
  by (simp add: load_word_def Let_def push_bit_or ac_simps)

lemma byteSwap_words:
  "length xs = 4 * n \<Longrightarrow> byteSwap be (xs @ ys) n = concat (map (store_word be) (load_words False xs)) @ ys"
proof (induction n arbitrary: xs)
  case 0
  then show ?case by simp
next
  case (Suc n)
  from Suc.prems have "length xs = 4 + 4 * n" by simp
  then obtain a b c d zs where xs: "xs = a # b # c # d # zs" and "length zs = 4 * n" by (rule split4)
  with Suc.IH [of zs] show ?case unfolding xs
    by (simp only: append_Cons byteSwap.simps swap_word load_words.simps list.map concat.simps append_assoc)
qed

lemmas byteSwap_all = byteSwap_words [where ys = "[]", simplified]

lemma transform_in_rfc:
  assumes "length (md_in ctx) = 64" "length (md_buf ctx) = 4"
  shows "md_buf (transform_in be ctx) = rfc_compress (md_buf ctx) (load_words False (md_in ctx))"
    and "length (md_in (transform_in be ctx)) = 64" "length (md_buf (transform_in be ctx)) = 4"
    and "md_bytes0 (transform_in be ctx) = md_bytes0 ctx" "md_bytes1 (transform_in be ctx) = md_bytes1 ctx"
proof -
  have s: "byteSwap be (md_in ctx) 16 = concat (map (store_word be) (load_words False (md_in ctx)))"
    using assms(1) by (intro byteSwap_all) simp
  have "length (load_words False (md_in ctx)) = 16" using assms(1) by (intro load_words_length) simp
  then have "length (concat (map (store_word be) (load_words False (md_in ctx)))) = 64"
    by (simp add: length_concat comp_def sum_list_triv)
  with s transform_rfc [OF assms(2), symmetric] transform_length show
    "md_buf (transform_in be ctx) = rfc_compress (md_buf ctx) (load_words False (md_in ctx))"
    "length (md_in (transform_in be ctx)) = 64" "length (md_buf (transform_in be ctx)) = 4"
    "md_bytes0 (transform_in be ctx) = md_bytes0 ctx" "md_bytes1 (transform_in be ctx) = md_bytes1 ctx"
    by (simp_all add: transform_in_def Let_def)
qed

section \<open>Streaming\<close>

lemma rfc_blocks_length: "length h = 4 \<Longrightarrow> length (rfc_blocks h bs) = 4"
  by (induction bs arbitrary: h) (auto simp: rfc_compress_def rfc_steps_length)

lemma rfc_init_length [simp]: "length (rfc_blocks rfc_init bs) = 4"
  by (rule rfc_blocks_length) (simp add: rfc_init_def)

lemma rfc_blocks_append: "rfc_blocks h (bs @ cs) = rfc_blocks (rfc_blocks h bs) cs"
  by (induction bs arbitrary: h) auto

lemma blocks_of_prefix: "64 * n \<le> length m \<Longrightarrow> blocks_of n (m @ xs) = blocks_of n m"
  by (induction n arbitrary: m) auto

lemma blocks_of_add: "blocks_of (n + k) m = blocks_of n m @ blocks_of k (drop (64 * n) m)"
  by (induction n arbitrary: m) (auto simp: add.commute)

text \<open>\<open>absorbed ctx m\<close>: the hash words are those of the whole blocks \<open>m\<close>.\<close>

definition absorbed :: "MD5Context \<Rightarrow> StgWord8 list \<Rightarrow> bool" where
  "absorbed ctx m \<longleftrightarrow> length (md_in ctx) = 64 \<and> length (md_buf ctx) = 4 \<and> length m mod 64 = 0
     \<and> md_buf ctx = rfc_blocks rfc_init (blocks_of (length m div 64) m)"

definition md_rep :: "MD5Context \<Rightarrow> StgWord8 list \<Rightarrow> bool" where
  "md_rep ctx m \<longleftrightarrow> absorbed ctx (take (64 * (length m div 64)) m)
     \<and> take (length m mod 64) (md_in ctx) = drop (64 * (length m div 64)) m
     \<and> md_bytes0 ctx = of_nat (length m) \<and> md_bytes1 ctx = of_nat (length m div 2 ^ 32)"

lemma absorb_block:
  assumes "absorbed ctx m" "length b = 64"
  shows "absorbed (transform_in be (ctx\<lparr>md_in := b\<rparr>)) (m @ b)"
proof -
  have l: "length (md_buf ctx) = 4" "length m mod 64 = 0"
    "md_buf ctx = rfc_blocks rfc_init (blocks_of (length m div 64) m)"
    using assms(1) by (auto simp: absorbed_def)
  have "length (m @ b) div 64 = length m div 64 + 1" using assms(2) by simp
  moreover have "64 * (length m div 64) = length m" using l(2) by auto
  ultimately have "blocks_of (length (m @ b) div 64) (m @ b) = blocks_of (length m div 64) m @ [b]"
    using assms(2) by (simp only: blocks_of_add blocks_of_prefix) simp
  then have "rfc_compress (md_buf ctx) (load_words False b) = rfc_blocks rfc_init (blocks_of (length (m @ b) div 64) (m @ b))"
    by (simp only: rfc_blocks_append rfc_blocks.simps l(3))
  moreover have "length (m @ b) mod 64 = 0" using l assms(2) by simp
  ultimately show ?thesis
    using transform_in_rfc [of "ctx\<lparr>md_in := b\<rparr>" be] assms(2) l(1) by (simp add: absorbed_def)
qed

lemma memcpy_whole: "length mem = 64 \<Longrightarrow> length b = 64 \<Longrightarrow> md_memcpy mem 0 b = b"
  by (simp add: md_memcpy_def)

lemma update_loop_absorbs:
  assumes "absorbed ctx m"
  shows "\<exists>ctx' pre rest. update_loop be ctx buf = (ctx', rest) \<and> buf = pre @ rest \<and> length rest < 64
     \<and> absorbed ctx' (m @ pre) \<and> md_bytes0 ctx' = md_bytes0 ctx \<and> md_bytes1 ctx' = md_bytes1 ctx"
  using assms
proof (induction be ctx buf arbitrary: m rule: update_loop.induct)
  case (1 be ctx buf)
  show ?case
  proof (cases "64 \<le> length buf")
    case True
    let ?c = "transform_in be (ctx\<lparr>md_in := md_memcpy (md_in ctx) 0 (take 64 buf)\<rparr>)"
    have w: "md_memcpy (md_in ctx) 0 (take 64 buf) = take 64 buf"
      using True "1.prems" by (intro memcpy_whole) (auto simp: absorbed_def)
    have a: "absorbed ?c (m @ take 64 buf)"
      unfolding w using True by (intro absorb_block [OF "1.prems"]) simp
    from "1.IH" [OF True a] obtain ctx' pre rest where
      "update_loop be ?c (drop 64 buf) = (ctx', rest)" "drop 64 buf = pre @ rest" "length rest < 64"
      "absorbed ctx' ((m @ take 64 buf) @ pre)" "md_bytes0 ctx' = md_bytes0 ?c" "md_bytes1 ctx' = md_bytes1 ?c" by blast
    moreover have "md_bytes0 ?c = md_bytes0 ctx" "md_bytes1 ?c = md_bytes1 ctx" by (simp_all add: transform_in_def Let_def)
    moreover have "buf = (take 64 buf @ pre) @ rest" using calculation(2) by (metis append_assoc append_take_drop_id)
    moreover have "update_loop be ctx buf = (ctx', rest)"
      using True calculation(1) by (subst update_loop.simps) simp
    ultimately show ?thesis by (metis append_assoc)
  next
    case False
    then have "update_loop be ctx buf = (ctx, buf)" by (subst update_loop.simps) simp
    then show ?thesis using False "1.prems" by (intro exI [of _ ctx] exI [of _ "[]"] exI [of _ buf]) simp
  qed
qed

lemma and_63: "unat (w AND 0x3f :: StgWord32) = unat w mod 64"
proof -
  have "w AND 0x3f = take_bit 6 w" by (simp add: take_bit_eq_mask mask_numeral)
  then have "w AND 0x3f = w mod 64" by (simp add: take_bit_eq_mod)
  then show ?thesis by (simp add: unat_mod)
qed

lemma of_nat_mod_64: "unat (of_nat n :: StgWord32) mod 64 = n mod 64"
  by (simp add: unat_of_nat mod_mod_cancel)

lemma space_left: "unat (64 - ((of_nat n :: StgWord32) AND 0x3f)) = 64 - n mod 64"
proof -
  have u: "unat ((of_nat n :: StgWord32) AND 0x3f) = n mod 64" by (simp only: and_63 of_nat_mod_64)
  then have "(of_nat n :: StgWord32) AND 0x3f \<le> 64" by (simp add: word_le_nat_alt)
  then show ?thesis using u by (simp add: unat_sub)
qed

lemma carry_count:
  assumes "k < 2 ^ 31"
  shows "(of_nat n + of_nat k < (of_nat n :: StgWord32)) = ((n + k) div 2 ^ 32 = n div 2 ^ 32 + 1)"
    and "(n + k) div 2 ^ 32 = n div 2 ^ 32 \<or> (n + k) div 2 ^ 32 = n div (2 :: nat) ^ 32 + 1"
proof -
  define q r where "q = n div (2 :: nat) ^ 32" and "r = n mod (2 :: nat) ^ 32"
  have n: "n = 2 ^ 32 * q + r" and r: "r < 2 ^ 32" by (simp_all add: q_def r_def)
  have un: "unat (of_nat n :: StgWord32) = r" by (simp add: unat_of_nat r_def)
  have us: "unat (of_nat n + of_nat k :: StgWord32) = (n + k) mod 2 ^ 32"
    by (simp add: unat_of_nat flip: of_nat_add)
  have d: "(n + k) div 2 ^ 32 = q + (r + k) div 2 ^ 32" "(n + k) mod 2 ^ 32 = (r + k) mod 2 ^ 32"
    unfolding n by (simp_all add: add.assoc)
  have c: "(r + k) div 2 ^ 32 = (if r + k < 2 ^ 32 then 0 else 1)"
    "(r + k) mod 2 ^ 32 = (if r + k < 2 ^ 32 then r + k else r + k - 2 ^ 32)"
    using r assms by (auto simp: div_nat_eqI mod_if)
  show "(of_nat n + of_nat k < (of_nat n :: StgWord32)) = ((n + k) div 2 ^ 32 = n div 2 ^ 32 + 1)"
    unfolding word_less_nat_alt us un d q_def [symmetric] c using r assms by auto
  show "(n + k) div 2 ^ 32 = n div 2 ^ 32 \<or> (n + k) div 2 ^ 32 = n div (2 :: nat) ^ 32 + 1"
    unfolding d q_def [symmetric] c by auto
qed

lemma md_repI:
  assumes "absorbed ctx p" "length rest < 64" "take (length rest) (md_in ctx) = rest"
    "md_bytes0 ctx = of_nat (length (p @ rest))" "md_bytes1 ctx = of_nat (length (p @ rest) div 2 ^ 32)"
  shows "md_rep ctx (p @ rest)"
proof -
  have "length p mod 64 = 0" using assms(1) by (simp add: absorbed_def)
  then obtain k where k: "length p = 64 * k" by auto
  then have "length (p @ rest) div 64 = k" "length (p @ rest) mod 64 = length rest"
    using assms(2) by simp_all
  then show ?thesis
    using assms k unfolding md_rep_def by (simp only: take_append drop_append) simp
qed

lemma absorbed_in: "absorbed (ctx\<lparr>md_in := mem\<rparr>) m \<longleftrightarrow> length mem = 64 \<and> length (md_buf ctx) = 4 \<and> length m mod 64 = 0
     \<and> md_buf ctx = rfc_blocks rfc_init (blocks_of (length m div 64) m)"
  by (simp add: absorbed_def)

lemma update_rep:
  assumes rep: "md_rep ctx m" and len: "length buf < 2 ^ 31"
  shows "md_rep (MD5Update be ctx buf) (m @ buf)"
proof -
  define p part where "p = take (64 * (length m div 64)) m" and "part = drop (64 * (length m div 64)) m"
  have m: "m = p @ part" by (simp add: p_def part_def)
  have lp: "length part = length m mod 64" by (simp add: part_def minus_mult_div_eq_mod)
  then have part: "length part < 64" by simp
  have a: "absorbed ctx p" and inp: "take (length part) (md_in ctx) = part"
    and b0: "md_bytes0 ctx = of_nat (length m)" and b1: "md_bytes1 ctx = of_nat (length m div 2 ^ 32)"
    using rep lp by (auto simp: md_rep_def p_def part_def)
  define ctx2 where "ctx2 = ctx\<lparr>md_bytes0 := of_nat (length (m @ buf)), md_bytes1 := of_nat (length (m @ buf) div 2 ^ 32)\<rparr>"
  have c2: "(let ctx1 = ctx\<lparr>md_bytes0 := md_bytes0 ctx + of_nat (length buf)\<rparr> in
       if md_bytes0 ctx1 < md_bytes0 ctx then ctx1\<lparr>md_bytes1 := md_bytes1 ctx1 + 1\<rparr> else ctx1) = ctx2"
    using carry_count [OF len, of "length m"] b1 unfolding ctx2_def b0 Let_def by (auto simp: add.commute)
  define t2 where "t2 = 64 - length part"
  have t2: "unat (64 - (md_bytes0 ctx AND 0x3f)) = t2"
    unfolding b0 space_left t2_def lp by simp
  have off: "64 - t2 = length part" using part by (simp add: t2_def)
  have e: "md_in ctx2 = md_in ctx" "md_buf ctx2 = md_buf ctx" by (simp_all add: ctx2_def)
  have "absorbed ctx2 p" using a unfolding absorbed_def e .
  note a2 = this e(1)
  have lin: "length (md_in ctx) = 64" using a by (simp add: absorbed_def)
  show ?thesis
  proof (cases "t2 > length buf")
    case True
    define mem where "mem = md_memcpy (md_in ctx) (length part) buf"
    have "MD5Update be ctx buf = ctx2\<lparr>md_in := mem\<rparr>"
      using True c2 unfolding MD5Update_def Let_def t2 off mem_def by (simp add: a2)
    moreover have "length mem = 64" using True lin part by (simp add: mem_def md_memcpy_def t2_def)
    moreover have "take (length (part @ buf)) mem = part @ buf" by (simp add: mem_def md_memcpy_def inp)
    ultimately have "md_rep (MD5Update be ctx buf) (p @ part @ buf)"
      using a2(1) True part by (intro md_repI) (simp_all add: absorbed_def t2_def ctx2_def m)
    then show ?thesis by (simp add: m)
  next
    case False
    define blk where "blk = md_memcpy (md_in ctx) (length part) (take t2 buf)"
    have "blk = part @ take t2 buf" and lb: "length blk = 64"
      using False lin part by (simp_all add: blk_def md_memcpy_def t2_def inp)
    then have a3: "absorbed (transform_in be (ctx2\<lparr>md_in := blk\<rparr>)) (m @ take t2 buf)"
      using absorb_block [OF a2(1) lb, of be] by (simp add: m)
    let ?c3 = "transform_in be (ctx2\<lparr>md_in := blk\<rparr>)"
    from update_loop_absorbs [OF a3, of be "drop t2 buf"] obtain c4 pre rest where
      u: "update_loop be ?c3 (drop t2 buf) = (c4, rest)" and s: "drop t2 buf = pre @ rest" and r: "length rest < 64"
      and a4: "absorbed c4 ((m @ take t2 buf) @ pre)"
      and b: "md_bytes0 c4 = md_bytes0 ?c3" "md_bytes1 c4 = md_bytes1 ?c3" by blast
    have "MD5Update be ctx buf = c4\<lparr>md_in := md_memcpy (md_in c4) 0 rest\<rparr>"
      using False c2 u unfolding MD5Update_def Let_def t2 off blk_def by (simp add: a2)
    moreover have "m @ buf = ((m @ take t2 buf) @ pre) @ rest" using s by (metis append_assoc append_take_drop_id)
    moreover have "md_rep (c4\<lparr>md_in := md_memcpy (md_in c4) 0 rest\<rparr>) (((m @ take t2 buf) @ pre) @ rest)"
    proof (rule md_repI)
      show "absorbed (c4\<lparr>md_in := md_memcpy (md_in c4) 0 rest\<rparr>) ((m @ take t2 buf) @ pre)"
        using a4 r by (simp add: absorbed_def md_memcpy_def)
      show "take (length rest) (md_in (c4\<lparr>md_in := md_memcpy (md_in c4) 0 rest\<rparr>)) = rest"
        by (simp add: md_memcpy_def)
      have "md_bytes0 c4 = of_nat (length (m @ buf))" "md_bytes1 c4 = of_nat (length (m @ buf) div 2 ^ 32)"
        using b by (simp_all add: transform_in_def Let_def ctx2_def)
      then show "md_bytes0 (c4\<lparr>md_in := md_memcpy (md_in c4) 0 rest\<rparr>) = of_nat (length (((m @ take t2 buf) @ pre) @ rest))"
        "md_bytes1 (c4\<lparr>md_in := md_memcpy (md_in c4) 0 rest\<rparr>) = of_nat (length (((m @ take t2 buf) @ pre) @ rest) div 2 ^ 32)"
        unfolding calculation(2) [symmetric] by simp_all
    qed (rule r)
    ultimately show ?thesis by simp
  qed
qed

section \<open>The digest\<close>

lemma store_load:
  assumes "length xs = 4"
  shows "store_word False (load_word False xs) = xs"
proof -
  from assms obtain a b c d where xs: "xs = [a, b, c, d]" by (rule list4)
  let ?w = "load_word False xs"
  have w: "?w = ucast a OR push_bit 8 (ucast b) OR push_bit 16 (ucast c) OR push_bit 24 (ucast d)"
    by (simp add: xs load_word_def)
  have "ucast ?w = a" unfolding w by (rule bit_word_eqI) (auto simp: bit_simps)
  moreover have "ucast (drop_bit 8 ?w) = b"
    unfolding w by (rule bit_word_eqI) (auto simp: bit_simps dest: bit_imp_le_length)
  moreover have "ucast (drop_bit 16 ?w) = c"
    unfolding w by (rule bit_word_eqI) (auto simp: bit_simps dest: bit_imp_le_length)
  moreover have "ucast (drop_bit 24 ?w) = d"
    unfolding w by (rule bit_word_eqI) (auto simp: bit_simps dest: bit_imp_le_length)
  ultimately show ?thesis by (simp add: store_word_def xs)
qed

lemma swap_digest: "store_word be (load_word False (store_word be w)) = store_word False w"
proof (cases be)
  case True
  have "store_word True x = rev (store_word False x)" for x by (simp add: store_word_def Let_def)
  moreover have "store_word False (load_word False (rev (store_word False w))) = rev (store_word False w)"
    by (rule store_load) simp
  ultimately show ?thesis using True by simp
next
  case False
  then show ?thesis by simp
qed

lemma load_False_store:
  "load_words False (concat (map (store_word be) ws)) = map (\<lambda>w. load_word False (store_word be w)) ws"
  by (induction ws) (simp_all add: load_words_cons)

lemma digest_bytes:
  assumes "length ws = 4"
  shows "byteSwap be (concat (map (store_word be) ws)) 4 = concat (map (store_word False) ws)"
proof -
  have "length (concat (map (store_word be) ws)) = 4 * 4"
    using assms by (simp add: length_concat comp_def sum_list_triv)
  from byteSwap_all [OF this, of be] show ?thesis
    by (simp add: load_False_store comp_def swap_digest)
qed

lemma count_words:
  "(of_nat n :: StgWord32) = ucast (of_nat n :: 64 word)"
  "(of_nat (n div 2 ^ 32) :: StgWord32) = ucast (drop_bit 32 (of_nat n :: 64 word))"
proof -
  show "(of_nat n :: StgWord32) = ucast (of_nat n :: 64 word)" by (rule bit_word_eqI) (auto simp: bit_simps)
  have "n div 2 ^ 32 = drop_bit 32 n" by (simp add: drop_bit_eq_div)
  then show "(of_nat (n div 2 ^ 32) :: StgWord32) = ucast (drop_bit 32 (of_nat n :: 64 word))"
    by (simp only:) (rule bit_word_eqI, auto simp: bit_simps)
qed

lemma bit_count:
  "push_bit 3 (ucast (x :: 64 word)) = (ucast (8 * x) :: StgWord32)"
  "push_bit 3 (ucast (drop_bit 32 (x :: 64 word))) OR drop_bit 29 (ucast x) = (ucast (drop_bit 32 (8 * x)) :: StgWord32)"
proof -
  have e: "8 * x = push_bit 3 x" by (simp add: push_bit_eq_mult)
  show "push_bit 3 (ucast x) = (ucast (8 * x) :: StgWord32)"
    unfolding e by (rule bit_word_eqI) (auto simp: bit_simps)
  show "push_bit 3 (ucast (drop_bit 32 x)) OR drop_bit 29 (ucast x) = (ucast (drop_bit 32 (8 * x)) :: StgWord32)"
    unfolding e by (rule bit_word_eqI) (auto simp: bit_simps dest: bit_imp_le_length)
qed

text \<open>The last block: 56 bytes swapped into words, then the two words of the bit count.\<close>

lemma last_block:
  assumes "length mem = 64"
  shows "load_words be (md_memcpy (md_memcpy (byteSwap be mem 14) 56 (store_word be lo)) 60 (store_word be hi))
    = load_words False (take 56 mem @ store_word False lo @ store_word False hi)"
proof -
  have l: "length (take 56 mem) = 4 * 14" using assms by simp
  let ?sw = "concat (map (store_word be) (load_words False (take 56 mem)))"
  have "length (load_words False (take 56 mem)) = 14" by (rule load_words_length [OF l])
  then have ls: "length ?sw = 4 * 14" by (simp add: length_concat comp_def sum_list_triv)
  have "byteSwap be (take 56 mem @ drop 56 mem) 14 = ?sw @ drop 56 mem" by (rule byteSwap_words [OF l])
  then have "md_memcpy (md_memcpy (byteSwap be mem 14) 56 (store_word be lo)) 60 (store_word be hi)
      = ?sw @ store_word be lo @ store_word be hi"
    using ls assms by (simp add: md_memcpy_def)
  moreover have "load_words be (store_word be lo @ store_word be hi) = [lo, hi]" for be
    using load_words_cons [of "store_word be lo" be "store_word be hi"] load_words_cons [of "store_word be hi" be "[]"] by simp
  ultimately show ?thesis
    by (simp only: load_words_append [OF ls] load_words_append [OF l] load_words_store)
qed

lemma final_digest:
  assumes rep: "md_rep ctx m"
  shows "fst (MD5Final be ctx) = rfc_md5 m"
proof -
  define p part where "p = take (64 * (length m div 64)) m" and "part = drop (64 * (length m div 64)) m"
  define r where "r = length part"
  have m: "m = p @ part" by (simp add: p_def part_def)
  have lp: "r = length m mod 64" by (simp add: r_def part_def minus_mult_div_eq_mod)
  then have r: "r < 64" by simp
  have a: "absorbed ctx p" and inp: "take r (md_in ctx) = part"
    and b0: "md_bytes0 ctx = of_nat (length m)" and b1: "md_bytes1 ctx = of_nat (length m div 2 ^ 32)"
    using rep lp by (auto simp: md_rep_def p_def part_def r_def)
  have lin: "length (md_in ctx) = 64" using a by (simp add: absorbed_def)
  define lo hi where "lo = push_bit 3 (md_bytes0 ctx)" and "hi = push_bit 3 (md_bytes1 ctx) OR drop_bit 29 (md_bytes0 ctx)"
  have le: "le64 (8 * of_nat (length m)) = store_word False lo @ store_word False hi"
  proof -
    have "md_bytes0 ctx = ucast (of_nat (length m) :: 64 word)" using b0 by (simp only: count_words(1))
    moreover have "md_bytes1 ctx = ucast (drop_bit 32 (of_nat (length m) :: 64 word))"
      using b1 by (simp only: count_words(2))
    ultimately have "lo = ucast (8 * of_nat (length m) :: 64 word)"
      "hi = ucast (drop_bit 32 (8 * of_nat (length m) :: 64 word))"
      unfolding lo_def hi_def by (simp_all only: bit_count(1), simp_all only: bit_count(1) [symmetric] bit_count(2))
    then show ?thesis by (simp only: le64_def)
  qed
  have count: "unat (md_bytes0 ctx AND 0x3f) = r" unfolding b0 and_63 of_nat_mod_64 lp ..
  define mem1 where "mem1 = md_memcpy (md_in ctx) r [0x80]"
  have mem1: "mem1 = part @ 0x80 # drop (Suc r) (md_in ctx)" by (simp add: mem1_def md_memcpy_def inp)
  define full where "full = part @ 0x80 # replicate (63 - r) (0 :: StgWord8)"
  have lfull: "length full = 64" using r by (simp add: full_def r_def)
  have fill: "md_memcpy mem1 (r + 1) (replicate (63 - r) 0) = full"
    using lin r by (simp add: mem1 md_memcpy_def full_def r_def)
  text \<open>Absorbing the last block gives the digest.\<close>
  have finish: "fst (let mem2 = byteSwap be mem 14; mem3 = md_memcpy mem2 56 (store_word be lo);
        mem4 = md_memcpy mem3 60 (store_word be hi); buf = MD5Transform (md_buf c) (load_words be mem4);
        digest = byteSwap be (concat (map (store_word be) buf)) 4
      in (digest, c\<lparr>md_in := mem4, md_buf := [0, 0] @ drop 2 (load_words be digest)\<rparr>))
      = concat (map (store_word False) (rfc_blocks rfc_init (blocks_of (length (q @ blk) div 64) (q @ blk))))"
    if "absorbed c q" "length mem = 64" "blk = take 56 mem @ store_word False lo @ store_word False hi" for c q mem blk
  proof -
    have "length blk = 64" using that by simp
    from absorb_block [OF that(1) this, of False] transform_in_rfc(1) [of "c\<lparr>md_in := blk\<rparr>" False] this that(1)
    have "rfc_compress (md_buf c) (load_words False blk) = rfc_blocks rfc_init (blocks_of (length (q @ blk) div 64) (q @ blk))"
      by (simp add: absorbed_def)
    then show ?thesis
      using that(1) last_block [OF that(2), of be lo hi] transform_rfc [of "md_buf c"] transform_length
      by (simp add: Let_def digest_bytes that(3) absorbed_def)
  qed
  show ?thesis
  proof (cases "r < 56")
    case True
    define blk where "blk = take 56 full @ store_word False lo @ store_word False hi"
    have "absorbed (ctx\<lparr>md_in := mem1\<rparr>) p" using a lin r by (simp add: absorbed_def mem1 r_def)
    moreover have "nat (55 - int r + 8) = 63 - r" using True by auto
    ultimately have "fst (MD5Final be ctx) = concat (map (store_word False)
        (rfc_blocks rfc_init (blocks_of (length (p @ blk) div 64) (p @ blk))))"
      using finish [of "ctx\<lparr>md_in := mem1\<rparr>" p full blk, OF _ lfull blk_def] fill True
      by (simp add: MD5Final_def count mem1_def [symmetric] lo_def [symmetric] hi_def [symmetric] Let_def)
    moreover have "blk = part @ 0x80 # replicate (55 - r) 0 @ store_word False lo @ store_word False hi"
      using True by (simp add: blk_def full_def r_def take_Cons' min_def)
    then have "rfc_pad m = p @ blk"
      using True by (simp add: rfc_pad_def le lp [symmetric]) (simp add: m)
    ultimately show ?thesis by (simp only: rfc_md5_def Let_def)
  next
    case False
    define c1 where "c1 = transform_in be (ctx\<lparr>md_in := full\<rparr>)"
    have a1: "absorbed c1 (p @ full)" unfolding c1_def by (rule absorb_block [OF a lfull])
    have lc: "length (md_in c1) = 64" using a1 by (simp add: absorbed_def)
    have "nat (55 - int r + 8) = 63 - r" using False r by auto
    moreover have "md_memcpy (md_in c1) 0 (replicate 64 0) = replicate 64 (0 :: StgWord8)"
      using lc by (simp add: md_memcpy_def)
    moreover have "take 56 (replicate 64 (0 :: StgWord8)) = replicate 56 0" by (simp add: min_def)
    ultimately have "fst (MD5Final be ctx) = concat (map (store_word False)
        (rfc_blocks rfc_init (blocks_of (length ((p @ full) @ replicate 56 0 @ store_word False lo @ store_word False hi) div 64)
          ((p @ full) @ replicate 56 0 @ store_word False lo @ store_word False hi))))"
      using finish [OF a1, of "replicate 64 0" "replicate 56 0 @ store_word False lo @ store_word False hi"] fill False
      by (simp add: MD5Final_def count mem1_def [symmetric] lo_def [symmetric] hi_def [symmetric] c1_def [symmetric] Let_def)
    moreover have "rfc_pad m = (p @ full) @ replicate 56 0 @ store_word False lo @ store_word False hi"
    proof -
      have "replicate (119 - r) (0 :: StgWord8) = replicate (63 - r) 0 @ replicate 56 0"
        using False r by (simp flip: replicate_add)
      then show ?thesis using False by (simp add: rfc_pad_def le lp [symmetric] full_def) (simp add: m)
    qed
    ultimately show ?thesis by (simp only: rfc_md5_def Let_def)
  qed
qed

section \<open>Properties\<close>

text \<open>A client that hashes a message in pieces.\<close>

fun md5_updates :: "bool \<Rightarrow> MD5Context \<Rightarrow> StgWord8 list list \<Rightarrow> MD5Context" where
  "md5_updates be ctx [] = ctx"
| "md5_updates be ctx (b # bs) = md5_updates be (MD5Update be ctx b) bs"

lemma updates_rep:
  "md_rep ctx m \<Longrightarrow> \<forall>b \<in> set bs. length b < 2 ^ 31 \<Longrightarrow> md_rep (md5_updates be ctx bs) (m @ concat bs)"
proof (induction bs arbitrary: ctx m)
  case Nil
  then show ?case by simp
next
  case (Cons b bs)
  then have "md_rep (MD5Update be ctx b) (m @ b)" by (intro update_rep) auto
  with Cons show ?case by (metis append_assoc concat.simps(2) list.set_intros(2) md5_updates.simps(2))
qed

lemma init_rep:
  assumes "length (md_in ctx) = 64"
  shows "md_rep (MD5Init ctx) []"
  using assms by (simp add: md_rep_def absorbed_def MD5Init_def rfc_init_def)

text \<open>
  Claim C5.  Initialising a context, feeding it a message in any pieces (each of less than
  2 GB, since \<open>len\<close> is an \<open>int\<close>) and finishing gives the MD5 digest that RFC 1321 defines for
  the whole message: padding, bit count with its carry between the two count words, and the
  64 unrolled steps included; and it does so on hosts of either byte order.
\<close>

theorem md5_streaming_rfc:
  assumes "length (md_in ctx) = 64" "\<forall>b \<in> set bs. length b < 2 ^ 31"
  shows "fst (MD5Final be (md5_updates be (MD5Init ctx) bs)) = rfc_md5 (concat bs)"
  using final_digest updates_rep [OF init_rep [OF assms(1)] assms(2), of be] by simp

theorem md5_streaming_rfc_witness:
  "fst (MD5Final True (md5_updates True (MD5Init \<lparr>md_buf = [], md_bytes0 = 0, md_bytes1 = 0, md_in = replicate 64 7\<rparr>)
       [[97, 98], [99]])) = rfc_md5 [97, 98, 99]"
proof -
  have "fst (MD5Final True (md5_updates True (MD5Init \<lparr>md_buf = [], md_bytes0 = 0, md_bytes1 = 0, md_in = replicate 64 7\<rparr>)
       [[97, 98], [99]])) = rfc_md5 (concat [[97, 98], [99]])"
    by (rule md5_streaming_rfc) auto
  then show ?thesis by (simp only: concat.simps append.simps)
qed

text \<open>
  Claim C26.  The unrolled compression function of the code, with its optimised round function
  \<open>F1\<close> and its rotations by shifts, is the compression function of RFC 1321 on every four hash
  words and every sixteen message words.
\<close>

theorem md5_transform_is_rfc:
  "MD5Transform [a, b, c, d] X = rfc_compress [a, b, c, d] X"
  by (rule transform_rfc) simp

end
