(* ===== verification/WSDeque.thy ===== *)
theory WSDeque
  imports Prelude "HOL-Library.Monad_Syntax"
begin

text \<open>
  The work-stealing deques of \<open>rts/WSDeque.c\<close> and \<open>rts/WSDeque.h\<close>, which hold the sparks of a
  capability.  The owner pushes and pops at the bottom, thieves take from the top and are
  arbitrated by a compare-and-swap on \<open>top\<close>.  The theory gives the operations as functions for
  a deque nobody else touches, then the same operations cut at their accesses to shared
  fields, as a step relation of one owner and any number of thieves, and shows that no element
  is lost, duplicated or invented in any interleaving.
\<close>

section \<open>The code\<close>

record WSDeque =
  dq_size :: StgWord
  moduloSize :: StgWord
  dq_top :: StgWord
  dq_bottom :: StgWord
  topBound :: StgWord
  elements :: "StgWord \<Rightarrow> StgWord"

definition castop :: "WSDeque \<Rightarrow> StgWord \<Rightarrow> StgWord \<Rightarrow> WSDeque \<times> bool" where
  "castop q old new = (if dq_top q = old then (q\<lparr>dq_top := new\<rparr>, True) else (q, False))"

function roundUp2_loop :: "StgWord \<Rightarrow> StgWord \<Rightarrow> StgWord" where
  "roundUp2_loop rounded val =
     (let rounded = push_bit 1 rounded; val = drop_bit 1 val
      in if val \<noteq> 0 then roundUp2_loop rounded val else rounded)"
  by auto

termination
proof (relation "measure (\<lambda>(rounded, val). unat val)")
  fix rounded val x xa :: StgWord
  assume xa: "xa = drop_bit 1 val" "xa \<noteq> 0"
  have "unat xa = unat val div 2" unfolding xa(1) by (simp add: drop_bit_eq_div unat_div)
  moreover have "unat xa \<noteq> 0" using xa(2) by (simp only: unsigned_eq_0_iff) simp
  ultimately show "((x, xa), rounded, val) \<in> measure (\<lambda>(rounded, val). unat val)" by simp
qed simp

declare roundUp2_loop.simps [simp del]

definition roundUp2 :: "StgWord \<Rightarrow> StgWord option" where
  "roundUp2 val = (if val = 0 then None else Some (roundUp2_loop 1 val))"

definition newWSDeque :: "StgWord32 \<Rightarrow> (StgWord \<Rightarrow> StgWord) \<Rightarrow> WSDeque option" where
  "newWSDeque sz space = do {
     realsize \<leftarrow> roundUp2 (ucast sz);
     Some \<lparr>dq_size = realsize, moduloSize = realsize - 1, dq_top = 0, dq_bottom = 0, topBound = 0,
           elements = space\<rparr>
   }"

definition popWSDeque :: "WSDeque \<Rightarrow> WSDeque \<times> StgWord" where
  "popWSDeque q =
     (let b = dq_bottom q - 1;
          q1 = q\<lparr>dq_bottom := b\<rparr>;
          t = dq_top q1;
          q2 = q1\<lparr>topBound := t\<rparr>;
          currSize = sint b - sint t
      in if currSize < 0 then (q2\<lparr>dq_bottom := t\<rparr>, 0)
         else let removed = elements q2 (b AND moduloSize q2)
           in if currSize > 0 then (q2, removed)
              else let (q3, won) = castop q2 t (t + 1);
                       removed = (if won then removed else 0)
                in (q3\<lparr>dq_bottom := t + 1, topBound := t + 1\<rparr>, removed))"

definition stealWSDeque_once :: "WSDeque \<Rightarrow> WSDeque \<times> StgWord" where
  "stealWSDeque_once q =
     (let t = dq_top q; b = dq_bottom q
      in if sint b - sint t \<le> 0 then (q, 0)
         else let stolen = elements q (t AND moduloSize q);
                  (q1, won) = castop q t (t + 1)
           in if won then (q1, stolen) else (q1, 0))"

definition dequeElements :: "WSDeque \<Rightarrow> int" where
  "dequeElements q = sint (dq_bottom q) - sint (dq_top q)"

definition looksEmptyWSDeque :: "WSDeque \<Rightarrow> bool" where
  "looksEmptyWSDeque q = (dequeElements q \<le> 0)"

definition discardElements :: "WSDeque \<Rightarrow> WSDeque" where
  "discardElements q = q\<lparr>dq_top := dq_bottom q\<rparr>"

partial_function (option) stealWSDeque :: "WSDeque \<Rightarrow> (WSDeque \<times> StgWord) option" where
  "stealWSDeque q =
     (let (q1, stolen) = stealWSDeque_once q
      in if stolen = 0 \<and> \<not> looksEmptyWSDeque q1 then stealWSDeque q1 else Some (q1, stolen))"

definition pushWSDeque :: "WSDeque \<Rightarrow> StgWord \<Rightarrow> WSDeque \<times> bool" where
  "pushWSDeque q elem =
     (let sz = moduloSize q; b = dq_bottom q; t = topBound q;
          maybe_full = (sint b - sint t \<ge> sint sz);
          q1 = (if maybe_full then q\<lparr>topBound := dq_top q\<rparr> else q)
      in if maybe_full \<and> b - dq_top q \<ge> sz then (q1, False)
         else (q1\<lparr>elements := (elements q1)(b AND sz := elem), dq_bottom := b + 1\<rparr>, True))"

section \<open>Counters and slots\<close>

text \<open>
  \<open>top\<close> and \<open>bottom\<close> only grow with pushes, so they stay signed-representable for the first
  \<open>2 ^ 63\<close> pushes; \<open>bottom\<close> may be one below \<open>top\<close> for a moment, hence the lower bound -1.
\<close>

definition idx :: "int \<Rightarrow> StgWord" where
  "idx i = word_of_int i"

definition small :: "int \<Rightarrow> bool" where
  "small i \<longleftrightarrow> -1 \<le> i \<and> i < 2 ^ 63"

lemma sint_idx: "small i \<Longrightarrow> sint (idx i) = i"
  unfolding idx_def small_def by (simp add: signed_of_int signed_take_bit_int_eq_self)

lemma idx_inj: "small i \<Longrightarrow> small j \<Longrightarrow> idx i = idx j \<longleftrightarrow> i = j"
  using sint_idx by metis

lemma idx_arith [simp]: "idx i + 1 = idx (i + 1)" "idx i - 1 = idx (i - 1)" "idx i - idx j = idx (i - j)"
  by (simp_all add: idx_def)

lemma idx_0: "idx 0 = 0"
  by (simp add: idx_def)

lemma uint_idx: "0 \<le> i \<Longrightarrow> i < 2 ^ 63 \<Longrightarrow> uint (idx i) = i"
  by (simp add: idx_def uint_word_of_int)

definition slot :: "WSDeque \<Rightarrow> int \<Rightarrow> StgWord" where
  "slot q i = idx i AND moduloSize q"

lemma slot_inj:
  assumes k: "moduloSize q = mask k" "k < 64" and close: "\<bar>i - j\<bar> < 2 ^ k"
  shows "slot q i = slot q j \<longleftrightarrow> i = j"
proof
  assume "slot q i = slot q j"
  then have "take_bit k (word_of_int i :: StgWord) = take_bit k (word_of_int j)"
    by (simp add: slot_def idx_def k take_bit_eq_mask)
  then have "uint (take_bit k (word_of_int i :: StgWord)) = uint (take_bit k (word_of_int j :: StgWord))" by simp
  then have "take_bit k i = take_bit k j"
    using k(2) by (simp add: unsigned_take_bit_eq uint_word_of_int_eq min_def)
  then have "(i - j) mod 2 ^ k = 0" by (simp add: take_bit_eq_mod mod_eq_dvd_iff)
  then have "2 ^ k dvd i - j" by auto
  then show "i = j" using close dvd_imp_le_int [of "i - j" "2 ^ k"] by (cases "i = j") auto
qed simp

section \<open>A deque used by its owner alone\<close>

text \<open>
  \<open>dq_rep q k T B tb\<close>: the fields of a deque with \<open>2 ^ k\<close> slots whose counters are \<open>T\<close> and \<open>B\<close>;
  \<open>seg q T B\<close> lists the elements between them.
\<close>

definition dq_rep :: "WSDeque \<Rightarrow> nat \<Rightarrow> int \<Rightarrow> int \<Rightarrow> int \<Rightarrow> bool" where
  "dq_rep q k T B tb \<longleftrightarrow> dq_size q = 2 ^ k \<and> moduloSize q = mask k \<and> k < 63 \<and> dq_top q = idx T
     \<and> dq_bottom q = idx B \<and> topBound q = idx tb \<and> 0 \<le> tb \<and> tb \<le> T"

definition seg :: "WSDeque \<Rightarrow> int \<Rightarrow> int \<Rightarrow> StgWord list" where
  "seg q T B = map (\<lambda>i. elements q (slot q i)) [T..B - 1]"

lemma seg_empty [simp]: "B \<le> T \<Longrightarrow> seg q T B = []"
  by (simp add: seg_def)

lemma seg_first: "T < B \<Longrightarrow> seg q T B = elements q (slot q T) # seg q (T + 1) B"
  by (simp add: seg_def upto_rec1)

lemma seg_last: "T < B \<Longrightarrow> seg q T B = seg q T (B - 1) @ [elements q (slot q (B - 1))]"
  by (simp add: seg_def upto_rec2)

lemma seg_cong: "elements q' = elements q \<Longrightarrow> moduloSize q' = moduloSize q \<Longrightarrow> seg q' = seg q"
  by (intro ext) (simp add: seg_def slot_def)

lemma slot_cong: "moduloSize q' = moduloSize q \<Longrightarrow> slot q' i = slot q i"
  by (simp add: slot_def)

lemma seg_length: "T \<le> B \<Longrightarrow> length (seg q T B) = nat (B - T)"
  by (simp add: seg_def)

lemma seg_write:
  assumes "moduloSize q = mask k" "k < 63" "B - T < 2 ^ k"
    "q' = q\<lparr>elements := (elements q)(slot q B := e)\<rparr>"
  shows "seg q' T B = seg q T B"
  unfolding seg_def
proof (rule map_cong)
  fix i assume "i \<in> set [T..B - 1]"
  then have "slot q i \<noteq> slot q B" using assms by (subst slot_inj) auto
  then show "elements q' (slot q' i) = elements q (slot q i)"
    by (simp add: assms(4) slot_def)
qed simp

definition dq_holds :: "WSDeque \<Rightarrow> nat \<Rightarrow> StgWord list \<Rightarrow> bool" where
  "dq_holds q n xs \<longleftrightarrow> (\<exists>k T B tb. dq_rep q k T B tb \<and> T \<le> B \<and> B - T \<le> 2 ^ k - 1 \<and> B \<le> int n
     \<and> dq_size q = 2 ^ k \<and> xs = seg q T B)"

lemma dq_repD:
  assumes "dq_rep q k T B tb"
  shows "dq_size q = 2 ^ k" "moduloSize q = mask k" "k < 63" "dq_top q = idx T" "dq_bottom q = idx B"
    "topBound q = idx tb" "0 \<le> tb" "tb \<le> T" "0 \<le> T"
  using assms by (auto simp: dq_rep_def)

lemma pop_holds:
  assumes h: "dq_holds q n xs" and n: "n < 2 ^ 63"
  shows "dq_holds (fst (popWSDeque q)) n (butlast xs)
     \<and> snd (popWSDeque q) = (if xs = [] then 0 else last xs)"
proof -
  from h obtain k T B tb where r: "dq_rep q k T B tb" and b: "T \<le> B" "B - T \<le> 2 ^ k - 1" "B \<le> int n"
    and xs: "xs = seg q T B" by (auto simp: dq_holds_def)
  note d = dq_repD [OF r]
  have s: "sint (idx (B - 1)) = B - 1" "sint (idx T) = T"
    using d b n by (auto intro!: sint_idx simp: small_def)
  consider "T = B" | "T + 1 = B" | "T + 1 < B" using b by linarith
  then show ?thesis
  proof cases
    case 1
    then have "popWSDeque q = (q\<lparr>dq_bottom := idx T, topBound := idx T\<rparr>, 0)"
      using d s by (simp add: popWSDeque_def Let_def)
    moreover have "dq_rep (q\<lparr>dq_bottom := idx T, topBound := idx T\<rparr>) k T T T" using r d by (simp add: dq_rep_def)
    ultimately show ?thesis
      unfolding dq_holds_def using 1 b xs d by (auto intro!: exI [of _ k] exI [of _ T])
  next
    case 2
    then have B: "B = T + 1" by simp
    let ?q = "q\<lparr>dq_bottom := idx (T + 1), topBound := idx (T + 1), dq_top := idx (T + 1)\<rparr>"
    have "popWSDeque q = (?q, elements q (slot q T))"
      using d s unfolding B by (simp add: popWSDeque_def Let_def castop_def slot_def)
    moreover have "dq_rep ?q k (T + 1) (T + 1) (T + 1)" using r d by (simp add: dq_rep_def)
    moreover have "xs = [elements q (slot q T)]" using xs seg_first [of T B q] B by simp
    ultimately show ?thesis
      unfolding dq_holds_def using b d B by (auto intro!: exI [of _ k] exI [of _ "T + 1"])
  next
    case 3
    let ?q = "q\<lparr>dq_bottom := idx (B - 1), topBound := idx T\<rparr>"
    have "popWSDeque q = (?q, elements q (slot q (B - 1)))"
      using d s 3 by (simp add: popWSDeque_def Let_def slot_def)
    moreover have "dq_rep ?q k T (B - 1) T" using r d by (simp add: dq_rep_def)
    moreover have "xs = seg ?q T (B - 1) @ [elements q (slot q (B - 1))]"
      using xs seg_last [of T B q] 3 seg_cong [of ?q q] by simp
    moreover have "\<exists>k' T' B' tb'. dq_rep ?q k' T' B' tb' \<and> T' \<le> B' \<and> B' - T' \<le> 2 ^ k' - 1 \<and> B' \<le> int n
        \<and> dq_size ?q = 2 ^ k' \<and> seg ?q T (B - 1) = seg ?q T' B'"
      by (rule exI [of _ k], rule exI [of _ T], rule exI [of _ "B - 1"], rule exI [of _ T])
        (use calculation(2) b d 3 in auto)
    ultimately show ?thesis unfolding dq_holds_def by simp
  qed
qed

lemma steal_holds:
  assumes h: "dq_holds q n xs" and n: "n < 2 ^ 63"
  shows "dq_holds (fst (stealWSDeque_once q)) n (tl xs)
     \<and> snd (stealWSDeque_once q) = (if xs = [] then 0 else hd xs)"
proof -
  from h obtain k T B tb where r: "dq_rep q k T B tb" and b: "T \<le> B" "B - T \<le> 2 ^ k - 1" "B \<le> int n"
    and xs: "xs = seg q T B" by (auto simp: dq_holds_def)
  note d = dq_repD [OF r]
  have s: "sint (idx B) = B" "sint (idx T) = T"
    using d b n by (auto intro!: sint_idx simp: small_def)
  show ?thesis
  proof (cases "T = B")
    case True
    then have "stealWSDeque_once q = (q, 0)" using d by (simp add: stealWSDeque_once_def Let_def)
    then show ?thesis using h xs True by simp
  next
    case False
    then have lt: "T < B" using b by simp
    let ?q = "q\<lparr>dq_top := idx (T + 1)\<rparr>"
    have "stealWSDeque_once q = (?q, elements q (slot q T))"
      using d s lt by (simp add: stealWSDeque_once_def Let_def castop_def slot_def)
    moreover have "dq_rep ?q k (T + 1) B tb" using r by (simp add: dq_rep_def)
    moreover have "xs = elements q (slot q T) # seg ?q (T + 1) B"
      using xs seg_first [OF lt] seg_cong [of ?q q] by simp
    moreover have "dq_holds ?q n (seg ?q (T + 1) B)"
      unfolding dq_holds_def using calculation(2) b d lt
      by (intro exI [of _ k] exI [of _ "T + 1"] exI [of _ B] exI [of _ tb]) auto
    ultimately show ?thesis by simp
  qed
qed

lemma looks_empty_holds:
  assumes h: "dq_holds q n xs" and n: "n < 2 ^ 63"
  shows "dequeElements q = int (length xs)" "looksEmptyWSDeque q \<longleftrightarrow> xs = []"
proof -
  from h obtain k T B tb where r: "dq_rep q k T B tb" and b: "T \<le> B" "B \<le> int n"
    and xs: "xs = seg q T B" by (auto simp: dq_holds_def)
  note d = dq_repD [OF r]
  have s: "sint (idx B) = B" "sint (idx T) = T"
    using d b n by (auto intro!: sint_idx simp: small_def)
  show e: "dequeElements q = int (length xs)"
    using d s b xs by (simp add: dequeElements_def seg_length)
  then show "looksEmptyWSDeque q \<longleftrightarrow> xs = []" by (simp add: looksEmptyWSDeque_def)
qed

text \<open>The retrying steal returns: on a deque nobody else touches it takes the first non-null element.\<close>

lemma stealWSDeque_holds:
  assumes "dq_holds q n xs" "n < 2 ^ 63"
  shows "\<exists>q'. stealWSDeque q = Some (q', case dropWhile (\<lambda>x. x = 0) xs of [] \<Rightarrow> 0 | x # _ \<Rightarrow> x)
     \<and> dq_holds q' n (tl (dropWhile (\<lambda>x. x = 0) xs))"
  using assms(1)
proof (induction xs arbitrary: q)
  case Nil
  from steal_holds [OF Nil assms(2)] looks_empty_holds [OF Nil assms(2)]
  show ?case using Nil looks_empty_holds(2) [of "fst (stealWSDeque_once q)" n "[]"] assms(2)
    by (subst stealWSDeque.simps) (auto simp: split_beta Let_def)
next
  case (Cons x xs)
  note s = steal_holds [OF Cons.prems assms(2)]
  then have q1: "dq_holds (fst (stealWSDeque_once q)) n xs" "snd (stealWSDeque_once q) = x" by auto
  note e = looks_empty_holds(2) [OF q1(1) assms(2)]
  show ?case
  proof (cases "x = 0 \<and> xs \<noteq> []")
    case True
    then have "stealWSDeque q = stealWSDeque (fst (stealWSDeque_once q))"
      using q1 e by (subst stealWSDeque.simps) (simp add: split_beta Let_def)
    then show ?thesis using Cons.IH [OF q1(1)] True by simp
  next
    case False
    then have "stealWSDeque q = Some (fst (stealWSDeque_once q), x)"
      using q1 e by (subst stealWSDeque.simps) (auto simp: split_beta Let_def)
    then show ?thesis using q1 False by auto
  qed
qed

lemma pow_idx: "k < 63 \<Longrightarrow> (2 :: int) ^ k < 2 ^ 63" "(mask k :: StgWord) = idx (2 ^ k - 1)" "(2 ^ k :: StgWord) = idx (2 ^ k)"
  by (intro power_strict_increasing) (auto simp: idx_def mask_eq_exp_minus_1)

lemma uint_mask: "k < 63 \<Longrightarrow> uint (mask k :: StgWord) = 2 ^ k - 1"
  unfolding pow_idx(2) using pow_idx(1) [of k] by (intro uint_idx) auto

lemma uint_pow: "k < 63 \<Longrightarrow> uint (2 ^ k :: StgWord) = 2 ^ k"
  unfolding pow_idx(3) using pow_idx(1) [of k] by (intro uint_idx) auto

lemma sint_mask:
  assumes "k < 63"
  shows "sint (mask k :: StgWord) = 2 ^ k - 1"
proof -
  have "(0 :: int) < 2 ^ k" by simp
  then have "small (2 ^ k - 1)" using pow_idx(1) [OF assms] unfolding small_def by linarith
  then show ?thesis unfolding pow_idx(2) by (rule sint_idx)
qed

lemma push_holds:
  assumes h: "dq_holds q n xs" and n: "Suc n < 2 ^ 63"
  shows "snd (pushWSDeque q e) = (int (length xs) < uint (dq_size q) - 1)
     \<and> dq_holds (fst (pushWSDeque q e)) (Suc n) (if int (length xs) < uint (dq_size q) - 1 then xs @ [e] else xs)"
proof -
  from h obtain k T B tb where r: "dq_rep q k T B tb" and b: "T \<le> B" "B - T \<le> 2 ^ k - 1" "B \<le> int n"
    and xs: "xs = seg q T B" by (auto simp: dq_holds_def)
  note d = dq_repD [OF r]
  have s: "sint (idx B) = B" "sint (idx T) = T" "sint (idx tb) = tb" "uint (idx (B - T)) = B - T"
    using d b n by (auto intro!: sint_idx uint_idx simp: small_def)
  have sz: "uint (dq_size q) = 2 ^ k" using d(1,3) by (simp only: uint_pow)
  have len: "int (length xs) = B - T" using xs b by (simp add: seg_length)
  define full where "full = (sint (dq_bottom q) - sint (topBound q) \<ge> sint (moduloSize q))"
  have full_iff: "full \<and> moduloSize q \<le> dq_bottom q - dq_top q \<longleftrightarrow> B - T = 2 ^ k - 1"
    using d s b by (auto simp: full_def sint_mask uint_mask word_le_def)
  define q1 where "q1 = (if full then q\<lparr>topBound := dq_top q\<rparr> else q)"
  have q1: "dq_rep q1 k T B (if full then T else tb)" "elements q1 = elements q" "moduloSize q1 = moduloSize q" "dq_size q1 = dq_size q"
    using r d by (auto simp: q1_def dq_rep_def)
  show ?thesis
  proof (cases "B - T = 2 ^ k - 1")
    case True
    then have "pushWSDeque q e = (q1, False)"
      using full_iff by (simp add: pushWSDeque_def Let_def full_def [symmetric] q1_def)
    moreover have "dq_holds q1 (Suc n) xs"
      unfolding dq_holds_def using q1 b d xs seg_cong [of q1 q]
      by (intro exI [of _ k] exI [of _ T] exI [of _ B] exI [of _ "if full then T else tb"]) auto
    ultimately show ?thesis using True len sz by simp
  next
    case False
    let ?w = "q1\<lparr>elements := (elements q1)(slot q1 B := e)\<rparr>"
    let ?q = "?w\<lparr>dq_bottom := idx (B + 1)\<rparr>"
    have "pushWSDeque q e = (q1\<lparr>elements := (elements q1)(dq_bottom q AND moduloSize q := e), dq_bottom := dq_bottom q + 1\<rparr>, True)"
      using False full_iff unfolding pushWSDeque_def Let_def full_def [symmetric] q1_def [symmetric] by simp
    then have p: "pushWSDeque q e = (?q, True)" using d(5) q1(3) by (simp add: slot_def)
    have w: "seg ?w T B = seg q T B"
      using seg_write [of q1 k B T ?w e] d q1 b seg_cong [of q1 q] by simp
    have "seg ?q T (B + 1) = seg ?w T B @ [e]"
      using seg_last [of T "B + 1" ?q] b seg_cong [of ?q ?w] by (simp add: slot_def)
    then have "dq_holds ?q (Suc n) (xs @ [e])"
      unfolding dq_holds_def using q1 b d xs False w
      by (intro exI [of _ k] exI [of _ T] exI [of _ "B + 1"] exI [of _ "if full then T else tb"]) (auto simp: dq_rep_def)
    then show ?thesis using p False len sz b by simp
  qed
qed

lemma roundUp2_loop_pow:
  assumes "2 ^ m \<le> unat val" "unat val < 2 ^ Suc m"
  shows "roundUp2_loop r val = push_bit (Suc m) r"
  using assms
proof (induction m arbitrary: r val)
  case 0
  then have "unat val = 1" by simp
  then have "val = 1" by (metis unsigned_1 word_unat_eq_iff)
  then show ?case by (subst roundUp2_loop.simps) (simp add: Let_def)
next
  case (Suc m)
  have u: "unat (drop_bit 1 val) = unat val div 2" by (simp add: drop_bit_eq_div unat_div)
  then have b: "2 ^ m \<le> unat (drop_bit 1 val)" "unat (drop_bit 1 val) < 2 ^ Suc m" using Suc.prems by auto
  then have "unat (drop_bit 1 val) \<noteq> 0" by (metis le_zero_eq power_not_zero zero_neq_numeral)
  then have "drop_bit 1 val \<noteq> 0" by (simp only: unsigned_eq_0_iff) simp
  then show ?case
    using Suc.IH [OF b, of "push_bit 1 r"] by (subst roundUp2_loop.simps) (simp add: Let_def push_bit_push_bit)
qed

lemma bit_length_ex:
  fixes n :: nat
  assumes "0 < n"
  shows "\<exists>m. 2 ^ m \<le> n \<and> n < 2 ^ Suc m"
  using ex_power_ivl1 [of 2 n] assms by auto

lemma new_holds:
  assumes "sz \<noteq> 0"
  shows "\<exists>q. newWSDeque sz space = Some q \<and> dq_holds q 0 []
     \<and> uint sz < uint (dq_size q) \<and> uint (dq_size q) \<le> 2 * uint sz"
proof -
  define w :: StgWord where "w = ucast sz"
  have "unat sz < 2 ^ 64" using unsigned_less [of sz] by (rule less_trans) simp
  then have uw: "unat w = unat sz" by (simp add: w_def unsigned_ucast_eq take_bit_nat_eq_self)
  have "unat sz \<noteq> 0" using assms by (simp add: unsigned_eq_0_iff)
  then obtain m where m: "2 ^ m \<le> unat w" "unat w < 2 ^ Suc m" using bit_length_ex [of "unat w"] uw by auto
  have lt: "unat w < 2 ^ 32" using uw unsigned_less [of sz] by simp
  have k: "Suc m < 63"
  proof (rule ccontr)
    assume "\<not> Suc m < 63"
    then have "(2 :: nat) ^ 32 \<le> 2 ^ m" by (intro power_increasing) auto
    then show False using m lt by simp
  qed
  have "w \<noteq> 0" using \<open>unat sz \<noteq> 0\<close> uw by auto
  moreover have "roundUp2_loop 1 w = 2 ^ Suc m"
    using roundUp2_loop_pow [OF m, of 1] by (simp add: push_bit_eq_mult)
  ultimately have new: "newWSDeque sz space = Some \<lparr>dq_size = 2 ^ Suc m, moduloSize = 2 ^ Suc m - 1, dq_top = 0,
      dq_bottom = 0, topBound = 0, elements = space\<rparr>" (is "_ = Some ?q")
    by (simp add: newWSDeque_def roundUp2_def w_def)
  have "dq_rep ?q (Suc m) 0 0 0" using k by (simp add: dq_rep_def idx_0 mask_eq_exp_minus_1)
  then have "dq_holds ?q 0 []"
    unfolding dq_holds_def by (intro exI [of _ "Suc m"] exI [of _ 0]) auto
  moreover have "uint (dq_size ?q) = 2 ^ Suc m" using uint_pow [OF k] by simp
  moreover have "uint sz = int (unat w)" by (simp only: uw uint_nat)
  moreover have "int (unat w) < 2 ^ Suc m" "(2 :: int) ^ m \<le> int (unat w)"
    using m by (metis of_nat_less_iff of_nat_numeral of_nat_power, metis of_nat_le_iff of_nat_numeral of_nat_power)
  ultimately show ?thesis using new by simp
qed

section \<open>The contract of a bounded deque\<close>

text \<open>The operations of a client, their answers, and a run of them one after the other.\<close>

datatype 'e deque_op = Push 'e | Pop | Steal

datatype 'e deque_answer = Accepted bool | Taken 'e

primrec deque_run ::
  "('q \<Rightarrow> 'e \<Rightarrow> 'q \<times> bool) \<Rightarrow> ('q \<Rightarrow> 'q \<times> 'e) \<Rightarrow> ('q \<Rightarrow> 'q \<times> 'e) \<Rightarrow> 'q \<Rightarrow> 'e deque_op list \<Rightarrow> 'q \<times> 'e deque_answer list" where
  "deque_run push pop steal q [] = (q, [])"
| "deque_run push pop steal q (op # ops) =
     (let (q1, a) = (case op of Push e \<Rightarrow> apsnd Accepted (push q e) | Pop \<Rightarrow> apsnd Taken (pop q) | Steal \<Rightarrow> apsnd Taken (steal q));
          (q2, as) = deque_run push pop steal q1 ops
      in (q2, a # as))"

text \<open>The same on a list with room for \<open>cap\<close> elements: a push adds an element at the end when there is room and is
  refused otherwise, a pop takes the last element and a steal the first; from the empty list they
  answer \<open>null\<close>.\<close>

definition list_push :: "nat \<Rightarrow> 'e list \<Rightarrow> 'e \<Rightarrow> 'e list \<times> bool" where
  "list_push cap xs e = (if length xs < cap then (xs @ [e], True) else (xs, False))"

definition list_pop :: "'e \<Rightarrow> 'e list \<Rightarrow> 'e list \<times> 'e" where
  "list_pop null xs = (butlast xs, if xs = [] then null else last xs)"

definition list_steal :: "'e \<Rightarrow> 'e list \<Rightarrow> 'e list \<times> 'e" where
  "list_steal null xs = (tl xs, if xs = [] then null else hd xs)"

definition pushes :: "'e deque_op list \<Rightarrow> nat" where
  "pushes ops = length (filter (\<lambda>op. case op of Push _ \<Rightarrow> True | _ \<Rightarrow> False) ops)"

lemma pushes_simps [simp]:
  "pushes [] = 0" "pushes (Push e # ops) = Suc (pushes ops)" "pushes (Pop # ops) = pushes ops"
  "pushes (Steal # ops) = pushes ops"
  by (simp_all add: pushes_def)

text \<open>
  What a client that is alone with a deque may rely on; \<open>holds q n xs\<close> says that \<open>q\<close> contains
  \<open>xs\<close> after \<open>n\<close> attempts to push, and \<open>limit\<close> bounds the attempts.
\<close>

locale bounded_deque =
  fixes holds :: "'q \<Rightarrow> nat \<Rightarrow> 'e list \<Rightarrow> bool"
    and push :: "'q \<Rightarrow> 'e \<Rightarrow> 'q \<times> bool"
    and pop steal :: "'q \<Rightarrow> 'q \<times> 'e"
    and room :: "'q \<Rightarrow> nat"
    and null :: 'e
    and limit :: nat
  assumes push_law: "holds q n xs \<Longrightarrow> Suc n < limit \<Longrightarrow>
      snd (push q e) = (length xs < room q) \<and> holds (fst (push q e)) (Suc n) (if length xs < room q then xs @ [e] else xs)"
    and pop_law: "holds q n xs \<Longrightarrow> n < limit \<Longrightarrow>
      holds (fst (pop q)) n (butlast xs) \<and> snd (pop q) = (if xs = [] then null else last xs)"
    and steal_law: "holds q n xs \<Longrightarrow> n < limit \<Longrightarrow>
      holds (fst (steal q)) n (tl xs) \<and> snd (steal q) = (if xs = [] then null else hd xs)"
    and room_law: "room (fst (push q e)) = room q" "room (fst (pop q)) = room q" "room (fst (steal q)) = room q"
begin

lemma run_refines_list:
  "holds q n xs \<Longrightarrow> n + pushes ops < limit \<Longrightarrow>
     snd (deque_run push pop steal q ops) = snd (deque_run (list_push (room q)) (list_pop null) (list_steal null) xs ops) \<and>
     holds (fst (deque_run push pop steal q ops)) (n + pushes ops)
       (fst (deque_run (list_push (room q)) (list_pop null) (list_steal null) xs ops))"
proof (induction ops arbitrary: q n xs)
  case Nil
  then show ?case by simp
next
  case (Cons op ops)
  show ?case
  proof (cases op)
    case (Push e)
    then show ?thesis
      using push_law [OF Cons.prems(1), of e] Cons.prems(2) Cons.IH [of "fst (push q e)" "Suc n"]
      by (auto simp: list_push_def room_law split_beta Let_def)
  next
    case Pop
    then show ?thesis
      using pop_law [OF Cons.prems(1)] Cons.prems(2) Cons.IH [of "fst (pop q)" n]
      by (auto simp: list_pop_def room_law split_beta Let_def)
  next
    case Steal
    then show ?thesis
      using steal_law [OF Cons.prems(1)] Cons.prems(2) Cons.IH [of "fst (steal q)" n]
      by (auto simp: list_steal_def room_law split_beta Let_def)
  qed
qed

end

definition dq_room :: "WSDeque \<Rightarrow> nat" where
  "dq_room q = unat (dq_size q) - 1"

lemma dq_room_less: "int l < uint (dq_size q) - 1 \<longleftrightarrow> l < dq_room q"
  unfolding dq_room_def uint_nat by linarith

lemma dq_size_kept:
  "dq_size (fst (pushWSDeque q e)) = dq_size q" "dq_size (fst (popWSDeque q)) = dq_size q"
  "dq_size (fst (stealWSDeque_once q)) = dq_size q"
  by (simp_all add: pushWSDeque_def popWSDeque_def stealWSDeque_once_def castop_def Let_def split_beta)

interpretation wsdeque: bounded_deque dq_holds pushWSDeque popWSDeque stealWSDeque_once dq_room 0 "2 ^ 63"
proof
  show "snd (pushWSDeque q e) = (length xs < dq_room q) \<and>
      dq_holds (fst (pushWSDeque q e)) (Suc n) (if length xs < dq_room q then xs @ [e] else xs)"
    if "dq_holds q n xs" "Suc n < 2 ^ 63" for q n xs e
    using push_holds [OF that] by (simp add: dq_room_less)
qed (use pop_holds steal_holds dq_size_kept in \<open>auto simp: dq_room_def\<close>)

section \<open>One owner and many thieves\<close>

text \<open>
  The operations cut where they access fields that other threads write or read: each step does
  at most one such access, in program order (the barriers of the code forbid the reorderings).
  An operation that has started keeps its local variables in its program counter.  \<open>topBound\<close>
  is private to the owner, and the owner's own reads of \<open>bottom\<close> and of the array are stable.
\<close>

datatype owner_pc =
    OwnerIdle
  | PopReadTop StgWord
  | PopEmpty StgWord
  | PopCas StgWord StgWord
  | PopFix StgWord StgWord
  | PushElem StgWord StgWord
  | PushBottom StgWord StgWord

datatype thief_pc =
    ThiefIdle
  | StealReadBottom StgWord
  | StealReadElem StgWord
  | StealCas StgWord StgWord

definition pop_start :: "WSDeque \<Rightarrow> WSDeque \<times> owner_pc" where
  "pop_start q = (let b = dq_bottom q - 1 in (q\<lparr>dq_bottom := b\<rparr>, PopReadTop b))"

definition push_start :: "WSDeque \<Rightarrow> StgWord \<Rightarrow> WSDeque \<times> owner_pc" where
  "push_start q elem =
     (let sz = moduloSize q; b = dq_bottom q; t = topBound q
      in if sint b - sint t \<ge> sint sz
         then let t = dq_top q; q1 = q\<lparr>topBound := t\<rparr>
           in if b - t \<ge> sz then (q1, OwnerIdle) else (q1, PushElem b elem)
         else (q, PushElem b elem))"

text \<open>The two lists are what a step adds to the elements pushed and to the elements handed out.\<close>

fun owner_step :: "WSDeque \<Rightarrow> owner_pc \<Rightarrow> WSDeque \<times> owner_pc \<times> StgWord list \<times> StgWord list" where
  "owner_step q OwnerIdle = (q, OwnerIdle, [], [])"
| "owner_step q (PopReadTop b) =
     (let t = dq_top q; q1 = q\<lparr>topBound := t\<rparr>; currSize = sint b - sint t
      in if currSize < 0 then (q1, PopEmpty t, [], [])
         else let removed = elements q1 (b AND moduloSize q1)
           in if currSize > 0 then (q1, OwnerIdle, [], [removed])
              else (q1, PopCas t removed, [], []))"
| "owner_step q (PopEmpty t) = (q\<lparr>dq_bottom := t\<rparr>, OwnerIdle, [], [])"
| "owner_step q (PopCas t removed) =
     (let (q1, won) = castop q t (t + 1)
      in if won then (q1, PopFix t removed, [], [removed]) else (q1, PopFix t 0, [], []))"
| "owner_step q (PopFix t removed) = (q\<lparr>dq_bottom := t + 1, topBound := t + 1\<rparr>, OwnerIdle, [], [])"
| "owner_step q (PushElem b elem) =
     (q\<lparr>elements := (elements q)(b AND moduloSize q := elem)\<rparr>, PushBottom b elem, [], [])"
| "owner_step q (PushBottom b elem) = (q\<lparr>dq_bottom := b + 1\<rparr>, OwnerIdle, [elem], [])"

fun thief_step :: "WSDeque \<Rightarrow> thief_pc \<Rightarrow> WSDeque \<times> thief_pc \<times> StgWord list" where
  "thief_step q ThiefIdle = (q, StealReadBottom (dq_top q), [])"
| "thief_step q (StealReadBottom t) =
     (if sint (dq_bottom q) - sint t \<le> 0 then (q, ThiefIdle, []) else (q, StealReadElem t, []))"
| "thief_step q (StealReadElem t) = (q, StealCas t (elements q (t AND moduloSize q)), [])"
| "thief_step q (StealCas t stolen) =
     (let (q1, won) = castop q t (t + 1) in (q1, ThiefIdle, if won then [stolen] else []))"

record DequeSystem =
  dq :: WSDeque
  owner :: owner_pc
  thief :: "nat \<Rightarrow> thief_pc"
  pushed :: "StgWord list"
  handed :: "StgWord list"

inductive ws_step :: "DequeSystem \<Rightarrow> DequeSystem \<Rightarrow> bool" where
  ws_pop: "owner s = OwnerIdle \<Longrightarrow> pop_start (dq s) = (q, pc) \<Longrightarrow> ws_step s (s\<lparr>dq := q, owner := pc\<rparr>)"
| ws_push: "owner s = OwnerIdle \<Longrightarrow> push_start (dq s) e = (q, pc) \<Longrightarrow> ws_step s (s\<lparr>dq := q, owner := pc\<rparr>)"
| ws_owner: "owner_step (dq s) (owner s) = (q, pc, pu, ha) \<Longrightarrow>
    ws_step s (s\<lparr>dq := q, owner := pc, pushed := pushed s @ pu, handed := handed s @ ha\<rparr>)"
| ws_thief: "thief_step (dq s) (thief s i) = (q, pc, ha) \<Longrightarrow>
    ws_step s (s\<lparr>dq := q, thief := (thief s)(i := pc), handed := handed s @ ha\<rparr>)"

definition ws_init :: "WSDeque \<Rightarrow> DequeSystem" where
  "ws_init q = \<lparr>dq = q, owner = OwnerIdle, thief = (\<lambda>_. ThiefIdle), pushed = [], handed = []\<rparr>"

inductive_cases ws_stepE: "ws_step s s'"

subsection \<open>The invariant\<close>

text \<open>
  \<open>Bl\<close> is the logical bottom: between the decrement of \<open>bottom\<close> and the moment a pop is decided
  it is one more than the field.  A thief that read \<open>top\<close> as it still is knows that the deque
  is not empty, whatever it read later.
\<close>

fun owner_ok :: "WSDeque \<Rightarrow> nat \<Rightarrow> int \<Rightarrow> int \<Rightarrow> int \<Rightarrow> owner_pc \<Rightarrow> bool" where
  "owner_ok q k T B Bl OwnerIdle \<longleftrightarrow> B = Bl"
| "owner_ok q k T B Bl (PopReadTop b) \<longleftrightarrow> B = Bl - 1 \<and> b = idx B"
| "owner_ok q k T B Bl (PopEmpty t) \<longleftrightarrow> B = Bl - 1 \<and> T = Bl \<and> t = idx Bl"
| "owner_ok q k T B Bl (PopCas t removed) \<longleftrightarrow> B = Bl - 1 \<and> B \<le> T \<and> 0 \<le> B \<and> t = idx B \<and> removed = elements q (slot q B)"
| "owner_ok q k T B Bl (PopFix t removed) \<longleftrightarrow> B = Bl - 1 \<and> T = Bl \<and> 0 \<le> B \<and> t = idx B"
| "owner_ok q k T B Bl (PushElem b e) \<longleftrightarrow> B = Bl \<and> b = idx B \<and> Bl - T < 2 ^ k - 1"
| "owner_ok q k T B Bl (PushBottom b e) \<longleftrightarrow> B = Bl \<and> b = idx B \<and> Bl - T < 2 ^ k - 1 \<and> elements q (slot q B) = e"

fun thief_ok :: "WSDeque \<Rightarrow> int \<Rightarrow> int \<Rightarrow> thief_pc \<Rightarrow> bool" where
  "thief_ok q T Bl ThiefIdle \<longleftrightarrow> True"
| "thief_ok q T Bl (StealReadBottom t) \<longleftrightarrow> (\<exists>T'. t = idx T' \<and> 0 \<le> T' \<and> T' \<le> T)"
| "thief_ok q T Bl (StealReadElem t) \<longleftrightarrow> (\<exists>T'. t = idx T' \<and> 0 \<le> T' \<and> T' \<le> T \<and> (T' = T \<longrightarrow> T < Bl))"
| "thief_ok q T Bl (StealCas t stolen) \<longleftrightarrow> (\<exists>T'. t = idx T' \<and> 0 \<le> T' \<and> T' \<le> T
     \<and> (T' = T \<longrightarrow> T < Bl \<and> stolen = elements q (slot q T)))"

definition ws_rep :: "DequeSystem \<Rightarrow> nat \<Rightarrow> int \<Rightarrow> int \<Rightarrow> int \<Rightarrow> int \<Rightarrow> bool" where
  "ws_rep s k T B Bl tb \<longleftrightarrow> dq_rep (dq s) k T B tb \<and> T \<le> Bl \<and> Bl - T \<le> 2 ^ k - 1 \<and> Bl \<le> int (length (pushed s))
     \<and> owner_ok (dq s) k T B Bl (owner s) \<and> (\<forall>i. thief_ok (dq s) T Bl (thief s i))
     \<and> mset (pushed s) = mset (handed s) + mset (seg (dq s) T Bl)"

lemma thief_ok_mono:
  assumes "thief_ok q T Bl pc" "T \<le> T2" "T2 = T \<and> T < Bl \<longrightarrow> T < Bl2 \<and> elements q2 (slot q2 T) = elements q (slot q T)"
  shows "thief_ok q2 T2 Bl2 pc"
  using assms by (cases pc) (force | auto)+

lemma owner_ok_below: "owner_ok q k T B Bl pc \<Longrightarrow> B \<le> Bl"
  by (cases pc) auto

lemma ws_repD:
  assumes "ws_rep s k T B Bl tb" "length (pushed s) < 2 ^ 63"
  shows "dq_rep (dq s) k T B tb" "T \<le> Bl" "Bl - T \<le> 2 ^ k - 1" "owner_ok (dq s) k T B Bl (owner s)" "B \<le> Bl"
    "\<And>i. thief_ok (dq s) T Bl (thief s i)" "mset (pushed s) = mset (handed s) + mset (seg (dq s) T Bl)"
    "small T" "small Bl" "0 \<le> T" "Bl \<le> int (length (pushed s))"
  using assms dq_repD [of "dq s" k T B tb] owner_ok_below [of "dq s" k T B Bl "owner s"]
  by (auto simp: ws_rep_def small_def)

text \<open>Steps that leave \<open>top\<close>, the logical bottom and the elements alone.\<close>

lemma ws_rep_quiet:
  assumes rep: "ws_rep s k T B Bl tb" and q: "dq_rep q k T B' tb'" "elements q = elements (dq s)"
    and pc: "owner_ok q k T B' Bl pc"
  shows "ws_rep (s\<lparr>dq := q, owner := pc\<rparr>) k T B' Bl tb'"
proof -
  have m: "moduloSize q = moduloSize (dq s)" using rep q by (simp add: ws_rep_def dq_rep_def)
  have "thief_ok q T Bl (thief s i)" for i
    by (rule thief_ok_mono [of "dq s" T Bl]) (use rep q m in \<open>auto simp: ws_rep_def slot_def\<close>)
  then show ?thesis using rep q pc m seg_cong [of q "dq s"] by (simp add: ws_rep_def)
qed

lemma pop_start_rep:
  assumes rep: "ws_rep s k T B Bl tb" and idle: "owner s = OwnerIdle" and st: "pop_start (dq s) = (q, pc)"
  shows "\<exists>B' tb'. ws_rep (s\<lparr>dq := q, owner := pc\<rparr>) k T B' Bl tb'"
proof -
  from rep idle have r: "dq_rep (dq s) k T B tb" and B: "B = Bl" by (auto simp: ws_rep_def)
  have q: "q = (dq s)\<lparr>dq_bottom := idx (B - 1)\<rparr>" "pc = PopReadTop (idx (B - 1))"
    using st dq_repD(5) [OF r] by (auto simp: pop_start_def Let_def)
  have "ws_rep (s\<lparr>dq := q, owner := pc\<rparr>) k T (B - 1) Bl tb"
    using r B by (intro ws_rep_quiet [OF rep]) (auto simp: q dq_rep_def)
  then show ?thesis by blast
qed

lemma push_start_rep:
  assumes rep: "ws_rep s k T B Bl tb" and n: "length (pushed s) < 2 ^ 63"
    and idle: "owner s = OwnerIdle" and st: "push_start (dq s) e = (q, pc)"
  shows "\<exists>B' tb'. ws_rep (s\<lparr>dq := q, owner := pc\<rparr>) k T B' Bl tb'"
proof -
  note d = ws_repD [OF rep n]
  note r = dq_repD [OF d(1)]
  have B: "B = Bl" using d(4) idle by simp
  have ss: "sint (idx B) = B" "sint (idx tb) = tb" "uint (idx (B - T)) = B - T"
    using d r B by (auto intro!: sint_idx uint_idx simp: small_def)
  have full: "moduloSize (dq s) \<le> dq_bottom (dq s) - dq_top (dq s) \<longleftrightarrow> 2 ^ k - 1 \<le> B - T"
    using r ss by (simp add: word_le_def uint_mask)
  show ?thesis
  proof (cases "sint (dq_bottom (dq s)) - sint (topBound (dq s)) \<ge> sint (moduloSize (dq s))")
    case True
    then have q: "q = (dq s)\<lparr>topBound := idx T\<rparr>"
      "pc = (if 2 ^ k - 1 \<le> B - T then OwnerIdle else PushElem (idx B) e)"
      using st full r by (auto simp: push_start_def Let_def split: if_splits)
    have "ws_rep (s\<lparr>dq := q, owner := pc\<rparr>) k T B Bl T"
      using d r B by (intro ws_rep_quiet [OF rep]) (auto simp: q dq_rep_def)
    then show ?thesis by blast
  next
    case False
    then have q: "q = dq s" "pc = PushElem (idx B) e"
      using st r by (auto simp: push_start_def Let_def split: if_splits)
    have "B - tb < 2 ^ k - 1" using False r ss by (simp add: sint_mask)
    then have "ws_rep (s\<lparr>dq := q, owner := pc\<rparr>) k T B Bl tb"
      using d r B by (intro ws_rep_quiet [OF rep]) (auto simp: q)
    then show ?thesis by blast
  qed
qed

lemma pop_read_rep:
  assumes rep: "ws_rep s k T B Bl tb" and n: "length (pushed s) < 2 ^ 63"
    and pc0: "owner s = PopReadTop b" and st: "owner_step (dq s) (owner s) = (q, pc, pu, ha)"
  shows "\<exists>B' Bl' tb'. ws_rep (s\<lparr>dq := q, owner := pc, pushed := pushed s @ pu, handed := handed s @ ha\<rparr>) k T B' Bl' tb'"
proof -
  note d = ws_repD [OF rep n]
  note r = dq_repD [OF d(1)]
  have B: "B = Bl - 1" "b = idx B" using d(4) pc0 by auto
  have ss: "sint (idx B) = B" "sint (idx T) = T"
    using d r B by (auto intro!: sint_idx simp: small_def)
  let ?q = "(dq s)\<lparr>topBound := idx T\<rparr>"
  have quiet: "ws_rep (s\<lparr>dq := ?q, owner := pc\<rparr>) k T B Bl T" if "owner_ok ?q k T B Bl pc"
    using that d r by (intro ws_rep_quiet [OF rep]) (auto simp: dq_rep_def)
  consider "B < T" | "B = T" | "T < B" by linarith
  then show ?thesis
  proof cases
    case 1
    then have q: "q = ?q" "pc = PopEmpty (idx T)" "pu = []" "ha = []"
      using st pc0 r B ss by (auto simp: Let_def)
    have "ws_rep (s\<lparr>dq := ?q, owner := pc\<rparr>) k T B Bl T" proof (rule quiet)
      have "T = Bl" using 1 B d(2) by simp
      then show "owner_ok ?q k T B Bl pc" using B by (simp add: q)
    qed
    then show ?thesis by (auto simp: q intro!: exI)
  next
    case 2
    then have q: "q = ?q" "pc = PopCas (idx T) (elements (dq s) (slot (dq s) B))" "pu = []" "ha = []"
      using st pc0 r B ss by (auto simp: Let_def slot_def)
    have "ws_rep (s\<lparr>dq := ?q, owner := pc\<rparr>) k T B Bl T" using 2 B d by (intro quiet) (auto simp: q slot_def)
    then show ?thesis by (auto simp: q intro!: exI)
  next
    case 3
    then have q: "q = ?q" "pc = OwnerIdle" "pu = []" "ha = [elements (dq s) (slot (dq s) B)]"
      using st pc0 r B ss by (auto simp: Let_def slot_def)
    have sg: "seg ?q = seg (dq s)" by (rule seg_cong) simp_all
    have "seg (dq s) T Bl = seg (dq s) T B @ [elements (dq s) (slot (dq s) B)]"
      using seg_last [of T Bl "dq s"] 3 B by simp
    then have "mset (pushed s) = mset (handed s @ ha) + mset (seg ?q T B)"
      using d(7) by (simp add: q sg)
    moreover have "thief_ok ?q T B (thief s i)" for i
      by (rule thief_ok_mono [OF d(6)]) (use 3 in \<open>auto simp: slot_def\<close>)
    moreover have "dq_rep ?q k T B T" using d(1) r by (simp add: dq_rep_def)
    ultimately have "ws_rep (s\<lparr>dq := q, owner := pc, pushed := pushed s @ pu, handed := handed s @ ha\<rparr>) k T B B T"
      using d 3 B by (simp add: ws_rep_def q)
    then show ?thesis by blast
  qed
qed

lemma pop_cas_rep:
  assumes rep: "ws_rep s k T B Bl tb" and n: "length (pushed s) < 2 ^ 63"
    and pc0: "owner s = PopCas t removed" and st: "owner_step (dq s) (owner s) = (q, pc, pu, ha)"
  shows "\<exists>T' B' Bl' tb'. ws_rep (s\<lparr>dq := q, owner := pc, pushed := pushed s @ pu, handed := handed s @ ha\<rparr>) k T' B' Bl' tb'"
proof -
  note d = ws_repD [OF rep n]
  note r = dq_repD [OF d(1)]
  have B: "B = Bl - 1" "B \<le> T" "t = idx B" "0 \<le> B" and rm: "removed = elements (dq s) (slot (dq s) B)" using d(4) pc0 by auto
  have won: "dq_top (dq s) = t \<longleftrightarrow> T = B"
    using r B d by (subst B(3), subst r(4), subst idx_inj) (auto simp: small_def)
  show ?thesis
  proof (cases "T = B")
    case True
    let ?q = "(dq s)\<lparr>dq_top := idx Bl\<rparr>"
    have q: "q = ?q" "pc = PopFix t removed" "pu = []" "ha = [removed]"
      using st pc0 won True B by (auto simp: castop_def)
    have sg: "seg ?q = seg (dq s)" by (rule seg_cong) simp_all
    have "seg (dq s) T Bl = [removed]" using seg_first [of T Bl "dq s"] True B rm by simp
    then have "mset (pushed s) = mset (handed s @ ha) + mset (seg ?q Bl Bl)" using d(7) by (simp add: q sg)
    moreover have "thief_ok ?q Bl Bl (thief s i)" for i
      by (rule thief_ok_mono [OF d(6)]) (use True B in auto)
    moreover have "dq_rep ?q k Bl B tb" using d(1) r True B by (simp add: dq_rep_def)
    ultimately have "ws_rep (s\<lparr>dq := q, owner := pc, pushed := pushed s @ pu, handed := handed s @ ha\<rparr>) k Bl B Bl tb"
      using d B by (simp add: ws_rep_def q)
    then show ?thesis by blast
  next
    case False
    then have q: "q = dq s" "pc = PopFix t 0" "pu = []" "ha = []" using st pc0 won by (auto simp: castop_def)
    have "T = Bl" using False B d(2) by simp
    then have "ws_rep (s\<lparr>dq := dq s, owner := pc\<rparr>) k T B Bl tb"
      using B by (intro ws_rep_quiet [OF rep d(1)]) (auto simp: q)
    then show ?thesis by (auto simp: q intro!: exI)
  qed
qed

lemma pop_end_rep:
  assumes rep: "ws_rep s k T B Bl tb" and pc0: "owner s = PopEmpty t \<or> owner s = PopFix t removed"
    and st: "owner_step (dq s) (owner s) = (q, pc, pu, ha)"
  shows "\<exists>B' tb'. ws_rep (s\<lparr>dq := q, owner := pc, pushed := pushed s @ pu, handed := handed s @ ha\<rparr>) k T B' Bl tb'"
proof -
  have r: "dq_rep (dq s) k T B tb" and T: "T = Bl" using rep pc0 by (auto simp: ws_rep_def)
  have q: "dq_rep q k T T (if \<exists>t. owner s = PopEmpty t then tb else T)" "elements q = elements (dq s)" "pc = OwnerIdle" "pu = []" "ha = []"
    using st pc0 rep T by (auto simp: ws_rep_def dq_rep_def)
  have "ws_rep (s\<lparr>dq := q, owner := pc\<rparr>) k T T Bl (if \<exists>t. owner s = PopEmpty t then tb else T)"
    using T by (intro ws_rep_quiet [OF rep q(1,2)]) (simp add: q)
  then show ?thesis unfolding q append_Nil2 by (intro exI) simp
qed

lemma push_elem_rep:
  assumes rep: "ws_rep s k T B Bl tb" and pc0: "owner s = PushElem b e"
    and st: "owner_step (dq s) (owner s) = (q, pc, pu, ha)"
  shows "ws_rep (s\<lparr>dq := q, owner := pc, pushed := pushed s @ pu, handed := handed s @ ha\<rparr>) k T B Bl tb"
proof -
  from rep pc0 have r: "dq_rep (dq s) k T B tb" and B: "B = Bl" "b = idx B" "Bl - T < 2 ^ k - 1"
    by (auto simp: ws_rep_def)
  have q: "q = (dq s)\<lparr>elements := (elements (dq s))(slot (dq s) B := e)\<rparr>" "pc = PushBottom b e" "pu = []" "ha = []"
    using st pc0 B by (auto simp: slot_def)
  have sg: "seg q T Bl = seg (dq s) T Bl"
    using seg_write [of "dq s" k Bl T q e] q(1) B dq_repD(2,3) [OF r] by simp
  have "slot (dq s) T \<noteq> slot (dq s) B" if "T < Bl"
    using slot_inj [of "dq s" k T B] dq_repD(2,3) [OF r] B that by auto
  then have keep: "T < Bl \<Longrightarrow> elements q (slot q T) = elements (dq s) (slot (dq s) T)"
    by (simp add: q(1) slot_def)
  have "thief_ok (dq s) T Bl (thief s i)" for i using rep by (simp add: ws_rep_def)
  then have "thief_ok q T Bl (thief s i)" for i
    by (rule thief_ok_mono) (use keep in auto)
  moreover have "dq_rep q k T B tb" using r by (simp add: dq_rep_def q)
  moreover have "owner_ok q k T B Bl pc" using B by (simp add: q slot_def)
  ultimately show ?thesis using rep sg by (simp add: ws_rep_def q(3,4))
qed

lemma push_bottom_rep:
  assumes rep: "ws_rep s k T B Bl tb" and pc0: "owner s = PushBottom b e"
    and st: "owner_step (dq s) (owner s) = (q, pc, pu, ha)"
  shows "ws_rep (s\<lparr>dq := q, owner := pc, pushed := pushed s @ pu, handed := handed s @ ha\<rparr>) k T (B + 1) (Bl + 1) tb"
proof -
  from rep pc0 have r: "dq_rep (dq s) k T B tb" and T: "T \<le> Bl"
    and B: "B = Bl" "b = idx B" "Bl - T < 2 ^ k - 1" "elements (dq s) (slot (dq s) B) = e"
    by (auto simp: ws_rep_def)
  have q: "q = (dq s)\<lparr>dq_bottom := idx (B + 1)\<rparr>" "pc = OwnerIdle" "pu = [e]" "ha = []"
    using st pc0 B by auto
  have sg: "seg q = seg (dq s)" by (rule seg_cong) (simp_all add: q)
  have "seg q T (Bl + 1) = seg (dq s) T Bl @ [e]" using seg_last [of T "Bl + 1" "dq s"] T B sg by simp
  moreover have th: "thief_ok (dq s) T Bl (thief s i)" for i using rep by (simp add: ws_rep_def)
  have "thief_ok q T (Bl + 1) (thief s i)" for i
    by (rule thief_ok_mono [OF th]) (auto simp: q(1) slot_def)
  moreover have "dq_rep q k T (B + 1) tb" using r by (simp add: dq_rep_def q)
  ultimately show ?thesis using rep B by (simp add: ws_rep_def q(2-4))
qed

lemma owner_step_rep:
  assumes rep: "ws_rep s k T B Bl tb" and n: "length (pushed s) < 2 ^ 63"
    and st: "owner_step (dq s) (owner s) = (q, pc, pu, ha)"
  shows "\<exists>T' B' Bl' tb'. ws_rep (s\<lparr>dq := q, owner := pc, pushed := pushed s @ pu, handed := handed s @ ha\<rparr>) k T' B' Bl' tb'"
proof (cases "owner s")
  case OwnerIdle
  then have "s\<lparr>dq := q, owner := pc, pushed := pushed s @ pu, handed := handed s @ ha\<rparr> = s" using st by (cases s) auto
  then show ?thesis using rep by metis
next
  case (PopReadTop b)
  from pop_read_rep [OF rep n this st] show ?thesis by blast
next
  case (PopEmpty t)
  with pop_end_rep [OF rep _ st] show ?thesis by blast
next
  case (PopCas t removed)
  from pop_cas_rep [OF rep n this st] show ?thesis by blast
next
  case (PopFix t removed)
  with pop_end_rep [OF rep _ st] show ?thesis by blast
next
  case (PushElem b e)
  from push_elem_rep [OF rep this st] show ?thesis by blast
next
  case (PushBottom b e)
  from push_bottom_rep [OF rep this st] show ?thesis by blast
qed

lemma thief_step_rep:
  assumes rep: "ws_rep s k T B Bl tb" and n: "length (pushed s) < 2 ^ 63"
    and st: "thief_step (dq s) (thief s i) = (q, pc, ha)"
  shows "\<exists>T'. ws_rep (s\<lparr>dq := q, thief := (thief s)(i := pc), handed := handed s @ ha\<rparr>) k T' B Bl tb"
proof -
  note d = ws_repD [OF rep n]
  note r = dq_repD [OF d(1)]
  have quiet: "ws_rep (s\<lparr>dq := dq s, thief := (thief s)(i := pc), handed := handed s @ []\<rparr>) k T B Bl tb"
    if "thief_ok (dq s) T Bl pc" using rep that by (simp add: ws_rep_def)
  show ?thesis
  proof (cases "thief s i")
    case ThiefIdle
    then have q: "q = dq s" "pc = StealReadBottom (idx T)" "ha = []" using st r by auto
    show ?thesis unfolding q(1,3) by (rule exI, rule quiet) (use d q in auto)
  next
    case (StealReadBottom t)
    then obtain T' where T': "t = idx T'" "0 \<le> T'" "T' \<le> T" using d(6) [of i] by auto
    have ss: "sint (idx T') = T'" using T' d(8) by (auto intro!: sint_idx simp: small_def)
    have "small B" using d(4,5,8,9,10) r(8) d(2)
      by (cases "owner s") (auto simp: small_def)
    then have sb: "sint (idx B) = B" by (rule sint_idx)
    have q: "q = dq s" "ha = []" "pc = (if B - T' \<le> 0 then ThiefIdle else StealReadElem t)"
      using st StealReadBottom r T'(1) ss sb by (auto split: if_splits)
    show ?thesis unfolding q(1,2) by (rule exI, rule quiet) (use T' d(5) q(3) in auto)
  next
    case (StealReadElem t)
    then obtain T' where T': "t = idx T'" "0 \<le> T'" "T' \<le> T" "T' = T \<longrightarrow> T < Bl" using d(6) [of i] by auto
    have q: "q = dq s" "ha = []" "pc = StealCas t (elements (dq s) (slot (dq s) T'))"
      using st StealReadElem T'(1) by (auto simp: slot_def)
    show ?thesis unfolding q(1,2) by (rule exI, rule quiet) (use T' q(3) in auto)
  next
    case (StealCas t stolen)
    then obtain T' where T': "t = idx T'" "0 \<le> T'" "T' \<le> T"
      "T' = T \<longrightarrow> T < Bl \<and> stolen = elements (dq s) (slot (dq s) T)" using d(6) [of i] by auto
    have won: "dq_top (dq s) = t \<longleftrightarrow> T' = T"
      unfolding r(4) T'(1) using T' d(8) by (subst idx_inj) (auto simp: small_def)
    show ?thesis
    proof (cases "T' = T")
      case True
      let ?q = "(dq s)\<lparr>dq_top := idx (T + 1)\<rparr>"
      have q: "q = ?q" "pc = ThiefIdle" "ha = [stolen]"
        using st StealCas won True T'(1) by (auto simp: castop_def)
      have lt: "T < Bl" and sto: "stolen = elements (dq s) (slot (dq s) T)" using T'(4) True by auto
      have sg: "seg ?q = seg (dq s)" by (rule seg_cong) simp_all
      have "mset (pushed s) = mset (handed s @ ha) + mset (seg ?q (T + 1) Bl)"
        using d(7) seg_first [OF lt, of "dq s"] sto by (simp add: q sg)
      moreover have th: "thief_ok ?q (T + 1) Bl (thief s j)" for j
        by (rule thief_ok_mono [OF d(6)]) auto
      then have "thief_ok ?q (T + 1) Bl (((thief s)(i := pc)) j)" for j by (simp add: q)
      moreover have "dq_rep ?q k (T + 1) B tb" using d(1) by (simp add: dq_rep_def)
      moreover have "owner_ok ?q k (T + 1) B Bl (owner s)"
        using d(4) lt by (cases "owner s") (auto simp: slot_def)
      ultimately have "ws_rep (s\<lparr>dq := q, thief := (thief s)(i := pc), handed := handed s @ ha\<rparr>) k (T + 1) B Bl tb"
        using d lt unfolding ws_rep_def q(1) by simp
      then show ?thesis by blast
    next
      case False
      then have q: "q = dq s" "pc = ThiefIdle" "ha = []" using st StealCas won by (auto simp: castop_def)
      show ?thesis unfolding q(1,3) by (rule exI, rule quiet) (simp add: q)
    qed
  qed
qed

lemma ws_step_pushed: "ws_step s s' \<Longrightarrow> length (pushed s) \<le> length (pushed s')"
  by (auto elim!: ws_stepE)

lemma ws_step_rep:
  assumes "ws_step s s'" "ws_rep s k T B Bl tb" "length (pushed s) < 2 ^ 63"
  shows "\<exists>T' B' Bl' tb'. ws_rep s' k T' B' Bl' tb'"
  using assms(1)
proof (cases rule: ws_step.cases)
  case (ws_pop q pc)
  with pop_start_rep [OF assms(2)] show ?thesis by blast
next
  case (ws_push e q pc)
  with push_start_rep [OF assms(2,3)] show ?thesis by blast
next
  case (ws_owner q pc pu ha)
  with owner_step_rep [OF assms(2,3)] show ?thesis by blast
next
  case (ws_thief i q pc ha)
  with thief_step_rep [OF assms(2,3)] show ?thesis by blast
qed

lemma ws_reach_rep:
  assumes "ws_step\<^sup>*\<^sup>* s0 s" "ws_rep s0 k T B Bl tb" "length (pushed s) < 2 ^ 63"
  shows "\<exists>T' B' Bl' tb'. ws_rep s k T' B' Bl' tb'"
  using assms
proof (induction rule: rtranclp_induct)
  case base
  then show ?case by blast
next
  case (step y z)
  then have "length (pushed y) < 2 ^ 63" using ws_step_pushed by fastforce
  with step ws_step_rep show ?case by blast
qed

lemma new_ws_rep:
  assumes "newWSDeque sz space = Some q"
  shows "\<exists>k. ws_rep (ws_init q) k 0 0 0 0"
proof -
  have "sz \<noteq> 0" using assms by (auto simp: newWSDeque_def roundUp2_def)
  with new_holds [of sz space] assms have "dq_holds q 0 []" by auto
  then obtain k T B tb where r: "dq_rep q k T B tb" and b: "T \<le> B" "B \<le> 0"
    by (auto simp: dq_holds_def)
  from dq_repD [OF r] b have "tb = 0" "T = 0" "B = 0" by linarith+
  with r have "dq_rep q k 0 0 0" by simp
  then have "ws_rep (ws_init q) k 0 0 0 0" by (simp add: ws_rep_def ws_init_def)
  then show ?thesis ..
qed

section \<open>Properties\<close>

text \<open>
  Claim C3.  No spark is lost, duplicated or invented, in any interleaving of the owner's pushes
  and pops with the steals of any number of thieves on a new deque (for the first \<open>2 ^ 63\<close>
  pushes): what has been handed out is a sub-multiset of what was pushed; whenever the owner is
  between operations, the rest is exactly what lies between \<open>top\<close> and \<open>bottom\<close>; and the
  debugging invariant \<open>topBound \<le> top\<close> holds throughout.
\<close>

theorem ws_conservation:
  assumes "newWSDeque sz space = Some q" "ws_step\<^sup>*\<^sup>* (ws_init q) s" "length (pushed s) < 2 ^ 63"
  shows "mset (handed s) \<subseteq># mset (pushed s) \<and> topBound (dq s) \<le> dq_top (dq s)
     \<and> (owner s = OwnerIdle \<longrightarrow>
          mset (pushed s) = mset (handed s) + mset (seg (dq s) (sint (dq_top (dq s))) (sint (dq_bottom (dq s)))))"
proof -
  from new_ws_rep [OF assms(1)] obtain k where "ws_rep (ws_init q) k 0 0 0 0" by blast
  with ws_reach_rep [OF assms(2) _ assms(3)] obtain T B Bl tb where rep: "ws_rep s k T B Bl tb" by blast
  note d = ws_repD [OF rep assms(3)]
  note r = dq_repD [OF d(1)]
  have "topBound (dq s) \<le> dq_top (dq s)"
    using r d(8) by (simp add: word_le_def uint_idx small_def)
  moreover have "sint (dq_top (dq s)) = T" using r(4) d(8) by (simp add: sint_idx)
  moreover have "sint (dq_bottom (dq s)) = Bl" if "owner s = OwnerIdle"
    using r(5) d(4,9) that by (simp add: sint_idx)
  ultimately show ?thesis using d(7) by simp
qed

theorem ws_conservation_witness:
  "\<exists>s q. newWSDeque 4 (\<lambda>_. 0) = Some q \<and> ws_step\<^sup>*\<^sup>* (ws_init q) s \<and> owner s = PopReadTop (- 1)
     \<and> mset (handed s) \<subseteq># mset (pushed s)"
proof -
  from new_holds [of 4 "\<lambda>_. 0"] obtain q where q: "newWSDeque 4 (\<lambda>_. 0) = Some q" by auto
  have b: "dq_bottom q = 0" using q by (auto simp: newWSDeque_def bind_Some_iff)
  let ?s = "(ws_init q)\<lparr>dq := q\<lparr>dq_bottom := - 1\<rparr>, owner := PopReadTop (- 1)\<rparr>"
  have "ws_step (ws_init q) ?s"
    by (rule ws_pop) (simp_all add: ws_init_def pop_start_def b Let_def)
  then have st: "ws_step\<^sup>*\<^sup>* (ws_init q) ?s" by blast
  have "length (pushed ?s) < 2 ^ 63" by (simp add: ws_init_def)
  from ws_conservation [OF q st this] have "mset (handed ?s) \<subseteq># mset (pushed ?s)" by blast
  moreover have "owner ?s = PopReadTop (- 1)" by simp
  ultimately show ?thesis using q st by blast
qed

text \<open>
  Claim C27.  A deque used by one thread is a bounded double-ended queue.  Every sequence of pushes, pops and steals on a
  new deque (with fewer than \<open>2 ^ 63\<close> pushes) gives the answers that it gives on a list with one place
  less than the deque has slots: a pop takes the last element, a steal takes the first, both
  answer \<open>NULL\<close> when there is none, and a push is refused exactly when the deque is full.  At the end the deque
  contains what the list contains.
\<close>

theorem wsdeque_order:
  assumes "newWSDeque sz space = Some q" "pushes ops < 2 ^ 63"
    and "cap = unat (dq_size q) - 1"
  shows "snd (deque_run pushWSDeque popWSDeque stealWSDeque_once q ops) =
       snd (deque_run (list_push cap) (list_pop 0) (list_steal 0) [] ops)
     \<and> dq_holds (fst (deque_run pushWSDeque popWSDeque stealWSDeque_once q ops)) (pushes ops)
         (fst (deque_run (list_push cap) (list_pop 0) (list_steal 0) [] ops))"
proof -
  have sz: "sz \<noteq> 0" using assms(1) by (auto simp: newWSDeque_def roundUp2_def)
  from new_holds [OF sz, of space] assms(1) have "dq_holds q 0 []" by auto
  from wsdeque.run_refines_list [OF this] assms(2,3) show ?thesis by (simp add: dq_room_def)
qed

theorem wsdeque_order_witness:
  "\<exists>q. newWSDeque 4 (\<lambda>_. 0) = Some q \<and>
     snd (deque_run pushWSDeque popWSDeque stealWSDeque_once q [Push 7, Push 8, Push 9, Pop, Steal, Pop, Pop]) =
       [Accepted True, Accepted True, Accepted True, Taken 9, Taken 7, Taken 8, Taken 0]"
proof -
  from new_holds [of 4 "\<lambda>_. 0"] obtain q where q: "newWSDeque 4 (\<lambda>_. 0) = Some q" "4 < uint (dq_size q)" by auto
  then have "2 < unat (dq_size q) - 1" unfolding uint_nat by linarith
  then show ?thesis
    using q(1) wsdeque_order [OF q(1), of "[Push 7, Push 8, Push 9, Pop, Steal, Pop, Pop]", OF _ refl]
    by (auto simp: list_push_def list_pop_def list_steal_def)
qed

text \<open>
  A new deque of any nonzero requested size has a power of two of slots, more than
  requested and at most twice as many, and is empty; a request for size zero is refused.
\<close>

theorem new_deque_capacity:
  "if sz = 0 then newWSDeque sz space = None
   else \<exists>q. newWSDeque sz space = Some q \<and> dq_holds q 0 [] \<and> looksEmptyWSDeque q
          \<and> uint sz < uint (dq_size q) \<and> uint (dq_size q) \<le> 2 * uint sz"
proof (cases "sz = 0")
  case True
  then show ?thesis by (simp add: newWSDeque_def roundUp2_def)
next
  case False
  from new_holds [OF this, of space] obtain q where q: "newWSDeque sz space = Some q" "dq_holds q 0 []"
    "uint sz < uint (dq_size q)" "uint (dq_size q) \<le> 2 * uint sz" by blast
  from looks_empty_holds(2) [OF q(2)] q False show ?thesis by simp
qed

definition owner_run :: "WSDeque \<times> owner_pc \<Rightarrow> WSDeque \<times> owner_pc" where
  "owner_run qp = (let (q, pc, pu, ha) = owner_step (fst qp) (snd qp) in (q, pc))"

definition thief_run :: "WSDeque \<times> thief_pc \<Rightarrow> WSDeque \<times> thief_pc" where
  "thief_run qp =
     (if snd qp = ThiefIdle then qp else let (q, pc, ha) = thief_step (fst qp) (snd qp) in (q, pc))"

text \<open>
  The steps compose to the operations: with nobody interfering, the owner's steps
  from the start of a pop end idle with the deque \<open>popWSDeque\<close> computes, a push likewise, and
  the steps of a thief from its first read are one call of \<open>stealWSDeque_\<close>.
\<close>

theorem ws_steps_compose:
  "(owner_run ^^ 3) (pop_start q) = (fst (popWSDeque q), OwnerIdle)
   \<and> (owner_run ^^ 2) (push_start q e) = (fst (pushWSDeque q e), OwnerIdle)
   \<and> (thief_run ^^ 3) (q, StealReadBottom (dq_top q)) = (fst (stealWSDeque_once q), ThiefIdle)"
proof (intro conjI)
  show "(owner_run ^^ 3) (pop_start q) = (fst (popWSDeque q), OwnerIdle)"
    by (simp add: numeral_3_eq_3 owner_run_def pop_start_def popWSDeque_def castop_def Let_def split_beta)
  show "(owner_run ^^ 2) (push_start q e) = (fst (pushWSDeque q e), OwnerIdle)"
    by (simp add: numeral_2_eq_2 owner_run_def push_start_def pushWSDeque_def Let_def split_beta)
  show "(thief_run ^^ 3) (q, StealReadBottom (dq_top q)) = (fst (stealWSDeque_once q), ThiefIdle)"
    by (simp add: numeral_3_eq_3 thief_run_def stealWSDeque_once_def castop_def Let_def split_beta)
qed

end
