(* ===== verification/Closures.thy ===== *)
theory Closures
  imports Prelude
begin

text \<open>
  Heap objects as the runtime classifies them: the closure types of
  \<open>includes/rts/storage/ClosureTypes.h\<close>, their flags from \<open>rts/ClosureFlags.c\<close>, and the
  pointer tags and forwarding pointers of \<open>includes/rts/storage/ClosureMacros.h\<close> on a 64-bit
  machine, where the three low bits of a pointer to a closure carry the tag.
\<close>

section \<open>Closure types and flags\<close>

datatype (plugins only: size) ClosureType =
    INVALID_OBJECT | CONSTR | CONSTR_1_0 | CONSTR_0_1 | CONSTR_2_0 | CONSTR_1_1
  | CONSTR_0_2 | CONSTR_STATIC | CONSTR_NOCAF_STATIC | FUN | FUN_1_0 | FUN_0_1
  | FUN_2_0 | FUN_1_1 | FUN_0_2 | FUN_STATIC | THUNK | THUNK_1_0
  | THUNK_0_1 | THUNK_2_0 | THUNK_1_1 | THUNK_0_2 | THUNK_STATIC | THUNK_SELECTOR
  | BCO | AP | PAP | AP_STACK | IND | IND_PERM
  | IND_STATIC | RET_BCO | RET_SMALL | RET_BIG | RET_DYN | RET_FUN
  | UPDATE_FRAME | CATCH_FRAME | UNDERFLOW_FRAME | STOP_FRAME | BLOCKING_QUEUE | BLACKHOLE
  | MVAR_CLEAN | MVAR_DIRTY | ARR_WORDS | MUT_ARR_PTRS_CLEAN | MUT_ARR_PTRS_DIRTY | MUT_ARR_PTRS_FROZEN0
  | MUT_ARR_PTRS_FROZEN | MUT_VAR_CLEAN | MUT_VAR_DIRTY | WEAK | PRIM | MUT_PRIM
  | TSO | STACK | TREC_CHUNK | ATOMICALLY_FRAME | CATCH_RETRY_FRAME | CATCH_STM_FRAME
  | WHITEHOLE

abbreviation HNF :: "16 word" where "HNF \<equiv> 0x1"
abbreviation BTM :: "16 word" where "BTM \<equiv> 0x2"
abbreviation NS :: "16 word" where "NS \<equiv> 0x4"
abbreviation STA :: "16 word" where "STA \<equiv> 0x8"
abbreviation THU :: "16 word" where "THU \<equiv> 0x10"
abbreviation MUT :: "16 word" where "MUT \<equiv> 0x20"
abbreviation UPT :: "16 word" where "UPT \<equiv> 0x40"
abbreviation SRT :: "16 word" where "SRT \<equiv> 0x80"
abbreviation IND_flag :: "16 word" where "IND_flag \<equiv> 0x100"

primrec closure_flags :: "ClosureType \<Rightarrow> 16 word" where
  "closure_flags INVALID_OBJECT = 0"
| "closure_flags CONSTR = HNF OR NS"
| "closure_flags CONSTR_1_0 = HNF OR NS"
| "closure_flags CONSTR_0_1 = HNF OR NS"
| "closure_flags CONSTR_2_0 = HNF OR NS"
| "closure_flags CONSTR_1_1 = HNF OR NS"
| "closure_flags CONSTR_0_2 = HNF OR NS"
| "closure_flags CONSTR_STATIC = HNF OR NS OR STA"
| "closure_flags CONSTR_NOCAF_STATIC = HNF OR NS OR STA"
| "closure_flags FUN = HNF OR NS OR SRT"
| "closure_flags FUN_1_0 = HNF OR NS OR SRT"
| "closure_flags FUN_0_1 = HNF OR NS OR SRT"
| "closure_flags FUN_2_0 = HNF OR NS OR SRT"
| "closure_flags FUN_1_1 = HNF OR NS OR SRT"
| "closure_flags FUN_0_2 = HNF OR NS OR SRT"
| "closure_flags FUN_STATIC = HNF OR NS OR STA OR SRT"
| "closure_flags THUNK = BTM OR THU OR SRT"
| "closure_flags THUNK_1_0 = BTM OR THU OR SRT"
| "closure_flags THUNK_0_1 = BTM OR THU OR SRT"
| "closure_flags THUNK_2_0 = BTM OR THU OR SRT"
| "closure_flags THUNK_1_1 = BTM OR THU OR SRT"
| "closure_flags THUNK_0_2 = BTM OR THU OR SRT"
| "closure_flags THUNK_STATIC = BTM OR STA OR THU OR SRT"
| "closure_flags THUNK_SELECTOR = BTM OR THU OR SRT"
| "closure_flags BCO = HNF OR NS"
| "closure_flags AP = THU"
| "closure_flags PAP = HNF OR NS"
| "closure_flags AP_STACK = THU"
| "closure_flags IND = NS OR IND_flag"
| "closure_flags IND_PERM = NS OR IND_flag"
| "closure_flags IND_STATIC = NS OR STA OR IND_flag"
| "closure_flags RET_BCO = BTM"
| "closure_flags RET_SMALL = BTM OR SRT"
| "closure_flags RET_BIG = SRT"
| "closure_flags RET_DYN = SRT"
| "closure_flags RET_FUN = 0"
| "closure_flags UPDATE_FRAME = BTM"
| "closure_flags CATCH_FRAME = BTM"
| "closure_flags UNDERFLOW_FRAME = BTM"
| "closure_flags STOP_FRAME = BTM"
| "closure_flags BLOCKING_QUEUE = NS OR MUT OR UPT"
| "closure_flags BLACKHOLE = NS OR UPT"
| "closure_flags MVAR_CLEAN = HNF OR NS OR MUT OR UPT"
| "closure_flags MVAR_DIRTY = HNF OR NS OR MUT OR UPT"
| "closure_flags ARR_WORDS = HNF OR NS OR UPT"
| "closure_flags MUT_ARR_PTRS_CLEAN = HNF OR NS OR MUT OR UPT"
| "closure_flags MUT_ARR_PTRS_DIRTY = HNF OR NS OR MUT OR UPT"
| "closure_flags MUT_ARR_PTRS_FROZEN0 = HNF OR NS OR MUT OR UPT"
| "closure_flags MUT_ARR_PTRS_FROZEN = HNF OR NS OR UPT"
| "closure_flags MUT_VAR_CLEAN = HNF OR NS OR MUT OR UPT"
| "closure_flags MUT_VAR_DIRTY = HNF OR NS OR MUT OR UPT"
| "closure_flags WEAK = HNF OR NS OR UPT"
| "closure_flags PRIM = HNF OR NS OR UPT"
| "closure_flags MUT_PRIM = HNF OR NS OR MUT OR UPT"
| "closure_flags TSO = HNF OR NS OR MUT OR UPT"
| "closure_flags STACK = HNF OR NS OR MUT OR UPT"
| "closure_flags TREC_CHUNK = NS OR MUT OR UPT"
| "closure_flags ATOMICALLY_FRAME = BTM"
| "closure_flags CATCH_RETRY_FRAME = BTM"
| "closure_flags CATCH_STM_FRAME = BTM"
| "closure_flags WHITEHOLE = 0"

definition has_flag :: "16 word \<Rightarrow> ClosureType \<Rightarrow> bool" where
  "has_flag f ty \<longleftrightarrow> closure_flags ty AND f \<noteq> 0"

definition ip_SHOULD_SPARK :: "ClosureType \<Rightarrow> bool" where
  "ip_SHOULD_SPARK ty = (closure_flags ty AND NS = 0)"

section \<open>Tagged pointers\<close>

definition TAG_MASK :: StgWord where
  "TAG_MASK = 7"

definition GET_CLOSURE_TAG :: "StgWord \<Rightarrow> StgWord" where
  "GET_CLOSURE_TAG p = p AND TAG_MASK"

definition UNTAG_CLOSURE :: "StgWord \<Rightarrow> StgWord" where
  "UNTAG_CLOSURE p = p AND NOT TAG_MASK"

definition TAG_CLOSURE :: "StgWord \<Rightarrow> StgWord \<Rightarrow> StgWord" where
  "TAG_CLOSURE tag p = p OR tag"

definition IS_FORWARDING_PTR :: "StgWord \<Rightarrow> bool" where
  "IS_FORWARDING_PTR p = (p AND 1 \<noteq> 0)"

definition MK_FORWARDING_PTR :: "StgWord \<Rightarrow> StgWord" where
  "MK_FORWARDING_PTR p = p OR 1"

definition UN_FORWARDING_PTR :: "StgWord \<Rightarrow> StgWord" where
  "UN_FORWARDING_PTR p = p - 1"

lemma UNTAG_idem [simp]: "UNTAG_CLOSURE (UNTAG_CLOSURE p) = UNTAG_CLOSURE p"
  by (simp add: UNTAG_CLOSURE_def and.assoc)

lemma UNTAG_TAG [simp]: "UNTAG_CLOSURE (TAG_CLOSURE (GET_CLOSURE_TAG q) (UNTAG_CLOSURE p)) = UNTAG_CLOSURE p"
  by (rule bit_word_eqI) (auto simp: UNTAG_CLOSURE_def TAG_CLOSURE_def GET_CLOSURE_TAG_def bit_simps)

lemma TAG_of_TAG: "GET_CLOSURE_TAG (TAG_CLOSURE (GET_CLOSURE_TAG q) (UNTAG_CLOSURE p)) = GET_CLOSURE_TAG q"
  by (rule bit_word_eqI) (auto simp: UNTAG_CLOSURE_def TAG_CLOSURE_def GET_CLOSURE_TAG_def bit_simps)

section \<open>Properties\<close>

text \<open>
  The flag table is consistent: no type is both a thunk and in head normal form, a
  head normal form is never sparked and every thunk may be, mutable and unpointed types are not
  thunks, and the indirection flag marks exactly the three indirections, which are not sparked.
\<close>

theorem closure_flags_consistent:
  "\<not> (has_flag THU ty \<and> has_flag HNF ty) \<and> (has_flag HNF ty \<longrightarrow> \<not> ip_SHOULD_SPARK ty)
   \<and> (has_flag THU ty \<longrightarrow> ip_SHOULD_SPARK ty) \<and> (has_flag MUT ty \<or> has_flag UPT ty \<longrightarrow> \<not> has_flag THU ty)
   \<and> (has_flag IND_flag ty \<longleftrightarrow> ty = IND \<or> ty = IND_PERM \<or> ty = IND_STATIC)
   \<and> (has_flag IND_flag ty \<longrightarrow> \<not> ip_SHOULD_SPARK ty)"
  by (cases ty) (simp_all add: has_flag_def ip_SHOULD_SPARK_def)

theorem closure_flags_consistent_witness:
  "has_flag THU THUNK_2_0 \<and> \<not> has_flag HNF THUNK_2_0 \<and> ip_SHOULD_SPARK THUNK_2_0 \<and> has_flag IND_flag IND_PERM"
  using closure_flags_consistent [of THUNK_2_0] closure_flags_consistent [of IND_PERM] by (simp add: has_flag_def)

text \<open>
  Tagging is a round trip: a pointer is its untagged part with its tag, untagging
  forgets any tag put on an untagged pointer, and an aligned address survives being made into a
  forwarding pointer, which is recognised as one.
\<close>

theorem tag_round_trip:
  assumes "q AND TAG_MASK = 0" "tag AND TAG_MASK = tag"
  shows "TAG_CLOSURE (GET_CLOSURE_TAG p) (UNTAG_CLOSURE p) = p
     \<and> UNTAG_CLOSURE (TAG_CLOSURE tag q) = q \<and> GET_CLOSURE_TAG (TAG_CLOSURE tag q) = tag
     \<and> IS_FORWARDING_PTR (MK_FORWARDING_PTR q) \<and> UN_FORWARDING_PTR (MK_FORWARDING_PTR q) = q"
proof -
  have bit7: "bit TAG_MASK i \<longleftrightarrow> i < 3" for i
  proof -
    have m: "TAG_MASK = mask 3" by (simp add: TAG_MASK_def mask_numeral)
    show ?thesis unfolding m bit_mask_iff by auto
  qed
  have q: "\<not> bit q i" if "i < 3" for i
  proof -
    have "bit (q AND TAG_MASK) i \<longleftrightarrow> bit q i" by (simp only: bit_and_iff bit7 that simp_thms)
    then show ?thesis using assms(1) by simp
  qed
  have t: "i < 3" if "bit tag i" for i
  proof -
    have "bit (tag AND TAG_MASK) i" using that assms(2) by simp
    then show ?thesis by (simp only: bit_and_iff bit7)
  qed
  have "TAG_CLOSURE (GET_CLOSURE_TAG p) (UNTAG_CLOSURE p) = p"
    by (rule bit_word_eqI) (auto simp: TAG_CLOSURE_def GET_CLOSURE_TAG_def UNTAG_CLOSURE_def bit_simps)
  moreover have "UNTAG_CLOSURE (TAG_CLOSURE tag q) = q"
    by (rule bit_word_eqI) (use q t in \<open>auto simp: TAG_CLOSURE_def UNTAG_CLOSURE_def bit_simps bit7\<close>)
  moreover have "GET_CLOSURE_TAG (TAG_CLOSURE tag q) = tag"
    by (rule bit_word_eqI) (use q t in \<open>auto simp: TAG_CLOSURE_def GET_CLOSURE_TAG_def bit_simps bit7\<close>)
  moreover have "(q OR 1) AND 1 = (1 :: StgWord)" by (rule bit_word_eqI) (auto simp: bit_simps)
  moreover have "q AND 1 = 0" by (rule bit_word_eqI) (use q [of 0] in \<open>auto simp: bit_simps intro!: Nat.gr0I\<close>)
  then have "q OR 1 = q + 1" by (simp add: disjunctive_add_eq_or)
  ultimately show ?thesis by (simp add: IS_FORWARDING_PTR_def MK_FORWARDING_PTR_def UN_FORWARDING_PTR_def)
qed

theorem tag_round_trip_witness:
  "UNTAG_CLOSURE (TAG_CLOSURE 5 0x1000) = 0x1000 \<and> GET_CLOSURE_TAG (TAG_CLOSURE 5 0x1000) = 5"
proof -
  have "0x1000 AND TAG_MASK = 0" "5 AND TAG_MASK = 5" by (simp_all add: TAG_MASK_def)
  from tag_round_trip [OF this] show ?thesis by blast
qed

end
