(* ===== verification/Sparks.thy ===== *)
theory Sparks
  imports WSDeque Closures
begin

text \<open>
  Spark pools, \<open>rts/Sparks.c\<close> and \<open>rts/Sparks.h\<close>: creating sparks with their statistics,
  traversing the pool during a collection, and pruning it afterwards, when the collector has
  exclusive access.  The pool is a work-stealing deque.  What the code reads of the heap is a
  record of functions: info pointers, closure types, block flags and static links.
\<close>

section \<open>The code\<close>

record SparkHeap =
  header_info :: "StgWord \<Rightarrow> StgWord"
  info_type :: "StgWord \<Rightarrow> ClosureType"
  heap_alloced :: "StgWord \<Rightarrow> bool"
  bd_evacuated :: "StgWord \<Rightarrow> bool"
  thunk_static_link :: "StgWord \<Rightarrow> StgWord"

record SparkCounters =
  created :: StgWord
  dud :: StgWord
  overflowed :: StgWord
  converted :: StgWord
  gcd_sparks :: StgWord
  fizzled :: StgWord

record SparkCap =
  cap_sparks :: WSDeque
  spark_stats :: SparkCounters

definition closure_SHOULD_SPARK :: "SparkHeap \<Rightarrow> StgWord \<Rightarrow> bool" where
  "closure_SHOULD_SPARK h c = ip_SHOULD_SPARK (info_type h (header_info h (UNTAG_CLOSURE c)))"

definition fizzledSpark :: "SparkHeap \<Rightarrow> StgWord \<Rightarrow> bool" where
  "fizzledSpark h spark = (GET_CLOSURE_TAG spark \<noteq> 0 \<or> \<not> closure_SHOULD_SPARK h spark)"

definition allocSparkPool :: "StgWord32 \<Rightarrow> (StgWord \<Rightarrow> StgWord) \<Rightarrow> WSDeque option" where
  "allocSparkPool maxLocalSparks space = newWSDeque maxLocalSparks space"

definition reclaimSpark :: "WSDeque \<Rightarrow> WSDeque \<times> StgWord" where
  "reclaimSpark pool = popWSDeque pool"

definition looksEmpty :: "WSDeque \<Rightarrow> bool" where
  "looksEmpty deque = looksEmptyWSDeque deque"

definition sparkPoolSize :: "WSDeque \<Rightarrow> int" where
  "sparkPoolSize pool = dequeElements pool"

definition discardSparks :: "WSDeque \<Rightarrow> WSDeque" where
  "discardSparks pool = discardElements pool"

definition tryStealSpark :: "WSDeque \<Rightarrow> WSDeque \<times> StgWord" where
  "tryStealSpark pool = stealWSDeque_once pool"

definition newSpark :: "SparkHeap \<Rightarrow> SparkCap \<Rightarrow> StgWord \<Rightarrow> SparkCap" where
  "newSpark h cap p =
     (let st = spark_stats cap
      in if \<not> fizzledSpark h p
         then let (pool, ok) = pushWSDeque (cap_sparks cap) p
           in if ok then cap\<lparr>cap_sparks := pool, spark_stats := st\<lparr>created := created st + 1\<rparr>\<rparr>
              else cap\<lparr>cap_sparks := pool, spark_stats := st\<lparr>overflowed := overflowed st + 1\<rparr>\<rparr>
         else cap\<lparr>spark_stats := st\<lparr>dud := dud st + 1\<rparr>\<rparr>)"

text \<open>What becomes of one spark: it is kept at an address, has fizzled, or was collected.\<close>

datatype SparkFate = Keep StgWord | Fizzle | Collected

definition spark_fate :: "SparkHeap \<Rightarrow> StgWord \<Rightarrow> SparkFate" where
  "spark_fate h spark =
     (if GET_CLOSURE_TAG spark \<noteq> 0 then Fizzle
      else let info = header_info h spark
        in if IS_FORWARDING_PTR info
           then let tmp = UN_FORWARDING_PTR info
             in if closure_SHOULD_SPARK h tmp then Keep tmp else Fizzle
           else if heap_alloced h spark
           then if bd_evacuated h spark
             then if closure_SHOULD_SPARK h spark then Keep spark else Fizzle
             else Collected
           else if info_type h info = THUNK_STATIC
           then if thunk_static_link h spark \<noteq> 0 then Keep spark else Collected
           else Fizzle)"

text \<open>The loop carries the array, \<open>currInd\<close>, \<open>botInd\<close> and the statistics.\<close>

partial_function (option) prune_loop ::
  "SparkHeap \<Rightarrow> StgWord \<Rightarrow> StgWord \<Rightarrow> (StgWord \<Rightarrow> StgWord) \<Rightarrow> StgWord \<Rightarrow> StgWord \<Rightarrow> SparkCounters
     \<Rightarrow> ((StgWord \<Rightarrow> StgWord) \<times> StgWord \<times> SparkCounters) option" where
  "prune_loop h sz oldBotInd el currInd botInd st =
     (if currInd = oldBotInd then Some (el, botInd, st)
      else let
          (el1, bot1, st1) = (case spark_fate h (el currInd) of
              Keep p \<Rightarrow> (el(botInd := p), botInd + 1, st)
            | Fizzle \<Rightarrow> (el, botInd, st\<lparr>fizzled := fizzled st + 1\<rparr>)
            | Collected \<Rightarrow> (el, botInd, st\<lparr>gcd_sparks := gcd_sparks st + 1\<rparr>));
          cur1 = currInd + 1
        in if \<not> (cur1 \<le> sz \<and> bot1 \<le> sz) then None
           else prune_loop h sz oldBotInd el1 (if cur1 = sz then 0 else cur1) (if bot1 = sz then 0 else bot1) st1)"

definition pruneSparkQueue :: "SparkHeap \<Rightarrow> SparkCap \<Rightarrow> SparkCap option" where
  "pruneSparkQueue h cap =
     (let pool0 = cap_sparks cap;
          pool1 = (if dq_top pool0 > dq_bottom pool0 then pool0\<lparr>dq_top := dq_bottom pool0\<rparr> else pool0);
          pool2 = pool1\<lparr>dq_bottom := dq_bottom pool1 - (dq_top pool1 AND NOT (moduloSize pool1))\<rparr>;
          pool3 = pool2\<lparr>dq_top := dq_top pool2 AND moduloSize pool2\<rparr>;
          pool4 = pool3\<lparr>topBound := dq_top pool3\<rparr>;
          currInd = dq_top pool4 AND moduloSize pool4;
          oldBotInd = dq_bottom pool4 AND moduloSize pool4
      in if \<not> (currInd < dq_size pool4 \<and> oldBotInd < dq_size pool4) then None
         else do {
           (el, botInd, st) \<leftarrow> prune_loop h (dq_size pool4) oldBotInd (elements pool4) currInd oldBotInd (spark_stats cap);
           Some \<lparr>cap_sparks = pool4\<lparr>elements := el, dq_top := oldBotInd, topBound := oldBotInd,
                   dq_bottom := (if oldBotInd \<le> botInd then botInd else botInd + dq_size pool4)\<rparr>,
                 spark_stats = st\<rparr>
         })"

text \<open>\<open>evac\<close> gets the collector's state and a pointer and answers both updated.\<close>

partial_function (option) traverse_loop ::
  "('u \<Rightarrow> StgWord \<Rightarrow> 'u \<times> StgWord) \<Rightarrow> StgWord \<Rightarrow> 'u \<Rightarrow> (StgWord \<Rightarrow> StgWord) \<Rightarrow> StgWord \<Rightarrow> StgWord
     \<Rightarrow> ('u \<times> (StgWord \<Rightarrow> StgWord)) option" where
  "traverse_loop evac modMask user el t b =
     (if t < b
      then let (user1, p) = evac user (el (t AND modMask))
        in traverse_loop evac modMask user1 (el(t AND modMask := p)) (t + 1) b
      else Some (user, el))"

definition traverseSparkQueue ::
  "('u \<Rightarrow> StgWord \<Rightarrow> 'u \<times> StgWord) \<Rightarrow> 'u \<Rightarrow> SparkCap \<Rightarrow> ('u \<times> SparkCap) option" where
  "traverseSparkQueue evac user cap =
     (let pool = cap_sparks cap
      in do { (user1, el) \<leftarrow> traverse_loop evac (moduloSize pool) user (elements pool) (dq_top pool) (dq_bottom pool);
              Some (user1, cap\<lparr>cap_sparks := pool\<lparr>elements := el\<rparr>\<rparr>) })"

section \<open>Slots\<close>

lemma slot_mod:
  assumes "moduloSize q = mask k" "k < 63" 
  shows "slot q i = idx (i mod 2 ^ k)"
proof -
  have "slot q i = take_bit k (word_of_int i)" using assms by (simp add: slot_def idx_def take_bit_eq_mask)
  also have "\<dots> = word_of_int (take_bit k i)"
    using assms(2) by (rule_tac bit_word_eqI) (auto simp: bit_simps)
  finally show ?thesis by (simp add: idx_def take_bit_eq_mod)
qed

lemma idx_mod_inj:
  assumes "k < 63"
  shows "idx (i mod 2 ^ k) = idx (j mod 2 ^ k) \<longleftrightarrow> i mod 2 ^ k = j mod 2 ^ k"
proof -
  have "small (x mod 2 ^ k)" for x
  proof -
    have "0 \<le> x mod 2 ^ k" "x mod 2 ^ k < 2 ^ k" by auto
    then show ?thesis using pow_idx(1) [OF assms] unfolding small_def by linarith
  qed
  then show ?thesis by (simp add: idx_inj)
qed

lemma mod_neq_close:
  fixes i j m :: int
  assumes "0 < i - j" "i - j < m"
  shows "i mod m \<noteq> j mod m"
proof
  assume "i mod m = j mod m"
  then have "m dvd i - j" by (simp add: mod_eq_dvd_iff)
  then show False using assms zdvd_imp_le [of m "i - j"] by linarith
qed

lemma idx_succ_mod:
  assumes "k < 63"
  shows "(if idx (i mod 2 ^ k) + 1 = 2 ^ k then 0 else idx (i mod 2 ^ k) + 1) = idx ((i + 1) mod 2 ^ k)"
    and "idx (i mod 2 ^ k) + 1 \<le> 2 ^ k"
proof -
  define r where "r = i mod 2 ^ k"
  have r: "0 \<le> r" "r < 2 ^ k" by (simp_all add: r_def)
  have p: "(2 :: int) ^ k < 2 ^ 63" using pow_idx(1) [OF assms] .
  have s: "(i + 1) mod 2 ^ k = (if r + 1 = 2 ^ k then 0 else r + 1)"
  proof -
    have "(i + 1) mod 2 ^ k = (r + 1) mod 2 ^ k" by (simp add: r_def mod_simps)
    also have "\<dots> = (if r + 1 = 2 ^ k then 0 else r + 1)" using r by (simp add: mod_pos_pos_trivial)
    finally show ?thesis .
  qed
  have "idx (r + 1) = 2 ^ k \<longleftrightarrow> r + 1 = 2 ^ k"
  proof -
    have "small (r + 1)" "small (2 ^ k)" using r p unfolding small_def by linarith+
    then show ?thesis unfolding pow_idx(3) by (rule idx_inj)
  qed
  then show "(if idx (i mod 2 ^ k) + 1 = 2 ^ k then 0 else idx (i mod 2 ^ k) + 1) = idx ((i + 1) mod 2 ^ k)"
    unfolding s r_def [symmetric] by (simp add: idx_0)
  have "uint (idx (r + 1)) = r + 1" "uint (idx (2 ^ k)) = 2 ^ k" using r p by (auto intro!: uint_idx)
  then show "idx (i mod 2 ^ k) + 1 \<le> 2 ^ k"
    unfolding r_def [symmetric] pow_idx(3) idx_arith word_le_def using r by linarith
qed

section \<open>Pruning\<close>

definition survivors :: "SparkHeap \<Rightarrow> StgWord list \<Rightarrow> StgWord list" where
  "survivors h xs = List.map_filter (\<lambda>x. case spark_fate h x of Keep p \<Rightarrow> Some p | _ \<Rightarrow> None) xs"

definition count_fate :: "SparkHeap \<Rightarrow> SparkFate \<Rightarrow> StgWord list \<Rightarrow> nat" where
  "count_fate h f xs = length (filter (\<lambda>x. spark_fate h x = f) xs)"

definition pruned_stats :: "SparkHeap \<Rightarrow> StgWord list \<Rightarrow> SparkCounters \<Rightarrow> SparkCounters" where
  "pruned_stats h xs st = st\<lparr>fizzled := fizzled st + of_nat (count_fate h Fizzle xs),
     gcd_sparks := gcd_sparks st + of_nat (count_fate h Collected xs)\<rparr>"

lemma pruned_stats_Cons:
  "pruned_stats h (x # xs) st = pruned_stats h xs
     (case spark_fate h x of Keep p \<Rightarrow> st | Fizzle \<Rightarrow> st\<lparr>fizzled := fizzled st + 1\<rparr>
        | Collected \<Rightarrow> st\<lparr>gcd_sparks := gcd_sparks st + 1\<rparr>)"
  by (simp add: pruned_stats_def count_fate_def ac_simps split: SparkFate.splits)

lemma pruned_stats_Nil [simp]: "pruned_stats h [] st = st"
  by (simp add: pruned_stats_def count_fate_def)

lemma survivors_simps [simp]:
  "survivors h [] = []"
  "survivors h (x # xs) = (case spark_fate h x of Keep p \<Rightarrow> p # survivors h xs | _ \<Rightarrow> survivors h xs)"
  by (simp_all add: survivors_def List.map_filter_simps split: SparkFate.splits)

lemma survivors_length: "length (survivors h xs) \<le> length xs"
  by (induction xs) (auto split: SparkFate.splits)

text \<open>The array read as a ring: \<open>ring k el c xs\<close> says that \<open>xs\<close> lies in the slots from \<open>c\<close> on.\<close>

definition ring :: "nat \<Rightarrow> (StgWord \<Rightarrow> StgWord) \<Rightarrow> int \<Rightarrow> StgWord list \<Rightarrow> bool" where
  "ring k el c xs \<longleftrightarrow> (\<forall>j < length xs. el (idx ((c + int j) mod 2 ^ k)) = xs ! j)"

lemma ring_Nil [simp]: "ring k el c []"
  by (simp add: ring_def)

lemma ring_Cons: "ring k el c (x # xs) \<longleftrightarrow> el (idx (c mod 2 ^ k)) = x \<and> ring k el (c + 1) xs"
  unfolding ring_def length_Cons All_less_Suc2 by (simp add: ac_simps)

lemma ring_snoc: "ring k el c (xs @ [x]) \<longleftrightarrow> ring k el c xs \<and> el (idx ((c + int (length xs)) mod 2 ^ k)) = x"
  by (auto simp: ring_def nth_append less_Suc_eq)

lemma ring_write:
  assumes "k < 63" "\<And>j. j < length xs \<Longrightarrow> i mod 2 ^ k \<noteq> (c + int j) mod 2 ^ k"
  shows "ring k (el(idx (i mod 2 ^ k) := v)) c xs = ring k el c xs"
proof -
  have "(el(idx (i mod 2 ^ k) := v)) (idx ((c + int j) mod 2 ^ k)) = el (idx ((c + int j) mod 2 ^ k))"
    if "j < length xs" for j
    using assms(2) [OF that] idx_mod_inj [OF assms(1), of "c + int j" i] by auto
  then show ?thesis by (auto simp: ring_def)
qed

lemma prune_loop_ring:
  assumes k: "k < 63" and "ring k el c ys" "ring k el b zs" "b = c + int (length ys)"
    "int (length zs) + int (length ys) \<le> 2 ^ k - 1"
  shows "\<exists>el'. prune_loop h (2 ^ k) (idx (b mod 2 ^ k)) el (idx (c mod 2 ^ k)) (idx ((b + int (length zs)) mod 2 ^ k)) st
      = Some (el', idx ((b + int (length (zs @ survivors h ys))) mod 2 ^ k), pruned_stats h ys st)
     \<and> ring k el' b (zs @ survivors h ys)"
  using assms(2-)
proof (induction ys arbitrary: el c zs st)
  case Nil
  then show ?case by (subst prune_loop.simps) simp
next
  case (Cons y ys)
  let ?n = "int (length zs)"
  let ?cur = "idx (c mod 2 ^ k)" and ?bot = "idx ((b + ?n) mod 2 ^ k)"
  have y: "el ?cur = y" and ys: "ring k el (c + 1) ys" using Cons.prems(1) by (auto simp: ring_Cons)
  have ne: "?cur \<noteq> idx (b mod 2 ^ k)"
    using Cons.prems(3,4) mod_neq_close [of b c "2 ^ k"] by (simp add: idx_mod_inj [OF k])
  note cs = idx_succ_mod [OF k, of c] and bs = idx_succ_mod [OF k, of "b + ?n"]
  have bot: "?bot \<le> 2 ^ k" "?bot \<noteq> 2 ^ k"
  proof -
    have r: "0 \<le> (b + ?n) mod 2 ^ k" "(b + ?n) mod 2 ^ k < 2 ^ k" by auto
    have u: "uint ?bot = (b + ?n) mod 2 ^ k" using r pow_idx(1) [OF k] by (intro uint_idx) linarith+
    show "?bot \<le> 2 ^ k" unfolding word_le_def u uint_pow [OF k] using r by linarith
    show "?bot \<noteq> 2 ^ k" using u r(2) uint_pow [OF k] by (metis less_irrefl)
  qed
  show ?case
  proof (cases "spark_fate h y")
    case (Keep p)
    define el1 where "el1 = el(?bot := p)"
    have r1: "ring k el1 (c + 1) ys" unfolding el1_def
    proof (subst ring_write [OF k])
      show "(b + ?n) mod 2 ^ k \<noteq> (c + 1 + int j) mod 2 ^ k" if "j < length ys" for j
        using Cons.prems(3,4) that by (intro mod_neq_close) auto
    qed (rule ys)
    have r2: "ring k el1 b (zs @ [p])" unfolding ring_snoc el1_def
    proof (subst ring_write [OF k])
      show "(b + ?n) mod 2 ^ k \<noteq> (b + int j) mod 2 ^ k" if "j < length zs" for j
        using Cons.prems(3,4) that by (intro mod_neq_close) auto
    qed (use Cons.prems(2) in simp)
    have "prune_loop h (2 ^ k) (idx (b mod 2 ^ k)) el ?cur ?bot st
        = prune_loop h (2 ^ k) (idx (b mod 2 ^ k)) el1 (idx ((c + 1) mod 2 ^ k)) (idx ((b + ?n + 1) mod 2 ^ k)) st"
      by (subst prune_loop.simps) (use ne y Keep cs bs in \<open>simp add: el1_def del: idx_arith\<close>)
    moreover from Cons.IH [OF r1 r2, of st] Cons.prems(3,4) obtain el' where
      "prune_loop h (2 ^ k) (idx (b mod 2 ^ k)) el1 (idx ((c + 1) mod 2 ^ k)) (idx ((b + ?n + 1) mod 2 ^ k)) st
        = Some (el', idx ((b + int (length ((zs @ [p]) @ survivors h ys))) mod 2 ^ k), pruned_stats h ys st)"
      "ring k el' b ((zs @ [p]) @ survivors h ys)" by (auto simp: algebra_simps)
    ultimately show ?thesis using Keep by (simp add: pruned_stats_Cons)
  next
    case Fizzle
    have "prune_loop h (2 ^ k) (idx (b mod 2 ^ k)) el ?cur ?bot st
        = prune_loop h (2 ^ k) (idx (b mod 2 ^ k)) el (idx ((c + 1) mod 2 ^ k)) ?bot (st\<lparr>fizzled := fizzled st + 1\<rparr>)"
      by (subst prune_loop.simps) (use ne y Fizzle cs bot in \<open>simp del: idx_arith\<close>)
    with Cons.IH [OF ys Cons.prems(2), of "st\<lparr>fizzled := fizzled st + 1\<rparr>"] Cons.prems(3,4) Fizzle show ?thesis
      by (simp add: pruned_stats_Cons)
  next
    case Collected
    have "prune_loop h (2 ^ k) (idx (b mod 2 ^ k)) el ?cur ?bot st
        = prune_loop h (2 ^ k) (idx (b mod 2 ^ k)) el (idx ((c + 1) mod 2 ^ k)) ?bot (st\<lparr>gcd_sparks := gcd_sparks st + 1\<rparr>)"
      by (subst prune_loop.simps) (use ne y Collected cs bot in \<open>simp del: idx_arith\<close>)
    with Cons.IH [OF ys Cons.prems(2), of "st\<lparr>gcd_sparks := gcd_sparks st + 1\<rparr>"] Cons.prems(3,4) Collected show ?thesis
      by (simp add: pruned_stats_Cons)
  qed
qed

lemma ring_mod: "ring k el (c mod 2 ^ k) xs = ring k el c xs"
  by (simp add: ring_def mod_simps)

lemma seg_ring:
  assumes "moduloSize q = mask k" "k < 63" "T \<le> B"
  shows "ring k (elements q) T (seg q T B)"
  using assms by (auto simp: ring_def seg_def slot_mod)

lemma ring_seg:
  assumes "moduloSize q = mask k" "k < 63" "ring k (elements q) T xs"
  shows "seg q T (T + int (length xs)) = xs"
  by (rule nth_equalityI) (use assms in \<open>auto simp: ring_def seg_def slot_mod\<close>)

lemma and_not_minus: "(x :: StgWord) AND NOT m = x - (x AND m)"
proof -
  have "(x AND m) AND (x AND NOT m) = 0" by (rule bit_word_eqI) (auto simp: bit_simps)
  then have "(x AND m) + (x AND NOT m) = (x AND m) OR (x AND NOT m)" by (rule disjunctive_add_eq_or)
  also have "\<dots> = x" by (rule bit_word_eqI) (auto simp: bit_simps)
  finally show ?thesis by (simp add: algebra_simps)
qed

lemma prune_holds:
  assumes h: "dq_holds (cap_sparks cap) n xs" and n: "n < 2 ^ 63"
  shows "\<exists>pool. pruneSparkQueue h cap = Some \<lparr>cap_sparks = pool, spark_stats = pruned_stats h xs (spark_stats cap)\<rparr>
     \<and> dq_size pool = dq_size (cap_sparks cap)
     \<and> dq_holds pool (2 * unat (dq_size pool)) (survivors h xs)"
proof -
  define q where "q = cap_sparks cap"
  from h obtain k T B tb where r: "dq_rep q k T B tb" and b: "T \<le> B" "B - T \<le> 2 ^ k - 1" "B \<le> int n"
    and xs: "xs = seg q T B" by (auto simp: dq_holds_def q_def)
  note d = dq_repD [OF r]
  define M :: int where "M = 2 ^ k"
  have M: "0 < M" "M < 2 ^ 63" using pow_idx(1) [OF d(3)] by (simp_all add: M_def)
  have u: "uint (idx T) = T" "uint (idx B) = B" using d b n by (auto intro!: uint_idx)
  have nlt: "\<not> dq_bottom q < dq_top q" using d u b by (simp add: word_less_def)
  have msk: "idx i AND mask k = idx (i mod M)" for i
    using slot_mod [OF d(2,3), of i] d(2) by (simp add: slot_def M_def)
  have bot: "idx B - (idx T AND NOT (mask k)) = idx (B - T + T mod M)"
    unfolding and_not_minus msk idx_arith by (simp add: algebra_simps)
  have old: "(B - T + T mod M) mod M = B mod M" by (simp add: mod_simps)
  have lt: "idx (i mod M) < 2 ^ k" for i
  proof -
    have i: "0 \<le> i mod M" "i mod M < M" using M by auto
    then have "uint (idx (i mod M)) = i mod M" using M by (intro uint_idx) linarith+
    then show ?thesis unfolding word_less_def uint_pow [OF d(3)] using i by (simp add: M_def)
  qed
  define q4 where "q4 = q\<lparr>dq_bottom := idx (B - T + T mod M), dq_top := idx (T mod M), topBound := idx (T mod M)\<rparr>"
  have len: "int (length xs) = B - T" using xs b by (simp add: seg_length)
  let ?sv = "survivors h xs"
  have sv: "int (length ?sv) \<le> M - 1" using survivors_length [of h xs] len b unfolding M_def by linarith
  have ring: "ring k (elements q) T xs" using seg_ring [OF d(2,3) b(1)] xs by simp
  from prune_loop_ring [OF d(3) ring ring_Nil, of B h "spark_stats cap"] len b
  obtain el where loop: "prune_loop h (2 ^ k) (idx (B mod M)) (elements q) (idx (T mod M)) (idx (B mod M)) (spark_stats cap)
      = Some (el, idx ((B + int (length ?sv)) mod M), pruned_stats h xs (spark_stats cap))"
    and rg: "ring k el B ?sv" by (auto simp: M_def)
  define ob nb where "ob = B mod M" and "nb = ob + int (length ?sv)"
  have ob: "0 \<le> ob" "ob < M" using M by (simp_all add: ob_def)
  have e: "(B + int (length ?sv)) mod M = (if nb < M then nb else nb - M)"
  proof -
    have "(B + int (length ?sv)) mod M = nb mod M" by (simp add: nb_def ob_def mod_simps)
    also have "\<dots> = (if nb < M then nb else nb - M)"
    proof (cases "nb < M")
      case False
      have "nb mod M = (nb - M) mod M" by simp
      also have "\<dots> = nb - M" using False ob sv by (intro mod_pos_pos_trivial) (auto simp: nb_def)
      finally show ?thesis using False by simp
    qed (use ob in \<open>simp add: nb_def\<close>)
    finally show ?thesis .
  qed
  have newbot: "(if idx ob \<le> idx ((B + int (length ?sv)) mod M) then idx ((B + int (length ?sv)) mod M)
      else idx ((B + int (length ?sv)) mod M) + 2 ^ k) = idx nb"
  proof -
    have "uint (idx ob) = ob" "uint (idx (if nb < M then nb else nb - M)) = (if nb < M then nb else nb - M)"
      using ob sv M by (auto intro!: uint_idx simp: nb_def)
    then have "idx ob \<le> idx (if nb < M then nb else nb - M) \<longleftrightarrow> nb < M"
      unfolding word_le_def using ob sv by (simp add: nb_def)
    then show ?thesis unfolding e pow_idx(3) M_def [symmetric] by (simp add: idx_def)
  qed
  define pool where "pool = q4\<lparr>elements := el, dq_top := idx ob, topBound := idx ob, dq_bottom := idx nb\<rparr>"
  have "pruneSparkQueue h cap = Some \<lparr>cap_sparks = pool, spark_stats = pruned_stats h xs (spark_stats cap)\<rparr>"
  proof -
    have q4: "dq_size q4 = 2 ^ k" "elements q4 = elements q" "moduloSize q4 = mask k" "dq_top q4 = idx (T mod M)"
      "dq_bottom q4 = idx (B - T + T mod M)" using d by (simp_all add: q4_def)
    have "q\<lparr>dq_bottom := dq_bottom q - (dq_top q AND NOT (moduloSize q)), dq_top := dq_top q AND moduloSize q,
        topBound := dq_top q AND moduloSize q\<rparr> = q4"
      unfolding q4_def d(2,4,5) bot msk ..
    moreover have p1: "(if dq_bottom q < dq_top q then q\<lparr>dq_top := dq_bottom q\<rparr> else q) = q" using nlt by simp
    ultimately show ?thesis
      unfolding pruneSparkQueue_def q_def [symmetric] Let_def p1
      using lt [of T] lt [of B, folded ob_def] q4 loop newbot
      by (simp add: msk old ob_def [symmetric] pool_def split del: if_split cong: if_cong)
  qed
  moreover have ds: "dq_size pool = 2 ^ k" "moduloSize pool = mask k" using d by (simp_all add: pool_def q4_def)
  moreover have "dq_holds pool (2 * unat (dq_size pool)) ?sv"
  proof -
    have "dq_rep pool k ob nb ob" using ds d(3) ob by (simp add: dq_rep_def pool_def)
    moreover have "ring k (elements pool) ob ?sv" using rg ring_mod [of k el B] by (simp add: pool_def ob_def M_def)
    then have "?sv = seg pool ob nb" using ring_seg [OF ds(2) d(3)] by (simp add: nb_def)
    moreover have "int (unat (dq_size pool)) = M" using ds(1) uint_pow [OF d(3)] by (simp only: M_def uint_nat)
    then have "ob \<le> nb" "nb - ob \<le> 2 ^ k - 1" "nb \<le> int (2 * unat (dq_size pool))"
      using ob sv unfolding nb_def M_def of_nat_mult by linarith+
    ultimately show ?thesis unfolding dq_holds_def using ds(1) by blast
  qed
  ultimately show ?thesis using d(1) by (simp add: q_def)
qed

section \<open>Traversal\<close>

primrec evac_list :: "('u \<Rightarrow> StgWord \<Rightarrow> 'u \<times> StgWord) \<Rightarrow> 'u \<Rightarrow> StgWord list \<Rightarrow> 'u \<times> StgWord list" where
  "evac_list evac user [] = (user, [])"
| "evac_list evac user (x # xs) =
     (let (user1, p) = evac user x; (user2, ps) = evac_list evac user1 xs in (user2, p # ps))"

lemma traverse_loop_ring:
  assumes k: "k < 63" "q = mask k" and "ring k el c ys" "0 \<le> c" "c + int (length ys) < 2 ^ 63"
    "int (length ys) \<le> 2 ^ k - 1"
  shows "\<exists>el'. traverse_loop evac q user el (idx c) (idx (c + int (length ys))) = Some (fst (evac_list evac user ys), el')
     \<and> ring k el' c (snd (evac_list evac user ys))
     \<and> (\<forall>i. (\<forall>j < length ys. i mod 2 ^ k \<noteq> (c + int j) mod 2 ^ k) \<longrightarrow> el' (idx (i mod 2 ^ k)) = el (idx (i mod 2 ^ k)))"
  using assms(3-)
proof (induction ys arbitrary: el c user)
  case Nil
  then show ?case by (subst traverse_loop.simps) simp
next
  case (Cons y ys)
  have msk: "idx i AND q = idx (i mod 2 ^ k)" for i
    using slot_mod [of "undefined\<lparr>moduloSize := mask k\<rparr>" k i] k by (simp add: slot_def)
  have y: "el (idx (c mod 2 ^ k)) = y" and ys: "ring k el (c + 1) ys" using Cons.prems(1) by (auto simp: ring_Cons)
  obtain user1 p where ev: "evac user y = (user1, p)" by fastforce
  let ?el = "el(idx (c mod 2 ^ k) := p)"
  have far: "c mod 2 ^ k \<noteq> (c + 1 + int j) mod 2 ^ k" if "j < length ys" for j
    using mod_neq_close [of "c + 1 + int j" c "2 ^ k"] that Cons.prems(4) by auto
  have r1: "ring k ?el (c + 1) ys" using ring_write [OF k(1), of ys c "c + 1"] far ys by blast
  have u: "uint (idx c) = c" "uint (idx (c + int (length (y # ys)))) = c + int (length (y # ys))"
    using Cons.prems(2,3) by (auto intro!: uint_idx)
  have less: "idx c < idx (c + int (length (y # ys)))" unfolding word_less_def u by simp
  have step: "traverse_loop evac q user el (idx c) (idx (c + int (length (y # ys))))
      = traverse_loop evac q user1 ?el (idx (c + 1)) (idx (c + 1 + int (length ys)))"
    by (subst traverse_loop.simps) (use less in \<open>simp add: msk y ev add.assoc\<close>)
  have "int (length (y # ys)) = int (length ys) + 1" by simp
  then have "0 \<le> c + 1" "c + 1 + int (length ys) < 2 ^ 63" "int (length ys) \<le> 2 ^ k - 1"
    using Cons.prems(2-4) by linarith+
  from Cons.IH [OF r1 this, of user1] obtain el' where
    el': "traverse_loop evac q user1 ?el (idx (c + 1)) (idx (c + 1 + int (length ys))) = Some (fst (evac_list evac user1 ys), el')"
    "ring k el' (c + 1) (snd (evac_list evac user1 ys))"
    and rest: "\<And>i. (\<forall>j < length ys. i mod 2 ^ k \<noteq> (c + 1 + int j) mod 2 ^ k) \<Longrightarrow> el' (idx (i mod 2 ^ k)) = ?el (idx (i mod 2 ^ k))"
    by blast
  have "el' (idx (c mod 2 ^ k)) = p" using rest [of c] far by simp
  moreover have "el' (idx (i mod 2 ^ k)) = el (idx (i mod 2 ^ k))"
    if "\<forall>j < length (y # ys). i mod 2 ^ k \<noteq> (c + int j) mod 2 ^ k" for i
  proof -
    have a: "i mod 2 ^ k \<noteq> c mod 2 ^ k" and "\<forall>j < length ys. i mod 2 ^ k \<noteq> (c + 1 + int j) mod 2 ^ k"
      using that unfolding length_Cons All_less_Suc2 by (auto simp: ac_simps)
    from rest [OF this(2)] a show ?thesis using idx_mod_inj [OF k(1), of i c] by simp
  qed
  ultimately show ?case using step el' by (auto simp: ev split_beta Let_def ring_Cons)
qed

lemma evac_list_length: "length (snd (evac_list evac user xs)) = length xs"
  by (induction xs arbitrary: user) (auto simp: split_beta Let_def)

lemma traverse_holds:
  assumes h: "dq_holds (cap_sparks cap) n xs" and n: "n < 2 ^ 63"
  shows "\<exists>pool. traverseSparkQueue evac user cap = Some (fst (evac_list evac user xs), cap\<lparr>cap_sparks := pool\<rparr>)
     \<and> dq_holds pool n (snd (evac_list evac user xs))"
proof -
  define q where "q = cap_sparks cap"
  from h obtain k T B tb where r: "dq_rep q k T B tb" and b: "T \<le> B" "B - T \<le> 2 ^ k - 1" "B \<le> int n"
    and xs: "xs = seg q T B" by (auto simp: dq_holds_def q_def)
  note d = dq_repD [OF r]
  have len: "B = T + int (length xs)" using xs b by (simp add: seg_length)
  have ring: "ring k (elements q) T xs" using seg_ring [OF d(2,3) b(1)] xs by simp
  have "T + int (length xs) < 2 ^ 63" "int (length xs) \<le> 2 ^ k - 1" using len b n by auto
  from traverse_loop_ring [OF d(3,2) ring d(9) this, of evac user] obtain el where
    el: "traverse_loop evac (moduloSize q) user (elements q) (idx T) (idx B) = Some (fst (evac_list evac user xs), el)"
    and rg: "ring k el T (snd (evac_list evac user xs))" by (auto simp: len)
  define pool where "pool = q\<lparr>elements := el\<rparr>"
  have "traverseSparkQueue evac user cap = Some (fst (evac_list evac user xs), cap\<lparr>cap_sparks := pool\<rparr>)"
    using el d(4,5) by (simp add: traverseSparkQueue_def q_def [symmetric] pool_def)
  moreover have "seg pool T B = snd (evac_list evac user xs)"
    using ring_seg [of pool k T "snd (evac_list evac user xs)"] rg d(2,3) len by (simp add: pool_def evac_list_length)
  then have "dq_holds pool n (snd (evac_list evac user xs))"
    unfolding dq_holds_def using r b by (intro exI [of _ k] exI [of _ T] exI [of _ B] exI [of _ tb]) (auto simp: dq_rep_def pool_def)
  ultimately show ?thesis by blast
qed

section \<open>What a collection does to a spark\<close>

text \<open>
  The specification of pruning, from what a collection leaves of a closure.  Bit 0 of the header word
  says that the closure has moved, to the address one less; the low three bits of a pointer are its
  tag, and a tagged pointer is to a value.
\<close>

definition moved :: "SparkHeap \<Rightarrow> StgWord \<Rightarrow> bool" where
  "moved h x = bit (header_info h x) 0"

definition new_address :: "SparkHeap \<Rightarrow> StgWord \<Rightarrow> StgWord" where
  "new_address h x = (if moved h x then header_info h x - 1 else x)"

definition type_at :: "SparkHeap \<Rightarrow> StgWord \<Rightarrow> ClosureType" where
  "type_at h p = info_type h (header_info h (p div 8 * 8))"

text \<open>The types of closures with work left are thunks and suspended applications.  The types of the
  second list are those that no spark points to (stack frames, and marks that are gone after a
  collection); pruning does not throw them away.\<close>

definition suspended_types :: "ClosureType list" where
  "suspended_types = [THUNK, THUNK_1_0, THUNK_0_1, THUNK_2_0, THUNK_1_1, THUNK_0_2, THUNK_STATIC,
     THUNK_SELECTOR, AP, AP_STACK]"

definition unsparkable_types :: "ClosureType list" where
  "unsparkable_types = [INVALID_OBJECT, RET_BCO, RET_SMALL, RET_BIG, RET_DYN, RET_FUN, UPDATE_FRAME,
     CATCH_FRAME, UNDERFLOW_FRAME, STOP_FRAME, ATOMICALLY_FRAME, CATCH_RETRY_FRAME, CATCH_STM_FRAME, WHITEHOLE]"

text \<open>A value: a tagged pointer, a heap closure with no work left, or a static closure that is not a thunk.\<close>

definition evaluated :: "SparkHeap \<Rightarrow> StgWord \<Rightarrow> bool" where
  "evaluated h x \<longleftrightarrow> x mod 8 \<noteq> 0 \<or>
     (if moved h x \<or> heap_alloced h x
      then type_at h (new_address h x) \<notin> set (suspended_types @ unsparkable_types)
      else type_at h x \<noteq> THUNK_STATIC)"

text \<open>Reached by the collection: a tagged pointer (which need not be looked at), a closure that has moved or lies in a block that
  was evacuated as a whole, and a closure of the program unless it is a thunk on no list of static objects.\<close>

definition reached :: "SparkHeap \<Rightarrow> StgWord \<Rightarrow> bool" where
  "reached h x \<longleftrightarrow> x mod 8 \<noteq> 0 \<or> moved h x \<or>
     (if heap_alloced h x then bd_evacuated h x else type_at h x = THUNK_STATIC \<longrightarrow> thunk_static_link h x \<noteq> 0)"

lemma ip_SHOULD_SPARK_types: "ip_SHOULD_SPARK ty \<longleftrightarrow> ty \<in> set (suspended_types @ unsparkable_types)"
  by (cases ty) (simp_all add: ip_SHOULD_SPARK_def suspended_types_def unsparkable_types_def)

lemma tag_mod: "GET_CLOSURE_TAG p = p mod 8"
  using take_bit_eq_mask [of 3 p] take_bit_eq_mod [of 3 p]
  by (simp add: GET_CLOSURE_TAG_def TAG_MASK_def mask_eq_exp_minus_1)

lemma untag_div: "UNTAG_CLOSURE p = p div 8 * 8"
proof -
  have "p AND NOT (7 :: StgWord) = p - (p AND 7)" by (rule and_not_minus)
  also have "p AND 7 = p mod 8" using tag_mod [of p] by (simp add: GET_CLOSURE_TAG_def TAG_MASK_def)
  finally show ?thesis by (simp add: UNTAG_CLOSURE_def TAG_MASK_def minus_mod_eq_div_mult)
qed

lemma SHOULD_SPARK_type:
  "closure_SHOULD_SPARK h p \<longleftrightarrow> type_at h p \<in> set (suspended_types @ unsparkable_types)"
  unfolding closure_SHOULD_SPARK_def untag_div type_at_def by (rule ip_SHOULD_SPARK_types)

lemma forwarding_bit: "IS_FORWARDING_PTR (header_info h x) \<longleftrightarrow> moved h x"
  by (simp add: IS_FORWARDING_PTR_def moved_def and_one_eq bit_0 odd_iff_mod_2_eq_one)

lemma type_at_aligned: "x mod 8 = 0 \<Longrightarrow> type_at h x = info_type h (header_info h x)"
  unfolding type_at_def using div_mult_mod_eq [of x 8] by simp

lemma spark_fate_spec:
  "spark_fate h x = (if \<not> reached h x then Collected else if evaluated h x then Fizzle else Keep (new_address h x))"
  by (cases "x mod 8 = 0")
    (simp_all del: set_append add: spark_fate_def tag_mod forwarding_bit SHOULD_SPARK_type UN_FORWARDING_PTR_def
       reached_def evaluated_def new_address_def type_at_aligned Let_def)

lemma survivors_spec: "survivors h xs = map (new_address h) (filter (\<lambda>x. reached h x \<and> \<not> evaluated h x) xs)"
  by (induction xs) (simp_all add: spark_fate_spec)

lemma count_fate_spec:
  "count_fate h Fizzle xs = length (filter (\<lambda>x. reached h x \<and> evaluated h x) xs)"
  "count_fate h Collected xs = length (filter (\<lambda>x. \<not> reached h x) xs)"
  unfolding count_fate_def by (auto intro!: arg_cong [of _ _ length] filter_cong simp: spark_fate_spec)

section \<open>Properties\<close>

text \<open>
  Claim C22.  Pruning a spark pool after a collection returns.  It keeps exactly the sparks that the collection
  has reached and that still have work left in them, at their new addresses and in their order;
  it counts as fizzled those that were reached and are values, and as collected those that were not
  reached, and changes no other counter; the indices are reset so that the pool stays far from
  wrapping.  Which sparks were reached and which are values is specified from the state of the heap
  (\<open>reached\<close>, \<open>evaluated\<close>, \<open>new_address\<close>), with the closure types listed instead of their flags.
\<close>

theorem prune_keeps_survivors:
  assumes "dq_holds (cap_sparks cap) n xs" "n < 2 ^ 63"
  shows "\<exists>cap'. pruneSparkQueue h cap = Some cap'
     \<and> dq_holds (cap_sparks cap') (2 * unat (dq_size (cap_sparks cap)))
         (map (new_address h) (filter (\<lambda>x. reached h x \<and> \<not> evaluated h x) xs))
     \<and> spark_stats cap' = (spark_stats cap)
         \<lparr>fizzled := fizzled (spark_stats cap) + of_nat (length (filter (\<lambda>x. reached h x \<and> evaluated h x) xs)),
          gcd_sparks := gcd_sparks (spark_stats cap) + of_nat (length (filter (\<lambda>x. \<not> reached h x) xs))\<rparr>"
  using prune_holds [OF assms, of h] by (auto simp: pruned_stats_def count_fate_spec survivors_spec)

definition no_sparks :: SparkCounters where
  "no_sparks = \<lparr>created = 0, dud = 0, overflowed = 0, converted = 0, gcd_sparks = 0, fizzled = 0\<rparr>"

definition all_dead :: SparkHeap where
  "all_dead = \<lparr>header_info = (\<lambda>_. 0), info_type = (\<lambda>_. THUNK), heap_alloced = (\<lambda>_. True),
     bd_evacuated = (\<lambda>_. False), thunk_static_link = (\<lambda>_. 0)\<rparr>"

theorem prune_keeps_survivors_witness:
  "\<exists>pool cap'. dq_holds pool 1 [16] \<and> pruneSparkQueue all_dead \<lparr>cap_sparks = pool, spark_stats = no_sparks\<rparr> = Some cap'
     \<and> gcd_sparks (spark_stats cap') = 1"
proof -
  from new_holds [of 4 "\<lambda>_. 0"] obtain q where q: "dq_holds q 0 []" "4 < uint (dq_size q)" by auto
  from push_holds [OF q(1), of 16] q(2) have h: "dq_holds (fst (pushWSDeque q 16)) 1 [16]" by simp
  let ?cap = "\<lparr>cap_sparks = fst (pushWSDeque q 16), spark_stats = no_sparks\<rparr>"
  have h': "dq_holds (cap_sparks ?cap) 1 [16]" using h by simp
  have "\<not> reached all_dead 16" by (simp add: reached_def moved_def all_dead_def)
  moreover have "gcd_sparks no_sparks = 0" by (simp add: no_sparks_def)
  ultimately show ?thesis using prune_keeps_survivors [OF h', of all_dead] h by fastforce
qed

text \<open>
  Creating a spark counts it in exactly one way: a closure that is already a value is
  a dud and the pool is unchanged; otherwise it is appended to the pool and counted as created,
  or, when the pool is full, dropped and counted as overflowed.
\<close>

theorem newSpark_counts_once:
  assumes "dq_holds (cap_sparks cap) n xs" "Suc n < 2 ^ 63"
  shows "if fizzledSpark h p then newSpark h cap p = cap\<lparr>spark_stats := (spark_stats cap)\<lparr>dud := dud (spark_stats cap) + 1\<rparr>\<rparr>
     else if int (length xs) < uint (dq_size (cap_sparks cap)) - 1
     then dq_holds (cap_sparks (newSpark h cap p)) (Suc n) (xs @ [p])
       \<and> spark_stats (newSpark h cap p) = (spark_stats cap)\<lparr>created := created (spark_stats cap) + 1\<rparr>
     else dq_holds (cap_sparks (newSpark h cap p)) (Suc n) xs
       \<and> spark_stats (newSpark h cap p) = (spark_stats cap)\<lparr>overflowed := overflowed (spark_stats cap) + 1\<rparr>"
  using push_holds [OF assms, of p] by (auto simp: newSpark_def Let_def split_beta)

theorem newSpark_counts_once_witness:
  "\<exists>q. newSpark all_dead \<lparr>cap_sparks = q, spark_stats = no_sparks\<rparr> 17
     = \<lparr>cap_sparks = q, spark_stats = no_sparks\<lparr>dud := 1\<rparr>\<rparr>"
proof -
  from new_holds [of 4 "\<lambda>_. 0"] obtain q where q: "dq_holds q 0 []" by auto
  then have h: "dq_holds (cap_sparks \<lparr>cap_sparks = q, spark_stats = no_sparks\<rparr>) 0 []" by simp
  have "fizzledSpark all_dead 17" by (simp add: fizzledSpark_def GET_CLOSURE_TAG_def TAG_MASK_def)
  with newSpark_counts_once [OF h, of all_dead 17] show ?thesis by (auto simp: no_sparks_def)
qed

text \<open>
  Traversing a spark pool as a root set returns, calls the evacuation function once
  on each spark, from the oldest to the newest, and leaves the pool holding the answers.
\<close>

theorem traverse_evacuates_each:
  assumes "dq_holds (cap_sparks cap) n xs" "n < 2 ^ 63"
  shows "\<exists>pool. traverseSparkQueue evac user cap = Some (fst (evac_list evac user xs), cap\<lparr>cap_sparks := pool\<rparr>)
     \<and> dq_holds pool n (snd (evac_list evac user xs))"
  using assms by (rule traverse_holds)

theorem traverse_evacuates_each_witness:
  "\<exists>q pool. dq_holds q 1 [16] \<and> traverseSparkQueue (\<lambda>(u :: nat) p. (u + 1, p + 8)) 0 \<lparr>cap_sparks = q, spark_stats = no_sparks\<rparr>
      = Some (1, \<lparr>cap_sparks = pool, spark_stats = no_sparks\<rparr>) \<and> dq_holds pool 1 [24]"
proof -
  from new_holds [of 4 "\<lambda>_. 0"] obtain q where q: "dq_holds q 0 []" "4 < uint (dq_size q)" by auto
  from push_holds [OF q(1), of 16] q(2) have h: "dq_holds (fst (pushWSDeque q 16)) 1 [16]" by simp
  then have h': "dq_holds (cap_sparks \<lparr>cap_sparks = fst (pushWSDeque q 16), spark_stats = no_sparks\<rparr>) 1 [16]" by simp
  from traverse_evacuates_each [OF h', of "\<lambda>(u :: nat) p. (u + 1, p + 8)" 0] h show ?thesis by fastforce
qed

end
