(* ===== verification/Stable.thy ===== *)
theory Stable
  imports HashTable Closures
begin

text \<open>
  Stable pointers and stable names, \<open>rts/Stable.c\<close> and \<open>includes/rts/Stable.h\<close>: a table of
  entries whose free slots are threaded through their \<open>addr\<close> fields, and a hash table from
  object addresses to slots.  The table lives at an address \<open>stable_ptr_table\<close>, entries are 32
  bytes long, and a pointer into the table is a free-list link; the address the C allocator
  returns is an argument of the operations that may allocate.  The heap is seen through the
  closure types and the indirectees of closures.  Every operation runs under \<open>stable_mutex\<close>.

  The size of the table is a 32-bit number here as in \<open>SPT_size\<close>, and allocation does not fail.  The code passes the
  size in bytes through an \<open>int\<close> of \<open>stgReallocBytes\<close>, so that the real program exits when the
  table is to grow to \<open>2 ^ 26\<close> entries; the model says nothing about such tables.
\<close>

section \<open>The code\<close>

record snEntry =
  sn_addr :: StgWord
  sn_old :: StgWord
  sn_ref :: StgWord
  sn_obj :: StgWord

record StableHeap =
  closure_type :: "StgWord \<Rightarrow> ClosureType"
  indirectee :: "StgWord \<Rightarrow> StgWord"

record StableState =
  stable_ptr_table :: StgWord
  sn_entries :: "nat \<Rightarrow> snEntry"
  stable_ptr_free :: StgWord
  SPT_size :: nat
  addrToStableHash :: "HashTable option"

definition INIT_SPT_SIZE :: nat where "INIT_SPT_SIZE = 64"

definition sn_at :: "StgWord \<Rightarrow> nat \<Rightarrow> StgWord" where
  "sn_at table i = table + 32 * of_nat i"

definition sn_index :: "StgWord \<Rightarrow> StgWord \<Rightarrow> nat" where
  "sn_index table p = unat ((p - table) div 32)"

definition set_entry :: "StableState \<Rightarrow> nat \<Rightarrow> snEntry \<Rightarrow> StableState" where
  "set_entry s i e = s\<lparr>sn_entries := (sn_entries s)(i := e)\<rparr>"

text \<open>The loop of \<open>initFreeList\<close> over the \<open>n\<close> entries from \<open>start\<close>, from the last one down.\<close>

primrec init_free_loop :: "StgWord \<Rightarrow> nat \<Rightarrow> nat \<Rightarrow> StgWord \<Rightarrow> (nat \<Rightarrow> snEntry) \<Rightarrow> (nat \<Rightarrow> snEntry)" where
  "init_free_loop table start 0 free es = es"
| "init_free_loop table start (Suc n) free es =
     init_free_loop table start n (sn_at table (start + n))
       (es(start + n := \<lparr>sn_addr = free, sn_old = 0, sn_ref = 0, sn_obj = 0\<rparr>))"

definition initFreeList :: "StableState \<Rightarrow> nat \<Rightarrow> nat \<Rightarrow> StgWord \<Rightarrow> StableState" where
  "initFreeList s start n free =
     s\<lparr>sn_entries := init_free_loop (stable_ptr_table s) start n free (sn_entries s),
       stable_ptr_free := sn_at (stable_ptr_table s) start\<rparr>"

definition initStablePtrTable :: "StableState \<Rightarrow> StgWord \<Rightarrow> StableState" where
  "initStablePtrTable s fresh =
     (if SPT_size s > 0 then s
      else (initFreeList (s\<lparr>SPT_size := INIT_SPT_SIZE, stable_ptr_table := fresh\<rparr>) 1 (INIT_SPT_SIZE - 1) 0)
             \<lparr>addrToStableHash := Some allocHashTable\<rparr>)"

definition exitStablePtrTable :: "StableState \<Rightarrow> StableState" where
  "exitStablePtrTable s = s\<lparr>addrToStableHash := None, stable_ptr_table := 0, SPT_size := 0\<rparr>"

text \<open>\<open>realloc\<close> moves the entries to the address \<open>fresh\<close>; the size is an \<open>unsigned int\<close>.\<close>

definition enlargeStablePtrTable :: "StableState \<Rightarrow> StgWord \<Rightarrow> StableState" where
  "enlargeStablePtrTable s fresh =
     (let old_SPT_size = SPT_size s
      in initFreeList (s\<lparr>SPT_size := (2 * SPT_size s) mod 2 ^ 32, stable_ptr_table := fresh\<rparr>)
           old_SPT_size old_SPT_size 0)"

partial_function (option) remove_ind_loop :: "StableHeap \<Rightarrow> StgWord \<Rightarrow> StgWord \<Rightarrow> StgWord option" where
  "remove_ind_loop h tag q =
     (if closure_type h q = IND \<or> closure_type h q = IND_STATIC \<or> closure_type h q = IND_PERM
      then let q1 = indirectee h q in remove_ind_loop h (GET_CLOSURE_TAG q1) (UNTAG_CLOSURE q1)
      else Some (TAG_CLOSURE tag q))"

definition removeIndirections :: "StableHeap \<Rightarrow> StgWord \<Rightarrow> StgWord option" where
  "removeIndirections h p = remove_ind_loop h (GET_CLOSURE_TAG p) (UNTAG_CLOSURE p)"

definition lookupStableName_locked :: "StableHeap \<Rightarrow> StableState \<Rightarrow> StgWord \<Rightarrow> StgWord \<Rightarrow> (StableState \<times> StgWord) option" where
  "lookupStableName_locked h s fresh p0 = do {
     let s1 = (if stable_ptr_free s = 0 then enlargeStablePtrTable s fresh else s);
     p1 \<leftarrow> removeIndirections h p0;
     let p = UNTAG_CLOSURE p1;
     hash \<leftarrow> addrToStableHash s1;
     sn \<leftarrow> lookupHashTable hash p;
     if sn \<noteq> 0 then (if sn_addr (sn_entries s1 (unat sn)) = p then Some (s1, sn) else None)
     else do {
       let i = sn_index (stable_ptr_table s1) (stable_ptr_free s1);
       let s2 = s1\<lparr>stable_ptr_free := sn_addr (sn_entries s1 i)\<rparr>;
       let s3 = set_entry s2 i ((sn_entries s2 i)\<lparr>sn_ref := 0, sn_addr := p, sn_obj := 0\<rparr>);
       hash' \<leftarrow> insertHashTable hash p (of_nat i);
       Some (s3\<lparr>addrToStableHash := Some hash'\<rparr>, of_nat i)
     }
   }"

definition lookupStableName :: "StableHeap \<Rightarrow> StableState \<Rightarrow> StgWord \<Rightarrow> StgWord \<Rightarrow> StgWord \<Rightarrow> (StableState \<times> StgWord) option" where
  "lookupStableName h s fresh0 fresh p = lookupStableName_locked h (initStablePtrTable s fresh0) fresh p"

definition freeStableName :: "StableState \<Rightarrow> nat \<Rightarrow> StableState option" where
  "freeStableName s i = do {
     let sn = sn_entries s i;
     if sn_obj sn \<noteq> 0 then None
     else do {
       s1 \<leftarrow> (if sn_addr sn \<noteq> 0
              then do { hash \<leftarrow> addrToStableHash s;
                        (hash', d) \<leftarrow> removeHashTable hash (sn_addr sn) 0;
                        Some (s\<lparr>addrToStableHash := Some hash'\<rparr>) }
              else Some s);
       let s2 = set_entry s1 i (sn\<lparr>sn_addr := stable_ptr_free s1\<rparr>);
       Some (s2\<lparr>stable_ptr_free := sn_at (stable_ptr_table s2) i\<rparr>)
     }
   }"

definition getStablePtr :: "StableHeap \<Rightarrow> StableState \<Rightarrow> StgWord \<Rightarrow> StgWord \<Rightarrow> StgWord \<Rightarrow> (StableState \<times> StgWord) option" where
  "getStablePtr h s fresh0 fresh p = do {
     (s1, sn) \<leftarrow> lookupStableName_locked h (initStablePtrTable s fresh0) fresh p;
     let e = sn_entries s1 (unat sn);
     Some (set_entry s1 (unat sn) (e\<lparr>sn_ref := sn_ref e + 1\<rparr>), sn)
   }"

definition deRefStablePtr :: "StableState \<Rightarrow> StgWord \<Rightarrow> StgWord option" where
  "deRefStablePtr s sp =
     (if sn_ref (sn_entries s (unat sp)) > 0 then Some (sn_addr (sn_entries s (unat sp))) else None)"

definition freeStablePtr :: "StableState \<Rightarrow> StgWord \<Rightarrow> StgWord \<Rightarrow> StableState option" where
  "freeStablePtr s0 fresh0 sp = do {
     let s = initStablePtrTable s0 fresh0;
     let i = unat sp;
     let sn = sn_entries s i;
     if \<not> (i < SPT_size s \<and> sn_addr sn \<noteq> 0 \<and> sn_ref sn > 0) then None
     else do {
       let sn1 = sn\<lparr>sn_ref := sn_ref sn - 1\<rparr>;
       let s1 = set_entry s i sn1;
       if sn_obj sn1 = 0 \<and> sn_ref sn1 = 0 then freeStableName s1 i else Some s1
     }
   }"

text \<open>Pointers into the table are free-list links.\<close>

definition is_heap_ptr :: "StableState \<Rightarrow> StgWord \<Rightarrow> bool" where
  "is_heap_ptr s q =
     (q \<noteq> 0 \<and> (q < stable_ptr_table s \<or> q \<ge> sn_at (stable_ptr_table s) (SPT_size s)))"

primrec for_entries :: "(nat \<Rightarrow> 'a \<Rightarrow> 'a option) \<Rightarrow> nat \<Rightarrow> nat \<Rightarrow> 'a \<Rightarrow> 'a option" where
  "for_entries f start 0 s = Some s"
| "for_entries f start (Suc n) s = do { s1 \<leftarrow> f start s; for_entries f (Suc start) n s1 }"

definition mark_entry :: "('u \<Rightarrow> StgWord \<Rightarrow> 'u \<times> StgWord) \<Rightarrow> nat \<Rightarrow> 'u \<times> StableState \<Rightarrow> ('u \<times> StableState) option" where
  "mark_entry evac i us =
     (let (user, s) = us; p = sn_entries s i
      in if is_heap_ptr s (sn_addr p)
         then let p1 = p\<lparr>sn_old := sn_addr p\<rparr>
           in if sn_ref p1 \<noteq> 0
              then let (user1, a) = evac user (sn_addr p1) in Some (user1, set_entry s i (p1\<lparr>sn_addr := a\<rparr>))
              else Some (user, set_entry s i p1)
         else Some (user, s))"

definition markStablePtrTable :: "('u \<Rightarrow> StgWord \<Rightarrow> 'u \<times> StgWord) \<Rightarrow> 'u \<Rightarrow> StableState \<Rightarrow> ('u \<times> StableState) option" where
  "markStablePtrTable evac user s = for_entries (mark_entry evac) 1 (SPT_size s - 1) (user, s)"

definition thread_entry :: "('u \<Rightarrow> StgWord \<Rightarrow> 'u \<times> StgWord) \<Rightarrow> nat \<Rightarrow> 'u \<times> StableState \<Rightarrow> ('u \<times> StableState) option" where
  "thread_entry evac i us =
     (let (user, s) = us; p = sn_entries s i;
          (user1, p1) = (if sn_obj p \<noteq> 0 then let (u, a) = evac user (sn_obj p) in (u, p\<lparr>sn_obj := a\<rparr>) else (user, p));
          (user2, p2) = (if is_heap_ptr s (sn_addr p1) then let (u, a) = evac user1 (sn_addr p1) in (u, p1\<lparr>sn_addr := a\<rparr>)
                         else (user1, p1))
      in Some (user2, set_entry s i p2))"

definition threadStablePtrTable :: "('u \<Rightarrow> StgWord \<Rightarrow> 'u \<times> StgWord) \<Rightarrow> 'u \<Rightarrow> StableState \<Rightarrow> ('u \<times> StableState) option" where
  "threadStablePtrTable evac user s = for_entries (thread_entry evac) 1 (SPT_size s - 1) (user, s)"

definition gc_entry :: "(StgWord \<Rightarrow> StgWord) \<Rightarrow> nat \<Rightarrow> StableState \<Rightarrow> StableState option" where
  "gc_entry isAlive i s =
     (let p0 = sn_entries s i;
          p = (if sn_obj p0 \<noteq> 0 then p0\<lparr>sn_obj := isAlive (sn_obj p0)\<rparr> else p0);
          s1 = set_entry s i p
      in if is_heap_ptr s1 (sn_addr p) \<and> sn_ref p = 0
         then if sn_obj p = 0 then freeStableName s1 i
              else Some (set_entry s1 i (p\<lparr>sn_addr := isAlive (sn_addr p)\<rparr>))
         else Some s1)"

definition gcStablePtrTable :: "(StgWord \<Rightarrow> StgWord) \<Rightarrow> StableState \<Rightarrow> StableState option" where
  "gcStablePtrTable isAlive s = for_entries (gc_entry isAlive) 1 (SPT_size s - 1) s"

definition update_entry :: "bool \<Rightarrow> nat \<Rightarrow> StableState \<Rightarrow> StableState option" where
  "update_entry full i s = do {
     let p = sn_entries s i;
     if sn_addr p = 0 then
       (if sn_old p \<noteq> 0 then do {
          hash \<leftarrow> addrToStableHash s;
          (hash', d) \<leftarrow> removeHashTable hash (sn_old p) 0;
          Some (set_entry (s\<lparr>addrToStableHash := Some hash'\<rparr>) i (p\<lparr>sn_old := 0\<rparr>)) }
        else Some s)
     else if sn_addr p < stable_ptr_table s \<or> sn_addr p \<ge> sn_at (stable_ptr_table s) (SPT_size s) then
       (if full then do {
          hash \<leftarrow> addrToStableHash s;
          hash' \<leftarrow> insertHashTable hash (sn_addr p) (of_nat i);
          Some (s\<lparr>addrToStableHash := Some hash'\<rparr>) }
        else if sn_addr p \<noteq> sn_old p then do {
          hash \<leftarrow> addrToStableHash s;
          (hash', d) \<leftarrow> removeHashTable hash (sn_old p) 0;
          hash'' \<leftarrow> insertHashTable hash' (sn_addr p) (of_nat i);
          Some (s\<lparr>addrToStableHash := Some hash''\<rparr>) }
        else Some s)
     else Some s
   }"

definition updateStablePtrTable :: "bool \<Rightarrow> StableState \<Rightarrow> StableState option" where
  "updateStablePtrTable full s =
     (let s1 = (if full \<and> addrToStableHash s \<noteq> None then s\<lparr>addrToStableHash := Some allocHashTable\<rparr> else s)
      in for_entries (update_entry full) 1 (SPT_size s1 - 1) s1)"

section \<open>The invariant\<close>

primrec sn_list :: "StgWord \<Rightarrow> (nat \<Rightarrow> snEntry) \<Rightarrow> StgWord \<Rightarrow> nat list \<Rightarrow> bool" where
  "sn_list b es p [] = (p = 0)"
| "sn_list b es p (i # is) = (p = sn_at b i \<and> sn_list b es (sn_addr (es i)) is)"

definition table_ok :: "StgWord \<Rightarrow> nat \<Rightarrow> bool" where
  "table_ok b n \<longleftrightarrow> b \<noteq> 0 \<and> unat b + 32 * n < 2 ^ 64 \<and> 0 < n"

definition used :: "StableState \<Rightarrow> nat list \<Rightarrow> nat set" where
  "used s F = {1..<SPT_size s} - set F"

definition names_ok :: "StableState \<Rightarrow> nat list \<Rightarrow> bool" where
  "names_ok s F \<longleftrightarrow> (\<exists>t m. addrToStableHash s = Some t \<and> ht_dict hashWord compareWord t m
     \<and> (\<forall>a d. m a = Some d \<longleftrightarrow> a \<noteq> 0 \<and> (\<exists>i \<in> used s F. sn_addr (sn_entries s i) = a \<and> d = of_nat i)))"

definition slots_ok :: "StableState \<Rightarrow> nat list \<Rightarrow> bool" where
  "slots_ok s F \<longleftrightarrow> table_ok (stable_ptr_table s) (SPT_size s)
     \<and> sn_list (stable_ptr_table s) (sn_entries s) (stable_ptr_free s) F \<and> distinct F \<and> set F \<subseteq> {1..<SPT_size s}
     \<and> (\<forall>i \<in> used s F. sn_addr (sn_entries s i) = 0 \<or> is_heap_ptr s (sn_addr (sn_entries s i)))"

text \<open>
  \<open>st_inv s F\<close>: the slots \<open>F\<close> are the free list, every other slot from 1 on holds an object
  outside the table or none, and the hash table maps exactly the objects to their slots.
\<close>

definition st_inv :: "StableState \<Rightarrow> nat list \<Rightarrow> bool" where
  "st_inv s F \<longleftrightarrow> slots_ok s F \<and> names_ok s F"

lemma names_okI:
  assumes "addrToStableHash s = Some t" "ht_dict hashWord compareWord t m"
    "\<And>a d. m a = Some d \<longleftrightarrow> a \<noteq> 0 \<and> (\<exists>i \<in> used s F. sn_addr (sn_entries s i) = a \<and> d = of_nat i)"
  shows "names_ok s F"
  unfolding names_ok_def using assms by blast

lemma names_okE:
  assumes "names_ok s F"
  obtains t m where "addrToStableHash s = Some t" "ht_dict hashWord compareWord t m"
    "\<And>a d. m a = Some d \<longleftrightarrow> a \<noteq> 0 \<and> (\<exists>i \<in> used s F. sn_addr (sn_entries s i) = a \<and> d = of_nat i)"
  using assms unfolding names_ok_def by blast

lemma table_small: "table_ok b n \<Longrightarrow> i < n \<Longrightarrow> i < 2 ^ 59"
  by (simp add: table_ok_def)

lemma unat_32:
  assumes "32 * i < 2 ^ 64"
  shows "unat (32 * of_nat i :: StgWord) = 32 * i"
proof -
  have "(32 * of_nat i :: StgWord) = of_nat (32 * i)" by simp
  then have "unat (32 * of_nat i :: StgWord) = (32 * i) mod 2 ^ 64" by (simp only: unat_of_nat) simp
  then show ?thesis using assms by simp
qed

lemma unat_sn_at:
  assumes "table_ok b n" "i \<le> n"
  shows "unat (sn_at b i) = unat b + 32 * i"
proof -
  have "32 * i < 2 ^ 64" "unat b + 32 * i < 2 ^ 64" using assms by (auto simp: table_ok_def)
  then have "unat (32 * of_nat i :: StgWord) = 32 * i" by (intro unat_32)
  then show ?thesis
    using \<open>unat b + 32 * i < 2 ^ 64\<close> by (simp add: sn_at_def unat_word_ariths)
qed

lemma sn_index_at:
  assumes "table_ok b n" "i < n"
  shows "sn_index b (sn_at b i) = i"
proof -
  have "32 * i < 2 ^ 64" using assms by (auto simp: table_ok_def)
  then have "unat (32 * of_nat i :: StgWord) = 32 * i" by (rule unat_32)
  then show ?thesis by (simp add: sn_index_def sn_at_def unat_div)
qed

lemma sn_at_nonnull:
  assumes "table_ok b n" "i < n"
  shows "sn_at b i \<noteq> 0" "\<not> is_heap_ptr s (sn_at b i) \<or> stable_ptr_table s \<noteq> b \<or> SPT_size s \<noteq> n"
proof -
  have u: "unat (sn_at b i) = unat b + 32 * i" using assms by (intro unat_sn_at) auto
  have "unat b \<noteq> 0" using assms(1) by (simp add: table_ok_def unsigned_eq_0_iff)
  then show "sn_at b i \<noteq> 0" using u by (metis add_is_0 unsigned_0)
  have "unat (sn_at b n) = unat b + 32 * n" using assms by (intro unat_sn_at) auto
  then show "\<not> is_heap_ptr s (sn_at b i) \<or> stable_ptr_table s \<noteq> b \<or> SPT_size s \<noteq> n"
    using u assms(2) by (auto simp: is_heap_ptr_def word_less_nat_alt word_le_nat_alt)
qed

lemma of_nat_slot: "i < 2 ^ 59 \<Longrightarrow> unat (of_nat i :: StgWord) = i"
  by (simp add: unat_of_nat)

lemma sn_list_cong:
  "(\<And>i. i \<in> set is \<Longrightarrow> sn_addr (es i) = sn_addr (es' i)) \<Longrightarrow> sn_list b es p is = sn_list b es' p is"
  by (induction "is" arbitrary: p) auto

lemma sn_list_null: "table_ok b n \<Longrightarrow> sn_list b es p F \<Longrightarrow> set F \<subseteq> {1..<n} \<Longrightarrow> p = 0 \<longleftrightarrow> F = []"
  using sn_at_nonnull(1) by (cases F) auto

lemma init_free_loop_other:
  "i < start \<or> start + n \<le> i \<Longrightarrow> init_free_loop b start n free es i = es i"
  by (induction n arbitrary: free es) auto

lemma init_free_loop_list:
  assumes "sn_list b es free G" "set G \<inter> {start..<start + n} = {}"
  shows "sn_list b (init_free_loop b start n free es) (if n = 0 then free else sn_at b start) ([start..<start + n] @ G)"
  using assms
proof (induction n arbitrary: free es G)
  case 0
  then show ?case by simp
next
  case (Suc n)
  define es1 where "es1 = es(start + n := \<lparr>sn_addr = free, sn_old = 0, sn_ref = 0, sn_obj = 0\<rparr>)"
  have "sn_list b es1 free G"
    using Suc.prems by (subst sn_list_cong [of G _ es]) (auto simp: es1_def)
  then have l: "sn_list b es1 (sn_at b (start + n)) ((start + n) # G)" by (simp add: es1_def)
  have "set ((start + n) # G) \<inter> {start..<start + n} = {}" using Suc.prems(2) by auto
  from Suc.IH [OF l this] show ?case
    unfolding init_free_loop.simps es1_def [symmetric] by (cases "n = 0") auto
qed

section \<open>Allocation\<close>

text \<open>A region the allocator may hand out for the table: it does not overlap the objects in use.\<close>

definition region_ok :: "StableState \<Rightarrow> StgWord \<Rightarrow> nat \<Rightarrow> bool" where
  "region_ok s fresh n \<longleftrightarrow> table_ok fresh n \<and> n < 2 ^ 32
     \<and> (\<forall>i \<in> {1..<SPT_size s}. sn_addr (sn_entries s i) = 0
          \<or> is_heap_ptr (s\<lparr>stable_ptr_table := fresh, SPT_size := n\<rparr>) (sn_addr (sn_entries s i)))"

lemma is_heap_ptr_cong:
  "stable_ptr_table s' = stable_ptr_table s \<Longrightarrow> SPT_size s' = SPT_size s \<Longrightarrow> is_heap_ptr s' = is_heap_ptr s"
  by (intro ext) (simp add: is_heap_ptr_def)

lemma enlarge_inv:
  assumes inv: "st_inv s []" and fresh: "region_ok s fresh (2 * SPT_size s)"
  shows "st_inv (enlargeStablePtrTable s fresh) [SPT_size s..<2 * SPT_size s]"
    and "SPT_size (enlargeStablePtrTable s fresh) = 2 * SPT_size s"
    and "used (enlargeStablePtrTable s fresh) [SPT_size s..<2 * SPT_size s] = used s []"
    and "\<And>i. i \<in> used s [] \<Longrightarrow> sn_entries (enlargeStablePtrTable s fresh) i = sn_entries s i"
proof -
  let ?s = "enlargeStablePtrTable s fresh" and ?n = "SPT_size s"
  let ?F = "[?n..<2 * ?n]"
  have n: "2 * ?n < 2 ^ 32" "0 < ?n" using fresh by (auto simp: region_ok_def table_ok_def)
  then have sz: "SPT_size ?s = 2 * ?n" by (simp add: enlargeStablePtrTable_def Let_def initFreeList_def)
  then show "SPT_size ?s = 2 * ?n" .
  have fields: "stable_ptr_table ?s = fresh" "stable_ptr_free ?s = sn_at fresh ?n" "addrToStableHash ?s = addrToStableHash s"
    "sn_entries ?s = init_free_loop fresh ?n ?n 0 (sn_entries s)"
    by (simp_all add: enlargeStablePtrTable_def Let_def initFreeList_def)
  show u: "used ?s ?F = used s []" using n by (auto simp: used_def sz)
  show e: "sn_entries ?s i = sn_entries s i" if "i \<in> used s []" for i
    unfolding fields using that by (intro init_free_loop_other) (auto simp: used_def)
  have "sn_list fresh (sn_entries ?s) (sn_at fresh ?n) ?F"
    using init_free_loop_list [of fresh "sn_entries s" 0 "[]" ?n ?n] n by (simp add: fields mult_2)
  moreover have "is_heap_ptr ?s = is_heap_ptr (s\<lparr>stable_ptr_table := fresh, SPT_size := 2 * ?n\<rparr>)"
    by (rule is_heap_ptr_cong) (simp_all add: fields sz)
  moreover have "used s [] = {1..<?n}" by (simp add: used_def)
  ultimately have "slots_ok ?s ?F"
    using fresh n e by (auto simp: slots_ok_def region_ok_def fields sz u)
  moreover have "names_ok ?s ?F"
    using inv e unfolding st_inv_def names_ok_def u fields by (metis (no_types, lifting))
  ultimately show "st_inv ?s ?F" by (simp add: st_inv_def)
qed

lemma init_inv:
  assumes "SPT_size s = 0" "table_ok fresh 64"
  shows "st_inv (initStablePtrTable s fresh) [1..<64]" and "used (initStablePtrTable s fresh) [1..<64] = {}"
proof -
  let ?s = "initStablePtrTable s fresh"
  have f: "stable_ptr_table ?s = fresh" "SPT_size ?s = 64" "stable_ptr_free ?s = sn_at fresh 1"
    "sn_entries ?s = init_free_loop fresh 1 63 0 (sn_entries s)" "addrToStableHash ?s = Some allocHashTable"
    using assms(1) by (simp_all add: initStablePtrTable_def initFreeList_def INIT_SPT_SIZE_def)
  show u: "used ?s [1..<64] = {}" by (auto simp: used_def f)
  have "sn_list fresh (init_free_loop fresh 1 63 0 (sn_entries s)) (sn_at fresh 1) [1..<64]"
    using init_free_loop_list [of fresh "sn_entries s" 0 "[]" 1 63] by simp
  then have "slots_ok ?s [1..<64]" using assms(2) unfolding slots_ok_def u f by auto
  moreover have "names_ok ?s [1..<64]" unfolding names_ok_def u f using word_dict_empty by auto
  ultimately show "st_inv ?s [1..<64]" by (simp add: st_inv_def)
qed

text \<open>Taking the first free slot for a new object.\<close>

lemma slot_lt:
  assumes "slots_ok s F" "i \<in> used s F \<or> i \<in> set F"
  shows "i < 2 ^ 59" "0 < i" "i < SPT_size s"
  using assms table_small [of "stable_ptr_table s" "SPT_size s" i] by (auto simp: slots_ok_def used_def)

lemma new_name_inv:
  assumes inv: "st_inv s (i # F)" and p: "is_heap_ptr s p" and hash: "addrToStableHash s = Some t"
    and new: "lookupHashTable t p = Some 0"
    and s': "s' = set_entry (s\<lparr>stable_ptr_free := sn_addr (sn_entries s i)\<rparr>) i ((sn_entries s i)\<lparr>sn_ref := 0, sn_addr := p, sn_obj := 0\<rparr>)"
  shows "\<exists>t'. insertHashTable t p (of_nat i) = Some t' \<and> st_inv (s'\<lparr>addrToStableHash := Some t'\<rparr>) F"
proof -
  have ok: "slots_ok s (i # F)" using inv by (simp add: st_inv_def)
  have i: "i < 2 ^ 59" "0 < i" "i < SPT_size s" using slot_lt [OF ok, of i] by auto
  have p0: "p \<noteq> 0" using p by (simp add: is_heap_ptr_def)
  from inv hash obtain m where d: "ht_dict hashWord compareWord t m"
    and m: "\<And>a d. m a = Some d \<longleftrightarrow> a \<noteq> 0 \<and> (\<exists>j \<in> used s (i # F). sn_addr (sn_entries s j) = a \<and> d = of_nat j)"
    unfolding st_inv_def names_ok_def by auto
  have nz: "(of_nat j :: StgWord) \<noteq> 0" if "0 < j" "j < 2 ^ 59" for j
    using of_nat_slot [OF that(2)] that(1) by auto
  have none: "m p = None"
  proof (cases "m p")
    case (Some x)
    with m [of p x] obtain j where j: "j \<in> used s (i # F)" "x = of_nat j" by blast
    have "0 < j" "j < 2 ^ 59" using slot_lt [OF ok, of j] j(1) by simp_all
    then have "x \<noteq> 0" unfolding j(2) by (rule nz)
    then show ?thesis using new word_hash.table.dict_lookup [OF d, of p] Some by simp
  qed simp
  from word_dict_insert [OF d none nz [OF i(2,1)]] obtain t' where t': "insertHashTable t p (of_nat i) = Some t'"
    "ht_dict hashWord compareWord t' (m(p \<mapsto> of_nat i))" by blast
  let ?s = "s'\<lparr>addrToStableHash := Some t'\<rparr>"
  have F: "i \<notin> set F" "distinct F" "set F \<subseteq> {1..<SPT_size s}" using ok by (auto simp: slots_ok_def)
  have u: "used ?s F = insert i (used s (i # F))" using i F by (auto simp: used_def s' set_entry_def)
  have es: "sn_entries ?s = sn_entries s'" by simp
  have e: "sn_addr (sn_entries s' j) = (if j = i then p else sn_addr (sn_entries s j))" for j
    by (simp add: s' set_entry_def)
  have hp: "is_heap_ptr ?s = is_heap_ptr s" by (rule is_heap_ptr_cong) (simp_all add: s' set_entry_def)
  have "sn_list (stable_ptr_table s) (sn_entries ?s) (sn_addr (sn_entries s i)) F"
    using ok F by (subst sn_list_cong [of F _ "sn_entries s"]) (auto simp: slots_ok_def e)
  then have "slots_ok ?s F"
    using ok F p unfolding slots_ok_def u hp by (auto simp: s' set_entry_def)
  moreover have m': "(m(p \<mapsto> of_nat i)) a = Some d \<longleftrightarrow> a \<noteq> 0 \<and> (\<exists>j \<in> used ?s F. sn_addr (sn_entries ?s j) = a \<and> d = of_nat j)" for a d
  proof -
    have "i \<notin> used s (i # F)" by (simp add: used_def)
    moreover have "\<not> (\<exists>j \<in> used s (i # F). sn_addr (sn_entries s j) = p)" using m [of p] none p0 by auto
    ultimately show ?thesis unfolding u es e using m [of a d] p0 by (cases "a = p") auto
  qed
  have "names_ok ?s F" by (rule names_okI [OF _ t'(2) m']) simp
  ultimately show ?thesis using t'(1) by (auto simp: st_inv_def)
qed

definition real_object :: "StableHeap \<Rightarrow> StgWord \<Rightarrow> StgWord option" where
  "real_object h p = map_option UNTAG_CLOSURE (removeIndirections h p)"

text \<open>
  Looking a name up: the table may grow, no entry in use changes, and the answer is a slot in
  use that holds the object; a slot that was not in use before starts without references.
\<close>

lemma lookup_inv:
  assumes inv: "st_inv s F" and obj: "real_object h p = Some q"
    and fresh: "F = [] \<Longrightarrow> region_ok s fresh (2 * SPT_size s)"
    and q: "is_heap_ptr (if F = [] then enlargeStablePtrTable s fresh else s) q"
  shows "\<exists>s' F' i. lookupStableName_locked h s fresh p = Some (s', of_nat i) \<and> st_inv s' F'
     \<and> i \<in> used s' F' \<and> i < 2 ^ 59 \<and> sn_addr (sn_entries s' i) = q
     \<and> used s F \<subseteq> used s' F' \<and> used s' F' \<subseteq> insert i (used s F)
     \<and> (\<forall>j \<in> used s F. sn_entries s' j = sn_entries s j)
     \<and> (i \<notin> used s F \<longrightarrow> sn_ref (sn_entries s' i) = 0 \<and> sn_obj (sn_entries s' i) = 0)"
proof -
  define s1 where "s1 = (if stable_ptr_free s = 0 then enlargeStablePtrTable s fresh else s)"
  have ok0: "slots_ok s F" using inv by (simp add: st_inv_def)
  have nul: "stable_ptr_free s = 0 \<longleftrightarrow> F = []"
    using sn_list_null [of "stable_ptr_table s" "SPT_size s" "sn_entries s" "stable_ptr_free s" F] ok0
    by (auto simp: slots_ok_def)
  have "\<exists>i G. st_inv s1 (i # G) \<and> used s1 (i # G) = used s F \<and> (\<forall>j \<in> used s F. sn_entries s1 j = sn_entries s j)"
  proof (cases F)
    case Nil
    have f: "region_ok s fresh (2 * SPT_size s)" and iv: "st_inv s []" using Nil fresh inv by auto
    have "SPT_size s < 2 * SPT_size s" using f by (auto simp: region_ok_def table_ok_def)
    then have c: "[SPT_size s..<2 * SPT_size s] = SPT_size s # [Suc (SPT_size s)..<2 * SPT_size s]"
      by (simp add: upt_conv_Cons)
    have "s1 = enlargeStablePtrTable s fresh" using nul Nil by (simp add: s1_def)
    then show ?thesis using enlarge_inv [OF iv f] unfolding c Nil by blast
  next
    case (Cons i G)
    then show ?thesis using inv nul by (auto simp: s1_def)
  qed
  then obtain i G where inv1: "st_inv s1 (i # G)" and u1: "used s1 (i # G) = used s F"
    and e1: "\<And>j. j \<in> used s F \<Longrightarrow> sn_entries s1 j = sn_entries s j" by blast
  have ok1: "slots_ok s1 (i # G)" using inv1 by (simp add: st_inv_def)
  have q1: "is_heap_ptr s1 q" using q nul by (simp add: s1_def)
  then have q0: "q \<noteq> 0" by (simp add: is_heap_ptr_def)
  from obj obtain q' where q': "removeIndirections h p = Some q'" "UNTAG_CLOSURE q' = q" by (auto simp: real_object_def)
  from inv1 have "names_ok s1 (i # G)" by (simp add: st_inv_def)
  then obtain t m where t: "addrToStableHash s1 = Some t" and d: "ht_dict hashWord compareWord t m"
    and m: "\<And>a d. m a = Some d \<longleftrightarrow> a \<noteq> 0 \<and> (\<exists>i \<in> used s1 (i # G). sn_addr (sn_entries s1 i) = a \<and> d = of_nat i)"
    by (rule names_okE) blast
  note look = word_hash.table.dict_lookup [OF d, of q]
  show ?thesis
  proof (cases "m q")
    case (Some x)
    with m [of q x] obtain j where j: "j \<in> used s1 (i # G)" "sn_addr (sn_entries s1 j) = q" "x = of_nat j" by blast
    have b: "j < 2 ^ 59" "0 < j" using slot_lt [OF ok1, of j] j(1) by auto
    have x: "unat x = j" "x \<noteq> 0" using of_nat_slot [OF b(1)] b(2) by (auto simp: j(3))
    have "lookupStableName_locked h s fresh p = Some (s1, of_nat j)"
      using q' t look Some x j by (simp add: lookupStableName_locked_def s1_def [symmetric] Let_def)
    then show ?thesis
      using inv1 j b u1 e1 by (intro exI [of _ s1] exI [of _ "i # G"] exI [of _ j]) auto
  next
    case None
    then have l0: "lookupHashTable t q = Some 0" using look by simp
    have b: "i < 2 ^ 59" "0 < i" "i < SPT_size s1" using slot_lt [OF ok1, of i] by auto
    have ix: "sn_index (stable_ptr_table s1) (stable_ptr_free s1) = i"
      using ok1 b(3) sn_index_at [of "stable_ptr_table s1" "SPT_size s1" i] by (simp add: slots_ok_def)
    define s2 where "s2 = set_entry (s1\<lparr>stable_ptr_free := sn_addr (sn_entries s1 i)\<rparr>) i
        ((sn_entries s1 i)\<lparr>sn_ref := 0, sn_addr := q, sn_obj := 0\<rparr>)"
    from new_name_inv [OF inv1 q1 t l0 s2_def] obtain t' where t': "insertHashTable t q (of_nat i) = Some t'"
      and inv2: "st_inv (s2\<lparr>addrToStableHash := Some t'\<rparr>) G" by blast
    let ?s = "s2\<lparr>addrToStableHash := Some t'\<rparr>"
    have "lookupStableName_locked h s fresh p = Some (?s, of_nat i)"
      using q' t l0 ix t' by (simp add: lookupStableName_locked_def s1_def [symmetric] Let_def s2_def)
    moreover have "i \<notin> set G" using ok1 by (simp add: slots_ok_def)
    then have u2: "used ?s G = insert i (used s F)"
      unfolding u1 [symmetric] using b by (auto simp: used_def s2_def set_entry_def)
    moreover have "i \<notin> used s F" unfolding u1 [symmetric] by (simp add: used_def)
    ultimately show ?thesis
      using inv2 b e1 by (intro exI [of _ ?s] exI [of _ G] exI [of _ i]) (auto simp: s2_def set_entry_def)
  qed
qed

section \<open>Release\<close>

lemma addr_unique:
  assumes "names_ok s F" "slots_ok s F" "i \<in> used s F" "j \<in> used s F"
    "sn_addr (sn_entries s i) = sn_addr (sn_entries s j)" "sn_addr (sn_entries s i) \<noteq> 0"
  shows "i = j"
proof -
  from assms(1) obtain t m where "addrToStableHash s = Some t" "ht_dict hashWord compareWord t m"
    and m: "\<And>a d. m a = Some d \<longleftrightarrow> a \<noteq> 0 \<and> (\<exists>i \<in> used s F. sn_addr (sn_entries s i) = a \<and> d = of_nat i)"
    by (rule names_okE) blast
  have "m (sn_addr (sn_entries s i)) = Some (of_nat i)"
    using m [of "sn_addr (sn_entries s i)" "of_nat i"] assms(3,6) by blast
  moreover have "m (sn_addr (sn_entries s i)) = Some (of_nat j)"
    using m [of "sn_addr (sn_entries s i)" "of_nat j"] assms(4-6) by (simp only:) blast
  ultimately have "(of_nat i :: StgWord) = of_nat j" by simp
  then show ?thesis using of_nat_slot slot_lt(1) [OF assms(2)] assms(3,4) by metis
qed

text \<open>Changing an entry without its address keeps the invariant.\<close>

lemma set_entry_inv:
  assumes "st_inv s F" "sn_addr e = sn_addr (sn_entries s i)"
  shows "st_inv (set_entry s i e) F"
proof -
  let ?s = "set_entry s i e"
  have f: "stable_ptr_table ?s = stable_ptr_table s" "SPT_size ?s = SPT_size s" "stable_ptr_free ?s = stable_ptr_free s"
    "addrToStableHash ?s = addrToStableHash s" by (simp_all add: set_entry_def)
  have a: "sn_addr (sn_entries ?s j) = sn_addr (sn_entries s j)" for j using assms(2) by (simp add: set_entry_def)
  have u: "used ?s F = used s F" by (simp add: used_def f)
  have "is_heap_ptr ?s = is_heap_ptr s" by (rule is_heap_ptr_cong) (simp_all add: f)
  moreover have "sn_list b (sn_entries ?s) p F = sn_list b (sn_entries s) p F" for b p by (rule sn_list_cong) (simp add: a)
  ultimately show ?thesis using assms(1) unfolding st_inv_def slots_ok_def names_ok_def u a f by simp
qed

lemma freeStableName_inv:
  assumes inv: "st_inv s F" and i: "i \<in> used s F" and obj: "sn_obj (sn_entries s i) = 0"
  shows "\<exists>s'. freeStableName s i = Some s' \<and> st_inv s' (i # F)
     \<and> SPT_size s' = SPT_size s \<and> stable_ptr_table s' = stable_ptr_table s
     \<and> (\<forall>j. j \<noteq> i \<longrightarrow> sn_entries s' j = sn_entries s j)"
proof -
  have ok: "slots_ok s F" and nm: "names_ok s F" using inv by (auto simp: st_inv_def)
  let ?a = "sn_addr (sn_entries s i)"
  from nm obtain t m where t: "addrToStableHash s = Some t" and d: "ht_dict hashWord compareWord t m"
    and m: "\<And>a d. m a = Some d \<longleftrightarrow> a \<noteq> 0 \<and> (\<exists>i \<in> used s F. sn_addr (sn_entries s i) = a \<and> d = of_nat i)"
    by (rule names_okE) blast
  from word_dict_remove [OF d, of ?a] obtain t1 x where t1: "removeHashTable t ?a 0 = Some (t1, x)"
    "ht_dict hashWord compareWord t1 (m(?a := None))" by blast
  define t' m' where "t' = (if ?a \<noteq> 0 then t1 else t)" and "m' = (if ?a \<noteq> 0 then m(?a := None) else m)"
  have d': "ht_dict hashWord compareWord t' m'" using d t1 by (simp add: t'_def m'_def)
  define s' where "s' = s\<lparr>addrToStableHash := Some t', stable_ptr_free := sn_at (stable_ptr_table s) i,
      sn_entries := (sn_entries s)(i := (sn_entries s i)\<lparr>sn_addr := stable_ptr_free s\<rparr>)\<rparr>"
  have fr: "freeStableName s i = Some s'"
    using obj t t1 by (cases s) (auto simp: freeStableName_def Let_def s'_def t'_def set_entry_def)
  have b: "i < SPT_size s" "0 < i" "i \<notin> set F" using i by (auto simp: used_def)
  have u: "used s' (i # F) = used s F - {i}" by (auto simp: used_def s'_def)
  have e: "j \<noteq> i \<Longrightarrow> sn_entries s' j = sn_entries s j" for j by (simp add: s'_def)
  have hp: "is_heap_ptr s' = is_heap_ptr s" by (rule is_heap_ptr_cong) (simp_all add: s'_def)
  have "sn_list (stable_ptr_table s) (sn_entries s') (stable_ptr_free s) F"
    using ok b by (subst sn_list_cong [of F _ "sn_entries s"]) (auto simp: slots_ok_def s'_def)
  then have "slots_ok s' (i # F)"
    using ok b e unfolding slots_ok_def u hp by (auto simp: s'_def)
  moreover have "names_ok s' (i # F)"
  proof (rule names_okI [OF _ d'])
    show "m' a = Some dd \<longleftrightarrow> a \<noteq> 0 \<and> (\<exists>j \<in> used s' (i # F). sn_addr (sn_entries s' j) = a \<and> dd = of_nat j)" for a dd
    proof -
      have ex: "(\<exists>j \<in> used s' (i # F). sn_addr (sn_entries s' j) = a \<and> dd = of_nat j)
          \<longleftrightarrow> (\<exists>j \<in> used s F. j \<noteq> i \<and> sn_addr (sn_entries s j) = a \<and> dd = of_nat j)"
        unfolding u using e by auto
      have m0: "m 0 = None" using m [of 0 "the (m 0)"] by (cases "m 0") auto
      have ma: "m' a = (if a = ?a then None else m a)" using m0 by (simp add: m'_def)
      show ?thesis
      proof (cases "a = ?a")
        case True
        have "j = i" if "a \<noteq> 0" "j \<in> used s F" "sn_addr (sn_entries s j) = a" for j
          using addr_unique [OF nm ok that(2) i] that True by simp
        then show ?thesis unfolding ex ma using True by auto
      next
        case False
        have "(\<exists>j \<in> used s F. j \<noteq> i \<and> sn_addr (sn_entries s j) = a \<and> dd = of_nat j)
            \<longleftrightarrow> (\<exists>j \<in> used s F. sn_addr (sn_entries s j) = a \<and> dd = of_nat j)"
          by (rule bex_cong [OF refl]) (use False in auto)
        then show ?thesis unfolding ex ma using False m [of a dd] by (simp only: if_False)
      qed
    qed
  qed (simp add: s'_def)
  ultimately show ?thesis using fr e by (auto simp: st_inv_def s'_def)
qed

section \<open>Rebuilding the hash table after a major collection\<close>

text \<open>
  After the collector has moved the objects, the hash table is rebuilt slot by slot.  An entry
  whose address is null asks for its old address to be removed, so the rebuilt table is right
  when no such old address is the address of an object in use.
\<close>

definition no_stale_old :: "StableState \<Rightarrow> nat list \<Rightarrow> bool" where
  "no_stale_old s F \<longleftrightarrow> (\<forall>i \<in> {1..<SPT_size s}. sn_addr (sn_entries s i) = 0 \<longrightarrow>
     (\<forall>j \<in> used s F. sn_addr (sn_entries s j) \<noteq> 0 \<longrightarrow> sn_addr (sn_entries s j) \<noteq> sn_old (sn_entries s i)))"

definition addrs_distinct :: "StableState \<Rightarrow> nat list \<Rightarrow> bool" where
  "addrs_distinct s F \<longleftrightarrow> (\<forall>i \<in> used s F. \<forall>j \<in> used s F.
     sn_addr (sn_entries s i) = sn_addr (sn_entries s j) \<and> sn_addr (sn_entries s i) \<noteq> 0 \<longrightarrow> i = j)"

definition same_slots :: "StableState \<Rightarrow> StableState \<Rightarrow> bool" where
  "same_slots s s' \<longleftrightarrow> stable_ptr_table s' = stable_ptr_table s \<and> SPT_size s' = SPT_size s
     \<and> stable_ptr_free s' = stable_ptr_free s
     \<and> (\<forall>i. sn_addr (sn_entries s' i) = sn_addr (sn_entries s i) \<and> sn_ref (sn_entries s' i) = sn_ref (sn_entries s i)
          \<and> sn_obj (sn_entries s' i) = sn_obj (sn_entries s i)
          \<and> (sn_old (sn_entries s' i) = sn_old (sn_entries s i) \<or> sn_old (sn_entries s' i) = 0))"

lemma same_slotsD:
  assumes "same_slots s s'"
  shows "used s' F = used s F" "is_heap_ptr s' = is_heap_ptr s" "sn_addr (sn_entries s' i) = sn_addr (sn_entries s i)"
    "stable_ptr_table s' = stable_ptr_table s" "SPT_size s' = SPT_size s"
  using assms by (auto simp: same_slots_def used_def intro: is_heap_ptr_cong)

lemma same_slots_ok: "same_slots s s' \<Longrightarrow> slots_ok s F \<Longrightarrow> slots_ok s' F"
  using sn_list_cong [of F "sn_entries s'" "sn_entries s"]
  unfolding slots_ok_def same_slots_def by (auto simp: used_def is_heap_ptr_def)

text \<open>The hash table holds exactly the objects in slots below \<open>k\<close>.\<close>

definition names_below :: "StableState \<Rightarrow> nat list \<Rightarrow> nat \<Rightarrow> bool" where
  "names_below s F k \<longleftrightarrow> (\<exists>t m. addrToStableHash s = Some t \<and> ht_dict hashWord compareWord t m
     \<and> (\<forall>a d. m a = Some d \<longleftrightarrow> a \<noteq> 0 \<and> (\<exists>i \<in> used s F. i < k \<and> sn_addr (sn_entries s i) = a \<and> d = of_nat i)))"

lemma names_belowI:
  assumes "addrToStableHash s = Some t" "ht_dict hashWord compareWord t m"
    "\<And>a d. m a = Some d \<longleftrightarrow> a \<noteq> 0 \<and> (\<exists>i \<in> used s F. i < k \<and> sn_addr (sn_entries s i) = a \<and> d = of_nat i)"
  shows "names_below s F k"
  unfolding names_below_def using assms by blast

lemma free_is_link:
  assumes ok: "slots_ok s F" and i: "i \<in> set F"
  shows "\<not> is_heap_ptr s (sn_addr (sn_entries s i))"
proof -
  have "sn_list b es p G \<Longrightarrow> i \<in> set G \<Longrightarrow> sn_addr (es i) = 0 \<or> (\<exists>j \<in> set G. sn_addr (es i) = sn_at b j)" for b es p G
  proof (induction G arbitrary: p)
    case (Cons j G)
    then show ?case by (cases G) auto
  qed simp
  from this [of "stable_ptr_table s" "sn_entries s" "stable_ptr_free s" F] ok i
  consider "sn_addr (sn_entries s i) = 0" | j where "j \<in> set F" "sn_addr (sn_entries s i) = sn_at (stable_ptr_table s) j"
    by (auto simp: slots_ok_def)
  then show ?thesis
  proof cases
    case 2
    then have "j < SPT_size s" using ok by (auto simp: slots_ok_def)
    then show ?thesis using sn_at_nonnull(2) [of "stable_ptr_table s" "SPT_size s" j s] ok 2 by (auto simp: slots_ok_def)
  qed (simp add: is_heap_ptr_def)
qed

lemma update_entry_step:
  assumes ok: "slots_ok s F" and st: "no_stale_old s F" and un: "addrs_distinct s F"
    and below: "names_below s F k" and k: "k < SPT_size s" "0 < k"
  shows "\<exists>s'. update_entry True k s = Some s' \<and> same_slots s s' \<and> names_below s' F (Suc k)"
proof -
  let ?e = "sn_entries s k"
  from below obtain t m where t: "addrToStableHash s = Some t" and d: "ht_dict hashWord compareWord t m"
    and m: "\<And>a d. m a = Some d \<longleftrightarrow> a \<noteq> 0 \<and> (\<exists>i \<in> used s F. i < k \<and> sn_addr (sn_entries s i) = a \<and> d = of_nat i)"
    unfolding names_below_def by blast
  have ss: "same_slots s s" by (simp add: same_slots_def)
  consider (null) "sn_addr ?e = 0" | (heap) "is_heap_ptr s (sn_addr ?e)" | (link) "sn_addr ?e \<noteq> 0" "\<not> is_heap_ptr s (sn_addr ?e)"
    by blast
  then show ?thesis
  proof cases
    case null
    have same: "(\<exists>i \<in> used s F. i < Suc k \<and> sn_addr (sn_entries s i) = a \<and> d = of_nat i)
        \<longleftrightarrow> (\<exists>i \<in> used s F. i < k \<and> sn_addr (sn_entries s i) = a \<and> d = of_nat i)" if "a \<noteq> 0" for a d
      by (rule bex_cong [OF refl]) (use null that in \<open>auto simp: less_Suc_eq\<close>)
    have m': "m a = Some d \<longleftrightarrow> a \<noteq> 0 \<and> (\<exists>i \<in> used s F. i < Suc k \<and> sn_addr (sn_entries s i) = a \<and> d = of_nat i)" for a d
      using m [of a d] same [of a d] by (cases "a = 0") simp_all
    show ?thesis
    proof (cases "sn_old ?e = 0")
      case True
      then have "update_entry True k s = Some s" using null by (simp add: update_entry_def)
      moreover have "names_below s F (Suc k)" by (rule names_belowI [OF t d m'])
      ultimately show ?thesis using ss by blast
    next
      case False
      from word_dict_remove [OF d, of "sn_old ?e"] obtain t' x where t': "removeHashTable t (sn_old ?e) 0 = Some (t', x)"
        "ht_dict hashWord compareWord t' (m(sn_old ?e := None))" by blast
      have "m (sn_old ?e) = None"
      proof (rule ccontr)
        assume "m (sn_old ?e) \<noteq> None"
        then obtain x where "m (sn_old ?e) = Some x" by blast
        then obtain i where "i \<in> used s F" "sn_addr (sn_entries s i) = sn_old ?e" using m by blast
        moreover have "k \<in> {1..<SPT_size s}" using k by simp
        ultimately show False using st null False unfolding no_stale_old_def by metis
      qed
      then have mm: "m(sn_old ?e := None) = m" by (simp add: fun_upd_idem)
      let ?s = "set_entry (s\<lparr>addrToStableHash := Some t'\<rparr>) k (?e\<lparr>sn_old := 0\<rparr>)"
      have "update_entry True k s = Some ?s" using null False t t' by (simp add: update_entry_def)
      moreover have s': "same_slots s ?s" by (simp add: same_slots_def set_entry_def)
      moreover have "addrToStableHash ?s = Some t'" by (simp add: set_entry_def)
      then have "names_below ?s F (Suc k)"
        using t'(2) m' by (intro names_belowI) (simp_all only: mm same_slotsD(1,3) [OF s'])
      ultimately show ?thesis by blast
    qed
  next
    case heap
    have u: "k \<in> used s F" using free_is_link [OF ok, of k] heap k by (auto simp: used_def)
    have nz: "sn_addr ?e \<noteq> 0" using heap by (simp add: is_heap_ptr_def)
    have none: "m (sn_addr ?e) = None"
    proof (rule ccontr)
      assume "m (sn_addr ?e) \<noteq> None"
      then obtain x where "m (sn_addr ?e) = Some x" by blast
      then obtain i where i: "i \<in> used s F" "i < k" "sn_addr (sn_entries s i) = sn_addr ?e" using m by blast
      then have "i = k" using un u nz unfolding addrs_distinct_def by simp
      then show False using i by simp
    qed
    have kz: "(of_nat k :: StgWord) \<noteq> 0"
      using of_nat_slot [of k] slot_lt(1) [OF ok, of k] u k by auto
    from word_dict_insert [OF d none kz] obtain t' where t': "insertHashTable t (sn_addr ?e) (of_nat k) = Some t'"
      "ht_dict hashWord compareWord t' (m(sn_addr ?e \<mapsto> of_nat k))" by blast
    let ?s = "s\<lparr>addrToStableHash := Some t'\<rparr>"
    have "update_entry True k s = Some ?s" using heap nz t t' by (auto simp: update_entry_def is_heap_ptr_def)
    moreover have s': "same_slots s ?s" by (simp add: same_slots_def)
    moreover have "(m(sn_addr ?e \<mapsto> of_nat k)) a = Some d
        \<longleftrightarrow> a \<noteq> 0 \<and> (\<exists>i \<in> used s F. i < Suc k \<and> sn_addr (sn_entries s i) = a \<and> d = of_nat i)" for a d
    proof (cases "a = sn_addr ?e")
      case True
      have "i = k" if "i \<in> used s F" "sn_addr (sn_entries s i) = a" for i
        using un u nz that True unfolding addrs_distinct_def by simp
      then show ?thesis using True nz u by auto
    next
      case False
      have "(\<exists>i \<in> used s F. i < Suc k \<and> sn_addr (sn_entries s i) = a \<and> d = of_nat i)
          \<longleftrightarrow> (\<exists>i \<in> used s F. i < k \<and> sn_addr (sn_entries s i) = a \<and> d = of_nat i)"
        by (rule bex_cong [OF refl]) (use False in \<open>auto simp: less_Suc_eq\<close>)
      then show ?thesis using m [of a d] False by simp
    qed
    then have m': "(m(sn_addr ?e \<mapsto> of_nat k)) a = Some d
        \<longleftrightarrow> a \<noteq> 0 \<and> (\<exists>i \<in> used ?s F. i < Suc k \<and> sn_addr (sn_entries ?s i) = a \<and> d = of_nat i)" for a d
      by (simp only: same_slotsD(1,3) [OF s'])
    have "names_below ?s F (Suc k)" by (rule names_belowI [OF _ t'(2) m']) simp
    ultimately show ?thesis by blast
  next
    case link
    then have "k \<notin> used s F" using ok by (auto simp: slots_ok_def)
    then have same: "(\<exists>i \<in> used s F. i < Suc k \<and> sn_addr (sn_entries s i) = a \<and> d = of_nat i)
        \<longleftrightarrow> (\<exists>i \<in> used s F. i < k \<and> sn_addr (sn_entries s i) = a \<and> d = of_nat i)" for a and d :: StgWord
      by (intro bex_cong [OF refl]) (auto simp: less_Suc_eq)
    have "update_entry True k s = Some s" using link by (auto simp: update_entry_def is_heap_ptr_def)
    moreover have "names_below s F (Suc k)" using m same by (intro names_belowI [OF t d]) simp
    ultimately show ?thesis using ss by blast
  qed
qed

lemma same_slots_stale:
  assumes "same_slots s s'" "no_stale_old s F" "addrs_distinct s F"
  shows "no_stale_old s' F" "addrs_distinct s' F"
proof -
  note d = same_slotsD [OF assms(1)]
  have old: "sn_old (sn_entries s' i) = sn_old (sn_entries s i) \<or> sn_old (sn_entries s' i) = 0" for i
    using assms(1) by (simp add: same_slots_def)
  show "no_stale_old s' F"
    using assms(2) old unfolding no_stale_old_def d by metis
  show "addrs_distinct s' F" using assms(3) unfolding addrs_distinct_def d .
qed

lemma same_slots_trans: "same_slots s s' \<Longrightarrow> same_slots s' s'' \<Longrightarrow> same_slots s s''"
  unfolding same_slots_def by metis

lemma update_loop_full:
  assumes "slots_ok s F" "no_stale_old s F" "addrs_distinct s F" "names_below s F k" "0 < k" "k + n = SPT_size s"
  shows "\<exists>s'. for_entries (update_entry True) k n s = Some s' \<and> same_slots s s' \<and> names_below s' F (k + n)"
  using assms
proof (induction n arbitrary: k s)
  case 0
  then show ?case by (simp add: same_slots_def)
next
  case (Suc n)
  from update_entry_step [OF Suc.prems(1-4)] Suc.prems(5,6) obtain s1 where
    s1: "update_entry True k s = Some s1" "same_slots s s1" "names_below s1 F (Suc k)" by auto
  note st = same_slots_stale [OF s1(2) Suc.prems(2,3)] same_slots_ok [OF s1(2) Suc.prems(1)]
  have "Suc k + n = SPT_size s1" using Suc.prems(6) same_slotsD(5) [OF s1(2)] by simp
  from Suc.IH [OF st(3,1,2) s1(3) _ this] obtain s' where
    "for_entries (update_entry True) (Suc k) n s1 = Some s'" "same_slots s1 s'" "names_below s' F (Suc k + n)" by auto
  then show ?case using s1 same_slots_trans by (auto simp: s1(1))
qed

lemma update_full_inv:
  assumes ok: "slots_ok s F" and st: "no_stale_old s F" and un: "addrs_distinct s F" and h: "addrToStableHash s \<noteq> None"
  shows "\<exists>s'. updateStablePtrTable True s = Some s' \<and> same_slots s s' \<and> st_inv s' F"
proof -
  let ?s = "s\<lparr>addrToStableHash := Some allocHashTable\<rparr>"
  have ss: "same_slots s ?s" by (simp add: same_slots_def)
  have sz: "1 + (SPT_size s - 1) = SPT_size ?s" using ok by (auto simp: slots_ok_def table_ok_def)
  have "names_below ?s F 1"
    by (rule names_belowI [OF _ word_dict_empty]) (auto simp: used_def)
  from update_loop_full [OF same_slots_ok [OF ss ok] same_slots_stale [OF ss st un] this _ sz] obtain s' where
    s': "for_entries (update_entry True) 1 (SPT_size s - 1) ?s = Some s'" "same_slots ?s s'" "names_below s' F (SPT_size s)"
    using sz by auto
  have ss': "same_slots s s'" by (rule same_slots_trans [OF ss s'(2)])
  note d = same_slotsD [OF ss']
  have "names_ok s' F"
  proof -
    from s'(3) obtain t m where t: "addrToStableHash s' = Some t" "ht_dict hashWord compareWord t m"
      and m: "\<And>a d. m a = Some d \<longleftrightarrow> a \<noteq> 0 \<and> (\<exists>i \<in> used s' F. i < SPT_size s \<and> sn_addr (sn_entries s' i) = a \<and> d = of_nat i)"
      unfolding names_below_def by blast
    have "i < SPT_size s" if "i \<in> used s' F" for i using that d by (simp add: used_def)
    then show ?thesis using m by (intro names_okI [OF t]) (auto simp: d)
  qed
  moreover have "slots_ok s' F" by (rule same_slots_ok [OF ss' ok])
  moreover have "updateStablePtrTable True s = Some s'"
    using s'(1) h by (simp add: updateStablePtrTable_def Let_def)
  ultimately show ?thesis using ss' by (auto simp: st_inv_def)
qed

section \<open>Small tables\<close>

text \<open>A table with one object in slot 1 and slot 2 free, which remembers \<open>old\<close>.\<close>

definition two_slots :: "StgWord \<Rightarrow> HashTable \<Rightarrow> StableState" where
  "two_slots old t = \<lparr>stable_ptr_table = 0x1000,
     sn_entries = (\<lambda>i. if i = 1 then \<lparr>sn_addr = 0x100000, sn_old = 0x100000, sn_ref = 1, sn_obj = 0\<rparr>
                       else \<lparr>sn_addr = 0, sn_old = old, sn_ref = 0, sn_obj = 0\<rparr>),
     stable_ptr_free = 0x1040, SPT_size = 3, addrToStableHash = Some t\<rparr>"

lemma two_slots_used: "used (two_slots old t) [2] = {1}"
  by (auto simp: used_def two_slots_def)

lemma two_slots_inv: "\<exists>t. st_inv (two_slots old t) [2]"
proof -
  from word_dict_insert [OF word_dict_empty, where k = "0x100000" and d = 1] obtain t where
    t: "ht_dict hashWord compareWord t [0x100000 \<mapsto> 1]" by auto
  have "slots_ok (two_slots old t) [2]"
    unfolding slots_ok_def two_slots_used by (simp add: two_slots_def table_ok_def sn_at_def is_heap_ptr_def)
  moreover have "names_ok (two_slots old t) [2]"
    by (rule names_okI [OF _ t]) (auto simp: two_slots_used, auto simp: two_slots_def)
  ultimately show ?thesis by (auto simp: st_inv_def)
qed

definition all_constr :: StableHeap where
  "all_constr = \<lparr>closure_type = (\<lambda>_. CONSTR), indirectee = (\<lambda>_. 0)\<rparr>"

lemma all_constr_object: "real_object all_constr p = Some (UNTAG_CLOSURE p)"
  by (simp add: real_object_def removeIndirections_def remove_ind_loop.simps all_constr_def)

section \<open>Properties of stable pointers\<close>

text \<open>
  Claim C21.  Making a stable pointer: on a well-formed table \<open>getStablePtr\<close> returns a pointer
  that dereferences to the object (indirections followed, tag removed), with one reference more
  than before; the table stays well formed even when it had to grow and move, and every other
  entry in use is untouched.  The same object always gets the same slot.
\<close>

theorem getStablePtr_roundtrip:
  assumes "st_inv s F" "real_object h p = Some q" "F = [] \<Longrightarrow> region_ok s fresh (2 * SPT_size s)"
    "is_heap_ptr (if F = [] then enlargeStablePtrTable s fresh else s) q" "\<forall>i \<in> used s F. sn_ref (sn_entries s i) + 1 \<noteq> 0"
  shows "\<exists>s' F' i. getStablePtr h s fresh0 fresh p = Some (s', of_nat i) \<and> st_inv s' F' \<and> i \<in> used s' F'
     \<and> deRefStablePtr s' (of_nat i) = Some q
     \<and> sn_ref (sn_entries s' i) = (if i \<in> used s F then sn_ref (sn_entries s i) + 1 else 1)
     \<and> (\<forall>j \<in> used s F. sn_addr (sn_entries s j) = q \<longrightarrow> j = i)
     \<and> (\<forall>j \<in> used s F. j \<noteq> i \<longrightarrow> j \<in> used s' F' \<and> sn_entries s' j = sn_entries s j)"
proof -
  have sz: "SPT_size s > 0" using assms(1) by (auto simp: st_inv_def slots_ok_def table_ok_def)
  from lookup_inv [OF assms(1-4)] obtain s1 F' i where l: "lookupStableName_locked h s fresh p = Some (s1, of_nat i)"
    and iv: "st_inv s1 F'" and i: "i \<in> used s1 F'" "i < 2 ^ 59" "sn_addr (sn_entries s1 i) = q"
    and u: "used s F \<subseteq> used s1 F'" and e: "\<And>j. j \<in> used s F \<Longrightarrow> sn_entries s1 j = sn_entries s j"
    and new: "i \<notin> used s F \<Longrightarrow> sn_ref (sn_entries s1 i) = 0 \<and> sn_obj (sn_entries s1 i) = 0" by blast
  let ?e = "(sn_entries s1 i)\<lparr>sn_ref := sn_ref (sn_entries s1 i) + 1\<rparr>"
  let ?s = "set_entry s1 i ?e"
  have get: "getStablePtr h s fresh0 fresh p = Some (?s, of_nat i)"
    using l sz of_nat_slot [OF i(2)] by (simp add: getStablePtr_def initStablePtrTable_def Let_def)
  have inv: "st_inv ?s F'" by (rule set_entry_inv [OF iv]) simp
  have us: "used ?s F' = used s1 F'" by (simp add: used_def set_entry_def)
  have r: "sn_ref (sn_entries ?s i) = (if i \<in> used s F then sn_ref (sn_entries s i) + 1 else 1)"
    using e new by (simp add: set_entry_def)
  then have "sn_ref (sn_entries ?s i) > 0" using assms(5) by (auto simp: word_gt_0)
  then have "deRefStablePtr ?s (of_nat i) = Some q"
    using of_nat_slot [OF i(2)] i(3) by (simp add: deRefStablePtr_def set_entry_def)
  moreover have "j = i" if "j \<in> used s F" "sn_addr (sn_entries s j) = q" for j
  proof (rule addr_unique [of s1 F'])
    have "q \<noteq> 0" using assms(4) by (simp add: is_heap_ptr_def)
    then show "sn_addr (sn_entries s1 j) \<noteq> 0" using e that by simp
  qed (use iv u i e that in \<open>auto simp: st_inv_def\<close>)
  moreover have "sn_entries ?s j = sn_entries s j" if "j \<in> used s F" "j \<noteq> i" for j
    using e that by (simp add: set_entry_def)
  ultimately show ?thesis using get inv us i(1) r u by blast
qed

theorem getStablePtr_roundtrip_witness:
  "\<exists>t s' sp. getStablePtr all_constr (two_slots 0 t) 0 0 0x200000 = Some (s', sp) \<and> deRefStablePtr s' sp = Some 0x200000"
proof -
  from two_slots_inv obtain t where inv: "st_inv (two_slots 0 t) [2]" by blast
  have o: "real_object all_constr 0x200000 = Some 0x200000"
    by (simp add: all_constr_object UNTAG_CLOSURE_def TAG_MASK_def)
  have "is_heap_ptr (if [2] = ([] :: nat list) then enlargeStablePtrTable (two_slots 0 t) 0 else two_slots 0 t) 0x200000"
    by (simp add: is_heap_ptr_def two_slots_def sn_at_def)
  moreover have "\<forall>i \<in> used (two_slots 0 t) [2]. sn_ref (sn_entries (two_slots 0 t) i) + 1 \<noteq> 0"
    unfolding two_slots_used by (simp add: two_slots_def)
  ultimately show ?thesis using getStablePtr_roundtrip [OF inv o, of 0 0] by auto
qed

text \<open>
  Releasing a stable pointer that has references: \<open>freeStablePtr\<close> succeeds and drops
  one reference; when that was the last one and no stable name uses the slot, the slot goes to
  the front of the free list; every other entry is untouched.  A slot without references, or
  beyond the table, fails the assertion.
\<close>

theorem freeStablePtr_drops_one:
  assumes "st_inv s F" "unat sp \<in> used s F" "sn_addr (sn_entries s (unat sp)) \<noteq> 0"
  shows "if sn_ref (sn_entries s (unat sp)) = 0 then freeStablePtr s fresh0 sp = None
     else \<exists>s'. freeStablePtr s fresh0 sp = Some s'
       \<and> (if sn_ref (sn_entries s (unat sp)) = 1 \<and> sn_obj (sn_entries s (unat sp)) = 0
          then st_inv s' (unat sp # F)
          else st_inv s' F \<and> sn_entries s' (unat sp) =
            (sn_entries s (unat sp))\<lparr>sn_ref := sn_ref (sn_entries s (unat sp)) - 1\<rparr>)
       \<and> (\<forall>j. j \<noteq> unat sp \<longrightarrow> sn_entries s' j = sn_entries s j)"
proof -
  define i where "i = unat sp"
  let ?e = "sn_entries s i"
  let ?s = "set_entry s i (?e\<lparr>sn_ref := sn_ref ?e - 1\<rparr>)"
  have sz: "SPT_size s > 0" "i < SPT_size s" using assms(2) by (auto simp: used_def i_def)
  have iv: "st_inv ?s F" by (rule set_entry_inv [OF assms(1)]) simp
  have us: "i \<in> used ?s F" using assms(2) by (simp add: used_def set_entry_def i_def)
  have en: "sn_entries ?s i = ?e\<lparr>sn_ref := sn_ref ?e - 1\<rparr>" "j \<noteq> i \<Longrightarrow> sn_entries ?s j = sn_entries s j" for j
    by (simp_all add: set_entry_def)
  have step: "freeStablePtr s fresh0 sp = (if sn_ref ?e = 0 then None
      else if sn_obj ?e = 0 \<and> sn_ref ?e = 1 then freeStableName ?s i else Some ?s)"
    using sz assms(3) by (simp add: freeStablePtr_def initStablePtrTable_def Let_def i_def word_gt_0 eq_diff_eq)
  show ?thesis
  proof (cases "sn_ref ?e = 1 \<and> sn_obj ?e = 0")
    case True
    then have "sn_obj (sn_entries ?s i) = 0" by (subst en(1)) simp
    from freeStableName_inv [OF iv us this] obtain s' where "freeStableName ?s i = Some s'" "st_inv s' (i # F)"
      "\<forall>j. j \<noteq> i \<longrightarrow> sn_entries s' j = sn_entries ?s j" by blast
    then show ?thesis using True step en(2) unfolding i_def [symmetric] by simp
  next
    case False
    then show ?thesis using step iv en unfolding i_def [symmetric] by auto
  qed
qed

theorem freeStablePtr_drops_one_witness:
  "\<exists>t s'. freeStablePtr (two_slots 0 t) 0 1 = Some s' \<and> st_inv s' [1, 2]"
proof -
  from two_slots_inv obtain t where inv: "st_inv (two_slots 0 t) [2]" by blast
  have "unat (1 :: StgWord) \<in> used (two_slots 0 t) [2]" unfolding two_slots_used by simp
  moreover have e: "sn_addr (sn_entries (two_slots 0 t) (unat (1 :: StgWord))) \<noteq> 0"
    "sn_ref (sn_entries (two_slots 0 t) (unat (1 :: StgWord))) = 1" "sn_obj (sn_entries (two_slots 0 t) (unat (1 :: StgWord))) = 0"
    by (simp_all add: two_slots_def)
  ultimately show ?thesis using freeStablePtr_drops_one [OF inv, of 1 0] by auto
qed

text \<open>
  After a major collection \<open>updateStablePtrTable\<close> rebuilds the hash table from the
  slots: it returns, changes no slot, and afterwards every object with a slot is found under its
  new address and nothing else is, provided no null entry remembers an old address that is now
  the address of an object in use.
\<close>

theorem update_full_rebuilds:
  assumes "slots_ok s F" "no_stale_old s F" "addrs_distinct s F" "addrToStableHash s = Some t"
  shows "\<exists>s' t'. updateStablePtrTable True s = Some s' \<and> st_inv s' F \<and> addrToStableHash s' = Some t'
     \<and> (\<forall>i. sn_addr (sn_entries s' i) = sn_addr (sn_entries s i))
     \<and> (\<forall>i \<in> used s F. sn_addr (sn_entries s i) \<noteq> 0 \<longrightarrow> lookupHashTable t' (sn_addr (sn_entries s i)) = Some (of_nat i))"
proof -
  from update_full_inv [OF assms(1-3)] assms(4) obtain s' where
    s': "updateStablePtrTable True s = Some s'" "same_slots s s'" "st_inv s' F" by auto
  note d = same_slotsD [OF s'(2)]
  from s'(3) have "names_ok s' F" by (simp add: st_inv_def)
  then obtain t' m where t': "addrToStableHash s' = Some t'" "ht_dict hashWord compareWord t' m"
    and m: "\<And>a d. m a = Some d \<longleftrightarrow> a \<noteq> 0 \<and> (\<exists>i \<in> used s' F. sn_addr (sn_entries s' i) = a \<and> d = of_nat i)"
    by (rule names_okE) blast
  have "lookupHashTable t' (sn_addr (sn_entries s i)) = Some (of_nat i)"
    if "i \<in> used s F" "sn_addr (sn_entries s i) \<noteq> 0" for i
  proof -
    have "m (sn_addr (sn_entries s i)) = Some (of_nat i)"
      using m [of "sn_addr (sn_entries s i)" "of_nat i"] that d by auto
    then show ?thesis using word_hash.table.dict_lookup [OF t'(2)] by simp
  qed
  then show ?thesis using s' t'(1) d by blast
qed

theorem update_full_rebuilds_witness:
  "\<exists>t s' t'. updateStablePtrTable True (two_slots 0 t) = Some s' \<and> addrToStableHash s' = Some t'
     \<and> lookupHashTable t' 0x100000 = Some 1"
proof -
  from two_slots_inv obtain t where "st_inv (two_slots 0 t) [2]" by blast
  then have ok: "slots_ok (two_slots 0 t) [2]" by (simp add: st_inv_def)
  have st: "no_stale_old (two_slots 0 t) [2]" "addrs_distinct (two_slots 0 t) [2]"
    unfolding no_stale_old_def addrs_distinct_def two_slots_used by (simp_all add: two_slots_def)
  have h: "addrToStableHash (two_slots 0 t) = Some t" "sn_addr (sn_entries (two_slots 0 t) 1) = 0x100000"
    by (simp_all add: two_slots_def)
  from update_full_rebuilds [OF ok st h(1)] h(2) show ?thesis unfolding two_slots_used by fastforce
qed

text \<open>
  A name can be lost: when the last slot of the free list still remembers, as its old
  address, an object that has meanwhile been given a name in another slot, the minor-collection
  update takes that slot for a name whose object has died and removes the live object from the
  hash table, although nothing moved.
\<close>

theorem update_drops_live_name:
  assumes inv: "st_inv s F" and i: "i \<in> set F" "sn_addr (sn_entries s i) = 0" "sn_old (sn_entries s i) = x" "x \<noteq> 0"
    and j: "j \<in> used s F" "sn_addr (sn_entries s j) = x"
    and t: "addrToStableHash s = Some t"
  shows "\<exists>s' t'. update_entry False i s = Some s' \<and> addrToStableHash s' = Some t'
     \<and> lookupHashTable t x = Some (of_nat j) \<and> lookupHashTable t' x = Some 0"
proof -
  from inv have "names_ok s F" by (simp add: st_inv_def)
  then obtain t0 m where t0: "addrToStableHash s = Some t0" "ht_dict hashWord compareWord t0 m"
    and m: "\<And>a d. m a = Some d \<longleftrightarrow> a \<noteq> 0 \<and> (\<exists>i \<in> used s F. sn_addr (sn_entries s i) = a \<and> d = of_nat i)"
    by (rule names_okE) blast
  have mx: "m x = Some (of_nat j)" using m [of x "of_nat j"] j i(4) by blast
  from word_dict_remove [OF t0(2), of x] obtain t' d where t': "removeHashTable t0 x 0 = Some (t', d)"
    "ht_dict hashWord compareWord t' (m(x := None))" by blast
  have "update_entry False i s = Some (set_entry (s\<lparr>addrToStableHash := Some t'\<rparr>) i ((sn_entries s i)\<lparr>sn_old := 0\<rparr>))"
    using i t0 t' by (simp add: update_entry_def)
  moreover have "lookupHashTable t' x = Some 0" using word_hash.table.dict_lookup [OF t'(2), of x] by simp
  moreover have "lookupHashTable t x = Some (of_nat j)"
    using word_hash.table.dict_lookup [OF t0(2), of x] mx t t0(1) by simp
  ultimately show ?thesis by (auto simp: set_entry_def)
qed

theorem update_drops_live_name_witness:
  "\<exists>t s' t'. st_inv (two_slots 0x100000 t) [2] \<and> update_entry False 2 (two_slots 0x100000 t) = Some s'
     \<and> addrToStableHash s' = Some t' \<and> lookupHashTable t 0x100000 = Some 1 \<and> lookupHashTable t' 0x100000 = Some 0"
proof -
  from two_slots_inv obtain t where inv: "st_inv (two_slots 0x100000 t) [2]" by blast
  have f: "(2 :: nat) \<in> set [2]" "sn_addr (sn_entries (two_slots 0x100000 t) 2) = 0"
    "sn_old (sn_entries (two_slots 0x100000 t) 2) = 0x100000" "(0x100000 :: StgWord) \<noteq> 0"
    "sn_addr (sn_entries (two_slots 0x100000 t) 1) = 0x100000" "addrToStableHash (two_slots 0x100000 t) = Some t"
    by (simp_all add: two_slots_def)
  have "1 \<in> used (two_slots 0x100000 t) [2]" unfolding two_slots_used by simp
  from update_drops_live_name [OF inv f(1-4) this f(5,6)] inv show ?thesis by auto
qed

end
