(* ===== verification/Globals.thy ===== *)
theory Globals
  imports Stable
begin

text \<open>
  The global store of \<open>rts/Globals.c\<close>, which lets several copies of the base library agree on
  one stable pointer per key.  The store is read without the lock first and again under it; the
  theory has the calls as functions and the double-checked locking as a step relation of any
  number of threads.
\<close>

section \<open>The code\<close>

datatype StoreKey =
    GHCConcSignalSignalHandlerStore
  | GHCConcWindowsPendingDelaysStore
  | GHCConcWindowsIOManagerThreadStore
  | GHCConcWindowsProddingStore
  | SystemEventThreadEventManagerStore
  | SystemEventThreadIOManagerThreadStore

definition store_keys :: "StoreKey list" where
  "store_keys = [GHCConcSignalSignalHandlerStore, GHCConcWindowsPendingDelaysStore,
     GHCConcWindowsIOManagerThreadStore, GHCConcWindowsProddingStore,
     SystemEventThreadEventManagerStore, SystemEventThreadIOManagerThreadStore]"

type_synonym global_store = "StoreKey \<Rightarrow> StgWord"

definition initGlobalStore :: "global_store \<Rightarrow> global_store" where
  "initGlobalStore store = foldl (\<lambda>st i. st(i := 0)) store store_keys"

fun exit_loop :: "StableState \<Rightarrow> StgWord \<Rightarrow> global_store \<Rightarrow> StoreKey list \<Rightarrow> (StableState \<times> global_store) option" where
  "exit_loop s fresh0 store [] = Some (s, store)"
| "exit_loop s fresh0 store (i # is) =
     (if store i \<noteq> 0
      then do { s1 \<leftarrow> freeStablePtr s fresh0 (store i); exit_loop s1 fresh0 (store(i := 0)) is }
      else exit_loop s fresh0 store is)"

definition exitGlobalStore :: "StableState \<Rightarrow> StgWord \<Rightarrow> global_store \<Rightarrow> (StableState \<times> global_store) option" where
  "exitGlobalStore s fresh0 store = exit_loop s fresh0 store store_keys"

definition getOrSetKey :: "global_store \<Rightarrow> StoreKey \<Rightarrow> StgWord \<Rightarrow> global_store \<times> StgWord" where
  "getOrSetKey store key ptr =
     (let ret = store key
      in if ret = 0
         then let ret = store key in (if ret = 0 then (store(key := ptr), ptr) else (store, ret))
         else (store, ret))"

definition getOrSetGHCConcSignalSignalHandlerStore :: "global_store \<Rightarrow> StgWord \<Rightarrow> global_store \<times> StgWord" where
  "getOrSetGHCConcSignalSignalHandlerStore store ptr = getOrSetKey store GHCConcSignalSignalHandlerStore ptr"

definition getOrSetGHCConcWindowsPendingDelaysStore :: "global_store \<Rightarrow> StgWord \<Rightarrow> global_store \<times> StgWord" where
  "getOrSetGHCConcWindowsPendingDelaysStore store ptr = getOrSetKey store GHCConcWindowsPendingDelaysStore ptr"

definition getOrSetGHCConcWindowsIOManagerThreadStore :: "global_store \<Rightarrow> StgWord \<Rightarrow> global_store \<times> StgWord" where
  "getOrSetGHCConcWindowsIOManagerThreadStore store ptr = getOrSetKey store GHCConcWindowsIOManagerThreadStore ptr"

definition getOrSetGHCConcWindowsProddingStore :: "global_store \<Rightarrow> StgWord \<Rightarrow> global_store \<times> StgWord" where
  "getOrSetGHCConcWindowsProddingStore store ptr = getOrSetKey store GHCConcWindowsProddingStore ptr"

definition getOrSetSystemEventThreadEventManagerStore :: "global_store \<Rightarrow> StgWord \<Rightarrow> global_store \<times> StgWord" where
  "getOrSetSystemEventThreadEventManagerStore store ptr = getOrSetKey store SystemEventThreadEventManagerStore ptr"

definition getOrSetSystemEventThreadIOManagerThreadStore :: "global_store \<Rightarrow> StgWord \<Rightarrow> global_store \<times> StgWord" where
  "getOrSetSystemEventThreadIOManagerThreadStore store ptr = getOrSetKey store SystemEventThreadIOManagerThreadStore ptr"

section \<open>Threads\<close>

text \<open>Where a thread is in \<open>getOrSetKey\<close>; the lock is held between \<open>Reread\<close> and the release.\<close>

datatype gs_pc =
    Idle
  | FirstRead StoreKey StgWord
  | Acquire StoreKey StgWord
  | Reread StoreKey StgWord
  | Assign StoreKey StgWord
  | Release StoreKey StgWord
  | Returned StoreKey StgWord

record gs_state =
  gs_store :: global_store
  gs_lock :: "nat option"
  gs_thread :: "nat \<Rightarrow> gs_pc"

definition goto :: "nat \<Rightarrow> gs_pc \<Rightarrow> gs_state \<Rightarrow> gs_state" where
  "goto i pc s = s\<lparr>gs_thread := (gs_thread s)(i := pc)\<rparr>"

inductive gs_step :: "gs_state \<Rightarrow> gs_state \<Rightarrow> bool" where
  call: "gs_thread s i = Idle \<Longrightarrow> ptr \<noteq> 0 \<Longrightarrow> gs_step s (goto i (FirstRead key ptr) s)"
| first_read: "gs_thread s i = FirstRead key ptr \<Longrightarrow>
    gs_step s (goto i (if gs_store s key = 0 then Acquire key ptr else Returned key (gs_store s key)) s)"
| acquire: "gs_thread s i = Acquire key ptr \<Longrightarrow> gs_lock s = None \<Longrightarrow>
    gs_step s (goto i (Reread key ptr) (s\<lparr>gs_lock := Some i\<rparr>))"
| reread: "gs_thread s i = Reread key ptr \<Longrightarrow>
    gs_step s (goto i (if gs_store s key = 0 then Assign key ptr else Release key (gs_store s key)) s)"
| assign: "gs_thread s i = Assign key ptr \<Longrightarrow>
    gs_step s (goto i (Release key ptr) (s\<lparr>gs_store := (gs_store s)(key := ptr)\<rparr>))"
| release: "gs_thread s i = Release key ret \<Longrightarrow>
    gs_step s (goto i (Returned key ret) (s\<lparr>gs_lock := None\<rparr>))"

definition gs_init :: "global_store \<Rightarrow> gs_state" where
  "gs_init store = \<lparr>gs_store = initGlobalStore store, gs_lock = None, gs_thread = (\<lambda>_. Idle)\<rparr>"

inductive_cases gs_stepE: "gs_step s s'"

fun holds_lock :: "gs_pc \<Rightarrow> bool" where
  "holds_lock (Reread key ptr) = True"
| "holds_lock (Assign key ptr) = True"
| "holds_lock (Release key ret) = True"
| "holds_lock pc = False"

fun pc_ok :: "global_store \<Rightarrow> gs_pc \<Rightarrow> bool" where
  "pc_ok store (FirstRead key ptr) = (ptr \<noteq> 0)"
| "pc_ok store (Acquire key ptr) = (ptr \<noteq> 0)"
| "pc_ok store (Reread key ptr) = (ptr \<noteq> 0)"
| "pc_ok store (Assign key ptr) = (ptr \<noteq> 0 \<and> store key = 0)"
| "pc_ok store (Release key ret) = (ret \<noteq> 0 \<and> store key = ret)"
| "pc_ok store (Returned key ret) = (ret \<noteq> 0 \<and> store key = ret)"
| "pc_ok store Idle = True"

definition gs_inv :: "gs_state \<Rightarrow> bool" where
  "gs_inv s \<longleftrightarrow> (\<forall>i. pc_ok (gs_store s) (gs_thread s i)) \<and> (\<forall>i. holds_lock (gs_thread s i) \<longleftrightarrow> gs_lock s = Some i)"

lemma init_zero: "initGlobalStore store = (\<lambda>_. 0)"
proof
  fix k show "initGlobalStore store k = 0" by (cases k) (simp_all add: initGlobalStore_def store_keys_def)
qed

lemma pc_ok_assign:
  "pc_ok store pc \<Longrightarrow> store key = 0 \<Longrightarrow> \<not> holds_lock pc \<Longrightarrow> pc_ok (store(key := ptr)) pc"
  by (cases pc) auto

lemma gs_invD:
  assumes "gs_inv s" "gs_thread s i = pc"
  shows "pc_ok (gs_store s) pc" "holds_lock pc \<longleftrightarrow> gs_lock s = Some i"
  using assms by (auto simp: gs_inv_def)

lemma gs_step_inv:
  assumes "gs_step s s'" "gs_inv s"
  shows "gs_inv s'"
  using assms
proof (induction rule: gs_step.induct)
  case (call s i ptr key)
  then have "gs_lock s \<noteq> Some i" using gs_invD(2) [of s i Idle] by simp
  then show ?case using call by (auto simp: gs_inv_def goto_def)
next
  case (first_read s i key ptr)
  then have "ptr \<noteq> 0" "gs_lock s \<noteq> Some i" using gs_invD [of s i "FirstRead key ptr"] by simp_all
  then show ?case using first_read by (auto simp: gs_inv_def goto_def)
next
  case (acquire s i key ptr)
  then have "ptr \<noteq> 0" using gs_invD(1) [of s i "Acquire key ptr"] by simp
  then show ?case using acquire by (auto simp: gs_inv_def goto_def)
next
  case (reread s i key ptr)
  then have "ptr \<noteq> 0" "gs_lock s = Some i" using gs_invD [of s i "Reread key ptr"] by simp_all
  then show ?case using reread by (auto simp: gs_inv_def goto_def)
next
  case (assign s i key ptr)
  then have p: "ptr \<noteq> 0" "gs_store s key = 0" "gs_lock s = Some i"
    using gs_invD [of s i "Assign key ptr"] by simp_all
  have "pc_ok ((gs_store s)(key := ptr)) (gs_thread s j)" if "j \<noteq> i" for j
    using assign p that by (intro pc_ok_assign) (auto simp: gs_inv_def)
  then show ?case using assign p by (auto simp: gs_inv_def goto_def)
next
  case (release s i key ret)
  then have "gs_lock s = Some i" "pc_ok (gs_store s) (Release key ret)"
    using gs_invD [of s i "Release key ret"] by simp_all
  then show ?case using release by (auto simp: gs_inv_def goto_def)
qed

lemma gs_reach_inv:
  assumes "gs_step\<^sup>*\<^sup>* (gs_init store) s"
  shows "gs_inv s"
  using assms
proof (induction rule: rtranclp_induct)
  case base
  then show ?case by (simp add: gs_inv_def gs_init_def)
next
  case (step y z)
  then show ?case using gs_step_inv by blast
qed

section \<open>Properties\<close>

text \<open>
  Claim C23.  The double-checked locking is safe: in every interleaving of threads calling
  \<open>getOrSetKey\<close> with non-null pointers, all calls for one key that have returned have returned
  the same non-null pointer, which is the one in the store, and at most one thread is between
  the acquisition and the release of the lock.
\<close>

theorem global_store_agreement:
  assumes "gs_step\<^sup>*\<^sup>* (gs_init store) s" "gs_thread s i = Returned key r" "gs_thread s j = Returned key r'"
  shows "r = r' \<and> r \<noteq> 0 \<and> gs_store s key = r
     \<and> (\<forall>k l. holds_lock (gs_thread s k) \<and> holds_lock (gs_thread s l) \<longrightarrow> k = l)"
proof -
  have inv: "gs_inv s" by (rule gs_reach_inv [OF assms(1)])
  then have "pc_ok (gs_store s) (Returned key r)" "pc_ok (gs_store s) (Returned key r')"
    using assms(2,3) unfolding gs_inv_def by metis+
  moreover have "\<forall>k l. holds_lock (gs_thread s k) \<and> holds_lock (gs_thread s l) \<longrightarrow> k = l"
    using inv unfolding gs_inv_def by (metis option.inject)
  ultimately show ?thesis by auto
qed

theorem global_store_agreement_witness:
  "\<exists>s. gs_step\<^sup>*\<^sup>* (gs_init (\<lambda>_. 0)) s \<and> gs_thread s 0 = Returned GHCConcWindowsProddingStore 5
     \<and> gs_store s GHCConcWindowsProddingStore = 5"
proof -
  let ?k = "GHCConcWindowsProddingStore"
  let ?z = "\<lambda>_. 0 :: StgWord"
  define s0 where "s0 = gs_init ?z"
  have g0: "gs_store s0 ?k = 0" "gs_lock s0 = None" "gs_thread s0 0 = Idle"
    by (simp_all add: s0_def gs_init_def init_zero)
  define s1 s2 s3 s4 s5 s6 where "s1 = goto 0 (FirstRead ?k 5) s0" and "s2 = goto 0 (Acquire ?k 5) s1"
    and "s3 = goto 0 (Reread ?k 5) (s2\<lparr>gs_lock := Some 0\<rparr>)" and "s4 = goto 0 (Assign ?k 5) s3"
    and "s5 = goto 0 (Release ?k 5) (s4\<lparr>gs_store := (gs_store s4)(?k := 5)\<rparr>)"
    and "s6 = goto 0 (Returned ?k 5) (s5\<lparr>gs_lock := None\<rparr>)"
  note defs = s1_def s2_def s3_def s4_def s5_def s6_def goto_def
  have "gs_step s0 s1" unfolding s1_def by (rule call) (simp_all add: g0)
  moreover have "gs_step s1 s2" using first_read [of s1 0 ?k 5] g0 by (simp add: defs)
  moreover have "gs_step s2 s3" unfolding s3_def by (rule acquire) (simp_all add: defs g0)
  moreover have "gs_step s3 s4" using reread [of s3 0 ?k 5] g0 by (simp add: defs)
  moreover have "gs_step s4 s5" unfolding s5_def by (rule assign) (simp add: s4_def goto_def)
  moreover have "gs_step s5 s6" unfolding s6_def by (rule release) (simp add: s5_def goto_def)
  ultimately have r: "gs_step\<^sup>*\<^sup>* (gs_init ?z) s6" unfolding s0_def [symmetric] by (meson converse_rtranclp_into_rtranclp rtranclp.rtrancl_refl)
  have t: "gs_thread s6 0 = Returned ?k 5" by (simp add: s6_def goto_def)
  from global_store_agreement [OF r t t] show ?thesis using r t by blast
qed

text \<open>
  Used by one thread, the first pointer offered for a key is the answer of that call
  and of every later one, and calls for one key do not disturb another.
\<close>

theorem getOrSetKey_first_wins:
  assumes "ptr \<noteq> 0" "getOrSetKey store key ptr = (store', ret)"
  shows "ret = (if store key = 0 then ptr else store key) \<and> ret \<noteq> 0
     \<and> getOrSetKey store' key other = (store', ret) \<and> (\<forall>k. k \<noteq> key \<longrightarrow> store' k = store k)"
  using assms by (auto simp: getOrSetKey_def Let_def split: if_splits)

theorem getOrSetKey_first_wins_witness:
  "getOrSetKey (\<lambda>k. if k = SystemEventThreadEventManagerStore then 7 else 0) SystemEventThreadEventManagerStore 9
     = ((\<lambda>k. if k = SystemEventThreadEventManagerStore then 7 else 0), 7)"
  using getOrSetKey_first_wins [of 7 "\<lambda>k. 0" SystemEventThreadEventManagerStore "\<lambda>k. if k = SystemEventThreadEventManagerStore then 7 else 0" 7 9]
  by (simp add: getOrSetKey_def fun_upd_def)

end
