(* ===== verification/Block.thy ===== *)
theory Block
  imports Prelude "HOL-Library.Monad_Syntax"
begin

text \<open>
  Blocks, megablocks and block descriptors, \<open>includes/rts/storage/Block.h\<close> on a 64-bit machine:
  4 kB blocks, 1 MB megablocks whose first blocks hold 64-byte descriptors, the arithmetic that
  finds descriptors, the rounding of sizes to megablocks, and doubly linked lists of
  descriptors.  Addresses are naturals, and so are numbers of
  blocks: the field \<open>blocks\<close> has 32 bits in the code, which a group would exceed from 16 TB on;
  \<open>Bdescr\<close> and the rounding of pointers are given on words,
  with the masks of the code, and shown to be division and remainder.
\<close>

section \<open>Constants and addresses\<close>

definition BLOCK_SIZE :: nat where "BLOCK_SIZE = 4096"
definition MBLOCK_SIZE :: nat where "MBLOCK_SIZE = 1048576"
definition BDESCR_SIZE :: nat where "BDESCR_SIZE = 64"
definition BLOCK_MASK :: StgWord where "BLOCK_MASK = 4095"
definition MBLOCK_MASK :: StgWord where "MBLOCK_MASK = 1048575"
definition BLOCK_SIZE_W :: nat where "BLOCK_SIZE_W = BLOCK_SIZE div 8"
definition MBLOCK_SIZE_W :: nat where "MBLOCK_SIZE_W = MBLOCK_SIZE div 8"

definition BLOCK_ROUND_UP :: "StgWord \<Rightarrow> StgWord" where
  "BLOCK_ROUND_UP p = (p + 4096 - 1) AND NOT BLOCK_MASK"

definition BLOCK_ROUND_DOWN :: "StgWord \<Rightarrow> StgWord" where
  "BLOCK_ROUND_DOWN p = p AND NOT BLOCK_MASK"

definition MBLOCK_ROUND_UP :: "StgWord \<Rightarrow> StgWord" where
  "MBLOCK_ROUND_UP p = (p + 1048576 - 1) AND NOT MBLOCK_MASK"

definition MBLOCK_ROUND_DOWN :: "StgWord \<Rightarrow> StgWord" where
  "MBLOCK_ROUND_DOWN p = p AND NOT MBLOCK_MASK"

definition Bdescr :: "StgWord \<Rightarrow> StgWord" where
  "Bdescr p = drop_bit (12 - 6) (p AND MBLOCK_MASK AND NOT BLOCK_MASK) OR (p AND NOT MBLOCK_MASK)"

text \<open>The same roundings on the naturals the allocator works with.\<close>

definition mblock_of :: "nat \<Rightarrow> nat" where
  "mblock_of p = p - p mod MBLOCK_SIZE"

definition mblock_up :: "nat \<Rightarrow> nat" where
  "mblock_up p = mblock_of (p + MBLOCK_SIZE - 1)"

definition FIRST_BLOCK_OFF :: nat where "FIRST_BLOCK_OFF = 16384"

definition FIRST_BLOCK :: "nat \<Rightarrow> nat" where "FIRST_BLOCK m = FIRST_BLOCK_OFF + m"

definition LAST_BLOCK :: "nat \<Rightarrow> nat" where "LAST_BLOCK m = MBLOCK_SIZE - BLOCK_SIZE + m"

definition FIRST_BDESCR :: "nat \<Rightarrow> nat" where
  "FIRST_BDESCR m = FIRST_BLOCK_OFF div 2 ^ 6 + m"

definition LAST_BDESCR :: "nat \<Rightarrow> nat" where
  "LAST_BDESCR m = (MBLOCK_SIZE - BLOCK_SIZE) div 2 ^ 6 + m"

definition BLOCKS_PER_MBLOCK :: nat where
  "BLOCKS_PER_MBLOCK = (MBLOCK_SIZE - FIRST_BLOCK_OFF) div BLOCK_SIZE"

definition MBLOCK_GROUP_BLOCKS :: "nat \<Rightarrow> nat" where
  "MBLOCK_GROUP_BLOCKS n = BLOCKS_PER_MBLOCK + (n - 1) * (MBLOCK_SIZE div BLOCK_SIZE)"

definition BLOCKS_TO_MBLOCKS :: "nat \<Rightarrow> nat" where
  "BLOCKS_TO_MBLOCKS n = 1 + mblock_up ((n - BLOCKS_PER_MBLOCK) * BLOCK_SIZE) div MBLOCK_SIZE"

definition round_to_mblocks :: "nat \<Rightarrow> nat" where
  "round_to_mblocks words0 =
     (if words0 > BLOCKS_PER_MBLOCK * BLOCK_SIZE_W
      then let words = words0 + FIRST_BLOCK_OFF div 8;
               words = (if words mod MBLOCK_SIZE_W < MBLOCK_SIZE_W div 2
                        then (words div MBLOCK_SIZE_W) * MBLOCK_SIZE_W
                        else (words div MBLOCK_SIZE_W + 1) * MBLOCK_SIZE_W)
        in words - FIRST_BLOCK_OFF div 8
      else words0)"

definition round_up_to_mblocks :: "nat \<Rightarrow> nat" where
  "round_up_to_mblocks words0 =
     (let words = words0 + FIRST_BLOCK_OFF div 8;
          words = (words div MBLOCK_SIZE_W + 1) * MBLOCK_SIZE_W
      in words - FIRST_BLOCK_OFF div 8)"

section \<open>Block descriptors\<close>

record bdescr =
  bd_start :: nat
  bd_free :: nat
  bd_link :: addr
  bd_back :: addr
  bd_gen :: nat
  bd_gen_no :: nat
  bd_flags :: nat
  bd_blocks :: nat

type_synonym bd_mem = "addr \<Rightarrow> bdescr"

text \<open>\<open>(P_)-1\<close>, the mark of a free group.\<close>

definition FREE_MARK :: nat where "FREE_MARK = 2 ^ 64 - 1"

definition upd_bd :: "addr \<Rightarrow> (bdescr \<Rightarrow> bdescr) \<Rightarrow> bd_mem \<Rightarrow> bd_mem" where
  "upd_bd p f mem = mem(p := f (mem p))"

definition bd_plus :: "addr \<Rightarrow> nat \<Rightarrow> addr" where
  "bd_plus p n = p + BDESCR_SIZE * n"

text \<open>The list head is passed by reference: the functions answer the memory and the new head.\<close>

definition dbl_link_onto :: "bd_mem \<Rightarrow> addr \<Rightarrow> addr \<Rightarrow> bd_mem \<times> addr" where
  "dbl_link_onto mem bd list =
     (let mem1 = upd_bd bd (\<lambda>d. d\<lparr>bd_link := list\<rparr>) mem;
          mem2 = upd_bd bd (\<lambda>d. d\<lparr>bd_back := NULL\<rparr>) mem1;
          mem3 = (if list \<noteq> NULL then upd_bd list (\<lambda>d. d\<lparr>bd_back := bd\<rparr>) mem2 else mem2)
      in (mem3, bd))"

definition dbl_link_remove :: "bd_mem \<Rightarrow> addr \<Rightarrow> addr \<Rightarrow> bd_mem \<times> addr" where
  "dbl_link_remove mem bd list =
     (let (mem1, list1) = (if bd_back (mem bd) \<noteq> NULL
            then (upd_bd (bd_back (mem bd)) (\<lambda>d. d\<lparr>bd_link := bd_link (mem bd)\<rparr>) mem, list)
            else (mem, bd_link (mem bd)));
          mem2 = (if bd_link (mem1 bd) \<noteq> NULL
            then upd_bd (bd_link (mem1 bd)) (\<lambda>d. d\<lparr>bd_back := bd_back (mem1 bd)\<rparr>) mem1 else mem1)
      in (mem2, list1))"

definition dbl_link_insert_after :: "bd_mem \<Rightarrow> addr \<Rightarrow> addr \<Rightarrow> bd_mem" where
  "dbl_link_insert_after mem bd after =
     (let mem1 = upd_bd bd (\<lambda>d. d\<lparr>bd_link := bd_link (mem after)\<rparr>) mem;
          mem2 = upd_bd bd (\<lambda>d. d\<lparr>bd_back := after\<rparr>) mem1;
          mem3 = (if bd_link (mem2 after) \<noteq> NULL
                  then upd_bd (bd_link (mem2 after)) (\<lambda>d. d\<lparr>bd_back := bd\<rparr>) mem2 else mem2)
      in upd_bd after (\<lambda>d. d\<lparr>bd_link := bd\<rparr>) mem3)"

definition dbl_link_replace :: "bd_mem \<Rightarrow> addr \<Rightarrow> addr \<Rightarrow> addr \<Rightarrow> bd_mem \<times> addr" where
  "dbl_link_replace mem new old list =
     (let mem1 = upd_bd new (\<lambda>d. d\<lparr>bd_link := bd_link (mem old)\<rparr>) mem;
          mem2 = upd_bd new (\<lambda>d. d\<lparr>bd_back := bd_back (mem1 old)\<rparr>) mem1;
          mem3 = (if bd_link (mem2 old) \<noteq> NULL
                  then upd_bd (bd_link (mem2 old)) (\<lambda>d. d\<lparr>bd_back := new\<rparr>) mem2 else mem2)
      in if bd_back (mem3 old) \<noteq> NULL
         then (upd_bd (bd_back (mem3 old)) (\<lambda>d. d\<lparr>bd_link := new\<rparr>) mem3, list)
         else (mem3, new))"

section \<open>Address arithmetic\<close>

lemmas block_consts = BLOCK_SIZE_def MBLOCK_SIZE_def BDESCR_SIZE_def FIRST_BLOCK_OFF_def
  BLOCKS_PER_MBLOCK_def BLOCK_SIZE_W_def MBLOCK_SIZE_W_def

lemma bpm [simp]: "BLOCKS_PER_MBLOCK = 252"
  by (simp add: block_consts)

lemma and_not_mask_mod:
  assumes "m = mask n" "n < 64"
  shows "unat (p AND NOT (m :: StgWord)) = unat p - unat p mod 2 ^ n"
proof -
  have "p = (p AND m) OR (p AND NOT m)" by (rule bit_word_eqI) (auto simp: bit_simps)
  moreover have "(p AND m) AND (p AND NOT m) = 0" by (rule bit_word_eqI) (auto simp: bit_simps)
  ultimately have "p = (p AND m) + (p AND NOT m)" by (simp add: disjunctive_add_eq_or)
  then have "p AND NOT m = p - (p AND m)" by (simp add: algebra_simps)
  moreover have "p AND m \<le> p" by (metis word_and_le2)
  ultimately have "unat (p AND NOT m) = unat p - unat (p AND m)" by (simp add: unat_sub)
  moreover have "unat (p AND m) = unat p mod 2 ^ n"
  proof -
    have "p AND m = take_bit n p" using assms(1) by (simp only: take_bit_eq_mask)
    moreover have "unat (take_bit n p) = take_bit n (unat p)" by (rule unsigned_take_bit_eq)
    ultimately show ?thesis by (simp only: take_bit_eq_mod)
  qed
  ultimately show ?thesis by simp
qed

lemma mblock_round_word: "unat (MBLOCK_ROUND_DOWN p) = mblock_of (unat p)"
  unfolding MBLOCK_ROUND_DOWN_def mblock_of_def MBLOCK_SIZE_def
  by (subst and_not_mask_mod [of _ 20]) (simp_all add: MBLOCK_MASK_def mask_numeral)

lemma mblock_of_split:
  assumes "m mod MBLOCK_SIZE = 0" "x < MBLOCK_SIZE"
  shows "mblock_of (m + x) = m"
proof -
  have "(m + x) mod MBLOCK_SIZE = x" using assms by (metis mod_add_left_eq add_0 mod_less)
  then show ?thesis by (simp add: mblock_of_def)
qed

lemma mblock_of_div: "mblock_of p = p div MBLOCK_SIZE * MBLOCK_SIZE"
  by (simp add: mblock_of_def minus_mod_eq_div_mult)

lemma mblock_up_div: "mblock_up p = (p + (MBLOCK_SIZE - 1)) div MBLOCK_SIZE * MBLOCK_SIZE"
  by (simp add: mblock_up_def mblock_of_div MBLOCK_SIZE_def)

lemma masks: "MBLOCK_MASK = mask 20" "BLOCK_MASK = mask 12"
  by (simp_all add: MBLOCK_MASK_def BLOCK_MASK_def mask_numeral)

lemma and_mask_not_mask:
  "drop_bit 6 (p AND MBLOCK_MASK AND NOT BLOCK_MASK) = push_bit 6 (take_bit 8 (drop_bit 12 (p :: StgWord)))"
  unfolding masks by (rule bit_word_eqI) (auto simp: bit_simps)

lemma unat_desc_off:
  "unat (push_bit 6 (take_bit 8 (drop_bit 12 (p :: StgWord)))) = unat p div 4096 mod 256 * 64"
proof -
  have t: "unat (take_bit 8 (drop_bit 12 p)) = unat p div 4096 mod 256"
  proof -
    have "unat (take_bit 8 (drop_bit 12 p)) = take_bit 8 (drop_bit 12 (unat p))"
      by (simp only: unsigned_take_bit_eq unat_drop_bit_eq)
    then show ?thesis by (simp add: take_bit_eq_mod drop_bit_eq_div)
  qed
  have "push_bit 6 (take_bit 8 (drop_bit 12 p)) = take_bit 8 (drop_bit 12 p) * 64"
    by (simp add: push_bit_eq_mult)
  moreover have "unat (take_bit 8 (drop_bit 12 p)) * 64 < 2 ^ 64" unfolding t
    by (rule le_less_trans [of _ "255 * 64"]) (use mod_less_divisor [of 256 "unat p div 4096"] in simp_all)
  ultimately show ?thesis using t by (simp add: unat_word_ariths)
qed

text \<open>
  \<open>Bdescr(p)\<close> computes, with its masks and shift, the descriptor of the block that
  holds \<open>p\<close>: the start of \<open>p\<close>'s megablock plus 64 bytes for each 4 kB block before \<open>p\<close>'s.\<close>

theorem Bdescr_index:
  "unat (Bdescr p) = mblock_of (unat p) + BDESCR_SIZE * (unat p mod MBLOCK_SIZE div BLOCK_SIZE)"
proof -
  let ?o = "push_bit 6 (take_bit 8 (drop_bit 12 p))" and ?b = "p AND NOT MBLOCK_MASK"
  have d: "?o AND ?b = 0" unfolding masks by (rule bit_word_eqI) (auto simp: bit_simps)
  have b: "unat ?b = mblock_of (unat p)" using mblock_round_word [of p] by (simp add: MBLOCK_ROUND_DOWN_def)
  have o: "unat ?o = unat p div 4096 mod 256 * 64" by (rule unat_desc_off)
  have m: "unat p mod 1048576 div 4096 = unat p div 4096 mod 256"
    using div_exp_mod_exp_eq [of "unat p" 12 8] mod_mult2_eq [of "unat p" 4096 256] by simp
  have "mblock_of (unat p) + unat ?o < 2 ^ 64"
  proof -
    have "unat p < 2 ^ 44 * 1048576" using unsigned_less [of p] by simp
    then have "unat p div 1048576 < 2 ^ 44" by (metis div_less_iff_less_mult zero_less_numeral)
    then have "mblock_of (unat p) \<le> (2 ^ 44 - 1) * 1048576" by (simp add: mblock_of_div MBLOCK_SIZE_def)
    moreover have "unat ?o < 256 * 64" unfolding o by simp
    ultimately show ?thesis by simp
  qed
  then have "unat (?o + ?b) = unat ?o + unat ?b" using b by (simp add: unat_word_ariths)
  moreover have "Bdescr p = ?o + ?b"
    using d and_mask_not_mask [of p] by (simp add: Bdescr_def disjunctive_add_eq_or)
  ultimately show ?thesis using b o m by (simp add: MBLOCK_SIZE_def BLOCK_SIZE_def BDESCR_SIZE_def)
qed

section \<open>Sizes of megablock groups\<close>

lemma ceil_div_le: "0 < (k :: nat) \<Longrightarrow> (a + (k - 1)) div k \<le> b \<longleftrightarrow> a \<le> b * k"
proof -
  assume k: "0 < k"
  have "(a + (k - 1)) div k \<le> b \<longleftrightarrow> (a + (k - 1)) < (b + 1) * k"
    using k by (metis Suc_eq_plus1 div_less_iff_less_mult less_Suc_eq_le)
  also have "\<dots> \<longleftrightarrow> a \<le> b * k" using k by (simp add: algebra_simps) linarith
  finally show ?thesis .
qed

lemma BLOCKS_TO_MBLOCKS_ceil: "BLOCKS_TO_MBLOCKS n = 1 + ((n - 252) * 4096 + (1048576 - 1)) div 1048576"
  by (simp add: BLOCKS_TO_MBLOCKS_def mblock_up_div MBLOCK_SIZE_def BLOCK_SIZE_def)

lemma BLOCKS_TO_MBLOCKS_pos [simp]: "0 < BLOCKS_TO_MBLOCKS n"
  by (simp add: BLOCKS_TO_MBLOCKS_def)

lemma MBLOCK_GROUP_BLOCKS_val: "MBLOCK_GROUP_BLOCKS n = 252 + (n - 1) * 256"
  by (simp add: MBLOCK_GROUP_BLOCKS_def MBLOCK_SIZE_def BLOCK_SIZE_def)

text \<open>
  \<open>BLOCKS_TO_MBLOCKS\<close> and \<open>MBLOCK_GROUP_BLOCKS\<close> form a Galois connection: a group of
  \<open>k\<close> blocks fits in \<open>m\<close> megablocks exactly when \<open>BLOCKS_TO_MBLOCKS k \<le> m\<close>.  So the allocator
  asks for as many megablocks as are needed and for no more.\<close>

lemma mblocks_galois:
  assumes "1 \<le> m"
  shows "BLOCKS_TO_MBLOCKS k \<le> m \<longleftrightarrow> k \<le> MBLOCK_GROUP_BLOCKS m"
proof -
  have "BLOCKS_TO_MBLOCKS k \<le> m \<longleftrightarrow> ((k - 252) * 4096 + (1048576 - 1)) div 1048576 \<le> m - 1"
    unfolding BLOCKS_TO_MBLOCKS_ceil using assms by linarith
  also have "\<dots> \<longleftrightarrow> (k - 252) * 4096 \<le> (m - 1) * 1048576" by (rule ceil_div_le) simp
  also have "\<dots> \<longleftrightarrow> k \<le> 252 + (m - 1) * 256" by linarith
  finally show ?thesis by (simp add: MBLOCK_GROUP_BLOCKS_val)
qed


text \<open>
  Pointer rounding.  Rounding up a pointer in the last, partial block or megablock of the address
  space would wrap; below that it is the least multiple above.\<close>

lemma block_round_word: "unat (BLOCK_ROUND_DOWN p) = unat p - unat p mod BLOCK_SIZE"
  unfolding BLOCK_ROUND_DOWN_def BLOCK_SIZE_def
  by (subst and_not_mask_mod [of _ 12]) (simp_all add: masks)

lemma block_round_up_word:
  assumes "unat p + 4095 < 2 ^ 64"
  shows "unat (BLOCK_ROUND_UP p) = (unat p + 4095) div BLOCK_SIZE * BLOCK_SIZE"
proof -
  have e: "unat (p + 4096 - 1) = unat p + 4095" using assms by (simp add: unat_word_ariths)
  show ?thesis unfolding BLOCK_ROUND_UP_def BLOCK_SIZE_def
    by (subst and_not_mask_mod [of _ 12]) (simp_all only: masks e minus_mod_eq_div_mult, simp_all)
qed

lemma mblock_round_up_word:
  assumes "unat p + 1048575 < 2 ^ 64"
  shows "unat (MBLOCK_ROUND_UP p) = mblock_up (unat p)"
proof -
  have e: "unat (p + 1048576 - 1) = unat p + 1048575" using assms by (simp add: unat_word_ariths)
  show ?thesis unfolding MBLOCK_ROUND_UP_def mblock_up_div MBLOCK_SIZE_def
    by (subst and_not_mask_mod [of _ 20]) (simp_all only: masks e minus_mod_eq_div_mult, simp_all)
qed

text \<open>
  \<open>round_to_mblocks\<close> leaves sizes that fit in one megablock alone and otherwise answers a size that
  fills whole megablocks, at most half a megablock away.  \<open>round_up_to_mblocks\<close> answers the size of
  a strictly larger megablock group: a size that already fills its megablocks gets one more.\<close>

lemma round_to_mblocks_fills:
  assumes "129024 < w"
  shows "(round_to_mblocks w + 2048) mod 131072 = 0"
    and "round_to_mblocks w \<le> w + 65536" "w < round_to_mblocks w + 65536"
proof -
  let ?v = "w + 2048"
  have v: "?v div 131072 * 131072 + ?v mod 131072 = ?v" "?v mod 131072 < 131072" by simp_all
  have g: "1 \<le> ?v div 131072" using assms by (simp add: div_greater_zero_iff Suc_le_eq)
  then have g': "131072 \<le> ?v div 131072 * 131072" by simp
  have e: "round_to_mblocks w =
      (if ?v mod 131072 < 65536 then ?v div 131072 * 131072 else (?v div 131072 + 1) * 131072) - 2048"
    using assms by (simp add: round_to_mblocks_def Let_def BLOCK_SIZE_W_def MBLOCK_SIZE_W_def
        BLOCK_SIZE_def MBLOCK_SIZE_def FIRST_BLOCK_OFF_def)
  show "(round_to_mblocks w + 2048) mod 131072 = 0" unfolding e using g' by simp
  define q r where "q = ?v div 131072" and "r = ?v mod 131072"
  have "round_to_mblocks w = (if r < 65536 then q * 131072 else (q + 1) * 131072) - 2048"
    "q * 131072 + r = w + 2048" "r < 131072" "131072 \<le> q * 131072"
    using e v g' unfolding q_def r_def by blast+
  then show "round_to_mblocks w \<le> w + 65536" "w < round_to_mblocks w + 65536"
    by (cases "r < 65536"; simp)+
qed

lemma round_up_to_mblocks_strict:
  "w < round_up_to_mblocks w" "(round_up_to_mblocks w + 2048) mod 131072 = 0"
  "round_up_to_mblocks w \<le> w + 131072"
proof -
  let ?v = "w + 2048"
  have v: "?v div 131072 * 131072 + ?v mod 131072 = ?v" "?v mod 131072 < 131072" by simp_all
  have e: "round_up_to_mblocks w = (?v div 131072 + 1) * 131072 - 2048"
    by (simp add: round_up_to_mblocks_def Let_def MBLOCK_SIZE_W_def MBLOCK_SIZE_def FIRST_BLOCK_OFF_def)
  show "w < round_up_to_mblocks w" "(round_up_to_mblocks w + 2048) mod 131072 = 0"
      "round_up_to_mblocks w \<le> w + 131072"
    unfolding e using v by (auto simp: algebra_simps)
qed

section \<open>Doubly linked lists of descriptors\<close>

text \<open>
  \<open>dseg mem b h xs t\<close>: following \<open>link\<close> from \<open>h\<close> visits the descriptors \<open>xs\<close> and arrives at \<open>t\<close>,
  and the \<open>back\<close> pointers lead the other way, that of the first descriptor to \<open>b\<close>.\<close>

fun dseg :: "bd_mem \<Rightarrow> addr \<Rightarrow> addr \<Rightarrow> addr list \<Rightarrow> addr \<Rightarrow> bool" where
  "dseg mem b h [] t \<longleftrightarrow> h = t"
| "dseg mem b h (x # xs) t \<longleftrightarrow>
     h = x \<and> x \<noteq> NULL \<and> bd_back (mem x) = b \<and> dseg mem x (bd_link (mem x)) xs t"

definition dlist :: "bd_mem \<Rightarrow> addr \<Rightarrow> addr list \<Rightarrow> bool" where
  "dlist mem h xs \<longleftrightarrow> dseg mem NULL h xs NULL \<and> distinct xs"

lemma upd_bd_same [simp]: "upd_bd p f mem p = f (mem p)"
  by (simp add: upd_bd_def)

lemma upd_bd_other [simp]: "q \<noteq> p \<Longrightarrow> upd_bd p f mem q = mem q"
  by (simp add: upd_bd_def)

lemma dseg_append:
  "dseg mem b h (xs @ ys) t \<longleftrightarrow> (\<exists>k. dseg mem b h xs k \<and> dseg mem (last (b # xs)) k ys t)"
  by (induction xs arbitrary: b h) auto

lemma dseg_cong:
  assumes "\<forall>x \<in> set xs. bd_link (mem' x) = bd_link (mem x) \<and> bd_back (mem' x) = bd_back (mem x)"
  shows "dseg mem' b h xs t \<longleftrightarrow> dseg mem b h xs t"
  using assms by (induction xs arbitrary: b h) auto

lemma dseg_nonnull: "dseg mem b h xs t \<Longrightarrow> NULL \<notin> set xs"
  by (induction xs arbitrary: b h) auto

lemma dseg_last_link: "dseg mem b h (us @ [u]) t \<Longrightarrow> bd_link (mem u) = t"
  by (auto simp: dseg_append)

lemma dseg_relink:
  assumes "dseg mem b h (us @ [u]) t" "u \<notin> set us"
  shows "dseg (upd_bd u (\<lambda>d. d\<lparr>bd_link := t'\<rparr>) mem) b h (us @ [u]) t'"
proof -
  obtain k where k: "dseg mem b h us k" "dseg mem (last (b # us)) k [u] t"
    using assms(1) by (auto simp only: dseg_append)
  have "dseg (upd_bd u (\<lambda>d. d\<lparr>bd_link := t'\<rparr>) mem) b h us k"
  proof (subst dseg_cong [where mem = mem])
    show "\<forall>x \<in> set us. bd_link (upd_bd u (\<lambda>d. d\<lparr>bd_link := t'\<rparr>) mem x) = bd_link (mem x) \<and>
            bd_back (upd_bd u (\<lambda>d. d\<lparr>bd_link := t'\<rparr>) mem x) = bd_back (mem x)"
      using assms(2) by (auto simp: upd_bd_def)
  qed (rule k)
  then show ?thesis using k(2) unfolding dseg_append by auto
qed

lemma dseg_reback:
  assumes "dseg mem b h (v # vs) t" "v \<notin> set vs"
  shows "dseg (upd_bd v (\<lambda>d. d\<lparr>bd_back := b'\<rparr>) mem) b' h (v # vs) t"
proof -
  have "dseg (upd_bd v (\<lambda>d. d\<lparr>bd_back := b'\<rparr>) mem) v (bd_link (mem v)) vs t"
    by (subst dseg_cong [where mem = mem]) (use assms in \<open>auto simp: upd_bd_def\<close>)
  then show ?thesis using assms(1) by simp
qed

lemma dseg_upd_other:
  assumes "p \<notin> set xs" "dseg mem b h xs t" shows "dseg (upd_bd p f mem) b h xs t"
  by (subst dseg_cong [where mem = mem]) (use assms in \<open>auto simp: upd_bd_def\<close>)

lemma dseg_upd_cond:
  assumes "dseg mem b h xs t" "p \<noteq> NULL \<longrightarrow> p \<notin> set xs"
  shows "dseg (if p \<noteq> NULL then upd_bd p f mem else mem) b h xs t"
  using assms by (auto intro: dseg_upd_other)

lemma dlist_cong:
  assumes "dlist mem h xs"
    "\<And>x. x \<in> set xs \<Longrightarrow> bd_link (mem' x) = bd_link (mem x) \<and> bd_back (mem' x) = bd_back (mem x)"
  shows "dlist mem' h xs"
  using assms dseg_cong [of xs mem' mem NULL h NULL] by (auto simp: dlist_def)

text \<open>The fields the list operations leave alone.\<close>

definition same_but_links :: "bdescr \<Rightarrow> bdescr \<Rightarrow> bool" where
  "same_but_links d d' \<longleftrightarrow> d'\<lparr>bd_link := bd_link d, bd_back := bd_back d\<rparr> = d"

lemma same_but_links_refl [simp]: "same_but_links d d"
  by (simp add: same_but_links_def)

lemma same_but_linksD:
  assumes "same_but_links d d'"
  shows "bd_start d' = bd_start d" "bd_free d' = bd_free d" "bd_blocks d' = bd_blocks d"
    "bd_gen d' = bd_gen d" "bd_gen_no d' = bd_gen_no d" "bd_flags d' = bd_flags d"
  using assms by (cases d; cases d'; simp add: same_but_links_def)+

lemma same_but_links_trans: "same_but_links d e \<Longrightarrow> same_but_links e f \<Longrightarrow> same_but_links d f"
  by (cases d; cases e; cases f; simp add: same_but_links_def)

lemma same_but_links_upd [simp]:
  "same_but_links (mem q) (upd_bd p (\<lambda>d. d\<lparr>bd_link := l\<rparr>) mem q)"
  "same_but_links (mem q) (upd_bd p (\<lambda>d. d\<lparr>bd_back := l\<rparr>) mem q)"
  by (auto simp: same_but_links_def upd_bd_def)

lemma dbl_link_onto_dlist:
  assumes "dlist mem h xs" "bd \<noteq> NULL" "bd \<notin> set xs" "dbl_link_onto mem bd h = (mem', h')"
  shows "dlist mem' h' (bd # xs)"
    and "\<And>q. same_but_links (mem q) (mem' q)"
    and "\<And>q. q \<notin> insert bd (set xs) \<Longrightarrow> mem' q = mem q"
proof -
  let ?m = "upd_bd bd (\<lambda>d. d\<lparr>bd_back := NULL\<rparr>) (upd_bd bd (\<lambda>d. d\<lparr>bd_link := h\<rparr>) mem)"
  have e: "mem' = (if h \<noteq> NULL then upd_bd h (\<lambda>d. d\<lparr>bd_back := bd\<rparr>) ?m else ?m)" "h' = bd"
    using assms(4) by (auto simp: dbl_link_onto_def Let_def split: if_splits)
  have s: "dseg ?m NULL h xs NULL" by (intro dseg_upd_other) (use assms in \<open>auto simp: dlist_def\<close>)
  show "dlist mem' h' (bd # xs)"
  proof (cases xs)
    case Nil then show ?thesis using assms e by (auto simp: dlist_def)
  next
    case (Cons y ys)
    then have y: "y = h" "h \<noteq> NULL" "h \<notin> set ys" "h \<noteq> bd" using assms(1,3) by (auto simp: dlist_def)
    have "dseg mem' bd h xs NULL"
      using dseg_reback [of ?m NULL h y ys NULL bd] s Cons y e(1) by auto
    then show ?thesis using assms e y Cons by (auto simp: dlist_def)
  qed
  show "\<And>q. same_but_links (mem q) (mem' q)"
    unfolding e(1) by (auto simp: same_but_links_def upd_bd_def)
  show "\<And>q. q \<notin> insert bd (set xs) \<Longrightarrow> mem' q = mem q"
    using assms(1) unfolding e(1) by (cases xs) (auto simp: upd_bd_def dlist_def)
qed

lemma dbl_link_remove_eq:
  assumes "bd_back (mem bd) \<noteq> bd"
  shows "dbl_link_remove mem bd h =
    (let b = bd_back (mem bd); l = bd_link (mem bd);
         m1 = (if b \<noteq> NULL then upd_bd b (\<lambda>d. d\<lparr>bd_link := l\<rparr>) mem else mem)
     in (if l \<noteq> NULL then upd_bd l (\<lambda>d. d\<lparr>bd_back := b\<rparr>) m1 else m1,
         if b \<noteq> NULL then h else l))"
  using assms by (auto simp: dbl_link_remove_def Let_def)

lemma dseg_step_back:
  assumes "dseg mem b h xs t" "xs \<noteq> [] \<longrightarrow> x = h" "distinct xs" "x = NULL \<longleftrightarrow> xs = []"
  shows "dseg (if x \<noteq> NULL then upd_bd x (\<lambda>d. d\<lparr>bd_back := b'\<rparr>) mem else mem) b' h xs t"
proof (cases xs)
  case Nil then show ?thesis using assms by simp
next
  case (Cons v vs)
  then have "x = h" "v = h" "h \<noteq> NULL" using assms by auto
  then show ?thesis using dseg_reback [of mem b h v vs t b'] assms(1,3) Cons by simp
qed

lemma dbl_link_remove_dlist:
  assumes "dlist mem h xs" "bd \<in> set xs" "dbl_link_remove mem bd h = (mem', h')"
  shows "dlist mem' h' (remove1 bd xs)"
    and "\<And>q. same_but_links (mem q) (mem' q)"
    and "\<And>q. q \<notin> set (remove1 bd xs) \<Longrightarrow> mem' q = mem q"
proof -
  obtain us vs where xs: "xs = us @ bd # vs" using assms(2) by (meson split_list)
  have dist: "distinct xs" and seg: "dseg mem NULL h (us @ bd # vs) NULL"
    using assms(1) xs by (auto simp: dlist_def)
  let ?b = "last (NULL # us)" and ?l = "bd_link (mem bd)"
  have u: "dseg mem NULL h us bd" and b: "bd_back (mem bd) = ?b"
    and v: "dseg mem bd ?l vs NULL" and bd: "bd \<noteq> NULL"
    using seg unfolding dseg_append by auto
  have nn: "NULL \<notin> set xs" using assms(1) dseg_nonnull by (auto simp: dlist_def)
  have r: "remove1 bd xs = us @ vs" using dist xs by (simp add: remove1_append)
  have bl: "?b \<noteq> bd" using dist xs bd by (auto split: if_splits)
  have lv: "(?l = NULL) = (vs = [])" "vs \<noteq> [] \<longrightarrow> hd vs = ?l"
    using v by (cases vs; auto)+
  let ?m1 = "if ?b \<noteq> NULL then upd_bd ?b (\<lambda>d. d\<lparr>bd_link := ?l\<rparr>) mem else mem"
  have e: "mem' = (if ?l \<noteq> NULL then upd_bd ?l (\<lambda>d. d\<lparr>bd_back := ?b\<rparr>) ?m1 else ?m1)"
    "h' = (if ?b \<noteq> NULL then h else ?l)"
    using assms(3) bl dbl_link_remove_eq [of mem bd h] by (auto simp: b Let_def)
  have us1: "dseg ?m1 NULL h' us ?l"
  proof (cases us rule: rev_cases)
    case (snoc ys y)
    then have "y \<noteq> NULL" "y \<notin> set ys" using nn dist xs by auto
    then show ?thesis using dseg_relink [of mem NULL h ys y bd ?l] u snoc e(2) by simp
  qed (use u e in simp)
  have vs1: "dseg ?m1 bd ?l vs NULL"
  proof (cases us rule: rev_cases)
    case (snoc ys y)
    then have "y \<notin> set vs" using dist xs by auto
    then show ?thesis using v snoc dseg_upd_other by simp
  qed (use v in simp)
  have "dseg mem' ?b ?l vs NULL"
    unfolding e(1) by (rule dseg_step_back [OF vs1]) (use lv dist xs in auto)
  moreover have "dseg mem' NULL h' us ?l"
  proof -
    have "?l \<noteq> NULL \<longrightarrow> ?l \<notin> set us" using lv dist xs by (cases vs) auto
    then show ?thesis unfolding e(1) using us1 dseg_upd_other by auto
  qed
  ultimately have "dseg mem' NULL h' (us @ vs) NULL" unfolding dseg_append by blast
  then show "dlist mem' h' (remove1 bd xs)" using r dist xs by (auto simp: dlist_def)
  show "\<And>q. same_but_links (mem q) (mem' q)"
    unfolding e(1) by (auto simp: same_but_links_def upd_bd_def)
  show "mem' q = mem q" if "q \<notin> set (remove1 bd xs)" for q
  proof -
    have "?b \<noteq> NULL \<longrightarrow> q \<noteq> ?b" using that r by (auto split: if_splits)
    moreover have "?l \<noteq> NULL \<longrightarrow> q \<noteq> ?l" using that r lv by (cases vs) auto
    ultimately show ?thesis unfolding e(1) by (auto simp: upd_bd_def)
  qed
qed

lemma dbl_link_insert_after_dlist:
  assumes "dlist mem h (us @ a # vs)" "bd \<noteq> NULL" "bd \<notin> set (us @ a # vs)"
  shows "dlist (dbl_link_insert_after mem bd a) h (us @ a # bd # vs)"
proof -
  let ?l = "bd_link (mem a)"
  let ?m2 = "upd_bd bd (\<lambda>d. d\<lparr>bd_back := a\<rparr>) (upd_bd bd (\<lambda>d. d\<lparr>bd_link := ?l\<rparr>) mem)"
  let ?m3 = "if ?l \<noteq> NULL then upd_bd ?l (\<lambda>d. d\<lparr>bd_back := bd\<rparr>) ?m2 else ?m2"
  have ne: "bd \<noteq> a" "distinct (us @ a # vs)" using assms by (auto simp: dlist_def)
  then have e: "dbl_link_insert_after mem bd a = upd_bd a (\<lambda>d. d\<lparr>bd_link := bd\<rparr>) ?m3" (is "_ = ?m4")
    by (simp add: dbl_link_insert_after_def Let_def)
  have u: "dseg mem NULL h (us @ [a]) ?l" and v: "dseg mem a ?l vs NULL"
    using assms(1) by (auto simp: dlist_def dseg_append)
  have lv: "?l = NULL \<longleftrightarrow> vs = []" "vs \<noteq> [] \<longrightarrow> ?l = hd vs" using v by (cases vs; auto)+
  have l: "?l \<notin> set (us @ [a])" using lv ne(2) dseg_nonnull [OF u] by (cases vs) auto
  have "dseg ?m2 a ?l vs NULL" by (intro dseg_upd_other v) (use assms in auto)
  then have "dseg ?m3 bd ?l vs NULL" by (rule dseg_step_back) (use lv ne in auto)
  then have v4: "dseg ?m4 bd ?l vs NULL" by (rule dseg_upd_other [rotated]) (use ne in auto)
  have "dseg ?m2 NULL h (us @ [a]) ?l" by (intro dseg_upd_other u) (use assms in auto)
  then have "dseg ?m3 NULL h (us @ [a]) ?l" using l by (auto intro: dseg_upd_other simp del: set_append)
  then have u4: "dseg ?m4 NULL h (us @ [a]) bd" by (rule dseg_relink) (use ne in auto)
  have "bd_link (?m4 bd) = ?l" "bd_back (?m4 bd) = a"
    using ne lv assms(3) by (cases vs; auto simp: upd_bd_def)+
  then have "dseg ?m4 NULL h ((us @ [a]) @ bd # vs) NULL"
    using u4 v4 assms(2) unfolding dseg_append [of _ _ _ "us @ [a]"] by auto
  then show ?thesis using assms ne unfolding e by (auto simp: dlist_def)
qed

lemma dbl_link_replace_dlist:
  assumes "dlist mem h (us @ old # vs)" "new \<noteq> NULL" "new \<notin> set (us @ old # vs)"
    and r: "dbl_link_replace mem new old h = (mem', h')"
  shows "dlist mem' h' (us @ new # vs)"
proof -
  let ?l = "bd_link (mem old)" and ?b = "last (NULL # us)"
  let ?m2 = "upd_bd new (\<lambda>d. d\<lparr>bd_back := ?b\<rparr>) (upd_bd new (\<lambda>d. d\<lparr>bd_link := ?l\<rparr>) mem)"
  let ?m3 = "if ?l \<noteq> NULL then upd_bd ?l (\<lambda>d. d\<lparr>bd_back := new\<rparr>) ?m2 else ?m2"
  have ne: "new \<noteq> old" "distinct (us @ old # vs)" using assms by (auto simp: dlist_def)
  have seg: "dseg mem NULL h (us @ old # vs) NULL" using assms(1) by (simp add: dlist_def)
  have u: "dseg mem NULL h us old" and v: "dseg mem old ?l vs NULL" and b: "bd_back (mem old) = ?b"
    using seg by (auto simp: dseg_append)
  have nn: "NULL \<notin> set (us @ old # vs)" using dseg_nonnull [OF seg] .
  have lv: "?l = NULL \<longleftrightarrow> vs = []" "vs \<noteq> [] \<longrightarrow> ?l = hd vs" using v by (cases vs; auto)+
  then have lo: "?l \<noteq> old" "?l \<notin> set us" using ne(2) nn by (cases vs; auto)+
  have e: "mem' = (if ?b \<noteq> NULL then upd_bd ?b (\<lambda>d. d\<lparr>bd_link := new\<rparr>) ?m3 else ?m3)"
    "h' = (if ?b \<noteq> NULL then h else new)"
    using r ne(1) lo(1) by (auto simp: dbl_link_replace_def Let_def b upd_bd_def split: if_splits)
  have bv: "?b \<noteq> NULL \<longrightarrow> ?b \<in> set us" by auto
  have "dseg ?m2 old ?l vs NULL" by (intro dseg_upd_other v) (use assms in auto)
  then have "dseg ?m3 new ?l vs NULL" by (rule dseg_step_back) (use lv ne in auto)
  moreover have "?b \<noteq> NULL \<longrightarrow> ?b \<notin> set vs" using bv ne(2) by auto
  ultimately have v': "dseg mem' new ?l vs NULL"
    unfolding e(1) by (rule dseg_upd_cond)
  have "dseg ?m2 NULL h us old" by (intro dseg_upd_other u) (use assms in auto)
  then have u3: "dseg ?m3 NULL h us old" using lo by (auto intro: dseg_upd_other)
  have u': "dseg mem' NULL h' us new"
  proof (cases us rule: rev_cases)
    case (snoc ys y)
    then have "?b = y" "y \<noteq> NULL" "y \<notin> set ys" using nn ne(2) by auto
    then show ?thesis using dseg_relink [of ?m3 NULL h ys y old new] u3 snoc unfolding e by simp
  qed (use e in simp)
  have "?l \<noteq> NULL \<longrightarrow> new \<noteq> ?l" "?b \<noteq> NULL \<longrightarrow> new \<noteq> ?b" using lv bv assms(3) by (cases vs; auto)+
  then have "bd_link (mem' new) = ?l" "bd_back (mem' new) = ?b"
    unfolding e(1) by (auto simp: upd_bd_def simp del: last.simps)
  then have "dseg mem' NULL h' (us @ new # vs) NULL" using u' v' assms(2) by (auto simp: dseg_append)
  then show ?thesis using assms ne by (auto simp: dlist_def)
qed

text \<open>The interface of a list of objects threaded through a store, which the allocator's free lists use.\<close>

locale threaded_list =
  fixes rep :: "'m \<Rightarrow> 'h \<Rightarrow> 'a list \<Rightarrow> bool"
    and onto :: "'m \<Rightarrow> 'a \<Rightarrow> 'h \<Rightarrow> 'm \<times> 'h"
    and remove :: "'m \<Rightarrow> 'a \<Rightarrow> 'h \<Rightarrow> 'm \<times> 'h"
    and ok :: "'a \<Rightarrow> bool"
  assumes onto_rep: "rep m h xs \<Longrightarrow> ok x \<Longrightarrow> x \<notin> set xs \<Longrightarrow> onto m x h = (m', h') \<Longrightarrow> rep m' h' (x # xs)"
    and remove_rep: "rep m h xs \<Longrightarrow> x \<in> set xs \<Longrightarrow> remove m x h = (m', h') \<Longrightarrow> rep m' h' (remove1 x xs)"
begin

fun push_all :: "'m \<Rightarrow> 'a list \<Rightarrow> 'h \<Rightarrow> 'm \<times> 'h" where
  "push_all m [] h = (m, h)"
| "push_all m (x # xs) h = (case onto m x h of (m', h') \<Rightarrow> push_all m' xs h')"

lemma push_all_rep:
  assumes "rep m h ys" "\<forall>x \<in> set xs. ok x" "distinct (xs @ ys)"
  shows "case push_all m xs h of (m', h') \<Rightarrow> rep m' h' (rev xs @ ys)"
  using assms
proof (induction xs arbitrary: m h ys)
  case (Cons x xs)
  obtain m1 h1 where o: "onto m x h = (m1, h1)" by fastforce
  have "rep m1 h1 (x # ys)" using onto_rep [OF _ _ _ o] Cons.prems by auto
  then show ?case using Cons.IH [of m1 h1 "x # ys"] Cons.prems o by auto
qed simp

lemma remove_after_onto:
  assumes "rep m h xs" "ok x" "x \<notin> set xs" "onto m x h = (m1, h1)" "remove m1 x h1 = (m2, h2)"
  shows "rep m2 h2 xs"
  using remove_rep [OF onto_rep [OF assms(1-4)] _ assms(5)] by simp

end

interpretation dbl: threaded_list dlist dbl_link_onto dbl_link_remove "\<lambda>x. x \<noteq> NULL"
  by unfold_locales (blast intro: dbl_link_onto_dlist dbl_link_remove_dlist)+

text \<open>
  The four operations on doubly linked descriptor lists do to the memory what their
  names say of the list: \<open>dbl_link_onto\<close> pushes, \<open>dbl_link_remove\<close> deletes an element wherever it
  is, \<open>dbl_link_insert_after\<close> and \<open>dbl_link_replace\<close> insert and substitute in place, each with
  every link, back pointer and the list head right.\<close>

theorem dbl_list_operations:
  assumes "dlist mem h (us @ x # vs)" "new \<noteq> NULL" "new \<notin> set (us @ x # vs)"
  shows "(case dbl_link_onto mem new h of (mem', h') \<Rightarrow> dlist mem' h' (new # us @ x # vs)) \<and>
    (case dbl_link_remove mem x h of (mem', h') \<Rightarrow> dlist mem' h' (us @ vs)) \<and>
    dlist (dbl_link_insert_after mem new x) h (us @ x # new # vs) \<and>
    (case dbl_link_replace mem new x h of (mem', h') \<Rightarrow> dlist mem' h' (us @ new # vs))"
proof (intro conjI)
  show "case dbl_link_onto mem new h of (mem', h') \<Rightarrow> dlist mem' h' (new # us @ x # vs)"
    using dbl.onto_rep [OF assms] by (auto split: prod.split)
  have "remove1 x (us @ x # vs) = us @ vs" using assms(1) by (simp add: dlist_def remove1_append)
  then show "case dbl_link_remove mem x h of (mem', h') \<Rightarrow> dlist mem' h' (us @ vs)"
    using dbl.remove_rep [OF assms(1), of x] by (auto split: prod.split)
  show "dlist (dbl_link_insert_after mem new x) h (us @ x # new # vs)"
    using assms by (rule dbl_link_insert_after_dlist)
  show "case dbl_link_replace mem new x h of (mem', h') \<Rightarrow> dlist mem' h' (us @ new # vs)"
    using dbl_link_replace_dlist [OF assms] by (auto split: prod.split)
qed

definition bd0 :: bdescr where
  "bd0 = \<lparr>bd_start = 0, bd_free = 0, bd_link = NULL, bd_back = NULL, bd_gen = 0, bd_gen_no = 0,
          bd_flags = 0, bd_blocks = 0\<rparr>"

lemma dbl_list_operations_witness:
  "dlist ((\<lambda>_. bd0)(256 := bd0\<lparr>bd_link := 320\<rparr>, 320 := bd0\<lparr>bd_back := 256\<rparr>)) 256 ([256] @ 320 # []) \<and>
   (case dbl_link_remove ((\<lambda>_. bd0)(256 := bd0\<lparr>bd_link := 320\<rparr>, 320 := bd0\<lparr>bd_back := 256\<rparr>)) 320 256
    of (mem', h') \<Rightarrow> dlist mem' h' [256])"
proof -
  let ?m = "(\<lambda>_. bd0)(256 := bd0\<lparr>bd_link := 320\<rparr>, 320 := bd0\<lparr>bd_back := 256\<rparr>)"
  have "dlist ?m 256 ([256] @ 320 # [])" by (simp add: dlist_def bd0_def)
  then show ?thesis using dbl_list_operations [of ?m 256 "[256]" 320 "[]" 384] by simp
qed

end
