(* ===== verification/MBlock.thy ===== *)
theory MBlock
  imports Block
begin

text \<open>
  Megablocks: how they are obtained from the operating system (\<open>rts/posix/OSMem.c\<close>), and the map
  and cache that answer \<open>HEAP_ALLOCED()\<close>, the test whether an address belongs to the heap
  (\<open>rts/sm/MBlock.c\<close>, \<open>includes/rts/storage/MBlock.h\<close>, 64-bit variant of x86_64).

  The system calls are parameters: \<open>mmap A hint size\<close> is the address the kernel answers when \<open>A\<close> is
  the set of mapped addresses (\<open>None\<close> for \<open>MAP_FAILED\<close>, after which the program exits), \<open>munmap_ok\<close>
  says whether \<open>munmap\<close> succeeds.  What the code relies on is \<open>mmap_spec\<close>.
\<close>

section \<open>Memory from the operating system\<close>

record os_state =
  next_request :: addr
  mapped :: "nat set"

type_synonym mmap_fn = "nat set \<Rightarrow> addr \<Rightarrow> nat \<Rightarrow> addr option"
type_synonym munmap_fn = "addr \<Rightarrow> nat \<Rightarrow> bool"

definition osMemInit :: "addr \<Rightarrow> os_state \<Rightarrow> os_state" where
  "osMemInit heapBase os = os\<lparr>next_request := heapBase\<rparr>"

definition my_mmap :: "mmap_fn \<Rightarrow> addr \<Rightarrow> nat \<Rightarrow> os_state \<Rightarrow> (addr \<times> os_state) option" where
  "my_mmap mmap hint sz os =
     (case mmap (mapped os) hint sz of
        None \<Rightarrow> None
      | Some ret \<Rightarrow> Some (ret, os\<lparr>mapped := mapped os \<union> {ret ..< ret + sz}\<rparr>))"

definition munmap :: "munmap_fn \<Rightarrow> addr \<Rightarrow> nat \<Rightarrow> os_state \<Rightarrow> os_state option" where
  "munmap munmap_ok a sz os =
     (if munmap_ok a sz then Some (os\<lparr>mapped := mapped os - {a ..< a + sz}\<rparr>) else None)"

definition gen_map_mblocks :: "mmap_fn \<Rightarrow> munmap_fn \<Rightarrow> nat \<Rightarrow> os_state \<Rightarrow> (addr \<times> os_state) option" where
  "gen_map_mblocks mmap munmap_ok sz0 os = do {
     let sz = sz0 + MBLOCK_SIZE;
     (ret, os) \<leftarrow> my_mmap mmap 0 sz os;
     let slop = ret mod MBLOCK_SIZE;
     os \<leftarrow> munmap munmap_ok ret (MBLOCK_SIZE - slop) os;
     os \<leftarrow> (if slop > 0 then munmap munmap_ok (ret + sz - slop) slop os else Some os);
     Some (ret + (MBLOCK_SIZE - slop), os)
   }"

definition osGetMBlocks :: "mmap_fn \<Rightarrow> munmap_fn \<Rightarrow> nat \<Rightarrow> os_state \<Rightarrow> (addr \<times> os_state) option" where
  "osGetMBlocks mmap munmap_ok n os = do {
     let sz = MBLOCK_SIZE * n;
     (ret, os) \<leftarrow>
       (if next_request os = 0 then gen_map_mblocks mmap munmap_ok sz os
        else do {
          (ret, os) \<leftarrow> my_mmap mmap (next_request os) sz os;
          if ret mod MBLOCK_SIZE \<noteq> 0
          then do { os \<leftarrow> munmap munmap_ok ret sz os; gen_map_mblocks mmap munmap_ok sz os }
          else Some (ret, os)
        });
     Some (ret, os\<lparr>next_request := ret + sz\<rparr>)
   }"

text \<open>\<open>n * MBLOCK_SIZE\<close> is computed in \<open>unsigned int\<close>; a failing \<open>munmap\<close> is not noticed here.\<close>

definition osFreeMBlocks :: "munmap_fn \<Rightarrow> addr \<Rightarrow> nat \<Rightarrow> os_state \<Rightarrow> os_state" where
  "osFreeMBlocks munmap_ok a n os =
     (case munmap munmap_ok a (unat (of_nat n * 1048576 :: StgWord32)) os of
        None \<Rightarrow> os | Some os' \<Rightarrow> os')"

section \<open>The megablock map and its cache\<close>

definition MBC_ENTRIES :: nat where "MBC_ENTRIES = 8192"
definition MBLOCK_MAP_ENTRIES :: nat where "MBLOCK_MAP_ENTRIES = 4096"
definition MBC_LINE_SIZE :: nat where "MBC_LINE_SIZE = 1"

record MBlockMap =
  addrHigh32 :: StgWord32
  lines :: "nat \<Rightarrow> StgWord8"

record mb_state =
  mblock_maps :: "MBlockMap list"
  mblock_cache :: "nat \<Rightarrow> StgWord32"
  mpc_misses :: StgWord
  mblocks_allocated :: StgWord
  peak_mblocks_allocated :: StgWord
  mb_os :: os_state

definition MBLOCK_MAP_LINE :: "StgWord \<Rightarrow> nat" where
  "MBLOCK_MAP_LINE p = unat (drop_bit 20 (p AND 0xffffffff))"

definition high32 :: "StgWord \<Rightarrow> StgWord32" where
  "high32 p = ucast (drop_bit 32 p)"

fun findMBlockMap_from :: "nat \<Rightarrow> MBlockMap list \<Rightarrow> StgWord32 \<Rightarrow> nat option" where
  "findMBlockMap_from i [] hi = None"
| "findMBlockMap_from i (m # ms) hi =
     (if addrHigh32 m = hi then Some i else findMBlockMap_from (i + 1) ms hi)"

definition findMBlockMap :: "mb_state \<Rightarrow> StgWord \<Rightarrow> nat option" where
  "findMBlockMap s p = findMBlockMap_from 0 (mblock_maps s) (high32 p)"

definition entry_no :: "StgWord \<Rightarrow> nat" where
  "entry_no mblock = unat (mblock AND 8191)"

definition HEAP_ALLOCED_miss :: "StgWord \<Rightarrow> StgWord \<Rightarrow> mb_state \<Rightarrow> StgWord8 \<times> mb_state" where
  "HEAP_ALLOCED_miss mblock p s =
     (case findMBlockMap s p of
        Some i \<Rightarrow>
          (let s1 = s\<lparr>mpc_misses := mpc_misses s + 1\<rparr>;
               val = lines (mblock_maps s ! i) (MBLOCK_MAP_LINE p)
           in (val, s1\<lparr>mblock_cache := (mblock_cache s1)(entry_no mblock :=
                  ucast (push_bit 1 mblock OR ucast val))\<rparr>))
      | None \<Rightarrow>
          (0, s\<lparr>mblock_cache := (mblock_cache s)(entry_no mblock := ucast (push_bit 1 mblock))\<rparr>))"

definition HEAP_ALLOCED :: "StgWord \<Rightarrow> mb_state \<Rightarrow> StgWord8 \<times> mb_state" where
  "HEAP_ALLOCED p s =
     (let mblock = drop_bit 20 p;
          entry = mblock_cache s (entry_no mblock);
          val = entry XOR ucast (push_bit 1 mblock)
      in if val = 1 then (1, s)
         else if val = 0 then (0, s)
         else HEAP_ALLOCED_miss mblock p s)"

definition setHeapAlloced :: "StgWord \<Rightarrow> StgWord8 \<Rightarrow> mb_state \<Rightarrow> mb_state" where
  "setHeapAlloced p v s =
     (let (i, maps) = (case findMBlockMap s p of
             Some i \<Rightarrow> (i, mblock_maps s)
           | None \<Rightarrow> (length (mblock_maps s),
                      mblock_maps s @ [\<lparr>addrHigh32 = high32 p, lines = (\<lambda>_. 0)\<rparr>]));
          mp = (maps ! i)\<lparr>lines := (lines (maps ! i))(MBLOCK_MAP_LINE p := v)\<rparr>;
          mblock = drop_bit 20 p
      in s\<lparr>mblock_maps := maps[i := mp],
           mblock_cache := (mblock_cache s)(entry_no mblock := ucast (push_bit 1 mblock + ucast v))\<rparr>)"

definition markHeapAlloced :: "StgWord \<Rightarrow> mb_state \<Rightarrow> mb_state" where
  "markHeapAlloced p = setHeapAlloced p 1"

definition markHeapUnalloced :: "StgWord \<Rightarrow> mb_state \<Rightarrow> mb_state" where
  "markHeapUnalloced p = setHeapAlloced p 0"

section \<open>Enumerating the megablocks\<close>

text \<open>The inner loops: over the megablocks of a line (there is one) and over the lines of a map.\<close>

function scan_off :: "StgWord8 \<Rightarrow> nat \<Rightarrow> nat option" where
  "scan_off line off =
     (if off < MBC_LINE_SIZE then
        if line AND push_bit off 1 \<noteq> 0 then Some off else scan_off line (off + 1)
      else None)"
  by pat_completeness auto
termination by (relation "measure (\<lambda>(line, off). MBC_LINE_SIZE - off)") auto

function scan_lines :: "MBlockMap \<Rightarrow> nat \<Rightarrow> nat \<Rightarrow> StgWord option" where
  "scan_lines mp line_no off =
     (if line_no < MBLOCK_MAP_ENTRIES then
        (case scan_off (lines mp line_no) off of
           Some off' \<Rightarrow> Some (push_bit 32 (ucast (addrHigh32 mp)) +
                          ucast (of_nat line_no * of_nat MBC_LINE_SIZE * 1048576 :: StgWord32) +
                          ucast (of_nat off' * 1048576 :: StgWord32))
         | None \<Rightarrow> scan_lines mp (line_no + 1) 0)
      else None)"
  by pat_completeness auto
termination by (relation "measure (\<lambda>(mp, line_no, off). MBLOCK_MAP_ENTRIES - line_no)") auto

declare scan_off.simps [simp del] scan_lines.simps [simp del]

fun next_in_maps :: "StgWord \<Rightarrow> MBlockMap list \<Rightarrow> StgWord" where
  "next_in_maps p [] = 0"
| "next_in_maps p (mp # maps) =
     (let (line_no, off) =
        (if ucast (addrHigh32 mp) = drop_bit 32 p
         then (MBLOCK_MAP_LINE p, unat (drop_bit 20 p AND (of_nat MBC_LINE_SIZE - 1)) + 1) else (0, 0))
      in case scan_lines mp line_no off of Some q \<Rightarrow> q | None \<Rightarrow> next_in_maps p maps)"

definition getNextMBlock :: "StgWord \<Rightarrow> mb_state \<Rightarrow> StgWord" where
  "getNextMBlock p s =
     next_in_maps p (dropWhile (\<lambda>mp. ucast (addrHigh32 mp) \<noteq> drop_bit 32 p) (mblock_maps s))"

text \<open>\<open>mblock_maps[0]\<close> is read whether or not there is a map: \<open>None\<close> is the null dereference.\<close>

definition getFirstMBlock :: "mb_state \<Rightarrow> StgWord option" where
  "getFirstMBlock s =
     (case mblock_maps s of
        [] \<Rightarrow> None
      | mp # _ \<Rightarrow> Some (case scan_lines mp 0 0 of Some q \<Rightarrow> q | None \<Rightarrow> 0))"

section \<open>Allocating and freeing megablocks\<close>

text \<open>\<open>i * MBLOCK_SIZE\<close> has type \<open>unsigned int\<close> and wraps at 32 bits.\<close>

fun mark_loop :: "StgWord8 \<Rightarrow> addr \<Rightarrow> nat \<Rightarrow> nat \<Rightarrow> mb_state \<Rightarrow> mb_state" where
  "mark_loop v a i 0 s = s"
| "mark_loop v a i (Suc k) s =
     mark_loop v a (i + 1) k (setHeapAlloced (of_nat a + ucast (of_nat i * 1048576 :: StgWord32)) v s)"

definition getMBlocks :: "mmap_fn \<Rightarrow> munmap_fn \<Rightarrow> nat \<Rightarrow> mb_state \<Rightarrow> (addr \<times> mb_state) option" where
  "getMBlocks mmap munmap_ok n s = do {
     (ret, os) \<leftarrow> osGetMBlocks mmap munmap_ok n (mb_os s);
     let s = s\<lparr>mb_os := os\<rparr>;
     let s = mark_loop 1 ret 0 n s;
     let s = s\<lparr>mblocks_allocated := mblocks_allocated s + of_nat n\<rparr>;
     let s = s\<lparr>peak_mblocks_allocated := max (peak_mblocks_allocated s) (mblocks_allocated s)\<rparr>;
     Some (ret, s)
   }"

definition getMBlock :: "mmap_fn \<Rightarrow> munmap_fn \<Rightarrow> mb_state \<Rightarrow> (addr \<times> mb_state) option" where
  "getMBlock mmap munmap_ok s = getMBlocks mmap munmap_ok 1 s"

definition freeMBlocks :: "munmap_fn \<Rightarrow> addr \<Rightarrow> nat \<Rightarrow> mb_state \<Rightarrow> mb_state" where
  "freeMBlocks munmap_ok a n s =
     (let s = s\<lparr>mblocks_allocated := mblocks_allocated s - of_nat n\<rparr>;
          s = mark_loop 0 a 0 n s
      in s\<lparr>mb_os := osFreeMBlocks munmap_ok a n (mb_os s)\<rparr>)"

definition initMBlocks :: "addr \<Rightarrow> mb_state \<Rightarrow> mb_state" where
  "initMBlocks heapBase s = s\<lparr>mb_os := osMemInit heapBase (mb_os s), mblock_cache := (\<lambda>_. 0xffffffff)\<rparr>"

text \<open>
  \<open>osFreeAllMBlocks\<close>: a loop over the enumeration, with the null dereference of its first step.
  \<open>freeAllMBlocks\<close> then frees the maps, which are not used again.\<close>

partial_function (option) osFreeAllMBlocks_loop ::
    "munmap_fn \<Rightarrow> StgWord \<Rightarrow> mb_state \<Rightarrow> os_state \<Rightarrow> os_state option" where
  "osFreeAllMBlocks_loop munmap_ok mblock s os =
     (if mblock = 0 then Some os
      else osFreeAllMBlocks_loop munmap_ok (getNextMBlock mblock s) s
             (case munmap munmap_ok (unat mblock) MBLOCK_SIZE os of None \<Rightarrow> os | Some os' \<Rightarrow> os'))"

definition osFreeAllMBlocks :: "munmap_fn \<Rightarrow> mb_state \<Rightarrow> os_state option" where
  "osFreeAllMBlocks munmap_ok s = do {
     mblock \<leftarrow> getFirstMBlock s;
     osFreeAllMBlocks_loop munmap_ok mblock s (mb_os s)
   }"

definition freeAllMBlocks :: "munmap_fn \<Rightarrow> mb_state \<Rightarrow> mb_state option" where
  "freeAllMBlocks munmap_ok s = do {
     os \<leftarrow> osFreeAllMBlocks munmap_ok s;
     Some (s\<lparr>mb_os := os, mblock_maps := []\<rparr>)
   }"

section \<open>Regions obtained from the operating system\<close>

text \<open>
  What the code relies on: without \<open>MAP_FIXED\<close>, \<open>mmap\<close> answers a region that overlaps no mapping,
  below the 47-bit limit of user addresses.\<close>

definition mmap_spec :: "mmap_fn \<Rightarrow> bool" where
  "mmap_spec mmap \<longleftrightarrow> (\<forall>A hint sz r. mmap A hint sz = Some r \<longrightarrow>
     {r ..< r + sz} \<inter> A = {} \<and> 0 < r \<and> r + sz \<le> 2 ^ 47)"

lemma mmap_specD:
  "mmap_spec mmap \<Longrightarrow> mmap A h sz = Some r \<Longrightarrow> {r ..< r + sz} \<inter> A = {} \<and> 0 < r \<and> r + sz \<le> 2 ^ 47"
  unfolding mmap_spec_def by blast

text \<open>A good answer: an aligned, fresh region of the wanted size, and nothing else mapped or unmapped.\<close>

definition fresh_region :: "os_state \<Rightarrow> nat \<Rightarrow> addr \<Rightarrow> os_state \<Rightarrow> bool" where
  "fresh_region os sz ret os' \<longleftrightarrow>
     ret mod MBLOCK_SIZE = 0 \<and> 0 < ret \<and> ret + sz \<le> 2 ^ 47 \<and>
     {ret ..< ret + sz} \<inter> mapped os = {} \<and> mapped os' = mapped os \<union> {ret ..< ret + sz}"

lemma align_up_mod: "0 < k \<Longrightarrow> (r + (k - r mod k)) mod k = (0 :: nat)"
proof -
  assume k: "0 < k"
  have "r + (k - r mod k) = (r div k + 1) * k"
    using div_mult_mod_eq [of r k] mod_less_divisor [OF k, of r] unfolding add_mult_distrib by linarith
  then show ?thesis by (metis mod_mult_self2_is_0)
qed

lemma gen_map_mblocks_region:
  assumes mm: "mmap_spec mmap" and g: "gen_map_mblocks mmap munmap_ok sz os = Some (ret, os')"
  shows "fresh_region os sz ret os'"
proof -
  obtain r where r: "mmap (mapped os) 0 (sz + MBLOCK_SIZE) = Some r"
    using g by (auto simp: gen_map_mblocks_def my_mmap_def Let_def bind_eq_Some_conv split: option.splits)
  let ?sl = "r mod MBLOCK_SIZE"
  have sl: "?sl < MBLOCK_SIZE" by (simp add: MBLOCK_SIZE_def)
  note fresh = mmap_specD [OF mm r]
  have ret: "ret = r + (MBLOCK_SIZE - ?sl)"
    and m: "mapped os' = (mapped os \<union> {r ..< r + (sz + MBLOCK_SIZE)}) - {r ..< r + (MBLOCK_SIZE - ?sl)}
        - (if ?sl > 0 then {r + (sz + MBLOCK_SIZE) - ?sl ..< r + (sz + MBLOCK_SIZE) - ?sl + ?sl} else {})"
    using g r by (auto simp: gen_map_mblocks_def my_mmap_def munmap_def Let_def bind_eq_Some_conv
        split: if_splits)
  have "mapped os' = mapped os \<union> {ret ..< ret + sz}"
    unfolding m ret using fresh sl by (cases "0 < ?sl") (auto simp: disjoint_iff)
  moreover have "ret mod MBLOCK_SIZE = 0" unfolding ret by (rule align_up_mod) (simp add: MBLOCK_SIZE_def)
  moreover have "{ret ..< ret + sz} \<subseteq> {r ..< r + (sz + MBLOCK_SIZE)}" "0 < ret" "ret + sz \<le> 2 ^ 47"
    unfolding ret using sl fresh by auto
  ultimately show ?thesis using fresh unfolding fresh_region_def by blast
qed

lemma osGetMBlocks_region:
  assumes mm: "mmap_spec mmap" and g: "osGetMBlocks mmap munmap_ok n os = Some (ret, os')"
  shows "fresh_region os (MBLOCK_SIZE * n) ret os' \<and> next_request os' = ret + MBLOCK_SIZE * n"
proof -
  let ?sz = "MBLOCK_SIZE * n"
  obtain os1 where n: "os' = os1\<lparr>next_request := ret + ?sz\<rparr>" and
    c: "(if next_request os = 0 then gen_map_mblocks mmap munmap_ok ?sz os
        else do {
          (ret, os) \<leftarrow> my_mmap mmap (next_request os) ?sz os;
          if ret mod MBLOCK_SIZE \<noteq> 0
          then do { os \<leftarrow> munmap munmap_ok ret ?sz os; gen_map_mblocks mmap munmap_ok ?sz os }
          else Some (ret, os)
        }) = Some (ret, os1)"
    using g by (auto simp: osGetMBlocks_def Let_def bind_eq_Some_conv)
  have "fresh_region os ?sz ret os1"
  proof (cases "next_request os = 0")
    case True then show ?thesis using c gen_map_mblocks_region [OF mm] by simp
  next
    case False
    then obtain r where r: "mmap (mapped os) (next_request os) ?sz = Some r"
      using c by (auto simp: my_mmap_def split: option.splits)
    note fresh = mmap_specD [OF mm r]
    show ?thesis
    proof (cases "r mod MBLOCK_SIZE = 0")
      case True then show ?thesis using False c r fresh by (auto simp: my_mmap_def fresh_region_def)
    next
      case nz: False
      let ?os = "os\<lparr>mapped := mapped os \<union> {r ..< r + ?sz} - {r ..< r + ?sz}\<rparr>"
      have "gen_map_mblocks mmap munmap_ok ?sz ?os = Some (ret, os1)"
        using False nz c r by (auto simp: my_mmap_def munmap_def bind_eq_Some_conv split: if_splits)
      moreover have "mapped ?os = mapped os" using fresh by auto
      ultimately show ?thesis using gen_map_mblocks_region [OF mm] by (fastforce simp: fresh_region_def)
    qed
  qed
  then show ?thesis using n by (simp add: fresh_region_def)
qed

section \<open>The map and the cache agree\<close>

text \<open>The megablock number of an address, and what the map records for a megablock number.\<close>

definition mbn :: "StgWord \<Rightarrow> nat" where
  "mbn p = unat p div 1048576"

definition hval :: "MBlockMap list \<Rightarrow> nat \<Rightarrow> StgWord8" where
  "hval maps m =
     (case List.find (\<lambda>mp. addrHigh32 mp = of_nat (m div 4096)) maps of
        Some mp \<Rightarrow> lines mp (m mod 4096) | None \<Rightarrow> 0)"

text \<open>The set of heap megablocks the state describes.\<close>

definition heap_mblocks :: "mb_state \<Rightarrow> nat set" where
  "heap_mblocks s = {m. m < 2 ^ 28 \<and> hval (mblock_maps s) m = 1}"

definition cache_ok :: "MBlockMap list \<Rightarrow> (nat \<Rightarrow> StgWord32) \<Rightarrow> bool" where
  "cache_ok maps cache \<longleftrightarrow> (\<forall>e < MBC_ENTRIES. cache e = 0xffffffff \<or>
     (\<exists>m < 2 ^ 28. m mod MBC_ENTRIES = e \<and> unat (cache e) = 2 * m + unat (hval maps m)))"

definition mb_inv :: "mb_state \<Rightarrow> bool" where
  "mb_inv s \<longleftrightarrow>
     (\<forall>mp \<in> set (mblock_maps s). unat (addrHigh32 mp) < 2 ^ 16 \<and> (\<forall>l. lines mp l = 0 \<or> lines mp l = 1)) \<and>
     distinct (map addrHigh32 (mblock_maps s)) \<and>
     cache_ok (mblock_maps s) (mblock_cache s)"

lemma mbn_less: "unat p < 2 ^ 48 \<Longrightarrow> mbn p < 2 ^ 28"
  by (simp add: mbn_def)

lemma unat_drop: "unat (drop_bit n p) = unat p div 2 ^ n"
  by (simp only: unat_drop_bit_eq drop_bit_eq_div [of n "unat p"])

lemma mblock_mbn: "unat (drop_bit 20 p) = mbn p"
  unfolding unat_drop by (simp add: mbn_def)

lemma high32_mbn: "high32 p = of_nat (mbn p div 4096)"
proof -
  have "unat (drop_bit 32 p) = mbn p div 4096"
    unfolding unat_drop by (simp add: mbn_def div_mult2_eq [symmetric])
  moreover have "(ucast (drop_bit 32 p) :: StgWord32) = of_nat (unat (drop_bit 32 p))" by simp
  ultimately show ?thesis unfolding high32_def by metis
qed

lemma MBLOCK_MAP_LINE_mbn: "MBLOCK_MAP_LINE p = mbn p mod 4096"
proof -
  have "p AND 0xffffffff = take_bit 32 p" by (simp add: take_bit_eq_mask mask_numeral)
  then have "MBLOCK_MAP_LINE p = drop_bit 20 (take_bit 32 (unat p))"
    unfolding MBLOCK_MAP_LINE_def by (simp only: unat_drop_bit_eq unsigned_take_bit_eq)
  then show ?thesis using mod_mult2_eq [of "unat p" 1048576 4096]
    by (simp add: mbn_def take_bit_eq_mod drop_bit_eq_div)
qed

lemma entry_no_mbn: "entry_no (drop_bit 20 p) = mbn p mod 8192"
proof -
  have "drop_bit 20 p AND 8191 = take_bit 13 (drop_bit 20 p)" by (simp only: take_bit_eq_mask) (simp add: mask_numeral)
  then have "entry_no (drop_bit 20 p) = take_bit 13 (mbn p)"
    unfolding entry_no_def by (simp only: unsigned_take_bit_eq mblock_mbn)
  then show ?thesis by (simp add: take_bit_eq_mod)
qed

text \<open>The cache key of an address in 48 bits: twice its megablock number, without truncation.\<close>

lemma key_mbn:
  assumes "unat p < 2 ^ 48"
  shows "unat (ucast (push_bit 1 (drop_bit 20 p)) :: StgWord32) = 2 * mbn p"
proof -
  have m: "mbn p < 2 ^ 28" by (rule mbn_less [OF assms])
  have "unat (push_bit 1 (drop_bit 20 p)) = 2 * mbn p"
    using m mblock_mbn [of p] by (simp add: push_bit_eq_mult unat_word_ariths mult.commute)
  then show ?thesis using m
    by (simp only: unsigned_ucast_eq take_bit_eq_mod) simp
qed

lemma xor_key:
  fixes k e :: StgWord32
  assumes "unat k = 2 * m"
  shows "e XOR k = 0 \<longleftrightarrow> unat e = 2 * m" and "e XOR k = 1 \<longleftrightarrow> unat e = 2 * m + 1"
proof -
  show "e XOR k = 0 \<longleftrightarrow> unat e = 2 * m" 
  proof -
    have "e XOR k = 0 \<longleftrightarrow> e = k" by (metis xor.assoc xor_self_eq xor.right_neutral xor.left_neutral)
    then show ?thesis using assms by (metis word_unat_eq_iff)
  qed
  have "\<not> bit (unat k) 0" using assms by (simp add: bit_0)
  then have b: "\<not> bit k 0" by (simp only: bit_unsigned_iff) simp
  have c: "(a XOR k) XOR k = a" for a :: StgWord32 by (simp add: xor.assoc)
  have "e XOR k = 1 \<longleftrightarrow> e = 1 XOR k" using c [of e] c [of 1] by auto
  also have "1 XOR k = k OR 1" using b by (intro bit_word_eqI) (auto simp: bit_simps)
  also have "k OR 1 = k + 1"
  proof -
    have "k AND 1 = 0" using b by (intro bit_word_eqI) (auto simp: bit_simps, metis gr0I)
    then show ?thesis by (simp add: disjunctive_add_eq_or)
  qed
  also have "e = k + 1 \<longleftrightarrow> unat e = 2 * m + 1"
  proof -
    have "unat k \<noteq> 2 ^ 32 - 1" using assms by simp presburger
    moreover have "unat k < 2 ^ 32" by (rule order_less_le_trans [OF unsigned_less]) simp
    ultimately have "unat (k + 1) = 2 * m + 1" using assms by (simp add: unat_word_ariths)
    then show ?thesis by (metis word_unat_eq_iff)
  qed
  finally show "e XOR k = 1 \<longleftrightarrow> unat e = 2 * m + 1" .
qed

lemma find_from_None: "findMBlockMap_from i maps hi = None \<longleftrightarrow> List.find (\<lambda>mp. addrHigh32 mp = hi) maps = None"
  by (induction maps arbitrary: i) auto

lemma find_from_Some:
  "findMBlockMap_from i maps hi = Some j \<Longrightarrow>
     i \<le> j \<and> j - i < length maps \<and> addrHigh32 (maps ! (j - i)) = hi \<and>
     List.find (\<lambda>mp. addrHigh32 mp = hi) maps = Some (maps ! (j - i))"
proof (induction maps arbitrary: i)
  case (Cons m ms)
  show ?case
  proof (cases "addrHigh32 m = hi")
    case False
    then have f: "findMBlockMap_from (i + 1) ms hi = Some j" using Cons.prems by simp
    then have "j - i = Suc (j - (i + 1))" using Cons.IH [OF f] by linarith
    then show ?thesis using Cons.IH [OF f] False by auto
  qed (use Cons.prems in auto)
qed simp

lemma find_addr: "List.find (\<lambda>mp. addrHigh32 mp = hi) maps = Some mp \<Longrightarrow> mp \<in> set maps \<and> addrHigh32 mp = hi"
  by (auto simp: find_Some_iff)

lemma hval_lookup:
  "(case findMBlockMap s p of Some i \<Rightarrow> lines (mblock_maps s ! i) (MBLOCK_MAP_LINE p) | None \<Rightarrow> 0)
     = hval (mblock_maps s) (mbn p)"
proof (cases "findMBlockMap s p")
  case None
  then have "List.find (\<lambda>mp. addrHigh32 mp = of_nat (mbn p div 4096)) (mblock_maps s) = None"
    by (simp add: findMBlockMap_def high32_mbn find_from_None)
  then show ?thesis using None by (simp add: hval_def)
next
  case (Some i)
  then have "List.find (\<lambda>mp. addrHigh32 mp = of_nat (mbn p div 4096)) (mblock_maps s) = Some (mblock_maps s ! i)"
    using find_from_Some [of 0 "mblock_maps s" "high32 p" i] by (simp add: findMBlockMap_def high32_mbn)
  then show ?thesis using Some by (simp add: hval_def MBLOCK_MAP_LINE_mbn)
qed

lemma hval_bit: "mb_inv s \<Longrightarrow> hval (mblock_maps s) m = 0 \<or> hval (mblock_maps s) m = 1"
  using find_addr unfolding hval_def mb_inv_def by (fastforce split: option.split)

lemma ucast_bit: "v = 0 \<or> v = 1 \<Longrightarrow> push_bit 1 (w :: StgWord) OR ucast (v :: StgWord8) = push_bit 1 w + ucast v"
proof -
  assume v: "v = 0 \<or> v = 1"
  have "push_bit 1 w AND ucast v = 0" using v by (auto simp: and_one_eq mod_2_eq_odd)
  then show ?thesis by (simp add: disjunctive_add_eq_or)
qed

lemma cache_word:
  assumes "unat p < 2 ^ 48" "v = 0 \<or> v = (1 :: StgWord8)"
  shows "unat (ucast (push_bit 1 (drop_bit 20 p) + ucast v) :: StgWord32) = 2 * mbn p + unat v"
proof -
  have m: "mbn p < 2 ^ 28" by (rule mbn_less [OF assms(1)])
  have p: "unat (push_bit 1 (drop_bit 20 p)) = 2 * mbn p"
    using m mblock_mbn [of p] by (simp add: push_bit_eq_mult unat_word_ariths mult.commute)
  have "unat (ucast v :: StgWord) = unat v" using assms(2) by auto
  then have "unat (push_bit 1 (drop_bit 20 p) + ucast v) = 2 * mbn p + unat v"
    using m p assms(2) by (auto simp: unat_word_ariths)
  then show ?thesis using m assms(2)
    by (simp only: unsigned_ucast_eq take_bit_eq_mod) auto
qed

lemma cache_ok_upd:
  assumes "cache_ok maps cache" "m < 2 ^ 28" "unat c = 2 * m + unat (hval maps m)"
  shows "cache_ok maps (cache(m mod MBC_ENTRIES := c))"
  using assms unfolding cache_ok_def by (metis fun_upd_apply)

lemma HEAP_ALLOCED_miss_inv:
  assumes "mb_inv s" "unat p < 2 ^ 48" "HEAP_ALLOCED_miss (drop_bit 20 p) p s = (b, s')"
  shows "mb_inv s'" "mblock_maps s' = mblock_maps s" "b = hval (mblock_maps s) (mbn p)"
proof -
  let ?v = "hval (mblock_maps s) (mbn p)"
  have e: "entry_no (drop_bit 20 p) = mbn p mod MBC_ENTRIES" by (simp add: entry_no_mbn MBC_ENTRIES_def)
  note bit = hval_bit [OF assms(1), of "mbn p"]
  have s': "b = ?v \<and> mblock_maps s' = mblock_maps s \<and>
    mblock_cache s' = (mblock_cache s)(mbn p mod MBC_ENTRIES := ucast (push_bit 1 (drop_bit 20 p) + ucast ?v))"
    using assms(3) hval_lookup [of s p] ucast_bit [OF bit, of "drop_bit 20 p"]
    by (auto simp: HEAP_ALLOCED_miss_def Let_def e split: option.splits)
  then show "mblock_maps s' = mblock_maps s" "b = ?v" by auto
  show "mb_inv s'" using assms(1) s'
      cache_ok_upd [OF _ mbn_less [OF assms(2)] cache_word [OF assms(2) bit]]
    by (simp add: mb_inv_def)
qed

lemma heap_mblocks_hval: "unat p < 2 ^ 48 \<Longrightarrow> mbn p \<in> heap_mblocks s \<longleftrightarrow> hval (mblock_maps s) (mbn p) = 1"
  using mbn_less by (simp add: heap_mblocks_def)

text \<open>
  Claim C20.  \<open>HEAP_ALLOCED\<close> answers 1 exactly for the addresses of the heap's megablocks, whether
  it finds the entry of its 32-bit cache, or misses and consults the map and refills the cache,
  for every address in the 48 bits the cache was designed for; and it keeps the invariant.\<close>

theorem HEAP_ALLOCED_correct:
  assumes "mb_inv s" "unat p < 2 ^ 48"
  shows "case HEAP_ALLOCED p s of (b, s') \<Rightarrow>
     b = (if mbn p \<in> heap_mblocks s then 1 else 0) \<and> mb_inv s' \<and> heap_mblocks s' = heap_mblocks s"
proof -
  let ?e = "mblock_cache s (entry_no (drop_bit 20 p))" and ?k = "ucast (push_bit 1 (drop_bit 20 p)) :: StgWord32"
  have m: "mbn p < 2 ^ 28" by (rule mbn_less [OF assms(2)])
  note bit = hval_bit [OF assms(1)]
  note xor = xor_key [OF key_mbn [OF assms(2)], of ?e]
  have e: "entry_no (drop_bit 20 p) = mbn p mod MBC_ENTRIES" "mbn p mod MBC_ENTRIES < MBC_ENTRIES"
    by (simp_all add: entry_no_mbn MBC_ENTRIES_def)
  consider "?e = 0xffffffff" | m' where "m' < 2 ^ 28" "unat ?e = 2 * m' + unat (hval (mblock_maps s) m')"
    using assms(1) e unfolding mb_inv_def cache_ok_def by metis
  then have "(unat ?e = 2 * mbn p \<longrightarrow> hval (mblock_maps s) (mbn p) = 0) \<and>
    (unat ?e = 2 * mbn p + 1 \<longrightarrow> hval (mblock_maps s) (mbn p) = 1)"
  proof cases
    case 1 then show ?thesis using m by auto
  next
    case (2 m')
    have "unat (hval (mblock_maps s) m') = 0 \<or> unat (hval (mblock_maps s) m') = 1" using bit [of m'] by auto
    then have "unat ?e = 2 * mbn p \<longrightarrow> m' = mbn p \<and> unat (hval (mblock_maps s) m') = 0"
      "unat ?e = 2 * mbn p + 1 \<longrightarrow> m' = mbn p \<and> unat (hval (mblock_maps s) m') = 1"
      using 2(2) by presburger+
    then show ?thesis using bit [of m'] by auto
  qed
  note hit = this
  show ?thesis
  proof (cases "?e XOR ?k = 0 \<or> ?e XOR ?k = 1")
    case True
    then show ?thesis using hit xor heap_mblocks_hval [OF assms(2), of s] assms(1)
      by (auto simp: HEAP_ALLOCED_def Let_def)
  next
    case False
    obtain b s' where r: "HEAP_ALLOCED_miss (drop_bit 20 p) p s = (b, s')" by fastforce
    note i = HEAP_ALLOCED_miss_inv [OF assms r]
    have "HEAP_ALLOCED p s = (b, s')" using False r by (simp add: HEAP_ALLOCED_def Let_def)
    then show ?thesis using i bit [of "mbn p"] heap_mblocks_hval [OF assms(2), of s]
      by (auto simp: heap_mblocks_def)
  qed
qed

section \<open>Marking megablocks\<close>

lemma find_distinct:
  "distinct (map f xs) \<Longrightarrow> x \<in> set xs \<Longrightarrow> f x = k \<Longrightarrow> List.find (\<lambda>y. f y = k) xs = Some x"
  by (induction xs) auto

lemma find_update_neither:
  "\<not> P x' \<Longrightarrow> i < length xs \<Longrightarrow> \<not> P (xs ! i) \<Longrightarrow> List.find P (xs[i := x']) = List.find P xs"
  by (induction xs arbitrary: i) (auto split: nat.split simp: nth_Cons)

lemma div4096_inj:
  assumes "m < 2 ^ 28" "k < 2 ^ 28"
  shows "(of_nat (m div 4096) = (of_nat (k div 4096) :: StgWord32)) \<longleftrightarrow> m div 4096 = k div 4096"
proof -
  have "m div 4096 < 2 ^ LENGTH(32)" "k div 4096 < 2 ^ LENGTH(32)" using assms by simp_all
  then show ?thesis by (metis of_nat_inverse)
qed

lemma hval_set:
  assumes d: "distinct (map addrHigh32 maps)" and i: "i < length maps"
    "addrHigh32 (maps ! i) = of_nat (k div 4096)" and k: "k < 2 ^ 28" "m < 2 ^ 28"
  shows "hval (maps[i := (maps ! i)\<lparr>lines := (lines (maps ! i))(k mod 4096 := v)\<rparr>]) m
      = (if m = k then v else hval maps m)"
proof -
  let ?mp = "(maps ! i)\<lparr>lines := (lines (maps ! i))(k mod 4096 := v)\<rparr>"
  have da: "map addrHigh32 (maps[i := ?mp]) = map addrHigh32 maps" 
    using i(1) by (simp add: map_update list_update_same_conv)
  show ?thesis
  proof (cases "m div 4096 = k div 4096")
    case True
    have "List.find (\<lambda>mp. addrHigh32 mp = of_nat (m div 4096)) (maps[i := ?mp]) = Some ?mp"
      by (rule find_distinct) (use d da i True in \<open>auto simp: set_update_memI\<close>)
    moreover have "List.find (\<lambda>mp. addrHigh32 mp = of_nat (m div 4096)) maps = Some (maps ! i)"
      by (rule find_distinct) (use d i True in auto)
    moreover have "m mod 4096 = k mod 4096 \<longleftrightarrow> m = k" using True by (metis div_mult_mod_eq)
    ultimately show ?thesis by (auto simp: hval_def)
  next
    case False
    then have "addrHigh32 (maps ! i) \<noteq> of_nat (m div 4096)" using div4096_inj k i by metis
    then have "List.find (\<lambda>mp. addrHigh32 mp = of_nat (m div 4096)) (maps[i := ?mp])
        = List.find (\<lambda>mp. addrHigh32 mp = of_nat (m div 4096)) maps"
      using i by (intro find_update_neither) auto
    then show ?thesis using False by (auto simp: hval_def)
  qed
qed

lemma find_append: "List.find P (xs @ ys) = (case List.find P xs of None \<Rightarrow> List.find P ys | Some x \<Rightarrow> Some x)"
  by (induction xs) auto

lemma hval_append_zero: "hval (maps @ [\<lparr>addrHigh32 = h, lines = \<lambda>_. 0\<rparr>]) m = hval maps m"
  by (auto simp: hval_def find_append split: option.split)

text \<open>The map in which \<open>setHeapAlloced\<close> writes: an existing one, or a new one of zeros.\<close>

lemma setHeapAlloced_maps:
  assumes "mb_inv s" "unat p < 2 ^ 48"
  obtains i maps where "distinct (map addrHigh32 maps)" "i < length maps"
    "addrHigh32 (maps ! i) = of_nat (mbn p div 4096)" "\<And>m. hval maps m = hval (mblock_maps s) m"
    "\<And>mp. mp \<in> set maps \<Longrightarrow> unat (addrHigh32 mp) < 2 ^ 16 \<and> (\<forall>l. lines mp l = 0 \<or> lines mp l = 1)"
    "\<And>v. mblock_maps (setHeapAlloced p v s) =
       maps[i := (maps ! i)\<lparr>lines := (lines (maps ! i))(mbn p mod 4096 := v)\<rparr>]"
proof (cases "findMBlockMap s p")
  case (Some i)
  then have "i < length (mblock_maps s)" "addrHigh32 (mblock_maps s ! i) = of_nat (mbn p div 4096)"
    using find_from_Some [of 0 "mblock_maps s" "high32 p" i] by (auto simp: findMBlockMap_def high32_mbn)
  then show ?thesis using that [of "mblock_maps s" i] Some assms(1)
    by (simp add: setHeapAlloced_def Let_def MBLOCK_MAP_LINE_mbn mb_inv_def)
next
  case None
  let ?new = "\<lparr>addrHigh32 = high32 p, lines = \<lambda>_. 0\<rparr>"
  have n: "high32 p \<notin> set (map addrHigh32 (mblock_maps s))"
    using None by (auto simp: findMBlockMap_def find_from_None find_None_iff)
  have "mbn p div 4096 < 2 ^ 16" using mbn_less [OF assms(2)] by simp
  then have "unat (high32 p) < 2 ^ 16" by (simp add: high32_mbn unat_of_nat)
  then show ?thesis using None assms(1) n
    by (intro that [of "mblock_maps s @ [?new]" "length (mblock_maps s)"])
      (auto simp: setHeapAlloced_def Let_def MBLOCK_MAP_LINE_mbn mb_inv_def hval_append_zero high32_mbn)
qed

lemma setHeapAlloced_cache:
  "mblock_cache (setHeapAlloced p v s) =
     (mblock_cache s)(mbn p mod MBC_ENTRIES := ucast (push_bit 1 (drop_bit 20 p) + ucast v))"
  by (simp add: setHeapAlloced_def Let_def entry_no_mbn MBC_ENTRIES_def split: prod.split)

lemma setHeapAlloced_hval:
  assumes "mb_inv s" "unat p < 2 ^ 48" "m < 2 ^ 28"
  shows "hval (mblock_maps (setHeapAlloced p v s)) m = (if m = mbn p then v else hval (mblock_maps s) m)"
proof -
  obtain i maps where "distinct (map addrHigh32 maps)" "i < length maps"
    "addrHigh32 (maps ! i) = of_nat (mbn p div 4096)" "\<And>m. hval maps m = hval (mblock_maps s) m"
    "\<And>v. mblock_maps (setHeapAlloced p v s) =
       maps[i := (maps ! i)\<lparr>lines := (lines (maps ! i))(mbn p mod 4096 := v)\<rparr>]"
    using setHeapAlloced_maps [OF assms(1,2)] by metis
  then show ?thesis using hval_set [of maps i "mbn p" m v] mbn_less [OF assms(2)] assms(3) by simp
qed

lemma setHeapAlloced_inv:
  assumes "mb_inv s" "unat p < 2 ^ 48" "v = 0 \<or> v = 1"
  shows "mb_inv (setHeapAlloced p v s)"
proof -
  let ?s = "setHeapAlloced p v s"
  obtain i maps where mp: "distinct (map addrHigh32 maps)" "i < length maps"
    "\<And>mp. mp \<in> set maps \<Longrightarrow> unat (addrHigh32 mp) < 2 ^ 16 \<and> (\<forall>l. lines mp l = 0 \<or> lines mp l = 1)"
    "mblock_maps ?s = maps[i := (maps ! i)\<lparr>lines := (lines (maps ! i))(mbn p mod 4096 := v)\<rparr>]"
    using setHeapAlloced_maps [OF assms(1,2)] by metis
  have m: "mbn p < 2 ^ 28" by (rule mbn_less [OF assms(2)])
  note h = setHeapAlloced_hval [OF assms(1,2), where v = v]
  have "cache_ok (mblock_maps ?s) (mblock_cache ?s)"
    unfolding cache_ok_def setHeapAlloced_cache
  proof (intro allI impI)
    fix e assume e: "e < MBC_ENTRIES"
    let ?c = "(mblock_cache s)(mbn p mod MBC_ENTRIES := ucast (push_bit 1 (drop_bit 20 p) + ucast v))"
    show "?c e = 0xffffffff \<or> (\<exists>m<2 ^ 28. m mod MBC_ENTRIES = e \<and> unat (?c e) = 2 * m + unat (hval (mblock_maps ?s) m))"
    proof (cases "e = mbn p mod MBC_ENTRIES")
      case True
      then show ?thesis using m h [OF m] cache_word [OF assms(2,3)]
        by (intro disjI2 exI [of _ "mbn p"]) simp
    next
      case False
      then have "?c e = mblock_cache s e" by simp
      moreover have "m mod MBC_ENTRIES = e \<Longrightarrow> m < 2 ^ 28 \<Longrightarrow> hval (mblock_maps ?s) m = hval (mblock_maps s) m" for m
        using h [of m] False by auto
      ultimately show ?thesis using assms(1) e unfolding mb_inv_def cache_ok_def by metis
    qed
  qed
  moreover have "map addrHigh32 (mblock_maps ?s) = map addrHigh32 maps"
    unfolding mp(4) using mp(2) by (simp add: map_update list_update_same_conv)
  moreover have "\<forall>mp \<in> set (mblock_maps ?s). unat (addrHigh32 mp) < 2 ^ 16 \<and> (\<forall>l. lines mp l = 0 \<or> lines mp l = 1)"
  proof
    fix x assume "x \<in> set (mblock_maps ?s)"
    then have "x \<in> set maps \<or> x = (maps ! i)\<lparr>lines := (lines (maps ! i))(mbn p mod 4096 := v)\<rparr>"
      unfolding mp(4) using set_update_subset_insert by fastforce
    then show "unat (addrHigh32 x) < 2 ^ 16 \<and> (\<forall>l. lines x l = 0 \<or> lines x l = 1)"
    proof
      assume "x \<in> set maps" then show ?thesis by (rule mp(3))
    next
      assume "x = (maps ! i)\<lparr>lines := (lines (maps ! i))(mbn p mod 4096 := v)\<rparr>"
      then show ?thesis using mp(3) [OF nth_mem [OF mp(2)]] assms(3) by simp
    qed
  qed
  ultimately show ?thesis using mp(1) unfolding mb_inv_def by simp
qed

lemma setHeapAlloced_heap:
  assumes "mb_inv s" "unat p < 2 ^ 48"
  shows "heap_mblocks (setHeapAlloced p 1 s) = insert (mbn p) (heap_mblocks s)"
    and "heap_mblocks (setHeapAlloced p 0 s) = heap_mblocks s - {mbn p}"
  using setHeapAlloced_hval [OF assms] mbn_less [OF assms(2)]
  by (auto simp: heap_mblocks_def split: if_splits)

lemma setHeapAlloced_os [simp]:
  "mb_os (setHeapAlloced p v s) = mb_os s" "mblocks_allocated (setHeapAlloced p v s) = mblocks_allocated s"
  "peak_mblocks_allocated (setHeapAlloced p v s) = peak_mblocks_allocated s"
  by (simp_all add: setHeapAlloced_def Let_def split: prod.split)

text \<open>The loops of \<open>getMBlocks\<close> and \<open>freeMBlocks\<close>, as long as \<open>i * MBLOCK_SIZE\<close> does not wrap.\<close>

lemma mark_addr:
  assumes "a mod MBLOCK_SIZE = 0" "i < 4096" "a + MBLOCK_SIZE * i < 2 ^ 48"
  shows "unat (of_nat a + ucast (of_nat i * 1048576 :: StgWord32) :: StgWord) = a + MBLOCK_SIZE * i"
    and "mbn (of_nat a + ucast (of_nat i * 1048576 :: StgWord32)) = a div MBLOCK_SIZE + i"
proof -
  have "unat (of_nat i * 1048576 :: StgWord32) = i * 1048576"
    using assms(2) by (simp add: unat_word_ariths unat_of_nat)
  then have "(ucast (of_nat i * 1048576 :: StgWord32) :: StgWord) = of_nat (i * 1048576)"
    by (metis of_nat_unat)
  then have "of_nat a + ucast (of_nat i * 1048576 :: StgWord32) = (of_nat (a + MBLOCK_SIZE * i) :: StgWord)"
    by (simp add: MBLOCK_SIZE_def mult.commute)
  moreover have "a + MBLOCK_SIZE * i < 2 ^ LENGTH(64)" using assms(3) by simp
  ultimately show u: "unat (of_nat a + ucast (of_nat i * 1048576 :: StgWord32) :: StgWord) = a + MBLOCK_SIZE * i"
    by (metis of_nat_inverse)
  show "mbn (of_nat a + ucast (of_nat i * 1048576 :: StgWord32)) = a div MBLOCK_SIZE + i"
    unfolding mbn_def u by (simp add: MBLOCK_SIZE_def)
qed

lemma mark_loop_frame [simp]:
  "mb_os (mark_loop v a i k s) = mb_os s" "mblocks_allocated (mark_loop v a i k s) = mblocks_allocated s"
  "peak_mblocks_allocated (mark_loop v a i k s) = peak_mblocks_allocated s"
  by (induction v a i k s rule: mark_loop.induct) simp_all

lemma mark_loop_heap:
  assumes "mb_inv s" "a mod MBLOCK_SIZE = 0" "i + k \<le> 4096" "a + MBLOCK_SIZE * (i + k) \<le> 2 ^ 48"
    "v = 0 \<or> v = 1"
  shows "mb_inv (mark_loop v a i k s) \<and> heap_mblocks (mark_loop v a i k s) =
    (if v = 1 then heap_mblocks s \<union> {a div MBLOCK_SIZE + i ..< a div MBLOCK_SIZE + i + k}
     else heap_mblocks s - {a div MBLOCK_SIZE + i ..< a div MBLOCK_SIZE + i + k})"
  using assms
proof (induction v a i k s rule: mark_loop.induct)
  case (2 v a i k s)
  let ?p = "of_nat a + ucast (of_nat i * 1048576 :: StgWord32) :: StgWord"
  have lt: "a + MBLOCK_SIZE * i < 2 ^ 48" using 2(5) by (simp add: MBLOCK_SIZE_def)
  have "i < 4096" using 2(4) by simp
  note p = mark_addr [OF 2(3) this lt]
  have pl: "unat ?p < 2 ^ 48" using lt p(1) by (simp only:)
  have inv: "mb_inv (setHeapAlloced ?p v s)" by (rule setHeapAlloced_inv [OF 2(2) pl 2(6)])
  have "{a div MBLOCK_SIZE + i ..< a div MBLOCK_SIZE + i + Suc k} =
      insert (a div MBLOCK_SIZE + i) {a div MBLOCK_SIZE + (i + 1) ..< a div MBLOCK_SIZE + (i + 1) + k}" by auto
  then show ?case using 2(1) [OF inv 2(3) _ _ 2(6)] 2(4,5,6) setHeapAlloced_heap [OF 2(2) pl] p(2)
    by (simp del: atLeastLessThan_iff) blast
qed auto

lemma getMBlocks_result:
  assumes "mmap_spec mmap" "mb_inv s" "n \<le> 4096" "getMBlocks mmap munmap_ok n s = Some (ret, s')"
  shows "fresh_region (mb_os s) (MBLOCK_SIZE * n) ret (mb_os s') \<and>
    mb_inv s' \<and> heap_mblocks s' = heap_mblocks s \<union> {ret div MBLOCK_SIZE ..< ret div MBLOCK_SIZE + n} \<and>
    mblocks_allocated s' = mblocks_allocated s + of_nat n \<and>
    next_request (mb_os s') = ret + MBLOCK_SIZE * n"
proof -
  obtain os where os: "osGetMBlocks mmap munmap_ok n (mb_os s) = Some (ret, os)"
    and s': "s' = (let s1 = mark_loop 1 ret 0 n (s\<lparr>mb_os := os\<rparr>); s2 = s1\<lparr>mblocks_allocated := mblocks_allocated s1 + of_nat n\<rparr>
        in s2\<lparr>peak_mblocks_allocated := max (peak_mblocks_allocated s2) (mblocks_allocated s2)\<rparr>)"
    using assms(4) by (auto simp: getMBlocks_def Let_def bind_eq_Some_conv)
  note r = osGetMBlocks_region [OF assms(1) os]
  then have "ret mod MBLOCK_SIZE = 0" "ret + MBLOCK_SIZE * (0 + n) \<le> 2 ^ 48"
    by (auto simp: fresh_region_def)
  moreover have "mb_inv (s\<lparr>mb_os := os\<rparr>)" using assms(2) by (simp add: mb_inv_def)
  ultimately have "mb_inv (mark_loop 1 ret 0 n (s\<lparr>mb_os := os\<rparr>)) \<and>
      heap_mblocks (mark_loop 1 ret 0 n (s\<lparr>mb_os := os\<rparr>)) =
      heap_mblocks s \<union> {ret div MBLOCK_SIZE ..< ret div MBLOCK_SIZE + n}"
    using mark_loop_heap [of "s\<lparr>mb_os := os\<rparr>" ret 0 n 1] assms(3) by (simp add: heap_mblocks_def)
  then show ?thesis using r unfolding s' by (simp add: Let_def mb_inv_def heap_mblocks_def)
qed

text \<open>
  \<open>getMBlocks(n)\<close>, for \<open>n\<close> at most 4096, answers an aligned region of \<open>n\<close> megablocks
  that overlaps nothing mapped before, maps nothing else, enters exactly these megablocks in the
  heap map, counts them, and remembers where to ask next; whichever of the three ways through
  \<open>osGetMBlocks\<close> and whatever addresses the kernel answers.\<close>

theorem getMBlocks_region:
  assumes "mmap_spec mmap" "mb_inv s" "n \<le> 4096" "getMBlocks mmap munmap_ok n s = Some (ret, s')"
  shows "fresh_region (mb_os s) (MBLOCK_SIZE * n) ret (mb_os s') \<and>
    mb_inv s' \<and> heap_mblocks s' = heap_mblocks s \<union> {ret div MBLOCK_SIZE ..< ret div MBLOCK_SIZE + n} \<and>
    mblocks_allocated s' = mblocks_allocated s + of_nat n \<and>
    next_request (mb_os s') = ret + MBLOCK_SIZE * n"
  by (rule getMBlocks_result [OF assms])

text \<open>A state before any megablock is allocated, and a kernel that answers one unaligned region.\<close>

definition mb0 :: mb_state where
  "mb0 = \<lparr>mblock_maps = [], mblock_cache = (\<lambda>_. 0xffffffff), mpc_misses = 0, mblocks_allocated = 0,
          peak_mblocks_allocated = 0, mb_os = \<lparr>next_request = 0, mapped = {}\<rparr>\<rparr>"

definition mmap1 :: mmap_fn where
  "mmap1 A hint sz = (if A \<subseteq> {..< 4198400} \<and> sz \<le> 2 ^ 40 then Some 4198400 else None)"

lemma mb0_inv: "mb_inv mb0"
  by (simp add: mb_inv_def mb0_def cache_ok_def)

lemma heap_mblocks_mb0: "heap_mblocks mb0 = {}"
  by (simp add: heap_mblocks_def mb0_def hval_def)

lemma mmap1_spec: "mmap_spec mmap1"
  unfolding mmap_spec_def mmap1_def by (auto split: if_splits)

lemma HEAP_ALLOCED_correct_witness:
  "mb_inv (markHeapAlloced 0x200000 mb0) \<and>
   fst (HEAP_ALLOCED 0x212345 (markHeapAlloced 0x200000 mb0)) = 1 \<and>
   fst (HEAP_ALLOCED 0x312345 (markHeapAlloced 0x200000 mb0)) = 0"
proof -
  let ?s = "markHeapAlloced 0x200000 mb0"
  have i: "mb_inv ?s" unfolding markHeapAlloced_def by (rule setHeapAlloced_inv [OF mb0_inv]) simp_all
  have "mbn 0x200000 = 2" "mbn 0x212345 = 2" "mbn 0x312345 = 3" by (simp_all add: mbn_def)
  moreover have "heap_mblocks ?s = {2}"
    using setHeapAlloced_heap(1) [OF mb0_inv, of "0x200000"] heap_mblocks_mb0
    by (simp add: markHeapAlloced_def mbn_def)
  ultimately show ?thesis
    using i HEAP_ALLOCED_correct [OF i, of "0x212345"] HEAP_ALLOCED_correct [OF i, of "0x312345"]
    by (auto split: prod.splits)
qed

lemma getMBlocks_region_witness:
  "\<exists>s'. getMBlocks mmap1 (\<lambda>_ _. True) 1 mb0 = Some (5242880, s') \<and>
     fresh_region (mb_os mb0) MBLOCK_SIZE 5242880 (mb_os s') \<and> heap_mblocks s' = {5}"
proof -
  have "osGetMBlocks mmap1 (\<lambda>_ _. True) 1 (mb_os mb0) =
    Some (5242880, (mb_os mb0)\<lparr>next_request := 6291456, mapped := {4198400..<6295552} - {4198400..<5242880} - {6291456..<6295552}\<rparr>)"
    by (simp add: osGetMBlocks_def gen_map_mblocks_def my_mmap_def munmap_def mmap1_def mb0_def MBLOCK_SIZE_def)
  then obtain s' where g: "getMBlocks mmap1 (\<lambda>_ _. True) 1 mb0 = Some (5242880, s')"
    by (simp add: getMBlocks_def Let_def)
  have "{5 ..< 6} = {5 :: nat}" by auto
  then show ?thesis using g getMBlocks_region [OF mmap1_spec mb0_inv _ g] heap_mblocks_mb0
    by (simp add: MBLOCK_SIZE_def)
qed

lemma mark_loop_add: "mark_loop v a i (j + k) s = mark_loop v a (i + j) k (mark_loop v a i j s)"
  by (induction v a i j s rule: mark_loop.induct) simp_all

text \<open>
  Claim C28.  The multiplication \<open>i * MBLOCK_SIZE\<close> in \<open>getMBlocks\<close> has 32 bits, so that for a group
  of more than 4096 megablocks (4 GB) the loop starts over at the first: the 4097th megablock is
  mapped and belongs to the group but is not entered in the heap map.\<close>

theorem getMBlocks_wraps_4G:
  assumes "mmap_spec mmap" "mb_inv s" "getMBlocks mmap munmap_ok 4097 s = Some (ret, s')"
    "ret div MBLOCK_SIZE + 4096 \<notin> heap_mblocks s"
  shows "ret + 2 ^ 32 \<in> mapped (mb_os s') \<and> ret div MBLOCK_SIZE + 4096 \<notin> heap_mblocks s'"
proof -
  obtain os where os: "osGetMBlocks mmap munmap_ok 4097 (mb_os s) = Some (ret, os)"
    and s': "mblock_maps s' = mblock_maps (mark_loop 1 ret 0 4097 (s\<lparr>mb_os := os\<rparr>))" "mb_os s' = os"
    using assms(3) by (auto simp: getMBlocks_def Let_def bind_eq_Some_conv)
  let ?s = "s\<lparr>mb_os := os\<rparr>"
  note r = conjunct1 [OF osGetMBlocks_region [OF assms(1) os]]
  then have a: "ret mod MBLOCK_SIZE = 0" "ret + MBLOCK_SIZE * 4097 \<le> 2 ^ 47" by (auto simp: fresh_region_def)
  have i: "mb_inv ?s" "heap_mblocks ?s = heap_mblocks s" using assms(2) by (simp_all add: mb_inv_def heap_mblocks_def)
  have l: "mb_inv (mark_loop 1 ret 0 4096 ?s)"
    "heap_mblocks (mark_loop 1 ret 0 4096 ?s) = heap_mblocks s \<union> {ret div MBLOCK_SIZE ..< ret div MBLOCK_SIZE + 4096}"
    using mark_loop_heap [of ?s ret 0 4096 1] i a by auto
  have m: "mark_loop 1 ret 0 4097 ?s = setHeapAlloced (of_nat ret) 1 (mark_loop 1 ret 0 4096 ?s)"
  proof -
    have "mark_loop 1 ret 0 4097 ?s = mark_loop 1 ret (0 + 4096) (Suc 0) (mark_loop 1 ret 0 4096 ?s)"
      unfolding mark_loop_add [symmetric] by simp
    then show ?thesis by (simp only: mark_loop.simps) simp
  qed
  have lt: "ret < 2 ^ LENGTH(64)" using a(2) by (simp add: MBLOCK_SIZE_def)
  have u: "unat (of_nat ret :: StgWord) = ret" using of_nat_inverse [OF refl lt] by simp
  then have "unat (of_nat ret :: StgWord) < 2 ^ 48" "mbn (of_nat ret) = ret div MBLOCK_SIZE"
    using a(2) by (simp_all add: mbn_def MBLOCK_SIZE_def)
  then have "heap_mblocks s' = insert (ret div MBLOCK_SIZE) (heap_mblocks (mark_loop 1 ret 0 4096 ?s))"
    using setHeapAlloced_heap(1) [OF l(1)] s'(1) m by (simp add: heap_mblocks_def)
  then have "ret div MBLOCK_SIZE + 4096 \<notin> heap_mblocks s'" using l(2) assms(4) by auto
  moreover have "ret + 2 ^ 32 \<in> mapped (mb_os s')" using r s'(2) by (simp add: fresh_region_def MBLOCK_SIZE_def)
  ultimately show ?thesis by blast
qed

lemma getMBlocks_wraps_4G_witness:
  "\<exists>s'. getMBlocks mmap1 (\<lambda>_ _. True) 4097 mb0 = Some (5242880, s') \<and>
     5242880 + 2 ^ 32 \<in> mapped (mb_os s') \<and> 5 + 4096 \<notin> heap_mblocks s'"
proof -
  have "\<exists>os. osGetMBlocks mmap1 (\<lambda>_ _. True) 4097 (mb_os mb0) = Some (5242880, os)"
    by (simp add: osGetMBlocks_def gen_map_mblocks_def my_mmap_def munmap_def mmap1_def mb0_def MBLOCK_SIZE_def)
  then obtain s' where g: "getMBlocks mmap1 (\<lambda>_ _. True) 4097 mb0 = Some (5242880, s')"
    by (auto simp: getMBlocks_def Let_def)
  then show ?thesis using getMBlocks_wraps_4G [OF mmap1_spec mb0_inv g] heap_mblocks_mb0
    by (simp add: MBLOCK_SIZE_def)
qed

section \<open>The enumeration visits every megablock\<close>

definition line_addr :: "MBlockMap \<Rightarrow> nat \<Rightarrow> StgWord" where
  "line_addr mp l = push_bit 32 (ucast (addrHigh32 mp)) + ucast (of_nat l * 1048576 :: StgWord32)"

definition live_line :: "MBlockMap \<Rightarrow> nat \<Rightarrow> bool" where
  "live_line mp l \<longleftrightarrow> lines mp l AND 1 \<noteq> 0"

definition map_addrs :: "MBlockMap \<Rightarrow> nat \<Rightarrow> StgWord list" where
  "map_addrs mp l = map (line_addr mp) (filter (live_line mp) [l ..< 4096])"

definition enum :: "MBlockMap list \<Rightarrow> StgWord list" where
  "enum maps = concat (map (\<lambda>mp. map_addrs mp 0) maps)"

lemma unat_line_addr:
  assumes "l < 4096" shows "unat (line_addr mp l) = unat (addrHigh32 mp) * 2 ^ 32 + l * 1048576"
proof -
  have h: "unat (addrHigh32 mp) < 2 ^ 32" by (rule order_less_le_trans [OF unsigned_less]) simp
  have l: "unat (of_nat l * 1048576 :: StgWord32) = l * 1048576"
    using assms by (simp add: unat_word_ariths unat_of_nat)
  have e: "line_addr mp l = of_nat (unat (addrHigh32 mp) * 2 ^ 32 + l * 1048576)"
  proof -
    have "(ucast (of_nat l * 1048576 :: StgWord32) :: StgWord) = of_nat (l * 1048576)"
      using l by (metis of_nat_unat)
    moreover have "push_bit 32 (ucast (addrHigh32 mp) :: StgWord) = of_nat (unat (addrHigh32 mp) * 2 ^ 32)"
      by (simp add: push_bit_eq_mult)
    ultimately show ?thesis by (simp add: line_addr_def)
  qed
  have "unat (addrHigh32 mp) * 2 ^ 32 + l * 1048576 < 2 ^ LENGTH(64)" using h assms by simp
  then show ?thesis unfolding e using of_nat_inverse [OF refl] by blast
qed

lemma line_addr_parts:
  assumes "l < 4096"
  shows "drop_bit 32 (line_addr mp l) = ucast (addrHigh32 mp)" "MBLOCK_MAP_LINE (line_addr mp l) = l"
proof -
  note u = unat_line_addr [OF assms, of mp]
  have "unat (drop_bit 32 (line_addr mp l)) = unat (addrHigh32 mp)"
    unfolding unat_drop u using assms by simp
  then show "drop_bit 32 (line_addr mp l) = ucast (addrHigh32 mp)" by (metis of_nat_unat unsigned_of_nat ucast_id)
  have "mbn (line_addr mp l) = unat (addrHigh32 mp) * 4096 + l" unfolding mbn_def u by simp
  then show "MBLOCK_MAP_LINE (line_addr mp l) = l" using assms by (simp add: MBLOCK_MAP_LINE_mbn)
qed

lemma scan_off_0: "scan_off line 0 = (if line AND 1 \<noteq> 0 then Some 0 else None)"
  by (subst scan_off.simps) (simp add: MBC_LINE_SIZE_def scan_off.simps [of line "Suc 0"])

lemma scan_lines_0:
  "scan_lines mp l 0 = (case map_addrs mp l of [] \<Rightarrow> None | q # _ \<Rightarrow> Some q)"
proof (induction "4096 - l" arbitrary: l)
  case 0
  then show ?case by (subst scan_lines.simps) (simp add: MBLOCK_MAP_ENTRIES_def map_addrs_def)
next
  case (Suc k)
  then have l: "l < 4096" and u: "[l ..< 4096] = l # [l + 1 ..< 4096]" by (simp_all add: upt_conv_Cons)
  have "scan_lines mp (l + 1) 0 = (case map_addrs mp (l + 1) of [] \<Rightarrow> None | q # _ \<Rightarrow> Some q)"
    using Suc by (intro Suc.hyps(1)) simp
  then show ?case using l u
    by (subst scan_lines.simps)
      (simp add: MBLOCK_MAP_ENTRIES_def MBC_LINE_SIZE_def scan_off_0 map_addrs_def live_line_def line_addr_def)
qed

lemma scan_lines_1:
  "l < 4096 \<Longrightarrow> scan_lines mp l 1 = (case map_addrs mp (l + 1) of [] \<Rightarrow> None | q # _ \<Rightarrow> Some q)"
  by (subst scan_lines.simps)
    (simp add: MBLOCK_MAP_ENTRIES_def scan_off.simps [of _ "Suc 0"] MBC_LINE_SIZE_def scan_lines_0)

lemma next_in_maps_later:
  assumes "\<forall>mp \<in> set maps. ucast (addrHigh32 mp) \<noteq> drop_bit 32 p"
  shows "next_in_maps p maps = (case enum maps of [] \<Rightarrow> 0 | q # _ \<Rightarrow> q)"
  using assms
proof (induction maps)
  case (Cons mp maps)
  have "enum (mp # maps) = map_addrs mp 0 @ enum maps" by (simp add: enum_def)
  moreover have "next_in_maps p (mp # maps) =
      (case map_addrs mp 0 of [] \<Rightarrow> next_in_maps p maps | q # _ \<Rightarrow> q)"
    using Cons.prems by (simp add: scan_lines_0 split: list.split)
  ultimately show ?case using Cons by (cases "map_addrs mp 0") auto
qed (simp add: enum_def)

lemma upt_split: "l < N \<Longrightarrow> [0 ..< N] = [0 ..< l] @ l # [l + 1 ..< N]"
  by (metis Suc_eq_plus1 less_imp_add_positive upt_add_eq_append upt_conv_Cons zero_le)

lemma map_addrs_split:
  assumes "l < 4096" "live_line mp l"
  obtains us where "map_addrs mp 0 = us @ line_addr mp l # map_addrs mp (l + 1)"
proof -
  have "map_addrs mp 0 = map (line_addr mp) (filter (live_line mp) ([0 ..< l] @ l # [l + 1 ..< 4096]))"
    unfolding map_addrs_def upt_split [OF assms(1)] ..
  also have "\<dots> = map (line_addr mp) (filter (live_line mp) [0 ..< l]) @ line_addr mp l # map_addrs mp (l + 1)"
    unfolding map_addrs_def filter_append map_append filter.simps using assms(2) by (simp only: if_True list.map)
  finally show ?thesis by (rule that)
qed

lemma map_addrs_mem: "p \<in> set (map_addrs mp l) \<longleftrightarrow> (\<exists>k. l \<le> k \<and> k < 4096 \<and> live_line mp k \<and> p = line_addr mp k)"
  unfolding map_addrs_def by auto

lemma distinct_map_addrs: "distinct (map_addrs mp l)"
  unfolding map_addrs_def
proof (subst distinct_map, intro conjI distinct_filter distinct_upt inj_onI)
  fix i j assume "i \<in> set (filter (live_line mp) [l ..< 4096])" "j \<in> set (filter (live_line mp) [l ..< 4096])"
    and e: "line_addr mp i = line_addr mp j"
  then have "i < 4096" "j < 4096" by auto
  then show "i = j" using e line_addr_parts(2) by metis
qed

lemma map_addrs_high: "p \<in> set (map_addrs mp l) \<Longrightarrow> drop_bit 32 p = ucast (addrHigh32 mp)"
  using line_addr_parts(1) by (auto simp: map_addrs_mem)

lemma ucast32_inj: "(ucast (a :: StgWord32) :: StgWord) = ucast b \<longleftrightarrow> a = b"
proof -
  have u: "unat (ucast x :: StgWord) = unat x" for x :: StgWord32
  proof -
    have "unat x < 2 ^ 32" by (rule order_less_le_trans [OF unsigned_less]) simp
    then show ?thesis by (simp only: unsigned_ucast_eq take_bit_eq_mod) simp
  qed
  show ?thesis by (metis u word_unat_eq_iff)
qed

lemma distinct_enum: "distinct (map addrHigh32 maps) \<Longrightarrow> distinct (enum maps)"
proof (induction maps)
  case (Cons mp maps)
  have "set (map_addrs mp 0) \<inter> set (enum maps) = {}"
  proof (rule ccontr)
    assume "set (map_addrs mp 0) \<inter> set (enum maps) \<noteq> {}"
    then obtain p mp' where "p \<in> set (map_addrs mp 0)" "mp' \<in> set maps" "p \<in> set (map_addrs mp' 0)"
      by (auto simp: enum_def)
    then have "addrHigh32 mp = addrHigh32 mp'" using map_addrs_high ucast32_inj by metis
    then show False using Cons.prems \<open>mp' \<in> set maps\<close> by auto
  qed
  then show ?case using Cons distinct_map_addrs by (simp add: enum_def)
qed (simp add: enum_def)

lemma dropWhile_split: "(\<forall>x \<in> set us. P x) \<Longrightarrow> \<not> P y \<Longrightarrow> dropWhile P (us @ y # vs) = y # vs"
  by (induction us) auto

lemma distinct_split_unique:
  "distinct (us @ p # vs) \<Longrightarrow> us @ p # vs = us' @ p # vs' \<Longrightarrow> vs = vs'"
proof (induction us arbitrary: us')
  case Nil then show ?case by (cases us') auto
next
  case (Cons u us)
  then obtain w where w: "us' = u # w" by (cases us') auto
  have "distinct (us @ p # vs)" using Cons.prems(1) by simp
  moreover have "us @ p # vs = w @ p # vs'" using Cons.prems(2) w by simp
  ultimately show ?case by (rule Cons.IH)
qed

lemma getNextMBlock_enum:
  assumes d: "distinct (map addrHigh32 (mblock_maps s))" and e: "enum (mblock_maps s) = us @ p # vs"
  shows "getNextMBlock p s = (case vs of [] \<Rightarrow> 0 | q # _ \<Rightarrow> q)"
proof -
  have "p \<in> set (enum (mblock_maps s))" using e by simp
  then obtain mp where mp: "mp \<in> set (mblock_maps s)" "p \<in> set (map_addrs mp 0)" by (auto simp: enum_def)
  then obtain A B where AB: "mblock_maps s = A @ mp # B" by (meson split_list)
  obtain l where l: "l < 4096" "live_line mp l" "p = line_addr mp l" using mp(2) map_addrs_mem by auto
  note hi = line_addr_parts [OF l(1), of mp, folded l(3)]
  have other: "ucast (addrHigh32 mp') \<noteq> drop_bit 32 p" if "mp' \<in> set A \<union> set B" for mp'
  proof -
    have "addrHigh32 mp' \<in> addrHigh32 ` (set A \<union> set B)" using that by blast
    moreover have "addrHigh32 mp \<notin> addrHigh32 ` (set A \<union> set B)" using d unfolding AB by auto
    ultimately have "addrHigh32 mp' \<noteq> addrHigh32 mp" by metis
    then show ?thesis unfolding hi(1) ucast32_inj .
  qed
  obtain us' where sp: "map_addrs mp 0 = us' @ p # map_addrs mp (l + 1)" using map_addrs_split [OF l(1,2)] l(3) by metis
  have "enum (mblock_maps s) = (enum A @ us') @ p # (map_addrs mp (l + 1) @ enum B)"
    unfolding AB by (simp add: enum_def sp)
  then have vs: "vs = map_addrs mp (l + 1) @ enum B"
    using distinct_split_unique distinct_enum [OF d] e by metis
  have "getNextMBlock p s = next_in_maps p (mp # B)"
    unfolding getNextMBlock_def AB by (subst dropWhile_split) (use other hi(1) in auto)
  also have "\<dots> = (case map_addrs mp (l + 1) of [] \<Rightarrow> next_in_maps p B | q # _ \<Rightarrow> q)"
    using hi scan_lines_1 [OF l(1), of mp] by (simp add: MBC_LINE_SIZE_def split: list.split)
  also have "next_in_maps p B = (case enum B of [] \<Rightarrow> 0 | q # _ \<Rightarrow> q)"
    by (rule next_in_maps_later) (use other in blast)
  finally show ?thesis unfolding vs by (cases "map_addrs mp (l + 1)") simp_all
qed

lemma enum_mbn:
  assumes "mb_inv s"
  shows "mbn ` set (enum (mblock_maps s)) = heap_mblocks s"
proof (intro set_eqI iffI)
  fix m assume "m \<in> mbn ` set (enum (mblock_maps s))"
  then obtain mp l where mp: "mp \<in> set (mblock_maps s)" "l < 4096" "live_line mp l" "m = mbn (line_addr mp l)"
    by (auto simp: enum_def map_addrs_mem)
  have m: "m = unat (addrHigh32 mp) * 4096 + l" using mp(2,4) unat_line_addr by (simp add: mbn_def)
  have "lines mp l = 0 \<or> lines mp l = 1" using assms mp(1) unfolding mb_inv_def by blast
  then have "lines mp l = 1" using mp(3) by (auto simp: live_line_def)
  moreover have h: "unat (addrHigh32 mp) < 2 ^ 16" using assms mp(1) by (auto simp: mb_inv_def)
  moreover have "List.find (\<lambda>x. addrHigh32 x = of_nat (m div 4096)) (mblock_maps s) = Some mp"
  proof (rule find_distinct)
    have "m div 4096 = unat (addrHigh32 mp)" using m mp(2) by simp
    then show "addrHigh32 mp = of_nat (m div 4096)" by simp
  qed (use assms mp in \<open>auto simp: mb_inv_def\<close>)
  ultimately show "m \<in> heap_mblocks s" using m mp(2) by (simp add: heap_mblocks_def hval_def)
next
  fix m assume m: "m \<in> heap_mblocks s"
  then obtain mp where f: "List.find (\<lambda>x. addrHigh32 x = of_nat (m div 4096)) (mblock_maps s) = Some mp"
    and l: "lines mp (m mod 4096) = 1"
    by (auto simp: heap_mblocks_def hval_def split: option.splits)
  have mp: "mp \<in> set (mblock_maps s)" "addrHigh32 mp = of_nat (m div 4096)" using find_addr [OF f] by auto
  have "m < 2 ^ 28" using m by (simp add: heap_mblocks_def)
  then have "m div 4096 < 2 ^ LENGTH(32)" by simp
  then have "unat (addrHigh32 mp) = m div 4096" using mp(2) of_nat_inverse by metis
  then have "mbn (line_addr mp (m mod 4096)) = m" using unat_line_addr [of "m mod 4096" mp] by (simp add: mbn_def)
  moreover have "line_addr mp (m mod 4096) \<in> set (enum (mblock_maps s))"
    using mp(1) l by (auto simp: enum_def map_addrs_mem live_line_def intro!: bexI [of _ mp] exI [of _ "m mod 4096"])
  ultimately show "m \<in> mbn ` set (enum (mblock_maps s))" by (metis imageI)
qed

lemma enum_aligned: "p \<in> set (enum maps) \<Longrightarrow> unat p = MBLOCK_SIZE * mbn p"
  using unat_line_addr by (auto simp: enum_def map_addrs_mem mbn_def MBLOCK_SIZE_def)

definition mregion :: "nat \<Rightarrow> nat set" where
  "mregion m = {MBLOCK_SIZE * m ..< MBLOCK_SIZE * m + MBLOCK_SIZE}"

lemma osFreeAllMBlocks_loop_enum:
  assumes "distinct (map addrHigh32 (mblock_maps s))" "enum (mblock_maps s) = us @ vs" "0 \<notin> set vs"
  shows "\<exists>os'. osFreeAllMBlocks_loop (\<lambda>_ _. True) (case vs of [] \<Rightarrow> 0 | q # _ \<Rightarrow> q) s os = Some os' \<and>
     mapped os' = mapped os - (\<Union>p \<in> set vs. mregion (mbn p))"
  using assms(2,3)
proof (induction vs arbitrary: us os)
  case Nil then show ?case by (simp add: osFreeAllMBlocks_loop.simps)
next
  case (Cons p vs)
  let ?os = "os\<lparr>mapped := mapped os - {unat p ..< unat p + MBLOCK_SIZE}\<rparr>"
  have n: "getNextMBlock p s = (case vs of [] \<Rightarrow> 0 | q # _ \<Rightarrow> q)"
    by (rule getNextMBlock_enum [OF assms(1) Cons.prems(1)])
  have "p \<in> set (enum (mblock_maps s))" using Cons.prems(1) by simp
  then have r: "{unat p ..< unat p + MBLOCK_SIZE} = mregion (mbn p)" using enum_aligned by (simp add: mregion_def)
  have "\<exists>os'. osFreeAllMBlocks_loop (\<lambda>_ _. True) (getNextMBlock p s) s ?os = Some os' \<and>
     mapped os' = mapped ?os - (\<Union>p \<in> set vs. mregion (mbn p))"
    unfolding n using Cons.IH [of "us @ [p]" ?os] Cons.prems by simp
  moreover have "osFreeAllMBlocks_loop (\<lambda>_ _. True) p s os = osFreeAllMBlocks_loop (\<lambda>_ _. True) (getNextMBlock p s) s ?os"
    using Cons.prems(2) by (subst osFreeAllMBlocks_loop.simps) (simp add: munmap_def)
  ultimately show ?case using r by (auto simp: Diff_eq)
qed

text \<open>
  Claim C29.  When the first map records a megablock, \<open>osFreeAllMBlocks\<close> ends, and its walk with
  \<open>getFirstMBlock\<close> and \<open>getNextMBlock\<close> unmaps every megablock of the heap and nothing else,
  across the lines of all the maps.\<close>

theorem osFreeAllMBlocks_complete:
  assumes "mb_inv s" "mblock_maps s = mp # maps" "map_addrs mp 0 \<noteq> []" "0 \<notin> heap_mblocks s"
  shows "\<exists>os'. osFreeAllMBlocks (\<lambda>_ _. True) s = Some os' \<and>
    mapped os' = mapped (mb_os s) - (\<Union>m \<in> heap_mblocks s. mregion m)"
proof -
  have d: "distinct (map addrHigh32 (mblock_maps s))" using assms(1) by (simp add: mb_inv_def)
  have e: "enum (mblock_maps s) = [] @ enum (mblock_maps s)" by simp
  have "mbn 0 = 0" by (simp add: mbn_def)
  then have z: "0 \<notin> set (enum (mblock_maps s))" using enum_mbn [OF assms(1)] assms(4) by (metis imageI)
  have "getFirstMBlock s = Some (case enum (mblock_maps s) of [] \<Rightarrow> 0 | q # _ \<Rightarrow> q)"
    using assms(2,3) by (auto simp: getFirstMBlock_def scan_lines_0 enum_def split: list.split)
  moreover have "(\<Union>p \<in> set (enum (mblock_maps s)). mregion (mbn p)) = (\<Union>m \<in> heap_mblocks s. mregion m)"
    using enum_mbn [OF assms(1)] by (simp add: image_image [symmetric, of mregion mbn]) 
  ultimately show ?thesis
    using osFreeAllMBlocks_loop_enum [OF d e z, of "mb_os s"] by (simp add: osFreeAllMBlocks_def)
qed

lemma osFreeAllMBlocks_complete_witness:
  "\<exists>os'. osFreeAllMBlocks (\<lambda>_ _. True) (markHeapAlloced 0x200000 mb0) = Some os' \<and>
     mapped os' = mapped (mb_os mb0) - mregion 2"
proof -
  let ?s = "markHeapAlloced 0x200000 mb0" and ?mp = "\<lparr>addrHigh32 = 0, lines = (\<lambda>_. 0)(2 := 1)\<rparr> :: MBlockMap"
  have i: "mb_inv ?s" unfolding markHeapAlloced_def by (rule setHeapAlloced_inv [OF mb0_inv]) simp_all
  have h: "heap_mblocks ?s = {2}"
    using setHeapAlloced_heap(1) [OF mb0_inv, of "0x200000"] heap_mblocks_mb0
    by (simp add: markHeapAlloced_def mbn_def)
  have m: "mblock_maps ?s = [?mp]"
    by (simp add: markHeapAlloced_def setHeapAlloced_def findMBlockMap_def mb0_def high32_def MBLOCK_MAP_LINE_def)
  have "line_addr ?mp 2 \<in> set (map_addrs ?mp 0)" by (simp add: map_addrs_mem live_line_def)
  then have "map_addrs ?mp 0 \<noteq> []" by auto
  moreover have "mb_os ?s = mb_os mb0" by (simp add: markHeapAlloced_def)
  ultimately show ?thesis using osFreeAllMBlocks_complete [OF i m] h by simp
qed

text \<open>
  \<open>getFirstMBlock\<close> looks in the first map only.  After the first 4 GB of the heap has been
  returned to the system, it answers NULL although the heap is not empty: the walks over all
  megablocks, \<open>osFreeAllMBlocks\<close> among them, then find none.\<close>

theorem getFirstMBlock_first_map_only:
  "\<exists>s. mb_inv s \<and> heap_mblocks s = {4096} \<and> getFirstMBlock s = Some 0 \<and>
       s = markHeapUnalloced 0x200000 (markHeapAlloced 0x100000000 (markHeapAlloced 0x200000 mb0))"
proof -
  let ?s1 = "markHeapAlloced 0x200000 mb0" and ?s2 = "markHeapAlloced 0x100000000 (markHeapAlloced 0x200000 mb0)"
  let ?s = "markHeapUnalloced 0x200000 ?s2"
  note mk = markHeapAlloced_def markHeapUnalloced_def
  have i1: "mb_inv ?s1" unfolding mk by (rule setHeapAlloced_inv [OF mb0_inv]) simp_all
  have i2: "mb_inv ?s2" using setHeapAlloced_inv [OF i1, of "0x100000000" 1] by (simp add: mk)
  have i3: "mb_inv ?s" using setHeapAlloced_inv [OF i2, of "0x200000" 0] by (simp add: mk)
  have h: "heap_mblocks ?s = {4096}"
    using setHeapAlloced_heap(1) [OF mb0_inv, of "0x200000"] setHeapAlloced_heap(1) [OF i1, of "0x100000000"]
      setHeapAlloced_heap(2) [OF i2, of "0x200000"] heap_mblocks_mb0
    by (auto simp: mk mbn_def)
  have "mblock_maps ?s = [\<lparr>addrHigh32 = 0, lines = \<lambda>_. 0\<rparr>, \<lparr>addrHigh32 = 1, lines = (\<lambda>_. 0)(0 := 1)\<rparr>]"
    by (simp add: mk setHeapAlloced_def findMBlockMap_def mb0_def high32_def MBLOCK_MAP_LINE_def fun_eq_iff)
  moreover have "map_addrs \<lparr>addrHigh32 = 0, lines = \<lambda>_. 0\<rparr> 0 = []"
    unfolding map_addrs_def live_line_def by (simp only: filter_False MBlockMap.simps) simp
  ultimately have "getFirstMBlock ?s = Some 0" by (simp add: getFirstMBlock_def scan_lines_0)
  then show ?thesis using i3 h by blast
qed

end
