(* ===== verification/BlockAlloc.thy ===== *)
theory BlockAlloc
  imports MBlock
begin

text \<open>
  The block allocator, \<open>rts/sm/BlockAlloc.c\<close>: groups of blocks smaller than a megablock on nine
  doubly linked free lists by size, free megablock groups on one list sorted by address, both
  coalesced on freeing.

  Block descriptors are in a memory from addresses to \<^typ>\<open>bdescr\<close>.  \<open>None\<close> is \<open>barf\<close>, a failed
  \<open>ASSERT\<close>, the failure of a system call, or a walk that does not end.  The counters are machine
  words; the sizes of groups are naturals, below \<open>2 ^ 32\<close> in the code.
\<close>

section \<open>State and helpers\<close>

definition MAX_FREE_LIST :: nat where "MAX_FREE_LIST = 9"

record ba_state =
  ba_mem :: bd_mem
  free_list :: "nat \<Rightarrow> addr"
  free_mblock_list :: addr
  n_alloc_blocks :: StgWord
  hw_alloc_blocks :: StgWord
  ba_mb :: mb_state

abbreviation bd_of :: "ba_state \<Rightarrow> addr \<Rightarrow> bdescr" where
  "bd_of s p \<equiv> ba_mem s p"

definition set_bd :: "addr \<Rightarrow> (bdescr \<Rightarrow> bdescr) \<Rightarrow> ba_state \<Rightarrow> ba_state" where
  "set_bd p f s = s\<lparr>ba_mem := upd_bd p f (ba_mem s)\<rparr>"

definition initBlockAllocator :: "ba_state \<Rightarrow> ba_state" where
  "initBlockAllocator s =
     s\<lparr>free_list := (\<lambda>i. if i < MAX_FREE_LIST then NULL else free_list s i), free_mblock_list := NULL,
       n_alloc_blocks := 0, hw_alloc_blocks := 0\<rparr>"

text \<open>The loop of \<open>initGroup\<close> over the descriptors \<open>head + i\<close> for \<open>i < n\<close>; the last argument is \<open>n - i\<close>.\<close>

fun initGroup_loop :: "addr \<Rightarrow> addr \<Rightarrow> nat \<Rightarrow> bd_mem \<Rightarrow> bd_mem" where
  "initGroup_loop head bd 0 mem = mem"
| "initGroup_loop head bd (Suc k) mem =
     initGroup_loop head (bd_plus bd 1) k
       (upd_bd bd (\<lambda>d. d\<lparr>bd_free := 0, bd_blocks := 0, bd_link := head\<rparr>) mem)"

definition initGroup :: "addr \<Rightarrow> bd_mem \<Rightarrow> bd_mem" where
  "initGroup head mem =
     (let n = bd_blocks (mem head);
          mem1 = upd_bd head (\<lambda>d. d\<lparr>bd_free := bd_start d, bd_link := NULL\<rparr>) mem
      in initGroup_loop head (bd_plus head 1) (n - 1) mem1)"

text \<open>The loops of the logarithms; the second argument counts the passes left.\<close>

fun log_2_ceil_loop :: "nat \<Rightarrow> nat \<Rightarrow> nat \<Rightarrow> nat \<Rightarrow> nat" where
  "log_2_ceil_loop n 0 i x = MAX_FREE_LIST"
| "log_2_ceil_loop n (Suc k) i x = (if n \<le> x then i else log_2_ceil_loop n k (i + 1) (x * 2))"

definition log_2_ceil :: "nat \<Rightarrow> nat" where
  "log_2_ceil n = log_2_ceil_loop n MAX_FREE_LIST 0 1"

fun log_2_loop :: "nat \<Rightarrow> nat \<Rightarrow> nat \<Rightarrow> nat" where
  "log_2_loop 0 i x = MAX_FREE_LIST"
| "log_2_loop (Suc k) i x = (if x div 2 = 0 then i else log_2_loop k (i + 1) (x div 2))"

definition log_2 :: "nat \<Rightarrow> nat" where
  "log_2 n = log_2_loop MAX_FREE_LIST 0 n"

text \<open>Pushing on and removing from \<open>free_list[ln]\<close>.\<close>

definition fl_onto :: "addr \<Rightarrow> nat \<Rightarrow> ba_state \<Rightarrow> ba_state" where
  "fl_onto bd ln s =
     (let (mem, h) = dbl_link_onto (ba_mem s) bd (free_list s ln)
      in s\<lparr>ba_mem := mem, free_list := (free_list s)(ln := h)\<rparr>)"

definition fl_remove :: "addr \<Rightarrow> nat \<Rightarrow> ba_state \<Rightarrow> ba_state" where
  "fl_remove bd ln s =
     (let (mem, h) = dbl_link_remove (ba_mem s) bd (free_list s ln)
      in s\<lparr>ba_mem := mem, free_list := (free_list s)(ln := h)\<rparr>)"

definition free_list_insert :: "addr \<Rightarrow> ba_state \<Rightarrow> ba_state option" where
  "free_list_insert bd s =
     (if bd_blocks (bd_of s bd) < BLOCKS_PER_MBLOCK
      then Some (fl_onto bd (log_2 (bd_blocks (bd_of s bd))) s) else None)"

definition tail_of :: "bd_mem \<Rightarrow> addr \<Rightarrow> addr" where
  "tail_of mem bd = bd_plus bd (bd_blocks (mem bd)) - BDESCR_SIZE"

definition setup_tail :: "addr \<Rightarrow> bd_mem \<Rightarrow> bd_mem" where
  "setup_tail bd mem =
     (let tail = tail_of mem bd
      in if tail \<noteq> bd then upd_bd tail (\<lambda>d. d\<lparr>bd_blocks := 0, bd_free := 0, bd_link := bd\<rparr>) mem
         else mem)"

definition split_free_block :: "addr \<Rightarrow> nat \<Rightarrow> nat \<Rightarrow> ba_state \<Rightarrow> (addr \<times> ba_state) option" where
  "split_free_block bd n ln s =
     (if bd_blocks (bd_of s bd) > n
      then let s = fl_remove bd ln s;
               fg = bd_plus bd (bd_blocks (bd_of s bd)) - BDESCR_SIZE * n;
               s = set_bd fg (\<lambda>d. d\<lparr>bd_blocks := n\<rparr>) s;
               s = set_bd bd (\<lambda>d. d\<lparr>bd_blocks := bd_blocks d - n\<rparr>) s;
               s = s\<lparr>ba_mem := setup_tail bd (ba_mem s)\<rparr>;
               s = fl_onto bd (log_2 (bd_blocks (bd_of s bd))) s
           in Some (fg, s)
      else None)"

text \<open>\<open>initMBlock\<close>: the start of every block; the last argument counts the blocks left.\<close>

fun initMBlock_loop :: "addr \<Rightarrow> addr \<Rightarrow> nat \<Rightarrow> bd_mem \<Rightarrow> bd_mem" where
  "initMBlock_loop bd block 0 mem = mem"
| "initMBlock_loop bd block (Suc k) mem =
     initMBlock_loop (bd_plus bd 1) (block + BLOCK_SIZE) k (upd_bd bd (\<lambda>d. d\<lparr>bd_start := block\<rparr>) mem)"

definition initMBlock :: "addr \<Rightarrow> bd_mem \<Rightarrow> bd_mem" where
  "initMBlock mblock mem =
     initMBlock_loop (FIRST_BDESCR mblock) (FIRST_BLOCK mblock)
       ((LAST_BLOCK mblock - FIRST_BLOCK mblock) div BLOCK_SIZE + 1) mem"

section \<open>Megablock groups\<close>

text \<open>
  The search of \<open>alloc_mega_group\<close>: \<open>Inl (bd, prev)\<close> is an exact fit and its predecessor,
  \<open>Inr best\<close> the smallest group that is bigger, or NULL.\<close>

partial_function (option) mega_search ::
    "bd_mem \<Rightarrow> nat \<Rightarrow> addr \<Rightarrow> addr \<Rightarrow> addr \<Rightarrow> (addr \<times> addr + addr) option" where
  "mega_search mem n bd prev best =
     (if bd = NULL then Some (Inr best)
      else if bd_blocks (mem bd) = n then Some (Inl (bd, prev))
      else mega_search mem n (bd_link (mem bd)) bd
             (if bd_blocks (mem bd) > n \<and> (best = NULL \<or> bd_blocks (mem bd) < bd_blocks (mem best))
              then bd else best))"

definition alloc_mega_group ::
    "mmap_fn \<Rightarrow> munmap_fn \<Rightarrow> nat \<Rightarrow> ba_state \<Rightarrow> (addr \<times> ba_state) option" where
  "alloc_mega_group mmap munmap_ok mblocks s = do {
     let n = MBLOCK_GROUP_BLOCKS mblocks;
     r \<leftarrow> mega_search (ba_mem s) n (free_mblock_list s) NULL NULL;
     case r of
       Inl (bd, prev) \<Rightarrow>
         (let s = (if prev \<noteq> NULL
                   then set_bd prev (\<lambda>d. d\<lparr>bd_link := bd_link (bd_of s bd)\<rparr>) s
                   else s\<lparr>free_mblock_list := bd_link (bd_of s bd)\<rparr>)
          in Some (bd, s\<lparr>ba_mem := initGroup bd (ba_mem s)\<rparr>))
     | Inr best \<Rightarrow> do {
         (bd, s) \<leftarrow>
           (if best \<noteq> NULL
            then let best_mblocks = BLOCKS_TO_MBLOCKS (bd_blocks (bd_of s best));
                     bd = FIRST_BDESCR (mblock_of best + (best_mblocks - mblocks) * MBLOCK_SIZE);
                     s = set_bd best (\<lambda>d. d\<lparr>bd_blocks := MBLOCK_GROUP_BLOCKS (best_mblocks - mblocks)\<rparr>) s
                 in Some (bd, s\<lparr>ba_mem := initMBlock (mblock_of bd) (ba_mem s)\<rparr>)
            else do {
              (mblock, mb) \<leftarrow> getMBlocks mmap munmap_ok mblocks (ba_mb s);
              let s = s\<lparr>ba_mb := mb\<rparr>;
              Some (FIRST_BDESCR mblock, s\<lparr>ba_mem := initMBlock mblock (ba_mem s)\<rparr>)
            });
         Some (bd, set_bd bd (\<lambda>d. d\<lparr>bd_blocks := MBLOCK_GROUP_BLOCKS mblocks\<rparr>) s)
       }
   }"

definition coalesce_mblocks :: "addr \<Rightarrow> bd_mem \<Rightarrow> addr \<times> bd_mem" where
  "coalesce_mblocks p mem =
     (let q = bd_link (mem p)
      in if q \<noteq> NULL \<and> mblock_of q = mblock_of p + BLOCKS_TO_MBLOCKS (bd_blocks (mem p)) * MBLOCK_SIZE
         then (p, upd_bd p (\<lambda>d. d\<lparr>bd_blocks := MBLOCK_GROUP_BLOCKS (BLOCKS_TO_MBLOCKS (bd_blocks (mem p)) +
                       BLOCKS_TO_MBLOCKS (bd_blocks (mem q))), bd_link := bd_link (mem q)\<rparr>) mem)
         else (q, mem))"

text \<open>Where \<open>free_mega_group\<close> inserts: the last group that starts below, and the first that does not.\<close>

partial_function (option) mega_place ::
    "bd_mem \<Rightarrow> nat \<Rightarrow> addr \<Rightarrow> addr \<Rightarrow> (addr \<times> addr) option" where
  "mega_place mem start bd prev =
     (if bd \<noteq> NULL \<and> bd_start (mem bd) < start then mega_place mem start (bd_link (mem bd)) bd
      else Some (prev, bd))"

definition free_mega_group :: "addr \<Rightarrow> ba_state \<Rightarrow> ba_state option" where
  "free_mega_group mg s = do {
     (prev, bd) \<leftarrow> mega_place (ba_mem s) (bd_start (bd_of s mg)) (free_mblock_list s) NULL;
     let (mg, s) =
       (if prev \<noteq> NULL
        then let s = set_bd mg (\<lambda>d. d\<lparr>bd_link := bd_link (bd_of s prev)\<rparr>) s;
                 s = set_bd prev (\<lambda>d. d\<lparr>bd_link := mg\<rparr>) s;
                 (mg, mem) = coalesce_mblocks prev (ba_mem s)
             in (mg, s\<lparr>ba_mem := mem\<rparr>)
        else (mg, (set_bd mg (\<lambda>d. d\<lparr>bd_link := free_mblock_list s\<rparr>) s)\<lparr>free_mblock_list := mg\<rparr>));
     let (_, mem) = coalesce_mblocks mg (ba_mem s);
     Some (s\<lparr>ba_mem := mem\<rparr>)
   }"

section \<open>Freeing groups\<close>

text \<open>The second half of \<open>freeGroup\<close>: coalesce backwards, set the tail and insert.\<close>

definition free_insert :: "addr \<Rightarrow> ba_state \<Rightarrow> ba_state option" where
  "free_insert p s = free_list_insert p (s\<lparr>ba_mem := setup_tail p (ba_mem s)\<rparr>)"

definition freeGroup_back :: "addr \<Rightarrow> ba_state \<Rightarrow> ba_state option" where
  "freeGroup_back p s =
     (if p \<noteq> FIRST_BDESCR (mblock_of p)
      then let prev = p - BDESCR_SIZE;
               prev = (if bd_blocks (bd_of s prev) = 0 then bd_link (bd_of s prev) else prev)
           in if bd_free (bd_of s prev) = FREE_MARK
              then let s = fl_remove prev (log_2 (bd_blocks (bd_of s prev))) s;
                       s = set_bd prev (\<lambda>d. d\<lparr>bd_blocks := bd_blocks d + bd_blocks (bd_of s p)\<rparr>) s
                   in if bd_blocks (bd_of s prev) \<ge> BLOCKS_PER_MBLOCK
                      then free_mega_group prev s
                      else free_insert prev s
              else free_insert p s
      else free_insert p s)"

definition freeGroup :: "addr \<Rightarrow> ba_state \<Rightarrow> ba_state option" where
  "freeGroup p s =
     (if bd_free (bd_of s p) = FREE_MARK then None
      else let s = set_bd p (\<lambda>d. d\<lparr>bd_free := FREE_MARK, bd_gen := NULL, bd_gen_no := 0\<rparr>) s
      in if bd_blocks (bd_of s p) = 0 then None
      else if bd_blocks (bd_of s p) \<ge> BLOCKS_PER_MBLOCK
      then let mblocks = BLOCKS_TO_MBLOCKS (bd_blocks (bd_of s p))
           in if bd_blocks (bd_of s p) = MBLOCK_GROUP_BLOCKS mblocks
              then free_mega_group p
                     (s\<lparr>n_alloc_blocks := n_alloc_blocks s - of_nat (mblocks * BLOCKS_PER_MBLOCK)\<rparr>)
              else None
      else if n_alloc_blocks s < of_nat (bd_blocks (bd_of s p)) then None
      else let s = s\<lparr>n_alloc_blocks := n_alloc_blocks s - of_nat (bd_blocks (bd_of s p))\<rparr>;
               nxt = bd_plus p (bd_blocks (bd_of s p))
           in if nxt \<le> LAST_BDESCR (mblock_of p) \<and> bd_free (bd_of s nxt) = FREE_MARK
              then let s = set_bd p (\<lambda>d. d\<lparr>bd_blocks := bd_blocks d + bd_blocks (bd_of s nxt)\<rparr>) s;
                       s = fl_remove nxt (log_2 (bd_blocks (bd_of s nxt))) s
                   in if bd_blocks (bd_of s p) = BLOCKS_PER_MBLOCK then free_mega_group p s
                      else freeGroup_back p (s\<lparr>ba_mem := setup_tail p (ba_mem s)\<rparr>)
              else freeGroup_back p s)"

partial_function (option) freeChain :: "addr \<Rightarrow> ba_state \<Rightarrow> ba_state option" where
  "freeChain bd s =
     (if bd = NULL then Some s
      else do {
        let next_bd = bd_link (bd_of s bd);
        s' \<leftarrow> freeGroup bd s;
        freeChain next_bd s'
      })"

section \<open>Allocating groups\<close>

definition count_alloc :: "nat \<Rightarrow> ba_state \<Rightarrow> ba_state" where
  "count_alloc n s =
     (let s = s\<lparr>n_alloc_blocks := n_alloc_blocks s + of_nat n\<rparr>
      in if n_alloc_blocks s > hw_alloc_blocks s then s\<lparr>hw_alloc_blocks := n_alloc_blocks s\<rparr> else s)"

fun find_bucket :: "(nat \<Rightarrow> addr) \<Rightarrow> nat \<Rightarrow> nat \<Rightarrow> nat" where
  "find_bucket fl 0 ln = ln"
| "find_bucket fl (Suc k) ln =
     (if ln < MAX_FREE_LIST \<and> fl ln = NULL then find_bucket fl k (ln + 1) else ln)"

definition allocGroup :: "mmap_fn \<Rightarrow> munmap_fn \<Rightarrow> nat \<Rightarrow> ba_state \<Rightarrow> (addr \<times> ba_state) option" where
  "allocGroup mmap munmap_ok n s =
     (if n = 0 then None
      else if n \<ge> BLOCKS_PER_MBLOCK
      then do {
        let mblocks = BLOCKS_TO_MBLOCKS n;
        (bd, s) \<leftarrow> alloc_mega_group mmap munmap_ok mblocks (count_alloc (mblocks * BLOCKS_PER_MBLOCK) s);
        Some (bd, s\<lparr>ba_mem := initGroup bd (ba_mem s)\<rparr>)
      }
      else
        let s = count_alloc n s;
            ln = find_bucket (free_list s) MAX_FREE_LIST (log_2_ceil n)
        in if ln = MAX_FREE_LIST
           then do {
             (bd, s) \<leftarrow> alloc_mega_group mmap munmap_ok 1 s;
             let s = set_bd bd (\<lambda>d. d\<lparr>bd_blocks := n\<rparr>) s;
             let s = s\<lparr>ba_mem := initGroup bd (ba_mem s)\<rparr>;
             let rem = bd_plus bd n;
             let s = set_bd rem (\<lambda>d. d\<lparr>bd_blocks := BLOCKS_PER_MBLOCK - n\<rparr>) s;
             let s = s\<lparr>ba_mem := initGroup rem (ba_mem s)\<rparr>;
             let s = s\<lparr>n_alloc_blocks := n_alloc_blocks s + of_nat (bd_blocks (bd_of s rem))\<rparr>;
             s \<leftarrow> freeGroup rem s;
             Some (bd, s)
           }
           else let bd = free_list s ln
           in if bd_blocks (bd_of s bd) = n
              then let s = fl_remove bd ln s in Some (bd, s\<lparr>ba_mem := initGroup bd (ba_mem s)\<rparr>)
              else if bd_blocks (bd_of s bd) > n
              then do {
                (bd, s) \<leftarrow> split_free_block bd n ln s;
                if bd_blocks (bd_of s bd) = n then Some (bd, s\<lparr>ba_mem := initGroup bd (ba_mem s)\<rparr>) else None
              }
              else None)"

definition allocBlock :: "mmap_fn \<Rightarrow> munmap_fn \<Rightarrow> ba_state \<Rightarrow> (addr \<times> ba_state) option" where
  "allocBlock mmap munmap_ok s = allocGroup mmap munmap_ok 1 s"

section \<open>Counting, returning memory, and checking\<close>

partial_function (option) countBlocks_loop :: "bd_mem \<Rightarrow> addr \<Rightarrow> StgWord32 \<Rightarrow> StgWord32 option" where
  "countBlocks_loop mem bd n =
     (if bd = NULL then Some n
      else countBlocks_loop mem (bd_link (mem bd)) (n + of_nat (bd_blocks (mem bd))))"

definition countBlocks :: "bd_mem \<Rightarrow> addr \<Rightarrow> StgWord32 option" where
  "countBlocks mem bd = countBlocks_loop mem bd 0"

partial_function (option) countAllocdBlocks_loop :: "bd_mem \<Rightarrow> addr \<Rightarrow> StgWord32 \<Rightarrow> StgWord32 option" where
  "countAllocdBlocks_loop mem bd n =
     (if bd = NULL then Some n
      else let n = n + of_nat (bd_blocks (mem bd));
               n = (if bd_blocks (mem bd) > BLOCKS_PER_MBLOCK
                    then n - of_nat ((MBLOCK_SIZE div BLOCK_SIZE - BLOCKS_PER_MBLOCK) *
                               (bd_blocks (mem bd) div (MBLOCK_SIZE div BLOCK_SIZE)))
                    else n)
           in countAllocdBlocks_loop mem (bd_link (mem bd)) n)"

definition countAllocdBlocks :: "bd_mem \<Rightarrow> addr \<Rightarrow> StgWord32 option" where
  "countAllocdBlocks mem bd = countAllocdBlocks_loop mem bd 0"

text \<open>\<open>newSize * MBLOCK_SIZE\<close> is again an \<open>unsigned int\<close>.  The result is the list that is left.\<close>

partial_function (option) return_loop ::
    "munmap_fn \<Rightarrow> nat \<Rightarrow> addr \<Rightarrow> ba_state \<Rightarrow> (addr \<times> ba_state) option" where
  "return_loop munmap_ok n bd s =
     (if n > 0 \<and> bd \<noteq> NULL
      then let sz = BLOCKS_TO_MBLOCKS (bd_blocks (bd_of s bd))
           in if sz > n
              then let newSize = sz - n;
                       freeAddr = mblock_of (bd_start (bd_of s bd)) + unat (of_nat newSize * 1048576 :: StgWord32);
                       s = set_bd bd (\<lambda>d. d\<lparr>bd_blocks := MBLOCK_GROUP_BLOCKS newSize\<rparr>) s;
                       s = s\<lparr>ba_mb := freeMBlocks munmap_ok freeAddr n (ba_mb s)\<rparr>
                   in return_loop munmap_ok 0 bd s
              else let freeAddr = mblock_of (bd_start (bd_of s bd));
                       nxt = bd_link (bd_of s bd);
                       s = s\<lparr>ba_mb := freeMBlocks munmap_ok freeAddr sz (ba_mb s)\<rparr>
                   in return_loop munmap_ok (n - sz) nxt s
      else Some (bd, s))"

definition returnMemoryToOS :: "munmap_fn \<Rightarrow> nat \<Rightarrow> ba_state \<Rightarrow> ba_state option" where
  "returnMemoryToOS munmap_ok n s = do {
     (bd, s) \<leftarrow> return_loop munmap_ok n (free_mblock_list s) s;
     Some (s\<lparr>free_mblock_list := bd\<rparr>)
   }"

definition check_tail :: "bd_mem \<Rightarrow> addr \<Rightarrow> bool" where
  "check_tail mem bd =
     (let tail = tail_of mem bd
      in tail \<noteq> bd \<longrightarrow> bd_blocks (mem tail) = 0 \<and> bd_free (mem tail) = 0 \<and> bd_link (mem tail) = bd)"

partial_function (option) check_bucket :: "bd_mem \<Rightarrow> nat \<Rightarrow> addr \<Rightarrow> addr \<Rightarrow> bool option" where
  "check_bucket mem mn bd prev =
     (if bd = NULL then Some True
      else if bd_free (mem bd) = FREE_MARK \<and>
         (bd_blocks (mem bd) > 0 \<and> bd_blocks (mem bd) < BLOCKS_PER_MBLOCK) \<and>
         (bd_blocks (mem bd) \<ge> mn \<and> bd_blocks (mem bd) \<le> mn * 2 - 1) \<and>
         bd_link (mem bd) \<noteq> bd \<and> check_tail mem bd \<and>
         (if prev \<noteq> NULL then bd_back (mem bd) = prev else bd_back (mem bd) = NULL) \<and>
         (bd_plus bd (bd_blocks (mem bd)) \<le> LAST_BDESCR (mblock_of bd) \<longrightarrow>
            bd_free (mem (bd_plus bd (bd_blocks (mem bd)))) \<noteq> FREE_MARK)
      then check_bucket mem mn (bd_link (mem bd)) bd
      else Some False)"

partial_function (option) check_mega :: "bd_mem \<Rightarrow> addr \<Rightarrow> bool option" where
  "check_mega mem bd =
     (if bd = NULL then Some True
      else if bd_link (mem bd) \<noteq> bd \<and>
         (bd_link (mem bd) \<noteq> NULL \<longrightarrow> bd_start (mem bd) < bd_start (mem (bd_link (mem bd)))) \<and>
         bd_blocks (mem bd) \<ge> BLOCKS_PER_MBLOCK \<and>
         MBLOCK_GROUP_BLOCKS (BLOCKS_TO_MBLOCKS (bd_blocks (mem bd))) = bd_blocks (mem bd) \<and>
         (bd_link (mem bd) \<noteq> NULL \<longrightarrow>
            mblock_of (bd_link (mem bd)) \<noteq> mblock_of bd + BLOCKS_TO_MBLOCKS (bd_blocks (mem bd)) * MBLOCK_SIZE)
      then check_mega mem (bd_link (mem bd))
      else Some False)"

fun check_buckets :: "ba_state \<Rightarrow> nat \<Rightarrow> nat \<Rightarrow> nat \<Rightarrow> bool option" where
  "check_buckets s 0 ln mn = Some True"
| "check_buckets s (Suc k) ln mn = do {
     b \<leftarrow> check_bucket (ba_mem s) mn (free_list s ln) NULL;
     if b then check_buckets s k (ln + 1) (mn * 2) else Some False
   }"

definition checkFreeListSanity :: "ba_state \<Rightarrow> bool option" where
  "checkFreeListSanity s = do {
     b \<leftarrow> check_buckets s MAX_FREE_LIST 0 1;
     if b then check_mega (ba_mem s) (free_mblock_list s) else Some False
   }"

partial_function (option) count_fl :: "bd_mem \<Rightarrow> (nat \<Rightarrow> nat) \<Rightarrow> addr \<Rightarrow> StgWord \<Rightarrow> StgWord option" where
  "count_fl mem f bd tot =
     (if bd = NULL then Some tot
      else count_fl mem f (bd_link (mem bd)) (tot + of_nat (f (bd_blocks (mem bd)))))"

fun count_buckets :: "ba_state \<Rightarrow> nat \<Rightarrow> nat \<Rightarrow> StgWord \<Rightarrow> StgWord option" where
  "count_buckets s 0 ln tot = Some tot"
| "count_buckets s (Suc k) ln tot = do {
     tot \<leftarrow> count_fl (ba_mem s) (\<lambda>b. b) (free_list s ln) tot;
     count_buckets s k (ln + 1) tot
   }"

definition countFreeList :: "ba_state \<Rightarrow> StgWord32 option" where
  "countFreeList s = do {
     tot \<leftarrow> count_buckets s MAX_FREE_LIST 0 0;
     tot \<leftarrow> count_fl (ba_mem s) (\<lambda>b. BLOCKS_PER_MBLOCK * BLOCKS_TO_MBLOCKS b) (free_mblock_list s) tot;
     Some (ucast tot)
   }"

definition BF_KNOWN :: nat where "BF_KNOWN = 128"

partial_function (option) markBlocks :: "addr \<Rightarrow> bd_mem \<Rightarrow> bd_mem option" where
  "markBlocks bd mem =
     (if bd = NULL then Some mem
      else let mem = upd_bd bd (\<lambda>d. d\<lparr>bd_flags := bd_flags d OR BF_KNOWN\<rparr>) mem
           in markBlocks (bd_link (mem bd)) mem)"

text \<open>\<open>reportUnmarkedBlocks\<close>: the descriptors printed, and for each megablock where the walk goes on.\<close>

partial_function (option) report_groups ::
    "bd_mem \<Rightarrow> addr \<Rightarrow> addr \<Rightarrow> addr list \<Rightarrow> (addr \<times> addr list) option" where
  "report_groups mem mblock bd acc =
     (if bd \<le> LAST_BDESCR mblock
      then let acc = (if bd_flags (mem bd) AND BF_KNOWN = 0 \<and> bd_free (mem bd) \<noteq> FREE_MARK then acc @ [bd] else acc)
           in if bd_blocks (mem bd) \<ge> BLOCKS_PER_MBLOCK
              then Some (mblock + (BLOCKS_TO_MBLOCKS (bd_blocks (mem bd)) - 1) * MBLOCK_SIZE, acc)
              else report_groups mem mblock (bd_plus bd (bd_blocks (mem bd))) acc
      else Some (mblock, acc))"

partial_function (option) report_loop ::
    "ba_state \<Rightarrow> addr \<Rightarrow> addr list \<Rightarrow> addr list option" where
  "report_loop s mblock acc =
     (if mblock = NULL then Some acc
      else do {
        (mblock, acc) \<leftarrow> report_groups (ba_mem s) mblock (FIRST_BDESCR mblock) acc;
        report_loop s (unat (getNextMBlock (of_nat mblock) (ba_mb s))) acc
      })"

definition reportUnmarkedBlocks :: "ba_state \<Rightarrow> addr list option" where
  "reportUnmarkedBlocks s = do {
     mblock \<leftarrow> getFirstMBlock (ba_mb s);
     report_loop s (unat mblock) []
   }"

section \<open>The size classes\<close>

lemma log_2_loop_bounds:
  assumes "0 < x" "x < 2 ^ k" shows "\<exists>r < k. log_2_loop k i x = i + r \<and> 2 ^ r \<le> x \<and> x < 2 ^ (r + 1)"
  using assms
proof (induction k arbitrary: i x)
  case (Suc k)
  show ?case
  proof (cases "x div 2 = 0")
    case True
    then have "x = 1" using Suc.prems(1) by simp
    then show ?thesis by (intro exI [of _ 0]) simp
  next
    case False
    have "x div 2 < 2 ^ k" using Suc.prems(2) by (simp add: div_less_iff_less_mult mult.commute)
    then obtain r where r: "r < k" "log_2_loop k (i + 1) (x div 2) = i + 1 + r" "2 ^ r \<le> x div 2" "x div 2 < 2 ^ (r + 1)"
      using False Suc.IH [of "x div 2" "i + 1"] Suc.prems by auto
    then have "2 * 2 ^ r \<le> x" "x < 2 * 2 ^ (r + 1)" by linarith+
    then show ?thesis using r False by (intro exI [of _ "r + 1"]) simp
  qed
qed simp

lemma log_2_bounds:
  assumes "0 < n" "n < 512"
  shows "log_2 n < MAX_FREE_LIST" "2 ^ log_2 n \<le> n" "n < 2 * 2 ^ log_2 n"
  using log_2_loop_bounds [of n 9 0] assms by (auto simp: log_2_def MAX_FREE_LIST_def)

lemma log_2_ceil_loop_bounds:
  assumes "n \<le> x * 2 ^ k" "0 < x"
  shows "\<exists>r \<le> k. log_2_ceil_loop n (Suc k) i x = i + r \<and> n \<le> x * 2 ^ r \<and> (0 < r \<longrightarrow> x * 2 ^ (r - 1) < n)"
  using assms
proof (induction k arbitrary: i x)
  case 0 then show ?case by simp
next
  case (Suc k)
  show ?case
  proof (cases "n \<le> x")
    case True then show ?thesis by (intro exI [of _ 0]) simp
  next
    case False
    obtain r where r: "r \<le> k" "log_2_ceil_loop n (Suc k) (i + 1) (x * 2) = i + 1 + r"
      "n \<le> x * 2 * 2 ^ r" "0 < r \<longrightarrow> x * 2 * 2 ^ (r - 1) < n"
      using Suc.IH [of "x * 2" "i + 1"] Suc.prems by (auto simp: mult.assoc)
    have "x * 2 ^ r < n" using r(4) False by (cases r) (auto simp: mult.assoc)
    moreover have "log_2_ceil_loop n (Suc (Suc k)) i x = i + (r + 1)"
      using False r(2) by (subst log_2_ceil_loop.simps) simp
    ultimately show ?thesis using r(1,3) by (intro exI [of _ "r + 1"]) (simp add: mult.assoc)
  qed
qed

lemma log_2_ceil_bounds:
  assumes "0 < n" "n \<le> 256"
  shows "log_2_ceil n < MAX_FREE_LIST" "n \<le> 2 ^ log_2_ceil n" "0 < log_2_ceil n \<longrightarrow> 2 ^ (log_2_ceil n - 1) < n"
proof -
  have "Suc 8 = 9" by simp
  then have "\<exists>r \<le> 8. log_2_ceil n = r \<and> n \<le> 2 ^ r \<and> (0 < r \<longrightarrow> 2 ^ (r - 1) < n)"
    using log_2_ceil_loop_bounds [of n 1 8 0] assms by (auto simp: log_2_ceil_def MAX_FREE_LIST_def)
  then show "log_2_ceil n < MAX_FREE_LIST" "n \<le> 2 ^ log_2_ceil n" "0 < log_2_ceil n \<longrightarrow> 2 ^ (log_2_ceil n - 1) < n"
    by (auto simp: MAX_FREE_LIST_def)
qed

text \<open>Every group in a bucket at or above \<open>log_2_ceil n\<close> has at least \<open>n\<close> blocks.\<close>

lemma bucket_suffices:
  assumes "0 < n" "n \<le> 256" "0 < b" "b < 512" "log_2_ceil n \<le> log_2 b"
  shows "n \<le> b"
proof -
  have "n \<le> 2 ^ log_2_ceil n" by (rule log_2_ceil_bounds(2) [OF assms(1,2)])
  also have "\<dots> \<le> 2 ^ log_2 b" using assms(5) by (rule power_increasing) simp
  also have "\<dots> \<le> b" by (rule log_2_bounds(2) [OF assms(3,4)])
  finally show ?thesis .
qed

lemma find_bucket_le: "ln \<le> find_bucket fl k ln"
  by (induction fl k ln rule: find_bucket.induct) auto

lemma find_bucket_result:
  "ln \<le> MAX_FREE_LIST \<Longrightarrow> MAX_FREE_LIST - ln \<le> k \<Longrightarrow>
     find_bucket fl k ln \<le> MAX_FREE_LIST \<and>
     (find_bucket fl k ln < MAX_FREE_LIST \<longrightarrow> fl (find_bucket fl k ln) \<noteq> NULL)"
  by (induction fl k ln rule: find_bucket.induct) auto

section \<open>The list of free megablock groups\<close>

text \<open>The megablocks of a group, from the first to the end.\<close>

definition mend :: "bd_mem \<Rightarrow> addr \<Rightarrow> nat" where
  "mend mem bd = mblock_of bd + BLOCKS_TO_MBLOCKS (bd_blocks (mem bd)) * MBLOCK_SIZE"

definition mspan :: "bd_mem \<Rightarrow> addr \<Rightarrow> nat set" where
  "mspan mem bd = {mblock_of bd ..< mend mem bd}"

definition starts_ok :: "bd_mem \<Rightarrow> nat \<Rightarrow> bool" where
  "starts_ok mem m \<longleftrightarrow>
     (\<forall>i < BLOCKS_PER_MBLOCK. bd_start (mem (bd_plus (FIRST_BDESCR m) i)) = FIRST_BLOCK m + BLOCK_SIZE * i)"

text \<open>The head of a megablock group, free or not.\<close>

definition mhead :: "bd_mem \<Rightarrow> addr \<Rightarrow> bool" where
  "mhead mem bd \<longleftrightarrow> bd = FIRST_BDESCR (mblock_of bd) \<and> mblock_of bd mod MBLOCK_SIZE = 0 \<and>
     starts_ok mem (mblock_of bd) \<and>
     bd_blocks (mem bd) = MBLOCK_GROUP_BLOCKS (BLOCKS_TO_MBLOCKS (bd_blocks (mem bd)))"

definition mlist :: "bd_mem \<Rightarrow> addr \<Rightarrow> addr list \<Rightarrow> bool" where
  "mlist mem h xs \<longleftrightarrow> lst (\<lambda>p. bd_link (mem p)) h xs \<and> (\<forall>x \<in> set xs. mhead mem x) \<and>
     sorted_wrt (\<lambda>a b. mend mem a < mblock_of b) xs"

definition mcover :: "bd_mem \<Rightarrow> addr list \<Rightarrow> nat set" where
  "mcover mem xs = (\<Union>x \<in> set xs. mspan mem x)"

lemma MGB_BTM [simp]: "1 \<le> m \<Longrightarrow> BLOCKS_TO_MBLOCKS (MBLOCK_GROUP_BLOCKS m) = m"
proof -
  assume "1 \<le> m"
  then obtain k where m: "m = Suc k" by (metis Suc_le_D One_nat_def)
  have "(k * 256 * 4096 + 1048575) div 1048576 = k" by simp
  then show ?thesis unfolding m BLOCKS_TO_MBLOCKS_ceil MBLOCK_GROUP_BLOCKS_val by simp
qed

lemma FIRST_BDESCR_val: "FIRST_BDESCR m = 256 + m"
  by (simp add: FIRST_BDESCR_def FIRST_BLOCK_OFF_def)

lemma LAST_BDESCR_val: "LAST_BDESCR m = 16320 + m"
  by (simp add: LAST_BDESCR_def MBLOCK_SIZE_def BLOCK_SIZE_def)

lemma bd_plus_val: "bd_plus p n = p + 64 * n"
  by (simp add: bd_plus_def BDESCR_SIZE_def)

lemma mblock_of_le: "mblock_of p \<le> p"
  by (simp add: mblock_of_def)

lemma mblock_of_aligned [simp]: "mblock_of p mod MBLOCK_SIZE = 0"
  by (simp add: mblock_of_div)

lemma mblock_of_desc: "m mod MBLOCK_SIZE = 0 \<Longrightarrow> x < MBLOCK_SIZE \<Longrightarrow> mblock_of (x + m) = m"
  using mblock_of_split [of m x] by (simp add: add.commute)

lemma mend_gt: "mblock_of bd < mend mem bd"
  by (simp add: mend_def MBLOCK_SIZE_def)

lemma mhead_nonnull: "mhead mem bd \<Longrightarrow> bd \<noteq> NULL"
  unfolding mhead_def by (metis FIRST_BDESCR_val add_is_0 zero_neq_numeral)

lemma mhead_start: "mhead mem bd \<Longrightarrow> bd_start (mem bd) = 16384 + mblock_of bd"
proof -
  assume h: "mhead mem bd"
  then have "bd_start (mem (bd_plus (FIRST_BDESCR (mblock_of bd)) 0)) = FIRST_BLOCK (mblock_of bd)"
    by (auto simp: mhead_def starts_ok_def)
  moreover have "bd_plus (FIRST_BDESCR (mblock_of bd)) 0 = bd" using h by (simp add: mhead_def bd_plus_val)
  ultimately show ?thesis by (simp add: FIRST_BLOCK_def FIRST_BLOCK_OFF_def)
qed

lemma mhead_inj: "mhead mem a \<Longrightarrow> mhead mem' b \<Longrightarrow> mblock_of a = mblock_of b \<Longrightarrow> a = b"
  unfolding mhead_def by metis

lemma mhead_cong:
  assumes "mhead mem bd" "\<And>p. bd_start (mem' p) = bd_start (mem p)"
    "bd_blocks (mem' bd) = MBLOCK_GROUP_BLOCKS m" "1 \<le> m"
  shows "mhead mem' bd"
proof -
  have "starts_ok mem' (mblock_of bd)" using assms(1,2) by (auto simp: mhead_def starts_ok_def)
  moreover have "bd_blocks (mem' bd) = MBLOCK_GROUP_BLOCKS (BLOCKS_TO_MBLOCKS (bd_blocks (mem' bd)))"
    using assms(3,4) by simp
  ultimately show ?thesis using assms(1) unfolding mhead_def by blast
qed

lemma mhead_blocks: "mhead mem bd \<Longrightarrow> MBLOCK_GROUP_BLOCKS (BLOCKS_TO_MBLOCKS (bd_blocks (mem bd))) = bd_blocks (mem bd)"
  unfolding mhead_def by metis

lemma mhead_same:
  assumes "mhead mem bd" "\<And>p. bd_start (mem' p) = bd_start (mem p)" "bd_blocks (mem' bd) = bd_blocks (mem bd)"
  shows "mhead mem' bd"
  by (rule mhead_cong [OF assms(1,2), of "BLOCKS_TO_MBLOCKS (bd_blocks (mem bd))"])
    (use assms mhead_blocks in \<open>simp_all add: Suc_le_eq\<close>)

text \<open>Placing: the groups below and above a start address.\<close>

lemma mega_place_lst:
  assumes "lst (\<lambda>p. bd_link (mem p)) h xs"
  shows "mega_place mem st h prev =
    Some (last (prev # takeWhile (\<lambda>x. bd_start (mem x) < st) xs),
          case dropWhile (\<lambda>x. bd_start (mem x) < st) xs of [] \<Rightarrow> NULL | x # _ \<Rightarrow> x)"
  using assms
proof (induction xs arbitrary: h prev)
  case Nil then show ?case by (subst mega_place.simps) simp
next
  case (Cons x xs)
  then show ?case by (subst mega_place.simps) auto
qed

lemma sorted_mend_distinct: "sorted_wrt (\<lambda>a b. mend mem a < mblock_of b) xs \<Longrightarrow> distinct xs"
proof (induction xs)
  case (Cons x xs)
  then have "x \<notin> set xs" using mend_gt [of x mem] by force
  then show ?case using Cons by simp
qed simp

lemma mlist_distinct: "mlist mem h xs \<Longrightarrow> distinct xs"
  unfolding mlist_def using sorted_mend_distinct by blast

text \<open>Coalescing a group with its successor on the list, when they touch.\<close>

lemma lst_upd_link:
  assumes "lst nxt h (us @ p # vs)" "distinct (us @ p # vs)" "lst nxt q ws" "p \<notin> set ws"
  shows "lst (nxt(p := q)) h (us @ p # ws)"
proof -
  have "lseg nxt h us p" using assms(1) by (auto simp: lst_def lseg_append)
  then have "lseg (nxt(p := q)) h us p" using assms(2) by simp
  moreover have "lst (nxt(p := q)) q ws" using assms(3,4) by (simp add: lst_def)
  moreover have "p \<noteq> NULL" using assms(1) by (auto simp: lst_def lseg_append)
  ultimately show ?thesis by (auto simp: lst_def lseg_append)
qed

lemma lst_rest: "lst nxt h (us @ p # vs) \<Longrightarrow> lst nxt (nxt p) vs \<and> p \<noteq> NULL"
  by (auto simp: lst_def lseg_append)

lemma coalesce_touch:
  assumes l: "lst (\<lambda>p. bd_link (mem p)) h (us @ p # q # vs)" and d: "distinct (us @ p # q # vs)"
    and t: "mend mem p = mblock_of q" and c: "coalesce_mblocks p mem = (r, mem')"
  shows "r = p" "lst (\<lambda>p. bd_link (mem' p)) h (us @ p # vs)" "\<And>x. x \<noteq> p \<Longrightarrow> mem' x = mem x"
    "bd_blocks (mem' p) = MBLOCK_GROUP_BLOCKS (BLOCKS_TO_MBLOCKS (bd_blocks (mem p)) + BLOCKS_TO_MBLOCKS (bd_blocks (mem q)))"
    "bd_start (mem' x) = bd_start (mem x)" "mend mem' p = mend mem q" "bd_free (mem' x) = bd_free (mem x)"
proof -
  let ?b = "BLOCKS_TO_MBLOCKS (bd_blocks (mem p)) + BLOCKS_TO_MBLOCKS (bd_blocks (mem q))"
  have q: "bd_link (mem p) = q" "q \<noteq> NULL" using lst_rest [OF l] by auto
  then have r: "r = p" "mem' = upd_bd p (\<lambda>d. d\<lparr>bd_blocks := MBLOCK_GROUP_BLOCKS ?b, bd_link := bd_link (mem q)\<rparr>) mem"
    using c t by (auto simp: coalesce_mblocks_def mend_def)
  then show "r = p" "\<And>x. x \<noteq> p \<Longrightarrow> mem' x = mem x" by auto
  show "bd_blocks (mem' p) = MBLOCK_GROUP_BLOCKS ?b" using r by simp
  then have "BLOCKS_TO_MBLOCKS (bd_blocks (mem' p)) = ?b" using BLOCKS_TO_MBLOCKS_pos [of "bd_blocks (mem p)"] by (simp add: Suc_le_eq)
  then show "mend mem' p = mend mem q" using t by (simp add: mend_def algebra_simps)
  show "bd_start (mem' x) = bd_start (mem x)" "bd_free (mem' x) = bd_free (mem x)" using r(2) by (simp_all add: upd_bd_def)
  have "lst (\<lambda>p. bd_link (mem p)) (bd_link (mem q)) vs" 
    using lst_rest [of "\<lambda>p. bd_link (mem p)" h "us @ [p]" q vs] l by simp
  then have "lst ((\<lambda>p. bd_link (mem p))(p := bd_link (mem q))) h (us @ p # vs)"
    using lst_upd_link [OF l d] d by auto
  moreover have "(\<lambda>p. bd_link (mem p))(p := bd_link (mem q)) = (\<lambda>p. bd_link (mem' p))"
    using r(2) by (auto simp: upd_bd_def)
  ultimately show "lst (\<lambda>p. bd_link (mem' p)) h (us @ p # vs)" by simp
qed

lemma coalesce_apart:
  assumes "lst (\<lambda>p. bd_link (mem p)) h (us @ p # vs)" "vs \<noteq> [] \<longrightarrow> mend mem p \<noteq> mblock_of (hd vs)"
  shows "coalesce_mblocks p mem = (case vs of [] \<Rightarrow> NULL | q # _ \<Rightarrow> q, mem)"
  using assms lst_rest [OF assms(1)] by (cases vs) (auto simp: coalesce_mblocks_def mend_def Let_def)

text \<open>What the operations on the megablock list may change.\<close>

definition mframe :: "addr set \<Rightarrow> bd_mem \<Rightarrow> bd_mem \<Rightarrow> bool" where
  "mframe X mem mem' \<longleftrightarrow> (\<forall>p. bd_start (mem' p) = bd_start (mem p) \<and> bd_free (mem' p) = bd_free (mem p)) \<and>
     (\<forall>p. p \<notin> X \<longrightarrow> mem' p = mem p)"

lemma mframe_trans: "mframe X m m' \<Longrightarrow> mframe X m' m'' \<Longrightarrow> mframe X m m''"
  by (simp add: mframe_def)

lemma mframe_refl [simp]: "mframe X m m"
  by (simp add: mframe_def)

lemma mcover_simps [simp]:
  "mcover mem [] = {}" "mcover mem (x # xs) = mspan mem x \<union> mcover mem xs"
  "mcover mem (xs @ ys) = mcover mem xs \<union> mcover mem ys"
  by (auto simp: mcover_def)

lemma mcover_cong: "(\<And>x. x \<in> set xs \<Longrightarrow> bd_blocks (mem' x) = bd_blocks (mem x)) \<Longrightarrow> mcover mem' xs = mcover mem xs"
  by (auto simp: mcover_def mspan_def mend_def)

lemma msorted_cong:
  assumes "\<forall>x \<in> set xs. bd_blocks (mem' x) = bd_blocks (mem x)"
  shows "sorted_wrt (\<lambda>a b. mend mem' a < mblock_of b) xs \<longleftrightarrow> sorted_wrt (\<lambda>a b. mend mem a < mblock_of b) xs"
  using assms by (induction xs) (auto simp: mend_def)

lemma coalesce_last:
  assumes l: "lst (\<lambda>p. bd_link (mem p)) h (us @ p # vs)" and mh: "\<forall>x \<in> set (us @ p # vs). mhead mem x"
    and su: "sorted_wrt (\<lambda>a b. mend mem a < mblock_of b) (us @ [p])"
    and sv: "sorted_wrt (\<lambda>a b. mend mem a < mblock_of b) (us @ vs)"
    and pv: "\<forall>v \<in> set vs. mend mem p \<le> mblock_of v" and c: "coalesce_mblocks p mem = (r, mem')"
  shows "\<exists>xs'. mlist mem' h xs' \<and> mcover mem' xs' = mcover mem (us @ p # vs) \<and>
    mframe {p} mem mem' \<and> set xs' \<subseteq> set (us @ p # vs)"
proof -
  have pn: "p \<notin> set us" using sorted_mend_distinct [OF su] by simp
  have pvn: "p \<notin> set vs" using pv mend_gt [of p mem] by force
  have d: "distinct (us @ p # vs)" using sorted_mend_distinct [OF sv] pn pvn by simp
  show ?thesis
  proof (cases "vs \<noteq> [] \<and> mend mem p = mblock_of (hd vs)")
    case True
    then obtain q ws where vs: "vs = q # ws" and t: "mend mem p = mblock_of q" by (cases vs) auto
    note ct = coalesce_touch [OF l [unfolded vs] d [unfolded vs] t c]
    have qw: "\<forall>w \<in> set ws. mend mem q < mblock_of w" using sv vs by (simp add: sorted_wrt_append)
    have e: "mend mem' x = mend mem x" if "x \<noteq> p" for x using ct(3) [OF that] by (simp add: mend_def)
    have "mhead mem' x" if "x \<in> set (us @ p # ws)" for x
    proof (cases "x = p")
      case True
      have "mhead mem p" using mh by simp
      then have "mhead mem' p" using ct(4,5) mhead_cong [of mem p mem'] by (simp add: Suc_le_eq)
      then show ?thesis using True by simp
    next
      case False
      then have "mhead mem x" using mh that vs by auto
      then show ?thesis by (rule mhead_same) (use ct(3) [OF False] ct(5) in simp_all)
    qed
    moreover have "sorted_wrt (\<lambda>a b. mend mem' a < mblock_of b) (us @ p # ws)"
    proof -
      have "sorted_wrt (\<lambda>a b. mend mem' a < mblock_of b) (us @ ws)"
      proof (subst msorted_cong)
        show "\<forall>x \<in> set (us @ ws). bd_blocks (mem' x) = bd_blocks (mem x)" using ct(3) pn pvn vs by (metis Un_iff list.set_intros(2) set_append)
      qed (use sv vs in \<open>simp add: sorted_wrt_append\<close>)
      moreover have "\<forall>u \<in> set us. mend mem' u < mblock_of p" 
      proof
        fix u assume "u \<in> set us"
        then have "mend mem u < mblock_of p" "u \<noteq> p" using su pn by (auto simp: sorted_wrt_append)
        then show "mend mem' u < mblock_of p" using e by simp
      qed
      moreover have "\<forall>w \<in> set ws. mend mem' p < mblock_of w" using qw ct(6) by simp
      ultimately show ?thesis by (auto simp: sorted_wrt_append)
    qed
    ultimately have "mlist mem' h (us @ p # ws)" using ct(2) by (simp add: mlist_def)
    moreover have "mcover mem' (us @ p # ws) = mcover mem (us @ p # vs)"
    proof -
      have "mcover mem' us = mcover mem us" "mcover mem' ws = mcover mem ws"
        using pn pvn vs by (auto intro!: mcover_cong arg_cong [of _ _ bd_blocks] ct(3))
      moreover have "mspan mem' p = mspan mem p \<union> mspan mem q"
        using ct(6) t mend_gt [of p mem] mend_gt [of q mem] by (auto simp: mspan_def)
      ultimately show ?thesis using vs by auto
    qed
    moreover have "mframe {p} mem mem'" using ct(3,5,7) by (simp add: mframe_def)
    ultimately show ?thesis using vs by (intro exI [of _ "us @ p # ws"]) auto
  next
    case False
    then have "mem' = mem" using coalesce_apart [OF l] c by auto
    moreover have "\<forall>v \<in> set vs. mend mem p < mblock_of v"
    proof
      fix v assume v: "v \<in> set vs"
      then obtain q ws where vs: "vs = q # ws" by (cases vs) auto
      have "mend mem p < mblock_of q" using False pv vs by force
      moreover have "mblock_of q \<le> mblock_of v"
        using v vs sv mend_gt [of q mem] by (force simp: sorted_wrt_append)
      ultimately show "mend mem p < mblock_of v" by linarith
    qed
    then have "sorted_wrt (\<lambda>a b. mend mem a < mblock_of b) (us @ p # vs)"
      using su sv by (auto simp: sorted_wrt_append)
    ultimately show ?thesis using l mh by (intro exI [of _ "us @ p # vs"]) (simp add: mlist_def)
  qed
qed

lemma spans_disjoint:
  assumes "mspan mem a \<inter> mspan mem b = {}"
  shows "mend mem a \<le> mblock_of b \<or> mend mem b \<le> mblock_of a"
proof (rule ccontr)
  assume "\<not> ?thesis"
  then have "max (mblock_of a) (mblock_of b) \<in> mspan mem a \<inter> mspan mem b"
    using mend_gt [of a mem] mend_gt [of b mem] by (auto simp: mspan_def)
  then show False using assms by blast
qed

text \<open>The list splits at a group whose megablocks are not on it.\<close>

lemma mlist_split:
  assumes l: "mlist mem h xs" and mg: "mhead mem mg" "mspan mem mg \<inter> mcover mem xs = {}"
  obtains us vs where "xs = us @ vs" "us = takeWhile (\<lambda>x. bd_start (mem x) < bd_start (mem mg)) xs"
    "vs = dropWhile (\<lambda>x. bd_start (mem x) < bd_start (mem mg)) xs"
    "\<forall>u \<in> set us. mend mem u \<le> mblock_of mg" "\<forall>v \<in> set vs. mend mem mg \<le> mblock_of v"
proof -
  let ?P = "\<lambda>x. bd_start (mem x) < bd_start (mem mg)"
  have st: "?P x \<longleftrightarrow> mblock_of x < mblock_of mg" if "x \<in> set xs" for x
    using l mhead_start [of mem x] mhead_start [OF mg(1)] that by (auto simp: mlist_def)
  have dis: "mend mem mg \<le> mblock_of x \<or> mend mem x \<le> mblock_of mg" if "x \<in> set xs" for x
    by (rule spans_disjoint) (use mg(2) that in \<open>auto simp: mcover_def\<close>)
  have "mend mem u \<le> mblock_of mg" if "u \<in> set (takeWhile ?P xs)" for u
    using set_takeWhileD [OF that] st [of u] dis [of u] mend_gt [of mg mem] by linarith
  moreover have "mend mem mg \<le> mblock_of v" if v: "v \<in> set (dropWhile ?P xs)" for v
  proof -
    obtain w ws where w: "dropWhile ?P xs = w # ws" using v by (cases "dropWhile ?P xs") auto
    have wx: "w \<in> set xs" using w by (metis list.set_intros(1) set_dropWhileD)
    have "\<not> ?P w" using w by (metis hd_dropWhile list.distinct(1) list.sel(1))
    then have wm: "mend mem mg \<le> mblock_of w" using st [OF wx] dis [OF wx] mend_gt [of w mem] by linarith
    have "sorted_wrt (\<lambda>a b. mend mem a < mblock_of b) (takeWhile ?P xs @ dropWhile ?P xs)"
      using l by (simp add: mlist_def)
    then have "v = w \<or> mend mem w < mblock_of v" using v w by (auto simp: sorted_wrt_append)
    then show ?thesis using wm mend_gt [of w mem] by auto
  qed
  ultimately show ?thesis using that [of "takeWhile ?P xs" "dropWhile ?P xs"] by simp
qed

lemma lst_insert:
  assumes "lst nxt h (us @ vs)" "mg \<noteq> NULL" "mg \<notin> set (us @ vs)" "us = us' @ [u]" "distinct (us @ vs)"
  shows "lst (nxt(mg := nxt u, u := mg)) h (us @ mg # vs)"
proof -
  have l: "lst nxt h (us' @ u # vs)" using assms(1,4) by simp
  have v: "lst nxt (nxt u) vs" using lst_rest [OF l] by simp
  have "lst (nxt(mg := nxt u)) h (us' @ u # vs)" 
    using l assms(3,4) unfolding lst_def by (subst lseg_upd_other) auto
  moreover have "lst (nxt(mg := nxt u)) mg (mg # vs)"
    using v assms(2,3) unfolding lst_Cons by (auto simp: lst_def)
  ultimately show ?thesis
    using lst_upd_link [of "nxt(mg := nxt u)" h us' u vs mg "mg # vs"] assms(3,4,5) by auto
qed

lemma links_only:
  assumes "\<And>q. same_but_links (mem q) (mem' q)"
  shows "mend mem' = mend mem" "mspan mem' = mspan mem" "mcover mem' = mcover mem" "mhead mem' x \<longleftrightarrow> mhead mem x"
    "bd_start (mem' x) = bd_start (mem x)" "bd_free (mem' x) = bd_free (mem x)"
proof -
  note e = same_but_linksD [OF assms]
  show a: "mend mem' = mend mem" using e(3) by (simp add: mend_def fun_eq_iff)
  show b: "mspan mem' = mspan mem" using a by (simp add: mspan_def fun_eq_iff)
  show "mcover mem' = mcover mem" using b by (simp add: mcover_def fun_eq_iff)
  show "mhead mem' x \<longleftrightarrow> mhead mem x" unfolding mhead_def starts_ok_def e ..
  show "bd_start (mem' x) = bd_start (mem x)" "bd_free (mem' x) = bd_free (mem x)" by (rule e)+
qed

text \<open>Inserting before all groups, and after the last group below.\<close>

lemma insert_front:
  assumes l: "lst (\<lambda>p. bd_link (mem p)) h vs" and hx: "\<forall>x \<in> set vs. mhead mem x"
    and sx: "sorted_wrt (\<lambda>a b. mend mem a < mblock_of b) vs" and mg: "mhead mem mg" "mg \<notin> set vs"
    and mv: "\<forall>v \<in> set vs. mend mem mg \<le> mblock_of v"
    and c: "coalesce_mblocks mg (upd_bd mg (\<lambda>d. d\<lparr>bd_link := h\<rparr>) mem) = (r, mem')"
  shows "\<exists>xs'. mlist mem' mg xs' \<and> mcover mem' xs' = mcover mem (mg # vs) \<and>
    mframe {mg} mem mem' \<and> set xs' \<subseteq> set (mg # vs)"
proof -
  let ?m1 = "upd_bd mg (\<lambda>d. d\<lparr>bd_link := h\<rparr>) mem"
  have s: "\<And>q. same_but_links (mem q) (?m1 q)" by simp
  note lo = links_only [OF s]
  have "lst (\<lambda>p. bd_link (?m1 p)) h vs" using l mg(2) unfolding lst_def by (subst lseg_cong [where nxt' = "\<lambda>p. bd_link (mem p)"]) (auto simp: upd_bd_def)
  then have "lst (\<lambda>p. bd_link (?m1 p)) mg ([] @ mg # vs)" using mhead_nonnull [OF mg(1)] by simp
  then obtain xs' where "mlist mem' mg xs'" "mcover mem' xs' = mcover ?m1 ([] @ mg # vs)"
    "mframe {mg} ?m1 mem'" "set xs' \<subseteq> set ([] @ mg # vs)"
    using coalesce_last [of ?m1 mg "[]" mg vs r mem'] c hx sx mg(1) mv lo by auto
  moreover have "mframe {mg} mem ?m1" by (simp add: mframe_def upd_bd_def)
  ultimately show ?thesis using lo(2,3) mframe_trans by fastforce
qed

lemma insert_after_prev:
  assumes l: "lst (\<lambda>p. bd_link (mem p)) h ((us @ [u]) @ vs)" and hx: "\<forall>x \<in> set ((us @ [u]) @ vs). mhead mem x"
    and sx: "sorted_wrt (\<lambda>a b. mend mem a < mblock_of b) ((us @ [u]) @ vs)"
    and mg: "mhead mem mg" "mg \<notin> set ((us @ [u]) @ vs)"
    and um: "\<forall>u \<in> set (us @ [u]). mend mem u \<le> mblock_of mg" and mv: "\<forall>v \<in> set vs. mend mem mg \<le> mblock_of v"
    and c: "coalesce_mblocks u (upd_bd u (\<lambda>d. d\<lparr>bd_link := mg\<rparr>)
              (upd_bd mg (\<lambda>d. d\<lparr>bd_link := bd_link (mem u)\<rparr>) mem)) = (r, mem1)"
    and c': "coalesce_mblocks r mem1 = (r', mem')"
  shows "\<exists>xs'. mlist mem' h xs' \<and> mcover mem' xs' = mcover mem (us @ u # mg # vs) \<and>
    mframe {mg, u} mem mem' \<and> set xs' \<subseteq> set (us @ u # mg # vs)"
proof -
  let ?m0 = "upd_bd u (\<lambda>d. d\<lparr>bd_link := mg\<rparr>) (upd_bd mg (\<lambda>d. d\<lparr>bd_link := bd_link (mem u)\<rparr>) mem)"
  have s: "\<And>q. same_but_links (mem q) (?m0 q)" by (metis same_but_links_trans same_but_links_upd(1))
  note lo = links_only [OF s]
  have d: "distinct ((us @ [u]) @ vs)" by (rule sorted_mend_distinct [OF sx])
  have dm: "distinct (us @ u # mg # vs)" using d mg(2) by auto
  have f: "(\<lambda>p. bd_link (?m0 p)) = (\<lambda>p. bd_link (mem p))(mg := bd_link (mem u), u := mg)"
    using mg(2) by (auto simp: upd_bd_def fun_eq_iff)
  have l0: "lst (\<lambda>p. bd_link (?m0 p)) h (us @ u # mg # vs)"
    using lst_insert [OF l mhead_nonnull [OF mg(1)] mg(2) refl d] unfolding f by simp
  have fr0: "mframe {mg, u} mem ?m0" by (simp add: mframe_def upd_bd_def)
  have so: "sorted_wrt (\<lambda>a b. mend mem a < mblock_of b) (us @ [u])" "\<forall>w \<in> set us. mend mem w < mblock_of u"
    "sorted_wrt (\<lambda>a b. mend mem a < mblock_of b) vs" "\<forall>w \<in> set us. \<forall>v \<in> set vs. mend mem w < mblock_of v"
    "\<forall>v \<in> set vs. mend mem u < mblock_of v"
    using sx by (auto simp: sorted_wrt_append)
  have wm: "\<forall>w \<in> set us. mend mem w < mblock_of mg"
    using so(2) um mend_gt [of u mem] by (auto intro: less_le_trans less_trans)
  show ?thesis
  proof (cases "mend mem u = mblock_of mg")
    case True
    note ct = coalesce_touch [OF l0 dm _ c, unfolded lo(1), OF True]
    have b1: "bd_blocks (mem1 x) = bd_blocks (mem x)" if "x \<noteq> u" for x
      using ct(3) [OF that] same_but_linksD(3) [OF s, of x] by metis
    have m1: "mend mem1 x = (if x = u then mend mem mg else mend mem x)" for x
      using ct(6) b1 [of x] by (simp add: mend_def)
    have h1: "\<forall>x \<in> set (us @ u # vs). mhead mem1 x"
    proof
      fix x assume x: "x \<in> set (us @ u # vs)"
      then have hx0: "mhead ?m0 x" using hx lo(4) by auto
      show "mhead mem1 x"
      proof (cases "x = u")
        case True
        then show ?thesis using mhead_cong [OF hx0 ct(5)] ct(4) by (simp add: Suc_le_eq)
      next
        case False
        then show ?thesis using mhead_same [OF hx0 ct(5)] ct(3) by simp
      qed
    qed
    have un: "u \<notin> set us" "u \<notin> set vs" using d by auto
    have bu: "\<forall>x \<in> set us. bd_blocks (mem1 x) = bd_blocks (mem x)" "\<forall>x \<in> set vs. bd_blocks (mem1 x) = bd_blocks (mem x)"
      using b1 un by metis+
    have s1: "sorted_wrt (\<lambda>a b. mend mem1 a < mblock_of b) us" "sorted_wrt (\<lambda>a b. mend mem1 a < mblock_of b) vs"
      using so msorted_cong [OF bu(1)] msorted_cong [OF bu(2)] by (auto simp: sorted_wrt_append)
    have e1: "mend mem1 w = mend mem w" if "w \<in> set us" for w using that un m1 by auto
    have "\<exists>xs'. mlist mem' h xs' \<and> mcover mem' xs' = mcover mem1 (us @ u # vs) \<and>
        mframe {u} mem1 mem' \<and> set xs' \<subseteq> set (us @ u # vs)"
    proof (rule coalesce_last [OF ct(2) h1])
      show "sorted_wrt (\<lambda>a b. mend mem1 a < mblock_of b) (us @ [u])"
        using s1(1) so(2) e1 by (simp add: sorted_wrt_append)
      show "sorted_wrt (\<lambda>a b. mend mem1 a < mblock_of b) (us @ vs)"
        using s1 so(4) e1 by (simp add: sorted_wrt_append)
      show "\<forall>v \<in> set vs. mend mem1 u \<le> mblock_of v" using mv m1 by simp
      show "coalesce_mblocks u mem1 = (r', mem')" using c' ct(1) by simp
    qed
    then obtain xs' where x: "mlist mem' h xs'" "mcover mem' xs' = mcover mem1 (us @ u # vs)"
        "mframe {u} mem1 mem'" "set xs' \<subseteq> set (us @ u # vs)" by blast
    have "mcover mem1 us = mcover mem us" "mcover mem1 vs = mcover mem vs" using bu by (auto intro!: mcover_cong)
    moreover have "mspan mem1 u = mspan mem u \<union> mspan mem mg"
      using True m1 [of u] mend_gt [of u mem] mend_gt [of mg mem] by (auto simp: mspan_def)
    ultimately have "mcover mem1 (us @ u # vs) = mcover mem (us @ u # mg # vs)" by auto
    moreover have "mframe {mg, u} mem mem'"
    proof -
      have "mframe {mg, u} ?m0 mem1" using ct(3,5,7) by (simp add: mframe_def)
      moreover have "mframe {mg, u} mem1 mem'" using x(3) by (simp add: mframe_def)
      ultimately show ?thesis using fr0 mframe_trans by blast
    qed
    ultimately show ?thesis using x by (intro exI [of _ xs']) auto
  next
    case False
    have ap: "(r, mem1) = (mg, ?m0)"
      using coalesce_apart [OF l0] False lo(1) c by simp
    have "\<exists>xs'. mlist mem' h xs' \<and> mcover mem' xs' = mcover ?m0 ((us @ [u]) @ mg # vs) \<and>
        mframe {mg} ?m0 mem' \<and> set xs' \<subseteq> set ((us @ [u]) @ mg # vs)"
    proof (rule coalesce_last)
      show "lst (\<lambda>p. bd_link (?m0 p)) h ((us @ [u]) @ mg # vs)" using l0 by simp
      show "\<forall>x \<in> set ((us @ [u]) @ mg # vs). mhead ?m0 x" using hx mg(1) lo(4) by auto
      have "mend mem u < mblock_of mg" using False um by auto
      then show "sorted_wrt (\<lambda>a b. mend ?m0 a < mblock_of b) ((us @ [u]) @ [mg])"
        unfolding lo(1) using so(1) wm by (auto simp: sorted_wrt_append)
      show "sorted_wrt (\<lambda>a b. mend ?m0 a < mblock_of b) ((us @ [u]) @ vs)" unfolding lo(1) by (rule sx)
      show "\<forall>v \<in> set vs. mend ?m0 mg \<le> mblock_of v" unfolding lo(1) by (rule mv)
      show "coalesce_mblocks mg ?m0 = (r', mem')" using c' ap by simp
    qed
    then obtain xs' where x: "mlist mem' h xs'" "mcover mem' xs' = mcover mem (us @ u # mg # vs)"
        "mframe {mg} ?m0 mem'" "set xs' \<subseteq> set (us @ u # mg # vs)" unfolding lo(3) by auto
    have "mframe {mg, u} ?m0 mem'" using x(3) by (simp add: mframe_def)
    then show ?thesis using x fr0 mframe_trans by blast
  qed
qed

text \<open>The state outside the descriptors and the megablock list.\<close>

definition same_rest :: "ba_state \<Rightarrow> ba_state \<Rightarrow> bool" where
  "same_rest s s' \<longleftrightarrow> free_list s' = free_list s \<and> n_alloc_blocks s' = n_alloc_blocks s \<and>
     hw_alloc_blocks s' = hw_alloc_blocks s \<and> ba_mb s' = ba_mb s"

lemma free_mega_group_list:
  assumes l: "mlist (ba_mem s) (free_mblock_list s) xs"
    and mg: "mhead (ba_mem s) mg" "mspan (ba_mem s) mg \<inter> mcover (ba_mem s) xs = {}"
  shows "\<exists>s' xs'. free_mega_group mg s = Some s' \<and> mlist (ba_mem s') (free_mblock_list s') xs' \<and>
    mcover (ba_mem s') xs' = mcover (ba_mem s) xs \<union> mspan (ba_mem s) mg \<and>
    mframe (insert mg (set xs)) (ba_mem s) (ba_mem s') \<and> set xs' \<subseteq> insert mg (set xs) \<and>
    same_rest s s'"
proof -
  let ?mem = "ba_mem s"
  obtain us vs where sp: "xs = us @ vs" "us = takeWhile (\<lambda>x. bd_start (?mem x) < bd_start (?mem mg)) xs"
    "vs = dropWhile (\<lambda>x. bd_start (?mem x) < bd_start (?mem mg)) xs"
    and um: "\<forall>u \<in> set us. mend ?mem u \<le> mblock_of mg" and mv: "\<forall>v \<in> set vs. mend ?mem mg \<le> mblock_of v"
    by (rule mlist_split [OF l mg]) blast
  have mgx: "mg \<notin> set (us @ vs)" using mg(2) mend_gt [of mg ?mem] sp(1) by (force simp: mcover_def mspan_def)
  have lx: "lst (\<lambda>p. bd_link (?mem p)) (free_mblock_list s) (us @ vs)"
    and hx: "\<forall>x \<in> set (us @ vs). mhead ?mem x"
    and sx: "sorted_wrt (\<lambda>a b. mend ?mem a < mblock_of b) (us @ vs)"
    using l sp(1) by (auto simp: mlist_def)
  have pl: "mega_place ?mem (bd_start (?mem mg)) (free_mblock_list s) NULL = Some (last (NULL # us), case vs of [] \<Rightarrow> NULL | x # _ \<Rightarrow> x)"
    unfolding sp(2,3) by (rule mega_place_lst) (use lx sp(1) in simp)
  show ?thesis
  proof (cases us rule: rev_cases)
    case Nil
    obtain r mem' where c: "coalesce_mblocks mg (upd_bd mg (\<lambda>d. d\<lparr>bd_link := free_mblock_list s\<rparr>) ?mem) = (r, mem')"
      by fastforce
    have fm: "free_mega_group mg s = Some (s\<lparr>ba_mem := mem', free_mblock_list := mg\<rparr>)"
      using pl Nil c by (simp add: free_mega_group_def set_bd_def Let_def)
    obtain xs' where "mlist mem' mg xs'" "mcover mem' xs' = mcover ?mem (mg # vs)"
      "mframe {mg} ?mem mem'" "set xs' \<subseteq> set (mg # vs)"
      using insert_front [OF _ _ _ mg(1) _ mv c] lx hx sx mgx Nil by auto
    then show ?thesis using fm sp(1) Nil
      by (intro exI [of _ "s\<lparr>ba_mem := mem', free_mblock_list := mg\<rparr>"] exI [of _ xs']) (auto simp: mframe_def same_rest_def)
  next
    case (snoc ws u)
    have un: "u \<noteq> NULL" using hx snoc mhead_nonnull by auto
    have um': "u \<noteq> mg" using mgx snoc by auto
    obtain r mem1 where c: "coalesce_mblocks u (upd_bd u (\<lambda>d. d\<lparr>bd_link := mg\<rparr>)
              (upd_bd mg (\<lambda>d. d\<lparr>bd_link := bd_link (?mem u)\<rparr>) ?mem)) = (r, mem1)" by fastforce
    obtain r' mem' where c': "coalesce_mblocks r mem1 = (r', mem')" by fastforce
    have fm: "free_mega_group mg s = Some (s\<lparr>ba_mem := mem'\<rparr>)"
      using pl snoc un c c' by (simp add: free_mega_group_def set_bd_def Let_def)
    obtain xs' where "mlist mem' (free_mblock_list s) xs'" "mcover mem' xs' = mcover ?mem (ws @ u # mg # vs)"
      "mframe {mg, u} ?mem mem'" "set xs' \<subseteq> set (ws @ u # mg # vs)"
      using insert_after_prev [OF _ _ _ mg(1) _ _ mv c c', of "free_mblock_list s" ws] lx hx sx mgx um snoc by auto
    then show ?thesis using fm sp(1) snoc
      by (intro exI [of _ "s\<lparr>ba_mem := mem'\<rparr>"] exI [of _ xs']) (auto simp: mframe_def same_rest_def)
  qed
qed

lemma free_mega_groupE:
  assumes "mlist (ba_mem s) (free_mblock_list s) xs" "mhead (ba_mem s) mg" "mspan (ba_mem s) mg \<inter> mcover (ba_mem s) xs = {}"
  obtains s' xs' where "free_mega_group mg s = Some s'" "mlist (ba_mem s') (free_mblock_list s') xs'"
    "mcover (ba_mem s') xs' = mcover (ba_mem s) xs \<union> mspan (ba_mem s) mg"
    "mframe (insert mg (set xs)) (ba_mem s) (ba_mem s')" "set xs' \<subseteq> insert mg (set xs)" "same_rest s s'"
  using free_mega_group_list [OF assms] by (elim exE conjE) (rule that)

end
