(* ===== verification/BlockTiling.thy ===== *)
theory BlockTiling
  imports BlockAlloc
begin

text \<open>
  How block groups tile the descriptors of the megablocks that are cut into groups smaller than a
  megablock.  A group is its first descriptor and its number of blocks; \<open>tiling\<close> says that the
  groups are non-empty, stay in their megablock, do not overlap, and leave no block out.  This is
  what makes the allocator's coalescing right: the descriptor after a group is the head of a group,
  and the descriptor before a group is the last one of a group.
\<close>

section \<open>Cells and megablocks\<close>

definition cells :: "addr \<Rightarrow> nat \<Rightarrow> addr set" where
  "cells h n = (\<lambda>j. h + 64 * j) ` {..< n}"

definition descs :: "nat \<Rightarrow> addr set" where
  "descs m = cells (FIRST_BDESCR m) BLOCKS_PER_MBLOCK"

definition tiling :: "(addr \<Rightarrow> nat) \<Rightarrow> nat set \<Rightarrow> addr set \<Rightarrow> bool" where
  "tiling sz SM H \<longleftrightarrow>
     (\<forall>m \<in> SM. m mod MBLOCK_SIZE = 0) \<and>
     (\<forall>h \<in> H. 0 < sz h \<and> cells h (sz h) \<subseteq> descs (mblock_of h)) \<and>
     (\<forall>h \<in> H. \<forall>g \<in> H. h \<noteq> g \<longrightarrow> cells h (sz h) \<inter> cells g (sz g) = {}) \<and>
     (\<Union>h \<in> H. cells h (sz h)) = (\<Union>m \<in> SM. descs m)"

lemma cells_mem: "x \<in> cells h n \<longleftrightarrow> (\<exists>j < n. x = h + 64 * j)"
  by (auto simp: cells_def)

lemma cells_head [simp]: "h \<in> cells h n \<longleftrightarrow> 0 < n"
  by (auto simp: cells_mem)

lemma cells_0 [simp]: "cells h 0 = {}"
  by (simp add: cells_def)

lemma cells_add: "cells h (a + b) = cells h a \<union> cells (h + 64 * a) b"
proof (intro set_eqI iffI)
  fix x assume "x \<in> cells h (a + b)"
  then obtain j where j: "j < a + b" "x = h + 64 * j" by (auto simp: cells_mem)
  show "x \<in> cells h a \<union> cells (h + 64 * a) b"
  proof (cases "j < a")
    case False
    then have "j - a < b" "x = h + 64 * a + 64 * (j - a)" using j by auto
    then show ?thesis by (auto simp: cells_mem)
  qed (use j in \<open>auto simp: cells_mem\<close>)
next
  fix x assume "x \<in> cells h a \<union> cells (h + 64 * a) b"
  then show "x \<in> cells h (a + b)"
  proof
    assume "x \<in> cells (h + 64 * a) b"
    then obtain j where "j < b" "x = h + 64 * (a + j)" by (auto simp: cells_mem algebra_simps)
    then show ?thesis unfolding cells_mem by (metis add_less_cancel_left)
  qed (auto simp: cells_mem)
qed

lemma cells_add_disjoint: "cells h a \<inter> cells (h + 64 * a) b = {}"
  by (auto simp: cells_mem)

lemma cells_last: "x \<in> cells h n \<Longrightarrow> h \<le> x \<and> x + 64 \<le> h + 64 * n"
  by (auto simp: cells_mem)

lemma cells_prev: "x \<in> cells h n \<Longrightarrow> x \<noteq> h \<Longrightarrow> x - 64 \<in> cells h n \<and> 64 \<le> x"
proof -
  assume "x \<in> cells h n" "x \<noteq> h"
  then obtain j where j: "j < n" "x = h + 64 * j" "j \<noteq> 0" by (auto simp: cells_mem)
  then have "x - 64 = h + 64 * (j - 1)" "j - 1 < n" by auto
  then show ?thesis using j by (auto simp: cells_mem)
qed

lemma cells_next: "x \<in> cells h n \<Longrightarrow> x + 64 \<in> cells h n \<or> x + 64 = h + 64 * n"
proof -
  assume "x \<in> cells h n"
  then obtain j where j: "j < n" "x = h + 64 * j" by (auto simp: cells_mem)
  then have "x + 64 = h + 64 * Suc j" by simp
  then show ?thesis using j(1) by (cases "Suc j = n") (auto simp: cells_mem intro!: exI [of _ "Suc j"])
qed

lemma descs_mem: "x \<in> descs m \<longleftrightarrow> (\<exists>j < 252. x = 256 + m + 64 * j)"
  by (simp add: descs_def cells_mem FIRST_BDESCR_val)

lemma descs_mblock: "x \<in> descs m \<Longrightarrow> m mod MBLOCK_SIZE = 0 \<Longrightarrow> mblock_of x = m"
proof -
  assume "x \<in> descs m" and m: "m mod MBLOCK_SIZE = 0"
  then obtain j where j: "j < 252" "x = 256 + 64 * j + m" by (auto simp: descs_mem)
  then show "mblock_of x = m" using mblock_of_desc [OF m, of "256 + 64 * j"] by (simp add: MBLOCK_SIZE_def)
qed

lemma descs_bounds: "x \<in> descs m \<Longrightarrow> FIRST_BDESCR m \<le> x \<and> x \<le> LAST_BDESCR m"
  by (auto simp: descs_mem FIRST_BDESCR_val LAST_BDESCR_val)

lemma descs_next: "x \<in> descs m \<Longrightarrow> x + 64 \<le> LAST_BDESCR m \<Longrightarrow> x + 64 \<in> descs m"
proof -
  assume "x \<in> descs m" "x + 64 \<le> LAST_BDESCR m"
  then obtain j where j: "j < 252" "x = 256 + m + 64 * j" "x + 64 \<le> 16320 + m" by (auto simp: descs_mem LAST_BDESCR_val)
  then have "x + 64 = 256 + m + 64 * Suc j" "Suc j < 252" by auto
  then show ?thesis unfolding descs_mem by blast
qed

lemma descs_prev: "x \<in> descs m \<Longrightarrow> x \<noteq> FIRST_BDESCR m \<Longrightarrow> x - 64 \<in> descs m"
  unfolding descs_def by (rule conjunct1 [OF cells_prev])

section \<open>Neighbours\<close>

lemma tilingD:
  assumes "tiling sz SM H" "h \<in> H"
  shows "0 < sz h" "cells h (sz h) \<subseteq> descs (mblock_of h)" "h \<in> descs (mblock_of h)" "mblock_of h \<in> SM"
proof -
  show s: "0 < sz h" and c: "cells h (sz h) \<subseteq> descs (mblock_of h)" using assms by (auto simp: tiling_def)
  have hc: "h \<in> cells h (sz h)" using s by simp
  then show "h \<in> descs (mblock_of h)" using c by blast
  obtain m where m: "m \<in> SM" "h \<in> descs m" using hc assms unfolding tiling_def by blast
  then have "mblock_of h = m" using assms(1) descs_mblock by (auto simp: tiling_def)
  then show "mblock_of h \<in> SM" using m by simp
qed

lemma tiling_unique:
  "tiling sz SM H \<Longrightarrow> h \<in> H \<Longrightarrow> g \<in> H \<Longrightarrow> x \<in> cells h (sz h) \<Longrightarrow> x \<in> cells g (sz g) \<Longrightarrow> h = g"
  unfolding tiling_def by blast

lemma tiling_cover:
  assumes "tiling sz SM H" "m \<in> SM" "x \<in> descs m"
  obtains g where "g \<in> H" "x \<in> cells g (sz g)" "mblock_of g = m"
proof -
  obtain g where g: "g \<in> H" "x \<in> cells g (sz g)" using assms unfolding tiling_def by blast
  then have "x \<in> descs (mblock_of g)" using tilingD(2) [OF assms(1) g(1)] by blast
  then have "mblock_of x = mblock_of g" by (rule descs_mblock) simp
  moreover have "mblock_of x = m" using assms descs_mblock by (auto simp: tiling_def)
  ultimately show ?thesis using g that by metis
qed

lemma tiling_next:
  assumes t: "tiling sz SM H" and p: "p \<in> H" and n: "p + 64 * sz p \<le> LAST_BDESCR (mblock_of p)"
  shows "p + 64 * sz p \<in> H" "mblock_of (p + 64 * sz p) = mblock_of p"
proof -
  let ?n = "p + 64 * sz p"
  note d = tilingD [OF t p]
  have last: "?n - 64 \<in> cells p (sz p)" using d(1) by (auto simp: cells_mem intro!: exI [of _ "sz p - 1"])
  then have "?n - 64 \<in> descs (mblock_of p)" using d(2) by blast
  then have nd: "?n \<in> descs (mblock_of p)" using descs_next n d(1) by fastforce
  then show "mblock_of ?n = mblock_of p" by (rule descs_mblock) simp
  obtain g where g: "g \<in> H" "?n \<in> cells g (sz g)" using tiling_cover [OF t d(4) nd] by metis
  have "?n = g"
  proof (rule ccontr)
    assume "?n \<noteq> g"
    then have "?n - 64 \<in> cells g (sz g)" using cells_prev [OF g(2)] by simp
    then have "g = p" using tiling_unique [OF t g(1) p] last by blast
    then show False using g(2) cells_last by fastforce
  qed
  then show "?n \<in> H" using g(1) by simp
qed

lemma tiling_prev:
  assumes t: "tiling sz SM H" and p: "p \<in> H" and n: "p \<noteq> FIRST_BDESCR (mblock_of p)"
  obtains g where "g \<in> H" "g \<noteq> p" "g + 64 * sz g = p" "mblock_of g = mblock_of p"
    "p - 64 \<in> cells g (sz g)"
proof -
  note d = tilingD [OF t p]
  have pd: "p - 64 \<in> descs (mblock_of p)" by (rule descs_prev [OF d(3) n])
  then obtain g where g: "g \<in> H" "p - 64 \<in> cells g (sz g)" "mblock_of g = mblock_of p"
    using tiling_cover [OF t d(4)] by metis
  have p64: "64 \<le> p" using descs_bounds [OF d(3)] by (simp add: FIRST_BDESCR_val)
  have ne: "g \<noteq> p" using g(2) cells_last p64 by fastforce
  have "p \<notin> cells g (sz g)" using tiling_unique [OF t g(1) p, of p] d(1) ne by auto
  then have "g + 64 * sz g = p" using cells_next [OF g(2)] p64 by simp
  then show ?thesis using g ne that by blast
qed

section \<open>Cutting and joining\<close>

lemma tiling_cong: "(\<And>h. h \<in> H \<Longrightarrow> sz' h = sz h) \<Longrightarrow> tiling sz' SM H \<longleftrightarrow> tiling sz SM H"
  unfolding tiling_def by (simp cong: ball_cong SUP_cong)

lemma tiling_merge:
  assumes t: "tiling sz SM H" and p: "p \<in> H" and q: "q \<in> H" "q = p + 64 * sz p" "mblock_of q = mblock_of p"
  shows "tiling (sz(p := sz p + sz q)) SM (H - {q})"
proof -
  let ?sz = "sz(p := sz p + sz q)"
  have ne: "q \<noteq> p" using q(2) tilingD(1) [OF t p] by simp
  have c: "cells p (?sz p) = cells p (sz p) \<union> cells q (sz q)" using cells_add q(2) by simp
  have o: "cells h (?sz h) = cells h (sz h)" if "h \<noteq> p" for h using that by simp
  have un: "(\<Union>h \<in> H - {q}. cells h (?sz h)) = (\<Union>h \<in> H. cells h (sz h))"
  proof -
    have "(\<Union>h \<in> H - {q}. cells h (?sz h)) = cells p (?sz p) \<union> (\<Union>h \<in> H - {q} - {p}. cells h (sz h))"
      using p ne by (auto split: if_splits)
    also have "\<dots> = (\<Union>h \<in> H. cells h (sz h))" unfolding c using p q(1) by blast
    finally show ?thesis .
  qed
  have dis: "cells h (?sz h) \<inter> cells g (?sz g) = {}" if "h \<in> H - {q}" "g \<in> H - {q}" "h \<noteq> g" for h g
  proof -
    have A: "cells x (sz x) \<inter> cells y (sz y) = {}" if "x \<in> H" "y \<in> H" "x \<noteq> y" for x y
      using t that unfolding tiling_def by blast
    show ?thesis using A [of h g] A [of q g] A [of h q] c that q(1) by (cases "h = p"; cases "g = p") auto
  qed
  have "0 < ?sz h \<and> cells h (?sz h) \<subseteq> descs (mblock_of h)" if "h \<in> H" for h
    using tilingD [OF t that] tilingD [OF t q(1)] c q(3) by (cases "h = p") auto
  then show ?thesis using t un dis unfolding tiling_def by simp
qed

lemma tiling_split:
  assumes t: "tiling sz SM H" and p: "p \<in> H" and n: "0 < n" "n < sz p"
    and q: "q = p + 64 * (sz p - n)"
  shows "tiling (sz(p := sz p - n, q := n)) SM (insert q H)" "q \<notin> H" "mblock_of q = mblock_of p"
proof -
  let ?sz = "sz(p := sz p - n, q := n)"
  have ne: "q \<noteq> p" using q n by simp
  have c: "cells p (sz p) = cells p (sz p - n) \<union> cells q n" using cells_add [of p "sz p - n" n] n q by simp
  have qc: "q \<in> cells p (sz p)" using c n by simp
  show qn: "q \<notin> H" using tiling_unique [OF t _ p _ qc] tilingD(1) [OF t] ne by (metis cells_head)
  have "q \<in> descs (mblock_of p)" using qc tilingD(2) [OF t p] by blast
  then show mq: "mblock_of q = mblock_of p" by (rule descs_mblock) simp
  have cp: "cells p (?sz p) = cells p (sz p - n)" "cells q (?sz q) = cells q n" using ne by simp_all
  have o: "cells h (?sz h) = cells h (sz h)" if "h \<noteq> p" "h \<noteq> q" for h using that by simp
  have "(\<Union>h \<in> insert q H. cells h (?sz h)) = cells q n \<union> cells p (sz p - n) \<union> (\<Union>h \<in> H - {p}. cells h (sz h))"
    using p qn ne by (auto split: if_splits)
  then have un: "(\<Union>h \<in> insert q H. cells h (?sz h)) = (\<Union>h \<in> H. cells h (sz h))" using c p by blast
  have pq: "cells p (sz p - n) \<inter> cells q n = {}" using cells_add_disjoint q by simp
  have dis: "cells h (?sz h) \<inter> cells g (?sz g) = {}" if hg: "h \<in> insert q H" "g \<in> insert q H" "h \<noteq> g" for h g
  proof -
    have A: "cells x (sz x) \<inter> cells y (sz y) = {}" if "x \<in> H" "y \<in> H" "x \<noteq> y" for x y
      using t that unfolding tiling_def by blast
    have sub: "cells p (sz p - n) \<subseteq> cells p (sz p)" "cells q n \<subseteq> cells p (sz p)" using c by auto
    consider "h = p" "g = q" | "h = q" "g = p" | "h \<in> {p, q}" "g \<notin> {p, q}" | "g \<in> {p, q}" "h \<notin> {p, q}"
      | "h \<notin> {p, q}" "g \<notin> {p, q}" using hg(3) by blast
    then show ?thesis
    proof cases
      case 3 then show ?thesis using A [OF p, of g] hg sub cp o by auto
    next
      case 4 then show ?thesis using A [OF p, of h] hg sub cp o by auto
    next
      case 5 then show ?thesis using A [of h g] hg o by auto
    qed (use pq ne in auto)
  qed
  have "0 < ?sz h \<and> cells h (?sz h) \<subseteq> descs (mblock_of h)" if "h \<in> insert q H" for h
    using that tilingD [OF t p] tilingD [OF t, of h] c n mq by (cases "h = p"; cases "h = q") auto
  then show "tiling ?sz SM (insert q H)" using t un dis unfolding tiling_def by simp
qed

lemma tiling_whole:
  assumes t: "tiling sz SM H" and p: "p \<in> H" and n: "BLOCKS_PER_MBLOCK \<le> sz p"
  shows "p = FIRST_BDESCR (mblock_of p)" "sz p = BLOCKS_PER_MBLOCK" "tiling sz (SM - {mblock_of p}) (H - {p})"
    "mblock_of h = mblock_of p \<Longrightarrow> h \<in> H \<Longrightarrow> h = p"
proof -
  note d = tilingD [OF t p]
  have "p + 64 * (sz p - 1) \<in> cells p (sz p)" using d(1) by (auto simp: cells_mem)
  then have "p + 64 * (sz p - 1) \<le> LAST_BDESCR (mblock_of p)" using d(2) descs_bounds by blast
  moreover have "FIRST_BDESCR (mblock_of p) \<le> p" using descs_bounds [OF d(3)] by simp
  ultimately show pf: "p = FIRST_BDESCR (mblock_of p)" and sp: "sz p = BLOCKS_PER_MBLOCK"
    using n by (simp_all add: FIRST_BDESCR_val LAST_BDESCR_val)
  then have c: "cells p (sz p) = descs (mblock_of p)" by (metis descs_def)
  show u: "h = p" if "mblock_of h = mblock_of p" "h \<in> H" for h
    using tiling_unique [OF t that(2) p] tilingD [OF t that(2)] that(1) c by (metis cells_head)
  have "(\<Union>h \<in> H - {p}. cells h (sz h)) = (\<Union>m \<in> SM - {mblock_of p}. descs m)"
  proof (intro set_eqI iffI)
    fix x assume "x \<in> (\<Union>h \<in> H - {p}. cells h (sz h))"
    then obtain h where h: "h \<in> H" "h \<noteq> p" "x \<in> cells h (sz h)" by blast
    then have "x \<in> descs (mblock_of h)" "mblock_of h \<in> SM" "mblock_of h \<noteq> mblock_of p"
      using tilingD [OF t h(1)] u by blast+
    then show "x \<in> (\<Union>m \<in> SM - {mblock_of p}. descs m)" by blast
  next
    fix x assume "x \<in> (\<Union>m \<in> SM - {mblock_of p}. descs m)"
    then obtain m where m: "m \<in> SM" "m \<noteq> mblock_of p" "x \<in> descs m" by blast
    then obtain g where "g \<in> H" "x \<in> cells g (sz g)" "mblock_of g = m" using tiling_cover [OF t] by metis
    then show "x \<in> (\<Union>h \<in> H - {p}. cells h (sz h))" using m(2) by blast
  qed
  then show "tiling sz (SM - {mblock_of p}) (H - {p})" using t unfolding tiling_def by blast
qed

lemma tiling_new:
  assumes t: "tiling sz SM H" and m: "m \<notin> SM" "m mod MBLOCK_SIZE = 0" and p: "p = FIRST_BDESCR m"
  shows "tiling (sz(p := BLOCKS_PER_MBLOCK)) (insert m SM) (insert p H)" "p \<notin> H" "mblock_of p = m"
proof -
  have pd: "p \<in> descs m" unfolding p descs_def by simp
  show mp: "mblock_of p = m" by (rule descs_mblock [OF pd m(2)])
  show pn: "p \<notin> H" using tilingD(4) [OF t, of p] mp m(1) by blast
  let ?sz = "sz(p := BLOCKS_PER_MBLOCK)"
  have c: "cells p (?sz p) = descs m" by (simp add: p descs_def)
  have o: "cells h (?sz h) = cells h (sz h)" if "h \<in> H" for h using that pn by auto
  have un: "(\<Union>h \<in> insert p H. cells h (?sz h)) = (\<Union>m \<in> insert m SM. descs m)"
    using t c o by (simp add: tiling_def cong: SUP_cong)
  have dp: "cells h (sz h) \<inter> descs m = {}" if "h \<in> H" for h
    using tilingD [OF t that] m descs_mblock [of _ m] descs_mblock [of _ "mblock_of h"]
    by (metis disjoint_iff mblock_of_aligned subsetD)
  have dis: "cells h (?sz h) \<inter> cells g (?sz g) = {}" if hg: "h \<in> insert p H" "g \<in> insert p H" "h \<noteq> g" for h g
  proof (cases "h = p \<or> g = p")
    case True
    then show ?thesis using hg dp [of h] dp [of g] c o by (metis inf_commute insert_iff)
  next
    case False
    then show ?thesis using hg o t unfolding tiling_def by (metis insert_iff)
  qed
  have "0 < ?sz h \<and> cells h (?sz h) \<subseteq> descs (mblock_of h)" if "h \<in> insert p H" for h
    using that tilingD [OF t, of h] c o mp by (cases "h = p") auto
  then show "tiling ?sz (insert m SM) (insert p H)" using t m(2) un dis unfolding tiling_def by simp
qed

end
