(* ===== verification/BlockInv.thy ===== *)
theory BlockInv
  imports BlockTiling
begin

text \<open>
  The invariant of the block allocator and its preservation.

  The ghost state: \<open>SM\<close> the megablocks cut into small groups; \<open>F\<close>, \<open>A\<close>, \<open>P\<close> the heads of the small
  groups that are free, allocated and, inside an operation, pending; \<open>L\<close> the nine free lists; \<open>xs\<close>
  the list of free megablock groups; \<open>G\<close> the heads of the megablock groups that are allocated or
  pending.  \<open>groups_ok\<close>, \<open>fl_ok\<close> and \<open>megas_ok\<close> are the parts on small groups, on the free lists
  and on megablock groups.
\<close>

section \<open>The invariant\<close>

abbreviation sizes :: "bd_mem \<Rightarrow> addr \<Rightarrow> nat" where
  "sizes mem \<equiv> \<lambda>h. bd_blocks (mem h)"

definition interior_ok :: "bd_mem \<Rightarrow> addr \<Rightarrow> bool" where
  "interior_ok mem h \<longleftrightarrow>
     (\<forall>x \<in> cells h (bd_blocks (mem h)). x \<noteq> h \<longrightarrow> bd_blocks (mem x) = 0 \<and> bd_link (mem x) = h)"

definition groups_ok :: "bd_mem \<Rightarrow> nat set \<Rightarrow> addr set \<Rightarrow> addr set \<Rightarrow> addr set \<Rightarrow> bool" where
  "groups_ok mem SM F A P \<longleftrightarrow>
     tiling (sizes mem) SM (F \<union> A \<union> P) \<and> F \<inter> A = {} \<and> F \<inter> P = {} \<and> A \<inter> P = {} \<and>
     (\<forall>h \<in> F. bd_blocks (mem h) < BLOCKS_PER_MBLOCK \<and> bd_free (mem h) = FREE_MARK \<and> check_tail mem h) \<and>
     (\<forall>h \<in> A. bd_blocks (mem h) < BLOCKS_PER_MBLOCK \<and> bd_free (mem h) \<noteq> FREE_MARK \<and> interior_ok mem h) \<and>
     (\<forall>m \<in> SM. starts_ok mem m)"

definition fl_ok :: "bd_mem \<Rightarrow> (nat \<Rightarrow> addr) \<Rightarrow> (nat \<Rightarrow> addr list) \<Rightarrow> addr set \<Rightarrow> bool" where
  "fl_ok mem fl L F \<longleftrightarrow>
     (\<forall>k < MAX_FREE_LIST. dlist mem (fl k) (L k) \<and> (\<forall>x \<in> set (L k). log_2 (bd_blocks (mem x)) = k)) \<and>
     F = (\<Union>k < MAX_FREE_LIST. set (L k))"

definition coalesced :: "bd_mem \<Rightarrow> addr set \<Rightarrow> bool" where
  "coalesced mem F \<longleftrightarrow> (\<forall>h \<in> F. h + 64 * bd_blocks (mem h) \<notin> F)"

definition sm_span :: "nat set \<Rightarrow> nat set" where
  "sm_span SM = (\<Union>m \<in> SM. {m ..< m + MBLOCK_SIZE})"

definition g_span :: "bd_mem \<Rightarrow> addr set \<Rightarrow> nat set" where
  "g_span mem G = (\<Union>g \<in> G. mspan mem g)"

definition megas_ok :: "bd_mem \<Rightarrow> addr \<Rightarrow> addr list \<Rightarrow> addr set \<Rightarrow> nat set \<Rightarrow> bool" where
  "megas_ok mem h xs G SM \<longleftrightarrow>
     mlist mem h xs \<and> (\<forall>g \<in> G. mhead mem g) \<and> (\<forall>m \<in> SM. m mod MBLOCK_SIZE = 0) \<and>
     mcover mem xs \<inter> g_span mem G = {} \<and> mcover mem xs \<inter> sm_span SM = {} \<and> g_span mem G \<inter> sm_span SM = {} \<and>
     (\<forall>g \<in> G. \<forall>g' \<in> G. g \<noteq> g' \<longrightarrow> mspan mem g \<inter> mspan mem g' = {})"

section \<open>Descriptors\<close>

lemma cells_in_descs:
  assumes "groups_ok mem SM F A P" "h \<in> F \<union> A \<union> P" "x \<in> cells h (bd_blocks (mem h))"
  shows "x \<in> descs (mblock_of h)" "mblock_of h \<in> SM" "mblock_of x = mblock_of h"
proof -
  have t: "tiling (sizes mem) SM (F \<union> A \<union> P)" using assms(1) by (simp add: groups_ok_def)
  show "x \<in> descs (mblock_of h)" "mblock_of h \<in> SM" using tilingD [OF t assms(2)] assms(3) by auto
  then show "mblock_of x = mblock_of h" using descs_mblock by simp
qed

lemma head_cell: "groups_ok mem SM F A P \<Longrightarrow> h \<in> F \<union> A \<union> P \<Longrightarrow> h \<in> cells h (bd_blocks (mem h))"
  using tilingD(1) [of "sizes mem" SM "F \<union> A \<union> P"] by (auto simp: groups_ok_def)

lemma head_nonnull: "groups_ok mem SM F A P \<Longrightarrow> h \<in> F \<union> A \<union> P \<Longrightarrow> h \<noteq> NULL"
proof -
  assume g: "groups_ok mem SM F A P" "h \<in> F \<union> A \<union> P"
  have "h \<in> descs (mblock_of h)" by (rule cells_in_descs(1) [OF g head_cell [OF g]])
  then show "h \<noteq> NULL" using descs_bounds [of h "mblock_of h"] by (auto simp: FIRST_BDESCR_val)
qed

lemma head_sm: "groups_ok mem SM F A P \<Longrightarrow> h \<in> F \<union> A \<union> P \<Longrightarrow> mblock_of h \<in> SM"
  using cells_in_descs(2) head_cell by blast

lemma tail_cell:
  assumes "0 < bd_blocks (mem h)"
  shows "tail_of mem h \<in> cells h (bd_blocks (mem h))" "tail_of mem h = h \<longleftrightarrow> bd_blocks (mem h) = 1"
proof -
  have e: "tail_of mem h = h + 64 * (bd_blocks (mem h) - 1)"
    using assms by (simp add: tail_of_def bd_plus_val BDESCR_SIZE_def diff_mult_distrib2)
  show "tail_of mem h \<in> cells h (bd_blocks (mem h))" unfolding e using assms by (auto simp: cells_mem)
  show "tail_of mem h = h \<longleftrightarrow> bd_blocks (mem h) = 1" unfolding e using assms by auto
qed

lemma interior_not_head:
  assumes "groups_ok mem SM F A P" "h \<in> F \<union> A \<union> P" "x \<in> cells h (bd_blocks (mem h))" "x \<noteq> h"
  shows "x \<notin> F \<union> A \<union> P"
proof
  assume x: "x \<in> F \<union> A \<union> P"
  have t: "tiling (sizes mem) SM (F \<union> A \<union> P)" using assms(1) by (simp add: groups_ok_def)
  show False using tiling_unique [OF t assms(2) x assms(3)] head_cell [OF assms(1) x] assms(4) by blast
qed

text \<open>What small groups depend on: sizes, marks, the descriptors inside groups, and starts.\<close>

lemma groups_ok_cong:
  assumes g: "groups_ok mem SM F A P"
    and b: "\<And>h. h \<in> F \<union> A \<union> P \<Longrightarrow> bd_blocks (mem' h) = bd_blocks (mem h)"
    and f: "\<And>h. h \<in> F \<union> A \<Longrightarrow> bd_free (mem' h) = bd_free (mem h)"
    and i: "\<And>h x. h \<in> F \<union> A \<Longrightarrow> x \<in> cells h (bd_blocks (mem h)) \<Longrightarrow> x \<noteq> h \<Longrightarrow> mem' x = mem x"
    and st: "\<And>m. m \<in> SM \<Longrightarrow> starts_ok mem' m"
  shows "groups_ok mem' SM F A P"
proof -
  have "tiling (sizes mem') SM (F \<union> A \<union> P) \<longleftrightarrow> tiling (sizes mem) SM (F \<union> A \<union> P)"
    by (rule tiling_cong) (use b in auto)
  moreover have "check_tail mem' x \<longleftrightarrow> check_tail mem x" if "x \<in> F" for x
  proof -
    have x: "x \<in> F \<union> A \<union> P" "x \<in> F \<union> A" using that by simp_all
    have t: "tail_of mem' x = tail_of mem x" using b [OF x(1)] by (simp add: tail_of_def)
    have "0 < bd_blocks (mem x)" using head_cell [OF g x(1)] by simp
    then have "tail_of mem x \<in> cells x (bd_blocks (mem x))" by (rule tail_cell(1))
    then have "tail_of mem x \<noteq> x \<Longrightarrow> mem' (tail_of mem x) = mem (tail_of mem x)" using i [OF x(2)] by simp
    then show ?thesis using t by (auto simp: check_tail_def Let_def)
  qed
  moreover have "interior_ok mem' x \<longleftrightarrow> interior_ok mem x" if "x \<in> A" for x
    using that b [of x] i [of x] by (auto simp: interior_ok_def)
  ultimately show ?thesis using g b f st unfolding groups_ok_def by auto
qed

lemma starts_same: "starts_ok mem m \<Longrightarrow> (\<And>x. bd_start (mem' x) = bd_start (mem x)) \<Longrightarrow> starts_ok mem' m"
  by (simp add: starts_ok_def)

text \<open>The memory of small groups is the descriptors of \<open>SM\<close>.\<close>

lemma groups_ok_outside:
  assumes g: "groups_ok mem SM F A P" and e: "\<And>m x. m \<in> SM \<Longrightarrow> x \<in> descs m \<Longrightarrow> mem' x = mem x"
  shows "groups_ok mem' SM F A P"
proof -
  have c: "mem' x = mem x" if "h \<in> F \<union> A \<union> P" "x \<in> cells h (bd_blocks (mem h))" for h x
    using cells_in_descs [OF g that] e by blast
  have h: "mem' h = mem h" if "h \<in> F \<union> A \<union> P" for h using c [OF that head_cell [OF g that]] .
  show ?thesis
  proof (rule groups_ok_cong [OF g])
    fix m assume m: "m \<in> SM"
    then show "starts_ok mem' m"
      using g e [OF m] by (auto simp: groups_ok_def starts_ok_def descs_def cells_def bd_plus_val)
  qed (use h c in auto)
qed

lemma fl_ok_cong:
  assumes "fl_ok mem fl L F" "\<And>x. x \<in> F \<Longrightarrow> bd_link (mem' x) = bd_link (mem x) \<and>
      bd_back (mem' x) = bd_back (mem x) \<and> bd_blocks (mem' x) = bd_blocks (mem x)"
  shows "fl_ok mem' fl L F"
proof -
  have "dlist mem' (fl k) (L k) \<and> (\<forall>x \<in> set (L k). log_2 (bd_blocks (mem' x)) = k)" if k: "k < MAX_FREE_LIST" for k
  proof -
    have F: "x \<in> F" if "x \<in> set (L k)" for x using that k assms(1) by (auto simp: fl_ok_def)
    have "dlist mem (fl k) (L k)" using assms(1) k by (simp add: fl_ok_def)
    then have "dlist mem' (fl k) (L k)" by (rule dlist_cong) (use F assms(2) in auto)
    moreover have "\<forall>x \<in> set (L k). log_2 (bd_blocks (mem' x)) = k"
      using assms(1) k F assms(2) by (simp add: fl_ok_def)
    ultimately show ?thesis by blast
  qed
  then show ?thesis using assms(1) by (simp add: fl_ok_def)
qed

lemma megas_ok_cong:
  assumes m: "megas_ok mem h xs G SM" and e: "\<And>x. x \<in> set xs \<union> G \<Longrightarrow> bd_blocks (mem' x) = bd_blocks (mem x)"
    "\<And>x. x \<in> set xs \<Longrightarrow> bd_link (mem' x) = bd_link (mem x)" "\<And>x. bd_start (mem' x) = bd_start (mem x)"
  shows "megas_ok mem' h xs G SM"
proof -
  have hd: "mhead mem' x" if "x \<in> set xs \<union> G" "mhead mem x" for x
    using that by (intro mhead_same [OF that(2)] e) simp_all
  have sp: "mspan mem' x = mspan mem x" if "x \<in> set xs \<union> G" for x
    using e(1) [OF that] by (simp add: mspan_def mend_def)
  have l: "mlist mem' h xs"
  proof -
    have "lst (\<lambda>p. bd_link (mem' p)) h xs = lst (\<lambda>p. bd_link (mem p)) h xs"
      unfolding lst_def by (rule lseg_cong) (use e(2) in auto)
    then show ?thesis using m hd msorted_cong [of xs mem' mem] e(1) by (simp add: megas_ok_def mlist_def)
  qed
  have "mcover mem' xs = mcover mem xs" "g_span mem' G = g_span mem G"
    using sp by (auto simp: mcover_def g_span_def)
  then show ?thesis using m l hd sp unfolding megas_ok_def by simp
qed

text \<open>Heads of megablock groups are no descriptors of \<open>SM\<close>.\<close>

lemma mega_not_desc:
  assumes "megas_ok mem h xs G SM" "x \<in> set xs \<union> G" "m \<in> SM" shows "x \<notin> descs m"
proof
  assume "x \<in> descs m"
  then have mx: "mblock_of x = m" using assms(1,3) by (intro descs_mblock) (auto simp: megas_ok_def)
  have "mblock_of x \<in> mspan mem x" using mend_gt by (simp add: mspan_def)
  moreover have "mblock_of x \<in> sm_span SM" using assms(3) mx by (auto simp: sm_span_def MBLOCK_SIZE_def)
  ultimately show False using assms(1,2) unfolding megas_ok_def mcover_def g_span_def by blast
qed

section \<open>Free lists\<close>

lemma fl_bucket:
  assumes "fl_ok mem fl L F" "x \<in> F"
  shows "log_2 (bd_blocks (mem x)) < MAX_FREE_LIST" "x \<in> set (L (log_2 (bd_blocks (mem x))))"
    "dlist mem (fl (log_2 (bd_blocks (mem x)))) (L (log_2 (bd_blocks (mem x))))"
proof -
  obtain k where "k < MAX_FREE_LIST" "x \<in> set (L k)" "log_2 (bd_blocks (mem x)) = k" "dlist mem (fl k) (L k)"
    using assms unfolding fl_ok_def by blast
  then show "log_2 (bd_blocks (mem x)) < MAX_FREE_LIST" "x \<in> set (L (log_2 (bd_blocks (mem x))))"
    "dlist mem (fl (log_2 (bd_blocks (mem x)))) (L (log_2 (bd_blocks (mem x))))" by auto
qed

lemma fl_ok_remove:
  assumes f: "fl_ok mem fl L F" and x: "x \<in> F" and k: "k = log_2 (bd_blocks (mem x))"
    and r: "dbl_link_remove mem x (fl k) = (mem', h')"
  shows "fl_ok mem' (fl(k := h')) (L(k := remove1 x (L k))) (F - {x})"
    and "\<And>q. same_but_links (mem q) (mem' q)" "\<And>q. q \<notin> F - {x} \<Longrightarrow> mem' q = mem q"
proof -
  note b = fl_bucket [OF f x, folded k]
  note d = dbl_link_remove_dlist [OF b(3,2) r]
  show sb: "\<And>q. same_but_links (mem q) (mem' q)" by (rule d(2))
  have dk: "distinct (L k)" using b(3) by (simp add: dlist_def)
  have sub: "set (remove1 x (L k)) = set (L k) - {x}" using dk by (rule set_remove1_eq)
  show "\<And>q. q \<notin> F - {x} \<Longrightarrow> mem' q = mem q" using d(3) sub f b(1) unfolding fl_ok_def by blast
  have lg: "log_2 (bd_blocks (mem y)) = j" if "y \<in> set (L j)" "j < MAX_FREE_LIST" for y j
    using f that by (auto simp: fl_ok_def)
  have dis: "y \<notin> set (L k)" if "y \<in> set (L j)" "j < MAX_FREE_LIST" "j \<noteq> k" for y j
    using lg [of y j] lg [of y k] that b(1) by auto
  have "dlist mem' ((fl(k := h')) j) ((L(k := remove1 x (L k))) j) \<and>
      (\<forall>y \<in> set ((L(k := remove1 x (L k))) j). log_2 (bd_blocks (mem' y)) = j)" if j: "j < MAX_FREE_LIST" for j
  proof (cases "j = k")
    case True
    then show ?thesis using d(1) lg j sub same_but_linksD(3) [OF sb] by auto
  next
    case False
    have "dlist mem (fl j) (L j)" using f j by (simp add: fl_ok_def)
    then have "dlist mem' (fl j) (L j)"
      by (rule dlist_cong) (use dis [OF _ j False] d(3) sub in auto)
    then show ?thesis using False lg j same_but_linksD(3) [OF sb] by auto
  qed
  moreover have "F - {x} = (\<Union>j < MAX_FREE_LIST. set ((L(k := remove1 x (L k))) j))"
  proof -
    have "x \<notin> set (L j)" if "j < MAX_FREE_LIST" "j \<noteq> k" for j using dis [of x j] that b(2) by blast
    moreover have "F = (\<Union>j < MAX_FREE_LIST. set (L j))" using f by (simp add: fl_ok_def)
    ultimately show ?thesis using sub by (auto split: if_splits)
  qed
  ultimately show "fl_ok mem' (fl(k := h')) (L(k := remove1 x (L k))) (F - {x})" by (simp add: fl_ok_def)
qed

lemma fl_ok_onto:
  assumes f: "fl_ok mem fl L F" and x: "x \<notin> F" "x \<noteq> NULL" and k: "k = log_2 (bd_blocks (mem x))" "k < MAX_FREE_LIST"
    and r: "dbl_link_onto mem x (fl k) = (mem', h')"
  shows "fl_ok mem' (fl(k := h')) (L(k := x # L k)) (insert x F)"
    and "\<And>q. same_but_links (mem q) (mem' q)" "\<And>q. q \<notin> insert x F \<Longrightarrow> mem' q = mem q"
proof -
  have dl: "dlist mem (fl k) (L k)" and sub: "set (L k) \<subseteq> F" using f k(2) by (auto simp: fl_ok_def)
  then have xn: "x \<notin> set (L k)" using x(1) by blast
  note d = dbl_link_onto_dlist [OF dl x(2) xn r]
  show sb: "\<And>q. same_but_links (mem q) (mem' q)" by (rule d(2))
  show "\<And>q. q \<notin> insert x F \<Longrightarrow> mem' q = mem q" using d(3) sub by blast
  have lg: "log_2 (bd_blocks (mem y)) = j" if "y \<in> set (L j)" "j < MAX_FREE_LIST" for y j
    using f that by (auto simp: fl_ok_def)
  have F: "y \<in> F" if "y \<in> set (L j)" "j < MAX_FREE_LIST" for y j using f that by (auto simp: fl_ok_def)
  have "dlist mem' ((fl(k := h')) j) ((L(k := x # L k)) j) \<and>
      (\<forall>y \<in> set ((L(k := x # L k)) j). log_2 (bd_blocks (mem' y)) = j)" if j: "j < MAX_FREE_LIST" for j
  proof (cases "j = k")
    case True
    then show ?thesis using d(1) lg j k(1) same_but_linksD(3) [OF sb] by auto
  next
    case False
    have "mem' y = mem y" if y: "y \<in> set (L j)" for y
    proof (rule d(3))
      have "y \<notin> set (L k)" using lg [OF y j] lg [of y k] k(2) False by blast
      moreover have "y \<noteq> x" using F [OF y j] x(1) by blast
      ultimately show "y \<notin> insert x (set (L k))" by blast
    qed
    moreover have "dlist mem (fl j) (L j)" using f j by (simp add: fl_ok_def)
    ultimately have "dlist mem' (fl j) (L j)" using dlist_cong by simp
    then show ?thesis using False lg j same_but_linksD(3) [OF sb] by auto
  qed
  moreover have "insert x F = (\<Union>j < MAX_FREE_LIST. set ((L(k := x # L k)) j))"
    using f k(2) by (auto simp: fl_ok_def split: if_splits)
  ultimately show "fl_ok mem' (fl(k := h')) (L(k := x # L k)) (insert x F)" by (simp add: fl_ok_def)
qed

section \<open>Steps of the operations\<close>

definition core :: "ba_state \<Rightarrow> nat set \<Rightarrow> addr set \<Rightarrow> addr set \<Rightarrow> addr set \<Rightarrow> addr set \<Rightarrow> addr list \<Rightarrow>
    (nat \<Rightarrow> addr list) \<Rightarrow> bool" where
  "core s SM F A P G xs L \<longleftrightarrow>
     groups_ok (ba_mem s) SM F A P \<and> fl_ok (ba_mem s) (free_list s) L F \<and>
     megas_ok (ba_mem s) (free_mblock_list s) xs G SM"

lemma coreD:
  assumes "core s SM F A P G xs L"
  shows "groups_ok (ba_mem s) SM F A P" "fl_ok (ba_mem s) (free_list s) L F"
    "megas_ok (ba_mem s) (free_mblock_list s) xs G SM" "tiling (sizes (ba_mem s)) SM (F \<union> A \<union> P)"
  using assms by (auto simp: core_def groups_ok_def)

lemma fl_frame [simp]:
  "n_alloc_blocks (fl_remove x k s) = n_alloc_blocks s" "free_mblock_list (fl_remove x k s) = free_mblock_list s"
  "ba_mb (fl_remove x k s) = ba_mb s" "hw_alloc_blocks (fl_remove x k s) = hw_alloc_blocks s"
  "n_alloc_blocks (fl_onto x k s) = n_alloc_blocks s" "free_mblock_list (fl_onto x k s) = free_mblock_list s"
  "ba_mb (fl_onto x k s) = ba_mb s" "hw_alloc_blocks (fl_onto x k s) = hw_alloc_blocks s"
  by (simp_all add: fl_remove_def fl_onto_def split: prod.split)

lemma set_bd_frame [simp]:
  "n_alloc_blocks (set_bd p f s) = n_alloc_blocks s" "free_mblock_list (set_bd p f s) = free_mblock_list s"
  "ba_mb (set_bd p f s) = ba_mb s" "hw_alloc_blocks (set_bd p f s) = hw_alloc_blocks s"
  "free_list (set_bd p f s) = free_list s" "ba_mem (set_bd p f s) = upd_bd p f (ba_mem s)"
  by (simp_all add: set_bd_def)

text \<open>Descriptors of small groups are not heads of megablock groups.\<close>

lemma small_not_mega:
  assumes "core s SM F A P G xs L" "h \<in> F \<union> A \<union> P" "x \<in> cells h (bd_blocks (bd_of s h))"
  shows "x \<notin> set xs \<union> G"
  using mega_not_desc [OF coreD(3) [OF assms(1)]] cells_in_descs [OF coreD(1) [OF assms(1)] assms(2,3)] by blast

lemma core_links:
  assumes c: "core s SM F A P G xs L" and sb: "\<And>q. same_but_links (bd_of s q) (mem' q)"
    and eq: "\<And>q. q \<notin> F \<union> A \<union> P \<Longrightarrow> mem' q = bd_of s q"
  shows "groups_ok mem' SM F A P" "megas_ok mem' (free_mblock_list s) xs G SM"
proof -
  note d = same_but_linksD [OF sb]
  show "groups_ok mem' SM F A P"
  proof (rule groups_ok_cong [OF coreD(1) [OF c]])
    fix h x assume "h \<in> F \<union> A" "x \<in> cells h (bd_blocks (bd_of s h))" "x \<noteq> h"
    then have "x \<notin> F \<union> A \<union> P" using interior_not_head [OF coreD(1) [OF c], of h x] by blast
    then show "mem' x = bd_of s x" by (rule eq)
  next
    fix m assume "m \<in> SM"
    then have "starts_ok (ba_mem s) m" using coreD(1) [OF c] by (simp add: groups_ok_def)
    then show "starts_ok mem' m" by (rule starts_same) (rule d(1))
  qed (use d in simp_all)
  have "x \<notin> F \<union> A \<union> P" if "x \<in> set xs \<union> G" for x
    using small_not_mega [OF c, of x x] head_cell [OF coreD(1) [OF c]] that by blast
  then show "megas_ok mem' (free_mblock_list s) xs G SM"
    by (intro megas_ok_cong [OF coreD(3) [OF c]]) (use d eq in auto)
qed

lemma core_fl_remove:
  assumes c: "core s SM F A P G xs L" and x: "x \<in> F" and k: "k = log_2 (bd_blocks (bd_of s x))"
  shows "\<exists>L'. core (fl_remove x k s) SM (F - {x}) A (insert x P) G xs L'"
    and "same_but_links (bd_of s q) (bd_of (fl_remove x k s) q)"
    and "q \<notin> F - {x} \<Longrightarrow> bd_of (fl_remove x k s) q = bd_of s q"
proof -
  obtain mem' h' where r: "dbl_link_remove (ba_mem s) x (free_list s k) = (mem', h')" by fastforce
  note f = fl_ok_remove [OF coreD(2) [OF c] x k r]
  have e: "ba_mem (fl_remove x k s) = mem'" "free_list (fl_remove x k s) = (free_list s)(k := h')"
    using r by (simp_all add: fl_remove_def)
  show "same_but_links (bd_of s q) (bd_of (fl_remove x k s) q)" unfolding e by (rule f(2))
  show "q \<notin> F - {x} \<Longrightarrow> bd_of (fl_remove x k s) q = bd_of s q" unfolding e by (rule f(3))
  have g: "groups_ok mem' SM F A P" "megas_ok mem' (free_mblock_list s) xs G SM"
    by (rule core_links [OF c f(2)], use f(3) in blast)+
  have "F - {x} \<union> A \<union> insert x P = F \<union> A \<union> P" using x by blast
  then have "groups_ok mem' SM (F - {x}) A (insert x P)" using g(1) x unfolding groups_ok_def by auto
  then show "\<exists>L'. core (fl_remove x k s) SM (F - {x}) A (insert x P) G xs L'"
    using f(1) g(2) e unfolding core_def by auto
qed

lemma core_fl_onto:
  assumes c: "core s SM F A P G xs L" and x: "x \<in> P" and k: "k = log_2 (bd_blocks (bd_of s x))"
    and o: "bd_blocks (bd_of s x) < BLOCKS_PER_MBLOCK" "bd_free (bd_of s x) = FREE_MARK" "check_tail (ba_mem s) x"
  shows "\<exists>L'. core (fl_onto x k s) SM (insert x F) A (P - {x}) G xs L'"
    and "same_but_links (bd_of s q) (bd_of (fl_onto x k s) q)"
    and "q \<notin> insert x F \<Longrightarrow> bd_of (fl_onto x k s) q = bd_of s q"
proof -
  note gok = coreD(1) [OF c]
  obtain mem' h' where r: "dbl_link_onto (ba_mem s) x (free_list s k) = (mem', h')" by fastforce
  have xh: "x \<in> F \<union> A \<union> P" "x \<notin> F" "x \<notin> A" using x gok by (auto simp: groups_ok_def)
  have "0 < bd_blocks (bd_of s x)" using head_cell [OF gok xh(1)] by simp
  then have "k < MAX_FREE_LIST" unfolding k using o(1) by (intro log_2_bounds) simp_all
  note f = fl_ok_onto [OF coreD(2) [OF c] xh(2) head_nonnull [OF gok xh(1)] k this r]
  have e: "ba_mem (fl_onto x k s) = mem'" "free_list (fl_onto x k s) = (free_list s)(k := h')"
    using r by (simp_all add: fl_onto_def)
  show "same_but_links (bd_of s q) (bd_of (fl_onto x k s) q)" unfolding e by (rule f(2))
  show "q \<notin> insert x F \<Longrightarrow> bd_of (fl_onto x k s) q = bd_of s q" unfolding e by (rule f(3))
  have fe: "mem' q = bd_of s q" if "q \<notin> F \<union> A \<union> P" for q by (rule f(3)) (use that x in blast)
  have "insert x F \<union> A \<union> (P - {x}) = F \<union> A \<union> P" using x by blast
  then have g1: "groups_ok (ba_mem s) SM (insert x F) A (P - {x})"
    using gok x xh o unfolding groups_ok_def by auto
  have g: "groups_ok mem' SM F A P" "megas_ok mem' (free_mblock_list s) xs G SM"
    using core_links [OF c f(2) fe] by blast+
  have "groups_ok mem' SM (insert x F) A (P - {x})"
  proof (rule groups_ok_cong [OF g1])
    fix h y assume h: "h \<in> insert x F \<union> A" "y \<in> cells h (bd_blocks (bd_of s h))" "y \<noteq> h"
    then have "y \<notin> F \<union> A \<union> P" using interior_not_head [OF gok, of h y] x by blast
    then show "mem' y = bd_of s y" by (rule fe)
  next
    fix m assume "m \<in> SM"
    then show "starts_ok mem' m" using g(1) by (simp add: groups_ok_def)
  qed (use same_but_linksD [OF f(2)] in simp_all)
  then show "\<exists>L'. core (fl_onto x k s) SM (insert x F) A (P - {x}) G xs L'"
    using f(1) g(2) e unfolding core_def by auto
qed

text \<open>Changes inside pending groups, resizing them.\<close>

lemma core_resize:
  assumes c: "core s SM F A P G xs L"
    and eq: "\<And>q. (\<And>p. p \<in> P \<Longrightarrow> q \<notin> cells p (bd_blocks (bd_of s p))) \<Longrightarrow> mem' q = bd_of s q"
    and t: "tiling (sizes mem') SM (F \<union> A \<union> P')" and dj: "F \<inter> P' = {}" "A \<inter> P' = {}"
    and st: "\<And>q. bd_start (mem' q) = bd_start (bd_of s q)"
  shows "core (s\<lparr>ba_mem := mem'\<rparr>) SM F A P' G xs L"
proof -
  note gok = coreD(1) [OF c]
  have o: "mem' x = bd_of s x" if h: "h \<in> F \<union> A" "x \<in> cells h (bd_blocks (bd_of s h))" for h x
  proof (rule eq)
    fix p assume p: "p \<in> P"
    then have "h \<noteq> p" using h(1) gok by (auto simp: groups_ok_def)
    then show "x \<notin> cells p (bd_blocks (bd_of s p))"
      using tiling_unique [OF coreD(4) [OF c], of h p x] h p by blast
  qed
  have oh: "mem' h = bd_of s h" if "h \<in> F \<union> A" for h
    using o [OF that] head_cell [OF gok, of h] that by blast
  have tl: "check_tail mem' x \<longleftrightarrow> check_tail (ba_mem s) x" if "x \<in> F" for x
  proof -
    have "0 < bd_blocks (bd_of s x)" using head_cell [OF gok, of x] that by simp
    then have "tail_of (ba_mem s) x \<in> cells x (bd_blocks (bd_of s x))" by (rule tail_cell(1))
    then show ?thesis using o [of x] oh [of x] that by (simp add: check_tail_def tail_of_def Let_def)
  qed
  have "interior_ok mem' x \<longleftrightarrow> interior_ok (ba_mem s) x" if "x \<in> A" for x
    using that oh [of x] o [of x] by (auto simp: interior_ok_def)
  moreover have "starts_ok mem' m" if "m \<in> SM" for m
  proof (rule starts_same)
    show "starts_ok (ba_mem s) m" using gok that by (simp add: groups_ok_def)
  qed (rule st)
  ultimately have "groups_ok mem' SM F A P'" using gok t dj oh tl unfolding groups_ok_def by auto
  moreover have "fl_ok mem' (free_list s) L F"
    by (rule fl_ok_cong [OF coreD(2) [OF c]]) (use oh in simp)
  moreover have "mem' x = bd_of s x" if "x \<in> set xs \<union> G" for x
    by (rule eq) (use small_not_mega [OF c] that in blast)
  then have "megas_ok mem' (free_mblock_list s) xs G SM"
    by (intro megas_ok_cong [OF coreD(3) [OF c]]) (use st in auto)
  ultimately show ?thesis by (simp add: core_def)
qed

lemma core_pending:
  assumes c: "core s SM F A P G xs L" and p: "p \<in> P"
    and eq: "\<And>q. q \<notin> cells p (bd_blocks (bd_of s p)) \<Longrightarrow> mem' q = bd_of s q"
    and b: "bd_blocks (mem' p) = bd_blocks (bd_of s p)" and st: "\<And>q. bd_start (mem' q) = bd_start (bd_of s q)"
  shows "core (s\<lparr>ba_mem := mem'\<rparr>) SM F A P G xs L"
proof (rule core_resize [OF c])
  note gok = coreD(1) [OF c]
  have ph: "p \<in> F \<union> A \<union> P" using p by simp
  have "bd_blocks (mem' h) = bd_blocks (bd_of s h)" if h: "h \<in> F \<union> A \<union> P" for h
  proof (cases "h = p")
    case False
    then have "h \<notin> cells p (bd_blocks (bd_of s p))" using interior_not_head [OF gok ph] h by blast
    then show ?thesis using eq by simp
  qed (use b in simp)
  then show "tiling (sizes mem') SM (F \<union> A \<union> P)"
    using coreD(4) [OF c] tiling_cong [of "F \<union> A \<union> P" "sizes mem'" "sizes (ba_mem s)" SM] by simp
  show "F \<inter> P = {}" "A \<inter> P = {}" using gok by (auto simp: groups_ok_def)
  show "mem' q = bd_of s q" if "\<And>p. p \<in> P \<Longrightarrow> q \<notin> cells p (bd_blocks (bd_of s p))" for q
    by (rule eq) (use that p in blast)
qed (rule st)

lemma core_merge:
  assumes c: "core s SM F A P G xs L" and p: "p \<in> P" "q \<in> P"
    and q: "q = p + 64 * bd_blocks (bd_of s p)" "mblock_of q = mblock_of p"
  shows "core (set_bd p (\<lambda>d. d\<lparr>bd_blocks := bd_blocks (bd_of s p) + bd_blocks (bd_of s q)\<rparr>) s) SM F A (P - {q}) G xs L"
proof -
  note gok = coreD(1) [OF c]
  let ?mem = "upd_bd p (\<lambda>d. d\<lparr>bd_blocks := bd_blocks (bd_of s p) + bd_blocks (bd_of s q)\<rparr>) (ba_mem s)"
  have dj: "F \<inter> P = {}" "A \<inter> P = {}" using gok by (auto simp: groups_ok_def)
  have pc: "p \<in> cells p (bd_blocks (bd_of s p))" using head_cell [OF gok] p(1) by blast
  have "tiling ((sizes (ba_mem s))(p := bd_blocks (bd_of s p) + bd_blocks (bd_of s q))) SM (F \<union> A \<union> P - {q})"
    by (rule tiling_merge [OF coreD(4) [OF c]]) (use p q in simp_all)
  moreover have "(sizes (ba_mem s))(p := bd_blocks (bd_of s p) + bd_blocks (bd_of s q)) = sizes ?mem"
    by (auto simp: upd_bd_def)
  moreover have "F \<union> A \<union> P - {q} = F \<union> A \<union> (P - {q})" using dj p(2) by blast
  ultimately have t: "tiling (sizes ?mem) SM (F \<union> A \<union> (P - {q}))" by simp
  have "core (s\<lparr>ba_mem := ?mem\<rparr>) SM F A (P - {q}) G xs L"
  proof (rule core_resize [OF c _ t])
    fix x assume "\<And>p. p \<in> P \<Longrightarrow> x \<notin> cells p (bd_blocks (bd_of s p))"
    then have "x \<noteq> p" using pc p(1) by blast
    then show "?mem x = bd_of s x" by simp
  qed (use dj in \<open>auto simp: upd_bd_def\<close>)
  then show ?thesis by (simp add: set_bd_def)
qed

lemma core_split:
  assumes c: "core s SM F A P G xs L" and p: "p \<in> P" and n: "0 < n" "n < bd_blocks (bd_of s p)"
    and q: "q = p + 64 * (bd_blocks (bd_of s p) - n)"
  shows "core (set_bd p (\<lambda>d. d\<lparr>bd_blocks := bd_blocks (bd_of s p) - n\<rparr>) (set_bd q (\<lambda>d. d\<lparr>bd_blocks := n\<rparr>) s))
      SM F A (insert q P) G xs L"
    and "q \<notin> F \<union> A \<union> P" "mblock_of q = mblock_of p" "q \<noteq> p"
proof -
  note gok = coreD(1) [OF c]
  let ?mem = "upd_bd p (\<lambda>d. d\<lparr>bd_blocks := bd_blocks (bd_of s p) - n\<rparr>) (upd_bd q (\<lambda>d. d\<lparr>bd_blocks := n\<rparr>) (ba_mem s))"
  have dj: "F \<inter> P = {}" "A \<inter> P = {}" using gok by (auto simp: groups_ok_def)
  have pH: "p \<in> F \<union> A \<union> P" using p by simp
  note ts = tiling_split [OF coreD(4) [OF c] pH n q]
  show qn: "q \<notin> F \<union> A \<union> P" and "mblock_of q = mblock_of p" using ts(2,3) by auto
  show qp: "q \<noteq> p" using q n by simp
  have "(sizes (ba_mem s))(p := bd_blocks (bd_of s p) - n, q := n) = sizes ?mem"
    using qp by (auto simp: upd_bd_def)
  then have t: "tiling (sizes ?mem) SM (F \<union> A \<union> insert q P)" using ts(1) by simp
  have "\<exists>j < bd_blocks (bd_of s p). q = p + 64 * j" using n q by (intro exI [of _ "bd_blocks (bd_of s p) - n"]) simp
  then have qc: "q \<in> cells p (bd_blocks (bd_of s p))" "p \<in> cells p (bd_blocks (bd_of s p))"
    using n by (simp_all add: cells_mem)
  have "core (s\<lparr>ba_mem := ?mem\<rparr>) SM F A (insert q P) G xs L"
  proof (rule core_resize [OF c _ t])
    fix x assume "\<And>p. p \<in> P \<Longrightarrow> x \<notin> cells p (bd_blocks (bd_of s p))"
    then have "x \<noteq> p" "x \<noteq> q" using qc p by blast+
    then show "?mem x = bd_of s x" by simp
  qed (use dj qn in \<open>auto simp: upd_bd_def\<close>)
  then show "core (set_bd p (\<lambda>d. d\<lparr>bd_blocks := bd_blocks (bd_of s p) - n\<rparr>) (set_bd q (\<lambda>d. d\<lparr>bd_blocks := n\<rparr>) s))
      SM F A (insert q P) G xs L" by (simp add: set_bd_def)
qed

section \<open>Whole megablocks\<close>

lemma megasD:
  assumes "megas_ok mem h xs G SM"
  shows "mlist mem h xs" "\<And>g. g \<in> G \<Longrightarrow> mhead mem g" "\<And>m. m \<in> SM \<Longrightarrow> m mod MBLOCK_SIZE = 0"
    "mcover mem xs \<inter> g_span mem G = {}" "mcover mem xs \<inter> sm_span SM = {}" "g_span mem G \<inter> sm_span SM = {}"
    "\<And>g g'. g \<in> G \<Longrightarrow> g' \<in> G \<Longrightarrow> g \<noteq> g' \<Longrightarrow> mspan mem g \<inter> mspan mem g' = {}"
    "\<And>g. g \<in> G \<Longrightarrow> mspan mem g \<inter> mcover mem xs = {}" "\<And>g. g \<in> G \<Longrightarrow> mspan mem g \<inter> sm_span SM = {}"
    "\<And>g. g \<in> G \<Longrightarrow> mspan mem g \<subseteq> g_span mem G"
proof -
  show a: "mlist mem h xs" "\<And>g. g \<in> G \<Longrightarrow> mhead mem g" "\<And>m. m \<in> SM \<Longrightarrow> m mod MBLOCK_SIZE = 0"
    "mcover mem xs \<inter> g_span mem G = {}" "mcover mem xs \<inter> sm_span SM = {}" "g_span mem G \<inter> sm_span SM = {}"
    "\<And>g g'. g \<in> G \<Longrightarrow> g' \<in> G \<Longrightarrow> g \<noteq> g' \<Longrightarrow> mspan mem g \<inter> mspan mem g' = {}"
    using assms by (simp_all add: megas_ok_def)
  show b: "\<And>g. g \<in> G \<Longrightarrow> mspan mem g \<subseteq> g_span mem G" by (auto simp: g_span_def)
  show "\<And>g. g \<in> G \<Longrightarrow> mspan mem g \<inter> mcover mem xs = {}" using a(4) b by blast
  show "\<And>g. g \<in> G \<Longrightarrow> mspan mem g \<inter> sm_span SM = {}" using a(6) b by blast
qed

lemma megasI:
  assumes "mlist mem h xs" "\<And>g. g \<in> G \<Longrightarrow> mhead mem g" "\<And>m. m \<in> SM \<Longrightarrow> m mod MBLOCK_SIZE = 0"
    "mcover mem xs \<inter> g_span mem G = {}" "mcover mem xs \<inter> sm_span SM = {}" "g_span mem G \<inter> sm_span SM = {}"
    "\<And>g g'. g \<in> G \<Longrightarrow> g' \<in> G \<Longrightarrow> g \<noteq> g' \<Longrightarrow> mspan mem g \<inter> mspan mem g' = {}"
  shows "megas_ok mem h xs G SM"
  using assms by (simp add: megas_ok_def)

lemma mspan_one:
  assumes "bd_blocks (mem p) = BLOCKS_PER_MBLOCK"
  shows "mspan mem p = {mblock_of p ..< mblock_of p + MBLOCK_SIZE}"
proof -
  have "BLOCKS_TO_MBLOCKS BLOCKS_PER_MBLOCK = 1" by (simp add: BLOCKS_TO_MBLOCKS_ceil)
  then show ?thesis unfolding mspan_def mend_def assms by simp
qed

lemma aligned_disjoint:
  assumes "(m :: nat) mod MBLOCK_SIZE = 0" "m' mod MBLOCK_SIZE = 0" "m \<noteq> m'"
  shows "{m ..< m + MBLOCK_SIZE} \<inter> {m' ..< m' + MBLOCK_SIZE} = {}"
proof (rule ccontr)
  assume "\<not> ?thesis"
  then obtain x where "x \<in> {m ..< m + MBLOCK_SIZE}" "x \<in> {m' ..< m' + MBLOCK_SIZE}" by blast
  then have x: "m \<le> x" "x < m + MBLOCK_SIZE" "m' \<le> x" "x < m' + MBLOCK_SIZE" by auto
  obtain a b where "m = MBLOCK_SIZE * a" "m' = MBLOCK_SIZE * b" using assms(1,2) by (metis mod_0_imp_dvd dvdE)
  then show False using x assms(3) by (cases "a < b"; cases "a = b") (auto simp: MBLOCK_SIZE_def)
qed

text \<open>A pending group that fills its megablock becomes a megablock group.\<close>

lemma core_whole:
  assumes c: "core s SM F A P G xs L" and p: "p \<in> P" and n: "BLOCKS_PER_MBLOCK \<le> bd_blocks (bd_of s p)"
  shows "core s (SM - {mblock_of p}) F A (P - {p}) (insert p G) xs L" "mblock_of p \<in> SM" "p \<notin> G"
    "bd_blocks (bd_of s p) = BLOCKS_PER_MBLOCK"
proof -
  note gok = coreD(1) [OF c] and mok = coreD(3) [OF c]
  have ph: "p \<in> F \<union> A \<union> P" using p by simp
  note tw = tiling_whole [OF coreD(4) [OF c] ph n]
  show m: "mblock_of p \<in> SM" by (rule head_sm [OF gok ph])
  show b: "bd_blocks (bd_of s p) = BLOCKS_PER_MBLOCK" by (rule tw(2))
  show pG: "p \<notin> G" using small_not_mega [OF c ph] head_cell [OF gok ph] by blast
  have dj: "F \<inter> P = {}" "A \<inter> P = {}" using gok by (auto simp: groups_ok_def)
  then have "F \<union> A \<union> P - {p} = F \<union> A \<union> (P - {p})" using p by blast
  then have g: "groups_ok (ba_mem s) (SM - {mblock_of p}) F A (P - {p})"
    using tw(3) gok unfolding groups_ok_def by auto
  have al: "\<forall>m \<in> SM. m mod MBLOCK_SIZE = 0" using mok by (simp add: megas_ok_def)
  have hd: "mhead (ba_mem s) p"
  proof -
    have "starts_ok (ba_mem s) (mblock_of p)" using gok m by (simp add: groups_ok_def)
    moreover have "MBLOCK_GROUP_BLOCKS (BLOCKS_TO_MBLOCKS BLOCKS_PER_MBLOCK) = BLOCKS_PER_MBLOCK"
      by (simp add: BLOCKS_TO_MBLOCKS_ceil MBLOCK_GROUP_BLOCKS_val)
    ultimately show ?thesis using tw(1) b unfolding mhead_def by simp
  qed
  have sp: "mspan (ba_mem s) p = {mblock_of p ..< mblock_of p + MBLOCK_SIZE}" using mspan_one [of "ba_mem s" p] b by simp
  have sub: "sm_span SM = mspan (ba_mem s) p \<union> sm_span (SM - {mblock_of p})" using m sp by (auto simp: sm_span_def)
  have d: "mspan (ba_mem s) p \<inter> sm_span (SM - {mblock_of p}) = {}"
  proof -
    have "mspan (ba_mem s) p \<inter> {m ..< m + MBLOCK_SIZE} = {}" if "m \<in> SM - {mblock_of p}" for m
      unfolding sp by (rule aligned_disjoint) (use al that in auto)
    then show ?thesis unfolding sm_span_def by blast
  qed
  have gs: "g_span (ba_mem s) (insert p G) = mspan (ba_mem s) p \<union> g_span (ba_mem s) G" by (simp add: g_span_def)
  note M = megasD [OF mok]
  have pg: "mspan (ba_mem s) p \<inter> mspan (ba_mem s) g = {}" if "g \<in> G" for g using M(9) [OF that] sub by blast
  have "megas_ok (ba_mem s) (free_mblock_list s) xs (insert p G) (SM - {mblock_of p})"
  proof (rule megasI)
    show "mcover (ba_mem s) xs \<inter> g_span (ba_mem s) (insert p G) = {}" using M(4,5) sub gs by blast
    show "mcover (ba_mem s) xs \<inter> sm_span (SM - {mblock_of p}) = {}" using M(5) sub by blast
    show "g_span (ba_mem s) (insert p G) \<inter> sm_span (SM - {mblock_of p}) = {}" using M(6) sub gs d by blast
    show "mspan (ba_mem s) g \<inter> mspan (ba_mem s) g' = {}" if "g \<in> insert p G" "g' \<in> insert p G" "g \<noteq> g'" for g g'
      using pg [of g] pg [of g'] M(7) [of g g'] that by blast
  qed (use M(1,2,3) hd in auto)
  then show "core s (SM - {mblock_of p}) F A (P - {p}) (insert p G) xs L"
    using g coreD(2) [OF c] by (simp add: core_def)
qed

text \<open>The other way: a megablock is cut into small groups.\<close>

lemma core_cut:
  assumes c: "core s SM F A P G xs L" and p: "p \<in> G" and n: "bd_blocks (bd_of s p) = BLOCKS_PER_MBLOCK"
  shows "core s (insert (mblock_of p) SM) F A (insert p P) (G - {p}) xs L" "mblock_of p \<notin> SM" "p \<notin> F \<union> A \<union> P"
proof -
  note gok = coreD(1) [OF c] and mok = coreD(3) [OF c]
  have hd: "mhead (ba_mem s) p" using mok p by (simp add: megas_ok_def)
  have sp: "mspan (ba_mem s) p = {mblock_of p ..< mblock_of p + MBLOCK_SIZE}" using mspan_one [of "ba_mem s" p] n by simp
  have pf: "p = FIRST_BDESCR (mblock_of p)" using hd unfolding mhead_def by metis
  have gsm: "mspan (ba_mem s) p \<inter> sm_span SM = {}" by (rule megasD(9) [OF mok p])
  show m: "mblock_of p \<notin> SM"
  proof
    assume "mblock_of p \<in> SM"
    then have "mblock_of p \<in> sm_span SM" by (auto simp: sm_span_def MBLOCK_SIZE_def)
    then show False using gsm sp by (auto simp: MBLOCK_SIZE_def)
  qed
  note tn = tiling_new [OF coreD(4) [OF c] m mblock_of_aligned pf]
  show pn: "p \<notin> F \<union> A \<union> P" by (rule tn(2))
  have "(sizes (ba_mem s))(p := BLOCKS_PER_MBLOCK) = sizes (ba_mem s)" using n by auto
  then have "tiling (sizes (ba_mem s)) (insert (mblock_of p) SM) (F \<union> A \<union> insert p P)" using tn(1) by simp
  moreover have "starts_ok (ba_mem s) (mblock_of p)" using hd by (simp add: mhead_def)
  ultimately have g: "groups_ok (ba_mem s) (insert (mblock_of p) SM) F A (insert p P)"
    using gok pn unfolding groups_ok_def by auto
  have gs: "g_span (ba_mem s) G = mspan (ba_mem s) p \<union> g_span (ba_mem s) (G - {p})" using p by (auto simp: g_span_def)
  have dG: "mspan (ba_mem s) p \<inter> g_span (ba_mem s) (G - {p}) = {}"
  proof -
    have "mspan (ba_mem s) p \<inter> mspan (ba_mem s) g = {}" if "g \<in> G - {p}" for g
      by (rule megasD(7) [OF mok p]) (use that in auto)
    then show ?thesis unfolding g_span_def by blast
  qed
  have ss: "sm_span (insert (mblock_of p) SM) = mspan (ba_mem s) p \<union> sm_span SM" using sp by (auto simp: sm_span_def)
  have "megas_ok (ba_mem s) (free_mblock_list s) xs (G - {p}) (insert (mblock_of p) SM)"
  proof (rule megasI)
    note M = megasD [OF mok]
    show "mcover (ba_mem s) xs \<inter> g_span (ba_mem s) (G - {p}) = {}" using M(4) gs by blast
    show "mcover (ba_mem s) xs \<inter> sm_span (insert (mblock_of p) SM) = {}" using M(4,5) ss gs by blast
    show "g_span (ba_mem s) (G - {p}) \<inter> sm_span (insert (mblock_of p) SM) = {}" using M(6) ss gs dG by blast
  qed (use megasD(1,2,3,7) [OF mok] in auto)
  then show "core s (insert (mblock_of p) SM) F A (insert p P) (G - {p}) xs L"
    using g coreD(2) [OF c] by (simp add: core_def)
qed

text \<open>All the megablocks the allocator owns.\<close>

definition owned :: "bd_mem \<Rightarrow> nat set \<Rightarrow> addr list \<Rightarrow> addr set \<Rightarrow> nat set" where
  "owned mem SM xs G = sm_span SM \<union> mcover mem xs \<union> g_span mem G"

lemma core_free_mega:
  assumes c: "core s SM F A P G xs L" and g: "g \<in> G"
  shows "\<exists>s' xs'. free_mega_group g s = Some s' \<and> core s' SM F A P (G - {g}) xs' L \<and>
    owned (ba_mem s') SM xs' (G - {g}) = owned (ba_mem s) SM xs G \<and>
    (\<forall>x. x \<notin> insert g (set xs) \<longrightarrow> bd_of s' x = bd_of s x) \<and>
    same_rest s s'"
proof -
  note gok = coreD(1) [OF c] and mok = coreD(3) [OF c]
  have hd: "mhead (ba_mem s) g" and l: "mlist (ba_mem s) (free_mblock_list s) xs"
    and d: "mspan (ba_mem s) g \<inter> mcover (ba_mem s) xs = {}"
    using megasD(1,2,8) [OF mok] g by auto
  obtain s' xs' where f: "free_mega_group g s = Some s'" "mlist (ba_mem s') (free_mblock_list s') xs'"
    "mcover (ba_mem s') xs' = mcover (ba_mem s) xs \<union> mspan (ba_mem s) g"
    "mframe (insert g (set xs)) (ba_mem s) (ba_mem s')" "set xs' \<subseteq> insert g (set xs)"
    "same_rest s s'"
    by (rule free_mega_groupE [OF l hd d])
  have eq: "bd_of s' x = bd_of s x" if "x \<notin> insert g (set xs)" for x using f(4) that by (simp add: mframe_def)
  have st: "bd_start (bd_of s' x) = bd_start (bd_of s x)" for x using f(4) by (simp add: mframe_def)
  have out: "x \<notin> insert g (set xs)" if "m \<in> SM" "x \<in> descs m" for m x
    using mega_not_desc [OF mok, of x m] that g by blast
  have g': "groups_ok (ba_mem s') SM F A P" by (rule groups_ok_outside [OF gok]) (use out eq in blast)
  have "x \<notin> insert g (set xs)" if "x \<in> F" for x
    using small_not_mega [OF c, of x x] head_cell [OF gok, of x] that g by blast
  then have "fl_ok (ba_mem s') (free_list s) L F"
    by (intro fl_ok_cong [OF coreD(2) [OF c]]) (use eq in simp)
  moreover have "free_list s' = free_list s" using f(6) by (simp add: same_rest_def)
  ultimately have fl: "fl_ok (ba_mem s') (free_list s') L F" by simp
  have Gx: "x \<notin> insert g (set xs)" if "x \<in> G - {g}" for x
  proof -
    have "mspan (ba_mem s) x \<inter> mcover (ba_mem s) xs = {}" using megasD(8) [OF mok] that by blast
    then have "x \<notin> set xs" using mend_gt [of x "ba_mem s"] by (force simp: mcover_def mspan_def)
    then show ?thesis using that by blast
  qed
  have sp: "mspan (ba_mem s') x = mspan (ba_mem s) x" if "x \<in> G - {g}" for x
    using eq [OF Gx [OF that]] by (simp add: mspan_def mend_def)
  have gs: "g_span (ba_mem s') (G - {g}) = g_span (ba_mem s) (G - {g})" using sp by (auto simp: g_span_def)
  have gs': "g_span (ba_mem s) G = mspan (ba_mem s) g \<union> g_span (ba_mem s) (G - {g})" using g by (auto simp: g_span_def)
  have dG: "mspan (ba_mem s) g \<inter> g_span (ba_mem s) (G - {g}) = {}"
  proof -
    have "mspan (ba_mem s) g \<inter> mspan (ba_mem s) g' = {}" if "g' \<in> G - {g}" for g'
      by (rule megasD(7) [OF mok g]) (use that in auto)
    then show ?thesis unfolding g_span_def by blast
  qed
  have hd': "mhead (ba_mem s') x" if x: "x \<in> G - {g}" for x
    by (rule mhead_same [of "ba_mem s"]) (use megasD(2) [OF mok] x eq [OF Gx [OF x]] st in auto)
  have dd: "mspan (ba_mem s') x \<inter> mspan (ba_mem s') y = {}" if "x \<in> G - {g}" "y \<in> G - {g}" "x \<noteq> y" for x y
    using sp that megasD(7) [OF mok, of x y] by simp
  have m': "megas_ok (ba_mem s') (free_mblock_list s') xs' (G - {g}) SM"
  proof (rule megasI)
    note M = megasD [OF mok]
    show "mcover (ba_mem s') xs' \<inter> g_span (ba_mem s') (G - {g}) = {}" using M(4) gs gs' dG f(3) by blast
    show "mcover (ba_mem s') xs' \<inter> sm_span SM = {}" using M(5) M(9) [OF g] f(3) by blast
    show "g_span (ba_mem s') (G - {g}) \<inter> sm_span SM = {}" using M(6) gs gs' by blast
  qed (use megasD(3) [OF mok] f(2) hd' dd in auto)
  have "owned (ba_mem s') SM xs' (G - {g}) = owned (ba_mem s) SM xs G"
    unfolding owned_def f(3) gs gs' by blast
  then show ?thesis using f(1,6) g' fl m' eq by (intro exI [of _ s'] exI [of _ xs']) (simp add: core_def)
qed

section \<open>What is not touched\<close>

text \<open>The descriptors of the allocated groups are left as they are.\<close>

definition keeps :: "addr set \<Rightarrow> addr set \<Rightarrow> ba_state \<Rightarrow> ba_state \<Rightarrow> bool" where
  "keeps A G s s' \<longleftrightarrow>
     (\<forall>h \<in> A. \<forall>x \<in> insert h (cells h (bd_blocks (bd_of s h))). bd_of s' x = bd_of s x) \<and>
     (\<forall>g \<in> G. bd_of s' g = bd_of s g)"

lemma keeps_trans: "keeps A G s s' \<Longrightarrow> keeps A G s' s'' \<Longrightarrow> keeps A G s s''"
  by (simp add: keeps_def)

lemma keeps_refl [simp]: "keeps A G s s"
  by (simp add: keeps_def)

lemma keeps_mem: "ba_mem s' = ba_mem s \<Longrightarrow> keeps A G s s'"
  by (simp add: keeps_def)

lemma keepsI:
  assumes c: "core s SM F A P G xs L"
    and eq: "\<And>q. q \<notin> F \<Longrightarrow> (\<And>p. p \<in> P \<Longrightarrow> q \<notin> cells p (bd_blocks (bd_of s p))) \<Longrightarrow> bd_of s' q = bd_of s q"
  shows "keeps A G s s'"
proof -
  note gok = coreD(1) [OF c]
  have a: "bd_of s' x = bd_of s x" if h: "h \<in> A" "x \<in> cells h (bd_blocks (bd_of s h))" for h x
  proof (rule eq)
    have hn: "h \<notin> F" "h \<notin> P" using gok h(1) by (auto simp: groups_ok_def)
    show "x \<notin> F" using interior_not_head [OF gok, of h x] h hn by blast
    show "x \<notin> cells p (bd_blocks (bd_of s p))" if "p \<in> P" for p
      using tiling_unique [OF coreD(4) [OF c], of h p x] h that hn by blast
  qed
  have g: "bd_of s' g = bd_of s g" if g: "g \<in> G" for g
  proof (rule eq)
    show "g \<notin> F" using small_not_mega [OF c, of g g] head_cell [OF gok, of g] g by blast
    show "g \<notin> cells p (bd_blocks (bd_of s p))" if "p \<in> P" for p using small_not_mega [OF c, of p g] that g by blast
  qed
  show ?thesis using a g head_cell [OF gok] unfolding keeps_def by blast
qed

lemma keeps_mega:
  assumes c: "core s SM F A P G xs L" and g: "g \<in> G"
    and eq: "\<And>q. q \<notin> insert g (set xs) \<Longrightarrow> bd_of s' q = bd_of s q"
  shows "keeps A (G - {g}) s s'"
proof -
  note gok = coreD(1) [OF c] and mok = coreD(3) [OF c]
  have "bd_of s' x = bd_of s x" if h: "h \<in> A" "x \<in> cells h (bd_blocks (bd_of s h))" for h x
    by (rule eq) (use small_not_mega [OF c, of h x] h g in blast)
  moreover have "bd_of s' x = bd_of s x" if x: "x \<in> G - {g}" for x
  proof (rule eq)
    have "x \<notin> set xs"
      using megasD(8) [OF mok, of x] x mend_gt [of x "ba_mem s"] by (force simp: mcover_def mspan_def)
    then show "x \<notin> insert g (set xs)" using x by blast
  qed
  ultimately show ?thesis using head_cell [OF gok] unfolding keeps_def by blast
qed

text \<open>The outcome: nothing pending, all coalesced, the same megablocks owned, the rest untouched.\<close>

definition same_counts :: "ba_state \<Rightarrow> ba_state \<Rightarrow> bool" where
  "same_counts s s' \<longleftrightarrow> n_alloc_blocks s' = n_alloc_blocks s \<and> hw_alloc_blocks s' = hw_alloc_blocks s \<and> ba_mb s' = ba_mb s"

definition settled :: "ba_state \<Rightarrow> nat set \<Rightarrow> addr list \<Rightarrow> addr set \<Rightarrow> addr set \<Rightarrow> ba_state \<Rightarrow> bool" where
  "settled s SM xs A G s' \<longleftrightarrow>
     (\<exists>SM' F' xs' L'. core s' SM' F' A {} G xs' L' \<and> coalesced (ba_mem s') F' \<and> SM' \<subseteq> SM \<and>
        owned (ba_mem s') SM' xs' G = owned (ba_mem s) SM xs G) \<and> keeps A G s s' \<and> same_counts s s'"

lemma settledI:
  assumes "core s' SM' F' A {} G xs' L'" "coalesced (ba_mem s') F'" "SM' \<subseteq> SM"
    "owned (ba_mem s') SM' xs' G = owned (ba_mem s) SM xs G" "keeps A G s s'" "same_counts s s'"
  shows "settled s SM xs A G s'"
  unfolding settled_def using assms(1-4) by (intro conjI exI assms(5,6))

lemma settled_before:
  assumes "settled s1 SM xs A G s'" "keeps A G s s1" "same_counts s s1"
    "owned (ba_mem s1) SM xs G = owned (ba_mem s) SM xs G"
  shows "settled s SM xs A G s'"
  using assms(1) keeps_trans [OF assms(2)] assms(3,4) unfolding settled_def same_counts_def by auto

lemma owned_cong:
  assumes "\<And>q. q \<in> set xs \<union> G \<Longrightarrow> bd_blocks (mem' q) = bd_blocks (mem q)"
  shows "owned mem' SM xs G = owned mem SM xs G"
  using assms by (auto simp: owned_def mcover_def g_span_def mspan_def mend_def)

lemma coalesced_cong:
  assumes "coalesced mem F" "\<And>q. q \<in> F' \<Longrightarrow> bd_blocks (mem' q) = bd_blocks (mem q)" "F' \<subseteq> F"
  shows "coalesced mem' F'"
  using assms unfolding coalesced_def by (metis subsetD)

section \<open>Inserting a pending group\<close>

lemma core_counters [simp]:
  "core (s\<lparr>n_alloc_blocks := v\<rparr>) SM F A P G xs L \<longleftrightarrow> core s SM F A P G xs L"
  "core (s\<lparr>hw_alloc_blocks := v\<rparr>) SM F A P G xs L \<longleftrightarrow> core s SM F A P G xs L"
  by (simp_all add: core_def)

lemma setup_tail_facts:
  assumes "0 < bd_blocks (mem p)"
  shows "\<And>q. q \<notin> cells p (bd_blocks (mem p)) \<Longrightarrow> setup_tail p mem q = mem q"
    "bd_blocks (setup_tail p mem p) = bd_blocks (mem p)" "bd_free (setup_tail p mem p) = bd_free (mem p)"
    "\<And>q. bd_start (setup_tail p mem q) = bd_start (mem q)" "check_tail (setup_tail p mem) p"
proof -
  note t = tail_cell [of mem p, OF assms]
  show "\<And>q. q \<notin> cells p (bd_blocks (mem p)) \<Longrightarrow> setup_tail p mem q = mem q"
    using t(1) by (auto simp: setup_tail_def Let_def upd_bd_def)
  show b: "bd_blocks (setup_tail p mem p) = bd_blocks (mem p)" "bd_free (setup_tail p mem p) = bd_free (mem p)"
    "\<And>q. bd_start (setup_tail p mem q) = bd_start (mem q)"
    by (auto simp: setup_tail_def Let_def upd_bd_def)
  have "tail_of (setup_tail p mem) p = tail_of mem p" using b(1) by (simp add: tail_of_def)
  then show "check_tail (setup_tail p mem) p" by (simp add: check_tail_def setup_tail_def Let_def)
qed

lemma core_setup_tail:
  assumes c: "core s SM F A P G xs L" and p: "p \<in> P"
  shows "core (s\<lparr>ba_mem := setup_tail p (ba_mem s)\<rparr>) SM F A P G xs L" "keeps A G s (s\<lparr>ba_mem := setup_tail p (ba_mem s)\<rparr>)"
proof -
  have b: "0 < bd_blocks (bd_of s p)" using head_cell [OF coreD(1) [OF c], of p] p by simp
  note f = setup_tail_facts [of "ba_mem s" p, OF b]
  show "core (s\<lparr>ba_mem := setup_tail p (ba_mem s)\<rparr>) SM F A P G xs L"
    by (rule core_pending [OF c p f(1) f(2) f(4)])
  show "keeps A G s (s\<lparr>ba_mem := setup_tail p (ba_mem s)\<rparr>)"
    by (rule keepsI [OF c]) (use f(1) p in auto)
qed

lemma free_insert_settled:
  assumes c: "core s SM F A {p} G xs L" and o: "coalesced (ba_mem s) F"
    and p: "bd_free (bd_of s p) = FREE_MARK" "bd_blocks (bd_of s p) < BLOCKS_PER_MBLOCK"
    and nb: "p + 64 * bd_blocks (bd_of s p) \<notin> F" "\<And>h. h \<in> F \<Longrightarrow> h + 64 * bd_blocks (bd_of s h) \<noteq> p"
  shows "\<exists>s'. free_insert p s = Some s' \<and> settled s SM xs A G s'"
proof -
  let ?s1 = "s\<lparr>ba_mem := setup_tail p (ba_mem s)\<rparr>"
  have b: "0 < bd_blocks (bd_of s p)" using head_cell [OF coreD(1) [OF c], of p] by simp
  note f = setup_tail_facts [of "ba_mem s" p, OF b]
  have c1: "core ?s1 SM F A {p} G xs L" and k1: "keeps A G s ?s1" using core_setup_tail [OF c] by auto
  let ?k = "log_2 (bd_blocks (bd_of ?s1 p))" and ?s2 = "fl_onto p (log_2 (bd_blocks (bd_of ?s1 p))) ?s1"
  have fi: "free_insert p s = Some ?s2" using f(2) p(2) by (simp add: free_insert_def free_list_insert_def)
  have o1: "bd_blocks (bd_of ?s1 p) < BLOCKS_PER_MBLOCK" "bd_free (bd_of ?s1 p) = FREE_MARK" "check_tail (ba_mem ?s1) p"
    using f(2,3,5) p by simp_all
  note u = core_fl_onto [OF c1 singletonI refl o1]
  obtain L' where c2: "core ?s2 SM (insert p F) A {} G xs L'" using u(1) by auto
  have k2: "keeps A G ?s1 ?s2"
  proof (rule keepsI [OF c1])
    fix q assume "q \<notin> F" "\<And>p'. p' \<in> {p} \<Longrightarrow> q \<notin> cells p' (bd_blocks (bd_of ?s1 p'))"
    then have "q \<noteq> p" using f(2) b by force
    then show "bd_of ?s2 q = bd_of ?s1 q" using u(3) \<open>q \<notin> F\<close> by simp
  qed
  have sz: "bd_blocks (bd_of ?s2 q) = bd_blocks (bd_of s q)" if q: "q \<in> insert p F" for q
  proof -
    have "bd_blocks (bd_of ?s2 q) = bd_blocks (bd_of ?s1 q)" by (rule same_but_linksD(3) [OF u(2)])
    moreover have "bd_blocks (bd_of ?s1 q) = bd_blocks (bd_of s q)"
    proof (cases "q = p")
      case False
      then have "q \<notin> cells p (bd_blocks (bd_of s p))" using q interior_not_head [OF coreD(1) [OF c], of p q] by blast
      then show ?thesis using f(1) by simp
    qed (use f(2) in simp)
    ultimately show ?thesis by simp
  qed
  have co: "coalesced (ba_mem ?s2) (insert p F)"
    using o sz nb b unfolding coalesced_def by auto
  have mq: "bd_of ?s2 q = bd_of s q" if q: "q \<in> set xs \<union> G" for q
  proof -
    have "q \<notin> insert p F" "q \<notin> cells p (bd_blocks (bd_of s p))"
      using small_not_mega [OF c, of q q] small_not_mega [OF c, of p q] head_cell [OF coreD(1) [OF c], of q] q by blast+
    then show ?thesis using u(3) f(1) by simp
  qed
  have "settled s SM xs A G ?s2"
    by (rule settledI [OF c2 co order_refl owned_cong keeps_trans [OF k1 k2]])
      (use mq in \<open>simp_all add: same_counts_def\<close>)
  then show ?thesis using fi by blast
qed

section \<open>Freeing a small group\<close>

lemma free_whole_settled:
  assumes c: "core s SM F A {p} G xs L" and o: "coalesced (ba_mem s) F" and n: "BLOCKS_PER_MBLOCK \<le> bd_blocks (bd_of s p)"
  shows "\<exists>s'. free_mega_group p s = Some s' \<and> settled s SM xs A G s'"
proof -
  note w = core_whole [OF c singletonI n]
  have c1: "core s (SM - {mblock_of p}) F A {} (insert p G) xs L" using w(1) by simp
  have G: "insert p G - {p} = G" using w(3) by simp
  obtain s' xs' where f: "free_mega_group p s = Some s'" "core s' (SM - {mblock_of p}) F A {} G xs' L"
    "owned (ba_mem s') (SM - {mblock_of p}) xs' G = owned (ba_mem s) (SM - {mblock_of p}) xs (insert p G)"
    "\<forall>x. x \<notin> insert p (set xs) \<longrightarrow> bd_of s' x = bd_of s x" "same_rest s s'"
    using core_free_mega [OF c1 insertI1] unfolding G by (elim exE conjE) (rule that)
  have k: "keeps A G s s'" using keeps_mega [OF c1 insertI1, of s'] f(4) unfolding G by blast
  have "mspan (ba_mem s) p = {mblock_of p ..< mblock_of p + MBLOCK_SIZE}" using mspan_one [of "ba_mem s" p] w(4) by simp
  then have "owned (ba_mem s) (SM - {mblock_of p}) xs (insert p G) = owned (ba_mem s) SM xs G"
    using w(2) by (auto simp: owned_def sm_span_def g_span_def)
  moreover have "bd_blocks (bd_of s' q) = bd_blocks (bd_of s q)" if "q \<in> F" for q
  proof -
    have "q \<notin> insert p (set xs)" using small_not_mega [OF c1, of q q] head_cell [OF coreD(1) [OF c1], of q] that by blast
    then show ?thesis using f(4) by simp
  qed
  then have "coalesced (ba_mem s') F" using coalesced_cong [OF o] by blast
  ultimately have "settled s SM xs A G s'"
    by (intro settledI [OF f(2)]) (use f k in \<open>auto simp: same_counts_def same_rest_def\<close>)
  then show ?thesis using f(1) by blast
qed

text \<open>No group ends where a group that is first in its megablock begins.\<close>

lemma first_no_pred:
  assumes "core s SM F A P G xs L" "h \<in> F \<union> A \<union> P" "p = FIRST_BDESCR (mblock_of p)"
  shows "h + 64 * bd_blocks (bd_of s h) \<noteq> p"
proof
  assume e: "h + 64 * bd_blocks (bd_of s h) = p"
  note t = tilingD [OF coreD(4) [OF assms(1)] assms(2)]
  have "p - 64 \<in> cells h (bd_blocks (bd_of s h))" using e t(1) by (auto simp: cells_mem intro!: exI [of _ "bd_blocks (bd_of s h) - 1"])
  then have d: "p - 64 \<in> descs (mblock_of h)" using t(2) by blast
  then have "mblock_of (p - 64) = mblock_of h" by (rule descs_mblock) simp
  moreover have "p = 256 + mblock_of p" by (rule trans [OF assms(3) FIRST_BDESCR_val])
  then have "p - 64 = 192 + mblock_of p" by linarith
  moreover have "mblock_of (192 + mblock_of p) = mblock_of p"
    by (rule mblock_of_desc) (simp, simp add: MBLOCK_SIZE_def)
  ultimately show False using descs_bounds [OF d] by (simp add: FIRST_BDESCR_val)
qed

text \<open>The predecessor that \<open>freeGroup\<close> finds through the descriptor before.\<close>

lemma find_prev:
  assumes c: "core s SM F A {p} G xs L" and n: "p \<noteq> FIRST_BDESCR (mblock_of p)"
  obtains g where "g \<in> F \<union> A" "g + 64 * bd_blocks (bd_of s g) = p" "mblock_of g = mblock_of p"
    "(if bd_blocks (bd_of s (p - BDESCR_SIZE)) = 0 then bd_link (bd_of s (p - BDESCR_SIZE)) else p - BDESCR_SIZE) = g"
proof -
  have ph: "p \<in> F \<union> A \<union> {p}" by simp
  obtain g where g: "g \<in> F \<union> A \<union> {p}" "g \<noteq> p" "g + 64 * bd_blocks (bd_of s g) = p" "mblock_of g = mblock_of p"
    "p - 64 \<in> cells g (bd_blocks (bd_of s g))"
    by (rule tiling_prev [OF coreD(4) [OF c] ph n])
  then have gF: "g \<in> F \<union> A" by blast
  have b: "0 < bd_blocks (bd_of s g)" using head_cell [OF coreD(1) [OF c] g(1)] by simp
  have t: "tail_of (ba_mem s) g = p - 64" using g(3) by (simp add: tail_of_def bd_plus_val BDESCR_SIZE_def)
  note tc = tail_cell [of "ba_mem s" g, OF b, unfolded t]
  have "(if bd_blocks (bd_of s (p - 64)) = 0 then bd_link (bd_of s (p - 64)) else p - 64) = g"
  proof (cases "p - 64 = g")
    case True then show ?thesis using b by simp
  next
    case False
    have "bd_blocks (bd_of s (p - 64)) = 0 \<and> bd_link (bd_of s (p - 64)) = g"
    proof (cases "g \<in> F")
      case True
      then have "check_tail (ba_mem s) g" using coreD(1) [OF c] by (simp add: groups_ok_def)
      then show ?thesis using False t by (simp add: check_tail_def Let_def)
    next
      case nF: False
      then have "interior_ok (ba_mem s) g" using coreD(1) [OF c] gF by (simp add: groups_ok_def)
      then show ?thesis using g(5) False by (simp add: interior_ok_def)
    qed
    then show ?thesis by simp
  qed
  then have "(if bd_blocks (bd_of s (p - BDESCR_SIZE)) = 0 then bd_link (bd_of s (p - BDESCR_SIZE)) else p - BDESCR_SIZE) = g"
    unfolding BDESCR_SIZE_def .
  then show ?thesis by (rule that [OF gF g(3,4)])
qed

lemma upd_bd_blocks_const:
  "upd_bd p (\<lambda>d. d\<lparr>bd_blocks := bd_blocks d + k\<rparr>) mem = upd_bd p (\<lambda>d. d\<lparr>bd_blocks := bd_blocks (mem p) + k\<rparr>) mem"
  by (simp add: upd_bd_def)

lemma freeGroup_back_settled:
  assumes c: "core s SM F A {p} G xs L" and o: "coalesced (ba_mem s) F"
    and p: "bd_free (bd_of s p) = FREE_MARK" "bd_blocks (bd_of s p) < BLOCKS_PER_MBLOCK"
    and nb: "p + 64 * bd_blocks (bd_of s p) \<notin> F"
  shows "\<exists>s'. freeGroup_back p s = Some s' \<and> settled s SM xs A G s'"
proof (cases "p = FIRST_BDESCR (mblock_of p)")
  case True
  have "\<And>h. h \<in> F \<Longrightarrow> h + 64 * bd_blocks (bd_of s h) \<noteq> p" using first_no_pred [OF c _ True] by blast
  moreover have "freeGroup_back p s = free_insert p s" using True by (simp add: freeGroup_back_def)
  ultimately show ?thesis using free_insert_settled [OF c o p nb] by simp
next
  case first: False
  note gok = coreD(1) [OF c]
  obtain g where g: "g \<in> F \<union> A" "g + 64 * bd_blocks (bd_of s g) = p" "mblock_of g = mblock_of p"
    "(if bd_blocks (bd_of s (p - BDESCR_SIZE)) = 0 then bd_link (bd_of s (p - BDESCR_SIZE)) else p - BDESCR_SIZE) = g"
    by (rule find_prev [OF c first])
  show ?thesis
  proof (cases "g \<in> F")
    case False
    have gm: "bd_free (bd_of s g) \<noteq> FREE_MARK" using gok g(1) False by (auto simp: groups_ok_def)
    have "freeGroup_back p s = free_insert p s" using first g(4) gm by (simp add: freeGroup_back_def Let_def)
    moreover have "h + 64 * bd_blocks (bd_of s h) \<noteq> p" if "h \<in> F" for h
    proof
      assume e: "h + 64 * bd_blocks (bd_of s h) = p"
      have "p - 64 \<in> cells k (bd_blocks (bd_of s k))" if "k + 64 * bd_blocks (bd_of s k) = p" "k \<in> F \<union> A" for k
      proof -
        have "0 < bd_blocks (bd_of s k)" using head_cell [OF gok, of k] that(2) by auto
        then show ?thesis using that(1) by (auto simp: cells_mem intro!: exI [of _ "bd_blocks (bd_of s k) - 1"])
      qed
      then have "h = g" using tiling_unique [OF coreD(4) [OF c], of h g "p - 64"] e g(1,2) that by blast
      then show False using that False by blast
    qed
    ultimately show ?thesis using free_insert_settled [OF c o p nb] by simp
  next
    case True
    have gm: "bd_free (bd_of s g) = FREE_MARK" using gok True by (simp add: groups_ok_def)
    have gp: "g \<noteq> p" using gok True by (auto simp: groups_ok_def)
    let ?s1 = "fl_remove g (log_2 (bd_blocks (bd_of s g))) s"
    note u = core_fl_remove [OF c True refl]
    obtain L1 where c1: "core ?s1 SM (F - {g}) A {g, p} G xs L1" using u(1) by (auto simp: insert_commute)
    have b1: "bd_blocks (bd_of ?s1 q) = bd_blocks (bd_of s q)" "bd_free (bd_of ?s1 q) = bd_free (bd_of s q)" for q
      using same_but_linksD [OF u(2)] by simp_all
    let ?s2 = "set_bd g (\<lambda>d. d\<lparr>bd_blocks := bd_blocks (bd_of ?s1 g) + bd_blocks (bd_of ?s1 p)\<rparr>) ?s1"
    have "core ?s2 SM (F - {g}) A ({g, p} - {p}) G xs L1"
      by (rule core_merge [OF c1]) (use g b1 in simp_all)
    then have c2: "core ?s2 SM (F - {g}) A {g} G xs L1" using gp by (simp add: insert_Diff_if)
    have e2: "set_bd g (\<lambda>d. d\<lparr>bd_blocks := bd_blocks d + bd_blocks (bd_of ?s1 p)\<rparr>) ?s1 = ?s2"
      by (simp add: set_bd_def upd_bd_blocks_const)
    have bg: "bd_blocks (bd_of ?s2 g) = bd_blocks (bd_of s g) + bd_blocks (bd_of s p)" using b1 by simp
    have bq: "bd_blocks (bd_of ?s2 q) = bd_blocks (bd_of s q)" if "q \<noteq> g" for q using that b1 by simp
    have fg: "bd_free (bd_of ?s2 g) = FREE_MARK" using gm b1 by simp
    have k: "keeps A G s ?s2"
    proof (rule keepsI [OF c])
      fix q assume "q \<notin> F" "\<And>p'. p' \<in> {p} \<Longrightarrow> q \<notin> cells p' (bd_blocks (bd_of s p'))"
      then have "q \<noteq> g" "bd_of ?s1 q = bd_of s q" using u(3) [of q] True by auto
      then show "bd_of ?s2 q = bd_of s q" by simp
    qed
    have o2: "coalesced (ba_mem ?s2) (F - {g})" by (rule coalesced_cong [OF o]) (use bq in auto)
    have mx: "q \<noteq> g" if "q \<in> set xs \<union> G" for q
      using small_not_mega [OF c, of g g] head_cell [OF gok, of g] True that by blast
    have ow: "owned (ba_mem ?s2) SM xs G = owned (ba_mem s) SM xs G" by (rule owned_cong) (use mx bq in blast)
    have sc: "same_counts s ?s2" by (simp add: same_counts_def)
    have fb: "freeGroup_back p s = (if bd_blocks (bd_of ?s2 g) \<ge> BLOCKS_PER_MBLOCK then free_mega_group g ?s2 else free_insert g ?s2)"
      using first gm unfolding freeGroup_back_def Let_def g(4) e2 by simp
    have "\<exists>s'. freeGroup_back p s = Some s' \<and> settled ?s2 SM xs A G s'"
    proof (cases "bd_blocks (bd_of ?s2 g) \<ge> BLOCKS_PER_MBLOCK")
      case True
      then show ?thesis using free_whole_settled [OF c2 o2 True] fb by simp
    next
      case small: False
      have "g + 64 * bd_blocks (bd_of ?s2 g) = p + 64 * bd_blocks (bd_of s p)" 
        unfolding bg by (metis add.assoc add_mult_distrib2 g(2))
      then have "g + 64 * bd_blocks (bd_of ?s2 g) \<notin> F - {g}" using nb by simp
      moreover have "h + 64 * bd_blocks (bd_of ?s2 h) \<noteq> g" if "h \<in> F - {g}" for h
        using o bq [of h] that True unfolding coalesced_def by auto
      ultimately show ?thesis using free_insert_settled [OF c2 o2 fg] small fb by simp
    qed
    then show ?thesis using settled_before [OF _ k sc ow] by blast
  qed
qed

lemma beyond_no_head:
  assumes c: "core s SM F A P G xs L" and p: "p \<in> F \<union> A \<union> P"
    and n: "LAST_BDESCR (mblock_of p) < p + 64 * bd_blocks (bd_of s p)"
  shows "p + 64 * bd_blocks (bd_of s p) \<notin> F \<union> A \<union> P"
proof
  let ?n = "p + 64 * bd_blocks (bd_of s p)"
  assume h: "?n \<in> F \<union> A \<union> P"
  note t = tilingD [OF coreD(4) [OF c] p]
  have "?n - 64 \<in> cells p (bd_blocks (bd_of s p))"
    using t(1) by (auto simp: cells_mem intro!: exI [of _ "bd_blocks (bd_of s p) - 1"])
  then have "?n - 64 \<le> LAST_BDESCR (mblock_of p)" using t(2) descs_bounds by blast
  then have le: "?n \<le> 16384 + mblock_of p" "16320 + mblock_of p < ?n" using n by (simp_all add: LAST_BDESCR_val)
  have d: "?n \<in> descs (mblock_of ?n)" by (rule tilingD(3) [OF coreD(4) [OF c] h])
  have "mblock_of ?n = mblock_of p"
  proof -
    have "?n = (?n - mblock_of p) + mblock_of p" using le by simp
    moreover have "?n - mblock_of p < MBLOCK_SIZE" using le by (simp add: MBLOCK_SIZE_def)
    ultimately show ?thesis using mblock_of_desc [OF mblock_of_aligned [of p]] by metis
  qed
  then show False using descs_bounds [OF d] n by simp
qed

lemma dbl_link_remove_upd_blocks:
  assumes "dbl_link_remove mem x h = (mem', h')"
  shows "dbl_link_remove (upd_bd p (\<lambda>d. d\<lparr>bd_blocks := n\<rparr>) mem) x h = (upd_bd p (\<lambda>d. d\<lparr>bd_blocks := n\<rparr>) mem', h')"
proof -
  let ?u = "upd_bd p (\<lambda>d. d\<lparr>bd_blocks := n\<rparr>)"
  have l: "bd_link (?u m q) = bd_link (m q)" "bd_back (?u m q) = bd_back (m q)" for m q by (simp_all add: upd_bd_def)
  have c: "upd_bd a (\<lambda>d. d\<lparr>bd_link := v\<rparr>) (?u m) = ?u (upd_bd a (\<lambda>d. d\<lparr>bd_link := v\<rparr>) m)"
    "upd_bd a (\<lambda>d. d\<lparr>bd_back := v\<rparr>) (?u m) = ?u (upd_bd a (\<lambda>d. d\<lparr>bd_back := v\<rparr>) m)" for a v m
    by (auto simp: upd_bd_def fun_eq_iff)
  show ?thesis using assms
    by (cases "bd_back (mem x) = NULL") (auto simp: dbl_link_remove_def Let_def l c)
qed

lemma fl_remove_upd_blocks:
  "fl_remove x k (set_bd p (\<lambda>d. d\<lparr>bd_blocks := n\<rparr>) s) = set_bd p (\<lambda>d. d\<lparr>bd_blocks := n\<rparr>) (fl_remove x k s)"
proof -
  obtain mem' h' where r: "dbl_link_remove (ba_mem s) x (free_list s k) = (mem', h')" by fastforce
  show ?thesis using r dbl_link_remove_upd_blocks [OF r, of p n] by (simp add: fl_remove_def set_bd_def)
qed

text \<open>Coalescing forwards: a pending group absorbs the free group after it.\<close>

lemma absorb_next:
  assumes c: "core s SM F A {p} G xs L" and o: "coalesced (ba_mem s) F"
    and x: "x \<in> F" "x = p + 64 * bd_blocks (bd_of s p)" "mblock_of x = mblock_of p"
  defines "s' \<equiv> fl_remove x (log_2 (bd_blocks (bd_of s x)))
            (set_bd p (\<lambda>d. d\<lparr>bd_blocks := bd_blocks d + bd_blocks (bd_of s x)\<rparr>) s)"
  shows "\<exists>L'. core s' SM (F - {x}) A {p} G xs L'" "coalesced (ba_mem s') (F - {x})"
    "bd_blocks (bd_of s' p) = bd_blocks (bd_of s p) + bd_blocks (bd_of s x)" "bd_free (bd_of s' p) = bd_free (bd_of s p)"
    "p + 64 * bd_blocks (bd_of s' p) \<notin> F - {x}" "keeps A G s s'" "same_counts s s'"
    "owned (ba_mem s') SM xs G = owned (ba_mem s) SM xs G"
proof -
  note gok = coreD(1) [OF c]
  have px: "p \<noteq> x" using gok x(1) by (auto simp: groups_ok_def)
  let ?s1 = "fl_remove x (log_2 (bd_blocks (bd_of s x))) s"
  note u = core_fl_remove [OF c x(1) refl]
  obtain L1 where c1: "core ?s1 SM (F - {x}) A {x, p} G xs L1" using u(1) by auto
  have b1: "bd_blocks (bd_of ?s1 q) = bd_blocks (bd_of s q)" "bd_free (bd_of ?s1 q) = bd_free (bd_of s q)" for q
    using same_but_linksD [OF u(2)] by simp_all
  have e: "s' = set_bd p (\<lambda>d. d\<lparr>bd_blocks := bd_blocks (bd_of ?s1 p) + bd_blocks (bd_of ?s1 x)\<rparr>) ?s1"
    unfolding s'_def b1 by (simp add: set_bd_def upd_bd_blocks_const fl_remove_upd_blocks [unfolded set_bd_def])
  have "core s' SM (F - {x}) A ({x, p} - {x}) G xs L1"
    unfolding e by (rule core_merge [OF c1]) (use x b1 in simp_all)
  then show "\<exists>L'. core s' SM (F - {x}) A {p} G xs L'" using px by (auto simp: insert_Diff_if)
  have bq: "bd_blocks (bd_of s' q) = bd_blocks (bd_of s q)" if "q \<noteq> p" for q using that b1 unfolding e by simp
  have "p \<notin> F" using gok by (auto simp: groups_ok_def)
  then have "q \<noteq> p" if "q \<in> F - {x}" for q using that by blast
  then show "coalesced (ba_mem s') (F - {x})" using coalesced_cong [OF o, of "F - {x}"] bq by blast
  show bp: "bd_blocks (bd_of s' p) = bd_blocks (bd_of s p) + bd_blocks (bd_of s x)"
    "bd_free (bd_of s' p) = bd_free (bd_of s p)" unfolding e using b1 by simp_all
  have "p + 64 * bd_blocks (bd_of s' p) = x + 64 * bd_blocks (bd_of s x)"
    unfolding bp by (metis add.assoc add_mult_distrib2 x(2))
  then show "p + 64 * bd_blocks (bd_of s' p) \<notin> F - {x}" using o x(1) unfolding coalesced_def by auto
  show "keeps A G s s'"
  proof (rule keepsI [OF c])
    fix q assume q: "q \<notin> F" "\<And>p'. p' \<in> {p} \<Longrightarrow> q \<notin> cells p' (bd_blocks (bd_of s p'))"
    have "p \<in> cells p (bd_blocks (bd_of s p))" using head_cell [OF gok, of p] by simp
    then have "q \<noteq> p" "bd_of ?s1 q = bd_of s q" using u(3) [of q] q by auto
    then show "bd_of s' q = bd_of s q" unfolding e by simp
  qed
  show "same_counts s s'" unfolding e by (simp add: same_counts_def)
  have "q \<noteq> p" if "q \<in> set xs \<union> G" for q
    using small_not_mega [OF c, of p p] head_cell [OF gok, of p] that by blast
  then show "owned (ba_mem s') SM xs G = owned (ba_mem s) SM xs G" by (intro owned_cong) (use bq in blast)
qed

lemma core_A_to_P:
  assumes "core s SM F A P G xs L" "p \<in> A" shows "core s SM F (A - {p}) (insert p P) G xs L"
proof -
  have "F \<union> (A - {p}) \<union> insert p P = F \<union> A \<union> P" using assms(2) by blast
  then show ?thesis using assms unfolding core_def groups_ok_def by auto
qed

lemma core_P_to_A:
  assumes "core s SM F A P G xs L" "p \<in> P" "bd_blocks (bd_of s p) < BLOCKS_PER_MBLOCK"
    "bd_free (bd_of s p) \<noteq> FREE_MARK" "interior_ok (ba_mem s) p"
  shows "core s SM F (insert p A) (P - {p}) G xs L"
proof -
  have "F \<union> insert p A \<union> (P - {p}) = F \<union> A \<union> P" using assms(2) by blast
  then show ?thesis using assms unfolding core_def groups_ok_def by auto
qed

lemma freeGroup_small:
  assumes c: "core s SM F A {} G xs L" and o: "coalesced (ba_mem s) F" and p: "p \<in> A"
    and n: "\<not> n_alloc_blocks s < of_nat (bd_blocks (bd_of s p))"
  shows "\<exists>s'. freeGroup p s = Some s' \<and>
    settled (s\<lparr>n_alloc_blocks := n_alloc_blocks s - of_nat (bd_blocks (bd_of s p))\<rparr>) SM xs (A - {p}) G s'"
proof -
  let ?s0 = "s\<lparr>n_alloc_blocks := n_alloc_blocks s - of_nat (bd_blocks (bd_of s p))\<rparr>"
  let ?f = "\<lambda>d. d\<lparr>bd_free := FREE_MARK, bd_gen := NULL, bd_gen_no := 0\<rparr>"
  let ?s2 = "(set_bd p ?f s)\<lparr>n_alloc_blocks := n_alloc_blocks s - of_nat (bd_blocks (bd_of s p))\<rparr>"
  have cp: "core s SM F (A - {p}) {p} G xs L" using core_A_to_P [OF c p] by simp
  note gok = coreD(1) [OF cp]
  have pA: "bd_blocks (bd_of s p) < BLOCKS_PER_MBLOCK" "bd_free (bd_of s p) \<noteq> FREE_MARK"
    using coreD(1) [OF c] p by (auto simp: groups_ok_def)
  have b: "0 < bd_blocks (bd_of s p)" using head_cell [OF gok, of p] by simp
  have "core (s\<lparr>ba_mem := upd_bd p ?f (ba_mem s)\<rparr>) SM F (A - {p}) {p} G xs L"
    by (rule core_pending [OF cp]) (use b in \<open>auto simp: upd_bd_def\<close>)
  then have c2: "core ?s2 SM F (A - {p}) {p} G xs L" by (simp add: set_bd_def)
  have pF: "p \<notin> F" using gok by (auto simp: groups_ok_def)
  have b2: "bd_blocks (bd_of ?s2 q) = bd_blocks (bd_of s q)" for q by (simp add: upd_bd_def)
  have o2: "coalesced (ba_mem ?s2) F" by (rule coalesced_cong [OF o b2]) simp
  have f2: "bd_free (bd_of ?s2 p) = FREE_MARK" by simp
  have k2: "keeps (A - {p}) G ?s0 ?s2"
  proof -
    have "keeps (A - {p}) G s ?s2" by (rule keepsI [OF cp]) (use b in \<open>auto simp: upd_bd_def\<close>)
    then show ?thesis by (simp add: keeps_def)
  qed
  have ow2: "owned (ba_mem ?s2) SM xs G = owned (ba_mem ?s0) SM xs G" by (rule owned_cong) (simp add: upd_bd_def)
  have sc2: "same_counts ?s0 ?s2" by (simp add: same_counts_def)
  let ?n = "p + 64 * bd_blocks (bd_of s p)"
  have np: "?n \<noteq> p" using b by simp
  let ?s3 = "fl_remove ?n (log_2 (bd_blocks (bd_of ?s2 ?n)))
      (set_bd p (\<lambda>d. d\<lparr>bd_blocks := bd_blocks d + bd_blocks (bd_of ?s2 ?n)\<rparr>) ?s2)"
  have code: "freeGroup p s =
     (if ?n \<le> LAST_BDESCR (mblock_of p) \<and> bd_free (bd_of s ?n) = FREE_MARK
      then if bd_blocks (bd_of ?s3 p) = BLOCKS_PER_MBLOCK then free_mega_group p ?s3
           else freeGroup_back p (?s3\<lparr>ba_mem := setup_tail p (ba_mem ?s3)\<rparr>)
      else freeGroup_back p ?s2)"
    using pA b n np by (simp add: freeGroup_def Let_def bd_plus_val)
  show ?thesis
  proof (cases "?n \<le> LAST_BDESCR (mblock_of p) \<and> bd_free (bd_of s ?n) = FREE_MARK")
    case False
    have "?n \<notin> F"
    proof (cases "?n \<le> LAST_BDESCR (mblock_of p)")
      case True
      then show ?thesis using False gok by (auto simp: groups_ok_def)
    next
      case beyond: False
      then show ?thesis using beyond_no_head [OF cp, of p] by auto
    qed
    then have "\<exists>s'. freeGroup_back p ?s2 = Some s' \<and> settled ?s2 SM xs (A - {p}) G s'"
      using freeGroup_back_settled [OF c2 o2 f2] pA(1) b2 by simp
    then show ?thesis unfolding code using False settled_before [OF _ k2 sc2 ow2] by auto
  next
    case True
    have t: "?n \<in> F \<union> (A - {p}) \<union> {p}" "mblock_of ?n = mblock_of p"
      using tiling_next [OF coreD(4) [OF cp], of p] True by auto
    have nF: "?n \<in> F" using t(1) True np coreD(1) [OF c] by (auto simp: groups_ok_def)
    have nn: "?n = p + 64 * bd_blocks (bd_of ?s2 p)" using b2 by simp
    note a = absorb_next [OF c2 o2 nF nn t(2)]
    obtain L3 where c3: "core ?s3 SM (F - {?n}) (A - {p}) {p} G xs L3" using a(1) by blast
    have fin: "\<exists>s'. freeGroup p s = Some s' \<and> settled ?s3 SM xs (A - {p}) G s'"
    proof (cases "bd_blocks (bd_of ?s3 p) = BLOCKS_PER_MBLOCK")
      case whole: True
      then show ?thesis unfolding code using True free_whole_settled [OF c3 a(2)] by simp
    next
      case part: False
      have lt: "bd_blocks (bd_of ?s3 p) < BLOCKS_PER_MBLOCK"
      proof (rule ccontr)
        assume "\<not> ?thesis"
        then have "BLOCKS_PER_MBLOCK \<le> bd_blocks (bd_of ?s3 p)" by simp
        then show False using core_whole(4) [OF c3 singletonI] part by simp
      qed
      let ?s4 = "?s3\<lparr>ba_mem := setup_tail p (ba_mem ?s3)\<rparr>"
      have b3: "0 < bd_blocks (bd_of ?s3 p)" using head_cell [OF coreD(1) [OF c3], of p] by simp
      note f = setup_tail_facts [of "ba_mem ?s3" p, OF b3]
      note st = core_setup_tail [OF c3 singletonI]
      have q4: "bd_blocks (bd_of ?s4 q) = bd_blocks (bd_of ?s3 q)" if "q \<notin> cells p (bd_blocks (bd_of ?s3 p))" for q
        using f(1) [OF that] by simp
      have o4: "coalesced (ba_mem ?s4) (F - {?n})"
      proof (rule coalesced_cong [OF a(2)])
        fix q assume q: "q \<in> F - {?n}"
        then have "q \<noteq> p" using pF by blast
        then have "q \<notin> cells p (bd_blocks (bd_of ?s3 p))" using interior_not_head [OF coreD(1) [OF c3], of p q] q by blast
        then show "bd_blocks (bd_of ?s4 q) = bd_blocks (bd_of ?s3 q)" by (rule q4)
      qed simp
      have ow4: "owned (ba_mem ?s4) SM xs G = owned (ba_mem ?s3) SM xs G"
        by (rule owned_cong, rule q4) (use small_not_mega [OF c3, of p] in blast)
      have "\<exists>s'. freeGroup_back p ?s4 = Some s' \<and> settled ?s4 SM xs (A - {p}) G s'"
        by (rule freeGroup_back_settled [OF st(1) o4]) (use f(2,3) lt a(4,5) f2 in simp_all)
      moreover have "same_counts ?s3 ?s4" by (simp add: same_counts_def)
      ultimately show ?thesis unfolding code using True part settled_before [OF _ st(2) _ ow4] by auto
    qed
    have sc: "same_counts ?s0 ?s3" using sc2 a(7) by (simp add: same_counts_def)
    have ow: "owned (ba_mem ?s3) SM xs G = owned (ba_mem ?s0) SM xs G" using a(8) ow2 by simp
    show ?thesis using fin settled_before [OF _ keeps_trans [OF k2 a(6)] sc ow] by blast
  qed
qed

end
