(* ===== verification/BlockAPI.thy ===== *)
theory BlockAPI
  imports BlockInv
begin

text \<open>
  The allocator as its clients see it: \<open>allocGroup\<close>, \<open>freeGroup\<close> and the sanity check on states
  that satisfy the whole invariant \<open>ba_inv\<close>, with the counters and the megablocks of the operating
  system.
\<close>

section \<open>Initialising groups and megablocks\<close>

lemma initGroup_loop_at:
  "initGroup_loop head bd k mem q =
     (if q \<in> cells bd k then (mem q)\<lparr>bd_free := 0, bd_blocks := 0, bd_link := head\<rparr> else mem q)"
proof (induction k arbitrary: bd mem)
  case (Suc k)
  have c: "cells bd (Suc k) = insert bd (cells (bd + 64) k)"
    using cells_add [of bd 1 k] by (auto simp: cells_mem)
  have n: "bd \<notin> cells (bd + 64) k" by (auto simp: cells_mem)
  show ?case using Suc n by (auto simp: c bd_plus_val upd_bd_def)
qed simp

lemma initGroup_at:
  assumes "0 < bd_blocks (mem head)"
  shows "initGroup head mem q =
     (if q = head then (mem q)\<lparr>bd_free := bd_start (mem q), bd_link := NULL\<rparr>
      else if q \<in> cells head (bd_blocks (mem head)) then (mem q)\<lparr>bd_free := 0, bd_blocks := 0, bd_link := head\<rparr>
      else mem q)"
proof -
  have c: "cells head (bd_blocks (mem head)) = insert head (cells (head + 64) (bd_blocks (mem head) - 1))"
    using assms cells_add [of head 1 "bd_blocks (mem head) - 1"] by (auto simp: cells_mem)
  have "head \<notin> cells (head + 64) (bd_blocks (mem head) - 1)" by (auto simp: cells_mem)
  then show ?thesis unfolding initGroup_def Let_def initGroup_loop_at c bd_plus_val by (auto simp: upd_bd_def)
qed

lemma initGroup_facts:
  assumes "0 < bd_blocks (mem h)"
  shows "\<And>q. q \<notin> cells h (bd_blocks (mem h)) \<Longrightarrow> initGroup h mem q = mem q"
    "bd_blocks (initGroup h mem h) = bd_blocks (mem h)" "bd_free (initGroup h mem h) = bd_start (mem h)"
    "\<And>q. bd_start (initGroup h mem q) = bd_start (mem q)" "interior_ok (initGroup h mem) h"
  using assms by (auto simp: initGroup_at interior_ok_def)

text \<open>What \<open>initGroup\<close> makes of the descriptors of a group: the head is in no list and its space is
  unused, and all others are empty and link to the head.\<close>

definition initialised :: "bd_mem \<Rightarrow> addr \<Rightarrow> bool" where
  "initialised mem h \<longleftrightarrow> bd_link (mem h) = NULL \<and> bd_free (mem h) = bd_start (mem h) \<and>
     (\<forall>x \<in> cells h (bd_blocks (mem h)). x \<noteq> h \<longrightarrow> bd_free (mem x) = 0 \<and> bd_blocks (mem x) = 0 \<and> bd_link (mem x) = h)"

lemma initGroup_initialised: "0 < bd_blocks (mem h) \<Longrightarrow> initialised (initGroup h mem) h"
  by (simp add: initialised_def initGroup_at)

lemma initialised_cong:
  "initialised mem h \<Longrightarrow> mem' h = mem h \<Longrightarrow> (\<And>x. x \<in> cells h (bd_blocks (mem h)) \<Longrightarrow> mem' x = mem x) \<Longrightarrow> initialised mem' h"
  by (simp add: initialised_def)

lemma initMBlock_loop_at:
  "initMBlock_loop bd b k mem q =
     (if q \<in> cells bd k then (mem q)\<lparr>bd_start := b + BLOCK_SIZE * ((q - bd) div 64)\<rparr> else mem q)"
proof (induction k arbitrary: bd b mem)
  case (Suc k)
  have c: "cells bd (Suc k) = insert bd (cells (bd + 64) k)"
    using cells_add [of bd 1 k] by (auto simp: cells_mem)
  have n: "bd \<notin> cells (bd + 64) k" by (auto simp: cells_mem)
  have d: "(q - bd) div 64 = Suc ((q - (bd + 64)) div 64)" if q: "q \<in> cells (bd + 64) k"
  proof -
    obtain j where "q = bd + 64 + 64 * j" using q by (auto simp: cells_mem)
    then show ?thesis by simp
  qed
  show ?case using Suc n d by (auto simp: c bd_plus_val upd_bd_def)
qed simp

lemma initMBlock_at:
  "initMBlock m mem q =
     (if q \<in> descs m then (mem q)\<lparr>bd_start := FIRST_BLOCK m + BLOCK_SIZE * ((q - FIRST_BDESCR m) div 64)\<rparr> else mem q)"
proof -
  have "(LAST_BLOCK m - FIRST_BLOCK m) div BLOCK_SIZE + 1 = BLOCKS_PER_MBLOCK"
    by (simp add: LAST_BLOCK_def FIRST_BLOCK_def MBLOCK_SIZE_def BLOCK_SIZE_def FIRST_BLOCK_OFF_def)
  then show ?thesis unfolding initMBlock_def initMBlock_loop_at descs_def by simp
qed

lemma initMBlock_starts: "starts_ok (initMBlock m mem) m"
  by (auto simp: starts_ok_def initMBlock_at descs_def cells_mem bd_plus_val)

section \<open>Taking a megablock group\<close>

text \<open>A group of megablocks covers its descriptors and all it owns.\<close>

lemma span_cells:
  assumes "mhead mem g" "bd_blocks (mem g) = MBLOCK_GROUP_BLOCKS k" "1 \<le> k"
  shows "cells g (bd_blocks (mem g)) \<subseteq> mspan mem g" "descs (mblock_of g) \<subseteq> mspan mem g" "g \<in> mspan mem g"
    "mspan mem g = {mblock_of g ..< mblock_of g + k * MBLOCK_SIZE}"
proof -
  have g: "g = 256 + mblock_of g" using assms(1) unfolding mhead_def by (metis FIRST_BDESCR_val)
  show s: "mspan mem g = {mblock_of g ..< mblock_of g + k * MBLOCK_SIZE}"
    using assms(2,3) by (simp add: mspan_def mend_def)
  have k: "16384 \<le> k * MBLOCK_SIZE" "256 + 64 * (252 + (k - 1) * 256) \<le> k * MBLOCK_SIZE"
    using assms(3) by (simp_all add: MBLOCK_SIZE_def)
  show "cells g (bd_blocks (mem g)) \<subseteq> mspan mem g"
  proof
    fix x assume x: "x \<in> cells g (bd_blocks (mem g))"
    have "x + 64 \<le> g + 64 * (252 + (k - 1) * 256)" "g \<le> x" using cells_last [OF x] assms(2) MBLOCK_GROUP_BLOCKS_val by simp_all
    then have "x < mblock_of g + k * MBLOCK_SIZE" "mblock_of g \<le> x" using k(2) g by linarith+
    then show "x \<in> mspan mem g" unfolding s by simp
  qed
  show "descs (mblock_of g) \<subseteq> mspan mem g"
  proof
    fix x assume x: "x \<in> descs (mblock_of g)"
    then show "x \<in> mspan mem g" using descs_bounds [OF x] k(1) unfolding s by (auto simp: FIRST_BDESCR_val LAST_BDESCR_val)
  qed
  show "g \<in> mspan mem g" using g k(1) unfolding s by auto
qed

lemma mhead_span: "mhead mem g \<Longrightarrow> g \<in> mspan mem g"
  using span_cells(3) [of mem g "BLOCKS_TO_MBLOCKS (bd_blocks (mem g))"] mhead_blocks [of mem g] by (simp add: Suc_le_eq)

lemma descs_sm_span:
  assumes "m \<in> SM" "x \<in> descs m" shows "x \<in> sm_span SM"
proof -
  have "x \<in> {m ..< m + MBLOCK_SIZE}"
    using descs_bounds [OF assms(2)] by (simp add: FIRST_BDESCR_val LAST_BDESCR_val MBLOCK_SIZE_def)
  then show ?thesis using assms(1) unfolding sm_span_def by blast
qed

lemma mhead_local:
  assumes "mhead mem g" "\<And>q. q \<in> mspan mem g \<Longrightarrow> bd_start (mem' q) = bd_start (mem q)"
    "bd_blocks (mem' g) = bd_blocks (mem g)"
  shows "mhead mem' g"
proof -
  have k: "bd_blocks (mem g) = MBLOCK_GROUP_BLOCKS (BLOCKS_TO_MBLOCKS (bd_blocks (mem g)))"
    using mhead_blocks [OF assms(1)] by simp
  note sc = span_cells [OF assms(1) k]
  have "starts_ok mem' (mblock_of g)"
  proof -
    have "\<And>q. q \<in> descs (mblock_of g) \<Longrightarrow> bd_start (mem' q) = bd_start (mem q)" using assms(2) sc(2) by (simp add: Suc_le_eq subset_iff)
    moreover have "starts_ok mem (mblock_of g)" using assms(1) by (simp add: mhead_def)
    ultimately show ?thesis by (auto simp: starts_ok_def descs_def cells_mem bd_plus_val)
  qed
  then show ?thesis using assms(1,3) unfolding mhead_def by metis
qed

text \<open>A new megablock group, cut from the list or fresh, leaves everything else in place.\<close>

lemma core_new_mega:
  assumes c: "core s SM F A P G xs L"
    and eq: "\<forall>q. q \<notin> R \<longrightarrow> q \<notin> set xs \<longrightarrow> mem' q = bd_of s q"
    and l: "mlist mem' h' xs'" "mcover mem' xs' \<subseteq> mcover (ba_mem s) xs"
    and bd: "mhead mem' bd" "mspan mem' bd = R"
    and dj: "R \<inter> mcover mem' xs' = {}" "R \<inter> g_span (ba_mem s) G = {}" "R \<inter> sm_span SM = {}"
  shows "core (s\<lparr>ba_mem := mem', free_mblock_list := h'\<rparr>) SM F A P (insert bd G) xs' L"
    and "bd \<notin> G" "keeps A G s (s\<lparr>ba_mem := mem', free_mblock_list := h'\<rparr>)"
    and "\<And>q. q \<in> F \<union> A \<union> P \<Longrightarrow> mem' q = bd_of s q" "g_span mem' (insert bd G) = R \<union> g_span (ba_mem s) G"
proof -
  note gok = coreD(1) [OF c] and mok = coreD(3) [OF c]
  note M = megasD [OF mok]
  have out: "mem' q = bd_of s q" if "m \<in> SM" "q \<in> descs m" for m q
  proof (rule eq [rule_format])
    show "q \<notin> R" using descs_sm_span [OF that] dj(3) by blast
    show "q \<notin> set xs" using mega_not_desc [OF mok, of q m] that by blast
  qed
  have hd: "mem' q = bd_of s q" if "q \<in> F \<union> A \<union> P" for q
    using out cells_in_descs(1,2) [OF gok that head_cell [OF gok that]] by blast
  then show "\<And>q. q \<in> F \<union> A \<union> P \<Longrightarrow> mem' q = bd_of s q" .
  have xg: "x \<in> mcover (ba_mem s) xs" if "x \<in> set xs" for x
  proof -
    have "mhead (ba_mem s) x" using M(1) that by (simp add: mlist_def)
    then show ?thesis using mhead_span that by (auto simp: mcover_def)
  qed
  have gq: "mem' q = bd_of s q" if "g \<in> G" "q \<in> mspan (ba_mem s) g" for g q
  proof (rule eq [rule_format])
    show "q \<notin> R" using that dj(2) M(10) [OF that(1)] by blast
    show "q \<notin> set xs" using that xg M(8) [OF that(1)] by blast
  qed
  have gh: "g \<in> mspan (ba_mem s) g" if "g \<in> G" for g using mhead_span [OF M(2) [OF that]] .
  have gm: "mem' g = bd_of s g" if "g \<in> G" for g using gq [OF that gh [OF that]] .
  have bR: "bd \<in> R" using mhead_span [OF bd(1)] bd(2) by simp
  show bG: "bd \<notin> G" using bR gh dj(2) M(10) by blast
  have ms: "mspan mem' g = mspan (ba_mem s) g" if "g \<in> G" for g using gm [OF that] by (simp add: mspan_def mend_def)
  show gs: "g_span mem' (insert bd G) = R \<union> g_span (ba_mem s) G" using ms bd(2) by (auto simp: g_span_def)
  have "groups_ok mem' SM F A P" by (rule groups_ok_outside [OF gok]) (use out in blast)
  moreover have "fl_ok mem' (free_list s) L F" by (rule fl_ok_cong [OF coreD(2) [OF c]]) (use hd in simp)
  moreover have "megas_ok mem' h' xs' (insert bd G) SM"
  proof (rule megasI)
    show "mhead mem' g" if "g \<in> insert bd G" for g
      using that bd(1) mhead_local [OF M(2)] gq gm by auto
    show "mcover mem' xs' \<inter> g_span mem' (insert bd G) = {}" unfolding gs using dj(1) l(2) M(4) by blast
    show "mcover mem' xs' \<inter> sm_span SM = {}" using l(2) M(5) by blast
    show "g_span mem' (insert bd G) \<inter> sm_span SM = {}" unfolding gs using dj(3) M(6) by blast
    show "mspan mem' g \<inter> mspan mem' g' = {}" if "g \<in> insert bd G" "g' \<in> insert bd G" "g \<noteq> g'" for g g'
    proof -
      have "mspan mem' bd \<inter> mspan mem' k = {}" if "k \<in> G" for k using ms [OF that] M(10) [OF that] bd(2) dj(2) by blast
      then show ?thesis using that M(7) [of g g'] ms by (cases "g = bd"; cases "g' = bd") auto
    qed
  qed (use l(1) M(3) in auto)
  ultimately show "core (s\<lparr>ba_mem := mem', free_mblock_list := h'\<rparr>) SM F A P (insert bd G) xs' L" by (simp add: core_def)
  have "mem' x = bd_of s x" if "h \<in> A" "x \<in> cells h (bd_blocks (bd_of s h))" for h x
    using out cells_in_descs(1,2) [OF gok, of h x] that by blast
  then show "keeps A G s (s\<lparr>ba_mem := mem', free_mblock_list := h'\<rparr>)" using hd gm by (auto simp: keeps_def)
qed

text \<open>The search for a group of the list: an exact fit, or the best fit.\<close>

lemma mega_search_lst:
  assumes "lst (\<lambda>p. bd_link (mem p)) h xs"
    "best \<noteq> NULL \<longrightarrow> n < bd_blocks (mem best)"
  shows "(\<exists>us bd vs. xs = us @ bd # vs \<and> bd_blocks (mem bd) = n \<and> mega_search mem n h prev best = Some (Inl (bd, last (prev # us)))) \<or>
    (\<exists>b. mega_search mem n h prev best = Some (Inr b) \<and> (\<forall>x \<in> set xs. bd_blocks (mem x) \<noteq> n) \<and>
       (if b = NULL then best = NULL \<and> (\<forall>x \<in> set xs. bd_blocks (mem x) < n)
        else n < bd_blocks (mem b) \<and> (b = best \<or> b \<in> set xs) \<and>
          (\<forall>x \<in> set xs. n < bd_blocks (mem x) \<longrightarrow> bd_blocks (mem b) \<le> bd_blocks (mem x)) \<and>
          (best \<noteq> NULL \<longrightarrow> bd_blocks (mem b) \<le> bd_blocks (mem best))))"
  using assms
proof (induction xs arbitrary: h prev best)
  case Nil
  then show ?case by (subst mega_search.simps, subst mega_search.simps) simp
next
  case (Cons x xs)
  have x: "h = x" "x \<noteq> NULL" and l: "lst (\<lambda>p. bd_link (mem p)) (bd_link (mem x)) xs" using Cons.prems(1) by auto
  show ?case
  proof (cases "bd_blocks (mem x) = n")
    case True
    then have "mega_search mem n h prev best = Some (Inl (x, last (prev # [])))"
      using x by (subst mega_search.simps) simp
    then show ?thesis using True by (intro disjI1 exI [of _ "[]"] exI [of _ x] exI [of _ xs]) simp
  next
    case False
    let ?b = "if bd_blocks (mem x) > n \<and> (best = NULL \<or> bd_blocks (mem x) < bd_blocks (mem best)) then x else best"
    have e: "mega_search mem n h prev best = mega_search mem n (bd_link (mem x)) x ?b"
      using x False by (subst mega_search.simps) auto
    have b: "?b \<noteq> NULL \<longrightarrow> n < bd_blocks (mem ?b)" using Cons.prems(2) by auto
    from Cons.IH [OF l b, of x] show ?thesis
    proof
      assume "\<exists>us bd vs. xs = us @ bd # vs \<and> bd_blocks (mem bd) = n \<and>
        mega_search mem n (bd_link (mem x)) x ?b = Some (Inl (bd, last (x # us)))"
      then obtain us bd vs where "xs = us @ bd # vs" "bd_blocks (mem bd) = n"
        "mega_search mem n h prev best = Some (Inl (bd, last (prev # x # us)))" using e by auto
      then show ?thesis by (intro disjI1 exI [of _ "x # us"] exI [of _ bd] exI [of _ vs]) simp
    next
      assume "\<exists>b. mega_search mem n (bd_link (mem x)) x ?b = Some (Inr b) \<and> (\<forall>x \<in> set xs. bd_blocks (mem x) \<noteq> n) \<and>
       (if b = NULL then ?b = NULL \<and> (\<forall>x \<in> set xs. bd_blocks (mem x) < n)
        else n < bd_blocks (mem b) \<and> (b = ?b \<or> b \<in> set xs) \<and>
          (\<forall>x \<in> set xs. n < bd_blocks (mem x) \<longrightarrow> bd_blocks (mem b) \<le> bd_blocks (mem x)) \<and>
          (?b \<noteq> NULL \<longrightarrow> bd_blocks (mem b) \<le> bd_blocks (mem ?b)))"
      then obtain b where B: "mega_search mem n h prev best = Some (Inr b)" "\<forall>x \<in> set xs. bd_blocks (mem x) \<noteq> n"
        "b = NULL \<longrightarrow> ?b = NULL \<and> (\<forall>x \<in> set xs. bd_blocks (mem x) < n)"
        "b \<noteq> NULL \<longrightarrow> n < bd_blocks (mem b) \<and> (b = ?b \<or> b \<in> set xs) \<and>
          (\<forall>x \<in> set xs. n < bd_blocks (mem x) \<longrightarrow> bd_blocks (mem b) \<le> bd_blocks (mem x)) \<and>
          (?b \<noteq> NULL \<longrightarrow> bd_blocks (mem b) \<le> bd_blocks (mem ?b))" using e by (auto split: if_splits)
      have "b = NULL \<Longrightarrow> best = NULL \<and> bd_blocks (mem x) < n" using B(3) False x(2) by (auto split: if_splits)
      moreover have "b \<noteq> NULL \<Longrightarrow> (b = best \<or> b \<in> insert x (set xs)) \<and>
          (n < bd_blocks (mem x) \<longrightarrow> bd_blocks (mem b) \<le> bd_blocks (mem x)) \<and> (best \<noteq> NULL \<longrightarrow> bd_blocks (mem b) \<le> bd_blocks (mem best))"
        using B(4) x(2) by (auto split: if_splits)
      ultimately show ?thesis using B False by (intro disjI2 exI [of _ b]) (cases "b = NULL"; simp)
    qed
  qed
qed

lemma mlist_spans:
  assumes "mlist mem h xs" "x \<in> set xs" "y \<in> set xs" "x \<noteq> y" shows "mspan mem x \<inter> mspan mem y = {}"
proof -
  have "sorted_wrt (\<lambda>a b. mend mem a < mblock_of b) xs" using assms(1) by (simp add: mlist_def)
  then have "mend mem x < mblock_of y \<or> mend mem y < mblock_of x"
    using assms(2-4) by (induction xs) auto
  then show ?thesis by (auto simp: mspan_def)
qed

lemma mlist_head_span:
  assumes "mlist mem h xs" "x \<in> set xs" "y \<in> set xs" "x \<noteq> y" shows "x \<notin> mspan mem y"
  using mlist_spans [OF assms] mhead_span [of mem x] assms(1,2) by (auto simp: mlist_def)

text \<open>Taking an exact fit off the list.\<close>

lemma take_exact:
  assumes c: "core s SM F A P G xs L" and xs: "xs = us @ bd # vs"
    and b: "bd_blocks (bd_of s bd) = MBLOCK_GROUP_BLOCKS k" "1 \<le> k"
    and s1: "s1 = (if last (NULL # us) \<noteq> NULL
                   then set_bd (last (NULL # us)) (\<lambda>d. d\<lparr>bd_link := bd_link (bd_of s bd)\<rparr>) s
                   else s\<lparr>free_mblock_list := bd_link (bd_of s bd)\<rparr>)"
  defines "s' \<equiv> s1\<lparr>ba_mem := initGroup bd (ba_mem s1)\<rparr>"
  shows "core s' SM F A P (insert bd G) (us @ vs) L" "bd \<notin> G" "keeps A G s s'"
    "\<And>q. q \<in> F \<union> A \<union> P \<Longrightarrow> bd_of s' q = bd_of s q" "same_rest s s'"
    "owned (ba_mem s') SM (us @ vs) (insert bd G) = owned (ba_mem s) SM xs G"
    "bd_blocks (bd_of s' bd) = MBLOCK_GROUP_BLOCKS k"
proof -
  let ?R = "mspan (ba_mem s) bd" and ?nxt = "\<lambda>p. bd_link (bd_of s p)"
  note mok = coreD(3) [OF c]
  note M = megasD [OF mok]
  have l: "mlist (ba_mem s) (free_mblock_list s) xs" by (rule M(1))
  have hx: "mhead (ba_mem s) x" if "x \<in> set xs" for x using l that by (simp add: mlist_def)
  have d: "distinct xs" by (rule mlist_distinct [OF l])
  have bx: "bd \<in> set xs" using xs by simp
  have nR: "x \<notin> ?R" if "x \<in> set xs" "x \<noteq> bd" for x using mlist_head_span [OF l that(1) bx that(2)] .
  note sc = span_cells [OF hx [OF bx] b]
  have pos: "0 < bd_blocks (bd_of s bd)" using b by (simp add: MBLOCK_GROUP_BLOCKS_val)
  let ?u = "last (NULL # us)"
  have un: "us \<noteq> [] \<Longrightarrow> ?u \<in> set us" by simp
  have u0: "?u = NULL \<longleftrightarrow> us = []" using un hx mhead_nonnull xs by fastforce
  have m1: "ba_mem s1 = (if us \<noteq> [] then upd_bd ?u (\<lambda>d. d\<lparr>bd_link := ?nxt bd\<rparr>) (ba_mem s) else ba_mem s)"
    "free_mblock_list s1 = (if us \<noteq> [] then free_mblock_list s else ?nxt bd)"
    unfolding s1 using u0 by simp_all
  have m1': "bd_blocks (bd_of s1 q) = bd_blocks (bd_of s q)" "bd_start (bd_of s1 q) = bd_start (bd_of s q)" for q
    unfolding m1 by (auto simp: upd_bd_def)
  have bs1: "0 < bd_blocks (bd_of s1 bd)" using pos m1' by simp
  note ig = initGroup_facts [of "ba_mem s1" bd, OF bs1]
  have eq1: "bd_of s' q = bd_of s1 q" if "q \<notin> ?R" for q
    using ig(1) [of q] sc(1) that m1'(1) [of bd] unfolding s'_def by auto
  have eq: "bd_of s' q = bd_of s q" if "q \<notin> ?R" "q \<notin> set xs" for q
    using eq1 [OF that(1)] that(2) un xs unfolding m1 by (auto simp: upd_bd_def)
  have st: "bd_start (bd_of s' q) = bd_start (bd_of s q)" for q using ig(4) m1'(2) unfolding s'_def by simp
  have bl: "bd_blocks (bd_of s' x) = bd_blocks (bd_of s x)" if "x \<in> set xs" for x
  proof (cases "x = bd")
    case True then show ?thesis using ig(2) m1' unfolding s'_def by simp
  next
    case False
    then show ?thesis using eq1 [OF nR [OF that False]] m1' by simp
  qed
  then show "bd_blocks (bd_of s' bd) = MBLOCK_GROUP_BLOCKS k" using bx b(1) by simp
  have lk: "bd_link (bd_of s' x) = bd_link (bd_of s1 x)" if "x \<in> set (us @ vs)" for x
  proof -
    have "x \<in> set xs" "x \<noteq> bd" using that xs d by auto
    then show ?thesis using eq1 [OF nR] by simp
  qed
  have ls: "lst ?nxt (free_mblock_list s) (us @ bd # vs)" using l xs by (simp add: mlist_def)
  have l1: "lst (\<lambda>p. bd_link (bd_of s1 p)) (free_mblock_list s1) (us @ vs)"
  proof (cases us rule: rev_cases)
    case Nil
    then show ?thesis using ls m1 by simp
  next
    case (snoc ws u)
    have "lst ?nxt (free_mblock_list s) (ws @ u # bd # vs)" using ls snoc by simp
    moreover have "lst ?nxt (?nxt bd) vs" using lst_rest [OF ls] by simp
    ultimately have "lst (?nxt(u := ?nxt bd)) (free_mblock_list s) (ws @ u # vs)"
      using lst_upd_link [of ?nxt "free_mblock_list s" ws u "bd # vs" "?nxt bd" vs] d xs snoc by auto
    moreover have "?nxt(u := ?nxt bd) = (\<lambda>p. bd_link (bd_of s1 p))" unfolding m1 using snoc by (auto simp: upd_bd_def)
    ultimately show ?thesis using m1 snoc by simp
  qed
  have ml: "mlist (ba_mem s') (free_mblock_list s1) (us @ vs)"
  proof -
    have "lst (\<lambda>p. bd_link (bd_of s' p)) (free_mblock_list s1) (us @ vs)"
      using l1 lseg_cong [of "us @ vs" "\<lambda>p. bd_link (bd_of s' p)" "\<lambda>p. bd_link (bd_of s1 p)"] lk unfolding lst_def by blast
    moreover have "mhead (ba_mem s') x" if "x \<in> set (us @ vs)" for x
      by (rule mhead_local [of "ba_mem s"]) (use that hx bl st xs in auto)
    moreover have "sorted_wrt (\<lambda>a b. mend (ba_mem s') a < mblock_of b) (us @ vs)"
    proof (subst msorted_cong [where mem = "ba_mem s"])
      show "\<forall>x \<in> set (us @ vs). bd_blocks (bd_of s' x) = bd_blocks (bd_of s x)" using bl xs by simp
      show "sorted_wrt (\<lambda>a b. mend (ba_mem s) a < mblock_of b) (us @ vs)"
        using l xs by (simp add: mlist_def sorted_wrt_append)
    qed
    ultimately show ?thesis by (simp add: mlist_def)
  qed
  have cov: "mcover (ba_mem s') (us @ vs) = mcover (ba_mem s) (us @ vs)" by (rule mcover_cong) (use bl xs in simp)
  have hb: "mhead (ba_mem s') bd" by (rule mhead_local [OF hx [OF bx]]) (use st bl bx in auto)
  have sb: "mspan (ba_mem s') bd = ?R" using bl [OF bx] by (simp add: mspan_def mend_def)
  have dj: "?R \<inter> mcover (ba_mem s') (us @ vs) = {}"
  proof -
    have "mspan (ba_mem s) bd \<inter> mspan (ba_mem s) x = {}" if "x \<in> set (us @ vs)" for x
      by (rule mlist_spans [OF l bx]) (use that xs d in auto)
    then have "?R \<inter> mcover (ba_mem s) (us @ vs) = {}" by (auto simp: mcover_def)
    then show ?thesis using cov by simp
  qed
  have sub: "?R \<subseteq> mcover (ba_mem s) xs" using xs by auto
  have s'e: "s' = s\<lparr>ba_mem := ba_mem s', free_mblock_list := free_mblock_list s1\<rparr>"
    unfolding s'_def s1 by (simp add: set_bd_def)
  have "\<forall>q. q \<notin> ?R \<longrightarrow> q \<notin> set xs \<longrightarrow> bd_of s' q = bd_of s q" using eq by blast
  note n = core_new_mega [OF c this ml _ hb sb dj, folded s'e]
  have a: "mcover (ba_mem s') (us @ vs) \<subseteq> mcover (ba_mem s) xs" using cov xs by auto
  have e1: "?R \<inter> g_span (ba_mem s) G = {}" "?R \<inter> sm_span SM = {}" using sub M(4,5) by blast+
  show "core s' SM F A P (insert bd G) (us @ vs) L" "bd \<notin> G" "keeps A G s s'"
    "\<And>q. q \<in> F \<union> A \<union> P \<Longrightarrow> bd_of s' q = bd_of s q"
    by (rule n(1) [OF a e1], rule n(2) [OF a e1], rule n(3) [OF a e1], rule n(4) [OF a e1])
  show "same_rest s s'" by (subst s'e) (simp add: same_rest_def)
  have "mcover (ba_mem s) xs = ?R \<union> mcover (ba_mem s') (us @ vs)" using cov xs by auto
  then show "owned (ba_mem s') SM (us @ vs) (insert bd G) = owned (ba_mem s) SM xs G"
    using n(5) [OF a e1] unfolding owned_def by blast
qed

section \<open>The whole invariant\<close>

text \<open>
  \<open>alloc_inv\<close>: nothing is pending, adjacent free groups are coalesced, no allocated megablock group
  bears the mark of a free one, and \<open>n_alloc_blocks\<close> is the number of blocks of the allocated
  groups, where a group of megablocks counts 252 blocks for each of them.
\<close>

definition alloc_total :: "bd_mem \<Rightarrow> addr set \<Rightarrow> addr set \<Rightarrow> nat" where
  "alloc_total mem A G =
     (\<Sum>a \<in> A. bd_blocks (mem a)) + (\<Sum>g \<in> G. BLOCKS_TO_MBLOCKS (bd_blocks (mem g)) * BLOCKS_PER_MBLOCK)"

definition alloc_inv :: "ba_state \<Rightarrow> nat set \<Rightarrow> addr set \<Rightarrow> addr set \<Rightarrow> addr set \<Rightarrow> addr list \<Rightarrow>
    (nat \<Rightarrow> addr list) \<Rightarrow> bool" where
  "alloc_inv s SM F A G xs L \<longleftrightarrow>
     core s SM F A {} G xs L \<and> coalesced (ba_mem s) F \<and> (\<forall>g \<in> G. bd_free (bd_of s g) \<noteq> FREE_MARK) \<and>
     finite A \<and> finite G \<and> unat (n_alloc_blocks s) = alloc_total (ba_mem s) A G"

lemma alloc_total_cong:
  assumes "\<And>q. q \<in> A \<union> G \<Longrightarrow> bd_blocks (mem' q) = bd_blocks (mem q)"
  shows "alloc_total mem' A G = alloc_total mem A G"
proof -
  have "(\<Sum>a \<in> A. bd_blocks (mem' a)) = (\<Sum>a \<in> A. bd_blocks (mem a))" by (rule sum.cong) (use assms in auto)
  moreover have "(\<Sum>g \<in> G. BLOCKS_TO_MBLOCKS (bd_blocks (mem' g)) * BLOCKS_PER_MBLOCK) =
      (\<Sum>g \<in> G. BLOCKS_TO_MBLOCKS (bd_blocks (mem g)) * BLOCKS_PER_MBLOCK)"
    by (rule sum.cong) (use assms in auto)
  ultimately show ?thesis by (simp add: alloc_total_def)
qed

lemma alloc_total_keeps: "keeps A G s s' \<Longrightarrow> alloc_total (ba_mem s') A G = alloc_total (ba_mem s) A G"
  by (rule alloc_total_cong) (auto simp: keeps_def)

lemma alloc_total_remove:
  assumes "finite A" "finite G"
  shows "p \<in> A \<Longrightarrow> alloc_total mem A G = bd_blocks (mem p) + alloc_total mem (A - {p}) G"
    "g \<in> G \<Longrightarrow> alloc_total mem A G =
       BLOCKS_TO_MBLOCKS (bd_blocks (mem g)) * BLOCKS_PER_MBLOCK + alloc_total mem A (G - {g})"
  using assms by (auto simp: alloc_total_def sum.remove [of A p] sum.remove [of G g])

lemma unat_minus_of_nat:
  assumes "unat (w :: StgWord) = k + t"
  shows "\<not> w < of_nat k" "unat (w - of_nat k) = t"
proof -
  have "unat w < 2 ^ 64" by (rule order_less_le_trans [OF unsigned_less]) simp
  then have "k + t < 2 ^ 64" using assms by simp
  then have k: "unat (of_nat k :: StgWord) = k" by (simp add: unat_of_nat take_bit_nat_eq_self_iff)
  then show lt: "\<not> w < of_nat k" using assms by (simp add: word_less_nat_alt)
  then show "unat (w - of_nat k) = t" using assms k by (simp add: unat_sub word_le_nat_alt word_less_nat_alt)
qed

text \<open>Fields of an allocated megablock group other than its size may change.\<close>

lemma core_touch_mega:
  assumes c: "core s SM F A P G xs L" and g: "g \<in> G"
    and f: "\<And>d. bd_blocks (f d) = bd_blocks d" "\<And>d. bd_start (f d) = bd_start d"
  shows "core (set_bd g f s) SM F A P G xs L" "keeps A (G - {g}) s (set_bd g f s)"
proof -
  note gok = coreD(1) [OF c] and mok = coreD(3) [OF c]
  have eq: "bd_of (set_bd g f s) q = bd_of s q" if "q \<noteq> g" for q using that by (simp add: upd_bd_def)
  have "groups_ok (ba_mem (set_bd g f s)) SM F A P"
  proof (rule groups_ok_outside [OF gok])
    fix m x assume "m \<in> SM" "x \<in> descs m"
    then have "x \<noteq> g" using mega_not_desc [OF mok, of g m] g by blast
    then show "bd_of (set_bd g f s) x = bd_of s x" by (rule eq)
  qed
  moreover have "fl_ok (ba_mem (set_bd g f s)) (free_list s) L F"
  proof (rule fl_ok_cong [OF coreD(2) [OF c]])
    fix x assume "x \<in> F"
    then have "x \<noteq> g" using small_not_mega [OF c, of x x] head_cell [OF gok, of x] g by blast
    then show "bd_link (bd_of (set_bd g f s) x) = bd_link (bd_of s x) \<and>
      bd_back (bd_of (set_bd g f s) x) = bd_back (bd_of s x) \<and> bd_blocks (bd_of (set_bd g f s) x) = bd_blocks (bd_of s x)"
      using eq by simp
  qed
  moreover have "megas_ok (ba_mem (set_bd g f s)) (free_mblock_list s) xs G SM"
  proof (rule megas_ok_cong [OF mok])
    fix x assume "x \<in> set xs"
    then have "x \<noteq> g" using megasD(8) [OF mok g] mhead_span [OF megasD(2) [OF mok g]] mend_gt [of x "ba_mem s"]
      mhead_span [of "ba_mem s" x] megasD(1) [OF mok] by (force simp: mcover_def mlist_def)
    then show "bd_link (bd_of (set_bd g f s) x) = bd_link (bd_of s x)" using eq by simp
  qed (simp_all add: upd_bd_def f)
  ultimately show "core (set_bd g f s) SM F A P G xs L" by (simp add: core_def)
  show "keeps A (G - {g}) s (set_bd g f s)" by (rule keeps_mega [OF c g]) (use eq in auto)
qed

lemma freeGroup_mega:
  assumes c: "core s SM F A {} G xs L" and p: "p \<in> G" and f: "bd_free (bd_of s p) \<noteq> FREE_MARK"
  defines "k \<equiv> BLOCKS_TO_MBLOCKS (bd_blocks (bd_of s p))"
  shows "\<exists>s' xs'. freeGroup p s = Some s' \<and> core s' SM F A {} (G - {p}) xs' L \<and>
    owned (ba_mem s') SM xs' (G - {p}) = owned (ba_mem s) SM xs G \<and> keeps A (G - {p}) s s' \<and>
    (\<forall>x \<in> F. bd_of s' x = bd_of s x) \<and>
    n_alloc_blocks s' = n_alloc_blocks s - of_nat (k * BLOCKS_PER_MBLOCK) \<and>
    hw_alloc_blocks s' = hw_alloc_blocks s \<and> ba_mb s' = ba_mb s"
proof -
  let ?f = "\<lambda>d. d\<lparr>bd_free := FREE_MARK, bd_gen := NULL, bd_gen_no := 0\<rparr>"
  let ?s = "(set_bd p ?f s)\<lparr>n_alloc_blocks := n_alloc_blocks s - of_nat (k * BLOCKS_PER_MBLOCK)\<rparr>"
  note mok = coreD(3) [OF c]
  note t = core_touch_mega [OF c p, of ?f, simplified]
  have b: "bd_blocks (bd_of s p) = MBLOCK_GROUP_BLOCKS k"
    using mhead_blocks [OF megasD(2) [OF mok p]] by (simp add: k_def)
  have code: "freeGroup p s = free_mega_group p ?s"
    using f b by (simp add: freeGroup_def Let_def k_def MBLOCK_GROUP_BLOCKS_val)
  have cs: "core ?s SM F A {} G xs L" using t(1) by simp
  obtain s' xs' where s': "free_mega_group p ?s = Some s'" "core s' SM F A {} (G - {p}) xs' L"
    "owned (ba_mem s') SM xs' (G - {p}) = owned (ba_mem ?s) SM xs G"
    "\<forall>x. x \<notin> insert p (set xs) \<longrightarrow> bd_of s' x = bd_of ?s x" "same_rest ?s s'"
    using core_free_mega [OF cs p] by (elim exE conjE) (rule that)
  have ow: "owned (ba_mem ?s) SM xs G = owned (ba_mem s) SM xs G" by (rule owned_cong) (simp add: upd_bd_def)
  have eq: "bd_of s' x = bd_of s x" if "x \<notin> insert p (set xs)" for x
    using s'(4) that by (simp add: upd_bd_def)
  have k: "keeps A (G - {p}) s s'" by (rule keeps_mega [OF c p]) (rule eq)
  have "bd_of s' x = bd_of s x" if "x \<in> F" for x
    by (rule eq) (use small_not_mega [OF c, of x x] head_cell [OF coreD(1) [OF c], of x] p that in blast)
  then show ?thesis
    using code s' ow k by (intro exI [of _ s'] exI [of _ xs']) (simp add: same_rest_def)
qed

section \<open>Properties\<close>

text \<open>
  Claim C7.  \<open>freeGroup\<close> on any allocated group, smaller than a megablock or made of megablocks:
  no assertion fails, the free lists, the tiling of every megablock and the list of free
  megablocks are well formed again, adjacent free groups have been coalesced (a megablock that
  becomes free as a whole goes to the list of free megablocks), exactly the same megablocks are
  owned as before, the count of allocated blocks is that of the groups left, and the descriptors
  of those groups have not been touched.\<close>

theorem freeGroup_correct:
  assumes inv: "alloc_inv s SM F A G xs L" and p: "p \<in> A \<union> G"
  shows "\<exists>s' SM' F' xs' L'. freeGroup p s = Some s' \<and>
    alloc_inv s' SM' F' (A - {p}) (G - {p}) xs' L' \<and>
    owned (ba_mem s') SM' xs' (G - {p}) = owned (ba_mem s) SM xs G \<and>
    keeps (A - {p}) (G - {p}) s s'"
proof -
  have c: "core s SM F A {} G xs L" and o: "coalesced (ba_mem s) F" and fin: "finite A" "finite G"
    and fr: "\<forall>g \<in> G. bd_free (bd_of s g) \<noteq> FREE_MARK"
    and tot: "unat (n_alloc_blocks s) = alloc_total (ba_mem s) A G"
    using inv by (auto simp: alloc_inv_def)
  show ?thesis
  proof (cases "p \<in> A")
    case True
    have pG: "G - {p} = G" using small_not_mega [OF c, of p p] head_cell [OF coreD(1) [OF c], of p] True by blast
    have n: "unat (n_alloc_blocks s) = bd_blocks (bd_of s p) + alloc_total (ba_mem s) (A - {p}) G"
      using tot alloc_total_remove(1) [OF fin True] by simp
    note m = unat_minus_of_nat [OF n]
    obtain s' where s': "freeGroup p s = Some s'"
      "settled (s\<lparr>n_alloc_blocks := n_alloc_blocks s - of_nat (bd_blocks (bd_of s p))\<rparr>) SM xs (A - {p}) G s'"
      using freeGroup_small [OF c o True m(1)] by blast
    then obtain SM' F' xs' L' where t: "core s' SM' F' (A - {p}) {} G xs' L'" "coalesced (ba_mem s') F'"
      "owned (ba_mem s') SM' xs' G = owned (ba_mem s) SM xs G" "keeps (A - {p}) G s s'"
      "n_alloc_blocks s' = n_alloc_blocks s - of_nat (bd_blocks (bd_of s p))"
      by (auto simp: settled_def same_counts_def keeps_def)
    have "alloc_inv s' SM' F' (A - {p}) G xs' L'"
      using t m(2) fin fr alloc_total_keeps [OF t(4)] by (auto simp: alloc_inv_def keeps_def)
    then show ?thesis using s'(1) t(3,4) unfolding pG by blast
  next
    case False
    then have pG: "p \<in> G" and pA: "A - {p} = A" using p by auto
    have n: "unat (n_alloc_blocks s) =
        BLOCKS_TO_MBLOCKS (bd_blocks (bd_of s p)) * BLOCKS_PER_MBLOCK + alloc_total (ba_mem s) A (G - {p})"
      using tot alloc_total_remove(2) [OF fin pG] by simp
    note m = unat_minus_of_nat [OF n]
    have fp: "bd_free (bd_of s p) \<noteq> FREE_MARK" using fr pG by blast
    obtain s' xs' where t: "freeGroup p s = Some s'" "core s' SM F A {} (G - {p}) xs' L"
      "owned (ba_mem s') SM xs' (G - {p}) = owned (ba_mem s) SM xs G" "keeps A (G - {p}) s s'"
      "\<forall>x \<in> F. bd_of s' x = bd_of s x"
      "n_alloc_blocks s' = n_alloc_blocks s - of_nat (BLOCKS_TO_MBLOCKS (bd_blocks (bd_of s p)) * BLOCKS_PER_MBLOCK)"
      using freeGroup_mega [OF c pG fp] by (elim exE conjE) (rule that)
    have "coalesced (ba_mem s') F" by (rule coalesced_cong [OF o]) (use t(5) in simp_all)
    then have "alloc_inv s' SM F A (G - {p}) xs' L"
      using t m(2) fin fr alloc_total_keeps [OF t(4)] by (auto simp: alloc_inv_def keeps_def)
    then show ?thesis using t(1,3,4) unfolding pA by blast
  qed
qed

text \<open>A state with one megablock group, of a single megablock.\<close>

definition one_mega :: "mb_state \<Rightarrow> ba_state" where
  "one_mega mb = \<lparr>ba_mem = upd_bd (FIRST_BDESCR MBLOCK_SIZE) (\<lambda>d. d\<lparr>bd_blocks := BLOCKS_PER_MBLOCK\<rparr>)
       (initMBlock MBLOCK_SIZE (\<lambda>_. bd0)),
     free_list = (\<lambda>_. NULL), free_mblock_list = NULL, n_alloc_blocks = of_nat BLOCKS_PER_MBLOCK,
     hw_alloc_blocks = 0, ba_mb = mb\<rparr>"

lemma one_mega_inv: "alloc_inv (one_mega mb) {} {} {} {FIRST_BDESCR MBLOCK_SIZE} [] (\<lambda>_. [])"
proof -
  let ?g = "FIRST_BDESCR MBLOCK_SIZE" and ?mem = "ba_mem (one_mega mb)"
  have g: "mblock_of ?g = MBLOCK_SIZE" by (simp add: FIRST_BDESCR_val mblock_of_def MBLOCK_SIZE_def)
  have one: "BLOCKS_TO_MBLOCKS BLOCKS_PER_MBLOCK = 1"
    using MGB_BTM [of 1] by (simp add: MBLOCK_GROUP_BLOCKS_def)
  have b: "bd_blocks (?mem ?g) = BLOCKS_PER_MBLOCK" "bd_free (?mem ?g) = 0"
    by (simp_all add: one_mega_def initMBlock_at bd0_def)
  have "starts_ok ?mem MBLOCK_SIZE"
    by (rule starts_same [OF initMBlock_starts [of MBLOCK_SIZE "\<lambda>_. bd0"]]) (simp add: one_mega_def upd_bd_def)
  moreover have "BLOCKS_PER_MBLOCK = MBLOCK_GROUP_BLOCKS (BLOCKS_TO_MBLOCKS BLOCKS_PER_MBLOCK)"
    unfolding one by (simp add: MBLOCK_GROUP_BLOCKS_def)
  ultimately have h: "mhead ?mem ?g" using b(1) g by (simp add: mhead_def)
  have "core (one_mega mb) {} {} {} {} {?g} [] (\<lambda>_. [])"
    using h unfolding core_def groups_ok_def fl_ok_def megas_ok_def
    by (auto simp: tiling_def dlist_def mlist_def mcover_def sm_span_def one_mega_def)
  moreover have "unat (of_nat BLOCKS_PER_MBLOCK :: StgWord) = BLOCKS_TO_MBLOCKS BLOCKS_PER_MBLOCK * BLOCKS_PER_MBLOCK"
    unfolding one by (simp add: BLOCKS_PER_MBLOCK_def MBLOCK_SIZE_def FIRST_BLOCK_OFF_def BLOCK_SIZE_def)
  ultimately show ?thesis
    using b by (simp add: alloc_inv_def alloc_total_def coalesced_def FREE_MARK_def one_mega_def)
qed

theorem freeGroup_correct_witness:
  "\<exists>s' SM' F' xs' L'. freeGroup (FIRST_BDESCR MBLOCK_SIZE) (one_mega mb0) = Some s' \<and>
     alloc_inv s' SM' F' {} {} xs' L'"
proof -
  have "\<exists>s' SM' F' xs' L'. freeGroup (FIRST_BDESCR MBLOCK_SIZE) (one_mega mb0) = Some s' \<and>
    alloc_inv s' SM' F' ({} - {FIRST_BDESCR MBLOCK_SIZE}) ({FIRST_BDESCR MBLOCK_SIZE} - {FIRST_BDESCR MBLOCK_SIZE}) xs' L' \<and>
    owned (ba_mem s') SM' xs' ({FIRST_BDESCR MBLOCK_SIZE} - {FIRST_BDESCR MBLOCK_SIZE}) =
      owned (ba_mem (one_mega mb0)) {} [] {FIRST_BDESCR MBLOCK_SIZE} \<and>
    keeps ({} - {FIRST_BDESCR MBLOCK_SIZE}) ({FIRST_BDESCR MBLOCK_SIZE} - {FIRST_BDESCR MBLOCK_SIZE}) (one_mega mb0) s'"
    by (rule freeGroup_correct [OF one_mega_inv]) simp
  then show ?thesis by simp blast
qed

end
