(* ===== verification/BlockGet.thy ===== *)
theory BlockGet
  imports BlockAPI
begin

text \<open>
  Allocation: \<open>allocGroup\<close> takes a group from the free lists, whole or split, cuts a megablock, or
  takes a group of megablocks from the list of free ones or from the operating system, and keeps
  the invariant of the allocator.
\<close>

section \<open>From the free lists\<close>

text \<open>Blocks are aligned, so that the start of a block is not the mark of a free group.\<close>

lemma FREE_MARK_mark: "odd FREE_MARK"
  by (simp add: FREE_MARK_def)

lemma mblock_even: "even (mblock_of p)"
  by (simp add: mblock_of_div MBLOCK_SIZE_def)

lemma start_not_mark:
  assumes "groups_ok mem SM F A P" "h \<in> F \<union> A \<union> P"
  shows "bd_start (mem h) \<noteq> FREE_MARK"
proof -
  have h: "h \<in> descs (mblock_of h)" "mblock_of h \<in> SM"
    using cells_in_descs [OF assms head_cell [OF assms]] by auto
  obtain i where i: "i < BLOCKS_PER_MBLOCK" "h = bd_plus (FIRST_BDESCR (mblock_of h)) i"
    using h(1) unfolding descs_def cells_mem bd_plus_val by metis
  have "starts_ok mem (mblock_of h)" using assms(1) h(2) by (simp add: groups_ok_def)
  then have "bd_start (mem (bd_plus (FIRST_BDESCR (mblock_of h)) i)) = FIRST_BLOCK (mblock_of h) + BLOCK_SIZE * i"
    using i(1) unfolding starts_ok_def by blast
  then have s: "bd_start (mem h) = FIRST_BLOCK (mblock_of h) + BLOCK_SIZE * i"
    using i(2) by metis
  have "even (bd_start (mem h))"
    unfolding s using mblock_even [of h] by (simp add: FIRST_BLOCK_def BLOCK_SIZE_def FIRST_BLOCK_OFF_def)
  then show ?thesis using FREE_MARK_mark by metis
qed

lemma initGroup_take:
  assumes c: "core s SM F A {p} G xs L" and p: "bd_blocks (bd_of s p) < BLOCKS_PER_MBLOCK"
  defines "s' \<equiv> s\<lparr>ba_mem := initGroup p (ba_mem s)\<rparr>"
  shows "core s' SM F (insert p A) {} G xs L" "keeps A G s s'"
    "\<And>q. q \<notin> cells p (bd_blocks (bd_of s p)) \<Longrightarrow> bd_of s' q = bd_of s q"
    "bd_blocks (bd_of s' p) = bd_blocks (bd_of s p)" "initialised (ba_mem s') p"
proof -
  note gok = coreD(1) [OF c]
  have b: "0 < bd_blocks (bd_of s p)" using head_cell [OF gok, of p] by simp
  note f = initGroup_facts [of "ba_mem s" p, OF b]
  have c': "core s' SM F A {p} G xs L"
    unfolding s'_def by (rule core_pending [OF c singletonI f(1) f(2) f(4)])
  have "core s' SM F (insert p A) ({p} - {p}) G xs L"
    by (rule core_P_to_A [OF c' singletonI])
      (use f(2,3,5) p start_not_mark [OF gok, of p] in \<open>auto simp: s'_def\<close>)
  then show "core s' SM F (insert p A) {} G xs L" by simp
  show "keeps A G s s'" unfolding s'_def by (rule keepsI [OF c]) (use f(1) in auto)
  show "\<And>q. q \<notin> cells p (bd_blocks (bd_of s p)) \<Longrightarrow> bd_of s' q = bd_of s q"
    "bd_blocks (bd_of s' p) = bd_blocks (bd_of s p)" "initialised (ba_mem s') p"
    using f(1,2) initGroup_initialised [of "ba_mem s" p, OF b] by (simp_all add: s'_def)
qed

text \<open>Taking a group of exactly the size asked for.\<close>

lemma take_whole:
  assumes c: "core s SM F A {} G xs L" and o: "coalesced (ba_mem s) F" and x: "x \<in> F"
    and k: "k = log_2 (bd_blocks (bd_of s x))"
  defines "s1 \<equiv> fl_remove x k s"
  defines "s' \<equiv> s1\<lparr>ba_mem := initGroup x (ba_mem s1)\<rparr>"
  shows "\<exists>L'. core s' SM (F - {x}) (insert x A) {} G xs L'" "coalesced (ba_mem s') (F - {x})"
    "keeps A G s s'" "same_counts s s'" "owned (ba_mem s') SM xs G = owned (ba_mem s) SM xs G"
    "bd_blocks (bd_of s' x) = bd_blocks (bd_of s x)" "initialised (ba_mem s') x"
proof -
  note gok = coreD(1) [OF c]
  note r = core_fl_remove [OF c x k, folded s1_def]
  obtain L1 where c1: "core s1 SM (F - {x}) A {x} G xs L1" using r(1) by blast
  have bl: "bd_blocks (bd_of s1 q) = bd_blocks (bd_of s q)" for q by (rule same_but_linksD(3) [OF r(2)])
  have lt: "bd_blocks (bd_of s1 x) < BLOCKS_PER_MBLOCK" using gok x unfolding bl by (auto simp: groups_ok_def)
  note t = initGroup_take [OF c1 lt, folded s'_def]
  show "\<exists>L'. core s' SM (F - {x}) (insert x A) {} G xs L'" using t(1) by blast
  show "initialised (ba_mem s') x" by (rule t(5))
  have k1: "keeps A G s s1" by (rule keepsI [OF c]) (use r(3) in blast)
  show "keeps A G s s'" by (rule keeps_trans [OF k1 t(2)])
  show "same_counts s s'" by (simp add: same_counts_def s'_def s1_def)
  show "bd_blocks (bd_of s' x) = bd_blocks (bd_of s x)" using t(4) bl by simp
  have sz: "bd_blocks (bd_of s' q) = bd_blocks (bd_of s q)" if "q \<notin> cells x (bd_blocks (bd_of s x))" for q
    using t(3) [of q] that bl by simp
  show "coalesced (ba_mem s') (F - {x})"
  proof (rule coalesced_cong [OF o])
    fix q assume "q \<in> F - {x}"
    then have "q \<notin> cells x (bd_blocks (bd_of s x))" using interior_not_head [OF gok, of x q] x by blast
    then show "bd_blocks (bd_of s' q) = bd_blocks (bd_of s q)" by (rule sz)
  qed blast
  show "owned (ba_mem s') SM xs G = owned (ba_mem s) SM xs G"
    by (rule owned_cong, rule sz) (use small_not_mega [OF c, of x] x in blast)
qed

text \<open>Splitting a larger group; the part split off is pending.\<close>

lemma split_free_block_correct:
  assumes c: "core s SM F A {} G xs L" and o: "coalesced (ba_mem s) F" and x: "x \<in> F"
    and k: "k = log_2 (bd_blocks (bd_of s x))" and n: "0 < n" "n < bd_blocks (bd_of s x)"
  shows "\<exists>fg s' L'. split_free_block x n k s = Some (fg, s') \<and> core s' SM F A {fg} G xs L' \<and>
    coalesced (ba_mem s') F \<and> keeps A G s s' \<and> same_counts s s' \<and>
    owned (ba_mem s') SM xs G = owned (ba_mem s) SM xs G \<and> bd_blocks (bd_of s' fg) = n"
proof -
  note gok = coreD(1) [OF c]
  let ?b = "bd_blocks (bd_of s x)" and ?s1 = "fl_remove x k s"
  let ?fg = "x + 64 * (?b - n)"
  note r = core_fl_remove [OF c x k]
  obtain L1 where c1: "core ?s1 SM (F - {x}) A {x} G xs L1" using r(1) by blast
  have bl: "bd_blocks (bd_of ?s1 q) = bd_blocks (bd_of s q)" for q by (rule same_but_linksD(3) [OF r(2)])
  have n1: "n < bd_blocks (bd_of ?s1 x)" "?fg = x + 64 * (bd_blocks (bd_of ?s1 x) - n)" using n(2) bl by simp_all
  let ?s2 = "set_bd x (\<lambda>d. d\<lparr>bd_blocks := bd_blocks (bd_of ?s1 x) - n\<rparr>) (set_bd ?fg (\<lambda>d. d\<lparr>bd_blocks := n\<rparr>) ?s1)"
  note sp = core_split [OF c1 singletonI n(1) n1]
  have c2: "core ?s2 SM (F - {x}) A {?fg, x} G xs L1" using sp(1) by (simp add: insert_commute)
  let ?s3 = "?s2\<lparr>ba_mem := setup_tail x (ba_mem ?s2)\<rparr>"
  let ?s4 = "fl_onto x (log_2 (bd_blocks (bd_of ?s3 x))) ?s3"
  have fgx: "?fg \<noteq> x" using sp(4) .
  have b2: "bd_blocks (bd_of ?s2 x) = ?b - n" "bd_blocks (bd_of ?s2 ?fg) = n" using bl fgx by simp_all
  have b2p: "0 < bd_blocks (bd_of ?s2 x)" using b2 n by simp
  note f = setup_tail_facts [of "ba_mem ?s2" x, OF b2p]
  have c3: "core ?s3 SM (F - {x}) A {?fg, x} G xs L1" and k3: "keeps A G ?s2 ?s3"
    using core_setup_tail [OF c2, of x] by auto
  have code: "split_free_block x n k s = Some (?fg, ?s4)"
  proof -
    have "bd_plus x (bd_blocks (bd_of ?s1 x)) - BDESCR_SIZE * n = ?fg"
      using n(2) bl by (simp add: bd_plus_val BDESCR_SIZE_def diff_mult_distrib2)
    moreover have "set_bd x (\<lambda>d. d\<lparr>bd_blocks := bd_blocks d - n\<rparr>) (set_bd ?fg (\<lambda>d. d\<lparr>bd_blocks := n\<rparr>) ?s1) = ?s2"
      using fgx by (simp add: set_bd_def upd_bd_def)
    ultimately show ?thesis
      using n(2) unfolding split_free_block_def Let_def by simp
  qed
  have xF: "bd_blocks (bd_of s x) < BLOCKS_PER_MBLOCK" "bd_free (bd_of s x) = FREE_MARK"
    using gok x by (auto simp: groups_ok_def)
  have o3: "bd_blocks (bd_of ?s3 x) < BLOCKS_PER_MBLOCK" "bd_free (bd_of ?s3 x) = FREE_MARK" "check_tail (ba_mem ?s3) x"
    using f(2,3,5) b2 xF fgx same_but_linksD(2) [OF r(2), of x] by simp_all
  note u = core_fl_onto [OF c3 _ refl o3]
  have "insert x (F - {x}) = F" "{?fg, x} - {x} = {?fg}" using x fgx by auto
  then obtain L4 where c4: "core ?s4 SM F A {?fg} G xs L4" using u(1) by auto
  have fgc: "?fg \<in> cells x ?b" "x \<in> cells x ?b" using n by (auto simp: cells_mem intro: exI [of _ "?b - n"])
  have tl: "q \<in> cells x ?b" if "q \<in> cells x (bd_blocks (bd_of ?s2 x))" for q
    using that b2(1) by (auto simp: cells_mem) 
  have out3: "bd_of ?s3 q = bd_of ?s1 q" if "q \<notin> cells x ?b" for q
  proof -
    have "q \<noteq> x" "q \<noteq> ?fg" using that fgc by auto
    then show ?thesis using f(1) [of q] tl that by auto
  qed
  have k1: "keeps A G s ?s1" by (rule keepsI [OF c]) (use r(3) in blast)
  have k13: "keeps A G ?s1 ?s3" by (rule keepsI [OF c1]) (use out3 bl in auto)
  have k34: "keeps A G ?s3 ?s4"
  proof (rule keepsI [OF c3])
    fix q assume q: "q \<notin> F - {x}" "\<And>p. p \<in> {?fg, x} \<Longrightarrow> q \<notin> cells p (bd_blocks (bd_of ?s3 p))"
    then have "q \<noteq> x" using f(2) b2p by force
    then show "bd_of ?s4 q = bd_of ?s3 q" using u(3) q(1) by simp
  qed
  have sz: "bd_blocks (bd_of ?s4 q) = bd_blocks (bd_of s q)" if "q \<notin> cells x ?b" for q
    using same_but_linksD(3) [OF u(2), of q] out3 [OF that] bl by simp
  have szx: "bd_blocks (bd_of ?s4 x) = ?b - n"
    using same_but_linksD(3) [OF u(2), of x] f(2) b2(1) by simp
  have szf: "bd_blocks (bd_of ?s4 ?fg) = n"
  proof -
    have "?fg \<notin> cells x (bd_blocks (bd_of ?s2 x))" unfolding b2(1) by (auto simp: cells_mem)
    then have "bd_of ?s3 ?fg = bd_of ?s2 ?fg" using f(1) by simp
    then show ?thesis using same_but_linksD(3) [OF u(2), of ?fg] b2(2) by simp
  qed
  have inF: "q \<notin> cells x ?b" if "q \<in> F" "q \<noteq> x" for q
    using interior_not_head [OF gok, of x q] x that by blast
  have "?fg \<notin> F" using coreD(1) [OF c4] by (auto simp: groups_ok_def)
  moreover have "h + 64 * bd_blocks (bd_of ?s4 h) \<notin> F" if "h \<in> F" "h \<noteq> x" for h
    using o that sz [OF inF [OF that]] by (simp add: coalesced_def)
  ultimately have co: "coalesced (ba_mem ?s4) F" unfolding coalesced_def using szx by metis
  have ow: "owned (ba_mem ?s4) SM xs G = owned (ba_mem s) SM xs G"
    by (rule owned_cong, rule sz) (use small_not_mega [OF c, of x] x in blast)
  have "same_counts s ?s4" by (simp add: same_counts_def)
  then show ?thesis
    using code c4 co ow szf keeps_trans [OF keeps_trans [OF k1 k13] k34]
    by (intro exI [of _ ?fg] exI [of _ ?s4] exI [of _ L4]) simp
qed

section \<open>Groups of megablocks\<close>

definition new_mem :: "addr \<Rightarrow> nat \<Rightarrow> bd_mem \<Rightarrow> bd_mem" where
  "new_mem m k mem = upd_bd (FIRST_BDESCR m) (\<lambda>d. d\<lparr>bd_blocks := MBLOCK_GROUP_BLOCKS k\<rparr>) (initMBlock m mem)"

text \<open>A region of megablocks becomes a group; nothing outside it changes.\<close>

lemma init_region:
  assumes m: "m mod MBLOCK_SIZE = 0" and k: "1 \<le> k"
  defines "bd \<equiv> FIRST_BDESCR m" and "R \<equiv> {m ..< m + k * MBLOCK_SIZE}"
  shows "mhead (new_mem m k mem) bd" "mspan (new_mem m k mem) bd = R" "mblock_of bd = m"
    "\<forall>q. q \<notin> R \<longrightarrow> new_mem m k mem q = mem q" "bd_blocks (new_mem m k mem bd) = MBLOCK_GROUP_BLOCKS k"
proof -
  show mb: "mblock_of bd = m"
    unfolding bd_def FIRST_BDESCR_val by (rule mblock_of_desc [OF m]) (simp add: MBLOCK_SIZE_def)
  have "starts_ok (new_mem m k mem) m"
    by (rule starts_same [OF initMBlock_starts [of m mem]]) (simp add: new_mem_def upd_bd_def)
  then show "mhead (new_mem m k mem) bd"
    using mb m k by (simp add: mhead_def bd_def new_mem_def)
  show b: "bd_blocks (new_mem m k mem bd) = MBLOCK_GROUP_BLOCKS k" by (simp add: new_mem_def bd_def)
  show "mspan (new_mem m k mem) bd = R" using b mb k by (simp add: mspan_def mend_def R_def)
  have MB: "MBLOCK_SIZE \<le> k * MBLOCK_SIZE" using k by simp
  have sub: "descs m \<subseteq> R"
  proof
    fix x assume "x \<in> descs m"
    then show "x \<in> R" using descs_bounds [of x m] MB
      by (auto simp: R_def FIRST_BDESCR_val LAST_BDESCR_val MBLOCK_SIZE_def)
  qed
  have "bd \<in> R" using MB by (simp add: bd_def R_def FIRST_BDESCR_val MBLOCK_SIZE_def)
  then show "\<forall>q. q \<notin> R \<longrightarrow> new_mem m k mem q = mem q"
    using sub by (auto simp: new_mem_def bd_def initMBlock_at upd_bd_def)
qed

text \<open>Changes outside the groups of the list leave it a list of free groups.\<close>

lemma mlist_outside:
  assumes l: "mlist mem h xs" and eq: "\<forall>q. q \<notin> R \<longrightarrow> mem' q = mem q" and R: "R \<inter> mcover mem xs = {}"
  shows "mlist mem' h xs" "mcover mem' xs = mcover mem xs"
proof -
  have hx: "mhead mem x" if "x \<in> set xs" for x using l that by (simp add: mlist_def)
  have xo: "mspan mem x \<inter> R = {}" if "x \<in> set xs" for x
    using R that unfolding mcover_def by blast
  have xe: "mem' x = mem x" if "x \<in> set xs" for x
    using eq xo [OF that] mhead_span [OF hx [OF that]] by blast
  have "lst (\<lambda>p. bd_link (mem' p)) h xs"
    using l lst_cong [of xs "\<lambda>p. bd_link (mem p)" "\<lambda>p. bd_link (mem' p)"] xe by (simp add: mlist_def)
  moreover have "mhead mem' x" if x: "x \<in> set xs" for x
  proof (rule mhead_local [OF hx [OF x]])
    fix q assume "q \<in> mspan mem x"
    then show "bd_start (mem' q) = bd_start (mem q)" using eq xo [OF x] by (metis disjoint_iff)
  qed (use xe [OF x] in simp)
  moreover have "sorted_wrt (\<lambda>a b. mend mem' a < mblock_of b) xs"
    using l msorted_cong [of xs mem' mem] xe by (simp add: mlist_def)
  ultimately show "mlist mem' h xs" by (simp add: mlist_def)
  show "mcover mem' xs = mcover mem xs" by (rule mcover_cong) (use xe in simp)
qed

text \<open>A fresh region, disjoint from all that is owned.\<close>

lemma take_fresh:
  assumes c: "core s SM F A P G xs L" and m: "m mod MBLOCK_SIZE = 0" and k: "1 \<le> k"
    and R: "{m ..< m + k * MBLOCK_SIZE} \<inter> owned (ba_mem s) SM xs G = {}"
  defines "bd \<equiv> FIRST_BDESCR m" and "s' \<equiv> s\<lparr>ba_mem := new_mem m k (ba_mem s)\<rparr>"
  shows "core s' SM F A P (insert bd G) xs L" "bd \<notin> G" "keeps A G s s'"
    "\<forall>q \<in> F \<union> A \<union> P. bd_of s' q = bd_of s q"
    "owned (ba_mem s') SM xs (insert bd G) = owned (ba_mem s) SM xs G \<union> {m ..< m + k * MBLOCK_SIZE}"
    "bd_blocks (bd_of s' bd) = MBLOCK_GROUP_BLOCKS k"
proof -
  let ?R = "{m ..< m + k * MBLOCK_SIZE}" and ?mem = "new_mem m k (ba_mem s)"
  note ir = init_region(1,2,4,5) [OF m k, of "ba_mem s", folded bd_def]
  note mok = coreD(3) [OF c]
  note M = megasD [OF mok]
  have "?R \<inter> mcover (ba_mem s) xs = {}" using R unfolding owned_def by blast
  note mo = mlist_outside [OF M(1) ir(3) this]
  have l: "mlist ?mem (free_mblock_list s) xs" and cov: "mcover ?mem xs = mcover (ba_mem s) xs" by (rule mo)+
  have dj: "?R \<inter> mcover ?mem xs = {}" "?R \<inter> g_span (ba_mem s) G = {}" "?R \<inter> sm_span SM = {}"
    using R unfolding owned_def cov by blast+
  have s'e: "s' = s\<lparr>ba_mem := ?mem, free_mblock_list := free_mblock_list s\<rparr>" by (simp add: s'_def)
  have eq: "\<forall>q. q \<notin> ?R \<longrightarrow> q \<notin> set xs \<longrightarrow> ?mem q = bd_of s q" using ir(3) by blast
  note n = core_new_mega [OF c eq l _ ir(1,2) dj, folded s'e]
  have a: "mcover ?mem xs \<subseteq> mcover (ba_mem s) xs" using cov by simp
  show "core s' SM F A P (insert bd G) xs L" "bd \<notin> G" "keeps A G s s'"
    by (rule n(1) [OF a], rule n(2) [OF a], rule n(3) [OF a])
  show "\<forall>q \<in> F \<union> A \<union> P. bd_of s' q = bd_of s q" using n(4) [OF a] by (simp add: s'_def)
  show "owned (ba_mem s') SM xs (insert bd G) = owned (ba_mem s) SM xs G \<union> ?R"
    using n(5) [OF a] cov by (auto simp: owned_def s'_def)
  show "bd_blocks (bd_of s' bd) = MBLOCK_GROUP_BLOCKS k" using ir(4) by (simp add: s'_def)
qed

text \<open>The top megablocks of a larger group of the list.\<close>

lemma take_best:
  assumes c: "core s SM F A P G xs L" and b: "b \<in> set xs" and k: "1 \<le> k" "MBLOCK_GROUP_BLOCKS k < bd_blocks (bd_of s b)"
  defines "j \<equiv> BLOCKS_TO_MBLOCKS (bd_blocks (bd_of s b)) - k"
  defines "m \<equiv> mblock_of b + j * MBLOCK_SIZE"
  defines "bd \<equiv> FIRST_BDESCR m"
  defines "s' \<equiv> s\<lparr>ba_mem := new_mem m k (upd_bd b (\<lambda>d. d\<lparr>bd_blocks := MBLOCK_GROUP_BLOCKS j\<rparr>) (ba_mem s))\<rparr>"
  shows "core s' SM F A P (insert bd G) xs L" "bd \<notin> G" "keeps A G s s'"
    "\<forall>q \<in> F \<union> A \<union> P. bd_of s' q = bd_of s q"
    "owned (ba_mem s') SM xs (insert bd G) = owned (ba_mem s) SM xs G"
    "bd_blocks (bd_of s' bd) = MBLOCK_GROUP_BLOCKS k"
proof -
  let ?R = "{m ..< m + k * MBLOCK_SIZE}" and ?mem = "ba_mem s'"
  let ?m1 = "upd_bd b (\<lambda>d. d\<lparr>bd_blocks := MBLOCK_GROUP_BLOCKS j\<rparr>) (ba_mem s)"
  have mem: "?mem = new_mem m k ?m1" by (simp add: s'_def)
  note mok = coreD(3) [OF c]
  note M = megasD [OF mok]
  have hx: "mhead (ba_mem s) x" if "x \<in> set xs" for x using M(1) that by (simp add: mlist_def)
  have l: "mlist (ba_mem s) (free_mblock_list s) xs" by (rule M(1))
  have j: "1 \<le> j"
  proof -
    have "MBLOCK_GROUP_BLOCKS (BLOCKS_TO_MBLOCKS (bd_blocks (bd_of s b))) = bd_blocks (bd_of s b)"
      by (rule mhead_blocks [OF hx [OF b]])
    then have "k < BLOCKS_TO_MBLOCKS (bd_blocks (bd_of s b))"
      using k by (cases "BLOCKS_TO_MBLOCKS (bd_blocks (bd_of s b)) \<le> k") (simp_all add: MBLOCK_GROUP_BLOCKS_val)
    then show ?thesis by (simp add: j_def)
  qed
  have jk: "BLOCKS_TO_MBLOCKS (bd_blocks (bd_of s b)) = j + k" using j by (simp add: j_def)
  have mal: "m mod MBLOCK_SIZE = 0" by (simp add: m_def mod_add_eq [symmetric])
  note ir = init_region(1,2,4,5) [OF mal k(1), of ?m1, folded bd_def mem]
  have sb: "mspan (ba_mem s) b = {mblock_of b ..< m} \<union> ?R"
    using jk k(1) by (auto simp: mspan_def mend_def m_def add_mult_distrib)
  have bR: "b \<notin> ?R"
  proof -
    have "b = 256 + mblock_of b" using hx [OF b] unfolding mhead_def by (metis FIRST_BDESCR_val)
    moreover have "MBLOCK_SIZE \<le> j * MBLOCK_SIZE" using j by simp
    ultimately have "b < m" by (simp add: m_def MBLOCK_SIZE_def)
    then show ?thesis by simp
  qed
  have bb: "bd_blocks (?mem b) = MBLOCK_GROUP_BLOCKS j" "bd_link (?mem b) = bd_link (bd_of s b)"
    using ir(3) bR by (auto simp: upd_bd_def)
  have other: "mspan (ba_mem s) x \<inter> ?R = {}" "x \<notin> ?R" if "x \<in> set xs" "x \<noteq> b" for x
    using mlist_spans [OF l that(1) b that(2)] mhead_span [OF hx [OF that(1)]] sb by blast+
  have xe: "?mem x = bd_of s x" if "x \<in> set xs" "x \<noteq> b" for x
    using ir(3) other(2) [OF that] that(2) by (auto simp: upd_bd_def)
  have st: "bd_start (?mem q) = bd_start (bd_of s q)" if "q \<notin> ?R" for q
    using ir(3) that by (auto simp: upd_bd_def)
  have spb: "mspan ?mem b = {mblock_of b ..< m}" using bb(1) j by (simp add: mspan_def mend_def m_def)
  have spx: "mspan ?mem x = mspan (ba_mem s) x" if "x \<in> set xs" "x \<noteq> b" for x
    using xe [OF that] by (simp add: mspan_def mend_def)
  have hb: "mhead ?mem b"
  proof -
    have "starts_ok ?mem (mblock_of b)"
    proof -
      have "q \<notin> ?R" if "q \<in> descs (mblock_of b)" for q
        using descs_bounds [OF that] j by (auto simp: m_def LAST_BDESCR_val MBLOCK_SIZE_def)
      moreover have "starts_ok (ba_mem s) (mblock_of b)" using hx [OF b] by (simp add: mhead_def)
      ultimately show ?thesis using st by (auto simp: starts_ok_def descs_def cells_mem bd_plus_val)
    qed
    then show ?thesis using hx [OF b] bb(1) j unfolding mhead_def by (metis MGB_BTM)
  qed
  have hx': "mhead ?mem x" if x: "x \<in> set xs" for x
  proof (cases "x = b")
    case False
    show ?thesis
    proof (rule mhead_local [OF hx [OF x]])
      fix q assume "q \<in> mspan (ba_mem s) x"
      then show "bd_start (?mem q) = bd_start (bd_of s q)" using st other(1) [OF x False] by blast
    qed (use xe [OF x False] in simp)
  qed (use hb in simp)
  have lk: "lst (\<lambda>p. bd_link (?mem p)) (free_mblock_list s) xs"
  proof -
    have "bd_link (bd_of s x) = bd_link (?mem x)" if "x \<in> set xs" for x
      using xe [OF that] bb(2) by (cases "x = b") auto
    then show ?thesis
      using l lst_cong [of xs "\<lambda>p. bd_link (bd_of s p)" "\<lambda>p. bd_link (?mem p)"] by (simp add: mlist_def)
  qed
  have me: "mend ?mem x \<le> mend (ba_mem s) x" if "x \<in> set xs" for x
    using xe [OF that] bb(1) jk j by (cases "x = b") (auto simp: mend_def)
  have so: "sorted_wrt (\<lambda>a b. mend ?mem a < mblock_of b) xs"
  proof (rule sorted_wrt_mono_rel [where P = "\<lambda>a b. mend (ba_mem s) a < mblock_of b"])
    show "mend ?mem x < mblock_of y" if "x \<in> set xs" "mend (ba_mem s) x < mblock_of y" for x y
      using me [OF that(1)] that(2) by simp
    show "sorted_wrt (\<lambda>a b. mend (ba_mem s) a < mblock_of b) xs" using l by (simp add: mlist_def)
  qed
  have l': "mlist ?mem (free_mblock_list s) xs" using lk hx' so by (simp add: mlist_def)
  have cov: "mcover (ba_mem s) xs = mcover ?mem xs \<union> ?R" "?R \<inter> mcover ?mem xs = {}"
  proof -
    have "mspan (ba_mem s) x \<subseteq> mcover ?mem xs \<union> ?R" if "x \<in> set xs" for x
      using that spx [of x] spb sb by (cases "x = b") (auto simp: mcover_def)
    moreover have "mspan ?mem x \<subseteq> mcover (ba_mem s) xs" if "x \<in> set xs" for x
      using that spx [of x] spb sb by (cases "x = b") (auto simp: mcover_def)
    moreover have "?R \<subseteq> mcover (ba_mem s) xs" using sb b by (auto simp: mcover_def)
    ultimately show "mcover (ba_mem s) xs = mcover ?mem xs \<union> ?R" unfolding mcover_def by blast
    have "?R \<inter> mspan ?mem x = {}" if "x \<in> set xs" for x
      using that spx [of x] spb other(1) [of x] by (cases "x = b") auto
    then show "?R \<inter> mcover ?mem xs = {}" unfolding mcover_def by blast
  qed
  have eq: "\<forall>q. q \<notin> ?R \<longrightarrow> q \<notin> set xs \<longrightarrow> ?mem q = bd_of s q"
    using ir(3) b by (auto simp: upd_bd_def)
  have dj: "?R \<inter> g_span (ba_mem s) G = {}" "?R \<inter> sm_span SM = {}" using M(4,5) cov(1) by blast+
  have s'e: "s' = s\<lparr>ba_mem := ?mem, free_mblock_list := free_mblock_list s\<rparr>" by (simp add: s'_def)
  have a: "mcover ?mem xs \<subseteq> mcover (ba_mem s) xs" using cov(1) by blast
  note n = core_new_mega [OF c eq l' a ir(1,2) cov(2) dj, folded s'e]
  show "core s' SM F A P (insert bd G) xs L" "bd \<notin> G" "keeps A G s s'" by (rule n(1), rule n(2), rule n(3))
  show "\<forall>q \<in> F \<union> A \<union> P. bd_of s' q = bd_of s q" using n(4) by blast
  show "owned (ba_mem s') SM xs (insert bd G) = owned (ba_mem s) SM xs G"
    using n(5) cov(1) by (auto simp: owned_def)
  show "bd_blocks (bd_of s' bd) = MBLOCK_GROUP_BLOCKS k" by (rule ir(4))
qed

lemma core_without: "core s SM F A P G xs L \<Longrightarrow> core s SM F A P (G - {g}) xs L"
proof -
  assume c: "core s SM F A P G xs L"
  note M = megasD [OF coreD(3) [OF c]]
  have "g_span (ba_mem s) (G - {g}) \<subseteq> g_span (ba_mem s) G" by (auto simp: g_span_def)
  then have "megas_ok (ba_mem s) (free_mblock_list s) xs (G - {g}) SM"
    by (intro megasI) (use M in blast)+
  then show ?thesis using c by (simp add: core_def)
qed

text \<open>Initialising an allocated group of megablocks.\<close>

lemma core_init_mega:
  assumes c: "core s SM F A P G xs L" and g: "g \<in> G"
  defines "s' \<equiv> s\<lparr>ba_mem := initGroup g (ba_mem s)\<rparr>"
  shows "core s' SM F A P G xs L" "keeps A (G - {g}) s s'" "\<forall>q \<in> F \<union> A \<union> P. bd_of s' q = bd_of s q"
    "owned (ba_mem s') SM xs G = owned (ba_mem s) SM xs G" "bd_blocks (bd_of s' g) = bd_blocks (bd_of s g)"
    "bd_free (bd_of s' g) \<noteq> FREE_MARK" "initialised (ba_mem s') g"
proof -
  note M = megasD [OF coreD(3) [OF c]]
  let ?R = "mspan (ba_mem s) g" and ?mem = "initGroup g (ba_mem s)"
  have hg: "mhead (ba_mem s) g" by (rule M(2) [OF g])
  have b: "bd_blocks (bd_of s g) = MBLOCK_GROUP_BLOCKS (BLOCKS_TO_MBLOCKS (bd_blocks (bd_of s g)))"
    using mhead_blocks [OF hg] by simp
  have one: "1 \<le> BLOCKS_TO_MBLOCKS (bd_blocks (bd_of s g))" by (simp add: BLOCKS_TO_MBLOCKS_def)
  note sc = span_cells [OF hg b one]
  have pos: "0 < bd_blocks (bd_of s g)" by (subst b) (simp add: MBLOCK_GROUP_BLOCKS_val)
  show "initialised (ba_mem s') g" using initGroup_initialised [of "ba_mem s" g, OF pos] by (simp add: s'_def)
  note f = initGroup_facts [of "ba_mem s" g, OF pos]
  have eq: "\<forall>q. q \<notin> ?R \<longrightarrow> ?mem q = bd_of s q" using f(1) sc(1) by blast
  have hg': "mhead ?mem g" by (rule mhead_local [OF hg]) (use f(2,4) in simp_all)
  have sp: "mspan ?mem g = ?R" using f(2) by (simp add: mspan_def mend_def)
  have R: "?R \<inter> mcover (ba_mem s) xs = {}" by (rule M(8) [OF g])
  note mo = mlist_outside [OF M(1) eq R]
  have dG: "?R \<inter> g_span (ba_mem s) (G - {g}) = {}"
  proof -
    have "?R \<inter> mspan (ba_mem s) h = {}" if "h \<in> G - {g}" for h by (rule M(7) [OF g]) (use that in auto)
    then show ?thesis unfolding g_span_def by blast
  qed
  have dj: "?R \<inter> mcover ?mem xs = {}" "?R \<inter> sm_span SM = {}" using R M(9) [OF g] mo(2) by auto
  have s'e: "s' = s\<lparr>ba_mem := ?mem, free_mblock_list := free_mblock_list s\<rparr>" by (simp add: s'_def)
  have e: "\<forall>q. q \<notin> ?R \<longrightarrow> q \<notin> set xs \<longrightarrow> ?mem q = bd_of s q" using eq by blast
  have a: "mcover ?mem xs \<subseteq> mcover (ba_mem s) xs" using mo(2) by simp
  note n = core_new_mega [OF core_without [OF c] e mo(1) a hg' sp dj(1) dG dj(2), folded s'e]
  have G: "insert g (G - {g}) = G" using g by blast
  show "core s' SM F A P G xs L" using n(1) unfolding G .
  show "keeps A (G - {g}) s s'" by (rule n(3))
  show "\<forall>q \<in> F \<union> A \<union> P. bd_of s' q = bd_of s q" using n(4) by (simp add: s'_def)
  have "g_span (ba_mem s) G = ?R \<union> g_span (ba_mem s) (G - {g})" using g by (auto simp: g_span_def)
  then show "owned (ba_mem s') SM xs G = owned (ba_mem s) SM xs G"
    using n(5) mo(2) unfolding G owned_def s'_def by simp
  show "bd_blocks (bd_of s' g) = bd_blocks (bd_of s g)" using f(2) by (simp add: s'_def)
  have "bd_free (bd_of s' g) = 16384 + mblock_of g" using f(3) mhead_start [OF hg] by (simp add: s'_def)
  moreover have "even (mblock_of g)" by (rule mblock_even)
  ultimately show "bd_free (bd_of s' g) \<noteq> FREE_MARK"
    by (metis FREE_MARK_mark even_add even_numeral)
qed

text \<open>The operating system's side: all that is owned is mapped, and the heap map knows exactly the
  megablocks that are owned.\<close>

definition os_ok :: "ba_state \<Rightarrow> nat set \<Rightarrow> bool" where
  "os_ok s own \<longleftrightarrow> mb_inv (ba_mb s) \<and> own \<subseteq> mapped (mb_os (ba_mb s)) \<and>
     heap_mblocks (ba_mb s) = {i. i * MBLOCK_SIZE \<in> own}"

lemma os_ok_getMBlocks:
  assumes os: "os_ok s own" and sp: "mmap_spec mmap" and k: "k \<le> 4096"
    and g: "getMBlocks mmap munmap_ok k (ba_mb s) = Some (ret, mb)"
  shows "ret mod MBLOCK_SIZE = 0" "{ret ..< ret + k * MBLOCK_SIZE} \<inter> own = {}"
    "os_ok (s\<lparr>ba_mb := mb\<rparr>) (own \<union> {ret ..< ret + k * MBLOCK_SIZE})"
proof -
  have inv: "mb_inv (ba_mb s)" using os by (simp add: os_ok_def)
  have r: "fresh_region (mb_os (ba_mb s)) (MBLOCK_SIZE * k) ret (mb_os mb)" "mb_inv mb"
    "heap_mblocks mb = heap_mblocks (ba_mb s) \<union> {ret div MBLOCK_SIZE ..< ret div MBLOCK_SIZE + k}"
    using getMBlocks_result [OF sp inv k g] by auto
  show al: "ret mod MBLOCK_SIZE = 0" and "{ret ..< ret + k * MBLOCK_SIZE} \<inter> own = {}"
    using r(1) os by (auto simp: fresh_region_def os_ok_def mult.commute)
  obtain q where q: "ret = q * MBLOCK_SIZE" using al by (metis mod_0_imp_dvd dvdE mult.commute)
  have "i * MBLOCK_SIZE \<in> {ret ..< ret + k * MBLOCK_SIZE} \<longleftrightarrow> i \<in> {q ..< q + k}" for i
    unfolding q by (auto simp: MBLOCK_SIZE_def)
  moreover have "ret div MBLOCK_SIZE = q" unfolding q by (simp add: MBLOCK_SIZE_def)
  ultimately show "os_ok (s\<lparr>ba_mb := mb\<rparr>) (own \<union> {ret ..< ret + k * MBLOCK_SIZE})"
    using os r by (auto simp: os_ok_def fresh_region_def mult.commute)
qed

lemma core_ba_mb [simp]:
  "core (s\<lparr>ba_mb := v\<rparr>) SM F A P G xs L \<longleftrightarrow> core s SM F A P G xs L"
  by (simp add: core_def)

definition mega_taken :: "nat \<Rightarrow> ba_state \<Rightarrow> nat set \<Rightarrow> addr set \<Rightarrow> addr set \<Rightarrow> addr set \<Rightarrow> addr set \<Rightarrow> addr list \<Rightarrow>
    (nat \<Rightarrow> addr list) \<Rightarrow> addr \<Rightarrow> ba_state \<Rightarrow> bool" where
  "mega_taken k s SM F A P G xs L bd s' \<longleftrightarrow>
     (\<exists>xs'. core s' SM F A P (insert bd G) xs' L \<and> os_ok s' (owned (ba_mem s') SM xs' (insert bd G)) \<and>
        owned (ba_mem s) SM xs G \<subseteq> owned (ba_mem s') SM xs' (insert bd G)) \<and>
     bd \<notin> G \<and> keeps A G s s' \<and> (\<forall>q \<in> F \<union> A \<union> P. bd_of s' q = bd_of s q) \<and>
     bd_blocks (bd_of s' bd) = MBLOCK_GROUP_BLOCKS k \<and>
     n_alloc_blocks s' = n_alloc_blocks s \<and> hw_alloc_blocks s' = hw_alloc_blocks s \<and> free_list s' = free_list s"

lemma mega_takenI:
  assumes "core s' SM F A P (insert bd G) xs' L" "os_ok s' (owned (ba_mem s') SM xs' (insert bd G))"
    "owned (ba_mem s) SM xs G \<subseteq> owned (ba_mem s') SM xs' (insert bd G)"
    "bd \<notin> G" "keeps A G s s'" "\<forall>q \<in> F \<union> A \<union> P. bd_of s' q = bd_of s q"
    "bd_blocks (bd_of s' bd) = MBLOCK_GROUP_BLOCKS k"
    "n_alloc_blocks s' = n_alloc_blocks s" "hw_alloc_blocks s' = hw_alloc_blocks s" "free_list s' = free_list s"
  shows "mega_taken k s SM F A P G xs L bd s'"
  unfolding mega_taken_def using assms(1-3) by (intro conjI exI assms(4-10))

lemma os_ok_same: "os_ok s own \<Longrightarrow> ba_mb s' = ba_mb s \<Longrightarrow> os_ok s' own"
  by (simp add: os_ok_def)

text \<open>\<open>alloc_mega_group\<close> answers a group unless the operating system has no memory.\<close>

lemma alloc_mega_group_correct:
  assumes c: "core s SM F A P G xs L" and os: "os_ok s (owned (ba_mem s) SM xs G)"
    and sp: "mmap_spec mmap" and k: "1 \<le> k" "k \<le> 4096"
  shows "(\<exists>bd s'. alloc_mega_group mmap munmap_ok k s = Some (bd, s') \<and> mega_taken k s SM F A P G xs L bd s') \<or>
    alloc_mega_group mmap munmap_ok k s = None \<and> getMBlocks mmap munmap_ok k (ba_mb s) = None"
proof -
  let ?n = "MBLOCK_GROUP_BLOCKS k"
  note M = megasD [OF coreD(3) [OF c]]
  have ls: "lst (\<lambda>p. bd_link (bd_of s p)) (free_mblock_list s) xs" using M(1) by (simp add: mlist_def)
  consider (exact) us bd vs where "xs = us @ bd # vs" "bd_blocks (bd_of s bd) = ?n"
      "mega_search (ba_mem s) ?n (free_mblock_list s) NULL NULL = Some (Inl (bd, last (NULL # us)))"
    | (best) b where "b \<noteq> NULL" "b \<in> set xs" "?n < bd_blocks (bd_of s b)"
      "mega_search (ba_mem s) ?n (free_mblock_list s) NULL NULL = Some (Inr b)"
    | (none) "mega_search (ba_mem s) ?n (free_mblock_list s) NULL NULL = Some (Inr NULL)"
    using mega_search_lst [OF ls, of NULL ?n NULL] by (auto split: if_splits)
  then show ?thesis
  proof cases
    case exact
    define s1 where "s1 = (if last (NULL # us) \<noteq> NULL
      then set_bd (last (NULL # us)) (\<lambda>d. d\<lparr>bd_link := bd_link (bd_of s bd)\<rparr>) s
      else s\<lparr>free_mblock_list := bd_link (bd_of s bd)\<rparr>)"
    let ?s' = "s1\<lparr>ba_mem := initGroup bd (ba_mem s1)\<rparr>"
    note t = take_exact [OF c exact(1,2) k(1) s1_def]
    have code: "alloc_mega_group mmap munmap_ok k s = Some (bd, ?s')"
      using exact(3) by (simp add: alloc_mega_group_def Let_def s1_def)
    have "mega_taken k s SM F A P G xs L bd ?s'"
      by (rule mega_takenI [OF t(1)])
        (use t os in \<open>auto simp: same_rest_def os_ok_def\<close>)
    then show ?thesis using code by blast
  next
    case best
    define j where "j = BLOCKS_TO_MBLOCKS (bd_blocks (bd_of s b)) - k"
    define m where "m = mblock_of b + j * MBLOCK_SIZE"
    let ?s' = "s\<lparr>ba_mem := new_mem m k (upd_bd b (\<lambda>d. d\<lparr>bd_blocks := MBLOCK_GROUP_BLOCKS j\<rparr>) (ba_mem s))\<rparr>"
    note t = take_best [OF c best(2) k(1) best(3), folded j_def, folded m_def]
    have mal: "m mod MBLOCK_SIZE = 0" by (simp add: m_def mod_add_eq [symmetric])
    have code: "alloc_mega_group mmap munmap_ok k s = Some (FIRST_BDESCR m, ?s')"
      using best(1,4) init_region(3) [OF mal k(1)]
      by (simp add: alloc_mega_group_def Let_def j_def [symmetric] m_def [symmetric] new_mem_def set_bd_def)
    have "mega_taken k s SM F A P G xs L (FIRST_BDESCR m) ?s'"
      by (rule mega_takenI [OF t(1)]) (use t os in \<open>auto simp: os_ok_def\<close>)
    then show ?thesis using code by blast
  next
    case none
    show ?thesis
    proof (cases "getMBlocks mmap munmap_ok k (ba_mb s)")
      case None
      then show ?thesis using none by (simp add: alloc_mega_group_def Let_def)
    next
      case (Some r)
      then obtain ret mb where g: "getMBlocks mmap munmap_ok k (ba_mb s) = Some (ret, mb)" by (cases r) auto
      note o = os_ok_getMBlocks [OF os sp k(2) g]
      let ?s0 = "s\<lparr>ba_mb := mb\<rparr>"
      let ?s' = "?s0\<lparr>ba_mem := new_mem ret k (ba_mem ?s0)\<rparr>"
      have c0: "core ?s0 SM F A P G xs L" using c by simp
      have R: "{ret ..< ret + k * MBLOCK_SIZE} \<inter> owned (ba_mem ?s0) SM xs G = {}" using o(2) by simp
      note t = take_fresh [OF c0 o(1) k(1) R]
      have code: "alloc_mega_group mmap munmap_ok k s = Some (FIRST_BDESCR ret, ?s')"
        using none g by (simp add: alloc_mega_group_def Let_def new_mem_def set_bd_def)
      have "mega_taken k s SM F A P G xs L (FIRST_BDESCR ret) ?s'"
      proof (rule mega_takenI [OF t(1)])
        show "os_ok ?s' (owned (ba_mem ?s') SM xs (insert (FIRST_BDESCR ret) G))"
          using o(3) unfolding t(5) by (simp add: os_ok_def)
        show "owned (ba_mem s) SM xs G \<subseteq> owned (ba_mem ?s') SM xs (insert (FIRST_BDESCR ret) G)"
          unfolding t(5) by simp
        show "keeps A G s ?s'" using t(3) by (simp add: keeps_def)
      qed (use t in simp_all)
      then show ?thesis using code by blast
    qed
  qed
qed

section \<open>Cutting a megablock\<close>

lemma cut_megablock:
  assumes c: "core s SM F A {} (insert bd G) xs L" and bd: "bd \<notin> G" "bd_blocks (bd_of s bd) = BLOCKS_PER_MBLOCK"
    and n: "0 < n" "n < BLOCKS_PER_MBLOCK" and o: "coalesced (ba_mem s) F"
  defines "r \<equiv> bd_plus bd n"
  defines "m1 \<equiv> initGroup bd (upd_bd bd (\<lambda>d. d\<lparr>bd_blocks := n\<rparr>) (ba_mem s))"
  defines "m2 \<equiv> initGroup r (upd_bd r (\<lambda>d. d\<lparr>bd_blocks := BLOCKS_PER_MBLOCK - n\<rparr>) m1)"
  defines "s' \<equiv> s\<lparr>ba_mem := m2\<rparr>" and "SM' \<equiv> insert (mblock_of bd) SM"
  shows "core s' SM' F (insert bd (insert r A)) {} G xs L" "keeps A G s s'" "coalesced (ba_mem s') F"
    "owned (ba_mem s') SM' xs G = owned (ba_mem s) SM xs (insert bd G)"
    "bd_blocks (bd_of s' bd) = n" "bd_blocks (bd_of s' r) = BLOCKS_PER_MBLOCK - n" "r \<noteq> bd"
    "bd \<notin> A" "r \<notin> A" "initialised (ba_mem s') bd"
proof -
  have "insert bd G - {bd} = G" using bd(1) by blast
  then have c1: "core s SM' F A {bd} G xs L" and nn: "bd \<notin> F \<union> A \<union> {}" "mblock_of bd \<notin> SM"
    using core_cut [OF c insertI1 bd(2)] by (simp_all add: SM'_def)
  note gok = coreD(1) [OF c1]
  let ?B = "BLOCKS_PER_MBLOCK"
  have r: "r = bd + 64 * (?B - (?B - n))" "r = bd + 64 * n" using n by (simp_all add: r_def bd_plus_val)
  have nB: "0 < ?B - n" "?B - n < bd_blocks (bd_of s bd)" using n bd(2) by simp_all
  have rs: "r = bd + 64 * (bd_blocks (bd_of s bd) - (?B - n))" using r(1) bd(2) by simp
  have bdH: "bd \<in> F \<union> A \<union> {bd}" by simp
  note ts = tiling_split [OF coreD(4) [OF c1] bdH nB rs]
  have rH: "r \<notin> F \<union> A \<union> {bd}" using ts(2) by simp
  show rb: "r \<noteq> bd" and "bd \<notin> A" and "r \<notin> A" using rH nn by auto
  have cb: "x \<in> cells bd ?B" if "x \<in> cells bd n \<or> x \<in> cells r (?B - n)" for x
  proof -
    have "\<exists>j < ?B. x = bd + 64 * j"
      using that
    proof
      assume "x \<in> cells bd n"
      then obtain j where "j < n" "x = bd + 64 * j" by (auto simp: cells_mem)
      then show ?thesis using n by (intro exI [of _ j]) simp
    next
      assume "x \<in> cells r (?B - n)"
      then obtain j where "j < ?B - n" "x = r + 64 * j" by (auto simp: cells_mem)
      then show ?thesis using r(2) by (intro exI [of _ "n + j"]) simp
    qed
    then show ?thesis by (simp add: cells_mem)
  qed
  have dis: "x \<notin> cells r (?B - n)" if "x \<in> cells bd n" for x
    using that r(2) by (auto simp: cells_mem)
  let ?u1 = "upd_bd bd (\<lambda>d. d\<lparr>bd_blocks := n\<rparr>) (ba_mem s)"
  let ?u2 = "upd_bd r (\<lambda>d. d\<lparr>bd_blocks := ?B - n\<rparr>) m1"
  have b1: "0 < bd_blocks (?u1 bd)" and b2: "0 < bd_blocks (?u2 r)" using n by simp_all
  note f1 = initGroup_facts [of ?u1 bd, OF b1, folded m1_def]
  note f2 = initGroup_facts [of ?u2 r, OF b2, folded m2_def]
  have u: "bd_blocks (?u1 bd) = n" "bd_blocks (?u2 r) = ?B - n" by simp_all
  have bc: "bd \<in> cells bd n" "r \<in> cells r (?B - n)" using n by (auto simp: cells_mem intro: exI [of _ 0])
  have g1: "m1 q = bd_of s q" if "q \<notin> cells bd n" for q
  proof -
    have "q \<noteq> bd" using that bc by blast
    then show ?thesis using f1(1) [of q] that u(1) by simp
  qed
  have g2: "m2 q = m1 q" if "q \<notin> cells r (?B - n)" for q
  proof -
    have "q \<noteq> r" using that bc by blast
    then show ?thesis using f2(1) [of q] that u(2) by simp
  qed
  have mb: "m2 bd = m1 bd" by (rule g2 [OF dis [OF bc(1)]])
  show bb: "bd_blocks (bd_of s' bd) = n" using mb f1(2) u(1) by (simp add: s'_def)
  show br: "bd_blocks (bd_of s' r) = ?B - n" using f2(2) u(2) by (simp add: s'_def)
  show "initialised (ba_mem s') bd"
    by (rule initialised_cong [OF initGroup_initialised [of ?u1 bd, OF b1, folded m1_def]])
      (use mb f1(2) u(1) g2 dis in \<open>auto simp: s'_def\<close>)
  have out: "m2 q = bd_of s q" if "q \<notin> cells bd ?B" for q
  proof -
    have "q \<notin> cells bd n" "q \<notin> cells r (?B - n)" using that cb by blast+
    then show ?thesis using g1 g2 by simp
  qed
  have st: "bd_start (m2 q) = bd_start (bd_of s q)" for q
    using f1(4) [of q] f2(4) [of q] by (auto simp: upd_bd_def split: if_splits)
  have hd: "h \<notin> cells bd ?B" if "h \<in> F \<union> A" for h
    using interior_not_head [OF gok bdH, of h] that bd(2) nn by auto
  have ti: "tiling (sizes m2) SM' (F \<union> A \<union> {bd, r})"
  proof -
    have "sizes m2 h = ((sizes (ba_mem s))(bd := bd_blocks (bd_of s bd) - (?B - n), r := ?B - n)) h"
      if "h \<in> F \<union> A \<union> {bd, r}" for h
    proof -
      consider "h = bd" | "h = r" | "h \<in> F \<union> A" using \<open>h \<in> F \<union> A \<union> {bd, r}\<close> by blast
      then show ?thesis
      proof cases
        case 3
        then have "h \<noteq> bd" "h \<noteq> r" using rH nn by blast+
        then show ?thesis using out [OF hd [OF 3]] by simp
      qed (use bb br rb bd(2) n in \<open>simp_all add: s'_def\<close>)
    qed
    moreover have "insert r (F \<union> A \<union> {bd}) = F \<union> A \<union> {bd, r}" by blast
    ultimately show ?thesis using ts(1) tiling_cong [of "F \<union> A \<union> {bd, r}" "sizes m2"
        "(sizes (ba_mem s))(bd := bd_blocks (bd_of s bd) - (?B - n), r := ?B - n)" SM'] by simp
  qed
  have c2: "core s' SM' F A {bd, r} G xs L"
    unfolding s'_def
  proof (rule core_resize [OF c1 _ ti])
    fix q assume q: "\<And>p. p \<in> {bd} \<Longrightarrow> q \<notin> cells p (bd_blocks (bd_of s p))"
    have "q \<notin> cells bd (bd_blocks (bd_of s bd))" by (rule q) simp
    then show "m2 q = bd_of s q" using out bd(2) by simp
  qed (use rH nn st in auto)
  have io: "interior_ok (ba_mem s') bd" "interior_ok (ba_mem s') r"
  proof -
    show "interior_ok (ba_mem s') r" using f2(5) by (simp add: s'_def)
    have "m2 x = m1 x" if "x \<in> cells bd n" for x by (rule g2 [OF dis [OF that]])
    then show "interior_ok (ba_mem s') bd"
      using f1(5) mb f1(2) u(1) by (simp add: interior_ok_def s'_def)
  qed
  have free: "bd_free (bd_of s' bd) \<noteq> FREE_MARK" "bd_free (bd_of s' r) \<noteq> FREE_MARK"
    using start_not_mark [OF coreD(1) [OF c2], of bd] start_not_mark [OF coreD(1) [OF c2], of r]
      f1(3,4) f2(3,4) mb by (simp_all add: s'_def)
  have "core s' SM' F (insert bd A) ({bd, r} - {bd}) G xs L"
    by (rule core_P_to_A [OF c2]) (use bb n free io in auto)
  then have "core s' SM' F (insert r (insert bd A)) ({bd, r} - {bd} - {r}) G xs L"
    by (rule core_P_to_A) (use rb br n free io in auto)
  moreover have "{bd, r} - {bd} - {r} = {}" "insert r (insert bd A) = insert bd (insert r A)" by blast+
  ultimately show "core s' SM' F (insert bd (insert r A)) {} G xs L" by metis
  show "keeps A G s s'" by (rule keepsI [OF c1]) (use out bd(2) in \<open>auto simp: s'_def\<close>)
  have hF: "bd_blocks (bd_of s' q) = bd_blocks (bd_of s q)" if "q \<in> F" for q
    using out hd that by (simp add: s'_def)
  show "coalesced (ba_mem s') F" by (rule coalesced_cong [OF o hF]) auto
  have sz: "bd_blocks (bd_of s' q) = bd_blocks (bd_of s q)" if q: "q \<in> set xs \<union> G" for q
  proof -
    have "q \<notin> cells bd ?B" using small_not_mega [OF c1 bdH, of q] q bd(2) by auto
    then show ?thesis using out by (simp add: s'_def)
  qed
  have "owned (ba_mem s') SM' xs G = owned (ba_mem s) SM' xs G" by (rule owned_cong) (rule sz)
  also have "\<dots> = owned (ba_mem s) SM xs (insert bd G)"
    using mspan_one [of "ba_mem s" bd] bd(2) by (auto simp: owned_def SM'_def sm_span_def g_span_def)
  finally show "owned (ba_mem s') SM' xs G = owned (ba_mem s) SM xs (insert bd G)" .
qed

section \<open>The whole allocation\<close>

lemma count_alloc_simps [simp]:
  "ba_mem (count_alloc n s) = ba_mem s" "free_list (count_alloc n s) = free_list s"
  "free_mblock_list (count_alloc n s) = free_mblock_list s" "ba_mb (count_alloc n s) = ba_mb s"
  "n_alloc_blocks (count_alloc n s) = n_alloc_blocks s + of_nat n"
  by (simp_all add: count_alloc_def Let_def)

lemma core_count [simp]: "core (count_alloc n s) SM F A P G xs L \<longleftrightarrow> core s SM F A P G xs L"
  by (simp add: core_def)

lemma unat_plus_of_nat:
  assumes "unat (w :: StgWord) + k < 2 ^ 64"
  shows "unat (w + of_nat k) = unat w + k"
proof -
  have "unat (of_nat k :: StgWord) = k" using assms by (simp add: unat_of_nat take_bit_nat_eq_self_iff)
  then show ?thesis using assms by (simp add: unat_plus_simple [THEN iffD1] word_le_nat_alt unat_word_ariths)
qed

lemma alloc_inv_small:
  assumes inv: "alloc_inv s SM F A G xs L" and c: "core s' SM' F' (insert bd A) {} G xs' L'"
    and o: "coalesced (ba_mem s') F'" and k: "keeps A G s s'" and bd: "bd \<notin> A" "bd_blocks (bd_of s' bd) = n"
    and n: "n_alloc_blocks s' = n_alloc_blocks s + of_nat n" "unat (n_alloc_blocks s) + n < 2 ^ 64"
  shows "alloc_inv s' SM' F' (insert bd A) G xs' L'"
proof -
  have "alloc_total (ba_mem s') (insert bd A) G = n + alloc_total (ba_mem s') A G"
    using inv bd by (simp add: alloc_total_def alloc_inv_def)
  then have "alloc_total (ba_mem s') (insert bd A) G = n + unat (n_alloc_blocks s)"
    using alloc_total_keeps [OF k] inv by (simp add: alloc_inv_def)
  then show ?thesis
    using inv c o k n unat_plus_of_nat [OF n(2)] by (auto simp: alloc_inv_def keeps_def)
qed

lemma alloc_inv_mega:
  assumes inv: "alloc_inv s SM F A G xs L" and c: "core s' SM F A {} (insert bd G) xs' L"
    and o: "coalesced (ba_mem s') F" and k: "keeps A G s s'"
    and bd: "bd \<notin> G" "bd_blocks (bd_of s' bd) = MBLOCK_GROUP_BLOCKS m" "1 \<le> m" "bd_free (bd_of s' bd) \<noteq> FREE_MARK"
    and n: "n_alloc_blocks s' = n_alloc_blocks s + of_nat (m * BLOCKS_PER_MBLOCK)"
      "unat (n_alloc_blocks s) + m * BLOCKS_PER_MBLOCK < 2 ^ 64"
  shows "alloc_inv s' SM F A (insert bd G) xs' L"
proof -
  have "alloc_total (ba_mem s') A (insert bd G) = m * BLOCKS_PER_MBLOCK + alloc_total (ba_mem s') A G"
    using inv bd by (simp add: alloc_total_def alloc_inv_def)
  then have "alloc_total (ba_mem s') A (insert bd G) = m * BLOCKS_PER_MBLOCK + unat (n_alloc_blocks s)"
    using alloc_total_keeps [OF k] inv by (simp add: alloc_inv_def)
  then show ?thesis
    using inv c o k bd n unat_plus_of_nat [OF n(2)] by (auto simp: alloc_inv_def keeps_def)
qed

text \<open>A bucket of sufficient size holds a group that is large enough.\<close>

lemma bucket_group:
  assumes c: "core s SM F A P G xs L" and n: "0 < n" "n < BLOCKS_PER_MBLOCK"
    and k: "k = find_bucket (free_list s) MAX_FREE_LIST (log_2_ceil n)" "k \<noteq> MAX_FREE_LIST"
  shows "free_list s k \<in> F" "k = log_2 (bd_blocks (bd_of s (free_list s k)))" "n \<le> bd_blocks (bd_of s (free_list s k))"
proof -
  have n': "n \<le> 256" using n by simp
  have lc: "log_2_ceil n < MAX_FREE_LIST" by (rule log_2_ceil_bounds(1) [OF n(1) n'])
  then have fb: "k < MAX_FREE_LIST" "free_list s k \<noteq> NULL" "log_2_ceil n \<le> k"
    using find_bucket_result [of "log_2_ceil n" MAX_FREE_LIST "free_list s"] k find_bucket_le [of "log_2_ceil n" "free_list s" MAX_FREE_LIST]
    by auto
  note f = coreD(2) [OF c]
  have d: "dlist (ba_mem s) (free_list s k) (L k)" "\<forall>x \<in> set (L k). log_2 (bd_blocks (bd_of s x)) = k"
    "set (L k) \<subseteq> F" using f fb(1) by (auto simp: fl_ok_def)
  have x: "free_list s k \<in> set (L k)" using d(1) fb(2) by (cases "L k") (auto simp: dlist_def)
  then show F: "free_list s k \<in> F" using d(3) by blast
  show l: "k = log_2 (bd_blocks (bd_of s (free_list s k)))" using d(2) x by simp
  have "bd_blocks (bd_of s (free_list s k)) < 512" "0 < bd_blocks (bd_of s (free_list s k))"
    using coreD(1) [OF c] F head_cell [OF coreD(1) [OF c], of "free_list s k"] by (auto simp: groups_ok_def)
  then show "n \<le> bd_blocks (bd_of s (free_list s k))"
    using bucket_suffices [OF n(1) n'] fb(3) l by metis
qed

text \<open>What a successful allocation of a small group, or of megablocks, has done.\<close>

definition allocated :: "nat \<Rightarrow> ba_state \<Rightarrow> nat set \<Rightarrow> addr set \<Rightarrow> addr set \<Rightarrow> addr list \<Rightarrow> addr \<Rightarrow> ba_state \<Rightarrow> bool" where
  "allocated n s SM A G xs bd s' \<longleftrightarrow>
     (\<exists>SM' F' A' G' xs' L'. alloc_inv s' SM' F' A' G' xs' L' \<and>
        os_ok s' (owned (ba_mem s') SM' xs' G') \<and>
        owned (ba_mem s) SM xs G \<subseteq> owned (ba_mem s') SM' xs' G' \<and>
        (if n < BLOCKS_PER_MBLOCK then A' = insert bd A \<and> G' = G else A' = A \<and> G' = insert bd G)) \<and>
     bd \<notin> A \<union> G \<and> keeps A G s s' \<and> initialised (ba_mem s') bd \<and>
     bd_blocks (bd_of s' bd) = (if n < BLOCKS_PER_MBLOCK then n else MBLOCK_GROUP_BLOCKS (BLOCKS_TO_MBLOCKS n))"

lemma allocated_small:
  assumes inv: "alloc_inv s SM F A G xs L" and c: "core s' SM' F' (insert bd A) {} G xs' L'"
    and o: "coalesced (ba_mem s') F'" and k: "keeps A G s s'" and bd: "bd \<notin> A" "bd_blocks (bd_of s' bd) = n"
    and n: "n_alloc_blocks s' = n_alloc_blocks s + of_nat n" "unat (n_alloc_blocks s) + n < 2 ^ 64" "n < BLOCKS_PER_MBLOCK"
    and os: "os_ok s' (owned (ba_mem s') SM' xs' G)" "owned (ba_mem s) SM xs G \<subseteq> owned (ba_mem s') SM' xs' G"
    and init: "initialised (ba_mem s') bd"
  shows "allocated n s SM A G xs bd s'"
proof -
  have "alloc_inv s' SM' F' (insert bd A) G xs' L'" by (rule alloc_inv_small [OF inv c o k bd n(1,2)])
  moreover have "bd \<notin> G"
    using small_not_mega [OF c, of bd bd] head_cell [OF coreD(1) [OF c], of bd] by blast
  ultimately show ?thesis unfolding allocated_def using os k bd n(3) init by auto
qed

lemma allocGroup_from_list:
  assumes inv: "alloc_inv s SM F A G xs L" and os: "os_ok s (owned (ba_mem s) SM xs G)"
    and n: "0 < n" "n < BLOCKS_PER_MBLOCK" "unat (n_alloc_blocks s) + n < 2 ^ 64"
    and k: "k = find_bucket (free_list s) MAX_FREE_LIST (log_2_ceil n)" "k \<noteq> MAX_FREE_LIST"
  shows "\<exists>bd s'. allocGroup mmap munmap_ok n s = Some (bd, s') \<and> allocated n s SM A G xs bd s'"
proof -
  let ?s = "count_alloc n s" and ?x = "free_list s k"
  have c: "core ?s SM F A {} G xs L" and o: "coalesced (ba_mem ?s) F" using inv by (simp_all add: alloc_inv_def)
  have k': "k = find_bucket (free_list ?s) MAX_FREE_LIST (log_2_ceil n)" using k by simp
  note b = bucket_group [OF c n(1,2) k' k(2), unfolded count_alloc_simps]
  have b': "k = log_2 (bd_blocks (bd_of ?s ?x))" using b(2) by simp
  have kk: "keeps A G s s'" if "keeps A G ?s s'" for s' using that by (simp add: keeps_def)
  have os': "os_ok s' own" if "os_ok s own" "same_counts ?s s'" for s' own using that by (simp add: os_ok_def same_counts_def)
  have cnt: "n_alloc_blocks s' = n_alloc_blocks s + of_nat n" if "same_counts ?s s'" for s' using that by (simp add: same_counts_def)
  have FA: "F \<inter> A = {}" using coreD(1) [OF c] by (auto simp: groups_ok_def)
  show ?thesis
  proof (cases "bd_blocks (bd_of s ?x) = n")
    case True
    let ?s1 = "fl_remove ?x k ?s"
    let ?s' = "?s1\<lparr>ba_mem := initGroup ?x (ba_mem ?s1)\<rparr>"
    note t = take_whole [OF c o b(1) b']
    obtain L' where c': "core ?s' SM (F - {?x}) (insert ?x A) {} G xs L'" using t(1) by blast
    have code: "allocGroup mmap munmap_ok n s = Some (?x, ?s')"
      using n k True by (simp add: allocGroup_def Let_def)
    have "allocated n s SM A G xs ?x ?s'"
      by (rule allocated_small [OF inv c' t(2) kk [OF t(3)] _ _ cnt [OF t(4)] n(3,2)])
        (use b(1) FA t(5,6,7) True os' [OF os t(4)] in \<open>auto\<close>)
    then show ?thesis using code by blast
  next
    case False
    then have gt: "n < bd_blocks (bd_of ?s ?x)" using b(3) by simp
    obtain fg s1 L1 where t: "split_free_block ?x n k ?s = Some (fg, s1)" "core s1 SM F A {fg} G xs L1"
      "coalesced (ba_mem s1) F" "keeps A G ?s s1" "same_counts ?s s1"
      "owned (ba_mem s1) SM xs G = owned (ba_mem ?s) SM xs G" "bd_blocks (bd_of s1 fg) = n"
      using split_free_block_correct [OF c o b(1) b' n(1) gt] by (elim exE conjE) (rule that)
    let ?s' = "s1\<lparr>ba_mem := initGroup fg (ba_mem s1)\<rparr>"
    have lt: "bd_blocks (bd_of s1 fg) < BLOCKS_PER_MBLOCK" using t(7) n(2) by simp
    note u = initGroup_take [OF t(2) lt]
    have code: "allocGroup mmap munmap_ok n s = Some (fg, ?s')"
      using n k False gt t(1,7) by (simp add: allocGroup_def Let_def)
    have fA: "fg \<notin> A" "fg \<notin> F" using coreD(1) [OF t(2)] by (auto simp: groups_ok_def)
    have o': "coalesced (ba_mem ?s') F"
    proof (rule coalesced_cong [OF t(3)])
      fix q assume "q \<in> F"
      then have "q \<notin> cells fg (bd_blocks (bd_of s1 fg))"
        using interior_not_head [OF coreD(1) [OF t(2)], of fg q] fA by blast
      then show "bd_blocks (bd_of ?s' q) = bd_blocks (bd_of s1 q)" using u(3) by simp
    qed simp
    have sc: "same_counts ?s ?s'" using t(5) by (simp add: same_counts_def)
    have ow: "owned (ba_mem ?s') SM xs G = owned (ba_mem s) SM xs G"
    proof -
      have "owned (ba_mem ?s') SM xs G = owned (ba_mem s1) SM xs G"
      proof (rule owned_cong)
        fix q assume "q \<in> set xs \<union> G"
        then have "q \<notin> cells fg (bd_blocks (bd_of s1 fg))" using small_not_mega [OF t(2), of fg q] by blast
        then show "bd_blocks (bd_of ?s' q) = bd_blocks (bd_of s1 q)" using u(3) by simp
      qed
      then show ?thesis using t(6) by simp
    qed
    have "allocated n s SM A G xs fg ?s'"
      by (rule allocated_small [OF inv u(1) o' kk [OF keeps_trans [OF t(4) u(2)]] fA(1) _ cnt [OF sc] n(3,2)])
        (use u(4,5) t(7) ow os' [OF os sc] in auto)
    then show ?thesis using code by blast
  qed
qed

lemma allocGroup_new_megablock:
  assumes inv: "alloc_inv s SM F A G xs L" and os: "os_ok s (owned (ba_mem s) SM xs G)" and sp: "mmap_spec mmap"
    and n: "0 < n" "n < BLOCKS_PER_MBLOCK" "unat (n_alloc_blocks s) + BLOCKS_PER_MBLOCK < 2 ^ 64"
    and k: "find_bucket (free_list s) MAX_FREE_LIST (log_2_ceil n) = MAX_FREE_LIST"
  shows "(\<exists>bd s'. allocGroup mmap munmap_ok n s = Some (bd, s') \<and> allocated n s SM A G xs bd s') \<or>
    allocGroup mmap munmap_ok n s = None \<and> getMBlocks mmap munmap_ok 1 (ba_mb s) = None"
proof -
  let ?s = "count_alloc n s" and ?B = BLOCKS_PER_MBLOCK
  have c: "core ?s SM F A {} G xs L" and o: "coalesced (ba_mem s) F" using inv by (simp_all add: alloc_inv_def)
  have os': "os_ok ?s (owned (ba_mem ?s) SM xs G)" using os by (simp add: os_ok_def)
  have one: "(1::nat) \<le> 1" "(1::nat) \<le> 4096" by simp_all
  have MGB1: "MBLOCK_GROUP_BLOCKS 1 = ?B" by (simp add: MBLOCK_GROUP_BLOCKS_def)
  from alloc_mega_group_correct [OF c os' sp one] show ?thesis
  proof
    assume "alloc_mega_group mmap munmap_ok 1 ?s = None \<and> getMBlocks mmap munmap_ok 1 (ba_mb ?s) = None"
    then show ?thesis using n k by (simp add: allocGroup_def Let_def)
  next
    assume "\<exists>bd s'. alloc_mega_group mmap munmap_ok 1 ?s = Some (bd, s') \<and> mega_taken 1 ?s SM F A {} G xs L bd s'"
    then obtain bd s1 where a: "alloc_mega_group mmap munmap_ok 1 ?s = Some (bd, s1)"
      "mega_taken 1 ?s SM F A {} G xs L bd s1" by blast
    obtain xs1 where c1: "core s1 SM F A {} (insert bd G) xs1 L" and os1: "os_ok s1 (owned (ba_mem s1) SM xs1 (insert bd G))"
      and ow1: "owned (ba_mem s) SM xs G \<subseteq> owned (ba_mem s1) SM xs1 (insert bd G)"
      and bd: "bd \<notin> G" "bd_blocks (bd_of s1 bd) = ?B" and k1: "keeps A G s s1"
      and F1: "\<forall>q \<in> F. bd_of s1 q = bd_of s q" and n1: "n_alloc_blocks s1 = n_alloc_blocks s + of_nat n"
      using a(2) MGB1 by (auto simp: mega_taken_def keeps_def)
    have o1: "coalesced (ba_mem s1) F" by (rule coalesced_cong [OF o]) (use F1 in simp_all)
    define r where "r = bd_plus bd n"
    define m1 where "m1 = initGroup bd (upd_bd bd (\<lambda>d. d\<lparr>bd_blocks := n\<rparr>) (ba_mem s1))"
    define m2 where "m2 = initGroup r (upd_bd r (\<lambda>d. d\<lparr>bd_blocks := ?B - n\<rparr>) m1)"
    let ?s2 = "s1\<lparr>ba_mem := m2\<rparr>" and ?SM = "insert (mblock_of bd) SM"
    note t = cut_megablock [OF c1 bd n(1,2) o1, folded r_def, folded m1_def, folded m2_def]
    let ?s3 = "?s2\<lparr>n_alloc_blocks := n_alloc_blocks s1 + of_nat (?B - n)\<rparr>"
    have m2': "initGroup r (upd_bd r (\<lambda>d. d\<lparr>bd_blocks := 252 - n\<rparr>) m1) = m2" by (simp add: m2_def)
    have code: "allocGroup mmap munmap_ok n s = (case freeGroup r ?s3 of None \<Rightarrow> None | Some s' \<Rightarrow> Some (bd, s'))"
      using n k a(1) t(6) by (simp add: allocGroup_def Let_def set_bd_def r_def [symmetric] m1_def [symmetric] m2'
          split: option.split)
    have u: "unat (n_alloc_blocks ?s3) = (?B - n) + (unat (n_alloc_blocks s) + n)"
    proof -
      have "unat (n_alloc_blocks s + of_nat n) = unat (n_alloc_blocks s) + n" by (rule unat_plus_of_nat) (use n in simp)
      moreover from this have "unat (n_alloc_blocks s + of_nat n + of_nat (?B - n)) = unat (n_alloc_blocks s) + n + (?B - n)"
        using unat_plus_of_nat [of "n_alloc_blocks s + of_nat n" "?B - n"] n by simp
      ultimately show ?thesis using n1 by simp
    qed
    have c3: "core ?s3 ?SM F (insert bd (insert r A)) {} G xs1 L" using t(1) by simp
    have o3: "coalesced (ba_mem ?s3) F" using t(3) by simp
    have br: "bd_blocks (bd_of ?s3 r) = ?B - n" using t(6) by simp
    have nn: "\<not> n_alloc_blocks ?s3 < of_nat (bd_blocks (bd_of ?s3 r))"
      unfolding br by (rule unat_minus_of_nat(1) [OF u])
    have rin: "r \<in> insert bd (insert r A)" by simp
    obtain s' where s': "freeGroup r ?s3 = Some s'"
      "settled (?s3\<lparr>n_alloc_blocks := n_alloc_blocks ?s3 - of_nat (bd_blocks (bd_of ?s3 r))\<rparr>) ?SM xs1 (insert bd (insert r A) - {r}) G s'"
      using freeGroup_small [OF c3 o3 rin nn] by blast
    have Aeq: "insert bd (insert r A) - {r} = insert bd A" using t(7,9) by blast
    obtain SM' F' xs' L' where w: "core s' SM' F' (insert bd A) {} G xs' L'" "coalesced (ba_mem s') F'"
      "owned (ba_mem s') SM' xs' G = owned (ba_mem ?s2) ?SM xs1 G" "keeps (insert bd A) G ?s2 s'"
      "n_alloc_blocks s' = n_alloc_blocks ?s3 - of_nat (?B - n)" "ba_mb s' = ba_mb s1"
      using s'(2) unfolding Aeq br by (auto simp: settled_def same_counts_def keeps_def)
    have bb: "bd_blocks (bd_of s' bd) = n" using w(4) t(5) by (simp add: keeps_def)
    have kA: "keeps A G s s'"
    proof -
      have "keeps A G ?s2 s'" using w(4) by (simp add: keeps_def)
      then show ?thesis using keeps_trans [OF keeps_trans [OF k1 t(2)]] by blast
    qed
    have cn: "n_alloc_blocks s' = n_alloc_blocks s + of_nat n" using w(5) n1 by simp
    have "initialised (ba_mem s') bd"
      by (rule initialised_cong [OF t(10)]) (use w(4) t(5) in \<open>simp_all add: keeps_def\<close>)
    then have "allocated n s SM A G xs bd s'"
      by (intro allocated_small [OF inv w(1,2) kA t(8) bb cn _ n(2)])
        (use n w(3,6) t(4) os1 ow1 in \<open>auto simp: os_ok_def\<close>)
    then show ?thesis using code s'(1) by auto
  qed
qed

lemma allocGroup_megablocks:
  assumes inv: "alloc_inv s SM F A G xs L" and os: "os_ok s (owned (ba_mem s) SM xs G)" and sp: "mmap_spec mmap"
    and n: "BLOCKS_PER_MBLOCK \<le> n" "BLOCKS_TO_MBLOCKS n \<le> 4096"
      "unat (n_alloc_blocks s) + BLOCKS_TO_MBLOCKS n * BLOCKS_PER_MBLOCK < 2 ^ 64"
  shows "(\<exists>bd s'. allocGroup mmap munmap_ok n s = Some (bd, s') \<and> allocated n s SM A G xs bd s') \<or>
    allocGroup mmap munmap_ok n s = None \<and> getMBlocks mmap munmap_ok (BLOCKS_TO_MBLOCKS n) (ba_mb s) = None"
proof -
  let ?k = "BLOCKS_TO_MBLOCKS n"
  let ?s = "count_alloc (?k * BLOCKS_PER_MBLOCK) s"
  have n0: "n \<noteq> 0" using n(1) by auto
  have c: "core ?s SM F A {} G xs L" and o: "coalesced (ba_mem s) F" using inv by (simp_all add: alloc_inv_def)
  have os': "os_ok ?s (owned (ba_mem ?s) SM xs G)" using os by (simp add: os_ok_def)
  have one: "1 \<le> ?k" by (simp add: BLOCKS_TO_MBLOCKS_def)
  from alloc_mega_group_correct [OF c os' sp one n(2)] show ?thesis
  proof
    assume "alloc_mega_group mmap munmap_ok ?k ?s = None \<and> getMBlocks mmap munmap_ok ?k (ba_mb ?s) = None"
    then show ?thesis using n n0 by (simp add: allocGroup_def Let_def)
  next
    assume "\<exists>bd s'. alloc_mega_group mmap munmap_ok ?k ?s = Some (bd, s') \<and> mega_taken ?k ?s SM F A {} G xs L bd s'"
    then obtain bd s1 where a: "alloc_mega_group mmap munmap_ok ?k ?s = Some (bd, s1)"
      "mega_taken ?k ?s SM F A {} G xs L bd s1" by blast
    obtain xs1 where c1: "core s1 SM F A {} (insert bd G) xs1 L" and os1: "os_ok s1 (owned (ba_mem s1) SM xs1 (insert bd G))"
      and ow1: "owned (ba_mem s) SM xs G \<subseteq> owned (ba_mem s1) SM xs1 (insert bd G)"
      and bd: "bd \<notin> G" "bd_blocks (bd_of s1 bd) = MBLOCK_GROUP_BLOCKS ?k" and k1: "keeps A G s s1"
      and F1: "\<forall>q \<in> F. bd_of s1 q = bd_of s q"
      and n1: "n_alloc_blocks s1 = n_alloc_blocks s + of_nat (?k * BLOCKS_PER_MBLOCK)"
      using a(2) by (auto simp: mega_taken_def keeps_def)
    let ?s' = "s1\<lparr>ba_mem := initGroup bd (ba_mem s1)\<rparr>"
    note t = core_init_mega [OF c1 insertI1]
    have code: "allocGroup mmap munmap_ok n s = Some (bd, ?s')"
      using n n0 a(1) by (simp add: allocGroup_def Let_def)
    have kA: "keeps A G s ?s'"
    proof -
      have "insert bd G - {bd} = G" using bd(1) by blast
      then show ?thesis using keeps_trans [OF k1] t(2) by simp
    qed
    have o': "coalesced (ba_mem ?s') F" by (rule coalesced_cong [OF o]) (use F1 t(3) in simp_all)
    have b: "bd_blocks (bd_of ?s' bd) = MBLOCK_GROUP_BLOCKS ?k" using t(5) bd(2) by simp
    have n': "n_alloc_blocks ?s' = n_alloc_blocks s + of_nat (?k * BLOCKS_PER_MBLOCK)" using n1 by simp
    have i: "alloc_inv ?s' SM F A (insert bd G) xs1 L"
      by (rule alloc_inv_mega [OF inv t(1) o' kA bd(1) b one t(6) n' n(3)])
    have "os_ok ?s' (owned (ba_mem ?s') SM xs1 (insert bd G))" using os1 t(4) by (simp add: os_ok_def)
    moreover have "owned (ba_mem s) SM xs G \<subseteq> owned (ba_mem ?s') SM xs1 (insert bd G)" using ow1 t(4) by simp
    moreover have "bd \<notin> A"
      using small_not_mega [OF c1, of bd bd] head_cell [OF coreD(1) [OF c1], of bd] by blast
    ultimately have "allocated n s SM A G xs bd ?s'"
      unfolding allocated_def using i kA b bd(1) n(1) t(7) by auto
    then show ?thesis using code by blast
  qed
qed

section \<open>Properties\<close>

text \<open>
  Claim C8.  \<open>allocGroup(n)\<close> for any \<open>n\<close> up to 4096 megablocks, as long as the count of allocated
  blocks does not reach \<open>2 ^ 64\<close>: it fails only when the operating
  system gives no memory; no assertion fails.  The group it answers was not allocated before, has
  the size asked for (rounded up to whole megablocks for a large one), and is initialised: its head is
  in no list and its space is unused, and the descriptors of its other blocks are empty and
  link to the head; every allocated group keeps its descriptors; the whole invariant holds again, whether the group came
  from a free list, was split off a larger one, was cut from a new megablock whose rest was freed,
  or was taken from the free megablocks; and the heap map knows exactly the megablocks owned.\<close>

theorem allocGroup_correct:
  assumes "alloc_inv s SM F A G xs L" "os_ok s (owned (ba_mem s) SM xs G)" "mmap_spec mmap"
    and "0 < n" "BLOCKS_TO_MBLOCKS n \<le> 4096"
    and "unat (n_alloc_blocks s) + BLOCKS_TO_MBLOCKS n * BLOCKS_PER_MBLOCK < 2 ^ 64"
  shows "(\<exists>bd s'. allocGroup mmap munmap_ok n s = Some (bd, s') \<and> allocated n s SM A G xs bd s') \<or>
    allocGroup mmap munmap_ok n s = None \<and> getMBlocks mmap munmap_ok (BLOCKS_TO_MBLOCKS n) (ba_mb s) = None"
proof (cases "n < BLOCKS_PER_MBLOCK")
  case False
  then show ?thesis using allocGroup_megablocks [OF assms(1-3)] assms(5,6) by simp
next
  case True
  have one: "BLOCKS_TO_MBLOCKS n = 1" using True by (simp add: BLOCKS_TO_MBLOCKS_def mblock_up_def mblock_of_def MBLOCK_SIZE_def)
  have lt: "unat (n_alloc_blocks s) + n < 2 ^ 64" "unat (n_alloc_blocks s) + BLOCKS_PER_MBLOCK < 2 ^ 64"
    using assms(6) True unfolding one by simp_all
  show ?thesis
  proof (cases "find_bucket (free_list s) MAX_FREE_LIST (log_2_ceil n) = MAX_FREE_LIST")
    case True
    then show ?thesis
      using allocGroup_new_megablock [OF assms(1-4) \<open>n < BLOCKS_PER_MBLOCK\<close> lt(2)] one by simp
  next
    case False
    then show ?thesis
      using allocGroup_from_list [OF assms(1,2,4) \<open>n < BLOCKS_PER_MBLOCK\<close> lt(1) refl] by blast
  qed
qed

text \<open>Initialisation establishes the invariant, with nothing owned.\<close>

lemma initBlockAllocator_inv:
  "alloc_inv (initBlockAllocator s) {} {} {} {} [] (\<lambda>_. [])"
  by (auto simp: alloc_inv_def core_def groups_ok_def fl_ok_def megas_ok_def tiling_def dlist_def mlist_def
      mcover_def sm_span_def g_span_def coalesced_def alloc_total_def initBlockAllocator_def)

definition ba_blank :: ba_state where
  "ba_blank = initBlockAllocator \<lparr>ba_mem = (\<lambda>_. bd0), free_list = (\<lambda>_. NULL), free_mblock_list = NULL,
     n_alloc_blocks = 0, hw_alloc_blocks = 0, ba_mb = mb0\<rparr>"

theorem allocGroup_correct_witness:
  "\<exists>bd s'. allocGroup mmap1 (\<lambda>_ _. True) 3 ba_blank = Some (bd, s') \<and> allocated 3 ba_blank {} {} {} [] bd s'"
proof -
  have inv: "alloc_inv ba_blank {} {} {} {} [] (\<lambda>_. [])" unfolding ba_blank_def by (rule initBlockAllocator_inv)
  have mb: "ba_mb ba_blank = mb0" "n_alloc_blocks ba_blank = 0" by (simp_all add: ba_blank_def initBlockAllocator_def)
  have os: "os_ok ba_blank (owned (ba_mem ba_blank) {} [] {})"
    using mb0_inv heap_mblocks_mb0 mb by (simp add: os_ok_def owned_def sm_span_def mcover_def g_span_def)
  have one: "BLOCKS_TO_MBLOCKS 3 = 1" by (simp add: BLOCKS_TO_MBLOCKS_def mblock_up_def mblock_of_def MBLOCK_SIZE_def)
  have "osGetMBlocks mmap1 (\<lambda>_ _. True) 1 (mb_os mb0) \<noteq> None"
    by (simp add: osGetMBlocks_def gen_map_mblocks_def my_mmap_def munmap_def mmap1_def mb0_def MBLOCK_SIZE_def)
  then have "getMBlocks mmap1 (\<lambda>_ _. True) 1 mb0 \<noteq> None" by (auto simp: getMBlocks_def Let_def)
  then show ?thesis
    using allocGroup_correct [OF inv os mmap1_spec, of 3 "\<lambda>_ _. True"] one mb by auto
qed

end
