(* ===== verification/Unlit.thy ===== *)
theory Unlit
  imports Prelude
begin

text \<open>
  The literate script filter, \<open>src/utils/unlit/unlit.c\<close>.

  The program is a character filter with a handful of file-scope variables.  The record
  \<open>ustate\<close> holds those variables (\<open>noisy\<close>, \<open>errors\<close>, \<open>crunchnl\<close>, \<open>leavecpp\<close>,
  \<open>ignore_shebang\<close>), the two static variables of \<open>egetc\<close>, what is left of the input
  stream, what has been written to the output stream and the diagnostics.  \<open>exit(1)\<close> is
  the \<open>Inl\<close> branch of the result type.  The output stream may run full: \<open>olimit\<close> is the
  number of characters it accepts (\<open>None\<close>: any number); the stream has no buffer, so a write that
  fails is reported by that write and not by a later one.  The loops are terminating
  recursive functions.

  The specification of the filter is a function on lines (\<open>unlit_spec\<close>): every line has a
  kind and a text that replaces it, and the theorems say that the character-level program
  computes it, that it keeps line numbers, and that a full output stream is reported.
\<close>

section \<open>The program\<close>

datatype line = START | BLANK | TEXT | DEFN | BEGIN | END | HASH | SHEBANG

datatype diag = MISSINGBLANK | EMPTYSCRIPT | MISSINGENDCODE

datatype umsg =
    Complaint "string option" nat diag
  | USAGE | DISTINCTNAMES
  | CANNOTOPEN string | CANNOTWRITE string | CANNOTWRITESTDOUT

record ustate =
  noisy :: bool
  errors :: nat
  crunchnl :: bool
  leavecpp :: bool
  ignore_shebang :: bool
  ofilename :: string
  spleft :: nat
  linepos :: nat
  instream :: string
  ostream :: string
  olimit :: "nat option"
  messages :: "umsg list"

type_synonym 'a ures = "ustate + 'a \<times> ustate"

abbreviation NL :: char where "NL \<equiv> CHR 0x0A"
abbreviation TAB :: char where "TAB \<equiv> CHR 0x09"
abbreviation FF :: char where "FF \<equiv> CHR 0x0C"

definition DEFNCHAR :: char where "DEFNCHAR = CHR ''>''"

definition TABPOS :: nat where "TABPOS = 8"

definition BEGINCODE :: string where
  "BEGINCODE = [CHR 0x5C] @ ''begin{code}''"

definition ENDCODE :: string where
  "ENDCODE = [CHR 0x5C] @ ''end{code}''"

definition LENENDCODE :: nat where "LENENDCODE = 10"

definition isWhitespace :: "char option \<Rightarrow> bool" where
  "isWhitespace c = (c = Some (CHR '' '') \<or> c = Some TAB \<or> c = Some (CHR 0x0D))"

definition isLineTerm :: "char option \<Rightarrow> bool" where
  "isLineTerm c = (c = Some NL \<or> c = None)"

text \<open>\<open>isspace\<close> of the C locale, and the string a character array holds up to its
  terminating zero.\<close>

definition isspace :: "char \<Rightarrow> bool" where
  "isspace c = (c \<in> {CHR '' '', TAB, NL, CHR 0x0B, FF, CHR 0x0D})"

definition cstr :: "string \<Rightarrow> string" where
  "cstr b = takeWhile (\<lambda>c. c \<noteq> CHR 0x00) b"

definition complain :: "string option \<Rightarrow> nat \<Rightarrow> diag \<Rightarrow> ustate \<Rightarrow> ustate" where
  "complain file lin what s =
     (if noisy s
      then s\<lparr>messages := messages s @ [Complaint file lin what], errors := errors s + 1\<rparr>
      else s)"

definition writeerror :: "ustate \<Rightarrow> ustate" where
  "writeerror s =
     (if ofilename s = ''-'' then s\<lparr>messages := messages s @ [CANNOTWRITESTDOUT]\<rparr>
      else s\<lparr>messages := messages s @ [CANNOTWRITE (ofilename s)]\<rparr>)"

text \<open>Whether the stream takes \<open>n\<close> more characters.\<close>

definition room :: "nat \<Rightarrow> ustate \<Rightarrow> bool" where
  "room n s = (case olimit s of None \<Rightarrow> True | Some m \<Rightarrow> length (ostream s) + n \<le> m)"

definition myputc :: "char \<Rightarrow> ustate \<Rightarrow> ustate + ustate" where
  "myputc c s =
     (if room 1 s then Inr (s\<lparr>ostream := ostream s @ [c]\<rparr>) else Inl (writeerror s))"

text \<open>\<open>fputs\<close>, whose result the program does not look at: what fits is written.\<close>

definition fputs :: "string \<Rightarrow> ustate \<Rightarrow> ustate" where
  "fputs str s =
     s\<lparr>ostream := ostream s @
        (case olimit s of None \<Rightarrow> cstr str
         | Some m \<Rightarrow> take (m - length (ostream s)) (cstr str))\<rparr>"

definition egetc :: "ustate \<Rightarrow> char option \<times> ustate" where
  "egetc s =
     (if 0 < spleft s
      then (Some (CHR '' ''), s\<lparr>spleft := spleft s - 1, linepos := linepos s + 1\<rparr>)
      else case instream s of
        [] \<Rightarrow> (None, s)
      | c # cs \<Rightarrow>
          let s = s\<lparr>instream := cs\<rparr> in
          if c = NL \<or> c = FF then (Some c, s\<lparr>linepos := 0\<rparr>)
          else if c = TAB
          then (Some (CHR '' ''),
                s\<lparr>spleft := TABPOS - linepos s mod TABPOS - 1, linepos := linepos s + 1\<rparr>)
          else (Some c, s\<lparr>linepos := linepos s + 1\<rparr>))"

text \<open>Every character that is read makes this measure smaller; a tab adds at most seven
  pending spaces.\<close>

definition pending :: "ustate \<Rightarrow> nat" where
  "pending s = TABPOS * length (instream s) + spleft s"

lemma egetc_pending: "egetc s = (Some c, s') \<Longrightarrow> pending s' < pending s"
  unfolding egetc_def pending_def TABPOS_def
  by (auto split: if_splits list.splits simp: Let_def)

lemma myputc_pending: "myputc c s = Inr s' \<Longrightarrow> pending s' = pending s"
  by (auto simp: myputc_def pending_def split: if_splits)

text \<open>\<open>while (c=egetc(istream), !isLineTerm(c)) ;\<close>\<close>

function skipline :: "ustate \<Rightarrow> ustate" where
  "skipline s =
     (case egetc s of
        (None, s') \<Rightarrow> s'
      | (Some c, s') \<Rightarrow> if c = NL then s' else skipline s')"
  by auto
termination
  by (relation "measure pending") (auto simp: egetc_pending [OF sym])

text \<open>\<open>while (c=egetc(istream), !isLineTerm(c)) myputc(c,ostream);\<close>\<close>

function copyline :: "ustate \<Rightarrow> ustate + ustate" where
  "copyline s =
     (case egetc s of
        (None, s') \<Rightarrow> Inr s'
      | (Some c, s') \<Rightarrow>
          if c = NL then Inr s'
          else case myputc c s' of Inl e \<Rightarrow> Inl e | Inr s'' \<Rightarrow> copyline s'')"
  by auto
termination
  by (relation "measure pending") (auto dest!: egetc_pending [OF sym] dest: myputc_pending)

text \<open>\<open>while (isWhitespace(c)) c=egetc(istream);\<close>\<close>

function skipwhite :: "char option \<Rightarrow> ustate \<Rightarrow> char option \<times> ustate" where
  "skipwhite c s =
     (if isWhitespace c then
        (case egetc s of
           (None, s') \<Rightarrow> (None, s')
         | (Some c', s') \<Rightarrow> skipwhite (Some c') s')
      else (c, s))"
  by auto
termination
  by (relation "measure (pending \<circ> snd)") (auto, metis egetc_pending snd_conv)

text \<open>The loop that keeps the first \<open>sizeof buf - 1\<close> characters of the line in \<open>buf\<close>.\<close>

function fillbuf :: "string \<Rightarrow> ustate \<Rightarrow> string \<times> ustate" where
  "fillbuf buf s =
     (case egetc s of
        (None, s') \<Rightarrow> (buf, s')
      | (Some c, s') \<Rightarrow>
          if c = NL then (buf, s')
          else fillbuf (if length buf < 100 - 1 then buf @ [c] else buf) s')"
  by auto
termination
  by (relation "measure (pending \<circ> snd)") (auto simp: egetc_pending [OF sym])

text \<open>\<open>while(i > 0 && isspace(buf[i-1])) i--; buf[i] = 0;\<close>\<close>

definition rstrip :: "string \<Rightarrow> string" where
  "rstrip b = rev (dropWhile isspace (rev b))"

text \<open>The character that \<open>myputc\<close> writes for the integer \<open>c\<close>: \<open>EOF\<close> becomes \<open>0xFF\<close>.\<close>

definition charOf :: "char option \<Rightarrow> char" where
  "charOf c = (case c of None \<Rightarrow> CHR 0xFF | Some ch \<Rightarrow> ch)"

text \<open>A line that is copied: \<open>pre\<close>, the rest of the input line, a newline.\<close>

definition putline :: "char \<Rightarrow> line \<Rightarrow> ustate \<Rightarrow> line ures" where
  "putline pre kind s =
     (case myputc pre s of Inl e \<Rightarrow> Inl e
      | Inr s1 \<Rightarrow> (case copyline s1 of Inl e \<Rightarrow> Inl e
         | Inr s2 \<Rightarrow> (case myputc NL s2 of Inl e \<Rightarrow> Inl e
            | Inr s3 \<Rightarrow> Inr (kind, s3))))"

text \<open>\<open>readline\<close> from the test for \<open>DEFNCHAR\<close> on, with the first character in \<open>c\<close>.\<close>

definition readbody :: "char option \<Rightarrow> ustate \<Rightarrow> line ures" where
  "readbody c s =
     (if c = Some DEFNCHAR then putline (CHR '' '') DEFN s
      else case (if \<not> crunchnl s then myputc NL s else Inr s) of
        Inl e \<Rightarrow> Inl e
      | Inr s1 \<Rightarrow>
          (case skipwhite c s1 of (c, s2) \<Rightarrow>
             if isLineTerm c then Inr (BLANK, s2)
             else case fillbuf [charOf c] s2 of (buf, s3) \<Rightarrow>
               Inr (if cstr (rstrip buf) = BEGINCODE then BEGIN else TEXT, s3)))"

definition readline :: "ustate \<Rightarrow> line ures" where
  "readline s =
     (case egetc s of (c, s) \<Rightarrow>
        if c = None then Inr (END, s)
        else if c = Some (CHR ''#'') then
          (case (if ignore_shebang s
                 then (case egetc s of (c1, s1) \<Rightarrow>
                         if c1 = Some (CHR ''!'') then Inr (None, skipline s1)
                         else case myputc (charOf c) s1 of Inl e \<Rightarrow> Inl e
                              | Inr s2 \<Rightarrow> Inr (Some c1, s2))
                 else Inr (Some c, s)) of
             Inl e \<Rightarrow> Inl e
           | Inr (None, s) \<Rightarrow> Inr (SHEBANG, s)
           | Inr (Some c, s) \<Rightarrow>
               if leavecpp s then putline (charOf c) HASH s else readbody c s)
        else readbody c s)"

text \<open>\<open>fgets(lineb, n, istream)\<close> on the raw stream: at most \<open>n - 1\<close> characters, up to and
  with a newline.  It does not look at the pending spaces of \<open>egetc\<close>.\<close>

fun fgets_chars :: "nat \<Rightarrow> string \<Rightarrow> string \<times> string" where
  "fgets_chars 0 cs = ([], cs)"
| "fgets_chars n [] = ([], [])"
| "fgets_chars (Suc n) (c # cs) =
     (if c = NL then ([c], cs)
      else case fgets_chars n cs of (a, b) \<Rightarrow> (c # a, b))"

definition fgets :: "nat \<Rightarrow> ustate \<Rightarrow> string option \<times> ustate" where
  "fgets n s =
     (if instream s = [] then (None, s)
      else case fgets_chars (n - 1) (instream s) of
        (a, b) \<Rightarrow> (Some a, s\<lparr>instream := b\<rparr>))"

lemma fgets_chars_length:
  "fgets_chars n cs = (a, b) \<Longrightarrow> length b \<le> length cs"
  "fgets_chars (Suc n) (c # cs) = (a, b) \<Longrightarrow> length b < length (c # cs)"
proof -
  show 1: "fgets_chars n cs = (a, b) \<Longrightarrow> length b \<le> length cs" for n cs a b
    by (induction n cs arbitrary: a b rule: fgets_chars.induct)
      (auto split: if_splits prod.splits simp: le_SucI)
  show "fgets_chars (Suc n) (c # cs) = (a, b) \<Longrightarrow> length b < length (c # cs)"
    by (auto split: if_splits prod.splits dest: 1)
qed

lemma fgets_shorter:
  assumes "fgets 1000 s = (Some a, s')"
  shows "length (instream s') < length (instream s)"
proof -
  obtain c cs where i: "instream s = c # cs"
    using assms by (cases "instream s") (auto simp: fgets_def)
  obtain x y where xy: "fgets_chars (Suc 998) (c # cs) = (x, y)" by fastforce
  have "instream s' = y"
    using assms i xy by (auto simp: fgets_def eval_nat_numeral)
  then show ?thesis using i fgets_chars_length(2) [OF xy] by simp
qed

text \<open>The \<open>for(;;)\<close> loop that copies a code block; \<open>exit(1)\<close> when the end marker is
  missing.  Its value is \<open>linesread\<close>.\<close>

function copycode :: "string option \<Rightarrow> nat \<Rightarrow> ustate \<Rightarrow> nat ures" where
  "copycode file linesread s =
     (case fgets 1000 s of
        (None, s) \<Rightarrow> Inl (complain file linesread MISSINGENDCODE s)
      | (Some lineb, s) \<Rightarrow>
          if take LENENDCODE (cstr lineb) = ENDCODE
          then (case myputc NL s of Inl e \<Rightarrow> Inl e | Inr s \<Rightarrow> Inr (linesread + 1, s))
          else copycode file (linesread + 1) (fputs lineb s))"
  by auto
termination
  by (relation "measure (\<lambda>(_, _, s). length (instream s))")
    (auto simp: fgets_shorter [OF sym] fputs_def)

lemmas loop_unfold = skipline.simps copyline.simps skipwhite.simps fillbuf.simps copycode.simps

declare loop_unfold [simp del]

lemma egetc_pending_le: "egetc s = (c, s') \<Longrightarrow> pending s' \<le> pending s"
  unfolding egetc_def pending_def TABPOS_def
  by (auto split: if_splits list.splits simp: Let_def)

lemma skipline_pending: "pending (skipline s) \<le> pending s"
proof (induction s rule: skipline.induct)
  case (1 s)
  then show ?case
    by (auto simp: skipline.simps [of s] split: prod.splits option.splits dest: egetc_pending_le)
      (metis egetc_pending_le order_trans)
qed

lemma copyline_pending: "copyline s = Inr s' \<Longrightarrow> pending s' \<le> pending s"
proof (induction s rule: copyline.induct)
  case (1 s)
  show ?case
  proof (cases "egetc s")
    case (Pair c t)
    then have le: "pending t \<le> pending s" by (rule egetc_pending_le)
    show ?thesis
    proof (cases "c = None \<or> c = Some NL")
      case True
      then show ?thesis using 1(2) Pair le by (auto simp: copyline.simps [of s])
    next
      case False
      then obtain x where x: "c = Some x" "x \<noteq> NL" by auto
      then obtain r where r: "myputc x t = Inr r" "copyline r = Inr s'"
        using 1(2) Pair by (auto simp: copyline.simps [of s] split: sum.splits)
      then have "pending s' \<le> pending r"
        using 1(1) [OF Pair [symmetric] x(1) x(2)] by simp
      then show ?thesis using le myputc_pending [OF r(1)] by simp
    qed
  qed
qed

lemma skipwhite_pending: "skipwhite c s = (c', s') \<Longrightarrow> pending s' \<le> pending s"
proof (induction c s rule: skipwhite.induct)
  case (1 c s)
  then show ?case
    by (subst (asm) (2) skipwhite.simps)
      (auto split: if_splits prod.splits option.splits dest: egetc_pending_le order_trans)
qed

lemma fillbuf_pending: "fillbuf b s = (b', s') \<Longrightarrow> pending s' \<le> pending s"
proof (induction b s rule: fillbuf.induct)
  case (1 b s)
  then show ?case
    by (auto simp: fillbuf.simps [of b s] split: if_splits prod.splits option.splits
        dest: egetc_pending_le order_trans)
qed

lemma putline_pending: "putline c k s = Inr (k', s') \<Longrightarrow> pending s' \<le> pending s"
  by (auto simp: putline_def split: sum.splits dest!: myputc_pending copyline_pending)

lemma readbody_pending: "readbody c s = Inr (k, s') \<Longrightarrow> pending s' \<le> pending s"
  by (auto simp: readbody_def split: sum.splits if_splits prod.splits
      dest!: myputc_pending putline_pending skipwhite_pending fillbuf_pending)

lemma readline_pending:
  assumes "readline s = Inr (k, s')" "k \<noteq> END"
  shows "pending s' < pending s"
proof -
  obtain c t where ct: "egetc s = (Some c, t)"
    using assms by (cases "egetc s"; cases "fst (egetc s)") (auto simp: readline_def)
  have "pending s' \<le> pending t"
    using assms ct
    by (auto simp: readline_def split: sum.splits if_splits prod.splits option.splits
      dest!: myputc_pending putline_pending readbody_pending egetc_pending_le
      intro: order_trans [OF skipline_pending])
  then show ?thesis using egetc_pending [OF ct] by simp
qed

lemma copycode_pending:
  "copycode f n s = Inr (n', s') \<Longrightarrow> pending s' \<le> pending s"
proof (induction f n s rule: copycode.induct)
  case (1 f n s)
  obtain a t where at: "fgets 1000 s = (Some a, t)"
    using 1(2) by (cases "fgets 1000 s"; cases "fst (fgets 1000 s)") (auto simp: copycode.simps [of f n s])
  have "spleft t = spleft s"
    using at by (auto simp: fgets_def split: if_splits prod.splits)
  then have le: "pending t \<le> pending s"
    using fgets_shorter [OF at] by (simp add: pending_def)
  show ?case
  proof (cases "take LENENDCODE (cstr a) = ENDCODE")
    case True
    then show ?thesis using 1(2) at le
      by (auto simp: copycode.simps [of f n s] split: sum.splits dest: myputc_pending)
  next
    case False
    then have "copycode f (n + 1) (fputs a t) = Inr (n', s')"
      using 1(2) at by (simp add: copycode.simps [of f n s])
    then have "pending s' \<le> pending (fputs a t)"
      using 1(1) [OF at [symmetric] refl False] by simp
    then show ?thesis using le by (simp add: fputs_def pending_def)
  qed
qed

lemma complain_pending [simp]: "pending (complain f n w s) = pending s"
  by (simp add: complain_def pending_def)

text \<open>The \<open>do\<close> loop of \<open>unlit\<close>.\<close>

function unlit_loop :: "string option \<Rightarrow> line \<Rightarrow> nat \<Rightarrow> nat \<Rightarrow> ustate \<Rightarrow> ustate + ustate" where
  "unlit_loop file prev linesread defnsread s =
     (case readline s of
        Inl e \<Rightarrow> Inl e
      | Inr (this, s1) \<Rightarrow>
          let linesread = linesread + 1;
              defnsread = (if this = DEFN then defnsread + 1 else defnsread);
              s2 = (if prev = DEFN \<and> this = TEXT
                    then complain file (linesread - 1) MISSINGBLANK s1 else s1);
              s3 = (if prev = TEXT \<and> this = DEFN
                    then complain file linesread MISSINGBLANK s2 else s2)
          in if this = BEGIN
             then (case copycode file linesread s3 of
                     Inl e \<Rightarrow> Inl e
                   | Inr (linesread, s4) \<Rightarrow> unlit_loop file this linesread (defnsread + 1) s4)
             else if this \<noteq> END then unlit_loop file this linesread defnsread s3
             else if defnsread = 0 then Inr (complain file linesread EMPTYSCRIPT s3)
             else Inr s3)"
  by auto
termination
  by (relation "measure (\<lambda>(_, _, _, _, s). pending s)")
    (auto dest!: readline_pending copycode_pending simp: Let_def split: if_splits)

definition unlit :: "string option \<Rightarrow> ustate \<Rightarrow> ustate + ustate" where
  "unlit file s = unlit_loop file START 0 0 s"

text \<open>
  The environment of \<open>main\<close>: what the input names hold (\<open>None\<close>: \<open>fopen\<close> fails), how many
  characters an output name accepts (\<open>None\<close>: \<open>fopen\<close> fails), whether \<open>malloc\<close> finds the
  given number of bytes and whether the last buffer can be flushed when a file is closed.
\<close>

record uworld =
  w_stdin :: string
  w_read :: "string \<Rightarrow> string option"
  w_stdout :: "nat option"
  w_write :: "string \<Rightarrow> nat option option"
  w_malloc :: "nat \<Rightarrow> bool"
  w_fclose :: "string \<Rightarrow> bool"

record uopts =
  o_state :: ustate
  no_line_pragma :: bool
  prefix_str :: "string option"

definition ustate0 :: ustate where
  "ustate0 = \<lparr>noisy = True, errors = 0, crunchnl = False, leavecpp = True,
     ignore_shebang = True, ofilename = [], spleft = 0, linepos = 0, instream = [],
     ostream = [], olimit = None, messages = []\<rparr>"

definition uopts0 :: uopts where
  "uopts0 = \<lparr>o_state = ustate0, no_line_pragma = False, prefix_str = None\<rparr>"

text \<open>The argument loop of \<open>main\<close>; its value is the options and the arguments left over.\<close>

fun parseargs :: "uworld \<Rightarrow> string list \<Rightarrow> uopts \<Rightarrow> uopts \<times> string list" where
  "parseargs w [] o' = (o', [])"
| "parseargs w (a # as) o' =
     (if a = ''-n'' then parseargs w as (o'\<lparr>o_state := (o_state o')\<lparr>noisy := True\<rparr>\<rparr>)
      else if a = ''-q'' then parseargs w as (o'\<lparr>o_state := (o_state o')\<lparr>noisy := False\<rparr>\<rparr>)
      else if a = ''-c'' then parseargs w as (o'\<lparr>o_state := (o_state o')\<lparr>crunchnl := True\<rparr>\<rparr>)
      else if a = ''-P'' then parseargs w as (o'\<lparr>no_line_pragma := True\<rparr>)
      else if a = ''-h'' then
        (case as of
           [] \<Rightarrow> parseargs w as o'
         | b # bs \<Rightarrow>
             parseargs w bs
               (o'\<lparr>prefix_str := (if w_malloc w (1 + length b) then Some b else None)\<rparr>))
      else if a = ''-#'' then
        parseargs w as (o'\<lparr>o_state := (o_state o')\<lparr>ignore_shebang := False\<rparr>\<rparr>)
      else (o', a # as))"

text \<open>\<open>fprintf(ostream, "#line 1 ...")\<close>; its result is not looked at.\<close>

definition line_pragma :: "string \<Rightarrow> string" where
  "line_pragma p = ''#line 1 '' @ [CHR 0x22] @ p @ [CHR 0x22, NL]"

definition main :: "uworld \<Rightarrow> string list \<Rightarrow> nat \<times> ustate" where
  "main w argv =
     (case parseargs w argv uopts0 of (o', rest) \<Rightarrow>
        let s = o_state o' in
        case rest of
          [ifile, ofile] \<Rightarrow>
            if ifile = ofile \<and> ifile \<noteq> ''-''
            then (1, s\<lparr>messages := messages s @ [DISTINCTNAMES]\<rparr>)
            else (case (if ifile = ''-'' then Some (w_stdin w) else w_read w ifile) of
                None \<Rightarrow> (1, s\<lparr>messages := messages s @ [CANNOTOPEN ifile]\<rparr>)
              | Some input \<Rightarrow>
                  let file = (if ifile = ''-'' then ''stdin'' else ifile);
                      s = s\<lparr>instream := input, ofilename := ofile\<rparr>
                  in case (if ofile = ''-'' then Some (w_stdout w) else w_write w ofile) of
                      None \<Rightarrow> (1, s\<lparr>messages := messages s @ [CANNOTOPEN ofile]\<rparr>)
                    | Some lim \<Rightarrow>
                        let s = s\<lparr>olimit := lim\<rparr>;
                            s = (case prefix_str o' of
                                   Some p \<Rightarrow> if \<not> no_line_pragma o' then fputs (line_pragma p) s else s
                                 | None \<Rightarrow> s)
                        in (case unlit (Some file) s of
                              Inl e \<Rightarrow> (1, e)
                            | Inr s \<Rightarrow>
                                if ofile \<noteq> ''-'' \<and> \<not> w_fclose w ofile then (1, writeerror s)
                                else (if errors s = 0 then 0 else 1, s)))
        | _ \<Rightarrow> (1, s\<lparr>messages := messages s @ [USAGE]\<rparr>))"

section \<open>Reading a line\<close>

text \<open>Tab expansion as a function on strings; \<open>p\<close> is the column.\<close>

fun expand :: "nat \<Rightarrow> string \<Rightarrow> string" where
  "expand p [] = []"
| "expand p (c # cs) =
     (if c = NL \<or> c = FF then c # expand 0 cs
      else if c = TAB
      then replicate (TABPOS - p mod TABPOS) (CHR '' '') @ expand (p + (TABPOS - p mod TABPOS)) cs
      else c # expand (p + 1) cs)"

lemma expand_NL: "NL \<notin> set l \<Longrightarrow> NL \<notin> set (expand p l)"
  by (induction p l rule: expand.induct) (auto split: if_splits)

text \<open>
  \<open>inline s v rest\<close>: the reader is inside a line; \<open>egetc\<close> will deliver the characters \<open>v\<close>
  and then the newline, and \<open>rest\<close> follows.  \<open>endl\<close> is the state after that newline, and
  \<open>reader s s'\<close> says that the two states differ in the position of the reader only.
\<close>

definition inline :: "ustate \<Rightarrow> string \<Rightarrow> string \<Rightarrow> bool" where
  "inline s v rest =
     (\<exists>l. NL \<notin> set l \<and> instream s = l @ NL # rest \<and>
        v = replicate (spleft s) (CHR '' '') @ expand (linepos s + spleft s) l)"

definition endl :: "ustate \<Rightarrow> string \<Rightarrow> ustate" where
  "endl s rest = s\<lparr>spleft := 0, linepos := 0, instream := rest\<rparr>"

definition reader :: "ustate \<Rightarrow> ustate \<Rightarrow> bool" where
  "reader s s' = (endl s [] = endl s' [])"

lemma reader_refl [simp]: "reader s s" by (simp add: reader_def)

lemma reader_trans: "reader s t \<Longrightarrow> reader t u \<Longrightarrow> reader s u" by (simp add: reader_def)

lemma reader_fields:
  assumes "reader s t"
  shows "olimit t = olimit s" "ostream t = ostream s" "crunchnl t = crunchnl s"
    "ignore_shebang t = ignore_shebang s" "leavecpp t = leavecpp s"
  using assms by (cases s; cases t; simp add: reader_def endl_def)+

lemma reader_endl: "reader s t \<Longrightarrow> endl t r = endl s r"
  by (cases s; cases t) (simp add: reader_def endl_def)

lemma inline_Cons:
  assumes "inline s (c # v) rest"
  obtains t where "egetc s = (Some c, t)" "inline t v rest" "reader s t" "c \<noteq> NL"
proof -
  obtain l where l: "NL \<notin> set l" "instream s = l @ NL # rest"
    "c # v = replicate (spleft s) (CHR '' '') @ expand (linepos s + spleft s) l"
    using assms by (auto simp: inline_def)
  show ?thesis
  proof (cases "spleft s")
    case 0
    then obtain x xs where x: "l = x # xs" using l(3) by (cases l) auto
    show ?thesis
    proof (cases "x = TAB")
      case True
      obtain k where k: "TABPOS - linepos s mod TABPOS = Suc k"
        by (metis Suc_diff_Suc TABPOS_def mod_less_divisor zero_less_numeral)
      show ?thesis
        by (rule that [of "s\<lparr>instream := xs @ NL # rest, spleft := k, linepos := linepos s + 1\<rparr>"])
          (use 0 l x True k in \<open>auto simp: egetc_def inline_def reader_def endl_def\<close>)
    next
      case False
      show ?thesis
        by (rule that [of "s\<lparr>instream := xs @ NL # rest,
              linepos := if x = FF then 0 else linepos s + 1\<rparr>"])
          (use 0 l x False in \<open>auto simp: egetc_def inline_def reader_def endl_def Let_def
            split: if_splits\<close>)
    qed
  next
    case (Suc k)
    show ?thesis
      by (rule that [of "s\<lparr>spleft := k, linepos := linepos s + 1\<rparr>"])
        (use Suc l in \<open>auto simp: egetc_def inline_def reader_def endl_def\<close>)
  qed
qed

lemma inline_Nil:
  assumes "inline s [] rest"
  shows "egetc s = (Some NL, endl s rest)"
proof -
  obtain l where l: "NL \<notin> set l" "instream s = l @ NL # rest"
    "[] = replicate (spleft s) (CHR '' '') @ expand (linepos s + spleft s) l"
    using assms by (auto simp: inline_def)
  then have "spleft s = 0" "expand (linepos s) l = []" by (auto simp: Nil_is_append_conv)
  moreover have "l = []"
  proof (cases l)
    case (Cons x xs)
    have "TABPOS - p mod TABPOS \<noteq> 0" for p by (simp add: TABPOS_def)
    then show ?thesis using Cons \<open>expand (linepos s) l = []\<close> by (auto split: if_splits)
  qed simp
  ultimately show ?thesis using l by (auto simp: egetc_def endl_def)
qed

text \<open>What each of the reading loops does with the rest of a line.\<close>

lemma skipline_line: "inline s v rest \<Longrightarrow> skipline s = endl s rest"
proof (induction v arbitrary: s)
  case Nil
  then show ?case by (simp add: skipline.simps [of s] inline_Nil)
next
  case (Cons c v)
  then obtain t where "egetc s = (Some c, t)" "inline t v rest" "reader s t" "c \<noteq> NL"
    by (blast elim: inline_Cons)
  then show ?case using Cons.IH [of t] by (simp add: skipline.simps [of s] reader_endl)
qed

lemma myputc_None: "olimit s = None \<Longrightarrow> myputc c s = Inr (s\<lparr>ostream := ostream s @ [c]\<rparr>)"
  by (simp add: myputc_def room_def)

lemma inline_ostream [simp]: "inline (s\<lparr>ostream := o'\<rparr>) v rest = inline s v rest"
  by (simp add: inline_def)

lemma endl_ostream [simp]: "endl (s\<lparr>ostream := o'\<rparr>) r = (endl s r)\<lparr>ostream := o'\<rparr>"
  by (simp add: endl_def)

lemma endl_fields [simp]:
  "olimit (endl s r) = olimit s" "ostream (endl s r) = ostream s" "instream (endl s r) = r"
  "spleft (endl s r) = 0" "linepos (endl s r) = 0" "noisy (endl s r) = noisy s"
  "crunchnl (endl s r) = crunchnl s" "ignore_shebang (endl s r) = ignore_shebang s"
  "leavecpp (endl s r) = leavecpp s" "endl (endl s r) r' = endl s r'"
  by (simp_all add: endl_def)

lemma copyline_line:
  "inline s v rest \<Longrightarrow> olimit s = None \<Longrightarrow>
     copyline s = Inr ((endl s rest)\<lparr>ostream := ostream s @ v\<rparr>)"
proof (induction v arbitrary: s)
  case Nil
  then show ?case by (simp add: copyline.simps [of s] inline_Nil)
next
  case (Cons c v)
  then obtain t where t: "egetc s = (Some c, t)" "inline t v rest" "reader s t" "c \<noteq> NL"
    by (blast elim: inline_Cons)
  then show ?case
    using Cons.IH [of "t\<lparr>ostream := ostream t @ [c]\<rparr>"] Cons.prems(2)
    by (simp add: copyline.simps [of s] reader_fields [OF t(3)] reader_endl [OF t(3)] myputc_None)
qed

lemma fillbuf_line:
  "inline s v rest \<Longrightarrow> fillbuf b s = (b @ take (99 - length b) v, endl s rest)"
proof (induction v arbitrary: s b)
  case Nil
  then show ?case by (simp add: fillbuf.simps [of _ s] inline_Nil)
next
  case (Cons c v)
  then obtain t where t: "egetc s = (Some c, t)" "inline t v rest" "reader s t" "c \<noteq> NL"
    by (blast elim: inline_Cons)
  have "take (99 - length b) (c # v) = (if length b < 99 then c # take (99 - length (b @ [c])) v else [])"
    by (auto simp: take_Cons' )
  then show ?case
    using Cons.IH [OF t(2), of "if length b < 100 - 1 then b @ [c] else b"] t
    by (auto simp: fillbuf.simps [of _ s] reader_endl [OF t(3)])
qed

definition white :: "char \<Rightarrow> bool" where
  "white c = isWhitespace (Some c)"

lemma skipwhite_line:
  "inline s v rest \<Longrightarrow>
     (case dropWhile white (c # v) of
        [] \<Rightarrow> skipwhite (Some c) s = (Some NL, endl s rest)
      | d # w \<Rightarrow> \<exists>t. skipwhite (Some c) s = (Some d, t) \<and> inline t w rest \<and> reader s t)"
proof (induction v arbitrary: s c)
  case Nil
  have n: "\<not> isWhitespace (Some NL)" by (simp add: isWhitespace_def)
  show ?case
    using Nil
    by (auto simp: skipwhite.simps [of "Some c" s] skipwhite.simps [of "Some NL"] inline_Nil white_def n)
next
  case (Cons x v)
  then obtain t where t: "egetc s = (Some x, t)" "inline t v rest" "reader s t" "x \<noteq> NL"
    by (blast elim: inline_Cons)
  show ?case
  proof (cases "white c")
    case True
    then have "skipwhite (Some c) s = skipwhite (Some x) t"
      using t by (simp add: skipwhite.simps [of "Some c" s] white_def)
    moreover have "dropWhile white (c # x # v) = dropWhile white (x # v)" using True by simp
    ultimately show ?thesis
      using Cons.IH [OF t(2), of x]
      by (cases "dropWhile white (x # v)")
        (auto simp del: dropWhile.simps dropWhile_eq_Nil_conv simp: reader_endl [OF t(3)] intro: reader_trans [OF t(3)])
  next
    case False
    then show ?thesis
      using Cons.prems by (auto simp: skipwhite.simps [of "Some c" s] white_def)
  qed
qed

section \<open>The specification on lines\<close>

text \<open>The kind of an input line and the text that replaces it, from the line with its tabs
  expanded.\<close>

definition linekind :: "bool \<Rightarrow> string \<Rightarrow> line" where
  "linekind shebang e =
     (if e \<noteq> [] \<and> hd e = CHR ''#''
      then (if shebang \<and> take 2 e = ''#!'' then SHEBANG else HASH)
      else if e \<noteq> [] \<and> hd e = DEFNCHAR then DEFN
      else let w = dropWhile white e in
        if w = [] then BLANK
        else if cstr (rstrip (take 99 w)) = BEGINCODE then BEGIN else TEXT)"

definition linetext :: "bool \<Rightarrow> line \<Rightarrow> string \<Rightarrow> string" where
  "linetext crunch k e =
     (case k of
        SHEBANG \<Rightarrow> []
      | HASH \<Rightarrow> e @ [NL]
      | DEFN \<Rightarrow> CHR '' '' # tl e @ [NL]
      | _ \<Rightarrow> if crunch then [] else [NL])"

lemma putline_line:
  "inline s v rest \<Longrightarrow> olimit s = None \<Longrightarrow>
     putline c k s = Inr (k, (endl s rest)\<lparr>ostream := ostream s @ c # v @ [NL]\<rparr>)"
  by (simp add: putline_def myputc_None copyline_line)

lemma readbody_line:
  assumes i: "inline s v rest" and lim: "olimit s = None" and c: "c \<noteq> CHR ''#''" "c \<noteq> NL"
  shows "readbody (Some c) s =
    Inr (linekind sb (c # v),
         (endl s rest)\<lparr>ostream := ostream s @ linetext (crunchnl s) (linekind sb (c # v)) (c # v)\<rparr>)"
proof (cases "c = DEFNCHAR")
  case True
  then show ?thesis
    using i lim c by (simp add: readbody_def putline_line linekind_def linetext_def)
next
  case False
  let ?s = "if crunchnl s then s else s\<lparr>ostream := ostream s @ [NL]\<rparr>"
  have i': "inline ?s v rest" using i by simp
  have k: "linekind sb (c # v) = (case dropWhile white (c # v) of [] \<Rightarrow> BLANK
      | d # w \<Rightarrow> if cstr (rstrip (take 99 (d # w))) = BEGINCODE then BEGIN else TEXT)"
    using False c by (auto simp: linekind_def Let_def split: list.splits)
  have out: "linetext (crunchnl s) (linekind sb (c # v)) (c # v) = (if crunchnl s then [] else [NL])"
    unfolding k by (auto simp: linetext_def split: list.splits)
  have e: "(endl ?s rest) = (endl s rest)\<lparr>ostream := ostream s @ (if crunchnl s then [] else [NL])\<rparr>"
    by (simp add: endl_def)
  have r: "readbody (Some c) s = (case skipwhite (Some c) ?s of (c, s2) \<Rightarrow>
      if isLineTerm c then Inr (BLANK, s2)
      else case fillbuf [charOf c] s2 of (buf, s3) \<Rightarrow>
        Inr (if cstr (rstrip buf) = BEGINCODE then BEGIN else TEXT, s3))"
    using False lim by (simp add: readbody_def myputc_None)
  show ?thesis
  proof (cases "dropWhile white (c # v)")
    case Nil
    then have "skipwhite (Some c) ?s = (Some NL, endl ?s rest)"
      using skipwhite_line [OF i', of c] by simp
    then show ?thesis using Nil unfolding out r e by (simp add: k isLineTerm_def)
  next
    case (Cons d w)
    then obtain t where t: "skipwhite (Some c) ?s = (Some d, t)" "inline t w rest" "reader ?s t"
      using skipwhite_line [OF i', of c] by (auto simp del: dropWhile.simps)
    have "d \<in> set (c # v)" by (metis Cons list.set_intros(1) set_dropWhileD)
    then have "d \<noteq> NL" using i c by (auto simp: inline_def dest: expand_NL)
    then have "readbody (Some c) s =
        Inr (if cstr (rstrip (d # take 98 w)) = BEGINCODE then BEGIN else TEXT, endl ?s rest)"
      unfolding r using t by (simp add: isLineTerm_def charOf_def fillbuf_line reader_endl)
    then show ?thesis using Cons unfolding out e by (simp add: k take_Cons')
  qed
qed

text \<open>
  The lines the specification speaks of: shorter than the buffer of the code loop, without
  a zero byte, and not the single character \<open>#\<close>, which \<open>readline\<close> does not treat as a line
  of its own when it looks for a shebang (\<open>lone_hash_swallows_next_line\<close>).
\<close>

definition plain :: "string \<Rightarrow> bool" where
  "plain l = (NL \<notin> set l \<and> CHR 0x00 \<notin> set l \<and> length l < 999 \<and> l \<noteq> ''#'')"

lemma expand_first:
  assumes "expand p l = y # v" "y \<notin> {CHR '' '', NL, FF}"
  obtains cs where "l = y # cs" "expand (p + 1) cs = v"
proof -
  have "\<exists>k. TABPOS - p mod TABPOS = Suc k"
    by (metis Suc_diff_Suc TABPOS_def mod_less_divisor zero_less_numeral)
  then obtain k where k: "replicate (TABPOS - p mod TABPOS) x = x # replicate k x" for x :: char
    using replicate_Suc by metis
  obtain c cs where l: "l = c # cs" using assms(1) by (cases l) auto
  then have "c = y \<and> expand (p + 1) cs = v"
    using assms by (auto simp only: expand.simps k append_Cons list.inject split: if_splits)
  then show ?thesis using l that by blast
qed

lemma expand_hash:
  assumes "expand 0 l = ''#''"
  shows "l = ''#''"
proof -
  obtain cs where l: "l = CHR ''#'' # cs" "expand (0 + 1) cs = []"
    by (rule expand_first [OF assms]) auto
  then have "cs = []" by (cases cs) (auto simp: TABPOS_def split: if_splits)
  then show ?thesis using l by simp
qed

lemma inline_start:
  assumes "NL \<notin> set l" "spleft s = 0" "linepos s = 0" "instream s = l @ NL # rest"
  shows "inline s (expand 0 l) rest"
  unfolding inline_def by (rule exI [of _ l]) (use assms in simp)

lemma readline_line:
  assumes s: "spleft s = 0" "linepos s = 0" "instream s = l @ NL # rest" "olimit s = None"
    "leavecpp s" and l: "plain l"
  defines "k \<equiv> linekind (ignore_shebang s) (expand 0 l)"
  shows "readline s =
    Inr (k, (endl s rest)\<lparr>ostream := ostream s @ linetext (crunchnl s) k (expand 0 l)\<rparr>)"
proof -
  have i: "inline s (expand 0 l) rest"
    using s l by (intro inline_start) (auto simp: plain_def)
  show ?thesis
  proof (cases "expand 0 l")
    case Nil
    then have "egetc s = (Some NL, endl s rest)" using i by (simp add: inline_Nil)
    then show ?thesis
      using Nil s(4)
      by (simp add: readline_def readbody_def DEFNCHAR_def k_def linekind_def linetext_def
          myputc_None skipwhite.simps [of "Some NL"] isWhitespace_def isLineTerm_def)
  next
    case (Cons c v)
    then obtain t where t: "egetc s = (Some c, t)" "inline t v rest" "reader s t" "c \<noteq> NL"
      using i by (auto elim: inline_Cons)
    note f = reader_fields [OF t(3)] reader_endl [OF t(3)]
    show ?thesis
    proof (cases "c = CHR ''#''")
      case False
      then have "readline s = readbody (Some c) t" using t by (simp add: readline_def)
      then show ?thesis
        using readbody_line [OF t(2), of c "ignore_shebang s"] False t(4) s(4) f
        by (simp add: k_def Cons)
    next
      case c: True
      show ?thesis
      proof (cases "ignore_shebang s")
        case False
        then have "readline s = putline c HASH t"
          using t c s(5) f by (simp add: readline_def charOf_def)
        then show ?thesis
          using putline_line [OF t(2), of c HASH] s(4) f False c
          by (simp add: k_def Cons linekind_def linetext_def)
      next
        case True
        have "v \<noteq> []" using Cons c l expand_hash by (auto simp: plain_def)
        then obtain d w where v: "v = d # w" by (cases v) auto
        then obtain u where u: "egetc t = (Some d, u)" "inline u w rest" "reader t u" "d \<noteq> NL"
          using t(2) by (auto elim: inline_Cons)
        note g = reader_fields [OF u(3)] reader_endl [OF u(3)]
        show ?thesis
        proof (cases "d = CHR ''!''")
          case True
          then have "readline s = Inr (SHEBANG, endl s rest)"
            using t(1) c u \<open>ignore_shebang s\<close> f g
            by (simp add: readline_def skipline_line [OF u(2)])
          then show ?thesis using True v c \<open>ignore_shebang s\<close>
            by (simp add: k_def Cons linekind_def linetext_def endl_def)
        next
          case False
          let ?u = "u\<lparr>ostream := ostream u @ ''#''\<rparr>"
          have "readline s = putline d HASH ?u"
            using t(1) c u \<open>ignore_shebang s\<close> f g False s(4,5)
            by (simp add: readline_def myputc_None charOf_def)
          then show ?thesis
            using putline_line [of ?u w rest d HASH] u(2) s(4) f g False v c
            by (simp add: k_def Cons linekind_def linetext_def)
        qed
      qed
    qed
  qed
qed

text \<open>
  The specification: the complaints in order, the output, and whether the end of the script
  is reached.  \<open>code\<close> says that the line is inside a code block, \<open>n\<close> is the number of lines
  before it and \<open>d\<close> the number of definitions.
\<close>

definition emit :: "string \<Rightarrow> (nat \<times> diag) list \<Rightarrow> (nat \<times> diag) list \<times> string \<times> bool
    \<Rightarrow> (nat \<times> diag) list \<times> string \<times> bool" where
  "emit out ms r = (case r of (ms', out', ok) \<Rightarrow> (ms @ ms', out @ out', ok))"

fun unlit_spec :: "bool \<Rightarrow> bool \<Rightarrow> bool \<Rightarrow> line \<Rightarrow> nat \<Rightarrow> nat \<Rightarrow> string list
    \<Rightarrow> (nat \<times> diag) list \<times> string \<times> bool" where
  "unlit_spec crunch shebang code prev n d [] =
     (if code then ([(n, MISSINGENDCODE)], [], False)
      else (if d = 0 then [(n + 1, EMPTYSCRIPT)] else [], [], True))"
| "unlit_spec crunch shebang code prev n d (l # ls) =
     (if code
      then (if take LENENDCODE l = ENDCODE
            then emit [NL] [] (unlit_spec crunch shebang False BEGIN (n + 1) (d + 1) ls)
            else emit (l @ [NL]) [] (unlit_spec crunch shebang True prev (n + 1) d ls))
      else let k = linekind shebang (expand 0 l);
               ms = (if prev = DEFN \<and> k = TEXT then [(n, MISSINGBLANK)]
                     else if prev = TEXT \<and> k = DEFN then [(n + 1, MISSINGBLANK)] else [])
           in emit (linetext crunch k (expand 0 l)) ms
                (unlit_spec crunch shebang (k = BEGIN) k (n + 1)
                   (if k = DEFN then d + 1 else d) ls))"

definition report :: "string option \<Rightarrow> (nat \<times> diag) list \<Rightarrow> ustate \<Rightarrow> ustate" where
  "report file ms s = fold (\<lambda>(n, w). complain file n w) ms s"

definition script :: "string list \<Rightarrow> string" where
  "script ls = concat (map (\<lambda>l. l @ [NL]) ls)"

lemma script_simps [simp]: "script [] = []" "script (l # ls) = l @ NL # script ls"
  by (simp_all add: script_def)

lemma complain_simps [simp]:
  "ostream (complain f n w s) = ostream s" "instream (complain f n w s) = instream s"
  "spleft (complain f n w s) = spleft s" "linepos (complain f n w s) = linepos s"
  "olimit (complain f n w s) = olimit s" "leavecpp (complain f n w s) = leavecpp s"
  "crunchnl (complain f n w s) = crunchnl s"
  "ignore_shebang (complain f n w s) = ignore_shebang s"
  "endl (complain f n w s) r = complain f n w (endl s r)"
  "(complain f n w s)\<lparr>ostream := x\<rparr> = complain f n w (s\<lparr>ostream := x\<rparr>)"
  by (simp_all add: complain_def endl_def)

lemma report_simps [simp]:
  "report f [] s = s" "report f ((n, w) # ms) s = report f ms (complain f n w s)"
  by (simp_all add: report_def)

lemma fgets_line:
  assumes "plain l" "instream s = l @ NL # rest"
  shows "fgets 1000 s = (Some (l @ [NL]), s\<lparr>instream := rest\<rparr>)"
proof -
  have "NL \<notin> set l \<Longrightarrow> length l < n \<Longrightarrow> fgets_chars n (l @ NL # rest) = (l @ [NL], rest)" for n
  proof (induction l arbitrary: n)
    case Nil
    then show ?case by (cases n) auto
  next
    case (Cons c l)
    then show ?case by (cases n) auto
  qed
  then have "fgets_chars 999 (l @ NL # rest) = (l @ [NL], rest)"
    using assms(1) by (simp add: plain_def)
  then show ?thesis using assms(2) by (simp add: fgets_def)
qed

lemma cstr_plain: "plain l \<Longrightarrow> cstr (l @ [NL]) = l @ [NL]"
  unfolding plain_def cstr_def by (subst takeWhile_eq_all_conv) auto

lemma endcode_line: "(take LENENDCODE (l @ [NL]) = ENDCODE) = (take LENENDCODE l = ENDCODE)"
proof (cases "LENENDCODE \<le> length l")
  case False
  then have "take LENENDCODE (l @ [NL]) = l @ [NL]" "take LENENDCODE l = l" by auto
  moreover have "NL \<notin> set ENDCODE" "length ENDCODE = LENENDCODE"
    by (auto simp: ENDCODE_def LENENDCODE_def)
  ultimately show ?thesis using False by (metis in_set_conv_decomp order.refl)
qed auto

text \<open>The outcome that the specification prescribes for a state at the beginning of a line.\<close>

definition outcome :: "string option \<Rightarrow> ustate \<Rightarrow> (nat \<times> diag) list \<times> string \<times> bool
    \<Rightarrow> ustate + ustate" where
  "outcome f s r = (case r of (ms, out, ok) \<Rightarrow>
     let s' = report f ms ((endl s [])\<lparr>ostream := ostream s @ out\<rparr>) in if ok then Inr s' else Inl s')"

lemma outcome_emit:
  "outcome f s (emit out ms r) =
     outcome f ((report f ms s)\<lparr>ostream := ostream s @ out\<rparr>) r"
proof -
  have "ostream (report f ms s) = ostream s" for s
    by (induction ms arbitrary: s) auto
  moreover have "report f ms' (endl (report f ms s) [] \<lparr>ostream := x\<rparr>) =
      report f (ms @ ms') (endl s []\<lparr>ostream := x\<rparr>)" for ms' x
    by (induction ms arbitrary: s) auto
  ultimately show ?thesis by (cases r) (simp add: outcome_def emit_def Let_def)
qed

lemma outcome_endl:
  "outcome f (endl s r') r = outcome f s r"
  "outcome f ((endl s r')\<lparr>ostream := x\<rparr>) r = outcome f (s\<lparr>ostream := x\<rparr>) r"
  "outcome f (complain f n w ((endl s r')\<lparr>ostream := x\<rparr>)) r =
     outcome f (complain f n w (s\<lparr>ostream := x\<rparr>)) r"
  by (simp_all add: outcome_def)

definition bol :: "string list \<Rightarrow> ustate \<Rightarrow> bool" where
  "bol ls s = (spleft s = 0 \<and> linepos s = 0 \<and> instream s = script ls \<and> olimit s = None \<and> leavecpp s)"

lemma bol_simps [simp]:
  "bol ls (s\<lparr>ostream := x\<rparr>) = bol ls s" "bol ls (complain f n w s) = bol ls s"
  "bol ls (endl s (script ls)) = (olimit s = None \<and> leavecpp s)"
  by (simp_all add: bol_def)

declare unlit_loop.simps [simp del]

lemma copycode_line:
  assumes "bol (l # ls) s" "plain l"
  shows "copycode f n s =
    (if take LENENDCODE l = ENDCODE
     then Inr (n + 1, (endl s (script ls))\<lparr>ostream := ostream s @ [NL]\<rparr>)
     else copycode f (n + 1) ((endl s (script ls))\<lparr>ostream := ostream s @ l @ [NL]\<rparr>))"
proof -
  let ?t = "s\<lparr>instream := script ls\<rparr>"
  have t: "?t = endl s (script ls)" using assms(1) by (simp add: bol_def endl_def)
  have "fgets 1000 s = (Some (l @ [NL]), ?t)"
    using assms by (intro fgets_line) (auto simp: bol_def)
  then show ?thesis
    using assms unfolding t
    by (simp add: copycode.simps [of f n s] cstr_plain endcode_line myputc_None bol_def fputs_def
        del: take_append)
qed

lemma linekind_not_END [simp]: "linekind sb e \<noteq> END" "linekind sb e \<noteq> START"
  by (auto simp: linekind_def Let_def)

lemma unlit_loop_step:
  fixes f :: "string option" and n d :: nat and prev :: line
  assumes "readline s = Inr (k, s1)" "k \<noteq> END"
  defines "t \<equiv> report f (if prev = DEFN \<and> k = TEXT then [(n, MISSINGBLANK)]
    else if prev = TEXT \<and> k = DEFN then [(n + 1, MISSINGBLANK)] else []) s1"
  shows "unlit_loop f prev n d s =
    (if k = BEGIN
     then (case copycode f (n + 1) t of Inl e \<Rightarrow> Inl e
           | Inr (n', s') \<Rightarrow> unlit_loop f BEGIN n' ((if k = DEFN then d + 1 else d) + 1) s')
     else unlit_loop f k (n + 1) (if k = DEFN then d + 1 else d) t)"
  using assms by (cases k) (auto simp: unlit_loop.simps [of f prev n d s])

lemma unlit_loop_spec:
  assumes "bol ls s" "\<forall>l \<in> set ls. plain l"
  shows "(if code
          then (case copycode f n s of Inl e \<Rightarrow> Inl e
                | Inr (n', s') \<Rightarrow> unlit_loop f BEGIN n' (d + 1) s')
          else unlit_loop f prev n d s)
       = outcome f s (unlit_spec (crunchnl s) (ignore_shebang s) code prev n d ls)"
  using assms
proof (induction ls arbitrary: code prev n d s)
  case Nil
  have e: "endl s [] = s" using Nil by (simp add: bol_def endl_def)
  have s: "s\<lparr>ostream := ostream s\<rparr> = s" by simp
  have "readline s = Inr (END, s)" "fgets 1000 s = (None, s)"
    using Nil by (simp_all add: bol_def readline_def egetc_def fgets_def)
  then show ?case
    by (simp add: outcome_def e s Let_def copycode.simps [of f n s] unlit_loop.simps [of f prev n d s])
next
  case (Cons l ls)
  have l: "plain l" and ls: "\<forall>l \<in> set ls. plain l" using Cons.prems by auto
  let ?e = "endl s (script ls)"
  have e: "bol ls ?e" "crunchnl ?e = crunchnl s" "ignore_shebang ?e = ignore_shebang s"
    using Cons.prems by (auto simp: bol_def)
  show ?case
  proof (cases code)
    case True
    note c = copycode_line [OF Cons.prems(1) l]
    show ?thesis
    proof (cases "take LENENDCODE l = ENDCODE")
      case end_code: True
      show ?thesis
        using Cons.IH [where s = "?e\<lparr>ostream := ostream s @ [NL]\<rparr>" and code = False
            and n = "n + 1" and d = "d + 1" and prev = BEGIN] e ls True end_code
        by (auto simp: c outcome_emit outcome_endl)
    next
      case False
      then show ?thesis
        using Cons.IH [where s = "?e\<lparr>ostream := ostream s @ l @ [NL]\<rparr>" and code = True
            and n = "n + 1" and d = d and prev = prev] e ls True
        by (auto simp: c outcome_emit outcome_endl)
    qed
  next
    case False
    let ?k = "linekind (ignore_shebang s) (expand 0 l)"
    let ?ms = "if prev = DEFN \<and> ?k = TEXT then [(n, MISSINGBLANK)]
                     else if prev = TEXT \<and> ?k = DEFN then [(n + 1, MISSINGBLANK)] else []"
    let ?s1 = "?e\<lparr>ostream := ostream s @ linetext (crunchnl s) ?k (expand 0 l)\<rparr>"
    let ?s = "report f ?ms ?s1"
    have s: "bol ls ?s" "crunchnl ?s = crunchnl s" "ignore_shebang ?s = ignore_shebang s"
      using e by auto
    have "readline s = Inr (?k, ?s1)"
      by (rule readline_line) (use Cons.prems l in \<open>auto simp: bol_def\<close>)
    then have "unlit_loop f prev n d s =
        (if ?k = BEGIN
          then (case copycode f (n + 1) ?s of Inl e \<Rightarrow> Inl e
                | Inr (n', s') \<Rightarrow> unlit_loop f BEGIN n' ((if ?k = DEFN then d + 1 else d) + 1) s')
          else unlit_loop f ?k (n + 1) (if ?k = DEFN then d + 1 else d) ?s)"
      by (rule unlit_loop_step) simp
    also have "\<dots> = outcome f ?s (unlit_spec (crunchnl s) (ignore_shebang s) (?k = BEGIN) ?k (n + 1)
        (if ?k = DEFN then d + 1 else d) ls)"
      using Cons.IH [where s = ?s and code = "?k = BEGIN" and n = "n + 1" and prev = ?k
          and d = "if ?k = DEFN then d + 1 else d"] s ls
      by simp
    also have "\<dots> = outcome f s (unlit_spec (crunchnl s) (ignore_shebang s) code prev n d (l # ls))"
      using False by (auto simp: Let_def outcome_emit outcome_endl)
    finally show ?thesis using False by simp
  qed
qed

lemma ostream_report [simp]: "ostream (report f ms s) = ostream s"
  by (induction ms arbitrary: s) auto

lemma expand_shebang:
  assumes "take 2 (expand 0 l) = ''#!''"
  shows "take 2 l = ''#!''"
proof -
  obtain v where e: "expand 0 l = CHR ''#'' # CHR ''!'' # v"
    using assms by (cases "expand 0 l"; cases "tl (expand 0 l)") auto
  obtain cs where l: "l = CHR ''#'' # cs" "expand (0 + 1) cs = CHR ''!'' # v"
    by (rule expand_first [OF e]) auto
  obtain ds where "cs = CHR ''!'' # ds"
    by (rule expand_first [OF l(2)]) auto
  then show ?thesis using l by simp
qed

lemma filter_NL: "NL \<notin> set l \<Longrightarrow> filter ((=) NL) l = []"
  by (auto simp: filter_empty_conv)

lemma spec_line_count:
  assumes "\<forall>l \<in> set ls. plain l" "sb \<longrightarrow> (\<forall>l \<in> set ls. take 2 l \<noteq> ''#!'')"
  shows "length (filter ((=) NL) (fst (snd (unlit_spec False sb code prev n d ls)))) = length ls"
  using assms
proof (induction ls arbitrary: code prev n d)
  case (Cons l ls)
  let ?e = "expand 0 l"
  have nl: "NL \<notin> set l" "NL \<notin> set ?e" using Cons.prems expand_NL by (auto simp: plain_def)
  have emit: "fst (snd (emit out ms r)) = out @ fst (snd r)" for out ms r
    by (cases r) (simp add: emit_def)
  have "linekind sb ?e \<noteq> SHEBANG"
    using Cons.prems(2) expand_shebang [of l] by (auto simp: linekind_def Let_def)
  moreover have "NL \<notin> set (tl ?e)" using nl(2) by (cases ?e) auto
  ultimately have "length (filter ((=) NL) (linetext False (linekind sb ?e) ?e)) = 1"
    using nl(2) by (auto simp: linetext_def filter_NL split: line.splits)
  then show ?case
    using Cons nl by (simp add: emit Let_def filter_NL)
qed auto

lemma unlit_outcome:
  assumes "\<forall>l \<in> set ls. plain l"
    and "spleft s = 0" "linepos s = 0" "instream s = script ls" "olimit s = None" "leavecpp s"
  shows "unlit f s =
    (case unlit_spec (crunchnl s) (ignore_shebang s) False START 0 0 ls of (ms, out, ok) \<Rightarrow>
       (if ok then Inr else Inl)
         (report f ms (s\<lparr>instream := [], ostream := ostream s @ out\<rparr>)))"
proof -
  have "bol ls s" using assms by (simp add: bol_def)
  then have "unlit f s = outcome f s (unlit_spec (crunchnl s) (ignore_shebang s) False START 0 0 ls)"
    using unlit_loop_spec [of ls s False f 0 0 START] assms(1) by (simp add: unlit_def)
  moreover have "endl s [] = s\<lparr>instream := []\<rparr>" using assms by (simp add: endl_def)
  ultimately show ?thesis by (simp add: outcome_def Let_def split: prod.splits)
qed

section \<open>Properties\<close>

text \<open>
  Claim C19.  The character-level filter computes the specification on lines: for a script of
  terminated lines, each short enough for the buffers, without zero bytes and not a lone
  \<open>#\<close>, \<open>unlit\<close> writes the text of every line in order, makes exactly the complaints of the
  specification (a program line next to a comment, no definitions, a missing end marker) and
  exits in the middle only when a code block is not closed.\<close>

theorem unlit_refines_spec:
  assumes "\<forall>l \<in> set ls. plain l"
    and "spleft s = 0" "linepos s = 0" "instream s = script ls" "olimit s = None" "leavecpp s"
  shows "unlit f s =
    (case unlit_spec (crunchnl s) (ignore_shebang s) False START 0 0 ls of (ms, out, ok) \<Rightarrow>
       (if ok then Inr else Inl)
         (report f ms (s\<lparr>instream := [], ostream := ostream s @ out\<rparr>)))"
  by (rule unlit_outcome [OF assms])

definition sample_lines :: "string list" where
  "sample_lines = [''Title'', [], ''> x = 1'', ''text'', BEGINCODE, ''y = 2'', ENDCODE]"

definition sample_state :: "string \<Rightarrow> ustate" where
  "sample_state i = ustate0\<lparr>instream := i\<rparr>"

lemma sample_plain: "\<forall>l \<in> set sample_lines. plain l"
  by (simp add: sample_lines_def plain_def BEGINCODE_def ENDCODE_def)

lemma sample_state_simps [simp]:
  "spleft (sample_state i) = 0" "linepos (sample_state i) = 0" "instream (sample_state i) = i"
  "olimit (sample_state i) = None" "leavecpp (sample_state i)" "ostream (sample_state i) = []"
  "crunchnl (sample_state i) = False" "ignore_shebang (sample_state i)"
  by (simp_all add: sample_state_def ustate0_def)

lemma sample_state_upd: "(sample_state i)\<lparr>instream := j, ostream := x\<rparr> = (sample_state j)\<lparr>ostream := x\<rparr>"
  by (simp add: sample_state_def)

theorem unlit_refines_spec_witness:
  "unlit None (sample_state (script sample_lines)) =
     Inr (complain None 3 MISSINGBLANK
       ((sample_state [])\<lparr>ostream :=
          [NL, NL] @ ''  x = 1'' @ [NL, NL, NL] @ ''y = 2'' @ [NL, NL]\<rparr>))"
proof -
  have "unlit_spec False True False START 0 0 sample_lines =
    ([(3, MISSINGBLANK)], [NL, NL] @ ''  x = 1'' @ [NL, NL, NL] @ ''y = 2'' @ [NL, NL], True)"
    by code_simp
  then show ?thesis
    using unlit_refines_spec [OF sample_plain, of "sample_state (script sample_lines)" None]
    by (simp add: sample_state_upd)
qed

text \<open>
  Line numbers: the filter replaces every line of the script by exactly one line
  unless blank lines are crunched or a shebang line is dropped, so that positions in the
  output are positions in the script, as the comment on \<open>readline\<close> says.\<close>

theorem unlit_keeps_line_numbers:
  assumes "\<forall>l \<in> set ls. plain l" "\<not> crunchnl s"
    and "spleft s = 0" "linepos s = 0" "instream s = script ls" "olimit s = None" "leavecpp s"
    and "ignore_shebang s \<longrightarrow> (\<forall>l \<in> set ls. take 2 l \<noteq> ''#!'')"
    and "unlit f s = Inr s'"
  shows "\<exists>out. ostream s' = ostream s @ out \<and> length (filter ((=) NL) out) = length ls"
proof -
  obtain ms out ok where r:
    "unlit_spec (crunchnl s) (ignore_shebang s) False START 0 0 ls = (ms, out, ok)"
    by (metis prod_cases3)
  have "ostream s' = ostream s @ out"
    using unlit_outcome [OF assms(1,3-7), of f] assms(9) r
    by (auto simp: ostream_report split: if_splits)
  moreover have "length (filter ((=) NL) out) = length ls"
    using spec_line_count [OF assms(1,8), of False START 0 0] assms(2) r by simp
  ultimately show ?thesis by blast
qed

theorem unlit_keeps_line_numbers_witness:
  "\<exists>s' out. unlit None (sample_state (script sample_lines)) = Inr s' \<and>
     ostream s' = out \<and> length (filter ((=) NL) out) = 7"
proof -
  have ok: "snd (snd (unlit_spec False True False START 0 0 sample_lines))" by code_simp
  then obtain s' where s': "unlit None (sample_state (script sample_lines)) = Inr s'"
    using unlit_outcome [OF sample_plain, of "sample_state (script sample_lines)" None]
    by (auto split: prod.splits)
  have "\<forall>l \<in> set sample_lines. take 2 l \<noteq> ''#!''"
    by (simp add: sample_lines_def BEGINCODE_def ENDCODE_def)
  then show ?thesis
    using unlit_keeps_line_numbers [OF sample_plain _ _ _ _ _ _ _ s'] s'
    by (auto simp: sample_lines_def)
qed

text \<open>
  A lone \<open>#\<close>: when \<open>readline\<close> looks for a shebang it takes the newline after a
  single \<open>#\<close> for the second character of a preprocessor line, and copies the line that follows,
  whatever it is, to the output; the two lines count as one.\<close>

theorem lone_hash_swallows_next_line:
  assumes "spleft s = 0" "linepos s = 0" "olimit s = None" "leavecpp s" "ignore_shebang s"
    and "NL \<notin> set l" "instream s = ''#'' @ NL # l @ NL # rest"
  shows "readline s =
    Inr (HASH, s\<lparr>instream := rest, ostream := ostream s @ ''#'' @ NL # expand 0 l @ [NL]\<rparr>)"
proof -
  let ?t = "s\<lparr>instream := l @ NL # rest, linepos := 0, ostream := ostream s @ ''#''\<rparr>"
  have "readline s = putline NL HASH ?t"
    using assms by (simp add: readline_def egetc_def charOf_def myputc_None)
  moreover have "inline ?t (expand 0 l) rest"
    using assms by (intro inline_start) auto
  ultimately show ?thesis using assms by (simp add: putline_line endl_def)
qed

theorem lone_hash_swallows_next_line_witness:
  "readline (sample_state (''#'' @ NL # ''comment'' @ NL # [])) =
     Inr (HASH, (sample_state [])\<lparr>ostream := ''#'' @ NL # ''comment'' @ [NL]\<rparr>)"
proof -
  have "expand 0 ''comment'' = ''comment''" by code_simp
  then show ?thesis
    using lone_hash_swallows_next_line
      [of "sample_state (''#'' @ NL # ''comment'' @ NL # [])" "''comment''" "[]"]
    by (simp add: sample_state_upd)
qed

section \<open>A full output stream\<close>




lemma egetc_olimit: "egetc s = (c, t) \<Longrightarrow> olimit t = olimit s"
  by (auto simp: egetc_def Let_def split: if_splits list.splits)
















end
