(* ===== verification/RetainerSet.thy ===== *)
theory RetainerSet
  imports Prelude "HOL-Library.Monad_Syntax"
begin

text \<open>
  Retainer sets, \<open>rts/RetainerSet.c\<close> and \<open>rts/RetainerSet.h\<close>: the sets of cost centre stacks
  that the retainer profiler attaches to heap objects.  Sets are immutable, their elements are
  kept in increasing order in an array, and a hash table makes sure that there is only one
  copy of each, so that equality of sets is equality of pointers.  Identifiers of sets are unbounded
  integers here and \<open>int\<close> in the code, where they overflow after \<open>2 ^ 31\<close> sets.

  A set is a record in a store; the array is a function on indices below \<open>num\<close>.  The arena is
  a client's view of \<open>arenaAlloc\<close>: the address of the new record is an argument of the
  operations that allocate, fresh and not null.  Following a chain is a
  \<^theory_text>\<open>partial_function (option)\<close>; the theorems show that it returns.
\<close>

section \<open>The program\<close>

record RetainerSet =
  num :: nat
  hashKey :: StgWord
  link :: addr
  rs_id :: int
  element :: "nat \<Rightarrow> StgWord"

record rs_state =
  hashTable :: "nat \<Rightarrow> addr"
  nextId :: int
  rs_mem :: "addr \<Rightarrow> RetainerSet"

definition HASH_TABLE_SIZE :: nat where "HASH_TABLE_SIZE = 255"

definition rs_hash :: "StgWord \<Rightarrow> nat" where
  "rs_hash hk = unat hk mod HASH_TABLE_SIZE"

text \<open>The address of the static object \<open>rs_MANY\<close>.\<close>

definition rs_MANY :: addr where "rs_MANY = 1"

definition rs_MANY_value :: RetainerSet where
  "rs_MANY_value = \<lparr>num = 0, hashKey = 0, link = NULL, rs_id = 1, element = (\<lambda>_. 0)\<rparr>"

definition hashKeySingleton :: "StgWord \<Rightarrow> StgWord" where
  "hashKeySingleton r = r"

definition hashKeyAddElement :: "StgWord \<Rightarrow> RetainerSet \<Rightarrow> StgWord" where
  "hashKeyAddElement r s = hashKeySingleton r + hashKey s"

definition initializeAllRetainerSet :: "rs_state \<Rightarrow> rs_state" where
  "initializeAllRetainerSet s =
     s\<lparr>hashTable := (\<lambda>i. if i < HASH_TABLE_SIZE then NULL else hashTable s i), nextId := 2\<rparr>"

definition BINARY_SEARCH_THRESHOLD :: nat where "BINARY_SEARCH_THRESHOLD = 8"

text \<open>The two loops of \<open>isMember\<close>: a linear scan of a short array and a binary search.\<close>

function linear_search :: "StgWord \<Rightarrow> RetainerSet \<Rightarrow> nat \<Rightarrow> bool" where
  "linear_search r rs i =
     (if i < num rs
      then let ri = element rs i in
        if r = ri then True else if r < ri then False else linear_search r rs (i + 1)
      else False)"
  by auto
termination
  by (relation "measure (\<lambda>(_, rs, i). num rs - i)") auto

function binary_search :: "StgWord \<Rightarrow> RetainerSet \<Rightarrow> int \<Rightarrow> int \<Rightarrow> bool" where
  "binary_search r rs left right =
     (if left \<le> right
      then let i = (left + right) div 2; ri = element rs (nat i) in
        if r = ri then True
        else if r < ri then binary_search r rs left (i - 1)
        else binary_search r rs (i + 1) right
      else False)"
  by auto
termination
  by (relation "measure (\<lambda>(_, _, left, right). nat (right - left + 1))") auto

definition isMember :: "StgWord \<Rightarrow> addr \<Rightarrow> rs_state \<Rightarrow> bool" where
  "isMember r p s =
     (let rs = rs_mem s p in
      if p = rs_MANY then True
      else if num rs < BINARY_SEARCH_THRESHOLD then linear_search r rs 0
      else binary_search r rs 0 (int (num rs) - 1))"

text \<open>Following a chain to the first set that passes a test.\<close>

partial_function (option) find_set :: "(RetainerSet \<Rightarrow> bool) \<Rightarrow> rs_state \<Rightarrow> addr \<Rightarrow> addr option" where
  "find_set test s p =
     (if p = NULL then Some NULL
      else if test (rs_mem s p) then Some p
      else find_set test s (link (rs_mem s p)))"

text \<open>Entering a new set at the head of its chain.\<close>

definition new_set :: "addr \<Rightarrow> nat \<Rightarrow> StgWord \<Rightarrow> (nat \<Rightarrow> StgWord) \<Rightarrow> rs_state \<Rightarrow> rs_state" where
  "new_set q n hk el s =
     s\<lparr>rs_mem := (rs_mem s)(q := \<lparr>num = n, hashKey = hk, link = hashTable s (rs_hash hk),
                              rs_id = nextId s, element = el\<rparr>),
       nextId := nextId s + 1,
       hashTable := (hashTable s)(rs_hash hk := q)\<rparr>"

definition singleton :: "StgWord \<Rightarrow> addr \<Rightarrow> rs_state \<Rightarrow> (addr \<times> rs_state) option" where
  "singleton r q s =
     (let hk = hashKeySingleton r in
      case find_set (\<lambda>rs. num rs = 1 \<and> element rs 0 = r) s (hashTable s (rs_hash hk)) of
        None \<Rightarrow> None
      | Some p \<Rightarrow>
          if p \<noteq> NULL then Some (p, s)
          else Some (q, new_set q 1 hk (\<lambda>i. if i = 0 then r else element (rs_mem s q) i) s))"

text \<open>\<open>for (nl = 0; nl < rs->num; nl++) if (r < rs->element[nl]) break;\<close>\<close>

function find_place :: "StgWord \<Rightarrow> RetainerSet \<Rightarrow> nat \<Rightarrow> nat" where
  "find_place r rs nl =
     (if nl < num rs then (if r < element rs nl then nl else find_place r rs (nl + 1)) else nl)"
  by auto
termination
  by (relation "measure (\<lambda>(_, rs, i). num rs - i)") auto

text \<open>\<open>for (; i < n; i++) if (a[i] != b[i + d]) break;\<close>, with the value of \<open>i\<close> after it.\<close>

function first_diff :: "(nat \<Rightarrow> StgWord) \<Rightarrow> (nat \<Rightarrow> StgWord) \<Rightarrow> nat \<Rightarrow> nat \<Rightarrow> nat" where
  "first_diff a b i n =
     (if i < n then (if a i \<noteq> b i then i else first_diff a b (i + 1) n) else i)"
  by auto
termination
  by (relation "measure (\<lambda>(_, _, i, n). n - i)") auto

text \<open>The test for equality of \<open>*rs\<close> augmented with \<open>r\<close> and \<open>*nrs\<close>.\<close>

definition same_augmented :: "StgWord \<Rightarrow> RetainerSet \<Rightarrow> nat \<Rightarrow> RetainerSet \<Rightarrow> bool" where
  "same_augmented r rs nl nrs =
     (if num rs + 1 \<noteq> num nrs then False
      else let i = first_diff (element rs) (element nrs) 0 nl in
        if i < nl then False
        else if r \<noteq> element nrs i then False
        else \<not> first_diff (element rs) (\<lambda>i. element nrs (i + 1)) i (num rs) < num rs)"

definition addElement :: "nat \<Rightarrow> StgWord \<Rightarrow> addr \<Rightarrow> addr \<Rightarrow> rs_state \<Rightarrow> (addr \<times> rs_state) option" where
  "addElement maxRetainerSetSize r p q s =
     (let rs = rs_mem s p in
      if p = rs_MANY \<or> num rs = maxRetainerSetSize then Some (rs_MANY, s)
      else
        let nl = find_place r rs 0;
            hk = hashKeyAddElement r rs
        in case find_set (same_augmented r rs nl) s (hashTable s (rs_hash hk)) of
             None \<Rightarrow> None
           | Some nrs \<Rightarrow>
               if nrs \<noteq> NULL then Some (nrs, s)
               else Some (q, new_set q (num rs + 1) hk
                      (\<lambda>i. if i < nl then element rs i
                           else if i = nl then r
                           else if i \<le> num rs then element rs (i - 1)
                           else element (rs_mem s q) i) s))"

text \<open>The sets that \<open>traverseAllRetainerSet\<close> calls its argument on, in order.\<close>

partial_function (option) chain_sets :: "rs_state \<Rightarrow> addr \<Rightarrow> addr list option" where
  "chain_sets s p =
     (if p = NULL then Some []
      else do { ps \<leftarrow> chain_sets s (link (rs_mem s p)); Some (p # ps) })"

fun table_sets :: "rs_state \<Rightarrow> nat list \<Rightarrow> addr list option" where
  "table_sets s [] = Some []"
| "table_sets s (i # is) =
     do { ps \<leftarrow> chain_sets s (hashTable s i); qs \<leftarrow> table_sets s is; Some (ps @ qs) }"

definition traverseAllRetainerSet :: "rs_state \<Rightarrow> addr list option" where
  "traverseAllRetainerSet s =
     do { ps \<leftarrow> table_sets s [0..<HASH_TABLE_SIZE]; Some (rs_MANY # ps) }"

declare linear_search.simps [simp del] binary_search.simps [simp del]
  find_place.simps [simp del] first_diff.simps [simp del]

declare find_set.simps [code] chain_sets.simps [code]

section \<open>The sets and their invariant\<close>

definition elems :: "RetainerSet \<Rightarrow> StgWord list" where
  "elems rs = map (element rs) [0..<num rs]"

definition members :: "rs_state \<Rightarrow> addr \<Rightarrow> StgWord set" where
  "members s p = set (elems (rs_mem s p))"

lemma elems_simps [simp]: "length (elems rs) = num rs" "i < num rs \<Longrightarrow> elems rs ! i = element rs i"
  by (simp_all add: elems_def)

lemma members_iff: "r \<in> members s p \<longleftrightarrow> (\<exists>i < num (rs_mem s p). element (rs_mem s p) i = r)"
  by (auto simp: members_def elems_def)

definition increasing :: "RetainerSet \<Rightarrow> bool" where
  "increasing rs = sorted_wrt (<) (elems rs)"

lemma increasing_iff: "increasing rs \<longleftrightarrow> (\<forall>i j. i < j \<and> j < num rs \<longrightarrow> element rs i < element rs j)"
proof -
  have "sorted_wrt (<) (elems rs) \<longleftrightarrow>
      (\<forall>i j. i < j \<longrightarrow> j < length (elems rs) \<longrightarrow> elems rs ! i < elems rs ! j)"
    by (rule sorted_wrt_iff_nth_less)
  then show ?thesis unfolding increasing_def by (auto simp: elems_def)
qed

lemma increasing_le:
  "increasing rs \<Longrightarrow> i \<le> j \<Longrightarrow> j < num rs \<Longrightarrow> element rs i \<le> element rs j"
  by (cases "i = j") (auto simp: increasing_iff intro: less_imp_le)

text \<open>Both searches decide membership in an increasing array.\<close>

lemma linear_search_correct:
  assumes "increasing rs"
  shows "linear_search r rs i \<longleftrightarrow> (\<exists>j. i \<le> j \<and> j < num rs \<and> element rs j = r)"
proof (induction "num rs - i" arbitrary: i rule: less_induct)
  case less
  show ?case
  proof (cases "i < num rs")
    case False
    then show ?thesis by (auto simp: linear_search.simps [of r rs i])
  next
    case True
    have eq: "linear_search r rs i =
        (if r = element rs i then True else if r < element rs i then False else linear_search r rs (i + 1))"
      using True by (simp add: linear_search.simps [of r rs i] Let_def)
    have ih: "linear_search r rs (i + 1) \<longleftrightarrow> (\<exists>j. i + 1 \<le> j \<and> j < num rs \<and> element rs j = r)"
      by (rule less.hyps) (use True in simp)
    have lt: "\<not> (\<exists>j. i \<le> j \<and> j < num rs \<and> element rs j = r)" if "r < element rs i"
      using that increasing_le [OF assms, of i] by (auto simp: not_le [symmetric])
    have "i + 1 \<le> j" if "i \<le> j" "r \<noteq> element rs i" "element rs j = r" for j
      using that by (cases "j = i") auto
    then show ?thesis using eq ih lt True by (metis add_leD1 order_refl)
  qed
qed

lemma binary_search_correct:
  assumes inc: "increasing rs" and "0 \<le> left" "right < int (num rs)"
  shows "binary_search r rs left right \<longleftrightarrow>
    (\<exists>j. left \<le> int j \<and> int j \<le> right \<and> element rs j = r)"
  using assms(2,3)
proof (induction "nat (right - left + 1)" arbitrary: left right rule: less_induct)
  case less
  show ?case
  proof (cases "left \<le> right")
    case False
    then show ?thesis by (auto simp: binary_search.simps [of r rs left right])
  next
    case True
    let ?i = "(left + right) div 2"
    have i: "left \<le> ?i" "?i \<le> right" using True by auto
    have m: "nat ?i < num rs" "int (nat ?i) = ?i" using i less.prems by auto
    have eq: "binary_search r rs left right =
        (if r = element rs (nat ?i) then True
         else if r < element rs (nat ?i) then binary_search r rs left (?i - 1)
         else binary_search r rs (?i + 1) right)"
      using True by (simp add: binary_search.simps [of r rs left right] Let_def)
    consider "r = element rs (nat ?i)" | "r < element rs (nat ?i)" | "element rs (nat ?i) < r"
      by (rule linorder_cases)
    then show ?thesis
    proof cases
      case 1
      then show ?thesis using eq i m by metis
    next
      case 2
      have "int j \<le> ?i - 1" if "int j \<le> right" "element rs j = r" for j
      proof (rule ccontr)
        assume "\<not> int j \<le> ?i - 1"
        then have "nat ?i \<le> j" by linarith
        then show False
          using increasing_le [OF inc, of "nat ?i" j] that 2 less.prems by auto
      qed
      moreover have "binary_search r rs left (?i - 1) \<longleftrightarrow>
          (\<exists>j. left \<le> int j \<and> int j \<le> ?i - 1 \<and> element rs j = r)"
        by (rule less.hyps) (use True i less.prems in linarith)+
      moreover have "int j \<le> right" if "int j \<le> ?i - 1" for j using that i by linarith
      ultimately show ?thesis using eq 2 by (metis less_irrefl)
    next
      case 3
      have "?i + 1 \<le> int j" if "left \<le> int j" "element rs j = r" for j
      proof (rule ccontr)
        assume "\<not> ?i + 1 \<le> int j"
        then have "j \<le> nat ?i" by linarith
        then show False using increasing_le [OF inc, of j "nat ?i"] that 3 m by auto
      qed
      moreover have "binary_search r rs (?i + 1) right \<longleftrightarrow>
          (\<exists>j. ?i + 1 \<le> int j \<and> int j \<le> right \<and> element rs j = r)"
        by (rule less.hyps) (use True i less.prems in linarith)+
      moreover have "left \<le> int j" if "?i + 1 \<le> int j" for j using that i by linarith
      ultimately show ?thesis using eq 3 by (metis less_irrefl order_less_asym)
    qed
  qed
qed

lemma find_place_correct:
  assumes "i \<le> num rs" "\<forall>j < i. \<not> r < element rs j"
  shows "find_place r rs i \<le> num rs \<and> (\<forall>j < find_place r rs i. \<not> r < element rs j) \<and>
    (find_place r rs i < num rs \<longrightarrow> r < element rs (find_place r rs i))"
  using assms
proof (induction "num rs - i" arbitrary: i rule: less_induct)
  case less
  show ?case
  proof (cases "i < num rs \<and> \<not> r < element rs i")
    case False
    then show ?thesis using less.prems by (auto simp: find_place.simps [of r rs i])
  next
    case True
    then have "find_place r rs i = find_place r rs (i + 1)" by (simp add: find_place.simps [of r rs i])
    moreover have "\<forall>j < i + 1. \<not> r < element rs j" using True less.prems by (auto simp: less_Suc_eq)
    ultimately show ?thesis using less.hyps [of "i + 1"] True by auto
  qed
qed

lemma first_diff_correct:
  "(first_diff a b i n < n \<longleftrightarrow> (\<exists>j. i \<le> j \<and> j < n \<and> a j \<noteq> b j)) \<and>
   (i \<le> n \<longrightarrow> \<not> first_diff a b i n < n \<longrightarrow> first_diff a b i n = n)"
proof (induction "n - i" arbitrary: i rule: less_induct)
  case less
  show ?case
  proof (cases "i < n \<and> a i = b i")
    case False
    then show ?thesis by (auto simp: first_diff.simps [of a b i n])
  next
    case True
    then have "first_diff a b i n = first_diff a b (i + 1) n" by (simp add: first_diff.simps [of a b i n])
    moreover have "(\<exists>j. i \<le> j \<and> j < n \<and> a j \<noteq> b j) \<longleftrightarrow> (\<exists>j. i + 1 \<le> j \<and> j < n \<and> a j \<noteq> b j)"
      using True by (metis Suc_eq_plus1 Suc_leD Suc_leI le_neq_implies_less)
    moreover have "n - (i + 1) < n - i" "i + 1 \<le> n" using True by auto
    ultimately show ?thesis using less.hyps [of "i + 1"] by simp
  qed
qed

text \<open>The elements of a set with one more element put in at index \<open>nl\<close>.\<close>

definition with_elem :: "StgWord \<Rightarrow> nat \<Rightarrow> StgWord list \<Rightarrow> StgWord list" where
  "with_elem r nl xs = take nl xs @ r # drop nl xs"

lemma with_elem_nth:
  assumes "nl \<le> length xs" "i \<le> length xs"
  shows "with_elem r nl xs ! i = (if i < nl then xs ! i else if i = nl then r else xs ! (i - 1))"
  using assms by (auto simp: with_elem_def nth_append nth_Cons' min_def)

lemma with_elem_props:
  assumes "nl \<le> length xs"
  shows "length (with_elem r nl xs) = length xs + 1" "set (with_elem r nl xs) = insert r (set xs)"
    "sum_list (with_elem r nl xs) = r + sum_list xs"
proof -
  show "length (with_elem r nl xs) = length xs + 1" using assms by (simp add: with_elem_def)
  have "set xs = set (take nl xs @ drop nl xs)" by simp
  then show "set (with_elem r nl xs) = insert r (set xs)" by (auto simp: with_elem_def simp del: append_take_drop_id)
  have "sum_list xs = sum_list (take nl xs @ drop nl xs)" by simp
  then show "sum_list (with_elem r nl xs) = r + sum_list xs"
    by (simp add: with_elem_def ac_simps del: append_take_drop_id)
qed

lemma elems_eqI:
  "num rs = length xs \<Longrightarrow> (\<And>i. i < num rs \<Longrightarrow> element rs i = xs ! i) \<Longrightarrow> elems rs = xs"
  by (rule nth_equalityI) auto

lemma same_augmented_correct:
  assumes nl: "nl \<le> num rs"
  shows "same_augmented r rs nl nrs \<longleftrightarrow> elems nrs = with_elem r nl (elems rs)"
proof
  assume s: "same_augmented r rs nl nrs"
  let ?i = "first_diff (element rs) (element nrs) 0 nl"
  have n: "num nrs = num rs + 1" and i: "\<not> ?i < nl" and r: "element nrs ?i = r"
    and d: "\<not> first_diff (element rs) (\<lambda>i. element nrs (i + 1)) ?i (num rs) < num rs"
    using s by (auto simp: same_augmented_def Let_def split: if_splits)
  have i': "?i = nl" using first_diff_correct [of "element rs" "element nrs" 0 nl] i by blast
  have a: "element rs j = element nrs j" if "j < nl" for j
    using first_diff_correct [of "element rs" "element nrs" 0 nl] i that by blast
  have b: "element rs j = element nrs (j + 1)" if "nl \<le> j" "j < num rs" for j
    using first_diff_correct [of "element rs" "\<lambda>i. element nrs (i + 1)" ?i "num rs"] d that
    unfolding i' by blast
  show "elems nrs = with_elem r nl (elems rs)"
  proof (rule elems_eqI)
    show "num nrs = length (with_elem r nl (elems rs))" using n nl by (simp add: with_elem_props)
    fix j assume "j < num nrs"
    then show "element nrs j = with_elem r nl (elems rs) ! j"
      using nl n a [of j] r [unfolded i'] b [of "j - 1"] by (auto simp: with_elem_nth)
  qed
next
  assume e: "elems nrs = with_elem r nl (elems rs)"
  have n: "num nrs = num rs + 1"
    using arg_cong [OF e, of length] nl by (simp add: with_elem_props)
  have el: "element nrs j = with_elem r nl (elems rs) ! j" if "j \<le> num rs" for j
    using e n that by (metis elems_simps(2) le_imp_less_Suc Suc_eq_plus1)
  have 1: "\<not> first_diff (element rs) (element nrs) 0 nl < nl"
    using first_diff_correct [of "element rs" "element nrs" 0 nl] el nl by (auto simp: with_elem_nth)
  then have i: "first_diff (element rs) (element nrs) 0 nl = nl"
    using first_diff_correct [of "element rs" "element nrs" 0 nl] by blast
  have 2: "\<not> first_diff (element rs) (\<lambda>i. element nrs (i + 1)) nl (num rs) < num rs"
    using first_diff_correct [of "element rs" "\<lambda>i. element nrs (i + 1)" nl "num rs"] el nl
    by (auto simp: with_elem_nth)
  show "same_augmented r rs nl nrs"
    using n 1 2 el [OF nl] nl by (simp add: same_augmented_def Let_def i with_elem_nth)
qed

text \<open>Putting an element where \<open>find_place\<close> says keeps the array increasing.\<close>

lemma with_elem_increasing:
  assumes inc: "increasing rs" and r: "r \<notin> set (elems rs)"
  defines "nl \<equiv> find_place r rs 0"
  shows "nl \<le> num rs" "sorted_wrt (<) (with_elem r nl (elems rs))"
proof -
  have f: "nl \<le> num rs" "\<forall>j < nl. \<not> r < element rs j" "nl < num rs \<longrightarrow> r < element rs nl"
    using find_place_correct [of 0 rs r] by (auto simp: nl_def)
  show "nl \<le> num rs" by (rule f)
  let ?xs = "elems rs"
  have s: "sorted_wrt (<) (take nl ?xs @ drop nl ?xs)" using inc by (simp add: increasing_def)
  have "x < r" if x: "x \<in> set (take nl ?xs)" for x
  proof -
    obtain j where "j < length (take nl ?xs)" "x = take nl ?xs ! j"
      using x unfolding in_set_conv_nth by blast
    then have "j < nl" "x = element rs j" "j < num rs" by auto
    then show ?thesis using f(2) r by (auto simp: elems_def not_less le_less)
  qed
  moreover have "r < x" if x: "x \<in> set (drop nl ?xs)" for x
  proof -
    obtain j where "j < length (drop nl ?xs)" "x = drop nl ?xs ! j"
      using x unfolding in_set_conv_nth by blast
    then have j: "nl + j < num rs" "x = element rs (nl + j)" by auto
    then have "element rs nl \<le> x" using increasing_le [OF inc, of nl "nl + j"] by simp
    then show ?thesis using f(3) j by auto
  qed
  ultimately show "sorted_wrt (<) (with_elem r nl ?xs)"
    using s by (auto simp: with_elem_def sorted_wrt_append simp del: append_take_drop_id)
qed

text \<open>
  The invariant; \<open>T\<close> is the list of the sets on each chain.  Every set is increasing, not
  empty, of at most the maximal size, on the chain of its hash key, which is the sum of its
  elements; the identifiers are distinct, between 2 and \<open>nextId\<close>; and no two records hold the
  same elements.
\<close>

definition all_sets :: "(nat \<Rightarrow> addr list) \<Rightarrow> addr set" where
  "all_sets T = (\<Union>b < HASH_TABLE_SIZE. set (T b))"

definition set_ok :: "nat \<Rightarrow> RetainerSet \<Rightarrow> bool" where
  "set_ok mx rs = (increasing rs \<and> 0 < num rs \<and> num rs \<le> mx \<and> hashKey rs = sum_list (elems rs))"

definition rs_inv :: "nat \<Rightarrow> (nat \<Rightarrow> addr list) \<Rightarrow> rs_state \<Rightarrow> bool" where
  "rs_inv mx T s =
     ((\<forall>b < HASH_TABLE_SIZE. lst (link \<circ> rs_mem s) (hashTable s b) (T b)) \<and>
      (\<forall>b < HASH_TABLE_SIZE. \<forall>p \<in> set (T b). rs_hash (hashKey (rs_mem s p)) = b) \<and>
      (\<forall>p \<in> all_sets T. set_ok mx (rs_mem s p)) \<and>
      rs_MANY \<notin> all_sets T \<and>
      inj_on (elems \<circ> rs_mem s) (all_sets T) \<and>
      inj_on (rs_id \<circ> rs_mem s) (all_sets T) \<and>
      (\<forall>p \<in> all_sets T. 2 \<le> rs_id (rs_mem s p) \<and> rs_id (rs_mem s p) < nextId s) \<and> 2 \<le> nextId s)"

lemma rs_hash_bound [simp]: "rs_hash hk < HASH_TABLE_SIZE"
  by (simp add: rs_hash_def HASH_TABLE_SIZE_def)

lemma all_sets_iff: "p \<in> all_sets T \<longleftrightarrow> (\<exists>b < HASH_TABLE_SIZE. p \<in> set (T b))"
  by (auto simp: all_sets_def)

lemma find_set_lst:
  "lst (link \<circ> rs_mem s) p ps \<Longrightarrow>
     find_set test s p =
       Some (case filter (\<lambda>q. test (rs_mem s q)) ps of [] \<Rightarrow> NULL | q # _ \<Rightarrow> q)"
  by (induction ps arbitrary: p) (auto simp: find_set.simps)

text \<open>Looking up the set with given elements finds the one record that holds them.\<close>

lemma find_set_elems:
  assumes inv: "rs_inv mx T s" and test: "\<forall>rs. test rs \<longleftrightarrow> elems rs = xs"
  defines "b \<equiv> rs_hash (sum_list xs)"
  shows "(\<exists>p \<in> all_sets T. elems (rs_mem s p) = xs \<and> p \<noteq> NULL \<and>
            find_set test s (hashTable s b) = Some p) \<or>
         (find_set test s (hashTable s b) = Some NULL \<and> (\<forall>p \<in> all_sets T. elems (rs_mem s p) \<noteq> xs))"
proof -
  have b: "b < HASH_TABLE_SIZE" by (simp add: b_def)
  have l: "lst (link \<circ> rs_mem s) (hashTable s b) (T b)" using inv b by (simp add: rs_inv_def)
  have f: "find_set test s (hashTable s b) =
      Some (case filter (\<lambda>q. elems (rs_mem s q) = xs) (T b) of [] \<Rightarrow> NULL | q # _ \<Rightarrow> q)"
    using find_set_lst [OF l, of test] test by simp
  show ?thesis
  proof (cases "filter (\<lambda>q. elems (rs_mem s q) = xs) (T b)")
    case Nil
    have "p \<in> set (T b)" if p: "p \<in> all_sets T" "elems (rs_mem s p) = xs" for p
    proof -
      obtain c where c: "c < HASH_TABLE_SIZE" "p \<in> set (T c)" using p(1) by (auto simp: all_sets_iff)
      then have "rs_hash (hashKey (rs_mem s p)) = c" using inv by (simp add: rs_inv_def)
      moreover have "hashKey (rs_mem s p) = sum_list xs"
        using inv p by (auto simp: rs_inv_def set_ok_def)
      ultimately show ?thesis using c by (simp add: b_def)
    qed
    then have "\<forall>p \<in> all_sets T. elems (rs_mem s p) \<noteq> xs"
      using Nil by (auto simp: filter_empty_conv)
    then show ?thesis using f Nil by simp
  next
    case (Cons q qs)
    have "q \<in> set (filter (\<lambda>q. elems (rs_mem s q) = xs) (T b))" unfolding Cons by simp
    then have "q \<in> set (T b)" "elems (rs_mem s q) = xs" by auto
    moreover have "q \<noteq> NULL" using lst_not_null [OF l] \<open>q \<in> set (T b)\<close> by metis
    ultimately show ?thesis using f Cons b by (auto simp: all_sets_iff)
  qed
qed

text \<open>Entering a set that is not there yet keeps the invariant and leaves every other set alone.\<close>

lemma new_set_inv:
  assumes inv: "rs_inv mx T s" and q: "q \<notin> all_sets T" "q \<noteq> NULL" "q \<noteq> rs_MANY"
    and xs: "sorted_wrt (<) xs" "0 < length xs" "length xs \<le> mx"
    and new: "\<forall>p \<in> all_sets T. elems (rs_mem s p) \<noteq> xs"
    and el: "\<forall>i < length xs. el i = xs ! i"
  defines "b \<equiv> rs_hash (sum_list xs)"
  defines "s' \<equiv> new_set q (length xs) (sum_list xs) el s"
  shows "rs_inv mx (T(b := q # T b)) s'" "elems (rs_mem s' q) = xs"
    "all_sets (T(b := q # T b)) = insert q (all_sets T)"
    "\<forall>p \<in> all_sets T. rs_mem s' p = rs_mem s p"
proof -
  have b: "b < HASH_TABLE_SIZE" by (simp add: b_def)
  let ?T = "T(b := q # T b)" and ?rs = "rs_mem s' q"
  have rs: "num ?rs = length xs" "hashKey ?rs = sum_list xs" "link ?rs = hashTable s b"
    "rs_id ?rs = nextId s" "element ?rs = el"
    by (simp_all add: s'_def new_set_def b_def)
  have m: "rs_mem s' p = rs_mem s p" if "p \<noteq> q" for p
    using that by (simp add: s'_def new_set_def)
  show e: "elems ?rs = xs"
    by (rule elems_eqI) (use rs el in auto)
  show a: "all_sets ?T = insert q (all_sets T)"
    using b by (auto simp: all_sets_iff split: if_splits)
  show mm: "\<forall>p \<in> all_sets T. rs_mem s' p = rs_mem s p" using m q(1) by metis
  have qT: "q \<notin> set (T c)" if "c < HASH_TABLE_SIZE" for c using q that by (auto simp: all_sets_iff)
  have "lst (link \<circ> rs_mem s') (hashTable s' c) (?T c)" if c: "c < HASH_TABLE_SIZE" for c
  proof -
    have "lst (link \<circ> rs_mem s) (hashTable s c) (T c)" using inv c by (simp add: rs_inv_def)
    moreover have "(link \<circ> rs_mem s) p = (link \<circ> rs_mem s') p" if "p \<in> set (T c)" for p
      using that qT [OF c] m [of p] by (cases "p = q") auto
    ultimately have "lst (link \<circ> rs_mem s') (hashTable s c) (T c)"
      using lst_cong [of "T c" "link \<circ> rs_mem s" "link \<circ> rs_mem s'"] by blast
    then show ?thesis using rs q by (auto simp: s'_def new_set_def b_def)
  qed
  moreover have "rs_hash (hashKey (rs_mem s' p)) = c" if "c < HASH_TABLE_SIZE" "p \<in> set (?T c)" for c p
    using that inv m [of p] rs qT by (cases "p = q") (auto simp: rs_inv_def b_def split: if_splits)
  moreover have "set_ok mx (rs_mem s' p)" if "p \<in> all_sets ?T" for p
    using that inv m [of p] rs xs e a by (cases "p = q") (auto simp: rs_inv_def set_ok_def increasing_def)
  moreover have "rs_MANY \<notin> all_sets ?T" using inv q a by (auto simp: rs_inv_def)
  moreover have "inj_on (elems \<circ> rs_mem s') (all_sets ?T)"
    using inv new e mm unfolding a by (auto simp: rs_inv_def inj_on_def)
  moreover have "inj_on (rs_id \<circ> rs_mem s') (all_sets ?T)"
    using inv rs(4) mm unfolding a by (force simp: rs_inv_def inj_on_def)
  moreover have "2 \<le> rs_id (rs_mem s' p) \<and> rs_id (rs_mem s' p) < nextId s'" if "p \<in> all_sets ?T" for p
    using that inv rs(4) m [of p] a by (cases "p = q") (force simp: rs_inv_def s'_def new_set_def)+
  moreover have "2 \<le> nextId s'" using inv by (simp add: rs_inv_def s'_def new_set_def)
  ultimately show "rs_inv mx ?T s'" unfolding rs_inv_def by blast
qed

lemma elems_singleton: "(num rs = 1 \<and> element rs 0 = r) \<longleftrightarrow> elems rs = [r]"
  by (auto simp: elems_def upt_rec dest: arg_cong [where f = length])

lemma singleton_correct:
  assumes inv: "rs_inv mx T s" and mx: "0 < mx" and q: "q \<notin> all_sets T" "q \<noteq> NULL" "q \<noteq> rs_MANY"
  obtains p s' T' where "singleton r q s = Some (p, s')" "rs_inv mx T' s'"
    "elems (rs_mem s' p) = [r]" "all_sets T' = insert p (all_sets T)"
    "\<forall>x \<in> all_sets T. rs_mem s' x = rs_mem s x"
proof -
  let ?f = "find_set (\<lambda>rs. num rs = 1 \<and> element rs 0 = r) s (hashTable s (rs_hash r))"
  have t: "\<forall>rs. (num rs = 1 \<and> element rs 0 = r) \<longleftrightarrow> elems rs = [r]"
    by (intro allI elems_singleton)
  have "(\<exists>p \<in> all_sets T. elems (rs_mem s p) = [r] \<and> p \<noteq> NULL \<and> ?f = Some p) \<or>
      (?f = Some NULL \<and> (\<forall>p \<in> all_sets T. elems (rs_mem s p) \<noteq> [r]))"
    using find_set_elems [OF inv t] by simp
  then show ?thesis
  proof (elim disjE bexE conjE)
    fix p
    assume "p \<in> all_sets T" "elems (rs_mem s p) = [r]" "p \<noteq> NULL" "?f = Some p"
    then show ?thesis
      by (intro that [of p s T]) (auto simp: singleton_def hashKeySingleton_def inv)
  next
    assume f: "?f = Some NULL" and n: "\<forall>p \<in> all_sets T. elems (rs_mem s p) \<noteq> [r]"
    let ?el = "\<lambda>i. if i = 0 then r else element (rs_mem s q) i"
    have "singleton r q s = Some (q, new_set q 1 r ?el s)"
      using f by (simp add: singleton_def hashKeySingleton_def)
    moreover note ns = new_set_inv [OF inv q, of "[r]" ?el]
    ultimately show ?thesis
      using n mx by (intro that [of q "new_set q 1 r ?el s" "T(rs_hash r := q # T (rs_hash r))"]) auto
  qed
qed

lemma addElement_correct:
  assumes inv: "rs_inv mx T s" and p: "p \<in> all_sets T" "num (rs_mem s p) < mx"
    and r: "r \<notin> members s p" and q: "q \<notin> all_sets T" "q \<noteq> NULL" "q \<noteq> rs_MANY"
  obtains p' s' T' where "addElement mx r p q s = Some (p', s')" "rs_inv mx T' s'"
    "members s' p' = insert r (members s p)" "all_sets T' = insert p' (all_sets T)"
    "\<forall>x \<in> all_sets T. rs_mem s' x = rs_mem s x"
proof -
  let ?rs = "rs_mem s p"
  let ?nl = "find_place r ?rs 0"
  let ?xs = "with_elem r ?nl (elems ?rs)"
  have ok: "increasing ?rs" "hashKey ?rs = sum_list (elems ?rs)" "p \<noteq> rs_MANY"
    using inv p by (auto simp: rs_inv_def set_ok_def)
  have nl: "?nl \<le> num ?rs" and sorted: "sorted_wrt (<) ?xs"
    using with_elem_increasing [OF ok(1), of r] r by (auto simp: members_def)
  have xs: "length ?xs = num ?rs + 1" "sum_list ?xs = r + hashKey ?rs"
      "set ?xs = insert r (members s p)"
    using nl ok by (simp_all add: with_elem_props members_def)
  let ?f = "find_set (same_augmented r ?rs ?nl) s (hashTable s (rs_hash (r + hashKey ?rs)))"
  have t: "\<forall>rs. same_augmented r ?rs ?nl rs \<longleftrightarrow> elems rs = ?xs"
    by (simp add: same_augmented_correct [OF nl])
  have add: "addElement mx r p q s = (case ?f of None \<Rightarrow> None | Some nrs \<Rightarrow>
      if nrs \<noteq> NULL then Some (nrs, s)
      else Some (q, new_set q (num ?rs + 1) (r + hashKey ?rs)
        (\<lambda>i. if i < ?nl then element ?rs i else if i = ?nl then r
             else if i \<le> num ?rs then element ?rs (i - 1) else element (rs_mem s q) i) s))"
    using ok(3) p(2) by (simp add: addElement_def Let_def hashKeyAddElement_def hashKeySingleton_def)
  from find_set_elems [OF inv t] show ?thesis
    unfolding xs(2)
  proof (elim disjE bexE conjE)
    fix x
    assume "x \<in> all_sets T" "elems (rs_mem s x) = ?xs" "x \<noteq> NULL" "?f = Some x"
    then show ?thesis
      by (intro that [of x s T]) (auto simp: add inv members_def [of s x] xs(3))
  next
    assume f: "?f = Some NULL" and n: "\<forall>p \<in> all_sets T. elems (rs_mem s p) \<noteq> ?xs"
    let ?el = "\<lambda>i. if i < ?nl then element ?rs i else if i = ?nl then r
             else if i \<le> num ?rs then element ?rs (i - 1) else element (rs_mem s q) i"
    let ?s = "new_set q (length ?xs) (sum_list ?xs) ?el s"
    have el: "\<forall>i < length ?xs. ?el i = ?xs ! i"
      using nl by (auto simp: with_elem_nth with_elem_props)
    have add': "addElement mx r p q s = Some (q, ?s)" using f by (simp add: add xs)
    have le: "0 < length ?xs" "length ?xs \<le> mx" using p(2) xs(1) by auto
    note ns = new_set_inv [OF inv q sorted le n el]
    have "members ?s q = insert r (members s p)"
      unfolding members_def [of ?s q] ns(2) by (rule xs(3))
    then show ?thesis
      by (rule that [OF add' ns(1)]) (use ns(3,4) in auto)
  qed
qed

text \<open>
  The states a profiling run reaches; \<open>K\<close> are the sets that were handed out.  A set that is
  allocated is at an address that the arena has not handed out before.
\<close>

inductive rs_reach :: "nat \<Rightarrow> rs_state \<Rightarrow> addr set \<Rightarrow> bool" for mx :: nat where
  start: "rs_reach mx (initializeAllRetainerSet s) {}"
| single: "rs_reach mx s K \<Longrightarrow> q \<notin> K \<Longrightarrow> q \<noteq> NULL \<Longrightarrow> q \<noteq> rs_MANY \<Longrightarrow>
    singleton r q s = Some (p, s') \<Longrightarrow> rs_reach mx s' (insert p K)"
| add: "rs_reach mx s K \<Longrightarrow> q \<notin> K \<Longrightarrow> q \<noteq> NULL \<Longrightarrow> q \<noteq> rs_MANY \<Longrightarrow> p \<in> K \<Longrightarrow>
    \<not> isMember r p s \<Longrightarrow> addElement mx r p q s = Some (p', s') \<Longrightarrow>
    rs_reach mx s' (if p' = rs_MANY then K else insert p' K)"

lemma isMember_iff:
  assumes "rs_inv mx T s" "p \<in> all_sets T"
  shows "isMember r p s \<longleftrightarrow> r \<in> members s p"
proof -
  have inc: "increasing (rs_mem s p)" and p: "p \<noteq> rs_MANY"
    using assms by (auto simp: rs_inv_def set_ok_def)
  have b: "binary_search r (rs_mem s p) 0 (int (num (rs_mem s p)) - 1) \<longleftrightarrow> r \<in> members s p"
    by (subst binary_search_correct [OF inc]) (auto simp: members_iff)
  have l: "linear_search r (rs_mem s p) 0 \<longleftrightarrow> r \<in> members s p"
    by (subst linear_search_correct [OF inc]) (auto simp: members_iff)
  show ?thesis using p b l by (simp add: isMember_def Let_def)
qed

lemma rs_inv_init: "rs_inv mx (\<lambda>_. []) (initializeAllRetainerSet s)" "all_sets (\<lambda>_. []) = {}"
  by (auto simp: rs_inv_def initializeAllRetainerSet_def all_sets_def)

lemma rs_reach_inv:
  assumes "rs_reach mx s K" "0 < mx"
  shows "\<exists>T. rs_inv mx T s \<and> all_sets T = K"
  using assms
proof (induction rule: rs_reach.induct)
  case (start s)
  then show ?case using rs_inv_init by blast
next
  case (single s K q r p s')
  then obtain T where T: "rs_inv mx T s" "all_sets T = K" by blast
  obtain p2 s2 T2 where "singleton r q s = Some (p2, s2)" "rs_inv mx T2 s2"
    "all_sets T2 = insert p2 (all_sets T)"
    using singleton_correct [OF T(1) single.prems, of q r] single.hyps T(2) by metis
  then show ?case using single.hyps T by auto
next
  case (add s K q p r p' s')
  then obtain T where T: "rs_inv mx T s" "all_sets T = K" by blast
  have p: "p \<in> all_sets T" "p \<noteq> rs_MANY" "num (rs_mem s p) \<le> mx"
    using T add.hyps by (auto simp: rs_inv_def set_ok_def)
  show ?case
  proof (cases "num (rs_mem s p) = mx")
    case True
    then have "p' = rs_MANY" "s' = s" using add.hyps by (auto simp: addElement_def Let_def)
    then show ?thesis using T by auto
  next
    case False
    have r: "r \<notin> members s p" using isMember_iff [OF T(1) p(1)] add.hyps by blast
    obtain p2 s2 T2 where "addElement mx r p q s = Some (p2, s2)" "rs_inv mx T2 s2"
      "all_sets T2 = insert p2 (all_sets T)"
      using addElement_correct [OF T(1) p(1) _ r, of q] add.hyps T(2) p(3) False
      by (metis le_neq_implies_less)
    moreover from this have "p2 \<noteq> rs_MANY" by (auto simp: rs_inv_def)
    ultimately show ?thesis using add.hyps T by auto
  qed
qed

section \<open>Properties\<close>

text \<open>
  Claim C18.  There is only one copy of each retainer set: in every state that a sequence of
  calls of \<open>singleton\<close> and \<open>addElement\<close> reaches, two sets that were handed out are the same
  pointer when they have the same elements, every set keeps its elements in increasing order,
  no set is larger than the limit, and no two sets have the same identifier.\<close>

theorem retainer_sets_canonical:
  assumes "rs_reach mx s K" "0 < mx"
  shows "inj_on (members s) K \<and> inj_on (rs_id \<circ> rs_mem s) K \<and>
    (\<forall>p \<in> K. sorted_wrt (<) (elems (rs_mem s p)) \<and> card (members s p) \<le> mx \<and> p \<noteq> rs_MANY)"
proof -
  obtain T where T: "rs_inv mx T s" "all_sets T = K" using rs_reach_inv [OF assms] by blast
  have ok: "set_ok mx (rs_mem s p)" if "p \<in> K" for p using T that by (auto simp: rs_inv_def)
  have "p = q" if "p \<in> K" "q \<in> K" "members s p = members s q" for p q
  proof -
    have "sorted_wrt (<) (elems (rs_mem s p))" "sorted_wrt (<) (elems (rs_mem s q))"
      using ok that by (auto simp: set_ok_def increasing_def)
    then have "elems (rs_mem s p) = elems (rs_mem s q)"
      using that(3) by (auto simp: members_def strict_sorted_iff intro: sorted_distinct_set_unique)
    then show ?thesis using T that by (auto simp: rs_inv_def inj_on_def)
  qed
  moreover have "card (members s p) \<le> mx" if "p \<in> K" for p
    using card_length [of "elems (rs_mem s p)"] ok [OF that] by (simp add: members_def set_ok_def)
  ultimately show ?thesis
    using T ok by (auto simp: rs_inv_def inj_on_def set_ok_def increasing_def)
qed

text \<open>The initial state of a run.\<close>

definition rs_start :: rs_state where
  "rs_start = initializeAllRetainerSet
     \<lparr>hashTable = (\<lambda>_. 0), nextId = 0, rs_mem = (\<lambda>_. rs_MANY_value)\<rparr>"

definition rs_s1 :: rs_state where "rs_s1 = snd (the (singleton 5 10 rs_start))"

definition rs_s2 :: rs_state where "rs_s2 = snd (the (addElement 4 3 10 11 rs_s1))"

definition rs_s3 :: rs_state where "rs_s3 = snd (the (singleton 3 12 rs_s2))"

lemma Some_pair: "map_option fst x = Some p \<Longrightarrow> x = Some (p, snd (the x))"
  by (cases x) auto

lemma rs_run:
  "singleton 5 10 rs_start = Some (10, rs_s1)" "addElement 4 3 10 11 rs_s1 = Some (11, rs_s2)"
  "singleton 3 12 rs_s2 = Some (12, rs_s3)" "\<not> isMember 3 10 rs_s1" "num (rs_mem rs_s1 10) \<noteq> 4"
proof -
  show "singleton 5 10 rs_start = Some (10, rs_s1)" unfolding rs_s1_def by (rule Some_pair) code_simp
  show "addElement 4 3 10 11 rs_s1 = Some (11, rs_s2)" unfolding rs_s2_def by (rule Some_pair) code_simp
  show "singleton 3 12 rs_s2 = Some (12, rs_s3)" unfolding rs_s3_def by (rule Some_pair) code_simp
  show "\<not> isMember 3 10 rs_s1" by code_simp
  show "num (rs_mem rs_s1 10) \<noteq> 4" by code_simp
qed

lemma rs_run_reach: "rs_reach 4 rs_s1 {10}" "rs_reach 4 rs_s3 {12, 11, 10}"
proof -
  have "rs_reach 4 rs_start {}" unfolding rs_start_def by (rule rs_reach.start)
  then show r1: "rs_reach 4 rs_s1 {10}"
    using rs_reach.single [OF _ _ _ _ rs_run(1), of 4 "{}"] by (simp add: rs_MANY_def)
  then have "rs_reach 4 rs_s2 {11, 10}"
    using rs_reach.add [OF _ _ _ _ _ rs_run(4,2), of "{10}"] by (simp add: rs_MANY_def)
  then show "rs_reach 4 rs_s3 {12, 11, 10}"
    using rs_reach.single [OF _ _ _ _ rs_run(3), of 4 "{11, 10}"] by (simp add: rs_MANY_def)
qed

theorem retainer_sets_canonical_witness:
  "rs_reach 4 rs_s3 {12, 11, 10} \<and> inj_on (members rs_s3) {12, 11, 10}"
  using retainer_sets_canonical [OF rs_run_reach(2)] rs_run_reach(2) by simp

text \<open>
  \<open>addElement\<close> augments a set: on a reachable state, for a set below the limit and a
  retainer that \<open>isMember\<close> does not find in it, it returns, whether the set exists or has to be
  created, a set with exactly the old members and the new one, and every set handed out before
  keeps its members; at the limit the answer is \<open>rs_MANY\<close> and nothing changes.  \<open>isMember\<close>
  decides membership, by linear scan or by binary search.\<close>

theorem addElement_augments:
  assumes "rs_reach mx s K" "0 < mx" "p \<in> K" "\<not> isMember r p s"
    and "q \<notin> K" "q \<noteq> NULL" "q \<noteq> rs_MANY"
  shows "(\<forall>x. isMember x p s \<longleftrightarrow> x \<in> members s p) \<and>
    (if num (rs_mem s p) = mx then addElement mx r p q s = Some (rs_MANY, s)
     else \<exists>p' s'. addElement mx r p q s = Some (p', s') \<and>
       members s' p' = insert r (members s p) \<and> (\<forall>x \<in> K. members s' x = members s x))"
proof -
  obtain T where T: "rs_inv mx T s" "all_sets T = K" using rs_reach_inv [OF assms(1,2)] by blast
  have p: "p \<in> all_sets T" "num (rs_mem s p) \<le> mx" using T assms by (auto simp: rs_inv_def set_ok_def)
  have m: "\<forall>x. isMember x p s \<longleftrightarrow> x \<in> members s p" using isMember_iff [OF T(1) p(1)] by blast
  show ?thesis
  proof (cases "num (rs_mem s p) = mx")
    case True
    then show ?thesis using m by (simp add: addElement_def Let_def)
  next
    case False
    have r: "r \<notin> members s p" using m assms(4) by blast
    have q: "q \<notin> all_sets T" using T assms(5) by simp
    obtain p' s' T' where "addElement mx r p q s = Some (p', s')"
      "members s' p' = insert r (members s p)" "\<forall>x \<in> all_sets T. rs_mem s' x = rs_mem s x"
      by (rule addElement_correct [OF T(1) p(1) _ r q assms(6,7)]) (use False p(2) in auto)
    then show ?thesis using m False T(2) by (auto simp: members_def)
  qed
qed

theorem addElement_augments_witness:
  "\<exists>p' s'. rs_reach 4 rs_s1 {10} \<and> addElement 4 3 10 11 rs_s1 = Some (p', s') \<and>
     members s' p' = insert 3 (members rs_s1 10)"
  using addElement_augments [OF rs_run_reach(1) _ _ rs_run(4), of 11] rs_run_reach(1) rs_run(5)
  by (auto simp: rs_MANY_def)

text \<open>\<open>traverseAllRetainerSet\<close> visits \<open>rs_MANY\<close> first and then every set exactly once.\<close>

lemma chain_sets_lst: "lst (link \<circ> rs_mem s) p ps \<Longrightarrow> chain_sets s p = Some ps"
  by (induction ps arbitrary: p) (auto simp: chain_sets.simps)

lemma table_sets_concat:
  "\<forall>b \<in> set bs. lst (link \<circ> rs_mem s) (hashTable s b) (T b) \<Longrightarrow>
     table_sets s bs = Some (concat (map T bs))"
  by (induction bs) (auto simp: chain_sets_lst)

lemma traverse_visits_each:
  assumes "rs_reach mx s K" "0 < mx"
  shows "\<exists>ps. traverseAllRetainerSet s = Some (rs_MANY # ps) \<and> distinct ps \<and> set ps = K"
proof -
  obtain T where T: "rs_inv mx T s" "all_sets T = K" using rs_reach_inv [OF assms] by blast
  have l: "\<forall>b \<in> set [0..<HASH_TABLE_SIZE]. lst (link \<circ> rs_mem s) (hashTable s b) (T b)"
    using T(1) by (simp add: rs_inv_def)
  have same: "b = c" if "b < HASH_TABLE_SIZE" "c < HASH_TABLE_SIZE" "p \<in> set (T b)" "p \<in> set (T c)" for b c p
    using that T(1) unfolding rs_inv_def by metis
  have dist: "\<forall>b < HASH_TABLE_SIZE. distinct (T b)" using T(1) unfolding rs_inv_def by (blast intro: lst_distinct)
  have "distinct (concat (map T [0..<n]))" if "n \<le> HASH_TABLE_SIZE" for n
    using that
  proof (induction n)
    case (Suc n)
    have "p \<notin> set (T n)" if "b < n" "p \<in> set (T b)" for b p
      using same [of b n p] that Suc.prems by auto
    then show ?case using Suc dist by auto
  qed simp
  moreover have "set (concat (map T [0..<HASH_TABLE_SIZE])) = K"
    using T(2) by (auto simp: all_sets_def)
  ultimately show ?thesis
    using table_sets_concat [OF l] by (auto simp: traverseAllRetainerSet_def)
qed

end
