(* ===== verification/STM.thy ===== *)
theory STM
  imports Prelude "HOL-Library.Monad_Syntax"
begin

text \<open>
  Software transactional memory, \<open>rts/STM.c\<close>, in the configuration \<open>STM_UNIPROC\<close> of the runtime
  system without threads: every function runs to its end without interruption, and locking a
  variable is reading it.  Transactions of different Haskell threads interleave between calls.

  The state holds transactional variables, transaction records, entries of watch queues,
  invariants and their check queues in stores; address 0 stands for the static closures that end
  lists (\<open>NO_TREC\<close>, \<open>END_STM_WATCH_QUEUE\<close>, ...).  The chunks of a record belong to it alone and are
  a value: a list of lists of entries, the current chunk first; so the list of chunks to use again
  is not in the state, and neither is \<open>block_info\<close> of a thread, which nothing here reads.  A failed
  assertion, and following a list that does not end, is \<open>None\<close>.
\<close>

section \<open>Data\<close>

datatype TRecState = TREC_ACTIVE | TREC_CONDEMNED | TREC_COMMITTED | TREC_ABORTED | TREC_WAITING

datatype BlockReason = NotBlocked | BlockedOnSTM | BlockedOnOther

datatype ClosureKind = KTSO | KInvariant | KOther

record TRecEntry =
  tvar :: addr
  expected_value :: addr
  new_value :: addr

record StgTVar =
  current_value :: addr
  first_watch_queue_entry :: addr

record StgTVarWatchQueue =
  wq_closure :: addr
  next_queue_entry :: addr
  prev_queue_entry :: addr

record StgAtomicInvariant =
  inv_code :: addr
  last_execution :: addr

record StgInvariantCheckQueue =
  icq_invariant :: addr
  my_execution :: addr
  icq_next :: addr

record StgTRecHeader =
  enclosing_trec :: addr
  chunks :: "TRecEntry list list"
  invariants_to_check :: addr
  trec_state :: TRecState

record stm_state =
  tvars :: "addr \<Rightarrow> StgTVar"
  trecs :: "addr \<Rightarrow> StgTRecHeader"
  wqs :: "addr \<Rightarrow> StgTVarWatchQueue"
  invs :: "addr \<Rightarrow> StgAtomicInvariant"
  icqs :: "addr \<Rightarrow> StgInvariantCheckQueue"
  why_blocked :: "addr \<Rightarrow> BlockReason"
  tso_trec :: "addr \<Rightarrow> addr"
  closure_kind :: "addr \<Rightarrow> ClosureKind"
  run_queue :: "addr list"
  free_tvar_watch_queues :: addr
  free_trec_headers :: addr
  free_invariant_check_queues :: addr
  heap_next :: addr

abbreviation NO_TREC :: addr where "NO_TREC \<equiv> 0"
abbreviation END_STM_WATCH_QUEUE :: addr where "END_STM_WATCH_QUEUE \<equiv> 0"
abbreviation END_INVARIANT_CHECK_QUEUE :: addr where "END_INVARIANT_CHECK_QUEUE \<equiv> 0"

definition TREC_CHUNK_NUM_ENTRIES :: nat where "TREC_CHUNK_NUM_ENTRIES = 16"

text \<open>The entries of a record in the order of \<open>FOR_EACH_ENTRY\<close>: the current chunk up to its
  \<open>next_entry_idx\<close>, then the full chunks before it.\<close>

definition entries_of :: "stm_state \<Rightarrow> addr \<Rightarrow> TRecEntry list" where
  "entries_of s t = concat (chunks (trecs s t))"

definition upd_tvar :: "addr \<Rightarrow> (StgTVar \<Rightarrow> StgTVar) \<Rightarrow> stm_state \<Rightarrow> stm_state" where
  "upd_tvar v f s = s\<lparr>tvars := (tvars s)(v := f (tvars s v))\<rparr>"

definition upd_trec :: "addr \<Rightarrow> (StgTRecHeader \<Rightarrow> StgTRecHeader) \<Rightarrow> stm_state \<Rightarrow> stm_state" where
  "upd_trec t f s = s\<lparr>trecs := (trecs s)(t := f (trecs s t))\<rparr>"

definition upd_wq :: "addr \<Rightarrow> (StgTVarWatchQueue \<Rightarrow> StgTVarWatchQueue) \<Rightarrow> stm_state \<Rightarrow> stm_state" where
  "upd_wq q f s = s\<lparr>wqs := (wqs s)(q := f (wqs s q))\<rparr>"

text \<open>\<open>allocate\<close> answers an address that was never used.\<close>

definition allocate :: "stm_state \<Rightarrow> addr \<times> stm_state" where
  "allocate s = (heap_next s, s\<lparr>heap_next := heap_next s + 1\<rparr>)"

section \<open>Locks\<close>

definition lock_tvar :: "addr \<Rightarrow> stm_state \<Rightarrow> addr" where
  "lock_tvar v s = current_value (tvars s v)"

definition unlock_tvar :: "addr \<Rightarrow> addr \<Rightarrow> bool \<Rightarrow> stm_state \<Rightarrow> stm_state" where
  "unlock_tvar v c force_update s =
     (if force_update then upd_tvar v (\<lambda>x. x\<lparr>current_value := c\<rparr>) s else s)"

definition cond_lock_tvar :: "addr \<Rightarrow> addr \<Rightarrow> stm_state \<Rightarrow> bool" where
  "cond_lock_tvar v expected s = (current_value (tvars s v) = expected)"

section \<open>Blocking and waking threads\<close>

definition watcher_is_tso :: "stm_state \<Rightarrow> addr \<Rightarrow> bool" where
  "watcher_is_tso s q = (closure_kind s (wq_closure (wqs s q)) = KTSO)"

definition watcher_is_invariant :: "stm_state \<Rightarrow> addr \<Rightarrow> bool" where
  "watcher_is_invariant s q = (closure_kind s (wq_closure (wqs s q)) = KInvariant)"

definition park_tso :: "addr \<Rightarrow> stm_state \<Rightarrow> stm_state option" where
  "park_tso tso s =
     (if why_blocked s tso = NotBlocked
      then Some (s\<lparr>why_blocked := (why_blocked s)(tso := BlockedOnSTM)\<rparr>) else None)"

text \<open>\<open>tryWakeupThread\<close> on a thread blocked in a transaction makes it runnable.\<close>

definition unpark_tso :: "addr \<Rightarrow> stm_state \<Rightarrow> stm_state" where
  "unpark_tso tso s =
     (if why_blocked s tso = BlockedOnSTM
      then s\<lparr>why_blocked := (why_blocked s)(tso := NotBlocked), run_queue := run_queue s @ [tso]\<rparr>
      else s)"

text \<open>The two loops of \<open>unpark_waiters_on\<close>: to the last entry, and back, waking threads.\<close>

partial_function (option) last_watcher :: "stm_state \<Rightarrow> addr \<Rightarrow> addr \<Rightarrow> addr option" where
  "last_watcher s q trail =
     (if q = END_STM_WATCH_QUEUE then Some trail
      else last_watcher s (next_queue_entry (wqs s q)) q)"

partial_function (option) unpark_back :: "addr \<Rightarrow> stm_state \<Rightarrow> stm_state option" where
  "unpark_back q s =
     (if q = END_STM_WATCH_QUEUE then Some s
      else unpark_back (prev_queue_entry (wqs s q))
             (if watcher_is_tso s q then unpark_tso (wq_closure (wqs s q)) s else s))"

definition unpark_waiters_on :: "addr \<Rightarrow> stm_state \<Rightarrow> stm_state option" where
  "unpark_waiters_on v s = do {
     let q = first_watch_queue_entry (tvars s v);
     trail \<leftarrow> last_watcher s q q;
     unpark_back trail s
   }"

section \<open>Allocation with lists of entries to use again\<close>

definition new_stg_invariant_check_queue :: "addr \<Rightarrow> stm_state \<Rightarrow> addr \<times> stm_state" where
  "new_stg_invariant_check_queue iv s =
     (let (r, s) = allocate s
      in (r, s\<lparr>icqs := (icqs s)(r := (icqs s r)\<lparr>icq_invariant := iv, my_execution := NO_TREC\<rparr>)\<rparr>))"

definition alloc_stg_invariant_check_queue :: "addr \<Rightarrow> stm_state \<Rightarrow> addr \<times> stm_state" where
  "alloc_stg_invariant_check_queue iv s =
     (if free_invariant_check_queues s = END_INVARIANT_CHECK_QUEUE
      then new_stg_invariant_check_queue iv s
      else let r = free_invariant_check_queues s
           in (r, s\<lparr>icqs := (icqs s)(r := (icqs s r)\<lparr>icq_invariant := iv, my_execution := NO_TREC\<rparr>),
                  free_invariant_check_queues := icq_next (icqs s r)\<rparr>))"

definition new_stg_tvar_watch_queue :: "addr \<Rightarrow> stm_state \<Rightarrow> addr \<times> stm_state" where
  "new_stg_tvar_watch_queue c s =
     (let (r, s) = allocate s in (r, upd_wq r (\<lambda>w. w\<lparr>wq_closure := c\<rparr>) s))"

definition alloc_stg_tvar_watch_queue :: "addr \<Rightarrow> stm_state \<Rightarrow> addr \<times> stm_state" where
  "alloc_stg_tvar_watch_queue c s =
     (if free_tvar_watch_queues s = END_STM_WATCH_QUEUE then new_stg_tvar_watch_queue c s
      else let r = free_tvar_watch_queues s
           in (r, (upd_wq r (\<lambda>w. w\<lparr>wq_closure := c\<rparr>) s)
                    \<lparr>free_tvar_watch_queues := next_queue_entry (wqs s r)\<rparr>))"

definition free_stg_tvar_watch_queue :: "addr \<Rightarrow> stm_state \<Rightarrow> stm_state" where
  "free_stg_tvar_watch_queue q s =
     (upd_wq q (\<lambda>w. w\<lparr>next_queue_entry := free_tvar_watch_queues s\<rparr>) s)\<lparr>free_tvar_watch_queues := q\<rparr>"

text \<open>The state that a new record takes from the enclosing one.\<close>

definition start_state :: "addr \<Rightarrow> stm_state \<Rightarrow> TRecState option" where
  "start_state outer s =
     (if outer = NO_TREC then Some TREC_ACTIVE
      else if trec_state (trecs s outer) = TREC_ACTIVE \<or> trec_state (trecs s outer) = TREC_CONDEMNED
      then Some (trec_state (trecs s outer)) else None)"

definition new_stg_trec_header :: "addr \<Rightarrow> stm_state \<Rightarrow> (addr \<times> stm_state) option" where
  "new_stg_trec_header outer s = do {
     let (r, s) = allocate s;
     st \<leftarrow> start_state outer s;
     Some (r, upd_trec r (\<lambda>_. \<lparr>enclosing_trec = outer, chunks = [[]],
                invariants_to_check = END_INVARIANT_CHECK_QUEUE, trec_state = st\<rparr>) s)
   }"

definition alloc_stg_trec_header :: "addr \<Rightarrow> stm_state \<Rightarrow> (addr \<times> stm_state) option" where
  "alloc_stg_trec_header outer s =
     (if free_trec_headers s = NO_TREC then new_stg_trec_header outer s
      else do {
        let r = free_trec_headers s;
        let s = s\<lparr>free_trec_headers := enclosing_trec (trecs s r)\<rparr>;
        st \<leftarrow> start_state outer s;
        Some (r, upd_trec r (\<lambda>t. t\<lparr>enclosing_trec := outer, chunks := [] # tl (chunks t),
                   invariants_to_check := END_INVARIANT_CHECK_QUEUE, trec_state := st\<rparr>) s)
      })"

text \<open>The chunks before the current one are given back.\<close>

definition free_stg_trec_header :: "addr \<Rightarrow> stm_state \<Rightarrow> stm_state" where
  "free_stg_trec_header t s =
     (upd_trec t (\<lambda>r. r\<lparr>chunks := take 1 (chunks r), enclosing_trec := free_trec_headers s\<rparr>) s)
       \<lparr>free_trec_headers := t\<rparr>"

section \<open>Watch queues\<close>

text \<open>Putting a new entry for \<open>c\<close> at the head of the watch queue of \<open>v\<close>.\<close>

definition push_watcher :: "addr \<Rightarrow> addr \<Rightarrow> stm_state \<Rightarrow> addr \<times> stm_state" where
  "push_watcher v c s =
     (let fq = first_watch_queue_entry (tvars s v);
          (q, s) = alloc_stg_tvar_watch_queue c s;
          s = upd_wq q (\<lambda>w. w\<lparr>next_queue_entry := fq, prev_queue_entry := END_STM_WATCH_QUEUE\<rparr>) s;
          s = (if fq \<noteq> END_STM_WATCH_QUEUE then upd_wq fq (\<lambda>w. w\<lparr>prev_queue_entry := q\<rparr>) s else s)
      in (q, upd_tvar v (\<lambda>x. x\<lparr>first_watch_queue_entry := q\<rparr>) s))"

text \<open>Taking the entry \<open>q\<close> out of the watch queue of \<open>v\<close>.\<close>

definition unlink_watcher :: "addr \<Rightarrow> addr \<Rightarrow> stm_state \<Rightarrow> stm_state option" where
  "unlink_watcher v q s =
     (let nq = next_queue_entry (wqs s q);
          pq = prev_queue_entry (wqs s q);
          s = (if nq \<noteq> END_STM_WATCH_QUEUE then upd_wq nq (\<lambda>w. w\<lparr>prev_queue_entry := pq\<rparr>) s else s)
      in if pq \<noteq> END_STM_WATCH_QUEUE
         then Some (free_stg_tvar_watch_queue q (upd_wq pq (\<lambda>w. w\<lparr>next_queue_entry := nq\<rparr>) s))
         else if first_watch_queue_entry (tvars s v) = q
         then Some (free_stg_tvar_watch_queue q (upd_tvar v (\<lambda>x. x\<lparr>first_watch_queue_entry := nq\<rparr>) s))
         else None)"

fun build_chunk :: "addr \<Rightarrow> TRecEntry list \<Rightarrow> stm_state \<Rightarrow> (TRecEntry list \<times> stm_state) option" where
  "build_chunk tso [] s = Some ([], s)"
| "build_chunk tso (e # es) s =
     (if current_value (tvars s (tvar e)) = expected_value e
      then let (q, s) = push_watcher (tvar e) tso s
           in do { (es, s) \<leftarrow> build_chunk tso es s; Some (e\<lparr>new_value := q\<rparr> # es, s) }
      else None)"

fun build_chunks :: "addr \<Rightarrow> TRecEntry list list \<Rightarrow> stm_state \<Rightarrow> (TRecEntry list list \<times> stm_state) option" where
  "build_chunks tso [] s = Some ([], s)"
| "build_chunks tso (c # cs) s = do {
     (c, s) \<leftarrow> build_chunk tso c s;
     (cs, s) \<leftarrow> build_chunks tso cs s;
     Some (c # cs, s)
   }"

definition build_watch_queue_entries_for_trec :: "addr \<Rightarrow> addr \<Rightarrow> stm_state \<Rightarrow> stm_state option" where
  "build_watch_queue_entries_for_trec tso t s =
     (if t \<noteq> NO_TREC \<and> enclosing_trec (trecs s t) = NO_TREC \<and> trec_state (trecs s t) = TREC_ACTIVE
      then do {
        (cs, s) \<leftarrow> build_chunks tso (chunks (trecs s t)) s;
        Some (upd_trec t (\<lambda>r. r\<lparr>chunks := cs\<rparr>) s)
      } else None)"

fun remove_watchers :: "TRecEntry list \<Rightarrow> stm_state \<Rightarrow> stm_state option" where
  "remove_watchers [] s = Some s"
| "remove_watchers (e # es) s = do {
     let saw = lock_tvar (tvar e) s;
     s \<leftarrow> unlink_watcher (tvar e) (new_value e) s;
     remove_watchers es (unlock_tvar (tvar e) saw False s)
   }"

definition remove_watch_queue_entries_for_trec :: "addr \<Rightarrow> stm_state \<Rightarrow> stm_state option" where
  "remove_watch_queue_entries_for_trec t s =
     (if t \<noteq> NO_TREC \<and> enclosing_trec (trecs s t) = NO_TREC \<and>
         (trec_state (trecs s t) = TREC_WAITING \<or> trec_state (trecs s t) = TREC_CONDEMNED)
      then remove_watchers (entries_of s t) s else None)"

section \<open>Entries\<close>

definition add_entry :: "TRecEntry \<Rightarrow> TRecEntry list list \<Rightarrow> TRecEntry list list" where
  "add_entry e cs =
     (case cs of
        [] \<Rightarrow> [[e]]
      | c # cs \<Rightarrow> if length c < TREC_CHUNK_NUM_ENTRIES then (c @ [e]) # cs else [e] # c # cs)"

text \<open>\<open>get_new_entry\<close>, with the fields of the new entry filled in.\<close>

definition get_new_entry :: "addr \<Rightarrow> TRecEntry \<Rightarrow> stm_state \<Rightarrow> stm_state" where
  "get_new_entry t e s = upd_trec t (\<lambda>r. r\<lparr>chunks := add_entry e (chunks r)\<rparr>) s"

text \<open>Changing the first entry for \<open>v\<close>.\<close>

fun upd_chunk :: "addr \<Rightarrow> (TRecEntry \<Rightarrow> TRecEntry) \<Rightarrow> TRecEntry list \<Rightarrow> TRecEntry list" where
  "upd_chunk v f [] = []"
| "upd_chunk v f (e # es) = (if tvar e = v then f e # es else e # upd_chunk v f es)"

fun upd_chunks :: "addr \<Rightarrow> (TRecEntry \<Rightarrow> TRecEntry) \<Rightarrow> TRecEntry list list \<Rightarrow> TRecEntry list list" where
  "upd_chunks v f [] = []"
| "upd_chunks v f (c # cs) =
     (if \<exists>e \<in> set c. tvar e = v then upd_chunk v f c # cs else c # upd_chunks v f cs)"

definition find_entry :: "addr \<Rightarrow> addr \<Rightarrow> stm_state \<Rightarrow> TRecEntry option" where
  "find_entry t v s = List.find (\<lambda>e. tvar e = v) (entries_of s t)"

definition merge_update_into :: "addr \<Rightarrow> addr \<Rightarrow> addr \<Rightarrow> addr \<Rightarrow> stm_state \<Rightarrow> stm_state" where
  "merge_update_into t v expct new s =
     (case find_entry t v s of
        Some e \<Rightarrow>
          let s = (if expected_value e \<noteq> expct
                   then upd_trec t (\<lambda>r. r\<lparr>trec_state := TREC_CONDEMNED\<rparr>) s else s)
          in upd_trec t (\<lambda>r. r\<lparr>chunks := upd_chunks v (\<lambda>e. e\<lparr>new_value := new\<rparr>) (chunks r)\<rparr>) s
      | None \<Rightarrow> get_new_entry t \<lparr>tvar = v, expected_value = expct, new_value = new\<rparr> s)"

definition merge_read_into :: "addr \<Rightarrow> addr \<Rightarrow> addr \<Rightarrow> stm_state \<Rightarrow> stm_state" where
  "merge_read_into t v expct s =
     (case find_entry t v s of
        Some e \<Rightarrow>
          if expected_value e \<noteq> expct
          then upd_trec t (\<lambda>r. r\<lparr>trec_state := TREC_CONDEMNED\<rparr>) s else s
      | None \<Rightarrow> get_new_entry t \<lparr>tvar = v, expected_value = expct, new_value = expct\<rparr> s)"

definition entry_is_update :: "TRecEntry \<Rightarrow> bool" where
  "entry_is_update e = (expected_value e \<noteq> new_value e)"

text \<open>\<open>validate_and_acquire_ownership\<close>.  Without a read phase all entries are acquired: an entry that
  is not an update, when not all are to be acquired, fails the assertion \<open>config_use_read_phase\<close>.\<close>

definition config_use_read_phase :: bool where "config_use_read_phase = False"

fun acquire_loop :: "bool \<Rightarrow> TRecEntry list \<Rightarrow> stm_state \<Rightarrow> bool option" where
  "acquire_loop acquire_all [] s = Some True"
| "acquire_loop acquire_all (e # es) s =
     (if acquire_all \<or> entry_is_update e
      then if \<not> cond_lock_tvar (tvar e) (expected_value e) s then Some False
           else acquire_loop acquire_all es s
      else if config_use_read_phase then acquire_loop acquire_all es s else None)"

definition validate_and_acquire_ownership :: "addr \<Rightarrow> bool \<Rightarrow> stm_state \<Rightarrow> bool option" where
  "validate_and_acquire_ownership t acquire_all s =
     (if trec_state (trecs s t) \<in> {TREC_ACTIVE, TREC_WAITING, TREC_CONDEMNED}
      then if trec_state (trecs s t) = TREC_CONDEMNED then Some False
           else acquire_loop acquire_all (entries_of s t) s
      else None)"


text \<open>\<open>check_read_only\<close> belongs to the configuration with fine-grained locks: here its assertion fails.\<close>

definition check_read_only :: "bool option" where
  "check_read_only = (if config_use_read_phase then Some True else None)"

section \<open>The interface of the module\<close>

definition stmPreGCHook :: "stm_state \<Rightarrow> stm_state" where
  "stmPreGCHook s = s\<lparr>free_tvar_watch_queues := END_STM_WATCH_QUEUE, free_trec_headers := NO_TREC\<rparr>"

definition stmStartTransaction :: "addr \<Rightarrow> stm_state \<Rightarrow> (addr \<times> stm_state) option" where
  "stmStartTransaction outer s = alloc_stg_trec_header outer s"

definition set_state :: "addr \<Rightarrow> TRecState \<Rightarrow> stm_state \<Rightarrow> stm_state" where
  "set_state t st = upd_trec t (\<lambda>r. r\<lparr>trec_state := st\<rparr>)"

definition stmAbortTransaction :: "addr \<Rightarrow> stm_state \<Rightarrow> stm_state option" where
  "stmAbortTransaction t s =
     (if t \<noteq> NO_TREC \<and> trec_state (trecs s t) \<in> {TREC_ACTIVE, TREC_WAITING, TREC_CONDEMNED}
      then do {
        let et = enclosing_trec (trecs s t);
        s \<leftarrow> (if et = NO_TREC
              then if trec_state (trecs s t) = TREC_WAITING
                   then remove_watch_queue_entries_for_trec t s else Some s
              else Some (fold (\<lambda>e. merge_read_into et (tvar e) (expected_value e)) (entries_of s t) s));
        Some (set_state t TREC_ABORTED s)
      } else None)"

definition stmFreeAbortedTRec :: "addr \<Rightarrow> stm_state \<Rightarrow> stm_state option" where
  "stmFreeAbortedTRec t s =
     (if t \<noteq> NO_TREC \<and> trec_state (trecs s t) \<in> {TREC_CONDEMNED, TREC_ABORTED}
      then Some (free_stg_trec_header t s) else None)"

definition stmCondemnTransaction :: "addr \<Rightarrow> stm_state \<Rightarrow> stm_state option" where
  "stmCondemnTransaction t s =
     (if t \<noteq> NO_TREC \<and> trec_state (trecs s t) \<in> {TREC_ACTIVE, TREC_WAITING, TREC_CONDEMNED}
      then do {
        s \<leftarrow> (if trec_state (trecs s t) = TREC_WAITING
              then remove_watch_queue_entries_for_trec t s else Some s);
        Some (set_state t TREC_CONDEMNED s)
      } else None)"

partial_function (option) validate_nest :: "addr \<Rightarrow> stm_state \<Rightarrow> bool option" where
  "validate_nest t s =
     (if t = NO_TREC then Some True
      else do {
        r \<leftarrow> validate_and_acquire_ownership t True s;
        rs \<leftarrow> validate_nest (enclosing_trec (trecs s t)) s;
        Some (r \<and> rs)
      })"

definition stmValidateNestOfTransactions :: "addr \<Rightarrow> stm_state \<Rightarrow> (bool \<times> stm_state) option" where
  "stmValidateNestOfTransactions t s =
     (if t \<noteq> NO_TREC \<and> trec_state (trecs s t) \<in> {TREC_ACTIVE, TREC_WAITING, TREC_CONDEMNED}
      then do {
        r \<leftarrow> validate_nest t s;
        Some (r, if \<not> r \<and> trec_state (trecs s t) \<noteq> TREC_WAITING then set_state t TREC_CONDEMNED s else s)
      } else None)"

text \<open>\<open>get_entry_for\<close> answers the entry and the record it is in; \<open>Some None\<close> is the answer \<open>NULL\<close>.\<close>

partial_function (option) get_entry_loop :: "addr \<Rightarrow> addr \<Rightarrow> stm_state \<Rightarrow> (TRecEntry \<times> addr) option option" where
  "get_entry_loop t v s =
     (case find_entry t v s of
        Some e \<Rightarrow> Some (Some (e, t))
      | None \<Rightarrow> if enclosing_trec (trecs s t) = NO_TREC then Some None
                else get_entry_loop (enclosing_trec (trecs s t)) v s)"

definition get_entry_for :: "addr \<Rightarrow> addr \<Rightarrow> stm_state \<Rightarrow> (TRecEntry \<times> addr) option option" where
  "get_entry_for t v s = (if t = NO_TREC then None else get_entry_loop t v s)"

section \<open>Invariants\<close>

partial_function (option) find_watcher :: "stm_state \<Rightarrow> addr \<Rightarrow> addr \<Rightarrow> addr option" where
  "find_watcher s c q =
     (if q = END_STM_WATCH_QUEUE then None
      else if wq_closure (wqs s q) = c then Some q
      else find_watcher s c (next_queue_entry (wqs s q)))"

fun disconnect_entries :: "addr \<Rightarrow> TRecEntry list \<Rightarrow> stm_state \<Rightarrow> stm_state option" where
  "disconnect_entries iv [] s = Some s"
| "disconnect_entries iv (e # es) s = do {
     q \<leftarrow> find_watcher s iv (first_watch_queue_entry (tvars s (tvar e)));
     s \<leftarrow> unlink_watcher (tvar e) q s;
     disconnect_entries iv es s
   }"

definition set_last_execution :: "addr \<Rightarrow> addr \<Rightarrow> stm_state \<Rightarrow> stm_state" where
  "set_last_execution iv t s = s\<lparr>invs := (invs s)(iv := (invs s iv)\<lparr>last_execution := t\<rparr>)\<rparr>"

definition disconnect_invariant :: "addr \<Rightarrow> stm_state \<Rightarrow> stm_state option" where
  "disconnect_invariant iv s = do {
     s \<leftarrow> disconnect_entries iv (entries_of s (last_execution (invs s iv))) s;
     Some (set_last_execution iv NO_TREC s)
   }"

text \<open>The value that the variable of \<open>e\<close> will hold after the commit of the record \<open>outer\<close>.\<close>

definition entry_after :: "addr \<Rightarrow> TRecEntry \<Rightarrow> stm_state \<Rightarrow> TRecEntry option" where
  "entry_after outer e s = do {
     r \<leftarrow> get_entry_for outer (tvar e) s;
     Some (case r of
       None \<Rightarrow> e
     | Some (entry, _) \<Rightarrow> e\<lparr>expected_value := new_value entry, new_value := new_value entry\<rparr>)
   }"

fun connect_chunk :: "addr \<Rightarrow> addr \<Rightarrow> TRecEntry list \<Rightarrow> stm_state \<Rightarrow> (TRecEntry list \<times> stm_state) option" where
  "connect_chunk iv outer [] s = Some ([], s)"
| "connect_chunk iv outer (e # es) s = do {
     e' \<leftarrow> entry_after outer e s;
     let (q, s) = push_watcher (tvar e) iv s;
     (es, s) \<leftarrow> connect_chunk iv outer es s;
     Some (e' # es, s)
   }"

fun connect_chunks ::
  "addr \<Rightarrow> addr \<Rightarrow> TRecEntry list list \<Rightarrow> stm_state \<Rightarrow> (TRecEntry list list \<times> stm_state) option" where
  "connect_chunks iv outer [] s = Some ([], s)"
| "connect_chunks iv outer (c # cs) s = do {
     (c, s) \<leftarrow> connect_chunk iv outer c s;
     (cs, s) \<leftarrow> connect_chunks iv outer cs s;
     Some (c # cs, s)
   }"

definition connect_invariant_to_trec :: "addr \<Rightarrow> addr \<Rightarrow> stm_state \<Rightarrow> stm_state option" where
  "connect_invariant_to_trec iv t s =
     (if last_execution (invs s iv) = NO_TREC
      then do {
        (cs, s) \<leftarrow> connect_chunks iv (enclosing_trec (trecs s t)) (chunks (trecs s t)) s;
        Some (set_last_execution iv t (upd_trec t (\<lambda>r. r\<lparr>chunks := cs\<rparr>) s))
      } else None)"

text \<open>Putting a check of the invariant \<open>iv\<close> before the checks of the record \<open>t\<close>.\<close>

definition push_check :: "addr \<Rightarrow> addr \<Rightarrow> stm_state \<Rightarrow> stm_state" where
  "push_check t iv s =
     (let (q, s) = alloc_stg_invariant_check_queue iv s;
          s = s\<lparr>icqs := (icqs s)(q := (icqs s q)\<lparr>icq_next := invariants_to_check (trecs s t)\<rparr>)\<rparr>
      in upd_trec t (\<lambda>r. r\<lparr>invariants_to_check := q\<rparr>) s)"

definition stmAddInvariantToCheck :: "addr \<Rightarrow> addr \<Rightarrow> stm_state \<Rightarrow> stm_state option" where
  "stmAddInvariantToCheck t code s =
     (if t \<noteq> NO_TREC \<and> trec_state (trecs s t) \<in> {TREC_ACTIVE, TREC_CONDEMNED}
      then let (iv, s) = allocate s;
               s = s\<lparr>invs := (invs s)(iv := \<lparr>inv_code = code, last_execution = NO_TREC\<rparr>),
                     closure_kind := (closure_kind s)(iv := KInvariant)\<rparr>
           in Some (push_check t iv s)
      else None)"

partial_function (option) check_queued :: "stm_state \<Rightarrow> addr \<Rightarrow> addr \<Rightarrow> bool option" where
  "check_queued s iv q =
     (if q = END_INVARIANT_CHECK_QUEUE then Some False
      else if icq_invariant (icqs s q) = iv then Some True
      else check_queued s iv (icq_next (icqs s q)))"

definition touch_watcher :: "addr \<Rightarrow> addr \<Rightarrow> stm_state \<Rightarrow> stm_state option" where
  "touch_watcher t q s =
     (if watcher_is_invariant s q
      then do {
        found \<leftarrow> check_queued s (wq_closure (wqs s q)) (invariants_to_check (trecs s t));
        Some (if found then s else push_check t (wq_closure (wqs s q)) s)
      } else Some s)"

partial_function (option) touch_watchers :: "addr \<Rightarrow> addr \<Rightarrow> stm_state \<Rightarrow> stm_state option" where
  "touch_watchers t q s =
     (if q = END_STM_WATCH_QUEUE then Some s
      else do {
        s \<leftarrow> touch_watcher t q s;
        touch_watchers t (next_queue_entry (wqs s q)) s
      })"

fun touch_invariants :: "addr \<Rightarrow> TRecEntry list \<Rightarrow> stm_state \<Rightarrow> stm_state option" where
  "touch_invariants t [] s = Some s"
| "touch_invariants t (e # es) s = do {
     s \<leftarrow> (if entry_is_update e
           then touch_watchers t (first_watch_queue_entry (tvars s (tvar e))) s else Some s);
     touch_invariants t es s
   }"

definition stmGetInvariantsToCheck :: "addr \<Rightarrow> stm_state \<Rightarrow> (addr \<times> stm_state) option" where
  "stmGetInvariantsToCheck t s =
     (if t \<noteq> NO_TREC \<and> trec_state (trecs s t) \<in> {TREC_ACTIVE, TREC_WAITING, TREC_CONDEMNED} \<and>
         enclosing_trec (trecs s t) = NO_TREC
      then do {
        s \<leftarrow> touch_invariants t (entries_of s t) s;
        Some (invariants_to_check (trecs s t), s)
      } else None)"

section \<open>Commit\<close>

text \<open>Locking an invariant always succeeds here; the read set of its last execution is added.\<close>

definition merge_execution :: "addr \<Rightarrow> addr \<Rightarrow> stm_state \<Rightarrow> stm_state" where
  "merge_execution t old s =
     (if old = NO_TREC then s
      else fold (\<lambda>e. merge_read_into t (tvar e) (expected_value e)) (entries_of s old) s)"

partial_function (option) lock_invariants :: "addr \<Rightarrow> addr \<Rightarrow> stm_state \<Rightarrow> stm_state option" where
  "lock_invariants t q s =
     (if q = END_INVARIANT_CHECK_QUEUE then Some s
      else lock_invariants t (icq_next (icqs s q))
             (merge_execution t (last_execution (invs s (icq_invariant (icqs s q)))) s))"

definition hook_invariant :: "addr \<Rightarrow> stm_state \<Rightarrow> stm_state option" where
  "hook_invariant q s = do {
     let iv = icq_invariant (icqs s q);
     s \<leftarrow> (if last_execution (invs s iv) \<noteq> NO_TREC then disconnect_invariant iv s else Some s);
     connect_invariant_to_trec iv (my_execution (icqs s q)) s
   }"

partial_function (option) hook_invariants :: "addr \<Rightarrow> stm_state \<Rightarrow> stm_state option" where
  "hook_invariants q s =
     (if q = END_INVARIANT_CHECK_QUEUE then Some s
      else do {
        s \<leftarrow> hook_invariant q s;
        hook_invariants (icq_next (icqs s q)) s
      })"

fun write_back :: "bool \<Rightarrow> TRecEntry list \<Rightarrow> stm_state \<Rightarrow> stm_state option" where
  "write_back use_read_phase [] s = Some s"
| "write_back use_read_phase (e # es) s = do {
     s \<leftarrow> (if \<not> use_read_phase \<or> new_value e \<noteq> expected_value e
           then do {
             s \<leftarrow> unpark_waiters_on (tvar e) s;
             Some (unlock_tvar (tvar e) (new_value e) True s)
           } else Some s);
     write_back use_read_phase es s
   }"

definition stmCommitTransaction :: "addr \<Rightarrow> stm_state \<Rightarrow> (bool \<times> stm_state) option" where
  "stmCommitTransaction t s =
     (if t \<noteq> NO_TREC \<and> enclosing_trec (trecs s t) = NO_TREC \<and>
         trec_state (trecs s t) \<in> {TREC_ACTIVE, TREC_CONDEMNED}
      then do {
        let touched_invariants = (invariants_to_check (trecs s t) \<noteq> END_INVARIANT_CHECK_QUEUE);
        s \<leftarrow> (if touched_invariants then lock_invariants t (invariants_to_check (trecs s t)) s else Some s);
        let use_read_phase = (config_use_read_phase \<and> \<not> touched_invariants);
        result \<leftarrow> validate_and_acquire_ownership t (\<not> use_read_phase) s;
        result \<leftarrow> (if result \<and> use_read_phase then check_read_only else Some result);
        s \<leftarrow> (if result
              then do {
                s \<leftarrow> (if touched_invariants then hook_invariants (invariants_to_check (trecs s t)) s else Some s);
                write_back use_read_phase (entries_of s t) s
              } else Some s);
        Some (result, free_stg_trec_header t s)
      } else None)"

definition stmCommitNestedTransaction :: "addr \<Rightarrow> stm_state \<Rightarrow> (bool \<times> stm_state) option" where
  "stmCommitNestedTransaction t s =
     (if t \<noteq> NO_TREC \<and> enclosing_trec (trecs s t) \<noteq> NO_TREC \<and>
         trec_state (trecs s t) \<in> {TREC_ACTIVE, TREC_CONDEMNED}
      then do {
        let et = enclosing_trec (trecs s t);
        result \<leftarrow> validate_and_acquire_ownership t (\<not> config_use_read_phase) s;
        result \<leftarrow> (if result \<and> config_use_read_phase then check_read_only else Some result);
        let s = (if result
                 then fold (\<lambda>e s. merge_update_into et (tvar e) (expected_value e) (new_value e)
                        (if entry_is_update e then unlock_tvar (tvar e) (expected_value e) False s else s))
                        (entries_of s t) s
                 else s);
        Some (result, free_stg_trec_header t s)
      } else None)"

section \<open>Waiting\<close>

definition stmWait :: "addr \<Rightarrow> addr \<Rightarrow> stm_state \<Rightarrow> (bool \<times> stm_state) option" where
  "stmWait tso t s =
     (if t \<noteq> NO_TREC \<and> enclosing_trec (trecs s t) = NO_TREC \<and>
         trec_state (trecs s t) \<in> {TREC_ACTIVE, TREC_CONDEMNED}
      then do {
        result \<leftarrow> validate_and_acquire_ownership t True s;
        if result
        then do {
          s \<leftarrow> build_watch_queue_entries_for_trec tso t s;
          s \<leftarrow> park_tso tso s;
          Some (True, set_state t TREC_WAITING s)
        } else Some (False, free_stg_trec_header t s)
      } else None)"

text \<open>\<open>stmReWait\<close>; the record is the field \<open>trec\<close> of the thread.\<close>

definition stmReWait :: "addr \<Rightarrow> stm_state \<Rightarrow> (bool \<times> stm_state) option" where
  "stmReWait tso s =
     (let t = tso_trec s tso
      in if t \<noteq> NO_TREC \<and> enclosing_trec (trecs s t) = NO_TREC \<and>
            trec_state (trecs s t) \<in> {TREC_WAITING, TREC_CONDEMNED}
         then do {
           result \<leftarrow> validate_and_acquire_ownership t True s;
           if result
           then do { s \<leftarrow> park_tso tso s; Some (True, s) }
           else do {
             s \<leftarrow> (if trec_state (trecs s t) \<noteq> TREC_CONDEMNED
                   then remove_watch_queue_entries_for_trec t s else Some s);
             Some (False, free_stg_trec_header t s)
           }
         } else None)"

section \<open>Reading and writing\<close>

definition read_current_value :: "addr \<Rightarrow> stm_state \<Rightarrow> addr" where
  "read_current_value v s = current_value (tvars s v)"

definition stmReadTVar :: "addr \<Rightarrow> addr \<Rightarrow> stm_state \<Rightarrow> (addr \<times> stm_state) option" where
  "stmReadTVar t v s =
     (if t \<noteq> NO_TREC \<and> trec_state (trecs s t) \<in> {TREC_ACTIVE, TREC_CONDEMNED}
      then do {
        entry \<leftarrow> get_entry_for t v s;
        case entry of
          Some (e, entry_in) \<Rightarrow>
            if entry_in = t then Some (new_value e, s)
            else Some (new_value e, get_new_entry t
                   \<lparr>tvar = v, expected_value = expected_value e, new_value = new_value e\<rparr> s)
        | None \<Rightarrow>
            let c = read_current_value v s
            in Some (c, get_new_entry t \<lparr>tvar = v, expected_value = c, new_value = c\<rparr> s)
      } else None)"

definition stmWriteTVar :: "addr \<Rightarrow> addr \<Rightarrow> addr \<Rightarrow> stm_state \<Rightarrow> stm_state option" where
  "stmWriteTVar t v new s =
     (if t \<noteq> NO_TREC \<and> trec_state (trecs s t) \<in> {TREC_ACTIVE, TREC_CONDEMNED}
      then do {
        entry \<leftarrow> get_entry_for t v s;
        case entry of
          Some (e, entry_in) \<Rightarrow>
            if entry_in = t
            then Some (upd_trec t (\<lambda>r. r\<lparr>chunks := upd_chunks v (\<lambda>e. e\<lparr>new_value := new\<rparr>) (chunks r)\<rparr>) s)
            else Some (get_new_entry t
                   \<lparr>tvar = v, expected_value = expected_value e, new_value = new\<rparr> s)
        | None \<Rightarrow>
            Some (get_new_entry t \<lparr>tvar = v, expected_value = read_current_value v s, new_value = new\<rparr> s)
      } else None)"

definition stmNewTVar :: "addr \<Rightarrow> stm_state \<Rightarrow> addr \<times> stm_state" where
  "stmNewTVar new s =
     (let (r, s) = allocate s
      in (r, upd_tvar r (\<lambda>_. \<lparr>current_value = new, first_watch_queue_entry = END_STM_WATCH_QUEUE\<rparr>) s))"

end
