(* ===== verification/STMCommit.thy ===== *)
theory STMCommit
  imports STM
begin

text \<open>
  What transactions promise: a commit is atomic, and a transaction whose commit succeeds has read
  and written as if it had run alone at the moment of its commit, whatever other threads did to
  the variables in between.
\<close>

section \<open>Logs\<close>

abbreviation "values" :: "stm_state \<Rightarrow> addr \<Rightarrow> addr" where
  "values s v \<equiv> current_value (tvars s v)"

definition lookup :: "TRecEntry list \<Rightarrow> addr \<Rightarrow> TRecEntry option" where
  "lookup es v = List.find (\<lambda>e. tvar e = v) es"

lemma lookup_Nil [simp]: "lookup [] v = None"
  by (simp add: lookup_def)

lemma lookup_Cons [simp]: "lookup (e # es) v = (if tvar e = v then Some e else lookup es v)"
  by (simp add: lookup_def)

lemma lookup_append: "lookup (xs @ ys) v = (case lookup xs v of None \<Rightarrow> lookup ys v | Some e \<Rightarrow> Some e)"
  by (induction xs) auto

lemma lookup_None: "lookup es v = None \<longleftrightarrow> v \<notin> tvar ` set es"
  by (induction es) auto

lemma lookup_Some: "lookup es v = Some e \<Longrightarrow> e \<in> set es \<and> tvar e = v"
  by (induction es) (auto split: if_splits)

lemma lookup_mem: "distinct (List.map tvar es) \<Longrightarrow> e \<in> set es \<Longrightarrow> lookup es (tvar e) = Some e"
  by (induction es) (auto simp: rev_image_eqI)

lemma find_entry_lookup: "find_entry t v s = lookup (entries_of s t) v"
  by (simp add: find_entry_def lookup_def)

text \<open>The invariant of the log of a record: at most one entry for a variable, and every chunk but
  the current one full.\<close>

definition log_ok :: "TRecEntry list list \<Rightarrow> bool" where
  "log_ok cs = (distinct (List.map tvar (concat cs)) \<and> cs \<noteq> [] \<and>
     length (hd cs) \<le> TREC_CHUNK_NUM_ENTRIES \<and>
     (\<forall>c \<in> set (tl cs). length c = TREC_CHUNK_NUM_ENTRIES))"

lemma lookup_add_entry:
  assumes "lookup (concat cs) (tvar e) = None"
  shows "lookup (concat (add_entry e cs)) v = (if v = tvar e then Some e else lookup (concat cs) v)"
  using assms by (auto simp: add_entry_def lookup_append split: list.splits option.splits)

lemma log_ok_add_entry:
  assumes "log_ok cs" and "lookup (concat cs) (tvar e) = None"
  shows "log_ok (add_entry e cs)"
  using assms(1) assms(2) [unfolded lookup_None]
  by (cases cs) (auto simp: log_ok_def add_entry_def TREC_CHUNK_NUM_ENTRIES_def)

lemma tvars_upd_chunk [simp]:
  "(\<And>e. tvar (f e) = tvar e) \<Longrightarrow> List.map tvar (upd_chunk v f c) = List.map tvar c"
  by (induction c) auto

lemma length_upd_chunk [simp]: "length (upd_chunk v f c) = length c"
  by (induction c) auto

lemma lengths_upd_chunks: "List.map length (upd_chunks v f cs) = List.map length cs"
  by (induction cs) auto

lemma tvars_upd_chunks:
  "(\<And>e. tvar (f e) = tvar e) \<Longrightarrow> List.map tvar (concat (upd_chunks v f cs)) = List.map tvar (concat cs)"
  by (induction cs) auto

lemma lookup_upd_chunk:
  "(\<And>e. tvar (f e) = tvar e) \<Longrightarrow>
   lookup (upd_chunk v f c) w = (if w = v then map_option f (lookup c v) else lookup c w)"
  by (induction c) auto

lemma lookup_upd_chunks:
  assumes f: "\<And>e. tvar (f e) = tvar e"
  shows "lookup (concat (upd_chunks v f cs)) w =
    (if w = v then map_option f (lookup (concat cs) v) else lookup (concat cs) w)"
proof (induction cs)
  case (Cons c cs)
  show ?case
  proof (cases "lookup c v")
    case None
    then have "\<not> (\<exists>e \<in> set c. tvar e = v)"
      by (auto simp: lookup_None)
    then show ?thesis
      using Cons None by (cases "w = v") (simp_all add: lookup_append split: option.split)
  next
    case (Some e)
    then have "\<exists>e \<in> set c. tvar e = v"
      using lookup_Some by blast
    then show ?thesis
      using Some by (simp add: lookup_append lookup_upd_chunk [OF f])
  qed
qed simp

lemma log_ok_upd_chunks:
  assumes f: "\<And>e. tvar (f e) = tvar e" and ok: "log_ok cs"
  shows "log_ok (upd_chunks v f cs)"
proof -
  have l: "List.map length (upd_chunks v f cs) = List.map length cs"
    by (rule lengths_upd_chunks)
  have "length (hd (upd_chunks v f cs)) = length (hd cs)" "upd_chunks v f cs \<noteq> []"
    using l ok by (cases cs; cases "upd_chunks v f cs"; auto simp: log_ok_def)+
  moreover have "List.map length (tl (upd_chunks v f cs)) = List.map length (tl cs)"
    using l by (metis map_tl)
  then have "length ` set (tl (upd_chunks v f cs)) = length ` set (tl cs)"
    by (metis list.set_map)
  then have "\<forall>c \<in> set (tl (upd_chunks v f cs)). length c = TREC_CHUNK_NUM_ENTRIES"
    using ok unfolding log_ok_def by (metis (no_types, lifting) image_iff)
  ultimately show ?thesis
    using ok tvars_upd_chunks [of f v cs, OF f] unfolding log_ok_def by simp
qed

section \<open>What the loops leave alone\<close>

lemma upd_simps [simp]:
  "tvars (upd_trec t f s) = tvars s" "tvars (upd_wq q g s) = tvars s"
  "trecs (upd_tvar v h s) = trecs s" "trecs (upd_wq q g s) = trecs s"
  "trecs (upd_trec t f s) = (trecs s)(t := f (trecs s t))"
  "tvars (upd_tvar v h s) = (tvars s)(v := h (tvars s v))"
  "icqs (upd_trec t f s) = icqs s" "invs (upd_trec t f s) = invs s"
  "wqs (upd_trec t f s) = wqs s" "wqs (upd_tvar v h s) = wqs s"
  "wqs (upd_wq q g s) = (wqs s)(q := g (wqs s q))"
  "why_blocked (upd_trec t f s) = why_blocked s" "why_blocked (upd_tvar v h s) = why_blocked s"
  "why_blocked (upd_wq q g s) = why_blocked s"
  "run_queue (upd_trec t f s) = run_queue s" "run_queue (upd_tvar v h s) = run_queue s"
  "run_queue (upd_wq q g s) = run_queue s"
  "closure_kind (upd_trec t f s) = closure_kind s" "closure_kind (upd_tvar v h s) = closure_kind s"
  "closure_kind (upd_wq q g s) = closure_kind s"
  "free_tvar_watch_queues (upd_trec t f s) = free_tvar_watch_queues s"
  "free_tvar_watch_queues (upd_tvar v h s) = free_tvar_watch_queues s"
  "free_tvar_watch_queues (upd_wq q g s) = free_tvar_watch_queues s"
  "heap_next (upd_trec t f s) = heap_next s" "heap_next (upd_tvar v h s) = heap_next s"
  "heap_next (upd_wq q g s) = heap_next s"
  by (simp_all add: upd_trec_def upd_wq_def upd_tvar_def)

lemma unpark_tso_frame [simp]:
  "tvars (unpark_tso c s) = tvars s" "trecs (unpark_tso c s) = trecs s" "wqs (unpark_tso c s) = wqs s"
  "closure_kind (unpark_tso c s) = closure_kind s"
  by (simp_all add: unpark_tso_def)

lemma unpark_back_frame:
  "unpark_back q s = Some s' \<Longrightarrow>
   tvars s' = tvars s \<and> trecs s' = trecs s \<and> wqs s' = wqs s \<and> closure_kind s' = closure_kind s"
proof (induction rule: unpark_back.raw_induct [rotated, consumes 1, case_names step])
  case (step f q s s')
  then show ?case by (fastforce split: if_splits)
qed

lemma unpark_waiters_on_frame:
  "unpark_waiters_on v s = Some s' \<Longrightarrow>
   tvars s' = tvars s \<and> trecs s' = trecs s \<and> wqs s' = wqs s \<and> closure_kind s' = closure_kind s"
  by (auto simp: unpark_waiters_on_def Let_def bind_eq_Some_conv dest: unpark_back_frame)

lemma unlock_tvar_frame [simp]:
  "trecs (unlock_tvar v c b s) = trecs s" "wqs (unlock_tvar v c b s) = wqs s"
  "closure_kind (unlock_tvar v c b s) = closure_kind s"
  "values (unlock_tvar v c b s) = (if b then (values s)(v := c) else values s)"
  by (auto simp: unlock_tvar_def fun_eq_iff)

definition apply_log :: "TRecEntry list \<Rightarrow> (addr \<Rightarrow> addr) \<Rightarrow> addr \<Rightarrow> addr" where
  "apply_log es h v = (case lookup es v of None \<Rightarrow> h v | Some e \<Rightarrow> new_value e)"

lemma apply_log_Cons:
  "tvar e \<notin> tvar ` set es \<Longrightarrow> apply_log (e # es) h = apply_log es (h(tvar e := new_value e))"
  by (auto simp: apply_log_def fun_eq_iff lookup_None [symmetric] split: option.split)

lemma write_back_values:
  "write_back False es s = Some s' \<Longrightarrow> distinct (List.map tvar es) \<Longrightarrow>
   values s' = apply_log es (values s) \<and> trecs s' = trecs s"
proof (induction es arbitrary: s)
  case Nil
  then show ?case by (simp add: apply_log_def)
next
  case (Cons e es)
  obtain s1 where s1: "unpark_waiters_on (tvar e) s = Some s1"
    and r: "write_back False es (unlock_tvar (tvar e) (new_value e) True s1) = Some s'"
    using Cons.prems(1) by (auto simp: bind_eq_Some_conv)
  note f = unpark_waiters_on_frame [OF s1]
  show ?case
    using Cons.IH [OF r] Cons.prems(2) f by (simp add: apply_log_Cons)
qed

section \<open>The commit\<close>

lemma get_new_entry_frame [simp]:
  "tvars (get_new_entry t e s) = tvars s" "icqs (get_new_entry t e s) = icqs s"
  "invs (get_new_entry t e s) = invs s"
  "trecs (get_new_entry t e s) = (trecs s)(t := (trecs s t)\<lparr>chunks := add_entry e (chunks (trecs s t))\<rparr>)"
  by (simp_all add: get_new_entry_def)

text \<open>What adding reads to a record does: the log only grows by reads of variables it does not have,
  unless the record is condemned.\<close>

definition reads_added :: "StgTRecHeader \<Rightarrow> StgTRecHeader \<Rightarrow> bool" where
  "reads_added r r' = (enclosing_trec r' = enclosing_trec r \<and>
     invariants_to_check r' = invariants_to_check r \<and>
     (trec_state r' = trec_state r \<or> trec_state r' = TREC_CONDEMNED) \<and>
     (log_ok (chunks r) \<longrightarrow> log_ok (chunks r')) \<and>
     (\<forall>v. lookup (concat (chunks r')) v = lookup (concat (chunks r)) v \<or>
        lookup (concat (chunks r)) v = None \<and>
        (\<exists>x. lookup (concat (chunks r')) v = Some \<lparr>tvar = v, expected_value = x, new_value = x\<rparr>)))"

lemma reads_added_refl: "reads_added r r"
  by (simp add: reads_added_def)

lemma reads_added_trans: "reads_added r r' \<Longrightarrow> reads_added r' r'' \<Longrightarrow> reads_added r r''"
  unfolding reads_added_def by (intro conjI allI; metis)

lemma merge_read_into_added:
  "tvars (merge_read_into t v x s) = tvars s \<and> icqs (merge_read_into t v x s) = icqs s \<and>
   invs (merge_read_into t v x s) = invs s \<and> reads_added (trecs s t) (trecs (merge_read_into t v x s) t)"
proof (cases "find_entry t v s")
  case None
  define e where "e = \<lparr>tvar = v, expected_value = x, new_value = x\<rparr>"
  have l: "lookup (concat (chunks (trecs s t))) (tvar e) = None"
    using None by (simp add: find_entry_lookup entries_of_def e_def)
  have m: "merge_read_into t v x s = get_new_entry t e s"
    using None by (simp add: merge_read_into_def e_def)
  show ?thesis
    using l log_ok_add_entry [OF _ l] lookup_add_entry [OF l]
    by (auto simp: m reads_added_def e_def)
next
  case (Some e)
  then show ?thesis by (simp add: merge_read_into_def reads_added_def)
qed

lemma merge_reads_added:
  "tvars (fold (\<lambda>e. merge_read_into t (tvar e) (expected_value e)) es s) = tvars s \<and>
   icqs (fold (\<lambda>e. merge_read_into t (tvar e) (expected_value e)) es s) = icqs s \<and>
   invs (fold (\<lambda>e. merge_read_into t (tvar e) (expected_value e)) es s) = invs s \<and>
   reads_added (trecs s t) (trecs (fold (\<lambda>e. merge_read_into t (tvar e) (expected_value e)) es s) t)"
proof (induction es arbitrary: s)
  case (Cons e es)
  note m = merge_read_into_added [of t "tvar e" "expected_value e" s]
  show ?case
    using Cons [of "merge_read_into t (tvar e) (expected_value e) s"] m
    by (auto intro: reads_added_trans)
qed (simp add: reads_added_refl)

lemma lock_invariants_added:
  "lock_invariants t q s = Some s' \<Longrightarrow> tvars s' = tvars s \<and> reads_added (trecs s t) (trecs s' t)"
proof (induction rule: lock_invariants.raw_induct [rotated, consumes 1, case_names step])
  case (step f t q s s')
  define s1 where "s1 = merge_execution t (last_execution (invs s (icq_invariant (icqs s q)))) s"
  have "tvars s1 = tvars s \<and> reads_added (trecs s t) (trecs s1 t)"
    by (simp add: s1_def merge_execution_def reads_added_refl merge_reads_added)
  then show ?case
    using step s1_def by (auto simp: reads_added_refl split: if_splits intro: reads_added_trans)
qed

text \<open>Unhooking and hooking invariants changes watch queues only, and the log of no top-level
  record.\<close>

definition hook_frame :: "stm_state \<Rightarrow> stm_state \<Rightarrow> bool" where
  "hook_frame s s' = (values s' = values s \<and>
     (\<forall>t. enclosing_trec (trecs s t) = NO_TREC \<longrightarrow> trecs s' t = trecs s t))"

lemma hook_frame_refl [simp]: "hook_frame s s"
  by (simp add: hook_frame_def)

lemma hook_frame_trans: "hook_frame s s' \<Longrightarrow> hook_frame s' s'' \<Longrightarrow> hook_frame s s''"
  by (simp add: hook_frame_def)

lemma alloc_stg_tvar_watch_queue_frame:
  "alloc_stg_tvar_watch_queue c s = (q, s') \<Longrightarrow> tvars s' = tvars s \<and> trecs s' = trecs s"
  by (auto simp: alloc_stg_tvar_watch_queue_def new_stg_tvar_watch_queue_def allocate_def Let_def
      split: if_splits)

lemma push_watcher_frame:
  "push_watcher v c s = (q, s') \<Longrightarrow> values s' = values s \<and> trecs s' = trecs s"
  by (auto simp: push_watcher_def Let_def fun_eq_iff split: prod.splits if_splits
      dest!: alloc_stg_tvar_watch_queue_frame)

lemma unlink_watcher_frame:
  "unlink_watcher v q s = Some s' \<Longrightarrow> values s' = values s \<and> trecs s' = trecs s"
  by (auto simp: unlink_watcher_def free_stg_tvar_watch_queue_def Let_def fun_eq_iff split: if_splits)

lemma disconnect_entries_frame:
  "disconnect_entries iv es s = Some s' \<Longrightarrow> values s' = values s \<and> trecs s' = trecs s"
proof (induction es arbitrary: s)
  case (Cons e es)
  then show ?case
    by (auto simp: bind_eq_Some_conv) (metis unlink_watcher_frame)+
qed simp

lemma set_last_execution_frame [simp]:
  "tvars (set_last_execution iv t s) = tvars s" "trecs (set_last_execution iv t s) = trecs s"
  "icqs (set_last_execution iv t s) = icqs s"
  by (simp_all add: set_last_execution_def)

lemma disconnect_invariant_frame: "disconnect_invariant iv s = Some s' \<Longrightarrow> hook_frame s s'"
  by (auto simp: disconnect_invariant_def bind_eq_Some_conv hook_frame_def dest: disconnect_entries_frame)

lemma connect_chunk_frame:
  "connect_chunk iv outer es s = Some (es', s') \<Longrightarrow>
   values s' = values s \<and> trecs s' = trecs s \<and> (outer = NO_TREC \<longrightarrow> es' = es)"
proof (induction es arbitrary: s es')
  case (Cons e es)
  obtain q s1 where p: "push_watcher (tvar e) iv s = (q, s1)"
    by (meson surj_pair)
  obtain e' es1 where r: "entry_after outer e s = Some e'"
    "connect_chunk iv outer es s1 = Some (es1, s')" "es' = e' # es1"
    using Cons.prems p by (auto simp: bind_eq_Some_conv)
  show ?case
    using Cons.IH [OF r(2)] push_watcher_frame [OF p] r(1)
    by (auto simp: r(3) entry_after_def get_entry_for_def)
qed simp

lemma connect_chunks_frame:
  "connect_chunks iv outer cs s = Some (cs', s') \<Longrightarrow>
   values s' = values s \<and> trecs s' = trecs s \<and> (outer = NO_TREC \<longrightarrow> cs' = cs)"
proof (induction cs arbitrary: s cs')
  case (Cons c cs)
  obtain c1 s1 cs1 where r: "connect_chunk iv outer c s = Some (c1, s1)"
    "connect_chunks iv outer cs s1 = Some (cs1, s')" "cs' = c1 # cs1"
    using Cons.prems by (auto simp: bind_eq_Some_conv)
  show ?case
    using Cons.IH [OF r(2)] connect_chunk_frame [OF r(1)] by (auto simp: r(3))
qed simp

lemma connect_invariant_frame: "connect_invariant_to_trec iv t s = Some s' \<Longrightarrow> hook_frame s s'"
  by (auto simp: connect_invariant_to_trec_def bind_eq_Some_conv hook_frame_def split: if_splits
      dest!: connect_chunks_frame)

lemma hook_invariant_frame:
  assumes "hook_invariant q s = Some s'"
  shows "hook_frame s s'"
proof -
  let ?iv = "icq_invariant (icqs s q)"
  obtain s1 where "hook_frame s s1" "hook_frame s1 s'"
    using assms by (auto simp: hook_invariant_def Let_def bind_eq_Some_conv split: if_splits
        dest!: disconnect_invariant_frame connect_invariant_frame)
  then show ?thesis by (rule hook_frame_trans)
qed

lemma hook_invariants_frame: "hook_invariants q s = Some s' \<Longrightarrow> hook_frame s s'"
proof (induction rule: hook_invariants.raw_induct [rotated, consumes 1, case_names step])
  case (step f q s s')
  show ?case
  proof (cases "q = 0")
    case False
    then obtain s1 where "hook_invariant q s = Some s1" "f (icq_next (icqs s1 q)) s1 = Some s'"
      using step(2) by (auto simp: bind_eq_Some_conv)
    then show ?thesis
      using step(1) hook_invariant_frame hook_frame_trans by blast
  qed (use step(2) in simp)
qed

lemma acquire_loop_all:
  "acquire_loop True es s = Some (\<forall>e \<in> set es. values s (tvar e) = expected_value e)"
  by (induction es) (auto simp: cond_lock_tvar_def)

lemma validate_all:
  "validate_and_acquire_ownership t True s =
     (if trec_state (trecs s t) \<in> {TREC_ACTIVE, TREC_WAITING, TREC_CONDEMNED}
      then Some (trec_state (trecs s t) \<noteq> TREC_CONDEMNED \<and>
             (\<forall>e \<in> set (entries_of s t). values s (tvar e) = expected_value e))
      else None)"
  by (auto simp: validate_and_acquire_ownership_def acquire_loop_all)

lemma free_stg_trec_header_frame [simp]: "tvars (free_stg_trec_header t s) = tvars s"
  by (simp add: free_stg_trec_header_def)

text \<open>A log whose reads were added and are all current writes what the log wrote.\<close>

lemma apply_log_added:
  assumes "reads_added r r'" and "\<forall>e \<in> set (concat (chunks r')). h (tvar e) = expected_value e"
  shows "apply_log (concat (chunks r')) h = apply_log (concat (chunks r)) h"
proof
  fix v
  have "lookup (concat (chunks r')) v = lookup (concat (chunks r)) v \<or>
        lookup (concat (chunks r)) v = None \<and>
        (\<exists>x. lookup (concat (chunks r')) v = Some \<lparr>tvar = v, expected_value = x, new_value = x\<rparr>)"
    using assms(1) unfolding reads_added_def by blast
  then show "apply_log (concat (chunks r')) h v = apply_log (concat (chunks r)) h v"
  proof (elim disjE conjE exE)
    fix x
    assume n: "lookup (concat (chunks r)) v = None"
      and l: "lookup (concat (chunks r')) v = Some \<lparr>tvar = v, expected_value = x, new_value = x\<rparr>"
    then have "h v = x"
      using bspec [OF assms(2) conjunct1 [OF lookup_Some [OF l]]] by simp
    then show ?thesis by (simp add: apply_log_def n l)
  qed (simp add: apply_log_def)
qed

lemma lookup_added:
  "reads_added r r' \<Longrightarrow> lookup (concat (chunks r)) v = Some e \<Longrightarrow> lookup (concat (chunks r')) v = Some e"
  unfolding reads_added_def by (metis option.distinct(1))

lemma entries_current:
  assumes "log_ok (chunks r)" and "reads_added r r'"
    and "\<forall>e \<in> set (concat (chunks r')). h (tvar e) = expected_value e"
    and e: "e \<in> set (concat (chunks r))"
  shows "h (tvar e) = expected_value e"
proof -
  have "lookup (concat (chunks r)) (tvar e) = Some e"
    using assms(1) e by (intro lookup_mem) (auto simp: log_ok_def)
  then have "e \<in> set (concat (chunks r'))"
    using lookup_added [OF assms(2)] lookup_Some by blast
  then show ?thesis using assms(3) by blast
qed

lemma commit_outcome:
  assumes c: "stmCommitTransaction t s = Some (r, s')" and ok: "log_ok (chunks (trecs s t))"
  shows "r \<longrightarrow> trec_state (trecs s t) = TREC_ACTIVE \<and>
           (\<forall>e \<in> set (entries_of s t). values s (tvar e) = expected_value e)"
    and "values s' = (if r then apply_log (entries_of s t) (values s) else values s)"
proof -
  let ?ti = "invariants_to_check (trecs s t) \<noteq> END_INVARIANT_CHECK_QUEUE"
  have st: "enclosing_trec (trecs s t) = NO_TREC" "trec_state (trecs s t) \<in> {TREC_ACTIVE, TREC_CONDEMNED}"
    using c by (auto simp: stmCommitTransaction_def split: if_splits)
  obtain s1 where s1: "(if ?ti then lock_invariants t (invariants_to_check (trecs s t)) s else Some s) = Some s1"
    using c by (auto simp: stmCommitTransaction_def Let_def bind_eq_Some_conv split: if_splits)
  have a: "tvars s1 = tvars s" "reads_added (trecs s t) (trecs s1 t)"
    using s1 by (auto simp: reads_added_refl split: if_splits dest: lock_invariants_added)
  have v: "validate_and_acquire_ownership t True s1 = Some r"
    and w: "r \<Longrightarrow> \<exists>s2. (if ?ti then hook_invariants (invariants_to_check (trecs s1 t)) s1 else Some s1) = Some s2 \<and>
              (\<exists>s3. write_back False (entries_of s2 t) s2 = Some s3 \<and> s' = free_stg_trec_header t s3)"
    and n: "\<not> r \<Longrightarrow> s' = free_stg_trec_header t s1"
    using c s1 by (auto simp: stmCommitTransaction_def Let_def bind_eq_Some_conv config_use_read_phase_def
        split: if_splits)
  have e1: "enclosing_trec (trecs s1 t) = NO_TREC" "log_ok (chunks (trecs s1 t))"
    using a(2) st ok by (auto simp: reads_added_def)
  have r: "trec_state (trecs s1 t) \<noteq> TREC_CONDEMNED \<and>
      (\<forall>e \<in> set (concat (chunks (trecs s1 t))). values s (tvar e) = expected_value e)" if "r"
    using v that by (simp add: validate_all a(1) entries_of_def split: if_splits)
  show "r \<longrightarrow> trec_state (trecs s t) = TREC_ACTIVE \<and>
           (\<forall>e \<in> set (entries_of s t). values s (tvar e) = expected_value e)"
  proof (intro impI conjI ballI)
    assume r
    note rr = r [OF this]
    show "trec_state (trecs s t) = TREC_ACTIVE"
      using rr a(2) st(2) by (auto simp: reads_added_def)
    show "values s (tvar e) = expected_value e" if e: "e \<in> set (entries_of s t)" for e
      using entries_current [OF ok a(2) conjunct2 [OF rr]] e by (simp only: entries_of_def)
  qed
  show "values s' = (if r then apply_log (entries_of s t) (values s) else values s)"
  proof (cases r)
    case True
    obtain s2 s3 where s2: "(if ?ti then hook_invariants (invariants_to_check (trecs s1 t)) s1 else Some s1) = Some s2"
      and s3: "write_back False (entries_of s2 t) s2 = Some s3" "s' = free_stg_trec_header t s3"
      using w [OF True] by blast
    have "hook_frame s1 s2"
      using s2 by (auto split: if_splits dest: hook_invariants_frame)
    then have h: "values s2 = values s" "entries_of s2 t = concat (chunks (trecs s1 t))"
      using e1 a by (auto simp: hook_frame_def entries_of_def)
    have "values s' = apply_log (concat (chunks (trecs s1 t))) (values s)"
      using write_back_values [OF s3(1)] e1(2) h s3(2) by (simp add: log_ok_def)
    then show ?thesis
      using apply_log_added [OF a(2)] r [OF True] True by (simp add: entries_of_def)
  qed (use n a in simp)
qed

section \<open>Serialisability\<close>

text \<open>The operations of a transaction with the values they read and wrote, and what running them
  alone on a heap gives: \<open>None\<close> when a read would see another value.\<close>

datatype stm_op = ReadOp addr addr | WriteOp addr addr

fun replay :: "stm_op list \<Rightarrow> (addr \<Rightarrow> addr) \<Rightarrow> (addr \<Rightarrow> addr) option" where
  "replay [] h = Some h"
| "replay (ReadOp v x # l) h = (if h v = x then replay l h else None)"
| "replay (WriteOp v x # l) h = replay l (h(v := x))"

lemma replay_append: "replay (l @ l') h = Option.bind (replay l h) (replay l')"
proof (induction l arbitrary: h)
  case (Cons a l)
  then show ?case by (cases a) (simp_all add: fun_upd_def)
qed simp

text \<open>A run of the top-level record \<open>t\<close>: reads and writes of its thread, and between them any change
  of the state by other threads that leaves the log of \<open>t\<close> to it.\<close>

inductive exec :: "addr \<Rightarrow> stm_state \<Rightarrow> stm_op list \<Rightarrow> stm_state \<Rightarrow> bool" for t s0 where
  start: "exec t s0 [] s0"
| others: "exec t s0 l s' \<Longrightarrow> chunks (trecs s'' t) = chunks (trecs s' t) \<Longrightarrow>
           enclosing_trec (trecs s'' t) = enclosing_trec (trecs s' t) \<Longrightarrow> exec t s0 l s''"
| read: "exec t s0 l s' \<Longrightarrow> stmReadTVar t v s' = Some (x, s'') \<Longrightarrow> exec t s0 (l @ [ReadOp v x]) s''"
| wrote: "exec t s0 l s' \<Longrightarrow> stmWriteTVar t v x s' = Some s'' \<Longrightarrow> exec t s0 (l @ [WriteOp v x]) s''"

lemma get_entry_top:
  "t \<noteq> NO_TREC \<Longrightarrow> enclosing_trec (trecs s t) = NO_TREC \<Longrightarrow>
   get_entry_for t v s = Some (map_option (\<lambda>e. (e, t)) (lookup (entries_of s t) v))"
  unfolding get_entry_for_def
  by (subst get_entry_loop.simps) (simp add: find_entry_lookup split: option.split)

text \<open>What a log says of the operations that built it.\<close>

definition log_of :: "StgTRecHeader \<Rightarrow> stm_op list \<Rightarrow> bool" where
  "log_of r l = (log_ok (chunks r) \<and> enclosing_trec r = NO_TREC \<and>
     (\<forall>h. (\<forall>e \<in> set (concat (chunks r)). h (tvar e) = expected_value e) \<longrightarrow>
        replay l h = Some (apply_log (concat (chunks r)) h)))"

lemma set_add_entry: "set (concat (add_entry e cs)) = insert e (set (concat cs))"
  by (cases cs) (auto simp: add_entry_def)

lemma log_of_new_entry:
  assumes l: "log_of r l" and n: "lookup (concat (chunks r)) (tvar e) = None"
    and opr: "\<And>h. h (tvar e) = expected_value e \<Longrightarrow> replay [opr] h = Some (h(tvar e := new_value e))"
  shows "log_of (r\<lparr>chunks := add_entry e (chunks r)\<rparr>) (l @ [opr])"
proof -
  let ?cs = "concat (chunks r)"
  have "replay (l @ [opr]) h = Some (apply_log (concat (add_entry e (chunks r))) h)"
    if h: "\<forall>e' \<in> insert e (set ?cs). h (tvar e') = expected_value e'" for h
  proof -
    have "replay l h = Some (apply_log ?cs h)"
      using l h by (simp add: log_of_def)
    moreover have "replay [opr] (apply_log ?cs h) = Some ((apply_log ?cs h)(tvar e := new_value e))"
      using h n by (intro opr) (simp add: apply_log_def)
    moreover have "(apply_log ?cs h)(tvar e := new_value e) = apply_log (concat (add_entry e (chunks r))) h"
      by (auto simp: fun_eq_iff apply_log_def lookup_add_entry [OF n])
    ultimately show ?thesis by (simp add: replay_append)
  qed
  then show ?thesis
    using l log_ok_add_entry [OF _ n] unfolding log_of_def
    by (simp add: set_add_entry del: set_concat)
qed

lemma apply_log_write:
  assumes "lookup (concat cs) v = Some e"
  shows "apply_log (concat (upd_chunks v (\<lambda>e. e\<lparr>new_value := x\<rparr>) cs)) h = (apply_log (concat cs) h)(v := x)"
  using assms by (auto simp: fun_eq_iff apply_log_def lookup_upd_chunks)

lemma mem_upd_chunks:
  assumes "log_ok cs" and e: "e \<in> set (concat cs)"
  shows "\<exists>e' \<in> set (concat (upd_chunks v (\<lambda>e. e\<lparr>new_value := x\<rparr>) cs)).
           tvar e' = tvar e \<and> expected_value e' = expected_value e"
proof -
  have l: "lookup (concat cs) (tvar e) = Some e"
    using assms(1) e by (intro lookup_mem) (auto simp: log_ok_def)
  show ?thesis
  proof (cases "tvar e = v")
    case True
    then have "lookup (concat (upd_chunks v (\<lambda>e. e\<lparr>new_value := x\<rparr>) cs)) v = Some (e\<lparr>new_value := x\<rparr>)"
      using l by (simp add: lookup_upd_chunks)
    from lookup_Some [OF this] show ?thesis by (metis TRecEntry.select_convs TRecEntry.surjective TRecEntry.update_convs(3) True)
  next
    case False
    then have "lookup (concat (upd_chunks v (\<lambda>e. e\<lparr>new_value := x\<rparr>) cs)) (tvar e) = Some e"
      using l by (simp add: lookup_upd_chunks)
    from lookup_Some [OF this] show ?thesis by blast
  qed
qed

lemma log_of_write:
  assumes l: "log_of r l" and e: "lookup (concat (chunks r)) v = Some e"
  shows "log_of (r\<lparr>chunks := upd_chunks v (\<lambda>e. e\<lparr>new_value := x\<rparr>) (chunks r)\<rparr>) (l @ [WriteOp v x])"
proof -
  let ?cs = "upd_chunks v (\<lambda>e. e\<lparr>new_value := x\<rparr>) (chunks r)"
  have ok: "log_ok (chunks r)"
    using l by (simp add: log_of_def)
  have "replay (l @ [WriteOp v x]) h = Some (apply_log (concat ?cs) h)"
    if h: "\<forall>e \<in> set (concat ?cs). h (tvar e) = expected_value e" for h
  proof -
    have "h (tvar e) = expected_value e" if "e \<in> set (concat (chunks r))" for e
      using mem_upd_chunks [OF ok that, of v x] h by metis
    then have "replay l h = Some (apply_log (concat (chunks r)) h)"
      using l unfolding log_of_def by blast
    then show ?thesis
      by (simp add: replay_append apply_log_write [OF e])
  qed
  then show ?thesis
    using l log_ok_upd_chunks [OF _ ok] by (simp add: log_of_def del: set_concat)
qed

lemma log_of_read:
  assumes l: "log_of r l" and e: "lookup (concat (chunks r)) v = Some e"
  shows "log_of r (l @ [ReadOp v (new_value e)])"
  using l e by (simp add: log_of_def replay_append apply_log_def)

lemma stmReadTVar_log:
  assumes l: "log_of (trecs s t) l" and r: "stmReadTVar t v s = Some (x, s')"
  shows "log_of (trecs s' t) (l @ [ReadOp v x])"
proof -
  have t: "t \<noteq> NO_TREC" "enclosing_trec (trecs s t) = NO_TREC"
    using l r by (auto simp: log_of_def stmReadTVar_def split: if_splits)
  note g = get_entry_top [OF t]
  show ?thesis
  proof (cases "lookup (concat (chunks (trecs s t))) v")
    case None
    then have "x = values s v"
      "trecs s' t = (trecs s t)\<lparr>chunks := add_entry \<lparr>tvar = v, expected_value = x, new_value = x\<rparr> (chunks (trecs s t))\<rparr>"
      using r g [of v] by (auto simp: stmReadTVar_def entries_of_def Let_def read_current_value_def split: if_splits)
    then show ?thesis
      using log_of_new_entry [OF l, of "\<lparr>tvar = v, expected_value = x, new_value = x\<rparr>" "ReadOp v x"] None
      by (simp add: fun_upd_idem)
  next
    case (Some e)
    then show ?thesis
      using r g [of v] log_of_read [OF l Some]
      by (auto simp: stmReadTVar_def entries_of_def split: if_splits)
  qed
qed

lemma stmWriteTVar_log:
  assumes l: "log_of (trecs s t) l" and r: "stmWriteTVar t v x s = Some s'"
  shows "log_of (trecs s' t) (l @ [WriteOp v x])"
proof -
  have t: "t \<noteq> NO_TREC" "enclosing_trec (trecs s t) = NO_TREC"
    using l r by (auto simp: log_of_def stmWriteTVar_def split: if_splits)
  note g = get_entry_top [OF t]
  show ?thesis
  proof (cases "lookup (concat (chunks (trecs s t))) v")
    case None
    then have "trecs s' t = (trecs s t)\<lparr>chunks :=
        add_entry \<lparr>tvar = v, expected_value = values s v, new_value = x\<rparr> (chunks (trecs s t))\<rparr>"
      using r g [of v] by (auto simp: stmWriteTVar_def entries_of_def Let_def read_current_value_def split: if_splits)
    then show ?thesis
      using log_of_new_entry [OF l, of "\<lparr>tvar = v, expected_value = values s v, new_value = x\<rparr>" "WriteOp v x"] None
      by simp
  next
    case (Some e)
    then show ?thesis
      using r g [of v] log_of_write [OF l Some, of x]
      by (auto simp: stmWriteTVar_def entries_of_def split: if_splits)
  qed
qed

lemma log_of_start: "chunks r = [[]] \<Longrightarrow> enclosing_trec r = NO_TREC \<Longrightarrow> log_of r []"
  by (simp add: log_of_def log_ok_def apply_log_def fun_eq_iff)

lemma log_of_cong:
  "log_of r l \<Longrightarrow> chunks r' = chunks r \<Longrightarrow> enclosing_trec r' = enclosing_trec r \<Longrightarrow> log_of r' l"
  by (simp add: log_of_def)

lemma exec_log:
  "exec t s0 l s \<Longrightarrow> log_of (trecs s0 t) [] \<Longrightarrow> log_of (trecs s t) l"
  by (induction rule: exec.induct)
    (auto intro: stmReadTVar_log stmWriteTVar_log log_of_cong)

text \<open>
  Claim C6.  Transactions are serialisable, and the commit is the moment they take effect.
  A top-level transaction starts with an empty record, reads and writes variables, and in between
  other threads change the heap in any way.  If \<open>stmCommitTransaction\<close> then answers true, running the
  same operations alone on the heap at the commit reads the same values and leaves the heap that the
  commit left.  If it answers false, no variable has changed.\<close>

theorem transactions_serialisable:
  assumes "exec t s0 l s" and "chunks (trecs s0 t) = [[]]" and "enclosing_trec (trecs s0 t) = NO_TREC"
    and "stmCommitTransaction t s = Some (committed, s')"
  shows "if committed then replay l (\<lambda>v. current_value (tvars s v)) = Some (\<lambda>v. current_value (tvars s' v))
         else (\<forall>v. current_value (tvars s' v) = current_value (tvars s v))"
proof -
  have l: "log_of (trecs s t) l"
    using exec_log [OF assms(1) log_of_start [OF assms(2,3)]] .
  then have ok: "log_ok (chunks (trecs s t))"
    by (simp add: log_of_def)
  note c = commit_outcome [OF assms(4) ok]
  show ?thesis
    using c l by (auto simp: log_of_def entries_of_def fun_eq_iff)
qed

text \<open>A state without transactions in which every variable holds 0 and nothing has been allocated.\<close>

definition stm_start :: stm_state where
  "stm_start = \<lparr>tvars = (\<lambda>_. \<lparr>current_value = 0, first_watch_queue_entry = 0\<rparr>),
     trecs = (\<lambda>_. \<lparr>enclosing_trec = 0, chunks = [[]], invariants_to_check = 0, trec_state = TREC_ABORTED\<rparr>),
     wqs = (\<lambda>_. \<lparr>wq_closure = 0, next_queue_entry = 0, prev_queue_entry = 0\<rparr>),
     invs = (\<lambda>_. \<lparr>inv_code = 0, last_execution = 0\<rparr>),
     icqs = (\<lambda>_. \<lparr>icq_invariant = 0, my_execution = 0, icq_next = 0\<rparr>),
     why_blocked = (\<lambda>_. NotBlocked), tso_trec = (\<lambda>_. 0), closure_kind = (\<lambda>x. if x < 100 then KOther else KTSO),
     run_queue = [], free_tvar_watch_queues = 0, free_trec_headers = 0, free_invariant_check_queues = 0,
     heap_next = 1\<rparr>"

declare get_entry_loop.simps [code] last_watcher.simps [code] unpark_back.simps [code]
  lock_invariants.simps [code] hook_invariants.simps [code] find_watcher.simps [code]


text \<open>A run: transaction 1 reads the variable 50 and writes it, and another thread changes 51.\<close>

definition run_example :: stm_state where
  "run_example = stm_start\<lparr>trecs := (trecs stm_start)
     (1 := \<lparr>enclosing_trec = 0, chunks = [[]], invariants_to_check = 0, trec_state = TREC_ACTIVE\<rparr>)\<rparr>"

definition run_read :: stm_state where
  "run_read = get_new_entry 1 \<lparr>tvar = 50, expected_value = 0, new_value = 0\<rparr> run_example"

definition run_other :: stm_state where
  "run_other = upd_tvar 51 (\<lambda>x. x\<lparr>current_value := 9\<rparr>) run_read"

definition run_write :: stm_state where
  "run_write = upd_trec 1 (\<lambda>r. r\<lparr>chunks := [[\<lparr>tvar = 50, expected_value = 0, new_value = 7\<rparr>]]\<rparr>) run_other"

lemmas run_defs = run_example_def run_read_def run_other_def run_write_def stm_start_def

lemma run_example_exec: "exec 1 run_example [ReadOp 50 0, WriteOp 50 7] run_write"
proof -
  have "exec 1 run_example ([] @ [ReadOp 50 0]) run_read"
    by (rule exec.read [OF exec.start])
      (simp add: stmReadTVar_def get_entry_top run_defs entries_of_def read_current_value_def)
  then have "exec 1 run_example [ReadOp 50 0] run_other"
    by (auto intro: exec.others simp: run_other_def)
  then have "exec 1 run_example ([ReadOp 50 0] @ [WriteOp 50 7]) run_write"
    by (rule exec.wrote)
      (simp add: stmWriteTVar_def get_entry_top run_defs entries_of_def get_new_entry_def upd_trec_def
        upd_tvar_def add_entry_def TREC_CHUNK_NUM_ENTRIES_def)
  then show ?thesis by simp
qed

theorem transactions_serialisable_witness:
  "\<exists>s'. stmCommitTransaction 1 run_write = Some (True, s') \<and>
     replay [ReadOp 50 0, WriteOp 50 7] (\<lambda>v. current_value (tvars run_write v)) =
       Some (\<lambda>v. current_value (tvars s' v))"
proof -
  have "map_option fst (stmCommitTransaction 1 run_write) = Some True"
    by code_simp
  then obtain s' where s': "stmCommitTransaction 1 run_write = Some (True, s')"
    by auto
  have "chunks (trecs run_example 1) = [[]]" "enclosing_trec (trecs run_example 1) = NO_TREC"
    by (simp_all add: run_example_def)
  from transactions_serialisable [OF run_example_exec this s'] show ?thesis
    using s' by simp
qed

end
