(* ===== verification/STMNest.thy ===== *)
theory STMNest
  imports STMCommit
begin

text \<open>
  Nested transactions (\<open>orElse\<close>, \<open>catchSTM\<close>): what the enclosing transaction sees after the nested
  one commits or aborts.  Aborting below a record that has itself an enclosing record can hide a
  write of the outer one.
\<close>

section \<open>Looking up in a nest of records\<close>

abbreviation enclosing :: "stm_state \<Rightarrow> addr \<Rightarrow> addr" where
  "enclosing s \<equiv> \<lambda>t. enclosing_trec (trecs s t)"

fun nest_lookup :: "stm_state \<Rightarrow> addr list \<Rightarrow> addr \<Rightarrow> (TRecEntry \<times> addr) option" where
  "nest_lookup s [] v = None"
| "nest_lookup s (t # ts) v =
     (case lookup (entries_of s t) v of Some e \<Rightarrow> Some (e, t) | None \<Rightarrow> nest_lookup s ts v)"

lemma get_entry_loop_nest:
  "lst (enclosing s) t (t # ts) \<Longrightarrow> get_entry_loop t v s = Some (nest_lookup s (t # ts) v)"
proof (induction ts arbitrary: t)
  case Nil
  then show ?case by (subst get_entry_loop.simps) (simp add: find_entry_lookup split: option.split)
next
  case (Cons u ts)
  have "get_entry_loop u v s = Some (nest_lookup s (u # ts) v)"
    using Cons.prems by (intro Cons.IH) simp
  then show ?case
    using Cons.prems by (subst get_entry_loop.simps) (simp add: find_entry_lookup split: option.split)
qed

text \<open>The value that a read of \<open>v\<close> answers in the innermost record of a nest.\<close>

definition nest_value :: "stm_state \<Rightarrow> addr list \<Rightarrow> addr \<Rightarrow> addr" where
  "nest_value s ts v = (case nest_lookup s ts v of Some (e, _) \<Rightarrow> new_value e | None \<Rightarrow> values s v)"

lemma stmReadTVar_value:
  assumes "lst (enclosing s) t (t # ts)" and "trec_state (trecs s t) \<in> {TREC_ACTIVE, TREC_CONDEMNED}"
  shows "map_option fst (stmReadTVar t v s) = Some (nest_value s (t # ts) v)"
proof -
  have "get_entry_for t v s = Some (nest_lookup s (t # ts) v)"
    using assms(1) get_entry_loop_nest [OF assms(1)] by (simp add: get_entry_for_def)
  then show ?thesis
    using assms by (cases "nest_lookup s (t # ts) v")
      (auto simp: stmReadTVar_def nest_value_def Let_def read_current_value_def simp del: nest_lookup.simps)
qed

lemma nest_lookup_cong:
  "(\<And>t. t \<in> set ts \<Longrightarrow> trecs s' t = trecs s t) \<Longrightarrow> nest_lookup s' ts v = nest_lookup s ts v"
  by (induction ts) (auto simp: entries_of_def split: option.split)

lemma nest_value_cong:
  assumes "\<And>t. t \<in> set ts \<Longrightarrow> trecs s' t = trecs s t" and "tvars s' = tvars s"
  shows "nest_value s' ts v = nest_value s ts v"
  using nest_lookup_cong [of ts s' s v, OF assms(1)] assms(2) by (simp add: nest_value_def split: option.split)

section \<open>Commit of a nested transaction\<close>

lemma merge_update_into_lookup:
  "lookup (entries_of (merge_update_into t v x y s) t) w =
     (if w = v then Some (case lookup (entries_of s t) v of
        Some e \<Rightarrow> e\<lparr>new_value := y\<rparr> | None \<Rightarrow> \<lparr>tvar = v, expected_value = x, new_value = y\<rparr>)
      else lookup (entries_of s t) w)"
  by (auto simp: merge_update_into_def find_entry_lookup Let_def entries_of_def lookup_upd_chunks lookup_add_entry
      split: option.split)

lemma merge_update_into_frame:
  "tvars (merge_update_into t v x y s) = tvars s"
  "u \<noteq> t \<Longrightarrow> trecs (merge_update_into t v x y s) u = trecs s u"
  "enclosing_trec (trecs (merge_update_into t v x y s) u) = enclosing_trec (trecs s u)"
  "trec_state (trecs s t) \<in> {TREC_ACTIVE, TREC_CONDEMNED} \<Longrightarrow>
   trec_state (trecs (merge_update_into t v x y s) t) \<in> {TREC_ACTIVE, TREC_CONDEMNED}"
  by (auto simp: merge_update_into_def Let_def split: option.split)

definition merge_updates :: "addr \<Rightarrow> TRecEntry list \<Rightarrow> stm_state \<Rightarrow> stm_state" where
  "merge_updates et = fold (\<lambda>e s. merge_update_into et (tvar e) (expected_value e) (new_value e)
     (if entry_is_update e then unlock_tvar (tvar e) (expected_value e) False s else s))"

lemma merge_updates_Cons:
  "merge_updates et (e # es) s =
   merge_updates et es (merge_update_into et (tvar e) (expected_value e) (new_value e) s)"
  by (simp add: merge_updates_def unlock_tvar_def)

lemma merge_updates_frame:
  "tvars (merge_updates et es s) = tvars s"
  "u \<noteq> et \<Longrightarrow> trecs (merge_updates et es s) u = trecs s u"
  "enclosing_trec (trecs (merge_updates et es s) u) = enclosing_trec (trecs s u)"
  "trec_state (trecs s et) \<in> {TREC_ACTIVE, TREC_CONDEMNED} \<Longrightarrow>
   trec_state (trecs (merge_updates et es s) et) \<in> {TREC_ACTIVE, TREC_CONDEMNED}"
proof (induction es arbitrary: s)
  case (Cons e es)
  {
    case 1 then show ?case using Cons(1) by (simp add: merge_updates_Cons merge_update_into_frame)
  next
    case 2 then show ?case using Cons(2) by (simp add: merge_updates_Cons merge_update_into_frame)
  next
    case 3 then show ?case using Cons(3) by (simp add: merge_updates_Cons merge_update_into_frame)
  next
    case 4 then show ?case
      unfolding merge_updates_Cons by (intro Cons(4) merge_update_into_frame(4))
  }
qed (simp_all add: merge_updates_def)

lemma merge_updates_lookup:
  "distinct (List.map tvar es) \<Longrightarrow>
   map_option new_value (lookup (entries_of (merge_updates et es s) et) v) =
     (case lookup es v of Some e \<Rightarrow> Some (new_value e)
      | None \<Rightarrow> map_option new_value (lookup (entries_of s et) v))"
proof (induction es arbitrary: s)
  case (Cons e es)
  then show ?case
    by (cases "tvar e = v")
      (auto simp: merge_updates_Cons merge_update_into_lookup lookup_None [symmetric] split: option.split)
qed (simp add: merge_updates_def)

lemma commit_nested_outcome:
  assumes c: "stmCommitNestedTransaction t s = Some (r, s')"
  shows "s' = free_stg_trec_header t (if r then merge_updates (enclosing s t) (entries_of s t) s else s)"
  using c by (auto simp: stmCommitNestedTransaction_def merge_updates_def Let_def bind_eq_Some_conv
      config_use_read_phase_def split: if_splits)

lemma free_stg_trec_header_other [simp]: "u \<noteq> t \<Longrightarrow> trecs (free_stg_trec_header t s) u = trecs s u"
  by (simp add: free_stg_trec_header_def)

lemma nest_value_Cons:
  "nest_value s (t # ts) v =
     (case map_option new_value (lookup (entries_of s t) v) of Some x \<Rightarrow> x | None \<Rightarrow> nest_value s ts v)"
  by (simp add: nest_value_def split: option.split)

lemma commit_nested_value:
  assumes c: "stmCommitNestedTransaction t s = Some (True, s')" and ok: "log_ok (chunks (trecs s t))"
    and n: "lst (enclosing s) t (t # et # ts)"
  shows "nest_value s' (et # ts) v = nest_value s (t # et # ts) v"
    and "lst (enclosing s') et (et # ts)"
proof -
  have d: "distinct (t # et # ts)" "et = enclosing s t" using n lst_distinct [OF n] by simp_all
  have s': "s' = free_stg_trec_header t (merge_updates et (entries_of s t) s)"
    using commit_nested_outcome [OF c] d(2) by simp
  have o: "trecs s' u = trecs s u" if "u \<in> set ts" for u
  proof -
    have "u \<noteq> t" "u \<noteq> et" using that d(1) by auto
    then show ?thesis by (simp add: s' merge_updates_frame)
  qed
  have e: "entries_of s' et = entries_of (merge_updates et (entries_of s t) s) et"
    using d by (auto simp: s' entries_of_def)
  have t: "tvars s' = tvars s" by (simp add: s' merge_updates_frame)
  have nl: "nest_value s' ts v = nest_value s ts v"
    by (rule nest_value_cong [OF o t])
  have "distinct (List.map tvar (entries_of s t))"
    using ok by (simp add: log_ok_def entries_of_def)
  from merge_updates_lookup [OF this, of et s v] nl
  show "nest_value s' (et # ts) v = nest_value s (t # et # ts) v"
    unfolding nest_value_Cons e by (simp split: option.split)
  have "enclosing s' u = enclosing s u" if "u \<in> set (et # ts)" for u
  proof -
    have "u \<noteq> t" using that d(1) by auto
    then show ?thesis by (simp add: s' merge_updates_frame)
  qed
  then show "lst (enclosing s') et (et # ts)"
    using n lseg_cong [of "et # ts" "enclosing s'" "enclosing s" et 0] by (auto simp: lst_def)
qed

section \<open>Abort of a nested transaction\<close>

abbreviation merge_reads :: "addr \<Rightarrow> TRecEntry list \<Rightarrow> stm_state \<Rightarrow> stm_state" where
  "merge_reads et \<equiv> fold (\<lambda>e. merge_read_into et (tvar e) (expected_value e))"

lemma merge_read_into_lookup:
  "lookup (entries_of (merge_read_into t v x s) t) w =
     (if w = v \<and> lookup (entries_of s t) v = None
      then Some \<lparr>tvar = v, expected_value = x, new_value = x\<rparr> else lookup (entries_of s t) w)"
  by (auto simp: merge_read_into_def find_entry_lookup entries_of_def lookup_add_entry split: option.split)

lemma merge_read_into_frame:
  "u \<noteq> t \<Longrightarrow> trecs (merge_read_into t v x s) u = trecs s u"
  by (auto simp: merge_read_into_def split: option.split)

lemma merge_reads_lookup:
  "lookup (entries_of (merge_reads et es s) et) v =
     (case lookup (entries_of s et) v of
        Some e \<Rightarrow> Some e
      | None \<Rightarrow> map_option (\<lambda>e. \<lparr>tvar = v, expected_value = expected_value e, new_value = expected_value e\<rparr>)
                  (lookup es v))"
proof (induction es arbitrary: s)
  case (Cons e es)
  show ?case
    unfolding fold_Cons comp_def Cons merge_read_into_lookup by (auto split: option.split)
qed (simp split: option.split)

lemma merge_reads_other: "u \<noteq> et \<Longrightarrow> trecs (merge_reads et es s) u = trecs s u"
  by (induction es arbitrary: s) (simp_all add: merge_read_into_frame)

lemma abort_nested_value:
  assumes a: "stmAbortTransaction t s = Some s'" and n: "lst (enclosing s) t (t # et # ts)"
    and r: "\<And>e. e \<in> set (entries_of s t) \<Longrightarrow> lookup (entries_of s et) (tvar e) = None \<Longrightarrow>
              nest_value s ts (tvar e) = expected_value e"
  shows "nest_value s' (et # ts) v = nest_value s (et # ts) v"
proof -
  have d: "distinct (t # et # ts)" "et = enclosing s t" "et \<noteq> 0"
    using n lst_distinct [OF n] by simp_all
  define s1 where "s1 = merge_reads et (entries_of s t) s"
  have s': "s' = set_state t TREC_ABORTED s1"
    using a d by (auto simp: stmAbortTransaction_def Let_def s1_def split: if_splits)
  have t: "tvars s' = tvars s"
    using conjunct1 [OF merge_reads_added] by (simp add: s' s1_def set_state_def)
  have o: "trecs s' u = trecs s u" if "u \<in> set ts" for u
  proof -
    have "u \<noteq> t" "u \<noteq> et" using that d(1) by auto
    then show ?thesis by (simp add: s' s1_def set_state_def merge_reads_other)
  qed
  have e: "entries_of s' et = entries_of s1 et"
    using d by (auto simp: s' set_state_def entries_of_def)
  have nl: "nest_value s' ts w = nest_value s ts w" for w
    by (rule nest_value_cong [OF o t])
  show ?thesis
  proof (cases "lookup (entries_of s et) v")
    case None
    then show ?thesis
      using r nl lookup_Some [of "entries_of s t" v] unfolding nest_value_Cons e s1_def merge_reads_lookup
      by (cases "lookup (entries_of s t) v") auto
  qed (simp add: nest_value_Cons e s1_def merge_reads_lookup)
qed

section \<open>Properties\<close>

text \<open>
  Claim C31.  The commit of a nested transaction passes on its view.  When \<open>stmCommitNestedTransaction\<close>
  answers true, a read of any variable in the enclosing transaction answers what a read in the nested
  one would have answered before; when it answers false, what a read in the enclosing one answered.\<close>

theorem nested_commit_passes_view:
  assumes "stmCommitNestedTransaction t s = Some (committed, s')" and "log_ok (chunks (trecs s t))"
    and "lst (enclosing s) t (t # et # ts)"
    and "trec_state (trecs s et) \<in> {TREC_ACTIVE, TREC_CONDEMNED}"
  shows "map_option fst (stmReadTVar et v s') =
     map_option fst (stmReadTVar (if committed then t else et) v s)"
proof (cases committed)
  case True
  have c: "stmCommitNestedTransaction t s = Some (True, s')" using assms(1) True by simp
  have d: "et \<noteq> t" "et = enclosing s t" using assms(3) lst_distinct [OF assms(3)] by auto
  have "trec_state (trecs s t) \<in> {TREC_ACTIVE, TREC_CONDEMNED}"
    using c by (auto simp: stmCommitNestedTransaction_def split: if_splits)
  moreover have "trec_state (trecs s' et) \<in> {TREC_ACTIVE, TREC_CONDEMNED}"
    using commit_nested_outcome [OF c] d merge_updates_frame(4) [OF assms(4)] assms(4) by simp
  ultimately show ?thesis
    using stmReadTVar_value [OF assms(3), of v]
      stmReadTVar_value [OF commit_nested_value(2) [OF c assms(2,3)], of v]
      commit_nested_value(1) [OF c assms(2,3), of v] True by metis
next
  case False
  have d: "distinct (t # et # ts)" using lst_distinct [OF assms(3)] .
  have n: "lst (enclosing s) et (et # ts)" using assms(3) by simp
  have s': "s' = free_stg_trec_header t s"
    using commit_nested_outcome [OF assms(1)] False by simp
  have o: "trecs s' u = trecs s u" if "u \<in> set (et # ts)" for u
  proof -
    have "u \<noteq> t" using that d by auto
    then show ?thesis by (simp add: s')
  qed
  then have n': "lst (enclosing s') et (et # ts)"
    using n lseg_cong [of "et # ts" "enclosing s'" "enclosing s" et 0] by (auto simp: lst_def)
  have "nest_value s' (et # ts) v = nest_value s (et # ts) v"
    by (rule nest_value_cong [OF o]) (simp_all add: s')
  then show ?thesis
    using stmReadTVar_value [OF n, of v] stmReadTVar_value [OF n', of v] assms(4) o [of et] False by auto
qed

text \<open>
  The abort of a nested transaction hides its writes: the enclosing top-level transaction
  reads every variable as before the nested one ran, provided that the values that the nested
  transaction read first are still current.\<close>

theorem nested_abort_hides_writes:
  assumes "stmAbortTransaction t s = Some s'" and "lst (enclosing s) t [t, et]"
    and "trec_state (trecs s et) \<in> {TREC_ACTIVE, TREC_CONDEMNED}"
    and "\<forall>e \<in> set (entries_of s t). find_entry et (tvar e) s = None \<longrightarrow>
           current_value (tvars s (tvar e)) = expected_value e"
  shows "map_option fst (stmReadTVar et v s') = map_option fst (stmReadTVar et v s)"
proof -
  have d: "t \<noteq> et" "et = enclosing s t" "et \<noteq> 0" "enclosing s et = 0"
    using assms(2) lst_distinct [OF assms(2)] by auto
  have r: "nest_value s [] (tvar e) = expected_value e"
    if "e \<in> set (entries_of s t)" "lookup (entries_of s et) (tvar e) = None" for e
    using assms(4) that by (simp add: nest_value_def find_entry_lookup)
  have "reads_added (trecs s et) (trecs s' et)"
    using assms(1) d merge_reads_added [of et "entries_of s t" s]
    by (auto simp: stmAbortTransaction_def Let_def set_state_def split: if_splits)
  then have "enclosing s' et = 0" "trec_state (trecs s' et) \<in> {TREC_ACTIVE, TREC_CONDEMNED}"
    using assms(3) d(4) by (auto simp: reads_added_def)
  then show ?thesis
    using stmReadTVar_value [of s' et "[]" v] stmReadTVar_value [of s et "[]" v] d(3,4) assms(3)
      abort_nested_value [OF assms(1,2) r, of v] by auto
qed

text \<open>Three levels deep the abort is wrong: the outermost transaction writes 1 to a variable that
  holds 0, the middle one reads 1, the innermost one reads it and aborts, and now the middle one reads
  0; its commit undoes the write of the outermost one.\<close>

definition three_levels :: "(addr \<times> addr \<times> addr \<times> bool \<times> addr) option" where
  "three_levels = do {
     (t0, s) \<leftarrow> stmStartTransaction NO_TREC stm_start;
     s \<leftarrow> stmWriteTVar t0 50 1 s;
     (t1, s) \<leftarrow> stmStartTransaction t0 s;
     (t2, s) \<leftarrow> stmStartTransaction t1 s;
     (x, _) \<leftarrow> stmReadTVar t1 50 s;
     (y, s) \<leftarrow> stmReadTVar t2 50 s;
     s \<leftarrow> stmAbortTransaction t2 s;
     (z, s) \<leftarrow> stmReadTVar t1 50 s;
     (committed, s) \<leftarrow> stmCommitNestedTransaction t1 s;
     (w, s) \<leftarrow> stmReadTVar t0 50 s;
     Some (x, y, z, committed, w)
   }"

lemma abort_loses_outer_write: "three_levels = Some (1, 1, 0, True, 0)"
  by code_simp

text \<open>A nested transaction 2 in a transaction 1, both with an entry for the variable 50.\<close>

definition nest_example :: stm_state where
  "nest_example = stm_start\<lparr>trecs := (trecs stm_start)
     (1 := \<lparr>enclosing_trec = 0, chunks = [[\<lparr>tvar = 50, expected_value = 0, new_value = 1\<rparr>]],
            invariants_to_check = 0, trec_state = TREC_ACTIVE\<rparr>,
      2 := \<lparr>enclosing_trec = 1, chunks = [[\<lparr>tvar = 50, expected_value = 0, new_value = 2\<rparr>]],
            invariants_to_check = 0, trec_state = TREC_ACTIVE\<rparr>)\<rparr>"

lemma nest_example_nest: "lst (enclosing nest_example) 2 [2, 1]"
  by (simp add: nest_example_def stm_start_def)

lemma nest_example_state: "trec_state (trecs nest_example 1) \<in> {TREC_ACTIVE, TREC_CONDEMNED}"
  by (simp add: nest_example_def)

theorem nested_commit_passes_view_witness:
  "\<exists>s'. stmCommitNestedTransaction 2 nest_example = Some (True, s') \<and>
     map_option fst (stmReadTVar 1 50 s') = Some 2"
proof -
  have "map_option fst (stmCommitNestedTransaction 2 nest_example) = Some True"
    by code_simp
  then obtain s' where s': "stmCommitNestedTransaction 2 nest_example = Some (True, s')"
    by auto
  have "log_ok (chunks (trecs nest_example 2))"
    by (simp add: log_ok_def nest_example_def TREC_CHUNK_NUM_ENTRIES_def)
  from nested_commit_passes_view [OF s' this nest_example_nest nest_example_state, of 50]
  have "map_option fst (stmReadTVar 1 50 s') = map_option fst (stmReadTVar 2 50 nest_example)"
    by simp
  also have "\<dots> = Some 2"
    by code_simp
  finally show ?thesis using s' by blast
qed

theorem nested_abort_hides_writes_witness:
  "\<exists>s'. stmAbortTransaction 2 nest_example = Some s' \<and>
     map_option fst (stmReadTVar 1 50 s') = Some 1"
proof -
  have "stmAbortTransaction 2 nest_example \<noteq> None"
    by (simp add: stmAbortTransaction_def nest_example_def)
  then obtain s' where s': "stmAbortTransaction 2 nest_example = Some s'"
    by auto
  have "\<forall>e \<in> set (entries_of nest_example 2). find_entry 1 (tvar e) nest_example = None \<longrightarrow>
           current_value (tvars nest_example (tvar e)) = expected_value e"
    by (simp add: nest_example_def entries_of_def stm_start_def)
  from nested_abort_hides_writes [OF s' nest_example_nest nest_example_state this, of 50]
  have "map_option fst (stmReadTVar 1 50 s') = map_option fst (stmReadTVar 1 50 nest_example)" .
  also have "\<dots> = Some 1"
    by code_simp
  finally show ?thesis using s' by blast
qed

end
