(* ===== verification/STMWait.thy ===== *)
theory STMWait
  imports STMCommit
begin

text \<open>
  Waiting: the doubly linked watch queues of transactional variables and how they are built, what
  \<open>unpark_waiters_on\<close> wakes, and that a commit always returns, is atomic and wakes the threads on the
  queues of its variables.
\<close>

section \<open>Watch queues\<close>

text \<open>\<open>dll s p q qs\<close>: the entries \<open>qs\<close>, linked forwards from \<open>q\<close> and backwards to \<open>p\<close>.\<close>

fun dll :: "stm_state \<Rightarrow> addr \<Rightarrow> addr \<Rightarrow> addr list \<Rightarrow> bool" where
  "dll s p q [] = (q = END_STM_WATCH_QUEUE)"
| "dll s p q (x # xs) = (q = x \<and> x \<noteq> END_STM_WATCH_QUEUE \<and> prev_queue_entry (wqs s x) = p \<and>
     dll s x (next_queue_entry (wqs s x)) xs)"

lemma dll_cong: "(\<And>x. x \<in> set xs \<Longrightarrow> wqs s' x = wqs s x) \<Longrightarrow> dll s' p q xs = dll s p q xs"
  by (induction xs arbitrary: p q) auto

lemma last_watcher_dll: "dll s p q qs \<Longrightarrow> last_watcher s q tr = Some (if qs = [] then tr else List.last qs)"
proof (induction qs arbitrary: p q tr)
  case Nil
  then show ?case by (subst last_watcher.simps) simp
next
  case (Cons x qs)
  then have "last_watcher s (next_queue_entry (wqs s x)) x = Some (if qs = [] then x else List.last qs)"
    by auto
  then show ?case
    using Cons.prems by (subst last_watcher.simps) auto
qed

text \<open>The threads that watch, the one that came first in front: new entries go to the head.\<close>

definition waiters :: "stm_state \<Rightarrow> addr list \<Rightarrow> addr list" where
  "waiters s qs = List.map (\<lambda>q. wq_closure (wqs s q)) (List.filter (watcher_is_tso s) (rev qs))"

lemma waiters_simps [simp]:
  "waiters s [] = []"
  "waiters s (qs @ [q]) = (if watcher_is_tso s q then [wq_closure (wqs s q)] else []) @ waiters s qs"
  by (simp_all add: waiters_def)

lemma waiters_frame: "wqs s' = wqs s \<Longrightarrow> closure_kind s' = closure_kind s \<Longrightarrow> waiters s' qs = waiters s qs"
  by (simp add: waiters_def watcher_is_tso_def [abs_def])

lemma dll_frame: "wqs s' = wqs s \<Longrightarrow> dll s' p q qs = dll s p q qs"
  by (rule dll_cong) simp

fun prevs :: "stm_state \<Rightarrow> addr \<Rightarrow> addr list \<Rightarrow> bool" where
  "prevs s p [] = True"
| "prevs s p (x # xs) = (x \<noteq> END_STM_WATCH_QUEUE \<and> prev_queue_entry (wqs s x) = p \<and> prevs s x xs)"

lemma dll_prevs: "dll s p q qs \<Longrightarrow> prevs s p qs"
  by (induction qs arbitrary: p q) auto

lemma prevs_snoc:
  "prevs s p (qs @ [x]) = (prevs s p qs \<and> x \<noteq> 0 \<and>
     prev_queue_entry (wqs s x) = (if qs = [] then p else List.last qs))"
  by (induction qs arbitrary: p) auto

lemma prevs_frame: "wqs s' = wqs s \<Longrightarrow> prevs s' p qs = prevs s p qs"
  by (induction qs arbitrary: p) auto

lemma unpark_back_prevs:
  "prevs s p qs \<Longrightarrow> unpark_back (if qs = [] then p else List.last qs) s =
     unpark_back p (fold unpark_tso (waiters s qs) s)"
proof (induction qs arbitrary: s rule: rev_induct)
  case (snoc x qs)
  define s1 where "s1 = (if watcher_is_tso s x then unpark_tso (wq_closure (wqs s x)) s else s)"
  have f: "wqs s1 = wqs s" "closure_kind s1 = closure_kind s"
    by (simp_all add: s1_def)
  have "unpark_back x s = unpark_back (if qs = [] then p else List.last qs) s1"
    using snoc.prems by (subst unpark_back.simps) (simp add: prevs_snoc s1_def)
  also have "\<dots> = unpark_back p (fold unpark_tso (waiters s1 qs) s1)"
    using snoc.prems by (intro snoc.IH) (simp add: prevs_snoc prevs_frame [OF f(1)])
  finally have "unpark_back x s = unpark_back p (fold unpark_tso (waiters s qs) s1)"
    unfolding waiters_frame [OF f] .
  then show ?case
    by (simp add: s1_def)
qed simp

text \<open>\<open>unpark_waiters_on\<close> wakes the threads of the watch queue, the one that waits longest first.\<close>

definition wq_of :: "stm_state \<Rightarrow> addr \<Rightarrow> addr list \<Rightarrow> bool" where
  "wq_of s v qs = dll s END_STM_WATCH_QUEUE (first_watch_queue_entry (tvars s v)) qs"

lemma unpark_waiters_on_wakes:
  assumes "wq_of s v qs"
  shows "unpark_waiters_on v s = Some (fold unpark_tso (waiters s qs) s)"
proof -
  let ?q = "first_watch_queue_entry (tvars s v)"
  have d: "dll s 0 ?q qs"
    using assms by (simp add: wq_of_def)
  have "last_watcher s ?q ?q = Some (if qs = [] then 0 else List.last qs)"
    using last_watcher_dll [OF d, of ?q] d by (cases qs) auto
  then have "unpark_waiters_on v s = unpark_back (if qs = [] then 0 else List.last qs) s"
    by (simp add: unpark_waiters_on_def Let_def)
  also have "\<dots> = unpark_back 0 (fold unpark_tso (waiters s qs) s)"
    by (rule unpark_back_prevs) (rule dll_prevs [OF d])
  finally show ?thesis by (subst (asm) unpark_back.simps) simp
qed

lemma fold_unpark_frame:
  "tvars (fold unpark_tso cs s) = tvars s" "trecs (fold unpark_tso cs s) = trecs s"
  "wqs (fold unpark_tso cs s) = wqs s" "closure_kind (fold unpark_tso cs s) = closure_kind s"
  by (induction cs arbitrary: s) simp_all

lemma unpark_tso_blocked:
  "why_blocked (unpark_tso c s) x = BlockedOnSTM \<longleftrightarrow> why_blocked s x = BlockedOnSTM \<and> x \<noteq> c"
  by (auto simp: unpark_tso_def)

lemma fold_unpark_blocked:
  "why_blocked (fold unpark_tso cs s) x = BlockedOnSTM \<longleftrightarrow> why_blocked s x = BlockedOnSTM \<and> x \<notin> set cs"
  by (induction cs arbitrary: s) (auto simp: unpark_tso_blocked)

definition runnable :: "stm_state \<Rightarrow> addr \<Rightarrow> bool" where
  "runnable s x = (why_blocked s x = NotBlocked \<and> x \<in> set (run_queue s))"

lemma unpark_tso_runnable:
  "runnable s x \<or> why_blocked s x = BlockedOnSTM \<and> x = c \<Longrightarrow> runnable (unpark_tso c s) x"
  by (auto simp: unpark_tso_def runnable_def)

lemma fold_unpark_runnable:
  "runnable s x \<or> why_blocked s x = BlockedOnSTM \<and> x \<in> set cs \<Longrightarrow> runnable (fold unpark_tso cs s) x"
proof (induction cs arbitrary: s)
  case (Cons c cs)
  have "runnable (unpark_tso c s) x \<or> why_blocked (unpark_tso c s) x = BlockedOnSTM \<and> x \<in> set cs"
    using Cons.prems unpark_tso_runnable [of s x c] by (auto simp: unpark_tso_blocked)
  then show ?case using Cons.IH by simp
qed simp

section \<open>The commit returns, and wakes the watchers\<close>

lemma unlock_tvar_more [simp]:
  "why_blocked (unlock_tvar v c b s) = why_blocked s" "run_queue (unlock_tvar v c b s) = run_queue s"
  "first_watch_queue_entry (tvars (unlock_tvar v c b s) w) = first_watch_queue_entry (tvars s w)"
  "runnable (unlock_tvar v c b s) x = runnable s x"
  by (auto simp: unlock_tvar_def runnable_def)

text \<open>What a commit leaves alone when it writes back and wakes.\<close>

definition woken_frame :: "stm_state \<Rightarrow> stm_state \<Rightarrow> bool" where
  "woken_frame s s' = (wqs s' = wqs s \<and> closure_kind s' = closure_kind s \<and> trecs s' = trecs s \<and> heap_next s' = heap_next s \<and>
     free_tvar_watch_queues s' = free_tvar_watch_queues s \<and>
     (\<forall>v. first_watch_queue_entry (tvars s' v) = first_watch_queue_entry (tvars s v)))"

lemma woken_frame_trans: "woken_frame s s' \<Longrightarrow> woken_frame s' s'' \<Longrightarrow> woken_frame s s''"
  by (simp add: woken_frame_def)

lemma fold_unpark_woken: "woken_frame s (fold unpark_tso cs s)"
  by (induction cs arbitrary: s) (auto simp: woken_frame_def unpark_tso_def)

definition watching :: "stm_state \<Rightarrow> (addr \<Rightarrow> addr list) \<Rightarrow> TRecEntry list \<Rightarrow> addr \<Rightarrow> bool" where
  "watching s Q es x = (\<exists>e \<in> set es. x \<in> set (waiters s (Q (tvar e))))"

lemma write_back_wakes:
  assumes "\<And>e. e \<in> set es \<Longrightarrow> wq_of s (tvar e) (Q (tvar e))"
  shows "\<exists>s'. write_back False es s = Some s' \<and> woken_frame s s' \<and>
     (\<forall>x. why_blocked s' x = BlockedOnSTM \<longleftrightarrow> why_blocked s x = BlockedOnSTM \<and> \<not> watching s Q es x) \<and>
     (\<forall>x. runnable s x \<or> why_blocked s x = BlockedOnSTM \<and> watching s Q es x \<longrightarrow> runnable s' x)"
  using assms
proof (induction es arbitrary: s)
  case Nil
  then show ?case by (simp add: woken_frame_def watching_def)
next
  case (Cons e es)
  have q: "wq_of s (tvar e) (Q (tvar e))"
    using Cons.prems by auto
  define ws where "ws = waiters s (Q (tvar e))"
  define s1 where "s1 = unlock_tvar (tvar e) (new_value e) True (fold unpark_tso ws s)"
  have f: "woken_frame s s1"
    using fold_unpark_woken [of s ws] by (simp add: s1_def woken_frame_def unlock_tvar_def)
  then have f': "wqs s1 = wqs s" "closure_kind s1 = closure_kind s"
    "\<And>v. first_watch_queue_entry (tvars s1 v) = first_watch_queue_entry (tvars s v)"
    by (simp_all add: woken_frame_def)
  have u: "write_back False (e # es) s = write_back False es s1"
    by (simp add: unpark_waiters_on_wakes [OF q] s1_def ws_def)
  have w: "watching s Q (e # es) x \<longleftrightarrow> x \<in> set ws \<or> watching s1 Q es x" for x
    unfolding watching_def waiters_frame [OF f'(1,2)] by (simp add: ws_def)
  have b: "why_blocked s1 x = BlockedOnSTM \<longleftrightarrow> why_blocked s x = BlockedOnSTM \<and> x \<notin> set ws" for x
    by (simp add: s1_def fold_unpark_blocked)
  have r: "runnable s x \<or> why_blocked s x = BlockedOnSTM \<and> x \<in> set ws \<Longrightarrow> runnable s1 x" for x
    using fold_unpark_runnable [of s x ws] by (simp add: s1_def)
  have "wq_of s1 (tvar e') (Q (tvar e'))" if "e' \<in> set es" for e'
    using Cons.prems [of e'] that by (simp add: wq_of_def f'(3) dll_frame [OF f'(1)])
  from Cons.IH [OF this] obtain s' where s': "write_back False es s1 = Some s'" "woken_frame s1 s'"
    "\<And>x. why_blocked s' x = BlockedOnSTM \<longleftrightarrow> why_blocked s1 x = BlockedOnSTM \<and> \<not> watching s1 Q es x"
    "\<And>x. runnable s1 x \<or> why_blocked s1 x = BlockedOnSTM \<and> watching s1 Q es x \<Longrightarrow> runnable s' x"
    by blast
  have "runnable s' x" if "runnable s x \<or> why_blocked s x = BlockedOnSTM \<and> watching s Q (e # es) x" for x
    using s'(4) [of x] r [of x] b [of x] w [of x] that by blast
  moreover have "why_blocked s' x = BlockedOnSTM \<longleftrightarrow> why_blocked s x = BlockedOnSTM \<and> \<not> watching s Q (e # es) x" for x
    using s'(3) [of x] b [of x] w [of x] by blast
  ultimately show ?case using u s'(1) woken_frame_trans [OF f s'(2)] by metis
qed

lemma free_stg_trec_header_more [simp]: "runnable (free_stg_trec_header t s) x = runnable s x"
  by (simp add: free_stg_trec_header_def runnable_def)

definition commits :: "stm_state \<Rightarrow> addr \<Rightarrow> bool" where
  "commits s t = (trec_state (trecs s t) = TREC_ACTIVE \<and>
     (\<forall>e \<in> set (entries_of s t). current_value (tvars s (tvar e)) = expected_value e))"

lemma commit_returns_wakes:
  assumes "t \<noteq> NO_TREC" "enclosing_trec (trecs s t) = NO_TREC"
    "trec_state (trecs s t) \<in> {TREC_ACTIVE, TREC_CONDEMNED}"
    "invariants_to_check (trecs s t) = END_INVARIANT_CHECK_QUEUE"
    and q: "\<And>e. e \<in> set (entries_of s t) \<Longrightarrow> wq_of s (tvar e) (Q (tvar e))"
  shows "\<exists>s1. stmCommitTransaction t s = Some (commits s t, free_stg_trec_header t s1) \<and>
     (if commits s t
      then woken_frame s s1 \<and> write_back False (entries_of s t) s = Some s1 \<and>
        (\<forall>x. why_blocked s1 x = BlockedOnSTM \<longleftrightarrow> why_blocked s x = BlockedOnSTM \<and> \<not> watching s Q (entries_of s t) x) \<and>
        (\<forall>x. why_blocked s x = BlockedOnSTM \<and> watching s Q (entries_of s t) x \<longrightarrow> runnable s1 x)
      else s1 = s)"
proof -
  have v: "validate_and_acquire_ownership t True s = Some (commits s t)"
    using assms(3) by (auto simp: validate_all commits_def)
  show ?thesis
  proof (cases "commits s t")
    case True
    obtain s1 where s1: "write_back False (entries_of s t) s = Some s1" "woken_frame s s1"
      "\<forall>x. why_blocked s1 x = BlockedOnSTM \<longleftrightarrow> why_blocked s x = BlockedOnSTM \<and> \<not> watching s Q (entries_of s t) x"
      "\<forall>x. why_blocked s x = BlockedOnSTM \<and> watching s Q (entries_of s t) x \<longrightarrow> runnable s1 x"
      using write_back_wakes [of "entries_of s t" s Q, OF q] by blast
    have st: "trec_state (trecs s t) = TREC_ACTIVE" using True by (simp add: commits_def)
    have "stmCommitTransaction t s = Some (commits s t, free_stg_trec_header t s1)"
      using assms(1,2,4) st v True s1(1) by (simp add: stmCommitTransaction_def config_use_read_phase_def)
    then show ?thesis using True s1 by (intro exI [of _ s1]) simp
  next
    case False
    then show ?thesis
      using assms(1-4) by (auto simp: stmCommitTransaction_def v config_use_read_phase_def)
  qed
qed

section \<open>Building and taking apart watch queues\<close>

text \<open>The invariant of the watch queues: \<open>Q v\<close> is the queue of the variable \<open>v\<close>, \<open>F\<close> the list of
  entries to use again; no entry is in two lists, and all come from allocated storage.\<close>

definition wq_inv :: "stm_state \<Rightarrow> (addr \<Rightarrow> addr list) \<Rightarrow> addr list \<Rightarrow> bool" where
  "wq_inv s Q F = ((\<forall>v. wq_of s v (Q v)) \<and>
     lst (\<lambda>q. next_queue_entry (wqs s q)) (free_tvar_watch_queues s) F \<and> distinct F \<and>
     (\<forall>v. distinct (Q v) \<and> set (Q v) \<inter> set F = {}) \<and>
     (\<forall>v w. v \<noteq> w \<longrightarrow> set (Q v) \<inter> set (Q w) = {}) \<and>
     0 < heap_next s \<and> (\<forall>v. \<forall>q \<in> set (Q v). q < heap_next s) \<and> (\<forall>q \<in> set F. q < heap_next s))"

lemma wq_invD:
  assumes "wq_inv s Q F"
  shows "dll s 0 (first_watch_queue_entry (tvars s v)) (Q v)" "distinct (Q v)" "set (Q v) \<inter> set F = {}"
    "v \<noteq> w \<Longrightarrow> set (Q v) \<inter> set (Q w) = {}" "q \<in> set (Q v) \<Longrightarrow> q < heap_next s"
    "lst (\<lambda>q. next_queue_entry (wqs s q)) (free_tvar_watch_queues s) F" "distinct F"
    "q \<in> set F \<Longrightarrow> q < heap_next s" "0 < heap_next s"
  using assms unfolding wq_inv_def wq_of_def by blast+

lemma alloc_watch_queue_inv:
  assumes i: "wq_inv s Q F" and a: "alloc_stg_tvar_watch_queue c s = (q, s')"
  shows "\<exists>F'. wq_inv s' Q F' \<and> q \<notin> set F'" and "q \<notin> set (Q v)" and "q \<noteq> 0" and "q < heap_next s'"
    and "wqs s' = (wqs s)(q := (wqs s q)\<lparr>wq_closure := c\<rparr>)"
    and "tvars s' = tvars s \<and> trecs s' = trecs s \<and> closure_kind s' = closure_kind s \<and>
         why_blocked s' = why_blocked s \<and> run_queue s' = run_queue s"
proof -
  note I = wq_invD [OF i]
  have w: "wqs s' = (wqs s)(q := (wqs s q)\<lparr>wq_closure := c\<rparr>)"
    and fr: "tvars s' = tvars s \<and> trecs s' = trecs s \<and> closure_kind s' = closure_kind s \<and>
         why_blocked s' = why_blocked s \<and> run_queue s' = run_queue s"
    using a by (auto simp: alloc_stg_tvar_watch_queue_def new_stg_tvar_watch_queue_def allocate_def
        Let_def upd_wq_def split: if_splits)
  show "wqs s' = (wqs s)(q := (wqs s q)\<lparr>wq_closure := c\<rparr>)" by (rule w)
  show "tvars s' = tvars s \<and> trecs s' = trecs s \<and> closure_kind s' = closure_kind s \<and>
         why_blocked s' = why_blocked s \<and> run_queue s' = run_queue s" by (rule fr)
  have nx: "(\<lambda>x. next_queue_entry (wqs s' x)) = (\<lambda>x. next_queue_entry (wqs s x))"
    by (auto simp: w)
  have "(\<forall>v. q \<notin> set (Q v)) \<and> q \<noteq> 0 \<and> q < heap_next s' \<and> heap_next s \<le> heap_next s' \<and>
    (\<exists>F'. lst (\<lambda>x. next_queue_entry (wqs s x)) (free_tvar_watch_queues s') F' \<and> distinct F' \<and>
       set F' \<subseteq> set F \<and> q \<notin> set F')"
  proof (cases F)
    case Nil
    then have "q = heap_next s" "heap_next s' = heap_next s + 1" "free_tvar_watch_queues s' = 0"
      using a I(6) by (auto simp: alloc_stg_tvar_watch_queue_def new_stg_tvar_watch_queue_def allocate_def Let_def)
    then show ?thesis
      using I(5,9) by (auto intro!: exI [of _ "[]"])
  next
    case (Cons x F')
    then have "q = x" "heap_next s' = heap_next s" "x \<noteq> 0"
      "free_tvar_watch_queues s' = next_queue_entry (wqs s x)"
      using a I(6) by (auto simp: alloc_stg_tvar_watch_queue_def Let_def)
    then show ?thesis
      using I(3,6,7) I(8) [of x] Cons by (auto intro!: exI [of _ F'])
  qed
  then obtain F' where q: "\<And>v. q \<notin> set (Q v)" "q \<noteq> 0" "q < heap_next s'" "heap_next s \<le> heap_next s'"
    and F': "lst (\<lambda>x. next_queue_entry (wqs s x)) (free_tvar_watch_queues s') F'" "distinct F'"
       "set F' \<subseteq> set F" "q \<notin> set F'"
    by blast
  show "q \<notin> set (Q v)" "q \<noteq> 0" "q < heap_next s'" using q by auto
  have d: "dll s' 0 (first_watch_queue_entry (tvars s v)) (Q v)" for v
    using I(1) [of v] q(1) [of v] by (subst dll_cong [of _ _ s]) (auto simp: w)
  have "wq_inv s' Q F'"
    unfolding wq_inv_def wq_of_def nx
    using d F' q fr I(2,3,4,9) I(5) [THEN less_le_trans [OF _ q(4)]] I(8) [THEN less_le_trans [OF _ q(4)]]
    by (auto; blast)
  then show "\<exists>F'. wq_inv s' Q F' \<and> q \<notin> set F'" using F'(4) by blast
qed

text \<open>What changes when threads are put on watch queues: nothing leaves a queue.\<close>

definition grows :: "stm_state \<Rightarrow> (addr \<Rightarrow> addr list) \<Rightarrow> stm_state \<Rightarrow> (addr \<Rightarrow> addr list) \<Rightarrow> bool" where
  "grows s Q s' Q' = (values s' = values s \<and> trecs s' = trecs s \<and> closure_kind s' = closure_kind s \<and>
     why_blocked s' = why_blocked s \<and> run_queue s' = run_queue s \<and>
     (\<forall>v. \<forall>q \<in> set (Q v). q \<in> set (Q' v) \<and> wq_closure (wqs s' q) = wq_closure (wqs s q)))"

lemma grows_refl: "grows s Q s Q"
  by (simp add: grows_def)

lemma grows_trans: "grows s Q s' Q' \<Longrightarrow> grows s' Q' s'' Q'' \<Longrightarrow> grows s Q s'' Q''"
  unfolding grows_def by (intro conjI allI ballI; metis)

lemma grows_mem:
  "grows s Q s' Q' \<Longrightarrow> q \<in> set (Q v) \<Longrightarrow> q \<in> set (Q' v) \<and> wq_closure (wqs s' q) = wq_closure (wqs s q)"
  unfolding grows_def by blast

lemma push_watcher_inv:
  assumes i: "wq_inv s Q F" and p: "push_watcher v c s = (q, s')"
  shows "\<exists>F'. wq_inv s' (Q(v := q # Q v)) F'" and "grows s Q s' (Q(v := q # Q v))"
    and "wq_closure (wqs s' q) = c" and "\<forall>w. q \<notin> set (Q w)"
proof -
  obtain s1 where a: "alloc_stg_tvar_watch_queue c s = (q, s1)"
    using p by (auto simp: push_watcher_def Let_def split: prod.splits)
  note A = alloc_watch_queue_inv [OF i a]
  obtain F' where F': "wq_inv s1 Q F'" "q \<notin> set F'" using A(1) by blast
  note I = wq_invD [OF F'(1)]
  define fq where "fq = first_watch_queue_entry (tvars s v)"
  have t1: "tvars s1 = tvars s" using A(6) by blast
  have s': "s' = upd_tvar v (\<lambda>x. x\<lparr>first_watch_queue_entry := q\<rparr>)
     (if fq \<noteq> 0 then upd_wq fq (\<lambda>w. w\<lparr>prev_queue_entry := q\<rparr>)
        (upd_wq q (\<lambda>w. w\<lparr>next_queue_entry := fq, prev_queue_entry := 0\<rparr>) s1)
      else upd_wq q (\<lambda>w. w\<lparr>next_queue_entry := fq, prev_queue_entry := 0\<rparr>) s1)"
    using p a by (auto simp: push_watcher_def Let_def fq_def)
  have d: "dll s1 0 fq (Q v)" using I(1) [of v] t1 by (simp add: fq_def)
  have fq: "fq \<noteq> 0 \<Longrightarrow> fq \<in> set (Q v)" using d by (cases "Q v") auto
  have qn: "q \<noteq> fq" using A(2) [of v] A(3) fq by (cases "fq = 0") auto
  have o: "wqs s' x = wqs s1 x" if "x \<noteq> q" "x \<noteq> fq \<or> fq = 0" for x
    using that by (auto simp: s')
  have dv: "dll s' q fq (Q v)"
  proof (cases "Q v")
    case Nil
    then show ?thesis using d by simp
  next
    case (Cons x xs)
    then have x: "fq = x" "x \<noteq> 0" "dll s1 x (next_queue_entry (wqs s1 x)) xs" "x \<notin> set xs" "q \<noteq> x"
      using d I(2) [of v] qn by auto
    have "dll s' x (next_queue_entry (wqs s1 x)) xs"
      using x A(2) [of v] Cons by (subst dll_cong [of _ _ s1]) (auto intro!: o)
    then show ?thesis
      using x Cons by (simp add: s')
  qed
  have dw: "dll s' 0 (first_watch_queue_entry (tvars s1 w)) (Q w)" if "w \<noteq> v" for w
    using I(1) [of w] A(2) [of w] fq I(4) [of v w] that
    by (subst dll_cong [of _ _ s1]) (auto intro!: o)
  have nq: "next_queue_entry (wqs s' q) = fq" "prev_queue_entry (wqs s' q) = 0" "wq_closure (wqs s' q) = c"
    using qn by (auto simp: s' A(5))
  then show "wq_closure (wqs s' q) = c" by simp
  show "\<forall>w. q \<notin> set (Q w)" using A(2) by blast
  have "wq_of s' w ((Q(v := q # Q v)) w)" for w
    using dv dw nq A(3) by (cases "w = v") (auto simp: wq_of_def s')
  moreover have "lst (\<lambda>x. next_queue_entry (wqs s' x)) (free_tvar_watch_queues s') F'"
  proof -
    have "lst (\<lambda>x. next_queue_entry (wqs s' x)) (free_tvar_watch_queues s1) F' =
          lst (\<lambda>x. next_queue_entry (wqs s1 x)) (free_tvar_watch_queues s1) F'"
      unfolding lst_def using F'(2) fq I(3) [of v] by (intro lseg_cong) (auto simp: s')
    moreover have "free_tvar_watch_queues s' = free_tvar_watch_queues s1" by (simp add: s')
    ultimately show ?thesis using I(6) by simp
  qed
  moreover have "heap_next s' = heap_next s1" by (simp add: s')
  ultimately show "\<exists>F'. wq_inv s' (Q(v := q # Q v)) F'"
    using I F'(2) A(2,4) unfolding wq_inv_def by (intro exI [of _ F'] conjI allI) auto
  show "grows s Q s' (Q(v := q # Q v))"
    using A(2,5,6) unfolding grows_def by (auto simp: s' fun_eq_iff)
qed

text \<open>The entries of a record of a waiting thread have watch queue entries of their own, in the queues of their variables.\<close>

definition registered :: "stm_state \<Rightarrow> (addr \<Rightarrow> addr list) \<Rightarrow> addr \<Rightarrow> TRecEntry list \<Rightarrow> bool" where
  "registered s Q tso es = (distinct (List.map new_value es) \<and>
     (\<forall>e \<in> set es. new_value e \<in> set (Q (tvar e)) \<and> wq_closure (wqs s (new_value e)) = tso))"

definition fresh_for :: "(addr \<Rightarrow> addr list) \<Rightarrow> TRecEntry list \<Rightarrow> bool" where
  "fresh_for Q es = (\<forall>e \<in> set es. \<forall>v. new_value e \<notin> set (Q v))"

definition same_reads :: "TRecEntry list \<Rightarrow> TRecEntry list \<Rightarrow> bool" where
  "same_reads es es' = (List.map (\<lambda>e. (tvar e, expected_value e)) es' = List.map (\<lambda>e. (tvar e, expected_value e)) es)"

lemma registered_grows: "grows s Q s' Q' \<Longrightarrow> registered s Q tso es \<Longrightarrow> registered s' Q' tso es"
  unfolding registered_def using grows_mem by metis

lemma fresh_for_grows: "grows s Q s' Q' \<Longrightarrow> fresh_for Q' es \<Longrightarrow> fresh_for Q es"
  unfolding fresh_for_def using grows_mem by metis

lemma registered_append:
  assumes "registered s Q tso es" "registered s Q tso es'" "fresh_for Q0 es'" "\<And>e. e \<in> set es \<Longrightarrow> new_value e \<in> set (Q0 (tvar e))"
  shows "registered s Q tso (es @ es')"
proof -
  have "new_value e \<noteq> new_value e'" if "e \<in> set es" "e' \<in> set es'" for e e'
    using assms(3) assms(4) [OF that(1)] that(2) unfolding fresh_for_def by metis
  then have "set (List.map new_value es) \<inter> set (List.map new_value es') = {}" by auto
  then show ?thesis using assms(1,2) unfolding registered_def by auto
qed

lemma build_chunk_inv:
  assumes "wq_inv s Q F" and "\<And>e. e \<in> set es \<Longrightarrow> values s (tvar e) = expected_value e"
  shows "\<exists>es' s' Q' F'. build_chunk c es s = Some (es', s') \<and> wq_inv s' Q' F' \<and> grows s Q s' Q' \<and>
     same_reads es es' \<and> registered s' Q' c es' \<and> fresh_for Q es'"
  using assms
proof (induction es arbitrary: s Q F)
  case Nil
  then show ?case
    by (auto simp: same_reads_def registered_def fresh_for_def intro!: grows_refl exI [of _ Q] exI [of _ F])
next
  case (Cons e es)
  obtain q s1 where p: "push_watcher (tvar e) c s = (q, s1)"
    by (meson surj_pair)
  let ?Q = "Q(tvar e := q # Q (tvar e))" and ?e = "e\<lparr>new_value := q\<rparr>"
  note P = push_watcher_inv [OF Cons.prems(1) p]
  obtain F1 where F1: "wq_inv s1 ?Q F1" using P(1) by blast
  have "values s1 (tvar e') = expected_value e'" if "e' \<in> set es" for e'
    using P(2) Cons.prems(2) that by (simp add: grows_def fun_eq_iff)
  from Cons.IH [OF F1 this] obtain es' s' Q' F' where r: "build_chunk c es s1 = Some (es', s')"
    "wq_inv s' Q' F'" "grows s1 ?Q s' Q'" "same_reads es es'" "registered s' Q' c es'" "fresh_for ?Q es'"
    by blast
  have "registered s1 ?Q c [?e]" using P(3) by (simp add: registered_def)
  from registered_append [OF registered_grows [OF r(3) this] r(5,6)]
  have "registered s' Q' c (?e # es')" by simp
  moreover have "fresh_for Q (?e # es')"
    using fresh_for_grows [OF P(2) r(6)] P(4) by (simp add: fresh_for_def)
  moreover have "build_chunk c (e # es) s = Some (?e # es', s')"
    using r(1) p Cons.prems(2) by simp
  moreover have "same_reads (e # es) (?e # es')" using r(4) by (simp add: same_reads_def)
  ultimately show ?case
    using r(2) grows_trans [OF P(2) r(3)] by blast
qed

lemma build_chunks_inv:
  assumes "wq_inv s Q F" and "\<And>e. e \<in> set (concat cs) \<Longrightarrow> values s (tvar e) = expected_value e"
  shows "\<exists>cs' s' Q' F'. build_chunks c cs s = Some (cs', s') \<and> wq_inv s' Q' F' \<and> grows s Q s' Q' \<and>
     same_reads (concat cs) (concat cs') \<and> registered s' Q' c (concat cs') \<and> fresh_for Q (concat cs')"
  using assms
proof (induction cs arbitrary: s Q F)
  case Nil
  then show ?case
    by (auto simp: same_reads_def registered_def fresh_for_def intro!: grows_refl exI [of _ Q] exI [of _ F])
next
  case (Cons d cs)
  have "\<And>e. e \<in> set d \<Longrightarrow> values s (tvar e) = expected_value e"
    using Cons.prems(2) by auto
  from build_chunk_inv [OF Cons.prems(1) this] obtain d' s1 Q1 F1 where
    d: "build_chunk c d s = Some (d', s1)" "wq_inv s1 Q1 F1" "grows s Q s1 Q1"
    "same_reads d d'" "registered s1 Q1 c d'" "fresh_for Q d'"
    by blast
  have "values s1 (tvar e) = expected_value e" if "e \<in> set (concat cs)" for e
    using d(3) Cons.prems(2) that by (auto simp: grows_def fun_eq_iff)
  from Cons.IH [OF d(2) this] obtain cs' s' Q' F' where r: "build_chunks c cs s1 = Some (cs', s')"
    "wq_inv s' Q' F'" "grows s1 Q1 s' Q'"
    "same_reads (concat cs) (concat cs')" "registered s' Q' c (concat cs')" "fresh_for Q1 (concat cs')"
    by blast
  have "registered s' Q' c (d' @ concat cs')"
    by (rule registered_append [OF registered_grows [OF r(3) d(5)] r(5,6)]) (use d(5) in \<open>auto simp: registered_def\<close>)
  moreover have "fresh_for Q (d' @ concat cs')"
    using fresh_for_grows [OF d(3) r(6)] d(6) by (auto simp: fresh_for_def)
  moreover have "same_reads (concat (d # cs)) (concat (d' # cs'))"
    using d(4) r(4) by (simp add: same_reads_def)
  moreover have "build_chunks c (d # cs) s = Some (d' # cs', s')" using d(1) r(1) by simp
  ultimately show ?case
    using r(2) grows_trans [OF d(3) r(3)] by (intro exI [of _ "d' # cs'"] exI [of _ s'] exI [of _ Q'] exI [of _ F']) simp
qed

text \<open>A change of the state that watch queues do not see.\<close>

lemma wq_inv_cong:
  assumes "wq_inv s Q F" "wqs s' = wqs s" "heap_next s' = heap_next s"
    "free_tvar_watch_queues s' = free_tvar_watch_queues s"
    "\<And>v. first_watch_queue_entry (tvars s' v) = first_watch_queue_entry (tvars s v)"
  shows "wq_inv s' Q F"
  using assms(1) unfolding wq_inv_def wq_of_def assms(2-5) dll_frame [OF assms(2)] .

lemma mem_waiters:
  "q \<in> set qs \<Longrightarrow> closure_kind s (wq_closure (wqs s q)) = KTSO \<Longrightarrow> wq_closure (wqs s q) \<in> set (waiters s qs)"
  by (auto simp: waiters_def watcher_is_tso_def)

text \<open>
  Claim C10.  The commit of a top-level transaction without invariants always returns, and is atomic: it
  answers true exactly when the transaction is not condemned and every variable it used still holds
  the value the transaction expects; then every variable of its log gets its new value and no other
  variable changes, and otherwise no variable changes.\<close>

theorem commit_all_or_nothing:
  assumes "wq_inv s Q F" and "t \<noteq> NO_TREC" "enclosing_trec (trecs s t) = NO_TREC"
    and "trec_state (trecs s t) \<in> {TREC_ACTIVE, TREC_CONDEMNED}"
    and "invariants_to_check (trecs s t) = END_INVARIANT_CHECK_QUEUE" and "log_ok (chunks (trecs s t))"
  shows "\<exists>s'. stmCommitTransaction t s = Some (commits s t, s') \<and>
     (\<forall>v. current_value (tvars s' v) =
        (case find_entry t v s of
           Some e \<Rightarrow> if commits s t then new_value e else current_value (tvars s v)
         | None \<Rightarrow> current_value (tvars s v)))"
proof -
  have q: "\<And>e. e \<in> set (entries_of s t) \<Longrightarrow> wq_of s (tvar e) (Q (tvar e))"
    using assms(1) by (simp add: wq_inv_def)
  obtain s' where s': "stmCommitTransaction t s = Some (commits s t, s')"
    using commit_returns_wakes [of t s Q, OF assms(2-5) q] by auto
  show ?thesis
    using commit_outcome(2) [OF s' assms(6)] s'
    by (auto simp: fun_eq_iff apply_log_def find_entry_lookup split: option.split)
qed

text \<open>Two transactions that both read the variable 50: 1 waits for the thread 100, 2 writes 7.\<close>

definition wait_example :: stm_state where
  "wait_example = stm_start\<lparr>trecs := (trecs stm_start)
     (1 := \<lparr>enclosing_trec = 0, chunks = [[\<lparr>tvar = 50, expected_value = 0, new_value = 0\<rparr>]],
            invariants_to_check = 0, trec_state = TREC_ACTIVE\<rparr>,
      2 := \<lparr>enclosing_trec = 0, chunks = [[\<lparr>tvar = 50, expected_value = 0, new_value = 7\<rparr>]],
            invariants_to_check = 0, trec_state = TREC_ACTIVE\<rparr>)\<rparr>"

lemma wait_example_inv: "wq_inv wait_example (\<lambda>_. []) []"
  by (simp add: wq_inv_def wq_of_def wait_example_def stm_start_def)

lemma wait_example_facts:
  "enclosing_trec (trecs wait_example 1) = NO_TREC" "enclosing_trec (trecs wait_example 2) = NO_TREC"
  "commits wait_example 1" "commits wait_example 2"
  "why_blocked wait_example 100 = NotBlocked" "closure_kind wait_example 100 = KTSO"
  "invariants_to_check (trecs wait_example 2) = END_INVARIANT_CHECK_QUEUE"
  "trec_state (trecs wait_example 2) \<in> {TREC_ACTIVE, TREC_CONDEMNED}"
  "log_ok (chunks (trecs wait_example 2))"
  "\<lparr>tvar = 50, expected_value = 0, new_value = 0\<rparr> \<in> set (entries_of wait_example 1)"
  "\<lparr>tvar = 50, expected_value = 0, new_value = 7\<rparr> \<in> set (entries_of wait_example 2)"
  "find_entry 2 50 wait_example = Some \<lparr>tvar = 50, expected_value = 0, new_value = 7\<rparr>"
  by (simp_all add: wait_example_def stm_start_def commits_def entries_of_def log_ok_def find_entry_lookup
      TREC_CHUNK_NUM_ENTRIES_def)

theorem commit_all_or_nothing_witness:
  "\<exists>s'. stmCommitTransaction 2 wait_example = Some (True, s') \<and> current_value (tvars s' 50) = 7"
proof -
  note w = wait_example_facts
  obtain s' where s': "stmCommitTransaction 2 wait_example = Some (commits wait_example 2, s')"
    "\<forall>v. current_value (tvars s' v) =
        (case find_entry 2 v wait_example of
           Some e \<Rightarrow> if commits wait_example 2 then new_value e else current_value (tvars wait_example v)
         | None \<Rightarrow> current_value (tvars wait_example v))"
    using commit_all_or_nothing [OF wait_example_inv _ w(2,8,7,9)] by auto
  have "current_value (tvars s' 50) = 7"
    using spec [OF s'(2), of 50] w(4,12) by simp
  then show ?thesis using s'(1) w(4) by auto
qed

end
