(* ===== verification/STMSystem.thy ===== *)
theory STMSystem
  imports STMCommit
begin

text \<open>
  The transactions of all Haskell threads together: starting, reading, writing, validating, waiting,
  aborting and committing interleave in any order, records are given back and used again.  The
  values of the variables are at every moment those that the committed transactions give when they
  run one after the other, each in one piece, in the order of their commits.
\<close>

section \<open>Steps\<close>

text \<open>\<open>system s0 s A W H\<close>: from \<open>s0\<close> the threads have reached \<open>s\<close>; \<open>A\<close> has the operations of every
  record of a running top-level transaction, \<open>W\<close> the records that wait, and \<open>H\<close> the operations of
  the committed transactions.\<close>

inductive system ::
  "stm_state \<Rightarrow> stm_state \<Rightarrow> (addr \<rightharpoonup> stm_op list) \<Rightarrow> addr set \<Rightarrow> stm_op list list \<Rightarrow> bool" for s0 where
  init: "system s0 s0 Map.empty {} []"
| begun: "system s0 s A W H \<Longrightarrow> stmStartTransaction NO_TREC s = Some (t, s') \<Longrightarrow>
    system s0 s' (A(t \<mapsto> [])) W H"
| reads: "system s0 s A W H \<Longrightarrow> A t = Some l \<Longrightarrow> stmReadTVar t v s = Some (x, s') \<Longrightarrow>
    system s0 s' (A(t \<mapsto> l @ [ReadOp v x])) W H"
| writes: "system s0 s A W H \<Longrightarrow> A t = Some l \<Longrightarrow> stmWriteTVar t v x s = Some s' \<Longrightarrow>
    system s0 s' (A(t \<mapsto> l @ [WriteOp v x])) W H"
| validates: "system s0 s A W H \<Longrightarrow> A t = Some l \<Longrightarrow> stmValidateNestOfTransactions t s = Some (b, s') \<Longrightarrow>
    system s0 s' A W H"
| condemns: "system s0 s A W H \<Longrightarrow> A t = Some l \<Longrightarrow> stmCondemnTransaction t s = Some s' \<Longrightarrow>
    system s0 s' A W H"
| commits_to: "system s0 s A W H \<Longrightarrow> A t = Some l \<Longrightarrow> stmCommitTransaction t s = Some (b, s') \<Longrightarrow>
    system s0 s' (A(t := None)) W (if b then H @ [l] else H)"
| aborts: "system s0 s A W H \<Longrightarrow> A t \<noteq> None \<or> t \<in> W \<Longrightarrow> stmAbortTransaction t s = Some s1 \<Longrightarrow>
    stmFreeAbortedTRec t s1 = Some s' \<Longrightarrow> system s0 s' (A(t := None)) (W - {t}) H"
| waits: "system s0 s A W H \<Longrightarrow> A t = Some l \<Longrightarrow> stmWait tso t s = Some (b, s') \<Longrightarrow>
    system s0 s' (A(t := None)) (if b then insert t W else W) H"
| rewaits: "system s0 s A W H \<Longrightarrow> tso_trec s tso \<in> W \<Longrightarrow> stmReWait tso s = Some (b, s') \<Longrightarrow>
    system s0 s' A (if b then W else W - {tso_trec s tso}) H"
| collects: "system s0 s A W H \<Longrightarrow> system s0 (stmPreGCHook s) A W H"
| schedules: "system s0 s A W H \<Longrightarrow>
    system s0 (s\<lparr>why_blocked := w, run_queue := r, tso_trec := f, closure_kind := k\<rparr>) A W H"

section \<open>The invariant\<close>

text \<open>A record in use, and a record to use again.\<close>

definition in_use :: "stm_state \<Rightarrow> addr \<Rightarrow> bool" where
  "in_use s t = (t \<noteq> NO_TREC \<and> t < heap_next s \<and> enclosing_trec (trecs s t) = NO_TREC \<and>
     invariants_to_check (trecs s t) = END_INVARIANT_CHECK_QUEUE \<and> log_ok (chunks (trecs s t)))"

definition free_ok :: "stm_state \<Rightarrow> addr list \<Rightarrow> bool" where
  "free_ok s F = (lst (\<lambda>t. enclosing_trec (trecs s t)) (free_trec_headers s) F \<and>
     (\<forall>t \<in> set F. t < heap_next s \<and> (\<exists>c. chunks (trecs s t) = [c])))"

definition system_inv ::
  "stm_state \<Rightarrow> stm_state \<Rightarrow> (addr \<rightharpoonup> stm_op list) \<Rightarrow> addr set \<Rightarrow> stm_op list list \<Rightarrow> addr list \<Rightarrow> bool" where
  "system_inv s0 s A W H F = (0 < heap_next s \<and> free_ok s F \<and>
     (\<forall>t \<in> dom A \<union> W. in_use s t \<and> t \<notin> set F) \<and> dom A \<inter> W = {} \<and>
     (\<forall>t l. A t = Some l \<longrightarrow> log_of (trecs s t) l) \<and>
     replay (concat H) (values s0) = Some (values s))"

text \<open>A step that changes the record \<open>t\<close> only.\<close>

definition only :: "addr \<Rightarrow> stm_state \<Rightarrow> stm_state \<Rightarrow> bool" where
  "only t s s' = ((\<forall>u. u \<noteq> t \<longrightarrow> trecs s' u = trecs s u) \<and> free_trec_headers s' = free_trec_headers s \<and>
     heap_next s \<le> heap_next s')"

lemma only_refl [simp]: "only t s s"
  by (simp add: only_def)

lemma only_trans: "only t s s' \<Longrightarrow> only t s' s'' \<Longrightarrow> only t s s''"
  by (auto simp: only_def)

lemma free_ok_only:
  assumes "free_ok s F" "only t s s'" "t \<notin> set F"
  shows "free_ok s' F"
proof -
  have e: "\<And>u. u \<in> set F \<Longrightarrow> trecs s' u = trecs s u"
    using assms by (auto simp: only_def)
  then have "lst (\<lambda>t. enclosing_trec (trecs s' t)) (free_trec_headers s) F =
      lst (\<lambda>t. enclosing_trec (trecs s t)) (free_trec_headers s) F"
    by (intro lst_cong) simp
  then show ?thesis
    using assms e by (auto simp: free_ok_def only_def)
qed

text \<open>What a step on the record \<open>t\<close> has to show.\<close>

lemma system_inv_step:
  assumes i: "system_inv s0 s A W H F" and o: "only t s s'" and t: "t \<in> dom A \<union> W"
    and u: "in_use s' t" and v: "replay (concat H') (values s0) = Some (values s')"
    and A': "\<And>u. u \<noteq> t \<Longrightarrow> A' u = A u" "\<And>u. u \<noteq> t \<Longrightarrow> u \<in> W' \<longleftrightarrow> u \<in> W" "\<not> (t \<in> dom A' \<and> t \<in> W')"
    and l: "\<And>l. A' t = Some l \<Longrightarrow> log_of (trecs s' t) l"
  shows "system_inv s0 s' A' W' H' F"
proof -
  have I: "0 < heap_next s" "free_ok s F" "\<And>t. t \<in> dom A \<union> W \<Longrightarrow> in_use s t \<and> t \<notin> set F" "dom A \<inter> W = {}"
    "\<And>t l. A t = Some l \<Longrightarrow> log_of (trecs s t) l"
    using i unfolding system_inv_def by blast+
  have "in_use s' u \<and> u \<notin> set F" if "u \<in> dom A' \<union> W'" for u
  proof (cases "u = t")
    case True
    then show ?thesis using u I(3) [OF t] by simp
  next
    case False
    then have "u \<in> dom A \<union> W" using that A' by (auto simp: dom_def)
    then show ?thesis using I(3) [of u] o False by (auto simp: in_use_def only_def)
  qed
  moreover have "dom A' \<inter> W' = {}"
  proof (rule equals0I)
    fix u assume "u \<in> dom A' \<inter> W'"
    then show False using A' I(4) by (cases "u = t") (auto simp: dom_def)
  qed
  moreover have "log_of (trecs s' u) l'" if "A' u = Some l'" for u l'
    using that l A'(1) [of u] I(5) [of u l'] o by (cases "u = t") (auto simp: only_def)
  moreover have "free_ok s' F"
    using free_ok_only [OF I(2) o] I(3) [OF t] by blast
  ultimately show ?thesis
    using v I(1) o by (auto simp: system_inv_def only_def)
qed

text \<open>Giving the record \<open>t\<close> back.\<close>

lemma system_inv_free:
  assumes i: "system_inv s0 s A W H F" and o: "only t s s1" and t: "t \<in> dom A \<union> W"
    and c: "chunks (trecs s1 t) \<noteq> []" and v: "replay (concat H') (values s0) = Some (values s1)"
  shows "system_inv s0 (free_stg_trec_header t s1) (A(t := None)) (W - {t}) H' (t # F)"
proof -
  have I: "0 < heap_next s" "free_ok s F" "\<And>t. t \<in> dom A \<union> W \<Longrightarrow> in_use s t \<and> t \<notin> set F" "dom A \<inter> W = {}"
    "\<And>t l. A t = Some l \<Longrightarrow> log_of (trecs s t) l"
    using i unfolding system_inv_def by blast+
  define s' where "s' = free_stg_trec_header t s1"
  have f: "free_trec_headers s' = t" "heap_next s' = heap_next s1" "tvars s' = tvars s1"
    "trecs s' = (trecs s1)(t := (trecs s1 t)\<lparr>chunks := take 1 (chunks (trecs s1 t)),
       enclosing_trec := free_trec_headers s1\<rparr>)"
    by (simp_all add: s'_def free_stg_trec_header_def)
  have F: "free_ok s1 F" using free_ok_only [OF I(2) o] I(3) [OF t] by blast
  have tF: "t \<notin> set F" "t \<noteq> 0" "t < heap_next s" using I(3) [OF t] by (auto simp: in_use_def)
  have "lst (\<lambda>u. enclosing_trec (trecs s' u)) (free_trec_headers s1) F =
        lst (\<lambda>u. enclosing_trec (trecs s1 u)) (free_trec_headers s1) F"
    using tF by (intro lst_cong) (auto simp: f)
  moreover have "\<exists>c. take 1 (chunks (trecs s1 t)) = [c]"
    using c by (cases "chunks (trecs s1 t)") auto
  moreover have "enclosing_trec (trecs s' t) = free_trec_headers s1"
    "chunks (trecs s' t) = take 1 (chunks (trecs s1 t))" "\<And>u. u \<noteq> t \<Longrightarrow> trecs s' u = trecs s1 u"
    by (simp_all add: f(4))
  moreover have "t < heap_next s1" using tF o by (simp add: only_def)
  ultimately have "free_ok s' (t # F)"
    unfolding free_ok_def f(1,2) using F tF by (auto simp: free_ok_def) (metis)
  moreover have "in_use s' u \<and> u \<notin> set (t # F)" if "u \<in> dom (A(t := None)) \<union> (W - {t})" for u
  proof -
    have "u \<noteq> t" "u \<in> dom A \<union> W" using that by auto
    then show ?thesis using I(3) [of u] o by (auto simp: in_use_def only_def f)
  qed
  ultimately show ?thesis
    unfolding s'_def [symmetric] using I(1,4,5) v o by (auto simp: system_inv_def f only_def)
qed

section \<open>What the operations change\<close>

text \<open>A change of watch queues and threads only.\<close>

definition quiet :: "stm_state \<Rightarrow> stm_state \<Rightarrow> bool" where
  "quiet s s' = (values s' = values s \<and> trecs s' = trecs s \<and> free_trec_headers s' = free_trec_headers s \<and>
     heap_next s \<le> heap_next s')"

lemma quiet_refl [simp]: "quiet s s"
  by (simp add: quiet_def)

lemma quiet_trans: "quiet s s' \<Longrightarrow> quiet s' s'' \<Longrightarrow> quiet s s''"
  by (auto simp: quiet_def)

lemma quiet_only: "quiet s s' \<Longrightarrow> only t s s'"
  by (simp add: quiet_def only_def)

lemma free_headers_upd [simp]:
  "free_trec_headers (upd_trec t f s) = free_trec_headers s"
  "free_trec_headers (upd_wq q g s) = free_trec_headers s"
  "free_trec_headers (upd_tvar v h s) = free_trec_headers s"
  by (simp_all add: upd_trec_def upd_wq_def upd_tvar_def)

lemma unpark_back_quiet: "unpark_back q s = Some s' \<Longrightarrow> quiet s s'"
proof (induction rule: unpark_back.raw_induct [rotated, consumes 1, case_names step])
  case (step f q s s')
  define s1 where "s1 = (if watcher_is_tso s q then unpark_tso (wq_closure (wqs s q)) s else s)"
  have "quiet s s1"
    by (simp add: s1_def quiet_def unpark_tso_def)
  then show ?case
    using step by (auto simp: s1_def [symmetric] split: if_splits intro: quiet_trans)
qed

lemma unpark_waiters_on_quiet: "unpark_waiters_on v s = Some s' \<Longrightarrow> quiet s s'"
  by (auto simp: unpark_waiters_on_def Let_def bind_eq_Some_conv dest: unpark_back_quiet)

lemma write_back_only: "write_back False es s = Some s' \<Longrightarrow> only t s s'"
proof (induction es arbitrary: s)
  case (Cons e es)
  then obtain s1 where s1: "unpark_waiters_on (tvar e) s = Some s1"
    "write_back False es (unlock_tvar (tvar e) (new_value e) True s1) = Some s'"
    by (auto simp: bind_eq_Some_conv)
  have "only t s1 (unlock_tvar (tvar e) (new_value e) True s1)"
    by (simp add: only_def unlock_tvar_def)
  then show ?case
    using Cons.IH [OF s1(2)] quiet_only [OF unpark_waiters_on_quiet [OF s1(1)]] by (blast intro: only_trans)
qed simp

lemma push_watcher_quiet: "push_watcher v c s = (q, s') \<Longrightarrow> quiet s s'"
  by (auto simp: push_watcher_def alloc_stg_tvar_watch_queue_def new_stg_tvar_watch_queue_def allocate_def
      Let_def quiet_def fun_eq_iff split: if_splits prod.splits)

lemma unlink_watcher_quiet: "unlink_watcher v q s = Some s' \<Longrightarrow> quiet s s'"
  by (auto simp: unlink_watcher_def free_stg_tvar_watch_queue_def Let_def quiet_def fun_eq_iff split: if_splits)

lemma remove_watchers_quiet: "remove_watchers es s = Some s' \<Longrightarrow> quiet s s'"
proof (induction es arbitrary: s)
  case (Cons e es)
  then show ?case
    by (auto simp: bind_eq_Some_conv unlock_tvar_def Let_def dest!: unlink_watcher_quiet intro: quiet_trans)
qed simp

lemma remove_entries_quiet: "remove_watch_queue_entries_for_trec t s = Some s' \<Longrightarrow> quiet s s'"
  by (auto simp: remove_watch_queue_entries_for_trec_def dest: remove_watchers_quiet split: if_splits)

lemma build_chunk_quiet:
  "build_chunk c es s = Some (es', s') \<Longrightarrow> quiet s s' \<and> length es' = length es \<and> List.map tvar es' = List.map tvar es"
proof (induction es arbitrary: s es')
  case (Cons e es)
  obtain q s1 where p: "push_watcher (tvar e) c s = (q, s1)"
    by (meson surj_pair)
  then obtain es1 where r: "build_chunk c es s1 = Some (es1, s')" "es' = e\<lparr>new_value := q\<rparr> # es1"
    using Cons.prems by (auto simp: bind_eq_Some_conv split: if_splits)
  show ?case
    using Cons.IH [OF r(1)] push_watcher_quiet [OF p] by (auto simp: r(2) intro: quiet_trans)
qed simp

lemma build_chunks_quiet:
  "build_chunks c cs s = Some (cs', s') \<Longrightarrow>
   quiet s s' \<and> List.map (List.map tvar) cs' = List.map (List.map tvar) cs"
proof (induction cs arbitrary: s cs')
  case (Cons d cs)
  then obtain d' s1 cs1 where r: "build_chunk c d s = Some (d', s1)" "build_chunks c cs s1 = Some (cs1, s')"
    "cs' = d' # cs1"
    by (auto simp: bind_eq_Some_conv)
  show ?case
    using Cons.IH [OF r(2)] build_chunk_quiet [OF r(1)] by (auto simp: r(3) intro: quiet_trans)
qed simp

lemma log_ok_tvars:
  assumes "List.map (List.map tvar) cs' = List.map (List.map tvar) cs" and "log_ok cs"
  shows "log_ok cs'"
proof -
  have c: "List.map tvar (concat cs') = List.map tvar (concat cs)"
    unfolding map_concat assms(1) ..
  have l: "List.map length cs' = List.map length cs"
    using arg_cong [OF assms(1), of "List.map length"] by (simp add: comp_def)
  have "length ` set (tl cs') = length ` set (tl cs)"
    using l by (metis list.set_map map_tl)
  then have "\<forall>c \<in> set (tl cs'). length c = TREC_CHUNK_NUM_ENTRIES"
    using assms(2) unfolding log_ok_def by (metis (no_types, lifting) image_iff)
  moreover have "cs' \<noteq> []" "length (hd cs') = length (hd cs)"
    using l assms(2) by (cases cs; cases cs'; auto simp: log_ok_def)+
  ultimately show ?thesis
    using assms(2) c by (simp add: log_ok_def)
qed

section \<open>Every step keeps the invariant\<close>

lemma start_inv:
  assumes i: "system_inv s0 s A W H F" and b: "stmStartTransaction NO_TREC s = Some (t, s')"
  shows "\<exists>F'. system_inv s0 s' (A(t \<mapsto> [])) W H F'"
proof -
  have I: "0 < heap_next s" "free_ok s F" "\<And>t. t \<in> dom A \<union> W \<Longrightarrow> in_use s t \<and> t \<notin> set F" "dom A \<inter> W = {}"
    "\<And>t l. A t = Some l \<Longrightarrow> log_of (trecs s t) l" "replay (concat H) (values s0) = Some (values s)"
    using i unfolding system_inv_def by blast+
  define r where "r = \<lparr>enclosing_trec = 0, chunks = [[]], invariants_to_check = 0, trec_state = TREC_ACTIVE\<rparr>"
  have "\<exists>F'. t \<notin> dom A \<union> W \<and> t \<noteq> 0 \<and> t < heap_next s' \<and> heap_next s \<le> heap_next s' \<and> tvars s' = tvars s \<and>
      trecs s' = (trecs s)(t := r) \<and> set F' \<subseteq> set F \<and> t \<notin> set F' \<and>
      lst (\<lambda>t. enclosing_trec (trecs s t)) (free_trec_headers s') F'"
  proof (cases F)
    case Nil
    then have f: "free_trec_headers s = 0" using I(2) by (simp add: free_ok_def)
    then have "t = heap_next s" "trecs s' = (trecs s)(t := r)" "heap_next s' = heap_next s + 1"
      "free_trec_headers s' = 0" "tvars s' = tvars s"
      using b by (auto simp: stmStartTransaction_def alloc_stg_trec_header_def new_stg_trec_header_def
          allocate_def start_state_def r_def)
    moreover have "heap_next s \<notin> dom A \<union> W" using I(3) by (auto simp: in_use_def)
    ultimately show ?thesis using I(1) by (intro exI [of _ "[]"]) auto
  next
    case (Cons x F')
    then have f: "free_trec_headers s = x" "x \<noteq> 0" "x < heap_next s" "\<exists>c. chunks (trecs s x) = [c]"
      "lst (\<lambda>t. enclosing_trec (trecs s t)) (enclosing_trec (trecs s x)) F'"
      using I(2) by (auto simp: free_ok_def)
    then have "t = x" "trecs s' = (trecs s)(t := r)" "heap_next s' = heap_next s"
      "free_trec_headers s' = enclosing_trec (trecs s x)" "tvars s' = tvars s"
      using b by (auto simp: stmStartTransaction_def alloc_stg_trec_header_def start_state_def r_def)
    moreover have "x \<notin> dom A \<union> W" using I(3) Cons by auto
    moreover have "x \<notin> set F'" using I(2) Cons lst_distinct [of _ _ F] by (auto simp: free_ok_def)
    ultimately show ?thesis using f Cons by (intro exI [of _ F']) auto
  qed
  then obtain F' where t: "t \<notin> dom A \<union> W" "t \<noteq> 0" "t < heap_next s'" "heap_next s \<le> heap_next s'"
    "tvars s' = tvars s" "trecs s' = (trecs s)(t := r)" "set F' \<subseteq> set F" "t \<notin> set F'"
    "lst (\<lambda>t. enclosing_trec (trecs s t)) (free_trec_headers s') F'"
    by blast
  have "lst (\<lambda>t. enclosing_trec (trecs s' t)) (free_trec_headers s') F' =
        lst (\<lambda>t. enclosing_trec (trecs s t)) (free_trec_headers s') F'"
    using t(8) by (intro lst_cong) (auto simp: t(6))
  moreover have "u < heap_next s' \<and> (\<exists>c. chunks (trecs s' u) = [c])" if "u \<in> set F'" for u
  proof -
    have "u \<in> set F" "u \<noteq> t" using that t(7,8) by auto
    then show ?thesis using I(2) t(4,6) by (auto simp: free_ok_def)
  qed
  ultimately have "free_ok s' F'"
    using t(9) by (simp add: free_ok_def)
  moreover have "in_use s' u \<and> u \<notin> set F'" if "u \<in> dom (A(t \<mapsto> [])) \<union> W" for u
  proof (cases "u = t")
    case True
    then show ?thesis using t by (simp add: in_use_def r_def log_ok_def)
  next
    case False
    then show ?thesis using I(3) [of u] t that by (auto simp: in_use_def)
  qed
  moreover have "log_of (trecs s' u) l" if "(A(t \<mapsto> [])) u = Some l" for u l
  proof (cases "u = t")
    case True
    then show ?thesis using that log_of_start [of r] by (simp add: t(6) r_def)
  next
    case False
    then show ?thesis using that I(5) [of u l] by (simp add: t(6))
  qed
  ultimately show ?thesis
    using I(1,4,6) t(1,4,5) by (auto simp: system_inv_def intro!: exI [of _ F'])
qed

lemma in_useD:
  assumes "system_inv s0 s A W H F" and "t \<in> dom A \<union> W"
  shows "in_use s t" "replay (concat H) (values s0) = Some (values s)"
  using assms by (auto simp: system_inv_def)

lemma log_ofD:
  assumes "system_inv s0 s A W H F" and "A t = Some l"
  shows "log_of (trecs s t) l" "t \<in> dom A \<union> W" "t \<notin> W"
  using assms unfolding system_inv_def by auto

text \<open>Reading, writing, validating and condemning.\<close>

lemma running_inv:
  assumes i: "system_inv s0 s A W H F" and A: "A t = Some l" and o: "only t s s'"
    and v: "values s' = values s" and l': "log_of (trecs s' t) l'"
    and n: "invariants_to_check (trecs s' t) = invariants_to_check (trecs s t)"
  shows "system_inv s0 s' (A(t \<mapsto> l')) W H F"
proof (rule system_inv_step [OF i o log_ofD(2) [OF i A]])
  note u = in_useD [OF i log_ofD(2) [OF i A]]
  show "in_use s' t"
    using u(1) o l' n by (auto simp: in_use_def only_def log_of_def)
  show "replay (concat H) (values s0) = Some (values s')"
    using u(2) v by simp
qed (use log_ofD(3) [OF i A] l' in auto)

lemma read_only_record:
  assumes "stmReadTVar t v s = Some (x, s')"
  shows "only t s s' \<and> values s' = values s \<and> invariants_to_check (trecs s' t) = invariants_to_check (trecs s t)"
proof -
  obtain r where "get_entry_for t v s = Some r"
    using assms by (auto simp: stmReadTVar_def bind_eq_Some_conv split: if_splits)
  then show ?thesis
    using assms by (cases r) (auto simp: stmReadTVar_def only_def Let_def get_new_entry_def split: if_splits)
qed

lemma write_only_record:
  assumes "stmWriteTVar t v x s = Some s'"
  shows "only t s s' \<and> values s' = values s \<and> invariants_to_check (trecs s' t) = invariants_to_check (trecs s t)"
proof -
  obtain r where "get_entry_for t v s = Some r"
    using assms by (auto simp: stmWriteTVar_def bind_eq_Some_conv split: if_splits)
  then show ?thesis
    using assms by (cases r) (auto simp: stmWriteTVar_def only_def Let_def get_new_entry_def split: if_splits)
qed

text \<open>A change of the state of a record.\<close>

lemma set_state_only:
  "only t s (set_state t st s)" "tvars (set_state t st s) = tvars s"
  "trecs (set_state t st s) t = (trecs s t)\<lparr>trec_state := st\<rparr>"
  by (simp_all add: only_def set_state_def)

lemma log_of_state [simp]: "log_of (r\<lparr>trec_state := st\<rparr>) l = log_of r l"
  by (simp add: log_of_def)

lemma validate_only_record:
  assumes "stmValidateNestOfTransactions t s = Some (b, s')" and "log_of (trecs s t) l"
  shows "only t s s' \<and> values s' = values s \<and> invariants_to_check (trecs s' t) = invariants_to_check (trecs s t) \<and>
     log_of (trecs s' t) l"
  using assms by (auto simp: stmValidateNestOfTransactions_def bind_eq_Some_conv set_state_only split: if_splits)

lemma condemn_only_record:
  assumes c: "stmCondemnTransaction t s = Some s'" and l: "log_of (trecs s t) l"
  shows "only t s s' \<and> values s' = values s \<and> invariants_to_check (trecs s' t) = invariants_to_check (trecs s t) \<and>
     log_of (trecs s' t) l"
proof -
  obtain s1 where "(if trec_state (trecs s t) = TREC_WAITING
      then remove_watch_queue_entries_for_trec t s else Some s) = Some s1" "s' = set_state t TREC_CONDEMNED s1"
    using c by (auto simp: stmCondemnTransaction_def bind_eq_Some_conv split: if_splits)
  then have s1: "quiet s s1" "s' = set_state t TREC_CONDEMNED s1"
    by (auto split: if_splits dest: remove_entries_quiet)
  have "only t s s'"
    using only_trans [OF quiet_only [OF s1(1)] set_state_only(1)] s1(2) by simp
  then show ?thesis
    using s1 l by (simp add: set_state_only quiet_def)
qed

lemma commit_inv:
  assumes i: "system_inv s0 s A W H F" and A: "A t = Some l" and c: "stmCommitTransaction t s = Some (b, s')"
  shows "system_inv s0 s' (A(t := None)) W (if b then H @ [l] else H) (t # F)"
proof -
  note L = log_ofD [OF i A]
  note u = in_useD [OF i L(2)]
  have ok: "log_ok (chunks (trecs s t))" "chunks (trecs s t) \<noteq> []"
    using u(1) by (auto simp: in_use_def log_ok_def)
  have "\<exists>s1. only t s s1 \<and> trecs s1 = trecs s \<and> s' = free_stg_trec_header t s1"
  proof (cases b)
    case True
    then obtain s1 where s1: "write_back False (entries_of s t) s = Some s1" "s' = free_stg_trec_header t s1"
      using c u(1) by (auto simp: stmCommitTransaction_def in_use_def config_use_read_phase_def bind_eq_Some_conv
          split: if_splits)
    have "trecs s1 = trecs s"
      using write_back_values [OF s1(1)] ok(1) by (simp add: log_ok_def entries_of_def)
    then show ?thesis using s1(2) write_back_only [OF s1(1)] by blast
  next
    case False
    then have "s' = free_stg_trec_header t s"
      using c u(1) by (auto simp: stmCommitTransaction_def in_use_def config_use_read_phase_def bind_eq_Some_conv
          split: if_splits)
    then show ?thesis by (intro exI [of _ s]) simp
  qed
  then obtain s1 where s1: "only t s s1" "trecs s1 = trecs s" "s' = free_stg_trec_header t s1"
    by blast
  note o = commit_outcome [OF c ok(1)]
  have "replay (concat (if b then H @ [l] else H)) (values s0) = Some (values s')"
  proof (cases b)
    case True
    then have "replay l (values s) = Some (values s')"
      using o L(1) by (simp add: log_of_def entries_of_def)
    then show ?thesis using True u(2) by (simp add: replay_append)
  qed (use o u(2) in simp)
  then have "replay (concat (if b then H @ [l] else H)) (values s0) = Some (values s1)"
    by (simp add: s1(3))
  from system_inv_free [OF i s1(1) L(2) _ this] show ?thesis
    using ok(2) L(3) s1(2,3) by simp
qed

lemma abort_inv:
  assumes i: "system_inv s0 s A W H F" and t: "A t \<noteq> None \<or> t \<in> W"
    and a: "stmAbortTransaction t s = Some s1" "stmFreeAbortedTRec t s1 = Some s'"
  shows "system_inv s0 s' (A(t := None)) (W - {t}) H (t # F)"
proof -
  have t': "t \<in> dom A \<union> W" using t by auto
  note u = in_useD [OF i t']
  obtain s2 where "(if trec_state (trecs s t) = TREC_WAITING
      then remove_watch_queue_entries_for_trec t s else Some s) = Some s2" "s1 = set_state t TREC_ABORTED s2"
    using a(1) u(1) by (auto simp: stmAbortTransaction_def in_use_def bind_eq_Some_conv split: if_splits)
  then have s2: "quiet s s2" "s1 = set_state t TREC_ABORTED s2"
    by (auto split: if_splits dest: remove_entries_quiet)
  have "only t s s1"
    using only_trans [OF quiet_only [OF s2(1)] set_state_only(1)] s2(2) by simp
  moreover have "s' = free_stg_trec_header t s1"
    using a(2) by (simp add: stmFreeAbortedTRec_def split: if_splits)
  ultimately show ?thesis
    using system_inv_free [OF i _ t', of s1 H] u s2 by (simp add: set_state_only quiet_def in_use_def log_ok_def)
qed

lemma wait_inv:
  assumes i: "system_inv s0 s A W H F" and A: "A t = Some l" and w: "stmWait tso t s = Some (b, s')"
  shows "\<exists>F'. system_inv s0 s' (A(t := None)) (if b then insert t W else W) H F'"
proof -
  note L = log_ofD [OF i A]
  note u = in_useD [OF i L(2)]
  show ?thesis
  proof (cases b)
    case True
    then obtain cs s1 where b: "build_chunks tso (chunks (trecs s t)) s = Some (cs, s1)"
      and s': "s' = set_state t TREC_WAITING ((upd_trec t (\<lambda>r. r\<lparr>chunks := cs\<rparr>) s1)
                 \<lparr>why_blocked := (why_blocked s1)(tso := BlockedOnSTM)\<rparr>)"
      using w by (auto simp: stmWait_def build_watch_queue_entries_for_trec_def park_tso_def bind_eq_Some_conv
          split: if_splits)
    note q = build_chunks_quiet [OF b]
    have c: "log_ok cs"
      using log_ok_tvars [OF conjunct2 [OF q]] u(1) by (simp add: in_use_def)
    have o: "only t s s'" "values s' = values s" "in_use s' t"
      using q u(1) c by (auto simp: s' only_def quiet_def set_state_def in_use_def)
    show ?thesis
      using system_inv_step [OF i o(1) L(2) o(3), of H "A(t := None)" "insert t W"] u(2) o(2) True by auto
  next
    case False
    then have "s' = free_stg_trec_header t s"
      using w by (auto simp: stmWait_def bind_eq_Some_conv split: if_splits)
    then show ?thesis
      using system_inv_free [OF i only_refl L(2) _ u(2)] u(1) L(3) False by (auto simp: in_use_def log_ok_def)
  qed
qed

lemma rewait_inv:
  assumes i: "system_inv s0 s A W H F" and t: "tso_trec s tso \<in> W" and w: "stmReWait tso s = Some (b, s')"
  shows "\<exists>F'. system_inv s0 s' A (if b then W else W - {tso_trec s tso}) H F'"
proof -
  let ?t = "tso_trec s tso"
  have t': "?t \<in> dom A \<union> W" using t by simp
  note u = in_useD [OF i t']
  have n: "A ?t = None" using i t by (auto simp: system_inv_def)
  show ?thesis
  proof (cases b)
    case True
    then have s': "s' = s\<lparr>why_blocked := (why_blocked s)(tso := BlockedOnSTM)\<rparr>"
      using w by (auto simp: stmReWait_def Let_def park_tso_def bind_eq_Some_conv split: if_splits)
    then have q: "quiet s s'" by (simp add: quiet_def)
    then have "in_use s' ?t" using u(1) by (simp add: quiet_def in_use_def)
    then show ?thesis
      using system_inv_step [OF i quiet_only [OF q] t', of H A W] u(2) q n True by (auto simp: quiet_def)
  next
    case False
    obtain s1 where "(if trec_state (trecs s ?t) \<noteq> TREC_CONDEMNED
        then remove_watch_queue_entries_for_trec ?t s else Some s) = Some s1" "s' = free_stg_trec_header ?t s1"
      using w False by (auto simp: stmReWait_def Let_def bind_eq_Some_conv split: if_splits)
    then have s1: "quiet s s1" "s' = free_stg_trec_header ?t s1"
      by (auto split: if_splits dest: remove_entries_quiet)
    have "A(?t := None) = A" using n by auto
    then show ?thesis
      using system_inv_free [OF i quiet_only [OF s1(1)] t', of H] u s1 False
      by (auto simp: quiet_def in_use_def log_ok_def)
  qed
qed

lemma same_records_inv:
  assumes "system_inv s0 s A W H F" and "trecs s' = trecs s" "tvars s' = tvars s" "heap_next s' = heap_next s"
    and "free_ok s' F'" "set F' \<subseteq> set F"
  shows "system_inv s0 s' A W H F'"
  using assms unfolding system_inv_def in_use_def by auto

lemma system_keeps_inv:
  assumes "system s0 s A W H" and "free_trec_headers s0 = NO_TREC" "0 < heap_next s0"
  shows "\<exists>F. system_inv s0 s A W H F"
  using assms
proof (induction rule: system.induct)
  case init
  then show ?case by (auto simp: system_inv_def free_ok_def intro!: exI [of _ "[]"])
next
  case (begun s A W H t s')
  then show ?case using start_inv by blast
next
  case (reads s A W H t l v x s')
  then obtain F where i: "system_inv s0 s A W H F" by blast
  show ?case
    using running_inv [OF i reads(2)] read_only_record [OF reads(3)]
      stmReadTVar_log [OF log_ofD(1) [OF i reads(2)] reads(3)] by blast
next
  case (writes s A W H t l v x s')
  then obtain F where i: "system_inv s0 s A W H F" by blast
  show ?case
    using running_inv [OF i writes(2)] write_only_record [OF writes(3)]
      stmWriteTVar_log [OF log_ofD(1) [OF i writes(2)] writes(3)] by blast
next
  case (validates s A W H t l b s')
  then obtain F where i: "system_inv s0 s A W H F" by blast
  have "A(t \<mapsto> l) = A" using validates(2) by auto
  then show ?case
    using running_inv [OF i validates(2), of s' l] validate_only_record [OF validates(3) log_ofD(1) [OF i validates(2)]]
    by auto
next
  case (condemns s A W H t l s')
  then obtain F where i: "system_inv s0 s A W H F" by blast
  have "A(t \<mapsto> l) = A" using condemns(2) by auto
  then show ?case
    using running_inv [OF i condemns(2), of s' l] condemn_only_record [OF condemns(3) log_ofD(1) [OF i condemns(2)]]
    by auto
next
  case (commits_to s A W H t l b s')
  then show ?case using commit_inv by blast
next
  case (aborts s A W H t s1 s')
  then show ?case using abort_inv by blast
next
  case (waits s A W H t l tso b s')
  then show ?case using wait_inv by blast
next
  case (rewaits s A W H tso b s')
  then show ?case using rewait_inv by blast
next
  case (collects s A W H)
  then obtain F where "system_inv s0 s A W H F" by blast
  then show ?case
    by (auto simp: stmPreGCHook_def free_ok_def intro!: exI [of _ "[]"] elim!: same_records_inv)
next
  case (schedules s A W H w r f k)
  then obtain F where i: "system_inv s0 s A W H F" by blast
  then have "free_ok s F" by (simp add: system_inv_def)
  then show ?case
    by (intro exI [of _ F] same_records_inv [OF i]) (simp_all add: free_ok_def)
qed

text \<open>
  Claim C4.  The system of all transactions is serialisable: start from any values of the variables and
  let any number of top-level transactions start, read, write, validate, wait, abort and commit in any
  interleaving, with records used again and collections in between.  Then at every moment the
  values of the variables are those that the committed transactions leave when they run alone, one
  after the other in the order of their commits, and each of them reads in that order what it read
  in the interleaving.\<close>

theorem history_is_serial:
  assumes "system s0 s A W H" and "free_trec_headers s0 = NO_TREC" "0 < heap_next s0"
  shows "replay (concat H) (\<lambda>v. current_value (tvars s0 v)) = Some (\<lambda>v. current_value (tvars s v))"
  using system_keeps_inv [OF assms] by (auto simp: system_inv_def)

text \<open>A transaction 1 that writes the variable 50 and commits.\<close>

definition sys_begun :: stm_state where
  "sys_begun = snd (the (stmStartTransaction NO_TREC stm_start))"

definition sys_written :: stm_state where
  "sys_written = the (stmWriteTVar 1 50 7 sys_begun)"

theorem history_is_serial_witness:
  "\<exists>s. system stm_start s Map.empty {} [[WriteOp 50 7]] \<and>
     replay (concat [[WriteOp 50 7]]) (\<lambda>v. current_value (tvars stm_start v)) = Some (\<lambda>v. current_value (tvars s v))"
proof -
  have "map_option fst (stmStartTransaction NO_TREC stm_start) = Some 1"
    "map_option (\<lambda>_. ()) (stmWriteTVar 1 50 7 sys_begun) = Some ()"
    "map_option fst (stmCommitTransaction 1 sys_written) = Some True"
    by code_simp+
  then obtain s where r: "stmStartTransaction NO_TREC stm_start = Some (1, sys_begun)"
    "stmWriteTVar 1 50 7 sys_begun = Some sys_written" "stmCommitTransaction 1 sys_written = Some (True, s)"
    by (auto simp: sys_begun_def sys_written_def)
  have "system stm_start sys_begun (Map.empty(1 \<mapsto> [])) {} []"
    by (rule system.begun [OF system.init r(1)])
  then have "system stm_start sys_written (Map.empty(1 \<mapsto> [], 1 \<mapsto> [] @ [WriteOp 50 7])) {} []"
    by (rule system.writes) (use r(2) in simp_all)
  note w = this
  have e: "(Map.empty(1 \<mapsto> [], 1 \<mapsto> [] @ [WriteOp 50 7]))(1 := None) = (Map.empty :: addr \<rightharpoonup> stm_op list)"
    by (auto simp: fun_eq_iff)
  have y: "system stm_start s Map.empty {} [[WriteOp 50 7]]"
    using system.commits_to [OF w _ r(3), of "[WriteOp 50 7]"] unfolding e by simp
  then show ?thesis
    using history_is_serial [OF y] by (auto simp: stm_start_def)
qed

end
