(* ===== verification/STMWake.thy ===== *)
theory STMWake
  imports STMWait STMSystem
begin

text \<open>
  No wake-up is lost: the threads of a program start, run, commit and abort transactions, go to sleep
  in \<open>retry\<close>, are woken and go to sleep again, in any order.  A thread that sleeps
  has a transaction that is still valid, and the next commit that has one of its variables
  makes it runnable.
\<close>

section \<open>Taking entries off watch queues\<close>

lemma dll_iff: "dll s p q qs \<longleftrightarrow> lst (\<lambda>x. next_queue_entry (wqs s x)) q qs \<and> prevs s p qs"
  by (induction qs arbitrary: p q) auto

lemma prevs_append:
  "prevs s p (xs @ ys) = (prevs s p xs \<and> prevs s (if xs = [] then p else List.last xs) ys)"
  by (induction xs arbitrary: p) auto

lemma prevs_cong:
  "(\<And>x. x \<in> set xs \<Longrightarrow> prev_queue_entry (wqs s' x) = prev_queue_entry (wqs s x)) \<Longrightarrow> prevs s' p xs = prevs s p xs"
  by (induction xs arbitrary: p) auto

lemma dll_unlink:
  assumes d: "dll s 0 h (xs @ q # ys)"
    and nx: "\<And>x. x \<noteq> q \<Longrightarrow> next_queue_entry (wqs s' x) =
      (if xs \<noteq> [] \<and> x = List.last xs then next_queue_entry (wqs s q) else next_queue_entry (wqs s x))"
    and pv: "\<And>x. x \<noteq> q \<Longrightarrow> prev_queue_entry (wqs s' x) =
      (if ys \<noteq> [] \<and> x = hd ys then prev_queue_entry (wqs s q) else prev_queue_entry (wqs s x))"
  shows "dll s' 0 (if xs = [] then next_queue_entry (wqs s q) else h) (xs @ ys)"
proof -
  let ?n = "\<lambda>x. next_queue_entry (wqs s x)" and ?n' = "\<lambda>x. next_queue_entry (wqs s' x)"
  have L: "lst ?n h (xs @ q # ys)" and P: "prevs s 0 (xs @ q # ys)" using d by (auto simp: dll_iff)
  have D: "distinct (xs @ q # ys)" using L by (rule lst_distinct)
  have "lst ?n' (if xs = [] then ?n q else h) (xs @ ys)"
  proof (cases xs rule: rev_cases)
    case Nil
    have "lst ?n' (?n q) ys = lst ?n (?n q) ys"
    proof (rule lst_cong)
      fix x assume "x \<in> set ys"
      then have "x \<noteq> q" using D by auto
      then show "?n' x = ?n x" using nx [of x] Nil by simp
    qed
    then show ?thesis using L Nil by simp
  next
    case (snoc zs a)
    have "lst (?n(a := ?n q)) h (zs @ a # ys)" using lst_unlink [of ?n h zs a q ys] L snoc by simp
    moreover have "lst ?n' h (zs @ a # ys) = lst (?n(a := ?n q)) h (zs @ a # ys)"
    proof (rule lst_cong)
      fix x assume "x \<in> set (zs @ a # ys)"
      then have "x \<noteq> q" using D snoc by auto
      then show "?n' x = (?n(a := ?n q)) x" using nx [of x] snoc by simp
    qed
    ultimately show ?thesis using snoc by simp
  qed
  moreover have "prevs s' 0 xs = prevs s 0 xs"
  proof (rule prevs_cong)
    fix x assume "x \<in> set xs"
    then have "x \<noteq> q" "ys \<noteq> [] \<Longrightarrow> x \<noteq> hd ys" using D by (auto dest: hd_in_set)
    then show "prev_queue_entry (wqs s' x) = prev_queue_entry (wqs s x)" using pv [of x] by auto
  qed
  moreover have "prevs s' (if xs = [] then 0 else List.last xs) ys"
  proof (cases ys)
    case (Cons y zs)
    have "prevs s' y zs = prevs s y zs"
    proof (rule prevs_cong)
      fix x assume "x \<in> set zs"
      then have "x \<noteq> q" "x \<noteq> y" using D Cons by auto
      then show "prev_queue_entry (wqs s' x) = prev_queue_entry (wqs s x)" using pv [of x] Cons by simp
    qed
    then show ?thesis using P D pv Cons by (auto simp: prevs_append)
  qed simp
  ultimately show ?thesis using P by (simp add: dll_iff prevs_append)
qed

text \<open>A change of watch queues only.\<close>

definition queues_only :: "stm_state \<Rightarrow> stm_state \<Rightarrow> bool" where
  "queues_only s s' = (values s' = values s \<and> trecs s' = trecs s \<and> closure_kind s' = closure_kind s \<and>
     why_blocked s' = why_blocked s \<and> (\<forall>x. wq_closure (wqs s' x) = wq_closure (wqs s x)))"

lemma queues_only_trans: "queues_only s s' \<Longrightarrow> queues_only s' s'' \<Longrightarrow> queues_only s s''"
  by (simp add: queues_only_def)

text \<open>The state after \<open>unlink_watcher\<close>, whose assertion holds for an entry of the queue.\<close>

lemma unlink_watcher_at:
  assumes d: "dll s 0 (first_watch_queue_entry (tvars s v)) (xs @ q # ys)" and D: "distinct (xs @ q # ys)"
  obtains s' where "unlink_watcher v q s = Some s'" "queues_only s s'" "heap_next s' = heap_next s"
    "free_tvar_watch_queues s' = q" "next_queue_entry (wqs s' q) = free_tvar_watch_queues s"
    "\<And>x. x \<notin> set (xs @ q # ys) \<Longrightarrow> wqs s' x = wqs s x"
    "\<And>w. first_watch_queue_entry (tvars s' w) =
       (if w = v \<and> xs = [] then next_queue_entry (wqs s q) else first_watch_queue_entry (tvars s w))"
    "\<And>x. x \<noteq> q \<Longrightarrow> next_queue_entry (wqs s' x) =
      (if xs \<noteq> [] \<and> x = List.last xs then next_queue_entry (wqs s q) else next_queue_entry (wqs s x))"
    "\<And>x. x \<noteq> q \<Longrightarrow> prev_queue_entry (wqs s' x) =
      (if ys \<noteq> [] \<and> x = hd ys then prev_queue_entry (wqs s q) else prev_queue_entry (wqs s x))"
proof -
  let ?n = "next_queue_entry (wqs s q)" and ?p = "prev_queue_entry (wqs s q)"
  have L: "lst (\<lambda>x. next_queue_entry (wqs s x)) (first_watch_queue_entry (tvars s v)) (xs @ q # ys)"
    and P: "prevs s 0 (xs @ q # ys)" using d by (auto simp: dll_iff)
  have nz: "0 \<notin> set (xs @ q # ys)" using lst_not_null [OF L] .
  have n: "ys = [] \<Longrightarrow> ?n = 0" "ys \<noteq> [] \<Longrightarrow> ?n = hd ys" "ys \<noteq> [] \<Longrightarrow> ?n \<noteq> 0"
    using lst_suffix [OF L] by (cases ys; auto)+
  have p: "?p = (if xs = [] then 0 else List.last xs)" using P by (simp add: prevs_append)
  have pz: "?p = 0 \<longleftrightarrow> xs = []" using p nz by (cases xs rule: rev_cases) auto
  have fst: "xs = [] \<Longrightarrow> first_watch_queue_entry (tvars s v) = q" using L by simp
  have ne: "?n \<noteq> q" "?p \<noteq> q" using n p D nz by (cases ys; auto dest: last_in_set split: if_splits)+
  define s1 where "s1 = (if ?n \<noteq> 0 then upd_wq ?n (\<lambda>w. w\<lparr>prev_queue_entry := ?p\<rparr>) s else s)"
  define s2 where "s2 = (if xs = [] then upd_tvar v (\<lambda>x. x\<lparr>first_watch_queue_entry := ?n\<rparr>) s1
     else upd_wq ?p (\<lambda>w. w\<lparr>next_queue_entry := ?n\<rparr>) s1)"
  define s' where "s' = free_stg_tvar_watch_queue q s2"
  have f1: "tvars s1 = tvars s" by (simp add: s1_def)
  have "unlink_watcher v q s = Some s'"
    using fst f1 pz unfolding unlink_watcher_def Let_def s1_def [symmetric] s'_def s2_def by simp
  moreover have "queues_only s s'"
    by (auto simp: queues_only_def s'_def s2_def s1_def free_stg_tvar_watch_queue_def fun_eq_iff)
  moreover have "heap_next s' = heap_next s" "free_tvar_watch_queues s' = q"
      "next_queue_entry (wqs s' q) = free_tvar_watch_queues s"
    by (simp_all add: s'_def s2_def s1_def free_stg_tvar_watch_queue_def)
  moreover have "wqs s' x = wqs s x" if "x \<notin> set (xs @ q # ys)" for x
  proof -
    have "x \<noteq> q" "xs \<noteq> [] \<Longrightarrow> x \<noteq> ?p" "?n \<noteq> 0 \<Longrightarrow> x \<noteq> ?n"
      using that p n by (cases ys; auto dest: last_in_set)+
    then show ?thesis by (simp add: s'_def s2_def s1_def free_stg_tvar_watch_queue_def)
  qed
  moreover have "first_watch_queue_entry (tvars s' w) =
       (if w = v \<and> xs = [] then ?n else first_watch_queue_entry (tvars s w))" for w
    by (simp add: s'_def s2_def s1_def free_stg_tvar_watch_queue_def)
  moreover have "next_queue_entry (wqs s' x) =
      (if xs \<noteq> [] \<and> x = List.last xs then ?n else next_queue_entry (wqs s x))" if "x \<noteq> q" for x
    using that p by (simp add: s'_def s2_def s1_def free_stg_tvar_watch_queue_def)
  moreover have "prev_queue_entry (wqs s' x) =
      (if ys \<noteq> [] \<and> x = hd ys then ?p else prev_queue_entry (wqs s x))" if "x \<noteq> q" for x
    using that n nz by (cases ys) (auto simp: s'_def s2_def s1_def free_stg_tvar_watch_queue_def)
  ultimately show thesis by (rule that)
qed

lemma unlink_watcher_inv:
  assumes i: "wq_inv s Q F" and q: "q \<in> set (Q v)"
  shows "\<exists>s'. unlink_watcher v q s = Some s' \<and> wq_inv s' (Q(v := remove1 q (Q v))) (q # F) \<and> queues_only s s'"
proof -
  note I = wq_invD [OF i]
  obtain xs ys where Q: "Q v = xs @ q # ys" "q \<notin> set xs" using q by (meson split_list_first)
  have D: "distinct (xs @ q # ys)" using I(2) [of v] Q by simp
  have d: "dll s 0 (first_watch_queue_entry (tvars s v)) (xs @ q # ys)" using I(1) [of v] Q by simp
  obtain s' where s': "unlink_watcher v q s = Some s'" "queues_only s s'" "heap_next s' = heap_next s"
    "free_tvar_watch_queues s' = q" "next_queue_entry (wqs s' q) = free_tvar_watch_queues s"
    "\<And>x. x \<notin> set (Q v) \<Longrightarrow> wqs s' x = wqs s x"
    "\<And>w. first_watch_queue_entry (tvars s' w) =
       (if w = v \<and> xs = [] then next_queue_entry (wqs s q) else first_watch_queue_entry (tvars s w))"
    "\<And>x. x \<noteq> q \<Longrightarrow> next_queue_entry (wqs s' x) =
      (if xs \<noteq> [] \<and> x = List.last xs then next_queue_entry (wqs s q) else next_queue_entry (wqs s x))"
    "\<And>x. x \<noteq> q \<Longrightarrow> prev_queue_entry (wqs s' x) =
      (if ys \<noteq> [] \<and> x = hd ys then prev_queue_entry (wqs s q) else prev_queue_entry (wqs s x))"
    by (rule unlink_watcher_at [OF d D], unfold Q(1) [symmetric]) (rule that)
  have r: "remove1 q (Q v) = xs @ ys" using Q by (simp add: remove1_append)
  have "wq_of s' w ((Q(v := xs @ ys)) w)" for w
  proof (cases "w = v")
    case True
    then show ?thesis using dll_unlink [OF d s'(8,9)] s'(7) [of v] by (auto simp: wq_of_def)
  next
    case False
    then have "\<And>x. x \<in> set (Q w) \<Longrightarrow> wqs s' x = wqs s x" using s'(6) I(4) [of w v] by blast
    then show ?thesis using False I(1) [of w] s'(7) [of w] dll_cong [of "Q w" s' s] by (simp add: wq_of_def)
  qed
  moreover have "lst (\<lambda>x. next_queue_entry (wqs s' x)) (free_tvar_watch_queues s) F"
  proof (subst lst_cong [of _ _ "\<lambda>x. next_queue_entry (wqs s x)"])
    fix x assume "x \<in> set F"
    then have "x \<notin> set (Q v)" using I(3) [of v] by blast
    then show "next_queue_entry (wqs s' x) = next_queue_entry (wqs s x)" using s'(6) by simp
  qed (rule I(6))
  moreover have "q \<noteq> 0" "q \<notin> set F" using lst_not_null d q Q(1) I(3) [of v] unfolding dll_iff by fastforce+
  moreover have sub: "set ((Q(v := xs @ ys)) w) \<subseteq> set (Q w)" "distinct ((Q(v := xs @ ys)) w)" for w
    using Q D I(2) [of w] by (cases "w = v"; auto)+
  moreover have "q \<notin> set ((Q(v := xs @ ys)) w)" for w
    using q D I(4) [of w v] by (cases "w = v") auto
  moreover have "set ((Q(v := xs @ ys)) w) \<inter> set F = {}" for w using sub(1) [of w] I(3) [of w] by blast
  moreover have "set ((Q(v := xs @ ys)) w) \<inter> set ((Q(v := xs @ ys)) u) = {}" if "w \<noteq> u" for w u
    using sub(1) [of w] sub(1) [of u] I(4) [OF that] by blast
  moreover have "\<forall>w. \<forall>x \<in> set ((Q(v := xs @ ys)) w). x < heap_next s" "q < heap_next s"
    using sub(1) I(5) q by blast+
  ultimately have "wq_inv s' (Q(v := xs @ ys)) (q # F)"
    using I(7,8,9) s'(3,4,5) unfolding wq_inv_def by auto
  then show ?thesis using s'(1,2) r by simp
qed

lemma remove_watchers_inv:
  assumes "wq_inv s Q F" and "registered s Q tso es"
  shows "\<exists>s' Q' F'. remove_watchers es s = Some s' \<and> wq_inv s' Q' F' \<and> queues_only s s' \<and>
     (\<forall>v. set (Q' v) = set (Q v) - new_value ` set es)"
  using assms
proof (induction es arbitrary: s Q F)
  case Nil
  then show ?case by (auto simp: queues_only_def)
next
  case (Cons e es)
  let ?q = "new_value e" and ?Q = "Q(tvar e := remove1 (new_value e) (Q (tvar e)))"
  have q: "?q \<in> set (Q (tvar e))" using Cons.prems(2) by (simp add: registered_def)
  obtain s1 where s1: "unlink_watcher (tvar e) ?q s = Some s1" "wq_inv s1 ?Q (?q # F)" "queues_only s s1"
    using unlink_watcher_inv [OF Cons.prems(1) q] by blast
  have Q: "set (?Q v) = set (Q v) - {?q}" for v
    using q wq_invD(2) [OF Cons.prems(1), of "tvar e"] wq_invD(4) [OF Cons.prems(1), of "tvar e" v] by auto
  have "?q \<notin> new_value ` set es" using Cons.prems(2) by (simp add: registered_def)
  then have "new_value e' \<noteq> ?q" if "e' \<in> set es" for e' using that by (metis imageI)
  then have "registered s1 ?Q tso es"
    using Cons.prems(2) s1(3) unfolding registered_def Q queues_only_def by simp
  from Cons.IH [OF s1(2) this] obtain s' Q' F' where r: "remove_watchers es s1 = Some s'" "wq_inv s' Q' F'"
    "queues_only s1 s'" "\<forall>v. set (Q' v) = set (?Q v) - new_value ` set es" by blast
  have "remove_watchers (e # es) s = Some s'" using s1(1) r(1) by (simp add: unlock_tvar_def)
  moreover have "\<forall>v. set (Q' v) = set (Q v) - new_value ` set (e # es)" using r(4) unfolding Q by auto
  ultimately show ?case using r(2) queues_only_trans [OF s1(3) r(3)] by blast
qed

section \<open>Threads that run, sleep and wake\<close>

text \<open>\<open>threads s0 s A W\<close>: from \<open>s0\<close> the threads have reached \<open>s\<close>; \<open>A\<close> has the records of running
  top-level transactions, and \<open>W\<close> has for each record of a transaction that waits the thread
  that waits in it.  A thread that is woken calls \<open>stmReWait\<close>, or is interrupted and aborts its
  transaction.  The scheduler, an exception or another operation may wake or block a thread and change
  the run queue in any way, but only \<open>stmWait\<close> and \<open>stmReWait\<close> put a thread to sleep in a
  transaction.  Transactions have no invariants.\<close>

inductive threads :: "stm_state \<Rightarrow> stm_state \<Rightarrow> addr set \<Rightarrow> (addr \<rightharpoonup> addr) \<Rightarrow> bool" for s0 where
  init: "threads s0 s0 {} Map.empty"
| begun: "threads s0 s A W \<Longrightarrow> stmStartTransaction NO_TREC s = Some (t, s') \<Longrightarrow> threads s0 s' (insert t A) W"
| reads: "threads s0 s A W \<Longrightarrow> t \<in> A \<Longrightarrow> stmReadTVar t v s = Some (x, s') \<Longrightarrow> threads s0 s' A W"
| writes: "threads s0 s A W \<Longrightarrow> t \<in> A \<Longrightarrow> stmWriteTVar t v x s = Some s' \<Longrightarrow> threads s0 s' A W"
| validates: "threads s0 s A W \<Longrightarrow> t \<in> A \<Longrightarrow> stmValidateNestOfTransactions t s = Some (b, s') \<Longrightarrow> threads s0 s' A W"
| condemns: "threads s0 s A W \<Longrightarrow> t \<in> A \<Longrightarrow> stmCondemnTransaction t s = Some s' \<Longrightarrow> threads s0 s' A W"
| commits_to: "threads s0 s A W \<Longrightarrow> t \<in> A \<Longrightarrow> stmCommitTransaction t s = Some (b, s') \<Longrightarrow> threads s0 s' (A - {t}) W"
| aborts: "threads s0 s A W \<Longrightarrow> t \<in> A \<Longrightarrow> stmAbortTransaction t s = Some s1 \<Longrightarrow> stmFreeAbortedTRec t s1 = Some s' \<Longrightarrow>
    threads s0 s' (A - {t}) W"
| waits: "threads s0 s A W \<Longrightarrow> t \<in> A \<Longrightarrow> closure_kind s tso = KTSO \<Longrightarrow> stmWait tso t s = Some (b, s') \<Longrightarrow>
    threads s0 s' (A - {t}) (if b then W(t \<mapsto> tso) else W)"
| rewaits: "threads s0 s A W \<Longrightarrow> W (tso_trec s tso) = Some tso \<Longrightarrow> why_blocked s tso \<noteq> BlockedOnSTM \<Longrightarrow>
    stmReWait tso s = Some (b, s') \<Longrightarrow> threads s0 s' A (if b then W else W(tso_trec s tso := None))"
| gives_up: "threads s0 s A W \<Longrightarrow> W t = Some tso \<Longrightarrow> why_blocked s tso \<noteq> BlockedOnSTM \<Longrightarrow>
    stmAbortTransaction t s = Some s1 \<Longrightarrow> stmFreeAbortedTRec t s1 = Some s' \<Longrightarrow> threads s0 s' A (W(t := None))"
| collects: "threads s0 s A W \<Longrightarrow> threads s0 (stmPreGCHook s) A W"
| schedules: "threads s0 s A W \<Longrightarrow> (\<And>x. w x = BlockedOnSTM \<Longrightarrow> why_blocked s x = BlockedOnSTM) \<Longrightarrow>
    threads s0 (s\<lparr>why_blocked := w, run_queue := r, tso_trec := f\<rparr>) A W"

text \<open>These are steps of the system of transactions, so that the records are as that system keeps them.\<close>

lemma threads_system:
  assumes "threads s0 s A W" and s0: "free_trec_headers s0 = NO_TREC" "0 < heap_next s0"
  shows "\<exists>A' H. system s0 s A' (dom W) H \<and> dom A' = A"
  using assms(1)
proof (induction rule: threads.induct)
  case init
  then show ?case using system.init by fastforce
next
  case (begun s A W t s')
  then obtain A' H where i: "system s0 s A' (dom W) H" "dom A' = A" by blast
  show ?case using system.begun [OF i(1) begun(2)] i(2) by fastforce
next
  case (reads s A W t v x s')
  then obtain A' H where i: "system s0 s A' (dom W) H" "dom A' = A" by blast
  then obtain l where "A' t = Some l" using reads(2) by auto
  from system.reads [OF i(1) this reads(3)] show ?case using i(2) reads(2) by (metis dom_fun_upd insert_absorb option.distinct(1))
next
  case (writes s A W t v x s')
  then obtain A' H where i: "system s0 s A' (dom W) H" "dom A' = A" by blast
  then obtain l where "A' t = Some l" using writes(2) by auto
  from system.writes [OF i(1) this writes(3)] show ?case using i(2) writes(2) by (metis dom_fun_upd insert_absorb option.distinct(1))
next
  case (validates s A W t b s')
  then show ?case using system.validates by blast
next
  case (condemns s A W t s')
  then show ?case using system.condemns by blast
next
  case (commits_to s A W t b s')
  then obtain A' H where i: "system s0 s A' (dom W) H" "dom A' = A" by blast
  then obtain l where "A' t = Some l" using commits_to(2) by auto
  from system.commits_to [OF i(1) this commits_to(3)] show ?case using i(2) by (metis dom_fun_upd)
next
  case (aborts s A W t s1 s')
  then obtain A' H where i: "system s0 s A' (dom W) H" "dom A' = A" by blast
  have "dom W - {t} = dom W"
    using system_keeps_inv [OF i(1) s0] aborts(2) i(2) by (auto simp: system_inv_def)
  then show ?case using system.aborts [OF i(1) _ aborts(3,4)] i(2) aborts(2) by (metis dom_fun_upd domIff)
next
  case (waits s A W t tso b s')
  then obtain A' H where i: "system s0 s A' (dom W) H" "dom A' = A" by blast
  then obtain l where "A' t = Some l" using waits(2) by auto
  note w = system.waits [OF i(1) this waits(4)]
  have W: "dom (if b then W(t \<mapsto> tso) else W) = (if b then insert t (dom W) else dom W)" by simp
  have "dom (A'(t := None)) = A - {t}" using i(2) by simp
  then show ?case unfolding W using w by blast
next
  case (rewaits s A W tso b s')
  then obtain A' H where i: "system s0 s A' (dom W) H" "dom A' = A" by blast
  have "tso_trec s tso \<in> dom W" using rewaits(2) by blast
  note w = system.rewaits [OF i(1) this rewaits(4)]
  have W: "dom (if b then W else W(tso_trec s tso := None)) = (if b then dom W else dom W - {tso_trec s tso})" by simp
  show ?case unfolding W using w i(2) by blast
next
  case (gives_up s A W t tso s1 s')
  then obtain A' H where i: "system s0 s A' (dom W) H" "dom A' = A" by blast
  have n: "A'(t := None) = A'"
  proof -
    have "dom A' \<inter> dom W = {}" using system_keeps_inv [OF i(1) s0] by (auto simp: system_inv_def)
    then have "A' t = None" using gives_up(2) by blast
    then show ?thesis by (rule fun_upd_idem)
  qed
  have "t \<in> dom W" using gives_up(2) by blast
  then show ?case using system.aborts [OF i(1) _ gives_up(4,5)] i(2) n by (metis dom_fun_upd)
next
  case (collects s A W)
  then show ?case using system.collects by blast
next
  case (schedules s A W w f r)
  then obtain A' H where i: "system s0 s A' (dom W) H" "dom A' = A" by blast
  have "s\<lparr>why_blocked := w, run_queue := r, tso_trec := f\<rparr> =
      s\<lparr>why_blocked := w, run_queue := r, tso_trec := f, closure_kind := closure_kind s\<rparr>" by simp
  then show ?case using system.schedules [OF i(1)] i(2) by metis
qed

section \<open>The invariant\<close>

text \<open>Every record that waits has its own entries in the watch queues of its variables, for its thread; and
  a thread that sleeps has a record all of whose variables hold the values it expects.\<close>

definition still_valid :: "stm_state \<Rightarrow> addr \<Rightarrow> bool" where
  "still_valid s t = (\<forall>e \<in> set (entries_of s t). values s (tvar e) = expected_value e)"

definition watch_entries :: "stm_state \<Rightarrow> addr \<Rightarrow> addr set" where
  "watch_entries s t = new_value ` set (entries_of s t)"

definition wake_inv ::
  "stm_state \<Rightarrow> addr set \<Rightarrow> (addr \<rightharpoonup> addr) \<Rightarrow> (addr \<Rightarrow> addr list) \<Rightarrow> addr list \<Rightarrow> bool" where
  "wake_inv s A W Q F = (wq_inv s Q F \<and> (\<forall>t \<in> A. trec_state (trecs s t) \<noteq> TREC_WAITING) \<and>
     (\<forall>t tso. W t = Some tso \<longrightarrow> trec_state (trecs s t) = TREC_WAITING \<and> closure_kind s tso = KTSO \<and>
        registered s Q tso (entries_of s t)) \<and>
     (\<forall>t \<in> dom W. \<forall>t' \<in> dom W. t \<noteq> t' \<longrightarrow> watch_entries s t \<inter> watch_entries s t' = {}) \<and>
     (\<forall>x. why_blocked s x = BlockedOnSTM \<longrightarrow> (\<exists>t. W t = Some x \<and> still_valid s t)))"

lemma wake_invD:
  assumes "wake_inv s A W Q F"
  shows "wq_inv s Q F" "t \<in> A \<Longrightarrow> trec_state (trecs s t) \<noteq> TREC_WAITING"
    "W t = Some tso \<Longrightarrow> trec_state (trecs s t) = TREC_WAITING"
    "W t = Some tso \<Longrightarrow> closure_kind s tso = KTSO" "W t = Some tso \<Longrightarrow> registered s Q tso (entries_of s t)"
    "t \<in> dom W \<Longrightarrow> t' \<in> dom W \<Longrightarrow> t \<noteq> t' \<Longrightarrow> watch_entries s t \<inter> watch_entries s t' = {}"
    "why_blocked s x = BlockedOnSTM \<Longrightarrow> \<exists>t. W t = Some x \<and> still_valid s t"
  using assms unfolding wake_inv_def by blast+

text \<open>A step that leaves the variables, the watch queues and the records that wait alone, and puts no thread to sleep.\<close>

lemma wq_inv_mono:
  assumes "wq_inv s Q F" "wqs s' = wqs s" "heap_next s \<le> heap_next s'"
    "free_tvar_watch_queues s' = free_tvar_watch_queues s"
    "\<And>v. first_watch_queue_entry (tvars s' v) = first_watch_queue_entry (tvars s v)"
  shows "wq_inv s' Q F"
  using assms(1,3) unfolding wq_inv_def wq_of_def assms(2,4,5) dll_frame [OF assms(2)]
  by (metis less_le_trans)

lemma wake_inv_calm:
  assumes i: "wake_inv s A W Q F" and c: "wqs s' = wqs s" "tvars s' = tvars s" "closure_kind s' = closure_kind s"
    "free_tvar_watch_queues s' = free_tvar_watch_queues s" "heap_next s \<le> heap_next s'"
    and t: "\<And>t. t \<in> dom W \<Longrightarrow> trecs s' t = trecs s t"
    and A: "\<And>t. t \<in> A' \<Longrightarrow> trec_state (trecs s' t) \<noteq> TREC_WAITING"
    and b: "\<And>x. why_blocked s' x = BlockedOnSTM \<Longrightarrow> why_blocked s x = BlockedOnSTM"
  shows "wake_inv s' A' W Q F"
proof -
  note I = wake_invD [OF i]
  have e: "entries_of s' t = entries_of s t" if "t \<in> dom W" for t using t [OF that] by (simp add: entries_of_def)
  have "wq_inv s' Q F" by (rule wq_inv_mono [OF I(1)]) (use c in simp_all)
  moreover have "trec_state (trecs s' t) = TREC_WAITING \<and> closure_kind s' tso = KTSO \<and>
      registered s' Q tso (entries_of s' t)" if "W t = Some tso" for t tso
  proof -
    have "t \<in> dom W" using that by blast
    then show ?thesis using I(3,4,5) [OF that] t [of t] e [of t] c by (simp add: registered_def)
  qed
  moreover have "watch_entries s' t \<inter> watch_entries s' t' = {}" if "t \<in> dom W" "t' \<in> dom W" "t \<noteq> t'" for t t'
    using I(6) [OF that] e that by (simp add: watch_entries_def)
  moreover have "\<exists>t. W t = Some x \<and> still_valid s' t" if "why_blocked s' x = BlockedOnSTM" for x
    using I(7) [OF b [OF that]] e c(2) unfolding still_valid_def by (metis domI)
  ultimately show ?thesis using A unfolding wake_inv_def by blast
qed

text \<open>Commits wake every thread whose variables they write.\<close>

lemma free_header_frame:
  "wqs (free_stg_trec_header t s) = wqs s" "tvars (free_stg_trec_header t s) = tvars s"
  "closure_kind (free_stg_trec_header t s) = closure_kind s" "heap_next (free_stg_trec_header t s) = heap_next s"
  "free_tvar_watch_queues (free_stg_trec_header t s) = free_tvar_watch_queues s"
  "why_blocked (free_stg_trec_header t s) = why_blocked s" "run_queue (free_stg_trec_header t s) = run_queue s"
  "u \<noteq> t \<Longrightarrow> trecs (free_stg_trec_header t s) u = trecs s u"
  by (simp_all add: free_stg_trec_header_def)

lemma wake_inv_free:
  assumes i: "wake_inv s A W Q F" and t: "t \<notin> dom W"
  shows "wake_inv (free_stg_trec_header t s) (A - {t}) W Q F"
proof (rule wake_inv_calm [OF i])
  show "trecs (free_stg_trec_header t s) u = trecs s u" if "u \<in> dom W" for u
    using that t by (intro free_header_frame(8)) blast
  show "trec_state (trecs (free_stg_trec_header t s) u) \<noteq> TREC_WAITING" if "u \<in> A - {t}" for u
    using that wake_invD(2) [OF i, of u] free_header_frame(8) [of u t s] by simp
qed (simp_all add: free_header_frame)

lemma sleeper_watches:
  assumes i: "wake_inv s A W Q F" and W: "W t = Some x" and e: "e \<in> set (entries_of s t)"
  shows "x \<in> set (waiters s (Q (tvar e)))"
  using wake_invD(4,5) [OF i W] e mem_waiters [of "new_value e" "Q (tvar e)" s] by (auto simp: registered_def)

lemma wake_inv_commit:
  assumes i: "wake_inv s A W Q F" and t: "in_use s t" "t \<notin> dom W"
    and c: "stmCommitTransaction t s = Some (b, s')"
  shows "wake_inv s' (A - {t}) W Q F"
proof -
  note I = wake_invD [OF i]
  have u: "t \<noteq> NO_TREC" "enclosing_trec (trecs s t) = NO_TREC" "invariants_to_check (trecs s t) = END_INVARIANT_CHECK_QUEUE"
    "distinct (List.map tvar (entries_of s t))"
    using t(1) by (auto simp: in_use_def log_ok_def entries_of_def)
  have st: "trec_state (trecs s t) \<in> {TREC_ACTIVE, TREC_CONDEMNED}"
    using c by (auto simp: stmCommitTransaction_def split: if_splits)
  have q: "\<And>e. e \<in> set (entries_of s t) \<Longrightarrow> wq_of s (tvar e) (Q (tvar e))"
    using I(1) by (simp add: wq_inv_def)
  obtain s1 where s1: "stmCommitTransaction t s = Some (commits s t, free_stg_trec_header t s1)"
    "if commits s t
      then woken_frame s s1 \<and> write_back False (entries_of s t) s = Some s1 \<and>
        (\<forall>x. why_blocked s1 x = BlockedOnSTM \<longleftrightarrow> why_blocked s x = BlockedOnSTM \<and> \<not> watching s Q (entries_of s t) x) \<and>
        (\<forall>x. why_blocked s x = BlockedOnSTM \<and> watching s Q (entries_of s t) x \<longrightarrow> runnable s1 x)
      else s1 = s"
    using commit_returns_wakes [OF u(1,2) st u(3) q] by blast
  have "wake_inv s1 A W Q F"
  proof (cases "commits s t")
    case True
    then have f: "woken_frame s s1" "write_back False (entries_of s t) s = Some s1"
      "\<And>x. why_blocked s1 x = BlockedOnSTM \<longleftrightarrow> why_blocked s x = BlockedOnSTM \<and> \<not> watching s Q (entries_of s t) x"
      using s1(2) by auto
    have v: "values s1 = apply_log (entries_of s t) (values s)" "trecs s1 = trecs s"
      using write_back_values [OF f(2) u(4)] by auto
    have e: "entries_of s1 = entries_of s" using v(2) by (simp add: entries_of_def fun_eq_iff)
    have "wq_inv s1 Q F" by (rule wq_inv_cong [OF I(1)]) (use f(1) in \<open>simp_all add: woken_frame_def\<close>)
    moreover have "\<exists>t'. W t' = Some x \<and> still_valid s1 t'" if x: "why_blocked s1 x = BlockedOnSTM" for x
    proof -
      obtain t' where t': "W t' = Some x" "still_valid s t'" using I(7) x f(3) by blast
      have "values s1 (tvar e) = values s (tvar e)" if "e \<in> set (entries_of s t')" for e
      proof -
        have "x \<in> set (waiters s (Q (tvar e)))" by (rule sleeper_watches [OF i t'(1) that])
        then have "tvar e \<notin> tvar ` set (entries_of s t)" using x f(3) by (auto simp: watching_def)
        then show ?thesis
          using fun_cong [OF v(1), of "tvar e"] by (simp add: apply_log_def lookup_None [symmetric])
      qed
      then show ?thesis using t' unfolding still_valid_def e by auto
    qed
    ultimately show ?thesis
      using i f(1) unfolding wake_inv_def watch_entries_def e v(2) registered_def by (simp add: woken_frame_def)
  next
    case False
    then show ?thesis using s1(2) i by simp
  qed
  then show ?thesis using wake_inv_free [OF _ t(2)] s1(1) c by simp
qed

text \<open>Going to sleep.\<close>

lemma wake_inv_wait:
  assumes i: "wake_inv s A W Q F" and t: "t \<notin> dom W" and k: "closure_kind s tso = KTSO"
    and w: "stmWait tso t s = Some (True, s')"
  shows "\<exists>Q' F'. wake_inv s' (A - {t}) (W(t \<mapsto> tso)) Q' F'"
proof -
  note I = wake_invD [OF i]
  have v: "validate_and_acquire_ownership t True s = Some True"
    using w by (auto simp: stmWait_def bind_eq_Some_conv split: if_splits)
  then have cur: "\<And>e. e \<in> set (concat (chunks (trecs s t))) \<Longrightarrow> values s (tvar e) = expected_value e"
    by (auto simp: validate_all entries_of_def split: if_splits)
  obtain cs s1 Q' F' where b: "build_chunks tso (chunks (trecs s t)) s = Some (cs, s1)" "wq_inv s1 Q' F'"
    "grows s Q s1 Q'" "same_reads (concat (chunks (trecs s t))) (concat cs)"
    "registered s1 Q' tso (concat cs)" "fresh_for Q (concat cs)"
    using build_chunks_inv [OF I(1) cur] by blast
  have s': "s' = set_state t TREC_WAITING ((upd_trec t (\<lambda>r. r\<lparr>chunks := cs\<rparr>) s1)
                 \<lparr>why_blocked := (why_blocked s1)(tso := BlockedOnSTM)\<rparr>)"
    using w b(1) by (auto simp: stmWait_def build_watch_queue_entries_for_trec_def park_tso_def bind_eq_Some_conv
        split: if_splits)
  have g: "values s1 = values s" "trecs s1 = trecs s" "closure_kind s1 = closure_kind s" "why_blocked s1 = why_blocked s"
    using b(3) by (auto simp: grows_def)
  have f: "wqs s' = wqs s1" "closure_kind s' = closure_kind s" "values s' = values s"
    "\<And>u. u \<noteq> t \<Longrightarrow> trecs s' u = trecs s u" "trec_state (trecs s' t) = TREC_WAITING"
    "why_blocked s' = (why_blocked s)(tso := BlockedOnSTM)" "entries_of s' t = concat cs"
    using g by (auto simp: s' set_state_def entries_of_def fun_eq_iff)
  have e: "entries_of s' u = entries_of s u" if "u \<noteq> t" for u using f(4) [OF that] by (simp add: entries_of_def)
  have "wq_inv s' Q' F'" by (rule wq_inv_cong [OF b(2)]) (simp_all add: s' set_state_def)
  moreover have "trec_state (trecs s' u) = TREC_WAITING \<and> closure_kind s' x = KTSO \<and>
      registered s' Q' x (entries_of s' u)" if "(W(t \<mapsto> tso)) u = Some x" for u x
  proof (cases "u = t")
    case True
    then show ?thesis using that f k b(5) by (auto simp: registered_def)
  next
    case False
    then have W: "W u = Some x" using that by simp
    have "registered s1 Q' x (entries_of s u)" by (rule registered_grows [OF b(3) I(5) [OF W]])
    then show ?thesis using I(3,4) [OF W] f e [OF False] False by (simp add: registered_def)
  qed
  moreover have "watch_entries s' u \<inter> watch_entries s' u' = {}"
    if u: "u \<in> dom (W(t \<mapsto> tso))" "u' \<in> dom (W(t \<mapsto> tso))" "u \<noteq> u'" for u u'
  proof -
    have "watch_entries s' z \<inter> watch_entries s' t = {}" if z: "z \<in> dom W" "z \<noteq> t" for z
    proof -
      obtain x where "W z = Some x" using z(1) by blast
      from I(5) [OF this] have "watch_entries s z \<subseteq> (\<Union>v. set (Q v))" by (auto simp: registered_def watch_entries_def)
      moreover have "watch_entries s' t \<inter> (\<Union>v. set (Q v)) = {}" using b(6) f(7) by (auto simp: fresh_for_def watch_entries_def)
      ultimately show ?thesis using e [OF z(2)] by (auto simp: watch_entries_def)
    qed
    note new = this
    show ?thesis
    proof (cases "u = t \<or> u' = t")
      case True
      then show ?thesis using new [of u] new [of u'] u by auto
    next
      case False
      then show ?thesis using u I(6) [of u u'] e by (auto simp: watch_entries_def)
    qed
  qed
  moreover have "\<exists>u. (W(t \<mapsto> tso)) u = Some x \<and> still_valid s' u" if x: "why_blocked s' x = BlockedOnSTM" for x
  proof (cases "x = tso")
    case True
    have "values s' (tvar e) = expected_value e" if e: "e \<in> set (entries_of s' t)" for e
    proof -
      have "(tvar e, expected_value e) \<in> (\<lambda>e. (tvar e, expected_value e)) ` set (concat (chunks (trecs s t)))"
        using b(4) e unfolding same_reads_def f(7) by (metis (no_types, lifting) image_eqI list.set_map)
      then obtain e0 where "e0 \<in> set (concat (chunks (trecs s t)))"
          "(tvar e, expected_value e) = (tvar e0, expected_value e0)"
        by blast
      then show ?thesis using cur [of e0] fun_cong [OF f(3), of "tvar e"] by simp
    qed
    then have "still_valid s' t" by (simp add: still_valid_def)
    then show ?thesis using True by auto
  next
    case False
    then obtain u where u: "W u = Some x" "still_valid s u" using I(7) x f(6) by auto
    then have ut: "u \<noteq> t" using t by blast
    then have "still_valid s' u" using u(2) e [OF ut] fun_cong [OF f(3)] by (simp add: still_valid_def)
    then show ?thesis using u(1) ut by auto
  qed
  moreover have "trec_state (trecs s' u) \<noteq> TREC_WAITING" if "u \<in> A - {t}" for u using I(2) f(4) that by auto
  ultimately have "wake_inv s' (A - {t}) (W(t \<mapsto> tso)) Q' F'" unfolding wake_inv_def by blast
  then show ?thesis by blast
qed

text \<open>Taking the entries of a record off the watch queues, when its thread does not sleep.\<close>

lemma wake_inv_remove:
  assumes i: "wake_inv s A W Q F" and W: "W t = Some tso" and x: "why_blocked s tso \<noteq> BlockedOnSTM"
    and r: "remove_watch_queue_entries_for_trec t s = Some s'"
  shows "\<exists>Q' F'. wake_inv s' A (W(t := None)) Q' F'" "trecs s' = trecs s"
proof -
  note I = wake_invD [OF i]
  have r': "remove_watchers (entries_of s t) s = Some s'"
    using r by (auto simp: remove_watch_queue_entries_for_trec_def split: if_splits)
  obtain Q' F' where q: "wq_inv s' Q' F'" "queues_only s s'" "\<forall>v. set (Q' v) = set (Q v) - watch_entries s t"
    using remove_watchers_inv [OF I(1) I(5) [OF W]] r' by (auto simp: watch_entries_def)
  show tr: "trecs s' = trecs s" using q(2) by (simp add: queues_only_def)
  have e: "entries_of s' = entries_of s" using tr by (simp add: entries_of_def fun_eq_iff)
  have "registered s' Q' y (entries_of s' u)" if u: "(W(t := None)) u = Some y" for u y
  proof -
    have "u \<noteq> t" "W u = Some y" using u by (auto split: if_splits)
    moreover from this have "new_value d \<notin> watch_entries s t" if "d \<in> set (entries_of s u)" for d
      using I(6) [of u t] W that by (auto simp: watch_entries_def)
    ultimately show ?thesis
      using I(5) [of u y] q(2,3) unfolding registered_def e by (auto simp: queues_only_def)
  qed
  moreover have "\<exists>u. (W(t := None)) u = Some y \<and> still_valid s' u" if y: "why_blocked s' y = BlockedOnSTM" for y
  proof -
    have "why_blocked s y = BlockedOnSTM" using y q(2) by (simp add: queues_only_def)
    then obtain u where u: "W u = Some y" "still_valid s u" using I(7) by blast
    then have "u \<noteq> t" using W x \<open>why_blocked s y = BlockedOnSTM\<close> by auto
    moreover have "still_valid s' u" using u(2) q(2) by (simp add: still_valid_def e queues_only_def fun_eq_iff)
    ultimately show ?thesis using u(1) by auto
  qed
  ultimately have "wake_inv s' A (W(t := None)) Q' F'"
    using q(1,2) I(2,3,4,6) unfolding wake_inv_def tr watch_entries_def e by (auto simp: queues_only_def split: if_splits)
  then show "\<exists>Q' F'. wake_inv s' A (W(t := None)) Q' F'" by blast
qed

lemma wake_inv_rewait:
  assumes i: "wake_inv s A W Q F" and W: "W (tso_trec s tso) = Some tso" "why_blocked s tso \<noteq> BlockedOnSTM"
    and t: "tso_trec s tso \<notin> A" and r: "stmReWait tso s = Some (b, s')"
  shows "\<exists>Q' F'. wake_inv s' A (if b then W else W(tso_trec s tso := None)) Q' F'"
proof -
  note I = wake_invD [OF i]
  let ?t = "tso_trec s tso"
  have st: "trec_state (trecs s ?t) = TREC_WAITING" by (rule I(3) [OF W(1)])
  show ?thesis
  proof (cases b)
    case True
    then have s': "s' = s\<lparr>why_blocked := (why_blocked s)(tso := BlockedOnSTM)\<rparr>"
      and "validate_and_acquire_ownership ?t True s = Some True"
      using r by (auto simp: stmReWait_def Let_def park_tso_def bind_eq_Some_conv split: if_splits)
    then have v: "still_valid s ?t" by (simp add: validate_all still_valid_def split: if_splits)
    have e: "entries_of s' = entries_of s" "still_valid s' = still_valid s"
      by (simp_all add: s' entries_of_def still_valid_def fun_eq_iff)
    have "wq_inv s' Q F" by (rule wq_inv_cong [OF I(1)]) (simp_all add: s')
    moreover have "\<exists>u. W u = Some y \<and> still_valid s' u" if "why_blocked s' y = BlockedOnSTM" for y
      using that I(7) [of y] W(1) v unfolding e by (auto simp: s' split: if_splits)
    ultimately have "wake_inv s' A W Q F"
      using I(2,3,4,5,6) unfolding wake_inv_def watch_entries_def registered_def e by (simp add: s')
    then show ?thesis using True by auto
  next
    case False
    then obtain s1 where s1: "remove_watch_queue_entries_for_trec ?t s = Some s1" "s' = free_stg_trec_header ?t s1"
      using r st by (auto simp: stmReWait_def Let_def bind_eq_Some_conv split: if_splits)
    obtain Q' F' where "wake_inv s1 A (W(?t := None)) Q' F'" using wake_inv_remove(1) [OF i W s1(1)] by blast
    from wake_inv_free [OF this, of ?t] have "wake_inv s' A (W(?t := None)) Q' F'" using s1(2) t by simp
    then show ?thesis using False by auto
  qed
qed

text \<open>Operations that change one record, which does not wait.\<close>

definition record_only :: "addr \<Rightarrow> stm_state \<Rightarrow> stm_state \<Rightarrow> bool" where
  "record_only t s s' = (wqs s' = wqs s \<and> tvars s' = tvars s \<and> closure_kind s' = closure_kind s \<and>
     free_tvar_watch_queues s' = free_tvar_watch_queues s \<and> heap_next s' = heap_next s \<and> why_blocked s' = why_blocked s \<and>
     (\<forall>u. u \<noteq> t \<longrightarrow> trecs s' u = trecs s u) \<and>
     (trec_state (trecs s' t) = TREC_WAITING \<longrightarrow> trec_state (trecs s t) = TREC_WAITING))"

lemma wake_inv_record:
  assumes i: "wake_inv s A W Q F" and t: "t \<in> A" "t \<notin> dom W" and r: "record_only t s s'"
  shows "wake_inv s' A W Q F"
proof (rule wake_inv_calm [OF i])
  show "trecs s' u = trecs s u" if "u \<in> dom W" for u
    using r t(2) that unfolding record_only_def by metis
  show "trec_state (trecs s' u) \<noteq> TREC_WAITING" if "u \<in> A" for u
    using r wake_invD(2) [OF i that] unfolding record_only_def by metis
qed (use r in \<open>simp_all add: record_only_def\<close>)

lemma read_record_only:
  assumes "stmReadTVar t v s = Some (x, s')" shows "record_only t s s'"
proof -
  obtain r where "get_entry_for t v s = Some r"
    using assms by (auto simp: stmReadTVar_def bind_eq_Some_conv split: if_splits)
  then show ?thesis
    using assms by (cases r) (auto simp: stmReadTVar_def record_only_def Let_def get_new_entry_def split: if_splits)
qed

lemma write_record_only:
  assumes "stmWriteTVar t v x s = Some s'" shows "record_only t s s'"
proof -
  obtain r where "get_entry_for t v s = Some r"
    using assms by (auto simp: stmWriteTVar_def bind_eq_Some_conv split: if_splits)
  then show ?thesis
    using assms by (cases r) (auto simp: stmWriteTVar_def record_only_def Let_def get_new_entry_def split: if_splits)
qed

lemma validate_record_only: "stmValidateNestOfTransactions t s = Some (b, s') \<Longrightarrow> record_only t s s'"
  by (auto simp: stmValidateNestOfTransactions_def record_only_def set_state_def bind_eq_Some_conv split: if_splits)

lemma condemn_record_only:
  "stmCondemnTransaction t s = Some s' \<Longrightarrow> trec_state (trecs s t) \<noteq> TREC_WAITING \<Longrightarrow> record_only t s s'"
  by (auto simp: stmCondemnTransaction_def record_only_def set_state_def bind_eq_Some_conv split: if_splits)

lemma wake_inv_abort:
  assumes i: "wake_inv s A W Q F" and t: "in_use s t" "t \<notin> dom W" "t \<in> A"
    and a: "stmAbortTransaction t s = Some s1" "stmFreeAbortedTRec t s1 = Some s'"
  shows "wake_inv s' (A - {t}) W Q F"
proof -
  have "s1 = set_state t TREC_ABORTED s"
    using a(1) t(1) wake_invD(2) [OF i t(3)] by (auto simp: stmAbortTransaction_def in_use_def bind_eq_Some_conv split: if_splits)
  then have "record_only t s s1" by (simp add: record_only_def set_state_def)
  from wake_inv_free [OF wake_inv_record [OF i t(3,2) this] t(2)] show ?thesis
    using a(2) by (simp add: stmFreeAbortedTRec_def split: if_splits)
qed

lemma wake_inv_gives_up:
  assumes i: "wake_inv s A W Q F" and W: "W t = Some tso" "why_blocked s tso \<noteq> BlockedOnSTM" and t: "in_use s t" "t \<notin> A"
    and a: "stmAbortTransaction t s = Some s1" "stmFreeAbortedTRec t s1 = Some s'"
  shows "\<exists>Q' F'. wake_inv s' A (W(t := None)) Q' F'"
proof -
  obtain s2 where s2: "remove_watch_queue_entries_for_trec t s = Some s2" "s1 = set_state t TREC_ABORTED s2"
    using a(1) t(1) wake_invD(3) [OF i W(1)]
    by (auto simp: stmAbortTransaction_def in_use_def bind_eq_Some_conv split: if_splits)
  obtain Q' F' where j: "wake_inv s2 A (W(t := None)) Q' F'" using wake_inv_remove(1) [OF i W s2(1)] by blast
  have "wake_inv s1 A (W(t := None)) Q' F'"
    by (rule wake_inv_calm [OF j]) (use wake_invD(2) [OF j] t(2) s2(2) in \<open>auto simp: set_state_def\<close>)
  from wake_inv_free [OF this, of t] have "wake_inv s' A (W(t := None)) Q' F'"
    using a(2) t(2) by (simp add: stmFreeAbortedTRec_def split: if_splits)
  then show ?thesis by blast
qed

lemma wake_inv_begun:
  assumes i: "wake_inv s A W Q F" and b: "stmStartTransaction NO_TREC s = Some (t, s')" and t: "t \<notin> dom W"
  shows "wake_inv s' (insert t A) W Q F"
proof (rule wake_inv_calm [OF i])
  have s': "trec_state (trecs s' t) = TREC_ACTIVE" "\<And>u. u \<noteq> t \<Longrightarrow> trecs s' u = trecs s u"
    using b by (auto simp: stmStartTransaction_def alloc_stg_trec_header_def new_stg_trec_header_def allocate_def start_state_def
        Let_def split: if_splits)
  show "trecs s' u = trecs s u" if "u \<in> dom W" for u using s'(2) that t by metis
  show "trec_state (trecs s' u) \<noteq> TREC_WAITING" if "u \<in> insert t A" for u
    using s' that wake_invD(2) [OF i, of u] by (cases "u = t") auto
qed (use b in \<open>auto simp: stmStartTransaction_def alloc_stg_trec_header_def new_stg_trec_header_def allocate_def start_state_def
        Let_def split: if_splits\<close>)

section \<open>Every step keeps the invariant\<close>

definition no_transactions :: "stm_state \<Rightarrow> bool" where
  "no_transactions s = (0 < heap_next s \<and> free_trec_headers s = NO_TREC \<and> free_tvar_watch_queues s = END_STM_WATCH_QUEUE \<and>
     (\<forall>v. first_watch_queue_entry (tvars s v) = END_STM_WATCH_QUEUE) \<and> (\<forall>x. why_blocked s x \<noteq> BlockedOnSTM))"

lemma threads_records:
  assumes "threads s0 s A W" and "no_transactions s0"
  shows "\<And>t. t \<in> A \<union> dom W \<Longrightarrow> in_use s t" "A \<inter> dom W = {}"
proof -
  have s0: "free_trec_headers s0 = NO_TREC" "0 < heap_next s0" using assms(2) by (simp_all add: no_transactions_def)
  obtain A' H where s: "system s0 s A' (dom W) H" "dom A' = A" using threads_system [OF assms(1) s0] by blast
  obtain F where "system_inv s0 s A' (dom W) H F" using system_keeps_inv [OF s(1) s0] by blast
  then show "\<And>t. t \<in> A \<union> dom W \<Longrightarrow> in_use s t" "A \<inter> dom W = {}"
    using s(2) by (auto simp: system_inv_def)
qed

lemma threads_wake_inv:
  assumes "threads s0 s A W" and s0: "no_transactions s0"
  shows "\<exists>Q F. wake_inv s A W Q F"
  using assms(1)
proof (induction rule: threads.induct)
  case init
  have "wq_inv s0 (\<lambda>_. []) []" using s0 by (simp add: wq_inv_def wq_of_def no_transactions_def)
  then have "wake_inv s0 {} Map.empty (\<lambda>_. []) []" using s0 by (simp add: wake_inv_def no_transactions_def)
  then show ?case by blast
next
  case (begun s A W t s')
  have "t \<notin> dom W" using threads_records(2) [OF threads.begun [OF begun(1,2)] s0] by blast
  then show ?case using wake_inv_begun [OF _ begun(2)] begun(3) by blast
next
  case (reads s A W t v x s')
  have "t \<notin> dom W" using threads_records(2) [OF reads(1) s0] reads(2) by blast
  then show ?case using wake_inv_record [OF _ reads(2)] read_record_only [OF reads(3)] reads(4) by blast
next
  case (writes s A W t v x s')
  have "t \<notin> dom W" using threads_records(2) [OF writes(1) s0] writes(2) by blast
  then show ?case using wake_inv_record [OF _ writes(2)] write_record_only [OF writes(3)] writes(4) by blast
next
  case (validates s A W t b s')
  have "t \<notin> dom W" using threads_records(2) [OF validates(1) s0] validates(2) by blast
  then show ?case using wake_inv_record [OF _ validates(2)] validate_record_only [OF validates(3)] validates(4) by blast
next
  case (condemns s A W t s')
  obtain Q F where i: "wake_inv s A W Q F" using condemns(4) by blast
  have "t \<notin> dom W" using threads_records(2) [OF condemns(1) s0] condemns(2) by blast
  then show ?case
    using wake_inv_record [OF i condemns(2)] condemn_record_only [OF condemns(3) wake_invD(2) [OF i condemns(2)]] by blast
next
  case (commits_to s A W t b s')
  have "t \<notin> dom W" "in_use s t" using threads_records [OF commits_to(1) s0] commits_to(2) by blast+
  then show ?case using wake_inv_commit [OF _ _ _ commits_to(3)] commits_to(4) by blast
next
  case (aborts s A W t s1 s')
  have "t \<notin> dom W" "in_use s t" using threads_records [OF aborts(1) s0] aborts(2) by blast+
  then show ?case using wake_inv_abort [OF _ _ _ aborts(2,3,4)] aborts(5) by blast
next
  case (waits s A W t tso b s')
  obtain Q F where i: "wake_inv s A W Q F" using waits(5) by blast
  have t: "t \<notin> dom W" using threads_records(2) [OF waits(1) s0] waits(2) by blast
  show ?case
  proof (cases b)
    case True
    then have "stmWait tso t s = Some (True, s')" using waits(4) by simp
    from wake_inv_wait [OF i t waits(3) this] show ?thesis using True by (simp only: if_True)
  next
    case False
    then have "s' = free_stg_trec_header t s"
      using waits(4) by (auto simp: stmWait_def bind_eq_Some_conv split: if_splits)
    then show ?thesis using wake_inv_free [OF i t] False by auto
  qed
next
  case (rewaits s A W tso b s')
  obtain Q F where i: "wake_inv s A W Q F" using rewaits(5) by blast
  have "tso_trec s tso \<notin> A" using threads_records(2) [OF rewaits(1) s0] rewaits(2) by blast
  then show ?case by (rule wake_inv_rewait [OF i rewaits(2,3) _ rewaits(4)])
next
  case (gives_up s A W t tso s1 s')
  obtain Q F where i: "wake_inv s A W Q F" using gives_up(6) by blast
  have "in_use s t" "t \<notin> A" using threads_records [OF gives_up(1) s0] gives_up(2) by blast+
  then show ?case by (rule wake_inv_gives_up [OF i gives_up(2,3) _ _ gives_up(4,5)])
next
  case (collects s A W)
  then obtain Q F where i: "wake_inv s A W Q F" by blast
  have "wq_inv (stmPreGCHook s) Q []"
    using wake_invD(1) [OF i] unfolding wq_inv_def wq_of_def stmPreGCHook_def
    by (simp add: dll_frame [of "s\<lparr>free_tvar_watch_queues := 0, free_trec_headers := 0\<rparr>" s])
  moreover have "entries_of (stmPreGCHook s) = entries_of s" "still_valid (stmPreGCHook s) = still_valid s"
    by (simp_all add: stmPreGCHook_def entries_of_def still_valid_def fun_eq_iff)
  ultimately have "wake_inv (stmPreGCHook s) A W Q []"
    using i unfolding wake_inv_def watch_entries_def registered_def by (simp add: stmPreGCHook_def)
  then show ?case by blast
next
  case (schedules s A W w f r)
  then obtain Q F where i: "wake_inv s A W Q F" by blast
  have "wake_inv (s\<lparr>why_blocked := w, run_queue := r, tso_trec := f\<rparr>) A W Q F"
    by (rule wake_inv_calm [OF i]) (use schedules(2) wake_invD(2) [OF i] in simp_all)
  then show ?case by blast
qed

text \<open>Going to sleep and waiting again return.\<close>

lemma stmWait_sleeps:
  assumes i: "wake_inv s A W Q F" and t: "in_use s t" and c: "commits s t" and x: "why_blocked s tso = NotBlocked"
  shows "\<exists>s'. stmWait tso t s = Some (True, s') \<and> why_blocked s' tso = BlockedOnSTM"
proof -
  have st: "trec_state (trecs s t) = TREC_ACTIVE" "t \<noteq> NO_TREC" "enclosing_trec (trecs s t) = NO_TREC"
    using c t by (simp_all add: commits_def in_use_def)
  have cur: "\<And>e. e \<in> set (concat (chunks (trecs s t))) \<Longrightarrow> values s (tvar e) = expected_value e"
    using c unfolding commits_def entries_of_def by blast
  have v: "validate_and_acquire_ownership t True s = Some True"
    using c st by (simp add: validate_all commits_def)
  obtain cs s1 Q' where b: "build_chunks tso (chunks (trecs s t)) s = Some (cs, s1)" "grows s Q s1 Q'"
    using build_chunks_inv [OF wake_invD(1) [OF i] cur] by blast
  then show ?thesis
    using st x by (simp add: stmWait_def v build_watch_queue_entries_for_trec_def b(1) park_tso_def grows_def set_state_def)
qed

lemma stmReWait_returns:
  assumes i: "wake_inv s A W Q F" and t: "in_use s (tso_trec s tso)" and W: "W (tso_trec s tso) = Some tso"
    and x: "why_blocked s tso = NotBlocked"
  shows "\<exists>s'. stmReWait tso s = Some (still_valid s (tso_trec s tso), s') \<and>
     (still_valid s (tso_trec s tso) \<longrightarrow> why_blocked s' tso = BlockedOnSTM)"
proof -
  let ?t = "tso_trec s tso"
  have st: "trec_state (trecs s ?t) = TREC_WAITING" "?t \<noteq> NO_TREC" "enclosing_trec (trecs s ?t) = NO_TREC"
    using wake_invD(3) [OF i W] t by (simp_all add: in_use_def)
  have v: "validate_and_acquire_ownership ?t True s = Some (still_valid s ?t)"
    using st by (simp add: validate_all still_valid_def)
  obtain s1 where "remove_watchers (entries_of s ?t) s = Some s1"
    using remove_watchers_inv [OF wake_invD(1,5) [OF i]] W by blast
  then have "remove_watch_queue_entries_for_trec ?t s = Some s1"
    using st by (simp add: remove_watch_queue_entries_for_trec_def)
  then show ?thesis
    using st x v by (cases "still_valid s ?t") (simp_all add: stmReWait_def Let_def park_tso_def)
qed

text \<open>The next commit with one of its variables wakes a thread that sleeps.\<close>

lemma commit_wakes_sleeper:
  assumes i: "wake_inv s A W Q F" and t2: "in_use s t2" "commits s t2" and x: "why_blocked s tso = BlockedOnSTM" "W t = Some tso"
    and e: "e \<in> set (entries_of s t)" "e2 \<in> set (entries_of s t2)" "tvar e2 = tvar e"
  shows "\<exists>s2. stmCommitTransaction t2 s = Some (True, s2) \<and> runnable s2 tso"
proof -
  have "watching s Q (entries_of s t2) tso"
    using sleeper_watches [OF i x(2) e(1)] e(2,3) unfolding watching_def by metis
  moreover have "\<And>e. e \<in> set (entries_of s t2) \<Longrightarrow> wq_of s (tvar e) (Q (tvar e))"
    using wake_invD(1) [OF i] by (simp add: wq_inv_def)
  from commit_returns_wakes [of t2 s Q, OF _ _ _ _ this] t2 obtain s1 where
    "stmCommitTransaction t2 s = Some (True, free_stg_trec_header t2 s1)"
    "\<forall>x. why_blocked s x = BlockedOnSTM \<and> watching s Q (entries_of s t2) x \<longrightarrow> runnable s1 x"
    by (auto simp: in_use_def commits_def)
  ultimately show ?thesis using x(1) by auto
qed

section \<open>Property\<close>

text \<open>
  Claim C9.  No wake-up is lost.  Start without transactions, and let any number of threads start, read, write, validate,
  condemn, abort and commit top-level transactions (without invariants), go to sleep with \<open>stmWait\<close>, wait again with
  \<open>stmReWait\<close> or give up after they were woken, in any interleaving, with records and watch queue entries used
  again and collections in between.  Then at every moment: a running thread that calls \<open>stmWait\<close> in a valid
  transaction falls asleep; a woken thread that calls \<open>stmReWait\<close> is told whether its transaction is still
  valid, and sleeps again if it is; and every thread that sleeps in a transaction has a waiting record all
  of whose variables still hold the values that the record expects, so that none has changed since the
  thread went to sleep, and the commit of any running transaction that is valid and has one of these
  variables answers true and leaves the thread runnable and in the run queue.\<close>

theorem waiting_thread_woken:
  assumes "threads s0 s A W" and "no_transactions s0"
  shows "(\<forall>t \<in> A. \<forall>x. commits s t \<and> why_blocked s x = NotBlocked \<longrightarrow>
       (\<exists>s1. stmWait x t s = Some (True, s1) \<and> why_blocked s1 x = BlockedOnSTM)) \<and>
     (\<forall>x. W (tso_trec s x) = Some x \<and> why_blocked s x = NotBlocked \<longrightarrow>
       (\<exists>valid s1. stmReWait x s = Some (valid, s1) \<and>
          (valid \<longleftrightarrow> (\<forall>e \<in> set (entries_of s (tso_trec s x)). current_value (tvars s (tvar e)) = expected_value e)) \<and>
          (valid \<longrightarrow> why_blocked s1 x = BlockedOnSTM))) \<and>
     (\<forall>tso. why_blocked s tso = BlockedOnSTM \<longrightarrow>
       (\<exists>t. W t = Some tso \<and> trec_state (trecs s t) = TREC_WAITING \<and>
         (\<forall>e \<in> set (entries_of s t). current_value (tvars s (tvar e)) = expected_value e) \<and>
         (\<forall>t2 \<in> A. commits s t2 \<and> (\<exists>e \<in> set (entries_of s t). \<exists>e2 \<in> set (entries_of s t2). tvar e2 = tvar e) \<longrightarrow>
            (\<exists>s2. stmCommitTransaction t2 s = Some (True, s2) \<and>
               why_blocked s2 tso = NotBlocked \<and> tso \<in> set (run_queue s2)))))"
  (is "?sleep \<and> ?again \<and> ?woken")
proof (intro conjI)
  obtain Q F where i: "wake_inv s A W Q F" using threads_wake_inv [OF assms] by blast
  note u = threads_records(1) [OF assms]
  show ?sleep using stmWait_sleeps [OF i] u by blast
  show ?again
  proof (intro allI impI)
    fix x assume "W (tso_trec s x) = Some x \<and> why_blocked s x = NotBlocked"
    then have x: "W (tso_trec s x) = Some x" "why_blocked s x = NotBlocked" by blast+
    have "in_use s (tso_trec s x)" by (rule u) (use x(1) in blast)
    from stmReWait_returns [OF i this x] obtain s1 where
      "stmReWait x s = Some (still_valid s (tso_trec s x), s1)"
      "still_valid s (tso_trec s x) \<longrightarrow> why_blocked s1 x = BlockedOnSTM" by blast
    then show "\<exists>valid s1. stmReWait x s = Some (valid, s1) \<and>
          (valid \<longleftrightarrow> (\<forall>e \<in> set (entries_of s (tso_trec s x)). current_value (tvars s (tvar e)) = expected_value e)) \<and>
          (valid \<longrightarrow> why_blocked s1 x = BlockedOnSTM)"
      by (intro exI [of _ "still_valid s (tso_trec s x)"] exI [of _ s1]) (simp add: still_valid_def)
  qed
  show ?woken
  proof (intro allI impI)
    fix tso assume x: "why_blocked s tso = BlockedOnSTM"
    then obtain t where t: "W t = Some tso" "still_valid s t" using wake_invD(7) [OF i] by blast
    have c: "\<exists>s2. stmCommitTransaction t2 s = Some (True, s2) \<and> why_blocked s2 tso = NotBlocked \<and> tso \<in> set (run_queue s2)"
      if "t2 \<in> A" "commits s t2 \<and> (\<exists>e \<in> set (entries_of s t). \<exists>e2 \<in> set (entries_of s t2). tvar e2 = tvar e)" for t2
      using commit_wakes_sleeper [OF i u _ x t(1), of t2] that unfolding runnable_def by blast
    show "\<exists>t. W t = Some tso \<and> trec_state (trecs s t) = TREC_WAITING \<and>
         (\<forall>e \<in> set (entries_of s t). current_value (tvars s (tvar e)) = expected_value e) \<and>
         (\<forall>t2 \<in> A. commits s t2 \<and> (\<exists>e \<in> set (entries_of s t). \<exists>e2 \<in> set (entries_of s t2). tvar e2 = tvar e) \<longrightarrow>
            (\<exists>s2. stmCommitTransaction t2 s = Some (True, s2) \<and>
               why_blocked s2 tso = NotBlocked \<and> tso \<in> set (run_queue s2)))"
    proof (rule exI [of _ t], intro conjI ballI impI)
      show "W t = Some tso" "trec_state (trecs s t) = TREC_WAITING" using t(1) wake_invD(3) [OF i t(1)] by simp_all
      show "current_value (tvars s (tvar e)) = expected_value e" if "e \<in> set (entries_of s t)" for e
        using t(2) that by (simp add: still_valid_def)
    qed (rule c)
  qed
qed

text \<open>Transaction 1 of the thread 100 reads the variable 50 and waits, and transaction 2 writes 7 to it.\<close>

definition wake1 :: stm_state where "wake1 = snd (the (stmStartTransaction NO_TREC stm_start))"
definition wake2 :: stm_state where "wake2 = snd (the (stmReadTVar 1 50 wake1))"
definition wake3 :: stm_state where "wake3 = snd (the (stmStartTransaction NO_TREC wake2))"
definition wake4 :: stm_state where "wake4 = the (stmWriteTVar 2 50 7 wake3)"
definition wake5 :: stm_state where "wake5 = snd (the (stmWait 100 1 wake4))"

theorem waiting_thread_woken_witness:
  "threads stm_start wake5 {2} [1 \<mapsto> 100] \<and> why_blocked wake5 100 = BlockedOnSTM \<and>
   (\<exists>s2. stmCommitTransaction 2 wake5 = Some (True, s2) \<and> why_blocked s2 100 = NotBlocked \<and> 100 \<in> set (run_queue s2))"
proof -
  have "map_option fst (stmStartTransaction NO_TREC stm_start) = Some 1" "map_option fst (stmReadTVar 1 50 wake1) = Some 0"
    "map_option fst (stmStartTransaction NO_TREC wake2) = Some 2" "map_option (\<lambda>_. ()) (stmWriteTVar 2 50 7 wake3) = Some ()"
    "map_option fst (stmWait 100 1 wake4) = Some True" "closure_kind wake4 100 = KTSO"
    by code_simp+
  then have r: "stmStartTransaction NO_TREC stm_start = Some (1, wake1)" "stmReadTVar 1 50 wake1 = Some (0, wake2)"
    "stmStartTransaction NO_TREC wake2 = Some (2, wake3)" "stmWriteTVar 2 50 7 wake3 = Some wake4"
    "stmWait 100 1 wake4 = Some (True, wake5)" "closure_kind wake4 100 = KTSO"
    by (auto simp: wake1_def wake2_def wake3_def wake4_def wake5_def)
  have "threads stm_start wake1 {1} Map.empty" using threads.begun [OF threads.init r(1)] by simp
  from threads.reads [OF this _ r(2)] have "threads stm_start wake2 {1} Map.empty" by simp
  from threads.begun [OF this r(3)] have "threads stm_start wake3 {2, 1} Map.empty" .
  from threads.writes [OF this _ r(4)] have "threads stm_start wake4 {2, 1} Map.empty" by simp
  have "{2, 1} - {1} = {2 :: addr}" by auto
  then have w: "threads stm_start wake5 {2} [1 \<mapsto> 100]"
    using threads.waits [OF \<open>threads stm_start wake4 {2, 1} Map.empty\<close> _ r(6,5)] by (simp only: if_True insert_iff simp_thms)
  have b: "why_blocked wake5 100 = BlockedOnSTM" by code_simp
  have "entries_of wake5 2 = [\<lparr>tvar = 50, expected_value = 0, new_value = 7\<rparr>]" "List.map tvar (entries_of wake5 1) = [50]"
    "trec_state (trecs wake5 2) = TREC_ACTIVE" "current_value (tvars wake5 50) = 0"
    by code_simp+
  then have c: "commits wake5 2" "\<exists>e \<in> set (entries_of wake5 1). \<exists>e2 \<in> set (entries_of wake5 2). tvar e2 = tvar e"
    by (auto simp: commits_def)
  have "no_transactions stm_start" by (simp add: no_transactions_def stm_start_def)
  from waiting_thread_woken [OF w this] have "\<exists>t. [1 \<mapsto> 100] t = Some (100 :: addr) \<and>
     (\<forall>t2 \<in> {2}. commits wake5 t2 \<and> (\<exists>e \<in> set (entries_of wake5 t). \<exists>e2 \<in> set (entries_of wake5 t2). tvar e2 = tvar e) \<longrightarrow>
        (\<exists>s2. stmCommitTransaction t2 wake5 = Some (True, s2) \<and> why_blocked s2 100 = NotBlocked \<and> 100 \<in> set (run_queue s2)))"
    using b by blast
  then show ?thesis using w b c by (auto split: if_splits)
qed

end
