(* ===== verification/Compact.thy ===== *)
theory Compact
  imports Closures
begin

text \<open>
  The pointer threading of the compacting collector, \<open>rts/sm/Compact.c\<close>, and its mark bitmap,
  \<open>rts/sm/Compact.h\<close>.  Memory is a function from word addresses to words.  Whether a closure is
  in a block that is being compacted (\<open>HEAP_ALLOCED\<close> and the flag \<open>BF_MARKED\<close> of its block) is a
  parameter.  \<open>barf\<close>, and a chain that does not end, is \<open>None\<close>.
\<close>

type_synonym hmem = "StgWord \<Rightarrow> StgWord"

section \<open>Threading\<close>

definition thread :: "(StgWord \<Rightarrow> bool) \<Rightarrow> StgWord \<Rightarrow> hmem \<Rightarrow> hmem" where
  "thread marked p m =
     (let q0 = m p;
          q = UNTAG_CLOSURE q0
      in if marked q
         then let iptr = m q
              in if GET_CLOSURE_TAG iptr = 0 then (m(p := iptr + GET_CLOSURE_TAG q0))(q := p + 1)
                 else if GET_CLOSURE_TAG iptr = 1 \<or> GET_CLOSURE_TAG iptr = 2 then (m(p := iptr))(q := p + 2)
                 else m
         else m)"

partial_function (option) unthread_loop :: "StgWord \<Rightarrow> StgWord \<Rightarrow> StgWord \<Rightarrow> hmem \<Rightarrow> hmem option" where
  "unthread_loop p free q m =
     (if GET_CLOSURE_TAG q = 0 then Some m
      else if GET_CLOSURE_TAG q = 1
      then let q0 = q - 1; r = m q0 in Some ((m(q0 := free))(p := UNTAG_CLOSURE r))
      else if GET_CLOSURE_TAG q = 2
      then let q0 = q - 2; r = m q0 in unthread_loop p free r (m(q0 := free))
      else None)"

definition unthread :: "StgWord \<Rightarrow> StgWord \<Rightarrow> hmem \<Rightarrow> hmem option" where
  "unthread p free m = unthread_loop p free (m p) m"

partial_function (option) threaded_info_loop :: "StgWord \<Rightarrow> hmem \<Rightarrow> StgWord option" where
  "threaded_info_loop q m =
     (if GET_CLOSURE_TAG q = 0 then Some q
      else if GET_CLOSURE_TAG q = 1 then Some (m (q - 1))
      else if GET_CLOSURE_TAG q = 2 then threaded_info_loop (m (q - 2)) m
      else None)"

definition get_threaded_info :: "StgWord \<Rightarrow> hmem \<Rightarrow> StgWord option" where
  "get_threaded_info p m = threaded_info_loop (m (UNTAG_CLOSURE p)) m"

fun move :: "StgWord \<Rightarrow> StgWord \<Rightarrow> nat \<Rightarrow> hmem \<Rightarrow> hmem" where
  "move to from 0 m = m"
| "move to from (Suc n) m = move (to + 8) (from + 8) n (m(to := m from))"

text \<open>The loops over the pointer bitmaps of stack frames and argument blocks: a bit 0 is a pointer.\<close>

fun thread_small_bitmap :: "(StgWord \<Rightarrow> bool) \<Rightarrow> StgWord \<Rightarrow> StgWord \<Rightarrow> nat \<Rightarrow> hmem \<Rightarrow> hmem" where
  "thread_small_bitmap marked p bitmap 0 m = m"
| "thread_small_bitmap marked p bitmap (Suc n) m =
     thread_small_bitmap marked (p + 8) (drop_bit 1 bitmap) n
       (if bitmap AND 1 = 0 then thread marked p m else m)"

function large_bitmap_loop ::
  "(StgWord \<Rightarrow> bool) \<Rightarrow> (nat \<Rightarrow> StgWord) \<Rightarrow> nat \<Rightarrow> nat \<Rightarrow> nat \<Rightarrow> StgWord \<Rightarrow> StgWord \<Rightarrow> hmem \<Rightarrow> hmem" where
  "large_bitmap_loop marked large n i b bitmap p m =
     (if i < n
      then let m = (if bitmap AND 1 = 0 then thread marked p m else m);
               i = i + 1
           in if i mod 64 = 0 then large_bitmap_loop marked large n i (b + 1) (large (b + 1)) (p + 8) m
              else large_bitmap_loop marked large n i b (drop_bit 1 bitmap) (p + 8) m
      else m)"
  by pat_completeness auto
termination by (relation "measure (\<lambda>(_, _, n, i, _). n - i)") auto

declare large_bitmap_loop.simps [simp del]

definition thread_large_bitmap ::
  "(StgWord \<Rightarrow> bool) \<Rightarrow> StgWord \<Rightarrow> (nat \<Rightarrow> StgWord) \<Rightarrow> nat \<Rightarrow> hmem \<Rightarrow> hmem" where
  "thread_large_bitmap marked p large n m = large_bitmap_loop marked large n 0 0 (large 0) p m"

section \<open>The mark bitmap\<close>

text \<open>A block descriptor gives the start of the block and the address of its bitmap, with one bit per
  word of the block; the offset is a 32-bit number.\<close>

definition offset_within_block :: "StgWord \<Rightarrow> StgWord \<Rightarrow> StgWord32" where
  "offset_within_block p start = ucast ((p - start) div 8)"

definition bitmap_word :: "StgWord \<Rightarrow> StgWord \<Rightarrow> StgWord \<Rightarrow> StgWord" where
  "bitmap_word p start bitmap = bitmap + 8 * ucast (offset_within_block p start div 64)"

definition bit_mask :: "StgWord \<Rightarrow> StgWord \<Rightarrow> StgWord" where
  "bit_mask p start = push_bit (unat (offset_within_block p start AND 63)) 1"

definition mark :: "StgWord \<Rightarrow> StgWord \<Rightarrow> StgWord \<Rightarrow> hmem \<Rightarrow> hmem" where
  "mark p start bitmap m =
     m(bitmap_word p start bitmap := m (bitmap_word p start bitmap) OR bit_mask p start)"

definition unmark :: "StgWord \<Rightarrow> StgWord \<Rightarrow> StgWord \<Rightarrow> hmem \<Rightarrow> hmem" where
  "unmark p start bitmap m =
     m(bitmap_word p start bitmap := m (bitmap_word p start bitmap) AND NOT (bit_mask p start))"

definition is_marked :: "StgWord \<Rightarrow> StgWord \<Rightarrow> StgWord \<Rightarrow> hmem \<Rightarrow> StgWord" where
  "is_marked p start bitmap m = m (bitmap_word p start bitmap) AND bit_mask p start"

section \<open>Chains of fields\<close>

text \<open>\<open>chain m w ps r\<close>: the word \<open>w\<close> starts a chain through the fields \<open>ps\<close>, at whose end stands \<open>r\<close>.\<close>

fun chain :: "hmem \<Rightarrow> StgWord \<Rightarrow> StgWord list \<Rightarrow> StgWord \<Rightarrow> bool" where
  "chain m w [] r = False"
| "chain m w [p] r = (w = p + 1 \<and> m p = r)"
| "chain m w (p # p' # ps) r = (w = p + 2 \<and> chain m (m p) (p' # ps) r)"

definition aligned :: "StgWord \<Rightarrow> bool" where
  "aligned a = (GET_CLOSURE_TAG a = 0)"

lemma tag_bit: "bit TAG_MASK i \<longleftrightarrow> i < 3"
proof -
  have m: "TAG_MASK = mask 3" by (simp add: TAG_MASK_def mask_numeral)
  show ?thesis unfolding m bit_mask_iff by auto
qed

lemma tag_of_plus:
  assumes a: "aligned a" and t: "t AND TAG_MASK = t"
  shows "GET_CLOSURE_TAG (a + t) = t" and "UNTAG_CLOSURE (a + t) = a"
proof -
  have lo: "\<not> bit a i" if "i < 3" for i
    using a that tag_bit unfolding aligned_def GET_CLOSURE_TAG_def by (metis bit_and_iff bit_0_eq bot_apply bot_bool_def)
  have hi: "i < 3" if "bit t i" for i
    using t that tag_bit by (metis bit_and_iff)
  have "a AND t = 0"
    by (rule bit_word_eqI) (use lo hi in \<open>auto simp: bit_simps\<close>)
  then have e: "a + t = a OR t" by (simp add: disjunctive_add_eq_or)
  show "GET_CLOSURE_TAG (a + t) = t" "UNTAG_CLOSURE (a + t) = a"
    unfolding e GET_CLOSURE_TAG_def UNTAG_CLOSURE_def
    by (rule bit_word_eqI; use lo hi in \<open>auto simp: bit_simps tag_bit\<close>)+
qed

lemma tag_small [simp]: "(1 :: StgWord) AND TAG_MASK = 1" "(2 :: StgWord) AND TAG_MASK = 2"
  by (simp_all add: TAG_MASK_def)

lemma tag_masked [simp]: "GET_CLOSURE_TAG a AND TAG_MASK = GET_CLOSURE_TAG a"
  by (simp add: GET_CLOSURE_TAG_def and.assoc)

lemma aligned_untag [simp]: "aligned (UNTAG_CLOSURE a)"
  unfolding aligned_def GET_CLOSURE_TAG_def UNTAG_CLOSURE_def
  by (rule bit_word_eqI) (auto simp: bit_simps)

lemma untag_aligned: "aligned a \<Longrightarrow> UNTAG_CLOSURE a = a"
  using tag_of_plus(2) [of a 0] by simp

lemma chain_cong: "(\<And>p. p \<in> set ps \<Longrightarrow> m' p = m p) \<Longrightarrow> chain m' w ps r = chain m w ps r"
  by (induction m w ps r rule: chain.induct) auto

lemma chain_tag:
  assumes "chain m w ps r" and "\<And>p. p \<in> set ps \<Longrightarrow> aligned p"
  shows "GET_CLOSURE_TAG w = (if length ps = 1 then 1 else 2)" and "GET_CLOSURE_TAG w \<noteq> 0"
    and "w - (if length ps = 1 then 1 else 2) = hd ps"
  using assms by (induction m w ps r rule: chain.induct) (auto simp: tag_of_plus)

lemma threaded_info_chain:
  "chain m w ps r \<Longrightarrow> (\<And>p. p \<in> set ps \<Longrightarrow> aligned p) \<Longrightarrow> threaded_info_loop w m = Some r"
proof (induction m w ps r rule: chain.induct)
  case (2 m w p r)
  then show ?case by (subst threaded_info_loop.simps) (simp add: tag_of_plus)
next
  case (3 m w p p' ps r)
  then have "threaded_info_loop (m p) m = Some r" by simp
  then show ?case using 3 by (subst threaded_info_loop.simps) (simp add: tag_of_plus)
qed simp

lemma unthread_chain:
  "chain m w ps r \<Longrightarrow> (\<And>p. p \<in> set ps \<Longrightarrow> aligned p) \<Longrightarrow> distinct ps \<Longrightarrow>
   unthread_loop q free w m = Some ((\<lambda>a. if a \<in> set ps then free else m a)(q := UNTAG_CLOSURE r))"
proof (induction ps arbitrary: m w)
  case (Cons p ps)
  note C = Cons
  show ?case
  proof (cases ps)
    case Nil
    then show ?thesis using C by (subst unthread_loop.simps) (auto simp: tag_of_plus fun_eq_iff)
  next
    case (Cons p' ps')
    have "chain (m(p := free)) (m p) ps r"
      using C Cons by (subst chain_cong [of _ _ m]) auto
    then have "unthread_loop q free (m p) (m(p := free)) =
        Some ((\<lambda>a. if a \<in> set ps then free else (m(p := free)) a)(q := UNTAG_CLOSURE r))"
      by (rule C(1)) (use C in auto)
    then show ?thesis using C Cons by (subst unthread_loop.simps) (auto simp: tag_of_plus fun_eq_iff)
  qed
qed simp

section \<open>The memory that a threaded memory stands for\<close>

text \<open>\<open>rep objs c ch m\<close>: the memory \<open>m\<close> stands for \<open>c\<close>, in which no field is threaded; \<open>ch q\<close> are the
  fields on the chain of the object \<open>q\<close>, and \<open>c q\<close> is its info pointer.\<close>

definition rep :: "StgWord set \<Rightarrow> hmem \<Rightarrow> (StgWord \<Rightarrow> StgWord list) \<Rightarrow> hmem \<Rightarrow> bool" where
  "rep objs c ch m =
     ((\<forall>q \<in> objs. aligned q \<and> aligned (c q) \<and> distinct (ch q) \<and>
         (\<forall>p \<in> set (ch q). aligned p \<and> p \<notin> objs \<and> UNTAG_CLOSURE (c p) = q) \<and>
         (if ch q = [] then m q = c q
          else chain m (m q) (ch q) (c q + GET_CLOSURE_TAG (c (last (ch q)))))) \<and>
      (\<forall>q. q \<notin> objs \<longrightarrow> ch q = []) \<and>
      (\<forall>a. a \<notin> objs \<longrightarrow> (\<forall>q. a \<notin> set (ch q)) \<longrightarrow> m a = c a))"

lemma repD:
  assumes "rep objs c ch m" and "q \<in> objs"
  shows "aligned q" "aligned (c q)" "distinct (ch q)"
    "\<And>p. p \<in> set (ch q) \<Longrightarrow> aligned p \<and> p \<notin> objs \<and> UNTAG_CLOSURE (c p) = q"
    "ch q = [] \<Longrightarrow> m q = c q"
    "ch q \<noteq> [] \<Longrightarrow> chain m (m q) (ch q) (c q + GET_CLOSURE_TAG (c (last (ch q))))"
  using assms unfolding rep_def by (auto split: if_splits)

lemma rep_chain_owner:
  assumes "rep objs c ch m" and "p \<in> set (ch q)"
  shows "q \<in> objs" and "q = UNTAG_CLOSURE (c p)" and "p \<notin> objs" and "aligned p"
proof -
  show q: "q \<in> objs"
    using assms unfolding rep_def by (metis empty_iff list.set(1))
  show "q = UNTAG_CLOSURE (c p)" "p \<notin> objs" "aligned p"
    using repD(4) [OF assms(1) q assms(2)] by auto
qed

text \<open>The word at the end of a chain: the info pointer with the tag of the field threaded first.\<close>

definition end_tag :: "hmem \<Rightarrow> StgWord list \<Rightarrow> StgWord" where
  "end_tag c ps = (if ps = [] then 0 else GET_CLOSURE_TAG (c (last ps)))"

lemma get_threaded_info_rep:
  assumes "rep objs c ch m" and "q \<in> objs"
  shows "get_threaded_info q m = Some (c q + end_tag c (ch q))"
proof (cases "ch q = []")
  case True
  then show ?thesis
    using repD [OF assms] unfolding get_threaded_info_def end_tag_def
    by (subst threaded_info_loop.simps) (simp add: untag_aligned aligned_def)
next
  case False
  then show ?thesis
    using repD [OF assms] threaded_info_chain [of m "m q" "ch q"]
    by (simp add: get_threaded_info_def end_tag_def untag_aligned)
qed

lemma chain_push:
  assumes c: "chain m w ps r" and p: "p \<notin> set ps" "q \<notin> set ps" "q \<noteq> p"
  shows "chain ((m(p := w))(q := p + 2)) (p + 2) (p # ps) r"
proof -
  obtain x xs where "ps = x # xs" using c by (cases ps) auto
  moreover have "chain ((m(p := w))(q := p + 2)) w ps r"
    using c p by (subst chain_cong [of _ _ m]) auto
  ultimately show ?thesis using p by simp
qed

lemma thread_rep:
  assumes r: "rep objs c ch m" and p: "aligned p" "p \<notin> objs" "\<And>q. p \<notin> set (ch q)"
  shows "rep objs c (if UNTAG_CLOSURE (c p) \<in> objs
            then ch(UNTAG_CLOSURE (c p) := p # ch (UNTAG_CLOSURE (c p))) else ch)
          (thread (\<lambda>q. q \<in> objs) p m)"
proof -
  have mp: "m p = c p" using r p unfolding rep_def by blast
  define q where "q = UNTAG_CLOSURE (c p)"
  show ?thesis
  proof (cases "q \<in> objs")
    case False
    then have "thread (\<lambda>q. q \<in> objs) p m = m" by (simp add: thread_def mp q_def Let_def)
    then show ?thesis using r False by (simp add: q_def)
  next
    case True
    note R = repD [OF r True]
    have pq: "q \<noteq> p" "q \<notin> set (ch q)" using True p R(4) by auto
    define m' where "m' = thread (\<lambda>q. q \<in> objs) p m"
    have m': "m' = (if ch q = [] then (m(p := c q + GET_CLOSURE_TAG (c p)))(q := p + 1)
                    else (m(p := m q))(q := p + 2))"
    proof (cases "ch q = []")
      case True
      then show ?thesis using R(2,5) \<open>q \<in> objs\<close> by (simp add: m'_def thread_def mp Let_def q_def aligned_def)
    next
      case False
      have "GET_CLOSURE_TAG (m q) = 1 \<or> GET_CLOSURE_TAG (m q) = 2"
        using chain_tag(1) [OF R(6) [OF False]] R(4) by auto
      then show ?thesis using False \<open>q \<in> objs\<close> by (auto simp: m'_def thread_def mp Let_def q_def)
    qed
    have o: "m' a = m a" if "a \<noteq> p" "a \<noteq> q" for a
      using that by (simp add: m')
    have cq: "chain m' (m' q) (p # ch q) (c q + GET_CLOSURE_TAG (c (last (p # ch q))))"
    proof (cases "ch q = []")
      case True
      then show ?thesis using pq by (simp add: m')
    next
      case False
      then show ?thesis using chain_push [OF R(6) [OF False] p(3) pq(2,1)] pq by (simp add: m')
    qed
    have others: "ch q' = [] \<longrightarrow> m' q' = c q'"
      "ch q' \<noteq> [] \<longrightarrow> chain m' (m' q') (ch q') (c q' + GET_CLOSURE_TAG (c (last (ch q'))))"
      if q': "q' \<in> objs" "q' \<noteq> q" for q'
    proof -
      note R' = repD [OF r q'(1)]
      have "m' q' = m q'" using q' p(2) by (intro o) auto
      moreover have "\<And>a. a \<in> set (ch q') \<Longrightarrow> m' a = m a"
        using R'(4) p(3) True by (intro o) auto
      then have "chain m' w (ch q') x = chain m w (ch q') x" for w x by (rule chain_cong)
      ultimately show "ch q' = [] \<longrightarrow> m' q' = c q'"
        "ch q' \<noteq> [] \<longrightarrow> chain m' (m' q') (ch q') (c q' + GET_CLOSURE_TAG (c (last (ch q'))))"
        using R'(5,6) by auto
    qed
    have rest: "m' a = c a" if "a \<notin> objs" "\<And>q'. a \<notin> set ((ch(q := p # ch q)) q')" for a
    proof -
      have "a \<noteq> p" "a \<noteq> q" using that(2) [of q] that(1) True by auto
      moreover have "a \<notin> set (ch q')" for q'
        using that(2) [of q'] by (cases "q' = q") auto
      ultimately have "a \<noteq> p" "a \<noteq> q" "\<And>q'. a \<notin> set (ch q')" by auto
      then show ?thesis using o that(1) r unfolding rep_def by metis
    qed
    have "rep objs c (ch(q := p # ch q)) m'"
      unfolding rep_def
    proof (intro conjI ballI allI impI)
      fix q' assume q': "q' \<in> objs"
      note R' = repD [OF r q']
      show "aligned q'" "aligned (c q')" using R' by auto
      show "distinct ((ch(q := p # ch q)) q')" using R'(3) p(3) by (cases "q' = q") simp_all
      show "if (ch(q := p # ch q)) q' = [] then m' q' = c q'
        else chain m' (m' q') ((ch(q := p # ch q)) q') (c q' + GET_CLOSURE_TAG (c (last ((ch(q := p # ch q)) q'))))"
        using cq others [OF q'] by (cases "q' = q") simp_all
      fix a assume "a \<in> set ((ch(q := p # ch q)) q')"
      then have "a = p \<and> q' = q \<or> a \<in> set (ch q')" by (auto split: if_splits)
      then show "aligned a" "a \<notin> objs" "UNTAG_CLOSURE (c a) = q'"
        using R'(4) [of a] p(1,2) q_def by auto
    next
      fix q' assume "q' \<notin> objs" then show "(ch(q := p # ch q)) q' = []" using r True by (auto simp: rep_def)
    next
      fix a assume "a \<notin> objs" "\<forall>q'. a \<notin> set ((ch(q := p # ch q)) q')"
      then show "m' a = c a" using rest by blast
    qed
    then show ?thesis using True by (simp add: m'_def [symmetric] q_def [symmetric])
  qed
qed

lemma unthread_rep:
  assumes r: "rep objs c ch m" and q: "q \<in> objs"
  shows "\<exists>m'. unthread q free m = Some m' \<and>
    rep objs (\<lambda>a. if a \<in> set (ch q) then free else c a) (ch(q := [])) m'"
proof (cases "ch q = []")
  case True
  note R = repD [OF r q]
  have "unthread q free m = Some m"
    unfolding unthread_def using R(2,5) True by (subst unthread_loop.simps) (simp add: aligned_def)
  moreover have "ch(q := []) = ch" using True by auto
  ultimately show ?thesis using r True by simp
next
  case False
  note R = repD [OF r q]
  define m' where "m' = (\<lambda>a. if a \<in> set (ch q) then free else m a)(q := c q)"
  define c' where "c' = (\<lambda>a. if a \<in> set (ch q) then free else c a)"
  have "UNTAG_CLOSURE (c q + GET_CLOSURE_TAG (c (last (ch q)))) = c q"
    using tag_of_plus(2) [OF R(2)] by simp
  then have u: "unthread q free m = Some m'"
    using unthread_chain [OF R(6) [OF False], of q free] R(3,4) by (simp add: unthread_def m'_def)
  have n: "a \<notin> set (ch q)" if "a \<in> objs \<or> a \<in> set (ch q') \<and> q' \<noteq> q" for a q'
    using that rep_chain_owner [OF r] by blast
  have "rep objs c' (ch(q := [])) m'"
    unfolding rep_def
  proof (intro conjI ballI allI impI)
    fix q' assume q': "q' \<in> objs"
    note R' = repD [OF r q']
    show "aligned q'" "aligned (c' q')" "distinct ((ch(q := [])) q')"
      using R' n q' by (auto simp: c'_def)
    show "if (ch(q := [])) q' = [] then m' q' = c' q'
       else chain m' (m' q') ((ch(q := [])) q') (c' q' + GET_CLOSURE_TAG (c' (last ((ch(q := [])) q'))))"
    proof (cases "q' = q \<or> ch q' = []")
      case True
      then show ?thesis using R'(5) n [of q'] q' by (auto simp: m'_def c'_def)
    next
      case False
      then have d: "a \<notin> set (ch q)" "a \<noteq> q" if "a \<in> set (ch q')" for a
        using n [of a q'] that R'(4) q by auto
      have "chain m' w (ch q') x = chain m w (ch q') x" for w x
        using d by (intro chain_cong) (auto simp: m'_def)
      moreover have "m' q' = m q'" "c' q' = c q'" using n [of q'] q' False by (auto simp: m'_def c'_def)
      moreover have "c' (last (ch q')) = c (last (ch q'))" using d(1) False by (auto simp: c'_def)
      ultimately show ?thesis using R'(6) False by simp
    qed
    fix p assume "p \<in> set ((ch(q := [])) q')"
    then have p: "p \<in> set (ch q')" "q' \<noteq> q" by (auto split: if_splits)
    show "aligned p" "p \<notin> objs" "UNTAG_CLOSURE (c' p) = q'"
      using R'(4) [OF p(1)] n [of p q'] p by (auto simp: c'_def)
  next
    fix q' assume "q' \<notin> objs" then show "(ch(q := [])) q' = []" using r by (simp add: rep_def)
  next
    fix a assume a: "a \<notin> objs" "\<forall>q'. a \<notin> set ((ch(q := [])) q')"
    show "m' a = c' a"
    proof (cases "a \<in> set (ch q)")
      case True
      then show ?thesis using a q by (auto simp: m'_def c'_def)
    next
      case False
      then have "\<forall>q'. a \<notin> set (ch q')" using a(2) by (metis fun_upd_apply)
      then show ?thesis using False a q r by (auto simp: m'_def c'_def rep_def)
    qed
  qed
  then show ?thesis using u by (auto simp: c'_def)
qed

section \<open>Sequences of threading and unthreading\<close>

datatype compact_op = Thread StgWord | Unthread StgWord StgWord

fun run_ops :: "StgWord set \<Rightarrow> compact_op list \<Rightarrow> hmem \<Rightarrow> hmem option" where
  "run_ops objs [] m = Some m"
| "run_ops objs (Thread p # ops) m = run_ops objs ops (thread (\<lambda>q. q \<in> objs) p m)"
| "run_ops objs (Unthread q free # ops) m = Option.bind (unthread q free m) (run_ops objs ops)"

text \<open>The specification keeps, beside the memory, for every object the set of fields that wait for its
  new address.  Threading a field changes no memory; unthreading writes the new address into the
  fields that wait.\<close>

fun spec_ops :: "StgWord set \<Rightarrow> compact_op list \<Rightarrow> hmem \<times> (StgWord \<Rightarrow> StgWord set) \<Rightarrow> hmem \<times> (StgWord \<Rightarrow> StgWord set)" where
  "spec_ops objs [] cw = cw"
| "spec_ops objs (Thread p # ops) (c, w) =
     spec_ops objs ops (c, if UNTAG_CLOSURE (c p) \<in> objs
       then w(UNTAG_CLOSURE (c p) := insert p (w (UNTAG_CLOSURE (c p)))) else w)"
| "spec_ops objs (Unthread q free # ops) (c, w) =
     spec_ops objs ops ((\<lambda>a. if a \<in> w q then free else c a), w(q := {}))"

text \<open>The collector threads a field that is not waiting, and unthreads objects.\<close>

fun ops_ok :: "StgWord set \<Rightarrow> compact_op list \<Rightarrow> hmem \<times> (StgWord \<Rightarrow> StgWord set) \<Rightarrow> bool" where
  "ops_ok objs [] cw = True"
| "ops_ok objs (Thread p # ops) (c, w) =
     (aligned p \<and> p \<notin> objs \<and> (\<forall>q. p \<notin> w q) \<and> ops_ok objs ops (spec_ops objs [Thread p] (c, w)))"
| "ops_ok objs (Unthread q free # ops) (c, w) =
     (q \<in> objs \<and> ops_ok objs ops (spec_ops objs [Unthread q free] (c, w)))"

lemma run_ops_rep:
  "rep objs c ch m \<Longrightarrow> ops_ok objs ops (c, \<lambda>q. set (ch q)) \<Longrightarrow>
   \<exists>m' ch'. run_ops objs ops m = Some m' \<and> rep objs (fst (spec_ops objs ops (c, \<lambda>q. set (ch q)))) ch' m' \<and>
     snd (spec_ops objs ops (c, \<lambda>q. set (ch q))) = (\<lambda>q. set (ch' q))"
proof (induction ops arbitrary: c ch m)
  case (Cons x ops)
  show ?case
  proof (cases x)
    case (Thread p)
    let ?q = "UNTAG_CLOSURE (c p)"
    define ch' where "ch' = (if ?q \<in> objs then ch(?q := p # ch ?q) else ch)"
    have p: "aligned p" "p \<notin> objs" "\<And>q. p \<notin> set (ch q)" using Cons.prems(2) Thread by auto
    have e: "(if ?q \<in> objs then (\<lambda>q. set (ch q))(?q := insert p (set (ch ?q))) else (\<lambda>q. set (ch q))) = (\<lambda>q. set (ch' q))"
      by (auto simp: ch'_def fun_eq_iff)
    have "rep objs c ch' (thread (\<lambda>q. q \<in> objs) p m)"
      using thread_rep [OF Cons.prems(1) p] by (simp add: ch'_def)
    from Cons.IH [OF this] show ?thesis
      using Cons.prems(2) Thread e by simp
  next
    case (Unthread q free)
    let ?c = "\<lambda>a. if a \<in> set (ch q) then free else c a"
    have q: "q \<in> objs" using Cons.prems(2) Unthread by simp
    have e: "(\<lambda>q. set (ch q))(q := {}) = (\<lambda>q'. set ((ch(q := [])) q'))"
      by (auto simp: fun_eq_iff)
    obtain m' where m': "unthread q free m = Some m'" "rep objs ?c (ch(q := [])) m'"
      using unthread_rep [OF Cons.prems(1) q] by blast
    from Cons.IH [OF m'(2)] show ?thesis
      using Cons.prems(2) Unthread e m'(1) by simp
  qed
qed auto

text \<open>
  Claim C11.  Threading is invisible.  Start from a memory in which the objects have their info pointers,
  and let the compacting collector thread fields and unthread objects in any order, a field only
  while it is not already on a chain.  No operation fails, and when no field waits any more the
  memory is the one of the specification: every field that was threaded holds the address that the
  object it pointed to was unthreaded with, every info pointer is back in its object, and nothing
  else has changed.\<close>

theorem threading_is_invisible:
  assumes "\<forall>q \<in> objs. aligned q \<and> aligned (m q)" and "ops_ok objs ops (m, \<lambda>_. {})"
    and "snd (spec_ops objs ops (m, \<lambda>_. {})) = (\<lambda>_. {})"
  shows "run_ops objs ops m = Some (fst (spec_ops objs ops (m, \<lambda>_. {})))"
proof -
  have "rep objs m (\<lambda>_. []) m"
    using assms(1) by (simp add: rep_def)
  from run_ops_rep [OF this, of ops] obtain m' ch' where m': "run_ops objs ops m = Some m'"
    "rep objs (fst (spec_ops objs ops (m, \<lambda>_. {}))) ch' m'"
    "snd (spec_ops objs ops (m, \<lambda>_. {})) = (\<lambda>q. set (ch' q))"
    using assms(2) by auto
  then have "ch' q = []" for q using assms(3) by (auto dest: fun_cong [of _ _ q])
  then have "m' = fst (spec_ops objs ops (m, \<lambda>_. {}))"
    using m'(2) unfolding rep_def by (auto simp: fun_eq_iff)
  then show ?thesis using m'(1) by simp
qed

text \<open>An object at 64 with the info pointer 8, and two fields 128 and 136 that point to it with tag 2; it
  moves to 32.\<close>

definition two_fields :: hmem where
  "two_fields = (\<lambda>_. 0)(64 := 8, 128 := 66, 136 := 66)"

theorem threading_is_invisible_witness:
  "map_option (\<lambda>m. (m 64, m 128, m 136)) (run_ops {64} [Thread 128, Thread 136, Unthread 64 34] two_fields) =
     Some (8, 34, 34)"
proof -
  let ?ops = "[Thread 128, Thread 136, Unthread 64 34]"
  have u: "UNTAG_CLOSURE 66 = 64" by (simp add: UNTAG_CLOSURE_def TAG_MASK_def)
  have s: "spec_ops {64} ?ops (two_fields, \<lambda>_. {}) =
      (\<lambda>a. if a = 128 \<or> a = 136 then 34 else two_fields a, \<lambda>_. {})"
    by (auto simp: two_fields_def u fun_eq_iff)
  have o: "\<forall>q \<in> {64}. aligned q \<and> aligned (two_fields q)"
    by (simp add: aligned_def GET_CLOSURE_TAG_def TAG_MASK_def two_fields_def)
  have k: "ops_ok {64} ?ops (two_fields, \<lambda>_. {})"
    by (simp add: aligned_def GET_CLOSURE_TAG_def TAG_MASK_def two_fields_def u)
  have "snd (spec_ops {64} ?ops (two_fields, \<lambda>_. {})) = (\<lambda>_. {})"
    by (simp only: s snd_conv)
  from threading_is_invisible [OF o k this] show ?thesis
    unfolding s fst_conv by (simp only: option.map) (simp add: two_fields_def)
qed

section \<open>Pointer bitmaps, moving objects, marking\<close>

text \<open>The fields from \<open>p\<close> on, numbered from \<open>i\<close> to \<open>n\<close>, that a bitmap calls pointers.\<close>

definition bitmap_fields :: "(nat \<Rightarrow> bool) \<Rightarrow> StgWord \<Rightarrow> nat \<Rightarrow> nat \<Rightarrow> StgWord list" where
  "bitmap_fields nonptr p i n = List.map (\<lambda>j. p + 8 * of_nat (j - i)) (filter (\<lambda>j. \<not> nonptr j) [i..<n])"

lemma bitmap_fields_rec:
  "bitmap_fields nonptr p i n =
     (if i < n then (if nonptr i then [] else [p]) @ bitmap_fields nonptr (p + 8) (Suc i) n else [])"
proof (cases "i < n")
  case True
  have "p + 8 * of_nat (j - i) = p + 8 + 8 * of_nat (j - Suc i)" if "j \<in> set [Suc i..<n]" for j
  proof -
    have "j - i = Suc (j - Suc i)" using that by auto
    then show ?thesis by (simp add: distrib_left)
  qed
  then have "List.map (\<lambda>j. p + 8 * of_nat (j - i)) (filter (\<lambda>j. \<not> nonptr j) [Suc i..<n]) =
      List.map (\<lambda>j. p + 8 + 8 * of_nat (j - Suc i)) (filter (\<lambda>j. \<not> nonptr j) [Suc i..<n])"
    by (intro map_cong) auto
  then show ?thesis using True unfolding bitmap_fields_def upt_conv_Cons [OF True] by simp
qed (simp add: bitmap_fields_def)

lemma low_bit: "(w :: StgWord) AND 1 = 0 \<longleftrightarrow> \<not> bit w 0"
  by (simp add: bit_0 and_one_eq even_iff_mod_2_eq_zero)

lemma large_bitmap_loop_fields:
  "large_bitmap_loop marked large n i (i div 64) (drop_bit (i mod 64) (large (i div 64))) p m =
   fold (thread marked) (bitmap_fields (\<lambda>j. bit (large (j div 64)) (j mod 64)) p i n) m"
proof (induction "n - i" arbitrary: i p m)
  case 0
  then show ?case by (subst large_bitmap_loop.simps, subst bitmap_fields_rec) simp
next
  case (Suc k)
  define m1 where "m1 = (if drop_bit (i mod 64) (large (i div 64)) AND 1 = 0 then thread marked p m else m)"
  have b: "drop_bit (i mod 64) (large (i div 64)) AND 1 = 0 \<longleftrightarrow> \<not> bit (large (i div 64)) (i mod 64)"
    by (simp add: low_bit bit_drop_bit_eq)
  have IH: "large_bitmap_loop marked large n (i + 1) ((i + 1) div 64)
       (drop_bit ((i + 1) mod 64) (large ((i + 1) div 64))) (p + 8) m1 =
     fold (thread marked) (bitmap_fields (\<lambda>j. bit (large (j div 64)) (j mod 64)) (p + 8) (Suc i) n) m1"
    using Suc.hyps(1) [of "i + 1" "p + 8" m1] Suc.hyps(2) by simp
  have lt: "i < n" using Suc.hyps(2) by simp
  have step: "large_bitmap_loop marked large n i (i div 64) (drop_bit (i mod 64) (large (i div 64))) p m =
     large_bitmap_loop marked large n (i + 1) ((i + 1) div 64)
       (drop_bit ((i + 1) mod 64) (large ((i + 1) div 64))) (p + 8) m1"
  proof (cases "(i + 1) mod 64 = 0")
    case True
    then have "(i + 1) div 64 = i div 64 + 1" by (simp add: div_Suc mod_Suc split: if_splits)
    then show ?thesis using True lt
      by (subst large_bitmap_loop.simps) (simp add: m1_def)
  next
    case False
    then have "(i + 1) div 64 = i div 64" "(i + 1) mod 64 = i mod 64 + 1"
      by (simp_all add: div_Suc mod_Suc split: if_splits)
    then show ?thesis using False lt
      by (subst large_bitmap_loop.simps) (simp add: m1_def drop_bit_drop_bit add.commute)
  qed
  show ?case
    unfolding step IH using lt b by (subst (2) bitmap_fields_rec) (simp add: m1_def)
qed

text \<open>\<open>thread_large_bitmap\<close> threads exactly the words whose bit is 0, in order.\<close>

lemma thread_large_bitmap_fields:
  "thread_large_bitmap marked p large n m =
   fold (thread marked) (bitmap_fields (\<lambda>j. bit (large (j div 64)) (j mod 64)) p 0 n) m"
  using large_bitmap_loop_fields [of marked large n 0 p m] by (simp add: thread_large_bitmap_def)

lemma thread_small_bitmap_fields:
  "thread_small_bitmap marked p (drop_bit i bitmap) (n - i) m =
   fold (thread marked) (bitmap_fields (bit bitmap) p i n) m"
proof (induction "n - i" arbitrary: i p m)
  case 0
  then show ?case by (subst bitmap_fields_rec) simp
next
  case (Suc k)
  have n: "n - i = Suc (n - Suc i)" "i < n" using Suc.hyps(2) by auto
  have IH: "thread_small_bitmap marked (p + 8) (drop_bit (Suc i) bitmap) (n - Suc i) m' =
      fold (thread marked) (bitmap_fields (bit bitmap) (p + 8) (Suc i) n) m'" for m'
    using Suc.hyps by simp
  have "drop_bit i bitmap AND 1 = 0 \<longleftrightarrow> \<not> bit bitmap i"
    by (simp add: low_bit bit_drop_bit_eq)
  then show ?case
    unfolding n(1) using n(2) IH by (subst bitmap_fields_rec) (simp add: drop_bit_drop_bit)
qed

text \<open>Moving an object towards lower addresses copies it, also when the two regions overlap.\<close>

lemma word_offsets:
  assumes "8 * i < 2 ^ 64" "8 * j < 2 ^ 64" "to + 8 * of_nat i = (to :: StgWord) + 8 * of_nat j"
  shows "i = j"
proof -
  have "(word_of_nat (8 * i) :: StgWord) = word_of_nat (8 * j)" using assms(3) by simp
  moreover have u: "unat (word_of_nat (8 * x) :: StgWord) = 8 * x" if "8 * x < 2 ^ 64" for x
    using that by (subst unsigned_of_nat) (simp add: take_bit_nat_eq_self)
  ultimately have "8 * i = 8 * j" using u [OF assms(1)] u [OF assms(2)] by metis
  then show ?thesis by simp
qed

lemma move_outside:
  "(\<And>i. i < n \<Longrightarrow> a \<noteq> to + 8 * of_nat i) \<Longrightarrow> move to from n m a = m a"
proof (induction n arbitrary: to "from" m)
  case (Suc n)
  have "a \<noteq> to + 8 + 8 * of_nat i" if "i < n" for i
    using Suc.prems [of "Suc i"] that by (simp add: algebra_simps)
  then show ?case using Suc.IH [of "to + 8"] Suc.prems [of 0] by simp
qed simp

lemma move_copies:
  "8 * (k + n) < 2 ^ 64 \<Longrightarrow> i < n \<Longrightarrow>
   move to (to + 8 * of_nat k) n m (to + 8 * of_nat i) = m (to + 8 * of_nat (k + i))"
proof (induction n arbitrary: to i m)
  case (Suc n)
  let ?m = "m(to := m (to + 8 * of_nat k))"
  show ?case
  proof (cases i)
    case 0
    have "to \<noteq> to + 8 + 8 * of_nat j" if "j < n" for j
      using word_offsets [of 0 "Suc j" to] Suc.prems(1) that by (auto simp: algebra_simps)
    then show ?thesis using 0 move_outside [of n to "to + 8"] by (simp add: add.commute add.left_commute)
  next
    case (Suc j)
    have "move (to + 8) (to + 8 + 8 * of_nat k) n ?m (to + 8 + 8 * of_nat j) = ?m (to + 8 + 8 * of_nat (k + j))"
      by (rule Suc.IH) (use Suc Suc.prems in auto)
    moreover have "to + 8 + 8 * of_nat (k + j) \<noteq> to"
      using word_offsets [of "Suc (k + j)" 0 to] Suc.prems Suc by (auto simp: algebra_simps)
    ultimately show ?thesis using Suc by (simp add: algebra_simps)
  qed
qed simp

text \<open>The bitmap is a set of words of the block.\<close>

lemma bit_mask_bit: "bit (bit_mask p start) i \<longleftrightarrow> i = unat (offset_within_block p start AND 63)"
proof -
  have "offset_within_block p start AND 63 = take_bit 6 (offset_within_block p start)"
    by (simp add: take_bit_eq_mask mask_numeral)
  then have "unat (offset_within_block p start AND 63) < 64"
    by (simp add: unsigned_take_bit_eq take_bit_nat_less_exp [of 6, simplified])
  then show ?thesis by (auto simp: bit_mask_def bit_simps)
qed

lemma is_marked_iff:
  "is_marked p start bitmap m \<noteq> 0 \<longleftrightarrow>
     bit (m (bitmap_word p start bitmap)) (unat (offset_within_block p start AND 63))"
proof
  assume "is_marked p start bitmap m \<noteq> 0"
  then obtain i where "bit (is_marked p start bitmap m) i"
    by (metis bit_word_eqI bit_0_eq bot_apply bot_bool_def)
  then show "bit (m (bitmap_word p start bitmap)) (unat (offset_within_block p start AND 63))"
    by (auto simp: is_marked_def bit_and_iff bit_mask_bit)
next
  assume "bit (m (bitmap_word p start bitmap)) (unat (offset_within_block p start AND 63))"
  then have "bit (is_marked p start bitmap m) (unat (offset_within_block p start AND 63))"
    by (simp add: is_marked_def bit_and_iff bit_mask_bit)
  then show "is_marked p start bitmap m \<noteq> 0" by auto
qed

lemma block_offset:
  assumes "i < 2 ^ 32"
  shows "unat (offset_within_block (start + 8 * of_nat i) start) = i"
proof -
  have u: "unat (8 * word_of_nat i :: StgWord) = 8 * i"
  proof -
    have "unat (word_of_nat (8 * i) :: StgWord) = 8 * i"
      using assms by (subst unsigned_of_nat) (simp add: take_bit_nat_eq_self)
    then show ?thesis by simp
  qed
  then have "unat ((8 * word_of_nat i :: StgWord) div 8) = i"
    by (simp add: unat_div)
  then show ?thesis
    using assms by (simp add: offset_within_block_def unsigned_ucast_eq take_bit_nat_eq_self)
qed

lemma bitmap_word_block:
  assumes "i < 2 ^ 32"
  shows "bitmap_word (start + 8 * of_nat i) start bitmap = bitmap + 8 * of_nat (i div 64)"
    and "unat (offset_within_block (start + 8 * of_nat i) start AND 63) = i mod 64"
proof -
  let ?o = "offset_within_block (start + 8 * of_nat i) start"
  note o = block_offset [OF assms, of start]
  have "unat (?o div 64) = i div 64" using o by (simp add: unat_div)
  then have "ucast (?o div 64) = (of_nat (i div 64) :: StgWord)" by (metis of_nat_unat)
  then show "bitmap_word (start + 8 * of_nat i) start bitmap = bitmap + 8 * of_nat (i div 64)"
    by (simp add: bitmap_word_def)
  have "?o AND 63 = take_bit 6 ?o" by (simp add: take_bit_eq_mask mask_numeral)
  then show "unat (?o AND 63) = i mod 64"
    using o by (simp add: take_bit_eq_mod unat_mod)
qed

text \<open>The word number \<open>k\<close> of a block.\<close>

definition nth_word :: "StgWord \<Rightarrow> nat \<Rightarrow> StgWord" where
  "nth_word start k = start + 8 * of_nat k"

text \<open>
  The mark bitmap of a block is a set of its words: after \<open>mark\<close> a word is marked exactly if it
  is the one or was marked before, and after \<open>unmark\<close> exactly if it is another one and was
  marked before; this holds for every two words of a group of up to \<open>2^32\<close> words.\<close>

theorem mark_bitmap_is_a_set:
  assumes "i < 2 ^ 32" "j < 2 ^ 32"
  shows "(is_marked (nth_word start j) start bitmap (mark (nth_word start i) start bitmap m) \<noteq> 0 \<longleftrightarrow>
           j = i \<or> is_marked (nth_word start j) start bitmap m \<noteq> 0) \<and>
         (is_marked (nth_word start j) start bitmap (unmark (nth_word start i) start bitmap m) \<noteq> 0 \<longleftrightarrow>
           j \<noteq> i \<and> is_marked (nth_word start j) start bitmap m \<noteq> 0)"
proof -
  have q: "bitmap_word (nth_word start i) start bitmap = bitmap + 8 * of_nat (i div 64)"
    "bitmap_word (nth_word start j) start bitmap = bitmap + 8 * of_nat (j div 64)"
    "unat (offset_within_block (nth_word start i) start AND 63) = i mod 64"
    "unat (offset_within_block (nth_word start j) start AND 63) = j mod 64"
    unfolding nth_word_def by (simp_all only: bitmap_word_block assms(1,2))
  have d: "i div 64 = j div 64" if "bitmap + 8 * of_nat (j div 64) = (bitmap :: StgWord) + 8 * of_nat (i div 64)"
  proof -
    have "8 * (k div 64) < 2 ^ 64" if "k < 2 ^ 32" for k :: nat
    proof -
      have "k div 64 < 4294967296" using le_less_trans [OF div_le_dividend [of k 64] that] by simp
      then show ?thesis by simp
    qed
    then show ?thesis using word_offsets [of "j div 64" "i div 64" bitmap] that assms(1,2) by simp
  qed
  have e: "i = j" if "i div 64 = j div 64" "i mod 64 = j mod 64"
    using that by (metis div_mult_mod_eq)
  have m1: "is_marked (nth_word start j) start bitmap (mark (nth_word start i) start bitmap m) \<noteq> 0 \<longleftrightarrow>
           j = i \<or> is_marked (nth_word start j) start bitmap m \<noteq> 0"
  proof (cases "bitmap + 8 * of_nat (j div 64) = bitmap + 8 * of_nat (i div 64)")
    case True
    have "i = j \<longleftrightarrow> j mod 64 = i mod 64" using d [OF True] e by auto
    then show ?thesis unfolding is_marked_iff mark_def q True by (auto simp: bit_or_iff bit_mask_bit q)
  next
    case False
    then have "i \<noteq> j" by auto
    then show ?thesis unfolding is_marked_iff mark_def q using False by simp
  qed
  have m2: "is_marked (nth_word start j) start bitmap (unmark (nth_word start i) start bitmap m) \<noteq> 0 \<longleftrightarrow>
           j \<noteq> i \<and> is_marked (nth_word start j) start bitmap m \<noteq> 0"
  proof (cases "bitmap + 8 * of_nat (j div 64) = bitmap + 8 * of_nat (i div 64)")
    case True
    have "i = j \<longleftrightarrow> j mod 64 = i mod 64" using d [OF True] e by auto
    then show ?thesis unfolding is_marked_iff unmark_def q True
      by (auto simp: bit_and_iff bit_not_iff bit_mask_bit q)
  next
    case False
    then have "i \<noteq> j" by auto
    then show ?thesis unfolding is_marked_iff unmark_def q using False by simp
  qed
  show ?thesis using m1 m2 by blast
qed

theorem mark_bitmap_is_a_set_witness:
  "is_marked (nth_word 4096 70) 4096 512 (mark (nth_word 4096 70) 4096 512 (\<lambda>_. 0)) \<noteq> 0 \<and>
   is_marked (nth_word 4096 70) 4096 512 (mark (nth_word 4096 6) 4096 512 (\<lambda>_. 0)) = 0"
proof -
  have "is_marked (nth_word 4096 70) 4096 512 (\<lambda>_. 0) = 0"
    by (simp add: is_marked_def)
  then show ?thesis
    using mark_bitmap_is_a_set [of 70 70 4096 512 "\<lambda>_. 0"] mark_bitmap_is_a_set [of 6 70 4096 512 "\<lambda>_. 0"] by simp
qed

end
