(* ===== verification/RunQueue.thy ===== *)
theory RunQueue
  imports Prelude
begin

text \<open>
  Queues of Haskell threads: the run queue of a capability, doubly linked through the thread objects
  (\<open>rts/Schedule.h\<close>, \<open>rts/Schedule.c\<close>), the queue of blocked threads of the runtime without threads,
  removal from singly linked queues and the waking of a thread (\<open>rts/Threads.c\<close>), with the write
  barrier of \<open>rts/sm/Storage.c\<close>.  Address 0 is \<open>END_TSO_QUEUE\<close>, and also \<open>NULL\<close> for the previous
  element of a traversal; a failed assertion or a call of \<open>barf\<close> is \<open>None\<close>.
\<close>

section \<open>Data\<close>

datatype why_blocked_t = NotBlocked | BlockedOnMVar | BlockedOnBlackHole | BlockedOnSTM |
  BlockedOnMsgThrowTo | ThreadMigrating | BlockedOnOther

record StgTSO =
  tso_link :: addr
  tso_prev :: addr
  tso_why_blocked :: why_blocked_t
  tso_dirty :: bool

record Capability =
  tsos :: "addr \<Rightarrow> StgTSO"
  run_queue_hd :: addr
  run_queue_tl :: addr
  blocked_queue_hd :: addr
  blocked_queue_tl :: addr
  sleeping_queue :: addr
  mut_lists :: "nat \<Rightarrow> addr list"
  gen_no :: "addr \<Rightarrow> nat"

abbreviation END_TSO_QUEUE :: addr where "END_TSO_QUEUE \<equiv> 0"

definition upd_tso :: "addr \<Rightarrow> (StgTSO \<Rightarrow> StgTSO) \<Rightarrow> Capability \<Rightarrow> Capability" where
  "upd_tso t f c = c\<lparr>tsos := (tsos c)(t := f (tsos c t))\<rparr>"

section \<open>The write barrier\<close>

text \<open>\<open>recordClosureMutated\<close> puts a closure of an old generation on the mutable list that the capability
  has for that generation; \<open>gen_no\<close> is the generation in the descriptor of the closure's block.  A
  mutable list is a list here, and a chain of blocks in the code.\<close>

definition recordMutableCap :: "addr \<Rightarrow> nat \<Rightarrow> Capability \<Rightarrow> Capability" where
  "recordMutableCap p gen c = c\<lparr>mut_lists := (mut_lists c)(gen := p # mut_lists c gen)\<rparr>"

definition recordClosureMutated :: "addr \<Rightarrow> Capability \<Rightarrow> Capability" where
  "recordClosureMutated p c = (if gen_no c p \<noteq> 0 then recordMutableCap p (gen_no c p) c else c)"

definition dirty_TSO :: "addr \<Rightarrow> Capability \<Rightarrow> Capability" where
  "dirty_TSO t c =
     (if \<not> tso_dirty (tsos c t)
      then recordClosureMutated t (upd_tso t (\<lambda>x. x\<lparr>tso_dirty := True\<rparr>) c) else c)"

definition setTSOLink :: "addr \<Rightarrow> addr \<Rightarrow> Capability \<Rightarrow> Capability" where
  "setTSOLink t target c = upd_tso t (\<lambda>x. x\<lparr>tso_link := target\<rparr>) (dirty_TSO t c)"

definition setTSOPrev :: "addr \<Rightarrow> addr \<Rightarrow> Capability \<Rightarrow> Capability" where
  "setTSOPrev t target c = upd_tso t (\<lambda>x. x\<lparr>tso_prev := target\<rparr>) (dirty_TSO t c)"

section \<open>The run queue\<close>

definition appendToRunQueue :: "addr \<Rightarrow> Capability \<Rightarrow> Capability option" where
  "appendToRunQueue tso c =
     (if tso_link (tsos c tso) = END_TSO_QUEUE
      then let c = (if run_queue_hd c = END_TSO_QUEUE
                    then upd_tso tso (\<lambda>x. x\<lparr>tso_prev := END_TSO_QUEUE\<rparr>) (c\<lparr>run_queue_hd := tso\<rparr>)
                    else setTSOPrev tso (run_queue_tl c) (setTSOLink (run_queue_tl c) tso c))
           in Some (c\<lparr>run_queue_tl := tso\<rparr>)
      else None)"

definition pushOnRunQueue :: "addr \<Rightarrow> Capability \<Rightarrow> Capability" where
  "pushOnRunQueue tso c =
     (let c = setTSOLink tso (run_queue_hd c) c;
          c = upd_tso tso (\<lambda>x. x\<lparr>tso_prev := END_TSO_QUEUE\<rparr>) c;
          c = (if run_queue_hd c \<noteq> END_TSO_QUEUE then setTSOPrev (run_queue_hd c) tso c else c);
          c = c\<lparr>run_queue_hd := tso\<rparr>
      in if run_queue_tl c = END_TSO_QUEUE then c\<lparr>run_queue_tl := tso\<rparr> else c)"

definition popRunQueue :: "Capability \<Rightarrow> (addr \<times> Capability) option" where
  "popRunQueue c =
     (let t = run_queue_hd c
      in if t \<noteq> END_TSO_QUEUE
         then let l = tso_link (tsos c t);
                  c = c\<lparr>run_queue_hd := l\<rparr>;
                  c = (if l \<noteq> END_TSO_QUEUE then upd_tso l (\<lambda>x. x\<lparr>tso_prev := END_TSO_QUEUE\<rparr>) c else c);
                  c = upd_tso t (\<lambda>x. x\<lparr>tso_link := END_TSO_QUEUE\<rparr>) c;
                  c = (if run_queue_hd c = END_TSO_QUEUE then c\<lparr>run_queue_tl := END_TSO_QUEUE\<rparr> else c)
              in Some (t, c)
         else None)"

definition removeFromRunQueue :: "addr \<Rightarrow> Capability \<Rightarrow> Capability option" where
  "removeFromRunQueue tso c =
     (let p = tso_prev (tsos c tso);
          l = tso_link (tsos c tso)
      in if (p = END_TSO_QUEUE \<longrightarrow> run_queue_hd c = tso) \<and> (l = END_TSO_QUEUE \<longrightarrow> run_queue_tl c = tso)
         then let c = (if p = END_TSO_QUEUE then c\<lparr>run_queue_hd := l\<rparr> else setTSOLink p l c);
                  c = (if l = END_TSO_QUEUE then c\<lparr>run_queue_tl := p\<rparr> else setTSOPrev l p c)
              in Some (upd_tso tso (\<lambda>x. x\<lparr>tso_link := END_TSO_QUEUE, tso_prev := END_TSO_QUEUE\<rparr>) c)
         else None)"

definition emptyQueue :: "addr \<Rightarrow> bool" where
  "emptyQueue q = (q = END_TSO_QUEUE)"

definition emptyRunQueue :: "Capability \<Rightarrow> bool" where
  "emptyRunQueue c = emptyQueue (run_queue_hd c)"

definition emptyThreadQueues :: "Capability \<Rightarrow> bool" where
  "emptyThreadQueues c =
     (emptyRunQueue c \<and> emptyQueue (blocked_queue_hd c) \<and> emptyQueue (sleeping_queue c))"

definition appendToBlockedQueue :: "addr \<Rightarrow> Capability \<Rightarrow> Capability option" where
  "appendToBlockedQueue tso c =
     (if tso_link (tsos c tso) = END_TSO_QUEUE
      then let c = (if blocked_queue_hd c = END_TSO_QUEUE then c\<lparr>blocked_queue_hd := tso\<rparr>
                    else setTSOLink (blocked_queue_tl c) tso c)
           in Some (c\<lparr>blocked_queue_tl := tso\<rparr>)
      else None)"

section \<open>Removal from other queues\<close>

text \<open>The queue is given by its first element; the result says whether that has changed.\<close>

partial_function (option) remove_q_loop ::
  "addr \<Rightarrow> addr \<Rightarrow> addr \<Rightarrow> addr \<Rightarrow> Capability \<Rightarrow> (bool \<times> addr \<times> Capability) option" where
  "remove_q_loop queue tso prev t c =
     (if t = END_TSO_QUEUE then None
      else if t = tso
      then let l = tso_link (tsos c t)
           in if prev \<noteq> NULL
              then Some (False, queue, upd_tso t (\<lambda>x. x\<lparr>tso_link := END_TSO_QUEUE\<rparr>) (setTSOLink prev l c))
              else Some (True, l, upd_tso t (\<lambda>x. x\<lparr>tso_link := END_TSO_QUEUE\<rparr>) c)
      else remove_q_loop queue tso t (tso_link (tsos c t)) c)"

definition removeThreadFromQueue :: "addr \<Rightarrow> addr \<Rightarrow> Capability \<Rightarrow> (bool \<times> addr \<times> Capability) option" where
  "removeThreadFromQueue queue tso c = remove_q_loop queue tso NULL queue c"

text \<open>The same with a pointer to the last element.\<close>

partial_function (option) remove_de_loop ::
  "addr \<Rightarrow> addr \<Rightarrow> addr \<Rightarrow> addr \<Rightarrow> addr \<Rightarrow> Capability \<Rightarrow> (bool \<times> addr \<times> addr \<times> Capability) option" where
  "remove_de_loop head tail tso prev t c =
     (if t = END_TSO_QUEUE then None
      else if t = tso
      then let l = tso_link (tsos c t);
               (flag, head, c) = (if prev \<noteq> NULL then (False, head, setTSOLink prev l c) else (True, l, c));
               c = upd_tso t (\<lambda>x. x\<lparr>tso_link := END_TSO_QUEUE\<rparr>) c
           in if tail = tso then Some (True, head, if prev \<noteq> NULL then prev else END_TSO_QUEUE, c)
              else Some (flag, head, tail, c)
      else remove_de_loop head tail tso t (tso_link (tsos c t)) c)"

definition removeThreadFromDeQueue ::
  "addr \<Rightarrow> addr \<Rightarrow> addr \<Rightarrow> Capability \<Rightarrow> (bool \<times> addr \<times> addr \<times> Capability) option" where
  "removeThreadFromDeQueue head tail tso c = remove_de_loop head tail tso NULL head c"

section \<open>Waking\<close>

text \<open>\<open>tryWakeupThread\<close> in the runtime without threads.  A thread blocked by an asynchronous exception is
  unblocked when the message it waits for has been revoked, which is the argument \<open>revoked\<close>; the frame
  that is then taken off its stack is not modelled.  \<open>block_info.closure\<close> and \<open>block_info.prev\<close> are
  one word.\<close>

definition tryWakeupThread :: "bool \<Rightarrow> addr \<Rightarrow> Capability \<Rightarrow> Capability option" where
  "tryWakeupThread revoked tso c =
     (let unblock = (case tso_why_blocked (tsos c tso) of
            BlockedOnMVar \<Rightarrow> tso_link (tsos c tso) = END_TSO_QUEUE
          | BlockedOnMsgThrowTo \<Rightarrow> revoked
          | BlockedOnBlackHole \<Rightarrow> True
          | BlockedOnSTM \<Rightarrow> True
          | ThreadMigrating \<Rightarrow> True
          | _ \<Rightarrow> False)
      in if unblock
         then let c = (if tso_why_blocked (tsos c tso) = BlockedOnMVar
                       then upd_tso tso (\<lambda>x. x\<lparr>tso_prev := END_TSO_QUEUE\<rparr>) c else c)
              in appendToRunQueue tso (upd_tso tso (\<lambda>x. x\<lparr>tso_why_blocked := NotBlocked\<rparr>) c)
         else Some c)"

definition migrateThread :: "addr \<Rightarrow> Capability \<Rightarrow> Capability option" where
  "migrateThread tso c =
     tryWakeupThread False tso (upd_tso tso (\<lambda>x. x\<lparr>tso_why_blocked := ThreadMigrating\<rparr>) c)"

section \<open>The queue that a run queue stands for\<close>

fun bwd :: "(addr \<Rightarrow> addr) \<Rightarrow> addr \<Rightarrow> addr list \<Rightarrow> bool" where
  "bwd prv p [] = True"
| "bwd prv p (x # xs) = (prv x = p \<and> bwd prv x xs)"

abbreviation tlinks :: "Capability \<Rightarrow> addr \<Rightarrow> addr" where "tlinks c \<equiv> \<lambda>t. tso_link (tsos c t)"
abbreviation tprevs :: "Capability \<Rightarrow> addr \<Rightarrow> addr" where "tprevs c \<equiv> \<lambda>t. tso_prev (tsos c t)"

definition rq :: "Capability \<Rightarrow> addr list \<Rightarrow> bool" where
  "rq c qs = (lst (tlinks c) (run_queue_hd c) qs \<and> bwd (tprevs c) END_TSO_QUEUE qs \<and>
     run_queue_tl c = (if qs = [] then END_TSO_QUEUE else last qs))"

lemma bwd_append:
  "bwd prv p (xs @ ys) = (bwd prv p xs \<and> bwd prv (if xs = [] then p else last xs) ys)"
  by (induction xs arbitrary: p) auto

lemma bwd_cong: "(\<And>x. x \<in> set xs \<Longrightarrow> prv x = prv' x) \<Longrightarrow> bwd prv p xs = bwd prv' p xs"
  by (induction xs arbitrary: p) auto

lemma upd_tso_simps [simp]:
  "tsos (upd_tso t f c) = (tsos c)(t := f (tsos c t))"
  "run_queue_hd (upd_tso t f c) = run_queue_hd c" "run_queue_tl (upd_tso t f c) = run_queue_tl c"
  by (simp_all add: upd_tso_def)

lemma recordClosureMutated_simps [simp]:
  "tsos (recordClosureMutated p c) = tsos c"
  "run_queue_hd (recordClosureMutated p c) = run_queue_hd c"
  "run_queue_tl (recordClosureMutated p c) = run_queue_tl c"
  by (simp_all add: recordClosureMutated_def recordMutableCap_def)

lemma barrier_at [simp]:
  "tso_link (tsos (setTSOLink t x c) y) = (if y = t then x else tso_link (tsos c y))"
  "tso_prev (tsos (setTSOLink t x c) y) = tso_prev (tsos c y)"
  "tso_link (tsos (setTSOPrev t x c) y) = tso_link (tsos c y)"
  "tso_prev (tsos (setTSOPrev t x c) y) = (if y = t then x else tso_prev (tsos c y))"
  "tso_why_blocked (tsos (setTSOLink t x c) y) = tso_why_blocked (tsos c y)"
  "tso_why_blocked (tsos (setTSOPrev t x c) y) = tso_why_blocked (tsos c y)"
  by (auto simp: setTSOLink_def setTSOPrev_def dirty_TSO_def)

lemma barrier_queue [simp]:
  "run_queue_hd (setTSOLink t x c) = run_queue_hd c" "run_queue_tl (setTSOLink t x c) = run_queue_tl c"
  "run_queue_hd (setTSOPrev t x c) = run_queue_hd c" "run_queue_tl (setTSOPrev t x c) = run_queue_tl c"
  by (auto simp: setTSOLink_def setTSOPrev_def dirty_TSO_def)

lemma lst_snoc:
  assumes "lst nxt p (xs @ [a])" "t \<noteq> NULL" "t \<notin> set (xs @ [a])" "nxt t = NULL"
  shows "lst (nxt(a := t)) p (xs @ [a, t])"
proof -
  have d: "distinct (xs @ [a])" using assms(1) by (rule lst_distinct)
  then show ?thesis using assms by (auto simp: lst_append)
qed

lemma appendToRunQueue_rq:
  assumes "rq c qs" and "t \<noteq> END_TSO_QUEUE" "t \<notin> set qs" "tso_link (tsos c t) = END_TSO_QUEUE"
  shows "\<exists>c'. appendToRunQueue t c = Some c' \<and> rq c' (qs @ [t])"
proof (cases qs rule: rev_cases)
  case Nil
  then show ?thesis using assms by (auto simp: appendToRunQueue_def rq_def Let_def)
next
  case (snoc xs a)
  then have h: "run_queue_hd c \<noteq> 0" "run_queue_tl c = a"
    using assms(1) by (cases xs; auto simp: rq_def)+
  define c1 where "c1 = setTSOPrev t a (setTSOLink a t c)"
  have e: "appendToRunQueue t c = Some (c1\<lparr>run_queue_tl := t\<rparr>)"
    using assms(4) h by (simp add: appendToRunQueue_def c1_def Let_def)
  have l: "tlinks c1 = (tlinks c)(a := t)" "tprevs c1 = (tprevs c)(t := a)" "run_queue_hd c1 = run_queue_hd c"
    by (simp_all add: c1_def fun_eq_iff)
  have "lst (tlinks c1) (run_queue_hd c) (xs @ [a, t])"
    unfolding l using assms snoc by (intro lst_snoc) (auto simp: rq_def)
  moreover have "bwd (tprevs c1) 0 (xs @ [a, t])"
  proof -
    have "bwd (tprevs c1) 0 (xs @ [a]) = bwd (tprevs c) 0 (xs @ [a])"
      unfolding l using assms(3) snoc by (intro bwd_cong) auto
    then have "bwd (tprevs c1) 0 (xs @ [a])" using assms(1) snoc by (simp add: rq_def)
    then show ?thesis by (auto simp: bwd_append fun_cong [OF l(2)])
  qed
  ultimately show ?thesis using e l(3) snoc by (simp add: rq_def)
qed

lemma appendToRunQueue_why:
  "appendToRunQueue t c = Some c' \<Longrightarrow> tso_why_blocked (tsos c' u) = tso_why_blocked (tsos c u)"
  by (auto simp: appendToRunQueue_def Let_def split: if_splits)

lemma pushOnRunQueue_rq:
  assumes "rq c qs" and "t \<noteq> END_TSO_QUEUE" "t \<notin> set qs"
  shows "rq (pushOnRunQueue t c) (t # qs)"
proof -
  define c1 where "c1 = upd_tso t (\<lambda>x. x\<lparr>tso_prev := 0\<rparr>) (setTSOLink t (run_queue_hd c) c)"
  define c2 where "c2 = (if run_queue_hd c \<noteq> 0 then setTSOPrev (run_queue_hd c) t c1 else c1)"
  have c1: "tlinks c1 = (tlinks c)(t := run_queue_hd c)" "tprevs c1 = (tprevs c)(t := 0)"
    by (auto simp: c1_def fun_eq_iff)
  have c2: "tlinks c2 = (tlinks c)(t := run_queue_hd c)"
    "tprevs c2 = (if run_queue_hd c \<noteq> 0 then (tprevs c)(t := 0, run_queue_hd c := t) else (tprevs c)(t := 0))"
    by (auto simp: c2_def c1_def fun_eq_iff)
  have e: "tlinks (pushOnRunQueue t c) = tlinks c2" "tprevs (pushOnRunQueue t c) = tprevs c2"
    "run_queue_hd (pushOnRunQueue t c) = t"
    "run_queue_tl (pushOnRunQueue t c) = (if run_queue_tl c = 0 then t else run_queue_tl c)"
    by (auto simp: pushOnRunQueue_def c2_def c1_def Let_def)
  show ?thesis
  proof (cases qs)
    case Nil
    then show ?thesis using assms by (auto simp: rq_def e c2)
  next
    case (Cons x xs)
    then have x: "run_queue_hd c = x" "x \<noteq> 0" "x \<noteq> t" "x \<notin> set xs"
      using assms lst_distinct [of "tlinks c" "run_queue_hd c" qs] by (auto simp: rq_def)
    have "bwd (tprevs c2) x xs = bwd (tprevs c) x xs"
      unfolding c2 using assms(3) Cons x by (intro bwd_cong) auto
    then have "bwd (tprevs c2) 0 (t # qs)" using assms(1) Cons x by (auto simp: rq_def fun_cong [OF c2(2)])
    moreover have "lst (tlinks c2) t (t # qs)"
      unfolding c2 using assms by (auto simp: rq_def)
    moreover have "run_queue_tl c \<noteq> 0"
    proof -
      have "run_queue_tl c = last qs" "0 \<notin> set qs"
        using assms(1) Cons lst_not_null [of "tlinks c" "run_queue_hd c" qs] by (auto simp: rq_def)
      then show ?thesis using Cons by (metis last_in_set list.distinct(1))
    qed
    ultimately show ?thesis using assms(1) Cons by (simp add: rq_def e)
  qed
qed

lemma rq_hd_null: "rq c qs \<Longrightarrow> run_queue_hd c = END_TSO_QUEUE \<longleftrightarrow> qs = []"
  by (cases qs) (auto simp: rq_def)

lemma popRunQueue_rq:
  assumes "rq c (t # qs)"
  shows "\<exists>c'. popRunQueue c = Some (t, c') \<and> rq c' qs \<and> tso_link (tsos c' t) = END_TSO_QUEUE"
proof -
  have t: "run_queue_hd c = t" "t \<noteq> 0" "lst (tlinks c) (tso_link (tsos c t)) qs" "bwd (tprevs c) t qs"
    "t \<notin> set qs" "run_queue_tl c = (if qs = [] then t else last qs)"
    using assms lst_distinct [of "tlinks c" "run_queue_hd c" "t # qs"] by (auto simp: rq_def)
  define l where "l = tso_link (tsos c t)"
  define c1 where "c1 = (if l \<noteq> 0 then upd_tso l (\<lambda>x. x\<lparr>tso_prev := 0\<rparr>) (c\<lparr>run_queue_hd := l\<rparr>)
     else c\<lparr>run_queue_hd := l\<rparr>)"
  define c2 where "c2 = upd_tso t (\<lambda>x. x\<lparr>tso_link := 0\<rparr>) c1"
  have pop: "popRunQueue c = Some (t, if l = 0 then c2\<lparr>run_queue_tl := 0\<rparr> else c2)"
    using t(1,2) by (simp add: popRunQueue_def l_def c1_def c2_def Let_def)
  have links: "lst (tlinks c2) l qs"
    using t(3,5) unfolding l_def [symmetric]
    by (subst lst_cong [of _ _ "tlinks c"]) (auto simp: c2_def c1_def)
  show ?thesis
  proof (cases qs)
    case Nil
    then have "l = 0" using t(3) by (simp add: l_def)
    then show ?thesis using Nil pop by (auto simp: rq_def c2_def c1_def)
  next
    case (Cons x xs)
    then have x: "l = x" "x \<noteq> 0" "x \<noteq> t" "x \<notin> set xs" "t \<notin> set xs"
      using t(3,5) lst_distinct [OF t(3)] by (auto simp: l_def)
    have "bwd (tprevs c2) x xs = bwd (tprevs c) x xs"
      using x by (intro bwd_cong) (auto simp: c2_def c1_def)
    then have "bwd (tprevs c2) 0 qs"
      using t(4) Cons x by (simp add: c2_def c1_def)
    then show ?thesis
      using pop x links t(6) Cons by (auto simp: rq_def c2_def c1_def)
  qed
qed

lemma removeFromRunQueue_rq:
  assumes "rq c (xs @ t # ys)"
  shows "\<exists>c'. removeFromRunQueue t c = Some c' \<and> rq c' (xs @ ys) \<and> tso_link (tsos c' t) = END_TSO_QUEUE"
proof -
  let ?p = "tso_prev (tsos c t)" and ?l = "tso_link (tsos c t)"
  have L: "lst (tlinks c) (run_queue_hd c) (xs @ t # ys)" using assms by (simp add: rq_def)
  have d: "distinct (xs @ t # ys)" "0 \<notin> set (xs @ t # ys)"
    using lst_distinct [OF L] lst_not_null [OF L] by auto
  have B: "bwd (tprevs c) 0 xs" "?p = (if xs = [] then 0 else last xs)" "bwd (tprevs c) t ys"
    using assms by (auto simp: rq_def bwd_append)
  have p0: "?p = 0 \<longleftrightarrow> xs = []"
    using B(2) d(2) by (metis append_is_Nil_conv last_in_set Un_iff set_append)
  have ls: "lseg (tlinks c) (run_queue_hd c) xs t" "lst (tlinks c) ?l ys"
    using L by (auto simp: lst_append)
  have l0: "?l = 0 \<longleftrightarrow> ys = []" "ys \<noteq> [] \<Longrightarrow> ?l = hd ys"
    using ls(2) d(2) by (cases ys; auto)+
  have hd: "xs = [] \<Longrightarrow> run_queue_hd c = t" using ls(1) by simp
  have tl: "run_queue_tl c = (if ys = [] then t else last ys)" using assms by (auto simp: rq_def)
  define c1 where "c1 = (if ?p = 0 then c\<lparr>run_queue_hd := ?l\<rparr> else setTSOLink ?p ?l c)"
  define c2 where "c2 = (if ?l = 0 then c1\<lparr>run_queue_tl := ?p\<rparr> else setTSOPrev ?l ?p c1)"
  define c' where "c' = upd_tso t (\<lambda>x. x\<lparr>tso_link := 0, tso_prev := 0\<rparr>) c2"
  have r: "removeFromRunQueue t c = Some c'"
    using hd tl p0 l0 by (simp add: removeFromRunQueue_def c'_def c2_def c1_def Let_def)
  have lk: "tso_link (tsos c' x) = (if x = t then 0 else if ?p \<noteq> 0 \<and> x = ?p then ?l else tso_link (tsos c x))" for x
    by (simp add: c'_def c2_def c1_def)
  have pv: "tso_prev (tsos c' x) = (if x = t then 0 else if ?l \<noteq> 0 \<and> x = ?l then ?p else tso_prev (tsos c x))" for x
    by (simp add: c'_def c2_def c1_def)
  have q: "run_queue_hd c' = (if xs = [] then ?l else run_queue_hd c)"
    "run_queue_tl c' = (if ys = [] then ?p else run_queue_tl c)"
    using p0 l0 by (simp_all add: c'_def c2_def c1_def)
  have "lst (tlinks c') (run_queue_hd c') (xs @ ys)"
  proof (cases xs rule: rev_cases)
    case Nil
    then show ?thesis using ls(2) d q(1) p0 by (subst lst_cong [of _ _ "tlinks c"]) (auto simp: lk)
  next
    case (snoc zs a)
    then have a: "?p = a" "a \<noteq> 0" using B(2) d(2) by auto
    have "lst ((tlinks c)(a := ?l)) (run_queue_hd c) (zs @ a # ys)"
      using lst_unlink [of "tlinks c" "run_queue_hd c" zs a t ys] L snoc by simp
    moreover have "lst (tlinks c') (run_queue_hd c) (zs @ a # ys) =
        lst ((tlinks c)(a := ?l)) (run_queue_hd c) (zs @ a # ys)"
      using d snoc a by (intro lst_cong) (auto simp: lk)
    ultimately show ?thesis using snoc q(1) by simp
  qed
  moreover have "bwd (tprevs c') 0 (xs @ ys)"
  proof -
    have "bwd (tprevs c') 0 xs = bwd (tprevs c) 0 xs"
      using d l0 by (intro bwd_cong) (auto simp: pv)
    moreover have "bwd (tprevs c') ?p ys"
    proof (cases ys)
      case (Cons y zs)
      then have y: "?l = y" "y \<noteq> 0" "y \<notin> set zs" "t \<notin> set ys" using l0 d by auto
      have "bwd (tprevs c') y zs = bwd (tprevs c) y zs"
        using y Cons by (intro bwd_cong) (auto simp: pv)
      then show ?thesis using B(3) Cons y by (auto simp: pv)
    qed simp
    ultimately show ?thesis using B by (simp add: bwd_append)
  qed
  moreover have "run_queue_tl c' = (if xs @ ys = [] then 0 else last (xs @ ys))"
    using q(2) B(2) tl by auto
  ultimately show ?thesis using r lk [of t] by (simp add: rq_def)
qed

section \<open>Removal from singly linked queues\<close>

lemma remove_q_loop_rep:
  assumes "lst (tlinks c) t (ys @ tso # zs)" and "prev \<noteq> NULL"
  shows "remove_q_loop queue tso prev t c =
     Some (False, queue, upd_tso tso (\<lambda>x. x\<lparr>tso_link := END_TSO_QUEUE\<rparr>)
       (setTSOLink (if ys = [] then prev else last ys) (tso_link (tsos c tso)) c))"
  using assms
proof (induction ys arbitrary: t prev)
  case Nil
  then show ?case by (subst remove_q_loop.simps) (auto simp: Let_def)
next
  case (Cons y ys)
  then have "y \<noteq> tso" using lst_distinct [OF Cons.prems(1)] by auto
  then show ?case using Cons.prems Cons.IH [of "tso_link (tsos c y)" y] by (subst remove_q_loop.simps) auto
qed

lemma unlink_at:
  assumes "lst (tlinks c) q (xs @ a # tso # zs)"
  shows "lst (tlinks (upd_tso tso (\<lambda>x. x\<lparr>tso_link := 0\<rparr>) (setTSOLink a (tso_link (tsos c tso)) c))) q (xs @ a # zs)"
proof -
  have d: "distinct (xs @ a # tso # zs)" using assms by (rule lst_distinct)
  have "lst ((tlinks c)(a := tso_link (tsos c tso))) q (xs @ a # zs)"
    using lst_unlink [OF assms] .
  then show ?thesis
    using d by (subst lst_cong [of _ _ "(tlinks c)(a := tso_link (tsos c tso))"]) auto
qed

lemma removeThreadFromQueue_rep:
  assumes q: "lst (tlinks c) queue (xs @ tso # ys)"
  shows "\<exists>queue' c'. removeThreadFromQueue queue tso c = Some (xs = [], queue', c') \<and>
    lst (tlinks c') queue' (xs @ ys) \<and> tso_link (tsos c' tso) = END_TSO_QUEUE"
proof (cases xs)
  case Nil
  have d: "distinct (tso # ys)" using lst_distinct [OF q] Nil by simp
  have "removeThreadFromQueue queue tso c =
      Some (True, tso_link (tsos c tso), upd_tso tso (\<lambda>x. x\<lparr>tso_link := 0\<rparr>) c)"
    using q Nil unfolding removeThreadFromQueue_def by (subst remove_q_loop.simps) (auto simp: Let_def)
  moreover have "lst (tlinks (upd_tso tso (\<lambda>x. x\<lparr>tso_link := 0\<rparr>) c)) (tso_link (tsos c tso)) ys"
    using q Nil d by (subst lst_cong [of _ _ "tlinks c"]) auto
  ultimately show ?thesis using Nil by simp
next
  case (Cons x xs')
  then obtain zs a where za: "xs = zs @ [a]" by (metis rev_exhaust list.distinct(1))
  have x: "queue = x" "x \<noteq> 0" "lst (tlinks c) (tso_link (tsos c x)) (xs' @ tso # ys)" "x \<noteq> tso"
    using q Cons lst_distinct [OF q] by auto
  have a: "(if xs' = [] then x else last xs') = a" using Cons za by (cases xs' rule: rev_cases) auto
  have "removeThreadFromQueue queue tso c = remove_q_loop queue tso x (tso_link (tsos c x)) c"
    unfolding removeThreadFromQueue_def using x by (subst remove_q_loop.simps) simp
  also have "\<dots> = Some (False, queue, upd_tso tso (\<lambda>x. x\<lparr>tso_link := END_TSO_QUEUE\<rparr>)
       (setTSOLink a (tso_link (tsos c tso)) c))"
    using remove_q_loop_rep [OF x(3,2)] a by simp
  finally show ?thesis
    using unlink_at [of c queue zs a tso ys] q za Cons by auto
qed

lemma remove_de_loop_rep:
  assumes "lst (tlinks c) t (ys @ tso # zs)" and "prev \<noteq> NULL"
  shows "remove_de_loop head tail tso prev t c =
     Some (tail = tso, head, if tail = tso then (if ys = [] then prev else last ys) else tail,
       upd_tso tso (\<lambda>x. x\<lparr>tso_link := END_TSO_QUEUE\<rparr>)
         (setTSOLink (if ys = [] then prev else last ys) (tso_link (tsos c tso)) c))"
  using assms
proof (induction ys arbitrary: t prev)
  case Nil
  then show ?case by (subst remove_de_loop.simps) (auto simp: Let_def)
next
  case (Cons y ys)
  then have "y \<noteq> tso" using lst_distinct [OF Cons.prems(1)] by auto
  then show ?case using Cons.prems Cons.IH [of "tso_link (tsos c y)" y] by (subst remove_de_loop.simps) auto
qed

lemma removeThreadFromDeQueue_rep:
  assumes q: "lst (tlinks c) head (xs @ tso # ys)" and tl: "tail = last (xs @ tso # ys)"
  shows "\<exists>head' c'. removeThreadFromDeQueue head tail tso c =
      Some (xs = [] \<or> ys = [], head', if xs @ ys = [] then END_TSO_QUEUE else last (xs @ ys), c') \<and>
    lst (tlinks c') head' (xs @ ys) \<and> tso_link (tsos c' tso) = END_TSO_QUEUE"
proof -
  have d: "distinct (xs @ tso # ys)" using q by (rule lst_distinct)
  have t: "tail = tso \<longleftrightarrow> ys = []"
    using tl d by (cases ys rule: rev_cases) auto
  show ?thesis
  proof (cases xs)
    case Nil
    have "removeThreadFromDeQueue head tail tso c =
        Some (True, tso_link (tsos c tso), if tail = tso then 0 else tail, upd_tso tso (\<lambda>x. x\<lparr>tso_link := 0\<rparr>) c)"
      using q Nil unfolding removeThreadFromDeQueue_def by (subst remove_de_loop.simps) (auto simp: Let_def)
    moreover have "lst (tlinks (upd_tso tso (\<lambda>x. x\<lparr>tso_link := 0\<rparr>) c)) (tso_link (tsos c tso)) ys"
      using q Nil d by (subst lst_cong [of _ _ "tlinks c"]) auto
    ultimately show ?thesis using Nil t tl by auto
  next
    case (Cons x xs')
    then obtain zs a where za: "xs = zs @ [a]" by (metis rev_exhaust list.distinct(1))
    have x: "head = x" "x \<noteq> 0" "lst (tlinks c) (tso_link (tsos c x)) (xs' @ tso # ys)" "x \<noteq> tso"
      using q Cons d by auto
    have a: "(if xs' = [] then x else last xs') = a" using Cons za by (cases xs' rule: rev_cases) auto
    have "removeThreadFromDeQueue head tail tso c = remove_de_loop head tail tso x (tso_link (tsos c x)) c"
      unfolding removeThreadFromDeQueue_def using x by (subst remove_de_loop.simps) simp
    also have "\<dots> = Some (tail = tso, head, if tail = tso then a else tail,
         upd_tso tso (\<lambda>x. x\<lparr>tso_link := END_TSO_QUEUE\<rparr>) (setTSOLink a (tso_link (tsos c tso)) c))"
      unfolding remove_de_loop_rep [OF x(3,2)] a ..
    finally show ?thesis
      using unlink_at [of c head zs a tso ys] q za t tl Cons by auto
  qed
qed

section \<open>The interface of a scheduler queue\<close>

text \<open>\<open>n\<close> times the first thread leaves the queue, runs until it yields, and is added again; the result
  has the threads in the order in which they ran.\<close>

fun turns :: "('t \<Rightarrow> 's \<Rightarrow> 's option) \<Rightarrow> ('s \<Rightarrow> ('t \<times> 's) option) \<Rightarrow> nat \<Rightarrow> 's \<Rightarrow> ('t list \<times> 's) option" where
  "turns enq deq 0 s = Some ([], s)"
| "turns enq deq (Suc n) s =
     Option.bind (deq s) (\<lambda>(t, s).
       Option.bind (enq t s) (\<lambda>s. map_option (apfst ((#) t)) (turns enq deq n s)))"

text \<open>What a scheduler needs of its queue: threads leave in the order they came.  A thread can be added
  when it is in no queue.\<close>

locale thread_queue =
  fixes enq :: "'t \<Rightarrow> 's \<Rightarrow> 's option"
    and deq :: "'s \<Rightarrow> ('t \<times> 's) option"
    and queue :: "'s \<Rightarrow> 't list \<Rightarrow> bool"
    and unqueued :: "'s \<Rightarrow> 't \<Rightarrow> bool"
  assumes enq_last: "queue s qs \<Longrightarrow> unqueued s t \<Longrightarrow> t \<notin> set qs \<Longrightarrow> \<exists>s'. enq t s = Some s' \<and> queue s' (qs @ [t])"
    and deq_first: "queue s (t # qs) \<Longrightarrow> \<exists>s'. deq s = Some (t, s') \<and> queue s' qs \<and> unqueued s' t"
    and queue_distinct: "queue s qs \<Longrightarrow> distinct qs"
begin

lemma turns_queue:
  "queue s (xs @ ys) \<Longrightarrow> \<exists>s'. turns enq deq (length xs) s = Some (xs, s') \<and> queue s' (ys @ xs)"
proof (induction xs arbitrary: s ys)
  case (Cons x xs)
  obtain s1 where s1: "deq s = Some (x, s1)" "queue s1 (xs @ ys)" "unqueued s1 x"
    using deq_first [of s x "xs @ ys"] Cons.prems by auto
  have "x \<notin> set (xs @ ys)" using queue_distinct [OF Cons.prems] by simp
  then obtain s2 where s2: "enq x s1 = Some s2" "queue s2 (xs @ ys @ [x])"
    using enq_last [OF s1(2,3)] by auto
  from Cons.IH [OF s2(2)] show ?case
    using s1(1) s2(1) by auto
qed simp

lemma round_robin: "queue s qs \<Longrightarrow> \<exists>s'. turns enq deq (length qs) s = Some (qs, s') \<and> queue s' qs"
  using turns_queue [of s qs "[]"] by simp

end

definition not_queued :: "Capability \<Rightarrow> addr \<Rightarrow> bool" where
  "not_queued c t = (t \<noteq> END_TSO_QUEUE \<and> tso_link (tsos c t) = END_TSO_QUEUE)"

interpretation runq: thread_queue appendToRunQueue popRunQueue rq not_queued
proof unfold_locales
  show "\<exists>s'. appendToRunQueue t s = Some s' \<and> rq s' (qs @ [t])"
    if "rq s qs" "not_queued s t" "t \<notin> set qs" for s qs t
    using appendToRunQueue_rq [of s qs t] that by (simp add: not_queued_def)
  show "\<exists>s'. popRunQueue s = Some (t, s') \<and> rq s' qs \<and> not_queued s' t" if "rq s (t # qs)" for s t qs
    using popRunQueue_rq [OF that] that by (auto simp: not_queued_def rq_def)
  show "distinct qs" if "rq s qs" for s qs
    using that lst_distinct by (auto simp: rq_def)
qed

section \<open>Properties\<close>

text \<open>
  Claim C12.  The run queue is a double-ended queue of threads.  When the doubly linked list of a capability
  holds the threads \<open>qs\<close>, which may be none: \<open>emptyRunQueue\<close> says whether there are none;
  appending a thread that is in no queue puts it at the end, and pushing a thread that is not in
  the run queue puts it at the front; popping answers the first thread and leaves the others, and
  fails its assertion exactly on the empty queue; removing takes a thread out wherever it is.  Each keeps
  the links in both directions and the pointers to both ends, and a thread taken out has no link left.\<close>

theorem run_queue_is_a_deque:
  assumes "rq c qs"
  shows "(emptyRunQueue c \<longleftrightarrow> qs = []) \<and>
    (\<forall>u. u \<noteq> END_TSO_QUEUE \<and> u \<notin> set qs \<and> tso_link (tsos c u) = END_TSO_QUEUE \<longrightarrow>
       (\<exists>c'. appendToRunQueue u c = Some c' \<and> rq c' (qs @ [u]))) \<and>
    (\<forall>u. u \<noteq> END_TSO_QUEUE \<and> u \<notin> set qs \<longrightarrow> rq (pushOnRunQueue u c) (u # qs)) \<and>
    (case qs of [] \<Rightarrow> popRunQueue c = None
     | t # ts \<Rightarrow> \<exists>c'. popRunQueue c = Some (t, c') \<and> rq c' ts \<and> tso_link (tsos c' t) = END_TSO_QUEUE) \<and>
    (\<forall>xs t ys. qs = xs @ t # ys \<longrightarrow>
       (\<exists>c'. removeFromRunQueue t c = Some c' \<and> rq c' (xs @ ys) \<and> tso_link (tsos c' t) = END_TSO_QUEUE))"
proof (intro conjI allI impI)
  show "emptyRunQueue c \<longleftrightarrow> qs = []" using rq_hd_null [OF assms] by (simp add: emptyRunQueue_def emptyQueue_def)
  show "\<exists>c'. appendToRunQueue u c = Some c' \<and> rq c' (qs @ [u])"
    if "u \<noteq> END_TSO_QUEUE \<and> u \<notin> set qs \<and> tso_link (tsos c u) = END_TSO_QUEUE" for u
    using appendToRunQueue_rq [OF assms] that by blast
  show "rq (pushOnRunQueue u c) (u # qs)" if "u \<noteq> END_TSO_QUEUE \<and> u \<notin> set qs" for u
    using pushOnRunQueue_rq [OF assms] that by blast
  show "case qs of [] \<Rightarrow> popRunQueue c = None
     | t # ts \<Rightarrow> \<exists>c'. popRunQueue c = Some (t, c') \<and> rq c' ts \<and> tso_link (tsos c' t) = END_TSO_QUEUE"
    using popRunQueue_rq [of c] rq_hd_null [OF assms] assms
    by (auto split: list.splits simp: popRunQueue_def)
  show "\<exists>c'. removeFromRunQueue t c = Some c' \<and> rq c' (xs @ ys) \<and> tso_link (tsos c' t) = END_TSO_QUEUE"
    if "qs = xs @ t # ys" for xs t ys
    using removeFromRunQueue_rq [of c xs t ys] assms that by blast
qed

text \<open>
  Claim C32.  Scheduling is fair: when every thread that yields is appended to the run queue, \<open>n\<close> runnable
  threads each run exactly once in \<open>n\<close> turns, in the order of the queue, which is then as before.\<close>

theorem round_robin_fair:
  assumes "rq c qs"
  shows "\<exists>c'. turns appendToRunQueue popRunQueue (length qs) c = Some (qs, c') \<and> rq c' qs"
  using assms by (rule runq.round_robin)

text \<open>
  Claim C33.  \<open>removeThreadFromQueue\<close> and \<open>removeThreadFromDeQueue\<close> take a thread that is in the queue out
  of it, wherever it is, return whether the pointers to the ends have changed, and leave those
  pointers right.\<close>

theorem thread_removed_from_queue:
  assumes "lst (\<lambda>t. tso_link (tsos c t)) head (xs @ tso # ys)"
  shows "(\<exists>head' c'. removeThreadFromQueue head tso c = Some (xs = [], head', c') \<and>
            lst (\<lambda>t. tso_link (tsos c' t)) head' (xs @ ys)) \<and>
         (\<exists>head' c'. removeThreadFromDeQueue head (last (xs @ tso # ys)) tso c =
            Some (xs = [] \<or> ys = [], head', if xs @ ys = [] then END_TSO_QUEUE else last (xs @ ys), c') \<and>
            lst (\<lambda>t. tso_link (tsos c' t)) head' (xs @ ys))"
  using removeThreadFromQueue_rep [OF assms] removeThreadFromDeQueue_rep [OF assms refl] by blast

text \<open>
  Claim C34.  Waking is exact and idempotent: it is safe to call \<open>tryWakeupThread\<close> too many times.  Let
  the thread be in no run queue, and in no other queue unless it waits for an \<open>MVar\<close> (the assertion of
  \<open>appendToRunQueue\<close>).  It is woken exactly when it waits for an \<open>MVar\<close> whose queue it has left, for an
  exception message that has been revoked, for a black hole, for a transaction, or to migrate.  It is then
  runnable and in the run queue once, at its end, and no other thread has been woken; in every other case
  nothing changes.  A second call changes nothing.\<close>

theorem wakeup_idempotent:
  assumes "rq c qs" and "t \<noteq> END_TSO_QUEUE" "t \<notin> set qs"
    and "tso_why_blocked (tsos c t) \<noteq> BlockedOnMVar \<Longrightarrow> tso_link (tsos c t) = END_TSO_QUEUE"
  shows "\<exists>c'. tryWakeupThread revoked t c = Some c' \<and> tryWakeupThread revoked t c' = Some c' \<and>
     (if tso_why_blocked (tsos c t) = BlockedOnMVar \<and> tso_link (tsos c t) = END_TSO_QUEUE \<or>
         tso_why_blocked (tsos c t) = BlockedOnMsgThrowTo \<and> revoked \<or>
         tso_why_blocked (tsos c t) \<in> {BlockedOnBlackHole, BlockedOnSTM, ThreadMigrating}
      then rq c' (qs @ [t]) \<and>
        (\<forall>u. tso_why_blocked (tsos c' u) = (if u = t then NotBlocked else tso_why_blocked (tsos c u)))
      else c' = c)"
  (is "\<exists>c'. _ \<and> _ \<and> (if ?woken then _ else _)")
proof (cases ?woken)
  case True
  define c0 where "c0 = (if tso_why_blocked (tsos c t) = BlockedOnMVar
     then upd_tso t (\<lambda>x. x\<lparr>tso_prev := END_TSO_QUEUE\<rparr>) c else c)"
  define c1 where "c1 = upd_tso t (\<lambda>x. x\<lparr>tso_why_blocked := NotBlocked\<rparr>) c0"
  have l: "tlinks c1 = tlinks c" "run_queue_hd c1 = run_queue_hd c" "run_queue_tl c1 = run_queue_tl c"
    by (auto simp: c1_def c0_def fun_eq_iff)
  have "bwd (tprevs c1) END_TSO_QUEUE qs = bwd (tprevs c) END_TSO_QUEUE qs"
    using assms(3) by (intro bwd_cong) (auto simp: c1_def c0_def)
  then have "rq c1 qs" using assms(1) unfolding rq_def l by simp
  moreover have "tso_link (tsos c1 t) = END_TSO_QUEUE" using assms(4) True by (auto simp: c1_def c0_def)
  ultimately obtain c2 where c2: "appendToRunQueue t c1 = Some c2" "rq c2 (qs @ [t])"
    using appendToRunQueue_rq assms(2,3) by blast
  have w: "tso_why_blocked (tsos c2 u) = (if u = t then NotBlocked else tso_why_blocked (tsos c u))" for u
    using appendToRunQueue_why [OF c2(1)] by (simp add: c1_def c0_def)
  have "tryWakeupThread revoked t c = Some c2"
    using c2(1) True by (auto simp: tryWakeupThread_def Let_def c1_def c0_def split: why_blocked_t.splits)
  moreover have "tryWakeupThread revoked t c2 = Some c2" by (simp add: tryWakeupThread_def w)
  ultimately show ?thesis using w c2(2) True by (intro exI [of _ c2]) simp
next
  case False
  then have "tryWakeupThread revoked t c = Some c"
    by (auto simp: tryWakeupThread_def Let_def split: why_blocked_t.splits)
  then show ?thesis using False by (intro exI [of _ c]) simp
qed

text \<open>Two threads 1 and 2 in the run queue, and a thread 3 that waits for a transaction.\<close>

definition rq_example :: Capability where
  "rq_example = \<lparr>tsos = (\<lambda>_. \<lparr>tso_link = 0, tso_prev = 0, tso_why_blocked = NotBlocked, tso_dirty = False\<rparr>)
       (1 := \<lparr>tso_link = 2, tso_prev = 0, tso_why_blocked = NotBlocked, tso_dirty = False\<rparr>,
        2 := \<lparr>tso_link = 0, tso_prev = 1, tso_why_blocked = NotBlocked, tso_dirty = False\<rparr>,
        3 := \<lparr>tso_link = 0, tso_prev = 0, tso_why_blocked = BlockedOnSTM, tso_dirty = False\<rparr>),
     run_queue_hd = 1, run_queue_tl = 2, blocked_queue_hd = 0, blocked_queue_tl = 0, sleeping_queue = 0,
     mut_lists = (\<lambda>_. []), gen_no = (\<lambda>_. 1)\<rparr>"

lemma rq_example_rq: "rq rq_example [1, 2]"
  by (simp add: rq_def rq_example_def)

lemma rq_empty_example: "rq (rq_example\<lparr>run_queue_hd := 0, run_queue_tl := 0\<rparr>) []"
  by (simp add: rq_def)

theorem run_queue_is_a_deque_witness:
  "(\<exists>c'. removeFromRunQueue 1 rq_example = Some c' \<and> rq c' [2]) \<and>
   rq (pushOnRunQueue 3 (rq_example\<lparr>run_queue_hd := 0, run_queue_tl := 0\<rparr>)) [3]"
proof
  have "\<forall>xs t ys. [1, 2] = xs @ t # ys \<longrightarrow> (\<exists>c'. removeFromRunQueue t rq_example = Some c' \<and> rq c' (xs @ ys))"
    using run_queue_is_a_deque [OF rq_example_rq] by blast
  from this [rule_format, of "[]" 1 "[2]"] show "\<exists>c'. removeFromRunQueue 1 rq_example = Some c' \<and> rq c' [2]"
    by simp
  show "rq (pushOnRunQueue 3 (rq_example\<lparr>run_queue_hd := 0, run_queue_tl := 0\<rparr>)) [3]"
    using run_queue_is_a_deque [OF rq_empty_example] by simp
qed

theorem round_robin_fair_witness:
  "\<exists>c'. turns appendToRunQueue popRunQueue 2 rq_example = Some ([1, 2], c') \<and> rq c' [1, 2]"
  using round_robin_fair [OF rq_example_rq] by (simp add: numeral_2_eq_2)

theorem thread_removed_from_queue_witness:
  "\<exists>head' c'. removeThreadFromQueue 1 2 rq_example = Some (False, head', c') \<and>
     lst (\<lambda>t. tso_link (tsos c' t)) head' [1]"
proof -
  have "lst (\<lambda>t. tso_link (tsos rq_example t)) 1 ([1] @ 2 # [])"
    by (simp add: rq_example_def)
  from thread_removed_from_queue [OF this] show ?thesis by simp
qed

theorem wakeup_idempotent_witness:
  "\<exists>c'. tryWakeupThread False 3 rq_example = Some c' \<and> tryWakeupThread False 3 c' = Some c' \<and> rq c' [1, 2, 3]"
proof -
  have "tso_link (tsos rq_example 3) = END_TSO_QUEUE" "tso_why_blocked (tsos rq_example 3) = BlockedOnSTM"
    by (simp_all add: rq_example_def)
  then show ?thesis using wakeup_idempotent [OF rq_example_rq, of 3 False] by auto
qed

end
