(* ===== verification/Hpc.thy ===== *)
theory Hpc
  imports Prelude
begin

text \<open>
  Program coverage, \<open>rts/Hpc.c\<close>: modules register their arrays of tick counters, the counters of an
  earlier run are read from a \<open>.tix\<close> file, and the file is written at exit.

  The input is the list of the characters not yet read, of which the first is \<open>tix_ch\<close>; the empty
  list is the end of the file, where reading answers \<open>EOF\<close> again and again.  Arrays of counters are
  lists in a store, since the generated code shares them.  \<open>failure\<close> is an error value, and so is
  what the C code does outside its arrays or through a null pointer.  \<open>moduleHash\<close> is an
  association list: that hash tables answer like one is the contract of the theory of hash tables.
  The list \<open>modules\<close>, linked through \<open>next\<close>, only ever grows at its front and is a list here.
  Allocation does not fail.  The assertions of \<open>hs_hpc_module\<close> and \<open>writeTix\<close>, that a registered
  module has an array and stands under its own name, are not branches of the model: they follow from the
  well-formedness of the state, which every operation keeps.
\<close>

section \<open>Data\<close>

datatype hpc_error =
    Parse_error
  | Hash_mismatch
  | Inconsistent_ticks
  | Null_pointer
  | Out_of_bounds

type_synonym 'a hpc_result = "hpc_error + 'a"

definition bindE :: "'a hpc_result \<Rightarrow> ('a \<Rightarrow> 'b hpc_result) \<Rightarrow> 'b hpc_result" where
  "bindE x f = (case x of Inl e \<Rightarrow> Inl e | Inr a \<Rightarrow> f a)"

lemma bindE_simps [simp]: "bindE (Inl e) f = Inl e" "bindE (Inr a) f = f a"
  by (simp_all add: bindE_def)

record HpcModuleInfo =
  modName :: string
  tickCount :: StgWord32
  hashNo :: StgWord32
  tixArr :: addr
  from_file :: bool

record hpc_state =
  mods :: "addr \<Rightarrow> HpcModuleInfo"
  modules :: "addr list"
  moduleHash :: "(string \<times> addr) list option"
  arrays :: "addr \<Rightarrow> StgWord list"
  next_mod :: addr
  freed :: "addr list"
  made_dirs :: "string list"
  hpc_inited :: bool
  hpc_pid :: int
  tixFilename :: "string option"

section \<open>Reading\<close>

definition tix_is :: "string \<Rightarrow> char \<Rightarrow> bool" where
  "tix_is s c = (s \<noteq> [] \<and> hd s = c)"

definition expect :: "char \<Rightarrow> string \<Rightarrow> string hpc_result" where
  "expect c s = (if tix_is s c then Inr (tl s) else Inl Parse_error)"

text \<open>A sequence of calls of \<open>expect\<close>.\<close>

fun expects :: "string \<Rightarrow> string \<Rightarrow> string hpc_result" where
  "expects [] s = Inr s"
| "expects (c # cs) s = bindE (expect c s) (expects cs)"

fun ws :: "string \<Rightarrow> string" where
  "ws [] = []"
| "ws (c # s) = (if c = CHR '' '' then ws s else c # s)"

definition isdigit :: "char \<Rightarrow> bool" where
  "isdigit c = (48 \<le> (of_char c :: nat) \<and> (of_char c :: nat) \<le> 57)"

text \<open>The loop of \<open>expectString\<close>; \<open>n\<close> bytes are left in the buffer of 256 bytes, of which the last takes
  the terminating null.  At the end of the file the loop goes on until it leaves the buffer.\<close>

fun string_loop :: "nat \<Rightarrow> string \<Rightarrow> (string \<times> string) hpc_result" where
  "string_loop 0 s = Inl Out_of_bounds"
| "string_loop (Suc n) [] = Inl Out_of_bounds"
| "string_loop (Suc n) (c # s) =
     (if c = CHR 0x22 then Inr ([], c # s)
      else bindE (string_loop n s) (\<lambda>(xs, s). Inr (c # xs, s)))"

definition expectString :: "string \<Rightarrow> (string \<times> string) hpc_result" where
  "expectString s =
     bindE (expect (CHR 0x22) s) (\<lambda>s.
     bindE (string_loop 256 s) (\<lambda>(str, s).
     bindE (expect (CHR 0x22) s) (\<lambda>s. Inr (takeWhile (\<lambda>c. c \<noteq> CHR 0x00) str, s))))"

fun word_loop :: "StgWord \<Rightarrow> string \<Rightarrow> StgWord \<times> string" where
  "word_loop tmp [] = (tmp, [])"
| "word_loop tmp (c # s) =
     (if isdigit c then word_loop (tmp * 10 + of_nat (of_char c - 48)) s else (tmp, c # s))"

definition expectWord64 :: "string \<Rightarrow> StgWord \<times> string" where
  "expectWord64 s = word_loop 0 s"

text \<open>A comma, where there is one, and the blanks after it.\<close>

definition skip_comma :: "string \<Rightarrow> string" where
  "skip_comma s = (if tix_is s (CHR '','') then ws (tl s) else s)"

fun read_ticks :: "nat \<Rightarrow> string \<Rightarrow> StgWord list \<times> string" where
  "read_ticks 0 s = ([], s)"
| "read_ticks (Suc n) s =
     (let (x, s) = expectWord64 s;
          (xs, s) = read_ticks n (skip_comma (ws s))
      in (x # xs, s))"

definition read_module :: "string \<Rightarrow> ((string \<times> StgWord32 \<times> StgWord list) \<times> string) hpc_result" where
  "read_module s =
     bindE (expects ''TixModule'' s) (\<lambda>s.
     bindE (expectString (ws s)) (\<lambda>(name, s).
     let (h, s) = expectWord64 (ws s);
         (n, s) = expectWord64 (ws s)
     in bindE (expect (CHR ''['') (ws s)) (\<lambda>s.
        let (ticks, s) = read_ticks (unat (ucast n :: StgWord32)) (ws s)
        in bindE (expect (CHR '']'') s) (\<lambda>s. Inr ((name, ucast h, ticks), ws s)))))"

text \<open>What \<open>readTix\<close> does with a module of the file.  The test for a module that is not registered looks
  at \<open>tmpModule\<close>, which is never null, so such a module goes to the branch for known ones and
  \<open>lookup\<close> is a null pointer there.\<close>

definition store_module :: "string \<times> StgWord32 \<times> StgWord list \<Rightarrow> hpc_state \<Rightarrow> hpc_state hpc_result" where
  "store_module = (\<lambda>(name, h, ticks) s.
     case Option.bind (moduleHash s) (\<lambda>t. map_of t name) of
       None \<Rightarrow> Inl Null_pointer
     | Some m \<Rightarrow>
         if h \<noteq> hashNo (mods s m) then Inl Hash_mismatch
         else let a = tixArr (mods s m)
              in if length ticks \<le> length (arrays s a)
                 then Inr (s\<lparr>arrays := (arrays s)(a := ticks @ drop (length ticks) (arrays s a))\<rparr>)
                 else Inl Out_of_bounds)"

lemma ws_length: "length (ws s) \<le> length s"
  by (induction s) auto

lemma expect_length: "expect c s = Inr s' \<Longrightarrow> length s' < length s"
  by (cases s) (auto simp: expect_def tix_is_def split: if_splits)

lemma word_length: "length (snd (word_loop a s)) \<le> length s"
  by (induction a s rule: word_loop.induct) auto

lemma skip_comma_length: "length (skip_comma s) \<le> length s"
  using ws_length [of "tl s"] by (cases s) (auto simp: skip_comma_def tix_is_def)

lemma bindE_Inr: "bindE x f = Inr b \<longleftrightarrow> (\<exists>a. x = Inr a \<and> f a = Inr b)"
  by (cases x) (auto simp: bindE_def)

lemma expects_length: "expects cs s = Inr s' \<Longrightarrow> length s' \<le> length s"
proof (induction cs arbitrary: s)
  case (Cons c cs)
  then show ?case by (fastforce simp: bindE_Inr dest: expect_length)
qed simp

lemma string_loop_length: "string_loop n s = Inr (x, s') \<Longrightarrow> length s' \<le> length s"
proof (induction n s arbitrary: x rule: string_loop.induct)
  case (3 n c s)
  then show ?case by (fastforce simp: bindE_Inr split: if_splits)
qed auto

lemma expectString_length: "expectString s = Inr (x, s') \<Longrightarrow> length s' < length s"
  unfolding expectString_def
  by (auto simp: bindE_Inr dest!: expect_length string_loop_length)

lemma read_ticks_length: "length (snd (read_ticks n s)) \<le> length s"
proof (induction n arbitrary: s)
  case (Suc n)
  obtain x s1 where w: "expectWord64 s = (x, s1)" by (meson surj_pair)
  obtain xs s2 where r: "read_ticks n (skip_comma (ws s1)) = (xs, s2)" by (meson surj_pair)
  have "length s1 \<le> length s" using word_length [of 0 s] w by (simp add: expectWord64_def)
  moreover have "length s2 \<le> length s1"
    using Suc [of "skip_comma (ws s1)"] r skip_comma_length [of "ws s1"] ws_length [of s1] by simp
  ultimately show ?case using w r by simp
qed simp

lemma read_module_length:
  assumes "read_module s = Inr (x, s')"
  shows "length s' < length s"
proof -
  obtain s1 name s2 where a: "expects ''TixModule'' s = Inr s1" "expectString (ws s1) = Inr (name, s2)"
    using assms unfolding read_module_def by (auto simp: bindE_Inr)
  obtain h s3 n s4 where b: "expectWord64 (ws s2) = (h, s3)" "expectWord64 (ws s3) = (n, s4)"
    by (meson surj_pair)
  obtain s5 ticks s6 where c: "expect (CHR ''['') (ws s4) = Inr s5"
    "read_ticks (unat (ucast n :: StgWord32)) (ws s5) = (ticks, s6)"
    using assms a b unfolding read_module_def by (auto simp: bindE_Inr Let_def) (meson surj_pair)
  obtain s7 where d: "expect (CHR '']'') s6 = Inr s7" "s' = ws s7"
    using assms a b c unfolding read_module_def by (auto simp: bindE_Inr Let_def)
  show ?thesis
    using expects_length [OF a(1)] expectString_length [OF a(2)] ws_length [of s1] ws_length [of s2]
      word_length [of 0 "ws s2"] word_length [of 0 "ws s3"] b ws_length [of s3] ws_length [of s4]
      expect_length [OF c(1)] read_ticks_length [of "unat (ucast n :: StgWord32)" "ws s5"] c(2) ws_length [of s5]
      expect_length [OF d(1)] d(2) ws_length [of s7]
    by (simp add: expectWord64_def)
qed

function modules_loop :: "string \<Rightarrow> hpc_state \<Rightarrow> (string \<times> hpc_state) hpc_result" where
  "modules_loop s st =
     (if tix_is s (CHR '']'') then Inr (s, st)
      else case read_module s of
        Inl e \<Rightarrow> Inl e
      | Inr (x, s') \<Rightarrow>
          (case store_module x st of
             Inl e \<Rightarrow> Inl e
           | Inr st \<Rightarrow> modules_loop (skip_comma s') st))"
  by pat_completeness auto
termination
  by (relation "measure (\<lambda>(s, st). length s)")
    (auto dest!: read_module_length intro: le_less_trans [OF skip_comma_length])

declare modules_loop.simps [simp del]

definition readTix :: "string \<Rightarrow> hpc_state \<Rightarrow> hpc_state hpc_result" where
  "readTix s st =
     bindE (expects ''Tix'' (ws s)) (\<lambda>s.
     bindE (expect (CHR ''['') (ws s)) (\<lambda>s.
     bindE (modules_loop (ws s) st) (\<lambda>(s, st).
     bindE (expect (CHR '']'') s) (\<lambda>_. Inr st))))"

section \<open>Registration\<close>

definition hs_hpc_module :: "string \<Rightarrow> StgWord32 \<Rightarrow> StgWord32 \<Rightarrow> addr \<Rightarrow> hpc_state \<Rightarrow> hpc_state hpc_result" where
  "hs_hpc_module name n h a s =
     (let t = (case moduleHash s of None \<Rightarrow> [] | Some t \<Rightarrow> t);
          s = s\<lparr>moduleHash := Some t\<rparr>;
          c = unat n
      in case map_of t name of
           None \<Rightarrow>
             (let m = next_mod s
              in if length (arrays s a) < c then Inl Out_of_bounds
                 else Inr (s\<lparr>next_mod := m + 1,
                        mods := (mods s)(m := \<lparr>modName = name, tickCount = n, hashNo = h, tixArr = a,
                                               from_file = False\<rparr>),
                        arrays := (arrays s)(a := replicate c 0 @ drop c (arrays s a)),
                        modules := m # modules s,
                        moduleHash := Some ((name, m) # t)\<rparr>))
         | Some m \<Rightarrow>
             (let i = mods s m
              in if tickCount i \<noteq> n then Inl Inconsistent_ticks
                 else if hashNo i \<noteq> h then Inl Hash_mismatch
                 else if length (arrays s (tixArr i)) < c \<or> length (arrays s a) < c then Inl Out_of_bounds
                 else Inr (s\<lparr>arrays := (arrays s)(a := take c (arrays s (tixArr i)) @ drop c (arrays s a)),
                             freed := (if from_file i then tixArr i # freed s else freed s),
                             mods := (mods s)(m := i\<lparr>from_file := False\<rparr>)\<rparr>)))"

definition hs_hpc_rootModule :: "hpc_state \<Rightarrow> addr" where
  "hs_hpc_rootModule s = (case modules s of [] \<Rightarrow> NULL | m # _ \<Rightarrow> m)"

section \<open>Writing\<close>

text \<open>What \<open>fprintf\<close> prints for \<open>%u\<close>, \<open>%d\<close> and 64-bit counters.\<close>

definition digit_char :: "nat \<Rightarrow> char" where
  "digit_char d = char_of (48 + d)"

fun show_nat :: "nat \<Rightarrow> string" where
  "show_nat n = (if n < 10 then [digit_char n] else show_nat (n div 10) @ [digit_char (n mod 10)])"

declare show_nat.simps [simp del]

definition show_int :: "int \<Rightarrow> string" where
  "show_int i = (if i < 0 then CHR ''-'' # show_nat (nat (- i)) else show_nat (nat i))"

text \<open>The counters of a module, which the inner loop prints.\<close>

definition ticks_of :: "hpc_state \<Rightarrow> addr \<Rightarrow> StgWord list hpc_result" where
  "ticks_of s m =
     (let i = mods s m; c = unat (tickCount i)
      in if tixArr i = NULL then Inr (replicate c 0)
         else if length (arrays s (tixArr i)) < c then Inl Out_of_bounds
         else Inr (take c (arrays s (tixArr i))))"

fun write_ticks :: "bool \<Rightarrow> StgWord list \<Rightarrow> string" where
  "write_ticks inner_comma [] = []"
| "write_ticks inner_comma (x # xs) =
     (if inner_comma then [CHR '',''] else []) @ show_nat (unat x) @ write_ticks True xs"

definition module_text :: "HpcModuleInfo \<Rightarrow> StgWord list \<Rightarrow> string" where
  "module_text i xs =
     '' TixModule '' @ [CHR 0x22] @ modName i @ [CHR 0x22] @ '' '' @ show_nat (unat (hashNo i)) @
     '' '' @ show_nat (unat (tickCount i)) @ '' ['' @ write_ticks False xs @ '']''"

fun write_modules :: "hpc_state \<Rightarrow> bool \<Rightarrow> addr list \<Rightarrow> string hpc_result" where
  "write_modules s outer_comma [] = Inr []"
| "write_modules s outer_comma (m # ms) =
     bindE (ticks_of s m) (\<lambda>xs.
     bindE (write_modules s True ms) (\<lambda>rest.
     Inr ((if outer_comma then [CHR '',''] else []) @ module_text (mods s m) xs @ rest)))"

definition writeTix :: "hpc_state \<Rightarrow> string hpc_result" where
  "writeTix s = bindE (write_modules s False (modules s)) (\<lambda>body. Inr (''Tix ['' @ body @ '']'' @ [CHR 0x0A]))"

section \<open>Start and exit\<close>

definition tix_filename :: "(string \<Rightarrow> string option) \<Rightarrow> string \<Rightarrow> int \<Rightarrow> string" where
  "tix_filename getenv prog_name pid =
     (case getenv ''HPCTIXFILE'' of
        Some f \<Rightarrow> f
      | None \<Rightarrow>
         (case getenv ''HPCTIXDIR'' of
            Some d \<Rightarrow> d @ ''/'' @ prog_name @ ''-'' @ show_int pid @ ''.tix''
          | None \<Rightarrow> prog_name @ ''.tix''))"

text \<open>The bytes \<open>startupHpc\<close> asks for to hold that name, of which the last is for the null.\<close>

definition tix_filename_bytes :: "(string \<Rightarrow> string option) \<Rightarrow> string \<Rightarrow> nat" where
  "tix_filename_bytes getenv prog_name =
     (case getenv ''HPCTIXFILE'' of
        Some f \<Rightarrow> length f + 1
      | None \<Rightarrow>
         (case getenv ''HPCTIXDIR'' of
            Some d \<Rightarrow> length d + length prog_name + 12
          | None \<Rightarrow> length prog_name + 6))"

definition startupHpc ::
    "(string \<Rightarrow> string option) \<Rightarrow> string \<Rightarrow> int \<Rightarrow> (string \<Rightarrow> string option) \<Rightarrow> hpc_state \<Rightarrow> hpc_state hpc_result" where
  "startupHpc getenv prog_name pid fs s =
     (if moduleHash s = None \<or> hpc_inited s then Inr s
      else
        let f = tix_filename getenv prog_name pid;
            s = s\<lparr>hpc_inited := True, hpc_pid := pid, tixFilename := Some f,
                  made_dirs := (case (getenv ''HPCTIXFILE'', getenv ''HPCTIXDIR'') of
                                  (None, Some d) \<Rightarrow> d # made_dirs s | _ \<Rightarrow> made_dirs s)\<rparr>
        in if tix_filename_bytes getenv prog_name \<le> length f then Inl Out_of_bounds
           else case fs f of None \<Rightarrow> Inr s | Some contents \<Rightarrow> readTix contents s)"

definition freeHpcModuleInfo :: "addr \<Rightarrow> hpc_state \<Rightarrow> hpc_state" where
  "freeHpcModuleInfo m s =
     (let s' = (if from_file (mods s m) then s\<lparr>freed := tixArr (mods s m) # freed s\<rparr> else s)
      in s'\<lparr>freed := m # freed s'\<rparr>)"

text \<open>\<open>can_write\<close> tells whether \<open>fopen\<close> for writing succeeds; without it \<open>writeTix\<close> gets a null file
  and does nothing.\<close>

definition exitHpc ::
    "int \<Rightarrow> bool \<Rightarrow> (string \<Rightarrow> string option) \<Rightarrow> hpc_state \<Rightarrow> ((string \<Rightarrow> string option) \<times> hpc_state) hpc_result" where
  "exitHpc pid can_write fs s =
     (if \<not> hpc_inited s then Inr (fs, s)
      else
        bindE (if hpc_pid s = pid
               then (case tixFilename s of
                       None \<Rightarrow> Inl Null_pointer
                     | Some f \<Rightarrow> if can_write then bindE (writeTix s) (\<lambda>t. Inr (fs(f := Some t))) else Inr fs)
               else Inr fs) (\<lambda>fs.
        case moduleHash s of
          None \<Rightarrow> Inl Null_pointer
        | Some t \<Rightarrow>
            Inr (fs, (fold freeHpcModuleInfo (map snd t) s)\<lparr>moduleHash := None, tixFilename := None\<rparr>)))"

section \<open>Reading what was written\<close>

lemma show_nat_neq_Nil [simp]: "show_nat n \<noteq> []"
  by (subst show_nat.simps) simp

lemma of_char_digit [simp]: "d < 10 \<Longrightarrow> (of_char (digit_char d) :: nat) = 48 + d"
  by (simp add: digit_char_def)

lemma isdigit_digit_char [simp]: "d < 10 \<Longrightarrow> isdigit (digit_char d)"
  by (simp add: isdigit_def)

lemma isdigit_hd_show_nat [simp]: "isdigit (hd (show_nat n))"
proof (induction n rule: show_nat.induct)
  case (1 n)
  then show ?case by (subst show_nat.simps) simp
qed

lemma word_loop_show_nat: "word_loop 0 (show_nat n @ s) = word_loop (of_nat n) s"
proof (induction n arbitrary: s rule: show_nat.induct)
  case (1 n)
  have "(of_nat (n div 10) * 10 + of_nat (n mod 10) :: StgWord) = of_nat n"
    by (metis div_mult_mod_eq of_nat_add of_nat_mult of_nat_numeral)
  then show ?case using 1 by (subst show_nat.simps) simp
qed

definition no_digit :: "string \<Rightarrow> bool" where
  "no_digit s = (s = [] \<or> \<not> isdigit (hd s))"

lemma word_loop_stop: "no_digit s \<Longrightarrow> word_loop a s = (a, s)"
  by (cases s) (auto simp: no_digit_def)

lemma expectWord64_show_nat [simp]: "no_digit s \<Longrightarrow> expectWord64 (show_nat n @ s) = (of_nat n, s)"
  by (simp add: expectWord64_def word_loop_show_nat word_loop_stop)

lemma no_digit_Cons [simp]: "no_digit (c # s) = (\<not> isdigit c)"
  by (simp add: no_digit_def)

lemma not_isdigit [simp]:
  "\<not> isdigit (CHR '' '')" "\<not> isdigit (CHR '','')" "\<not> isdigit (CHR '']'')" "\<not> isdigit (CHR ''['')"
  by (simp_all add: isdigit_def)

lemma ws_show_nat [simp]: "ws (show_nat n @ s) = show_nat n @ s"
proof -
  obtain c cs where e: "show_nat n = c # cs" by (cases "show_nat n") auto
  then have "isdigit c" using isdigit_hd_show_nat [of n] by simp
  then have "c \<noteq> CHR '' ''" by auto
  then show ?thesis using e by simp
qed

lemma no_digit_write_ticks [simp]: "no_digit (write_ticks True xs @ CHR '']'' # s)"
  by (cases xs) auto

lemma skip_comma_write_ticks [simp]:
  "skip_comma (ws (write_ticks True xs @ CHR '']'' # s)) = write_ticks False xs @ CHR '']'' # s"
  by (cases xs) (auto simp: skip_comma_def tix_is_def)

lemma read_write_ticks: "read_ticks (length xs) (write_ticks False xs @ CHR '']'' # s) = (xs, CHR '']'' # s)"
  by (induction xs) auto

lemma ws_write_ticks [simp]: "ws (write_ticks False xs @ CHR '']'' # s) = write_ticks False xs @ CHR '']'' # s"
  by (cases xs) auto

text \<open>Names that survive: a quote ends the string, and the buffer holds 255 characters.\<close>

definition good_name :: "string \<Rightarrow> bool" where
  "good_name n = (CHR 0x22 \<notin> set n \<and> CHR 0x00 \<notin> set n \<and> length n < 256)"

lemma string_loop_good: "CHR 0x22 \<notin> set n \<Longrightarrow> length n < k \<Longrightarrow> string_loop k (n @ CHR 0x22 # s) = Inr (n, CHR 0x22 # s)"
proof (induction n arbitrary: k)
  case Nil
  then show ?case by (cases k) auto
next
  case (Cons c n)
  then obtain k' where "k = Suc k'" by (cases k) auto
  then show ?case using Cons by auto
qed

lemma expectString_good:
  assumes "good_name n"
  shows "expectString (CHR 0x22 # n @ CHR 0x22 # s) = Inr (n, s)"
proof -
  have "string_loop 256 (n @ CHR 0x22 # s) = Inr (n, CHR 0x22 # s)"
    using assms by (intro string_loop_good) (auto simp: good_name_def)
  moreover have "takeWhile (\<lambda>c. c \<noteq> CHR 0x00) n = n"
    using assms by (auto simp: good_name_def takeWhile_eq_all_conv)
  ultimately show ?thesis by (simp add: expectString_def expect_def tix_is_def)
qed

lemma ucast_up_down: "ucast (ucast (w :: StgWord32) :: StgWord) = w"
  by (rule bit_word_eqI) (simp add: bit_simps)

lemma read_module_text:
  assumes "good_name (modName i)" "length xs = unat (tickCount i)"
  shows "read_module (ws (module_text i xs @ rest)) = Inr ((modName i, hashNo i, xs), ws rest)"
  using assms read_write_ticks [of xs rest]
  by (simp add: read_module_def module_text_def expectString_good expect_def tix_is_def ucast_up_down)

text \<open>The modules of a file, stored one after the other.\<close>

fun store_list :: "(string \<times> StgWord32 \<times> StgWord list) list \<Rightarrow> hpc_state \<Rightarrow> hpc_state hpc_result" where
  "store_list [] st = Inr st"
| "store_list (x # xs) st = bindE (store_module x st) (store_list xs)"

definition entry :: "hpc_state \<Rightarrow> addr \<Rightarrow> string \<times> StgWord32 \<times> StgWord list" where
  "entry s m = (modName (mods s m), hashNo (mods s m), take (unat (tickCount (mods s m))) (arrays s (tixArr (mods s m))))"

definition printable :: "hpc_state \<Rightarrow> addr \<Rightarrow> bool" where
  "printable s m = (good_name (modName (mods s m)) \<and> tixArr (mods s m) \<noteq> NULL \<and>
     unat (tickCount (mods s m)) \<le> length (arrays s (tixArr (mods s m))))"

lemma ticks_of_printable:
  "printable s m \<Longrightarrow> ticks_of s m = Inr (take (unat (tickCount (mods s m))) (arrays s (tixArr (mods s m))))"
  by (simp add: printable_def ticks_of_def Let_def)

lemma write_modules_total:
  "\<forall>m\<in>set ms. printable s m \<Longrightarrow> \<exists>t. write_modules s b ms = Inr t"
proof (induction ms arbitrary: b)
  case (Cons m ms)
  then obtain t where "write_modules s True ms = Inr t" by auto
  then show ?case using Cons.prems by (simp add: ticks_of_printable)
qed simp

lemma skip_comma_write_modules:
  assumes "write_modules s True ms = Inr t"
  shows "\<exists>t'. write_modules s False ms = Inr t' \<and> skip_comma (ws (t @ CHR '']'' # r)) = ws (t' @ CHR '']'' # r)"
  using assms by (cases ms) (auto simp: bindE_Inr skip_comma_def tix_is_def)

lemma ws_module_text: "\<exists>u. ws (module_text i xs @ r) = CHR ''T'' # u"
  by (simp add: module_text_def)

lemma modules_loop_written:
  assumes "\<forall>m\<in>set ms. printable s m" "write_modules s False ms = Inr t"
  shows "modules_loop (ws (t @ CHR '']'' # r)) st =
    bindE (store_list (map (entry s) ms) st) (\<lambda>st. Inr (CHR '']'' # r, st))"
  using assms
proof (induction ms arbitrary: t st)
  case Nil
  then show ?case by (simp add: modules_loop.simps tix_is_def)
next
  case (Cons m ms)
  let ?i = "mods s m" and ?xs = "take (unat (tickCount (mods s m))) (arrays s (tixArr (mods s m)))"
  have p: "printable s m" using Cons.prems by simp
  obtain t1 where t1: "write_modules s True ms = Inr t1" "t = module_text ?i ?xs @ t1"
    using Cons.prems p by (auto simp: bindE_Inr ticks_of_printable)
  obtain t2 where t2: "write_modules s False ms = Inr t2"
      "skip_comma (ws (t1 @ CHR '']'' # r)) = ws (t2 @ CHR '']'' # r)"
    using skip_comma_write_modules [OF t1(1)] by blast
  have rm: "read_module (ws (t @ CHR '']'' # r)) = Inr (entry s m, ws (t1 @ CHR '']'' # r))"
    using p read_module_text [of ?i ?xs "t1 @ CHR '']'' # r"] t1(2) by (simp add: printable_def entry_def)
  have "\<not> tix_is (ws (t @ CHR '']'' # r)) (CHR '']'')"
    using ws_module_text [of ?i ?xs "t1 @ CHR '']'' # r"] t1(2) by (auto simp: tix_is_def)
  then show ?case
    using rm t2 Cons.IH [OF _ t2(1)] Cons.prems(1)
    by (subst modules_loop.simps) (auto simp: bindE_def split: sum.splits)
qed

lemma readTix_writeTix:
  assumes "\<forall>m\<in>set (modules s). printable s m"
  shows "\<exists>t. writeTix s = Inr t \<and> readTix t st = store_list (map (entry s) (modules s)) st"
proof -
  obtain b where b: "write_modules s False (modules s) = Inr b"
    using write_modules_total [OF assms] by blast
  have "readTix (''Tix ['' @ b @ '']'' @ [CHR 0x0A]) st = store_list (map (entry s) (modules s)) st"
    using modules_loop_written [OF assms b, of "[CHR 0x0A]" st]
    by (cases "store_list (map (entry s) (modules s)) st") (simp_all add: readTix_def expect_def tix_is_def)
  then show ?thesis using b by (simp add: writeTix_def)
qed

definition hpc_wf :: "hpc_state \<Rightarrow> bool" where
  "hpc_wf s =
     (case moduleHash s of
        None \<Rightarrow> modules s = []
      | Some t \<Rightarrow>
          t = map (\<lambda>m. (modName (mods s m), m)) (modules s) \<and>
          distinct (map (\<lambda>m. modName (mods s m)) (modules s)) \<and>
          distinct (map (\<lambda>m. tixArr (mods s m)) (modules s)) \<and>
          (\<forall>m\<in>set (modules s). printable s m \<and> m < next_mod s))"

definition counters :: "hpc_state \<Rightarrow> addr \<Rightarrow> StgWord list" where
  "counters s m = take (unat (tickCount (mods s m))) (arrays s (tixArr (mods s m)))"

definition descr :: "hpc_state \<Rightarrow> addr \<Rightarrow> string \<times> StgWord32 \<times> StgWord32" where
  "descr s m = (modName (mods s m), hashNo (mods s m), tickCount (mods s m))"

lemma store_list_ok:
  assumes "moduleHash st = Some t"
    and "\<forall>n h xs. (n, h, xs) \<in> set L \<longrightarrow>
      (\<exists>m. map_of t n = Some m \<and> hashNo (mods st m) = h \<and> length xs \<le> length (arrays st (tixArr (mods st m))))"
    and "distinct (map fst L)"
    and "\<forall>n n' m m'. map_of t n = Some m \<longrightarrow> map_of t n' = Some m' \<longrightarrow>
      tixArr (mods st m) = tixArr (mods st m') \<longrightarrow> n = n'"
  shows "\<exists>A. store_list L st = Inr (st\<lparr>arrays := A\<rparr>) \<and> (\<forall>a. length (A a) = length (arrays st a)) \<and>
    (\<forall>n h xs m. (n, h, xs) \<in> set L \<longrightarrow> map_of t n = Some m \<longrightarrow> take (length xs) (A (tixArr (mods st m))) = xs) \<and>
    (\<forall>n m. n \<notin> fst ` set L \<longrightarrow> map_of t n = Some m \<longrightarrow> A (tixArr (mods st m)) = arrays st (tixArr (mods st m)))"
  using assms
proof (induction L arbitrary: st)
  case Nil
  then show ?case by (auto intro!: exI [of _ "arrays st"])
next
  case (Cons x L)
  obtain n h xs where x: "x = (n, h, xs)" by (cases x)
  obtain m where m: "map_of t n = Some m" "hashNo (mods st m) = h"
      "length xs \<le> length (arrays st (tixArr (mods st m)))"
    using Cons.prems(2) x by (meson list.set_intros(1))
  define a where "a = tixArr (mods st m)"
  define B where "B = (arrays st)(a := xs @ drop (length xs) (arrays st a))"
  have step: "store_module x st = Inr (st\<lparr>arrays := B\<rparr>)"
    using Cons.prems(1) m x by (simp add: store_module_def B_def a_def Let_def)
  have len: "length (B b) = length (arrays st b)" for b using m(3) by (simp add: B_def a_def)
  obtain A where A: "store_list L (st\<lparr>arrays := B\<rparr>) = Inr (st\<lparr>arrays := A\<rparr>)" "\<And>b. length (A b) = length (B b)"
    "\<And>n h xs m. (n, h, xs) \<in> set L \<Longrightarrow> map_of t n = Some m \<Longrightarrow> take (length xs) (A (tixArr (mods st m))) = xs"
    "\<And>n m. n \<notin> fst ` set L \<Longrightarrow> map_of t n = Some m \<Longrightarrow> A (tixArr (mods st m)) = B (tixArr (mods st m))"
    using Cons.IH [of "st\<lparr>arrays := B\<rparr>"] Cons.prems len by fastforce
  have new: "n \<notin> fst ` set L" using Cons.prems(3) x by auto
  show ?case
  proof (intro exI [of _ A] conjI allI impI)
    show "store_list (x # L) st = Inr (st\<lparr>arrays := A\<rparr>)" using step A(1) by simp
    show "length (A b) = length (arrays st b)" for b using A(2) len by simp
    show "take (length xs') (A (tixArr (mods st m'))) = xs'"
      if "(n', h', xs') \<in> set (x # L)" "map_of t n' = Some m'" for n' h' xs' m'
      using that A(3) [of n' h' xs' m'] A(4) [OF new m(1)] m(1) x by (auto simp: B_def a_def)
    show "A (tixArr (mods st m')) = arrays st (tixArr (mods st m'))"
      if "n' \<notin> fst ` set (x # L)" "map_of t n' = Some m'" for n' m'
      using that A(4) [of n' m'] Cons.prems(4) m(1) x by (auto simp: B_def a_def)
  qed
qed

lemma map_of_named:
  assumes "distinct (map f ms)"
  shows "map_of (map (\<lambda>m. (f m, m)) ms) n = Some m \<longleftrightarrow> m \<in> set ms \<and> f m = n"
  using assms by (induction ms) (auto, metis image_eqI)

lemma hpc_wf_Some:
  assumes "hpc_wf s" "moduleHash s = Some t"
  shows "map_of t n = Some m \<longleftrightarrow> m \<in> set (modules s) \<and> modName (mods s m) = n"
    and "distinct (map (\<lambda>m. modName (mods s m)) (modules s))"
    and "m \<in> set (modules s) \<Longrightarrow> m' \<in> set (modules s) \<Longrightarrow> tixArr (mods s m) = tixArr (mods s m') \<Longrightarrow> m = m'"
    and "m \<in> set (modules s) \<Longrightarrow> printable s m"
  using assms map_of_named [of "\<lambda>m. modName (mods s m)" "modules s" n m]
  by (auto simp: hpc_wf_def distinct_map inj_on_def)

lemma hpc_wf_printable: "hpc_wf s \<Longrightarrow> m \<in> set (modules s) \<Longrightarrow> printable s m"
  by (auto simp: hpc_wf_def split: option.splits)

lemma hpc_wf_distinct: "hpc_wf s \<Longrightarrow> distinct (map (\<lambda>m. modName (mods s m)) (modules s))"
  by (auto simp: hpc_wf_def split: option.splits)

lemma restore_counters:
  assumes "hpc_wf s1" "hpc_wf s2" "moduleHash s2 = Some t" "descr s1 ` set (modules s1) \<subseteq> descr s2 ` set (modules s2)"
  shows "\<exists>A. store_list (map (entry s1) (modules s1)) s2 = Inr (s2\<lparr>arrays := A\<rparr>) \<and>
    (\<forall>m1\<in>set (modules s1). \<forall>m2\<in>set (modules s2). modName (mods s1 m1) = modName (mods s2 m2) \<longrightarrow>
       counters (s2\<lparr>arrays := A\<rparr>) m2 = counters s1 m1) \<and>
    (\<forall>m2\<in>set (modules s2). modName (mods s2 m2) \<notin> (\<lambda>m. modName (mods s1 m)) ` set (modules s1) \<longrightarrow>
       counters (s2\<lparr>arrays := A\<rparr>) m2 = counters s2 m2)"
proof -
  let ?L = "map (entry s1) (modules s1)"
  note w2 = hpc_wf_Some [OF assms(2,3)]
  have twin: "\<exists>m2\<in>set (modules s2). descr s1 m1 = descr s2 m2" if "m1 \<in> set (modules s1)" for m1
    using assms(4) that by auto
  have len: "length (counters s1 m1) = unat (tickCount (mods s1 m1))" if "m1 \<in> set (modules s1)" for m1
    using hpc_wf_printable [OF assms(1) that] by (simp add: counters_def printable_def)
  have fsts: "map fst ?L = map (\<lambda>m. modName (mods s1 m)) (modules s1)" by (simp add: entry_def)
  have known: "\<exists>m. map_of t n = Some m \<and> hashNo (mods s2 m) = h \<and> length xs \<le> length (arrays s2 (tixArr (mods s2 m)))"
    if L: "(n, h, xs) \<in> set ?L" for n h xs
  proof -
    obtain m1 where m1: "m1 \<in> set (modules s1)" "(n, h, xs) = entry s1 m1" using L by auto
    obtain m2 where m2: "m2 \<in> set (modules s2)" "descr s1 m1 = descr s2 m2" using twin m1(1) by blast
    then show ?thesis
      using m1 len [OF m1(1)] w2(1) [of n m2] w2(4) [OF m2(1)]
      by (auto simp: descr_def entry_def printable_def counters_def)
  qed
  have dist: "distinct (map fst ?L)" using hpc_wf_distinct [OF assms(1)] fsts by metis
  have inj: "n = n'" if "map_of t n = Some m" "map_of t n' = Some m'" "tixArr (mods s2 m) = tixArr (mods s2 m')" for n n' m m'
    using that w2(1,3) by metis
  obtain A where A: "store_list ?L s2 = Inr (s2\<lparr>arrays := A\<rparr>)"
    "\<And>n h xs m. (n, h, xs) \<in> set ?L \<Longrightarrow> map_of t n = Some m \<Longrightarrow> take (length xs) (A (tixArr (mods s2 m))) = xs"
    "\<And>n m. n \<notin> fst ` set ?L \<Longrightarrow> map_of t n = Some m \<Longrightarrow> A (tixArr (mods s2 m)) = arrays s2 (tixArr (mods s2 m))"
    using store_list_ok [OF assms(3) _ dist] known inj by blast
  have back_name: "m = m'" if "m \<in> set (modules s2)" "m' \<in> set (modules s2)" "modName (mods s2 m) = modName (mods s2 m')" for m m'
    using that w2(2) by (auto simp: distinct_map inj_on_def)
  have "counters (s2\<lparr>arrays := A\<rparr>) m2 = counters s1 m1"
    if m: "m1 \<in> set (modules s1)" "m2 \<in> set (modules s2)" "modName (mods s1 m1) = modName (mods s2 m2)" for m1 m2
  proof -
    have "tickCount (mods s1 m1) = tickCount (mods s2 m2)"
      using twin [OF m(1)] back_name m by (auto simp: descr_def)
    moreover have "(modName (mods s2 m2), hashNo (mods s1 m1), counters s1 m1) \<in> set ?L"
      using m(1,3) by (force simp: entry_def counters_def)
    ultimately show ?thesis
      using A(2) [of "modName (mods s2 m2)" "hashNo (mods s1 m1)" "counters s1 m1" m2] w2(1) m(2) len [OF m(1)]
      by (simp add: counters_def)
  qed
  moreover have "counters (s2\<lparr>arrays := A\<rparr>) m2 = counters s2 m2"
    if "m2 \<in> set (modules s2)" "modName (mods s2 m2) \<notin> (\<lambda>m. modName (mods s1 m)) ` set (modules s1)" for m2
    using A(3) [of "modName (mods s2 m2)" m2] that w2(1) by (force simp: counters_def entry_def)
  ultimately show ?thesis using A(1) by blast
qed

text \<open>
  Claim C13.  Coverage survives from one run to the next: the file that \<open>exitHpc\<close> writes at the end of a run
  is accepted by \<open>startupHpc\<close> of a later run that registered (at least) the same modules, and afterwards every
  module has the counters it had at the end of the first run, while modules unknown to the
  first run keep theirs.\<close>

theorem coverage_survives_restart:
  assumes "hpc_wf s1" "hpc_inited s1" "moduleHash s1 \<noteq> None" "tixFilename s1 = Some f"
    and "hpc_wf s2" "\<not> hpc_inited s2" "moduleHash s2 \<noteq> None"
    and "descr s1 ` set (modules s1) \<subseteq> descr s2 ` set (modules s2)"
    and "tix_filename env prog pid = f" "length f < tix_filename_bytes env prog"
  shows "\<exists>fs' s1' s2'. exitHpc (hpc_pid s1) True fs s1 = Inr (fs', s1') \<and>
    startupHpc env prog pid fs' s2 = Inr s2' \<and> modules s2' = modules s2 \<and> mods s2' = mods s2 \<and>
    (\<forall>m1\<in>set (modules s1). \<forall>m2\<in>set (modules s2). modName (mods s1 m1) = modName (mods s2 m2) \<longrightarrow>
       counters s2' m2 = counters s1 m1) \<and>
    (\<forall>m2\<in>set (modules s2). modName (mods s2 m2) \<notin> (\<lambda>m. modName (mods s1 m)) ` set (modules s1) \<longrightarrow>
       counters s2' m2 = counters s2 m2)"
proof -
  define u where "u = s2\<lparr>hpc_inited := True, hpc_pid := pid, tixFilename := Some f,
    made_dirs := (case (env ''HPCTIXFILE'', env ''HPCTIXDIR'') of
       (None, Some d) \<Rightarrow> d # made_dirs s2 | _ \<Rightarrow> made_dirs s2)\<rparr>"
  have u: "mods u = mods s2" "modules u = modules s2" "moduleHash u = moduleHash s2" "arrays u = arrays s2"
    "next_mod u = next_mod s2" by (simp_all add: u_def)
  obtain t where t: "moduleHash u = Some t" using assms(7) u by auto
  have wfu: "hpc_wf u" using assms(5,7) u by (auto simp: hpc_wf_def printable_def)
  have du: "descr s1 ` set (modules s1) \<subseteq> descr u ` set (modules u)" using assms(8) u by (simp add: descr_def)
  obtain txt' where w: "writeTix s1 = Inr txt'" "readTix txt' u = store_list (map (entry s1) (modules s1)) u"
    using readTix_writeTix hpc_wf_printable [OF assms(1)] by metis
  obtain A where A: "store_list (map (entry s1) (modules s1)) u = Inr (u\<lparr>arrays := A\<rparr>)"
    "\<forall>m1\<in>set (modules s1). \<forall>m2\<in>set (modules u). modName (mods s1 m1) = modName (mods u m2) \<longrightarrow>
       counters (u\<lparr>arrays := A\<rparr>) m2 = counters s1 m1"
    "\<forall>m2\<in>set (modules u). modName (mods u m2) \<notin> (\<lambda>m. modName (mods s1 m)) ` set (modules s1) \<longrightarrow>
       counters (u\<lparr>arrays := A\<rparr>) m2 = counters u m2"
    using restore_counters [OF assms(1) wfu t du] by blast
  obtain s1' where e: "exitHpc (hpc_pid s1) True fs s1 = Inr (fs(f := Some txt'), s1')"
    using assms(2-4) w(1) by (auto simp: exitHpc_def)
  have s: "startupHpc env prog pid (fs(f := Some txt')) s2 = Inr (u\<lparr>arrays := A\<rparr>)"
    using assms(6,7,9,10) w(2) A(1) by (auto simp: startupHpc_def Let_def u_def)
  have "counters u = counters s2" using u by (simp add: counters_def fun_eq_iff)
  then show ?thesis using e s A(2,3) u by (intro exI [of _ "u\<lparr>arrays := A\<rparr>"] exI conjI) simp_all
qed

definition module_table :: "hpc_state \<Rightarrow> (string \<times> addr) list" where
  "module_table s = map (\<lambda>m. (modName (mods s m), m)) (modules s)"

lemma hpc_wf_table: "hpc_wf s \<Longrightarrow> (case moduleHash s of None \<Rightarrow> [] | Some t \<Rightarrow> t) = module_table s"
  by (auto simp: hpc_wf_def module_table_def split: option.splits)

lemma hpc_wf_tixArr_distinct: "hpc_wf s \<Longrightarrow> distinct (map (\<lambda>m. tixArr (mods s m)) (modules s))"
  by (auto simp: hpc_wf_def split: option.splits)

lemma hpc_wf_less: "hpc_wf s \<Longrightarrow> m \<in> set (modules s) \<Longrightarrow> m < next_mod s"
  by (auto simp: hpc_wf_def split: option.splits)

lemma register_new:
  assumes wf: "hpc_wf s" and "good_name name" "a \<noteq> NULL" "unat n \<le> length (arrays s a)"
    and fresh: "a \<notin> (\<lambda>m. tixArr (mods s m)) ` set (modules s)"
    and unknown: "Option.bind (moduleHash s) (\<lambda>t. map_of t name) = None"
  shows "\<exists>s'. hs_hpc_module name n h a s = Inr s' \<and> hpc_wf s' \<and>
    (let m = hs_hpc_rootModule s' in descr s' m = (name, h, n) \<and> counters s' m = replicate (unat n) 0) \<and>
    tl (modules s') = modules s \<and>
    (\<forall>m\<in>set (modules s). descr s' m = descr s m \<and> counters s' m = counters s m)"
proof -
  let ?m = "next_mod s"
  let ?i = "\<lparr>modName = name, tickCount = n, hashNo = h, tixArr = a, from_file = False\<rparr>"
  define s' where "s' = s\<lparr>next_mod := ?m + 1, mods := (mods s)(?m := ?i),
    arrays := (arrays s)(a := replicate (unat n) 0 @ drop (unat n) (arrays s a)),
    modules := ?m # modules s, moduleHash := Some ((name, ?m) # module_table s)\<rparr>"
  have none: "map_of (module_table s) name = None"
    using unknown hpc_wf_table [OF wf] by (cases "moduleHash s") auto
  have run: "hs_hpc_module name n h a s = Inr s'"
    using assms(4) none hpc_wf_table [OF wf] by (simp add: hs_hpc_module_def Let_def s'_def)
  have name: "name \<notin> (\<lambda>m. modName (mods s m)) ` set (modules s)"
    using none by (force simp: module_table_def map_of_eq_None_iff)
  have same: "mods s' m = mods s m \<and> arrays s' (tixArr (mods s m)) = arrays s (tixArr (mods s m)) \<and> m \<noteq> ?m"
    if "m \<in> set (modules s)" for m
    using hpc_wf_less [OF wf that] fresh that by (auto simp: s'_def)
  have map_same: "map (\<lambda>m. g (mods s' m)) (modules s) = map (\<lambda>m. g (mods s m)) (modules s)" for g :: "HpcModuleInfo \<Rightarrow> 'b"
    using same by auto
  have tab: "moduleHash s' = Some ((name, ?m) # map (\<lambda>m. (modName (mods s' m), m)) (modules s))"
    using same by (auto simp: s'_def module_table_def)
  have new: "modules s' = ?m # modules s" "mods s' ?m = ?i" "next_mod s' = ?m + 1"
    "arrays s' a = replicate (unat n) 0 @ drop (unat n) (arrays s a)" by (simp_all add: s'_def)
  have pr: "printable s' m" if "m \<in> set (modules s)" for m
    using hpc_wf_printable [OF wf that] same [OF that] by (simp add: printable_def)
  have pn: "printable s' ?m" using assms(2-4) new by (simp add: printable_def)
  have "hpc_wf s'"
    using hpc_wf_distinct [OF wf] hpc_wf_tixArr_distinct [OF wf] hpc_wf_less [OF wf] tab new pr pn name fresh
    by (auto simp: hpc_wf_def map_same less_SucI)
  then show ?thesis using run same new by (auto simp: hs_hpc_rootModule_def descr_def counters_def Let_def)
qed

lemma register_again:
  assumes wf: "hpc_wf s" and len: "unat n \<le> length (arrays s a)"
    and fresh: "a \<notin> (\<lambda>m. tixArr (mods s m)) ` set (modules s)"
    and known: "Option.bind (moduleHash s) (\<lambda>t. map_of t name) = Some m"
  shows "if tickCount (mods s m) \<noteq> n then hs_hpc_module name n h a s = Inl Inconsistent_ticks
    else if hashNo (mods s m) \<noteq> h then hs_hpc_module name n h a s = Inl Hash_mismatch
    else \<exists>s'. hs_hpc_module name n h a s = Inr s' \<and> hpc_wf s' \<and> take (unat n) (arrays s' a) = counters s m"
proof -
  obtain t where t: "moduleHash s = Some t" "map_of t name = Some m" using known by (cases "moduleHash s") auto
  have m: "m \<in> set (modules s)" using hpc_wf_Some(1) [OF wf t(1)] t(2) by simp
  have long: "unat (tickCount (mods s m)) \<le> length (arrays s (tixArr (mods s m)))"
    using hpc_wf_printable [OF wf m] by (simp add: printable_def)
  show ?thesis
  proof (cases "tickCount (mods s m) = n \<and> hashNo (mods s m) = h")
    case False
    then show ?thesis using t by (auto simp: hs_hpc_module_def Let_def)
  next
    case True
    define s' where "s' = s\<lparr>moduleHash := Some t,
      arrays := (arrays s)(a := take (unat n) (arrays s (tixArr (mods s m))) @ drop (unat n) (arrays s a)),
      freed := (if from_file (mods s m) then tixArr (mods s m) # freed s else freed s),
      mods := (mods s)(m := (mods s m)\<lparr>from_file := False\<rparr>)\<rparr>"
    have run: "hs_hpc_module name n h a s = Inr s'"
      using t True len long by (simp add: hs_hpc_module_def Let_def s'_def)
    have f: "modName (mods s' x) = modName (mods s x)" "tixArr (mods s' x) = tixArr (mods s x)"
      "tickCount (mods s' x) = tickCount (mods s x)" for x by (simp_all add: s'_def)
    have g: "modules s' = modules s" "moduleHash s' = moduleHash s" "next_mod s' = next_mod s" using t by (simp_all add: s'_def)
    have l: "length (arrays s' x) = length (arrays s x)" for x using len long True by (auto simp: s'_def)
    have "hpc_wf s'" using wf t(1) by (auto simp: hpc_wf_def printable_def f g l)
    moreover have "take (unat n) (arrays s' a) = counters s m" using long True by (simp add: s'_def counters_def)
    ultimately show ?thesis using run True by auto
  qed
qed

text \<open>
  Claim C35.  Registering a module keeps the table, the list and the arrays consistent: a new module enters
  with all its counters zero, provided that its array is its own, and the other modules keep their counters;
  a module that is registered with another number of boxes or another hash is refused.\<close>

theorem registration_keeps_wf:
  assumes "hpc_wf s" "good_name name" "a \<noteq> NULL" "unat n \<le> length (arrays s a)"
    and "a \<notin> (\<lambda>m. tixArr (mods s m)) ` set (modules s)"
  shows "(case Option.bind (moduleHash s) (\<lambda>t. map_of t name) of
      None \<Rightarrow> \<exists>s'. hs_hpc_module name n h a s = Inr s' \<and> hpc_wf s' \<and>
        (let m = hs_hpc_rootModule s' in descr s' m = (name, h, n) \<and> counters s' m = replicate (unat n) 0) \<and>
        tl (modules s') = modules s \<and>
        (\<forall>m\<in>set (modules s). descr s' m = descr s m \<and> counters s' m = counters s m)
    | Some m \<Rightarrow>
        if tickCount (mods s m) \<noteq> n then hs_hpc_module name n h a s = Inl Inconsistent_ticks
        else if hashNo (mods s m) \<noteq> h then hs_hpc_module name n h a s = Inl Hash_mismatch
        else \<exists>s'. hs_hpc_module name n h a s = Inr s' \<and> hpc_wf s' \<and> take (unat n) (arrays s' a) = counters s m)"
proof (cases "Option.bind (moduleHash s) (\<lambda>t. map_of t name)")
  case None
  then show ?thesis using register_new [OF assms(1-5)] by simp
next
  case (Some m)
  then show ?thesis using register_again [OF assms(1,4,5) Some] by simp
qed

section \<open>Two runs of a program of two modules\<close>

definition no_modules :: "hpc_state" where
  "no_modules = \<lparr>mods = (\<lambda>_. \<lparr>modName = [], tickCount = 0, hashNo = 0, tixArr = 0, from_file = False\<rparr>),
     modules = [], moduleHash = None, arrays = (\<lambda>_. replicate 3 7), next_mod = 1, freed = [], made_dirs = [],
     hpc_inited = False, hpc_pid = 0, tixFilename = None\<rparr>"

definition registered :: "hpc_state" where
  "registered =
     (case bindE (hs_hpc_module ''Main'' 2 77 10 no_modules) (hs_hpc_module ''Data.A'' 1 5 20) of
        Inr s \<Rightarrow> s | Inl _ \<Rightarrow> no_modules)"

definition after_run :: "hpc_state" where
  "after_run = (case startupHpc (\<lambda>_. None) ''prog'' 42 (\<lambda>_. None) registered of
     Inr s \<Rightarrow> s\<lparr>arrays := (arrays s)(10 := [12, 3456, 0], 20 := [18446744073709551615])\<rparr> | Inl _ \<Rightarrow> no_modules)"

lemma no_modules_wf: "hpc_wf no_modules"
  by (simp add: hpc_wf_def no_modules_def)

theorem registration_keeps_wf_witness:
  "\<exists>s'. hs_hpc_module ''Main'' 2 77 10 no_modules = Inr s' \<and> hpc_wf s' \<and>
     counters s' (hs_hpc_rootModule s') = [0, 0]"
proof -
  have "good_name ''Main''" by code_simp
  moreover have "unat (2 :: StgWord32) \<le> length (arrays no_modules 10)"
    "(10 :: nat) \<notin> (\<lambda>m. tixArr (mods no_modules m)) ` set (modules no_modules)"
    "Option.bind (moduleHash no_modules) (\<lambda>t. map_of t ''Main'') = None"
    by (simp_all add: no_modules_def)
  moreover have "replicate (unat (2 :: StgWord32)) (0 :: StgWord) = [0, 0]" by code_simp
  ultimately show ?thesis
    using registration_keeps_wf [OF no_modules_wf, of "''Main''" 10 2 77] by (auto simp: Let_def)
qed

theorem coverage_survives_restart_witness:
  "\<exists>fs' s1' s2'. exitHpc 42 True (\<lambda>_. None) after_run = Inr (fs', s1') \<and>
     startupHpc (\<lambda>_. None) ''prog'' 43 fs' registered = Inr s2' \<and>
     counters s2' 1 = [12, 3456] \<and> counters s2' 2 = [18446744073709551615]"
proof -
  have wf: "hpc_wf after_run" "hpc_wf registered" by code_simp+
  have run: "hpc_inited after_run" "moduleHash after_run \<noteq> None" "tixFilename after_run = Some ''prog.tix''"
    "hpc_pid after_run = 42" by code_simp+
  have fresh: "\<not> hpc_inited registered" "moduleHash registered \<noteq> None" by code_simp+
  have same: "descr after_run ` set (modules after_run) \<subseteq> descr registered ` set (modules registered)" by code_simp
  have name: "tix_filename (\<lambda>_. None) ''prog'' 43 = ''prog.tix''"
    "length ''prog.tix'' < tix_filename_bytes (\<lambda>_. None) ''prog''" by code_simp+
  have members: "1 \<in> set (modules after_run)" "2 \<in> set (modules after_run)"
    "1 \<in> set (modules registered)" "2 \<in> set (modules registered)"
    "modName (mods after_run 1) = modName (mods registered 1)"
    "modName (mods after_run 2) = modName (mods registered 2)" by code_simp+
  have ticks: "counters after_run 1 = [12, 3456]" "counters after_run 2 = [18446744073709551615]" by code_simp+
  show ?thesis
    using coverage_survives_restart [OF wf(1) run(1-3) wf(2) fresh same name, of "\<lambda>_. None"] members ticks run(4)
    by metis
qed

text \<open>A file with a module that is not registered: the entry is not added, as the code means to, but
  looked up through the null pointer.\<close>

lemma readTix_unknown_module:
  assumes "moduleHash st = Some t" "map_of t n = None"
  shows "store_module (n, h, xs) st = Inl Null_pointer"
  using assms by (simp add: store_module_def)

text \<open>The counters of an entry with more ticks than the registered module has boxes are written past its array.\<close>

lemma readTix_overflow:
  assumes "moduleHash st = Some t" "map_of t n = Some m" "hashNo (mods st m) = h"
    "length (arrays st (tixArr (mods st m))) < length xs"
  shows "store_module (n, h, xs) st = Inl Out_of_bounds"
  using assms by (simp add: store_module_def)

text \<open>Process numbers of at most five digits fit into the buffer for the file name.\<close>

lemma length_show_nat: "n < 10 ^ Suc k \<Longrightarrow> length (show_nat n) \<le> Suc k"
proof (induction k arbitrary: n)
  case 0
  then show ?case by (subst show_nat.simps) simp
next
  case (Suc k)
  then have "n div 10 < 10 ^ Suc k" by (simp add: less_mult_imp_div_less mult.commute)
  then show ?case using Suc.IH [of "n div 10"] by (subst show_nat.simps) simp
qed

lemma show_int_small: "0 \<le> i \<Longrightarrow> i < 100000 \<Longrightarrow> length (show_int i) \<le> 5"
  using length_show_nat [of "nat i" 4] by (simp add: show_int_def nat_less_iff)

lemma filename_fits:
  assumes "0 \<le> pid" "pid < 100000"
  shows "length (tix_filename env prog pid) < tix_filename_bytes env prog"
  using show_int_small [OF assms]
  by (auto simp: tix_filename_def tix_filename_bytes_def split: option.splits)

text \<open>Longer ones do not, where \<open>HPCTIXDIR\<close> is set.\<close>

lemma length_show_nat_ge: "10 ^ k \<le> n \<Longrightarrow> k < length (show_nat n)"
proof (induction k arbitrary: n)
  case (Suc k)
  then have le: "10 ^ k \<le> n div 10" by (simp add: less_eq_div_iff_mult_less_eq mult.commute)
  then have "\<not> n < 10" by (cases "n < 10") auto
  then show ?case using Suc.IH [OF le] by (subst show_nat.simps) simp
qed simp

lemma filename_overflow:
  assumes "env ''HPCTIXFILE'' = None" "env ''HPCTIXDIR'' = Some d" "100000 \<le> pid"
  shows "tix_filename_bytes env prog \<le> length (tix_filename env prog pid)"
  using assms length_show_nat_ge [of 5 "nat pid"]
  by (simp add: tix_filename_def tix_filename_bytes_def show_int_def le_nat_iff)

end
