(* ===== verification/PrimFloat.thy ===== *)
theory PrimFloat
  imports Complex_Main Prelude "HOL-Library.Monad_Syntax"
begin

text \<open>
  Decoding of floating point numbers, \<open>rts/StgPrimFloat.c\<close>, and encoding of integers.

  The decoding functions work on the bits of the number, as the unions of the source do, on a
  little-endian machine: \<open>u.i[L]\<close> and \<open>u.i[H]\<close> are the low and the high half.  The result through the
  pointers is a tuple; the sign that \<open>decodeDouble_2Int\<close> leaves unset for a zero is an option.
  Exponents are integers: they stay between \<open>-1200\<close> and \<open>1200\<close>.

  The encoding functions compute with floating point numbers.  A finite number is a real, so that the two
  zeros are one number and an overflow to infinity is not represented; \<open>dbl\<close> and \<open>flt\<close>
  stand for the rounding of a real to the nearest number of the format, of which only is used that it
  leaves the numbers of the format alone.
\<close>

section \<open>Decoding\<close>

definition MY_DMINEXP :: int where "MY_DMINEXP = - 1021 - 53 - 1"
definition DHIGHBIT :: StgWord32 where "DHIGHBIT = 0x00100000"
definition DMSBIT :: StgWord32 where "DMSBIT = 0x80000000"
definition MY_FMINEXP :: int where "MY_FMINEXP = - 125 - 24 - 1"
definition FHIGHBIT :: StgWord32 where "FHIGHBIT = 0x00800000"
definition FMSBIT :: StgWord32 where "FMSBIT = 0x80000000"

partial_function (option) decodeDouble_loop :: "StgWord32 \<Rightarrow> StgWord32 \<Rightarrow> int \<Rightarrow> (StgWord32 \<times> StgWord32 \<times> int) option" where
  "decodeDouble_loop high low iexp =
     (if high AND DHIGHBIT \<noteq> 0 then Some (high, low, iexp)
      else decodeDouble_loop
        (if low AND DMSBIT \<noteq> 0 then push_bit 1 high + 1 else push_bit 1 high) (push_bit 1 low) (iexp - 1))"

declare decodeDouble_loop.simps [code]

text \<open>The halves of a number in the union.\<close>

definition dlow :: "StgWord \<Rightarrow> StgWord32" where "dlow b = ucast b"
definition dhigh :: "StgWord \<Rightarrow> StgWord32" where "dhigh b = ucast (drop_bit 32 b)"

text \<open>Sign, high and low half of the mantissa, and exponent.\<close>

definition decodeDouble_2Int :: "StgWord \<Rightarrow> (int option \<times> StgWord32 \<times> StgWord32 \<times> int) option" where
  "decodeDouble_2Int dbl =
     (let low = dlow dbl; high = dhigh dbl
      in if low = 0 \<and> high AND NOT DMSBIT = 0 then Some (None, 0, 0, 0)
         else
           let iexp = uint (drop_bit 20 high AND 0x7ff) + MY_DMINEXP;
               sign = high;
               high = high AND (DHIGHBIT - 1)
           in do {
             (high, low, iexp) \<leftarrow>
               (if iexp \<noteq> MY_DMINEXP then Some (high OR DHIGHBIT, low, iexp)
                else decodeDouble_loop high low (iexp + 1));
             Some (Some (if sint sign < 0 then -1 else 1), high, low, iexp)
           })"

partial_function (option) decodeFloat_loop :: "StgWord32 \<Rightarrow> int \<Rightarrow> (StgWord32 \<times> int) option" where
  "decodeFloat_loop high e =
     (if high AND FHIGHBIT \<noteq> 0 then Some (high, e) else decodeFloat_loop (push_bit 1 high) (e - 1))"

declare decodeFloat_loop.simps [code]

definition decodeFloat_Int :: "StgWord32 \<Rightarrow> (int \<times> int) option" where
  "decodeFloat_Int flt =
     (let high = flt
      in if high AND NOT FMSBIT = 0 then Some (0, 0)
         else
           let e = sint (signed_drop_bit 23 high AND 0xff) + MY_FMINEXP;
               sign = high;
               high = high AND (FHIGHBIT - 1)
           in do {
             (high, e) \<leftarrow>
               (if e \<noteq> MY_FMINEXP then Some (high OR FHIGHBIT, e) else decodeFloat_loop high (e + 1));
             Some (if sint sign < 0 then - sint high else sint high, e)
           })"

section \<open>Encoding\<close>

text \<open>Signed arguments are \<open>I_\<close>, so the absolute value of the least one overflows;
  the exponent is narrowed to the \<open>int\<close> that \<open>ldexp\<close> takes.\<close>

definition as_int :: "StgWord \<Rightarrow> int" where
  "as_int e = sint (ucast e :: StgWord32)"

definition word_encodeDouble :: "(real \<Rightarrow> real) \<Rightarrow> StgWord \<Rightarrow> StgWord \<Rightarrow> real" where
  "word_encodeDouble dbl j e =
     (let r = dbl (of_nat (unat j)) in if r \<noteq> 0 then dbl (r * 2 powi as_int e) else r)"

definition int_abs :: "StgWord \<Rightarrow> StgWord" where
  "int_abs j = (if sint j \<ge> 0 then j else - j)"

definition int_encodeDouble :: "(real \<Rightarrow> real) \<Rightarrow> StgWord \<Rightarrow> StgWord \<Rightarrow> real" where
  "int_encodeDouble dbl j e =
     (let r = dbl (of_int (sint (int_abs j)));
          r = (if r \<noteq> 0 then dbl (r * 2 powi as_int e) else r)
      in if sint j < 0 then - r else r)"

definition int_encodeFloat :: "(real \<Rightarrow> real) \<Rightarrow> (real \<Rightarrow> real) \<Rightarrow> StgWord \<Rightarrow> StgWord \<Rightarrow> real" where
  "int_encodeFloat dbl flt j e =
     (let r = flt (of_int (sint (int_abs j)));
          r = (if r \<noteq> 0 then flt (dbl (r * 2 powi as_int e)) else r)
      in if sint j < 0 then - r else r)"

definition word_encodeFloat :: "(real \<Rightarrow> real) \<Rightarrow> (real \<Rightarrow> real) \<Rightarrow> StgWord \<Rightarrow> StgWord \<Rightarrow> real" where
  "word_encodeFloat dbl flt j e =
     (let r = flt (of_nat (unat j)) in if r \<noteq> 0 then flt (dbl (r * 2 powi as_int e)) else r)"

definition encodeDouble_2Int :: "(real \<Rightarrow> real) \<Rightarrow> StgWord \<Rightarrow> StgWord \<Rightarrow> StgWord \<Rightarrow> real" where
  "encodeDouble_2Int dbl j_high j_low e =
     (let r = dbl (of_nat (unat (ucast j_high :: StgWord32)));
          r = dbl (r * 4294967296);
          r = dbl (r + dbl (of_nat (unat (ucast j_low :: StgWord32))));
          r = (if r \<noteq> 0 then dbl (r * 2 powi as_int e) else r)
      in if sint j_high < 0 then - r else r)"

section \<open>The loops normalise\<close>

lemma and_mask_pow: "(w :: StgWord32) AND (2 ^ k) = 0 \<longleftrightarrow> \<not> bit w k"
  by (simp add: and_exp_eq_0_iff_not_bit)

lemma bit_top_iff:
  assumes "unat (w :: StgWord32) < 2 ^ Suc k"
  shows "bit w k \<longleftrightarrow> 2 ^ k \<le> unat w"
proof -
  have "bit w k \<longleftrightarrow> odd (unat w div 2 ^ k)" by (simp add: bit_unsigned_iff flip: bit_iff_odd)
  moreover have "unat w div 2 ^ k < 2" using assms by (simp add: less_mult_imp_div_less mult.commute)
  then have "unat w div 2 ^ k = 0 \<or> unat w div 2 ^ k = 1" by auto
  moreover have "unat w div 2 ^ k = 0 \<longleftrightarrow> unat w < 2 ^ k" by (simp add: div_eq_0_iff)
  ultimately show ?thesis by fastforce
qed

lemma unat_double: "unat (w :: StgWord32) < 2 ^ 31 \<Longrightarrow> unat (push_bit 1 w) = 2 * unat w"
  by (simp add: unat_word_ariths)

lemma decodeFloat_loop_normalises:
  assumes "0 < unat h" "unat h < 2 ^ 24"
  shows "\<exists>h' k. decodeFloat_loop h e = Some (h', e - int k) \<and> unat h' = unat h * 2 ^ k \<and> 2 ^ 23 \<le> unat h' \<and> unat h' < 2 ^ 24"
  using assms
proof (induction "2 ^ 24 - unat h" arbitrary: h e rule: less_induct)
  case less
  have F: "FHIGHBIT = 2 ^ 23" by (simp add: FHIGHBIT_def)
  have b: "h AND FHIGHBIT \<noteq> 0 \<longleftrightarrow> 2 ^ 23 \<le> unat h"
    using less.prems bit_top_iff [of h 23] and_mask_pow [of h 23] by (simp add: F)
  show ?case
  proof (cases "2 ^ 23 \<le> unat h")
    case True
    then show ?thesis using less.prems b by (intro exI [of _ h] exI [of _ 0]) (simp add: decodeFloat_loop.simps)
  next
    case False
    then have u: "unat (push_bit 1 h) = 2 * unat h"
      by (intro unat_double) simp
    then obtain h' k where "decodeFloat_loop (push_bit 1 h) (e - 1) = Some (h', e - 1 - int k)"
      "unat h' = unat (push_bit 1 h) * 2 ^ k" "2 ^ 23 \<le> unat h'" "unat h' < 2 ^ 24"
      using less.hyps [of "push_bit 1 h" "e - 1"] less.prems False by (auto simp: diff_less_mono2)
    then show ?thesis
      using u b False by (intro exI [of _ h'] exI [of _ "Suc k"]) (simp add: decodeFloat_loop.simps algebra_simps)
  qed
qed

definition wide :: "StgWord32 \<Rightarrow> StgWord32 \<Rightarrow> nat" where
  "wide high low = unat high * 2 ^ 32 + unat low"

lemma wide_shift:
  assumes "unat high < 2 ^ 31"
  shows "wide (if low AND DMSBIT \<noteq> 0 then push_bit 1 high + 1 else push_bit 1 high) (push_bit 1 low) = 2 * wide high low"
proof -
  have D: "low AND DMSBIT \<noteq> 0 \<longleftrightarrow> 2 ^ 31 \<le> unat low"
    using and_mask_pow [of low 31] bit_top_iff [of low 31] unsigned_less [of low] by (simp add: DMSBIT_def)
  have h: "unat (push_bit 1 high) = 2 * unat high"
    using assms by (rule unat_double)
  have h1: "unat (push_bit 1 high + 1) = 2 * unat high + 1"
    using assms h by (simp add: unat_word_ariths)
  have l: "unat (push_bit 1 low) = (2 * unat low) mod 2 ^ 32"
    by (simp add: unat_word_ariths mult.commute)
  show ?thesis
  proof (cases "2 ^ 31 \<le> unat low")
    case True
    have "unat low < 2 ^ 32" using unsigned_less [of low] by simp
    then have "2 * unat low - 2 ^ 32 < 2 ^ 32" by simp
    then have "(2 * unat low) mod 2 ^ 32 = 2 * unat low - 2 ^ 32"
      using True le_mod_geq [of "2 ^ 32" "2 * unat low"] by (simp only: mod_less) simp
    then show ?thesis using True D h1 l by (simp add: wide_def)
  next
    case False
    then show ?thesis using D h l by (simp add: wide_def)
  qed
qed

lemma decodeDouble_loop_normalises:
  assumes "0 < wide high low" "wide high low < 2 ^ 53"
  shows "\<exists>high' low' k. decodeDouble_loop high low e = Some (high', low', e - int k) \<and>
    wide high' low' = wide high low * 2 ^ k \<and> 2 ^ 52 \<le> wide high' low' \<and> wide high' low' < 2 ^ 53"
  using assms
proof (induction "2 ^ 53 - wide high low" arbitrary: high low e rule: less_induct)
  case less
  have lt: "unat low < 2 ^ 32" using unsigned_less [of low] by simp
  then have hl: "unat high < 2 ^ 21" using less.prems(2) by (simp add: wide_def)
  then have b: "high AND DHIGHBIT \<noteq> 0 \<longleftrightarrow> 2 ^ 20 \<le> unat high"
    using bit_top_iff [of high 20] and_mask_pow [of high 20] by (simp add: DHIGHBIT_def)
  have n: "2 ^ 20 \<le> unat high \<longleftrightarrow> 2 ^ 52 \<le> wide high low" using lt by (simp add: wide_def) linarith
  show ?case
  proof (cases "2 ^ 52 \<le> wide high low")
    case True
    then show ?thesis using less.prems b n
      by (intro exI [of _ high] exI [of _ low] exI [of _ 0]) (simp add: decodeDouble_loop.simps)
  next
    case False
    let ?h = "if low AND DMSBIT \<noteq> 0 then push_bit 1 high + 1 else push_bit 1 high" and ?l = "push_bit 1 low"
    have u: "wide ?h ?l = 2 * wide high low" using hl by (intro wide_shift) simp
    obtain h' l' k where r: "decodeDouble_loop ?h ?l (e - 1) = Some (h', l', e - 1 - int k)"
      "wide h' l' = wide ?h ?l * 2 ^ k" "2 ^ 52 \<le> wide h' l'" "wide h' l' < 2 ^ 53"
      using less.hyps [of ?h ?l "e - 1"] less.prems False u by (auto simp: diff_less_mono2)
    moreover have "decodeDouble_loop high low e = decodeDouble_loop ?h ?l (e - 1)"
      using b n False by (subst decodeDouble_loop.simps) simp
    ultimately show ?thesis
      using u by (intro exI [of _ h'] exI [of _ l'] exI [of _ "Suc k"]) (simp add: algebra_simps)
  qed
qed

section \<open>The value of a number\<close>

lemma unat_and_mask: "unat ((w :: 'a::len word) AND mask k) = unat w mod 2 ^ k"
  by (metis take_bit_eq_mask take_bit_eq_mod unsigned_take_bit_eq)

lemma unat_drop_bit_div: "unat (drop_bit k (w :: 'a::len word)) = unat w div 2 ^ k"
  by (subst unsigned_drop_bit_eq) (simp add: drop_bit_eq_div take_bit_nat_eq_self [OF unsigned_less])

lemma unat_or_exp:
  assumes "unat (w :: StgWord32) < 2 ^ k" "k < 32"
  shows "unat (w OR 2 ^ k) = unat w + 2 ^ k"
proof -
  have "\<not> bit w n \<or> \<not> bit (2 ^ k :: StgWord32) n" for n
    using assms bit_top_iff [of w k] by (auto simp: bit_exp_iff)
  then have o: "w OR 2 ^ k = w + 2 ^ k" by (metis disjunctive_add)
  have "(2 :: nat) ^ k < 2 ^ 32" using assms(2) by (intro power_strict_increasing) auto
  then have "unat (word_of_nat (2 ^ k) :: StgWord32) = 2 ^ k"
    using assms(2) by (subst unsigned_of_nat) (simp add: take_bit_nat_eq_self)
  then have p: "unat (2 ^ k :: StgWord32) = 2 ^ k" by (metis of_nat_numeral of_nat_power)
  have "(2 :: nat) * 2 ^ k \<le> 2 ^ 32" using assms(2) power_increasing [of "Suc k" 32 "2 :: nat"] by simp
  then have "unat w + 2 ^ k < 2 ^ 32" using assms(1) by linarith
  then show ?thesis using p by (simp add: o unat_word_ariths)
qed

lemma sint_neg_iff: "sint (w :: StgWord32) < 0 \<longleftrightarrow> 2 ^ 31 \<le> unat w"
  using bit_top_iff [of w 31] unsigned_less [of w] by (simp add: sint_uint signed_take_bit_negative_iff bit_uint_iff)

definition double_sign :: "StgWord \<Rightarrow> int" where
  "double_sign b = (if 2 ^ 63 \<le> unat b then - 1 else 1)"

definition double_exponent :: "StgWord \<Rightarrow> nat" where
  "double_exponent b = unat b div 2 ^ 52 mod 2 ^ 11"

definition double_fraction :: "StgWord \<Rightarrow> nat" where
  "double_fraction b = unat b mod 2 ^ 52"

definition double_value :: "StgWord \<Rightarrow> real" where
  "double_value b = of_int (double_sign b) *
     (if double_exponent b = 0 then of_nat (double_fraction b) * 2 powi (- 1074)
      else of_nat (2 ^ 52 + double_fraction b) * 2 powi (int (double_exponent b) - 1075))"

lemma unat_dlow: "unat (dlow b) = unat b mod 2 ^ 32"
  by (simp add: dlow_def unsigned_ucast_eq take_bit_eq_mod)

lemma unat_dhigh: "unat (dhigh b) = unat b div 2 ^ 32"
proof -
  have "unat b < 2 ^ 64" using unsigned_less [of b] by simp
  then have "unat b div 2 ^ 32 < 2 ^ 32" by (simp add: less_mult_imp_div_less)
  then show ?thesis by (simp add: dhigh_def unsigned_ucast_eq unat_drop_bit_div take_bit_nat_eq_self)
qed

lemma wide_fraction: "wide (dhigh b AND (DHIGHBIT - 1)) (dlow b) = double_fraction b"
proof -
  have m: "DHIGHBIT - 1 = mask 20" by (simp add: DHIGHBIT_def mask_eq_exp_minus_1)
  have "unat b mod 2 ^ 52 = (unat b div 2 ^ 32) mod 2 ^ 20 * 2 ^ 32 + unat b mod 2 ^ 32"
    using mod_mult2_eq [of "unat b" "2 ^ 32" "2 ^ 20"] by (simp add: mult.commute)
  then show ?thesis
    by (simp only: m wide_def unat_and_mask unat_dhigh unat_dlow double_fraction_def)
qed

lemma exponent_field: "uint (drop_bit 20 (dhigh b) AND 0x7ff) = int (double_exponent b)"
proof -
  have m: "(0x7ff :: StgWord32) = mask 11" by (simp add: mask_eq_exp_minus_1)
  have "unat (drop_bit 20 (dhigh b) AND 0x7ff) = unat b div 2 ^ 32 div 2 ^ 20 mod 2 ^ 11"
    by (simp only: m unat_and_mask unat_drop_bit_div unat_dhigh)
  also have "\<dots> = double_exponent b" unfolding double_exponent_def by (simp add: div_mult2_eq [symmetric])
  finally show ?thesis by (metis uint_nat)
qed

lemma sign_field: "sint (dhigh b) < 0 \<longleftrightarrow> 2 ^ 63 \<le> unat b"
  by (simp add: sint_neg_iff unat_dhigh less_eq_div_iff_mult_less_eq)

lemma zero_test: "dlow b = 0 \<and> dhigh b AND NOT DMSBIT = 0 \<longleftrightarrow> double_exponent b = 0 \<and> double_fraction b = 0"
proof -
  have m: "NOT DMSBIT = mask 31" by (simp add: DMSBIT_def mask_eq_exp_minus_1)
  have a: "dlow b = 0 \<longleftrightarrow> unat b mod 2 ^ 32 = 0"
    by (metis unat_0 unat_dlow word_unat_eq_iff)
  have c: "dhigh b AND NOT DMSBIT = 0 \<longleftrightarrow> unat b div 2 ^ 32 mod 2 ^ 31 = 0"
    by (metis m unat_0 unat_and_mask unat_dhigh word_unat_eq_iff)
  have d: "unat b mod (2 ^ 32 * 2 ^ 31) = 2 ^ 32 * (unat b div 2 ^ 32 mod 2 ^ 31) + unat b mod 2 ^ 32"
    by (rule mod_mult2_eq)
  have e: "unat b mod (2 ^ 52 * 2 ^ 11) = 2 ^ 52 * (unat b div 2 ^ 52 mod 2 ^ 11) + unat b mod 2 ^ 52"
    by (rule mod_mult2_eq)
  have "2 ^ 32 * (unat b div 2 ^ 32 mod 2 ^ 31) + unat b mod 2 ^ 32 = 0 \<longleftrightarrow>
      2 ^ 52 * (unat b div 2 ^ 52 mod 2 ^ 11) + unat b mod 2 ^ 52 = 0"
    using d e by simp
  then show ?thesis using a c unfolding double_exponent_def double_fraction_def by auto
qed

lemma hidden_bit:
  "wide (dhigh b AND (DHIGHBIT - 1) OR DHIGHBIT) (dlow b) = 2 ^ 52 + double_fraction b"
proof -
  have m: "DHIGHBIT - 1 = mask 20" by (simp add: DHIGHBIT_def mask_eq_exp_minus_1)
  have "unat (dhigh b AND (DHIGHBIT - 1)) < 2 ^ 20" by (simp only: m unat_and_mask) simp
  then have "unat (dhigh b AND (DHIGHBIT - 1) OR 2 ^ 20) = unat (dhigh b AND (DHIGHBIT - 1)) + 2 ^ 20"
    by (rule unat_or_exp) simp
  moreover have "DHIGHBIT = 2 ^ 20" by (simp add: DHIGHBIT_def)
  ultimately show ?thesis using wide_fraction [of b] by (simp add: wide_def)
qed

lemma double_fraction_less: "double_fraction b < 2 ^ 52"
  by (simp add: double_fraction_def)

lemma double_exponent_less: "double_exponent b < 2048"
  by (simp add: double_exponent_def)

lemma few_shifts: "0 < (n :: nat) \<Longrightarrow> n * 2 ^ k < 2 ^ j \<Longrightarrow> k < j"
  by (metis less_imp_le_nat less_le_trans mult_le_mono1 nat_mult_1 not_le power_increasing Suc_leI One_nat_def one_le_numeral)

lemma decodeDouble_nonzero:
  assumes "double_exponent b \<noteq> 0 \<or> double_fraction b \<noteq> 0"
  shows "\<exists>high low e. decodeDouble_2Int b = Some (Some (double_sign b), high, low, e) \<and>
    2 ^ 52 \<le> wide high low \<and> wide high low < 2 ^ 53 \<and> - 1200 < e \<and> e < 1200 \<and>
    double_value b = of_int (double_sign b) * of_nat (wide high low) * 2 powi e"
proof -
  let ?h = "dhigh b AND (DHIGHBIT - 1)"
  have z: "\<not> (dlow b = 0 \<and> dhigh b AND NOT DMSBIT = 0)" using assms zero_test [of b] by simp
  have sg: "(if sint (dhigh b) < 0 then - 1 else 1) = double_sign b" by (simp add: sign_field double_sign_def)
  show ?thesis
  proof (cases "double_exponent b = 0")
    case False
    then have "decodeDouble_2Int b = Some (Some (double_sign b), ?h OR DHIGHBIT, dlow b, int (double_exponent b) + MY_DMINEXP)"
      using z sg exponent_field [of b]
      by (simp add: decodeDouble_2Int_def Let_def)
    then show ?thesis
      using hidden_bit [of b] double_fraction_less [of b] double_exponent_less [of b] False
      by (intro exI [of _ "?h OR DHIGHBIT"] exI [of _ "dlow b"] exI [of _ "int (double_exponent b) + MY_DMINEXP"])
        (simp add: double_value_def MY_DMINEXP_def)
  next
    case True
    then have "0 < wide ?h (dlow b)" "wide ?h (dlow b) < 2 ^ 53"
      using assms wide_fraction [of b] double_fraction_less [of b] by auto
    then obtain h l k where r: "decodeDouble_loop ?h (dlow b) (MY_DMINEXP + 1) = Some (h, l, MY_DMINEXP + 1 - int k)"
        "wide h l = wide ?h (dlow b) * 2 ^ k" "2 ^ 52 \<le> wide h l" "wide h l < 2 ^ 53"
      using decodeDouble_loop_normalises by metis
    have "decodeDouble_2Int b = Some (Some (double_sign b), h, l, MY_DMINEXP + 1 - int k)"
      using z sg True exponent_field [of b] r(1)
      by (simp add: decodeDouble_2Int_def Let_def)
    moreover have "of_nat (wide h l) * 2 powi (MY_DMINEXP + 1 - int k) = (of_nat (double_fraction b) * 2 powi (- 1074) :: real)"
      using r(2) wide_fraction [of b] by (simp add: MY_DMINEXP_def power_int_diff power_int_minus)
    moreover have "k < 53" using r(2,4) few_shifts [of "wide ?h (dlow b)" k 53] \<open>0 < wide ?h (dlow b)\<close> by simp
    ultimately show ?thesis using r(3,4) True
      by (intro exI [of _ h] exI [of _ l] exI [of _ "MY_DMINEXP + 1 - int k"]) (simp add: double_value_def MY_DMINEXP_def)
  qed
qed

definition float_sign :: "StgWord32 \<Rightarrow> int" where
  "float_sign b = (if 2 ^ 31 \<le> unat b then - 1 else 1)"

definition float_exponent :: "StgWord32 \<Rightarrow> nat" where
  "float_exponent b = unat b div 2 ^ 23 mod 2 ^ 8"

definition float_fraction :: "StgWord32 \<Rightarrow> nat" where
  "float_fraction b = unat b mod 2 ^ 23"

definition float_value :: "StgWord32 \<Rightarrow> real" where
  "float_value b = of_int (float_sign b) *
     (if float_exponent b = 0 then of_nat (float_fraction b) * 2 powi (- 149)
      else of_nat (2 ^ 23 + float_fraction b) * 2 powi (int (float_exponent b) - 150))"

lemma float_mask: "FHIGHBIT - 1 = mask 23" "FHIGHBIT = 2 ^ 23" "NOT FMSBIT = mask 31"
  by (simp_all add: FHIGHBIT_def FMSBIT_def mask_eq_exp_minus_1)

lemma unat_float_fraction: "unat (b AND (FHIGHBIT - 1)) = float_fraction b"
  by (simp only: float_mask(1) unat_and_mask float_fraction_def)

lemma float_fraction_less: "float_fraction b < 2 ^ 23"
  by (simp add: float_fraction_def)

lemma float_exponent_less: "float_exponent b < 256"
  by (simp add: float_exponent_def)

lemma float_hidden_bit: "unat (b AND (FHIGHBIT - 1) OR FHIGHBIT) = 2 ^ 23 + float_fraction b"
proof -
  have "unat (b AND (FHIGHBIT - 1)) < 2 ^ 23" using unat_float_fraction float_fraction_less by simp
  then have "unat (b AND (FHIGHBIT - 1) OR 2 ^ 23) = unat (b AND (FHIGHBIT - 1)) + 2 ^ 23"
    by (rule unat_or_exp) simp
  then show ?thesis using unat_float_fraction [of b] by (simp only: float_mask(2) add.commute)
qed

lemma sint_small: "unat (w :: StgWord32) < 2 ^ 31 \<Longrightarrow> sint w = int (unat w)"
proof -
  assume w: "unat w < 2 ^ 31"
  have "signed_take_bit 31 (int n) = int n" if "n < 2 ^ 31" for n
    by (rule signed_take_bit_int_eq_self) (use that in auto)
  from this [OF w] show ?thesis by (simp add: sint_uint)
qed

lemma float_exponent_field: "sint (signed_drop_bit 23 b AND 0xff) = int (float_exponent b)"
proof -
  have m: "(0xff :: StgWord32) = mask 8" by (simp add: mask_eq_exp_minus_1)
  have "signed_drop_bit 23 b AND mask 8 = drop_bit 23 b AND mask 8"
    by (rule bit_word_eqI) (auto simp: bit_simps min_def)
  then have u: "unat (signed_drop_bit 23 b AND 0xff) = float_exponent b"
    by (simp only: m unat_and_mask unat_drop_bit_div float_exponent_def)
  then show ?thesis using sint_small [of "signed_drop_bit 23 b AND 0xff"] float_exponent_less [of b] by simp
qed

lemma float_zero_test: "b AND NOT FMSBIT = 0 \<longleftrightarrow> float_exponent b = 0 \<and> float_fraction b = 0"
proof -
  have "unat (b AND NOT FMSBIT) = unat b mod 2 ^ 31" by (simp only: float_mask(3) unat_and_mask)
  moreover have "unat b mod (2 ^ 23 * 2 ^ 8) = 2 ^ 23 * (unat b div 2 ^ 23 mod 2 ^ 8) + unat b mod 2 ^ 23"
    by (rule mod_mult2_eq)
  ultimately have "unat (b AND NOT FMSBIT) = 2 ^ 23 * float_exponent b + float_fraction b"
    by (simp add: float_exponent_def float_fraction_def)
  then show ?thesis by (metis add_is_0 mult_is_0 power_not_zero unat_0 word_unat_eq_iff zero_neq_numeral)
qed

lemma decodeFloat_nonzero:
  assumes "float_exponent b \<noteq> 0 \<or> float_fraction b \<noteq> 0"
  shows "\<exists>man e. decodeFloat_Int b = Some (float_sign b * int man, e) \<and>
    2 ^ 23 \<le> man \<and> man < 2 ^ 24 \<and> - 1200 < e \<and> e < 1200 \<and>
    float_value b = of_int (float_sign b) * of_nat man * 2 powi e"
proof -
  let ?h = "b AND (FHIGHBIT - 1)"
  have z: "b AND NOT FMSBIT \<noteq> 0" using assms float_zero_test [of b] by simp
  have sg: "(if sint b < 0 then - sint h else sint h) = float_sign b * int (unat h)"
    if "unat h < 2 ^ 24" for h :: StgWord32
    using that sint_small [of h] by (simp add: sint_neg_iff float_sign_def)
  show ?thesis
  proof (cases "float_exponent b = 0")
    case False
    let ?m = "?h OR FHIGHBIT"
    have m: "unat ?m = 2 ^ 23 + float_fraction b" by (rule float_hidden_bit)
    then have "unat ?m < 2 ^ 24" using float_fraction_less [of b] by simp
    then have "decodeFloat_Int b = Some (float_sign b * int (unat ?m), int (float_exponent b) + MY_FMINEXP)"
      using z sg [of ?m] False float_exponent_field [of b] by (simp add: decodeFloat_Int_def Let_def)
    then show ?thesis
      using m float_fraction_less [of b] float_exponent_less [of b] False
      by (intro exI [of _ "unat ?m"] exI [of _ "int (float_exponent b) + MY_FMINEXP"])
        (simp add: float_value_def MY_FMINEXP_def)
  next
    case True
    then have p: "0 < unat ?h" "unat ?h < 2 ^ 24"
      using assms unat_float_fraction [of b] float_fraction_less [of b] by auto
    then obtain h k where r: "decodeFloat_loop ?h (MY_FMINEXP + 1) = Some (h, MY_FMINEXP + 1 - int k)"
        "unat h = unat ?h * 2 ^ k" "2 ^ 23 \<le> unat h" "unat h < 2 ^ 24"
      using decodeFloat_loop_normalises by metis
    have "decodeFloat_Int b = Some (float_sign b * int (unat h), MY_FMINEXP + 1 - int k)"
      using z sg [OF r(4)] True float_exponent_field [of b] r(1) by (simp add: decodeFloat_Int_def Let_def)
    moreover have "of_nat (unat h) * 2 powi (MY_FMINEXP + 1 - int k) = (of_nat (float_fraction b) * 2 powi (- 149) :: real)"
      using r(2) unat_float_fraction [of b] by (simp add: MY_FMINEXP_def power_int_diff power_int_minus)
    moreover have "k < 24" using r(2,4) few_shifts [of "unat ?h" k 24] p by simp
    ultimately show ?thesis using r(3,4) True
      by (intro exI [of _ "unat h"] exI [of _ "MY_FMINEXP + 1 - int k"]) (simp add: float_value_def MY_FMINEXP_def)
  qed
qed

lemma double_value_zero: "double_value b = 0 \<longleftrightarrow> double_exponent b = 0 \<and> double_fraction b = 0"
  by (auto simp: double_value_def double_sign_def add_nonneg_eq_0_iff)

lemma float_value_zero: "float_value b = 0 \<longleftrightarrow> float_exponent b = 0 \<and> float_fraction b = 0"
  by (auto simp: float_value_def float_sign_def add_nonneg_eq_0_iff)

lemma decodeDouble_zero:
  "double_exponent b = 0 \<and> double_fraction b = 0 \<Longrightarrow> decodeDouble_2Int b = Some (None, 0, 0, 0)"
  using zero_test [of b] by (simp add: decodeDouble_2Int_def Let_def)

lemma decodeFloat_zero: "float_exponent b = 0 \<and> float_fraction b = 0 \<Longrightarrow> decodeFloat_Int b = Some (0, 0)"
  using float_zero_test [of b] by (simp add: decodeFloat_Int_def Let_def)

section \<open>Decoding is exact, and encoding inverts it\<close>

text \<open>
  Claim C17.  \<open>decodeDouble_2Int\<close> and \<open>decodeFloat_Int\<close> return for every number, denormalised ones included, and
  are exact: zero has mantissa and exponent zero, and any other number is its mantissa times two to the
  exponent, with the mantissa normalised to 53 and 24 bits.  (The patterns of infinities and NaNs are decoded
  as if their exponent were an ordinary one.)\<close>

theorem decode_exact:
  "(case decodeDouble_2Int d of
      None \<Rightarrow> False
    | Some (sign, high, low, e) \<Rightarrow>
        if double_value d = 0 then high = 0 \<and> low = 0 \<and> e = 0
        else sign = Some (double_sign d) \<and> 2 ^ 52 \<le> wide high low \<and> wide high low < 2 ^ 53 \<and>
          double_value d = of_int (double_sign d) * of_nat (wide high low) * 2 powi e) \<and>
   (case decodeFloat_Int f of
      None \<Rightarrow> False
    | Some (man, e) \<Rightarrow>
        if float_value f = 0 then man = 0 \<and> e = 0
        else 2 ^ 23 \<le> \<bar>man\<bar> \<and> \<bar>man\<bar> < 2 ^ 24 \<and> float_value f = of_int man * 2 powi e)"
proof (rule conjI)
  show "case decodeDouble_2Int d of
      None \<Rightarrow> False
    | Some (sign, high, low, e) \<Rightarrow>
        if double_value d = 0 then high = 0 \<and> low = 0 \<and> e = 0
        else sign = Some (double_sign d) \<and> 2 ^ 52 \<le> wide high low \<and> wide high low < 2 ^ 53 \<and>
          double_value d = of_int (double_sign d) * of_nat (wide high low) * 2 powi e"
  proof (cases "double_exponent d = 0 \<and> double_fraction d = 0")
    case True
    then show ?thesis using decodeDouble_zero double_value_zero by simp
  next
    case False
    then have "double_value d \<noteq> 0" by (simp add: double_value_zero)
    then show ?thesis using decodeDouble_nonzero [of d] False by auto
  qed
  show "case decodeFloat_Int f of
      None \<Rightarrow> False
    | Some (man, e) \<Rightarrow>
        if float_value f = 0 then man = 0 \<and> e = 0
        else 2 ^ 23 \<le> \<bar>man\<bar> \<and> \<bar>man\<bar> < 2 ^ 24 \<and> float_value f = of_int man * 2 powi e"
  proof (cases "float_exponent f = 0 \<and> float_fraction f = 0")
    case True
    then show ?thesis using decodeFloat_zero float_value_zero by simp
  next
    case False
    then have "float_value f \<noteq> 0" by (simp add: float_value_zero)
    moreover have "\<bar>float_sign f\<bar> = 1" by (simp add: float_sign_def)
    ultimately show ?thesis using decodeFloat_nonzero [of f] False by (auto simp: abs_mult)
  qed
qed

text \<open>Rounding leaves the finite numbers of the format alone, by IEEE 754.\<close>

definition double_exact :: "(real \<Rightarrow> real) \<Rightarrow> bool" where
  "double_exact dbl = (\<forall>(m :: nat) e. m < 2 ^ 53 \<and> - 1074 \<le> e \<and> e \<le> 971 \<longrightarrow> dbl (of_nat m * 2 powi e) = of_nat m * 2 powi e)"

definition float_exact :: "(real \<Rightarrow> real) \<Rightarrow> bool" where
  "float_exact flt = (\<forall>(m :: nat) e. m < 2 ^ 24 \<and> - 149 \<le> e \<and> e \<le> 104 \<longrightarrow> flt (of_nat m * 2 powi e) = of_nat m * 2 powi e)"

lemma double_exact_nat: "double_exact dbl \<Longrightarrow> m < 2 ^ 53 \<Longrightarrow> dbl (of_nat m) = of_nat m"
  unfolding double_exact_def by (drule spec [of _ m], drule spec [of _ 0]) simp

lemma float_exact_nat: "float_exact flt \<Longrightarrow> m < 2 ^ 24 \<Longrightarrow> flt (of_nat m) = of_nat m"
  unfolding float_exact_def by (drule spec [of _ m], drule spec [of _ 0]) simp

lemma double_exact_value:
  assumes "double_exact dbl" "double_exponent b < 2047"
  shows "dbl \<bar>double_value b\<bar> = \<bar>double_value b\<bar>"
proof -
  obtain m e where "m < 2 ^ 53" "- 1074 \<le> e" "e \<le> 971" "\<bar>double_value b\<bar> = of_nat m * 2 powi e"
  proof (cases "double_exponent b = 0")
    case True
    then show ?thesis using that [of "double_fraction b" "- 1074"] double_fraction_less [of b]
      by (simp add: double_value_def abs_mult double_sign_def)
  next
    case False
    then show ?thesis
      using that [of "2 ^ 52 + double_fraction b" "int (double_exponent b) - 1075"] double_fraction_less [of b] assms(2)
      by (simp add: double_value_def abs_mult double_sign_def)
  qed
  then show ?thesis using assms(1) by (simp add: double_exact_def)
qed

lemma float_value_form:
  assumes "float_exponent b < 255"
  obtains m e where "m < 2 ^ 24" "- 149 \<le> e" "e \<le> 104" "\<bar>float_value b\<bar> = of_nat m * 2 powi e"
proof (cases "float_exponent b = 0")
  case True
  then show ?thesis using that [of "float_fraction b" "- 149"] float_fraction_less [of b]
    by (simp add: float_value_def abs_mult float_sign_def)
next
  case False
  then show ?thesis
    using that [of "2 ^ 23 + float_fraction b" "int (float_exponent b) - 150"] float_fraction_less [of b] assms
    by (simp add: float_value_def abs_mult float_sign_def)
qed

lemma float_exact_value:
  assumes "float_exact flt" "double_exact dbl" "float_exponent b < 255"
  shows "flt \<bar>float_value b\<bar> = \<bar>float_value b\<bar>" "dbl \<bar>float_value b\<bar> = \<bar>float_value b\<bar>"
proof -
  obtain m e where "m < 2 ^ 24" "- 149 \<le> e" "e \<le> 104" "\<bar>float_value b\<bar> = of_nat m * 2 powi e"
    using float_value_form [OF assms(3)] .
  then show "flt \<bar>float_value b\<bar> = \<bar>float_value b\<bar>" "dbl \<bar>float_value b\<bar> = \<bar>float_value b\<bar>"
    using assms(1,2) by (simp_all add: double_exact_def float_exact_def)
qed

lemma sint_word_of_int: "- (2 ^ 63) \<le> i \<Longrightarrow> i < 2 ^ 63 \<Longrightarrow> sint (word_of_int i :: StgWord) = i"
  by (simp add: sint_sbintrunc' signed_take_bit_int_eq_self)

lemma sint_int_abs: "\<bar>i\<bar> < 2 ^ 63 \<Longrightarrow> sint (int_abs (word_of_int i)) = \<bar>i\<bar>"
proof -
  assume i: "\<bar>i\<bar> < 2 ^ 63"
  have n: "- (word_of_int i :: StgWord) = word_of_int (- i)" by (rule wi_hom_neg)
  have "sint (word_of_int i :: StgWord) = i" "sint (word_of_int (- i) :: StgWord) = - i"
    using i by (intro sint_word_of_int; simp)+
  then show ?thesis unfolding int_abs_def n by simp
qed

lemma as_int_word_of_int: "- 1200 < e \<Longrightarrow> e < 1200 \<Longrightarrow> as_int (word_of_int e) = e"
proof -
  assume e: "- 1200 < e" "e < 1200"
  have "ucast (word_of_int e :: StgWord) = (word_of_int e :: StgWord32)"
    by (rule bit_word_eqI) (simp add: bit_simps)
  then show ?thesis using e by (simp add: as_int_def sint_sbintrunc' signed_take_bit_int_eq_self)
qed

lemma unat_word_of_nat: "m < 2 ^ 64 \<Longrightarrow> unat (word_of_nat m :: StgWord) = m"
  by (subst unsigned_of_nat) (simp add: take_bit_nat_eq_self)

lemma int_encodeDouble_scales:
  assumes "double_exact dbl" "0 < m" "m < 2 ^ 53" "s = 1 \<or> s = - 1" "- 1200 < e" "e < 1200"
    and "dbl (of_nat m * 2 powi e) = of_nat m * 2 powi e"
  shows "int_encodeDouble dbl (word_of_int (s * int m)) (word_of_int e) = of_int s * of_nat m * 2 powi e"
    and "word_encodeDouble dbl (word_of_nat m) (word_of_int e) = of_nat m * 2 powi e"
proof -
  have j: "sint (word_of_int (s * int m) :: StgWord) = s * int m"
    "sint (int_abs (word_of_int (s * int m))) = int m" "as_int (word_of_int e) = e"
    using assms(3-6) sint_word_of_int [of "s * int m"] sint_int_abs [of "s * int m"] as_int_word_of_int [OF assms(5,6)] by auto
  then show "int_encodeDouble dbl (word_of_int (s * int m)) (word_of_int e) = of_int s * of_nat m * 2 powi e"
    using assms(2,4,7) double_exact_nat [OF assms(1,3)] by (auto simp: int_encodeDouble_def Let_def)
  show "word_encodeDouble dbl (word_of_nat m) (word_of_int e) = of_nat m * 2 powi e"
    using assms(2,3,7) double_exact_nat [OF assms(1,3)] j(3) unat_word_of_nat [of m]
    by (auto simp: word_encodeDouble_def Let_def)
qed

lemma int_encodeFloat_scales:
  assumes "float_exact flt" "0 < m" "m < 2 ^ 24" "s = 1 \<or> s = - 1" "- 1200 < e" "e < 1200"
    and "dbl (of_nat m * 2 powi e) = of_nat m * 2 powi e" "flt (of_nat m * 2 powi e) = of_nat m * 2 powi e"
  shows "int_encodeFloat dbl flt (word_of_int (s * int m)) (word_of_int e) = of_int s * of_nat m * 2 powi e"
    and "word_encodeFloat dbl flt (word_of_nat m) (word_of_int e) = of_nat m * 2 powi e"
proof -
  have j: "sint (word_of_int (s * int m) :: StgWord) = s * int m"
    "sint (int_abs (word_of_int (s * int m))) = int m" "as_int (word_of_int e) = e"
    using assms(3-6) sint_word_of_int [of "s * int m"] sint_int_abs [of "s * int m"] as_int_word_of_int [OF assms(5,6)] by auto
  then show "int_encodeFloat dbl flt (word_of_int (s * int m)) (word_of_int e) = of_int s * of_nat m * 2 powi e"
    using assms(2,4,7,8) float_exact_nat [OF assms(1,3)] by (auto simp: int_encodeFloat_def Let_def)
  show "word_encodeFloat dbl flt (word_of_nat m) (word_of_int e) = of_nat m * 2 powi e"
    using assms(2,3,7,8) float_exact_nat [OF assms(1,3)] j(3) unat_word_of_nat [of m]
    by (auto simp: word_encodeFloat_def Let_def)
qed

lemma encodeDouble_2Int_scales:
  assumes "double_exact dbl" "0 < wide high low" "wide high low < 2 ^ 53" "- 1200 < e" "e < 1200"
    and "dbl (of_nat (wide high low) * 2 powi e) = of_nat (wide high low) * 2 powi e"
  shows "encodeDouble_2Int dbl (ucast high) (ucast low) (word_of_int e) = of_nat (wide high low) * 2 powi e"
proof -
  have l: "unat low < 2 ^ 32" and h: "unat high < 2 ^ 21"
    using unsigned_less [of low] assms(3) by (simp_all add: wide_def)
  have u: "(ucast (ucast high :: StgWord) :: StgWord32) = high" "(ucast (ucast low :: StgWord) :: StgWord32) = low"
    by (rule bit_word_eqI; simp add: bit_simps)+
  have ex: "dbl (of_nat n) = of_nat n" if "n < 2 ^ 53" for n using double_exact_nat [OF assms(1) that] .
  have d: "dbl (of_nat (unat high)) = of_nat (unat high)" "dbl (of_nat (unat low)) = of_nat (unat low)"
    "dbl (of_nat (unat high * 2 ^ 32)) = of_nat (unat high * 2 ^ 32)" "dbl (of_nat (wide high low)) = of_nat (wide high low)"
    subgoal by (rule ex) (use h in simp)
    subgoal by (rule ex) (use l in simp)
    subgoal by (rule ex) (use h in simp)
    subgoal by (rule ex [OF assms(3)])
    done
  have r: "dbl (dbl (dbl (of_nat (unat high)) * 4294967296) + dbl (of_nat (unat low))) = of_nat (wide high low)"
    using d by (simp add: wide_def)
  have s: "\<not> sint (ucast high :: StgWord) < 0"
    using bit_imp_le_length [of high 63]
    by (auto simp: sint_uint signed_take_bit_negative_iff bit_uint_iff bit_simps)
  show ?thesis
    using r s assms(2,4-6) as_int_word_of_int [of e] by (simp add: encodeDouble_2Int_def Let_def u)
qed

lemma encode_zero:
  assumes "double_exact dbl" "float_exact flt"
  shows "int_encodeDouble dbl 0 e = 0" "word_encodeDouble dbl 0 e = 0" "encodeDouble_2Int dbl 0 0 e = 0"
    "int_encodeFloat dbl flt 0 e = 0" "word_encodeFloat dbl flt 0 e = 0"
  using double_exact_nat [OF assms(1), of 0] float_exact_nat [OF assms(2), of 0]
  by (simp_all add: int_encodeDouble_def word_encodeDouble_def encodeDouble_2Int_def int_encodeFloat_def
      word_encodeFloat_def int_abs_def Let_def)

lemma double_round_trip:
  assumes "double_exact dbl" "float_exact flt" "double_exponent d < 2047"
  shows "\<exists>sign high low e. decodeDouble_2Int d = Some (sign, high, low, e) \<and>
    int_encodeDouble dbl (word_of_int ((case sign of None \<Rightarrow> 1 | Some s \<Rightarrow> s) * int (wide high low))) (word_of_int e) = double_value d \<and>
    word_encodeDouble dbl (word_of_nat (wide high low)) (word_of_int e) = \<bar>double_value d\<bar> \<and>
    encodeDouble_2Int dbl (ucast high) (ucast low) (word_of_int e) = \<bar>double_value d\<bar>"
proof (cases "double_exponent d = 0 \<and> double_fraction d = 0")
  case True
  then show ?thesis
    using decodeDouble_zero [OF True] double_value_zero [of d] encode_zero [OF assms(1,2)] by (simp add: wide_def)
next
  case False
  then obtain h l e where r: "decodeDouble_2Int d = Some (Some (double_sign d), h, l, e)" "2 ^ 52 \<le> wide h l"
      "wide h l < 2 ^ 53" "- 1200 < e" "e < 1200" "double_value d = of_int (double_sign d) * of_nat (wide h l) * 2 powi e"
    using decodeDouble_nonzero [of d] by auto
  have v: "\<bar>double_value d\<bar> = of_nat (wide h l) * 2 powi e" using r(6) by (simp add: abs_mult double_sign_def)
  have p: "0 < wide h l" using r(2) by simp
  have x: "dbl (of_nat (wide h l) * 2 powi e) = of_nat (wide h l) * 2 powi e"
    using double_exact_value [OF assms(1,3)] v by simp
  have sg: "double_sign d = 1 \<or> double_sign d = - 1" by (simp add: double_sign_def)
  show ?thesis
    using r(1,6) v int_encodeDouble_scales [OF assms(1) p r(3) sg r(4,5) x] encodeDouble_2Int_scales [OF assms(1) p r(3-5) x]
    by simp
qed

lemma float_round_trip:
  assumes "double_exact dbl" "float_exact flt" "float_exponent f < 255"
  shows "\<exists>man ef. decodeFloat_Int f = Some (man, ef) \<and>
    int_encodeFloat dbl flt (word_of_int man) (word_of_int ef) = float_value f \<and>
    word_encodeFloat dbl flt (word_of_nat (nat \<bar>man\<bar>)) (word_of_int ef) = \<bar>float_value f\<bar>"
proof (cases "float_exponent f = 0 \<and> float_fraction f = 0")
  case True
  then show ?thesis
    using decodeFloat_zero [OF True] float_value_zero [of f] encode_zero [OF assms(1,2)] by simp
next
  case False
  then obtain m e where r: "decodeFloat_Int f = Some (float_sign f * int m, e)" "2 ^ 23 \<le> m"
      "m < 2 ^ 24" "- 1200 < e" "e < 1200" "float_value f = of_int (float_sign f) * of_nat m * 2 powi e"
    using decodeFloat_nonzero [of f] by auto
  have v: "\<bar>float_value f\<bar> = of_nat m * 2 powi e" using r(6) by (simp add: abs_mult float_sign_def)
  have p: "0 < m" using r(2) by simp
  have x: "dbl (of_nat m * 2 powi e) = of_nat m * 2 powi e" "flt (of_nat m * 2 powi e) = of_nat m * 2 powi e"
    using float_exact_value [OF assms(2,1,3)] v by simp_all
  have sg: "float_sign f = 1 \<or> float_sign f = - 1" by (simp add: float_sign_def)
  then have n: "nat \<bar>float_sign f * int m\<bar> = m" by auto
  note sc = int_encodeFloat_scales [where dbl = dbl, OF assms(2) p r(3) sg r(4,5) x]
  have "word_encodeFloat dbl flt (word_of_nat (nat \<bar>float_sign f * int m\<bar>)) (word_of_int e) = \<bar>float_value f\<bar>"
    unfolding n v by (rule sc(2))
  moreover have "int_encodeFloat dbl flt (word_of_int (float_sign f * int m)) (word_of_int e) = float_value f"
    unfolding r(6) by (rule sc(1))
  ultimately show ?thesis using r(1) by blast
qed

text \<open>
  Claim C36.  Every finite number survives decoding and encoding, whichever of the encoding functions is used: with
  signed mantissas the number itself comes back, with unsigned ones its absolute value.  Of the
  rounding of the machine only is assumed that it leaves numbers of the format alone.\<close>

theorem encode_inverts_decode:
  assumes "double_exact dbl" "float_exact flt" "double_exponent d < 2047" "float_exponent f < 255"
  shows "\<exists>sign high low e man ef.
    decodeDouble_2Int d = Some (sign, high, low, e) \<and>
    int_encodeDouble dbl (word_of_int ((case sign of None \<Rightarrow> 1 | Some s \<Rightarrow> s) * int (wide high low))) (word_of_int e) = double_value d \<and>
    word_encodeDouble dbl (word_of_nat (wide high low)) (word_of_int e) = \<bar>double_value d\<bar> \<and>
    encodeDouble_2Int dbl (ucast high) (ucast low) (word_of_int e) = \<bar>double_value d\<bar> \<and>
    decodeFloat_Int f = Some (man, ef) \<and>
    int_encodeFloat dbl flt (word_of_int man) (word_of_int ef) = float_value f \<and>
    word_encodeFloat dbl flt (word_of_nat (nat \<bar>man\<bar>)) (word_of_int ef) = \<bar>float_value f\<bar>"
proof -
  have D: "\<exists>sign high low e. decodeDouble_2Int d = Some (sign, high, low, e) \<and>
    int_encodeDouble dbl (word_of_int ((case sign of None \<Rightarrow> 1 | Some s \<Rightarrow> s) * int (wide high low))) (word_of_int e) = double_value d \<and>
    word_encodeDouble dbl (word_of_nat (wide high low)) (word_of_int e) = \<bar>double_value d\<bar> \<and>
    encodeDouble_2Int dbl (ucast high) (ucast low) (word_of_int e) = \<bar>double_value d\<bar>"
    using double_round_trip [OF assms(1,2,3)] .
  have F: "\<exists>man ef. decodeFloat_Int f = Some (man, ef) \<and>
    int_encodeFloat dbl flt (word_of_int man) (word_of_int ef) = float_value f \<and>
    word_encodeFloat dbl flt (word_of_nat (nat \<bar>man\<bar>)) (word_of_int ef) = \<bar>float_value f\<bar>"
    using float_round_trip [OF assms(1,2,4)] .
  show ?thesis using D F by blast
qed

theorem encode_inverts_decode_witness:
  "\<exists>sign high low e man ef.
    decodeDouble_2Int 0x8000000000000003 = Some (sign, high, low, e) \<and>
    int_encodeDouble (\<lambda>x. x) (word_of_int ((case sign of None \<Rightarrow> 1 | Some s \<Rightarrow> s) * int (wide high low))) (word_of_int e) =
      double_value 0x8000000000000003 \<and>
    decodeFloat_Int 0x3f800000 = Some (man, ef) \<and>
    int_encodeFloat (\<lambda>x. x) (\<lambda>x. x) (word_of_int man) (word_of_int ef) = float_value 0x3f800000"
proof -
  have "double_exact (\<lambda>x. x)" "float_exact (\<lambda>x. x)" by (simp_all add: double_exact_def float_exact_def)
  moreover have "double_exponent 0x8000000000000003 < 2047" "float_exponent 0x3f800000 < 255"
    by (simp_all add: double_exponent_def float_exponent_def)
  ultimately show ?thesis using encode_inverts_decode by metis
qed

end
