(* ===== verification/CostCentres.thy ===== *)
theory CostCentres
  imports Prelude "HOL-Library.Monad_Syntax"
begin

text \<open>
  Cost-centre stacks of the profiler, \<open>rts/Profiling.c\<close>, \<open>includes/rts/prof/CCS.h\<close>, and the selectors of
  \<open>rts/ProfHeap.c\<close>.

  Stacks share their tails: a stack is a node with its topmost cost centre and the node of the rest, and
  every node has a table that remembers the results of pushing onto it.  Nodes are in a store; a
  table only ever grows at its front, so it is a list, and two tables of one node are the same
  pointer exactly when they are the same list.  The arena gives fresh addresses.  Reading through a null
  pointer and failing assertions are \<open>None\<close>.

  The main theorem is that nodes represent lists of distinct cost centres, one node for each list, and that
  \<open>pushCostCentre\<close>, \<open>appendCCS\<close> and \<open>enterFunCCS\<close> compute a function of these lists.  It is about operations that
  run one after the other: the window between the lookup of \<open>pushCostCentre\<close> and its lock is the subject
  of \<open>push_race_duplicates\<close>.
\<close>

section \<open>Selectors\<close>

text \<open>The comparison of a name with the selector, up to the first difference.\<close>

fun match_loop :: "string \<Rightarrow> string \<Rightarrow> string \<times> string" where
  "match_loop (c # p) (d # sel) =
     (if d \<noteq> CHR '','' \<and> c = d then match_loop p sel else (c # p, d # sel))"
| "match_loop p sel = (p, sel)"

lemma match_loop_length: "length (snd (match_loop p sel)) \<le> length sel"
  by (induction p sel rule: match_loop.induct) auto

definition skip_fragment :: "string \<Rightarrow> string" where
  "skip_fragment sel =
     (let sel = dropWhile (\<lambda>c. c \<noteq> CHR '','') sel in if sel \<noteq> [] then tl sel else sel)"

lemma skip_fragment_length: "skip_fragment sel \<noteq> [] \<Longrightarrow> length (skip_fragment sel) < length sel"
  using length_dropWhile_le [of "\<lambda>c. c \<noteq> CHR '',''" sel]
  by (cases "dropWhile (\<lambda>c. c \<noteq> CHR '','') sel") (auto simp: skip_fragment_def)

function strMatchesSelector :: "string \<Rightarrow> string \<Rightarrow> bool" where
  "strMatchesSelector str sel =
     (let (p, sel) = match_loop str sel
      in if p = [] \<and> (sel = [] \<or> hd sel = CHR '','') then True
         else let sel = skip_fragment sel
              in if sel = [] then False else strMatchesSelector str sel)"
  by pat_completeness auto
termination
proof (relation "measure (\<lambda>(str, sel). length sel)", simp)
  fix str sel x xa xb xc
  assume "x = match_loop str sel" "(xa, xb) = x" "xc = skip_fragment xb" "xc \<noteq> []"
  then show "((str, xc), str, sel) \<in> measure (\<lambda>(str, sel). length sel)"
    using skip_fragment_length [of xb] match_loop_length [of str sel] by (metis in_measure case_prod_conv le_less_trans less_le_trans snd_conv)
qed

declare strMatchesSelector.simps [simp del]

text \<open>The names of a selector.\<close>

function selector_names :: "string \<Rightarrow> string list" where
  "selector_names sel =
     takeWhile (\<lambda>c. c \<noteq> CHR '','') sel # (if skip_fragment sel = [] then [] else selector_names (skip_fragment sel))"
  by pat_completeness auto
termination
  by (relation "measure length") (auto simp: skip_fragment_length)

declare selector_names.simps [simp del]

text \<open>A fragment of a selector, without the loop: between two ends, each the end of the string or a comma.\<close>

definition fragment :: "string \<Rightarrow> string \<Rightarrow> bool" where
  "fragment str sel = (CHR '','' \<notin> set str \<and> (\<exists>pre post. sel = pre @ str @ post \<and>
     (pre = [] \<or> last pre = CHR '','') \<and> (post = [] \<or> hd post = CHR '','') \<and>
     \<not> (str = [] \<and> post = [] \<and> pre \<noteq> [])))"

lemma fragment_no_comma: "CHR '','' \<notin> set sel \<Longrightarrow> fragment str sel \<longleftrightarrow> str = sel"
  unfolding fragment_def by (metis Un_iff append.right_neutral append_Nil hd_in_set last_in_set set_append)

lemma fragment_first:
  assumes "CHR '','' \<notin> set a" "CHR '','' \<notin> set str" "a @ CHR '','' # r = str @ post" "post = [] \<or> hd post = CHR '',''"
  shows "str = a"
proof -
  have "takeWhile (\<lambda>c. c \<noteq> CHR '','') (a @ CHR '','' # r) = a"
    using assms(1) by (subst takeWhile_append2) auto
  moreover have "takeWhile (\<lambda>c. c \<noteq> CHR '','') (str @ post) = str"
    using assms(2,4) by (subst takeWhile_append2) (auto simp: takeWhile_eq_Nil_iff)
  ultimately show ?thesis using assms(3) by simp
qed

lemma fragment_later:
  assumes "CHR '','' \<notin> set a" "a @ CHR '','' # r = pre @ rest" "pre \<noteq> []" "last pre = CHR '',''"
  obtains pre' where "pre = a @ CHR '','' # pre'" "r = pre' @ rest" "pre' = [] \<or> last pre' = CHR '',''"
proof -
  obtain us where "a = pre @ us \<and> us @ CHR '','' # r = rest \<or> a @ us = pre \<and> CHR '','' # r = us @ rest"
    using assms(2) by (auto simp: append_eq_append_conv2)
  then have "a @ us = pre" "CHR '','' # r = us @ rest" "us \<noteq> []"
    using assms by (metis UnI1 last_in_set set_append, metis UnI1 last_in_set set_append,
        metis UnI1 append.right_neutral last_in_set set_append)
  then obtain pre' where "us = CHR '','' # pre'" "r = pre' @ rest" by (cases us) auto
  then show thesis using that [of pre'] assms(4) \<open>a @ us = pre\<close> by (auto split: if_splits)
qed

lemma fragment_comma:
  assumes "CHR '','' \<notin> set a"
  shows "fragment str (a @ CHR '','' # r) \<longleftrightarrow> str = a \<or> r \<noteq> [] \<and> fragment str r"
proof
  assume "fragment str (a @ CHR '','' # r)"
  then obtain pre post where f: "CHR '','' \<notin> set str" "a @ CHR '','' # r = pre @ str @ post"
    "pre = [] \<or> last pre = CHR '',''" "post = [] \<or> hd post = CHR '',''" "\<not> (str = [] \<and> post = [] \<and> pre \<noteq> [])"
    unfolding fragment_def by blast
  show "str = a \<or> r \<noteq> [] \<and> fragment str r"
  proof (cases "pre = []")
    case True
    then show ?thesis using fragment_first [OF assms f(1), of r post] f by simp
  next
    case False
    then obtain pre' where "r = pre' @ str @ post" "pre' = [] \<or> last pre' = CHR '',''"
      using fragment_later [OF assms f(2)] f(3) by metis
    then show ?thesis using f False unfolding fragment_def by blast
  qed
next
  assume "str = a \<or> r \<noteq> [] \<and> fragment str r"
  then show "fragment str (a @ CHR '','' # r)"
  proof
    assume "str = a"
    then show ?thesis using assms unfolding fragment_def by (intro conjI exI [of _ "[]"] exI [of _ "CHR '','' # r"]) auto
  next
    assume r: "r \<noteq> [] \<and> fragment str r"
    then obtain pre post where f: "CHR '','' \<notin> set str" "r = pre @ str @ post"
      "pre = [] \<or> last pre = CHR '',''" "post = [] \<or> hd post = CHR '',''" "\<not> (str = [] \<and> post = [] \<and> pre \<noteq> [])"
      unfolding fragment_def by blast
    then show ?thesis unfolding fragment_def
      using r by (intro conjI exI [of _ "a @ CHR '','' # pre"] exI [of _ post]) auto
  qed
qed

lemma selector_names_fragment: "str \<in> set (selector_names sel) \<longleftrightarrow> fragment str sel"
proof (induction sel rule: selector_names.induct)
  case (1 sel)
  show ?case
  proof (cases "CHR '','' \<in> set sel")
    case True
    then obtain a r where a: "sel = a @ CHR '','' # r" "CHR '','' \<notin> set a" by (meson split_list_first)
    then have "takeWhile (\<lambda>c. c \<noteq> CHR '','') sel = a" "skip_fragment sel = r"
      by (auto simp: skip_fragment_def takeWhile_tail takeWhile_append dropWhile_append)
    then show ?thesis using 1 a fragment_comma by (subst selector_names.simps) auto
  next
    case False
    then have "takeWhile (\<lambda>c. c \<noteq> CHR '','') sel = sel" "skip_fragment sel = []"
      by (auto simp: skip_fragment_def dropWhile_eq_Nil_conv)
    then show ?thesis using fragment_no_comma [OF False] by (subst selector_names.simps) (simp del: takeWhile_eq_all_conv)
  qed
qed

lemma match_loop_hit:
  "(case match_loop str sel of (p, sel') \<Rightarrow> p = [] \<and> (sel' = [] \<or> hd sel' = CHR '','')) \<longleftrightarrow>
   str = takeWhile (\<lambda>c. c \<noteq> CHR '','') sel"
proof (induction str arbitrary: sel)
  case Nil
  then show ?case by (cases sel) auto
next
  case (Cons c str)
  then show ?case by (cases sel) auto
qed

lemma match_loop_skip: "skip_fragment (snd (match_loop str sel)) = skip_fragment sel"
  by (induction str sel rule: match_loop.induct) (auto simp: skip_fragment_def)

lemma strMatchesSelector_names: "strMatchesSelector str sel = (str \<in> set (selector_names sel))"
proof (induction sel rule: selector_names.induct)
  case (1 sel)
  obtain p sel' where m: "match_loop str sel = (p, sel')" by (cases "match_loop str sel")
  have h: "p = [] \<and> (sel' = [] \<or> hd sel' = CHR '','') \<longleftrightarrow> str = takeWhile (\<lambda>c. c \<noteq> CHR '','') sel"
    using match_loop_hit [of str sel] m by simp
  have "skip_fragment sel' = skip_fragment sel" using match_loop_skip [of str sel] m by simp
  then show ?case
    using 1 by (subst strMatchesSelector.simps, subst selector_names.simps) (auto simp: m h Let_def)
qed

section \<open>Cost centres and stacks\<close>

record CostCentre =
  ccID :: StgWord
  cc_label :: string
  cc_module :: string
  cc_srcloc :: string
  cc_mem_alloc :: StgWord
  cc_time_ticks :: StgWord
  is_caf :: bool
  cc_link :: addr

record IndexTable =
  it_cc :: addr
  it_ccs :: addr
  back_edge :: bool

record CostCentreStack =
  ccsID :: StgWord32
  ccs_cc :: addr
  prevStack :: addr
  indexTable :: "IndexTable list"
  ccs_root :: addr
  depth :: StgWord
  scc_count :: StgWord
  selected :: bool
  time_ticks :: StgWord
  mem_alloc :: StgWord
  inherited_alloc :: StgWord
  inherited_ticks :: StgWord

record prof_state =
  ccs_at :: "addr \<Rightarrow> CostCentreStack"
  cc_at :: "addr \<Rightarrow> CostCentre"
  ccs_fresh :: addr
  CCS_ID :: StgWord32
  modSelector :: "string option"
  ccSelector :: "string option"
  ccsSelector :: "string option"
  rCCCS :: addr

text \<open>Addresses of the static stacks.\<close>

definition CCS_MAIN :: addr where "CCS_MAIN = 1"
definition CCS_OVERHEAD :: addr where "CCS_OVERHEAD = 2"

definition rd :: "prof_state \<Rightarrow> addr \<Rightarrow> CostCentreStack option" where
  "rd s c = (if c = NULL then None else Some (ccs_at s c))"

definition upd_ccs :: "addr \<Rightarrow> (CostCentreStack \<Rightarrow> CostCentreStack) \<Rightarrow> prof_state \<Rightarrow> prof_state" where
  "upd_ccs c f s = s\<lparr>ccs_at := (ccs_at s)(c := f (ccs_at s c))\<rparr>"

text \<open>The loop of \<open>ccsSetSelected\<close>: some cost centre of the stack matches.\<close>

partial_function (option) stack_matches :: "prof_state \<Rightarrow> string \<Rightarrow> addr \<Rightarrow> bool option" where
  "stack_matches s sel c =
     (if c = NULL then Some False
      else if strMatchesSelector (cc_label (cc_at s (ccs_cc (ccs_at s c)))) sel then Some True
      else stack_matches s sel (prevStack (ccs_at s c)))"

declare stack_matches.simps [code]

definition ccsSetSelected :: "addr \<Rightarrow> prof_state \<Rightarrow> prof_state option" where
  "ccsSetSelected ccs s =
     (let cc = cc_at s (ccs_cc (ccs_at s ccs));
          set = (\<lambda>b. upd_ccs ccs (\<lambda>c. c\<lparr>selected := b\<rparr>) s)
      in if (case modSelector s of None \<Rightarrow> False | Some sel \<Rightarrow> \<not> strMatchesSelector (cc_module cc) sel) then Some (set False)
         else if (case ccSelector s of None \<Rightarrow> False | Some sel \<Rightarrow> \<not> strMatchesSelector (cc_label cc) sel) then Some (set False)
         else case ccsSelector s of
           None \<Rightarrow> Some (set True)
         | Some sel \<Rightarrow> do { b \<leftarrow> stack_matches s sel ccs; Some (set b) })"

definition addToIndexTable :: "IndexTable list \<Rightarrow> addr \<Rightarrow> addr \<Rightarrow> bool \<Rightarrow> IndexTable list" where
  "addToIndexTable it new_ccs cc b = \<lparr>it_cc = cc, it_ccs = new_ccs, back_edge = b\<rparr> # it"

fun isInIndexTable :: "IndexTable list \<Rightarrow> addr \<Rightarrow> addr" where
  "isInIndexTable [] cc = NULL"
| "isInIndexTable (e # it) cc = (if it_cc e = cc then it_ccs e else isInIndexTable it cc)"

partial_function (option) checkLoop :: "prof_state \<Rightarrow> addr \<Rightarrow> addr \<Rightarrow> addr option" where
  "checkLoop s ccs cc =
     (if ccs = NULL then Some NULL
      else if ccs_cc (ccs_at s ccs) = cc then Some ccs
      else checkLoop s (prevStack (ccs_at s ccs)) cc)"

declare checkLoop.simps [code]

definition actualPush_into :: "addr \<Rightarrow> addr \<Rightarrow> addr \<Rightarrow> prof_state \<Rightarrow> (addr \<times> prof_state) option" where
  "actualPush_into ccs cc new_ccs s = do {
     p \<leftarrow> rd s ccs;
     let s = (upd_ccs new_ccs (\<lambda>c. c\<lparr>ccsID := CCS_ID s, ccs_cc := cc, prevStack := ccs, ccs_root := ccs_root p,
         depth := depth p + 1, indexTable := [], scc_count := 0, time_ticks := 0, mem_alloc := 0,
         inherited_ticks := 0, inherited_alloc := 0\<rparr>) s)\<lparr>CCS_ID := CCS_ID s + 1\<rparr>;
     s \<leftarrow> ccsSetSelected new_ccs s;
     Some (new_ccs, upd_ccs ccs (\<lambda>c. c\<lparr>indexTable := addToIndexTable (indexTable c) new_ccs cc False\<rparr>) s)
   }"

definition actualPush :: "addr \<Rightarrow> addr \<Rightarrow> prof_state \<Rightarrow> (addr \<times> prof_state) option" where
  "actualPush ccs cc s = actualPush_into ccs cc (ccs_fresh s) (s\<lparr>ccs_fresh := ccs_fresh s + 1\<rparr>)"

text \<open>
  \<open>pushCostCentre\<close> in two steps: what it does before it takes the lock, and what it does under the lock with
  the table \<open>ixtable\<close> it saw before.  When the table has changed in the meantime the code looks at the table
  it saw before once more, not at the new one.
\<close>

definition push_unlocked :: "addr \<Rightarrow> addr \<Rightarrow> prof_state \<Rightarrow> addr option" where
  "push_unlocked ccs cc s =
     (if ccs_cc (ccs_at s ccs) = cc then Some ccs
      else let t = isInIndexTable (indexTable (ccs_at s ccs)) cc in if t \<noteq> NULL then Some t else None)"

definition push_locked :: "addr \<Rightarrow> addr \<Rightarrow> IndexTable list \<Rightarrow> prof_state \<Rightarrow> (addr \<times> prof_state) option" where
  "push_locked ccs cc ixtable s =
     (let t = isInIndexTable ixtable cc
      in if indexTable (ccs_at s ccs) \<noteq> ixtable \<and> t \<noteq> NULL then Some (t, s)
         else do {
           t \<leftarrow> checkLoop s ccs cc;
           if t \<noteq> NULL
           then Some (t, upd_ccs ccs (\<lambda>c. c\<lparr>indexTable := addToIndexTable (indexTable c) t cc True\<rparr>) s)
           else actualPush ccs cc s
         })"

definition pushCostCentre :: "addr \<Rightarrow> addr \<Rightarrow> prof_state \<Rightarrow> (addr \<times> prof_state) option" where
  "pushCostCentre ccs cc s =
     (if ccs = NULL then actualPush ccs cc s
      else case push_unlocked ccs cc s of
        Some t \<Rightarrow> Some (t, s)
      | None \<Rightarrow> push_locked ccs cc (indexTable (ccs_at s ccs)) s)"

partial_function (option) appendCCS :: "addr \<Rightarrow> addr \<Rightarrow> prof_state \<Rightarrow> (addr \<times> prof_state) option" where
  "appendCCS ccs1 ccs2 s =
     (if ccs1 = ccs2 then Some (ccs1, s)
      else do {
        c2 \<leftarrow> rd s ccs2;
        if ccs2 = CCS_MAIN \<or> is_caf (cc_at s (ccs_cc c2)) then Some (ccs1, s)
        else do {
          (r, s) \<leftarrow> appendCCS ccs1 (prevStack c2) s;
          pushCostCentre r (ccs_cc c2) s
        }
      })"

declare appendCCS.simps [code]

partial_function (option) enterFunEqualStacks :: "addr \<Rightarrow> addr \<Rightarrow> addr \<Rightarrow> prof_state \<Rightarrow> (addr \<times> prof_state) option" where
  "enterFunEqualStacks ccs0 ccsapp ccsfn s = do {
     a \<leftarrow> rd s ccsapp;
     f \<leftarrow> rd s ccsfn;
     if depth a \<noteq> depth f then None
     else if ccsapp = ccsfn then Some (ccs0, s)
     else do {
       (r, s) \<leftarrow> enterFunEqualStacks ccs0 (prevStack a) (prevStack f) s;
       pushCostCentre r (ccs_cc f) s
     }
   }"

declare enterFunEqualStacks.simps [code]

fun enterFunCurShorter :: "addr \<Rightarrow> addr \<Rightarrow> nat \<Rightarrow> prof_state \<Rightarrow> (addr \<times> prof_state) option" where
  "enterFunCurShorter ccsapp ccsfn 0 s = enterFunEqualStacks ccsapp ccsapp ccsfn s"
| "enterFunCurShorter ccsapp ccsfn (Suc n) s = do {
     a \<leftarrow> rd s ccsapp;
     f \<leftarrow> rd s ccsfn;
     if depth f \<le> depth a then None
     else do {
       (r, s) \<leftarrow> enterFunCurShorter ccsapp (prevStack f) n s;
       pushCostCentre r (ccs_cc f) s
     }
   }"

fun drop_stack :: "nat \<Rightarrow> addr \<Rightarrow> prof_state \<Rightarrow> addr option" where
  "drop_stack 0 tmp s = Some tmp"
| "drop_stack (Suc n) tmp s = do { t \<leftarrow> rd s tmp; drop_stack n (prevStack t) s }"

definition enterFunCCS :: "addr \<Rightarrow> prof_state \<Rightarrow> prof_state option" where
  "enterFunCCS ccsfn s =
     (if ccsfn = rCCCS s then Some s
      else do {
        f \<leftarrow> rd s ccsfn;
        if prevStack f = CCS_MAIN then Some s
        else do {
          let ccsapp = rCCCS s;
          let s = s\<lparr>rCCCS := CCS_OVERHEAD\<rparr>;
          a \<leftarrow> rd s ccsapp;
          (r, s) \<leftarrow>
            (if ccs_root f \<noteq> ccs_root a then appendCCS ccsapp ccsfn s
             else if depth f < depth a then do {
               tmp \<leftarrow> drop_stack (unat (ucast (depth a - depth f) :: StgWord32)) ccsapp s;
               enterFunEqualStacks ccsapp tmp ccsfn s
             }
             else if depth a < depth f then enterFunCurShorter ccsapp ccsfn (unat (depth f - depth a)) s
             else enterFunEqualStacks ccsapp ccsapp ccsfn s);
          Some (s\<lparr>rCCCS := r\<rparr>)
        }
      })"

section \<open>Nodes represent lists of cost centres\<close>

text \<open>Lists are written from the root to the top, as in the comments of the source.  Pushing a cost centre that is
  already there truncates the list to it.\<close>

definition push_spec :: "addr list \<Rightarrow> addr \<Rightarrow> addr list" where
  "push_spec A x = takeWhile (\<lambda>y. y \<noteq> x) A @ [x]"

lemma push_spec_new: "x \<notin> set A \<Longrightarrow> push_spec A x = A @ [x]"
  by (auto simp: push_spec_def takeWhile_eq_all_conv)

lemma push_spec_append: "x \<in> set A \<Longrightarrow> push_spec (A @ B) x = push_spec A x"
  by (auto simp: push_spec_def)

lemma push_spec_top: "distinct l \<Longrightarrow> l \<noteq> [] \<Longrightarrow> push_spec l (last l) = l"
proof (cases l rule: rev_cases)
  case (snoc k y)
  moreover assume "distinct l"
  ultimately have "y \<notin> set k" by simp
  then show ?thesis using snoc push_spec_new [of y k] by (simp add: push_spec_def takeWhile_tail)
qed simp

lemma push_spec_distinct: "distinct A \<Longrightarrow> distinct (push_spec A x)"
  by (auto simp: push_spec_def dest: set_takeWhileD)

lemma push_spec_set: "set (push_spec A x) \<subseteq> insert x (set A)"
  by (auto simp: push_spec_def dest: set_takeWhileD)

definition links_ok :: "prof_state \<Rightarrow> (addr \<rightharpoonup> addr list) \<Rightarrow> bool" where
  "links_ok s S = (\<forall>c l. S c = Some l \<longrightarrow> c \<noteq> NULL \<and> l \<noteq> [] \<and> ccs_cc (ccs_at s c) = last l \<and>
     (if butlast l = [] then c = CCS_MAIN \<and> prevStack (ccs_at s c) = NULL
      else S (prevStack (ccs_at s c)) = Some (butlast l)))"

definition tables_ok :: "prof_state \<Rightarrow> (addr \<rightharpoonup> addr list) \<Rightarrow> bool" where
  "tables_ok s S = (\<forall>c l. S c = Some l \<longrightarrow> distinct (map it_cc (indexTable (ccs_at s c))) \<and>
     (\<forall>e\<in>set (indexTable (ccs_at s c)).
        it_cc e \<noteq> last l \<and> S (it_ccs e) = Some (push_spec l (it_cc e)) \<and> back_edge e = (it_cc e \<in> set l)))"

definition tables_complete :: "prof_state \<Rightarrow> (addr \<rightharpoonup> addr list) \<Rightarrow> bool" where
  "tables_complete s S = (\<forall>c l c' x. S c = Some l \<longrightarrow> S c' = Some (l @ [x]) \<longrightarrow>
     (\<exists>e\<in>set (indexTable (ccs_at s c)). it_cc e = x))"

definition ccs_inv :: "addr set \<Rightarrow> prof_state \<Rightarrow> (addr \<rightharpoonup> addr list) \<Rightarrow> bool" where
  "ccs_inv C s S = (links_ok s S \<and> tables_ok s S \<and> tables_complete s S \<and> inj_on S (dom S) \<and>
     finite C \<and> card C < 2 ^ 32 \<and>
     (\<forall>c l. S c = Some l \<longrightarrow> c < ccs_fresh s \<and> distinct l \<and> set l \<subseteq> C \<and>
        depth (ccs_at s c) = of_nat (length l - 1)))"

lemma ccs_invD:
  assumes "ccs_inv C s S" "S c = Some l"
  shows "c \<noteq> NULL" "l \<noteq> []" "ccs_cc (ccs_at s c) = last l" "c < ccs_fresh s" "distinct l" "set l \<subseteq> C"
    "depth (ccs_at s c) = of_nat (length l - 1)"
    "butlast l = [] \<Longrightarrow> c = CCS_MAIN \<and> prevStack (ccs_at s c) = NULL"
    "butlast l \<noteq> [] \<Longrightarrow> S (prevStack (ccs_at s c)) = Some (butlast l)"
    "e \<in> set (indexTable (ccs_at s c)) \<Longrightarrow>
       it_cc e \<noteq> last l \<and> S (it_ccs e) = Some (push_spec l (it_cc e)) \<and> back_edge e = (it_cc e \<in> set l)"
    "S c' = Some (l @ [x]) \<Longrightarrow> \<exists>e\<in>set (indexTable (ccs_at s c)). it_cc e = x"
    "distinct (map it_cc (indexTable (ccs_at s c)))"
  using assms unfolding ccs_inv_def links_ok_def tables_ok_def tables_complete_def by (auto split: if_splits)

lemma ccs_inv_inj: "ccs_inv C s S \<Longrightarrow> S c = Some l \<Longrightarrow> S c' = Some l \<Longrightarrow> c = c'"
  unfolding ccs_inv_def inj_on_def by (metis domI)

text \<open>A stack as the loops over \<open>prevStack\<close> see it.\<close>

fun ccs_chain :: "prof_state \<Rightarrow> addr \<Rightarrow> addr list \<Rightarrow> bool" where
  "ccs_chain s c [] = (c = NULL)"
| "ccs_chain s c (x # l) = (c \<noteq> NULL \<and> ccs_cc (ccs_at s c) = x \<and> ccs_chain s (prevStack (ccs_at s c)) l)"

lemma links_chain: "links_ok s S \<Longrightarrow> S c = Some l \<Longrightarrow> ccs_chain s c (rev l)"
proof (induction l arbitrary: c rule: rev_induct)
  case Nil
  then show ?case by (auto simp: links_ok_def)
next
  case (snoc x l)
  then have "c \<noteq> NULL" "ccs_cc (ccs_at s c) = x" and
    n: "if l = [] then prevStack (ccs_at s c) = NULL else S (prevStack (ccs_at s c)) = Some l"
    unfolding links_ok_def by fastforce+
  then show ?case using snoc by (auto split: if_splits)
qed

lemma stack_matches_total: "ccs_chain s c l \<Longrightarrow> \<exists>b. stack_matches s sel c = Some b"
  by (induction l arbitrary: c) (auto simp: stack_matches.simps)

lemma checkLoop_chain:
  assumes "links_ok s S" "S c = Some l"
  shows "\<exists>t. checkLoop s c x = Some t \<and> (if x \<in> set l then distinct l \<longrightarrow> S t = Some (push_spec l x) \<and> t \<noteq> NULL else t = NULL)"
  using assms
proof (induction l arbitrary: c rule: rev_induct)
  case Nil
  then show ?case by (auto simp: links_ok_def)
next
  case (snoc y l)
  then have c: "c \<noteq> NULL" "ccs_cc (ccs_at s c) = y" and
    n: "if l = [] then prevStack (ccs_at s c) = NULL else S (prevStack (ccs_at s c)) = Some l"
    unfolding links_ok_def by fastforce+
  show ?case
  proof (cases "y = x")
    case True
    then show ?thesis using c snoc.prems(2) push_spec_new [of x l] push_spec_append
      by (subst checkLoop.simps) (auto simp: push_spec_def takeWhile_tail)
  next
    case False
    show ?thesis
    proof (cases "l = []")
      case True
      then show ?thesis using c n False by (subst checkLoop.simps) (simp add: checkLoop.simps)
    next
      case l: False
      then obtain t where t: "checkLoop s (prevStack (ccs_at s c)) x = Some t"
          "if x \<in> set l then distinct l \<longrightarrow> S t = Some (push_spec l x) \<and> t \<noteq> NULL else t = NULL"
        using n snoc.IH [OF snoc.prems(1)] by auto
      then show ?thesis
        using c False push_spec_append [of x l "[y]"]
        by (intro exI [of _ t], subst checkLoop.simps) auto
    qed
  qed
qed

section \<open>Pushing\<close>

text \<open>What an operation may change of the nodes there were: their tables.\<close>

definition frame :: "prof_state \<Rightarrow> (addr \<rightharpoonup> addr list) \<Rightarrow> prof_state \<Rightarrow> bool" where
  "frame s S s' = ((\<forall>c\<in>dom S. ccs_at s' c = (ccs_at s c)\<lparr>indexTable := indexTable (ccs_at s' c)\<rparr>) \<and>
     cc_at s' = cc_at s \<and> rCCCS s' = rCCCS s)"

lemma frame_refl [simp]: "frame s S s"
  by (simp add: frame_def)

lemma frame_trans: "frame s S s' \<Longrightarrow> frame s' S' s'' \<Longrightarrow> S \<subseteq>\<^sub>m S' \<Longrightarrow> frame s S s''"
proof -
  assume a: "frame s S s'" "frame s' S' s''" "S \<subseteq>\<^sub>m S'"
  have "ccs_at s'' c = (ccs_at s c)\<lparr>indexTable := indexTable (ccs_at s'' c)\<rparr>" if "c \<in> dom S" for c
  proof -
    have "c \<in> dom S'" using a(3) that by (metis domIff map_le_def)
    then have "ccs_at s'' c = (ccs_at s' c)\<lparr>indexTable := indexTable (ccs_at s'' c)\<rparr>"
      using a(2) unfolding frame_def by blast
    moreover have "ccs_at s' c = (ccs_at s c)\<lparr>indexTable := indexTable (ccs_at s' c)\<rparr>"
      using a(1) that unfolding frame_def by blast
    ultimately show ?thesis
      by (metis CostCentreStack.update_convs(4) CostCentreStack.surjective CostCentreStack.select_convs(4))
  qed
  then show "frame s S s''" using a(1,2) by (simp add: frame_def)
qed

lemma frameD: "frame s S s' \<Longrightarrow> c \<in> dom S \<Longrightarrow> f (ccs_at s' c) = f ((ccs_at s c)\<lparr>indexTable := indexTable (ccs_at s' c)\<rparr>)"
  unfolding frame_def by metis

lemma isInIndexTable_hit: "isInIndexTable it x = t \<Longrightarrow> t \<noteq> NULL \<Longrightarrow> \<exists>e\<in>set it. it_cc e = x \<and> it_ccs e = t"
  by (induction it) (auto split: if_splits)

lemma isInIndexTable_miss: "isInIndexTable it x = NULL \<Longrightarrow> \<forall>e\<in>set it. it_ccs e \<noteq> NULL \<Longrightarrow> \<forall>e\<in>set it. it_cc e \<noteq> x"
  by (induction it) (auto split: if_splits)

text \<open>Adding an edge to a node that is there.\<close>

lemma inv_add_back_edge:
  assumes i: "ccs_inv C s S" and c: "S c = Some l" and x: "x \<in> set l" "x \<noteq> last l" and t: "S t = Some (push_spec l x)"
    and miss: "\<forall>e\<in>set (indexTable (ccs_at s c)). it_cc e \<noteq> x"
  shows "ccs_inv C (upd_ccs c (\<lambda>n. n\<lparr>indexTable := addToIndexTable (indexTable n) t x True\<rparr>) s) S"
proof -
  let ?s = "upd_ccs c (\<lambda>n. n\<lparr>indexTable := addToIndexTable (indexTable n) t x True\<rparr>) s"
  have "links_ok ?s S" using i by (auto simp: ccs_inv_def links_ok_def upd_ccs_def)
  moreover have "tables_ok ?s S"
    using i c x t miss by (auto simp: ccs_inv_def tables_ok_def upd_ccs_def addToIndexTable_def)
  moreover have "tables_complete ?s S"
    using i by (fastforce simp: ccs_inv_def tables_complete_def upd_ccs_def addToIndexTable_def)
  ultimately show ?thesis using i by (auto simp: ccs_inv_def upd_ccs_def)
qed

text \<open>A new node on top of a node that is there.  \<open>n\<close> differs from every node so far.\<close>

lemma inv_add_node:
  assumes i: "ccs_inv C s S" and c: "S c = Some l" and x: "x \<notin> set l" "x \<in> C"
    and miss: "\<forall>e\<in>set (indexTable (ccs_at s c)). it_cc e \<noteq> x"
    and n: "S n = None" and n0: "n \<noteq> NULL"
    and nd: "ccs_cc nd = x" "prevStack nd = c" "depth nd = depth (ccs_at s c) + 1" "indexTable nd = []"
    and s': "n < ccs_fresh s \<and> ccs_fresh s' = ccs_fresh s" "\<And>d. ccs_at s' d = (if d = n then nd
        else if d = c then (ccs_at s c)\<lparr>indexTable := addToIndexTable (indexTable (ccs_at s c)) n x False\<rparr>
        else ccs_at s d)"
  shows "ccs_inv C s' (S(n \<mapsto> l @ [x]))"
proof -
  let ?S = "S(n \<mapsto> l @ [x])"
  have old: "d \<noteq> n" "d < ccs_fresh s" if "S d = Some k" for d k using ccs_invD(4) [OF i that] that n by auto
  note D = ccs_invD [OF i]
  have nolist: "S d \<noteq> Some (l @ [x])" for d using D(11) [OF c] miss by blast
  have links: "links_ok s' ?S" unfolding links_ok_def
  proof (intro allI impI)
    fix d k
    assume k: "?S d = Some k"
    show "d \<noteq> NULL \<and> k \<noteq> [] \<and> ccs_cc (ccs_at s' d) = last k \<and>
      (if butlast k = [] then d = CCS_MAIN \<and> prevStack (ccs_at s' d) = NULL
       else ?S (prevStack (ccs_at s' d)) = Some (butlast k))"
    proof (cases "d = n")
      case True
      then show ?thesis using k n0 nd D(2) [OF c] old(1) [OF c] c by (auto simp: s'(2))
    next
      case False
      then have "S d = Some k" using k by simp
      note E = D(1-3,8,9) [OF this]
      have "ccs_cc (ccs_at s' d) = ccs_cc (ccs_at s d)" "prevStack (ccs_at s' d) = prevStack (ccs_at s d)"
        using False by (auto simp: s'(2))
      then show ?thesis using E old(1) by fastforce
    qed
  qed
  have dist: "distinct (map it_cc (indexTable (ccs_at s' d)))" if k: "?S d = Some k" for d k
  proof (cases "d = n")
    case True
    then show ?thesis using nd(4) by (simp add: s'(2))
  next
    case False
    then have "S d = Some k" using k by simp
    then show ?thesis using D(12) [of d] False miss by (auto simp: s'(2) addToIndexTable_def)
  qed
  have edge: "it_cc e \<noteq> last k \<and> ?S (it_ccs e) = Some (push_spec k (it_cc e)) \<and> back_edge e = (it_cc e \<in> set k)"
    if k: "?S d = Some k" and e: "e \<in> set (indexTable (ccs_at s' d))" for d k e
  proof (cases "d = n")
    case True
    then show ?thesis using e nd by (simp add: s'(2))
  next
    case False
    then have k': "S d = Some k" using k by simp
    show ?thesis
    proof (cases "e \<in> set (indexTable (ccs_at s d))")
      case True
      then show ?thesis using D(10) [OF k' True] old(1) by auto
    next
      case new: False
      then have "d = c" "e = \<lparr>it_cc = x, it_ccs = n, back_edge = False\<rparr>"
        using e False by (auto simp: s'(2) addToIndexTable_def split: if_splits)
      moreover have "l = k" using calculation(1) k' c by simp
      ultimately show ?thesis using x(1) D(2) [OF c] push_spec_new [OF x(1)] by auto
    qed
  qed
  have tables: "tables_ok s' ?S" unfolding tables_ok_def by (intro allI impI conjI ballI dist edge)
  have "tables_complete s' ?S" unfolding tables_complete_def
  proof (intro allI impI)
    fix d k d' y
    assume k: "?S d = Some k" and k': "?S d' = Some (k @ [y])"
    have sub: "set (indexTable (ccs_at s d)) \<subseteq> set (indexTable (ccs_at s' d))" if "d \<noteq> n"
      using that by (auto simp: s'(2) addToIndexTable_def)
    show "\<exists>e\<in>set (indexTable (ccs_at s' d)). it_cc e = y"
    proof (cases "d' = n")
      case True
      then have "k = l" "y = x" using k' by auto
      moreover have "d = c" using k calculation(1) ccs_inv_inj [OF i _ c] by (auto split: if_splits)
      ultimately show ?thesis using old(1) [OF c] by (simp add: s'(2) addToIndexTable_def)
    next
      case False
      then have m: "S d' = Some (k @ [y])" using k' by simp
      have "d \<noteq> n"
      proof
        assume "d = n"
        then have "k = l @ [x]" using k by simp
        moreover have "k \<noteq> []" using calculation by simp
        then have "S (prevStack (ccs_at s d')) = Some k" using D(9) [OF m] by simp
        ultimately show False using nolist by simp
      qed
      then show ?thesis using D(11) [OF _ m] k sub by (metis fun_upd_apply subsetD)
    qed
  qed
  moreover have "inj_on ?S (dom ?S)"
    using ccs_inv_inj [OF i] nolist by (auto simp: inj_on_def dom_def split: if_splits)
  moreover have "d < ccs_fresh s' \<and> distinct k \<and> set k \<subseteq> C \<and> depth (ccs_at s' d) = of_nat (length k - 1)"
    if "?S d = Some k" for d k
  proof (cases "d = n")
    case True
    have "of_nat (length l - 1) + 1 = (of_nat (length l) :: StgWord)"
      using D(2) [OF c] by (metis Suc_pred' length_greater_0_conv of_nat_Suc add.commute)
    then show ?thesis using True that D(5-7) [OF c] nd x s'(1) by (auto simp: s'(2))
  next
    case False
    then have k: "S d = Some k" using that by simp
    have "depth (ccs_at s' d) = depth (ccs_at s d)" using False by (simp add: s'(2))
    then show ?thesis using D(5-7) [OF k] old(2) [OF k] s'(1) by simp
  qed
  ultimately show ?thesis using i links tables by (simp add: ccs_inv_def)
qed

lemma ccsSetSelected_ok:
  assumes "ccs_chain s c l" "c \<noteq> NULL"
  shows "\<exists>b. ccsSetSelected c s = Some (upd_ccs c (\<lambda>n. n\<lparr>selected := b\<rparr>) s)"
  using stack_matches_total [OF assms(1)] unfolding ccsSetSelected_def Let_def
  by (auto split: option.splits) (metis bind.bind_lunit)+

lemma actualPush_into_ok:
  assumes i: "ccs_inv C s S" and c: "S c = Some l" and x: "x \<notin> set l" "x \<in> C"
    and miss: "\<forall>e\<in>set (indexTable (ccs_at s c)). it_cc e \<noteq> x"
    and n: "n \<noteq> NULL" "S n = None" "n < ccs_fresh s"
  shows "\<exists>s'. actualPush_into c x n s = Some (n, s') \<and> ccs_inv C s' (S(n \<mapsto> l @ [x])) \<and> frame s S s' \<and>
    (\<forall>d. d \<noteq> n \<longrightarrow> d \<noteq> c \<longrightarrow> ccs_at s' d = ccs_at s d) \<and> ccs_fresh s' = ccs_fresh s \<and>
    indexTable (ccs_at s' c) = addToIndexTable (indexTable (ccs_at s c)) n x False"
proof -
  note D = ccs_invD [OF i c]
  have cn: "c \<noteq> n" using c n(2) by auto
  define s1 where "s1 = (upd_ccs n (\<lambda>n. n\<lparr>ccsID := CCS_ID s, ccs_cc := x, prevStack := c, ccs_root := ccs_root (ccs_at s c),
         depth := depth (ccs_at s c) + 1, indexTable := [], scc_count := 0, time_ticks := 0, mem_alloc := 0,
         inherited_ticks := 0, inherited_alloc := 0\<rparr>) s)\<lparr>CCS_ID := CCS_ID s + 1\<rparr>"
  have "links_ok s1 S" using i n(2) unfolding ccs_inv_def links_ok_def s1_def upd_ccs_def by fastforce
  then have "ccs_chain s1 c (rev l)" using c by (rule links_chain)
  then have ch: "ccs_chain s1 n (x # rev l)" using n(1) by (simp add: s1_def upd_ccs_def)
  obtain b where b: "ccsSetSelected n s1 = Some (upd_ccs n (\<lambda>n. n\<lparr>selected := b\<rparr>) s1)"
    using ccsSetSelected_ok [OF ch n(1)] by blast
  define s' where "s' = upd_ccs c (\<lambda>m. m\<lparr>indexTable := addToIndexTable (indexTable m) n x False\<rparr>)
     (upd_ccs n (\<lambda>n. n\<lparr>selected := b\<rparr>) s1)"
  have run: "actualPush_into c x n s = Some (n, s')"
    using D(1) b by (simp add: actualPush_into_def rd_def s'_def s1_def Let_def)
  have at: "ccs_at s' d = (if d = n then ccs_at s' n
        else if d = c then (ccs_at s c)\<lparr>indexTable := addToIndexTable (indexTable (ccs_at s c)) n x False\<rparr>
        else ccs_at s d)" for d
    using cn by (simp add: s'_def s1_def upd_ccs_def)
  have nd: "ccs_cc (ccs_at s' n) = x" "prevStack (ccs_at s' n) = c" "depth (ccs_at s' n) = depth (ccs_at s c) + 1"
      "indexTable (ccs_at s' n) = []" "n < ccs_fresh s \<and> ccs_fresh s' = ccs_fresh s"
    using cn n(3) by (simp_all add: s'_def s1_def upd_ccs_def)
  have "ccs_inv C s' (S(n \<mapsto> l @ [x]))"
    using inv_add_node [OF i c x miss n(2,1) nd(1-5) at] .
  moreover have "frame s S s'"
    using n(2) by (auto simp: frame_def s'_def s1_def upd_ccs_def)
  moreover have "\<forall>d. d \<noteq> n \<longrightarrow> d \<noteq> c \<longrightarrow> ccs_at s' d = ccs_at s d" using at by simp
  moreover have "indexTable (ccs_at s' c) = addToIndexTable (indexTable (ccs_at s c)) n x False"
    using at [of c] cn by simp
  ultimately show ?thesis using run nd(5) by blast
qed

lemma actualPush_ok:
  assumes i: "ccs_inv C s S" and c: "S c = Some l" and x: "x \<notin> set l" "x \<in> C"
    and miss: "\<forall>e\<in>set (indexTable (ccs_at s c)). it_cc e \<noteq> x"
  shows "\<exists>s'. actualPush c x s = Some (ccs_fresh s, s') \<and> ccs_inv C s' (S(ccs_fresh s \<mapsto> l @ [x])) \<and>
    frame s S s' \<and> S (ccs_fresh s) = None"
proof -
  let ?n = "ccs_fresh s" and ?s = "s\<lparr>ccs_fresh := ccs_fresh s + 1\<rparr>"
  have none: "S ?n = None" using ccs_invD(4) [OF i, of ?n] by (cases "S ?n") auto
  have i': "ccs_inv C ?s S"
    using i unfolding ccs_inv_def links_ok_def tables_ok_def tables_complete_def by (simp add: less_SucI)
  have "?n \<noteq> NULL" using ccs_invD(4) [OF i c] by simp
  then obtain s' where "actualPush_into c x ?n ?s = Some (?n, s')" "ccs_inv C s' (S(?n \<mapsto> l @ [x]))" "frame ?s S s'"
    using actualPush_into_ok [OF i' c x _ _ none] miss by auto
  then show ?thesis using none by (simp add: actualPush_def frame_def)
qed

text \<open>Pushing under the lock, with the table seen before still the table of the node.\<close>

lemma push_locked_ok:
  assumes i: "ccs_inv C s S" and c: "S c = Some l" and x: "x \<in> C" "x \<noteq> last l"
    and miss: "\<forall>e\<in>set (indexTable (ccs_at s c)). it_cc e \<noteq> x"
  shows "\<exists>c' s' S'. push_locked c x (indexTable (ccs_at s c)) s = Some (c', s') \<and> ccs_inv C s' S' \<and> S \<subseteq>\<^sub>m S' \<and>
    S' c' = Some (push_spec l x) \<and> frame s S s'"
proof -
  note D = ccs_invD [OF i c]
  have lk: "links_ok s S" using i by (simp add: ccs_inv_def)
  obtain t where t: "checkLoop s c x = Some t"
      "if x \<in> set l then distinct l \<longrightarrow> S t = Some (push_spec l x) \<and> t \<noteq> NULL else t = NULL"
    using checkLoop_chain [OF lk c] by blast
  show ?thesis
  proof (cases "x \<in> set l")
    case True
    then have t': "S t = Some (push_spec l x)" "t \<noteq> NULL" using t(2) D(5) by auto
    let ?s = "upd_ccs c (\<lambda>n. n\<lparr>indexTable := addToIndexTable (indexTable n) t x True\<rparr>) s"
    have "push_locked c x (indexTable (ccs_at s c)) s = Some (t, ?s)"
      using t(1) t'(2) by (simp add: push_locked_def)
    moreover have "ccs_inv C ?s S" by (rule inv_add_back_edge [OF i c True x(2) t'(1) miss])
    moreover have "frame s S ?s" by (simp add: frame_def upd_ccs_def)
    ultimately show ?thesis using t'(1) map_le_refl by blast
  next
    case False
    then obtain s' where s': "actualPush c x s = Some (ccs_fresh s, s')" "ccs_inv C s' (S(ccs_fresh s \<mapsto> l @ [x]))"
      "frame s S s'" "S (ccs_fresh s) = None"
      using actualPush_ok [OF i c False x(1) miss] by blast
    then have "push_locked c x (indexTable (ccs_at s c)) s = Some (ccs_fresh s, s')"
      using t False by (simp add: push_locked_def)
    moreover have "S \<subseteq>\<^sub>m S(ccs_fresh s \<mapsto> l @ [x])" using s'(4) by (auto simp: map_le_def)
    ultimately show ?thesis using s' push_spec_new [OF False] by (metis fun_upd_same)
  qed
qed

lemma push_ok:
  assumes i: "ccs_inv C s S" and c: "S c = Some l" and x: "x \<in> C"
  shows "\<exists>c' s' S'. pushCostCentre c x s = Some (c', s') \<and> ccs_inv C s' S' \<and> S \<subseteq>\<^sub>m S' \<and>
    S' c' = Some (push_spec l x) \<and> frame s S s'"
proof -
  note D = ccs_invD [OF i c]
  let ?it = "indexTable (ccs_at s c)"
  have nn: "\<forall>e\<in>set ?it. it_ccs e \<noteq> NULL" using D(10) ccs_invD(1) [OF i] by blast
  consider (top) "last l = x" | (hit) "last l \<noteq> x" "isInIndexTable ?it x \<noteq> NULL" | (miss) "last l \<noteq> x" "isInIndexTable ?it x = NULL"
    by blast
  then show ?thesis
  proof cases
    case top
    then have "push_spec l x = l" using push_spec_top [OF D(5,2)] by simp
    then show ?thesis using i c D(1,3) top by (auto simp: pushCostCentre_def push_unlocked_def intro!: exI [of _ S])
  next
    case hit
    then obtain e where e: "e \<in> set ?it" "it_cc e = x" "it_ccs e = isInIndexTable ?it x"
      using isInIndexTable_hit [OF refl hit(2)] by blast
    then have "S (isInIndexTable ?it x) = Some (push_spec l x)" using D(10) [OF e(1)] by simp
    moreover have "pushCostCentre c x s = Some (isInIndexTable ?it x, s)"
      using hit D(1,3) by (simp add: pushCostCentre_def push_unlocked_def)
    ultimately show ?thesis using i by (auto intro!: exI [of _ S])
  next
    case miss
    then have "pushCostCentre c x s = push_locked c x ?it s"
      using D(1,3) by (simp add: pushCostCentre_def push_unlocked_def)
    then show ?thesis
      using push_locked_ok [OF i c x] miss isInIndexTable_miss [OF miss(2) nn] by metis
  qed
qed

section \<open>Entering functions\<close>

text \<open>The operations of the comment: \<open>dropCommonPrefix\<close>, and appending by pushing one cost centre after the other.\<close>

fun dropCommonPrefix :: "addr list \<Rightarrow> addr list \<Rightarrow> addr list" where
  "dropCommonPrefix (a # A) (b # B) = (if a = b then dropCommonPrefix A B else b # B)"
| "dropCommonPrefix A B = B"

definition pushes :: "addr list \<Rightarrow> addr list \<Rightarrow> addr list" where
  "pushes A B = foldl push_spec A B"

lemma pushes_Nil [simp]: "pushes A [] = A"
  by (simp add: pushes_def)

lemma pushes_snoc [simp]: "pushes A (B @ [x]) = push_spec (pushes A B) x"
  by (simp add: pushes_def)

lemma dropCommonPrefix_same [simp]: "dropCommonPrefix A A = []"
  by (induction A) auto

lemma dropCommonPrefix_snoc:
  "length A = length B \<Longrightarrow> A @ [a] \<noteq> B @ [b] \<Longrightarrow> dropCommonPrefix (A @ [a]) (B @ [b]) = dropCommonPrefix A B @ [b]"
  by (induction A B rule: list_induct2) auto

lemma dropCommonPrefix_take: "length B \<le> length A \<Longrightarrow> dropCommonPrefix (take (length B) A) B = dropCommonPrefix A B"
  by (induction A B rule: dropCommonPrefix.induct) auto

lemma dropCommonPrefix_longer:
  "length A \<le> length B \<Longrightarrow> dropCommonPrefix A (B @ [b]) = dropCommonPrefix A B @ [b]"
  by (induction A B rule: dropCommonPrefix.induct) auto

lemma rd_Some: "c \<noteq> NULL \<Longrightarrow> rd s c = Some (ccs_at s c)"
  by (simp add: rd_def)

definition after :: "addr set \<Rightarrow> prof_state \<Rightarrow> (addr \<rightharpoonup> addr list) \<Rightarrow> addr list \<Rightarrow> (addr \<times> prof_state) option \<Rightarrow> bool" where
  "after C s S l r = (\<exists>c' s' S'. r = Some (c', s') \<and> ccs_inv C s' S' \<and> S \<subseteq>\<^sub>m S' \<and> S' c' = Some l \<and> frame s S s')"

lemma after_push:
  assumes "after C s S l r" "x \<in> C"
  shows "after C s S (push_spec l x) (r \<bind> (\<lambda>(c, s). pushCostCentre c x s))"
proof -
  obtain c' s' S' where a: "r = Some (c', s')" "ccs_inv C s' S'" "S \<subseteq>\<^sub>m S'" "S' c' = Some l" "frame s S s'"
    using assms(1) by (auto simp: after_def)
  obtain c'' s'' S'' where b: "pushCostCentre c' x s' = Some (c'', s'')" "ccs_inv C s'' S''" "S' \<subseteq>\<^sub>m S''"
      "S'' c'' = Some (push_spec l x)" "frame s' S' s''"
    using push_ok [OF a(2,4) assms(2)] by blast
  show ?thesis unfolding after_def
    using a b map_le_trans [OF a(3) b(3)] frame_trans [OF a(5) b(5) a(3)] by auto
qed

lemma after_here: "ccs_inv C s S \<Longrightarrow> S c = Some l \<Longrightarrow> after C s S l (Some (c, s))"
  by (auto simp: after_def intro!: exI [of _ S])

lemma length_bound:
  assumes "ccs_inv C s S" "S c = Some l"
  shows "length l < 2 ^ 32"
proof -
  have "card (set l) \<le> card C" using ccs_invD(6) [OF assms] assms(1) by (intro card_mono) (auto simp: ccs_inv_def)
  then show ?thesis using distinct_card [OF ccs_invD(5) [OF assms]] assms(1) by (simp add: ccs_inv_def)
qed

lemma unat_depth:
  assumes "ccs_inv C s S" "S c = Some l"
  shows "unat (depth (ccs_at s c)) = length l - 1"
proof -
  have "length l - 1 < 2 ^ 64" using length_bound [OF assms] by simp
  then show ?thesis unfolding ccs_invD(7) [OF assms]
    by (subst unsigned_of_nat) (simp add: take_bit_nat_eq_self)
qed

lemma enterFunEqualStacks_ok:
  assumes i: "ccs_inv C s S" and c0: "S c0 = Some l0" and "S a = Some A" "S f = Some B" "length A = length B"
  shows "after C s S (pushes l0 (dropCommonPrefix A B)) (enterFunEqualStacks c0 a f s)"
  using assms(3-5)
proof (induction B arbitrary: A a f rule: rev_induct)
  case Nil
  then show ?case using ccs_invD(2) [OF i] by blast
next
  case (snoc y B)
  note Da = ccs_invD [OF i snoc.prems(1)] and Df = ccs_invD [OF i snoc.prems(2)]
  obtain A' x where A: "A = A' @ [x]" using snoc.prems(3) by (cases A rule: rev_cases) auto
  have dep: "depth (ccs_at s a) = depth (ccs_at s f)" using Da(7) Df(7) snoc.prems(3) by simp
  show ?case
  proof (cases "a = f")
    case True
    then have "A = B @ [y]" using snoc.prems by simp
    then show ?thesis using True Df(1) after_here [OF i c0]
      by (subst enterFunEqualStacks.simps) (simp add: rd_Some)
  next
    case False
    then have ne: "A \<noteq> B @ [y]" using ccs_inv_inj [OF i] snoc.prems by blast
    have "B \<noteq> []"
      using False Da(8) Df(8) snoc.prems(3) A by auto
    moreover have "A' \<noteq> []" using calculation A snoc.prems(3) by auto
    ultimately have p: "S (prevStack (ccs_at s f)) = Some B" "S (prevStack (ccs_at s a)) = Some A'"
      using Da(9) Df(9) A snoc.prems(3) by auto
    have "after C s S (push_spec (pushes l0 (dropCommonPrefix A' B)) y)
        (enterFunEqualStacks c0 (prevStack (ccs_at s a)) (prevStack (ccs_at s f)) s \<bind> (\<lambda>(c, s). pushCostCentre c y s))"
      using snoc.IH [OF p(2,1)] A snoc.prems(3) Df(6) by (intro after_push) auto
    then show ?thesis
      using dep False Da(1) Df(1,3) ne A snoc.prems(3) dropCommonPrefix_snoc [of A' B x y]
      by (subst enterFunEqualStacks.simps) (simp add: rd_Some)
  qed
qed

lemma depth_less_iff:
  assumes "ccs_inv C s S" "S a = Some A" "S f = Some B"
  shows "depth (ccs_at s a) < depth (ccs_at s f) \<longleftrightarrow> length A < length B"
proof -
  have "A \<noteq> []" "B \<noteq> []" using ccs_invD(2) [OF assms(1)] assms(2,3) by auto
  then show ?thesis
    unfolding word_less_nat_alt unat_depth [OF assms(1,2)] unat_depth [OF assms(1,3)] by (cases A; cases B; simp)
qed

lemma unat_depth_diff:
  assumes "ccs_inv C s S" "S a = Some A" "S f = Some B" "length B < length A"
  shows "unat (depth (ccs_at s a) - depth (ccs_at s f)) = length A - length B"
    and "unat (ucast (depth (ccs_at s a) - depth (ccs_at s f)) :: StgWord32) = length A - length B"
proof -
  have le: "depth (ccs_at s f) \<le> depth (ccs_at s a)"
    using depth_less_iff [OF assms(1,3,2)] assms(4) by simp
  have B: "B \<noteq> []" using ccs_invD(2) [OF assms(1,3)] .
  show u: "unat (depth (ccs_at s a) - depth (ccs_at s f)) = length A - length B"
    unfolding unat_sub [OF le] unat_depth [OF assms(1,2)] unat_depth [OF assms(1,3)] using B assms(4) by (cases B) auto
  have "length A < 2 ^ 32" by (rule length_bound [OF assms(1,2)])
  then have "length A - length B < 2 ^ 32" by simp
  then show "unat (ucast (depth (ccs_at s a) - depth (ccs_at s f)) :: StgWord32) = length A - length B"
    using u by (simp add: unsigned_ucast_eq take_bit_nat_eq_self)
qed

lemma enterFunCurShorter_ok:
  assumes i: "ccs_inv C s S" and a: "S a = Some A" and "S f = Some B" "length B = length A + n"
  shows "after C s S (pushes A (dropCommonPrefix A B)) (enterFunCurShorter a f n s)"
  using assms(3,4)
proof (induction n arbitrary: f B)
  case 0
  then show ?case using enterFunEqualStacks_ok [OF i a a] by simp
next
  case (Suc n)
  note Df = ccs_invD [OF i Suc.prems(1)] and Da = ccs_invD [OF i a]
  obtain B' y where B: "B = B' @ [y]" using Suc.prems(2) by (cases B rule: rev_cases) auto
  have "B' \<noteq> []" using Suc.prems(2) B Da(2) by auto
  then have p: "S (prevStack (ccs_at s f)) = Some B'" using Df(9) B by simp
  have "after C s S (push_spec (pushes A (dropCommonPrefix A B')) y)
      (enterFunCurShorter a (prevStack (ccs_at s f)) n s \<bind> (\<lambda>(c, s). pushCostCentre c y s))"
    using Suc.IH [OF p] B Suc.prems(2) Df(6) by (intro after_push) auto
  moreover have "\<not> depth (ccs_at s f) \<le> depth (ccs_at s a)"
    using depth_less_iff [OF i a Suc.prems(1)] Suc.prems(2) by (simp add: not_le)
  ultimately show ?case
    using Da(1) Df(1,3) B Suc.prems(2) dropCommonPrefix_longer [of A B' y] by (simp add: rd_Some)
qed

lemma drop_stack_ok:
  assumes i: "ccs_inv C s S"
  shows "S a = Some A \<Longrightarrow> n < length A \<Longrightarrow> \<exists>t. drop_stack n a s = Some t \<and> S t = Some (take (length A - n) A)"
proof (induction n arbitrary: a A)
  case (Suc n)
  note D = ccs_invD [OF i Suc.prems(1)]
  have "butlast A \<noteq> []" using Suc.prems(2) by (cases A rule: rev_cases) auto
  then have "S (prevStack (ccs_at s a)) = Some (butlast A)" by (rule D(9))
  then obtain t where "drop_stack n (prevStack (ccs_at s a)) s = Some t"
      "S t = Some (take (length (butlast A) - n) (butlast A))"
    using Suc.IH [of "prevStack (ccs_at s a)" "butlast A"] Suc.prems(2) by (auto simp: less_diff_conv)
  moreover have "take (length (butlast A) - n) (butlast A) = take (length A - Suc n) A"
    by (simp add: butlast_conv_take)
  ultimately show ?case using D(1) by (simp add: rd_Some)
qed simp

text \<open>What \<open>appendCCS\<close> appends: the function's stack above its last CAF, or above the current stack where that is
  part of it.\<close>

function append_part :: "(addr \<Rightarrow> bool) \<Rightarrow> addr list \<Rightarrow> addr list \<Rightarrow> addr list" where
  "append_part caf A B =
     (if B = A \<or> length B \<le> 1 \<or> caf (last B) then [] else append_part caf A (butlast B) @ [last B])"
  by pat_completeness auto
termination
  by (relation "measure (\<lambda>(caf, A, B). length B)") auto

declare append_part.simps [simp del]

lemma main_iff:
  assumes "ccs_inv C s S" "S c = Some l" "S CCS_MAIN = Some [m]"
  shows "c = CCS_MAIN \<longleftrightarrow> length l \<le> 1"
proof
  assume "length l \<le> 1"
  then have "butlast l = []" by (cases l rule: rev_cases) auto
  then show "c = CCS_MAIN" using ccs_invD(8) [OF assms(1,2)] by blast
qed (use assms in auto)

lemma appendCCS_ok:
  assumes i: "ccs_inv C s S" and a: "S a = Some A" and m: "S CCS_MAIN = Some [m]" and "S f = Some B"
  shows "after C s S (pushes A (append_part (\<lambda>x. is_caf (cc_at s x)) A B)) (appendCCS a f s)"
  using assms(4)
proof (induction B arbitrary: f rule: rev_induct)
  case Nil
  then show ?case using ccs_invD(2) [OF i] by blast
next
  case (snoc y B)
  note Df = ccs_invD [OF i snoc.prems]
  have eq: "a = f \<longleftrightarrow> B @ [y] = A"
  proof
    assume "a = f"
    then show "B @ [y] = A" using snoc.prems a by simp
  qed (use ccs_inv_inj [OF i a, of f] snoc.prems in blast)
  have mn: "f = CCS_MAIN \<longleftrightarrow> length (B @ [y]) \<le> 1" by (rule main_iff [OF i snoc.prems m])
  show ?case
  proof (cases "a = f \<or> f = CCS_MAIN \<or> is_caf (cc_at s y)")
    case True
    then have "appendCCS a f s = Some (a, s)" using Df(1,3) by (subst appendCCS.simps) (auto simp: rd_Some)
    moreover have "append_part (\<lambda>x. is_caf (cc_at s x)) A (B @ [y]) = []"
      using True eq mn by (subst append_part.simps) auto
    ultimately show ?thesis using after_here [OF i a] by simp
  next
    case False
    then have "B \<noteq> []" using mn by auto
    then have p: "S (prevStack (ccs_at s f)) = Some B" using Df(9) by simp
    have "after C s S (push_spec (pushes A (append_part (\<lambda>x. is_caf (cc_at s x)) A B)) y)
        (appendCCS a (prevStack (ccs_at s f)) s \<bind> (\<lambda>(c, s). pushCostCentre c y s))"
      using snoc.IH [OF p] Df(6) by (intro after_push) auto
    moreover have "append_part (\<lambda>x. is_caf (cc_at s x)) A (B @ [y]) = append_part (\<lambda>x. is_caf (cc_at s x)) A B @ [y]"
      using False eq mn by (subst append_part.simps) simp
    ultimately show ?thesis using False Df(1,3) by (subst appendCCS.simps) (simp add: rd_Some)
  qed
qed

lemma enterFun_same_root:
  assumes i: "ccs_inv C s S" and A: "S a = Some A" and B: "S f = Some B"
  shows "after C s S (pushes A (dropCommonPrefix A B))
    (if depth (ccs_at s f) < depth (ccs_at s a) then do {
       tmp \<leftarrow> drop_stack (unat (ucast (depth (ccs_at s a) - depth (ccs_at s f)) :: StgWord32)) a s;
       enterFunEqualStacks a tmp f s
     }
     else if depth (ccs_at s a) < depth (ccs_at s f) then enterFunCurShorter a f (unat (depth (ccs_at s f) - depth (ccs_at s a))) s
     else enterFunEqualStacks a a f s)"
proof -
  consider "length B < length A" | "length A < length B" | "length A = length B" by linarith
  then show ?thesis
  proof cases
    case 1
    then have "length A - length B < length A" using ccs_invD(2) [OF i B] by (cases B) auto
    then obtain t where t: "drop_stack (length A - length B) a s = Some t" "S t = Some (take (length B) A)"
      using drop_stack_ok [OF i A, of "length A - length B"] 1 by auto
    have "after C s S (pushes A (dropCommonPrefix (take (length B) A) B)) (enterFunEqualStacks a t f s)"
      using 1 by (intro enterFunEqualStacks_ok [OF i A t(2) B]) simp
    then show ?thesis
      using 1 t(1) unat_depth_diff(2) [OF i A B 1] depth_less_iff [OF i B A] dropCommonPrefix_take [of B A] by simp
  next
    case 2
    then show ?thesis
      using unat_depth_diff(1) [OF i B A 2] depth_less_iff [OF i B A] depth_less_iff [OF i A B]
        enterFunCurShorter_ok [OF i A B, of "length B - length A"] by simp
  next
    case 3
    then show ?thesis
      using depth_less_iff [OF i B A] depth_less_iff [OF i A B] enterFunEqualStacks_ok [OF i A A B 3] by simp
  qed
qed

lemma ccs_inv_rCCCS [simp]: "ccs_inv C (s\<lparr>rCCCS := r\<rparr>) S = ccs_inv C s S"
  by (simp add: ccs_inv_def links_ok_def tables_ok_def tables_complete_def)

lemma prev_main_iff:
  assumes i: "ccs_inv C s S" and f: "S f = Some B" and m: "S CCS_MAIN = Some [m]"
  shows "prevStack (ccs_at s f) = CCS_MAIN \<longleftrightarrow> length B = 2"
proof (cases "butlast B = []")
  case True
  then have "length B \<le> 1" by (cases B rule: rev_cases) auto
  then show ?thesis using ccs_invD(8) [OF i f True] by (auto simp: CCS_MAIN_def)
next
  case False
  note p = ccs_invD(9) [OF i f False]
  have "length B = length (butlast B) + 1" using False by (cases B rule: rev_cases) auto
  moreover have "length (butlast B) \<noteq> 0" unfolding length_0_conv by (rule False)
  ultimately show ?thesis using main_iff [OF i p m] by auto
qed

section \<open>Start\<close>

text \<open>The part of \<open>initProfiling2\<close> that makes \<open>CCS_MAIN\<close> the parent of the registered stacks; \<open>CCS_LIST\<close> is the list
  without \<open>CCS_MAIN\<close>.\<close>

fun adopt_stacks :: "addr list \<Rightarrow> prof_state \<Rightarrow> prof_state option" where
  "adopt_stacks [] s = Some s"
| "adopt_stacks (ccs # rest) s = do {
     let s = upd_ccs ccs (\<lambda>c. c\<lparr>prevStack := NULL\<rparr>) s;
     (_, s) \<leftarrow> actualPush_into CCS_MAIN (ccs_cc (ccs_at s ccs)) ccs s;
     adopt_stacks rest (upd_ccs ccs (\<lambda>c. c\<lparr>ccs_root := ccs\<rparr>) s)
   }"

definition initProfiling2 :: "addr list \<Rightarrow> prof_state \<Rightarrow> prof_state option" where
  "initProfiling2 ccs_list s = do {
     let s = upd_ccs CCS_MAIN (\<lambda>c. c\<lparr>prevStack := NULL, ccs_root := CCS_MAIN\<rparr>) s;
     s \<leftarrow> ccsSetSelected CCS_MAIN s;
     adopt_stacks ccs_list s
   }"

lemma ccs_inv_outside:
  assumes "S c = None" "ccs_inv C s S"
  shows "ccs_inv C (upd_ccs c f s) S"
proof -
  have same: "ccs_at (upd_ccs c f s) d = ccs_at s d" if "S d = Some k" for d k
    using assms(1) that by (auto simp: upd_ccs_def)
  have fresh: "ccs_fresh (upd_ccs c f s) = ccs_fresh s" by (simp add: upd_ccs_def)
  show ?thesis
    using assms(2) unfolding ccs_inv_def links_ok_def tables_ok_def tables_complete_def fresh
    by (auto simp: same)
qed

lemma ccs_inv_root: "ccs_inv C (upd_ccs c (\<lambda>c. c\<lparr>ccs_root := r\<rparr>) s) S = ccs_inv C s S"
proof -
  let ?s = "upd_ccs c (\<lambda>c. c\<lparr>ccs_root := r\<rparr>) s"
  have f: "ccs_cc (ccs_at ?s d) = ccs_cc (ccs_at s d)" "prevStack (ccs_at ?s d) = prevStack (ccs_at s d)"
    "indexTable (ccs_at ?s d) = indexTable (ccs_at s d)" "depth (ccs_at ?s d) = depth (ccs_at s d)"
    "ccs_fresh ?s = ccs_fresh s" for d
    by (simp_all add: upd_ccs_def)
  show ?thesis by (simp only: ccs_inv_def links_ok_def tables_ok_def tables_complete_def f)
qed

lemma adopt_stacks_ok:
  assumes "ccs_inv C s S" "S CCS_MAIN = Some [m]"
    and "distinct cs" "distinct (map (\<lambda>c. ccs_cc (ccs_at s c)) cs)"
    and "\<forall>c\<in>set cs. c \<noteq> NULL \<and> S c = None \<and> c < ccs_fresh s \<and> ccs_cc (ccs_at s c) \<in> C \<and> ccs_cc (ccs_at s c) \<noteq> m \<and>
      (\<forall>e\<in>set (indexTable (ccs_at s CCS_MAIN)). it_cc e \<noteq> ccs_cc (ccs_at s c))"
  shows "\<exists>s' S'. adopt_stacks cs s = Some s' \<and> ccs_inv C s' S' \<and> S \<subseteq>\<^sub>m S' \<and>
    (\<forall>c\<in>set cs. S' c = Some [m, ccs_cc (ccs_at s c)]) \<and> rCCCS s' = rCCCS s"
  using assms
proof (induction cs arbitrary: s S)
  case Nil
  then show ?case by auto
next
  case (Cons n cs)
  let ?x = "ccs_cc (ccs_at s n)" and ?s = "upd_ccs n (\<lambda>c. c\<lparr>prevStack := NULL\<rparr>) s"
  have n: "n \<noteq> NULL" "S n = None" "n < ccs_fresh ?s" "?x \<in> C" "?x \<notin> set [m]"
    using Cons.prems(5) by (auto simp: upd_ccs_def)
  have nm: "n \<noteq> CCS_MAIN" using n(2) Cons.prems(2) by auto
  have i: "ccs_inv C ?s S" by (rule ccs_inv_outside [OF n(2) Cons.prems(1)])
  have miss: "\<forall>e\<in>set (indexTable (ccs_at ?s CCS_MAIN)). it_cc e \<noteq> ?x"
    using Cons.prems(5) nm by (simp add: upd_ccs_def)
  obtain s1 where s1: "actualPush_into CCS_MAIN ?x n ?s = Some (n, s1)" "ccs_inv C s1 (S(n \<mapsto> [m] @ [?x]))" "frame ?s S s1"
      "\<And>d. d \<noteq> n \<Longrightarrow> d \<noteq> CCS_MAIN \<Longrightarrow> ccs_at s1 d = ccs_at ?s d" "ccs_fresh s1 = ccs_fresh ?s"
      "indexTable (ccs_at s1 CCS_MAIN) = addToIndexTable (indexTable (ccs_at ?s CCS_MAIN)) n ?x False"
    using actualPush_into_ok [OF i Cons.prems(2) n(5,4) miss n(1-3)] by blast
  let ?s2 = "upd_ccs n (\<lambda>c. c\<lparr>ccs_root := n\<rparr>) s1" and ?S = "S(n \<mapsto> [m] @ [?x])"
  have i2: "ccs_inv C ?s2 ?S" using s1(2) by (simp only: ccs_inv_root)
  have cc: "ccs_cc (ccs_at ?s2 c) = ccs_cc (ccs_at s c)" if "c \<in> set cs" for c
  proof -
    have "c \<noteq> n" "c \<noteq> CCS_MAIN" using that Cons.prems(2,3,5) by auto
    then show ?thesis using s1(4) [of c] by (simp add: upd_ccs_def)
  qed
  have tab: "indexTable (ccs_at ?s2 CCS_MAIN) = \<lparr>it_cc = ?x, it_ccs = n, back_edge = False\<rparr> # indexTable (ccs_at s CCS_MAIN)"
    using s1(6) nm by (simp add: upd_ccs_def addToIndexTable_def)
  have fr: "ccs_fresh ?s2 = ccs_fresh s" using s1(5) by (simp add: upd_ccs_def)
  have distinct_cc: "distinct (map (\<lambda>c. ccs_cc (ccs_at ?s2 c)) cs)"
    using Cons.prems(4) cc by (simp cong: map_cong)
  have rest: "\<forall>c\<in>set cs. c \<noteq> NULL \<and> ?S c = None \<and> c < ccs_fresh ?s2 \<and> ccs_cc (ccs_at ?s2 c) \<in> C \<and> ccs_cc (ccs_at ?s2 c) \<noteq> m \<and>
      (\<forall>e\<in>set (indexTable (ccs_at ?s2 CCS_MAIN)). it_cc e \<noteq> ccs_cc (ccs_at ?s2 c))"
  proof (rule ballI)
    fix c
    assume c: "c \<in> set cs"
    then have "c \<noteq> n" "?x \<noteq> ccs_cc (ccs_at s c)" using Cons.prems(3,4) by force+
    then show "c \<noteq> NULL \<and> ?S c = None \<and> c < ccs_fresh ?s2 \<and> ccs_cc (ccs_at ?s2 c) \<in> C \<and> ccs_cc (ccs_at ?s2 c) \<noteq> m \<and>
      (\<forall>e\<in>set (indexTable (ccs_at ?s2 CCS_MAIN)). it_cc e \<noteq> ccs_cc (ccs_at ?s2 c))"
      using c Cons.prems(5) by (simp add: cc [OF c] tab fr)
  qed
  have main2: "?S CCS_MAIN = Some [m]" and d: "distinct cs" using Cons.prems(2,3) nm by simp_all
  obtain s' S' where t: "adopt_stacks cs ?s2 = Some s'" "ccs_inv C s' S'" "?S \<subseteq>\<^sub>m S'"
      "\<forall>c\<in>set cs. S' c = Some [m, ccs_cc (ccs_at ?s2 c)]" "rCCCS s' = rCCCS ?s2"
    using Cons.IH [OF i2 main2 d distinct_cc rest] by blast
  have run: "adopt_stacks (n # cs) s = Some s'" using t(1) s1(1) by (simp add: upd_ccs_def)
  have le: "S \<subseteq>\<^sub>m ?S" using n(2) by (auto simp: map_le_def)
  have "S' n = Some [m, ?x]" using t(3) by (metis (no_types, lifting) append_Cons append_Nil domI fun_upd_same map_le_def)
  moreover have "rCCCS s' = rCCCS s" using t(5) s1(3) by (simp add: upd_ccs_def frame_def)
  ultimately show ?case
    using run t(2,4) map_le_trans [OF le t(3)] cc by (intro exI [of _ s'] exI [of _ S']) simp
qed

text \<open>After start-up there is the stack \<open>MAIN\<close>, and one stack above it for each registered one.\<close>

lemma initProfiling2_ok:
  assumes "finite C" "card C < 2 ^ 32" "m = ccs_cc (ccs_at s CCS_MAIN)" "m \<in> C" "indexTable (ccs_at s CCS_MAIN) = []"
    "depth (ccs_at s CCS_MAIN) = 0" "CCS_MAIN < ccs_fresh s"
    and "distinct (CCS_MAIN # cs)" "distinct (map (\<lambda>c. ccs_cc (ccs_at s c)) (CCS_MAIN # cs))"
    and "\<forall>c\<in>set cs. c \<noteq> NULL \<and> c < ccs_fresh s \<and> ccs_cc (ccs_at s c) \<in> C"
  shows "\<exists>s' S. initProfiling2 cs s = Some s' \<and> ccs_inv C s' S \<and> S CCS_MAIN = Some [m] \<and>
    (\<forall>c\<in>set cs. S c = Some [m, ccs_cc (ccs_at s c)]) \<and> rCCCS s' = rCCCS s"
proof -
  define s1 where "s1 = upd_ccs CCS_MAIN (\<lambda>c. c\<lparr>prevStack := NULL, ccs_root := CCS_MAIN\<rparr>) s"
  have main: "CCS_MAIN \<noteq> NULL" by (simp add: CCS_MAIN_def)
  have "ccs_chain s1 CCS_MAIN [m]" using main assms(3) by (simp add: s1_def upd_ccs_def)
  then obtain b where b: "ccsSetSelected CCS_MAIN s1 = Some (upd_ccs CCS_MAIN (\<lambda>n. n\<lparr>selected := b\<rparr>) s1)"
    using ccsSetSelected_ok main by blast
  define s2 where "s2 = upd_ccs CCS_MAIN (\<lambda>n. n\<lparr>selected := b\<rparr>) s1"
  have at: "ccs_cc (ccs_at s2 d) = ccs_cc (ccs_at s d)" "indexTable (ccs_at s2 d) = indexTable (ccs_at s d)"
    "depth (ccs_at s2 d) = depth (ccs_at s d)" "prevStack (ccs_at s2 CCS_MAIN) = NULL" "ccs_fresh s2 = ccs_fresh s" "rCCCS s2 = rCCCS s" for d
    by (simp_all add: s2_def s1_def upd_ccs_def)
  have i: "ccs_inv C s2 [CCS_MAIN \<mapsto> [m]]"
    unfolding ccs_inv_def links_ok_def tables_ok_def tables_complete_def
    using assms(1-7) main at by (auto simp: inj_on_def split: if_splits)
  have "\<exists>s' S'. adopt_stacks cs s2 = Some s' \<and> ccs_inv C s' S' \<and> [CCS_MAIN \<mapsto> [m]] \<subseteq>\<^sub>m S' \<and>
    (\<forall>c\<in>set cs. S' c = Some [m, ccs_cc (ccs_at s2 c)]) \<and> rCCCS s' = rCCCS s2"
  proof (rule adopt_stacks_ok [OF i])
    show "[CCS_MAIN \<mapsto> [m]] CCS_MAIN = Some [m]" "distinct cs" using assms(8) by simp_all
    show "distinct (map (\<lambda>c. ccs_cc (ccs_at s2 c)) cs)" using assms(9) by (simp add: at(1))
    show "\<forall>c\<in>set cs. c \<noteq> NULL \<and> [CCS_MAIN \<mapsto> [m]] c = None \<and> c < ccs_fresh s2 \<and> ccs_cc (ccs_at s2 c) \<in> C \<and> ccs_cc (ccs_at s2 c) \<noteq> m \<and>
      (\<forall>e\<in>set (indexTable (ccs_at s2 CCS_MAIN)). it_cc e \<noteq> ccs_cc (ccs_at s2 c))"
    proof (rule ballI)
      fix c
      assume c: "c \<in> set cs"
      then have "c \<noteq> CCS_MAIN" using assms(8) by auto
      moreover have "ccs_cc (ccs_at s c) \<in> (\<lambda>c. ccs_cc (ccs_at s c)) ` set cs" using c by (rule imageI)
      then have "ccs_cc (ccs_at s c) \<noteq> m" using assms(3,9) by auto
      ultimately show "c \<noteq> NULL \<and> [CCS_MAIN \<mapsto> [m]] c = None \<and> c < ccs_fresh s2 \<and> ccs_cc (ccs_at s2 c) \<in> C \<and> ccs_cc (ccs_at s2 c) \<noteq> m \<and>
        (\<forall>e\<in>set (indexTable (ccs_at s2 CCS_MAIN)). it_cc e \<noteq> ccs_cc (ccs_at s2 c))"
        using bspec [OF assms(10) c] assms(5) by (simp add: at)
    qed
  qed
  then obtain s' S' where t: "adopt_stacks cs s2 = Some s'" "ccs_inv C s' S'" "[CCS_MAIN \<mapsto> [m]] \<subseteq>\<^sub>m S'"
      "\<forall>c\<in>set cs. S' c = Some [m, ccs_cc (ccs_at s2 c)]" "rCCCS s' = rCCCS s2" by blast
  have "S' CCS_MAIN = Some [m]" using t(3) by (auto simp: map_le_def)
  moreover have "initProfiling2 cs s = Some s'" using b t(1) by (simp add: initProfiling2_def Let_def s1_def s2_def)
  ultimately show ?thesis using t at by (intro exI [of _ s'] exI [of _ S']) simp
qed

section \<open>The properties\<close>

text \<open>
  Claim C15.  Cost-centre stacks are canonical and pushing is memoised correctly: in every reachable state there is one node
  for each list of distinct cost centres, and \<open>pushCostCentre\<close> answers the node of the list with the cost
  centre at its end, truncated to it where it was there already, whether it was the top, was
  found in the table of the node, closes a loop, or needs a new node; pushing it again gives the same node, the stacks there were keep
  everything but their tables, and no assertion fails.\<close>

theorem pushCostCentre_canonical:
  assumes "ccs_inv C s S" "S c = Some l" "x \<in> C"
  shows "\<exists>c' s' S'. pushCostCentre c x s = Some (c', s') \<and> ccs_inv C s' S' \<and> S \<subseteq>\<^sub>m S' \<and>
    S' c' = Some (takeWhile (\<lambda>y. y \<noteq> x) l @ [x]) \<and>
    (\<forall>d. S' d = S' c' \<longrightarrow> d = c') \<and>
    (\<exists>s''. pushCostCentre c x s' = Some (c', s'')) \<and>
    (\<forall>d\<in>dom S. ccs_at s' d = (ccs_at s d)\<lparr>indexTable := indexTable (ccs_at s' d)\<rparr>)"
proof -
  obtain c' s' S' where a: "pushCostCentre c x s = Some (c', s')" "ccs_inv C s' S'" "S \<subseteq>\<^sub>m S'"
      "S' c' = Some (push_spec l x)" "frame s S s'"
    using push_ok [OF assms] by blast
  have c: "S' c = Some l" using a(3) assms(2) by (metis domI map_le_def)
  obtain c'' s'' S'' where b: "pushCostCentre c x s' = Some (c'', s'')" "ccs_inv C s'' S''" "S' \<subseteq>\<^sub>m S''"
      "S'' c'' = Some (push_spec l x)" "frame s' S' s''"
    using push_ok [OF a(2) c assms(3)] by blast
  have "S'' c' = Some (push_spec l x)" using b(3) a(4) by (metis domI map_le_def)
  then have same: "c'' = c'" using ccs_inv_inj [OF b(2) b(4)] by blast
  have uniq: "\<forall>d. S' d = S' c' \<longrightarrow> d = c'" using ccs_inv_inj [OF a(2)] a(4) by metis
  have again: "pushCostCentre c x s' = Some (c', s'')" using b(1) unfolding same .
  have fr: "\<forall>d\<in>dom S. ccs_at s' d = (ccs_at s d)\<lparr>indexTable := indexTable (ccs_at s' d)\<rparr>"
    using a(5) unfolding frame_def by blast
  show ?thesis
    by (rule exI [of _ c'], rule exI [of _ s'], rule exI [of _ S'], intro conjI)
      (fact a(1), fact a(2), fact a(3), fact a(4) [unfolded push_spec_def], fact uniq, rule exI, fact again, fact fr)
qed

text \<open>
  Claim C14.  \<open>enterFunCCS\<close> as an operation on lists, in three cases.  A function stack \<open>B\<close> of a single cost centre on
  \<open>MAIN\<close> leaves the current stack \<open>A\<close> alone; this is not the operation of its comment, by whose second example
  that cost centre is pushed.  For every other \<open>B\<close> in the same tree as \<open>A\<close> it is the operation of the comment: the new
  current stack is \<open>A\<close> with \<open>dropCommonPrefix A B\<close> pushed onto it, whichever stack is deeper.  In different
  trees, where the code calls \<open>appendCCS\<close>, the part of \<open>B\<close> above its last CAF is pushed.\<close>

theorem enterFunCCS_correct:
  assumes i: "ccs_inv C s S" and A: "S (rCCCS s) = Some A" and B: "S f = Some B" and m: "S CCS_MAIN = Some [m]"
  shows "\<exists>s' S'. enterFunCCS f s = Some s' \<and> ccs_inv C s' S' \<and> S \<subseteq>\<^sub>m S' \<and>
    S' (rCCCS s') = Some
      (if length B = 2 then A
       else if ccs_root (ccs_at s f) = ccs_root (ccs_at s (rCCCS s)) then foldl push_spec A (dropCommonPrefix A B)
       else foldl push_spec A (append_part (\<lambda>x. is_caf (cc_at s x)) A B))"
proof -
  let ?a = "rCCCS s"
  let ?s = "s\<lparr>rCCCS := CCS_OVERHEAD\<rparr>"
  let ?goal = "if length B = 2 then A
       else if ccs_root (ccs_at s f) = ccs_root (ccs_at s (rCCCS s)) then foldl push_spec A (dropCommonPrefix A B)
       else foldl push_spec A (append_part (\<lambda>x. is_caf (cc_at s x)) A B)"
  have i0: "ccs_inv C ?s S" using i by simp
  note Df = ccs_invD [OF i B] and Da = ccs_invD [OF i A] and pm = prev_main_iff [OF i B m]
  show ?thesis
  proof (cases "f = ?a \<or> length B = 2")
    case True
    then have "enterFunCCS f s = Some s" using pm Df(1) by (auto simp: enterFunCCS_def rd_Some)
    moreover have "?goal = A" using True A B by auto
    ultimately show ?thesis using i A by (intro exI [of _ s] exI [of _ S]) simp
  next
    case False
    let ?r = "if ccs_root (ccs_at s f) \<noteq> ccs_root (ccs_at s ?a) then appendCCS ?a f ?s
             else if depth (ccs_at s f) < depth (ccs_at s ?a) then do {
               tmp \<leftarrow> drop_stack (unat (ucast (depth (ccs_at s ?a) - depth (ccs_at s f)) :: StgWord32)) ?a ?s;
               enterFunEqualStacks ?a tmp f ?s
             }
             else if depth (ccs_at s ?a) < depth (ccs_at s f)
             then enterFunCurShorter ?a f (unat (depth (ccs_at s f) - depth (ccs_at s ?a))) ?s
             else enterFunEqualStacks ?a ?a f ?s"
    have run: "enterFunCCS f s = ?r \<bind> (\<lambda>(r, s). Some (s\<lparr>rCCCS := r\<rparr>))"
      using False pm Df(1) Da(1) by (simp add: enterFunCCS_def rd_Some Let_def)
    have "after C ?s S ?goal ?r"
    proof (cases "ccs_root (ccs_at s f) = ccs_root (ccs_at s ?a)")
      case root: False
      then show ?thesis using False appendCCS_ok [OF i0 A m B] by (simp add: pushes_def)
    next
      case root: True
      have at: "ccs_at ?s = ccs_at s" and l: "(length B = 2) = False" using False by simp_all
      show ?thesis using enterFun_same_root [OF i0 A B] by (simp only: at root l pushes_def simp_thms if_True if_False)
    qed
    then obtain c' s' S' where r: "?r = Some (c', s')" "ccs_inv C s' S'" "S \<subseteq>\<^sub>m S'" "S' c' = Some ?goal"
      unfolding after_def by blast
    then show ?thesis unfolding run by (intro exI [of _ "s'\<lparr>rCCCS := c'\<rparr>"] exI [of _ S']) simp
  qed
qed

text \<open>A program with one CAF.\<close>

definition prof0 :: prof_state where
  "prof0 = \<lparr>ccs_at = (\<lambda>c. \<lparr>ccsID = 0, ccs_cc = c, prevStack = 0, indexTable = [], ccs_root = 0, depth = 0, scc_count = 0,
       selected = True, time_ticks = 0, mem_alloc = 0, inherited_alloc = 0, inherited_ticks = 0\<rparr>),
     cc_at = (\<lambda>c. \<lparr>ccID = 0, cc_label = ''x'', cc_module = ''Main'', cc_srcloc = [], cc_mem_alloc = 0, cc_time_ticks = 0, is_caf = (c = 5), cc_link = 0\<rparr>),
     ccs_fresh = 9, CCS_ID = 1, modSelector = Some ''Main,A'', ccSelector = None, ccsSelector = Some ''y,x'', rCCCS = 5\<rparr>"

lemma prof0_start:
  "\<exists>s S. initProfiling2 [5] prof0 = Some s \<and> ccs_inv {1, 5, 6, 7} s S \<and> S CCS_MAIN = Some [1] \<and> S 5 = Some [1, 5] \<and> rCCCS s = 5"
  using initProfiling2_ok [of "{1, 5, 6, 7}" 1 prof0 "[5]"] by (simp add: prof0_def CCS_MAIN_def)

theorem pushCostCentre_canonical_witness:
  "\<exists>s c' s'. initProfiling2 [5] prof0 = Some s \<and> pushCostCentre 5 6 s = Some (c', s') \<and>
     (\<exists>s''. pushCostCentre 5 6 s' = Some (c', s''))"
proof -
  obtain s S where s: "initProfiling2 [5] prof0 = Some s" "ccs_inv {1, 5, 6, 7} s S" "S 5 = Some [1, 5]"
    using prof0_start by blast
  then show ?thesis using pushCostCentre_canonical [OF s(2,3), of 6] by blast
qed

theorem enterFunCCS_correct_witness:
  "\<exists>s c s1 f s2 s' S'. initProfiling2 [5] prof0 = Some s \<and> pushCostCentre CCS_MAIN 6 s = Some (c, s1) \<and>
     pushCostCentre c 7 s1 = Some (f, s2) \<and> enterFunCCS f s2 = Some s' \<and>
     ccs_inv {1, 5, 6, 7} s' S' \<and> S' f = Some [1, 6, 7] \<and> S' (rCCCS s') \<noteq> None"
proof -
  obtain s S where s: "initProfiling2 [5] prof0 = Some s" "ccs_inv {1, 5, 6, 7} s S" "S CCS_MAIN = Some [1]" "S 5 = Some [1, 5]"
      "rCCCS s = 5"
    using prof0_start by blast
  obtain c s1 S1 where a: "pushCostCentre CCS_MAIN 6 s = Some (c, s1)" "ccs_inv {1, 5, 6, 7} s1 S1" "S \<subseteq>\<^sub>m S1"
      "S1 c = Some [1, 6]" "frame s S s1"
    using push_ok [OF s(2,3), of 6] by (auto simp: push_spec_def)
  obtain f s2 S2 where b: "pushCostCentre c 7 s1 = Some (f, s2)" "ccs_inv {1, 5, 6, 7} s2 S2" "S1 \<subseteq>\<^sub>m S2"
      "S2 f = Some [1, 6, 7]" "frame s1 S1 s2"
    using push_ok [OF a(2,4), of 7] by (auto simp: push_spec_def)
  have le: "S \<subseteq>\<^sub>m S2" by (rule map_le_trans [OF a(3) b(3)])
  have m: "S2 CCS_MAIN = Some [1]" and five: "S2 5 = Some [1, 5]" using le s(3,4) by (metis domI map_le_def)+
  have "rCCCS s2 = 5" using a(5) b(5) s(5) by (simp add: frame_def)
  then have A: "S2 (rCCCS s2) = Some [1, 5]" using five by simp
  obtain s' S' where e: "enterFunCCS f s2 = Some s'" "ccs_inv {1, 5, 6, 7} s' S'" "S2 \<subseteq>\<^sub>m S'" "S' (rCCCS s') \<noteq> None"
    using enterFunCCS_correct [OF b(2) A b(4) m] by blast
  moreover have "S' f = Some [1, 6, 7]" using e(3) b(4) by (metis domI map_le_def)
  ultimately show ?thesis using s(1) a(1) b(1) by blast
qed

text \<open>
  Claim C37.  A selector is a list of names with commas between them, and \<open>strMatchesSelector\<close>, which always
  returns, matches exactly these names: the string has no comma, and it stands somewhere in the selector between
  the start or a comma and the end or a comma.  The one exception is the empty name after a last comma, which
  is not matched.\<close>

theorem selector_is_a_list:
  "strMatchesSelector str sel \<longleftrightarrow> CHR '','' \<notin> set str \<and>
     (\<exists>pre post. sel = pre @ str @ post \<and>
        (pre = [] \<or> last pre = CHR '','') \<and> (post = [] \<or> hd post = CHR '','') \<and>
        \<not> (str = [] \<and> post = [] \<and> pre \<noteq> []))"
  unfolding strMatchesSelector_names by (rule selector_names_fragment [unfolded fragment_def])

text \<open>
  Two threads that push the same cost centre onto the same stack, each of which has looked at the table before the other took
  the lock: the second one looks at the old table again, and the stack gets two nodes.
\<close>

lemma actualPush_runs:
  assumes "links_ok s S" "S c = Some l" "S (ccs_fresh s) = None" "ccs_fresh s \<noteq> NULL"
  shows "\<exists>s'. actualPush c x s = Some (ccs_fresh s, s')"
proof -
  let ?n = "ccs_fresh s"
  define s1 where "s1 = (upd_ccs ?n (\<lambda>n. n\<lparr>ccsID := CCS_ID s, ccs_cc := x, prevStack := c, ccs_root := ccs_root (ccs_at s c),
         depth := depth (ccs_at s c) + 1, indexTable := [], scc_count := 0, time_ticks := 0, mem_alloc := 0,
         inherited_ticks := 0, inherited_alloc := 0\<rparr>) (s\<lparr>ccs_fresh := ?n + 1\<rparr>))\<lparr>CCS_ID := CCS_ID s + 1\<rparr>"
  have c0: "c \<noteq> NULL" using assms(1,2) by (auto simp: links_ok_def)
  have "links_ok s1 S" using assms(1,3) unfolding links_ok_def s1_def upd_ccs_def by fastforce
  then have "ccs_chain s1 ?n (x # rev l)" using links_chain [of s1 S c l] assms(2,4) by (simp add: s1_def upd_ccs_def)
  then obtain b where "ccsSetSelected ?n s1 = Some (upd_ccs ?n (\<lambda>n. n\<lparr>selected := b\<rparr>) s1)"
    using ccsSetSelected_ok assms(4) by blast
  then show ?thesis using c0 by (simp add: actualPush_def actualPush_into_def rd_def s1_def Let_def)
qed

lemma push_race_duplicates:
  assumes i: "ccs_inv C s S" and c: "S c = Some l" and x: "x \<in> C" "x \<notin> set l"
    and miss: "isInIndexTable (indexTable (ccs_at s c)) x = NULL"
  shows "\<exists>n s1 n' s2. push_locked c x (indexTable (ccs_at s c)) s = Some (n, s1) \<and>
    push_locked c x (indexTable (ccs_at s c)) s1 = Some (n', s2) \<and> n' \<noteq> n"
proof -
  let ?it = "indexTable (ccs_at s c)"
  have nn: "\<forall>e\<in>set ?it. it_ccs e \<noteq> NULL" using ccs_invD(10) [OF i c] ccs_invD(1) [OF i] by blast
  note miss' = isInIndexTable_miss [OF miss nn]
  obtain s1 where a: "actualPush c x s = Some (ccs_fresh s, s1)" "ccs_inv C s1 (S(ccs_fresh s \<mapsto> l @ [x]))"
      "S (ccs_fresh s) = None"
    using actualPush_ok [OF i c x(2,1) miss'] by blast
  let ?S = "S(ccs_fresh s \<mapsto> l @ [x])"
  have c1: "?S c = Some l" using c a(3) by auto
  have lk: "links_ok s S" "links_ok s1 ?S" using i a(2) by (simp_all add: ccs_inv_def)
  have loop: "checkLoop s c x = Some NULL" "checkLoop s1 c x = Some NULL"
    using checkLoop_chain [OF lk(1) c, of x] checkLoop_chain [OF lk(2) c1, of x] x(2) by auto
  have fresh: "ccs_fresh s < ccs_fresh s1" using ccs_invD(4) [OF a(2), of "ccs_fresh s"] by simp
  have none: "?S (ccs_fresh s1) = None" using ccs_invD(4) [OF a(2), of "ccs_fresh s1"] by (cases "?S (ccs_fresh s1)") auto
  obtain s2 where b: "actualPush c x s1 = Some (ccs_fresh s1, s2)"
    using actualPush_runs [OF lk(2) c1 none] fresh by auto
  show ?thesis using a(1) b loop miss fresh by (auto simp: push_locked_def)
qed

end
