(* ===== verification/ProfReport.thy ===== *)
theory ProfReport
  imports CostCentres "HOL-Library.Sublist"
begin

text \<open>
  The sums of the time and allocation report, \<open>rts/Profiling.c\<close>: \<open>countTickss\<close> adds up the costs of all stacks,
  \<open>inheritCosts\<close> gives each stack the costs of the stacks above it.  Both walk the tree of the tables and skip back edges;
  a loop over a table with the recursive call in it is one function here.  Sums are sums of words,
  so they hold modulo \<open>2^64\<close>, as in the source.
\<close>

definition COST_CENTRES_ALL :: nat where "COST_CENTRES_ALL = 3"
definition CCS_SYSTEM :: addr where "CCS_SYSTEM = 3"
definition CCS_GC :: addr where "CCS_GC = 4"
definition CCS_DONT_CARE :: addr where "CCS_DONT_CARE = 6"

definition ignoreCCS :: "nat \<Rightarrow> addr \<Rightarrow> bool" where
  "ignoreCCS doCostCentres ccs =
     (doCostCentres < COST_CENTRES_ALL \<and>
      (ccs = CCS_OVERHEAD \<or> ccs = CCS_DONT_CARE \<or> ccs = CCS_GC \<or> ccs = CCS_SYSTEM))"

definition count_node :: "nat \<Rightarrow> prof_state \<Rightarrow> addr \<Rightarrow> StgWord \<times> StgWord \<Rightarrow> StgWord \<times> StgWord" where
  "count_node fl s ccs = (\<lambda>(total_alloc, total_prof_ticks).
     if \<not> ignoreCCS fl ccs
     then (total_alloc + mem_alloc (ccs_at s ccs), total_prof_ticks + time_ticks (ccs_at s ccs))
     else (total_alloc, total_prof_ticks))"

partial_function (option) count_loop ::
    "nat \<Rightarrow> prof_state \<Rightarrow> IndexTable list \<Rightarrow> StgWord \<times> StgWord \<Rightarrow> (StgWord \<times> StgWord) option" where
  "count_loop fl s it t =
     (case it of
        [] \<Rightarrow> Some t
      | e # rest \<Rightarrow>
          if back_edge e then count_loop fl s rest t
          else do {
            t \<leftarrow> count_loop fl s (indexTable (ccs_at s (it_ccs e))) (count_node fl s (it_ccs e) t);
            count_loop fl s rest t
          })"

declare count_loop.simps [code]

definition countTickss :: "nat \<Rightarrow> prof_state \<Rightarrow> addr \<Rightarrow> StgWord \<times> StgWord \<Rightarrow> (StgWord \<times> StgWord) option" where
  "countTickss fl s ccs t = count_loop fl s (indexTable (ccs_at s ccs)) (count_node fl s ccs t)"

definition inherit_own :: "addr \<Rightarrow> prof_state \<Rightarrow> prof_state" where
  "inherit_own ccs = upd_ccs ccs (\<lambda>c. c\<lparr>inherited_ticks := inherited_ticks c + time_ticks c,
     inherited_alloc := inherited_alloc c + mem_alloc c\<rparr>)"

definition inherit_from :: "addr \<Rightarrow> addr \<Rightarrow> prof_state \<Rightarrow> prof_state" where
  "inherit_from ccs child s = upd_ccs ccs (\<lambda>c. c\<lparr>inherited_ticks := inherited_ticks c + inherited_ticks (ccs_at s child),
     inherited_alloc := inherited_alloc c + inherited_alloc (ccs_at s child)\<rparr>) s"

partial_function (option) inherit_loop :: "nat \<Rightarrow> addr \<Rightarrow> IndexTable list \<Rightarrow> prof_state \<Rightarrow> prof_state option" where
  "inherit_loop fl ccs it s =
     (case it of
        [] \<Rightarrow> Some s
      | e # rest \<Rightarrow>
          if back_edge e then inherit_loop fl ccs rest s
          else do {
            s \<leftarrow> (if ignoreCCS fl (it_ccs e) then Some s
                  else inherit_loop fl (it_ccs e) (indexTable (ccs_at s (it_ccs e))) (inherit_own (it_ccs e) s));
            inherit_loop fl ccs rest (inherit_from ccs (it_ccs e) s)
          })"

declare inherit_loop.simps [code]

definition inheritCosts :: "nat \<Rightarrow> addr \<Rightarrow> prof_state \<Rightarrow> prof_state option" where
  "inheritCosts fl ccs s =
     (if ignoreCCS fl ccs then Some s
      else inherit_loop fl ccs (indexTable (ccs_at s ccs)) (inherit_own ccs s))"

section \<open>The tree of stacks\<close>

text \<open>The stacks that extend a list, reached without passing a stack that \<open>ig\<close> excludes.\<close>

definition extensions :: "(addr \<rightharpoonup> addr list) \<Rightarrow> (addr \<Rightarrow> bool) \<Rightarrow> addr list \<Rightarrow> addr set" where
  "extensions S ig l = {d. \<exists>k. S d = Some k \<and> prefix l k \<and> (\<forall>e j. S e = Some j \<longrightarrow> prefix l j \<longrightarrow> prefix j k \<longrightarrow> \<not> ig e)}"

definition kids :: "IndexTable list \<Rightarrow> addr list" where
  "kids it = map it_cc (filter (\<lambda>e. \<not> back_edge e) it)"

lemma ccs_inv_finite:
  assumes "ccs_inv C s S"
  shows "finite (dom S)"
proof -
  have "S ` dom S \<subseteq> Some ` {l. set l \<subseteq> C \<and> distinct l}"
    using ccs_invD(5,6) [OF assms] by force
  moreover have "finite {l. set l \<subseteq> C \<and> distinct l}" using assms by (intro finite_subset_distinct) (simp add: ccs_inv_def)
  ultimately have "finite (S ` dom S)" by (meson finite_imageI finite_subset)
  then show ?thesis using assms by (simp add: ccs_inv_def finite_image_iff)
qed

lemma above_dom: "extensions S ig l \<subseteq> dom S"
  by (auto simp: extensions_def)

text \<open>Every prefix of a stack is a stack.\<close>

lemma prefix_node:
  assumes i: "ccs_inv C s S"
  shows "S d = Some k \<Longrightarrow> prefix l k \<Longrightarrow> l \<noteq> [] \<Longrightarrow> \<exists>d'. S d' = Some l"
proof (induction k arbitrary: d rule: rev_induct)
  case (snoc x k)
  show ?case
  proof (cases "l = k @ [x]")
    case True
    then show ?thesis using snoc.prems(1) by blast
  next
    case False
    then have p: "prefix l k" using snoc.prems(2) by simp
    then have "k \<noteq> []" using snoc.prems(3) by auto
    then have "S (prevStack (ccs_at s d)) = Some k" using ccs_invD(9) [OF i snoc.prems(1)] by simp
    then show ?thesis using snoc.IH p snoc.prems(3) by blast
  qed
qed simp

lemma kid_edge:
  assumes "ccs_inv C s S" "S c = Some l" "e \<in> set (indexTable (ccs_at s c))" "\<not> back_edge e"
  shows "S (it_ccs e) = Some (l @ [it_cc e])" "it_cc e \<notin> set l"
  using ccs_invD(10) [OF assms(1-3)] assms(4) push_spec_new by auto

lemma above_split:
  assumes i: "ccs_inv C s S" and c: "S c = Some l" and ig: "\<not> ig c"
  shows "extensions S ig l = insert c (\<Union>x\<in>set (kids (indexTable (ccs_at s c))). extensions S ig (l @ [x]))"
proof (intro equalityI subsetI)
  fix d
  assume "d \<in> extensions S ig l"
  then obtain k where k: "S d = Some k" "prefix l k" "\<forall>e j. S e = Some j \<longrightarrow> prefix l j \<longrightarrow> prefix j k \<longrightarrow> \<not> ig e"
    by (auto simp: extensions_def)
  show "d \<in> insert c (\<Union>x\<in>set (kids (indexTable (ccs_at s c))). extensions S ig (l @ [x]))"
  proof (cases "k = l")
    case True
    then show ?thesis using ccs_inv_inj [OF i c] k(1) by simp
  next
    case False
    then obtain x z where kx: "k = l @ x # z" using k(2) by (auto elim!: prefixE) (metis append_Nil2 neq_Nil_conv)
    have "\<exists>d'. S d' = Some (l @ [x])" using prefix_node [OF i k(1), of "l @ [x]"] kx by simp
    then obtain d' where d': "S d' = Some (l @ [x])" by blast
    then obtain e where e: "e \<in> set (indexTable (ccs_at s c))" "it_cc e = x" using ccs_invD(11) [OF i c] by blast
    have "x \<notin> set l" using ccs_invD(5) [OF i d'] by simp
    then have "\<not> back_edge e" using ccs_invD(10) [OF i c e(1)] e(2) by simp
    then have "x \<in> set (kids (indexTable (ccs_at s c)))" using e by (auto simp: kids_def)
    moreover have "d \<in> extensions S ig (l @ [x])"
      using k kx by (auto simp: extensions_def intro: append_prefixD)
    ultimately show ?thesis by blast
  qed
next
  fix d
  assume d: "d \<in> insert c (\<Union>x\<in>set (kids (indexTable (ccs_at s c))). extensions S ig (l @ [x]))"
  show "d \<in> extensions S ig l"
  proof (cases "d = c")
    case True
    moreover have "\<not> ig e" if "S e = Some j" "prefix l j" "prefix j l" for e j
      using that ig ccs_inv_inj [OF i c] prefix_order.antisym by blast
    ultimately show ?thesis using c by (auto simp: extensions_def)
  next
    case False
    then obtain x where x: "d \<in> extensions S ig (l @ [x])" using d by auto
    then obtain k where k: "S d = Some k" "prefix (l @ [x]) k"
        "\<forall>e j. S e = Some j \<longrightarrow> prefix (l @ [x]) j \<longrightarrow> prefix j k \<longrightarrow> \<not> ig e"
      by (auto simp: extensions_def)
    have "\<not> ig e" if j: "S e = Some j" "prefix l j" "prefix j k" for e j
    proof (cases "j = l")
      case True
      then show ?thesis using ig ccs_inv_inj [OF i c] j(1) by blast
    next
      case False
      then have "prefix (l @ [x]) j"
        using j(2,3) k(2) by (auto simp: prefix_def append_eq_Cons_conv)
      then show ?thesis using k(3) j by blast
    qed
    then show ?thesis using k append_prefixD [OF k(2)] by (auto simp: extensions_def)
  qed
qed

lemma above_disjoint: "x \<noteq> y \<Longrightarrow> extensions S ig (l @ [x]) \<inter> extensions S ig (l @ [y]) = {}"
  by (auto simp: extensions_def prefix_def)

lemma above_self_notin: "S c = Some l \<Longrightarrow> c \<notin> extensions S ig (l @ [x])"
  by (auto simp: extensions_def)

lemma kids_distinct: "distinct (map it_cc it) \<Longrightarrow> distinct (kids it)"
  unfolding kids_def by (induction it) auto

lemma sum_kids:
  assumes "finite (dom S)" "distinct ks"
  shows "(\<Sum>d\<in>(\<Union>x\<in>set ks. extensions S ig (l @ [x])). g d :: StgWord) = (\<Sum>x\<leftarrow>ks. \<Sum>d\<in>extensions S ig (l @ [x]). g d)"
  using assms(2)
proof (induction ks)
  case (Cons x ks)
  have fin: "finite (extensions S ig k)" for k by (rule finite_subset [OF above_dom assms(1)])
  have "extensions S ig (l @ [x]) \<inter> (\<Union>y\<in>set ks. extensions S ig (l @ [y])) = {}"
    using Cons.prems above_disjoint [of x _ S ig l] by fastforce
  then show ?case using Cons fin by (simp add: sum.union_disjoint)
qed simp

lemma sum_above:
  assumes i: "ccs_inv C s S" and c: "S c = Some l" and ig: "\<not> ig c"
  shows "(\<Sum>d\<in>extensions S ig l. g d :: StgWord) =
    g c + (\<Sum>x\<leftarrow>kids (indexTable (ccs_at s c)). \<Sum>d\<in>extensions S ig (l @ [x]). g d)"
proof -
  note fin = ccs_inv_finite [OF i]
  let ?U = "\<Union>x\<in>set (kids (indexTable (ccs_at s c))). extensions S ig (l @ [x])"
  have "finite ?U" by (rule finite_subset [OF _ fin]) (use above_dom in blast)
  moreover have "c \<notin> ?U" using above_self_notin [of S c l ig] c by blast
  ultimately show ?thesis
    using sum_kids [OF fin kids_distinct [OF ccs_invD(12) [OF i c]]] by (simp add: above_split [where ig = ig, OF i c ig])
qed

section \<open>Totals\<close>

definition alloc_of :: "nat \<Rightarrow> prof_state \<Rightarrow> addr \<Rightarrow> StgWord" where
  "alloc_of fl s d = (if ignoreCCS fl d then 0 else mem_alloc (ccs_at s d))"

definition ticks_in :: "nat \<Rightarrow> prof_state \<Rightarrow> addr \<Rightarrow> StgWord" where
  "ticks_in fl s d = (if ignoreCCS fl d then 0 else time_ticks (ccs_at s d))"

abbreviation everything :: "(addr \<rightharpoonup> addr list) \<Rightarrow> addr list \<Rightarrow> addr set" where
  "everything S l \<equiv> extensions S (\<lambda>_. False) l"

lemma count_node_adds: "count_node fl s c (a, t) = (a + alloc_of fl s c, t + ticks_in fl s c)"
  by (simp add: count_node_def alloc_of_def ticks_in_def)

lemma length_le_card:
  assumes "ccs_inv C s S" "S c = Some l"
  shows "length l \<le> card C"
proof -
  have "finite C" using assms(1) by (simp add: ccs_inv_def)
  then show ?thesis
    using card_mono [OF _ ccs_invD(6) [OF assms]] distinct_card [OF ccs_invD(5) [OF assms]] by simp
qed

lemma count_loop_sums:
  assumes i: "ccs_inv C s S"
  shows "S c = Some l \<Longrightarrow> set it \<subseteq> set (indexTable (ccs_at s c)) \<Longrightarrow>
    count_loop fl s it (a, t) = Some
      (a + (\<Sum>x\<leftarrow>kids it. \<Sum>d\<in>everything S (l @ [x]). alloc_of fl s d),
       t + (\<Sum>x\<leftarrow>kids it. \<Sum>d\<in>everything S (l @ [x]). ticks_in fl s d))"
proof (induction "card C - length l" arbitrary: c l it a t rule: less_induct)
  case less
  show ?case using less.prems(2)
  proof (induction it arbitrary: a t)
    case Nil
    then show ?case by (subst count_loop.simps) (simp add: kids_def)
  next
    case (Cons e it)
    then have e: "e \<in> set (indexTable (ccs_at s c))" and it: "set it \<subseteq> set (indexTable (ccs_at s c))" by auto
    show ?case
    proof (cases "back_edge e")
      case True
      then show ?thesis using Cons.IH [OF it] by (subst count_loop.simps) (simp add: kids_def)
    next
      case False
      note k = kid_edge(1) [OF i less.prems(1) e False]
      have lt: "card C - length (l @ [it_cc e]) < card C - length l" using length_le_card [OF i k] by simp
      note inner = less.hyps [OF lt k order.refl] and split = sum_above [OF i k, of "\<lambda>_. False", simplified]
      show ?thesis
        using False Cons.IH [OF it]
        by (subst count_loop.simps) (simp add: count_node_adds inner kids_def [of "e # it"] split add.assoc flip: kids_def)
    qed
  qed
qed

lemma everything_main:
  assumes i: "ccs_inv C s S" and m: "S CCS_MAIN = Some [m]"
  shows "everything S [m] = dom S"
proof -
  have "prefix [m] k" if k: "S d = Some k" for d k
  proof -
    have "k \<noteq> []" using ccs_invD(2) [OF i k] .
    moreover have "prefix [hd k] k" using calculation by (cases k) auto
    ultimately obtain d' where "S d' = Some [hd k]" using prefix_node [OF i k, of "[hd k]"] by auto
    then have "hd k = m" using ccs_invD(8) [OF i, of d' "[hd k]"] m by auto
    then show ?thesis using \<open>k \<noteq> []\<close> by (cases k) auto
  qed
  then show ?thesis by (auto simp: extensions_def)
qed

text \<open>
  Claim C38.  The totals of the report are right: \<open>countTickss\<close> on \<open>MAIN\<close> returns, and adds to the totals the allocation and the ticks
  of every stack exactly once, those of the profiler, the collector and the runtime system apart unless
  all cost centres are asked for.\<close>

theorem countTickss_counts_once:
  assumes "ccs_inv C s S" "S CCS_MAIN = Some [m]"
  shows "countTickss fl s CCS_MAIN (0, 0) = Some
    (\<Sum>d\<in>{d \<in> dom S. \<not> ignoreCCS fl d}. mem_alloc (ccs_at s d), \<Sum>d\<in>{d \<in> dom S. \<not> ignoreCCS fl d}. time_ticks (ccs_at s d))"
proof -
  note fin = ccs_inv_finite [OF assms(1)] and split = sum_above [OF assms, of "\<lambda>_. False", simplified]
  have "countTickss fl s CCS_MAIN (0, 0) = Some
    (\<Sum>d\<in>everything S [m]. alloc_of fl s d, \<Sum>d\<in>everything S [m]. ticks_in fl s d)"
    by (simp add: countTickss_def count_node_adds count_loop_sums [OF assms order.refl] split)
  moreover have "(\<Sum>d\<in>dom S. alloc_of fl s d) = (\<Sum>d\<in>{d \<in> dom S. \<not> ignoreCCS fl d}. mem_alloc (ccs_at s d))"
    "(\<Sum>d\<in>dom S. ticks_in fl s d) = (\<Sum>d\<in>{d \<in> dom S. \<not> ignoreCCS fl d}. time_ticks (ccs_at s d))"
    using fin by (auto simp: alloc_of_def ticks_in_def sum.inter_filter intro!: sum.cong)
  ultimately show ?thesis by (simp add: everything_main [OF assms])
qed

theorem countTickss_counts_once_witness:
  "\<exists>s S. initProfiling2 [5] prof0 = Some s \<and> ccs_inv {1, 5, 6, 7} s S \<and> countTickss 1 s CCS_MAIN (0, 0) = Some
    (\<Sum>d\<in>{d \<in> dom S. \<not> ignoreCCS 1 d}. mem_alloc (ccs_at s d), \<Sum>d\<in>{d \<in> dom S. \<not> ignoreCCS 1 d}. time_ticks (ccs_at s d))"
proof -
  obtain s S where s: "initProfiling2 [5] prof0 = Some s" "ccs_inv {1, 5, 6, 7} s S" "S CCS_MAIN = Some [1]"
    using prof0_start by blast
  show ?thesis
    by (rule exI [of _ s], rule exI [of _ S], rule conjI [OF s(1)], rule conjI [OF s(2)])
      (rule countTickss_counts_once [OF s(2,3)])
qed

section \<open>Inherited costs\<close>

text \<open>The costs of a stack and of those above it that are reached without passing an ignored one.\<close>

definition inh_ticks :: "nat \<Rightarrow> prof_state \<Rightarrow> (addr \<rightharpoonup> addr list) \<Rightarrow> addr list \<Rightarrow> StgWord" where
  "inh_ticks fl s S l = (\<Sum>d\<in>extensions S (ignoreCCS fl) l. time_ticks (ccs_at s d))"

definition inh_alloc :: "nat \<Rightarrow> prof_state \<Rightarrow> (addr \<rightharpoonup> addr list) \<Rightarrow> addr list \<Rightarrow> StgWord" where
  "inh_alloc fl s S l = (\<Sum>d\<in>extensions S (ignoreCCS fl) l. mem_alloc (ccs_at s d))"

text \<open>States that differ in inherited costs only.\<close>

definition same_tree :: "prof_state \<Rightarrow> prof_state \<Rightarrow> bool" where
  "same_tree s s' = (\<forall>d. indexTable (ccs_at s' d) = indexTable (ccs_at s d) \<and>
     time_ticks (ccs_at s' d) = time_ticks (ccs_at s d) \<and> mem_alloc (ccs_at s' d) = mem_alloc (ccs_at s d))"

definition no_costs :: "prof_state \<Rightarrow> addr set \<Rightarrow> bool" where
  "no_costs s D = (\<forall>d\<in>D. inherited_ticks (ccs_at s d) = 0 \<and> inherited_alloc (ccs_at s d) = 0)"

definition inherits :: "nat \<Rightarrow> prof_state \<Rightarrow> (addr \<rightharpoonup> addr list) \<Rightarrow> prof_state \<Rightarrow> addr set \<Rightarrow> bool" where
  "inherits fl s0 S s D = (\<forall>d\<in>D. \<forall>k. S d = Some k \<longrightarrow>
     inherited_ticks (ccs_at s d) = inh_ticks fl s0 S k \<and> inherited_alloc (ccs_at s d) = inh_alloc fl s0 S k)"

lemma extensions_ignored: "S c = Some l \<Longrightarrow> ig c \<Longrightarrow> extensions S ig l = {}"
  by (auto simp: extensions_def)

lemma extensions_le: "extensions S ig l \<subseteq> everything S l"
  by (auto simp: extensions_def)

lemma everything_mono: "everything S (l @ m) \<subseteq> everything S l"
  by (auto simp: extensions_def intro: append_prefixD)

definition loop_post :: "nat \<Rightarrow> prof_state \<Rightarrow> (addr \<rightharpoonup> addr list) \<Rightarrow> addr \<Rightarrow> addr list \<Rightarrow> addr list \<Rightarrow> prof_state \<Rightarrow> prof_state \<Rightarrow> bool" where
  "loop_post fl s0 S c l ks s s' =
     (let D = (\<Union>x\<in>set ks. extensions S (ignoreCCS fl) (l @ [x]))
      in same_tree s0 s' \<and> inherits fl s0 S s' D \<and>
         inherited_ticks (ccs_at s' c) = inherited_ticks (ccs_at s c) + (\<Sum>x\<leftarrow>ks. inh_ticks fl s0 S (l @ [x])) \<and>
         inherited_alloc (ccs_at s' c) = inherited_alloc (ccs_at s c) + (\<Sum>x\<leftarrow>ks. inh_alloc fl s0 S (l @ [x])) \<and>
         (\<forall>d. d \<noteq> c \<longrightarrow> d \<notin> D \<longrightarrow> ccs_at s' d = ccs_at s d))"

text \<open>One child: after it, its subtree has its costs and the parent those of the child added.\<close>

lemma inherit_child:
  assumes i: "ccs_inv C s0 S" and c: "S c = Some l" and k: "S k = Some (l @ [x])"
    and st: "same_tree s0 s" and z: "no_costs s (everything S (l @ [x]))"
    and IH: "\<not> ignoreCCS fl k \<Longrightarrow> \<exists>s'. inherit_loop fl k (indexTable (ccs_at s k)) (inherit_own k s) = Some s' \<and>
      loop_post fl s0 S k (l @ [x]) (kids (indexTable (ccs_at s0 k))) (inherit_own k s) s'"
  shows "\<exists>s1. (if ignoreCCS fl k then Some s else inherit_loop fl k (indexTable (ccs_at s k)) (inherit_own k s)) = Some s1 \<and>
    loop_post fl s0 S c l [x] s (inherit_from c k s1)"
proof -
  have ck: "c \<noteq> k" using c k by auto
  have kin: "k \<in> everything S (l @ [x])" using k by (auto simp: extensions_def)
  show ?thesis
  proof (cases "ignoreCCS fl k")
    case True
    have "extensions S (ignoreCCS fl) (l @ [x]) = {}" by (rule extensions_ignored [of S k "l @ [x]" "ignoreCCS fl", OF k True])
    moreover have "inherited_ticks (ccs_at s k) = 0" "inherited_alloc (ccs_at s k) = 0"
      using z kin by (auto simp: no_costs_def)
    ultimately show ?thesis using True st
      by (auto simp: loop_post_def Let_def inherits_def inh_ticks_def inh_alloc_def inherit_from_def upd_ccs_def same_tree_def)
  next
    case False
    obtain s1 where s1: "inherit_loop fl k (indexTable (ccs_at s k)) (inherit_own k s) = Some s1"
      "loop_post fl s0 S k (l @ [x]) (kids (indexTable (ccs_at s0 k))) (inherit_own k s) s1"
      using IH [OF False] by blast
    let ?D = "\<Union>y\<in>set (kids (indexTable (ccs_at s0 k))). extensions S (ignoreCCS fl) ((l @ [x]) @ [y])"
    have p: "same_tree s0 s1" "inherits fl s0 S s1 ?D"
      "inherited_ticks (ccs_at s1 k) = inherited_ticks (ccs_at (inherit_own k s) k) + (\<Sum>y\<leftarrow>kids (indexTable (ccs_at s0 k)). inh_ticks fl s0 S ((l @ [x]) @ [y]))"
      "inherited_alloc (ccs_at s1 k) = inherited_alloc (ccs_at (inherit_own k s) k) + (\<Sum>y\<leftarrow>kids (indexTable (ccs_at s0 k)). inh_alloc fl s0 S ((l @ [x]) @ [y]))"
      "\<And>d. d \<noteq> k \<Longrightarrow> d \<notin> ?D \<Longrightarrow> ccs_at s1 d = ccs_at (inherit_own k s) d"
      using s1(2) unfolding loop_post_def Let_def by blast+
    have E: "extensions S (ignoreCCS fl) (l @ [x]) = insert k ?D" by (rule above_split [where ig = "ignoreCCS fl", OF i k False])
    have own: "inherited_ticks (ccs_at (inherit_own k s) k) = time_ticks (ccs_at s0 k)"
      "inherited_alloc (ccs_at (inherit_own k s) k) = mem_alloc (ccs_at s0 k)"
      using z kin st by (auto simp: no_costs_def same_tree_def inherit_own_def upd_ccs_def)
    have kt: "inherited_ticks (ccs_at s1 k) = inh_ticks fl s0 S (l @ [x])" "inherited_alloc (ccs_at s1 k) = inh_alloc fl s0 S (l @ [x])"
      unfolding p(3,4) own inh_ticks_def inh_alloc_def sum_above [where ig = "ignoreCCS fl", OF i k False] by simp_all
    have cD: "c \<notin> ?D" using c by (auto simp: extensions_def)
    have c1: "ccs_at s1 c = ccs_at s c" using p(5) [OF ck cD] ck by (simp add: inherit_own_def upd_ccs_def)
    let ?s = "inherit_from c k s1"
    have at: "ccs_at ?s d = ccs_at s1 d" if "d \<noteq> c" for d using that by (simp add: inherit_from_def upd_ccs_def)
    have "same_tree s0 ?s" using p(1) by (auto simp: same_tree_def inherit_from_def upd_ccs_def)
    moreover have "inherits fl s0 S ?s (extensions S (ignoreCCS fl) (l @ [x]))"
    proof -
      have "inherits fl s0 S s1 (insert k ?D)" using p(2) kt k by (simp add: inherits_def)
      moreover have "ccs_at ?s d = ccs_at s1 d" if "d \<in> insert k ?D" for d
        by (rule at) (use that cD ck in blast)
      ultimately show ?thesis unfolding E inherits_def by (metis (no_types, lifting))
    qed
    moreover have "inherited_ticks (ccs_at ?s c) = inherited_ticks (ccs_at s c) + inh_ticks fl s0 S (l @ [x])"
      "inherited_alloc (ccs_at ?s c) = inherited_alloc (ccs_at s c) + inh_alloc fl s0 S (l @ [x])"
      using c1 kt by (simp_all add: inherit_from_def upd_ccs_def)
    moreover have "ccs_at ?s d = ccs_at s d" if "d \<noteq> c" "d \<notin> extensions S (ignoreCCS fl) (l @ [x])" for d
      using p(5) [of d] that at unfolding E by (auto simp: inherit_own_def upd_ccs_def)
    ultimately show ?thesis using s1(1) False by (auto simp: loop_post_def Let_def)
  qed
qed

lemma loop_post_seq:
  assumes "loop_post fl s0 S c l [x] s s1" "loop_post fl s0 S c l ks s1 s2" "x \<notin> set ks" "S c = Some l"
  shows "loop_post fl s0 S c l (x # ks) s s2"
proof -
  let ?E = "\<lambda>x. extensions S (ignoreCCS fl) (l @ [x])"
  let ?D = "\<Union>y\<in>set ks. ?E y"
  have a: "inherits fl s0 S s1 (?E x)" "inherited_ticks (ccs_at s1 c) = inherited_ticks (ccs_at s c) + inh_ticks fl s0 S (l @ [x])"
    "inherited_alloc (ccs_at s1 c) = inherited_alloc (ccs_at s c) + inh_alloc fl s0 S (l @ [x])"
    "\<And>d. d \<noteq> c \<Longrightarrow> d \<notin> ?E x \<Longrightarrow> ccs_at s1 d = ccs_at s d"
    using assms(1) by (auto simp: loop_post_def Let_def)
  have b: "same_tree s0 s2" "inherits fl s0 S s2 ?D"
    "inherited_ticks (ccs_at s2 c) = inherited_ticks (ccs_at s1 c) + (\<Sum>y\<leftarrow>ks. inh_ticks fl s0 S (l @ [y]))"
    "inherited_alloc (ccs_at s2 c) = inherited_alloc (ccs_at s1 c) + (\<Sum>y\<leftarrow>ks. inh_alloc fl s0 S (l @ [y]))"
    "\<And>d. d \<noteq> c \<Longrightarrow> d \<notin> ?D \<Longrightarrow> ccs_at s2 d = ccs_at s1 d"
    using assms(2) by (auto simp: loop_post_def Let_def)
  have "d \<notin> ?D \<and> d \<noteq> c" if "d \<in> ?E x" for d
    using that above_disjoint [of x _ S "ignoreCCS fl" l] above_self_notin [of S c l] assms(3,4) by fastforce
  then have "inherits fl s0 S s2 (?E x)" using a(1) b(5) by (simp add: inherits_def)
  then show ?thesis using a b by (auto simp: loop_post_def Let_def inherits_def add.assoc)
qed

lemma inherit_loop_ok:
  assumes i: "ccs_inv C s0 S"
  shows "S c = Some l \<Longrightarrow> set it \<subseteq> set (indexTable (ccs_at s0 c)) \<Longrightarrow> distinct (map it_cc it) \<Longrightarrow> same_tree s0 s \<Longrightarrow>
    (\<forall>x\<in>set (kids it). no_costs s (everything S (l @ [x]))) \<Longrightarrow>
    \<exists>s'. inherit_loop fl c it s = Some s' \<and> loop_post fl s0 S c l (kids it) s s'"
proof (induction "card C - length l" arbitrary: c l it s rule: less_induct)
  case less
  note c = less.prems(1)
  show ?case using less.prems(2-5)
  proof (induction it arbitrary: s)
    case Nil
    then show ?case by (subst inherit_loop.simps) (simp add: kids_def loop_post_def Let_def inherits_def)
  next
    case (Cons e it)
    then have e: "e \<in> set (indexTable (ccs_at s0 c))" and it: "set it \<subseteq> set (indexTable (ccs_at s0 c))"
      "distinct (map it_cc it)" by auto
    show ?case
    proof (cases "back_edge e")
      case True
      have "\<exists>s'. inherit_loop fl c it s = Some s' \<and> loop_post fl s0 S c l (kids it) s s'"
        using Cons.IH [OF it Cons.prems(3)] Cons.prems(4) True by (simp add: kids_def)
      then show ?thesis using True by (subst inherit_loop.simps) (simp add: kids_def)
    next
      case False
      let ?k = "it_ccs e" and ?x = "it_cc e"
      note k = kid_edge(1) [OF i c e False]
      have lt: "card C - length (l @ [?x]) < card C - length l" using length_le_card [OF i k] by simp
      have tab: "indexTable (ccs_at s ?k) = indexTable (ccs_at s0 ?k)" using Cons.prems(3) by (simp add: same_tree_def)
      have z: "no_costs s (everything S (l @ [?x]))" using Cons.prems(4) False by (simp add: kids_def)
      have st: "same_tree s0 (inherit_own ?k s)" using Cons.prems(3) by (auto simp: same_tree_def inherit_own_def upd_ccs_def)
      have "no_costs (inherit_own ?k s) (everything S ((l @ [?x]) @ [y]))" for y
        using z everything_mono [of S "l @ [?x]" "[y]"] above_self_notin [of S ?k "l @ [?x]" "\<lambda>_. False" y, OF k]
        by (auto simp: no_costs_def inherit_own_def upd_ccs_def)
      then have IH: "\<exists>s'. inherit_loop fl ?k (indexTable (ccs_at s ?k)) (inherit_own ?k s) = Some s' \<and>
          loop_post fl s0 S ?k (l @ [?x]) (kids (indexTable (ccs_at s0 ?k))) (inherit_own ?k s) s'"
        using less.hyps [OF lt k order.refl ccs_invD(12) [OF i k] st] unfolding tab by blast
      obtain s1 where s1: "(if ignoreCCS fl ?k then Some s else inherit_loop fl ?k (indexTable (ccs_at s ?k)) (inherit_own ?k s)) = Some s1"
          "loop_post fl s0 S c l [?x] s (inherit_from c ?k s1)"
        using inherit_child [OF i c k Cons.prems(3) z IH] by blast
      have st1: "same_tree s0 (inherit_from c ?k s1)" using s1(2) by (simp add: loop_post_def Let_def)
      have xk: "?x \<notin> set (kids it)" using Cons.prems(2) by (auto simp: kids_def)
      have "no_costs (inherit_from c ?k s1) (everything S (l @ [y]))" if y: "y \<in> set (kids it)" for y
      proof -
        have "ccs_at (inherit_from c ?k s1) d = ccs_at s d" if d: "d \<in> everything S (l @ [y])" for d
        proof -
          have "d \<noteq> c" using d above_self_notin [of S c l "\<lambda>_. False" y, OF c] by blast
          moreover have "d \<notin> extensions S (ignoreCCS fl) (l @ [?x])"
            using d y xk above_disjoint [of ?x y S "\<lambda>_. False" l] extensions_le [of S "ignoreCCS fl" "l @ [?x]"] by auto
          ultimately show ?thesis using s1(2) by (simp add: loop_post_def Let_def)
        qed
        moreover have "no_costs s (everything S (l @ [y]))" using Cons.prems(4) y False by (auto simp: kids_def)
        ultimately show ?thesis by (simp add: no_costs_def)
      qed
      then obtain s2 where s2: "inherit_loop fl c it (inherit_from c ?k s1) = Some s2"
          "loop_post fl s0 S c l (kids it) (inherit_from c ?k s1) s2"
        using Cons.IH [OF it st1] by blast
      have "loop_post fl s0 S c l (?x # kids it) s s2" by (rule loop_post_seq [OF s1(2) s2(2) xk c])
      moreover have "kids (e # it) = ?x # kids it" using False by (simp add: kids_def)
      moreover have "inherit_loop fl c (e # it) s = Some s2"
        using False s1(1) s2(1) by (subst inherit_loop.simps) simp
      ultimately show ?thesis by auto
    qed
  qed
qed

text \<open>
  Claim C16.  Inherited costs are right: \<open>inheritCosts\<close> on \<open>MAIN\<close> returns, and afterwards the inherited ticks and allocation
  of every stack that is not below an ignored one are the sums over the stack itself and the stacks above
  it that are not ignored and not above an ignored one; everything else of the tree is as before.\<close>

theorem inheritCosts_sums:
  assumes "ccs_inv C s S" "S CCS_MAIN = Some [m]"
    and "\<forall>d\<in>dom S. inherited_ticks (ccs_at s d) = 0 \<and> inherited_alloc (ccs_at s d) = 0"
  shows "\<exists>s'. inheritCosts fl CCS_MAIN s = Some s' \<and>
    (\<forall>d\<in>extensions S (ignoreCCS fl) [m]. \<forall>k. S d = Some k \<longrightarrow>
       inherited_ticks (ccs_at s' d) = (\<Sum>e\<in>extensions S (ignoreCCS fl) k. time_ticks (ccs_at s e)) \<and>
       inherited_alloc (ccs_at s' d) = (\<Sum>e\<in>extensions S (ignoreCCS fl) k. mem_alloc (ccs_at s e))) \<and>
    (\<forall>d. indexTable (ccs_at s' d) = indexTable (ccs_at s d) \<and> time_ticks (ccs_at s' d) = time_ticks (ccs_at s d) \<and>
       mem_alloc (ccs_at s' d) = mem_alloc (ccs_at s d))"
proof -
  let ?it = "indexTable (ccs_at s CCS_MAIN)" and ?s = "inherit_own CCS_MAIN s"
  let ?D = "\<Union>x\<in>set (kids ?it). extensions S (ignoreCCS fl) ([m] @ [x])"
  have ni: "\<not> ignoreCCS fl CCS_MAIN"
    by (simp add: ignoreCCS_def CCS_MAIN_def CCS_OVERHEAD_def CCS_DONT_CARE_def CCS_GC_def CCS_SYSTEM_def)
  have z: "\<forall>x\<in>set (kids ?it). no_costs ?s (everything S ([m] @ [x]))"
    using assms(2,3) above_dom [of S "\<lambda>_. False"] above_self_notin [of S CCS_MAIN "[m]" "\<lambda>_. False"]
    by (auto simp: no_costs_def inherit_own_def upd_ccs_def) blast+
  have st: "same_tree s ?s" by (auto simp: same_tree_def inherit_own_def upd_ccs_def)
  obtain s' where s': "inherit_loop fl CCS_MAIN ?it ?s = Some s'" "loop_post fl s S CCS_MAIN [m] (kids ?it) ?s s'"
    using inherit_loop_ok [OF assms(1,2) order.refl ccs_invD(12) [OF assms(1,2)] st z] by blast
  note E = above_split [where ig = "ignoreCCS fl", OF assms(1,2) ni]
  have post: "same_tree s s'" "inherits fl s S s' ?D"
    "inherited_ticks (ccs_at s' CCS_MAIN) = inherited_ticks (ccs_at ?s CCS_MAIN) + (\<Sum>x\<leftarrow>kids ?it. inh_ticks fl s S ([m] @ [x]))"
    "inherited_alloc (ccs_at s' CCS_MAIN) = inherited_alloc (ccs_at ?s CCS_MAIN) + (\<Sum>x\<leftarrow>kids ?it. inh_alloc fl s S ([m] @ [x]))"
    using s'(2) unfolding loop_post_def Let_def by blast+
  have own: "inherited_ticks (ccs_at ?s CCS_MAIN) = time_ticks (ccs_at s CCS_MAIN)"
    "inherited_alloc (ccs_at ?s CCS_MAIN) = mem_alloc (ccs_at s CCS_MAIN)"
    using assms(2,3) by (auto simp: inherit_own_def upd_ccs_def dom_def)
  have "inherited_ticks (ccs_at s' CCS_MAIN) = inh_ticks fl s S [m]" "inherited_alloc (ccs_at s' CCS_MAIN) = inh_alloc fl s S [m]"
    unfolding post(3,4) own inh_ticks_def inh_alloc_def sum_above [where ig = "ignoreCCS fl", OF assms(1,2) ni] by simp_all
  then have "inherits fl s S s' (extensions S (ignoreCCS fl) [m])"
    using post(2) assms(2) unfolding E by (simp add: inherits_def)
  moreover have "inheritCosts fl CCS_MAIN s = Some s'" using ni s'(1) by (simp add: inheritCosts_def)
  ultimately show ?thesis using post(1) by (simp add: inherits_def inh_ticks_def inh_alloc_def same_tree_def)
qed

text \<open>\<open>MAIN\<close> with one stack above it.\<close>

definition prof_main :: prof_state where
  "prof_main = upd_ccs CCS_MAIN (\<lambda>c. c\<lparr>time_ticks := 3\<rparr>) prof0"

lemma prof_main_inv: "ccs_inv {1, 6} prof_main [CCS_MAIN \<mapsto> [1]]"
  by (auto simp: ccs_inv_def links_ok_def tables_ok_def tables_complete_def prof_main_def prof0_def upd_ccs_def CCS_MAIN_def
      split: if_splits)

theorem inheritCosts_sums_witness:
  "\<exists>s s'. actualPush CCS_MAIN 6 prof_main = Some (9, s) \<and> inheritCosts 1 CCS_MAIN s = Some s' \<and>
     inherited_ticks (ccs_at s' CCS_MAIN) =
       (\<Sum>e\<in>extensions [CCS_MAIN \<mapsto> [1], 9 \<mapsto> [1, 6]] (ignoreCCS 1) [1]. time_ticks (ccs_at s e))"
proof -
  let ?S = "[CCS_MAIN \<mapsto> [1], 9 \<mapsto> [1, 6]] :: addr \<rightharpoonup> addr list"
  have n: "ccs_fresh prof_main = 9" "indexTable (ccs_at prof_main CCS_MAIN) = []"
    by (simp_all add: prof_main_def prof0_def upd_ccs_def)
  obtain s where s: "actualPush CCS_MAIN 6 prof_main = Some (9, s)" "ccs_inv {1, 6} s ?S"
    using actualPush_ok [OF prof_main_inv, of CCS_MAIN "[1]" 6] n by auto
  have "map_option (\<lambda>(c, s). (inherited_ticks (ccs_at s 1), inherited_alloc (ccs_at s 1), inherited_ticks (ccs_at s 9),
      inherited_alloc (ccs_at s 9))) (actualPush 1 6 prof_main) = Some (0, 0, 0, 0)"
    by code_simp
  then have z: "\<forall>d\<in>dom ?S. inherited_ticks (ccs_at s d) = 0 \<and> inherited_alloc (ccs_at s d) = 0"
    using s(1) by (auto simp: CCS_MAIN_def)
  have main: "?S CCS_MAIN = Some [1]" by (simp add: CCS_MAIN_def)
  moreover have "CCS_MAIN \<in> extensions ?S (ignoreCCS 1) [1]"
    by (auto simp: extensions_def CCS_MAIN_def prefix_def ignoreCCS_def CCS_OVERHEAD_def CCS_DONT_CARE_def CCS_GC_def CCS_SYSTEM_def
        split: if_splits)
  ultimately show ?thesis using inheritCosts_sums [OF s(2) main z, of 1] s(1) by blast
qed

end
