(* ===== verification/PerCC.thy ===== *)
theory PerCC
  imports ProfReport
begin

text \<open>
  The report per cost centre, \<open>rts/Profiling.c\<close>: \<open>aggregateCCCosts\<close> adds the costs of every stack to the cost centre on top of it,
  and the loop of \<open>reportPerCCCosts\<close> moves the cost centres with enough costs from \<open>CC_LIST\<close> to a list sorted by
  time.  Both lists are linked through the same field \<open>link\<close>.  The printing is left out.
\<close>

section \<open>Costs of cost centres\<close>

definition upd_cc :: "addr \<Rightarrow> (CostCentre \<Rightarrow> CostCentre) \<Rightarrow> prof_state \<Rightarrow> prof_state" where
  "upd_cc c f s = s\<lparr>cc_at := (cc_at s)(c := f (cc_at s c))\<rparr>"

definition aggregate_node :: "addr \<Rightarrow> prof_state \<Rightarrow> prof_state" where
  "aggregate_node ccs s = upd_cc (ccs_cc (ccs_at s ccs))
     (\<lambda>c. c\<lparr>cc_mem_alloc := cc_mem_alloc c + mem_alloc (ccs_at s ccs),
            cc_time_ticks := cc_time_ticks c + time_ticks (ccs_at s ccs)\<rparr>) s"

partial_function (option) aggregate_loop :: "IndexTable list \<Rightarrow> prof_state \<Rightarrow> prof_state option" where
  "aggregate_loop it s =
     (case it of
        [] \<Rightarrow> Some s
      | e # rest \<Rightarrow>
          if back_edge e then aggregate_loop rest s
          else do {
            s \<leftarrow> aggregate_loop (indexTable (ccs_at s (it_ccs e))) (aggregate_node (it_ccs e) s);
            aggregate_loop rest s
          })"

declare aggregate_loop.simps [code]

definition aggregateCCCosts :: "addr \<Rightarrow> prof_state \<Rightarrow> prof_state option" where
  "aggregateCCCosts ccs s = aggregate_loop (indexTable (ccs_at s ccs)) (aggregate_node ccs s)"

text \<open>The costs of a set of stacks added to their cost centres.\<close>

definition charge :: "prof_state \<Rightarrow> addr set \<Rightarrow> prof_state" where
  "charge s D = s\<lparr>cc_at := (\<lambda>x. (cc_at s x)
     \<lparr>cc_mem_alloc := cc_mem_alloc (cc_at s x) + (\<Sum>d\<in>D. if ccs_cc (ccs_at s d) = x then mem_alloc (ccs_at s d) else 0),
      cc_time_ticks := cc_time_ticks (cc_at s x) + (\<Sum>d\<in>D. if ccs_cc (ccs_at s d) = x then time_ticks (ccs_at s d) else 0)\<rparr>)\<rparr>"

lemma charge_empty [simp]: "charge s {} = s"
  by (simp add: charge_def)

lemma charge_at [simp]: "ccs_at (charge s D) = ccs_at s"
  by (simp add: charge_def)

lemma charge_single: "aggregate_node d s = charge s {d}"
  by (simp add: aggregate_node_def charge_def upd_cc_def fun_eq_iff)

lemma charge_union: "finite D \<Longrightarrow> finite E \<Longrightarrow> D \<inter> E = {} \<Longrightarrow> charge (charge s D) E = charge s (D \<union> E)"
  by (simp only: charge_def [of "charge s D"] charge_at) (simp add: charge_def sum.union_disjoint add.assoc)

lemma aggregate_loop_charges:
  assumes i: "ccs_inv C s0 S"
  shows "S c = Some l \<Longrightarrow> set it \<subseteq> set (indexTable (ccs_at s0 c)) \<Longrightarrow> distinct (map it_cc it) \<Longrightarrow> ccs_at s = ccs_at s0 \<Longrightarrow>
    aggregate_loop it s = Some (charge s (\<Union>x\<in>set (kids it). everything S (l @ [x])))"
proof (induction "card C - length l" arbitrary: c l it s rule: less_induct)
  case less
  have fin: "finite (everything S k)" for k by (rule finite_subset [OF above_dom ccs_inv_finite [OF i]])
  show ?case using less.prems(2-4)
  proof (induction it arbitrary: s)
    case Nil
    then show ?case by (subst aggregate_loop.simps) (simp add: kids_def)
  next
    case (Cons e it)
    then have e: "e \<in> set (indexTable (ccs_at s0 c))" and it: "set it \<subseteq> set (indexTable (ccs_at s0 c))"
      "distinct (map it_cc it)" by auto
    show ?case
    proof (cases "back_edge e")
      case True
      then show ?thesis using Cons.IH [OF it Cons.prems(3)] by (subst aggregate_loop.simps) (simp add: kids_def)
    next
      case False
      let ?k = "it_ccs e" and ?x = "it_cc e"
      note k = kid_edge(1) [OF i less.prems(1) e False]
      have lt: "card C - length (l @ [?x]) < card C - length l" using length_le_card [OF i k] by simp
      let ?U = "\<Union>y\<in>set (kids (indexTable (ccs_at s0 ?k))). everything S ((l @ [?x]) @ [y])"
      let ?R = "\<Union>y\<in>set (kids it). everything S (l @ [y])"
      have "aggregate_loop (indexTable (ccs_at s0 ?k)) (aggregate_node ?k s) = Some (charge (charge s {?k}) ?U)"
        unfolding charge_single
        by (rule less.hyps [OF lt k order.refl ccs_invD(12) [OF i k]]) (use Cons.prems(3) in simp)
      also have "charge (charge s {?k}) ?U = charge s ({?k} \<union> ?U)"
        by (rule charge_union) (use fin above_self_notin [of S ?k "l @ [?x]" "\<lambda>_. False", OF k] in auto)
      also have "{?k} \<union> ?U = everything S (l @ [?x])"
        using above_split [where ig = "\<lambda>_. False", OF i k] by simp
      finally have first: "aggregate_loop (indexTable (ccs_at s0 ?k)) (aggregate_node ?k s) = Some (charge s (everything S (l @ [?x])))" .
      have rest: "aggregate_loop it (charge s (everything S (l @ [?x]))) = Some (charge (charge s (everything S (l @ [?x]))) ?R)"
        by (rule Cons.IH [OF it]) (use Cons.prems(3) in simp)
      have xk: "?x \<notin> set (kids it)" using Cons.prems(2) by (auto simp: kids_def)
      have "charge (charge s (everything S (l @ [?x]))) ?R = charge s (everything S (l @ [?x]) \<union> ?R)"
      proof (rule charge_union)
        have "everything S (l @ [?x]) \<inter> everything S (l @ [y]) = {}" if "y \<in> set (kids it)" for y
          by (rule above_disjoint) (use xk that in auto)
        then show "everything S (l @ [?x]) \<inter> ?R = {}" by blast
      qed (use fin in auto)
      moreover have "kids (e # it) = ?x # kids it" using False by (simp add: kids_def)
      moreover have "aggregate_loop (e # it) s =
          aggregate_loop (indexTable (ccs_at s0 ?k)) (aggregate_node ?k s) \<bind> aggregate_loop it"
        using False Cons.prems(3) by (subst aggregate_loop.simps) simp
      ultimately show ?thesis using first rest by simp
    qed
  qed
qed

text \<open>
  Claim C40.  \<open>aggregateCCCosts\<close> on \<open>MAIN\<close> returns, and each cost centre gets the allocation and the ticks of the stacks of which it is
  the top, each exactly once.\<close>

theorem aggregateCCCosts_charges_tops:
  assumes "ccs_inv C s S" "S CCS_MAIN = Some [m]"
  shows "\<exists>s'. aggregateCCCosts CCS_MAIN s = Some s' \<and> ccs_at s' = ccs_at s \<and>
    (\<forall>x. cc_mem_alloc (cc_at s' x) = cc_mem_alloc (cc_at s x) + (\<Sum>d\<in>{d \<in> dom S. last (the (S d)) = x}. mem_alloc (ccs_at s d)) \<and>
         cc_time_ticks (cc_at s' x) = cc_time_ticks (cc_at s x) + (\<Sum>d\<in>{d \<in> dom S. last (the (S d)) = x}. time_ticks (ccs_at s d)))"
proof -
  note i = assms(1) and m = assms(2)
  note fd = ccs_inv_finite [OF i]
  have fin: "finite (everything S k)" for k by (rule finite_subset [OF above_dom fd])
  let ?U = "\<Union>x\<in>set (kids (indexTable (ccs_at s CCS_MAIN))). everything S ([m] @ [x])"
  have "aggregateCCCosts CCS_MAIN s = Some (charge (charge s {CCS_MAIN}) ?U)"
    unfolding aggregateCCCosts_def charge_single
    by (rule aggregate_loop_charges [OF i m order.refl ccs_invD(12) [OF i m]]) simp
  also have "charge (charge s {CCS_MAIN}) ?U = charge s ({CCS_MAIN} \<union> ?U)"
    by (rule charge_union) (use fin above_self_notin [of S CCS_MAIN "[m]" "\<lambda>_. False", OF m] in auto)
  also have "{CCS_MAIN} \<union> ?U = dom S"
    using above_split [where ig = "\<lambda>_. False", OF i m] everything_main [OF i m] by simp
  finally have run: "aggregateCCCosts CCS_MAIN s = Some (charge s (dom S))" .
  have top: "ccs_cc (ccs_at s d) = last (the (S d))" if "d \<in> dom S" for d
    using that ccs_invD(3) [OF i] by force
  have "(\<Sum>d\<in>dom S. if ccs_cc (ccs_at s d) = x then g d else 0 :: StgWord) = (\<Sum>d\<in>{d \<in> dom S. last (the (S d)) = x}. g d)" for x g
    using fd by (subst sum.inter_filter) (auto simp: top intro!: sum.cong)
  then show ?thesis using run by (simp add: charge_def)
qed

theorem aggregateCCCosts_charges_tops_witness:
  "\<exists>s S s'. initProfiling2 [5] prof0 = Some s \<and> ccs_inv {1, 5, 6, 7} s S \<and> aggregateCCCosts CCS_MAIN s = Some s'"
proof -
  obtain s S where s: "initProfiling2 [5] prof0 = Some s" "ccs_inv {1, 5, 6, 7} s S" "S CCS_MAIN = Some [1]"
    using prof0_start by blast
  then show ?thesis using aggregateCCCosts_charges_tops [OF s(2,3)] by blast
qed

section \<open>The sorted list\<close>

text \<open>\<open>insertCCInSortedList\<close>: \<open>prev\<close> is the cost centre whose \<open>link\<close> is to be set, null for the head \<open>sorted_cc_list\<close>.\<close>

definition set_link :: "addr \<Rightarrow> addr \<Rightarrow> prof_state \<times> addr \<Rightarrow> prof_state \<times> addr" where
  "set_link prev v = (\<lambda>(s, sorted_cc_list).
     if prev = NULL then (s, v) else (upd_cc prev (\<lambda>c. c\<lparr>cc_link := v\<rparr>) s, sorted_cc_list))"

partial_function (option) insertCC_loop :: "addr \<Rightarrow> addr \<Rightarrow> addr \<Rightarrow> prof_state \<times> addr \<Rightarrow> (prof_state \<times> addr) option" where
  "insertCC_loop new_cc prev cc st =
     (if cc = NULL
      then Some (set_link prev new_cc (upd_cc new_cc (\<lambda>c. c\<lparr>cc_link := NULL\<rparr>) (fst st), snd st))
      else if cc_time_ticks (cc_at (fst st) cc) < cc_time_ticks (cc_at (fst st) new_cc)
      then Some (set_link prev new_cc (upd_cc new_cc (\<lambda>c. c\<lparr>cc_link := cc\<rparr>) (fst st), snd st))
      else insertCC_loop new_cc cc (cc_link (cc_at (fst st) cc)) st)"

declare insertCC_loop.simps [code]

definition insertCCInSortedList :: "addr \<Rightarrow> prof_state \<times> addr \<Rightarrow> (prof_state \<times> addr) option" where
  "insertCCInSortedList new_cc st = insertCC_loop new_cc NULL (snd st) st"

text \<open>The loop of \<open>reportPerCCCosts\<close> that selects and sorts.\<close>

partial_function (option) select_loop ::
    "nat \<Rightarrow> StgWord \<Rightarrow> StgWord \<Rightarrow> addr \<Rightarrow> prof_state \<times> addr \<Rightarrow> (prof_state \<times> addr) option" where
  "select_loop fl total_prof_ticks total_alloc cc st =
     (if cc = NULL then Some st
      else do {
        let n = cc_link (cc_at (fst st) cc);
        st \<leftarrow> (if cc_time_ticks (cc_at (fst st) cc) > total_prof_ticks div 100 \<or>
                  cc_mem_alloc (cc_at (fst st) cc) > total_alloc div 100 \<or> COST_CENTRES_ALL \<le> fl
              then insertCCInSortedList cc st else Some st);
        select_loop fl total_prof_ticks total_alloc n st
      })"

declare select_loop.simps [code]

abbreviation links :: "prof_state \<Rightarrow> addr \<Rightarrow> addr" where
  "links s \<equiv> (\<lambda>c. cc_link (cc_at s c))"

abbreviation ticks :: "prof_state \<Rightarrow> addr \<Rightarrow> StgWord" where
  "ticks s c \<equiv> cc_time_ticks (cc_at s c)"

fun insert_spec :: "(addr \<Rightarrow> StgWord) \<Rightarrow> addr \<Rightarrow> addr list \<Rightarrow> addr list" where
  "insert_spec t n [] = [n]"
| "insert_spec t n (c # cs) = (if t c < t n then n # c # cs else c # insert_spec t n cs)"

text \<open>States that differ in links only, those of \<open>D\<close>.\<close>

definition cc_relinked :: "addr set \<Rightarrow> prof_state \<Rightarrow> prof_state \<Rightarrow> bool" where
  "cc_relinked D s s' = (ccs_at s' = ccs_at s \<and> (\<forall>c. ticks s' c = ticks s c \<and> cc_mem_alloc (cc_at s' c) = cc_mem_alloc (cc_at s c)) \<and>
     (\<forall>c. c \<notin> D \<longrightarrow> links s' c = links s c))"

lemma upd_link_lst:
  "a \<notin> set xs \<Longrightarrow> lst (links (upd_cc a (\<lambda>c. c\<lparr>cc_link := v\<rparr>) s)) p xs = lst (links s) p xs"
  by (rule lst_cong) (auto simp: upd_cc_def)

lemma insertCC_loop_ok:
  assumes "lst (links s) cc zs" "n \<noteq> NULL" "n \<notin> set zs" "distinct zs" "prev \<notin> set zs" "prev \<noteq> n"
    and "if prev = NULL then h = cc else links s prev = cc"
  shows "\<exists>st'. insertCC_loop n prev cc (s, h) = Some st' \<and> cc_relinked (insert n (insert prev (set zs))) s (fst st') \<and>
    (if prev = NULL then lst (links (fst st')) (snd st') (insert_spec (ticks s) n zs)
     else snd st' = h \<and> lst (links (fst st')) (links (fst st') prev) (insert_spec (ticks s) n zs))"
  using assms
proof (induction zs arbitrary: cc prev)
  case Nil
  then show ?case
    by (subst insertCC_loop.simps) (auto simp: set_link_def cc_relinked_def upd_cc_def)
next
  case (Cons c zs)
  have c: "cc = c" "c \<noteq> NULL" "lst (links s) (links s c) zs" using Cons.prems(1) by auto
  show ?case
  proof (cases "ticks s c < ticks s n")
    case True
    let ?s1 = "upd_cc n (\<lambda>x. x\<lparr>cc_link := c\<rparr>) s"
    have l1: "lst (links ?s1) c (c # zs)" using Cons.prems(1,3) c upd_link_lst [of n "c # zs" c s c] by simp
    show ?thesis
    proof (cases "prev = NULL")
      case t: True
      have "insertCC_loop n prev cc (s, h) = Some (?s1, n)"
        using True c t by (subst insertCC_loop.simps) (simp add: set_link_def)
      moreover have "cc_relinked (insert n (insert prev (set (c # zs)))) s ?s1" by (auto simp: cc_relinked_def upd_cc_def)
      moreover have "lst (links ?s1) n (n # c # zs)" using l1 Cons.prems(2) by (simp add: upd_cc_def)
      ultimately show ?thesis using t True by auto
    next
      case f: False
      let ?s2 = "upd_cc prev (\<lambda>x. x\<lparr>cc_link := n\<rparr>) ?s1"
      have "insertCC_loop n prev cc (s, h) = Some (?s2, h)"
        using True c f by (subst insertCC_loop.simps) (simp add: set_link_def)
      moreover have "cc_relinked (insert n (insert prev (set (c # zs)))) s ?s2" by (auto simp: cc_relinked_def upd_cc_def)
      moreover have "lst (links ?s2) c (c # zs)" using l1 upd_link_lst [of prev "c # zs" n ?s1 c] Cons.prems(5) by simp
      moreover have "links ?s2 prev = n" "links ?s2 n = c" using Cons.prems(6) by (auto simp: upd_cc_def)
      ultimately show ?thesis using f True Cons.prems(2) by auto
    qed
  next
    case False
    have run: "insertCC_loop n prev cc (s, h) = insertCC_loop n c (links s c) (s, h)"
      using False c by (subst insertCC_loop.simps) simp
    obtain st' where st: "insertCC_loop n c (links s c) (s, h) = Some st'"
        "cc_relinked (insert n (insert c (set zs))) s (fst st')" "snd st' = h"
        "lst (links (fst st')) (links (fst st') c) (insert_spec (ticks s) n zs)"
      using Cons.IH [OF c(3) Cons.prems(2), of c] Cons.prems(3,4) c(2) by auto
    have "cc_relinked (insert n (insert prev (set (c # zs)))) s (fst st')" using st(2) by (auto simp: cc_relinked_def)
    moreover have "prev \<noteq> NULL \<Longrightarrow> links (fst st') prev = links s prev"
      using st(2) Cons.prems(5,6) by (auto simp: cc_relinked_def)
    ultimately show ?thesis using run st c False Cons.prems(7) by auto
  qed
qed

lemma set_insert_spec [simp]: "set (insert_spec t n xs) = insert n (set xs)"
  by (induction xs) auto

lemma mset_insert_spec [simp]: "mset (insert_spec t n xs) = add_mset n (mset xs)"
  by (induction xs) auto

lemma distinct_insert_spec: "distinct (insert_spec t n xs) = (n \<notin> set xs \<and> distinct xs)"
  by (induction xs) auto

lemma sorted_insert_spec:
  "sorted_wrt (\<lambda>a b. t b \<le> t a) xs \<Longrightarrow> sorted_wrt (\<lambda>a b. t b \<le> t a) (insert_spec t n xs)"
  by (induction xs) (auto intro: less_imp_le order.trans)

lemma relinked_trans: "cc_relinked D s s' \<Longrightarrow> cc_relinked E s' s'' \<Longrightarrow> cc_relinked (D \<union> E) s s''"
  by (auto simp: cc_relinked_def)

lemma insert_sorted_ok:
  assumes "lst (links s) h xs" "n \<noteq> NULL" "n \<notin> set xs" "distinct xs"
  shows "\<exists>s' h'. insertCCInSortedList n (s, h) = Some (s', h') \<and> cc_relinked (insert n (insert NULL (set xs))) s s' \<and>
    lst (links s') h' (insert_spec (ticks s) n xs)"
proof -
  have z: "NULL \<notin> set xs" using lst_not_null [OF assms(1)] .
  obtain st' where st: "insertCC_loop n NULL h (s, h) = Some st'" "cc_relinked (insert n (insert NULL (set xs))) s (fst st')"
      "lst (links (fst st')) (snd st') (insert_spec (ticks s) n xs)"
    using insertCC_loop_ok [OF assms(1-4) z, of h] assms(2) by auto
  then show ?thesis using st by (cases st') (auto simp: insertCCInSortedList_def)
qed

definition reported :: "nat \<Rightarrow> StgWord \<Rightarrow> StgWord \<Rightarrow> prof_state \<Rightarrow> addr \<Rightarrow> bool" where
  "reported fl tt ta s c = (ticks s c > tt div 100 \<or> cc_mem_alloc (cc_at s c) > ta div 100 \<or> COST_CENTRES_ALL \<le> fl)"

lemma relinkedD:
  assumes "cc_relinked D s s'"
  shows "ticks s' = ticks s" "reported fl tt ta s' = reported fl tt ta s" "c \<notin> D \<Longrightarrow> links s' c = links s c"
  using assms by (auto simp: cc_relinked_def reported_def fun_eq_iff)

lemma select_loop_ok:
  assumes "lst (links s) cc cs" "lst (links s) h xs" "distinct (cs @ xs)"
  shows "\<exists>s' h'. select_loop fl tt ta cc (s, h) = Some (s', h') \<and> cc_relinked (insert NULL (set cs \<union> set xs)) s s' \<and>
    lst (links s') h' (fold (insert_spec (ticks s)) (filter (reported fl tt ta s) cs) xs)"
  using assms
proof (induction cs arbitrary: cc s h xs)
  case Nil
  then show ?case by (subst select_loop.simps) (auto simp: cc_relinked_def)
next
  case (Cons c cs)
  have c: "cc = c" "c \<noteq> NULL" "lst (links s) (links s c) cs" using Cons.prems(1) by auto
  show ?case
  proof (cases "reported fl tt ta s c")
    case False
    have "distinct (cs @ xs)" using Cons.prems(3) by simp
    then obtain s' h' where t: "select_loop fl tt ta (links s c) (s, h) = Some (s', h')" "cc_relinked (insert NULL (set cs \<union> set xs)) s s'"
        "lst (links s') h' (fold (insert_spec (ticks s)) (filter (reported fl tt ta s) cs) xs)"
      using Cons.IH [OF c(3) Cons.prems(2)] by blast
    have "cc_relinked (insert NULL (set (c # cs) \<union> set xs)) s s'" using t(2) by (auto simp: cc_relinked_def)
    moreover have "select_loop fl tt ta cc (s, h) = Some (s', h')"
      using t(1) c False by (subst select_loop.simps) (simp add: reported_def)
    ultimately show ?thesis using t(3) False by simp
  next
    case True
    have d: "c \<notin> set xs" "distinct xs" "distinct (cs @ insert_spec (ticks s) c xs)"
      using Cons.prems(3) by (auto simp: distinct_insert_spec)
    obtain s1 h1 where i: "insertCCInSortedList c (s, h) = Some (s1, h1)" "cc_relinked (insert c (insert NULL (set xs))) s s1"
        "lst (links s1) h1 (insert_spec (ticks s) c xs)"
      using insert_sorted_ok [OF Cons.prems(2) c(2) d(1,2)] by blast
    note r = relinkedD [OF i(2)]
    have "lst (links s1) (links s c) cs"
    proof -
      have "links s1 x = links s x" if "x \<in> set cs" for x
        by (rule r(3)) (use that Cons.prems(3) lst_not_null [OF c(3)] in auto)
      then show ?thesis using c(3) lst_cong [of cs "links s1" "links s"] by blast
    qed
    then obtain s' h' where t: "select_loop fl tt ta (links s c) (s1, h1) = Some (s', h')"
        "cc_relinked (insert NULL (set cs \<union> set (insert_spec (ticks s) c xs))) s1 s'"
        "lst (links s') h' (fold (insert_spec (ticks s1)) (filter (reported fl tt ta s1) cs) (insert_spec (ticks s) c xs))"
      using Cons.IH [OF _ i(3) d(3)] by blast
    have "cc_relinked (insert NULL (set (c # cs) \<union> set xs)) s s'"
      using relinked_trans [OF i(2) t(2)] by (rule back_subst [of "\<lambda>D. cc_relinked D s s'"]) auto
    moreover have "select_loop fl tt ta cc (s, h) = Some (s', h')"
      using t(1) i(1) c True by (subst select_loop.simps) (auto simp: reported_def)
    ultimately show ?thesis using t(3) True by (simp add: r(1,2))
  qed
qed

lemma fold_insert_spec:
  "sorted_wrt (\<lambda>a b. t b \<le> t a) xs \<Longrightarrow> sorted_wrt (\<lambda>a b. t b \<le> t a) (fold (insert_spec t) ys xs) \<and>
    mset (fold (insert_spec t) ys xs) = mset ys + mset xs"
  by (induction ys arbitrary: xs) (auto simp: sorted_insert_spec)

text \<open>
  Claim C39.  The cost centres of the report are sorted: the loop over \<open>CC_LIST\<close> returns, although it relinks the cost centres it is walking
  over, and the list it leaves has exactly the cost centres of \<open>CC_LIST\<close> with more than a hundredth of the time or
  of the allocation (all of them when all are asked for), in the order of falling time; no cost centre outside the list is touched.\<close>

theorem report_is_sorted:
  assumes "lst (links s) cc_list cs" "distinct cs"
  shows "\<exists>s' h xs. select_loop fl total_ticks total_alloc cc_list (s, NULL) = Some (s', h) \<and> lst (links s') h xs \<and>
    mset xs = mset (filter (\<lambda>c. ticks s c > total_ticks div 100 \<or> cc_mem_alloc (cc_at s c) > total_alloc div 100 \<or>
      COST_CENTRES_ALL \<le> fl) cs) \<and>
    sorted_wrt (\<lambda>a b. ticks s b \<le> ticks s a) xs \<and> cc_relinked (insert NULL (set cs)) s s'"
proof -
  obtain s' h where r: "select_loop fl total_ticks total_alloc cc_list (s, NULL) = Some (s', h)" "cc_relinked (insert NULL (set cs \<union> set [])) s s'"
      "lst (links s') h (fold (insert_spec (ticks s)) (filter (reported fl total_ticks total_alloc s) cs) [])"
    using select_loop_ok [OF assms(1), of NULL "[]" fl total_ticks total_alloc] assms(2) by auto
  let ?xs = "fold (insert_spec (ticks s)) (filter (reported fl total_ticks total_alloc s) cs) []"
  have "sorted_wrt (\<lambda>a b. ticks s b \<le> ticks s a) ?xs" "mset ?xs = mset (filter (reported fl total_ticks total_alloc s) cs)"
    using fold_insert_spec [of "ticks s" "[]"] by simp_all
  then show ?thesis using r unfolding reported_def by auto
qed

definition three_ccs :: prof_state where
  "three_ccs = prof0\<lparr>cc_at := (\<lambda>c. \<lparr>ccID = 0, cc_label = ''x'', cc_module = ''Main'', cc_srcloc = [], cc_mem_alloc = 0,
     cc_time_ticks = (if c = 1 then 50 else if c = 2 then 0 else 70), is_caf = False, cc_link = (if c < 3 then c + 1 else 0)\<rparr>)\<rparr>"

theorem report_is_sorted_witness:
  "\<exists>s' h xs. select_loop 1 120 0 1 (three_ccs, NULL) = Some (s', h) \<and> lst (links s') h xs \<and> mset xs = {#1, 3#} \<and>
     sorted_wrt (\<lambda>a b. ticks three_ccs b \<le> ticks three_ccs a) xs"
proof -
  have l: "lst (links three_ccs) 1 [1, 2, 3]" "distinct [1, 2, 3 :: nat]" by (simp_all add: three_ccs_def)
  have "mset (filter (\<lambda>c. ticks three_ccs c > 120 div 100 \<or> cc_mem_alloc (cc_at three_ccs c) > 0 div 100 \<or>
      COST_CENTRES_ALL \<le> 1) [1, 2, 3]) = {#1, 3#}"
    by (simp add: three_ccs_def COST_CENTRES_ALL_def)
  then show ?thesis using report_is_sorted [OF l, of 1 120 0] by auto
qed

end
