(* ===== verification/Spec2Isabelle.thy ===== *)
theory Spec2Isabelle
  imports FileLock MD5 Sparks Globals BlockGet Unlit RetainerSet STMNest STMWake Compact RunQueue Hpc PrimFloat PerCC
begin

text \<open>
  Verification of C components of the Glasgow Haskell Compiler: the data structures and the
  memory management at the bottom of the runtime system (\<open>src/rts\<close>, \<open>src/includes/rts\<close>), the MD5
  digests that fingerprint interface files (\<open>src/compiler/utils/md5.c\<close>) and the literate script
  filter (\<open>src/utils/unlit/unlit.c\<close>).

  \<^bold>\<open>The program's parts and how they interact.\<close>  Haskell code runs in a heap made of blocks; blocks
  are carved by the block allocator out of megablocks, which come from the operating system and
  are entered in a map that answers whether an address belongs to the heap.  Hash tables serve
  file locking and stable names.  Work-stealing deques hold sparks, which are pruned at garbage
  collection.  Transactions of Haskell threads log their reads and writes and commit
  atomically; threads that wait for a variable are on its watch queue.  The global store lets several copies of the base library share state.  Retainer
  sets belong to the retainer profiler; the cost-centre profiler attributes time and allocation to stacks of cost
  centres, and program coverage keeps counters over several runs.  Runnable threads are in queues.  The
  compacting collector threads pointers through objects.  The digests and the filter are used by the compiler.

  \<^bold>\<open>Theories and sources.\<close>  Every definition of a model keeps the name of the C function it
  translates; a loop inside a function is a function of its own, named after it.

    \<^item> \<open>Prelude\<close>: machine types (64-bit build), addresses, linked lists in a store.
    \<^item> \<open>HashTable\<close>: \<open>rts/Hash.c\<close>, linear hashing with segments, a split pointer and a free list of
      cells.  The table behaves as a finite map with shadowing; removal takes one entry; freeing
      hands every datum to the caller's function; splitting a bucket reverses the order of
      entries with equal keys.
    \<^item> \<open>FileLock\<close>: \<open>rts/posix/FileLock.c\<close>, a client of two hash tables.  Many readers or one writer;
      \<open>lockFile\<close> and \<open>unlockFile\<close> refine an abstract lock table.
    \<^item> \<open>MD5\<close>: \<open>compiler/utils/md5.c\<close>.  The unrolled transformation is the one of RFC 1321, and any
      sequence of updates digests the concatenation of the input, on both byte orders.
    \<^item> \<open>WSDeque\<close>: \<open>rts/WSDeque.c\<close>.  Owner and thieves as a step relation with one step per access
      to shared memory: no element is lost or taken twice.  The whole operations are sequences
      of such steps, and any run of them by one thread answers like a bounded list.
    \<^item> \<open>Closures\<close>, \<open>Sparks\<close>: \<open>rts/ClosureFlags.c\<close>, the tagging macros, \<open>rts/Sparks.c\<close>; pruning keeps the
      sparks that were reached and have work left, specified from the state of the heap.
    \<^item> \<open>Stable\<close>: \<open>rts/Stable.c\<close>, stable pointers and names with reference counts, the free list
      threaded through the table and the hash table of addresses.
    \<^item> \<open>Globals\<close>: \<open>rts/Globals.c\<close>; under any interleaving all callers agree on the first pointer.
    \<^item> \<open>Block\<close>: \<open>includes/rts/storage/Block.h\<close>, address arithmetic and doubly linked lists.
    \<^item> \<open>MBlock\<close>: \<open>rts/sm/MBlock.c\<close>, \<open>MBlock.h\<close>, \<open>rts/posix/OSMem.c\<close>; the heap map with its cache
      answers membership in the set of heap megablocks; regions obtained from the kernel are
      fresh and aligned whatever addresses it answers.
    \<^item> \<open>BlockAlloc\<close>: every function of \<open>rts/sm/BlockAlloc.c\<close>; \<open>BlockTiling\<close>, \<open>BlockInv\<close>, \<open>BlockAPI\<close>,
      \<open>BlockGet\<close>: its invariant (groups tile megablocks, free lists by size class, sorted and
      coalesced list of free megablocks, the count of allocated blocks, the heap map), that freeing
      and allocating keep it, and what they give their clients.
    \<^item> \<open>RetainerSet\<close>: \<open>rts/RetainerSet.c\<close>, \<open>RetainerSet.h\<close>; hash-consed sorted sets.
    \<^item> \<open>STM\<close>: \<open>rts/STM.c\<close> in the configuration without threads, every function, with invariants and
      watch queues.  \<open>STMCommit\<close>: a transaction that commits has read and written as if it ran alone
      at its commit; \<open>STMNest\<close>: what the enclosing transaction sees of a nested one;
      \<open>STMSystem\<close>: all threads together as a step relation, whose committed transactions are serial
      in the order of their commits;
      \<open>STMWait\<close>: watch queues, that a commit returns and is atomic, and whom it wakes; \<open>STMWake\<close>: all threads
      together, running, sleeping and waking: no wake-up is lost.
    \<^item> \<open>RunQueue\<close>: \<open>rts/Schedule.h\<close>, \<open>rts/Threads.c\<close>, write barriers of \<open>rts/sm/Storage.c\<close> and
      \<open>rts/Capability.h\<close>; the run queue threaded through thread objects is a
      double-ended queue, scheduling from it is fair, and waking a thread is exact and idempotent.
    \<^item> \<open>Compact\<close>: \<open>rts/sm/Compact.c\<close>, \<open>Compact.h\<close>; threading of pointers through the objects they point
      to refines a specification in which memory does not change until an object is unthreaded.
    \<^item> \<open>Unlit\<close>: \<open>utils/unlit/unlit.c\<close>; the character-level filter refines a specification on lines.
    \<^item> \<open>Hpc\<close>: \<open>rts/Hpc.c\<close>; registration of modules, the parser and the printer of tix files, start-up and
      exit.  Counters written at exit are read back by the next run, exactly, for every module.
    \<^item> \<open>PrimFloat\<close>: \<open>rts/StgPrimFloat.c\<close>; decoding of floating point numbers is exact, the loops that
      normalise denormalised numbers end, and encoding inverts decoding.
    \<^item> \<open>CostCentres\<close>: \<open>rts/Profiling.c\<close>, \<open>includes/rts/prof/CCS.h\<close>, selectors of \<open>rts/ProfHeap.c\<close>; nodes of the
      profiler stand for lists of cost centres, one for each list, pushing is memoised, and entering
      a function is an operation on lists: the one of its comment, except that a function stack of one cost
      centre on \<open>MAIN\<close> changes nothing.
    \<^item> \<open>ProfReport\<close>: \<open>rts/Profiling.c\<close>; the walks over the tree of stacks end, the totals count every stack once,
      and inherited costs are the sums over the stacks above.
    \<^item> \<open>PerCC\<close>: \<open>rts/Profiling.c\<close>; each cost centre is charged the stacks it is on top of, and the report per cost
      centre is a sorted selection of the list of cost centres.

  \<^bold>\<open>Conventions.\<close>  State is passed explicitly as a record; pointers are addresses into a store; a
  failed assertion, an abort or a read of unwritten storage is \<open>None\<close>, an exit of a program the
  left injection of a sum.  Words have their width where wrap-around matters (hash keys, deque
  indices, digests, heap map, allocation counts).  Loops that follow pointers are
  \<^theory_text>\<open>partial_function (option)\<close>, and the theorems show that they return; no fuel is used.
  Code outside the sources (the kernel's \<open>mmap\<close> and \<open>munmap\<close>, \<open>malloc\<close>, the garbage collector's view
  of the heap) is a parameter with its documented behaviour as a hypothesis.  Interfaces are
  locales, interpreted on the model's own definitions: hash functions and comparisons, dictionaries, lists
  threaded through a store, bounded deques and queues of threads.

  \<^bold>\<open>Bounds.\<close>  Heap addresses are below \<open>2^48\<close>, as the source's 64-bit heap map assumes; regions of
  more than 4096 megablocks are excluded from \<open>getMBlocks_region\<close> because the 32-bit product in the
  source wraps there, which \<open>getMBlocks_wraps_4G\<close> proves, and so are they from \<open>allocGroup_correct\<close>.  Counters and
  identifiers whose width the code never reaches in practice are unbounded; each theory says which.

  \<^bold>\<open>Not modelled.\<close>  The traversal of closures by the garbage collector, the scheduler loop, the interpreter and the linker work on the
  layout of generated code and on machine registers; the locks of transactional memory in
  the threaded configuration and arenas are left out.  Printing, the layout of profiling reports, command line flags and calls of
  the operating system other than the above have no behaviour worth stating here.  The compiler
  itself is written in Haskell and out of scope.
\<close>

end
